(* ===== verification/Errors.thy ===== *)
theory Errors
  imports Main
begin

text \<open>
  The exceptions of the program. Python's built-in classes the code raises or catches, the
  redacted classes of \<open>smartthings_local/errors.py\<close>, the codec errors of
  \<open>coap_tcp.py\<close> and \<open>ble_ocf.py\<close>, the three exceptions of the DTLS engine
  (\<open>WantRead\<close>, \<open>ZeroReturn\<close>, \<open>DtlsError\<close>), pyOpenSSL's \<open>crypto.Error\<close>, and the two internal signals of the
  session and the handshake driver. A raise is a value \<open>Inl e\<close> of a sum type everywhere in
  the development; an \<open>except\<close> clause is a test with \<open>isinstance_of\<close>, which follows the
  class statements of the source.
\<close>

section \<open>Exceptions\<close>

datatype exc =
    Py_BaseException | Py_Exception
  | Py_TypeError | Py_ValueError | Py_OverflowError | Py_ArithmeticError
  | Py_LookupError | Py_IndexError | Py_KeyError | Py_StructError | Py_UnicodeError
  | Py_RuntimeError | Py_AttributeError | Py_OSError | Py_TimeoutError | Py_ConnectionError | Py_PermissionError
  | SmartThingsLocalError | EndpointError | ProbeError | SessionError | AuthenticationError
  | AuthorizationError | SessionTimeoutError | PeerInitiatedHandshakeError
  | HandshakePeerCleanupError | SessionClosedError | SessionResetError
  | SessionIdentifierError | MalformedMessageError | BlockwiseError | ObserveError
  | CoapTcpCodecError | BleOcfCodecError | BleOcfInterleavedFrameError
  | DtlsError | WantRead | ZeroReturn | EtagChanged | HandshakeCancelled | Crypto_Error

text \<open>The bases of each class statement, in the order they are written.\<close>

fun bases :: "exc \<Rightarrow> exc list" where
  "bases Py_BaseException = []"
| "bases Py_Exception = [Py_BaseException]"
| "bases Py_OverflowError = [Py_ArithmeticError]"
| "bases Py_IndexError = [Py_LookupError]"
| "bases Py_KeyError = [Py_LookupError]"
| "bases Py_UnicodeError = [Py_ValueError]"
| "bases Py_TimeoutError = [Py_OSError]"
| "bases Py_ConnectionError = [Py_OSError]"
| "bases Py_PermissionError = [Py_OSError]"
| "bases SmartThingsLocalError = [Py_Exception]"
| "bases EndpointError = [SmartThingsLocalError, Py_OSError]"
| "bases ProbeError = [SmartThingsLocalError, Py_ConnectionError]"
| "bases SessionError = [SmartThingsLocalError, Py_ConnectionError]"
| "bases AuthenticationError = [SessionError]"
| "bases AuthorizationError = [SmartThingsLocalError, Py_PermissionError]"
| "bases SessionTimeoutError = [SmartThingsLocalError, Py_TimeoutError]"
| "bases PeerInitiatedHandshakeError = [SessionError]"
| "bases HandshakePeerCleanupError = [SessionTimeoutError]"
| "bases SessionClosedError = [SessionError]"
| "bases SessionResetError = [SessionError]"
| "bases SessionIdentifierError = [SessionError]"
| "bases MalformedMessageError = [SmartThingsLocalError, Py_ValueError]"
| "bases BlockwiseError = [SessionError]"
| "bases ObserveError = [SessionError]"
| "bases CoapTcpCodecError = [Py_ValueError]"
| "bases BleOcfCodecError = [Py_ValueError]"
| "bases BleOcfInterleavedFrameError = [BleOcfCodecError]"
| "bases WantRead = [DtlsError]"
| "bases ZeroReturn = [DtlsError]"
| "bases _ = [Py_Exception]"

text \<open>The height of a class above \<open>BaseException\<close>: what shrinks along \<open>bases\<close>.\<close>

fun height :: "exc \<Rightarrow> nat" where
  "height Py_BaseException = 0"
| "height Py_Exception = 1"
| "height Py_OverflowError = 3"
| "height Py_IndexError = 3"
| "height Py_KeyError = 3"
| "height Py_UnicodeError = 3"
| "height Py_TimeoutError = 3"
| "height Py_ConnectionError = 3"
| "height Py_PermissionError = 3"
| "height EndpointError = 4"
| "height ProbeError = 4"
| "height SessionError = 4"
| "height AuthenticationError = 5"
| "height AuthorizationError = 4"
| "height SessionTimeoutError = 4"
| "height PeerInitiatedHandshakeError = 5"
| "height HandshakePeerCleanupError = 5"
| "height SessionClosedError = 5"
| "height SessionResetError = 5"
| "height SessionIdentifierError = 5"
| "height MalformedMessageError = 4"
| "height BlockwiseError = 5"
| "height ObserveError = 5"
| "height CoapTcpCodecError = 3"
| "height BleOcfCodecError = 3"
| "height BleOcfInterleavedFrameError = 4"
| "height WantRead = 3"
| "height ZeroReturn = 3"
| "height _ = 2"

lemma bases_height: "b \<in> set (bases e) \<Longrightarrow> height b < height e"
  by (cases e) auto

text \<open>
  \<open>isinstance(e, c)\<close>: \<open>c\<close> is the class of \<open>e\<close> or reached from it through the bases. The
  climb is bounded by the height of the class, which every step lowers.
\<close>

fun subclass_within :: "nat \<Rightarrow> exc \<Rightarrow> exc \<Rightarrow> bool" where
  "subclass_within 0 e c = (e = c)"
| "subclass_within (Suc n) e c = (e = c \<or> list_ex (\<lambda>b. subclass_within n b c) (bases e))"

definition isinstance_of :: "exc \<Rightarrow> exc \<Rightarrow> bool" where
  "isinstance_of e c = subclass_within (height e) e c"

lemma subclass_within_refl [simp]: "subclass_within n e e"
  by (cases n) auto

lemma subclass_within_mono: "subclass_within n e c \<Longrightarrow> n \<le> m \<Longrightarrow> subclass_within m e c"
proof (induction n arbitrary: e m)
  case 0
  then show ?case by simp
next
  case (Suc n)
  then obtain k where k: "m = Suc k" "n \<le> k" by (cases m) auto
  with Suc show ?case by (auto simp: list_ex_iff)
qed

text \<open>The redacted error classes: a stable code and a fixed message, and no other detail.\<close>

definition library_errors :: "exc list" where
  "library_errors =
     [SmartThingsLocalError, EndpointError, ProbeError, SessionError, AuthenticationError,
      AuthorizationError, SessionTimeoutError, PeerInitiatedHandshakeError,
      HandshakePeerCleanupError, SessionClosedError, SessionResetError,
      SessionIdentifierError, MalformedMessageError, BlockwiseError, ObserveError]"

fun err_code :: "exc \<Rightarrow> string" where
  "err_code EndpointError = ''endpoint''"
| "err_code ProbeError = ''probe''"
| "err_code SessionError = ''session''"
| "err_code AuthenticationError = ''authentication''"
| "err_code AuthorizationError = ''authorization''"
| "err_code SessionTimeoutError = ''timeout''"
| "err_code PeerInitiatedHandshakeError = ''peer_initiated_handshake''"
| "err_code HandshakePeerCleanupError = ''handshake_peer_cleanup''"
| "err_code SessionClosedError = ''session_closed''"
| "err_code SessionResetError = ''session_reset''"
| "err_code SessionIdentifierError = ''session_identifier''"
| "err_code MalformedMessageError = ''malformed_message''"
| "err_code BlockwiseError = ''blockwise''"
| "err_code ObserveError = ''observe''"
| "err_code _ = ''smartthings_local_error''"

lemma isinstance_self [simp]: "isinstance_of e e"
  by (simp add: isinstance_of_def)

lemma isinstance_base: "b \<in> set (bases e) \<Longrightarrow> isinstance_of b c \<Longrightarrow> isinstance_of e c"
proof -
  assume b: "b \<in> set (bases e)" and c: "isinstance_of b c"
  then obtain n where n: "height e = Suc n" "height b \<le> n"
    using bases_height [OF b] by (cases "height e") auto
  with c have "subclass_within n b c" by (auto simp: isinstance_of_def intro: subclass_within_mono)
  with b n show ?thesis by (auto simp: isinstance_of_def list_ex_iff)
qed

text \<open>The \<open>except\<close> clauses the session and the poller use, decided once.\<close>

lemma isinstance_timeout [simp]:
  "isinstance_of SessionTimeoutError Py_TimeoutError"
  "isinstance_of HandshakePeerCleanupError Py_TimeoutError"
  "\<not> isinstance_of SessionClosedError Py_TimeoutError"
  "\<not> isinstance_of EndpointError Py_TimeoutError"
  "\<not> isinstance_of BlockwiseError Py_TimeoutError"
  by (simp_all add: isinstance_of_def eval_nat_numeral)

lemma isinstance_connection [simp]:
  "isinstance_of SessionClosedError Py_ConnectionError"
  "isinstance_of BlockwiseError Py_ConnectionError"
  "\<not> isinstance_of EndpointError Py_ConnectionError"
  "\<not> isinstance_of SessionTimeoutError Py_ConnectionError"
  by (simp_all add: isinstance_of_def eval_nat_numeral)

end
