(* ===== verification/Prelude.thy ===== *)
theory Prelude
  imports Complex_Main Errors "HOL-Library.Word" "HOL-Library.Sublist"
    "HOL-Library.Code_Target_Nat"
begin

text \<open>
  What the components share: Python values and byte strings, the sequencing of computations
  that may raise, checked indexing and slicing, big-endian integers, \<open>str.join\<close>,
  \<open>str.split\<close> and UTF-8, and the lemma collections \<open>result_simps\<close> (sequencing) and
  \<open>byte_simps\<close> (bits and byte values).
\<close>

named_theorems result_simps \<open>sequencing of computations that may raise\<close>
named_theorems byte_simps \<open>bytes, masks and shifts as arithmetic\<close>

unbundle bit_operations_syntax

section \<open>Computations that may raise\<close>

type_synonym 'a result = "exc + 'a"

definition andThen :: "'a result \<Rightarrow> ('a \<Rightarrow> 'b result) \<Rightarrow> 'b result" where
  "andThen m f = (case m of Inl e \<Rightarrow> Inl e | Inr x \<Rightarrow> f x)"

text \<open>\<open>if bad: raise e\<close>.\<close>

definition raise_if :: "bool \<Rightarrow> exc \<Rightarrow> unit result" where
  "raise_if bad e = (if bad then Inl e else Inr ())"

lemma andThen_simps [simp]:
  "andThen (Inl e) f = Inl e"
  "andThen (Inr x) f = f x"
  by (simp_all add: andThen_def)

lemma andThen_Inr_iff [result_simps]:
  "andThen m f = Inr y \<longleftrightarrow> (\<exists>x. m = Inr x \<and> f x = Inr y)"
  by (cases m) auto

lemma andThen_Inl_iff [result_simps]:
  "andThen m f = Inl e \<longleftrightarrow> m = Inl e \<or> (\<exists>x. m = Inr x \<and> f x = Inl e)"
  by (cases m) auto

lemma andThen_cong [fundef_cong]:
  "m = m' \<Longrightarrow> (\<And>x. m' = Inr x \<Longrightarrow> f x = f' x) \<Longrightarrow> andThen m f = andThen m' f'"
  by (cases m') auto

lemma andThen_assoc: "andThen (andThen m f) g = andThen m (\<lambda>x. andThen (f x) g)"
  by (cases m) auto

lemma raise_if_simps [simp]:
  "raise_if True e = Inl e"
  "raise_if False e = Inr ()"
  by (simp_all add: raise_if_def)

lemma raise_if_iff [result_simps]:
  "raise_if b e = Inr u \<longleftrightarrow> \<not> b"
  "raise_if b e = Inl e' \<longleftrightarrow> b \<and> e' = e"
  by (auto simp: raise_if_def)

text \<open>
  The same for an operation on a state: its result, or the exception it left with, and the state
  afterwards, because what the code assigned before it raised stays assigned.
\<close>

definition then_do :: "'a result \<times> 's \<Rightarrow> ('a \<Rightarrow> 's \<Rightarrow> 'b result \<times> 's) \<Rightarrow> 'b result \<times> 's" where
  "then_do m f = (case m of (Inl e, s) \<Rightarrow> (Inl e, s) | (Inr x, s) \<Rightarrow> f x s)"

lemma then_do_simps [simp]:
  "then_do (Inl e, s) f = (Inl e, s)"
  "then_do (Inr x, s) f = f x s"
  by (simp_all add: then_do_def)

lemma then_do_cong [fundef_cong]:
  "m = m' \<Longrightarrow> (\<And>x s. m' = (Inr x, s) \<Longrightarrow> f x s = f' x s) \<Longrightarrow> then_do m f = then_do m' f'"
  by (auto simp: then_do_def split: prod.splits sum.splits)

lemma then_do_cases:
  "then_do m f = (r, s') \<Longrightarrow>
     (\<exists>e. m = (Inl e, s') \<and> r = Inl e) \<or> (\<exists>x s. m = (Inr x, s) \<and> f x s = (r, s'))"
  by (auto simp: then_do_def split: prod.splits sum.splits)

lemma then_do_state:
  assumes "P (snd m)" and "\<And>x s. m = (Inr x, s) \<Longrightarrow> P s \<Longrightarrow> P (snd (f x s))"
  shows "P (snd (then_do m f))"
  using assms by (cases m; cases "fst m") auto

section \<open>Bytes\<close>

type_synonym byte = "8 word"
type_synonym bytes = "byte list"

lemma mask_16: "(n::nat) AND 65535 = n mod 65536"
proof -
  have "(65535::nat) = mask 16" by (simp add: mask_eq_exp_minus_1)
  then show ?thesis by (simp only: take_bit_eq_mask [symmetric] take_bit_eq_mod) simp
qed

text \<open>The byte of a small number (reduced modulo 256 beyond).\<close>

definition mk_byte :: "nat \<Rightarrow> byte" where
  "mk_byte n = of_nat n"

text \<open>Python's \<open>bytes([n])\<close> for one element: a \<open>ValueError\<close> outside 0..255.\<close>

definition byte_of :: "nat \<Rightarrow> byte result" where
  "byte_of n = (if n < 256 then Inr (mk_byte n) else Inl Py_ValueError)"

text \<open>\<open>data[i]\<close> with a non-negative index: an \<open>IndexError\<close> past the end.\<close>

definition item :: "'a list \<Rightarrow> nat \<Rightarrow> 'a result" where
  "item xs i = (if i < length xs then Inr (xs ! i) else Inl Py_IndexError)"

text \<open>\<open>data[i:j]\<close> with non-negative bounds: clipped, empty when \<open>j <= i\<close>.\<close>

definition slice :: "'a list \<Rightarrow> nat \<Rightarrow> nat \<Rightarrow> 'a list" where
  "slice xs i j = take (j - i) (drop i xs)"

text \<open>\<open>int.from_bytes(b, 'big')\<close> and \<open>int.to_bytes(k, 'big')\<close>.\<close>

definition be_nat :: "bytes \<Rightarrow> nat" where
  "be_nat bs = foldl (\<lambda>acc b. acc * 256 + unat b) 0 bs"

fun nat_be :: "nat \<Rightarrow> nat \<Rightarrow> bytes" where
  "nat_be 0 n = []"
| "nat_be (Suc k) n = nat_be k (n div 256) @ [mk_byte (n mod 256)]"

definition to_bytes :: "nat \<Rightarrow> nat \<Rightarrow> bytes result" where
  "to_bytes k n = (if n < 256 ^ k then Inr (nat_be k n) else Inl Py_OverflowError)"

text \<open>\<open>struct.pack('>H', n)\<close> and \<open>struct.pack('>I', n)\<close>: a \<open>struct.error\<close> when out of range.\<close>

definition pack_be :: "nat \<Rightarrow> nat \<Rightarrow> bytes result" where
  "pack_be k n = (if n < 256 ^ k then Inr (nat_be k n) else Inl Py_StructError)"

lemma unat_byte_lt: "unat (b::byte) < 256"
  using unsigned_less [of b] by simp

lemma unat_mk_byte [simp]: "unat (mk_byte n) = n mod 256"
  by (simp add: mk_byte_def unat_of_nat take_bit_eq_mod)

lemma mk_byte_unat [simp]: "mk_byte (unat b) = b"
  by (simp add: mk_byte_def)

lemma unat_byte_mod [simp]: "unat (b::byte) mod 256 = unat b"
  by (simp add: unat_byte_lt)

lemma unat_byte_div [simp]: "unat (b::byte) div 256 = 0"
  by (simp add: unat_byte_lt)

lemma mk_byte_mod [simp]: "mk_byte (n mod 256) = mk_byte n"
  by (metis mk_byte_unat unat_mk_byte)

lemma mk_byte_eq_iff: "mk_byte n = b \<longleftrightarrow> n mod 256 = unat b"
  by (metis mk_byte_mod mk_byte_unat unat_mk_byte)

lemma byte_of_Inr_iff [result_simps]: "byte_of n = Inr b \<longleftrightarrow> n < 256 \<and> b = mk_byte n"
  by (auto simp: byte_of_def)

lemma byte_of_ok [simp]: "n < 256 \<Longrightarrow> byte_of n = Inr (mk_byte n)"
  by (simp add: byte_of_def)

lemma item_Inr_iff [result_simps]: "item xs i = Inr x \<longleftrightarrow> i < length xs \<and> x = xs ! i"
  by (auto simp: item_def)

lemma item_ok [simp]: "i < length xs \<Longrightarrow> item xs i = Inr (xs ! i)"
  by (simp add: item_def)

lemma length_slice [simp]: "length (slice xs i j) = min (j - i) (length xs - i)"
  by (simp add: slice_def min.commute)

lemma slice_0 [simp]: "slice xs 0 n = take n xs"
  by (simp add: slice_def)

lemma slice_append_right: "length xs \<le> i \<Longrightarrow> slice (xs @ ys) i j = slice ys (i - length xs) (j - length xs)"
  by (simp add: slice_def diff_diff_eq)

lemma drop_slice: "i \<le> j \<Longrightarrow> slice xs i j @ drop j xs = drop i xs"
  by (simp add: slice_def) (metis append_take_drop_id drop_drop le_add_diff_inverse2)

lemma slice_drop: "slice (drop k xs) i j = slice xs (k + i) (k + j)"
  by (simp add: slice_def add.commute)

lemma slice_slice: "i \<le> j \<Longrightarrow> a + j \<le> b \<Longrightarrow> slice (slice xs a b) i j = slice xs (a + i) (a + j)"
  by (simp add: slice_def drop_take min_def add.commute)

lemma foldl_be_nat: "foldl (\<lambda>acc b. acc * 256 + unat (b::byte)) a bs = a * 256 ^ length bs + be_nat bs"
  unfolding be_nat_def
proof (induction bs arbitrary: a)
  case Nil
  then show ?case by simp
next
  case (Cons b bs)
  from Cons [of "a * 256 + unat b"] Cons [of "unat b"] show ?case
    by (simp add: algebra_simps)
qed

lemma be_nat_Nil [simp]: "be_nat [] = 0"
  by (simp add: be_nat_def)

lemma be_nat_Cons: "be_nat (b # bs) = unat b * 256 ^ length bs + be_nat bs"
  using foldl_be_nat [of "unat b" bs] by (simp add: be_nat_def)

lemma be_nat_snoc: "be_nat (bs @ [b]) = be_nat bs * 256 + unat b"
  by (simp add: be_nat_def)

lemma be_nat_append: "be_nat (as @ bs) = be_nat as * 256 ^ length bs + be_nat bs"
  by (induction as) (simp_all add: be_nat_Cons algebra_simps power_add)

lemma be_nat_less: "be_nat bs < 256 ^ length bs"
proof (induction bs)
  case Nil
  then show ?case by simp
next
  case (Cons b bs)
  have "unat b * 256 ^ length bs + be_nat bs < (unat b + 1) * 256 ^ length bs"
    using Cons by (simp add: algebra_simps)
  also have "\<dots> \<le> 256 * 256 ^ length bs"
    using unat_byte_lt [of b] by (intro mult_right_mono) linarith+
  finally show ?case by (simp add: be_nat_Cons)
qed

lemma length_nat_be [simp]: "length (nat_be k n) = k"
  by (induction k arbitrary: n) auto

lemma nat_be_eq_Nil [simp]: "nat_be k n = [] \<longleftrightarrow> k = 0"
  by (cases k) auto

lemma nat_be_small:
  "nat_be 1 n = [mk_byte n]"
  "nat_be 2 n = [mk_byte (n div 256), mk_byte n]"
  "nat_be 3 n = [mk_byte (n div 65536), mk_byte (n div 256), mk_byte n]"
  "nat_be 4 n = [mk_byte (n div 16777216), mk_byte (n div 65536), mk_byte (n div 256), mk_byte n]"
  by (simp_all add: numeral_2_eq_2 numeral_3_eq_3 nat_be.simps(2) [of 3, simplified] div_mult2_eq
      [symmetric])

lemma be_nat_nat_be: "be_nat (nat_be k n) = n mod 256 ^ k"
proof (induction k arbitrary: n)
  case 0
  then show ?case by simp
next
  case (Suc k)
  have "n mod (256 * 256 ^ k) = 256 * (n div 256 mod 256 ^ k) + n mod 256"
    by (rule mod_mult2_eq)
  then show ?case by (simp add: be_nat_snoc Suc)
qed

lemma be_nat_nat_be_id [simp]: "n < 256 ^ k \<Longrightarrow> be_nat (nat_be k n) = n"
  by (simp add: be_nat_nat_be)

lemma nat_be_be_nat: "length bs = k \<Longrightarrow> nat_be k (be_nat bs) = bs"
proof (induction k arbitrary: bs)
  case 0
  then show ?case by simp
next
  case (Suc k)
  then obtain as b where bs: "bs = as @ [b]" "length as = k"
    by (metis append_butlast_last_id length_butlast diff_Suc_1 list.size(3) nat.simps(3))
  then show ?case using Suc.IH [of as] by (simp add: be_nat_snoc mk_byte_eq_iff)
qed

lemma pack_be_Inr_iff [result_simps]: "pack_be k n = Inr bs \<longleftrightarrow> n < 256 ^ k \<and> bs = nat_be k n"
  by (auto simp: pack_be_def)

lemma to_bytes_Inr_iff [result_simps]: "to_bytes k n = Inr bs \<longleftrightarrow> n < 256 ^ k \<and> bs = nat_be k n"
  by (auto simp: to_bytes_def)

text \<open>\<open>int.bit_length()\<close>.\<close>

fun bit_length :: "nat \<Rightarrow> nat" where
  "bit_length n = (if n = 0 then 0 else Suc (bit_length (n div 2)))"

declare bit_length.simps [simp del]

lemma bit_length_bound: "n < 2 ^ bit_length n"
proof (induction n rule: bit_length.induct)
  case (1 n)
  show ?case
  proof (cases "n = 0")
    case True
    then show ?thesis by simp
  next
    case False
    with 1 have "n div 2 < 2 ^ bit_length (n div 2)" by simp
    then have "n < 2 * 2 ^ bit_length (n div 2)" by linarith
    with False show ?thesis by (simp add: bit_length.simps [of n])
  qed
qed

lemma bit_length_least: "n \<noteq> 0 \<Longrightarrow> 2 ^ (bit_length n - 1) \<le> n"
proof (induction n rule: bit_length.induct)
  case (1 n)
  show ?case
  proof (cases "n div 2 = 0")
    case True
    with 1 have "n = 1" by auto
    then show ?thesis by (simp add: bit_length.simps)
  next
    case False
    then have "bit_length (n div 2) \<noteq> 0" by (simp add: bit_length.simps [of "n div 2"])
    with 1 False have "2 * 2 ^ (bit_length (n div 2) - 1) \<le> n" by force
    with \<open>bit_length (n div 2) \<noteq> 0\<close> "1.prems" show ?thesis
      by (simp add: bit_length.simps [of n] power_Suc [symmetric] del: power_Suc)
  qed
qed

text \<open>Shifts and masks of non-negative Python integers are division and remainder.\<close>

lemma shift_right [byte_simps]: "drop_bit k (n::nat) = n div 2 ^ k"
  by (simp add: drop_bit_eq_div)

lemma shift_left [byte_simps]: "push_bit k (n::nat) = n * 2 ^ k"
  by (simp add: push_bit_eq_mult)

lemma and_mask_nat: "n AND (2 ^ k - 1) = n mod 2 ^ (k::nat)" for n :: nat
  by (simp add: take_bit_eq_mod [symmetric] take_bit_eq_mask mask_eq_exp_minus_1)

lemma and_mask_eq: "n AND m = n mod (m + 1)" if "m + 1 = 2 ^ k" for n m k :: nat
  using that and_mask_nat [of n k] by (metis diff_add_inverse2)

lemma and_masks [byte_simps]:
  fixes n :: nat
  shows "n AND 1 = n mod 2" and "n AND 3 = n mod 4" and "n AND 7 = n mod 8"
    and "n AND 15 = n mod 16" and "n AND 31 = n mod 32" and "n AND 127 = n mod 128"
    and "n AND 255 = n mod 256" and "n AND 65535 = n mod 65536"
  by (simp_all add: and_mask_eq [where k = 1] and_mask_eq [where k = 2] and_mask_eq [where k = 3]
      and_mask_eq [where k = 4] and_mask_eq [where k = 5] and_mask_eq [where k = 7]
      and_mask_eq [where k = 8] and_mask_eq [where k = 16])

lemma or_shifted [byte_simps]: "hi * 2 ^ k OR lo = hi * 2 ^ k + lo" if "lo < 2 ^ k" for hi lo :: nat
proof -
  from that have lo: "take_bit k lo = lo" by (simp add: take_bit_nat_eq_self)
  have "\<not> bit lo n" if "k \<le> n" for n
    using that by (subst lo [symmetric]) (simp add: bit_take_bit_iff)
  then have "push_bit k hi AND lo = 0"
    by (auto simp: bit_eq_iff bit_simps)
  then show ?thesis
    by (simp add: disjunctive_add_eq_or push_bit_eq_mult [symmetric])
qed


section \<open>Strings\<close>

text \<open>
  A Python \<open>str\<close> is a list of code points. \<open>str_of\<close> writes a literal;
  \<open>py_join\<close> and \<open>py_split\<close> are \<open>sep.join(parts)\<close> and \<open>s.split(c)\<close> for a
  one-character separator.
\<close>

type_synonym pystr = "nat list"

definition str_of :: "string \<Rightarrow> pystr" where
  "str_of s = map of_char s"

fun py_join :: "'a list \<Rightarrow> 'a list list \<Rightarrow> 'a list" where
  "py_join sep [] = []"
| "py_join sep [x] = x"
| "py_join sep (x # y # ys) = x @ sep @ py_join sep (y # ys)"

fun py_split :: "'a \<Rightarrow> 'a list \<Rightarrow> 'a list list" where
  "py_split c [] = [[]]"
| "py_split c (x # xs) =
     (if x = c then [] # py_split c xs
      else (case py_split c xs of [] \<Rightarrow> [[x]] | y # ys \<Rightarrow> (x # y) # ys))"

lemma py_split_not_Nil [simp]: "py_split c xs \<noteq> []"
  by (induction xs) (auto split: list.splits)

lemma py_split_append_sep: "c \<notin> set xs \<Longrightarrow> py_split c (xs @ c # ys) = xs # py_split c ys"
  by (induction xs) auto

lemma py_split_no_sep: "c \<notin> set xs \<Longrightarrow> py_split c xs = [xs]"
  by (induction xs) auto

lemma py_split_join:
  "xss \<noteq> [] \<Longrightarrow> \<forall>xs \<in> set xss. c \<notin> set xs \<Longrightarrow> py_split c (py_join [c] xss) = xss"
  by (induction "[c]" xss rule: py_join.induct) (auto simp: py_split_append_sep py_split_no_sep)

text \<open>
  \<open>str.encode('utf-8')\<close>: surrogates cannot be encoded (\<open>UnicodeEncodeError\<close>). Values
  beyond 0x10FFFF are no code points; they take the same branch.
\<close>

definition utf8_char :: "nat \<Rightarrow> bytes result" where
  "utf8_char c =
     (if c < 128 then Inr [mk_byte c]
      else if c < 2048 then Inr [mk_byte (192 + c div 64), mk_byte (128 + c mod 64)]
      else if 55296 \<le> c \<and> c < 57344 then Inl Py_UnicodeError
      else if c < 65536 then
        Inr [mk_byte (224 + c div 4096), mk_byte (128 + c div 64 mod 64), mk_byte (128 + c mod 64)]
      else if c < 1114112 then
        Inr [mk_byte (240 + c div 262144), mk_byte (128 + c div 4096 mod 64),
             mk_byte (128 + c div 64 mod 64), mk_byte (128 + c mod 64)]
      else Inl Py_UnicodeError)"

fun utf8_encode :: "pystr \<Rightarrow> bytes result" where
  "utf8_encode [] = Inr []"
| "utf8_encode (c # cs) =
     andThen (utf8_char c) (\<lambda>b. andThen (utf8_encode cs) (\<lambda>bs. Inr (b @ bs)))"

lemma utf8_char_not_Nil: "utf8_char c = Inr b \<Longrightarrow> b \<noteq> []"
  by (auto simp: utf8_char_def split: if_splits)

lemma utf8_encode_Nil_iff: "utf8_encode s = Inr [] \<longleftrightarrow> s = []"
  by (cases s) (auto simp: result_simps dest: utf8_char_not_Nil)

lemma utf8_encode_error: "utf8_encode s = Inl e \<Longrightarrow> e = Py_UnicodeError"
  by (induction s) (auto simp: result_simps utf8_char_def split: if_splits)

section \<open>Dynamically typed values\<close>

text \<open>
  The values the validators of the code distinguish with \<open>isinstance\<close>. \<open>PyBytes\<close> stands for
  \<open>bytes\<close>, \<open>bytearray\<close> and a live contiguous \<open>memoryview\<close>; \<open>PyReleasedView\<close> for a released
  \<open>memoryview\<close>; \<open>PyObject\<close> for a value of any other class. \<open>bool\<close> is a subclass of
  \<open>int\<close> in Python, so the code tests for it first; here it has its own constructor.
\<close>

datatype pyval =
    PyNone | PyBool bool | PyInt int | PyFloat real | PyStr pystr | PyBytes bytes
  | PyReleasedView | PyList "pyval list" | PyTuple "pyval list"
  | PyDict "(pyval \<times> pyval) list" | PyObject

text \<open>\<open>iter(x)\<close>: what a loop over the value visits; \<open>None\<close> when it is not iterable.\<close>

fun py_iter :: "pyval \<Rightarrow> pyval list option" where
  "py_iter (PyStr s) = Some (map (\<lambda>c. PyStr [c]) s)"
| "py_iter (PyBytes bs) = Some (map (\<lambda>b. PyInt (int (unat b))) bs)"
| "py_iter (PyList xs) = Some xs"
| "py_iter (PyTuple xs) = Some xs"
| "py_iter (PyDict kvs) = Some (map fst kvs)"
| "py_iter _ = None"

text \<open>The values of an argument that is iterable and not itself a string.\<close>

fun iter_of :: "pyval \<Rightarrow> pyval list result" where
  "iter_of (PyStr _) = Inl Py_TypeError"
| "iter_of (PyBytes _) = Inl Py_TypeError"
| "iter_of PyReleasedView = Inl Py_TypeError"
| "iter_of v = (case py_iter v of None \<Rightarrow> Inl Py_TypeError | Some vs \<Rightarrow> Inr vs)"

text \<open>What can be a key of a dictionary or an element of a set.\<close>

fun hashable :: "pyval \<Rightarrow> bool" where
  "hashable (PyList _) = False"
| "hashable (PyDict _) = False"
| "hashable (PyTuple xs) = list_all hashable xs"
| "hashable _ = True"

text \<open>The numbers, which compare by value across their types.\<close>

fun py_number :: "pyval \<Rightarrow> real option" where
  "py_number (PyBool b) = Some (if b then 1 else 0)"
| "py_number (PyInt n) = Some (of_int n)"
| "py_number (PyFloat r) = Some r"
| "py_number _ = None"

text \<open>
  \<open>float(x)\<close> of a number that is not a bool, as \<open>math.isfinite\<close> takes it: the largest integers round to
  \<open>2 ^ 1024\<close> and raise \<open>OverflowError\<close>. A \<open>PyFloat\<close> is a finite float; rounding is not modelled.
\<close>

definition float_of :: "pyval \<Rightarrow> real result" where
  "float_of v =
     (case v of
        PyInt n \<Rightarrow>
          if n \<ge> 2 ^ 1024 - 2 ^ 970 \<or> n \<le> - (2 ^ 1024 - 2 ^ 970) then Inl Py_OverflowError else Inr (of_int n)
      | PyFloat x \<Rightarrow> Inr x
      | _ \<Rightarrow> Inl Py_TypeError)"

text \<open>Small integers are compared with a small bound first, so that runs on concrete timeouts evaluate quickly.\<close>

lemma float_of_code [code]:
  "float_of v =
     (case v of
        PyInt n \<Rightarrow>
          if \<bar>n\<bar> < 4294967296 then Inr (of_int n)
          else if n \<ge> 2 ^ 1024 - 2 ^ 970 \<or> n \<le> - (2 ^ 1024 - 2 ^ 970) then Inl Py_OverflowError else Inr (of_int n)
      | PyFloat x \<Rightarrow> Inr x
      | _ \<Rightarrow> Inl Py_TypeError)"
proof -
  have "(4294967296 :: int) \<le> 2 ^ 1024 - 2 ^ 970" by simp
  then show ?thesis by (auto simp: float_of_def split: pyval.split simp del: power_numeral)
qed

end
