(* ===== verification/Coap_Wire.thy ===== *)
theory Coap_Wire
  imports Prelude
begin

text \<open>
  The CoAP datagram codec of \<open>smartthings_local/protocol/coap.py\<close> (RFC 7252, 7641, 7959):
  option headers, the strict decoder, the builder, Block-N values, uint options, the
  classification of a possible response, the GET builder and the DTLS record splitter.
  The main facts: the decoder raises nothing but \<open>MalformedMessageError\<close>, decoding inverts
  building, and building inverts decoding, so the wire form is canonical.
\<close>

section \<open>Constants\<close>

abbreviation (input) "URI_PATH \<equiv> 11 :: nat"
abbreviation (input) "URI_QUERY \<equiv> 15 :: nat"
abbreviation (input) "OBSERVE \<equiv> 6 :: nat"
abbreviation (input) "ETAG \<equiv> 4 :: nat"
abbreviation (input) "CONTENT_FORMAT \<equiv> 12 :: nat"
abbreviation (input) "ACCEPT \<equiv> 17 :: nat"
abbreviation (input) "BLOCK2 \<equiv> 23 :: nat"
abbreviation (input) "BLOCK1 \<equiv> 27 :: nat"
abbreviation (input) "SIZE2 \<equiv> 28 :: nat"
abbreviation (input) "SIZE1 \<equiv> 60 :: nat"
abbreviation (input) "TYPE_CON \<equiv> 0 :: nat"
abbreviation (input) "TYPE_NON \<equiv> 1 :: nat"
abbreviation (input) "TYPE_ACK \<equiv> 2 :: nat"
abbreviation (input) "TYPE_RST \<equiv> 3 :: nat"
abbreviation (input) "METHOD_GET \<equiv> 1 :: nat"
abbreviation (input) "METHOD_POST \<equiv> 2 :: nat"
abbreviation (input) "METHOD_DELETE \<equiv> 4 :: nat"
abbreviation (input) "CF_CBOR \<equiv> [60] :: bytes"
abbreviation (input) "OBSERVE_REGISTER \<equiv> [] :: bytes"
abbreviation (input) "OBSERVE_DEREGISTER \<equiv> [1] :: bytes"
abbreviation (input) "BLOCK_SZX \<equiv> 6 :: nat"
abbreviation (input) "MAX_BLOCK2_PAYLOAD_BYTES \<equiv> 65536 :: nat"

definition MAX_BLOCK2_BLOCKS :: nat where
  "MAX_BLOCK2_BLOCKS = MAX_BLOCK2_PAYLOAD_BYTES div push_bit (BLOCK_SZX + 4) 1"

type_synonym coap_option = "nat \<times> bytes"

record coap_message =
  m_mtype :: nat
  m_code :: nat
  m_mid :: nat
  m_token :: bytes
  m_options :: "coap_option list"
  m_payload :: bytes

section \<open>Option headers\<close>

definition vlen :: "nat \<Rightarrow> (nat \<times> bytes) result" where
  "vlen v =
     (if v < 13 then Inr (v, [])
      else if v < 269 then andThen (byte_of (v - 13)) (\<lambda>b. Inr (13, [b]))
      else andThen (pack_be 2 (v - 269)) (\<lambda>bs. Inr (14, bs)))"

text \<open>
  The loop of \<open>encode_options\<close> from the previous option number \<open>prev\<close>. It runs on the sorted
  list only, so \<open>n - prev\<close> never stops at 0.
\<close>

fun encode_from :: "nat \<Rightarrow> coap_option list \<Rightarrow> bytes result" where
  "encode_from prev [] = Inr []"
| "encode_from prev ((n, val) # opts) =
     andThen (vlen (n - prev)) (\<lambda>(d, dx).
     andThen (vlen (length val)) (\<lambda>(l, lx).
     andThen (byte_of (push_bit 4 d OR l)) (\<lambda>h.
     andThen (encode_from n opts) (\<lambda>rest.
       Inr (h # dx @ lx @ val @ rest)))))"

definition encode_options :: "coap_option list \<Rightarrow> bytes result" where
  "encode_options opts = encode_from 0 (sort_key fst opts)"

section \<open>The decoder\<close>

text \<open>
  The value of one option nibble with its extension bytes at index \<open>i\<close>, and the index after
  them. The source writes this branch twice, for the delta and for the length.
\<close>

definition ext_field :: "bytes \<Rightarrow> nat \<Rightarrow> nat \<Rightarrow> (nat \<times> nat) result" where
  "ext_field data i nib =
     (if nib = 13 then
        andThen (raise_if (i \<ge> length data) MalformedMessageError) (\<lambda>_.
        andThen (item data i) (\<lambda>b. Inr (13 + unat b, i + 1)))
      else if nib = 14 then
        andThen (raise_if (i + 2 > length data) MalformedMessageError) (\<lambda>_.
          Inr (269 + be_nat (slice data i (i + 2)), i + 2))
      else if nib = 15 then Inl MalformedMessageError
      else Inr (nib, i))"

lemma ext_field_progress: "ext_field data i nib = Inr (v, j) \<Longrightarrow> i \<le> j"
  by (auto simp: ext_field_def result_simps split: if_splits)

function parse_options :: "bytes \<Rightarrow> nat \<Rightarrow> nat \<Rightarrow> (coap_option list \<times> bytes) result" where
  "parse_options data i prev =
     (if i < length data then
        andThen (item data i) (\<lambda>b.
          if b = 0xFF then
            andThen (raise_if (i + 1 \<ge> length data) MalformedMessageError) (\<lambda>_.
              Inr ([], drop (i + 1) data))
          else
            andThen (ext_field data (i + 1) (drop_bit 4 (unat b))) (\<lambda>(delta, j).
            andThen (ext_field data j (unat b AND 15)) (\<lambda>(len, k).
            andThen (raise_if (k + len > length data) MalformedMessageError) (\<lambda>_.
            andThen (parse_options data (k + len) (prev + delta)) (\<lambda>(opts, payload).
              Inr ((prev + delta, slice data k (k + len)) # opts, payload))))))
      else Inr ([], []))"
  by pat_completeness auto
termination
  by (relation "measure (\<lambda>(data, i, prev). length data - i)")
    (auto simp: result_simps dest!: ext_field_progress)

declare parse_options.simps [simp del]

definition parse_coap ::
  "bytes \<Rightarrow> (nat \<times> nat \<times> nat \<times> bytes \<times> coap_option list \<times> bytes) result" where
  "parse_coap data =
     andThen (raise_if (length data < 4) MalformedMessageError) (\<lambda>_.
     andThen (item data 0) (\<lambda>b0.
     andThen (raise_if (drop_bit 6 (unat b0) \<noteq> 1) MalformedMessageError) (\<lambda>_.
     let mt = drop_bit 4 (unat b0) AND 3; tkl = unat b0 AND 15 in
     andThen (raise_if (tkl > 8 \<or> length data < 4 + tkl) MalformedMessageError) (\<lambda>_.
     andThen (item data 1) (\<lambda>b1.
     andThen (parse_options data (4 + tkl) 0) (\<lambda>(opts, payload).
       Inr (mt, unat b1, be_nat (slice data 2 4), slice data 4 (4 + tkl), opts, payload)))))))"

definition parse_coap_message :: "bytes \<Rightarrow> coap_message result" where
  "parse_coap_message data =
     andThen (parse_coap data) (\<lambda>(mtype, code, mid, token, options, payload).
       Inr \<lparr>m_mtype = mtype, m_code = code, m_mid = mid, m_token = token,
            m_options = options, m_payload = payload\<rparr>)"

section \<open>The builder\<close>

definition build_coap ::
  "nat \<Rightarrow> nat \<Rightarrow> nat \<Rightarrow> bytes \<Rightarrow> coap_option list \<Rightarrow> bytes \<Rightarrow> bytes result" where
  "build_coap mtype code mid token options payload =
     andThen (byte_of (push_bit 6 1 OR push_bit 4 mtype OR length token)) (\<lambda>h0.
     andThen (byte_of code) (\<lambda>h1.
     andThen (byte_of (drop_bit 8 mid AND 255)) (\<lambda>h2.
     andThen (byte_of (mid AND 255)) (\<lambda>h3.
     andThen (encode_options options) (\<lambda>opts.
       Inr ([h0, h1, h2, h3] @ token @ opts @ (if payload \<noteq> [] then 0xFF # payload else [])))))))"

definition build_empty_ack :: "nat \<Rightarrow> bytes result" where
  "build_empty_ack mid = build_coap TYPE_ACK 0 mid [] [] []"

section \<open>Block-N values and uint options\<close>

definition block_value :: "nat \<Rightarrow> nat \<Rightarrow> nat \<Rightarrow> bytes result" where
  "block_value num m szx =
     (let v = push_bit 4 num OR push_bit 3 (m AND 1) OR (szx AND 7)
      in if v \<le> 0xFF then andThen (byte_of v) (\<lambda>b. Inr [b])
         else if v \<le> 0xFFFF then pack_be 2 v
         else andThen (pack_be 4 v) (\<lambda>bs. Inr (drop 1 bs)))"

definition block_fields :: "bytes \<Rightarrow> nat \<times> nat \<times> nat" where
  "block_fields value =
     (let v = be_nat value in (drop_bit 4 v, drop_bit 3 v AND 1, v AND 7))"

definition option_values :: "coap_option list \<Rightarrow> nat \<Rightarrow> bytes list" where
  "option_values options number = [value. (n, value) \<leftarrow> options, n = number]"

definition decode_uint_option :: "coap_option list \<Rightarrow> nat \<Rightarrow> nat \<Rightarrow> nat option result" where
  "decode_uint_option options number max_length =
     (case option_values options number of
        [] \<Rightarrow> Inr None
      | [value] \<Rightarrow>
          (if length value > max_length then Inl MalformedMessageError
           else Inr (Some (be_nat value)))
      | _ \<Rightarrow> Inl MalformedMessageError)"

section \<open>Classifying a response\<close>

datatype response_kind = RESPONSE_IGNORE | RESPONSE_EMPTY_ACK | RESPONSE_RESET | RESPONSE_MESSAGE

record classification =
  c_kind :: response_kind
  c_message :: coap_message
  c_ack :: "bytes option"

definition classify_coap_response ::
  "bytes \<Rightarrow> bytes option \<Rightarrow> nat option \<Rightarrow> classification result" where
  "classify_coap_response datagram token request_mid =
     andThen (parse_coap_message datagram) (\<lambda>m.
     if (m_mtype m = TYPE_ACK \<or> m_mtype m = TYPE_RST) \<and> m_code m = 0 then
       (if m_token m \<noteq> [] \<or> m_options m \<noteq> [] \<or> m_payload m \<noteq> [] then Inl MalformedMessageError
        else if request_mid \<noteq> None \<and> Some (m_mid m) \<noteq> request_mid then
          Inr \<lparr>c_kind = RESPONSE_IGNORE, c_message = m, c_ack = None\<rparr>
        else Inr \<lparr>c_kind = (if m_mtype m = TYPE_ACK then RESPONSE_EMPTY_ACK else RESPONSE_RESET),
                  c_message = m, c_ack = None\<rparr>)
     else if m_mtype m = TYPE_RST then Inl MalformedMessageError
     else
       andThen (if m_mtype m = TYPE_CON
                then andThen (build_empty_ack (m_mid m)) (\<lambda>a. Inr (Some a)) else Inr None) (\<lambda>ack.
       if m_mtype m \<notin> {TYPE_CON, TYPE_NON, TYPE_ACK} then
         Inr \<lparr>c_kind = RESPONSE_IGNORE, c_message = m, c_ack = ack\<rparr>
       else if m_code m = 0 then
         Inr \<lparr>c_kind = RESPONSE_IGNORE, c_message = m, c_ack = ack\<rparr>
       else if token \<noteq> None \<and> Some (m_token m) \<noteq> token then
         Inr \<lparr>c_kind = RESPONSE_IGNORE, c_message = m, c_ack = ack\<rparr>
       else if m_mtype m = TYPE_ACK \<and> request_mid \<noteq> None \<and> Some (m_mid m) \<noteq> request_mid then
         Inr \<lparr>c_kind = RESPONSE_IGNORE, c_message = m, c_ack = None\<rparr>
       else Inr \<lparr>c_kind = RESPONSE_MESSAGE, c_message = m, c_ack = ack\<rparr>))"

section \<open>The GET builder\<close>

definition option_bytes :: "pyval \<Rightarrow> bytes result" where
  "option_bytes value =
     (case value of
        PyStr s \<Rightarrow> utf8_encode s
      | PyBytes b \<Rightarrow> Inr b
      | PyReleasedView \<Rightarrow> Inl Py_ValueError
      | _ \<Rightarrow> Inl Py_TypeError)"

fun options_of :: "nat \<Rightarrow> pyval list \<Rightarrow> coap_option list result" where
  "options_of number [] = Inr []"
| "options_of number (v # vs) =
     andThen (option_bytes v) (\<lambda>b.
     andThen (options_of number vs) (\<lambda>opts. Inr ((number, b) # opts)))"

definition get_block_option :: "pyval \<Rightarrow> pyval \<Rightarrow> coap_option list result" where
  "get_block_option block_number block_szx =
     (case block_number of
        PyNone \<Rightarrow> Inr []
      | PyInt n \<Rightarrow>
          (if n < 0 then Inl Py_ValueError
           else (case block_szx of
                   PyInt s \<Rightarrow>
                     (if 0 \<le> s \<and> s \<le> int BLOCK_SZX then
                        andThen (block_value (nat n) 0 (nat s)) (\<lambda>v. Inr [(BLOCK2, v)])
                      else Inl Py_ValueError)
                 | _ \<Rightarrow> Inl Py_ValueError))
      | _ \<Rightarrow> Inl Py_ValueError)"

definition build_get_request ::
  "nat \<Rightarrow> nat \<Rightarrow> bytes \<Rightarrow> pyval list \<Rightarrow> pyval list \<Rightarrow> pyval \<Rightarrow> pyval \<Rightarrow> pyval
     \<Rightarrow> coap_option list \<Rightarrow> bytes result" where
  "build_get_request mtype mid token path_segs query accept block_number block_szx extra =
     andThen (options_of URI_PATH path_segs) (\<lambda>path.
     andThen (options_of URI_QUERY query) (\<lambda>qs.
     andThen (case accept of
                PyNone \<Rightarrow> Inr []
              | PyBytes b \<Rightarrow> Inr [(ACCEPT, b)]
              | PyReleasedView \<Rightarrow> Inl Py_ValueError
              | _ \<Rightarrow> Inl Py_TypeError) (\<lambda>acc.
     andThen (get_block_option block_number block_szx) (\<lambda>blk.
       build_coap mtype METHOD_GET mid token (path @ qs @ acc @ blk @ extra) []))))"

section \<open>DTLS records in one datagram\<close>

text \<open>\<open>split_dtls\<close>: the loop from offset \<open>off\<close>.\<close>

function split_from :: "bytes \<Rightarrow> nat \<Rightarrow> bytes list" where
  "split_from buf off =
     (if off + 13 \<le> length buf then
        (let end_off = off + 13 + be_nat (slice buf (off + 11) (off + 13))
         in if end_off > length buf then [] else slice buf off end_off # split_from buf end_off)
      else [])"
  by pat_completeness auto
termination
  by (relation "measure (\<lambda>(buf, off). length buf - off)") auto

declare split_from.simps [simp del]

definition split_dtls :: "bytes \<Rightarrow> bytes list" where
  "split_dtls buf = split_from buf 0"

section \<open>Option headers: both directions\<close>

lemma vlen_bounds: "vlen v = Inr (d, dx) \<Longrightarrow> d \<le> 14 \<and> length dx \<le> 2"
  by (auto simp: vlen_def result_simps split: if_splits)

lemma vlen_ok: "v \<le> 65804 \<Longrightarrow> \<exists>d dx. vlen v = Inr (d, dx)"
  by (auto simp: vlen_def pack_be_def)

text \<open>What \<open>vlen\<close> wrote, \<open>ext_field\<close> reads back, wherever it stands in the datagram.\<close>

lemma ext_field_vlen:
  assumes "vlen v = Inr (d, dx)" and "length pre = i"
  shows "ext_field (pre @ dx @ suf) i d = Inr (v, i + length dx)"
proof -
  have "slice (pre @ dx @ suf) i (i + length dx) = dx"
    using assms(2) by (simp add: slice_def)
  then show ?thesis
    using assms by (auto simp: vlen_def ext_field_def result_simps nth_append split: if_splits)
qed

text \<open>And what \<open>ext_field\<close> accepts is exactly what \<open>vlen\<close> writes: the header has one encoding.\<close>

lemma ext_field_inv:
  assumes "ext_field data i nib = Inr (v, j)" and "nib < 16" and "i \<le> length data"
  shows "vlen v = Inr (nib, slice data i j)" and "i \<le> j" and "j \<le> length data"
proof -
  have two: "be_nat (slice data i (i + 2)) < 65536" and
    inv: "nat_be 2 (be_nat (slice data i (i + 2))) = slice data i (i + 2)"
    if "i + 2 \<le> length data"
  proof -
    from that have len: "length (slice data i (i + 2)) = 2" by simp
    show "be_nat (slice data i (i + 2)) < 65536"
      using be_nat_less [of "slice data i (i + 2)"] len by simp
    show "nat_be 2 (be_nat (slice data i (i + 2))) = slice data i (i + 2)"
      by (rule nat_be_be_nat [OF len])
  qed
  show "vlen v = Inr (nib, slice data i j)" and "i \<le> j" and "j \<le> length data"
    using assms two inv unat_byte_lt [of "data ! i"]
    by (auto simp: ext_field_def vlen_def result_simps slice_def pack_be_def take_Suc_conv_app_nth
        drop_Suc Cons_nth_drop_Suc [symmetric] split: if_splits)
qed

text \<open>The first byte of an encoded option is never the payload marker.\<close>

lemma option_header:
  assumes "d \<le> 14" and "l \<le> 14"
  shows "byte_of (push_bit 4 d OR l) = Inr (mk_byte (d * 16 + l))"
    and "drop_bit 4 (unat (mk_byte (d * 16 + l))) = d"
    and "unat (mk_byte (d * 16 + l)) AND 15 = l"
    and "mk_byte (d * 16 + l) \<noteq> 0xFF"
  using assms or_shifted [of l 4 d] by (simp_all add: byte_simps mk_byte_eq_iff)

section \<open>The decoder inverts the encoder\<close>

lemma encode_from_parse:
  assumes "encode_from prev opts = Inr e" and "sorted (prev # map fst opts)"
    and "payload = [] \<and> tail = [] \<or> payload \<noteq> [] \<and> tail = 0xFF # payload"
    and "length pre = i"
  shows "parse_options (pre @ e @ tail) i prev = Inr (opts, payload)"
  using assms
proof (induction opts arbitrary: prev e pre i)
  case Nil
  then show ?case
    by (auto simp: parse_options.simps [of _ i prev] nth_append)
next
  case (Cons opt opts)
  obtain n val where opt: "opt = (n, val)" by (cases opt)
  from Cons.prems(1) obtain d dx l lx h rest where
      vd: "vlen (n - prev) = Inr (d, dx)" and vl: "vlen (length val) = Inr (l, lx)"
      and h: "byte_of (push_bit 4 d OR l) = Inr h" and rest: "encode_from n opts = Inr rest"
      and e: "e = h # dx @ lx @ val @ rest"
    by (auto simp: opt result_simps)
  have dl: "d \<le> 14" "l \<le> 14" using vd vl by (auto dest: vlen_bounds)
  have hh: "h = mk_byte (d * 16 + l)" using h option_header(1) [OF dl] by simp
  have n: "prev + (n - prev) = n" using Cons.prems(2) by (simp add: opt)
  let ?data = "pre @ e @ tail"
  let ?k = "i + 1 + length dx + length lx"
  have ix: "?data ! i = h" "i < length ?data" using Cons.prems(4) e by (auto simp: nth_append)
  have f1: "ext_field ?data (i + 1) d = Inr (n - prev, i + 1 + length dx)"
    using ext_field_vlen [OF vd, of "pre @ [h]" "i + 1" "lx @ val @ rest @ tail"] Cons.prems(4) e
    by simp
  have f2: "ext_field ?data (i + 1 + length dx) l = Inr (length val, ?k)"
    using ext_field_vlen [OF vl, of "pre @ h # dx" "i + 1 + length dx" "val @ rest @ tail"]
      Cons.prems(4) e by simp
  have sl: "slice ?data ?k (?k + length val) = val"
    using Cons.prems(4) e by (simp add: slice_def)
  have ih: "parse_options ?data (?k + length val) n = Inr (opts, payload)"
    using Cons.IH [OF rest, of "pre @ h # dx @ lx @ val" "?k + length val"] Cons.prems e
    by (simp add: opt)
  have bound: "?k + length val \<le> length ?data" using Cons.prems(4) e by simp
  show ?case
    using ix f1 f2 sl ih bound n hh option_header [OF dl]
    by (subst parse_options.simps) (simp add: opt)
qed

section \<open>The encoder inverts the decoder\<close>

lemma parse_options_encode:
  assumes "parse_options data i prev = Inr (opts, payload)" and "i \<le> length data"
  shows "sorted (prev # map fst opts) \<and>
    (\<exists>e. encode_from prev opts = Inr e \<and>
         drop i data = e @ (if payload \<noteq> [] then 0xFF # payload else []))"
  using assms
proof (induction data i prev arbitrary: opts payload rule: parse_options.induct)
  case (1 data i prev)
  show ?case
  proof (cases "i < length data")
    case False
    with 1 show ?thesis by (simp add: parse_options.simps [of data i prev])
  next
    case True
    then have di: "drop i data = data ! i # drop (i + 1) data"
      by (simp add: Cons_nth_drop_Suc)
    show ?thesis
    proof (cases "data ! i = 0xFF")
      case True
      with 1 \<open>i < length data\<close> di show ?thesis
        by (auto simp: parse_options.simps [of data i prev] result_simps)
    next
      case False
      let ?b = "data ! i"
      from "1.prems" True False obtain delta j len k opts' where
          f1: "ext_field data (i + 1) (drop_bit 4 (unat ?b)) = Inr (delta, j)"
        and f2: "ext_field data j (unat ?b AND 15) = Inr (len, k)"
        and bd: "k + len \<le> length data"
        and rec: "parse_options data (k + len) (prev + delta) = Inr (opts', payload)"
        and opts: "opts = (prev + delta, slice data k (k + len)) # opts'"
        by (auto simp: parse_options.simps [of data i prev] result_simps)
      have nib: "drop_bit 4 (unat ?b) \<le> 15" "unat ?b AND 15 < 16" "drop_bit 4 (unat ?b) < 16"
        using unat_byte_lt [of ?b] by (simp_all add: byte_simps)
      note e1 = ext_field_inv [OF f1 nib(3)] and e2 = ext_field_inv [OF f2 nib(2)]
      have v1: "vlen delta = Inr (drop_bit 4 (unat ?b), slice data (i + 1) j)" and ij: "i + 1 \<le> j"
        and v2: "vlen len = Inr (unat ?b AND 15, slice data j k)" and jk: "j \<le> k" "k \<le> length data"
        using e1 e2 True by auto
      have ih: "sorted ((prev + delta) # map fst opts')"
        "\<exists>e. encode_from (prev + delta) opts' = Inr e \<and>
           drop (k + len) data = e @ (if payload \<noteq> [] then 0xFF # payload else [])"
        using "1.IH" [OF True, of ?b "(delta, j)" delta j "(len, k)" len k "()"] True False f1 f2 bd rec
        by auto
      then obtain e where e: "encode_from (prev + delta) opts' = Inr e"
        "drop (k + len) data = e @ (if payload \<noteq> [] then 0xFF # payload else [])" by blast
      have dl: "drop_bit 4 (unat ?b) \<le> 14" "unat ?b AND 15 \<le> 14"
        using vlen_bounds [OF v1] vlen_bounds [OF v2] by auto
      have h: "byte_of (push_bit 4 (drop_bit 4 (unat ?b)) OR (unat ?b AND 15)) = Inr ?b"
        using option_header(1) [OF dl] by (simp add: byte_simps)
      have sl: "length (slice data k (k + len)) = len" using bd by simp
      have "drop i data = ?b # slice data (i + 1) j @ slice data j k @ slice data k (k + len)
              @ drop (k + len) data"
        using di drop_slice [OF ij, of data] drop_slice [OF jk(1), of data]
          drop_slice [of k "k + len" data] by simp
      moreover have "sorted (prev # map fst opts)"
        using ih(1) opts by (auto intro: order_trans [of prev "prev + delta"])
      ultimately show ?thesis using e v1 v2 h opts sl by simp
    qed
  qed
qed

lemma parse_options_error:
  "parse_options data i prev = Inl err \<Longrightarrow> err = MalformedMessageError"
proof (induction data i prev rule: parse_options.induct)
  case (1 data i prev)
  then show ?case
    by (auto simp: parse_options.simps [of data i prev] result_simps ext_field_def split: if_splits)
qed

text \<open>The first header byte packs version 1, the type and the token length.\<close>

lemma header_byte:
  fixes mtype tkl :: nat
  assumes "mtype < 4" and "tkl < 16"
  shows "64 OR mtype * 16 OR tkl = 64 + mtype * 16 + tkl"
proof -
  have "64 OR mtype * 16 = (4 + mtype) * 16"
    using or_shifted [of "mtype * 16" 6 1] assms by (simp add: algebra_simps)
  moreover have "64 OR mtype * 16 OR tkl = (64 OR mtype * 16) OR tkl" by (simp add: or.assoc)
  ultimately show ?thesis
    using or_shifted [of tkl 4 "4 + mtype"] assms by simp
qed

lemma header_fields:
  fixes m t :: nat
  assumes "m < 4" "t \<le> 8"
  shows "64 + m * 16 + t < 256" "(64 + m * 16 + t) div 64 = 1" "(64 + m * 16 + t) div 16 mod 4 = m"
    "(64 + m * 16 + t) mod 16 = t"
proof -
  have m: "m = 0 \<or> m = 1 \<or> m = 2 \<or> m = 3" using assms(1) by arith
  show "64 + m * 16 + t < 256" using assms by simp
  show "(64 + m * 16 + t) div 64 = 1" using m assms(2) by auto
  have "64 + m * 16 + t = t + 16 * (4 + m)" by simp
  then show "(64 + m * 16 + t) mod 16 = t" using assms(2) by (simp only: mod_mult_self2) simp
  have "(64 + m * 16 + t) div 16 = 4 + m" using m assms(2) by auto
  then show "(64 + m * 16 + t) div 16 mod 4 = m" using m by auto
qed
lemma header_unpack:
  fixes b :: nat
  assumes "b div 64 = 1"
  shows "64 + b div 16 mod 4 * 16 + b mod 16 = b"
proof -
  have "b mod (16 * 4) = 16 * (b div 16 mod 4) + b mod 16" by (rule mod_mult2_eq)
  with assms mult_div_mod_eq [of 64 b] show ?thesis by simp
qed
lemma encode_options_sorted:
  "sorted (map fst opts) \<Longrightarrow> encode_options opts = encode_from 0 opts"
  by (simp add: encode_options_def sort_key_id_if_sorted)

lemma encode_from_total:
  "\<forall>(n, val) \<in> set opts. n \<le> 65535 \<and> length val \<le> 65804 \<Longrightarrow> \<exists>e. encode_from prev opts = Inr e"
proof (induction opts arbitrary: prev)
  case Nil
  then show ?case by simp
next
  case (Cons opt opts)
  obtain n val where opt: "opt = (n, val)" by (cases opt)
  have "n - prev \<le> 65804" "length val \<le> 65804" using Cons.prems opt by auto
  then obtain d dx l lx where v: "vlen (n - prev) = Inr (d, dx)" "vlen (length val) = Inr (l, lx)"
    using vlen_ok by metis
  moreover have "d \<le> 14" "l \<le> 14" using v by (auto dest: vlen_bounds)
  moreover obtain e where "encode_from n opts = Inr e" using Cons opt by auto
  ultimately show ?case by (simp add: opt option_header)
qed

lemma parse_coap_build:
  assumes "build_coap mtype code mid token options payload = Inr d"
    and "mtype < 4" and "mid < 65536" and "length token \<le> 8"
  shows "parse_coap d = Inr (mtype, code, mid, token, sort_key fst options, payload)"
proof -
  from assms obtain opts where opts: "encode_from 0 (sort_key fst options) = Inr opts"
    and code: "code < 256"
    and d: "d = [mk_byte (64 + mtype * 16 + length token), mk_byte code, mk_byte (mid div 256),
                 mk_byte mid] @ token @ opts @ (if payload \<noteq> [] then 0xFF # payload else [])"
    by (auto simp: build_coap_def encode_options_def result_simps header_byte byte_simps)
  let ?h = "64 + mtype * 16 + length token"
  note h = header_fields [OF assms(2,4)]
  have po: "parse_options d (4 + length token) 0 = Inr (sort_key fst options, payload)"
    using encode_from_parse [OF opts, of payload "if payload \<noteq> [] then 0xFF # payload else []"
        "take 4 d @ token" "4 + length token"] d by simp
  have md: "be_nat (slice d 2 4) = mid"
    using assms(3) d by (simp add: slice_def be_nat_Cons)
  show ?thesis
    using h po md d code assms(4)
    by (simp add: parse_coap_def byte_simps Let_def slice_def)
qed

lemma build_coap_parse:
  assumes "parse_coap d = Inr (mtype, code, mid, token, options, payload)"
  shows "build_coap mtype code mid token options payload = Inr d"
    and "mtype < 4" and "code < 256" and "mid < 65536" and "length token \<le> 8"
    and "sorted (map fst options)"
proof -
  let ?b = "unat (d ! 0)"
  from assms have len: "4 \<le> length d" and ver: "?b div 64 = 1" and mt: "mtype = ?b div 16 mod 4"
    and tkl: "?b mod 16 \<le> 8" "4 + ?b mod 16 \<le> length d" and code: "code = unat (d ! 1)"
    and po: "parse_options d (4 + ?b mod 16) 0 = Inr (options, payload)"
    and mid: "mid = be_nat (slice d 2 4)" and tok: "token = slice d 4 (4 + ?b mod 16)"
    by (auto simp: parse_coap_def result_simps byte_simps Let_def)
  from parse_options_encode [OF po tkl(2)] obtain e where
      so: "sorted (map fst options)" and e: "encode_from 0 options = Inr e"
      "drop (4 + ?b mod 16) d = e @ (if payload \<noteq> [] then 0xFF # payload else [])" by auto
  have tl: "length token = ?b mod 16" using tok tkl(2) by simp
  have hb: "64 + mtype * 16 + length token = ?b" using header_unpack [OF ver] mt tl by simp
  have lm: "length (slice d 2 4) = 2" using len by simp
  have mid16: "mid < 65536" using be_nat_less [of "slice d 2 4"] lm mid by simp
  have m2: "[mk_byte (mid div 256), mk_byte mid] = slice d 2 4"
    using nat_be_be_nat [OF lm] mid by (simp add: nat_be_small)
  have d4: "[d ! 0, d ! 1] @ slice d 2 4 @ token @ drop (4 + ?b mod 16) d = d"
  proof -
    have "d \<noteq> []" using len by auto
    then have "take 2 d = [d ! 0, d ! 1]"
      using len by (simp add: numeral_2_eq_2 take_Suc_conv_app_nth)
    then have "[d ! 0, d ! 1] @ drop 2 d = d"
      by (metis append_take_drop_id)
    moreover have "slice d 2 4 @ slice d 4 (4 + ?b mod 16) @ drop (4 + ?b mod 16) d = drop 2 d"
      using drop_slice [of 2 4 d] drop_slice [of 4 "4 + ?b mod 16" d] by simp
    ultimately show ?thesis using tok by simp
  qed
  show "mtype < 4" "code < 256" "mid < 65536" "length token \<le> 8" "sorted (map fst options)"
    using mt code mid16 tl tkl(1) so by (simp_all add: unat_byte_lt)
  then show "build_coap mtype code mid token options payload = Inr d"
    using hb code m2 [symmetric] d4 e so
    by (simp add: build_coap_def header_byte byte_simps encode_options_sorted unat_byte_lt)
qed

lemma parse_coap_error: "parse_coap d = Inl err \<Longrightarrow> err = MalformedMessageError"
  by (auto simp: parse_coap_def result_simps item_def Let_def byte_simps
      dest!: parse_options_error split: if_splits)

section \<open>Block-N values\<close>

lemma block_number:
  "push_bit 4 num OR push_bit 3 (m AND 1) OR (szx AND 7) = num * 16 + (m mod 2 * 8 + szx mod 8)"
  for num m szx :: nat
proof -
  have lo: "push_bit 3 (m AND 1) OR (szx AND 7) = m mod 2 * 8 + szx mod 8"
    using or_shifted [of "szx mod 8" 3 "m mod 2"] by (simp add: byte_simps)
  have "m mod 2 < 2" "szx mod 8 < 8" by simp_all
  then have "m mod 2 * 8 + szx mod 8 < 16" by linarith
  then show ?thesis
    unfolding lo using or_shifted [of "m mod 2 * 8 + szx mod 8" 4 num] by (simp add: shift_left)
qed

text \<open>
  The value is written in 1, 2 or 3 bytes; from \<open>num = 2 ^ 20\<close> on the top bits do not fit
  and are dropped, and from \<open>2 ^ 28\<close> on \<open>struct.pack\<close> raises.
\<close>

lemma block_value_fields:
  assumes "num < 2 ^ 28"
  shows "\<exists>v. block_value num m szx = Inr v \<and> length v \<le> 3 \<and> v \<noteq> []
           \<and> block_fields v = (num mod 2 ^ 20, m mod 2, szx mod 8)"
proof -
  let ?l = "m mod 2 * 8 + szx mod 8"
  let ?v = "num * 16 + ?l"
  have m2: "m mod 2 < 2" "szx mod 8 < 8" by simp_all
  then have l: "?l < 16" by linarith
  have v: "?v < 256 ^ 4" using assms l by simp
  have low: "?v div 16 = num" "?v mod 16 = ?l" using l by simp_all
  have f: "(w div 16, w div 8 mod 2, w mod 8) = (w div 16, m mod 2, szx mod 8)"
    if "w mod 16 = ?l" for w :: nat
  proof -
    have "w mod (8 * 2) = 8 * (w div 8 mod 2) + w mod 8" by (rule mod_mult2_eq)
    with that have e: "8 * (w div 8 mod 2) + w mod 8 = 8 * (m mod 2) + szx mod 8" by simp
    have "w div 8 mod 2 = (8 * (w div 8 mod 2) + w mod 8) div 8" by simp
    also have "\<dots> = m mod 2" unfolding e by simp
    finally show ?thesis using e by simp
  qed
  have bv: "block_value num m szx =
      (if ?v \<le> 255 then andThen (byte_of ?v) (\<lambda>b. Inr [b])
       else if ?v \<le> 65535 then pack_be 2 ?v
       else andThen (pack_be 4 ?v) (\<lambda>bs. Inr (drop 1 bs)))"
    unfolding block_value_def block_number Let_def ..
  have bf: "block_fields b = (num mod 2 ^ 20, m mod 2, szx mod 8)"
    if "be_nat b div 16 = num mod 2 ^ 20" "be_nat b mod 16 = ?l" for b
    using that f [of "be_nat b"] by (simp add: block_fields_def byte_simps)
  consider "?v < 256" | "256 \<le> ?v" "?v < 65536" | "65536 \<le> ?v" by linarith
  then show ?thesis
  proof cases
    case 1
    then have "num mod 2 ^ 20 = num" by simp
    then have "block_fields [mk_byte ?v] = (num mod 2 ^ 20, m mod 2, szx mod 8)"
      using 1 low by (intro bf) (simp_all add: be_nat_Cons)
    with 1 show ?thesis by (simp add: bv)
  next
    case 2
    then have "num mod 2 ^ 20 = num" by simp
    then have "block_fields (nat_be 2 ?v) = (num mod 2 ^ 20, m mod 2, szx mod 8)"
      using 2 low by (intro bf) (simp_all add: be_nat_nat_be)
    with 2 show ?thesis by (simp add: bv pack_be_def)
  next
    case 3
    have "be_nat (nat_be 3 ?v) = ?v mod 16777216" by (simp add: be_nat_nat_be)
    moreover have "?v mod (16 * 1048576) = 16 * (?v div 16 mod 1048576) + ?v mod 16"
      by (rule mod_mult2_eq)
    ultimately have "block_fields (nat_be 3 ?v) = (num mod 2 ^ 20, m mod 2, szx mod 8)"
      using low by (intro bf) simp_all
    moreover have "drop 1 (nat_be 4 ?v) = nat_be 3 ?v" by (simp add: nat_be_small)
    ultimately show ?thesis using 3 v by (simp add: bv pack_be_def)
  qed
qed

section \<open>DTLS records\<close>

definition record_ok :: "bytes \<Rightarrow> bool" where
  "record_ok r \<longleftrightarrow> 13 \<le> length r \<and> length r = 13 + be_nat (slice r 11 13)"

lemma split_from_prefix:
  "\<exists>rest. drop off buf = concat (split_from buf off) @ rest"
proof (induction buf off rule: split_from.induct)
  case (1 buf off)
  let ?e = "off + 13 + be_nat (slice buf (off + 11) (off + 13))"
  show ?case
  proof (cases "off + 13 \<le> length buf \<and> ?e \<le> length buf")
    case True
    then obtain rest where rest: "drop ?e buf = concat (split_from buf ?e) @ rest" using 1 by auto
    have "split_from buf off = slice buf off ?e # split_from buf ?e"
      using True by (subst split_from.simps) (simp add: Let_def)
    with rest drop_slice [of off ?e buf] have "drop off buf = concat (split_from buf off) @ rest"
      by simp
    then show ?thesis by blast
  next
    case False
    then show ?thesis by (subst split_from.simps) (auto simp: Let_def)
  qed
qed

lemma split_from_records: "r \<in> set (split_from buf off) \<Longrightarrow> record_ok r"
proof (induction buf off rule: split_from.induct)
  case (1 buf off)
  let ?e = "off + 13 + be_nat (slice buf (off + 11) (off + 13))"
  have "record_ok (slice buf off ?e)" if "off + 13 \<le> length buf" "?e \<le> length buf"
    using that slice_slice [of 11 13 off ?e buf] by (simp add: record_ok_def)
  with 1 show ?case
    by (auto simp: split_from.simps [of buf off] Let_def split: if_splits)
qed

lemma split_from_concat:
  "\<forall>r \<in> set rs. record_ok r \<Longrightarrow> split_from (pre @ concat rs) (length pre) = rs"
proof (induction rs arbitrary: pre)
  case Nil
  then show ?case by (simp add: split_from.simps)
next
  case (Cons r rs)
  let ?buf = "pre @ concat (r # rs)"
  have r: "13 \<le> length r" "length r = 13 + be_nat (slice r 11 13)"
    using Cons.prems by (auto simp: record_ok_def)
  have "slice ?buf (length pre + 11) (length pre + 13) = slice r 11 13"
    using r(1) by (simp add: slice_def)
  moreover have "slice ?buf (length pre) (length pre + length r) = r"
    by (simp add: slice_def)
  moreover have "split_from ?buf (length pre + length r) = rs"
    using Cons.IH [of "pre @ r"] Cons.prems by simp
  ultimately show ?case
    using r by (subst split_from.simps) (simp add: Let_def add.assoc)
qed
section \<open>Classification\<close>

text \<open>
  What a caller relies on: a datagram counts as the response when it is no empty message and
  no reset, carries the expected token, and, when it is piggybacked, the request's Message ID.
\<close>

definition correlates :: "coap_message \<Rightarrow> bytes option \<Rightarrow> nat option \<Rightarrow> bool" where
  "correlates m token request_mid \<longleftrightarrow>
     m_code m \<noteq> 0 \<and> m_mtype m \<noteq> TYPE_RST
     \<and> (token = None \<or> token = Some (m_token m))
     \<and> (m_mtype m = TYPE_ACK \<longrightarrow> request_mid = None \<or> request_mid = Some (m_mid m))"

lemma parse_coap_message_fields:
  assumes "parse_coap_message d = Inr m"
  shows "parse_coap d = Inr (m_mtype m, m_code m, m_mid m, m_token m, m_options m, m_payload m)"
    and "m_mtype m < 4" and "m_code m < 256" and "m_mid m < 65536" and "length (m_token m) \<le> 8"
    and "sorted (map fst (m_options m))"
proof -
  from assms show p: "parse_coap d = Inr (m_mtype m, m_code m, m_mid m, m_token m, m_options m, m_payload m)"
    by (auto simp: parse_coap_message_def result_simps)
  show "m_mtype m < 4" "m_code m < 256" "m_mid m < 65536" "length (m_token m) \<le> 8"
    "sorted (map fst (m_options m))"
    using build_coap_parse [OF p] by simp_all
qed

lemma build_empty_ack_eq:
  "build_empty_ack mid = Inr [0x60, 0, mk_byte (mid div 256), mk_byte mid]"
proof -
  have "(64::nat) OR 2 * 16 OR 0 = 64 + 2 * 16 + 0" by (rule header_byte) simp_all
  then show ?thesis
    by (simp add: build_empty_ack_def build_coap_def encode_options_def byte_simps mk_byte_eq_iff)
qed

lemma parse_empty_ack:
  "mid < 65536 \<Longrightarrow> build_empty_ack mid = Inr a \<Longrightarrow> parse_coap a = Inr (TYPE_ACK, 0, mid, [], [], [])"
  unfolding build_empty_ack_def by (drule parse_coap_build) simp_all

lemma classify_message_iff:
  assumes "parse_coap_message d = Inr m"
  shows "(\<exists>c. classify_coap_response d token request_mid = Inr c \<and> c_kind c = RESPONSE_MESSAGE)
         \<longleftrightarrow> correlates m token request_mid"
  using assms parse_coap_message_fields(2) [OF assms]
  by (auto simp: classify_coap_response_def correlates_def build_empty_ack_eq)

lemma classify_ack_iff:
  assumes "classify_coap_response d token request_mid = Inr c"
  shows "c_ack c = (if m_mtype (c_message c) = TYPE_CON
                    then Some [0x60, 0, mk_byte (m_mid (c_message c) div 256), mk_byte (m_mid (c_message c))]
                    else None)"
  using assms
  by (auto simp: classify_coap_response_def build_empty_ack_eq result_simps split: if_splits)

lemma classify_error:
  "classify_coap_response d token request_mid = Inl err \<Longrightarrow> err = MalformedMessageError"
  by (auto simp: classify_coap_response_def build_empty_ack_eq result_simps parse_coap_message_def
      dest: parse_coap_error split: if_splits)

text \<open>The builder refuses no message whose fields fit the wire.\<close>

lemma build_coap_total:
  assumes "mtype < 4" and "code < 256" and "mid < 65536" and "length token \<le> 8"
    and "\<forall>(n, val) \<in> set options. n \<le> 65535 \<and> length val \<le> 65804"
  shows "\<exists>d. build_coap mtype code mid token options payload = Inr d"
proof -
  obtain e where e: "encode_options options = Inr e"
    using encode_from_total [of "sort_key fst options" 0] assms(5)
    by (auto simp: encode_options_def)
  have "64 + mtype * 16 + length token < 256" using assms(1,4) by simp
  then show ?thesis using e assms by (auto simp: build_coap_def byte_simps header_byte)
qed

section \<open>Properties\<close>

text \<open>C16.
  Building a CoAP datagram from any message whose fields fit the wire and decoding it again
  succeeds and returns the same message, with the options in the stable order of their
  numbers.
\<close>

theorem coap_decode_inverts_build:
  assumes "mtype < 4" and "code < 256" and "mid < 65536" and "length token \<le> 8"
    and "\<forall>(n, val) \<in> set options. n \<le> 65535 \<and> length val \<le> 65804"
  shows "\<exists>d. build_coap mtype code mid token options payload = Inr d
           \<and> parse_coap d = Inr (mtype, code, mid, token, sort_key fst options, payload)"
  using build_coap_total [OF assms] parse_coap_build [OF _ assms(1,3,4)] by metis

theorem coap_decode_inverts_build_witness:
  "\<exists>d. build_coap 0 1 0x1234 [1, 2] [(12, [60]), (11, [65])] [9] = Inr d
     \<and> parse_coap d = Inr (0, 1, 0x1234, [1, 2], [(11, [65]), (12, [60])], [9])"
  using coap_decode_inverts_build [of 0 1 "0x1234" "[1, 2]" "[(12, [60]), (11, [65])]" "[9]"] by simp

text \<open>The wire form is canonical: whatever datagram the strict decoder accepts is byte for byte
  the one the builder writes for the decoded message, so there are no two encodings of one
  message that a peer could use to slip past a comparison.
\<close>

theorem coap_encoding_canonical:
  assumes "parse_coap d = Inr (mtype, code, mid, token, options, payload)"
  shows "build_coap mtype code mid token options payload = Inr d"
  using assms by (rule build_coap_parse(1))

theorem coap_encoding_canonical_witness:
  "build_coap 0 0x45 0x1234 [1, 2, 3, 4] [(11, [65])] [9]
     = Inr [0x44, 0x45, 0x12, 0x34, 1, 2, 3, 4, 0xB1, 65, 0xFF, 9]"
  by (rule coap_encoding_canonical) code_simp

text \<open>C33.
  The decoder fails closed on arbitrary bytes: it returns a message whose fields are in
  range and whose options are ordered, or it raises \<open>MalformedMessageError\<close>; no other
  exception (an \<open>IndexError\<close> of a truncated field, say) escapes.
\<close>

theorem coap_decoder_fails_closed:
  "parse_coap d = Inl MalformedMessageError
   \<or> (\<exists>mtype code mid token options payload.
        parse_coap d = Inr (mtype, code, mid, token, options, payload)
        \<and> mtype < 4 \<and> code < 256 \<and> mid < 65536 \<and> length token \<le> 8 \<and> sorted (map fst options))"
proof (cases "parse_coap d")
  case (Inl e)
  then show ?thesis using parse_coap_error by blast
next
  case (Inr r)
  obtain mtype code mid token options payload where "r = (mtype, code, mid, token, options, payload)"
    by (cases r) auto
  with Inr build_coap_parse [of d] show ?thesis by simp
qed

text \<open>C26.
  A Block-N option value of at most three bytes is written for every block number below
  \<open>2 ^ 28\<close>, and reading it back gives the same triple exactly when the number is below
  \<open>2 ^ 20\<close>: beyond that the builder drops the top bits without raising.
\<close>

theorem block_option_round_trip:
  assumes "num < 2 ^ 28"
  shows "\<exists>v. block_value num m szx = Inr v \<and> length v \<le> 3
           \<and> (block_fields v = (num, m, szx) \<longleftrightarrow> num < 2 ^ 20 \<and> m \<le> 1 \<and> szx \<le> 7)"
proof -
  from block_value_fields [OF assms, of m szx] obtain v where
    v: "block_value num m szx = Inr v" "length v \<le> 3"
       "block_fields v = (num mod 2 ^ 20, m mod 2, szx mod 8)" by blast
  have *: "k mod n = k \<longleftrightarrow> k < n" if "0 < n" for k n :: nat
    using that mod_less_divisor [of n k] by (metis mod_less)
  have "num mod 2 ^ 20 = num \<longleftrightarrow> num < 2 ^ 20" "m mod 2 = m \<longleftrightarrow> m \<le> 1" "szx mod 8 = szx \<longleftrightarrow> szx \<le> 7"
    using * [of 2 m] * [of 8 szx] * [of "2 ^ 20" num] by auto
  with v show ?thesis by auto
qed

theorem block_option_round_trip_witness:
  "\<exists>v. block_value 1048576 1 6 = Inr v \<and> length v \<le> 3 \<and> block_fields v \<noteq> (1048576, 1, 6)"
  using block_option_round_trip [of 1048576 1 6] by auto

text \<open>Classification of a decoded datagram: it counts as the awaited response exactly when it is
  correlated (token, and Message ID when piggybacked) and neither empty nor a reset; the
  acknowledgement returned with it is present exactly for a confirmable message, decodes to an
  empty ACK and carries the message's own Message ID.
\<close>

theorem classify_response_correct:
  assumes "parse_coap_message d = Inr m"
  shows "((\<exists>c. classify_coap_response d token request_mid = Inr c \<and> c_kind c = RESPONSE_MESSAGE)
            \<longleftrightarrow> correlates m token request_mid)
    \<and> (\<forall>c. classify_coap_response d token request_mid = Inr c \<longrightarrow>
         c_message c = m
         \<and> (c_ack c \<noteq> None \<longleftrightarrow> m_mtype m = TYPE_CON)
         \<and> (\<forall>a. c_ack c = Some a \<longrightarrow> parse_coap a = Inr (TYPE_ACK, 0, m_mid m, [], [], [])))"
proof (intro conjI allI impI)
  show "(\<exists>c. classify_coap_response d token request_mid = Inr c \<and> c_kind c = RESPONSE_MESSAGE)
          \<longleftrightarrow> correlates m token request_mid"
    by (rule classify_message_iff [OF assms])
next
  fix c
  assume c: "classify_coap_response d token request_mid = Inr c"
  show cm: "c_message c = m"
    using c assms by (auto simp: classify_coap_response_def result_simps split: if_splits)
  show "c_ack c \<noteq> None \<longleftrightarrow> m_mtype m = TYPE_CON"
    using classify_ack_iff [OF c] cm by auto
  fix a
  assume "c_ack c = Some a"
  then have "build_empty_ack (m_mid m) = Inr a"
    using classify_ack_iff [OF c] cm build_empty_ack_eq by (auto split: if_splits)
  then show "parse_coap a = Inr (TYPE_ACK, 0, m_mid m, [], [], [])"
    by (rule parse_empty_ack [OF parse_coap_message_fields(4) [OF assms]])
qed

theorem classify_response_correct_witness:
  "\<exists>c. classify_coap_response [0x41, 0x45, 0, 7, 9] (Some [9]) (Some 3) = Inr c
     \<and> c_kind c = RESPONSE_MESSAGE"
proof -
  have "parse_coap_message [0x41, 0x45, 0, 7, 9] =
      Inr \<lparr>m_mtype = 0, m_code = 0x45, m_mid = 7, m_token = [9], m_options = [], m_payload = []\<rparr>"
    by code_simp
  from classify_response_correct [OF this, of "Some [9]" "Some 3"]
  show ?thesis by (simp add: correlates_def)
qed

text \<open>The record splitter cuts a datagram into complete DTLS records that lie in it one behind
  the other, and gives back exactly the records a datagram was composed of.
\<close>

theorem split_dtls_records:
  "(\<exists>rest. buf = concat (split_dtls buf) @ rest) \<and> list_all record_ok (split_dtls buf)
   \<and> (list_all record_ok rs \<longrightarrow> split_dtls (concat rs) = rs)"
  using split_from_prefix [of 0 buf] split_from_records [of _ buf 0] split_from_concat [of rs "[]"]
  by (auto simp: split_dtls_def list_all_iff)

theorem split_dtls_records_witness:
  "split_dtls (concat [[22, 254, 253, 0, 0, 0, 0, 0, 0, 0, 0, 0, 1, 7],
                       [21, 254, 253, 0, 0, 0, 0, 0, 0, 0, 1, 0, 0]])
     = [[22, 254, 253, 0, 0, 0, 0, 0, 0, 0, 0, 0, 1, 7], [21, 254, 253, 0, 0, 0, 0, 0, 0, 0, 1, 0, 0]]"
  using split_dtls_records [of "[]" "[[22, 254, 253, 0, 0, 0, 0, 0, 0, 0, 0, 0, 1, 7],
                       [21, 254, 253, 0, 0, 0, 0, 0, 0, 0, 1, 0, 0]]"]
  by (simp add: record_ok_def slice_def be_nat_def)

end
