(* ===== verification/Block2.thy ===== *)
theory Block2
  imports Coap_Wire
begin

text \<open>
  \<open>Block2Accumulator\<close> of \<open>smartthings_local/protocol/coap.py\<close>: the bounded, token-stable
  reassembly of a Block2 transfer. A raise leaves the accumulator as it was (every check of
  \<open>add_response\<close> precedes the first assignment), so an operation returns either the exception
  or the status with the new state.
\<close>

section \<open>State\<close>

record block2 =
  b_token :: bytes
  b_max_blocks :: nat
  b_max_payload :: nat
  b_formats :: "nat list option"
  b_expected :: nat
  b_szx :: "nat option"
  b_etag :: "bytes option"
  b_format :: "nat option"
  b_size2 :: "nat option"
  b_payload :: bytes
  b_blocks :: nat
  b_code :: "nat option"
  b_complete :: bool

datatype block2_status = BLOCK2_DUPLICATE | BLOCK2_CONTINUE | BLOCK2_COMPLETE

text \<open>
  \<open>frozenset(x)\<close>: an unhashable element raises, and of elements that compare equal
  (\<open>1\<close>, \<open>True\<close>, \<open>1.0\<close>) the first one stays.
\<close>

definition same_element :: "pyval \<Rightarrow> pyval \<Rightarrow> bool" where
  "same_element x y \<longleftrightarrow> x = y \<or> (py_number x \<noteq> None \<and> py_number x = py_number y)"

fun frozen :: "pyval list \<Rightarrow> pyval list \<Rightarrow> pyval list" where
  "frozen seen [] = seen"
| "frozen seen (x # xs) =
     (if list_ex (same_element x) seen then frozen seen xs else frozen (seen @ [x]) xs)"

fun format_number :: "pyval \<Rightarrow> nat option" where
  "format_number (PyInt n) = (if n < 0 then None else Some (nat n))"
| "format_number _ = None"

definition accepted_formats :: "pyval \<Rightarrow> nat list option result" where
  "accepted_formats v =
     (if v = PyNone then Inr None
      else (case py_iter v of
              None \<Rightarrow> Inl Py_TypeError
            | Some xs \<Rightarrow>
                if \<not> list_all hashable xs then Inl Py_TypeError
                else (let fs = map format_number (frozen [] xs)
                      in if None \<in> set fs then Inl Py_ValueError else Inr (Some (map the fs)))))"

fun positive_int :: "pyval \<Rightarrow> nat result" where
  "positive_int (PyInt n) = (if n \<le> 0 then Inl Py_ValueError else Inr (nat n))"
| "positive_int _ = Inl Py_ValueError"

fun token_bytes :: "pyval \<Rightarrow> bytes result" where
  "token_bytes (PyBytes b) = (if length b > 8 then Inl Py_ValueError else Inr b)"
| "token_bytes PyReleasedView = Inl Py_ValueError"
| "token_bytes _ = Inl Py_TypeError"

definition block2_new :: "pyval \<Rightarrow> pyval \<Rightarrow> pyval \<Rightarrow> pyval \<Rightarrow> block2 result" where
  "block2_new token max_blocks max_payload formats =
     andThen (token_bytes token) (\<lambda>tok.
     andThen (positive_int max_blocks) (\<lambda>mb.
     andThen (positive_int max_payload) (\<lambda>mp.
     andThen (accepted_formats formats) (\<lambda>fs.
       Inr \<lparr>b_token = tok, b_max_blocks = mb, b_max_payload = mp, b_formats = fs,
            b_expected = 0, b_szx = None, b_etag = None, b_format = None, b_size2 = None,
            b_payload = [], b_blocks = 0, b_code = None, b_complete = False\<rparr>))))"

text \<open>The property \<open>szx\<close>: what the next request asks for.\<close>

definition request_szx :: "block2 \<Rightarrow> nat" where
  "request_szx acc = (case b_szx acc of None \<Rightarrow> BLOCK_SZX | Some s \<Rightarrow> s)"

section \<open>One response\<close>

definition single_etag :: "coap_option list \<Rightarrow> bytes option result" where
  "single_etag options =
     (case option_values options ETAG of
        [] \<Rightarrow> Inr None
      | [value] \<Rightarrow>
          (if 1 \<le> length value \<and> length value \<le> 8 then Inr (Some value) else Inl BlockwiseError)
      | _ \<Rightarrow> Inl BlockwiseError)"

definition uint_option :: "coap_option list \<Rightarrow> nat \<Rightarrow> nat \<Rightarrow> nat option result" where
  "uint_option options number max_length =
     (case decode_uint_option options number max_length of
        Inl e \<Rightarrow> Inl (if e = MalformedMessageError then BlockwiseError else e)
      | Inr v \<Rightarrow> Inr v)"

text \<open>Block number, more flag and SZX of a success response; no SZX without a Block2 option.\<close>

definition block_header :: "block2 \<Rightarrow> coap_message \<Rightarrow> (nat \<times> bool \<times> nat option) result" where
  "block_header acc m =
     (let values = option_values (m_options m) BLOCK2 in
      andThen (raise_if (length values > 1) BlockwiseError) (\<lambda>_.
      andThen (raise_if (b_expected acc > 0 \<and> values = []) BlockwiseError) (\<lambda>_.
      andThen (case values of
                 [] \<Rightarrow> Inr (0, False, None)
               | encoded # _ \<Rightarrow>
                   if length encoded > 3 then Inl BlockwiseError
                   else (case block_fields encoded of (number, mo, szx) \<Rightarrow>
                           if szx > BLOCK_SZX then Inl BlockwiseError
                           else Inr (number, mo \<noteq> 0, Some szx))) (\<lambda>(number, mo, szx).
      andThen (raise_if (b_expected acc > 0 \<and> szx = None) BlockwiseError) (\<lambda>_.
        Inr (number, mo, szx))))))"

text \<open>
  The byte window of the block: \<open>None\<close> for a retransmitted earlier block, otherwise the
  offset after it.
\<close>

definition block_window :: "block2 \<Rightarrow> bytes \<Rightarrow> nat \<Rightarrow> bool \<Rightarrow> nat option \<Rightarrow> nat option result" where
  "block_window acc payload number mo szx =
     (case szx of
        None \<Rightarrow> Inr (Some (length payload))
      | Some s \<Rightarrow>
          let block_size = push_bit (s + 4) 1;
              response_offset = number * block_size;
              expected_offset = length (b_payload acc);
              downshifted = s < request_szx acc;
              payload_limit = push_bit ((if downshifted then request_szx acc else s) + 4) 1;
              next_offset = expected_offset + length payload
          in if response_offset < expected_offset then Inr None
             else if response_offset \<noteq> expected_offset then Inl BlockwiseError
             else if (case b_szx acc of None \<Rightarrow> False | Some n \<Rightarrow> s \<noteq> n \<and> s > n)
               then Inl BlockwiseError
             else if length payload > payload_limit then Inl BlockwiseError
             else if mo \<and> (payload = [] \<or> next_offset mod block_size \<noteq> 0
                           \<or> (\<not> downshifted \<and> length payload \<noteq> block_size))
               then Inl BlockwiseError
             else Inr (Some next_offset))"

definition differs :: "'a option \<Rightarrow> 'a option \<Rightarrow> bool" where
  "differs new old \<longleftrightarrow> new \<noteq> None \<and> old \<noteq> None \<and> new \<noteq> old"

definition keep :: "'a option \<Rightarrow> 'a option \<Rightarrow> 'a option" where
  "keep new old = (if new = None then old else new)"

text \<open>The metadata the block leaves behind: ETag, Content-Format, Size2 and code.\<close>

definition next_metadata ::
  "block2 \<Rightarrow> coap_message \<Rightarrow> (bytes option \<times> nat option \<times> nat option \<times> nat) result" where
  "next_metadata acc m =
     andThen (single_etag (m_options m)) (\<lambda>etag.
     andThen (uint_option (m_options m) CONTENT_FORMAT 2) (\<lambda>cf.
     andThen (uint_option (m_options m) SIZE2 4) (\<lambda>size2.
     andThen (raise_if (case b_formats acc of
                          None \<Rightarrow> False
                        | Some fs \<Rightarrow> (case cf of None \<Rightarrow> False | Some f \<Rightarrow> f \<notin> set fs))
                BlockwiseError) (\<lambda>_.
     if b_blocks acc = 0 then Inr (etag, cf, size2, m_code m)
     else
       andThen (raise_if (Some (m_code m) \<noteq> b_code acc) BlockwiseError) (\<lambda>_.
       andThen (raise_if (differs etag (b_etag acc)) BlockwiseError) (\<lambda>_.
       andThen (raise_if (differs cf (b_format acc)) BlockwiseError) (\<lambda>_.
         Inr (keep etag (b_etag acc), keep cf (b_format acc), keep size2 (b_size2 acc),
              m_code m))))))))"

definition success_response :: "block2 \<Rightarrow> coap_message \<Rightarrow> (block2_status \<times> block2) result" where
  "success_response acc m =
     andThen (block_header acc m) (\<lambda>(number, mo, szx).
     andThen (block_window acc (m_payload m) number mo szx) (\<lambda>window.
     case window of
       None \<Rightarrow> Inr (BLOCK2_DUPLICATE, acc)
     | Some next_offset \<Rightarrow>
         andThen (next_metadata acc m) (\<lambda>(etag, cf, size2, code).
         andThen (raise_if (length (b_payload acc) + length (m_payload m) > b_max_payload acc)
                   BlockwiseError) (\<lambda>_.
         andThen (raise_if (b_blocks acc \<ge> b_max_blocks acc) BlockwiseError) (\<lambda>_.
         andThen (raise_if (mo \<and> b_blocks acc + 1 \<ge> b_max_blocks acc) BlockwiseError) (\<lambda>_.
         let acc' = acc\<lparr>b_etag := etag, b_format := cf, b_size2 := size2, b_szx := szx,
                        b_code := Some code, b_payload := b_payload acc @ m_payload m,
                        b_blocks := b_blocks acc + 1\<rparr>
         in (case szx of
               Some s \<Rightarrow>
                 if mo then Inr (BLOCK2_CONTINUE, acc'\<lparr>b_expected := next_offset div push_bit (s + 4) 1\<rparr>)
                 else Inr (BLOCK2_COMPLETE, acc'\<lparr>b_complete := True\<rparr>)
             | None \<Rightarrow> Inr (BLOCK2_COMPLETE, acc'\<lparr>b_complete := True\<rparr>))))))))"

definition add_response :: "block2 \<Rightarrow> coap_message \<Rightarrow> (block2_status \<times> block2) result" where
  "add_response acc m =
     andThen (raise_if (b_complete acc) BlockwiseError) (\<lambda>_.
     andThen (raise_if (m_token m \<noteq> b_token acc) BlockwiseError) (\<lambda>_.
     andThen (raise_if (m_mtype m \<notin> {TYPE_CON, TYPE_NON, TYPE_ACK}) BlockwiseError) (\<lambda>_.
     andThen (raise_if (m_code m = 0) BlockwiseError) (\<lambda>_.
     if drop_bit 5 (m_code m) \<noteq> 2 then
       andThen (raise_if (length (m_payload m) > b_max_payload acc) BlockwiseError) (\<lambda>_.
         Inr (BLOCK2_COMPLETE,
              acc\<lparr>b_code := Some (m_code m), b_payload := m_payload m,
                  b_blocks := b_blocks acc + 1, b_complete := True\<rparr>))
     else success_response acc m))))"

text \<open>The caller's loop over the responses it receives: the statuses and the last state.\<close>

fun add_responses :: "block2 \<Rightarrow> coap_message list \<Rightarrow> (block2_status list \<times> block2) result" where
  "add_responses acc [] = Inr ([], acc)"
| "add_responses acc (m # ms) =
     andThen (add_response acc m) (\<lambda>(st, acc').
     andThen (add_responses acc' ms) (\<lambda>(sts, acc''). Inr (st # sts, acc'')))"

section \<open>The invariant\<close>

text \<open>
  Bounds on blocks and bytes; and while the transfer is open, either nothing has arrived or
  a success code and an SZX are fixed and the next block number is the assembled length in
  blocks of that size.
\<close>

definition block2_open :: "block2 \<Rightarrow> bool" where
  "block2_open acc \<longleftrightarrow>
     (if b_blocks acc = 0 then
        b_payload acc = [] \<and> b_expected acc = 0 \<and> b_szx acc = None \<and> b_code acc = None
      else
        b_payload acc \<noteq> [] \<and> (\<exists>s c. b_szx acc = Some s \<and> s \<le> BLOCK_SZX
          \<and> b_expected acc * 2 ^ (s + 4) = length (b_payload acc)
          \<and> b_code acc = Some c \<and> c div 32 = 2))"

definition block2_inv :: "block2 \<Rightarrow> bool" where
  "block2_inv acc \<longleftrightarrow>
     length (b_payload acc) \<le> b_max_payload acc \<and> b_blocks acc \<le> b_max_blocks acc
     \<and> (\<not> b_complete acc \<longrightarrow> b_blocks acc < b_max_blocks acc \<and> block2_open acc)
     \<and> (b_complete acc \<longrightarrow> b_code acc \<noteq> None)"

text \<open>What a fold over responses never changes.\<close>

definition same_limits :: "block2 \<Rightarrow> block2 \<Rightarrow> bool" where
  "same_limits a b \<longleftrightarrow>
     b_token b = b_token a \<and> b_max_blocks b = b_max_blocks a \<and> b_max_payload b = b_max_payload a
     \<and> b_formats b = b_formats a"

lemma same_limits_refl [simp]: "same_limits a a"
  by (simp add: same_limits_def)

lemma same_limits_trans: "same_limits a b \<Longrightarrow> same_limits b c \<Longrightarrow> same_limits a c"
  by (simp add: same_limits_def)

lemma positive_int_pos: "positive_int v = Inr n \<Longrightarrow> 0 < n"
  by (cases v) (auto split: if_splits)

lemma block2_new_inv:
  assumes "block2_new token max_blocks max_payload formats = Inr acc"
  shows "block2_inv acc" and "length (b_token acc) \<le> 8" and "\<not> b_complete acc" and "b_blocks acc = 0"
proof -
  from assms obtain tok mb mp fs where tok: "token_bytes token = Inr tok"
    and mb: "positive_int max_blocks = Inr mb" and mp: "positive_int max_payload = Inr mp"
    and acc: "acc = \<lparr>b_token = tok, b_max_blocks = mb, b_max_payload = mp, b_formats = fs,
            b_expected = 0, b_szx = None, b_etag = None, b_format = None, b_size2 = None,
            b_payload = [], b_blocks = 0, b_code = None, b_complete = False\<rparr>"
    by (auto simp: block2_new_def result_simps)
  have "length tok \<le> 8" using tok by (cases token) (auto split: if_splits)
  with positive_int_pos [OF mb] positive_int_pos [OF mp] acc
  show "block2_inv acc" and "length (b_token acc) \<le> 8" and "\<not> b_complete acc" and "b_blocks acc = 0"
    by (simp_all add: block2_inv_def block2_open_def)
qed

lemma block_header_szx:
  assumes "block_header acc m = Inr (number, mo, szx)"
  shows "szx = None \<Longrightarrow> \<not> mo \<and> number = 0 \<and> b_expected acc = 0"
    and "szx = Some s \<Longrightarrow> s \<le> BLOCK_SZX"
  using assms
  by (auto simp: block_header_def result_simps Let_def split: list.splits if_splits prod.splits)

text \<open>
  The effect of one success response, read off the definition once: a duplicate that changes
  nothing, or the block's bytes behind the assembled ones.
\<close>

lemma success_response_cases:
  assumes "success_response acc m = Inr (st, acc')"
  obtains (dup) "st = BLOCK2_DUPLICATE" "acc' = acc"
  | (cont) number s nxt where
      "st = BLOCK2_CONTINUE" "block_header acc m = Inr (number, True, Some s)"
      "block_window acc (m_payload m) number True (Some s) = Inr (Some nxt)"
      "b_payload acc' = b_payload acc @ m_payload m" "b_blocks acc' = b_blocks acc + 1"
      "b_blocks acc + 1 < b_max_blocks acc" "length (b_payload acc') \<le> b_max_payload acc"
      "b_szx acc' = Some s" "b_expected acc' = nxt div 2 ^ (s + 4)" "b_code acc' = Some (m_code m)"
      "b_complete acc' = b_complete acc" "same_limits acc acc'"
  | (fin) "st = BLOCK2_COMPLETE"
      "b_payload acc' = b_payload acc @ m_payload m" "b_blocks acc' = b_blocks acc + 1"
      "b_blocks acc < b_max_blocks acc" "length (b_payload acc') \<le> b_max_payload acc"
      "b_code acc' = Some (m_code m)" "b_complete acc'" "same_limits acc acc'"
proof -
  from assms obtain number mo szx window where
      h: "block_header acc m = Inr (number, mo, szx)"
    and w: "block_window acc (m_payload m) number mo szx = Inr window"
    by (auto simp: success_response_def result_simps)
  show thesis
  proof (cases window)
    case None
    with assms h w dup show thesis by (simp add: success_response_def)
  next
    case (Some nxt)
    with assms h w obtain etag cf size2 code where
        md: "next_metadata acc m = Inr (etag, cf, size2, code)"
      and len: "length (b_payload acc) + length (m_payload m) \<le> b_max_payload acc"
      and blk: "b_blocks acc < b_max_blocks acc" "mo \<Longrightarrow> b_blocks acc + 1 < b_max_blocks acc"
      and res: "(case szx of
               Some s \<Rightarrow>
                 if mo then (BLOCK2_CONTINUE, acc\<lparr>b_etag := etag, b_format := cf, b_size2 := size2,
                    b_szx := szx, b_code := Some code, b_payload := b_payload acc @ m_payload m,
                    b_blocks := b_blocks acc + 1, b_expected := nxt div push_bit (s + 4) 1\<rparr>)
                 else (BLOCK2_COMPLETE, acc\<lparr>b_etag := etag, b_format := cf, b_size2 := size2,
                    b_szx := szx, b_code := Some code, b_payload := b_payload acc @ m_payload m,
                    b_blocks := b_blocks acc + 1, b_complete := True\<rparr>)
             | None \<Rightarrow> (BLOCK2_COMPLETE, acc\<lparr>b_etag := etag, b_format := cf, b_size2 := size2,
                    b_szx := szx, b_code := Some code, b_payload := b_payload acc @ m_payload m,
                    b_blocks := b_blocks acc + 1, b_complete := True\<rparr>)) = (st, acc')"
      by (auto simp: success_response_def result_simps Let_def split: option.splits if_splits)
    have code: "code = m_code m"
      using md by (auto simp: next_metadata_def result_simps split: if_splits)
    show thesis
    proof (cases "mo \<and> szx \<noteq> None")
      case True
      then obtain s where "szx = Some s" "mo" by blast
      with res h w Some len blk code show thesis
        by (intro cont [of number s nxt]) (auto simp: same_limits_def byte_simps)
    next
      case False
      with res len blk code show thesis
        by (intro fin) (auto simp: same_limits_def split: option.splits)
    qed
  qed
qed

text \<open>The window of a continued block: at the end of what is assembled, and block-aligned.\<close>

lemma block_window_continue:
  assumes "block_window acc payload number True (Some s) = Inr (Some nxt)"
  shows "nxt = length (b_payload acc) + length payload" and "payload \<noteq> []"
    and "nxt mod 2 ^ (s + 4) = 0" and "number * 2 ^ (s + 4) = length (b_payload acc)"
  using assms
  by (auto simp: block_window_def Let_def byte_simps split: if_splits option.splits)

lemma add_response_inv:
  assumes "add_response acc m = Inr (st, acc')" and "block2_inv acc"
  shows "block2_inv acc' \<and> same_limits acc acc'"
proof (cases "drop_bit 5 (m_code m) = 2")
  case False
  with assms show ?thesis
    by (auto simp: add_response_def result_simps block2_inv_def same_limits_def)
next
  case True
  with assms have s: "success_response acc m = Inr (st, acc')" and nc: "\<not> b_complete acc"
    and code: "m_code m div 32 = 2"
    by (auto simp: add_response_def result_simps byte_simps)
  show ?thesis using s
  proof (cases rule: success_response_cases)
    case dup
    with assms show ?thesis by simp
  next
    case (cont number sx nxt)
    note win = block_window_continue [OF cont(3)]
    have "sx \<le> BLOCK_SZX" using block_header_szx(2) [OF cont(2)] by simp
    with cont win nc code assms(2) show ?thesis
      by (auto simp: block2_inv_def block2_open_def same_limits_def)
  next
    case fin
    with assms(2) show ?thesis by (auto simp: block2_inv_def same_limits_def)
  qed
qed

lemma add_responses_inv:
  "add_responses acc ms = Inr (sts, acc') \<Longrightarrow> block2_inv acc \<Longrightarrow> block2_inv acc' \<and> same_limits acc acc'"
proof (induction ms arbitrary: acc sts)
  case Nil
  then show ?case by simp
next
  case (Cons m ms)
  then show ?case
    by (auto simp: result_simps dest!: add_response_inv intro: same_limits_trans)
qed
section \<open>A whole transfer\<close>

text \<open>
  What the server says of the body besides its bytes: the ETag and the Content-Format its responses
  carry when they carry any, and whether all of them do; a Size2 estimate may come with any of them.
\<close>

record description =
  ds_etag :: "bytes option"
  ds_format :: "nat option"
  ds_always :: bool

definition describes :: "description \<Rightarrow> coap_message \<Rightarrow> bool" where
  "describes D m \<longleftrightarrow>
     (option_values (m_options m) ETAG = [] \<and> (ds_always D \<longrightarrow> ds_etag D = None)
      \<or> (\<exists>v. option_values (m_options m) ETAG = [v] \<and> 1 \<le> length v \<and> length v \<le> 8 \<and> ds_etag D = Some v))
     \<and> (option_values (m_options m) CONTENT_FORMAT = [] \<and> (ds_always D \<longrightarrow> ds_format D = None)
      \<or> (\<exists>v. option_values (m_options m) CONTENT_FORMAT = [v] \<and> length v \<le> 2 \<and> ds_format D = Some (be_nat v)))
     \<and> (option_values (m_options m) SIZE2 = [] \<or> (\<exists>v. option_values (m_options m) SIZE2 = [v] \<and> length v \<le> 4))"

text \<open>What the accumulator may know of it, and must know when every response says it.\<close>

definition recorded :: "description \<Rightarrow> bool \<Rightarrow> bytes option \<Rightarrow> nat option \<Rightarrow> bool" where
  "recorded D begun etag cf \<longleftrightarrow>
     (etag = None \<or> etag = ds_etag D) \<and> (cf = None \<or> cf = ds_format D)
     \<and> (ds_always D \<and> begun \<longrightarrow> etag = ds_etag D \<and> cf = ds_format D)"

definition accepts_format :: "block2 \<Rightarrow> description \<Rightarrow> bool" where
  "accepts_format acc D \<longleftrightarrow>
     (case (b_formats acc, ds_format D) of (Some fs, Some f) \<Rightarrow> f \<in> set fs | _ \<Rightarrow> True)"

text \<open>
  The response that carries block \<open>i\<close> of \<open>body\<close> at size exponent \<open>s\<close>, on any message type and
  Message ID; and a delivery of \<open>n\<close> blocks in order in which earlier blocks may be
  retransmitted at any point.
\<close>

definition serves :: "description \<Rightarrow> bytes \<Rightarrow> nat \<Rightarrow> nat \<Rightarrow> bytes \<Rightarrow> nat \<Rightarrow> coap_message \<Rightarrow> bool" where
  "serves D tok code s body i m \<longleftrightarrow>
     m_token m = tok \<and> m_mtype m \<in> {TYPE_CON, TYPE_NON, TYPE_ACK} \<and> m_code m = code
     \<and> (case option_values (m_options m) BLOCK2 of
          [v] \<Rightarrow> length v \<le> 3
                 \<and> block_fields v = (i, (if (i + 1) * 2 ^ (s + 4) < length body then 1 else 0), s)
        | _ \<Rightarrow> False)
     \<and> describes D m
     \<and> m_payload m = slice body (i * 2 ^ (s + 4)) ((i + 1) * 2 ^ (s + 4))"

fun deliveries :: "description \<Rightarrow> bytes \<Rightarrow> nat \<Rightarrow> nat \<Rightarrow> bytes \<Rightarrow> nat \<Rightarrow> nat \<Rightarrow> (nat \<times> coap_message) list \<Rightarrow> bool" where
  "deliveries D tok code s body n cur [] \<longleftrightarrow> cur = n"
| "deliveries D tok code s body n cur ((i, m) # xs) \<longleftrightarrow>
     cur < n \<and> serves D tok code s body i m
     \<and> (i = cur \<and> deliveries D tok code s body n (cur + 1) xs
        \<or> i < cur \<and> deliveries D tok code s body n cur xs)"

text \<open>The accumulator after the first \<open>i\<close> blocks.\<close>

definition assembled :: "description \<Rightarrow> block2 \<Rightarrow> nat \<Rightarrow> nat \<Rightarrow> bytes \<Rightarrow> nat \<Rightarrow> bool" where
  "assembled D acc code s body i \<longleftrightarrow>
     b_payload acc = take (i * 2 ^ (s + 4)) body \<and> b_blocks acc = i \<and> b_expected acc = i
     \<and> b_szx acc = (if i = 0 then None else Some s) \<and> recorded D (i \<noteq> 0) (b_etag acc) (b_format acc)
     \<and> b_code acc = (if i = 0 then None else Some code) \<and> \<not> b_complete acc"

lemma serves_header:
  assumes "serves D tok code s body i m" and "s \<le> BLOCK_SZX"
  shows "block_header acc m = Inr (i, (i + 1) * 2 ^ (s + 4) < length body, Some s)"
  using assms
  by (auto simp: serves_def block_header_def Let_def split: list.splits)

lemma described:
  assumes "describes D m"
  obtains e f z where "single_etag (m_options m) = Inr e" "uint_option (m_options m) CONTENT_FORMAT 2 = Inr f"
    "uint_option (m_options m) SIZE2 4 = Inr z" "recorded D True e f"
proof -
  obtain e where e: "single_etag (m_options m) = Inr e" "e = None \<or> e = ds_etag D" "ds_always D \<longrightarrow> e = ds_etag D"
    using assms unfolding describes_def by (auto simp: single_etag_def)
  obtain f where f: "uint_option (m_options m) CONTENT_FORMAT 2 = Inr f" "f = None \<or> f = ds_format D"
    "ds_always D \<longrightarrow> f = ds_format D"
    using assms unfolding describes_def by (auto simp: uint_option_def decode_uint_option_def)
  obtain z where "uint_option (m_options m) SIZE2 4 = Inr z"
    using assms unfolding describes_def by (auto simp: uint_option_def decode_uint_option_def)
  with e f show thesis by (intro that) (auto simp: recorded_def)
qed

lemma serves_metadata:
  assumes "serves D tok code s body i m" and "assembled D acc code s body cur" and "accepts_format acc D"
  obtains etag cf s2 where "next_metadata acc m = Inr (etag, cf, s2, code)" "recorded D True etag cf"
proof -
  have "describes D m" and code: "m_code m = code" using assms(1) by (simp_all add: serves_def)
  then obtain e f z where m: "single_etag (m_options m) = Inr e" "uint_option (m_options m) CONTENT_FORMAT 2 = Inr f"
      "uint_option (m_options m) SIZE2 4 = Inr z"
    and r: "recorded D True e f" by (blast elim: described)
  have f: "f = None \<or> f = ds_format D" using r by (simp add: recorded_def)
  have md: "next_metadata acc m =
      (if cur = 0 then Inr (e, f, z, code)
       else Inr (keep e (b_etag acc), keep f (b_format acc), keep z (b_size2 acc), code))"
  proof -
    have "\<not> differs e (b_etag acc)" "\<not> differs f (b_format acc)"
      using assms(2) r by (auto simp: assembled_def recorded_def differs_def)
    moreover have "\<not> (case b_formats acc of None \<Rightarrow> False | Some fs \<Rightarrow> (case f of None \<Rightarrow> False | Some f \<Rightarrow> f \<notin> set fs))"
      using assms(3) f by (auto simp: accepts_format_def split: option.splits)
    ultimately show ?thesis
      using assms(2) m code by (simp add: assembled_def next_metadata_def)
  qed
  show thesis
  proof (cases "cur = 0")
    case True
    with md r show thesis by (intro that) simp_all
  next
    case False
    then have "recorded D True (keep e (b_etag acc)) (keep f (b_format acc))"
      using assms(2) r by (auto simp: assembled_def recorded_def keep_def)
    with md False show thesis by (intro that) simp_all
  qed
qed

lemma serves_add:
  assumes "serves D tok code s body i m" and "b_token acc = tok" and "code div 32 = 2"
    and "\<not> b_complete acc"
  shows "add_response acc m = success_response acc m"
proof -
  have "code \<noteq> 0" using assms(3) by auto
  with assms show ?thesis by (auto simp: add_response_def serves_def byte_simps)
qed

lemma serves_duplicate:
  assumes m: "serves D tok code s body i m" and a: "assembled D acc code s body cur" and i: "i < cur"
    and c: "b_token acc = tok" "code div 32 = 2" "s \<le> BLOCK_SZX"
    and len: "i * 2 ^ (s + 4) < length body"
  shows "add_response acc m = Inr (BLOCK2_DUPLICATE, acc)"
proof -
  have "i * 2 ^ (s + 4) < cur * 2 ^ (s + 4)" using i by simp
  with a len have "i * 2 ^ (s + 4) < length (b_payload acc)" by (simp add: assembled_def)
  then have "block_window acc (m_payload m) i mo (Some s) = Inr None" for mo
    by (simp add: block_window_def Let_def byte_simps)
  with serves_header [OF m c(3)] serves_add [OF m c(1,2)] a show ?thesis
    by (simp add: success_response_def assembled_def)
qed

lemma serves_next:
  assumes m: "serves D tok code s body i m" and a: "assembled D acc code s body i"
    and c: "b_token acc = tok" "code div 32 = 2" "s \<le> BLOCK_SZX"
    and len: "i * 2 ^ (s + 4) < length body" "length body \<le> b_max_payload acc" 
    and fmt: "accepts_format acc D" and blk: "i < b_max_blocks acc"
      "(i + 1) * 2 ^ (s + 4) < length body \<Longrightarrow> i + 1 < b_max_blocks acc"
  shows "\<exists>acc'. same_limits acc acc' \<and>
     (if (i + 1) * 2 ^ (s + 4) < length body
      then add_response acc m = Inr (BLOCK2_CONTINUE, acc') \<and> assembled D acc' code s body (i + 1)
      else add_response acc m = Inr (BLOCK2_COMPLETE, acc') \<and> b_payload acc' = body
           \<and> b_code acc' = Some code \<and> b_complete acc' \<and> recorded D True (b_etag acc') (b_format acc'))"
proof -
  let ?B = "2 ^ (s + 4) :: nat" and ?more = "(i + 1) * 2 ^ (s + 4) < length body"
  have pl: "b_payload acc = take (i * ?B) body" and lp: "length (b_payload acc) = i * ?B"
    and szx: "b_szx acc = (if i = 0 then None else Some s)"
    using a len(1) by (simp_all add: assembled_def)
  have mp: "m_payload m = slice body (i * ?B) ((i + 1) * ?B)" using m by (simp add: serves_def)
  have lm: "length (m_payload m) \<le> ?B" "?more \<Longrightarrow> length (m_payload m) = ?B"
    "m_payload m \<noteq> []"
    using mp len(1) by (auto simp: algebra_simps slice_def)
  have app: "b_payload acc @ m_payload m = take ((i + 1) * ?B) body"
    unfolding pl mp slice_def by (simp add: take_add [symmetric] algebra_simps)
  have rs: "s \<le> request_szx acc" "i \<noteq> 0 \<Longrightarrow> request_szx acc = s"
    using szx c(3) by (simp_all add: request_szx_def)
  have lim: "?B \<le> 2 ^ (request_szx acc + 4)" using rs by (intro power_increasing) auto
  have win: "block_window acc (m_payload m) i ?more (Some s) = Inr (Some (i * ?B + length (m_payload m)))"
    using lp lm order_trans [OF lm(1) lim] szx by (auto simp: block_window_def Let_def byte_simps algebra_simps)
  have tot: "i * ?B + length (m_payload m) \<le> b_max_payload acc"
    using arg_cong [OF app, of length] lp len(2) by simp
  have nb: "b_blocks acc = i" and nc: "\<not> b_complete acc" using a by (simp_all add: assembled_def)
  obtain etag cf s2 where md: "next_metadata acc m = Inr (etag, cf, s2, code)" and rec: "recorded D True etag cf"
    by (rule serves_metadata [OF m a fmt])
  define acc1 where "acc1 = acc\<lparr>b_etag := etag, b_format := cf, b_size2 := s2, b_szx := Some s,
      b_code := Some code, b_payload := b_payload acc @ m_payload m, b_blocks := b_blocks acc + 1\<rparr>"
  have res: "add_response acc m = (if ?more
      then Inr (BLOCK2_CONTINUE, acc1\<lparr>b_expected := (i * ?B + length (m_payload m)) div ?B\<rparr>)
      else Inr (BLOCK2_COMPLETE, acc1\<lparr>b_complete := True\<rparr>))"
    unfolding serves_add [OF m c(1,2) nc] success_response_def serves_header [OF m c(3)]
    using win md lp tot nb blk
    by (auto simp: acc1_def Let_def byte_simps raise_if_def)
  show ?thesis
  proof (cases ?more)
    case True
    have "assembled D (acc1\<lparr>b_expected := (i * ?B + length (m_payload m)) div ?B\<rparr>) code s body (i + 1)"
      using lm(2) [OF True] app nb nc rec by (simp add: assembled_def acc1_def)
    moreover have "same_limits acc (acc1\<lparr>b_expected := (i * ?B + length (m_payload m)) div ?B\<rparr>)"
      by (simp add: same_limits_def acc1_def)
    ultimately show ?thesis using res True by auto
  next
    case False
    then have "b_payload acc @ m_payload m = body" using app by simp
    with res False rec show ?thesis
      by (intro exI [of _ "acc1\<lparr>b_complete := True\<rparr>"]) (auto simp: acc1_def same_limits_def)
  qed
qed

lemma deliveries_reassemble:
  assumes "deliveries D tok code s body n cur xs" and "assembled D acc code s body cur"
    and "cur < n" and "b_token acc = tok" and "code div 32 = 2" and "s \<le> BLOCK_SZX"
    and "(n - 1) * 2 ^ (s + 4) < length body" and "length body \<le> n * 2 ^ (s + 4)"
    and "length body \<le> b_max_payload acc" and "n \<le> b_max_blocks acc" and "accepts_format acc D"
  shows "\<exists>sts acc'. add_responses acc (map snd xs) = Inr (sts, acc') \<and> b_complete acc'
           \<and> b_payload acc' = body \<and> b_code acc' = Some code \<and> recorded D True (b_etag acc') (b_format acc')"
  using assms
proof (induction xs arbitrary: cur acc)
  case Nil
  then show ?case by simp
next
  case (Cons x xs)
  let ?B = "2 ^ (s + 4) :: nat"
  obtain i m where x: "x = (i, m)" by (cases x)
  from Cons.prems x have m: "serves D tok code s body i m"
    and ch: "i = cur \<and> deliveries D tok code s body n (cur + 1) xs
        \<or> i < cur \<and> deliveries D tok code s body n cur xs" by auto
  have le: "j * ?B < length body" if "j < n" for j
  proof -
    have "j * ?B \<le> (n - 1) * ?B" using that by simp
    with Cons.prems(7) show ?thesis by linarith
  qed
  show ?case
  proof (cases "i = cur")
    case False
    with ch have i: "i < cur" and rest: "deliveries D tok code s body n cur xs" by auto
    have "add_response acc m = Inr (BLOCK2_DUPLICATE, acc)"
      using serves_duplicate [OF m Cons.prems(2) i Cons.prems(4,5,6)] le i Cons.prems(3) by simp
    with Cons.IH [OF rest Cons.prems(2-)] x show ?thesis by auto
  next
    case True
    with ch have rest: "deliveries D tok code s body n (cur + 1) xs" by auto
    have more: "(cur + 1) * ?B < length body \<longleftrightarrow> cur + 1 < n"
    proof
      assume "(cur + 1) * ?B < length body"
      with Cons.prems(8) have "(cur + 1) * ?B < n * ?B" by linarith
      then show "cur + 1 < n" by (metis mult_less_cancel2)
    qed (rule le)
    from serves_next [OF m [unfolded True] Cons.prems(2,4,5,6)] le Cons.prems(3,9,10,11) more
    obtain acc' where lim: "same_limits acc acc'" and step: "if cur + 1 < n
      then add_response acc m = Inr (BLOCK2_CONTINUE, acc') \<and> assembled D acc' code s body (cur + 1)
      else add_response acc m = Inr (BLOCK2_COMPLETE, acc') \<and> b_payload acc' = body
           \<and> b_code acc' = Some code \<and> b_complete acc' \<and> recorded D True (b_etag acc') (b_format acc')" by auto
    show ?thesis
    proof (cases "cur + 1 < n")
      case True
      with step have a: "add_response acc m = Inr (BLOCK2_CONTINUE, acc')"
        "assembled D acc' code s body (cur + 1)" by auto
      from Cons.IH [OF rest a(2) True _ Cons.prems(5-8)] lim Cons.prems(4,9,10,11) a(1) x
      show ?thesis by (auto simp: same_limits_def accepts_format_def)
    next
      case False
      with rest Cons.prems(3) have "xs = []" by (cases xs) auto
      with step False x show ?thesis by simp
    qed
  qed
qed

section \<open>Bounded number of requests\<close>

lemma add_response_blocks:
  assumes "add_response acc m = Inr (st, acc')"
  shows "b_blocks acc' = b_blocks acc + (if st = BLOCK2_DUPLICATE then 0 else 1)"
    and "b_complete acc' \<longleftrightarrow> st = BLOCK2_COMPLETE"
proof -
  have nc: "\<not> b_complete acc" using assms by (auto simp: add_response_def result_simps)
  have "b_blocks acc' = b_blocks acc + (if st = BLOCK2_DUPLICATE then 0 else 1)
      \<and> (b_complete acc' \<longleftrightarrow> st = BLOCK2_COMPLETE)"
  proof (cases "drop_bit 5 (m_code m) = 2")
    case False
    with assms show ?thesis by (auto simp: add_response_def result_simps)
  next
    case True
    with assms have "success_response acc m = Inr (st, acc')"
      by (auto simp: add_response_def result_simps)
    then show ?thesis using nc by (cases rule: success_response_cases) auto
  qed
  then show "b_blocks acc' = b_blocks acc + (if st = BLOCK2_DUPLICATE then 0 else 1)"
    and "b_complete acc' \<longleftrightarrow> st = BLOCK2_COMPLETE" by auto
qed

lemma add_responses_blocks:
  "add_responses acc ms = Inr (sts, acc') \<Longrightarrow> \<not> b_complete acc \<Longrightarrow>
   b_blocks acc' = b_blocks acc + count_list sts BLOCK2_CONTINUE + (if b_complete acc' then 1 else 0)"
proof (induction ms arbitrary: acc sts)
  case Nil
  then show ?case by simp
next
  case (Cons m ms)
  from Cons.prems(1) obtain st acc1 sts1 where
      a: "add_response acc m = Inr (st, acc1)" and r: "add_responses acc1 ms = Inr (sts1, acc')"
    and sts: "sts = st # sts1" by (auto simp: result_simps)
  note b = add_response_blocks [OF a]
  show ?case
  proof (cases "st = BLOCK2_COMPLETE")
    case True
    have "ms = []"
    proof (rule ccontr)
      assume "ms \<noteq> []"
      then obtain m' ms' where "ms = m' # ms'" by (cases ms) auto
      with r True b show False by (auto simp: result_simps add_response_def)
    qed
    with r sts True b show ?thesis by auto
  next
    case False
    with Cons.IH [OF r] b sts show ?thesis by (cases st) auto
  qed
qed

section \<open>Properties\<close>

text \<open>C7.
  Reassembly is correct: a fresh accumulator fed the blocks of a non-empty body in order, at any size
  exponent up to 6, on any message types and Message IDs, each with or without the body's ETag, a
  Content-Format the accumulator accepts and any Size2, with retransmissions of earlier blocks
  anywhere in between, raises nothing and ends complete with exactly that body and code, and with that
  ETag and Content-Format if every response has them; provided the body and its blocks are within the two caps.
\<close>

theorem block2_reassembles_body:
  assumes "block2_new (PyBytes tok) (PyInt (int mb)) (PyInt (int mp)) formats = Inr acc" and "accepts_format acc D"
    and "deliveries D tok code s body n 0 xs" and "0 < n" and "code div 32 = 2" and "s \<le> BLOCK_SZX"
    and "(n - 1) * 2 ^ (s + 4) < length body" and "length body \<le> n * 2 ^ (s + 4)"
    and "length body \<le> mp" and "n \<le> mb"
  shows "\<exists>sts acc'. add_responses acc (map snd xs) = Inr (sts, acc')
           \<and> b_complete acc' \<and> b_payload acc' = body \<and> b_code acc' = Some code
           \<and> recorded D True (b_etag acc') (b_format acc')"
proof -
  from assms(1) have "assembled D acc code s body 0" "b_token acc = tok" "b_max_payload acc = mp"
    "b_max_blocks acc = mb"
    by (auto simp: block2_new_def result_simps assembled_def recorded_def split: if_splits)
  with deliveries_reassemble [OF assms(3) _ assms(4)] assms show ?thesis by simp
qed

theorem block2_reassembles_body_witness:
  "\<exists>acc sts acc'. block2_new (PyBytes [7]) (PyInt 4) (PyInt 64) PyNone = Inr acc
     \<and> add_responses acc
         [\<lparr>m_mtype = 2, m_code = 69, m_mid = 1, m_token = [7], m_options = [(4, [9]), (12, [60]), (23, [8]), (28, [18])],
           m_payload = replicate 16 1\<rparr>,
          \<lparr>m_mtype = 0, m_code = 69, m_mid = 1, m_token = [7], m_options = [(4, [9]), (12, [60]), (23, [8])],
           m_payload = replicate 16 1\<rparr>,
          \<lparr>m_mtype = 0, m_code = 69, m_mid = 2, m_token = [7], m_options = [(4, [9]), (12, [60]), (23, [16])],
           m_payload = replicate 2 1\<rparr>] = Inr (sts, acc')
     \<and> b_complete acc' \<and> b_payload acc' = replicate 18 1 \<and> b_code acc' = Some 69
     \<and> b_etag acc' = Some [9] \<and> b_format acc' = Some 60"
proof -
  obtain acc where acc: "block2_new (PyBytes [7]) (PyInt (int 4)) (PyInt (int 64)) PyNone = Inr acc" "b_formats acc = None"
    by (simp add: block2_new_def accepted_formats_def)
  let ?m0 = "\<lparr>m_mtype = 2, m_code = 69, m_mid = 1, m_token = [7], m_options = [(4, [9]), (12, [60]), (23, [8]), (28, [18])],
              m_payload = replicate 16 1\<rparr> :: coap_message"
  let ?m0' = "\<lparr>m_mtype = 0, m_code = 69, m_mid = 1, m_token = [7], m_options = [(4, [9]), (12, [60]), (23, [8])],
              m_payload = replicate 16 1\<rparr> :: coap_message"
  let ?m1 = "\<lparr>m_mtype = 0, m_code = 69, m_mid = 2, m_token = [7], m_options = [(4, [9]), (12, [60]), (23, [16])],
              m_payload = replicate 2 1\<rparr> :: coap_message"
  let ?D = "\<lparr>ds_etag = Some [9], ds_format = Some 60, ds_always = True\<rparr>"
  have d: "describes ?D ?m0" "describes ?D ?m0'" "describes ?D ?m1"
    by (simp_all add: describes_def option_values_def be_nat_def)
  have "deliveries ?D [7] 69 0 (replicate 18 1) 2 0 [(0, ?m0), (0, ?m0'), (1, ?m1)]"
    using d by (simp add: serves_def option_values_def block_fields_def slice_def be_nat_def)
  moreover have "accepts_format acc ?D" using acc(2) by (simp add: accepts_format_def)
  ultimately show ?thesis
    using block2_reassembles_body [OF acc(1), of ?D 69 0 "replicate 18 1" 2 "[(0, ?m0), (0, ?m0'), (1, ?m1)]"] acc
    by (fastforce simp: recorded_def)
qed

text \<open>C35.
  The transfer is bounded: whatever responses arrive, every state a fresh accumulator reaches
  holds at most \<open>max_blocks\<close> blocks and \<open>max_payload_bytes\<close> bytes, it asks for fewer than
  \<open>max_blocks\<close> further blocks in total, and while it is open its next block number times the
  negotiated block size is the number of bytes assembled.
\<close>

theorem block2_transfer_bounded:
  assumes "block2_new token max_blocks max_payload formats = Inr acc"
    and "add_responses acc ms = Inr (sts, acc')"
  shows "b_blocks acc' \<le> b_max_blocks acc \<and> length (b_payload acc') \<le> b_max_payload acc
    \<and> count_list sts BLOCK2_CONTINUE < b_max_blocks acc
    \<and> (\<not> b_complete acc' \<longrightarrow>
         b_expected acc' * 2 ^ (request_szx acc' + 4) = length (b_payload acc') \<and> request_szx acc' \<le> 6)"
proof -
  note new = block2_new_inv [OF assms(1)]
  from add_responses_inv [OF assms(2) new(1)]
  have inv: "block2_inv acc'" and lim: "same_limits acc acc'" by auto
  from add_responses_blocks [OF assms(2) new(3)] new(4)
  have cnt: "b_blocks acc' = count_list sts BLOCK2_CONTINUE + (if b_complete acc' then 1 else 0)"
    by simp
  show ?thesis
    using inv lim cnt
    by (auto simp: block2_inv_def block2_open_def same_limits_def request_szx_def split: if_splits)
qed

theorem block2_transfer_bounded_witness:
  "\<exists>acc acc'. block2_new (PyBytes [7]) (PyInt 4) (PyInt 64) (PyList [PyInt 60]) = Inr acc
     \<and> add_responses acc
         [\<lparr>m_mtype = 2, m_code = 69, m_mid = 1, m_token = [7], m_options = [(12, [60]), (23, [8])],
           m_payload = replicate 16 1\<rparr>] = Inr ([BLOCK2_CONTINUE], acc')
     \<and> b_expected acc' * 2 ^ (request_szx acc' + 4) = length (b_payload acc')"
proof -
  let ?acc = "\<lparr>b_token = [7], b_max_blocks = 4, b_max_payload = 64, b_formats = Some [60],
      b_expected = 0, b_szx = None, b_etag = None, b_format = None, b_size2 = None,
      b_payload = [], b_blocks = 0, b_code = None, b_complete = False\<rparr> :: block2"
  let ?acc' = "\<lparr>b_token = [7], b_max_blocks = 4, b_max_payload = 64, b_formats = Some [60],
      b_expected = 1, b_szx = Some 0, b_etag = None, b_format = Some 60, b_size2 = None,
      b_payload = replicate 16 1, b_blocks = 1, b_code = Some 69, b_complete = False\<rparr> :: block2"
  have a: "block2_new (PyBytes [7]) (PyInt 4) (PyInt 64) (PyList [PyInt 60]) = Inr ?acc"
    by (simp add: block2_new_def accepted_formats_def)
  have b: "add_responses ?acc
         [\<lparr>m_mtype = 2, m_code = 69, m_mid = 1, m_token = [7], m_options = [(12, [60]), (23, [8])],
           m_payload = replicate 16 1\<rparr>] = Inr ([BLOCK2_CONTINUE], ?acc')"
    by code_simp
  from a b block2_transfer_bounded [OF a b] show ?thesis
    by (intro exI [of _ ?acc] exI [of _ ?acc']) (simp add: request_szx_def)
qed

text \<open>What one accepted response does to the body: a success response either is a retransmission
  and changes nothing, or appends its payload behind the bytes already assembled and nothing
  else; a response of any other class ends the transfer and its payload replaces the
  assembled bytes, so the two content types are never concatenated.
\<close>

theorem block2_response_effect:
  assumes "add_response acc m = Inr (st, acc')"
  shows "if m_code m div 32 = 2
         then st = BLOCK2_DUPLICATE \<and> acc' = acc
              \<or> st \<noteq> BLOCK2_DUPLICATE \<and> b_payload acc' = b_payload acc @ m_payload m
                \<and> b_code acc' = Some (m_code m)
         else st = BLOCK2_COMPLETE \<and> b_payload acc' = m_payload m \<and> b_code acc' = Some (m_code m)"
proof (cases "m_code m div 32 = 2")
  case False
  with assms show ?thesis by (auto simp: add_response_def result_simps byte_simps)
next
  case True
  with assms have "success_response acc m = Inr (st, acc')"
    by (auto simp: add_response_def result_simps byte_simps)
  then show ?thesis using True by (cases rule: success_response_cases) auto
qed

theorem block2_response_effect_witness:
  "\<exists>acc'. add_response \<lparr>b_token = [7], b_max_blocks = 4, b_max_payload = 64, b_formats = None,
      b_expected = 1, b_szx = Some 0, b_etag = None, b_format = None, b_size2 = None,
      b_payload = replicate 16 1, b_blocks = 1, b_code = Some 69, b_complete = False\<rparr>
      \<lparr>m_mtype = 2, m_code = 132, m_mid = 1, m_token = [7], m_options = [], m_payload = [9]\<rparr>
      = Inr (BLOCK2_COMPLETE, acc') \<and> b_payload acc' = [9]"
proof -
  let ?acc = "\<lparr>b_token = [7], b_max_blocks = 4, b_max_payload = 64, b_formats = None,
      b_expected = 1, b_szx = Some 0, b_etag = None, b_format = None, b_size2 = None,
      b_payload = replicate 16 1, b_blocks = 1, b_code = Some 69, b_complete = False\<rparr> :: block2"
  let ?m = "\<lparr>m_mtype = 2, m_code = 132, m_mid = 1, m_token = [7], m_options = [], m_payload = [9]\<rparr>"
  obtain st acc' where r: "add_response ?acc ?m = Inr (st, acc')"
    by (simp add: add_response_def byte_simps)
  from block2_response_effect [OF r] r show ?thesis by simp
qed

end
