(* ===== verification/Coap_Tcp.thy ===== *)
theory Coap_Tcp
  imports Coap_Wire
begin

text \<open>
  The CoAP-over-TCP codec of \<open>smartthings_local/protocol/coap_tcp.py\<close> (RFC 8323 framing): the
  validators, the option and length encoders, the message builders, the strict parser and
  the incremental stream decoder. Arguments the code validates with \<open>isinstance\<close> are
  \<open>pyval\<close>s, so the \<open>TypeError\<close> branches are part of the model.
\<close>

section \<open>Limits and validators\<close>

abbreviation (input) "COAP_TCP_MAX_DECLARED_LENGTH \<equiv> 4295033100 :: nat"
abbreviation (input) "COAP_MAX_TOKEN_LENGTH \<equiv> 8 :: nat"
abbreviation (input) "COAP_TCP_MAX_MESSAGE_SIZE \<equiv> 4295033114 :: nat"
abbreviation (input) "COAP_MAX_OPTION_NUMBER \<equiv> 65535 :: nat"
abbreviation (input) "COAP_MAX_OPTION_VALUE_LENGTH \<equiv> 65804 :: nat"
abbreviation (input) "DEFAULT_MAX_MESSAGE_SIZE \<equiv> 4194304 :: nat"

record tcp_message =
  t_code :: nat
  t_token :: bytes
  t_options :: "coap_option list"
  t_payload :: bytes

fun coerce_bytes :: "pyval \<Rightarrow> nat option \<Rightarrow> bytes result" where
  "coerce_bytes (PyBytes b) max_length =
     (case max_length of
        None \<Rightarrow> Inr b
      | Some mx \<Rightarrow> if length b > mx then Inl CoapTcpCodecError else Inr b)"
| "coerce_bytes PyReleasedView _ = Inl Py_ValueError"
| "coerce_bytes _ _ = Inl Py_TypeError"

fun validate_int :: "pyval \<Rightarrow> nat \<Rightarrow> nat \<Rightarrow> nat result" where
  "validate_int (PyInt n) lo hi =
     (if int lo \<le> n \<and> n \<le> int hi then Inr (nat n) else Inl CoapTcpCodecError)"
| "validate_int _ _ _ = Inl Py_TypeError"

definition validate_max_message_size :: "pyval \<Rightarrow> nat result" where
  "validate_max_message_size v = validate_int v 2 COAP_TCP_MAX_MESSAGE_SIZE"

definition encode_uint_option :: "pyval \<Rightarrow> bytes result" where
  "encode_uint_option v =
     andThen (validate_int v 0 4294967295) (\<lambda>n.
       if n = 0 then Inr [] else to_bytes ((bit_length n + 7) div 8) n)"

section \<open>Building\<close>

definition encode_extended :: "nat \<Rightarrow> (nat \<times> bytes) result" where
  "encode_extended v =
     (if v < 13 then Inr (v, [])
      else if v < 269 then andThen (byte_of (v - 13)) (\<lambda>b. Inr (13, [b]))
      else if v \<le> COAP_MAX_OPTION_VALUE_LENGTH
        then andThen (to_bytes 2 (v - 269)) (\<lambda>bs. Inr (14, bs))
      else Inl CoapTcpCodecError)"

fun normalize_items :: "pyval list \<Rightarrow> coap_option list result" where
  "normalize_items [] = Inr []"
| "normalize_items (x # xs) =
     andThen (case x of
                PyTuple [a, b] \<Rightarrow> Inr (a, b)
              | PyList [a, b] \<Rightarrow> Inr (a, b)
              | _ \<Rightarrow> Inl Py_TypeError) (\<lambda>(a, b).
     andThen (validate_int a 0 COAP_MAX_OPTION_NUMBER) (\<lambda>number.
     andThen (coerce_bytes b (Some COAP_MAX_OPTION_VALUE_LENGTH)) (\<lambda>value.
     andThen (normalize_items xs) (\<lambda>rest. Inr ((number, value) # rest)))))"

definition normalize_options :: "pyval \<Rightarrow> coap_option list result" where
  "normalize_options options =
     (case py_iter options of
        None \<Rightarrow> Inl Py_TypeError
      | Some xs \<Rightarrow> andThen (normalize_items xs) (\<lambda>opts. Inr (sort_key fst opts)))"

fun tcp_encode_from :: "nat \<Rightarrow> coap_option list \<Rightarrow> bytes result" where
  "tcp_encode_from prev [] = Inr []"
| "tcp_encode_from prev ((n, val) # opts) =
     andThen (encode_extended (n - prev)) (\<lambda>(d, dx).
     andThen (encode_extended (length val)) (\<lambda>(l, lx).
     andThen (byte_of (push_bit 4 d OR l)) (\<lambda>h.
     andThen (tcp_encode_from n opts) (\<lambda>rest.
       Inr (h # dx @ lx @ val @ rest)))))"

definition encode_length :: "nat \<Rightarrow> nat \<Rightarrow> bytes result" where
  "encode_length n tkl =
     (if n < 13 then andThen (byte_of (push_bit 4 n OR tkl)) (\<lambda>h. Inr [h])
      else if n < 269 then
        andThen (byte_of (push_bit 4 13 OR tkl)) (\<lambda>h. andThen (byte_of (n - 13)) (\<lambda>b. Inr [h, b]))
      else if n < 65805 then
        andThen (byte_of (push_bit 4 14 OR tkl)) (\<lambda>h.
        andThen (to_bytes 2 (n - 269)) (\<lambda>bs. Inr (h # bs)))
      else if n \<le> COAP_TCP_MAX_DECLARED_LENGTH then
        andThen (byte_of (push_bit 4 15 OR tkl)) (\<lambda>h.
        andThen (to_bytes 4 (n - 65805)) (\<lambda>bs. Inr (h # bs)))
      else Inl CoapTcpCodecError)"

definition build_coap_tcp_message ::
  "pyval \<Rightarrow> pyval \<Rightarrow> pyval \<Rightarrow> pyval \<Rightarrow> pyval \<Rightarrow> bytes result" where
  "build_coap_tcp_message code token options payload max_message_size =
     andThen (validate_max_message_size max_message_size) (\<lambda>maximum.
     andThen (validate_int code 0 255) (\<lambda>c.
     andThen (coerce_bytes token (Some COAP_MAX_TOKEN_LENGTH)) (\<lambda>tok.
     andThen (coerce_bytes payload (Some maximum)) (\<lambda>pl.
     andThen (normalize_options options) (\<lambda>opts.
     andThen (tcp_encode_from 0 opts) (\<lambda>enc.
     let n = length enc + (if pl \<noteq> [] then 1 + length pl else 0) in
     andThen (encode_length n (length tok)) (\<lambda>prefix.
     andThen (raise_if (length prefix + 1 + length tok + n > maximum) CoapTcpCodecError) (\<lambda>_.
     andThen (byte_of c) (\<lambda>cb.
       Inr (prefix @ [cb] @ tok @ enc @ (if pl \<noteq> [] then 0xFF # pl else [])))))))))))"

text \<open>\<open>path.split('/')\<close> without the empty segments, each encoded; then the query items.\<close>

fun encode_texts :: "nat \<Rightarrow> pystr list \<Rightarrow> coap_option list result" where
  "encode_texts number [] = Inr []"
| "encode_texts number (s # ss) =
     andThen (utf8_encode s) (\<lambda>b. andThen (encode_texts number ss) (\<lambda>r. Inr ((number, b) # r)))"

fun query_options :: "pyval list \<Rightarrow> coap_option list result" where
  "query_options [] = Inr []"
| "query_options (PyStr s # qs) =
     (if s = [] then Inl CoapTcpCodecError
      else andThen (utf8_encode s) (\<lambda>b. andThen (query_options qs) (\<lambda>r. Inr ((URI_QUERY, b) # r))))"
| "query_options (_ # qs) = Inl Py_TypeError"

definition path_options :: "pyval \<Rightarrow> pyval \<Rightarrow> coap_option list result" where
  "path_options path query =
     (case path of
        PyStr p \<Rightarrow>
          if take 1 p \<noteq> str_of ''/'' \<or> of_char CHR ''?'' \<in> set p \<or> of_char CHR ''#'' \<in> set p
          then Inl CoapTcpCodecError
          else (case query of
                  PyStr _ \<Rightarrow> Inl Py_TypeError
                | PyBytes _ \<Rightarrow> Inl Py_TypeError
                | PyReleasedView \<Rightarrow> Inl Py_TypeError
                | _ \<Rightarrow>
                    andThen (encode_texts URI_PATH
                       [seg. seg \<leftarrow> py_split (of_char CHR ''/'') p, seg \<noteq> []]) (\<lambda>segs.
                    case py_iter query of
                      None \<Rightarrow> Inl Py_TypeError
                    | Some qs \<Rightarrow> andThen (query_options qs) (\<lambda>r. Inr (segs @ r))))
      | _ \<Rightarrow> Inl Py_TypeError)"

text \<open>Options the builders made themselves, in front of the caller's extra options.\<close>

definition with_extra :: "coap_option list \<Rightarrow> pyval \<Rightarrow> pyval result" where
  "with_extra own extra =
     (case py_iter extra of
        None \<Rightarrow> Inl Py_TypeError
      | Some xs \<Rightarrow>
          Inr (PyList (map (\<lambda>(n, v). PyTuple [PyInt (int n), PyBytes v]) own @ xs)))"

definition accept_option :: "pyval \<Rightarrow> coap_option list result" where
  "accept_option accept =
     (if accept = PyNone then Inr []
      else andThen (encode_uint_option accept) (\<lambda>b. Inr [(ACCEPT, b)]))"

definition build_coap_tcp_get ::
  "pyval \<Rightarrow> pyval \<Rightarrow> pyval \<Rightarrow> pyval \<Rightarrow> pyval \<Rightarrow> pyval \<Rightarrow> bytes result" where
  "build_coap_tcp_get path token query accept extra max_message_size =
     andThen (path_options path query) (\<lambda>opts.
     andThen (accept_option accept) (\<lambda>acc.
     andThen (with_extra (opts @ acc) extra) (\<lambda>options.
       build_coap_tcp_message (PyInt (int METHOD_GET)) token options (PyBytes []) max_message_size)))"

definition build_coap_tcp_post ::
  "pyval \<Rightarrow> pyval \<Rightarrow> pyval \<Rightarrow> pyval \<Rightarrow> pyval \<Rightarrow> pyval \<Rightarrow> pyval \<Rightarrow> pyval \<Rightarrow> bytes result" where
  "build_coap_tcp_post path payload token query content_format accept extra max_message_size =
     andThen (path_options path query) (\<lambda>opts.
     andThen (encode_uint_option content_format) (\<lambda>cf.
     andThen (accept_option accept) (\<lambda>acc.
     andThen (with_extra (opts @ [(CONTENT_FORMAT, cf)] @ acc) extra) (\<lambda>options.
       build_coap_tcp_message (PyInt (int METHOD_POST)) token options payload max_message_size))))"

definition build_coap_tcp_csm :: "pyval \<Rightarrow> pyval \<Rightarrow> pyval \<Rightarrow> bytes result" where
  "build_coap_tcp_csm receive_max block_wise max_message_size =
     (case block_wise of
        PyBool bw \<Rightarrow>
          andThen (if receive_max = PyNone then Inr []
                   else andThen (validate_int receive_max 2 4294967295) (\<lambda>n.
                        andThen (encode_uint_option (PyInt (int n))) (\<lambda>b. Inr [(2, b)]))) (\<lambda>own.
          andThen (with_extra (own @ (if bw then [(4, [])] else [])) (PyTuple [])) (\<lambda>options.
            build_coap_tcp_message (PyInt 0xE1) (PyBytes []) options (PyBytes []) max_message_size))
      | _ \<Rightarrow> Inl Py_TypeError)"

definition build_coap_tcp_delete ::
  "pyval \<Rightarrow> pyval \<Rightarrow> pyval \<Rightarrow> pyval \<Rightarrow> pyval \<Rightarrow> pyval \<Rightarrow> bytes result" where
  "build_coap_tcp_delete path token query accept extra max_message_size =
     andThen (path_options path query) (\<lambda>opts.
     andThen (accept_option accept) (\<lambda>acc.
     andThen (with_extra (opts @ acc) extra) (\<lambda>options.
       build_coap_tcp_message (PyInt (int METHOD_DELETE)) token options (PyBytes [])
         max_message_size)))"

section \<open>Parsing\<close>

text \<open>The size of the length extension and the base it counts from, by length nibble.\<close>

definition extension_size :: "nat \<Rightarrow> nat" where
  "extension_size nib = (if nib < 13 then 0 else if nib = 13 then 1 else if nib = 14 then 2 else 4)"

definition length_base :: "nat \<Rightarrow> nat" where
  "length_base nib = (if nib = 13 then 13 else if nib = 14 then 269 else 65805)"

definition decode_length :: "bytes \<Rightarrow> (nat \<times> nat \<times> nat) result" where
  "decode_length data =
     andThen (raise_if (data = []) CoapTcpCodecError) (\<lambda>_.
     andThen (item data 0) (\<lambda>first.
     let nib = drop_bit 4 (unat first); tkl = unat first AND 15 in
     andThen (raise_if (tkl > COAP_MAX_TOKEN_LENGTH) CoapTcpCodecError) (\<lambda>_.
     if nib < 13 then Inr (nib, tkl, 1)
     else
       let prefix_size = 1 + extension_size nib in
       andThen (raise_if (length data < prefix_size) CoapTcpCodecError) (\<lambda>_.
         Inr (length_base nib + be_nat (slice data 1 prefix_size), tkl, prefix_size)))))"

definition frame_size_from_prefix :: "nat \<Rightarrow> bytes \<Rightarrow> nat option result" where
  "frame_size_from_prefix maximum data =
     (if data = [] then Inr None
      else
        andThen (item data 0) (\<lambda>first.
        let tkl = unat first AND 15; nib = drop_bit 4 (unat first) in
        andThen (raise_if (tkl > COAP_MAX_TOKEN_LENGTH) CoapTcpCodecError) (\<lambda>_.
        let prefix_size = 1 + extension_size nib in
        if length data < prefix_size then Inr None
        else
          andThen (decode_length (take prefix_size data)) (\<lambda>(n, _, _).
          let frame_size = prefix_size + 1 + tkl + n in
          andThen (raise_if (frame_size > maximum) CoapTcpCodecError) (\<lambda>_.
            Inr (Some frame_size))))))"

definition decode_extended :: "bytes \<Rightarrow> nat \<Rightarrow> nat \<Rightarrow> (nat \<times> nat) result" where
  "decode_extended data cursor nib =
     (if nib < 13 then Inr (nib, cursor)
      else if nib = 15 then Inl CoapTcpCodecError
      else
        let end_off = cursor + (if nib = 13 then 1 else 2) in
        andThen (raise_if (end_off > length data) CoapTcpCodecError) (\<lambda>_.
          Inr ((if nib = 13 then 13 else 269) + be_nat (slice data cursor end_off), end_off)))"

lemma decode_extended_progress: "decode_extended data i nib = Inr (v, j) \<Longrightarrow> i \<le> j"
  by (auto simp: decode_extended_def result_simps Let_def split: if_splits)

function decode_options :: "bytes \<Rightarrow> nat \<Rightarrow> nat \<Rightarrow> (coap_option list \<times> bytes) result" where
  "decode_options data cursor previous =
     (if cursor < length data then
        andThen (item data cursor) (\<lambda>first.
          if first = 0xFF then
            andThen (raise_if (cursor + 1 = length data) CoapTcpCodecError) (\<lambda>_.
              Inr ([], drop (cursor + 1) data))
          else
            andThen (decode_extended data (cursor + 1) (drop_bit 4 (unat first))) (\<lambda>(delta, j).
            andThen (decode_extended data j (unat first AND 15)) (\<lambda>(len, k).
            andThen (raise_if (previous + delta > COAP_MAX_OPTION_NUMBER) CoapTcpCodecError) (\<lambda>_.
            andThen (raise_if (k + len > length data) CoapTcpCodecError) (\<lambda>_.
            andThen (decode_options data (k + len) (previous + delta)) (\<lambda>(opts, payload).
              Inr ((previous + delta, slice data k (k + len)) # opts, payload)))))))
      else Inr ([], []))"
  by pat_completeness auto
termination
  by (relation "measure (\<lambda>(data, i, prev). length data - i)")
    (auto simp: result_simps dest!: decode_extended_progress)

declare decode_options.simps [simp del]

text \<open>The body of \<open>parse_coap_tcp_message\<close> once its two arguments are validated.\<close>

definition parse_frame :: "nat \<Rightarrow> bytes \<Rightarrow> tcp_message result" where
  "parse_frame maximum wire =
     andThen (decode_length wire) (\<lambda>(n, tkl, prefix_size).
     let expected = prefix_size + 1 + tkl + n in
     andThen (raise_if (expected > maximum) CoapTcpCodecError) (\<lambda>_.
     andThen (raise_if (length wire < expected) CoapTcpCodecError) (\<lambda>_.
     andThen (raise_if (length wire > expected) CoapTcpCodecError) (\<lambda>_.
     let token_off = prefix_size + 1; option_off = prefix_size + 1 + tkl in
     andThen (decode_options (drop option_off wire) 0 0) (\<lambda>(options, payload).
     andThen (item wire prefix_size) (\<lambda>code.
       Inr \<lparr>t_code = unat code, t_token = slice wire token_off option_off,
            t_options = options, t_payload = payload\<rparr>))))))"

definition parse_coap_tcp_message :: "pyval \<Rightarrow> pyval \<Rightarrow> tcp_message result" where
  "parse_coap_tcp_message data max_message_size =
     andThen (validate_max_message_size max_message_size) (\<lambda>maximum.
     andThen (coerce_bytes data (Some maximum)) (\<lambda>wire. parse_frame maximum wire))"


section \<open>The option codec agrees with the datagram codec\<close>

text \<open>
  The two codecs are written separately, with different checks. On what they accept they
  agree, so the facts proved of the datagram options carry over.
\<close>

lemma encode_extended_vlen: "encode_extended v = Inr x \<longleftrightarrow> vlen v = Inr x"
  by (auto simp: encode_extended_def vlen_def result_simps split: if_splits)

lemma tcp_encode_from_eq: "tcp_encode_from prev opts = Inr e \<longleftrightarrow> encode_from prev opts = Inr e"
proof (induction opts arbitrary: prev e)
  case Nil
  then show ?case by simp
next
  case (Cons opt opts)
  then show ?case
    by (cases opt) (simp add: result_simps encode_extended_vlen split_beta)
qed

lemma slice_one: "i < length xs \<Longrightarrow> slice xs i (Suc i) = [xs ! i]"
  by (simp add: slice_def take_Suc_conv_app_nth)

lemma decode_extended_ext_field:
  "nib < 16 \<Longrightarrow> decode_extended data i nib = Inr x \<longleftrightarrow> ext_field data i nib = Inr x"
  by (auto simp: decode_extended_def ext_field_def Let_def result_simps slice_one be_nat_Cons
      not_le not_less split: if_splits)

lemma decode_options_parse:
  "decode_options data i prev = Inr (opts, pl) \<longleftrightarrow>
     parse_options data i prev = Inr (opts, pl) \<and> (\<forall>n \<in> fst ` set opts. n \<le> COAP_MAX_OPTION_NUMBER)"
proof (induction data i prev arbitrary: opts pl rule: parse_options.induct)
  case (1 data i prev)
  show ?case
  proof (cases "i < length data \<and> data ! i \<noteq> 0xFF")
    case False
    then show ?thesis
      by (auto simp: decode_options.simps [of data i] parse_options.simps [of data i] result_simps)
  next
    case True
    let ?b = "data ! i"
    have nib: "drop_bit 4 (unat ?b) < 16" "unat ?b AND 15 < 16"
      using unat_byte_lt [of ?b] by (simp_all add: byte_simps)
    show ?thesis
    proof (cases "\<exists>delta j len k. ext_field data (i + 1) (drop_bit 4 (unat ?b)) = Inr (delta, j)
        \<and> ext_field data j (unat ?b AND 15) = Inr (len, k) \<and> k + len \<le> length data")
      case False
      then show ?thesis
        using True nib by (auto simp: decode_options.simps [of data i] parse_options.simps [of data i]
            result_simps decode_extended_ext_field)
    next
      case wf: True
      then obtain delta j len k where
        f: "ext_field data (i + 1) (drop_bit 4 (unat ?b)) = Inr (delta, j)"
           "ext_field data j (unat ?b AND 15) = Inr (len, k)" "k + len \<le> length data" by blast
      have f': "decode_extended data (i + 1) (drop_bit 4 (unat ?b)) = Inr (delta, j)"
           "decode_extended data j (unat ?b AND 15) = Inr (len, k)"
        using f nib by (simp_all add: decode_extended_ext_field)
      have rec: "decode_options data (k + len) (prev + delta) = Inr (o', pl) \<longleftrightarrow>
          parse_options data (k + len) (prev + delta) = Inr (o', pl)
          \<and> (\<forall>n \<in> fst ` set o'. n \<le> COAP_MAX_OPTION_NUMBER)" for o'
        using "1.IH" [OF conjunct1 [OF True], of ?b "(delta, j)" delta j "(len, k)" len k "()" o' pl]
          True f by simp
      show ?thesis
        using True f f' rec
        by (auto simp: decode_options.simps [of data i] parse_options.simps [of data i] result_simps)
    qed
  qed
qed

lemma decode_options_error: "decode_options data i prev = Inl e \<Longrightarrow> e = CoapTcpCodecError"
proof (induction data i prev rule: decode_options.induct)
  case (1 data i prev)
  then show ?case
    by (auto simp: decode_options.simps [of data i] result_simps decode_extended_def Let_def
        split: if_splits)
qed


section \<open>The length prefix\<close>

lemma nibble_header:
  fixes nib tkl :: nat
  assumes "tkl < 16"
  shows "nib * 16 OR tkl = nib * 16 + tkl" and "(nib * 16 + tkl) div 16 = nib"
    and "(nib * 16 + tkl) mod 16 = tkl"
  using assms or_shifted [of tkl 4 nib] by simp_all

lemmas nibble_headers = nibble_header
  nibble_header [where nib = 13, simplified] nibble_header [where nib = 14, simplified]
  nibble_header [where nib = 15, simplified]

lemma decode_length_encode:
  assumes "encode_length n tkl = Inr pre" and "tkl \<le> 8"
  shows "decode_length (pre @ rest) = Inr (n, tkl, length pre)"
proof -
  have tkl: "tkl < 16" using assms(2) by simp
  consider "n < 13" | "13 \<le> n" "n < 269" | "269 \<le> n" "n < 65805" | "65805 \<le> n" by linarith
  then show ?thesis
  proof cases
    case 1
    with assms tkl show ?thesis
      by (auto simp: encode_length_def decode_length_def nibble_headers byte_simps Let_def)
  next
    case 2
    with assms tkl show ?thesis
      by (auto simp: encode_length_def decode_length_def nibble_headers byte_simps Let_def result_simps
          extension_size_def length_base_def slice_def be_nat_Cons)
  next
    case 3
    then have pre: "pre = mk_byte (14 * 16 + tkl) # nat_be 2 (n - 269)" "n - 269 < 256 ^ 2"
      using assms tkl by (simp_all add: encode_length_def nibble_headers byte_simps result_simps)
    then have "be_nat (slice (pre @ rest) 1 3) = n - 269" "length pre = 3"
      by (simp_all add: slice_def del: nat_be.simps)
    with 3 pre(1) tkl assms(2) show ?thesis
      by (simp add: decode_length_def Let_def nibble_headers byte_simps extension_size_def length_base_def
          numeral_3_eq_3 del: nat_be.simps)
  next
    case 4
    then have pre: "pre = mk_byte (15 * 16 + tkl) # nat_be 4 (n - 65805)" "n - 65805 < 256 ^ 4"
      using assms tkl by (simp_all add: encode_length_def nibble_headers byte_simps result_simps split: if_splits)
    then have "be_nat (slice (pre @ rest) 1 5) = n - 65805" "length pre = 5"
      by (simp_all add: slice_def del: nat_be.simps)
    with 4 pre(1) tkl assms(2) show ?thesis
      by (simp add: decode_length_def Let_def nibble_headers byte_simps extension_size_def length_base_def
          del: nat_be.simps)
  qed
qed

lemma encode_length_decode:
  assumes "decode_length data = Inr (n, tkl, p)"
  shows "encode_length n tkl = Inr (take p data)" and "tkl \<le> 8" and "1 \<le> p"
    and "p \<le> length data"
proof -
  let ?b = "unat (data ! 0)" and ?p = "1 + extension_size (unat (data ! 0) div 16)"
  have bounds: "?b div 16 < 16" "?b mod 16 < 16" using unat_byte_lt [of "data ! 0"] by simp_all
  have hd: "mk_byte (?b div 16 * 16 + ?b mod 16) = data ! 0" by simp
  from assms have ne: "data \<noteq> []" and tkl: "tkl = ?b mod 16" "tkl \<le> 8"
    and sz: "if ?b div 16 < 13 then n = ?b div 16 \<and> p = 1
             else n = length_base (?b div 16) + be_nat (slice data 1 ?p) \<and> p = ?p \<and> ?p \<le> length data"
    by (auto simp: decode_length_def result_simps byte_simps Let_def split: if_splits)
  show "tkl \<le> 8" by fact
  show p: "1 \<le> p" "p \<le> length data" using sz ne by (auto split: if_splits simp: Suc_le_eq)
  have tk: "take p data = data ! 0 # slice data 1 p"
    using ne p by (cases data; cases p) (simp_all add: slice_def)
  have len: "length (slice data 1 p) = p - 1" using p by simp
  have inv: "nat_be k (be_nat (slice data 1 p)) = slice data 1 p" "be_nat (slice data 1 p) < 256 ^ k"
    if "p = 1 + k" for k
    using nat_be_be_nat [of "slice data 1 p" k] be_nat_less [of "slice data 1 p"] len that by simp_all
  consider "?b div 16 < 13" | "?b div 16 = 13" | "?b div 16 = 14" | "?b div 16 = 15"
    using bounds by linarith
  then show "encode_length n tkl = Inr (take p data)"
  proof cases
    case 1
    with sz tkl bounds hd tk show ?thesis
      by (simp add: encode_length_def nibble_headers byte_simps slice_def)
  next
    case 2
    with sz have np: "p = 1 + 1" "n = 13 + be_nat (slice data 1 p)"
      by (simp_all add: extension_size_def length_base_def)
    with inv [OF np(1)] tkl bounds hd tk 2 show ?thesis
      by (simp add: encode_length_def nibble_headers byte_simps)
  next
    case 3
    with sz have np: "p = 1 + 2" "n = 269 + be_nat (slice data 1 p)"
      by (simp_all add: extension_size_def length_base_def)
    with inv [OF np(1)] tkl bounds hd tk 3 show ?thesis
      by (simp add: encode_length_def nibble_headers byte_simps to_bytes_def del: nat_be.simps)
  next
    case 4
    with sz have np: "p = 1 + 4" "n = 65805 + be_nat (slice data 1 p)"
      by (simp_all add: extension_size_def length_base_def)
    with inv [OF np(1)] tkl bounds hd tk 4 show ?thesis
      by (simp add: encode_length_def nibble_headers byte_simps to_bytes_def del: nat_be.simps)
  qed
qed


section \<open>Whole messages\<close>

text \<open>The options argument as a caller writes it: a list of pairs.\<close>

definition py_options :: "coap_option list \<Rightarrow> pyval" where
  "py_options opts = PyList (map (\<lambda>(n, v). PyTuple [PyInt (int n), PyBytes v]) opts)"

definition tcp_option_ok :: "coap_option \<Rightarrow> bool" where
  "tcp_option_ok opt \<longleftrightarrow>
     fst opt \<le> COAP_MAX_OPTION_NUMBER \<and> length (snd opt) \<le> COAP_MAX_OPTION_VALUE_LENGTH"

lemma normalize_py_options:
  "list_all tcp_option_ok opts \<Longrightarrow> normalize_options (py_options opts) = Inr (sort_key fst opts)"
proof -
  have "list_all tcp_option_ok opts \<Longrightarrow>
      normalize_items (map (\<lambda>(n, v). PyTuple [PyInt (int n), PyBytes v]) opts) = Inr opts"
    by (induction opts) (auto simp: tcp_option_ok_def)
  moreover assume "list_all tcp_option_ok opts"
  ultimately show ?thesis by (simp add: normalize_options_def py_options_def)
qed

definition tcp_body :: "bytes \<Rightarrow> bytes \<Rightarrow> bytes" where
  "tcp_body enc payload = enc @ (if payload \<noteq> [] then 0xFF # payload else [])"

lemma encode_length_total:
  "tkl \<le> 8 \<Longrightarrow> (\<exists>pre. encode_length n tkl = Inr pre) \<or> encode_length n tkl = Inl CoapTcpCodecError"
  by (auto simp: encode_length_def nibble_headers byte_simps to_bytes_def)

text \<open>The builder on valid fields: it writes the frame, unless the frame is too large.\<close>

lemma build_coap_tcp_eq:
  assumes "c \<le> 255" and "length tok \<le> 8" and "list_all tcp_option_ok opts"
    and "2 \<le> mx" and "mx \<le> COAP_TCP_MAX_MESSAGE_SIZE"
    and "encode_from 0 (sort_key fst opts) = Inr enc"
  shows "build_coap_tcp_message (PyInt (int c)) (PyBytes tok) (py_options opts) (PyBytes pl) (PyInt (int mx)) =
    (case encode_length (length (tcp_body enc pl)) (length tok) of
       Inr pre \<Rightarrow>
         if length pre + 1 + length tok + length (tcp_body enc pl) \<le> mx
         then Inr (pre @ [mk_byte c] @ tok @ tcp_body enc pl) else Inl CoapTcpCodecError
     | Inl _ \<Rightarrow> Inl CoapTcpCodecError)"
proof -
  have tcp: "tcp_encode_from 0 (sort_key fst opts) = Inr enc"
    using assms(6) by (simp add: tcp_encode_from_eq)
  have len: "length (tcp_body enc pl) = length enc + (if pl \<noteq> [] then 1 + length pl else 0)"
    by (simp add: tcp_body_def)
  have args: "validate_max_message_size (PyInt (int mx)) = Inr mx"
    "validate_int (PyInt (int c)) 0 255 = Inr c"
    "coerce_bytes (PyBytes tok) (Some COAP_MAX_TOKEN_LENGTH) = Inr tok"
    using assms by (simp_all add: validate_max_message_size_def)
  note total = encode_length_total [OF assms(2), of "length (tcp_body enc pl)"]
  show ?thesis
  proof (cases "length pl \<le> mx")
    case True
    then show ?thesis
      using args tcp normalize_py_options [OF assms(3)] assms(1) total
      unfolding build_coap_tcp_message_def len [symmetric]
      by (cases "encode_length (length (tcp_body enc pl)) (length tok)")
        (auto simp: Let_def len [symmetric] tcp_body_def raise_if_def)
  next
    case False
    then have "pl \<noteq> []" "mx < length (tcp_body enc pl)" by (auto simp: tcp_body_def)
    with False show ?thesis
      using args unfolding build_coap_tcp_message_def by (auto split: sum.splits)
  qed
qed

lemma parse_frame_body:
  assumes "encode_length (length (tcp_body enc pl)) (length tok) = Inr pre"
    and "encode_from 0 opts = Inr enc" and "sorted (map fst opts)"
    and "\<forall>n \<in> fst ` set opts. n \<le> COAP_MAX_OPTION_NUMBER"
    and "c \<le> 255" and "length tok \<le> 8"
    and "length pre + 1 + length tok + length (tcp_body enc pl) \<le> mx"
  shows "parse_frame mx (pre @ [mk_byte c] @ tok @ tcp_body enc pl) =
           Inr \<lparr>t_code = c, t_token = tok, t_options = opts, t_payload = pl\<rparr>"
proof -
  have "parse_options (tcp_body enc pl) 0 0 = Inr (opts, pl)"
    using encode_from_parse [OF assms(2), of pl "if pl \<noteq> [] then 0xFF # pl else []" "[]" 0] assms(3)
    by (simp add: tcp_body_def)
  then have "decode_options (tcp_body enc pl) 0 0 = Inr (opts, pl)"
    using assms(4) by (simp add: decode_options_parse)
  moreover note decode_length_encode [OF assms(1,6), of "[mk_byte c] @ tok @ tcp_body enc pl"]
  ultimately show ?thesis
    using assms(5,7) by (simp add: parse_frame_def Let_def slice_def nth_append)
qed

lemma parse_frame_inv:
  assumes "parse_frame mx wire = Inr m"
  shows "\<exists>enc pre. encode_from 0 (t_options m) = Inr enc
    \<and> encode_length (length (tcp_body enc (t_payload m))) (length (t_token m)) = Inr pre
    \<and> wire = pre @ [mk_byte (t_code m)] @ t_token m @ tcp_body enc (t_payload m)"
    and "length wire \<le> mx" and "t_code m \<le> 255" and "length (t_token m) \<le> 8"
    and "list_all tcp_option_ok (t_options m)" and "sorted (map fst (t_options m))"
proof -
  from assms obtain n tkl p where dl: "decode_length wire = Inr (n, tkl, p)"
    and len: "length wire = p + 1 + tkl + n" "length wire \<le> mx"
    and opts: "decode_options (drop (p + 1 + tkl) wire) 0 0 = Inr (t_options m, t_payload m)"
    and code: "t_code m = unat (wire ! p)"
    and tok: "t_token m = slice wire (p + 1) (p + 1 + tkl)"
    by (auto simp: parse_frame_def result_simps Let_def)
  note e = encode_length_decode [OF dl]
  from opts have po: "parse_options (drop (p + 1 + tkl) wire) 0 0 = Inr (t_options m, t_payload m)"
    and nums: "\<forall>n \<in> fst ` set (t_options m). n \<le> COAP_MAX_OPTION_NUMBER"
    by (simp_all add: decode_options_parse)
  from parse_options_encode [OF po] obtain enc where sorted: "sorted (map fst (t_options m))"
    and enc: "encode_from 0 (t_options m) = Inr enc"
      "drop (p + 1 + tkl) wire = tcp_body enc (t_payload m)"
    by (auto simp: tcp_body_def)
  have tl: "length (t_token m) = tkl" using tok len by simp
  have bl: "length (tcp_body enc (t_payload m)) = n"
    using len by (simp add: enc(2) [symmetric])
  have "take p wire @ [wire ! p] @ slice wire (p + 1) (p + 1 + tkl) @ drop (p + 1 + tkl) wire = wire"
    using len drop_slice [of "p + 1" "p + 1 + tkl" wire] by (simp add: id_take_nth_drop [symmetric])
  then have w: "wire = take p wire @ [mk_byte (t_code m)] @ t_token m @ tcp_body enc (t_payload m)"
    using code tok enc(2) by simp
  show "\<exists>enc pre. encode_from 0 (t_options m) = Inr enc
    \<and> encode_length (length (tcp_body enc (t_payload m))) (length (t_token m)) = Inr pre
    \<and> wire = pre @ [mk_byte (t_code m)] @ t_token m @ tcp_body enc (t_payload m)"
    using enc(1) e(1) tl bl w by blast
  show "length wire \<le> mx" "t_code m \<le> 255" "length (t_token m) \<le> 8" "sorted (map fst (t_options m))"
    using len code tl e(2) sorted unat_byte_lt [of "wire ! p"] by simp_all
  have "length v \<le> COAP_MAX_OPTION_VALUE_LENGTH"
    if "encode_from q os = Inr b" "(k, v) \<in> set os" for q os b k v
    using that
  proof (induction os arbitrary: q b)
    case Nil
    then show ?case by simp
  next
    case (Cons o' os)
    then show ?case
      by (cases o') (auto simp: result_simps encode_extended_vlen [symmetric] encode_extended_def
          split: if_splits)
  qed
  with enc(1) nums show "list_all tcp_option_ok (t_options m)"
    by (force simp: list_all_iff tcp_option_ok_def)
qed


lemma parse_frame_error: "parse_frame mx wire = Inl e \<Longrightarrow> e = CoapTcpCodecError"
  by (auto simp: parse_frame_def decode_length_def result_simps Let_def item_def
      dest!: decode_options_error split: if_splits)

lemma parse_frame_build:
  assumes "parse_frame mx wire = Inr m" and "2 \<le> mx" and "mx \<le> COAP_TCP_MAX_MESSAGE_SIZE"
    and "sort_key fst opts = t_options m" and "list_all tcp_option_ok opts"
  shows "build_coap_tcp_message (PyInt (int (t_code m))) (PyBytes (t_token m)) (py_options opts)
           (PyBytes (t_payload m)) (PyInt (int mx)) = Inr wire"
proof -
  note inv = parse_frame_inv [OF assms(1)]
  from inv(1) obtain enc pre where enc: "encode_from 0 (t_options m) = Inr enc"
    and pre: "encode_length (length (tcp_body enc (t_payload m))) (length (t_token m)) = Inr pre"
    and wire: "wire = pre @ [mk_byte (t_code m)] @ t_token m @ tcp_body enc (t_payload m)" by blast
  have "encode_from 0 (sort_key fst opts) = Inr enc" using enc assms(4) by simp
  from build_coap_tcp_eq [OF inv(3,4) assms(5,2,3) this, of "t_payload m"] pre wire inv(2)
  show ?thesis by simp
qed

section \<open>The stream decoder\<close>

text \<open>
  The class keeps the validated maximum and the bytes of at most one incomplete frame. The
  loop of \<open>feed\<close> appends to the buffer while a frame is incomplete and otherwise reads frames
  straight from the chunk. On an exception the buffer is emptied and the messages already
  decoded from the same chunk are lost with it.
\<close>

record tcp_stream =
  s_max :: nat
  s_buffer :: bytes

definition tcp_stream_new :: "pyval \<Rightarrow> tcp_stream result" where
  "tcp_stream_new max_message_size =
     andThen (validate_max_message_size max_message_size) (\<lambda>m. Inr \<lparr>s_max = m, s_buffer = []\<rparr>)"

definition buffered_bytes :: "tcp_stream \<Rightarrow> nat" where
  "buffered_bytes st = length (s_buffer st)"

definition stream_reset :: "tcp_stream \<Rightarrow> tcp_stream" where
  "stream_reset st = st\<lparr>s_buffer := []\<rparr>"

lemma frame_size_bounds:
  "frame_size_from_prefix mx p = Inr (Some n) \<Longrightarrow> p \<noteq> [] \<and> 2 \<le> n \<and> n \<le> mx"
  by (auto simp: frame_size_from_prefix_def result_simps Let_def extension_size_def split: if_splits)

function feed_loop ::
  "nat \<Rightarrow> bytes \<Rightarrow> bytes \<Rightarrow> nat \<Rightarrow> tcp_message list \<Rightarrow> (tcp_message list \<times> bytes) result" where
  "feed_loop mx buf chunk off acc =
     (if off < length chunk then
        if buf \<noteq> [] then
          andThen (frame_size_from_prefix mx buf) (\<lambda>size.
            case size of
              None \<Rightarrow>
                andThen (item chunk off) (\<lambda>b. feed_loop mx (buf @ [b]) chunk (off + 1) acc)
            | Some n \<Rightarrow>
                let taken = min (n - length buf) (length chunk - off);
                    buf' = buf @ slice chunk off (off + taken)
                in if length buf' < n then Inr (acc, buf')
                   else andThen (parse_frame mx buf') (\<lambda>m.
                          feed_loop mx [] chunk (off + taken) (acc @ [m])))
        else
          let remaining = drop off chunk
          in andThen (frame_size_from_prefix mx remaining) (\<lambda>size.
               case size of
                 None \<Rightarrow> Inr (acc, remaining)
               | Some n \<Rightarrow>
                   if length remaining < n then Inr (acc, remaining)
                   else andThen (parse_frame mx (take n remaining)) (\<lambda>m.
                          feed_loop mx [] chunk (off + n) (acc @ [m])))
      else Inr (acc, buf))"
  by pat_completeness auto
termination
  by (relation "measures [\<lambda>(mx, buf, chunk, off, acc). length chunk - off,
        \<lambda>(mx, buf, chunk, off, acc). length buf]")
    (auto simp: result_simps dest!: frame_size_bounds split: if_splits)

declare feed_loop.simps [simp del]

text \<open>\<open>feed\<close>: the messages (or the exception) and the decoder afterwards.\<close>

definition tcp_feed :: "tcp_stream \<Rightarrow> pyval \<Rightarrow> tcp_message list result \<times> tcp_stream" where
  "tcp_feed st data =
     (case coerce_bytes data None of
        Inl e \<Rightarrow> (Inl e, st)
      | Inr chunk \<Rightarrow>
          (case feed_loop (s_max st) (s_buffer st) chunk 0 [] of
             Inl e \<Rightarrow>
               (Inl e, if isinstance_of e CoapTcpCodecError \<or> isinstance_of e Py_TypeError
                       then stream_reset st else st)
           | Inr (ms, buf) \<Rightarrow> (Inr ms, st\<lparr>s_buffer := buf\<rparr>)))"

definition tcp_finish :: "tcp_stream \<Rightarrow> unit result \<times> tcp_stream" where
  "tcp_finish st =
     (if s_buffer st \<noteq> [] then (Inl CoapTcpCodecError, stream_reset st) else (Inr (), st))"


section \<open>The reference decoder of a byte stream\<close>

text \<open>
  What a stream of frames means, whatever the chunks it arrives in: frames from the front as
  long as they are complete, and an incomplete rest. The code's decoder is compared with it.
\<close>

function decode_stream ::
  "(bytes \<Rightarrow> nat option result) \<Rightarrow> (bytes \<Rightarrow> 'm result) \<Rightarrow> bytes \<Rightarrow> ('m list \<times> bytes) result" where
  "decode_stream size_of parse xs =
     andThen (size_of xs) (\<lambda>s.
       case s of
         None \<Rightarrow> Inr ([], xs)
       | Some n \<Rightarrow>
           if n = 0 \<or> length xs < n then Inr ([], xs)
           else andThen (parse (take n xs)) (\<lambda>m.
                andThen (decode_stream size_of parse (drop n xs)) (\<lambda>(ms, rest).
                  Inr (m # ms, rest))))"
  by pat_completeness auto
termination
  by (relation "measure (\<lambda>(_, _, xs). length xs)") auto

declare decode_stream.simps [simp del]

definition prepend :: "'m list \<Rightarrow> ('m list \<times> bytes) result \<Rightarrow> ('m list \<times> bytes) result" where
  "prepend ms r = andThen r (\<lambda>(ms', rest). Inr (ms @ ms', rest))"

lemma prepend_simps [simp]:
  "prepend ms (Inl e) = Inl e" "prepend ms (Inr (ms', rest)) = Inr (ms @ ms', rest)"
  "prepend [] r = r" "prepend ms (prepend ms' r) = prepend (ms @ ms') r"
  by (cases r; auto simp: prepend_def)+

text \<open>What a framing promises about the size it reads from a prefix of the stream.\<close>

locale framing =
  fixes size_of :: "bytes \<Rightarrow> nat option result" and parse :: "bytes \<Rightarrow> 'm result"
  assumes size_Nil: "size_of [] = Inr None"
    and size_pos: "size_of p = Inr (Some n) \<Longrightarrow> 0 < n"
    and size_stable: "size_of p = Inr (Some n) \<Longrightarrow> size_of (p @ q) = Inr (Some n)"
    and size_error: "size_of p = Inl e \<Longrightarrow> size_of (p @ q) = Inl e"
    and size_needs: "size_of p = Inr None \<Longrightarrow> size_of (p @ [b]) = Inr (Some n) \<Longrightarrow> length p + 1 < n"
    and size_parse: "parse f = Inr m \<Longrightarrow> size_of f = Inr (Some (length f))"
begin

definition pending :: "bytes \<Rightarrow> bool" where
  "pending buf \<longleftrightarrow> (\<forall>n. size_of buf = Inr (Some n) \<longrightarrow> length buf < n)"

lemma pending_Nil [simp]: "pending []"
  by (simp add: pending_def size_Nil)

lemma pending_snoc: "size_of buf = Inr None \<Longrightarrow> pending (buf @ [b])"
  using size_needs by (force simp: pending_def)

lemma decode_Nil [simp]: "decode_stream size_of parse [] = Inr ([], [])"
  by (subst decode_stream.simps) (simp add: size_Nil)

lemma decode_frame:
  "size_of xs = Inr (Some n) \<Longrightarrow> n \<le> length xs \<Longrightarrow>
     decode_stream size_of parse xs =
       andThen (parse (take n xs)) (\<lambda>m. prepend [m] (decode_stream size_of parse (drop n xs)))"
  using size_pos [of xs n] by (subst decode_stream.simps) (auto simp: prepend_def)

lemma decode_pending:
  "pending buf \<Longrightarrow> decode_stream size_of parse buf = Inr ([], buf)
     \<or> (\<exists>e. size_of buf = Inl e \<and> decode_stream size_of parse buf = Inl e)"
  by (subst (1 2) decode_stream.simps, cases "size_of buf") (auto simp: pending_def split: option.splits)

lemma pending_or_frame: "pending xs \<or> (\<exists>n. size_of xs = Inr (Some n) \<and> 0 < n \<and> n \<le> length xs)"
  using size_pos [of xs] by (force simp: pending_def not_less)

lemma decode_sound:
  "decode_stream size_of parse xs = Inr (ms, rest) \<Longrightarrow>
     pending rest \<and> (\<forall>e. size_of rest \<noteq> Inl e)
     \<and> (\<exists>frames. xs = concat frames @ rest \<and> list_all2 (\<lambda>f m. parse f = Inr m) frames ms)"
proof (induction "length xs" arbitrary: xs ms rule: less_induct)
  case less
  show ?case
  proof (cases "pending xs")
    case True
    then have "rest = xs" "ms = []" "\<forall>e. size_of xs \<noteq> Inl e"
      using less.prems by (subst (asm) decode_stream.simps,
          auto simp: pending_def result_simps split: option.splits)+
    with True show ?thesis by auto
  next
    case False
    then obtain n where n: "size_of xs = Inr (Some n)" "0 < n" "n \<le> length xs"
      using pending_or_frame by blast
    with less.prems obtain m ms' where m: "parse (take n xs) = Inr m" "ms = m # ms'"
      and rec: "decode_stream size_of parse (drop n xs) = Inr (ms', rest)"
      by (auto simp: decode_frame result_simps prepend_def)
    have "length (drop n xs) < length xs" using n by simp
    from less.hyps [OF this rec] obtain frames where
        ih: "pending rest" "\<forall>e. size_of rest \<noteq> Inl e" "drop n xs = concat frames @ rest"
          "list_all2 (\<lambda>f m. parse f = Inr m) frames ms'" by auto
    have "xs = concat (take n xs # frames) @ rest"
      using ih(3) append_take_drop_id [of n xs] by simp
    moreover have "list_all2 (\<lambda>f m. parse f = Inr m) (take n xs # frames) ms" using m ih(4) by simp
    ultimately show ?thesis using ih by blast
  qed
qed

lemma decode_frames:
  "list_all2 (\<lambda>f m. parse f = Inr m) frames ms \<Longrightarrow>
     decode_stream size_of parse (concat frames @ rest) = prepend ms (decode_stream size_of parse rest)"
proof (induction rule: list_all2_induct)
  case Nil
  then show ?case by simp
next
  case (Cons f fs m ms)
  then have "size_of (f @ concat fs @ rest) = Inr (Some (length f))"
    using size_parse size_stable by blast
  with Cons show ?case by (simp add: decode_frame)
qed

lemma decode_append:
  "decode_stream size_of parse (xs @ ys) =
     andThen (decode_stream size_of parse xs)
       (\<lambda>(ms, r). prepend ms (decode_stream size_of parse (r @ ys)))"
proof (induction "length xs" arbitrary: xs rule: less_induct)
  case less
  show ?case
  proof (cases "pending xs")
    case True
    from decode_pending [OF this] show ?thesis
    proof (elim disjE exE conjE)
      fix e
      assume e: "size_of xs = Inl e" "decode_stream size_of parse xs = Inl e"
      then have "decode_stream size_of parse (xs @ ys) = Inl e"
        using size_error by (subst decode_stream.simps) simp
      with e show ?thesis by simp
    qed simp
  next
    case False
    then obtain n where n: "size_of xs = Inr (Some n)" "0 < n" "n \<le> length xs"
      using pending_or_frame by blast
    moreover have "size_of (xs @ ys) = Inr (Some n)" using n size_stable by blast
    moreover note less.hyps [of "drop n xs"]
    ultimately show ?thesis
      by (cases "parse (take n xs)"; cases "decode_stream size_of parse (drop n xs)")
        (auto simp: decode_frame)
  qed
qed

lemma decode_error:
  assumes "\<And>p e. size_of p = Inl e \<Longrightarrow> P e" and "\<And>f e. parse f = Inl e \<Longrightarrow> P e"
  shows "decode_stream size_of parse xs = Inl e \<Longrightarrow> P e"
proof (induction "length xs" arbitrary: xs rule: less_induct)
  case less
  show ?case
  proof (cases "pending xs")
    case True
    with decode_pending [OF this] less.prems assms(1) show ?thesis by auto
  next
    case False
    then obtain n where n: "size_of xs = Inr (Some n)" "0 < n" "n \<le> length xs"
      using pending_or_frame by blast
    then have "length (drop n xs) < length xs" by simp
    note ih = less.hyps [OF this]
    show ?thesis
      using less.prems ih assms(2) [of "take n xs"]
      by (auto simp: decode_frame [OF n(1,3)] prepend_def result_simps)
  qed
qed

text \<open>Frames taken off the front of a stream, and what is left of it.\<close>

definition delivers :: "bytes \<Rightarrow> 'm list \<Rightarrow> bytes \<Rightarrow> bool" where
  "delivers xs ms rest \<longleftrightarrow>
     (\<exists>frames. xs = concat frames @ rest \<and> list_all2 (\<lambda>f m. parse f = Inr m) frames ms)"

lemma delivers_refl [intro]: "delivers xs [] xs"
  by (auto simp: delivers_def)

lemma delivers_frame:
  assumes "parse (take n xs) = Inr m" and "delivers (drop n xs) ms rest"
  shows "delivers xs (m # ms) rest"
proof -
  from assms(2) obtain frames where "drop n xs = concat frames @ rest"
    "list_all2 (\<lambda>f m. parse f = Inr m) frames ms" by (auto simp: delivers_def)
  with assms(1) append_take_drop_id [of n xs]
  have "xs = concat (take n xs # frames) @ rest"
    "list_all2 (\<lambda>f m. parse f = Inr m) (take n xs # frames) (m # ms)" by simp_all
  then show ?thesis unfolding delivers_def by blast
qed

lemma delivers_trans:
  assumes "delivers xs ms r" and "delivers (r @ ys) ms' r'"
  shows "delivers (xs @ ys) (ms @ ms') r'"
proof -
  from assms obtain fs fs' where "xs = concat fs @ r" "list_all2 (\<lambda>f m. parse f = Inr m) fs ms"
    "r @ ys = concat fs' @ r'" "list_all2 (\<lambda>f m. parse f = Inr m) fs' ms'"
    by (auto simp: delivers_def)
  then have "xs @ ys = concat (fs @ fs') @ r'" "list_all2 (\<lambda>f m. parse f = Inr m) (fs @ fs') (ms @ ms')"
    by (simp_all add: list_all2_appendI)
  then show ?thesis unfolding delivers_def by blast
qed

lemma delivers_decode:
  "delivers xs ms r \<Longrightarrow> decode_stream size_of parse xs = prepend ms (decode_stream size_of parse r)"
  using decode_frames by (auto simp: delivers_def)

end

section \<open>The code's framing\<close>

lemma parse_frame_size:
  assumes "parse_frame mx f = Inr m"
  shows "frame_size_from_prefix mx f = Inr (Some (length f))"
proof -
  from assms obtain n tkl k where dl: "decode_length f = Inr (n, tkl, k)"
    and len: "length f = k + 1 + tkl + n" "length f \<le> mx"
    by (auto simp: parse_frame_def result_simps Let_def)
  note e = encode_length_decode [OF dl]
  have "decode_length (take k f) = Inr (n, tkl, k)"
    using decode_length_encode [OF e(1,2), of "[]"] e(4) by simp
  moreover have "f \<noteq> []" "tkl = unat (f ! 0) AND 15" "k = 1 + extension_size (drop_bit 4 (unat (f ! 0)))"
    using dl len by (auto simp: decode_length_def result_simps Let_def extension_size_def split: if_splits)
  ultimately show ?thesis using len e(2,4) by (simp add: frame_size_from_prefix_def)
qed

interpretation tcp: framing "frame_size_from_prefix mx" "parse_frame mx" for mx
proof
  show "frame_size_from_prefix mx [] = Inr None" by (simp add: frame_size_from_prefix_def)
next
  fix p :: bytes and n :: nat
  show "frame_size_from_prefix mx p = Inr (Some n) \<Longrightarrow> 0 < n" by (auto dest: frame_size_bounds)
next
  fix p q :: bytes and n :: nat
  assume "frame_size_from_prefix mx p = Inr (Some n)"
  then show "frame_size_from_prefix mx (p @ q) = Inr (Some n)"
    by (cases p) (auto simp: frame_size_from_prefix_def result_simps Let_def split: if_splits)
next
  fix p q :: bytes and e :: exc
  assume "frame_size_from_prefix mx p = Inl e"
  then show "frame_size_from_prefix mx (p @ q) = Inl e"
    by (cases p) (auto simp: frame_size_from_prefix_def result_simps Let_def split: if_splits)
next
  fix p :: bytes and b :: byte and n :: nat
  assume "frame_size_from_prefix mx p = Inr None" and "frame_size_from_prefix mx (p @ [b]) = Inr (Some n)"
  then show "length p + 1 < n"
    by (cases p) (auto simp: frame_size_from_prefix_def result_simps Let_def extension_size_def
        split: if_splits)
next
  fix f :: bytes and m :: tcp_message
  show "parse_frame mx f = Inr m \<Longrightarrow> frame_size_from_prefix mx f = Inr (Some (length f))"
    by (rule parse_frame_size)
qed


section \<open>The incremental decoder against the reference\<close>

abbreviation (input) tcp_decode :: "nat \<Rightarrow> bytes \<Rightarrow> (tcp_message list \<times> bytes) result" where
  "tcp_decode mx \<equiv> decode_stream (frame_size_from_prefix mx) (parse_frame mx)"

lemma feed_loop_decode:
  assumes "tcp.pending mx buf"
  shows "case feed_loop mx buf chunk off acc of
           Inl e \<Rightarrow> tcp_decode mx (buf @ drop off chunk) = Inl e
         | Inr (ms', buf') \<Rightarrow> tcp.pending mx buf'
             \<and> (\<exists>ms. ms' = acc @ ms \<and> tcp.delivers mx (buf @ drop off chunk) ms buf')"
  using assms
proof (induction mx buf chunk off acc rule: feed_loop.induct)
  case (1 mx buf chunk off acc)
  let ?data = "buf @ drop off chunk"
  consider "\<not> off < length chunk" | "off < length chunk" "buf \<noteq> []" | "off < length chunk" "buf = []" by blast
  then show ?case
  proof cases
    case 1
    with "1.prems" show ?thesis by (subst feed_loop.simps) auto
  next
    case 2
    show ?thesis
    proof (cases "frame_size_from_prefix mx buf")
      case (Inl e)
      then have "frame_size_from_prefix mx ?data = Inl e" by (rule tcp.size_error)
      then have "tcp_decode mx ?data = Inl e" by (subst decode_stream.simps) simp
      with 2 Inl show ?thesis by (subst feed_loop.simps) simp
    next
      case (Inr s)
      show ?thesis
      proof (cases s)
        case None
        have "tcp.pending mx (buf @ [chunk ! off])" using Inr None by (simp add: tcp.pending_snoc)
        note ih = "1.IH"(1) [OF 2(1,2) Inr None item_ok [OF 2(1)] this]
        have data: "(buf @ [chunk ! off]) @ drop (off + 1) chunk = ?data"
          using 2 by (simp add: Cons_nth_drop_Suc)
        show ?thesis
          using ih [unfolded data] 2 Inr None by (subst feed_loop.simps) simp
      next
        case (Some n)
        define t where "t = min (n - length buf) (length chunk - off)"
        define buf' where "buf' = buf @ slice chunk off (off + t)"
        have fold: "feed_loop mx buf chunk off acc =
            (if length buf' < n then Inr (acc, buf')
             else andThen (parse_frame mx buf') (\<lambda>m. feed_loop mx [] chunk (off + t) (acc @ [m])))"
          using 2 Inr Some by (subst feed_loop.simps) (simp add: Let_def del: length_append flip: t_def buf'_def)
        have data: "buf' @ drop (off + t) chunk = ?data"
          using drop_slice [of off "off + t" chunk] by (simp add: buf'_def)
        have size: "frame_size_from_prefix mx ?data = Inr (Some n)" "frame_size_from_prefix mx buf' = Inr (Some n)"
          using Inr Some tcp.size_stable unfolding buf'_def by blast+
        have buf: "length buf < n" using "1.prems" Inr Some by (simp add: tcp.pending_def)
        show ?thesis
        proof (cases "length buf' < n")
          case True
          then have "drop (off + t) chunk = []" using buf by (auto simp: buf'_def t_def)
          with data have "?data = buf'" by simp
          moreover have "tcp.pending mx buf'" using True size(2) by (simp add: tcp.pending_def)
          ultimately show ?thesis using True by (auto simp: fold)
        next
          case False
          have len: "length buf' = n" using False buf by (auto simp: buf'_def t_def)
          have tk: "take n ?data = buf'" "drop n ?data = drop (off + t) chunk" "n \<le> length ?data"
            using len unfolding data [symmetric] by simp_all
          note dec = tcp.decode_frame [OF size(1) tk(3), unfolded tk(1,2)]
          show ?thesis
          proof (cases "parse_frame mx buf'")
            case (Inl e)
            with dec False show ?thesis by (simp add: fold)
          next
            case pm: (Inr m)
            have "feed_loop mx buf chunk off acc = feed_loop mx [] chunk (off + t) (acc @ [m])"
              using False pm by (simp add: fold)
            moreover note "1.IH"(2) [OF 2(1,2) Inr Some t_def buf'_def False pm]
            moreover have "tcp.delivers mx ?data (m # ms) r" if "tcp.delivers mx (drop (off + t) chunk) ms r" for ms r
              using that pm tk by (intro tcp.delivers_frame [where n = n]) simp_all
            ultimately show ?thesis using dec pm by (auto split: sum.splits)
          qed
        qed
      qed
    qed
  next
    case 3
    let ?r = "drop off chunk"
    have fold: "feed_loop mx buf chunk off acc =
        andThen (frame_size_from_prefix mx ?r) (\<lambda>size. case size of
          None \<Rightarrow> Inr (acc, ?r)
        | Some n \<Rightarrow> if length ?r < n then Inr (acc, ?r)
            else andThen (parse_frame mx (take n ?r)) (\<lambda>m. feed_loop mx [] chunk (off + n) (acc @ [m])))"
      using 3 by (subst feed_loop.simps) (simp add: Let_def)
    from tcp.pending_or_frame [of mx ?r] show ?thesis
    proof (elim disjE exE conjE)
      assume p: "tcp.pending mx ?r"
      from tcp.decode_pending [OF this] show ?thesis
      proof (elim disjE exE conjE)
        fix e
        assume "frame_size_from_prefix mx ?r = Inl e" "tcp_decode mx ?r = Inl e"
        with 3 fold show ?thesis by simp
      next
        assume d: "tcp_decode mx ?r = Inr ([], ?r)"
        then have "\<forall>e. frame_size_from_prefix mx ?r \<noteq> Inl e"
          using tcp.decode_sound by blast
        then show ?thesis using 3 fold p d
          by (cases "frame_size_from_prefix mx ?r")
            (auto simp: tcp.pending_def split: option.splits)
      qed
    next
      fix n
      assume n: "frame_size_from_prefix mx ?r = Inr (Some n)" "0 < n" "n \<le> length ?r"
      then have n': "\<not> length ?r < n" by simp
      note dec = tcp.decode_frame [OF n(1,3)]
      show ?thesis
      proof (cases "parse_frame mx (take n ?r)")
        case (Inl e)
        with dec 3 fold n show ?thesis by simp
      next
        case (Inr m)
        have "tcp.delivers mx ?r (m # ms) r" if "tcp.delivers mx (drop (off + n) chunk) ms r" for ms r
          using that Inr by (intro tcp.delivers_frame [where n = n]) (simp_all add: add.commute)
        with "1.IH"(3) [OF 3(1) _ refl n(1) refl n' Inr] 3 dec Inr fold n
        show ?thesis by (auto simp: add.commute split: sum.splits)
      qed
    qed
  qed
qed


text \<open>A client feeding chunk after chunk, up to the first exception.\<close>

fun tcp_feed_all :: "tcp_stream \<Rightarrow> pyval list \<Rightarrow> tcp_message list result \<times> tcp_stream" where
  "tcp_feed_all st [] = (Inr [], st)"
| "tcp_feed_all st (c # cs) =
     (case tcp_feed st c of
        (Inl e, st') \<Rightarrow> (Inl e, st')
      | (Inr ms, st') \<Rightarrow>
          (case tcp_feed_all st' cs of
             (Inl e, st'') \<Rightarrow> (Inl e, st'')
           | (Inr ms', st'') \<Rightarrow> (Inr (ms @ ms'), st'')))"

lemma frame_size_error: "frame_size_from_prefix mx p = Inl e \<Longrightarrow> e = CoapTcpCodecError"
  by (cases p) (auto simp: frame_size_from_prefix_def decode_length_def result_simps Let_def
      split: if_splits)

lemma tcp_decode_error: "tcp_decode mx xs = Inl e \<Longrightarrow> e = CoapTcpCodecError"
  by (rule tcp.decode_error [where P = "\<lambda>e. e = CoapTcpCodecError"])
    (auto dest: frame_size_error parse_frame_error)

lemma tcp_feed_decode:
  assumes "tcp.pending (s_max st) (s_buffer st)"
  shows "case tcp_feed st (PyBytes chunk) of
      (Inl e, st') \<Rightarrow> tcp_decode (s_max st) (s_buffer st @ chunk) = Inl e \<and> st' = stream_reset st
    | (Inr ms, st') \<Rightarrow> tcp.pending (s_max st) (s_buffer st') \<and> s_max st' = s_max st
        \<and> tcp.delivers (s_max st) (s_buffer st @ chunk) ms (s_buffer st')"
proof -
  have "isinstance_of CoapTcpCodecError CoapTcpCodecError" by code_simp
  then show ?thesis
    using feed_loop_decode [OF assms, where chunk = chunk and off = 0 and acc = "[]"] tcp_decode_error [of "s_max st" "s_buffer st @ chunk"]
    by (auto simp: tcp_feed_def split: sum.splits)
qed

lemma tcp_feed_all_decode:
  assumes "tcp.pending (s_max st) (s_buffer st)"
  shows "case tcp_feed_all st (map PyBytes chunks) of
      (Inl e, st') \<Rightarrow> tcp_decode (s_max st) (s_buffer st @ concat chunks) = Inl e \<and> s_buffer st' = []
    | (Inr ms, st') \<Rightarrow> tcp.pending (s_max st) (s_buffer st') \<and> s_max st' = s_max st
        \<and> tcp.delivers (s_max st) (s_buffer st @ concat chunks) ms (s_buffer st')"
  using assms
proof (induction chunks arbitrary: st)
  case Nil
  then show ?case by (simp add: tcp.delivers_refl)
next
  case (Cons c cs)
  note fd = tcp_feed_decode [OF Cons.prems, of c]
  obtain r st' where r: "tcp_feed st (PyBytes c) = (r, st')" by fastforce
  show ?case
  proof (cases r)
    case (Inl e)
    with fd r have "tcp_decode (s_max st) (s_buffer st @ c) = Inl e" "st' = stream_reset st" by simp_all
    moreover from this(1) have "tcp_decode (s_max st) ((s_buffer st @ c) @ concat cs) = Inl e"
      by (subst tcp.decode_append) simp
    ultimately show ?thesis using Inl r by (simp add: stream_reset_def)
  next
    case (Inr ms)
    with fd r have st': "tcp.pending (s_max st) (s_buffer st')" "s_max st' = s_max st"
      "tcp.delivers (s_max st) (s_buffer st @ c) ms (s_buffer st')"
      by simp_all
    note dec = tcp.delivers_decode [OF tcp.delivers_trans [OF st'(3) tcp.delivers_refl, of "concat cs"]]
    obtain r2 st2 where r2: "tcp_feed_all st' (map PyBytes cs) = (r2, st2)" by fastforce
    have ih: "case (r2, st2) of
        (Inl e, st') \<Rightarrow> tcp_decode (s_max st) (s_buffer st @ c @ concat cs) = Inl e \<and> s_buffer st' = []
      | (Inr ms', st') \<Rightarrow> tcp.pending (s_max st) (s_buffer st') \<and> s_max st' = s_max st
          \<and> tcp.delivers (s_max st) (s_buffer st @ c @ concat cs) (ms @ ms') (s_buffer st')"
      using Cons.IH [of st'] st'(1) dec tcp.delivers_trans [OF st'(3), of "concat cs"]
      unfolding r2 st'(2) by (cases r2) simp_all
    have "tcp_feed_all st (map PyBytes (c # cs)) =
        (case r2 of Inl e \<Rightarrow> (Inl e, st2) | Inr ms' \<Rightarrow> (Inr (ms @ ms'), st2))"
      using r r2 Inr by simp
    with ih show ?thesis by (cases r2) simp_all
  qed
qed

lemma frame_size_None: "frame_size_from_prefix mx p = Inr None \<Longrightarrow> length p \<le> 4"
  by (auto simp: frame_size_from_prefix_def result_simps Let_def extension_size_def
      split: if_splits)

lemma pending_bound: "tcp.pending mx buf \<Longrightarrow> frame_size_from_prefix mx buf = Inr s
    \<Longrightarrow> length buf \<le> max 4 mx"
  by (cases s) (auto simp: tcp.pending_def dest!: frame_size_bounds frame_size_None)


lemma feed_loop_bound:
  "feed_loop mx buf chunk off acc = Inr (ms, buf') \<Longrightarrow> length buf \<le> max 5 mx
     \<Longrightarrow> length buf' \<le> max 5 mx"
proof (induction mx buf chunk off acc rule: feed_loop.induct)
  case (1 mx buf chunk off acc)
  consider "\<not> off < length chunk" | "off < length chunk" "buf \<noteq> []" | "off < length chunk" "buf = []" by blast
  then show ?case
  proof cases
    case 1
    with "1.prems" show ?thesis by (simp add: feed_loop.simps [of mx buf])
  next
    case 2
    then obtain s where s: "frame_size_from_prefix mx buf = Inr s"
      using "1.prems"(1) by (auto simp: feed_loop.simps [of mx buf] result_simps)
    show ?thesis
    proof (cases s)
      case None
      then have "length (buf @ [chunk ! off]) \<le> max 5 mx" using s frame_size_None [of mx buf] by simp
      moreover have "feed_loop mx (buf @ [chunk ! off]) chunk (off + 1) acc = Inr (ms, buf')"
        using "1.prems"(1) 2 s None by (simp add: feed_loop.simps [of mx buf])
      ultimately show ?thesis using "1.IH"(1) [OF 2(1,2) s None item_ok [OF 2(1)]] by simp
    next
      case (Some n)
      define t where "t = min (n - length buf) (length chunk - off)"
      define buf2 where "buf2 = buf @ slice chunk off (off + t)"
      have fold: "feed_loop mx buf chunk off acc =
          (if length buf2 < n then Inr (acc, buf2)
           else andThen (parse_frame mx buf2) (\<lambda>m. feed_loop mx [] chunk (off + t) (acc @ [m])))"
        using 2 s Some by (subst feed_loop.simps)
          (simp add: Let_def del: length_append flip: t_def buf2_def)
      show ?thesis
        using "1.prems"(1) fold "1.IH"(2) [OF 2(1,2) s Some t_def buf2_def] frame_size_bounds [of mx buf n] s Some
        by (auto simp: result_simps split: if_splits)
    qed
  next
    case 3
    have fold: "feed_loop mx buf chunk off acc =
        andThen (frame_size_from_prefix mx (drop off chunk)) (\<lambda>size. case size of
          None \<Rightarrow> Inr (acc, drop off chunk)
        | Some n \<Rightarrow> if length (drop off chunk) < n then Inr (acc, drop off chunk)
            else andThen (parse_frame mx (take n (drop off chunk)))
              (\<lambda>m. feed_loop mx [] chunk (off + n) (acc @ [m])))"
      using 3 by (subst feed_loop.simps) (simp add: Let_def)
    obtain s where s: "frame_size_from_prefix mx (drop off chunk) = Inr s"
      using "1.prems"(1) fold by (cases "frame_size_from_prefix mx (drop off chunk)") auto
    show ?thesis
    proof (cases s)
      case None
      then show ?thesis using "1.prems"(1) fold s frame_size_None [of mx "drop off chunk"] by auto
    next
      case (Some n)
      then show ?thesis
        using "1.prems"(1) [unfolded fold] "1.IH"(3) [OF 3(1) _ refl s Some] 3 s
          frame_size_bounds [of mx "drop off chunk" n]
        by (auto simp: result_simps split: if_splits)
    qed
  qed
qed

lemma tcp_feed_all_bound:
  "length (s_buffer st) \<le> max 5 (s_max st) \<Longrightarrow> tcp_feed_all st cs = (r, st')
     \<Longrightarrow> s_max st' = s_max st \<and> length (s_buffer st') \<le> max 5 (s_max st)"
proof (induction cs arbitrary: st r st')
  case Nil
  then show ?case by simp
next
  case (Cons c cs)
  obtain r1 st1 where r1: "tcp_feed st c = (r1, st1)" by fastforce
  then have st1: "s_max st1 = s_max st" "length (s_buffer st1) \<le> max 5 (s_max st)"
    using Cons.prems(1) feed_loop_bound [of "s_max st" "s_buffer st"]
    by (auto simp: tcp_feed_def stream_reset_def split: sum.splits if_splits)
  obtain r2 st2 where r2: "tcp_feed_all st1 cs = (r2, st2)" by fastforce
  have "s_max st2 = s_max st" "length (s_buffer st2) \<le> max 5 (s_max st)"
    using Cons.IH [OF _ r2] st1 by auto
  with st1 r1 r2 Cons.prems(2) show ?case by (auto split: sum.splits)
qed

lemma parse_coap_tcp_iff:
  assumes "2 \<le> mx" and "mx \<le> COAP_TCP_MAX_MESSAGE_SIZE"
  shows "parse_coap_tcp_message (PyBytes d) (PyInt (int mx)) = Inr m \<longleftrightarrow> parse_frame mx d = Inr m"
  using assms parse_frame_inv(2) [of mx d m]
  by (auto simp: parse_coap_tcp_message_def validate_max_message_size_def)

lemma tcp_stream_new_ok:
  "tcp_stream_new v = Inr st \<Longrightarrow>
     \<exists>mx. v = PyInt (int mx) \<and> 2 \<le> mx \<and> mx \<le> COAP_TCP_MAX_MESSAGE_SIZE \<and> st = \<lparr>s_max = mx, s_buffer = []\<rparr>"
proof -
  assume a: "tcp_stream_new v = Inr st"
  then obtain i where i: "v = PyInt i" "2 \<le> i" "i \<le> int COAP_TCP_MAX_MESSAGE_SIZE"
    "st = \<lparr>s_max = nat i, s_buffer = []\<rparr>"
    by (cases v) (auto simp: tcp_stream_new_def validate_max_message_size_def result_simps split: if_splits)
  then show ?thesis by (intro exI [of _ "nat i"]) auto
qed

section \<open>Properties\<close>

text \<open>C13.
  Building a CoAP-over-TCP message from fields in range and parsing it again returns the same
  message with its options in stable order, within the given maximum; and the builder refuses
  such fields, with \<open>CoapTcpCodecError\<close>, only when no wire form of the message exists that the
  parser would accept under that maximum.
\<close>

theorem coap_tcp_round_trip:
  assumes "c \<le> 255" and "length tok \<le> 8" and "list_all tcp_option_ok opts"
    and "2 \<le> mx" and "mx \<le> COAP_TCP_MAX_MESSAGE_SIZE"
    and "m = \<lparr>t_code = c, t_token = tok, t_options = sort_key fst opts, t_payload = pl\<rparr>"
  shows "(\<exists>d. build_coap_tcp_message (PyInt (int c)) (PyBytes tok) (py_options opts) (PyBytes pl) (PyInt (int mx)) = Inr d
            \<and> length d \<le> mx \<and> parse_coap_tcp_message (PyBytes d) (PyInt (int mx)) = Inr m)
    \<or> build_coap_tcp_message (PyInt (int c)) (PyBytes tok) (py_options opts) (PyBytes pl) (PyInt (int mx))
        = Inl CoapTcpCodecError
      \<and> (\<forall>d. parse_coap_tcp_message (PyBytes d) (PyInt (int mx)) \<noteq> Inr m)"
proof -
  let ?b = "build_coap_tcp_message (PyInt (int c)) (PyBytes tok) (py_options opts) (PyBytes pl) (PyInt (int mx))"
  have "\<forall>(n, val) \<in> set (sort_key fst opts). n \<le> 65535 \<and> length val \<le> 65804"
    using assms(3) by (auto simp: list_all_iff tcp_option_ok_def)
  then obtain enc where enc: "encode_from 0 (sort_key fst opts) = Inr enc"
    using encode_from_total [of "sort_key fst opts" 0] by blast
  note b = build_coap_tcp_eq [OF assms(1-5) enc, of pl]
  have nums: "\<forall>n \<in> fst ` set (sort_key fst opts). n \<le> COAP_MAX_OPTION_NUMBER"
    using assms(3) by (auto simp: list_all_iff tcp_option_ok_def)
  show ?thesis
  proof (cases ?b)
    case (Inr d)
    then obtain pre where pre: "encode_length (length (tcp_body enc pl)) (length tok) = Inr pre"
      and fits: "length pre + 1 + length tok + length (tcp_body enc pl) \<le> mx"
      and d: "d = pre @ [mk_byte c] @ tok @ tcp_body enc pl"
      using b by (auto split: sum.splits if_splits)
    have "parse_frame mx d = Inr m"
      using parse_frame_body [OF pre enc _ nums assms(1,2) fits] d assms(6) by simp
    moreover have "length d \<le> mx" using d fits by simp
    ultimately show ?thesis using Inr parse_coap_tcp_iff [OF assms(4,5)] by simp
  next
    case (Inl e)
    then have "e = CoapTcpCodecError" using b by (auto split: sum.splits if_splits)
    moreover have "parse_frame mx d \<noteq> Inr m" for d
    proof
      assume "parse_frame mx d = Inr m"
      from parse_frame_build [OF this assms(4,5), of opts] assms(3,6) Inl show False by simp
    qed
    ultimately show ?thesis using Inl parse_coap_tcp_iff [OF assms(4,5)] by simp
  qed
qed

theorem coap_tcp_round_trip_witness:
  "\<exists>d. build_coap_tcp_message (PyInt (int 2)) (PyBytes [7]) (py_options [(12, [60]), (11, [65])])
         (PyBytes [1, 2]) (PyInt (int 64)) = Inr d
     \<and> parse_coap_tcp_message (PyBytes d) (PyInt (int 64))
         = Inr \<lparr>t_code = 2, t_token = [7], t_options = [(11, [65]), (12, [60])], t_payload = [1, 2]\<rparr>"
proof -
  let ?m = "\<lparr>t_code = 2, t_token = [7], t_options = [(11, [65]), (12, [60])], t_payload = [1, 2]\<rparr>"
  have "parse_frame 64 [0x71, 2, 7, 0xB1, 65, 0x11, 60, 0xFF, 1, 2] = Inr ?m" by code_simp
  then have "parse_coap_tcp_message (PyBytes [0x71, 2, 7, 0xB1, 65, 0x11, 60, 0xFF, 1, 2]) (PyInt (int 64))
      = Inr ?m"
    by (subst parse_coap_tcp_iff) simp_all
  with coap_tcp_round_trip [of 2 "[7]" "[(12, [60]), (11, [65])]" 64 ?m "[1, 2]"] show ?thesis
    by (simp add: tcp_option_ok_def) blast
qed


text \<open>C36.
  The stream parser is strict: a wire message it accepts is byte for byte the one the builder
  writes for the parsed message under the same maximum, and everything it does not accept
  raises \<open>CoapTcpCodecError\<close>.
\<close>

theorem coap_tcp_parser_strict:
  assumes "2 \<le> mx" and "mx \<le> COAP_TCP_MAX_MESSAGE_SIZE"
  shows "case parse_coap_tcp_message (PyBytes d) (PyInt (int mx)) of
      Inl e \<Rightarrow> e = CoapTcpCodecError
    | Inr m \<Rightarrow> build_coap_tcp_message (PyInt (int (t_code m))) (PyBytes (t_token m))
        (py_options (t_options m)) (PyBytes (t_payload m)) (PyInt (int mx)) = Inr d"
proof (cases "parse_coap_tcp_message (PyBytes d) (PyInt (int mx))")
  case (Inl e)
  then show ?thesis
    using assms parse_frame_error [of mx d e]
    by (auto simp: parse_coap_tcp_message_def validate_max_message_size_def result_simps
        split: if_splits)
next
  case (Inr m)
  then have pf: "parse_frame mx d = Inr m" using parse_coap_tcp_iff [OF assms] by simp
  note inv = parse_frame_inv [OF pf]
  have "sort_key fst (t_options m) = t_options m" using inv(6) by (simp add: sort_key_id_if_sorted)
  with parse_frame_build [OF pf assms _ inv(5)] Inr show ?thesis by simp
qed

theorem coap_tcp_parser_strict_witness:
  "build_coap_tcp_message (PyInt (int 0x45)) (PyBytes [7]) (py_options [(12, [60])]) (PyBytes [])
     (PyInt (int 64)) = Inr [0x21, 0x45, 7, 0xC1, 60]"
proof -
  let ?m = "\<lparr>t_code = 0x45, t_token = [7], t_options = [(12, [60])], t_payload = []\<rparr>"
  have "parse_frame 64 [0x21, 0x45, 7, 0xC1, 60] = Inr ?m" by code_simp
  then have "parse_coap_tcp_message (PyBytes [0x21, 0x45, 7, 0xC1, 60]) (PyInt (int 64)) = Inr ?m"
    by (subst parse_coap_tcp_iff) simp_all
  with coap_tcp_parser_strict [of 64 "[0x21, 0x45, 7, 0xC1, 60]"] show ?thesis by simp
qed

text \<open>C14.
  The stream decoder does not depend on how the transport cuts the stream: whatever the chunks
  (empty ones, single bytes, several messages at once), a stream of valid messages followed by a
  proper prefix of a valid one yields exactly those messages in order, and exactly that prefix
  stays buffered.
\<close>

theorem tcp_stream_delivers_messages:
  assumes "tcp_stream_new max_message_size = Inr st"
    and "list_all2 (\<lambda>f m. parse_coap_tcp_message (PyBytes f) max_message_size = Inr m) frames ms"
    and "concat chunks = concat frames @ rest"
    and "rest = [] \<or> (\<exists>q m. q \<noteq> [] \<and> parse_coap_tcp_message (PyBytes (rest @ q)) max_message_size = Inr m)"
  shows "tcp_feed_all st (map PyBytes chunks) = (Inr ms, st\<lparr>s_buffer := rest\<rparr>)"
proof -
  from tcp_stream_new_ok [OF assms(1)] obtain mx where mx: "max_message_size = PyInt (int mx)"
    "2 \<le> mx" "mx \<le> COAP_TCP_MAX_MESSAGE_SIZE" and st: "st = \<lparr>s_max = mx, s_buffer = []\<rparr>" by blast
  note iff = parse_coap_tcp_iff [OF mx(2,3)]
  have frames: "list_all2 (\<lambda>f m. parse_frame mx f = Inr m) frames ms"
    using assms(2) by (simp add: mx(1) iff)
  have rest: "tcp_decode mx rest = Inr ([], rest)"
  proof (cases "rest = []")
    case False
    with assms(4) obtain q m where "q \<noteq> []" and "parse_frame mx (rest @ q) = Inr m"
      by (auto simp: mx(1) iff)
    then have size: "frame_size_from_prefix mx (rest @ q) = Inr (Some (length rest + length q))"
      using parse_frame_size by fastforce
    have "tcp.pending mx rest"
      using size tcp.size_stable [of mx rest _ q] \<open>q \<noteq> []\<close> by (auto simp: tcp.pending_def)
    moreover have "frame_size_from_prefix mx rest \<noteq> Inl e" for e
      using size tcp.size_error [of mx rest e q] by auto
    ultimately show ?thesis using tcp.decode_pending by blast
  qed simp
  have all: "tcp_decode mx (concat chunks) = Inr (ms, rest)"
    using tcp.decode_frames [OF frames, of rest] rest assms(3) by simp
  obtain r st' where r: "tcp_feed_all st (map PyBytes chunks) = (r, st')" by fastforce
  note fd = tcp_feed_all_decode [of st chunks, unfolded r]
  show ?thesis
  proof (cases r)
    case (Inl e)
    with fd all st show ?thesis by simp
  next
    case (Inr ms')
    with fd all st have p: "tcp.pending mx (s_buffer st')" "s_max st' = mx"
      and d: "Inr (ms, rest) = prepend ms' (tcp_decode mx (s_buffer st'))"
      using tcp.delivers_decode [of mx "concat chunks" ms' "s_buffer st'"] by simp_all
    from tcp.decode_pending [OF p(1)] d have "ms = ms'" "rest = s_buffer st'" by auto
    with r Inr st p(2) show ?thesis by simp
  qed
qed

theorem tcp_stream_delivers_messages_witness:
  "tcp_feed_all \<lparr>s_max = 64, s_buffer = []\<rparr> (map PyBytes [[0], [], [2, 0x21], [0x45, 7, 0xC1, 60, 0], [2, 0x10]])
     = (Inr [\<lparr>t_code = 2, t_token = [], t_options = [], t_payload = []\<rparr>,
             \<lparr>t_code = 0x45, t_token = [7], t_options = [(12, [60])], t_payload = []\<rparr>,
             \<lparr>t_code = 2, t_token = [], t_options = [], t_payload = []\<rparr>],
        \<lparr>s_max = 64, s_buffer = [0x10]\<rparr>)"
proof -
  let ?m = "\<lparr>t_code = 2, t_token = [], t_options = [], t_payload = []\<rparr>"
  let ?m' = "\<lparr>t_code = 0x45, t_token = [7], t_options = [(12, [60])], t_payload = []\<rparr>"
  have iff: "parse_coap_tcp_message (PyBytes d) (PyInt 64) = Inr m \<longleftrightarrow> parse_frame 64 d = Inr m" for d m
    using parse_coap_tcp_iff [of 64 d m] by simp
  have f: "parse_frame 64 [0, 2] = Inr ?m" "parse_frame 64 [0x21, 0x45, 7, 0xC1, 60] = Inr ?m'"
    "parse_frame 64 [0x10, 2, 0] = Inr \<lparr>t_code = 2, t_token = [], t_options = [(0, [])], t_payload = []\<rparr>"
    by code_simp+
  have "parse_coap_tcp_message (PyBytes ([0x10] @ [2, 0])) (PyInt 64)
      = Inr \<lparr>t_code = 2, t_token = [], t_options = [(0, [])], t_payload = []\<rparr>"
    using f(3) by (simp add: iff)
  then have q: "\<exists>q m. q \<noteq> [] \<and> parse_coap_tcp_message (PyBytes ([0x10] @ q)) (PyInt 64) = Inr m"
    by blast
  have "tcp_stream_new (PyInt 64) = Inr \<lparr>s_max = 64, s_buffer = []\<rparr>"
    by (simp add: tcp_stream_new_def validate_max_message_size_def)
  from tcp_stream_delivers_messages [OF this, of "[[0, 2], [0x21, 0x45, 7, 0xC1, 60], [0, 2]]"
      "[?m, ?m', ?m]" "[[0], [], [2, 0x21], [0x45, 7, 0xC1, 60, 0], [2, 0x10]]" "[0x10]", OF _ _ disjI2 [OF q]]
  show ?thesis using f by (simp add: iff)
qed

text \<open>C28.
  On an arbitrary stream the decoder neither invents nor loses bytes and holds little: the bytes
  fed are the frames of the delivered messages followed by the buffer, which is at most the
  maximum frame size (or the five bytes of a length field); and when it raises, the exception is
  \<open>CoapTcpCodecError\<close>, the buffer is empty and no continuation of the stream would have made it
  a stream of valid messages.
\<close>

theorem tcp_stream_faithful:
  assumes "tcp_stream_new max_message_size = Inr st"
    and "tcp_feed_all st (map PyBytes chunks) = (r, st')"
  shows "buffered_bytes st' \<le> max 5 (s_max st)
    \<and> (case r of
        Inr ms \<Rightarrow> (\<exists>frames. concat chunks = concat frames @ s_buffer st'
           \<and> list_all2 (\<lambda>f m. parse_coap_tcp_message (PyBytes f) max_message_size = Inr m) frames ms)
      | Inl e \<Rightarrow> e = CoapTcpCodecError \<and> s_buffer st' = []
           \<and> (\<forall>tail frames ms. concat chunks @ tail = concat frames
                \<longrightarrow> \<not> list_all2 (\<lambda>f m. parse_coap_tcp_message (PyBytes f) max_message_size = Inr m) frames ms))"
proof -
  from tcp_stream_new_ok [OF assms(1)] obtain mx where mx: "max_message_size = PyInt (int mx)"
    "2 \<le> mx" "mx \<le> COAP_TCP_MAX_MESSAGE_SIZE" and st: "st = \<lparr>s_max = mx, s_buffer = []\<rparr>" by blast
  note iff = parse_coap_tcp_iff [OF mx(2,3)]
  have fd: "case (r, st') of
      (Inl e, st') \<Rightarrow> tcp_decode mx (concat chunks) = Inl e \<and> s_buffer st' = []
    | (Inr ms, st') \<Rightarrow> tcp.pending mx (s_buffer st') \<and> s_max st' = mx
        \<and> tcp.delivers mx (concat chunks) ms (s_buffer st')"
    using tcp_feed_all_decode [of st chunks] unfolding assms(2) by (cases r) (simp_all add: st)
  have bound: "buffered_bytes st' \<le> max 5 (s_max st)"
    using tcp_feed_all_bound [OF _ assms(2)] st by (simp add: buffered_bytes_def)
  show ?thesis
  proof (cases r)
    case (Inl e)
    with fd have e: "tcp_decode mx (concat chunks) = Inl e" "s_buffer st' = []" by simp_all
    have "\<not> list_all2 (\<lambda>f m. parse_frame mx f = Inr m) frames ms"
      if "concat chunks @ tail = concat frames" for tail frames ms
      using tcp.decode_frames [of mx frames ms "[]"] tcp.decode_append [of mx "concat chunks" tail]
        e(1) that by auto
    with Inl e tcp_decode_error [OF e(1)] bound show ?thesis by (simp add: mx(1) iff)
  next
    case (Inr ms)
    with fd bound show ?thesis by (simp add: mx(1) iff tcp.delivers_def)
  qed
qed


theorem tcp_stream_faithful_witness:
  "\<exists>frames. concat [[0, 2], [0x20]] = concat frames @ [0x20]
     \<and> list_all2 (\<lambda>f m. parse_coap_tcp_message (PyBytes f) (PyInt 64) = Inr m) frames
         [\<lparr>t_code = 2, t_token = [], t_options = [], t_payload = []\<rparr>]"
proof -
  have new: "tcp_stream_new (PyInt 64) = Inr \<lparr>s_max = 64, s_buffer = []\<rparr>"
    by (simp add: tcp_stream_new_def validate_max_message_size_def)
  have "tcp_feed_all \<lparr>s_max = 64, s_buffer = []\<rparr> (map PyBytes [[0, 2], [0x20]]) =
      (Inr [\<lparr>t_code = 2, t_token = [], t_options = [], t_payload = []\<rparr>], \<lparr>s_max = 64, s_buffer = [0x20]\<rparr>)"
    by code_simp
  from tcp_stream_faithful [OF new this] show ?thesis by simp
qed

end
