(* ===== verification/Ble_Ocf.thy ===== *)
theory Ble_Ocf
  imports Prelude
begin

text \<open>
  The IoTivity BLE framing of \<open>smartthings_local/protocol/ble_ocf.py\<close>: the two-byte header, the
  fragmentation of one PDU, the strict reassembler and the reassembler that infers the frame
  size. A \<open>feed\<close> returns the result (or the exception) together with the state afterwards,
  because the code empties the buffer before it re-raises.
\<close>

section \<open>Limits and validators\<close>

abbreviation (input) "BLE_HEADER_SIZE \<equiv> 2 :: nat"
abbreviation (input) "BLE_FIRST_FRAME_OVERHEAD \<equiv> 6 :: nat"
abbreviation (input) "BLE_MAX_PORT \<equiv> 127 :: nat"
abbreviation (input) "BLE_MAX_MTU \<equiv> 65535 :: nat"
abbreviation (input) "BLE_WIRE_MAX_PDU_SIZE \<equiv> 4294967295 :: nat"

record ble_header =
  h_start :: bool
  h_source :: nat
  h_secure :: bool
  h_dest :: nat

record ble_pdu =
  p_pdu :: bytes
  p_source :: nat
  p_dest :: nat
  p_secure :: bool

fun ble_coerce_bytes :: "pyval \<Rightarrow> nat option \<Rightarrow> bytes result" where
  "ble_coerce_bytes (PyBytes b) max_length =
     (case max_length of
        None \<Rightarrow> Inr b
      | Some mx \<Rightarrow> if length b > mx then Inl BleOcfCodecError else Inr b)"
| "ble_coerce_bytes _ _ = Inl Py_TypeError"

fun ble_validate_int :: "pyval \<Rightarrow> nat \<Rightarrow> nat \<Rightarrow> nat result" where
  "ble_validate_int (PyInt n) lo hi =
     (if int lo \<le> n \<and> n \<le> int hi then Inr (nat n) else Inl BleOcfCodecError)"
| "ble_validate_int _ _ _ = Inl Py_TypeError"

definition validate_port :: "pyval \<Rightarrow> bool \<Rightarrow> nat result" where
  "validate_port port source = ble_validate_int port (if source then 1 else 0) BLE_MAX_PORT"

fun validate_flag :: "pyval \<Rightarrow> bool result" where
  "validate_flag (PyBool b) = Inr b"
| "validate_flag _ = Inl Py_TypeError"

definition validate_mtu :: "pyval \<Rightarrow> nat result" where
  "validate_mtu mtu = ble_validate_int mtu (BLE_FIRST_FRAME_OVERHEAD + 1) BLE_MAX_MTU"

definition validate_max_pdu_size :: "pyval \<Rightarrow> nat result" where
  "validate_max_pdu_size v = ble_validate_int v 1 BLE_WIRE_MAX_PDU_SIZE"

section \<open>The header\<close>

definition encode_header :: "pyval \<Rightarrow> pyval \<Rightarrow> pyval \<Rightarrow> pyval \<Rightarrow> bytes result" where
  "encode_header start source_port secure destination_port =
     andThen (validate_flag start) (\<lambda>st.
     andThen (validate_flag secure) (\<lambda>sec.
     andThen (validate_port source_port True) (\<lambda>sp.
     andThen (validate_port destination_port False) (\<lambda>dp.
     andThen (byte_of ((if st then 0x80 else 0) OR sp)) (\<lambda>b0.
     andThen (byte_of ((if sec then 0x80 else 0) OR dp)) (\<lambda>b1. Inr [b0, b1]))))))"

text \<open>\<open>decode_header\<close> of bytes that are already coerced.\<close>

definition header_of :: "bytes \<Rightarrow> ble_header result" where
  "header_of data =
     andThen (raise_if (length data < BLE_HEADER_SIZE) BleOcfCodecError) (\<lambda>_.
     andThen (item data 0) (\<lambda>first.
     andThen (item data 1) (\<lambda>second.
     let source_port = unat first AND 0x7F in
     andThen (raise_if (source_port < 1) BleOcfCodecError) (\<lambda>_.
       Inr \<lparr>h_start = (unat first AND 0x80 \<noteq> 0), h_source = source_port,
            h_secure = (unat second AND 0x80 \<noteq> 0), h_dest = unat second AND 0x7F\<rparr>))))"

definition decode_header :: "pyval \<Rightarrow> ble_header result" where
  "decode_header frame = andThen (ble_coerce_bytes frame None) header_of"

section \<open>Fragmentation\<close>

text \<open>The loop of \<open>fragment_pdu\<close> from \<open>offset\<close>; the capacity is \<open>mtu - 2\<close>, at least 5.\<close>

function fragment_from :: "bytes \<Rightarrow> bytes \<Rightarrow> nat \<Rightarrow> nat \<Rightarrow> bytes list" where
  "fragment_from header data capacity offset =
     (if offset < length data \<and> 0 < capacity then
        (let end_off = min (offset + capacity) (length data)
         in (header @ slice data offset end_off) # fragment_from header data capacity end_off)
      else [])"
  by pat_completeness auto
termination
  by (relation "measure (\<lambda>(header, data, capacity, offset). length data - offset)") auto

declare fragment_from.simps [simp del]

definition fragment_pdu ::
  "pyval \<Rightarrow> pyval \<Rightarrow> pyval \<Rightarrow> pyval \<Rightarrow> pyval \<Rightarrow> pyval \<Rightarrow> bytes list result" where
  "fragment_pdu pdu mtu source_port destination_port secure max_pdu_size =
     andThen (validate_mtu mtu) (\<lambda>m.
     andThen (validate_max_pdu_size max_pdu_size) (\<lambda>mx.
     andThen (validate_port source_port True) (\<lambda>sp.
     andThen (validate_port destination_port False) (\<lambda>dp.
     andThen (validate_flag secure) (\<lambda>sec.
     andThen (ble_coerce_bytes pdu (Some mx)) (\<lambda>data.
     andThen (raise_if (data = []) BleOcfCodecError) (\<lambda>_.
     let first_length = min (length data) (m - BLE_FIRST_FRAME_OVERHEAD) in
     andThen (encode_header (PyBool True) (PyInt (int sp)) (PyBool sec) (PyInt (int dp))) (\<lambda>h.
     andThen (pack_be 4 (length data)) (\<lambda>size.
     andThen (encode_header (PyBool False) (PyInt (int sp)) (PyBool sec) (PyInt (int dp))) (\<lambda>ch.
       Inr ((h @ size @ take first_length data)
            # fragment_from ch data (m - BLE_HEADER_SIZE) first_length)))))))))))"

section \<open>The reassembler\<close>

record ble =
  r_mtu :: nat
  r_max :: nat
  r_header :: "ble_header option"
  r_expected :: nat
  r_buffer :: bytes

definition ble_new :: "pyval \<Rightarrow> pyval \<Rightarrow> ble result" where
  "ble_new mtu max_pdu_size =
     andThen (validate_mtu mtu) (\<lambda>m.
     andThen (validate_max_pdu_size max_pdu_size) (\<lambda>mx.
       Inr \<lparr>r_mtu = m, r_max = mx, r_header = None, r_expected = 0, r_buffer = []\<rparr>))"

definition in_progress :: "ble \<Rightarrow> bool" where
  "in_progress st \<longleftrightarrow> r_header st \<noteq> None"

definition ble_buffered_bytes :: "ble \<Rightarrow> nat" where
  "ble_buffered_bytes st = length (r_buffer st)"

definition ble_reset :: "ble \<Rightarrow> ble" where
  "ble_reset st = st\<lparr>r_header := None, r_expected := 0, r_buffer := []\<rparr>"

definition ble_start :: "ble \<Rightarrow> bytes \<Rightarrow> ble_header \<Rightarrow> (ble_pdu option \<times> ble) result" where
  "ble_start st data header =
     andThen (raise_if (length data < BLE_FIRST_FRAME_OVERHEAD) BleOcfCodecError) (\<lambda>_.
     let expected = be_nat (slice data BLE_HEADER_SIZE BLE_FIRST_FRAME_OVERHEAD) in
     andThen (raise_if (expected = 0) BleOcfCodecError) (\<lambda>_.
     andThen (raise_if (expected > r_max st) BleOcfCodecError) (\<lambda>_.
     let payload = drop BLE_FIRST_FRAME_OVERHEAD data;
         expected_payload = min expected (r_mtu st - BLE_FIRST_FRAME_OVERHEAD) in
     andThen (raise_if (length payload \<noteq> expected_payload) BleOcfCodecError) (\<lambda>_.
     if length payload = expected then
       Inr (Some \<lparr>p_pdu = payload, p_source = h_source header, p_dest = h_dest header,
                  p_secure = h_secure header\<rparr>, st)
     else
       Inr (None, st\<lparr>r_header := Some header, r_expected := expected,
                     r_buffer := r_buffer st @ payload\<rparr>)))))"

definition ble_continue :: "ble \<Rightarrow> bytes \<Rightarrow> ble_header \<Rightarrow> (ble_pdu option \<times> ble) result" where
  "ble_continue st data header =
     (case r_header st of
        None \<Rightarrow> Inl BleOcfCodecError
      | Some active \<Rightarrow>
          andThen (raise_if (h_start header \<or> h_source header \<noteq> h_source active
                      \<or> h_secure header \<noteq> h_secure active \<or> h_dest header \<noteq> h_dest active)
                    BleOcfInterleavedFrameError) (\<lambda>_.
          let payload = drop BLE_HEADER_SIZE data;
              remaining = r_expected st - length (r_buffer st);
              expected_payload = min remaining (r_mtu st - BLE_HEADER_SIZE) in
          andThen (raise_if (length payload \<noteq> expected_payload) BleOcfCodecError) (\<lambda>_.
          let st' = st\<lparr>r_buffer := r_buffer st @ payload\<rparr> in
          if length (r_buffer st') < r_expected st then Inr (None, st')
          else Inr (Some \<lparr>p_pdu = r_buffer st', p_source = h_source active,
                          p_dest = h_dest active, p_secure = h_secure active\<rparr>,
                    ble_reset st'))))"

definition ble_feed_step :: "ble \<Rightarrow> pyval \<Rightarrow> (ble_pdu option \<times> ble) result" where
  "ble_feed_step st frame =
     andThen (ble_coerce_bytes frame (Some (r_mtu st))) (\<lambda>data.
     andThen (header_of data) (\<lambda>header.
     if h_start header then
       andThen (raise_if (in_progress st) BleOcfInterleavedFrameError) (\<lambda>_.
         ble_start st data header)
     else ble_continue st data header))"

definition ble_feed :: "ble \<Rightarrow> pyval \<Rightarrow> ble_pdu option result \<times> ble" where
  "ble_feed st frame =
     (case ble_feed_step st frame of
        Inl e \<Rightarrow> (Inl e, if isinstance_of e BleOcfCodecError \<or> isinstance_of e Py_TypeError
                         then ble_reset st else st)
      | Inr (r, st') \<Rightarrow> (Inr r, st'))"

section \<open>The adaptive reassembler\<close>

record adaptive =
  a_max :: nat
  a_inner :: "ble option"

definition adaptive_new :: "pyval \<Rightarrow> adaptive result" where
  "adaptive_new max_pdu_size =
     andThen (validate_max_pdu_size max_pdu_size) (\<lambda>mx. Inr \<lparr>a_max = mx, a_inner = None\<rparr>)"

definition adaptive_in_progress :: "adaptive \<Rightarrow> bool" where
  "adaptive_in_progress st = (case a_inner st of None \<Rightarrow> False | Some r \<Rightarrow> in_progress r)"

definition adaptive_buffered_bytes :: "adaptive \<Rightarrow> nat" where
  "adaptive_buffered_bytes st = (case a_inner st of None \<Rightarrow> 0 | Some r \<Rightarrow> ble_buffered_bytes r)"

definition adaptive_reset :: "adaptive \<Rightarrow> adaptive" where
  "adaptive_reset st = st\<lparr>a_inner := None\<rparr>"

text \<open>The inner reassembler of this frame: the active one, or a new one sized by the frame.\<close>

definition adaptive_inner :: "adaptive \<Rightarrow> bytes \<Rightarrow> ble result" where
  "adaptive_inner st data =
     (case a_inner st of
        Some r \<Rightarrow> Inr r
      | None \<Rightarrow>
          andThen (decode_header (PyBytes data)) (\<lambda>header.
          andThen (raise_if (\<not> h_start header) BleOcfCodecError) (\<lambda>_.
            ble_new (PyInt (int (length data))) (PyInt (int (a_max st))))))"

definition adaptive_feed :: "adaptive \<Rightarrow> pyval \<Rightarrow> ble_pdu option result \<times> adaptive" where
  "adaptive_feed st frame =
     (case andThen (ble_coerce_bytes frame (Some BLE_MAX_MTU)) (\<lambda>data.
           andThen (adaptive_inner st data) (\<lambda>r. Inr (ble_feed r (PyBytes data)))) of
        Inl e \<Rightarrow> (Inl e, if isinstance_of e BleOcfCodecError \<or> isinstance_of e Py_TypeError
                         then adaptive_reset st else st)
      | Inr (Inl e, r') \<Rightarrow>
          (Inl e, if isinstance_of e BleOcfCodecError \<or> isinstance_of e Py_TypeError
                  then adaptive_reset st else st\<lparr>a_inner := Some r'\<rparr>)
      | Inr (Inr None, r') \<Rightarrow> (Inr None, st\<lparr>a_inner := Some r'\<rparr>)
      | Inr (Inr (Some p), r') \<Rightarrow> (Inr (Some p), adaptive_reset st))"


section \<open>Headers in both directions\<close>

definition header_bytes :: "bool \<Rightarrow> nat \<Rightarrow> bool \<Rightarrow> nat \<Rightarrow> bytes" where
  "header_bytes st sp sec dp =
     [mk_byte ((if st then 128 else 0) + sp), mk_byte ((if sec then 128 else 0) + dp)]"

definition ports_ok :: "nat \<Rightarrow> nat \<Rightarrow> bool" where
  "ports_ok sp dp \<longleftrightarrow> 1 \<le> sp \<and> sp \<le> 127 \<and> dp \<le> 127"

lemma length_header_bytes [simp]: "length (header_bytes st sp sec dp) = 2"
  by (simp add: header_bytes_def)

lemma flag_or: "port \<le> 127 \<Longrightarrow> 128 OR port = 128 + port" for port :: nat
  using or_shifted [of port 7 1] by simp

lemma flag_bit: "n < 256 \<Longrightarrow> n AND 128 \<noteq> 0 \<longleftrightarrow> 128 \<le> n" for n :: nat
proof -
  assume n: "n < 256"
  have "n AND 2 ^ 7 = 0 \<longleftrightarrow> \<not> bit n 7" by (rule and_exp_eq_0_iff_not_bit)
  moreover have "bit n 7 \<longleftrightarrow> odd (n div 128)" by (simp add: bit_iff_odd)
  moreover have "odd (n div 128) \<longleftrightarrow> 128 \<le> n"
  proof (cases "128 \<le> n")
    case True
    with n have "n div 128 = 1" by simp
    with True show ?thesis by simp
  qed simp
  ultimately show ?thesis by simp
qed

lemma encode_header_eq:
  "encode_header (PyBool st) (PyInt sp) (PyBool sec) (PyInt dp) =
     (if 1 \<le> sp \<and> sp \<le> 127 \<and> 0 \<le> dp \<and> dp \<le> 127 then Inr (header_bytes st (nat sp) sec (nat dp))
      else Inl BleOcfCodecError)"
proof -
  have "sp \<le> 127 \<Longrightarrow> 128 OR nat sp = 128 + nat sp" "dp \<le> 127 \<Longrightarrow> 128 OR nat dp = 128 + nat dp"
    by (simp_all add: flag_or)
  then show ?thesis
    by (auto simp: encode_header_def validate_port_def header_bytes_def result_simps byte_of_def)
qed

lemma header_of_bytes:
  assumes "ports_ok sp dp"
  shows "header_of (header_bytes st sp sec dp @ rest) =
           Inr \<lparr>h_start = st, h_source = sp, h_secure = sec, h_dest = dp\<rparr>"
proof -
  have f: "((if b then 128 else 0) + p) mod 256 AND 127 = p"
    "((if b then 128 else 0) + p) mod 256 AND 128 \<noteq> 0 \<longleftrightarrow> b" if "p \<le> 127" for b and p :: nat
  proof -
    show "((if b then 128 else 0) + p) mod 256 AND 127 = p"
      using that by (cases b) (simp_all add: byte_simps mod_add_left_eq [of 128 128 p, symmetric])
    show "((if b then 128 else 0) + p) mod 256 AND 128 \<noteq> 0 \<longleftrightarrow> b"
      using that by (subst flag_bit) auto
  qed
  show ?thesis
    using assms f [of sp st] f [of dp sec]
    by (simp add: header_of_def header_bytes_def ports_ok_def)
qed

lemma header_of_inv:
  assumes "header_of data = Inr h"
  shows "data = header_bytes (h_start h) (h_source h) (h_secure h) (h_dest h) @ drop 2 data"
    and "ports_ok (h_source h) (h_dest h)"
proof -
  from assms have len: "2 \<le> length data"
    and h: "h_start h = (unat (data ! 0) AND 128 \<noteq> 0)" "h_source h = unat (data ! 0) mod 128"
      "h_secure h = (unat (data ! 1) AND 128 \<noteq> 0)" "h_dest h = unat (data ! 1) mod 128"
    and pos: "1 \<le> unat (data ! 0) mod 128"
    by (auto simp: header_of_def result_simps Let_def byte_simps)
  have split: "mk_byte ((if n AND 128 \<noteq> 0 then 128 else 0) + n mod 128) = mk_byte n" if "n < 256" for n :: nat
  proof (cases "128 \<le> n")
    case True
    with that have "n div 128 = 1" by simp
    then have "128 + n mod 128 = n" using mult_div_mod_eq [of 128 n] by simp
    moreover have "n AND 128 \<noteq> 0" using flag_bit [OF that] True by simp
    ultimately show ?thesis by simp
  next
    case False
    moreover have "n AND 128 = 0" using flag_bit [OF that] False by simp
    ultimately show ?thesis by simp
  qed
  have "header_bytes (h_start h) (h_source h) (h_secure h) (h_dest h) = [data ! 0, data ! 1]"
    using split [of "unat (data ! 0)"] split [of "unat (data ! 1)"] unat_byte_lt h
    by (simp add: header_bytes_def)
  moreover have "[data ! 0, data ! 1] @ drop 2 data = data"
    using len by (cases data; cases "tl data") (auto simp: numeral_2_eq_2)
  ultimately show "data = header_bytes (h_start h) (h_source h) (h_secure h) (h_dest h) @ drop 2 data"
    by simp
  show "ports_ok (h_source h) (h_dest h)"
    using pos h by (simp add: ports_ok_def less_Suc_eq_le [symmetric])
qed

lemma header_of_iff:
  "header_of data = Inr h \<longleftrightarrow> ports_ok (h_source h) (h_dest h) \<and>
     (\<exists>rest. data = header_bytes (h_start h) (h_source h) (h_secure h) (h_dest h) @ rest)"
  using header_of_inv [of data h] header_of_bytes [of "h_source h" "h_dest h"] by auto

lemma header_of_error: "header_of data = Inl e \<Longrightarrow> e = BleOcfCodecError"
  by (auto simp: header_of_def result_simps Let_def item_def split: if_splits)


section \<open>One frame\<close>

text \<open>What holds between two frames: the limits are valid and a partial PDU is incomplete.\<close>

definition ble_inv :: "ble \<Rightarrow> bool" where
  "ble_inv st \<longleftrightarrow>
     7 \<le> r_mtu st \<and> r_mtu st \<le> BLE_MAX_MTU \<and> 1 \<le> r_max st \<and> r_max st \<le> BLE_WIRE_MAX_PDU_SIZE
     \<and> (case r_header st of
          None \<Rightarrow> r_buffer st = [] \<and> r_expected st = 0
        | Some h \<Rightarrow> ports_ok (h_source h) (h_dest h) \<and> length (r_buffer st) < r_expected st
            \<and> r_expected st \<le> r_max st)"

abbreviation (input) idle :: "nat \<Rightarrow> nat \<Rightarrow> ble" where
  "idle m mx \<equiv> \<lparr>r_mtu = m, r_max = mx, r_header = None, r_expected = 0, r_buffer = []\<rparr>"

lemma ble_new_idle:
  assumes "ble_new mtu mxv = Inr st"
  shows "\<exists>m mx. mtu = PyInt (int m) \<and> mxv = PyInt (int mx) \<and> st = idle m mx \<and> ble_inv st"
proof -
  from assms obtain i j where "mtu = PyInt i" "mxv = PyInt j" "7 \<le> i" "i \<le> 65535" "1 \<le> j" "j \<le> 4294967295"
    "st = idle (nat i) (nat j)"
    by (cases mtu; cases mxv) (auto simp: ble_new_def validate_mtu_def validate_max_pdu_size_def
        result_simps split: if_splits)
  then show ?thesis
    by (intro exI [of _ "nat i"] exI [of _ "nat j"]) (auto simp: ble_inv_def)
qed

lemma ble_reset_idle: "ble_reset st = idle (r_mtu st) (r_max st)"
  by (simp add: ble_reset_def)

lemma ble_step_error:
  "ble_feed_step st frame = Inl e \<Longrightarrow>
     e = BleOcfCodecError \<or> e = BleOcfInterleavedFrameError \<or> e = Py_TypeError"
  by (cases frame)
    (auto simp: ble_feed_step_def result_simps ble_start_def ble_continue_def Let_def
      split: if_splits option.splits dest!: header_of_error)

lemma ble_feed_cases:
  "ble_feed st frame =
     (case ble_feed_step st frame of Inl e \<Rightarrow> (Inl e, ble_reset st) | Inr (r, st') \<Rightarrow> (Inr r, st'))"
proof -
  have "isinstance_of BleOcfInterleavedFrameError BleOcfCodecError" by code_simp
  then show ?thesis
    using ble_step_error [of st frame] by (auto simp: ble_feed_def split: sum.splits)
qed

definition pdu_of :: "ble_header \<Rightarrow> bytes \<Rightarrow> ble_pdu" where
  "pdu_of h data = \<lparr>p_pdu = data, p_source = h_source h, p_dest = h_dest h, p_secure = h_secure h\<rparr>"

text \<open>A frame an idle reassembler accepts is a start frame filled to the frame size.\<close>

lemma ble_feed_idle:
  assumes "ble_inv (idle m mx)"
  shows "ble_feed (idle m mx) (PyBytes f) = (Inr r, st') \<longleftrightarrow>
    (\<exists>sp sec dp n payload. f = header_bytes True sp sec dp @ nat_be 4 n @ payload \<and> ports_ok sp dp
       \<and> 0 < n \<and> n \<le> mx \<and> length payload = min n (m - 6)
       \<and> (let h = \<lparr>h_start = True, h_source = sp, h_secure = sec, h_dest = dp\<rparr> in
          if length payload = n then r = Some (pdu_of h payload) \<and> st' = idle m mx
          else r = None \<and> st' = \<lparr>r_mtu = m, r_max = mx, r_header = Some h, r_expected = n,
                               r_buffer = payload\<rparr>))"
    (is "?lhs \<longleftrightarrow> ?rhs")
proof
  assume ?lhs
  then have "ble_feed_step (idle m mx) (PyBytes f) = Inr (r, st')"
    by (auto simp: ble_feed_cases split: sum.splits)
  then obtain h where h: "header_of f = Inr h" "h_start h" "6 \<le> length f"
    "0 < be_nat (slice f 2 6)" "be_nat (slice f 2 6) \<le> mx"
    "length (drop 6 f) = min (be_nat (slice f 2 6)) (m - 6)"
    and r: "if length (drop 6 f) = be_nat (slice f 2 6)
            then r = Some (pdu_of h (drop 6 f)) \<and> st' = idle m mx
            else r = None \<and> st' = \<lparr>r_mtu = m, r_max = mx, r_header = Some h,
                    r_expected = be_nat (slice f 2 6), r_buffer = drop 6 f\<rparr>"
    by (auto simp: ble_feed_step_def result_simps ble_start_def ble_continue_def Let_def
        pdu_of_def split: if_splits)
  note inv = header_of_inv [OF h(1)]
  have "drop 2 f = slice f 2 6 @ drop 6 f" using drop_slice [of 2 6 f] by simp
  moreover have "nat_be 4 (be_nat (slice f 2 6)) = slice f 2 6" using h(3) by (intro nat_be_be_nat) simp
  ultimately have "f = header_bytes True (h_source h) (h_secure h) (h_dest h)
      @ nat_be 4 (be_nat (slice f 2 6)) @ drop 6 f"
    using inv(1) h(2) by simp
  moreover have "h = \<lparr>h_start = True, h_source = h_source h, h_secure = h_secure h, h_dest = h_dest h\<rparr>"
    using h(2) by simp
  ultimately show ?rhs using inv(2) h(4-6) r unfolding Let_def by metis
next
  assume ?rhs
  then obtain sp sec dp n payload where f: "f = header_bytes True sp sec dp @ nat_be 4 n @ payload"
    and ok: "ports_ok sp dp" "0 < n" "n \<le> mx" "length payload = min n (m - 6)"
    and r: "if length payload = n
            then r = Some (pdu_of \<lparr>h_start = True, h_source = sp, h_secure = sec, h_dest = dp\<rparr> payload) \<and> st' = idle m mx
            else r = None \<and> st' = \<lparr>r_mtu = m, r_max = mx,
                r_header = Some \<lparr>h_start = True, h_source = sp, h_secure = sec, h_dest = dp\<rparr>,
                r_expected = n, r_buffer = payload\<rparr>"
    by (auto simp: Let_def)
  have m: "7 \<le> m" "mx < 256 ^ 4" using assms by (simp_all add: ble_inv_def)
  have "slice f 2 6 = nat_be 4 n" "drop 6 f = payload"
    using f by (simp_all add: slice_def del: nat_be.simps)
  moreover have "be_nat (nat_be 4 n) = n" using ok(3) m(2) by simp
  moreover have "header_of f = Inr \<lparr>h_start = True, h_source = sp, h_secure = sec, h_dest = dp\<rparr>"
    unfolding f by (rule header_of_bytes [OF ok(1)])
  moreover have "length f \<le> m" "6 \<le> length f" using f ok(4) m(1) by simp_all
  ultimately show ?lhs
    using ok r
    by (auto simp: ble_feed_cases ble_feed_step_def in_progress_def ble_start_def Let_def pdu_of_def
        split: if_splits)
qed

text \<open>And while a PDU is incomplete: a continuation with the same metadata, filled likewise.\<close>

lemma ble_feed_partial:
  assumes "ble_inv st" and "r_header st = Some h"
  shows "ble_feed st (PyBytes f) = (Inr r, st') \<longleftrightarrow>
    (\<exists>payload. f = header_bytes False (h_source h) (h_secure h) (h_dest h) @ payload
       \<and> length payload = min (r_expected st - length (r_buffer st)) (r_mtu st - 2)
       \<and> (if length (r_buffer st @ payload) < r_expected st
          then r = None \<and> st' = st\<lparr>r_buffer := r_buffer st @ payload\<rparr>
          else r = Some (pdu_of h (r_buffer st @ payload)) \<and> st' = ble_reset st))"
    (is "?lhs \<longleftrightarrow> ?rhs")
proof
  assume ?lhs
  then have "ble_feed_step st (PyBytes f) = Inr (r, st')"
    by (auto simp: ble_feed_cases split: sum.splits)
  then obtain h' where h': "header_of f = Inr h'" "\<not> h_start h'" "h_source h' = h_source h"
      "h_secure h' = h_secure h" "h_dest h' = h_dest h"
    and len: "length (drop 2 f) = min (r_expected st - length (r_buffer st)) (r_mtu st - 2)"
    and r: "if length (r_buffer st @ drop 2 f) < r_expected st
          then r = None \<and> st' = st\<lparr>r_buffer := r_buffer st @ drop 2 f\<rparr>
          else r = Some (pdu_of h (r_buffer st @ drop 2 f)) \<and> st' = ble_reset st"
    using assms(2)
    by (auto simp: ble_feed_step_def result_simps ble_continue_def in_progress_def Let_def
        pdu_of_def ble_reset_def split: if_splits)
  from header_of_inv(1) [OF h'(1)] h'(2-5) len r show ?rhs
    by (intro exI [of _ "drop 2 f"]) simp
next
  assume ?rhs
  then obtain payload where f: "f = header_bytes False (h_source h) (h_secure h) (h_dest h) @ payload"
    and len: "length payload = min (r_expected st - length (r_buffer st)) (r_mtu st - 2)"
    and r: "if length (r_buffer st @ payload) < r_expected st
          then r = None \<and> st' = st\<lparr>r_buffer := r_buffer st @ payload\<rparr>
          else r = Some (pdu_of h (r_buffer st @ payload)) \<and> st' = ble_reset st" by blast
  have p: "ports_ok (h_source h) (h_dest h)" "7 \<le> r_mtu st" using assms by (simp_all add: ble_inv_def)
  have "header_of f = Inr \<lparr>h_start = False, h_source = h_source h, h_secure = h_secure h, h_dest = h_dest h\<rparr>"
    unfolding f by (rule header_of_bytes [OF p(1)])
  moreover have "length f \<le> r_mtu st" "drop 2 f = payload" using f len p(2) by simp_all
  ultimately show ?lhs
    using assms(2) len r
    by (auto simp: ble_feed_cases ble_feed_step_def in_progress_def ble_continue_def Let_def pdu_of_def
        ble_reset_def split: if_splits)
qed


section \<open>Sequences of frames\<close>

fun ble_feeds :: "ble \<Rightarrow> bytes list \<Rightarrow> ble_pdu option result list \<times> ble" where
  "ble_feeds st [] = ([], st)"
| "ble_feeds st (f # fs) =
     (case ble_feed st (PyBytes f) of
        (r, st') \<Rightarrow> (case ble_feeds st' fs of (rs, st'') \<Rightarrow> (r # rs, st'')))"

text \<open>The results of a sequence that completes one PDU with its last frame.\<close>

fun completes :: "ble_pdu \<Rightarrow> bytes list \<Rightarrow> ble_pdu option result list" where
  "completes p [] = []"
| "completes p [f] = [Inr (Some p)]"
| "completes p (f # fs) = Inr None # completes p fs"

lemma completes_Cons: "fs \<noteq> [] \<Longrightarrow> completes p (f # fs) = Inr None # completes p fs"
  by (cases fs) auto

lemma ble_inv_partial:
  "ble_inv st \<Longrightarrow> r_header st = Some h \<Longrightarrow> length (r_buffer st @ pl) < r_expected st
     \<Longrightarrow> ble_inv (st\<lparr>r_buffer := r_buffer st @ pl\<rparr>)"
  by (simp add: ble_inv_def)

lemma ble_feeds_partial:
  assumes "ble_inv st" and "r_header st = Some h"
  shows "fs \<noteq> [] \<and> ble_feeds st fs = (completes p fs, ble_reset st) \<longleftrightarrow>
    p = pdu_of h (p_pdu p) \<and> length (p_pdu p) = r_expected st
    \<and> take (length (r_buffer st)) (p_pdu p) = r_buffer st
    \<and> fs = fragment_from (header_bytes False (h_source h) (h_secure h) (h_dest h)) (p_pdu p)
             (r_mtu st - 2) (length (r_buffer st))"
  using assms
proof (induction fs arbitrary: st)
  case Nil
  have "length (r_buffer st) < r_expected st" "7 \<le> r_mtu st" using Nil by (simp_all add: ble_inv_def)
  then show ?case by (subst fragment_from.simps) (auto simp: Let_def)
next
  case (Cons f fs)
  let ?hd = "header_bytes False (h_source h) (h_secure h) (h_dest h)"
  let ?b = "length (r_buffer st)" and ?cap = "r_mtu st - 2" and ?n = "r_expected st"
  have inv: "?b < ?n" "0 < ?cap" using Cons.prems by (simp_all add: ble_inv_def)
  note step = ble_feed_partial [OF Cons.prems]
  show ?case
  proof
    assume l: "f # fs \<noteq> [] \<and> ble_feeds st (f # fs) = (completes p (f # fs), ble_reset st)"
    obtain r st' where r: "ble_feed st (PyBytes f) = (r, st')" by fastforce
    show "p = pdu_of h (p_pdu p) \<and> length (p_pdu p) = ?n \<and> take ?b (p_pdu p) = r_buffer st
        \<and> f # fs = fragment_from ?hd (p_pdu p) ?cap ?b"
    proof (cases "fs = []")
      case True
      with l r have rr: "r = Inr (Some p)" "st' = ble_reset st" by simp_all
      with r step obtain pl where f: "f = ?hd @ pl" "length pl = min (?n - ?b) ?cap"
        and "\<not> length (r_buffer st @ pl) < ?n" and p: "p = pdu_of h (r_buffer st @ pl)"
        by (auto split: if_splits)
      then have len: "length (r_buffer st @ pl) = ?n" using inv by auto
      have pd: "p_pdu p = r_buffer st @ pl" using p by (simp add: pdu_of_def)
      have e: "min (?b + ?cap) ?n = ?n" using len f(2) by auto
      have "fragment_from ?hd (r_buffer st @ pl) ?cap ?n = []"
        using len by (subst fragment_from.simps) simp
      then have "fragment_from ?hd (p_pdu p) ?cap ?b = [f]"
        using inv e len f(1) by (subst fragment_from.simps) (simp add: pd slice_def Let_def)
      then show ?thesis using pd p len True by simp
    next
      case False
      with l r have rr: "r = Inr None" "ble_feeds st' fs = (completes p fs, ble_reset st)"
        by (auto simp: completes_Cons split: prod.splits)
      with r step obtain pl where f: "f = ?hd @ pl" "length pl = min (?n - ?b) ?cap"
        and lt: "length (r_buffer st @ pl) < ?n" and st': "st' = st\<lparr>r_buffer := r_buffer st @ pl\<rparr>"
        by (auto split: if_splits)
      have inv': "ble_inv st'" "r_header st' = Some h" "ble_reset st' = ble_reset st"
        using ble_inv_partial [OF Cons.prems lt] Cons.prems(2) st' by (simp_all add: ble_reset_def)
      from Cons.IH [OF inv'(1,2)] rr(2) False inv'(3) st'
      have ih: "p = pdu_of h (p_pdu p)" "length (p_pdu p) = ?n" "take (?b + length pl) (p_pdu p) = r_buffer st @ pl"
        "fs = fragment_from ?hd (p_pdu p) ?cap (?b + length pl)" by simp_all
      have cap: "length pl = ?cap" using f(2) lt by auto
      have tk: "take ?b (p_pdu p) = r_buffer st"
        using arg_cong [OF ih(3), of "take ?b"] by simp
      have sl: "slice (p_pdu p) ?b (?b + ?cap) = pl"
        using arg_cong [OF ih(3), of "drop ?b"] cap by (simp add: slice_def drop_take)
      have "fragment_from ?hd (p_pdu p) ?cap ?b = (?hd @ pl) # fragment_from ?hd (p_pdu p) ?cap (?b + length pl)"
        using inv ih(2) lt cap sl by (subst fragment_from.simps) (simp add: Let_def min_def)
      then show ?thesis using ih tk f(1) by simp
    qed
  next
    assume rh: "p = pdu_of h (p_pdu p) \<and> length (p_pdu p) = ?n \<and> take ?b (p_pdu p) = r_buffer st
        \<and> f # fs = fragment_from ?hd (p_pdu p) ?cap ?b"
    define e where "e = min (?b + ?cap) ?n"
    define pl where "pl = slice (p_pdu p) ?b e"
    have eb: "?b < e" "e \<le> ?n" using inv by (auto simp: e_def)
    have ff: "fragment_from ?hd (p_pdu p) ?cap ?b = (?hd @ pl) # fragment_from ?hd (p_pdu p) ?cap e"
      using rh inv by (subst fragment_from.simps) (simp add: Let_def e_def pl_def)
    with rh have f: "f = ?hd @ pl" and fs: "fs = fragment_from ?hd (p_pdu p) ?cap e" by simp_all
    have len: "length pl = min (?n - ?b) ?cap" using rh eb inv by (auto simp: pl_def e_def)
    have bl: "length (r_buffer st @ pl) = e" using len inv by (auto simp: e_def)
    have buf: "r_buffer st @ pl = take e (p_pdu p)"
      using rh eb unfolding pl_def slice_def
      by (metis le_add_diff_inverse less_imp_le_nat take_add)
    show "f # fs \<noteq> [] \<and> ble_feeds st (f # fs) = (completes p (f # fs), ble_reset st)"
    proof (cases "e < ?n")
      case True
      let ?st = "st\<lparr>r_buffer := r_buffer st @ pl\<rparr>"
      have s: "ble_feed st (PyBytes f) = (Inr None, ?st)"
        by (intro step [THEN iffD2] exI [of _ pl]) (simp add: f len True bl del: length_append)
      have inv': "ble_inv ?st" "r_header ?st = Some h" "ble_reset ?st = ble_reset st"
        using ble_inv_partial [OF Cons.prems] True bl Cons.prems(2) by (simp_all add: ble_reset_def)
      have "take (length (r_buffer ?st)) (p_pdu p) = r_buffer ?st" using buf bl by simp
      with Cons.IH [OF inv'(1,2)] rh fs bl
      have "fs \<noteq> [] \<and> ble_feeds ?st fs = (completes p fs, ble_reset ?st)" by simp
      with s inv'(3) show ?thesis by (simp add: completes_Cons)
    next
      case False
      then have "e = ?n" using eb by simp
      have "r_buffer st @ pl = p_pdu p" using buf rh \<open>e = ?n\<close> by simp
      then have s: "ble_feed st (PyBytes f) = (Inr (Some p), ble_reset st)"
        using False bl rh by (intro step [THEN iffD2] exI [of _ pl]) (simp add: f len del: length_append)
      have "fs = []" using fs \<open>e = ?n\<close> rh by (subst (asm) fragment_from.simps) simp
      with s show ?thesis by simp
    qed
  qed
qed


lemma fragment_pdu_iff:
  assumes "ble_inv (idle m mx)"
  shows "fragment_pdu (PyBytes d) (PyInt (int m)) (PyInt (int sp)) (PyInt (int dp)) (PyBool sec)
            (PyInt (int mx)) = Inr fs \<longleftrightarrow>
    ports_ok sp dp \<and> d \<noteq> [] \<and> length d \<le> mx
    \<and> fs = (header_bytes True sp sec dp @ nat_be 4 (length d) @ take (min (length d) (m - 6)) d)
           # fragment_from (header_bytes False sp sec dp) d (m - 2) (min (length d) (m - 6))"
proof -
  have v: "validate_mtu (PyInt (int m)) = Inr m" "validate_max_pdu_size (PyInt (int mx)) = Inr mx"
    "mx < 256 ^ 4"
    using assms by (simp_all add: ble_inv_def validate_mtu_def validate_max_pdu_size_def)
  show ?thesis
  proof (cases "ports_ok sp dp \<and> d \<noteq> [] \<and> length d \<le> mx")
    case True
    then have "validate_port (PyInt (int sp)) True = Inr sp" "validate_port (PyInt (int dp)) False = Inr dp"
      "encode_header (PyBool b) (PyInt (int sp)) (PyBool sec) (PyInt (int dp)) = Inr (header_bytes b sp sec dp)"
      for b
      by (simp_all add: ports_ok_def validate_port_def encode_header_eq)
    moreover have "pack_be 4 (length d) = Inr (nat_be 4 (length d))" using True v(3) by (simp add: pack_be_def)
    ultimately show ?thesis
      using True v(1,2) by (auto simp: fragment_pdu_def Let_def)
  next
    case False
    then show ?thesis
      using v(1,2) by (auto simp: fragment_pdu_def result_simps validate_port_def ports_ok_def Let_def
          split: if_splits)
  qed
qed

lemma ble_feeds_idle:
  assumes "ble_inv (idle m mx)"
  shows "fs \<noteq> [] \<and> ble_feeds (idle m mx) fs = (completes p fs, idle m mx) \<longleftrightarrow>
    fragment_pdu (PyBytes (p_pdu p)) (PyInt (int m)) (PyInt (int (p_source p)))
      (PyInt (int (p_dest p))) (PyBool (p_secure p)) (PyInt (int mx)) = Inr fs"
    (is "?lhs \<longleftrightarrow> ?rhs")
proof -
  let ?sp = "p_source p" and ?dp = "p_dest p" and ?sec = "p_secure p" and ?d = "p_pdu p"
  let ?h = "\<lparr>h_start = True, h_source = ?sp, h_secure = ?sec, h_dest = ?dp\<rparr>"
  let ?k = "min (length ?d) (m - 6)"
  let ?f = "header_bytes True ?sp ?sec ?dp @ nat_be 4 (length ?d) @ take ?k ?d"
  have p: "p = pdu_of ?h ?d" by (simp add: pdu_of_def)
  have sizes: "7 \<le> m" "mx < 256 ^ 4" using assms by (simp_all add: ble_inv_def)
  show ?thesis
  proof
    assume ?lhs
    then obtain f rest where fs: "fs = f # rest" and run: "ble_feeds (idle m mx) (f # rest) = (completes p (f # rest), idle m mx)"
      by (cases fs) auto
    obtain r st' where r: "ble_feed (idle m mx) (PyBytes f) = (r, st')" by fastforce
    with run have "\<exists>x. r = Inr x" by (cases rest) (auto split: prod.splits)
    then obtain x where x: "ble_feed (idle m mx) (PyBytes f) = (Inr x, st')" using r by auto
    from ble_feed_idle [OF assms, THEN iffD1, OF x] obtain sp sec dp n payload where
      f: "f = header_bytes True sp sec dp @ nat_be 4 n @ payload" and ok: "ports_ok sp dp" "0 < n" "n \<le> mx"
        "length payload = min n (m - 6)"
      and res: "let h = \<lparr>h_start = True, h_source = sp, h_secure = sec, h_dest = dp\<rparr> in
          if length payload = n then x = Some (pdu_of h payload) \<and> st' = idle m mx
          else x = None \<and> st' = \<lparr>r_mtu = m, r_max = mx, r_header = Some h, r_expected = n,
                               r_buffer = payload\<rparr>" by blast
    let ?h' = "\<lparr>h_start = True, h_source = sp, h_secure = sec, h_dest = dp\<rparr>"
    show ?rhs
    proof (cases "rest = []")
      case True
      with run x have "x = Some p" by simp
      with res have pl: "p = pdu_of ?h' payload" "length payload = n" by (auto simp: Let_def split: if_splits)
      then have e: "?sp = sp" "?sec = sec" "?dp = dp" "?d = payload" by (simp_all add: pdu_of_def)
      have "fragment_from (header_bytes False sp sec dp) payload (m - 2) (length payload) = []"
        by (subst fragment_from.simps) simp
      with pl ok f e True fs show ?thesis
        unfolding fragment_pdu_iff [OF assms] e by (auto simp: min_def)
    next
      case False
      with run x have xn: "x = None" and rs: "ble_feeds st' rest = (completes p rest, idle m mx)"
        by (auto simp: completes_Cons split: prod.splits)
      with res have st': "st' = \<lparr>r_mtu = m, r_max = mx, r_header = Some ?h', r_expected = n, r_buffer = payload\<rparr>"
        and ne: "length payload \<noteq> n" by (auto simp: Let_def split: if_splits)
      have len: "length payload = m - 6" "m - 6 < n" using ne ok(4) by auto
      have inv': "ble_inv st'" "r_header st' = Some ?h'" "ble_reset st' = idle m mx"
        using assms ok len st' by (auto simp: ble_inv_def ble_reset_def)
      from ble_feeds_partial [OF inv'(1,2), of rest p] False rs inv'(3) st'
      have ih: "p = pdu_of ?h' ?d" "length ?d = n" "take (length payload) ?d = payload"
        "rest = fragment_from (header_bytes False sp sec dp) ?d (m - 2) (length payload)" by simp_all
      from ih(1) have e: "?sp = sp" "?sec = sec" "?dp = dp" by (metis pdu_of_def ble_pdu.select_convs ble_header.select_convs)+
      have "take (m - 6) ?d = payload" using ih(3) len(1) by simp
      then show ?thesis
        unfolding fragment_pdu_iff [OF assms] e
        using ih(2,4) ok f fs len by (auto simp: min_def)
    qed
  next
    assume ?rhs
    then have ok: "ports_ok ?sp ?dp" "?d \<noteq> []" "length ?d \<le> mx"
      and fs: "fs = ?f # fragment_from (header_bytes False ?sp ?sec ?dp) ?d (m - 2) ?k"
      by (simp_all add: fragment_pdu_iff [OF assms])
    show ?lhs
    proof (cases "length ?d \<le> m - 6")
      case True
      then have "fragment_from (header_bytes False ?sp ?sec ?dp) ?d (m - 2) ?k = []"
        by (subst fragment_from.simps) simp
      moreover have "ble_feed (idle m mx) (PyBytes ?f) = (Inr (Some p), idle m mx)"
        using ok True p by (intro ble_feed_idle [OF assms, THEN iffD2]
            exI [of _ ?sp] exI [of _ ?sec] exI [of _ ?dp] exI [of _ "length ?d"] exI [of _ ?d])
          (simp add: Let_def)
      ultimately show ?thesis using fs by simp
    next
      case False
      let ?st = "\<lparr>r_mtu = m, r_max = mx, r_header = Some ?h, r_expected = length ?d, r_buffer = take ?k ?d\<rparr>"
      have k: "?k = m - 6" "length (take ?k ?d) = m - 6" using False by simp_all
      have s: "ble_feed (idle m mx) (PyBytes ?f) = (Inr None, ?st)"
        using ok False k by (intro ble_feed_idle [OF assms, THEN iffD2]
            exI [of _ ?sp] exI [of _ ?sec] exI [of _ ?dp] exI [of _ "length ?d"] exI [of _ "take ?k ?d"])
          (simp add: Let_def)
      have inv': "ble_inv ?st" "r_header ?st = Some ?h" "ble_reset ?st = idle m mx"
        using assms ok False k by (auto simp: ble_inv_def ble_reset_def)
      define rest where "rest = fragment_from (header_bytes False ?sp ?sec ?dp) ?d (m - 2) ?k"
      have "rest \<noteq> [] \<and> ble_feeds ?st rest = (completes p rest, ble_reset ?st)"
        using ble_feeds_partial [OF inv'(1,2), of rest p] p k by (simp add: rest_def)
      then show ?thesis using s fs inv'(3) unfolding rest_def [symmetric] by (simp add: completes_Cons)
    qed
  qed
qed


section \<open>The invariant and the adaptive reassembler\<close>

lemma ble_inv_split:
  "ble_inv st \<Longrightarrow> st = idle (r_mtu st) (r_max st) \<or> (\<exists>h. r_header st = Some h)"
  by (cases "r_header st") (auto simp: ble_inv_def)

lemma ble_inv_reset: "ble_inv st \<Longrightarrow> ble_inv (ble_reset st)"
  by (simp add: ble_inv_def ble_reset_def)

lemma ble_feed_ok:
  assumes "ble_inv st" and "ble_feed st (PyBytes f) = (Inr r, st')"
  shows "ble_inv st'" and "r_mtu st' = r_mtu st" and "r_max st' = r_max st"
    and "r = None \<Longrightarrow> in_progress st'"
    and "r = Some p \<Longrightarrow> st' = ble_reset st \<and> length (p_pdu p) \<le> r_max st \<and> p_pdu p \<noteq> []"
    and "length f \<le> r_mtu st"
proof -
  show "length f \<le> r_mtu st"
    using assms(2) by (auto simp: ble_feed_cases ble_feed_step_def result_simps split: sum.splits if_splits)
  have "ble_inv st' \<and> r_mtu st' = r_mtu st \<and> r_max st' = r_max st \<and> (r = None \<longrightarrow> in_progress st')
    \<and> (r = Some p \<longrightarrow> st' = ble_reset st \<and> length (p_pdu p) \<le> r_max st \<and> p_pdu p \<noteq> [])"
  proof (cases "r_header st")
    case None
    then obtain m mx where idle: "st = idle m mx" using assms(1) ble_inv_split by fastforce
    then have inv: "ble_inv (idle m mx)" using assms(1) by simp
    have "ble_feed (idle m mx) (PyBytes f) = (Inr r, st')" using assms(2) idle by simp
    from ble_feed_idle [OF inv, THEN iffD1, OF this] inv idle show ?thesis
      by (auto simp: Let_def ble_inv_def in_progress_def pdu_of_def ble_reset_def split: if_splits)
  next
    case (Some h)
    from ble_feed_partial [OF assms(1) Some, THEN iffD1, OF assms(2)] obtain pl where
      pl: "length pl = min (r_expected st - length (r_buffer st)) (r_mtu st - 2)"
      and r: "if length (r_buffer st @ pl) < r_expected st
          then r = None \<and> st' = st\<lparr>r_buffer := r_buffer st @ pl\<rparr>
          else r = Some (pdu_of h (r_buffer st @ pl)) \<and> st' = ble_reset st" by blast
    have "length (r_buffer st @ pl) \<le> r_expected st" "r_expected st \<le> r_max st" "0 < r_expected st"
      using assms(1) Some pl by (auto simp: ble_inv_def)
    with r ble_inv_partial [OF assms(1) Some, of pl] ble_inv_reset [OF assms(1)] Some show ?thesis
      by (auto simp: in_progress_def pdu_of_def ble_reset_def split: if_splits)
  qed
  then show "ble_inv st'" "r_mtu st' = r_mtu st" "r_max st' = r_max st" "r = None \<Longrightarrow> in_progress st'"
    "r = Some p \<Longrightarrow> st' = ble_reset st \<and> length (p_pdu p) \<le> r_max st \<and> p_pdu p \<noteq> []" by blast+
qed

fun adaptive_feeds :: "adaptive \<Rightarrow> bytes list \<Rightarrow> ble_pdu option result list \<times> adaptive" where
  "adaptive_feeds st [] = ([], st)"
| "adaptive_feeds st (f # fs) =
     (case adaptive_feed st (PyBytes f) of
        (r, st') \<Rightarrow> (case adaptive_feeds st' fs of (rs, st'') \<Rightarrow> (r # rs, st'')))"

lemma adaptive_feed_active:
  assumes "ble_inv b" and "ble_feed b (PyBytes f) = (Inr r, b')"
  shows "adaptive_feed \<lparr>a_max = mx, a_inner = Some b\<rparr> (PyBytes f) =
           (Inr r, \<lparr>a_max = mx, a_inner = (if r = None then Some b' else None)\<rparr>)"
proof -
  have "length f \<le> BLE_MAX_MTU" using ble_feed_ok(6) [OF assms] assms(1) by (simp add: ble_inv_def)
  with assms(2) show ?thesis
    by (cases r) (simp_all add: adaptive_feed_def adaptive_inner_def adaptive_reset_def)
qed

lemma adaptive_feeds_active:
  "ble_inv b \<Longrightarrow> fs \<noteq> [] \<Longrightarrow> ble_feeds b fs = (completes p fs, b')
     \<Longrightarrow> adaptive_feeds \<lparr>a_max = mx, a_inner = Some b\<rparr> fs = (completes p fs, \<lparr>a_max = mx, a_inner = None\<rparr>)"
proof (induction fs arbitrary: b)
  case Nil
  then show ?case by simp
next
  case (Cons f fs)
  obtain r b1 where r: "ble_feed b (PyBytes f) = (r, b1)" by fastforce
  show ?case
  proof (cases "fs = []")
    case True
    with Cons.prems r have "ble_feed b (PyBytes f) = (Inr (Some p), b1)" by simp
    from adaptive_feed_active [OF Cons.prems(1) this] True show ?thesis by simp
  next
    case False
    with Cons.prems r have b1: "ble_feed b (PyBytes f) = (Inr None, b1)"
      "ble_feeds b1 fs = (completes p fs, b')"
      by (auto simp: completes_Cons split: prod.splits)
    from adaptive_feed_active [OF Cons.prems(1) b1(1)] Cons.IH [OF ble_feed_ok(1) [OF Cons.prems(1) b1(1)] False b1(2)]
    show ?thesis using False by (simp add: completes_Cons)
  qed
qed

text \<open>From idle, the frame size is that of the first frame.\<close>

lemma adaptive_feeds_idle:
  assumes "ble_inv (idle (length f) mx)" and "ble_feeds (idle (length f) mx) (f # fs) = (completes p (f # fs), b')"
  shows "adaptive_feeds \<lparr>a_max = mx, a_inner = None\<rparr> (f # fs)
           = (completes p (f # fs), \<lparr>a_max = mx, a_inner = None\<rparr>)"
proof -
  let ?b = "idle (length f) mx"
  obtain r b1 where r: "ble_feed ?b (PyBytes f) = (r, b1)" by fastforce
  with assms(2) have "\<exists>x. r = Inr x" by (cases fs) (auto split: prod.splits)
  then obtain x where x: "ble_feed ?b (PyBytes f) = (Inr x, b1)" using r by auto
  from ble_feed_idle [OF assms(1), THEN iffD1, OF x] obtain sp sec dp rest where
    f: "f = header_bytes True sp sec dp @ rest" "ports_ok sp dp" by auto
  have hdr: "header_of f = Inr \<lparr>h_start = True, h_source = sp, h_secure = sec, h_dest = dp\<rparr>"
    unfolding f(1) by (rule header_of_bytes [OF f(2)])
  have "length f \<le> BLE_MAX_MTU" using assms(1) by (simp add: ble_inv_def)
  moreover have "ble_new (PyInt (int (length f))) (PyInt (int mx)) = Inr ?b"
    using assms(1) by (simp add: ble_new_def validate_mtu_def validate_max_pdu_size_def ble_inv_def)
  ultimately have "adaptive_feed \<lparr>a_max = mx, a_inner = None\<rparr> (PyBytes f) =
      adaptive_feed \<lparr>a_max = mx, a_inner = Some ?b\<rparr> (PyBytes f)"
    using hdr x
    by (cases x) (simp_all add: adaptive_feed_def adaptive_inner_def decode_header_def adaptive_reset_def)
  then have "adaptive_feeds \<lparr>a_max = mx, a_inner = None\<rparr> (f # fs)
      = adaptive_feeds \<lparr>a_max = mx, a_inner = Some ?b\<rparr> (f # fs)" by simp
  with adaptive_feeds_active [OF assms(1) _ assms(2)] show ?thesis by simp
qed


section \<open>Properties\<close>

text \<open>C15.
  The BLE reassembler accepts exactly what the fragmenter sends: a sequence of frames is
  reassembled, with its last frame, to a PDU with its ports and secure flag, exactly when it is
  the fragmentation of that PDU under the same frame size and PDU bound. So fragmentation
  followed by reassembly is the identity, and no other frame sequence yields a PDU.
\<close>

theorem ble_reassembly_exact:
  assumes "ble_new mtu max_pdu_size = Inr st"
  shows "fs \<noteq> [] \<and> ble_feeds st fs = (completes p fs, st) \<longleftrightarrow>
    fragment_pdu (PyBytes (p_pdu p)) mtu (PyInt (int (p_source p))) (PyInt (int (p_dest p)))
      (PyBool (p_secure p)) max_pdu_size = Inr fs"
proof -
  from ble_new_idle [OF assms] obtain m mx where
    "mtu = PyInt (int m)" "max_pdu_size = PyInt (int mx)" "st = idle m mx" "ble_inv st" by blast
  with ble_feeds_idle [of m mx fs p] show ?thesis by simp
qed

theorem ble_reassembly_exact_witness:
  "ble_feeds \<lparr>r_mtu = 8, r_max = 100, r_header = None, r_expected = 0, r_buffer = []\<rparr>
      [[0x81, 0x85, 0, 0, 0, 3, 10, 20], [0x01, 0x85, 30]]
    = ([Inr None, Inr (Some \<lparr>p_pdu = [10, 20, 30], p_source = 1, p_dest = 5, p_secure = True\<rparr>)],
       \<lparr>r_mtu = 8, r_max = 100, r_header = None, r_expected = 0, r_buffer = []\<rparr>)"
proof -
  let ?p = "\<lparr>p_pdu = [10, 20, 30], p_source = 1, p_dest = 5, p_secure = True\<rparr>"
  have new: "ble_new (PyInt 8) (PyInt 100)
      = Inr \<lparr>r_mtu = 8, r_max = 100, r_header = None, r_expected = 0, r_buffer = []\<rparr>"
    by (simp add: ble_new_def validate_mtu_def validate_max_pdu_size_def)
  have "fragment_pdu (PyBytes [10, 20, 30]) (PyInt 8) (PyInt (int 1)) (PyInt (int 5)) (PyBool True)
      (PyInt 100) = Inr [[0x81, 0x85, 0, 0, 0, 3, 10, 20], [0x01, 0x85, 30]]"
    by (simp add: fragment_pdu_def validate_mtu_def validate_max_pdu_size_def validate_port_def
        encode_header_eq header_bytes_def pack_be_def nat_be_small mk_byte_eq_iff
        fragment_from.simps slice_def Let_def)
  with ble_reassembly_exact [OF new, of "[[0x81, 0x85, 0, 0, 0, 3, 10, 20], [0x01, 0x85, 30]]" ?p]
  show ?thesis by simp
qed

text \<open>The adaptive reassembler needs no negotiated frame size: whatever the frame size the peer
  fragmented with, feeding the frames yields the PDU with the last frame and leaves the
  reassembler idle.
\<close>

theorem adaptive_reassembles:
  assumes "adaptive_new max_pdu_size = Inr st"
    and "fragment_pdu (PyBytes (p_pdu p)) mtu (PyInt (int (p_source p))) (PyInt (int (p_dest p)))
      (PyBool (p_secure p)) max_pdu_size = Inr fs"
  shows "adaptive_feeds st fs = (completes p fs, st)"
proof -
  have "\<exists>b. ble_new mtu max_pdu_size = Inr b"
    using assms(2) by (auto simp: fragment_pdu_def ble_new_def result_simps)
  then obtain b where b: "ble_new mtu max_pdu_size = Inr b" by blast
  from ble_new_idle [OF b] obtain m mx where mtu: "mtu = PyInt (int m)" "max_pdu_size = PyInt (int mx)"
    and inv: "ble_inv (idle m mx)" by auto
  have st: "st = \<lparr>a_max = mx, a_inner = None\<rparr>"
    using assms(1) inv mtu(2) by (simp add: adaptive_new_def validate_max_pdu_size_def ble_inv_def)
  have fr: "fragment_pdu (PyBytes (p_pdu p)) (PyInt (int m)) (PyInt (int (p_source p)))
      (PyInt (int (p_dest p))) (PyBool (p_secure p)) (PyInt (int mx)) = Inr fs"
    using assms(2) mtu by simp
  let ?k = "min (length (p_pdu p)) (m - 6)"
  let ?m = "6 + ?k"
  from fr have f: "ports_ok (p_source p) (p_dest p)" "p_pdu p \<noteq> []" "length (p_pdu p) \<le> mx"
    "fs = (header_bytes True (p_source p) (p_secure p) (p_dest p) @ nat_be 4 (length (p_pdu p))
            @ take ?k (p_pdu p))
          # fragment_from (header_bytes False (p_source p) (p_secure p) (p_dest p)) (p_pdu p) (m - 2) ?k"
    by (simp_all add: fragment_pdu_iff [OF inv])
  have m: "7 \<le> m" "m \<le> 65535" using inv by (simp_all add: ble_inv_def)
  have "Suc 0 \<le> length (p_pdu p)" using f(2) by (simp add: Suc_le_eq)
  then have inv': "ble_inv (idle ?m mx)" using inv m by (auto simp: ble_inv_def)
  have "fragment_pdu (PyBytes (p_pdu p)) (PyInt (int ?m)) (PyInt (int (p_source p)))
      (PyInt (int (p_dest p))) (PyBool (p_secure p)) (PyInt (int mx)) = Inr fs"
  proof (cases "length (p_pdu p) \<le> m - 6")
    case True
    have "fragment_from h (p_pdu p) c (length (p_pdu p)) = []" for h c
      by (subst fragment_from.simps) simp
    with True f show ?thesis unfolding fragment_pdu_iff [OF inv'] by simp
  next
    case False
    then have "?m = m" using m by simp
    with fr show ?thesis by simp
  qed
  from ble_feeds_idle [OF inv', THEN iffD2, OF this]
  have run: "fs \<noteq> []" "ble_feeds (idle ?m mx) fs = (completes p fs, idle ?m mx)" by simp_all
  have "length (hd fs) = ?m" using f(4) by simp
  with adaptive_feeds_idle [of "hd fs" mx "tl fs" p "idle ?m mx"] run inv' st show ?thesis by simp
qed

theorem adaptive_reassembles_witness:
  "adaptive_feeds \<lparr>a_max = 100, a_inner = None\<rparr> [[0x81, 0x85, 0, 0, 0, 3, 10, 20], [0x01, 0x85, 30]]
    = ([Inr None, Inr (Some \<lparr>p_pdu = [10, 20, 30], p_source = 1, p_dest = 5, p_secure = True\<rparr>)],
       \<lparr>a_max = 100, a_inner = None\<rparr>)"
proof -
  let ?p = "\<lparr>p_pdu = [10, 20, 30], p_source = 1, p_dest = 5, p_secure = True\<rparr>"
  have new: "adaptive_new (PyInt 100) = Inr \<lparr>a_max = 100, a_inner = None\<rparr>"
    by (simp add: adaptive_new_def validate_max_pdu_size_def)
  have "fragment_pdu (PyBytes (p_pdu ?p)) (PyInt 8) (PyInt (int (p_source ?p))) (PyInt (int (p_dest ?p)))
      (PyBool (p_secure ?p)) (PyInt 100) = Inr [[0x81, 0x85, 0, 0, 0, 3, 10, 20], [0x01, 0x85, 30]]"
    by (simp add: fragment_pdu_def validate_mtu_def validate_max_pdu_size_def validate_port_def
        encode_header_eq header_bytes_def pack_be_def nat_be_small mk_byte_eq_iff
        fragment_from.simps slice_def Let_def)
  from adaptive_reassembles [OF new this] show ?thesis by simp
qed

text \<open>The reassembler fails closed. Whatever the peer sends, after every frame it is idle or holds a
  proper part of one PDU within the configured bound; a frame that raises (a malformed,
  misplaced or oversized frame, a start inside a PDU, a continuation with other metadata) leaves
  it idle with an empty buffer, and a delivered PDU is non-empty and within the bound.
\<close>

theorem ble_fails_closed:
  assumes "ble_inv st" and "ble_feed st frame = (r, st')"
  shows "ble_inv st' \<and> ble_buffered_bytes st' < r_max st
    \<and> (case r of
        Inl e \<Rightarrow> isinstance_of e BleOcfCodecError \<or> e = Py_TypeError
      | Inr None \<Rightarrow> in_progress st'
      | Inr (Some p) \<Rightarrow> p_pdu p \<noteq> [] \<and> length (p_pdu p) \<le> r_max st)
    \<and> ((\<forall>x. r = Inr x \<longrightarrow> x \<noteq> None) \<longrightarrow> st' = ble_reset st)"
proof -
  have bound: "ble_inv s \<Longrightarrow> ble_buffered_bytes s < r_max s" for s
    by (auto simp: ble_inv_def ble_buffered_bytes_def split: option.splits)
  have self: "isinstance_of BleOcfInterleavedFrameError BleOcfCodecError" by code_simp
  show ?thesis
  proof (cases r)
    case (Inl e)
    then have e: "ble_feed_step st frame = Inl e" "st' = ble_reset st"
      using assms(2) by (auto simp: ble_feed_cases split: sum.splits)
    have "ble_inv st'" "r_max st' = r_max st"
      using ble_inv_reset [OF assms(1)] e(2) by (simp_all add: ble_reset_def)
    with Inl e ble_step_error [OF e(1)] self bound [of st'] show ?thesis by auto
  next
    case (Inr x)
    then obtain f where f: "frame = PyBytes f"
      using assms(2) by (cases frame) (auto simp: ble_feed_cases ble_feed_step_def)
    note ok = ble_feed_ok [OF assms(1) assms(2) [unfolded f Inr]]
    with bound [of st'] Inr show ?thesis by (cases x) auto
  qed
qed

theorem ble_fails_closed_witness:
  "ble_buffered_bytes (snd (ble_feed
      \<lparr>r_mtu = 8, r_max = 100, r_header = Some \<lparr>h_start = True, h_source = 1, h_secure = True, h_dest = 5\<rparr>,
       r_expected = 3, r_buffer = [10, 20]\<rparr> (PyBytes [0x02, 0x85, 30]))) < 100"
proof -
  let ?st = "\<lparr>r_mtu = 8, r_max = 100, r_header = Some \<lparr>h_start = True, h_source = 1, h_secure = True, h_dest = 5\<rparr>,
       r_expected = 3, r_buffer = [10, 20]\<rparr>"
  have inv: "ble_inv ?st" by (simp add: ble_inv_def ports_ok_def)
  obtain r st' where r: "ble_feed ?st (PyBytes [0x02, 0x85, 30]) = (r, st')" by fastforce
  from ble_fails_closed [OF inv this] r show ?thesis by simp
qed

end
