(* ===== verification/Sha256.thy ===== *)
theory Sha256
  imports Prelude
begin

text \<open>
  What the program uses of Python's \<open>hashlib\<close> and \<open>hmac\<close>: SHA-256 (FIPS 180-4),
  HMAC-SHA-256 (RFC 2104) and the expansion both the TLS 1.2 PRF and the OwnerPSK derivation
  are built from. The definitions compute; the facts the rest of the development uses are the
  lengths.
\<close>

section \<open>SHA-256\<close>

type_synonym w32 = "32 word"

text \<open>
  The constants of the standard: the first 32 bits of the fractional parts of the cube roots of
  the first 64 primes (\<open>sha_k\<close>) and of the square roots of the first eight (\<open>sha_init\<close>).
  \<open>int_root\<close> is the integer part of a root, found bit by bit from \<open>2^b\<close> down.
\<close>

fun int_root :: "nat \<Rightarrow> nat \<Rightarrow> nat \<Rightarrow> nat \<Rightarrow> nat" where
  "int_root k n 0 r = r"
| "int_root k n (Suc b) r = int_root k n b (if (r + 2 ^ b) ^ k \<le> n then r + 2 ^ b else r)"

definition sha_primes :: "nat list" where
  "sha_primes = filter (\<lambda>p. list_all (\<lambda>d. p mod d \<noteq> 0) [2..<p]) [2..<312]"

definition sha_k :: "w32 list" where
  "sha_k = map (\<lambda>p. of_nat (int_root 3 (p * 2 ^ 96) 36 0)) sha_primes"

type_synonym sha_state = "w32 \<times> w32 \<times> w32 \<times> w32 \<times> w32 \<times> w32 \<times> w32 \<times> w32"

definition sha_init_word :: "nat \<Rightarrow> w32" where
  "sha_init_word p = of_nat (int_root 2 (p * 2 ^ 64) 36 0)"

definition sha_init :: sha_state where
  "sha_init = (sha_init_word 2, sha_init_word 3, sha_init_word 5, sha_init_word 7,
     sha_init_word 11, sha_init_word 13, sha_init_word 17, sha_init_word 19)"

definition sha_word :: "bytes \<Rightarrow> w32" where
  "sha_word bs = of_nat (be_nat bs)"

fun chunks_of :: "nat \<Rightarrow> nat \<Rightarrow> 'a list \<Rightarrow> 'a list list" where
  "chunks_of 0 k xs = []"
| "chunks_of (Suc n) k xs = take k xs # chunks_of n k (drop k xs)"

text \<open>One appended 1 bit, zeros up to 56 modulo 64, and the length in bits.\<close>

definition sha_pad :: "bytes \<Rightarrow> bytes" where
  "sha_pad m = m @ [0x80] @ replicate ((119 - length m mod 64) mod 64) 0 @ nat_be 8 (8 * length m)"

definition small_sigma0 :: "w32 \<Rightarrow> w32" where
  "small_sigma0 x = (word_rotr 7 x XOR word_rotr 18 x XOR drop_bit 3 x)"

definition small_sigma1 :: "w32 \<Rightarrow> w32" where
  "small_sigma1 x = (word_rotr 17 x XOR word_rotr 19 x XOR drop_bit 10 x)"

definition big_sigma0 :: "w32 \<Rightarrow> w32" where
  "big_sigma0 x = (word_rotr 2 x XOR word_rotr 13 x XOR word_rotr 22 x)"

definition big_sigma1 :: "w32 \<Rightarrow> w32" where
  "big_sigma1 x = (word_rotr 6 x XOR word_rotr 11 x XOR word_rotr 25 x)"

fun sha_expand :: "nat \<Rightarrow> w32 list \<Rightarrow> w32 list" where
  "sha_expand 0 ws = ws"
| "sha_expand (Suc n) ws =
     (let t = length ws
      in sha_expand n (ws @ [small_sigma1 (ws ! (t - 2)) + ws ! (t - 7)
                             + small_sigma0 (ws ! (t - 15)) + ws ! (t - 16)]))"

definition sha_round :: "sha_state \<Rightarrow> w32 \<times> w32 \<Rightarrow> sha_state" where
  "sha_round st kw =
     (case st of (a, b, c, d, e, f, g, h) \<Rightarrow>
        let t1 = h + big_sigma1 e + ((e AND f) XOR (NOT e AND g)) + fst kw + snd kw;
            t2 = big_sigma0 a + ((a AND b) XOR (a AND c) XOR (b AND c))
        in (t1 + t2, a, b, c, d + t1, e, f, g))"

definition sha_block :: "sha_state \<Rightarrow> bytes \<Rightarrow> sha_state" where
  "sha_block st block =
     (let ws = sha_expand 48 (map sha_word (chunks_of 16 4 block))
      in case (st, foldl sha_round st (zip sha_k ws)) of
           ((a, b, c, d, e, f, g, h), (a', b', c', d', e', f', g', h')) \<Rightarrow>
             (a + a', b + b', c + c', d + d', e + e', f + f', g + g', h + h'))"

definition sha256 :: "bytes \<Rightarrow> bytes" where
  "sha256 m =
     (let p = sha_pad m
      in case foldl sha_block sha_init (chunks_of (length p div 64) 64 p) of
           (a, b, c, d, e, f, g, h) \<Rightarrow>
             concat (map (\<lambda>w. nat_be 4 (unat w)) [a, b, c, d, e, f, g, h]))"

lemma length_sha256 [simp]: "length (sha256 m) = 32"
  by (simp add: sha256_def Let_def split: prod.splits)

section \<open>HMAC-SHA-256\<close>

definition hmac_key :: "bytes \<Rightarrow> bytes" where
  "hmac_key k = (let k' = if length k > 64 then sha256 k else k in k' @ replicate (64 - length k') 0)"

definition hmac_sha256 :: "bytes \<Rightarrow> bytes \<Rightarrow> bytes" where
  "hmac_sha256 k m =
     (let k' = hmac_key k
      in sha256 (map (\<lambda>b. b XOR 0x5C) k' @ sha256 (map (\<lambda>b. b XOR 0x36) k' @ m)))"

lemma length_hmac_sha256 [simp]: "length (hmac_sha256 k m) = 32"
  by (simp add: hmac_sha256_def Let_def)

section \<open>The P\_hash expansion\<close>

text \<open>
  The loop both derivations of the program write: while the output is short, append the HMAC of
  \<open>a + seed\<close> and chain \<open>a\<close>. Every round adds 32 bytes.
\<close>

function p_hash_loop :: "bytes \<Rightarrow> bytes \<Rightarrow> nat \<Rightarrow> bytes \<Rightarrow> bytes \<Rightarrow> bytes" where
  "p_hash_loop key seed n a out =
     (if length out < n then
        p_hash_loop key seed n (hmac_sha256 key a) (out @ hmac_sha256 key (a @ seed))
      else out)"
  by pat_completeness auto
termination
  by (relation "measure (\<lambda>(key, seed, n, a, out). n - length out)") auto

declare p_hash_loop.simps [simp del]

definition p_hash :: "bytes \<Rightarrow> bytes \<Rightarrow> nat \<Rightarrow> bytes" where
  "p_hash key seed n = take n (p_hash_loop key seed n (hmac_sha256 key seed) [])"

lemma length_p_hash_loop: "n \<le> length (p_hash_loop key seed n a out)"
  by (induction key seed n a out rule: p_hash_loop.induct)
    (subst p_hash_loop.simps, simp)

lemma length_p_hash [simp]: "length (p_hash key seed n) = n"
  using length_p_hash_loop by (simp add: p_hash_def min_absorb2)

text \<open>A longer expansion only extends a shorter one.\<close>

lemma p_hash_loop_out: "\<exists>more. p_hash_loop key seed n a out = out @ more"
proof (induction key seed n a out rule: p_hash_loop.induct)
  case (1 key seed n a out)
  show ?case
  proof (cases "length out < n")
    case True
    with 1 obtain mor where "p_hash_loop key seed n (hmac_sha256 key a) (out @ hmac_sha256 key (a @ seed))
        = (out @ hmac_sha256 key (a @ seed)) @ mor" by blast
    with True show ?thesis by (subst p_hash_loop.simps) simp
  next
    case False
    then show ?thesis by (subst p_hash_loop.simps) simp
  qed
qed

lemma p_hash_loop_longer:
  "n \<le> m \<Longrightarrow> \<exists>more. p_hash_loop key seed m a out = p_hash_loop key seed n a out @ more"
proof (induction key seed n a out rule: p_hash_loop.induct)
  case (1 key seed n a out)
  show ?case
  proof (cases "length out < n")
    case True
    with "1.prems" have "length out < m" by simp
    with True 1 show ?thesis by (simp add: p_hash_loop.simps [of key seed _ a out])
  next
    case False
    then have "p_hash_loop key seed n a out = out" by (simp add: p_hash_loop.simps)
    with p_hash_loop_out show ?thesis by simp
  qed
qed

lemma p_hash_prefix: "n \<le> m \<Longrightarrow> take n (p_hash key seed m) = p_hash key seed n"
proof -
  assume nm: "n \<le> m"
  from p_hash_loop_longer [OF nm] obtain mor where
    "p_hash_loop key seed m (hmac_sha256 key seed) [] = p_hash_loop key seed n (hmac_sha256 key seed) [] @ mor"
    by blast
  with nm length_p_hash_loop [of n key seed "hmac_sha256 key seed" "[]"] show ?thesis
    by (simp add: p_hash_def min_absorb1)
qed


text \<open>
  The closed form of RFC 5246, section 5: \<open>A(0)\<close> is the seed, \<open>A(i)\<close> the HMAC of
  \<open>A(i - 1)\<close>, and the expansion is the concatenation of the HMACs of \<open>A(i)\<close> and the seed.
\<close>

definition rfc_a :: "bytes \<Rightarrow> bytes \<Rightarrow> nat \<Rightarrow> bytes" where
  "rfc_a key seed i = (hmac_sha256 key ^^ i) seed"

definition rfc_p_hash :: "bytes \<Rightarrow> bytes \<Rightarrow> nat \<Rightarrow> bytes" where
  "rfc_p_hash key seed n =
     take n (concat (map (\<lambda>i. hmac_sha256 key (rfc_a key seed (Suc i) @ seed)) [0..<n]))"

lemma p_hash_loop_rfc:
  assumes "a = rfc_a key seed (Suc k)" and "length out = 32 * k"
  shows "\<exists>j. k \<le> j \<and> n \<le> 32 * j \<and> p_hash_loop key seed n a out =
           out @ concat (map (\<lambda>i. hmac_sha256 key (rfc_a key seed (Suc i) @ seed)) [k..<j])"
  using assms
proof (induction key seed n a out arbitrary: k rule: p_hash_loop.induct)
  case (1 key seed n a out)
  show ?case
  proof (cases "length out < n")
    case True
    have "hmac_sha256 key a = rfc_a key seed (Suc (Suc k))"
      "length (out @ hmac_sha256 key (a @ seed)) = 32 * Suc k"
      using "1.prems" by (simp_all add: rfc_a_def)
    from "1.IH" [OF True this] obtain j where j: "Suc k \<le> j" "n \<le> 32 * j"
      "p_hash_loop key seed n (hmac_sha256 key a) (out @ hmac_sha256 key (a @ seed)) =
         (out @ hmac_sha256 key (a @ seed)) @
           concat (map (\<lambda>i. hmac_sha256 key (rfc_a key seed (Suc i) @ seed)) [Suc k..<j])" by blast
    have "p_hash_loop key seed n a out =
        p_hash_loop key seed n (hmac_sha256 key a) (out @ hmac_sha256 key (a @ seed))"
      using True by (simp add: p_hash_loop.simps [of key seed n a out])
    with j "1.prems"(1) show ?thesis by (intro exI [of _ j]) (simp add: upt_conv_Cons)
  next
    case False
    then have "p_hash_loop key seed n a out = out" by (simp add: p_hash_loop.simps)
    with False "1.prems" show ?thesis by (intro exI [of _ k]) simp
  qed
qed

lemma length_concat_hmac:
  "length (concat (map (\<lambda>i. hmac_sha256 key (f i)) [0..<j])) = 32 * j"
  by (induction j) simp_all

lemma p_hash_rfc: "p_hash key seed n = rfc_p_hash key seed n"
proof -
  let ?h = "\<lambda>i. hmac_sha256 key (rfc_a key seed (Suc i) @ seed)"
  have "hmac_sha256 key seed = rfc_a key seed (Suc 0)" by (simp add: rfc_a_def)
  from p_hash_loop_rfc [OF this, of "[]" n] obtain j where j: "n \<le> 32 * j"
    "p_hash_loop key seed n (hmac_sha256 key seed) [] = concat (map ?h [0..<j])" by auto
  have "take n (concat (map ?h [0..<j])) = take n (concat (map ?h [0..<n]))"
  proof (cases "j \<le> n")
    case True
    then have "[0..<n] = [0..<j] @ [j..<n]" by (metis le0 le_add_diff_inverse upt_add_eq_append)
    then show ?thesis using j(1) length_concat_hmac [where j = j] by simp
  next
    case False
    then have "[0..<j] = [0..<n] @ [n..<j]" by (metis le0 le_add_diff_inverse nat_le_linear upt_add_eq_append)
    then show ?thesis using length_concat_hmac [where j = n] by simp
  qed
  with j(2) show ?thesis by (simp add: p_hash_def rfc_p_hash_def)
qed

end
