(* ===== verification/Owner_Psk.thy ===== *)
theory Owner_Psk
  imports Sha256
begin

text \<open>
  The OwnerPSK derivation of \<open>smartthings_local/protocol/owner_psk.py\<close>: the validation of the
  caller's values and the two-stage P\_hash. The module accepts \<open>bytes\<close> objects only, so a
  \<open>PyBytes\<close> stands for a \<open>bytes\<close> object here; a \<open>bytearray\<close> takes the \<open>TypeError\<close>
  branch like every other value.
\<close>

definition conf_label :: bytes where
  "conf_label = map of_char ''x.org.iotivity.conmfgcert''"

definition mfg_label :: bytes where
  "mfg_label = map of_char ''oic.sec.doxm.mfgcert''"

definition key_block_lengths :: "(pystr \<times> nat) list" where
  "key_block_lengths =
     [(str_of ''ECDHE-ECDSA-AES128-SHA256'', 96), (str_of ''ECDHE-ECDSA-AES128-CCM'', 40),
      (str_of ''ECDHE-ECDSA-AES128-CCM8'', 40), (str_of ''ECDHE-ECDSA-AES128-GCM-SHA256'', 120),
      (str_of ''AES256-SHA256'', 128), (str_of ''ECDHE-ECDSA-AES256-SHA384'', 160),
      (str_of ''ECDHE-ECDSA-AES256-GCM-SHA384'', 184), (str_of ''AES128-GCM-SHA256'', 120)]"

fun require_bytes :: "pyval \<Rightarrow> nat \<Rightarrow> bytes result" where
  "require_bytes (PyBytes b) n = (if length b \<noteq> n then Inl Py_ValueError else Inr b)"
| "require_bytes _ n = Inl Py_TypeError"

definition require_uuid :: "pyval \<Rightarrow> bytes result" where
  "require_uuid v =
     andThen (require_bytes v 16) (\<lambda>b.
       if list_ex (\<lambda>x. x \<noteq> 0) b then Inr b else Inl Py_ValueError)"

fun require_label :: "pyval \<Rightarrow> bytes result" where
  "require_label (PyBytes l) = (if l \<notin> {conf_label, mfg_label} then Inl Py_ValueError else Inr l)"
| "require_label _ = Inl Py_TypeError"

fun key_block_bytes :: "pyval \<Rightarrow> nat result" where
  "key_block_bytes (PyStr name) =
     (case map_of key_block_lengths name of None \<Rightarrow> Inl Py_ValueError | Some n \<Rightarrow> Inr n)"
| "key_block_bytes _ = Inl Py_TypeError"

definition tls12_p_hash_sha256 :: "bytes \<Rightarrow> bytes \<Rightarrow> bytes \<Rightarrow> bytes \<Rightarrow> nat \<Rightarrow> bytes" where
  "tls12_p_hash_sha256 key label random1 random2 n = p_hash key (label @ random1 @ random2) n"

definition derive_mfg_certificate_owner_psk ::
  "pyval \<Rightarrow> pyval \<Rightarrow> pyval \<Rightarrow> pyval \<Rightarrow> pyval \<Rightarrow> pyval \<Rightarrow> pyval \<Rightarrow> bytes result" where
  "derive_mfg_certificate_owner_psk master_secret client_random server_random owner_uuid device_uuid
       cipher_name oxm_label =
     andThen (key_block_bytes cipher_name) (\<lambda>n.
     andThen (require_bytes master_secret 48) (\<lambda>ms.
     andThen (require_bytes client_random 32) (\<lambda>cr.
     andThen (require_bytes server_random 32) (\<lambda>sr.
     andThen (require_uuid owner_uuid) (\<lambda>owner.
     andThen (require_uuid device_uuid) (\<lambda>device.
     andThen (require_label oxm_label) (\<lambda>label.
       Inr (tls12_p_hash_sha256
              (tls12_p_hash_sha256 ms (map of_char ''key expansion'') sr cr n)
              label owner device 16))))))))"

section \<open>Properties\<close>

text \<open>C27.
  A derivation that succeeds was given a listed cipher, secrets of the exact lengths, two UUIDs
  that are not nil and one of the two ownership labels; its result is the 16-byte key of the
  two nested expansions of RFC 5246, the inner one as long as the cipher's key block. Everything
  else raises \<open>TypeError\<close> or \<open>ValueError\<close>.
\<close>

theorem owner_psk_derivation:
  "case derive_mfg_certificate_owner_psk ms cr sr owner device cipher label of
     Inl e \<Rightarrow> e = Py_TypeError \<or> e = Py_ValueError
   | Inr psk \<Rightarrow>
       (\<exists>m c s own dev name l n.
          ms = PyBytes m \<and> length m = 48 \<and> cr = PyBytes c \<and> length c = 32
          \<and> sr = PyBytes s \<and> length s = 32
          \<and> owner = PyBytes own \<and> length own = 16 \<and> own \<noteq> replicate 16 0
          \<and> device = PyBytes dev \<and> length dev = 16 \<and> dev \<noteq> replicate 16 0
          \<and> cipher = PyStr name \<and> (name, n) \<in> set key_block_lengths
          \<and> label = PyBytes l \<and> l \<in> {conf_label, mfg_label}
          \<and> length psk = 16
          \<and> psk = rfc_p_hash (rfc_p_hash m (map of_char ''key expansion'' @ s @ c) n) (l @ own @ dev) 16)"
proof -
  have rb: "require_bytes v n = Inr b \<longleftrightarrow> v = PyBytes b \<and> length b = n" for v n b
    by (cases v) auto
  have re: "require_bytes v n = Inl e \<Longrightarrow> e = Py_TypeError \<or> e = Py_ValueError"
    "require_label v = Inl e \<Longrightarrow> e = Py_TypeError \<or> e = Py_ValueError"
    "key_block_bytes v = Inl e \<Longrightarrow> e = Py_TypeError \<or> e = Py_ValueError" for v n e
    by (cases v; auto split: if_splits option.splits)+
  have rl: "require_label v = Inr l \<longleftrightarrow> v = PyBytes l \<and> l \<in> {conf_label, mfg_label}" for v l
    by (cases v) auto
  have rk: "key_block_bytes v = Inr n \<longleftrightarrow> (\<exists>name. v = PyStr name \<and> map_of key_block_lengths name = Some n)" for v n
    by (cases v) (auto split: option.splits)
  have nz: "list_ex (\<lambda>x. x \<noteq> 0) b \<Longrightarrow> b \<noteq> replicate 16 0" for b :: bytes
    by (auto simp: list_ex_iff)
  show ?thesis
  proof (cases "derive_mfg_certificate_owner_psk ms cr sr owner device cipher label")
    case (Inl e)
    then show ?thesis
      by (auto simp: derive_mfg_certificate_owner_psk_def require_uuid_def result_simps dest: re
          split: if_splits)
  next
    case (Inr psk)
    then obtain n m c s own dev l where v: "key_block_bytes cipher = Inr n"
      "ms = PyBytes m" "length m = 48" "cr = PyBytes c" "length c = 32" "sr = PyBytes s" "length s = 32"
      "owner = PyBytes own" "length own = 16" "list_ex (\<lambda>x. x \<noteq> 0) own"
      "device = PyBytes dev" "length dev = 16" "list_ex (\<lambda>x. x \<noteq> 0) dev"
      "label = PyBytes l" "l \<in> {conf_label, mfg_label}"
      and psk: "psk = tls12_p_hash_sha256 (tls12_p_hash_sha256 m (map of_char ''key expansion'') s c n) l own dev 16"
      by (auto simp: derive_mfg_certificate_owner_psk_def require_uuid_def result_simps rb rl split: if_splits)
    from v(1) obtain name where name: "cipher = PyStr name" "(name, n) \<in> set key_block_lengths"
      by (auto simp: rk dest: map_of_SomeD)
    have "length psk = 16" "psk = rfc_p_hash (rfc_p_hash m (map of_char ''key expansion'' @ s @ c) n) (l @ own @ dev) 16"
      using psk by (simp_all add: tls12_p_hash_sha256_def p_hash_rfc [symmetric])
    with v name nz show ?thesis unfolding Inr by auto
  qed
qed

end
