(* ===== verification/Dtls_Record.thy ===== *)
theory Dtls_Record
  imports Sha256
begin

text \<open>
  The record layer of \<open>smartthings_local/protocol/_dtls_psk.py\<close>: the TLS 1.2 PRF, the
  anti-replay window and the MAC-then-encrypt transform. AES-CBC, the elliptic-curve
  operations, the system's random bytes and the monotonic clock come from outside the
  repository; they are the fields of the record \<open>crypto\<close>, an argument of every definition that
  uses them. A random draw, a new key or a clock reading is numbered, because each call may
  return something else.
\<close>

section \<open>What the engine gets from outside\<close>

record crypto =
  cbc_encrypt :: "bytes \<Rightarrow> bytes \<Rightarrow> bytes \<Rightarrow> bytes"
  cbc_decrypt :: "bytes \<Rightarrow> bytes \<Rightarrow> bytes \<Rightarrow> bytes"
  random_bytes :: "nat \<Rightarrow> nat \<Rightarrow> bytes"
  point_valid :: "bytes \<Rightarrow> bool"
  new_private :: "nat \<Rightarrow> bytes"
  public_point :: "bytes \<Rightarrow> bytes"
  ecdh :: "bytes \<Rightarrow> bytes \<Rightarrow> bytes"
  clock :: "nat \<Rightarrow> real"

text \<open>
  The documented behaviour of CBC on whole blocks: it keeps the length, and decryption under
  the same key and IV inverts encryption. And \<open>os.urandom(n)\<close> returns \<open>n\<close> bytes.
\<close>

definition cbc_ok :: "crypto \<Rightarrow> bool" where
  "cbc_ok c \<longleftrightarrow>
     (\<forall>k iv x. length iv = 16 \<and> length x mod 16 = 0 \<longrightarrow>
        length (cbc_encrypt c k iv x) = length x \<and> length (cbc_decrypt c k iv x) = length x
        \<and> cbc_decrypt c k iv (cbc_encrypt c k iv x) = x)"

definition random_ok :: "crypto \<Rightarrow> bool" where
  "random_ok c \<longleftrightarrow> (\<forall>k n. length (random_bytes c k n) = n)"

abbreviation (input) "MAC_LEN \<equiv> 32 :: nat"
abbreviation (input) "KEY_LEN \<equiv> 16 :: nat"
abbreviation (input) "BLOCK \<equiv> 16 :: nat"
abbreviation (input) "MAX_SEQ \<equiv> 281474976710655 :: nat"
abbreviation (input) "REPLAY_WINDOW \<equiv> 64 :: nat"
abbreviation (input) "MAX_PAD_SCAN \<equiv> 256 :: nat"

definition tls_prf :: "bytes \<Rightarrow> bytes \<Rightarrow> bytes \<Rightarrow> nat \<Rightarrow> bytes" where
  "tls_prf secret label seed n = p_hash secret (label @ seed) n"

section \<open>The anti-replay window\<close>

record replay_window =
  w_bitmap :: nat
  w_highest :: int

definition window_new :: replay_window where
  "window_new = \<lparr>w_bitmap = 0, w_highest = -1\<rparr>"

definition is_replay :: "replay_window \<Rightarrow> nat \<Rightarrow> bool" where
  "is_replay w seq =
     (if int seq > w_highest w then False
      else (let offset = nat (w_highest w - int seq)
            in offset \<ge> REPLAY_WINDOW \<or> w_bitmap w AND push_bit offset 1 \<noteq> 0))"

definition window_accept :: "replay_window \<Rightarrow> nat \<Rightarrow> replay_window" where
  "window_accept w seq =
     (if int seq > w_highest w then
        (let shift = min (nat (int seq - w_highest w)) REPLAY_WINDOW
         in w\<lparr>w_bitmap := (push_bit shift (w_bitmap w) OR 1) AND (push_bit REPLAY_WINDOW 1 - 1),
              w_highest := int seq\<rparr>)
      else
        (let offset = nat (w_highest w - int seq)
         in if offset < REPLAY_WINDOW then w\<lparr>w_bitmap := w_bitmap w OR push_bit offset 1\<rparr> else w))"

text \<open>The shift the comment of the source compares with: not clamped to the window.\<close>

definition window_accept_unclamped :: "replay_window \<Rightarrow> nat \<Rightarrow> replay_window" where
  "window_accept_unclamped w seq =
     (if int seq > w_highest w then
        w\<lparr>w_bitmap := (push_bit (nat (int seq - w_highest w)) (w_bitmap w) OR 1)
                        AND (push_bit REPLAY_WINDOW 1 - 1),
          w_highest := int seq\<rparr>
      else window_accept w seq)"

lemma bit_window_mask: "bit ((n::nat) AND (push_bit 64 1 - 1)) i \<longleftrightarrow> bit n i \<and> i < 64"
proof -
  have "n AND (2 ^ 64 - 1) = take_bit 64 n"
    using and_mask_nat [of n 64] by (simp only: take_bit_eq_mod)
  then show ?thesis by (simp add: push_bit_eq_mult bit_take_bit_iff conj_commute)
qed

lemma bit_test: "(n::nat) AND push_bit k 1 \<noteq> 0 \<longleftrightarrow> bit n k"
  using and_exp_eq_0_iff_not_bit [of n k] by (simp add: push_bit_eq_mult)

lemma bit_shifted: "bit (push_bit s (n::nat) OR 1) i \<longleftrightarrow> (s \<le> i \<and> bit n (i - s)) \<or> i = 0"
  by (auto simp: bit_or_iff bit_push_bit_iff bit_1_iff simp del: One_nat_def)

lemma window_accept_new:
  "int seq > w_highest w \<Longrightarrow> window_accept w seq =
     w\<lparr>w_bitmap := (push_bit (min (nat (int seq - w_highest w)) 64) (w_bitmap w) OR 1) AND (push_bit 64 1 - 1),
       w_highest := int seq\<rparr>"
  by (simp only: window_accept_def Let_def if_True)

text \<open>The window represents the set of accepted numbers.\<close>

definition represents :: "replay_window \<Rightarrow> nat set \<Rightarrow> bool" where
  "represents w S \<longleftrightarrow>
     (\<forall>q \<in> S. int q \<le> w_highest w)
     \<and> (if S = {} then w_highest w = -1 else (\<exists>q \<in> S. int q = w_highest w))
     \<and> (\<forall>i. bit (w_bitmap w) i \<longleftrightarrow> i < REPLAY_WINDOW \<and> (\<exists>q \<in> S. int q + int i = w_highest w))"

lemma represents_new: "represents window_new {}"
  by (simp add: represents_def window_new_def)

lemma represents_accept:
  assumes "represents w S"
  shows "represents (window_accept w seq) (insert seq S)"
proof (cases "int seq > w_highest w")
  case True
  let ?d = "nat (int seq - w_highest w)" and ?s = "min (nat (int seq - w_highest w)) 64"
  have bits: "bit (w_bitmap (window_accept w seq)) i \<longleftrightarrow>
      i < 64 \<and> (\<exists>q \<in> insert seq S. int q + int i = int seq)" for i
  proof -
    have "w_bitmap (window_accept w seq) = (push_bit ?s (w_bitmap w) OR 1) AND (push_bit 64 1 - 1)"
      by (simp add: window_accept_new [OF True])
    then have "bit (w_bitmap (window_accept w seq)) i \<longleftrightarrow>
        ((?s \<le> i \<and> bit (w_bitmap w) (i - ?s)) \<or> i = 0) \<and> i < 64"
      by (simp only: bit_window_mask bit_shifted)
    moreover have "?s \<le> i \<and> bit (w_bitmap w) (i - ?s) \<and> i < 64 \<longleftrightarrow>
        i < 64 \<and> (\<exists>q \<in> S. int q + int i = int seq)"
    proof
      assume l: "?s \<le> i \<and> bit (w_bitmap w) (i - ?s) \<and> i < 64"
      then have "?s = ?d" by auto
      with l assms obtain q where "q \<in> S" "int q + int (i - ?d) = w_highest w" "?d \<le> i"
        by (auto simp: represents_def)
      with l True show "i < 64 \<and> (\<exists>q \<in> S. int q + int i = int seq)"
        by (intro conjI bexI [of _ q]) (auto simp: of_nat_diff)
    next
      assume r: "i < 64 \<and> (\<exists>q \<in> S. int q + int i = int seq)"
      then obtain q where q: "q \<in> S" "int q + int i = int seq" by blast
      with assms have "int q \<le> w_highest w" by (auto simp: represents_def)
      with q True have d: "?d \<le> i" "int q + int (i - ?d) = w_highest w" by (auto simp: of_nat_diff)
      with r have "?s = ?d" by auto
      moreover have "bit (w_bitmap w) k \<longleftrightarrow> k < 64 \<and> (\<exists>q \<in> S. int q + int k = w_highest w)" for k
        using assms by (simp add: represents_def)
      moreover have "i - ?d < 64" using conjunct1 [OF r] by linarith
      ultimately have "bit (w_bitmap w) (i - ?d)" "?s = ?d" using q(1) d(2) by blast+
      then show "?s \<le> i \<and> bit (w_bitmap w) (i - ?s) \<and> i < 64" using d r by simp
    qed
    ultimately show ?thesis by auto
  qed
  have "w_highest (window_accept w seq) = int seq" using True by (simp add: window_accept_def Let_def)
  with bits assms True show ?thesis by (auto simp: represents_def)
next
  case False
  let ?o = "nat (w_highest w - int seq)"
  have h: "w_highest (window_accept w seq) = w_highest w"
    using False by (simp add: window_accept_def Let_def)
  have "S \<noteq> {}" using assms False by (auto simp: represents_def)
  moreover have "bit (w_bitmap (window_accept w seq)) i \<longleftrightarrow>
      i < 64 \<and> (\<exists>q \<in> insert seq S. int q + int i = w_highest w)" for i
  proof -
    have o: "nat (w_highest w - int seq) = i \<longleftrightarrow> int seq + int i = w_highest w" using False by auto
    have old: "bit (w_bitmap w) i \<longleftrightarrow> i < 64 \<and> (\<exists>q \<in> S. int q + int i = w_highest w)"
      using assms by (simp add: represents_def)
    have "bit (w_bitmap (window_accept w seq)) i \<longleftrightarrow>
        bit (w_bitmap w) i \<or> nat (w_highest w - int seq) < 64 \<and> nat (w_highest w - int seq) = i"
      using False by (auto simp: window_accept_def Let_def bit_or_iff bit_exp_iff)
    then show ?thesis unfolding old o by auto
  qed
  ultimately show ?thesis using assms h False by (auto simp: represents_def)
qed

lemma represents_accepts: "represents w S \<Longrightarrow> represents (foldl window_accept w seqs) (S \<union> set seqs)"
proof (induction seqs arbitrary: w S)
  case Nil
  then show ?case by simp
next
  case (Cons q seqs)
  from Cons.IH [OF represents_accept [OF Cons.prems]] show ?case by simp
qed

lemma is_replay_represents:
  assumes "represents w S"
  shows "is_replay w q \<longleftrightarrow> q \<in> S \<or> (\<exists>h \<in> S. q + REPLAY_WINDOW \<le> h)"
proof (cases "int q > w_highest w")
  case True
  with assms show ?thesis by (force simp: is_replay_def represents_def)
next
  case False
  then obtain h where h: "h \<in> S" "int h = w_highest w"
    using assms by (auto simp: represents_def split: if_splits)
  have qh: "q \<le> h" using False h(2) by simp
  have "nat (w_highest w - int q) = h - q" using h(2) by simp
  then have "is_replay w q \<longleftrightarrow> 64 \<le> h - q \<or> bit (w_bitmap w) (h - q)"
    using False by (simp only: is_replay_def Let_def if_False bit_test)
  moreover have "int x + int (h - q) = w_highest w \<longleftrightarrow> x = q" for x
    using h(2) qh by auto
  then have "bit (w_bitmap w) (h - q) \<longleftrightarrow> h - q < 64 \<and> q \<in> S"
    using assms by (simp add: represents_def)
  moreover have "\<forall>x \<in> S. x \<le> h" using assms h(2) by (auto simp: represents_def)
  ultimately show ?thesis using qh h(1) by force
qed


lemma window_accept_clamp: "represents w S \<Longrightarrow> window_accept_unclamped w seq = window_accept w seq"
proof (cases "int seq > w_highest w")
  case True
  assume rep: "represents w S"
  let ?d = "nat (int seq - w_highest w)"
  have "(push_bit ?d (w_bitmap w) OR 1) AND (push_bit 64 1 - 1)
      = (push_bit (min ?d 64) (w_bitmap w) OR 1) AND (push_bit 64 1 - 1)"
  proof (rule bit_eqI)
    fix n
    have "(?d \<le> n \<and> bit (w_bitmap w) (n - ?d)) \<and> n < 64 \<longleftrightarrow>
        (min ?d 64 \<le> n \<and> bit (w_bitmap w) (n - min ?d 64)) \<and> n < 64"
      by (cases "?d \<le> 64") (auto simp: min_def)
    then show "bit ((push_bit ?d (w_bitmap w) OR 1) AND (push_bit 64 1 - 1)) n
        = bit ((push_bit (min ?d 64) (w_bitmap w) OR 1) AND (push_bit 64 1 - 1)) n"
      unfolding bit_window_mask bit_shifted by blast
  qed
  then show ?thesis
    by (simp only: window_accept_unclamped_def True if_True window_accept_new [OF True])
next
  case False
  then show ?thesis by (simp add: window_accept_unclamped_def)
qed

section \<open>The record transform\<close>

record transform =
  k_mac_enc :: bytes
  k_mac_dec :: bytes
  k_enc :: bytes
  k_dec :: bytes

definition transform_of :: "bytes \<Rightarrow> transform" where
  "transform_of key_block =
     \<lparr>k_mac_enc = slice key_block 0 MAC_LEN,
      k_mac_dec = slice key_block MAC_LEN (MAC_LEN * 2),
      k_enc = slice key_block (MAC_LEN * 2) (MAC_LEN * 2 + KEY_LEN),
      k_dec = slice key_block (MAC_LEN * 2 + KEY_LEN) (MAC_LEN * 2 + KEY_LEN * 2)\<rparr>"

definition mac_input :: "nat \<Rightarrow> nat \<Rightarrow> nat \<Rightarrow> bytes \<Rightarrow> bytes result" where
  "mac_input epoch seq content_type payload =
     andThen (pack_be 2 epoch) (\<lambda>e.
     andThen (to_bytes 6 seq) (\<lambda>s.
     andThen (pack_be 1 content_type) (\<lambda>t.
     andThen (pack_be 2 (length payload)) (\<lambda>l.
       Inr (e @ s @ t @ [0xFE, 0xFD] @ l @ payload)))))"

text \<open>\<open>iv\<close> is the result of \<open>os.urandom(16)\<close>, drawn by the caller's numbering.\<close>

definition protect ::
  "crypto \<Rightarrow> transform \<Rightarrow> bytes \<Rightarrow> nat \<Rightarrow> nat \<Rightarrow> nat \<Rightarrow> bytes \<Rightarrow> bytes result" where
  "protect c t iv epoch seq content_type payload =
     andThen (mac_input epoch seq content_type payload) (\<lambda>m.
     let content = payload @ hmac_sha256 (k_mac_enc t) m;
         pad0 = BLOCK - (length content + 1) mod BLOCK;
         pad = (if pad0 = BLOCK then 0 else pad0);
         block = content @ replicate (pad + 1) (mk_byte pad)
     in Inr (iv @ cbc_encrypt c (k_enc t) iv block))"

text \<open>The padding scan: \<open>bad |= (byte ^ pad) & (-within)\<close> over the trailing bytes.\<close>

definition scan_padding :: "bytes \<Rightarrow> nat \<Rightarrow> int \<Rightarrow> int" where
  "scan_padding plain pad bad =
     foldl (\<lambda>acc index.
         acc OR ((int (unat (plain ! (length plain - 1 - index))) XOR int pad)
                   AND (- (if index \<le> pad then 1 else 0))))
       bad [0..<min (length plain) MAX_PAD_SCAN]"

text \<open>The comparison of the MAC, with the one failure flag the padding scan left.\<close>

definition open_record :: "transform \<Rightarrow> nat \<Rightarrow> nat \<Rightarrow> nat \<Rightarrow> bytes \<Rightarrow> nat \<Rightarrow> int \<Rightarrow> bytes option result" where
  "open_record t epoch seq content_type plain pad bad =
     (let content = take (length plain - pad - 1) plain;
          payload = take (length content - MAC_LEN) content;
          mac = drop (length content - MAC_LEN) content in
      andThen (mac_input epoch seq content_type payload) (\<lambda>m.
      let bad' = (if mac \<noteq> hmac_sha256 (k_mac_dec t) m then 1 else bad) in
      Inr (if bad' \<noteq> 0 then None else Some payload)))"

definition unprotect ::
  "crypto \<Rightarrow> transform \<Rightarrow> nat \<Rightarrow> nat \<Rightarrow> nat \<Rightarrow> bytes \<Rightarrow> bytes option result" where
  "unprotect c t epoch seq content_type fragment =
     (if length fragment < BLOCK * 2 \<or> (length fragment - BLOCK) mod BLOCK \<noteq> 0 then Inr None
      else
        let plain = cbc_decrypt c (k_dec t) (take BLOCK fragment) (drop BLOCK fragment) in
        andThen (item plain (length plain - 1)) (\<lambda>last_byte.
          if unat last_byte + 1 + MAC_LEN > length plain
          then open_record t epoch seq content_type plain 0 (scan_padding plain 0 1)
          else open_record t epoch seq content_type plain (unat last_byte)
                 (scan_padding plain (unat last_byte) 0)))"

lemma foldl_or_zero:
  "foldl (\<lambda>acc i. acc OR f i) b xs = (0::int) \<longleftrightarrow> b = 0 \<and> (\<forall>i \<in> set xs. f i = 0)"
  by (induction xs arbitrary: b) (auto simp: or_eq_0_iff)

lemma xor_zero: "(a::int) XOR b = 0 \<longleftrightarrow> a = b"
  by (auto simp: bit_eq_iff bit_xor_iff)

lemma byte_xor_zero: "int (unat (b::byte)) XOR int n = 0 \<longleftrightarrow> unat b = n"
  by (simp only: xor_zero of_nat_eq_iff)

lemma scan_padding_zero:
  "scan_padding plain pad bad = 0 \<longleftrightarrow>
     bad = 0 \<and> (\<forall>i. i < min (length plain) 256 \<and> i \<le> pad \<longrightarrow> unat (plain ! (length plain - 1 - i)) = pad)"
proof -
  have "(int (unat b) XOR int n) AND - (if c then 1 else 0) = 0 \<longleftrightarrow> (c \<longrightarrow> unat b = n)" for b :: byte and n c
    by (cases c) (simp_all add: byte_xor_zero del: of_nat_unat)
  then show ?thesis by (auto simp only: scan_padding_def foldl_or_zero set_upt atLeastLessThan_iff)
qed

lemma suffix_replicate:
  assumes "pad + 1 \<le> length xs" and "\<forall>i. i \<le> pad \<longrightarrow> xs ! (length xs - 1 - i) = v"
  shows "xs = take (length xs - pad - 1) xs @ replicate (pad + 1) v"
proof (rule nth_equalityI)
  show "length xs = length (take (length xs - pad - 1) xs @ replicate (pad + 1) v)"
    using assms(1) by simp
next
  fix k
  assume k: "k < length xs"
  show "xs ! k = (take (length xs - pad - 1) xs @ replicate (pad + 1) v) ! k"
  proof (cases "k < length xs - pad - 1")
    case True
    then show ?thesis by (simp add: nth_append)
  next
    case False
    with k assms(1) have "length xs - 1 - (length xs - 1 - k) = k" "length xs - 1 - k \<le> pad" by linarith+
    with assms(2) have "xs ! k = v" by metis
    moreover have "replicate (pad + 1) v ! (k - (length xs - pad - 1)) = v"
      using False k assms(1) by (intro nth_replicate) linarith
    ultimately show ?thesis using False by (simp add: nth_append)
  qed
qed

lemma open_record_iff:
  assumes "pad + 33 \<le> length plain"
  shows "open_record t epoch seq ct plain pad bad = Inr (Some p) \<longleftrightarrow>
    bad = 0 \<and> p = take (length plain - pad - 33) plain
    \<and> (\<exists>m. mac_input epoch seq ct p = Inr m
           \<and> slice plain (length plain - pad - 33) (length plain - pad - 1) = hmac_sha256 (k_mac_dec t) m)"
proof -
  define content where "content = take (length plain - pad - 1) plain"
  have len: "length content - 32 = length plain - pad - 33" using assms by (simp add: content_def)
  have pl: "take (length content - 32) content = take (length plain - pad - 33) plain"
    unfolding len unfolding content_def using assms by simp
  have mac: "drop (length content - 32) content = slice plain (length plain - pad - 33) (length plain - pad - 1)"
    unfolding len unfolding content_def slice_def by (simp add: drop_take)
  have "open_record t epoch seq ct plain pad bad =
      andThen (mac_input epoch seq ct (take (length plain - pad - 33) plain)) (\<lambda>m.
        Inr (if (if slice plain (length plain - pad - 33) (length plain - pad - 1)
                    \<noteq> hmac_sha256 (k_mac_dec t) m then 1 else bad) \<noteq> 0 then None
             else Some (take (length plain - pad - 33) plain)))"
    unfolding open_record_def content_def [symmetric] Let_def pl mac ..
  then show ?thesis
    by (cases "mac_input epoch seq ct (take (length plain - pad - 33) plain)") auto
qed

lemma open_record_bad: "bad \<noteq> 0 \<Longrightarrow> open_record t epoch seq ct plain pad bad \<noteq> Inr (Some p)"
  by (simp add: open_record_def result_simps Let_def)

definition well_sized :: "bytes \<Rightarrow> bool" where
  "well_sized fragment \<longleftrightarrow> 32 \<le> length fragment \<and> length fragment mod 16 = 0"

lemma well_sized_iff:
  "(length fragment < BLOCK * 2 \<or> (length fragment - BLOCK) mod BLOCK \<noteq> 0) \<longleftrightarrow> \<not> well_sized fragment"
proof (cases "length fragment < 32")
  case True
  then show ?thesis by (simp add: well_sized_def)
next
  case False
  then have "length fragment = 16 + (length fragment - 16)" by simp
  then have "length fragment mod 16 = (length fragment - 16) mod 16" by (metis mod_add_self1)
  with False show ?thesis by (simp add: well_sized_def)
qed

text \<open>A record authenticates exactly when its plaintext has this form.\<close>

lemma unprotect_iff:
  assumes "cbc_ok c"
  shows "unprotect c t epoch seq ct fragment = Inr (Some p) \<longleftrightarrow>
    well_sized fragment \<and>
    (\<exists>pad m. pad < 256 \<and> mac_input epoch seq ct p = Inr m
       \<and> cbc_decrypt c (k_dec t) (take 16 fragment) (drop 16 fragment)
           = p @ hmac_sha256 (k_mac_dec t) m @ replicate (pad + 1) (mk_byte pad))"
    (is "?lhs \<longleftrightarrow> _")
proof (cases "well_sized fragment")
  case False
  then show ?thesis by (simp only: unprotect_def well_sized_iff) simp
next
  case True
  define plain where "plain = cbc_decrypt c (k_dec t) (take 16 fragment) (drop 16 fragment)"
  have len: "length plain = length fragment - 16" "16 \<le> length plain"
    using assms True by (auto simp: cbc_ok_def plain_def well_sized_def mod_eq_0_iff_dvd dvd_diff_nat)
  let ?l = "unat (plain ! (length plain - 1))"
  have unfolded: "?lhs \<longleftrightarrow> ?l + 33 \<le> length plain
      \<and> (\<forall>i. i < min (length plain) 256 \<and> i \<le> ?l \<longrightarrow> unat (plain ! (length plain - 1 - i)) = ?l)
      \<and> p = take (length plain - ?l - 33) plain
      \<and> (\<exists>m. mac_input epoch seq ct p = Inr m
             \<and> slice plain (length plain - ?l - 33) (length plain - ?l - 1) = hmac_sha256 (k_mac_dec t) m)"
  proof -
    have it: "item plain (length plain - 1) = Inr (plain ! (length plain - 1))" using len by simp
    have u: "unprotect c t epoch seq ct fragment =
        (if ?l + 33 > length plain then open_record t epoch seq ct plain 0 (scan_padding plain 0 1)
         else open_record t epoch seq ct plain ?l (scan_padding plain ?l 0))"
      unfolding unprotect_def plain_def [symmetric] Let_def well_sized_iff it using True by simp
    show ?thesis
    proof (cases "?l + 33 \<le> length plain")
      case True
      with u open_record_iff [OF True] scan_padding_zero [of plain ?l 0] show ?thesis by auto
    next
      case False
      have "scan_padding plain 0 1 \<noteq> 0" unfolding scan_padding_zero by simp
      with False u open_record_bad show ?thesis by auto
    qed
  qed
  show ?thesis
  proof
    assume ?lhs
    with unfolded obtain m where l: "?l + 33 \<le> length plain"
      and scan: "\<forall>i. i < min (length plain) 256 \<and> i \<le> ?l \<longrightarrow> unat (plain ! (length plain - 1 - i)) = ?l"
      and p: "p = take (length plain - ?l - 33) plain" and m: "mac_input epoch seq ct p = Inr m"
      and mac: "slice plain (length plain - ?l - 33) (length plain - ?l - 1) = hmac_sha256 (k_mac_dec t) m"
      by blast
    have lt: "?l < 256" by (rule unat_byte_lt)
    have "\<forall>i. i \<le> ?l \<longrightarrow> plain ! (length plain - 1 - i) = mk_byte ?l"
    proof (intro allI impI)
      fix i assume "i \<le> ?l"
      then have "unat (plain ! (length plain - 1 - i)) = ?l" using scan l lt by auto
      then show "plain ! (length plain - 1 - i) = mk_byte ?l" by (metis mk_byte_unat)
    qed
    from suffix_replicate [OF _ this] l
    have "plain = take (length plain - ?l - 1) plain @ replicate (?l + 1) (mk_byte ?l)" by simp
    moreover have "take (length plain - ?l - 1) plain
        = p @ slice plain (length plain - ?l - 33) (length plain - ?l - 1)"
    proof -
      have "length plain - ?l - 1 = (length plain - ?l - 33) + 32" using l by simp
      then show ?thesis unfolding p slice_def by (metis add_diff_cancel_left' take_add)
    qed
    ultimately have "plain = p @ hmac_sha256 (k_mac_dec t) m @ replicate (?l + 1) (mk_byte ?l)"
      using mac by simp
    with True m lt show "well_sized fragment \<and> (\<exists>pad m. pad < 256 \<and> mac_input epoch seq ct p = Inr m
       \<and> cbc_decrypt c (k_dec t) (take 16 fragment) (drop 16 fragment)
           = p @ hmac_sha256 (k_mac_dec t) m @ replicate (pad + 1) (mk_byte pad))"
      unfolding plain_def [symmetric] by blast
  next
    assume "well_sized fragment \<and> (\<exists>pad m. pad < 256 \<and> mac_input epoch seq ct p = Inr m
       \<and> cbc_decrypt c (k_dec t) (take 16 fragment) (drop 16 fragment)
           = p @ hmac_sha256 (k_mac_dec t) m @ replicate (pad + 1) (mk_byte pad))"
    then obtain pad m where pad: "pad < 256" and m: "mac_input epoch seq ct p = Inr m"
      and plain: "plain = p @ hmac_sha256 (k_mac_dec t) m @ replicate (pad + 1) (mk_byte pad)"
      unfolding plain_def [symmetric] by blast
    have lp: "length plain = length p + 33 + pad" using plain by simp
    have nth: "plain ! (length plain - 1 - i) = mk_byte pad" if "i \<le> pad" for i
    proof -
      have "length plain - 1 - i = length (p @ hmac_sha256 (k_mac_dec t) m) + (pad - i)"
        using lp that by simp
      then have "plain ! (length plain - 1 - i) = replicate (pad + 1) (mk_byte pad) ! (pad - i)"
        unfolding plain append_assoc [symmetric] by (simp only: nth_append_length_plus)
      then show ?thesis by (simp add: nth_replicate del: replicate_Suc)
    qed
    have l: "?l = pad" using nth [of 0] pad by simp
    have k: "length plain - pad - 33 = length p" "length plain - pad - 1 = length p + 32" using lp by simp_all
    have "slice plain (length p) (length p + 32) = hmac_sha256 (k_mac_dec t) m"
      unfolding plain slice_def by simp
    moreover have "take (length p) plain = p" unfolding plain by simp
    moreover have "\<forall>i. i < min (length plain) 256 \<and> i \<le> pad \<longrightarrow> unat (plain ! (length plain - 1 - i)) = pad"
      using nth pad by simp
    moreover have "pad + 33 \<le> length plain" using lp by simp
    ultimately show ?lhs unfolding unfolded l k using m by auto
  qed
qed


lemma mac_input_total:
  "epoch < 65536 \<Longrightarrow> seq < 2 ^ 48 \<Longrightarrow> ct < 256 \<Longrightarrow> length p < 65536 \<Longrightarrow> \<exists>m. mac_input epoch seq ct p = Inr m"
  by (simp add: mac_input_def pack_be_def to_bytes_def)

text \<open>What is authenticated determines epoch, sequence number, type and payload.\<close>

lemma mac_input_inj:
  assumes "mac_input e s ct p = Inr m" and "mac_input e' s' ct' p' = Inr m"
  shows "e = e' \<and> s = s' \<and> ct = ct' \<and> p = p'"
proof -
  have m: "e < 256 ^ 2" "s < 256 ^ 6" "ct < 256 ^ 1" "length p < 256 ^ 2"
    "m = nat_be 2 e @ nat_be 6 s @ nat_be 1 ct @ [0xFE, 0xFD] @ nat_be 2 (length p) @ p"
    using assms(1) by (auto simp: mac_input_def result_simps simp del: nat_be.simps)
  have m': "e' < 256 ^ 2" "s' < 256 ^ 6" "ct' < 256 ^ 1" "length p' < 256 ^ 2"
    "m = nat_be 2 e' @ nat_be 6 s' @ nat_be 1 ct' @ [0xFE, 0xFD] @ nat_be 2 (length p') @ p'"
    using assms(2) by (auto simp: mac_input_def result_simps simp del: nat_be.simps)
  have "nat_be 2 e = nat_be 2 e' \<and> nat_be 6 s = nat_be 6 s' \<and> nat_be 1 ct = nat_be 1 ct' \<and> p = p'"
    using m(5) m'(5) by (simp del: nat_be.simps)
  then show ?thesis
    using m(1-3) m'(1-3) be_nat_nat_be_id [of e 2] be_nat_nat_be_id [of s 6] be_nat_nat_be_id [of ct 1]
      be_nat_nat_be_id [of e' 2] be_nat_nat_be_id [of s' 6] be_nat_nat_be_id [of ct' 1] by metis
qed

text \<open>The padding length completes the block.\<close>

lemma padding_length:
  fixes n :: nat
  defines "pad \<equiv> (if 16 - (n + 1) mod 16 = 16 then 0 else 16 - (n + 1) mod 16)"
  shows "pad < 16" and "(n + (pad + 1)) mod 16 = 0"
proof -
  let ?r = "(n + 1) mod 16"
  have r: "?r < 16" by simp
  show "pad < 16" using r by (simp add: pad_def)
  have "(n + 1 + pad) mod 16 = (?r + pad) mod 16" by (simp add: mod_add_left_eq)
  also have "\<dots> = 0"
  proof (cases "?r = 0")
    case True
    then show ?thesis by (simp add: pad_def)
  next
    case False
    then have "pad = 16 - ?r" using r by (simp add: pad_def)
    with r have "?r + pad = 16" by simp
    then show ?thesis by simp
  qed
  finally show "(n + (pad + 1)) mod 16 = 0" by (simp add: add.assoc add.commute [of pad])
qed

section \<open>Properties\<close>

text \<open>The anti-replay window is exact: after any sequence of accepted sequence numbers, in any order
  and with any gaps, a number is reported as a replay exactly when it was accepted before or
  lies 64 or more below the highest accepted one. And clamping the shift to the window width, as
  the code does to bound memory, never changes the state.
\<close>

theorem replay_window_exact:
  "(is_replay (foldl window_accept window_new seqs) q \<longleftrightarrow>
      q \<in> set seqs \<or> (\<exists>h. h \<in> set seqs \<and> q + REPLAY_WINDOW \<le> h))
   \<and> window_accept_unclamped (foldl window_accept window_new seqs) q
       = window_accept (foldl window_accept window_new seqs) q"
proof -
  have rep: "represents (foldl window_accept window_new seqs) (set seqs)"
    using represents_accepts [OF represents_new, of seqs] by simp
  show ?thesis
    using is_replay_represents [OF rep, of q] window_accept_clamp [OF rep, of q] by blast
qed

text \<open>C11.
  A record is accepted as authentic exactly when it is whole blocks and its decryption is the
  payload, the HMAC over epoch, sequence number, type, version, length and payload, and a
  complete padding of 1 to 256 equal bytes; the authenticated input determines epoch, sequence
  number, type and payload. The single failure flag of the code loses nothing.
\<close>

theorem record_authentic_iff:
  assumes "cbc_ok c"
  shows "(unprotect c t epoch seq ct fragment = Inr (Some p) \<longleftrightarrow>
    32 \<le> length fragment \<and> length fragment mod 16 = 0 \<and>
    (\<exists>pad m. pad < 256 \<and> mac_input epoch seq ct p = Inr m
       \<and> cbc_decrypt c (k_dec t) (take 16 fragment) (drop 16 fragment)
           = p @ hmac_sha256 (k_mac_dec t) m @ replicate (pad + 1) (mk_byte pad)))
    \<and> (mac_input epoch seq ct p = Inr m \<and> mac_input epoch' seq' ct' p' = Inr m
        \<longrightarrow> epoch' = epoch \<and> seq' = seq \<and> ct' = ct \<and> p' = p)"
proof (rule conjI)
  show "unprotect c t epoch seq ct fragment = Inr (Some p) \<longleftrightarrow>
    32 \<le> length fragment \<and> length fragment mod 16 = 0 \<and>
    (\<exists>pad m. pad < 256 \<and> mac_input epoch seq ct p = Inr m
       \<and> cbc_decrypt c (k_dec t) (take 16 fragment) (drop 16 fragment)
           = p @ hmac_sha256 (k_mac_dec t) m @ replicate (pad + 1) (mk_byte pad))"
    unfolding unprotect_iff [OF assms] well_sized_def conj_assoc ..
  show "mac_input epoch seq ct p = Inr m \<and> mac_input epoch' seq' ct' p' = Inr m
      \<longrightarrow> epoch' = epoch \<and> seq' = seq \<and> ct' = ct \<and> p' = p"
    using mac_input_inj [of epoch seq ct p m epoch' seq' ct' p'] by blast
qed

definition plain_crypto :: crypto where
  "plain_crypto =
     \<lparr>cbc_encrypt = (\<lambda>k iv x. map2 (XOR) x (concat (replicate (length x div 16) (take 16 (iv @ replicate 16 0))))),
      cbc_decrypt = (\<lambda>k iv x. map2 (XOR) x (concat (replicate (length x div 16) (take 16 (iv @ replicate 16 0))))),
      random_bytes = (\<lambda>k n. replicate n (mk_byte k)), point_valid = (\<lambda>p. length p = 65),
      new_private = (\<lambda>k. [mk_byte k]), public_point = (\<lambda>k. 4 # replicate 64 (hd k)),
      ecdh = (\<lambda>k p. take 32 p), clock = real\<rparr>"

lemma plain_crypto_ok: "cbc_ok plain_crypto" "random_ok plain_crypto"
proof -
  have xx: "map2 (XOR) (map2 (XOR) x y) y = x" if "length x = length y" for x y :: bytes
    using that by (induction x y rule: list_induct2) (simp_all add: xor.assoc)
  have lc: "length (concat (replicate n iv)) = 16 * n" if "length iv = 16" for n and iv :: bytes
    using that by (induction n) simp_all
  show "cbc_ok plain_crypto"
    unfolding cbc_ok_def
  proof (intro allI impI)
    fix k iv x :: bytes
    assume a: "length iv = 16 \<and> length x mod 16 = 0"
    then have "length x = length (concat (replicate (length x div 16) iv))"
      using lc [of iv "length x div 16"] by (simp add: mod_eq_0_iff_dvd)
    with a xx [OF this] show "length (cbc_encrypt plain_crypto k iv x) = length x
        \<and> length (cbc_decrypt plain_crypto k iv x) = length x
        \<and> cbc_decrypt plain_crypto k iv (cbc_encrypt plain_crypto k iv x) = x"
      by (simp add: plain_crypto_def)
  qed
  show "random_ok plain_crypto" by (simp add: random_ok_def plain_crypto_def)
qed

theorem record_authentic_iff_witness:
  "unprotect plain_crypto (transform_of (replicate 96 7)) 1 5 23 (replicate 48 9) = Inr (Some [1]) \<longleftrightarrow>
    (\<exists>pad m. pad < 256 \<and> mac_input 1 5 23 [1] = Inr m
       \<and> cbc_decrypt plain_crypto (replicate 16 7) (replicate 16 9) (replicate 32 9)
           = [1] @ hmac_sha256 (replicate 32 7) m @ replicate (pad + 1) (mk_byte pad))"
  using record_authentic_iff [OF plain_crypto_ok(1), of "transform_of (replicate 96 7)" 1 5 23 "replicate 48 9" "[1]"]
  by (simp add: transform_of_def slice_def)

text \<open>Protecting a payload and unprotecting the record with the peer's keys returns the payload, for
  every epoch, sequence number, type and IV for which the record can be written at all.
\<close>

theorem record_round_trip:
  assumes "cbc_ok c" and "length iv = 16"
    and "k_mac_dec peer = k_mac_enc t" and "k_dec peer = k_enc t"
    and "protect c t iv epoch seq ct payload = Inr fragment"
  shows "unprotect c peer epoch seq ct fragment = Inr (Some payload)"
proof -
  from assms(5) obtain m where m: "mac_input epoch seq ct payload = Inr m"
    by (auto simp: protect_def result_simps)
  define content where "content = payload @ hmac_sha256 (k_mac_enc t) m"
  define pad where "pad = (if 16 - (length content + 1) mod 16 = 16 then 0 else 16 - (length content + 1) mod 16)"
  define block where "block = content @ replicate (pad + 1) (mk_byte pad)"
  have fragment: "fragment = iv @ cbc_encrypt c (k_enc t) iv block"
    using assms(5) m unfolding protect_def Let_def block_def pad_def content_def by (simp only: andThen_simps sum.inject)
  have pad: "pad < 16" "length block mod 16 = 0"
    using padding_length [of "length content"] unfolding pad_def [symmetric] by (simp_all add: block_def)
  have "length block = length payload + 33 + pad" by (simp add: block_def content_def)
  then have long: "16 \<le> length block" by simp
  have enc: "length (cbc_encrypt c (k_enc t) iv block) = length block"
    "cbc_decrypt c (k_enc t) iv (cbc_encrypt c (k_enc t) iv block) = block"
    using assms(1,2) pad(2) by (simp_all add: cbc_ok_def)
  have sized: "well_sized fragment"
    using enc(1) assms(2) pad(2) long by (simp add: fragment well_sized_def mod_add_self1)
  have "cbc_decrypt c (k_dec peer) (take 16 fragment) (drop 16 fragment)
      = payload @ hmac_sha256 (k_mac_dec peer) m @ replicate (pad + 1) (mk_byte pad)"
    using enc(2) assms(2-4) by (simp add: fragment block_def content_def)
  with sized m pad(1) show ?thesis
    unfolding unprotect_iff [OF assms(1)] by (intro conjI exI [of _ pad] exI [of _ m]) simp_all
qed

theorem record_round_trip_witness:
  "\<exists>fragment. protect plain_crypto \<lparr>k_mac_enc = [1], k_mac_dec = [2], k_enc = [3], k_dec = [4]\<rparr>
       (replicate 16 9) 1 7 23 [5, 6] = Inr fragment
     \<and> unprotect plain_crypto \<lparr>k_mac_enc = [2], k_mac_dec = [1], k_enc = [4], k_dec = [3]\<rparr> 1 7 23 fragment
         = Inr (Some [5, 6])"
proof -
  let ?t = "\<lparr>k_mac_enc = [1], k_mac_dec = [2], k_enc = [3], k_dec = [4]\<rparr> :: transform"
  let ?p = "\<lparr>k_mac_enc = [2], k_mac_dec = [1], k_enc = [4], k_dec = [3]\<rparr> :: transform"
  obtain m where "mac_input 1 7 23 [5, 6] = Inr m" using mac_input_total [of 1 7 23 "[5, 6]"] by auto
  then obtain fragment where f: "protect plain_crypto ?t (replicate 16 9) 1 7 23 [5, 6] = Inr fragment"
    by (simp add: protect_def)
  with record_round_trip [OF plain_crypto_ok(1) _ _ _ f, of ?p] show ?thesis by simp
qed

end
