(* ===== verification/Dtls_Psk.thy ===== *)
theory Dtls_Psk
  imports Dtls_Record "HOL-Library.AList"
begin

text \<open>
  The DTLS 1.2 ECDHE-PSK client \<open>DtlsPskClient\<close> of \<open>smartthings_local/protocol/_dtls_psk.py\<close>: the
  memory BIO, the flights, the record and handshake input, reassembly and ordered delivery, the
  handshake states, application data and retransmission. An operation returns its result or
  exception with the state afterwards. The exceptions of pyOpenSSL the module aliases are
  \<open>DtlsError\<close>, \<open>WantRead\<close> and \<open>ZeroReturn\<close>. The dictionaries \<open>_pending\<close> and \<open>_ready\<close>, whose
  size matters, are association lists.
\<close>

section \<open>State\<close>

datatype dtls_phase =
    Start | Sent_hello | Sent_cookie_hello | Got_server_hello | Got_server_params
  | Sent_client_flight | Established

text \<open>The reasons \<open>_fail\<close> is called with.\<close>

datatype dtls_failure =
    Seq_exhausted | Outbox_overflow | Fatal_alert nat | Message_too_large | Too_many_ready
  | Too_many_pending | Too_many_cookies | Short_server_hello | Wrong_version
  | Malformed_server_hello | Wrong_suite nat | Compression_selected | Short_key_exchange
  | Malformed_key_exchange | Unnamed_curve | Wrong_curve nat | Malformed_point | Point_off_curve
  | Finished_mismatch

type_synonym partial_message = "nat \<times> bytes \<times> bool list"

record dtls =
  d_identity :: bytes
  d_psk :: bytes
  d_inbox :: "bytes list"
  d_outbox :: bytes
  d_appdata :: "bytes list"
  d_phase :: dtls_phase
  d_transcript :: bytes
  d_send_epoch :: nat
  d_send_seq :: nat
  d_next_msg_seq :: nat
  d_windows :: "nat \<Rightarrow> replay_window option"
  d_transform :: "transform option"
  d_read_active :: bool
  d_client_random :: bytes
  d_server_random :: bytes
  d_cookie :: bytes
  d_master_secret :: bytes
  d_private_key :: "bytes option"
  d_peer_point :: bytes
  d_pending :: "(nat \<times> partial_message) list"
  d_ready :: "(nat \<times> nat \<times> bytes) list"
  d_next_recv :: nat
  d_flight :: "bytes list"
  d_rto :: real
  d_deadline :: "real option"
  d_peer_closed :: bool
  d_cookie_count :: nat
  d_failed :: "dtls_failure option"
  d_calls :: nat

abbreviation (input) "VERSION \<equiv> [0xFE, 0xFD] :: bytes"
abbreviation (input) "CT_CHANGE_CIPHER_SPEC \<equiv> 20 :: nat"
abbreviation (input) "CT_ALERT \<equiv> 21 :: nat"
abbreviation (input) "CT_HANDSHAKE \<equiv> 22 :: nat"
abbreviation (input) "CT_APPLICATION_DATA \<equiv> 23 :: nat"
abbreviation (input) "HT_CLIENT_HELLO \<equiv> 1 :: nat"
abbreviation (input) "HT_SERVER_HELLO \<equiv> 2 :: nat"
abbreviation (input) "HT_HELLO_VERIFY_REQUEST \<equiv> 3 :: nat"
abbreviation (input) "HT_SERVER_KEY_EXCHANGE \<equiv> 12 :: nat"
abbreviation (input) "HT_SERVER_HELLO_DONE \<equiv> 14 :: nat"
abbreviation (input) "HT_CLIENT_KEY_EXCHANGE \<equiv> 16 :: nat"
abbreviation (input) "HT_FINISHED \<equiv> 20 :: nat"
abbreviation (input) "SUITE \<equiv> 49207 :: nat"
abbreviation (input) "NAMED_CURVE_SECP256R1 \<equiv> 23 :: nat"
abbreviation (input) "MAX_HANDSHAKE_MESSAGE \<equiv> 16384 :: nat"
abbreviation (input) "MAX_OUTBOX \<equiv> 262144 :: nat"
abbreviation (input) "MAX_PENDING_MESSAGES \<equiv> 16 :: nat"
abbreviation (input) "MAX_INBOX \<equiv> 64 :: nat"
abbreviation (input) "MAX_APPDATA \<equiv> 256 :: nat"
abbreviation (input) "MAX_HELLO_VERIFY \<equiv> 5 :: nat"
abbreviation (input) "VERIFY_DATA_LEN \<equiv> 12 :: nat"

definition dtls_new :: "pyval \<Rightarrow> pyval \<Rightarrow> pyval \<Rightarrow> dtls result" where
  "dtls_new identity key mtu =
     (case (identity, key) of
        (PyBytes i, PyBytes k) \<Rightarrow>
          andThen (raise_if (\<not> (1 \<le> length i \<and> length i \<le> 65535)) Py_ValueError) (\<lambda>_.
          andThen (raise_if (length k \<notin> {16, 32}) Py_ValueError) (\<lambda>_.
          case mtu of
            PyInt m \<Rightarrow>
              if 256 \<le> m \<and> m \<le> 65535 then
                Inr \<lparr>d_identity = i, d_psk = k, d_inbox = [], d_outbox = [], d_appdata = [],
                     d_phase = Start, d_transcript = [], d_send_epoch = 0, d_send_seq = 0,
                     d_next_msg_seq = 0, d_windows = Map.empty, d_transform = None,
                     d_read_active = False, d_client_random = [], d_server_random = [],
                     d_cookie = [], d_master_secret = [], d_private_key = None,
                     d_peer_point = [], d_pending = [], d_ready = [], d_next_recv = 0,
                     d_flight = [], d_rto = 1, d_deadline = None, d_peer_closed = False,
                     d_cookie_count = 0, d_failed = None, d_calls = 0\<rparr>
              else Inl Py_ValueError
          | _ \<Rightarrow> Inl Py_ValueError))
      | _ \<Rightarrow> Inl Py_TypeError)"

definition fail :: "dtls_failure \<Rightarrow> dtls \<Rightarrow> dtls" where
  "fail reason s = (if d_failed s = None then s\<lparr>d_failed := Some reason\<rparr> else s)"

text \<open>Draws from the world: every call takes the next number.\<close>

definition draw_random :: "crypto \<Rightarrow> nat \<Rightarrow> dtls \<Rightarrow> bytes result \<times> dtls" where
  "draw_random c n s = (Inr (random_bytes c (d_calls s) n), s\<lparr>d_calls := d_calls s + 1\<rparr>)"

definition read_clock :: "crypto \<Rightarrow> dtls \<Rightarrow> real result \<times> dtls" where
  "read_clock c s = (Inr (clock c (d_calls s)), s\<lparr>d_calls := d_calls s + 1\<rparr>)"

section \<open>The memory BIO\<close>

definition bio_write :: "bytes \<Rightarrow> dtls \<Rightarrow> nat result \<times> dtls" where
  "bio_write datagram s =
     (if length (d_inbox s) \<ge> MAX_INBOX then (Inr 0, s)
      else (Inr (length datagram), s\<lparr>d_inbox := d_inbox s @ [datagram]\<rparr>))"

definition bio_read :: "nat \<Rightarrow> dtls \<Rightarrow> bytes result \<times> dtls" where
  "bio_read capacity s =
     (if d_outbox s = [] then (Inl WantRead, s)
      else (Inr (take capacity (d_outbox s)), s\<lparr>d_outbox := drop capacity (d_outbox s)\<rparr>))"

section \<open>Output\<close>

text \<open>The fragment of a record: plain in epoch 0, protected with a fresh IV otherwise.\<close>

definition record_fragment :: "crypto \<Rightarrow> nat \<Rightarrow> bytes \<Rightarrow> dtls \<Rightarrow> bytes result \<times> dtls" where
  "record_fragment c content_type payload s =
     (case d_transform s of
        None \<Rightarrow> (Inr payload, s)
      | Some t \<Rightarrow>
          if d_send_epoch s > 0 then
            then_do (draw_random c BLOCK s) (\<lambda>iv s'.
              (protect c t iv (d_send_epoch s) (d_send_seq s) content_type payload, s'))
          else (Inr payload, s))"

definition record_bytes :: "nat \<Rightarrow> nat \<Rightarrow> nat \<Rightarrow> bytes \<Rightarrow> bytes result" where
  "record_bytes content_type epoch seq fragment =
     andThen (byte_of content_type) (\<lambda>t.
     andThen (pack_be 2 epoch) (\<lambda>e.
     andThen (to_bytes 6 seq) (\<lambda>q.
     andThen (pack_be 2 (length fragment)) (\<lambda>l.
       Inr ([t] @ VERSION @ e @ q @ l @ fragment)))))"

definition emit_record :: "crypto \<Rightarrow> nat \<Rightarrow> bytes \<Rightarrow> dtls \<Rightarrow> unit result \<times> dtls" where
  "emit_record c content_type payload s =
     (if d_send_seq s > MAX_SEQ then (Inl DtlsError, fail Seq_exhausted s)
      else
        then_do (record_fragment c content_type payload s) (\<lambda>fragment s1.
        then_do (record_bytes content_type (d_send_epoch s) (d_send_seq s) fragment, s1) (\<lambda>rec s1.
        let s2 = s1\<lparr>d_send_seq := d_send_seq s1 + 1\<rparr> in
        if length (d_outbox s2) + length rec > MAX_OUTBOX
        then (Inl DtlsError, fail Outbox_overflow s2)
        else
          let s3 = s2\<lparr>d_outbox := d_outbox s2 @ rec\<rparr> in
          if content_type = CT_HANDSHAKE \<or> content_type = CT_CHANGE_CIPHER_SPEC then
            then_do (read_clock c (s3\<lparr>d_flight := d_flight s3 @ [rec]\<rparr>)) (\<lambda>now s4.
              (Inr (), s4\<lparr>d_deadline := Some (now + d_rto s4)\<rparr>))
          else (Inr (), s3))))"

definition handshake_header :: "nat \<Rightarrow> nat \<Rightarrow> nat \<Rightarrow> bytes result" where
  "handshake_header msg_type len msg_seq =
     andThen (to_bytes 3 len) (\<lambda>l.
     andThen (pack_be 1 msg_type) (\<lambda>t.
     andThen (pack_be 2 msg_seq) (\<lambda>q.
       Inr (t @ l @ q @ [0, 0, 0] @ l))))"

definition emit_handshake :: "crypto \<Rightarrow> nat \<Rightarrow> bytes \<Rightarrow> bool \<Rightarrow> dtls \<Rightarrow> unit result \<times> dtls" where
  "emit_handshake c msg_type body transcript s =
     then_do (handshake_header msg_type (length body) (d_next_msg_seq s), s) (\<lambda>header s.
     let message = header @ body;
         s1 = s\<lparr>d_next_msg_seq := d_next_msg_seq s + 1\<rparr>;
         s2 = (if transcript then s1\<lparr>d_transcript := d_transcript s1 @ message\<rparr> else s1)
     in emit_record c CT_HANDSHAKE message s2)"

definition start_flight :: "dtls \<Rightarrow> dtls" where
  "start_flight s = s\<lparr>d_flight := [], d_rto := 1\<rparr>"

definition hello_extensions :: bytes where
  "hello_extensions = [0x00, 0x0A, 0, 4, 0, 2, 0x00, 0x17, 0x00, 0x0B, 0, 2, 1, 0]"

definition hello_body :: "bytes \<Rightarrow> bytes \<Rightarrow> bytes result" where
  "hello_body client_random cookie =
     andThen (byte_of (length cookie)) (\<lambda>n.
     andThen (pack_be 2 (length hello_extensions)) (\<lambda>l.
       Inr (VERSION @ client_random @ [0, n] @ cookie @ nat_be 2 2 @ nat_be 2 SUITE @ [1, 0]
            @ l @ hello_extensions)))"

definition send_client_hello :: "crypto \<Rightarrow> bytes \<Rightarrow> dtls \<Rightarrow> unit result \<times> dtls" where
  "send_client_hello c cookie s =
     then_do (if cookie = [] then
                then_do (draw_random c 32 s) (\<lambda>r s. (Inr (), s\<lparr>d_client_random := r\<rparr>))
              else (Inr (), s)) (\<lambda>_ s.
     then_do (hello_body (d_client_random s) cookie, s) (\<lambda>body s.
       emit_handshake c HT_CLIENT_HELLO body True (start_flight s)))"

definition client_key_exchange :: "bytes \<Rightarrow> bytes \<Rightarrow> bytes result" where
  "client_key_exchange identity public =
     andThen (pack_be 2 (length identity)) (\<lambda>l.
     andThen (byte_of (length public)) (\<lambda>p. Inr (l @ identity @ [p] @ public)))"

definition premaster :: "bytes \<Rightarrow> bytes \<Rightarrow> bytes result" where
  "premaster shared psk =
     andThen (pack_be 2 (length shared)) (\<lambda>l.
     andThen (pack_be 2 (length psk)) (\<lambda>k. Inr (l @ shared @ k @ psk)))"

definition master_of :: "bytes \<Rightarrow> bytes \<Rightarrow> bytes \<Rightarrow> bytes" where
  "master_of pre client_random server_random =
     tls_prf pre (map of_char ''master secret'') (client_random @ server_random) 48"

definition key_block_of :: "bytes \<Rightarrow> bytes \<Rightarrow> bytes \<Rightarrow> bytes" where
  "key_block_of master client_random server_random =
     tls_prf master (map of_char ''key expansion'') (server_random @ client_random) (MAC_LEN * 2 + KEY_LEN * 2)"

definition verify_data :: "string \<Rightarrow> bytes \<Rightarrow> bytes \<Rightarrow> bytes" where
  "verify_data label master transcript =
     tls_prf master (map of_char label) (sha256 transcript) VERIFY_DATA_LEN"

definition send_client_flight :: "crypto \<Rightarrow> dtls \<Rightarrow> unit result \<times> dtls" where
  "send_client_flight c s =
     (let s = start_flight s in
      case d_private_key s of
        None \<Rightarrow> (Inl Py_AttributeError, s)
      | Some key \<Rightarrow>
          then_do (client_key_exchange (d_identity s) (public_point c key), s) (\<lambda>cke s.
          then_do (emit_handshake c HT_CLIENT_KEY_EXCHANGE cke True s) (\<lambda>_ s.
          then_do (premaster (ecdh c key (d_peer_point s)) (d_psk s), s) (\<lambda>pre s.
          let master = master_of pre (d_client_random s) (d_server_random s);
              s = s\<lparr>d_master_secret := master\<rparr>;
              key_block = key_block_of master (d_client_random s) (d_server_random s) in
          then_do (emit_record c CT_CHANGE_CIPHER_SPEC [1] s) (\<lambda>_ s.
          let s = s\<lparr>d_transform := Some (transform_of key_block), d_send_epoch := 1,
                    d_send_seq := 0\<rparr> in
          emit_handshake c HT_FINISHED
            (verify_data ''client finished'' master (d_transcript s)) True s)))))"

section \<open>The handshake messages of the server\<close>

definition handle_hello_verify_request :: "crypto \<Rightarrow> bytes \<Rightarrow> nat \<Rightarrow> dtls \<Rightarrow> unit result \<times> dtls" where
  "handle_hello_verify_request c body msg_seq s =
     (if d_phase s \<noteq> Sent_hello \<and> d_phase s \<noteq> Sent_cookie_hello then (Inr (), s)
      else if length body < 3 then (Inr (), s)
      else
        let cookie_len = be_nat (slice body 2 3) in
        if 3 + cookie_len > length body then (Inr (), s)
        else
          let cookie = slice body 3 (3 + cookie_len);
              again = (d_phase s = Sent_cookie_hello);
              s1 = (if again then s\<lparr>d_cookie_count := d_cookie_count s + 1\<rparr> else s) in
          if again \<and> d_cookie_count s1 > MAX_HELLO_VERIFY then (Inr (), fail Too_many_cookies s1)
          else if again \<and> cookie = d_cookie s1 then (Inr (), s1)
          else
            then_do (send_client_hello c cookie
                       (s1\<lparr>d_cookie := cookie, d_transcript := [], d_next_recv := msg_seq + 1,
                           d_ready := []\<rparr>)) (\<lambda>_ s2.
              (Inr (), s2\<lparr>d_phase := Sent_cookie_hello\<rparr>)))"

definition handle_server_hello :: "bytes \<Rightarrow> dtls \<Rightarrow> dtls" where
  "handle_server_hello body s =
     (if d_phase s \<noteq> Sent_hello \<and> d_phase s \<noteq> Sent_cookie_hello then s
      else if length body < 35 then fail Short_server_hello s
      else if slice body 0 2 \<noteq> VERSION then fail Wrong_version s
      else
        let s1 = s\<lparr>d_server_random := slice body 2 34\<rparr>;
            offset = 35 + be_nat (slice body 34 35) in
        if offset + 3 > length body then fail Malformed_server_hello s1
        else
          let suite = be_nat (slice body offset (offset + 2)) in
          if suite \<noteq> SUITE then fail (Wrong_suite suite) s1
          else if be_nat (slice body (offset + 2) (offset + 3)) \<noteq> 0 then fail Compression_selected s1
          else s1\<lparr>d_phase := Got_server_hello\<rparr>)"

definition handle_server_key_exchange :: "crypto \<Rightarrow> bytes \<Rightarrow> dtls \<Rightarrow> dtls" where
  "handle_server_key_exchange c body s =
     (if d_phase s \<noteq> Got_server_hello then s
      else if length body < 2 then fail Short_key_exchange s
      else
        let offset = 2 + be_nat (slice body 0 2) in
        if offset + 4 > length body then fail Malformed_key_exchange s
        else if be_nat (slice body offset (offset + 1)) \<noteq> 3 then fail Unnamed_curve s
        else
          let curve = be_nat (slice body (offset + 1) (offset + 3)) in
          if curve \<noteq> NAMED_CURVE_SECP256R1 then fail (Wrong_curve curve) s
          else
            let point_len = be_nat (slice body (offset + 3) (offset + 4));
                point = slice body (offset + 4) (offset + 4 + point_len) in
            if length point \<noteq> point_len \<or> point_len = 0 then fail Malformed_point s
            else if \<not> point_valid c point then fail Point_off_curve s
            else s\<lparr>d_peer_point := point, d_private_key := Some (new_private c (d_calls s)),
                   d_calls := d_calls s + 1, d_phase := Got_server_params\<rparr>)"

definition handle_server_finished :: "bytes \<Rightarrow> dtls \<Rightarrow> dtls" where
  "handle_server_finished body s =
     (if \<not> d_read_active s \<or> d_phase s \<noteq> Sent_client_flight then s
      else if length body \<noteq> VERIFY_DATA_LEN
              \<or> body \<noteq> verify_data ''server finished'' (d_master_secret s) (d_transcript s)
        then fail Finished_mismatch s
      else s\<lparr>d_phase := Established, d_flight := [], d_deadline := None\<rparr>)"

text \<open>The unfragmented form of a message, as the transcript hashes it.\<close>

definition whole_message :: "nat \<Rightarrow> nat \<Rightarrow> bytes \<Rightarrow> bytes result" where
  "whole_message msg_type msg_seq body =
     andThen (byte_of msg_type) (\<lambda>t.
     andThen (to_bytes 3 (length body)) (\<lambda>l.
     andThen (pack_be 2 msg_seq) (\<lambda>q. Inr ([t] @ l @ q @ [0, 0, 0] @ l @ body))))"

definition deliver_handshake :: "crypto \<Rightarrow> nat \<Rightarrow> nat \<Rightarrow> bytes \<Rightarrow> dtls \<Rightarrow> unit result \<times> dtls" where
  "deliver_handshake c msg_type msg_seq body s0 =
     (let s = s0\<lparr>d_next_recv := msg_seq + 1\<rparr> in
      then_do (whole_message msg_type msg_seq body, s) (\<lambda>message s.
      let logged = s\<lparr>d_transcript := d_transcript s @ message\<rparr> in
      if msg_type = HT_SERVER_HELLO then (Inr (), handle_server_hello body logged)
      else if msg_type = HT_SERVER_KEY_EXCHANGE then (Inr (), handle_server_key_exchange c body logged)
      else if msg_type = HT_SERVER_HELLO_DONE then
        (if d_phase logged = Got_server_params
         then send_client_flight c (logged\<lparr>d_phase := Sent_client_flight\<rparr>)
         else (Inr (), logged))
      else if msg_type = HT_FINISHED then (Inr (), handle_server_finished body s)
      else (Inr (), s)))"


section \<open>What the output operations leave alone\<close>

definition input_side :: "dtls \<Rightarrow> _" where
  "input_side s =
     (d_inbox s, d_ready s, d_pending s, d_windows s, d_read_active s, d_appdata s,
      d_peer_closed s, d_next_recv s)"

lemma then_do_frame:
  "g (snd m) = v \<Longrightarrow> (\<And>x s. g (snd (f x s)) = g s) \<Longrightarrow> g (snd (then_do m f)) = v"
  by (cases m; cases "fst m") auto

named_theorems frame_rules \<open>what an operation of the engine leaves unchanged\<close>

lemma input_side_fail [simp]: "input_side (fail reason s) = input_side s"
  by (simp add: fail_def input_side_def)

lemma input_side_draw [simp]:
  "input_side (snd (draw_random c n s)) = input_side s"
  "input_side (snd (read_clock c s)) = input_side s"
  by (simp_all add: draw_random_def read_clock_def input_side_def)

lemma input_side_fragment [simp]: "input_side (snd (record_fragment c ct p s)) = input_side s"
  by (auto simp: record_fragment_def draw_random_def input_side_def split: option.splits)

lemma input_side_emit [simp]: "input_side (snd (emit_record c ct p s)) = input_side s"
proof -
  have "input_side (s\<lparr>d_send_seq := a, d_outbox := b, d_flight := f\<rparr>) = input_side s"
    "input_side (s\<lparr>d_deadline := d\<rparr>) = input_side s"
    "input_side (s\<lparr>d_send_seq := a, d_outbox := b\<rparr>) = input_side s"
    "input_side (s\<lparr>d_send_seq := a\<rparr>) = input_side s" for s a b d f
    by (simp_all add: input_side_def)
  then show ?thesis
    unfolding emit_record_def
    by (auto simp: Let_def intro!: then_do_frame [where g = input_side])
qed

lemma input_side_emit_handshake [simp]: "input_side (snd (emit_handshake c t b tr s)) = input_side s"
  unfolding emit_handshake_def
  by (rule then_do_frame [where g = input_side]) (simp_all add: Let_def, simp_all add: input_side_def)

lemma input_side_hello [simp]: "input_side (snd (send_client_hello c cookie s)) = input_side s"
proof -
  have "input_side (s\<lparr>d_client_random := r\<rparr>) = input_side s" "input_side (start_flight s) = input_side s" for s r
    by (simp_all add: input_side_def start_flight_def)
  then show ?thesis
    unfolding send_client_hello_def
    by (auto intro!: then_do_frame [where g = input_side])
qed

lemma input_side_flight [simp]: "input_side (snd (send_client_flight c s)) = input_side s"
proof -
  have "input_side (s\<lparr>d_master_secret := r\<rparr>) = input_side s" "input_side (start_flight s) = input_side s"
    "input_side (s\<lparr>d_transform := t, d_send_epoch := e, d_send_seq := q\<rparr>) = input_side s" for s r t e q
    by (simp_all add: input_side_def start_flight_def)
  then show ?thesis
    unfolding send_client_flight_def Let_def
    by (auto split: option.split intro!: then_do_frame [where g = input_side])
qed

lemma input_side_handlers:
  "d_ready (snd (deliver_handshake c t q b s)) = d_ready s"
  "d_inbox (snd (deliver_handshake c t q b s)) = d_inbox s"
  "d_pending (snd (deliver_handshake c t q b s)) = d_pending s"
  "d_windows (snd (deliver_handshake c t q b s)) = d_windows s"
  "d_read_active (snd (deliver_handshake c t q b s)) = d_read_active s"
  "d_appdata (snd (deliver_handshake c t q b s)) = d_appdata s"
  "d_peer_closed (snd (deliver_handshake c t q b s)) = d_peer_closed s"
proof -
  define g where "g s = (d_inbox s, d_ready s, d_pending s, d_windows s, d_read_active s, d_appdata s, d_peer_closed s)" for s :: dtls
  have g: "g s = g s'" if "input_side s = input_side s'" for s s'
    using that by (simp add: g_def input_side_def)
  have upd: "g (s\<lparr>d_next_recv := n\<rparr>) = g s" "g (s\<lparr>d_transcript := tr\<rparr>) = g s" "g (s\<lparr>d_phase := ph\<rparr>) = g s" for s n tr ph
    by (simp_all add: g_def)
  have hs: "g (handle_server_hello b s) = g s" "g (handle_server_key_exchange c b s) = g s"
    "g (handle_server_finished b s) = g s" for b s
    by (simp_all add: g_def handle_server_hello_def handle_server_key_exchange_def
        handle_server_finished_def fail_def Let_def)
  have fl: "g (snd (send_client_flight c s)) = g s" for s by (rule g) simp
  have "g (snd (deliver_handshake c t q b s)) = g s"
    unfolding deliver_handshake_def Let_def
    by (rule then_do_frame [where g = g]) (auto simp: upd hs fl)
  then show "d_ready (snd (deliver_handshake c t q b s)) = d_ready s"
    "d_inbox (snd (deliver_handshake c t q b s)) = d_inbox s"
    "d_pending (snd (deliver_handshake c t q b s)) = d_pending s"
    "d_windows (snd (deliver_handshake c t q b s)) = d_windows s"
    "d_read_active (snd (deliver_handshake c t q b s)) = d_read_active s"
    "d_appdata (snd (deliver_handshake c t q b s)) = d_appdata s"
    "d_peer_closed (snd (deliver_handshake c t q b s)) = d_peer_closed s"
    by (simp_all add: g_def)
qed

section \<open>Reassembly and ordered delivery\<close>

lemma length_delete_less: "map_of xs k = Some v \<Longrightarrow> length (AList.delete k xs) < length xs"
  by (induction xs) (auto simp: AList.delete_eq le_imp_less_Suc split: if_splits)

text \<open>The loop of \<open>_deliver_ready\<close>: every round takes one message out of \<open>_ready\<close>.\<close>

function deliver_ready :: "crypto \<Rightarrow> dtls \<Rightarrow> unit result \<times> dtls" where
  "deliver_ready c s =
     (case map_of (d_ready s) (d_next_recv s) of
        None \<Rightarrow> (Inr (), s)
      | Some (msg_type, body) \<Rightarrow>
          let msg_seq = d_next_recv s in
          then_do (deliver_handshake c msg_type msg_seq body
                     (s\<lparr>d_ready := AList.delete msg_seq (d_ready s)\<rparr>)) (\<lambda>_ s'.
            if d_failed s' \<noteq> None then (Inr (), s') else deliver_ready c s'))"
  by pat_completeness auto
termination
proof (relation "measure (\<lambda>(c, s). length (d_ready s))")
  fix c s x2 a b x xa s'
  assume "map_of (d_ready s) (d_next_recv s) = Some x2" "(a, b) = x2" "x = d_next_recv s"
    and d: "deliver_handshake c a x b (s\<lparr>d_ready := AList.delete x (d_ready s)\<rparr>) = (Inr xa, s')"
  then have "length (AList.delete x (d_ready s)) < length (d_ready s)" using length_delete_less by simp
  moreover have "d_ready s' = AList.delete x (d_ready s)"
    using input_side_handlers(1) [of c a x b "s\<lparr>d_ready := AList.delete x (d_ready s)\<rparr>"] d by simp
  ultimately show "((c, s'), c, s) \<in> measure (\<lambda>(c, s). length (d_ready s))" by simp
qed simp

declare deliver_ready.simps [simp del]

definition overwrite :: "'a list \<Rightarrow> nat \<Rightarrow> 'a list \<Rightarrow> 'a list" where
  "overwrite xs i ys = take i xs @ ys @ drop (i + length ys) xs"

definition reassemble :: "nat \<Rightarrow> nat \<Rightarrow> nat \<Rightarrow> bytes \<Rightarrow> dtls \<Rightarrow> bytes option \<times> dtls" where
  "reassemble msg_seq len frag_off body s =
     (if frag_off = 0 \<and> length body = len then (Some body, s)
      else
        let old = map_of (d_pending s) msg_seq;
            fresh = (case old of None \<Rightarrow> True | Some (l, _, _) \<Rightarrow> l \<noteq> len) in
        if fresh \<and> old = None \<and> length (d_pending s) \<ge> MAX_PENDING_MESSAGES
        then (None, fail Too_many_pending s)
        else
          let (_, buffer, seen) =
                (if fresh then (len, replicate len 0, replicate len False) else the old);
              buffer = overwrite buffer frag_off body;
              seen = overwrite seen frag_off (replicate (length body) True) in
          if list_all id seen
          then (Some buffer, s\<lparr>d_pending := AList.delete msg_seq (d_pending s)\<rparr>)
          else (None, s\<lparr>d_pending := AList.update msg_seq (len, buffer, seen) (d_pending s)\<rparr>))"

text \<open>The walk over the messages of one handshake record, from \<open>offset\<close>.\<close>

function handshake_loop :: "crypto \<Rightarrow> bytes \<Rightarrow> bool \<Rightarrow> nat \<Rightarrow> dtls \<Rightarrow> unit result \<times> dtls" where
  "handshake_loop c payload hello_verify_only offset s =
     (if offset + 12 \<le> length payload then
        let msg_type = be_nat (slice payload offset (offset + 1)) in
        if hello_verify_only \<and> msg_type \<noteq> HT_HELLO_VERIFY_REQUEST then (Inr (), s)
        else
          let len = be_nat (slice payload (offset + 1) (offset + 4));
              msg_seq = be_nat (slice payload (offset + 4) (offset + 6));
              frag_off = be_nat (slice payload (offset + 6) (offset + 9));
              frag_len = be_nat (slice payload (offset + 9) (offset + 12));
              body_start = offset + 12 in
          if body_start + frag_len > length payload \<or> frag_off + frag_len > len then (Inr (), s)
          else if len > MAX_HANDSHAKE_MESSAGE then (Inr (), fail Message_too_large s)
          else
            let body = slice payload body_start (body_start + frag_len);
                next_off = body_start + frag_len in
            if msg_type = HT_HELLO_VERIFY_REQUEST \<and> frag_off = 0 then
              then_do (handle_hello_verify_request c body msg_seq s) (\<lambda>_ s.
                handshake_loop c payload hello_verify_only next_off s)
            else if msg_seq < d_next_recv s then
              handshake_loop c payload hello_verify_only next_off s
            else
              (case reassemble msg_seq len frag_off body s of
                 (None, s) \<Rightarrow>
                   if d_failed s \<noteq> None then (Inr (), s)
                   else handshake_loop c payload hello_verify_only next_off s
               | (Some whole, s) \<Rightarrow>
                   if length (d_ready s) \<ge> MAX_PENDING_MESSAGES then (Inr (), fail Too_many_ready s)
                   else
                     then_do (deliver_ready c
                       (s\<lparr>d_ready := AList.update msg_seq (msg_type, whole) (d_ready s)\<rparr>)) (\<lambda>_ s.
                     if d_failed s \<noteq> None then (Inr (), s)
                     else handshake_loop c payload hello_verify_only next_off s))
      else (Inr (), s))"
  by pat_completeness auto
termination
  by (relation "measure (\<lambda>(c, payload, hvo, offset, s). length payload - offset)") auto

declare handshake_loop.simps [simp del]

definition handle_handshake_fragment ::
  "crypto \<Rightarrow> bytes \<Rightarrow> bool \<Rightarrow> bool \<Rightarrow> dtls \<Rightarrow> unit result \<times> dtls" where
  "handle_handshake_fragment c payload authenticated hello_verify_only s =
     (if d_phase s = Established \<and> authenticated then (Inr (), s)
      else handshake_loop c payload hello_verify_only 0 s)"

section \<open>Records\<close>

definition handle_alert :: "bytes \<Rightarrow> bool \<Rightarrow> dtls \<Rightarrow> dtls" where
  "handle_alert payload authenticated s =
     (if length payload < 2 then s
      else
        let level = be_nat (slice payload 0 1); description = be_nat (slice payload 1 2) in
        if description = 0 then (if authenticated then s\<lparr>d_peer_closed := True\<rparr> else s)
        else if level = 2 then fail (Fatal_alert description) s
        else s)"

definition push_appdata :: "bytes \<Rightarrow> dtls \<Rightarrow> dtls" where
  "push_appdata payload s =
     (if payload = [] then s
      else s\<lparr>d_appdata := (if length (d_appdata s) \<ge> MAX_APPDATA then tl (d_appdata s)
                           else d_appdata s) @ [payload]\<rparr>)"

text \<open>The dispatch on the content type of a record that was accepted.\<close>

definition dispatch_record ::
  "crypto \<Rightarrow> nat \<Rightarrow> bytes \<Rightarrow> bool \<Rightarrow> bool \<Rightarrow> dtls \<Rightarrow> unit result \<times> dtls" where
  "dispatch_record c content_type payload authenticated hello_verify_only s =
     (if content_type = CT_HANDSHAKE then
        handle_handshake_fragment c payload authenticated hello_verify_only s
      else if content_type = CT_CHANGE_CIPHER_SPEC then
        (if payload = [1] \<and> d_phase s = Sent_client_flight
         then (Inr (), s\<lparr>d_read_active := True, d_windows := (d_windows s)(1 := None)\<rparr>)
         else (Inr (), s))
      else if content_type = CT_ALERT then (Inr (), handle_alert payload authenticated s)
      else if content_type = CT_APPLICATION_DATA \<and> authenticated then
        (Inr (), push_appdata payload s)
      else (Inr (), s))"

definition handle_record :: "crypto \<Rightarrow> bytes \<Rightarrow> dtls \<Rightarrow> unit result \<times> dtls" where
  "handle_record c rec s =
     (let content_type = be_nat (slice rec 0 1);
          epoch = be_nat (slice rec 3 5);
          fragment = drop 13 rec;
          old_version = (slice rec 1 3 \<noteq> VERSION) in
      if old_version \<and>
         \<not> (slice rec 1 3 = [0xFE, 0xFF] \<and> epoch = 0 \<and> content_type = CT_HANDSHAKE
            \<and> (d_phase s = Sent_hello \<or> d_phase s = Sent_cookie_hello)
            \<and> take 1 fragment = [3])
      then (Inr (), s)
      else
        let seq = be_nat (slice rec 5 11) in
        if epoch \<noteq> (if d_read_active s then 1 else 0) then (Inr (), s)
        else if epoch > 0 then
          (case d_transform s of
             None \<Rightarrow> (Inr (), s)
           | Some t \<Rightarrow>
               let window = (case d_windows s epoch of None \<Rightarrow> window_new | Some w \<Rightarrow> w);
                   s1 = s\<lparr>d_windows := (d_windows s)(epoch := Some window)\<rparr> in
               if is_replay window seq then (Inr (), s1)
               else
                 then_do (unprotect c t epoch seq content_type fragment, s1) (\<lambda>plain s1.
                   case plain of
                     None \<Rightarrow> (Inr (), s1)
                   | Some payload \<Rightarrow>
                       dispatch_record c content_type payload True old_version
                         (s1\<lparr>d_windows := (d_windows s1)(epoch := Some (window_accept window seq))\<rparr>)))
        else dispatch_record c content_type fragment False old_version s)"

text \<open>
  One datagram of \<open>_drain_inbox\<close>, from \<open>offset\<close>; the result says whether the drain returned
  because the session failed.
\<close>

function drain_datagram :: "crypto \<Rightarrow> bytes \<Rightarrow> nat \<Rightarrow> dtls \<Rightarrow> bool result \<times> dtls" where
  "drain_datagram c datagram offset s =
     (if offset + 13 \<le> length datagram then
        let end_off = offset + 13 + be_nat (slice datagram (offset + 11) (offset + 13)) in
        if end_off > length datagram then (Inr False, s)
        else
          then_do (handle_record c (slice datagram offset end_off) s) (\<lambda>_ s.
            if d_failed s \<noteq> None then (Inr True, s) else drain_datagram c datagram end_off s)
      else (Inr False, s))"
  by pat_completeness auto
termination
  by (relation "measure (\<lambda>(c, datagram, offset, s). length datagram - offset)") auto

declare drain_datagram.simps [simp del]

fun drain_datagrams :: "crypto \<Rightarrow> bytes list \<Rightarrow> dtls \<Rightarrow> unit result \<times> dtls" where
  "drain_datagrams c [] s = (Inr (), s)"
| "drain_datagrams c (d # ds) s =
     then_do (drain_datagram c d 0 (s\<lparr>d_inbox := ds\<rparr>)) (\<lambda>stopped s.
       if stopped then (Inr (), s) else drain_datagrams c ds s)"

text \<open>The handlers never touch the inbox, so the loop runs over the datagrams queued now.\<close>

definition drain_inbox :: "crypto \<Rightarrow> dtls \<Rightarrow> unit result \<times> dtls" where
  "drain_inbox c s = drain_datagrams c (d_inbox s) s"

section \<open>The operations of a connection\<close>

definition do_handshake :: "crypto \<Rightarrow> dtls \<Rightarrow> unit result \<times> dtls" where
  "do_handshake c s =
     (if d_failed s \<noteq> None then (Inl DtlsError, s)
      else if d_phase s = Established then (Inr (), s)
      else
        then_do (if d_phase s = Start then
                   then_do (send_client_hello c [] s) (\<lambda>_ s. (Inr (), s\<lparr>d_phase := Sent_hello\<rparr>))
                 else (Inr (), s)) (\<lambda>_ s.
        then_do (drain_inbox c s) (\<lambda>_ s.
          if d_failed s \<noteq> None then (Inl DtlsError, s)
          else if d_phase s \<noteq> Established then (Inl WantRead, s)
          else (Inr (), s))))"

definition dtls_send :: "crypto \<Rightarrow> bytes \<Rightarrow> dtls \<Rightarrow> nat result \<times> dtls" where
  "dtls_send c data s =
     (if d_phase s \<noteq> Established then (Inl DtlsError, s)
      else if d_failed s \<noteq> None then (Inl DtlsError, s)
      else then_do (emit_record c CT_APPLICATION_DATA data s) (\<lambda>_ s. (Inr (length data), s)))"

definition dtls_recv :: "crypto \<Rightarrow> nat \<Rightarrow> dtls \<Rightarrow> bytes result \<times> dtls" where
  "dtls_recv c capacity s =
     then_do (if d_appdata s = [] then drain_inbox c s else (Inr (), s)) (\<lambda>_ s.
     case d_appdata s of
       rec # rest \<Rightarrow>
         if length rec > capacity
         then (Inr (take capacity rec), s\<lparr>d_appdata := drop capacity rec # rest\<rparr>)
         else (Inr rec, s\<lparr>d_appdata := rest\<rparr>)
     | [] \<Rightarrow>
         if d_failed s \<noteq> None then (Inl DtlsError, s)
         else if d_peer_closed s then (Inl ZeroReturn, s)
         else (Inl WantRead, s))"

definition dtls_shutdown :: "crypto \<Rightarrow> dtls \<Rightarrow> unit result \<times> dtls" where
  "dtls_shutdown c s =
     (if d_phase s = Established \<and> d_failed s = None then emit_record c CT_ALERT [1, 0] s
      else (Inr (), s))"

definition get_timeout :: "crypto \<Rightarrow> dtls \<Rightarrow> real option result \<times> dtls" where
  "get_timeout c s =
     (case d_deadline s of
        None \<Rightarrow> (Inr None, s)
      | Some deadline \<Rightarrow>
          if d_flight s = [] then (Inr None, s)
          else then_do (read_clock c s) (\<lambda>now s. (Inr (Some (max 0 (deadline - now))), s)))"

definition handle_timeout :: "crypto \<Rightarrow> dtls \<Rightarrow> unit result \<times> dtls" where
  "handle_timeout c s =
     (if d_flight s = [] \<or> d_deadline s = None then (Inr (), s)
      else
        let s1 = s\<lparr>d_outbox := d_outbox s @ concat (d_flight s), d_rto := min (d_rto s * 2) 60\<rparr> in
        then_do (read_clock c s1) (\<lambda>now s. (Inr (), s\<lparr>d_deadline := Some (now + d_rto s)\<rparr>)))"


section \<open>Progress\<close>

text \<open>
  What never goes back, whatever the engine reads: a failure and its reason stay, the phase only
  advances, keys once derived stay, and so does the activation of the read epoch.
\<close>

fun phase_rank :: "dtls_phase \<Rightarrow> nat" where
  "phase_rank Start = 0"
| "phase_rank Sent_hello = 1"
| "phase_rank Sent_cookie_hello = 2"
| "phase_rank Got_server_hello = 3"
| "phase_rank Got_server_params = 4"
| "phase_rank Sent_client_flight = 5"
| "phase_rank Established = 6"

definition progress :: "dtls \<Rightarrow> dtls \<Rightarrow> bool" where
  "progress s s' \<longleftrightarrow>
     (d_failed s \<noteq> None \<longrightarrow> d_failed s' = d_failed s)
     \<and> d_identity s' = d_identity s \<and> d_psk s' = d_psk s
     \<and> phase_rank (d_phase s) \<le> phase_rank (d_phase s')
     \<and> (d_read_active s \<longrightarrow> d_read_active s')
     \<and> (d_peer_closed s \<longrightarrow> d_peer_closed s')"

lemma progress_refl [simp]: "progress s s"
  by (simp add: progress_def)

lemma progress_trans: "progress s s' \<Longrightarrow> progress s' s'' \<Longrightarrow> progress s s''"
  by (auto simp: progress_def)

text \<open>A relation every operation keeps to, over the sequencing of operations.\<close>

lemma then_do_rel:
  assumes "\<And>a b c. R a b \<Longrightarrow> R b c \<Longrightarrow> R a c"
    and "R s (snd m)" and "\<And>x s'. m = (Inr x, s') \<Longrightarrow> R s' (snd (f x s'))"
  shows "R s (snd (then_do m f))"
  using assms by (cases m; cases "fst m") auto

text \<open>The effect of writing one record: the fields it cannot change, and the bounds it keeps.\<close>

definition emit_frame :: "dtls \<Rightarrow> _" where
  "emit_frame s =
     (input_side s, d_identity s, d_psk s, d_phase s, d_transcript s, d_send_epoch s,
      d_next_msg_seq s, d_transform s, d_client_random s, d_server_random s, d_cookie s,
      d_master_secret s, d_private_key s, d_peer_point s, d_rto s, d_cookie_count s)"

lemma emit_frame_record [simp]: "emit_frame (snd (emit_record c ct p s)) = emit_frame s"
proof -
  have "emit_frame (s\<lparr>d_send_seq := a, d_outbox := b, d_flight := f\<rparr>) = emit_frame s"
    "emit_frame (s\<lparr>d_deadline := d\<rparr>) = emit_frame s"
    "emit_frame (s\<lparr>d_send_seq := a, d_outbox := b\<rparr>) = emit_frame s"
    "emit_frame (s\<lparr>d_send_seq := a\<rparr>) = emit_frame s"
    "emit_frame (fail reason s) = emit_frame s"
    "emit_frame (snd (draw_random c n s)) = emit_frame s"
    "emit_frame (snd (read_clock c s)) = emit_frame s"
    "emit_frame (snd (record_fragment c ct p s)) = emit_frame s" for s a b d f reason n
    by (simp_all add: emit_frame_def input_side_def fail_def draw_random_def read_clock_def
        record_fragment_def split: option.split)
  then show ?thesis
    unfolding emit_record_def
    by (auto simp: Let_def intro!: then_do_frame [where g = emit_frame])
qed

lemma record_fragment_state:
  "record_fragment c ct p s = (r, s') \<Longrightarrow> s' = s \<or> s' = s\<lparr>d_calls := d_calls s + 1\<rparr>"
  by (auto simp: record_fragment_def draw_random_def split: option.splits if_splits)

definition out_ok :: "dtls \<Rightarrow> dtls \<Rightarrow> bool" where
  "out_ok s s' \<longleftrightarrow>
     (d_failed s \<noteq> None \<longrightarrow> d_failed s' = d_failed s)
     \<and> (d_send_seq s \<le> MAX_SEQ + 1 \<longrightarrow> d_send_seq s' \<le> MAX_SEQ + 1)
     \<and> (length (d_outbox s) \<le> MAX_OUTBOX \<longrightarrow> length (d_outbox s') \<le> MAX_OUTBOX)"

lemma out_ok_refl [simp]: "out_ok s s"
  by (simp add: out_ok_def)

lemma out_ok_trans: "out_ok s s' \<Longrightarrow> out_ok s' s'' \<Longrightarrow> out_ok s s''"
  by (auto simp: out_ok_def)

lemma then_do_out:
  "out_ok s (snd m) \<Longrightarrow> (\<And>x s'. m = (Inr x, s') \<Longrightarrow> out_ok s' (snd (f x s')))
     \<Longrightarrow> out_ok s (snd (then_do m f))"
  by (rule then_do_rel [where R = out_ok]) (blast intro: out_ok_trans)+

lemma emit_record_out: "out_ok s (snd (emit_record c ct p s))"
proof (cases "d_send_seq s > MAX_SEQ")
  case True
  then show ?thesis by (simp add: emit_record_def out_ok_def fail_def)
next
  case False
  obtain r1 s1 where r1: "record_fragment c ct p s = (r1, s1)" by fastforce
  from record_fragment_state [OF r1] have s1: "d_failed s1 = d_failed s" "d_send_seq s1 = d_send_seq s"
    "d_outbox s1 = d_outbox s" "d_rto s1 = d_rto s" by auto
  show ?thesis
  proof (cases r1)
    case (Inl e)
    with False r1 s1 show ?thesis by (simp add: emit_record_def out_ok_def)
  next
    case (Inr fragment)
    show ?thesis
    proof (cases "record_bytes ct (d_send_epoch s) (d_send_seq s) fragment")
      case (Inl e)
      with False r1 Inr s1 show ?thesis by (simp add: emit_record_def out_ok_def)
    next
      case rec: (Inr rec)
      show ?thesis
      proof (cases "length (d_outbox s) + length rec > MAX_OUTBOX")
        case True
        with False r1 Inr s1 rec show ?thesis
          by (simp add: emit_record_def out_ok_def fail_def Let_def)
      next
        case fits: False
        with False r1 Inr s1 rec show ?thesis
          by (simp add: emit_record_def out_ok_def Let_def read_clock_def)
      qed
    qed
  qed
qed

lemma emit_record_ok:
  assumes "emit_record c ct p s = (Inr u, s')"
  shows "d_failed s' = d_failed s" and "d_send_seq s' = d_send_seq s + 1" and "d_send_seq s \<le> MAX_SEQ"
proof -
  show seq: "d_send_seq s \<le> MAX_SEQ"
    using assms by (auto simp: emit_record_def split: if_splits)
  obtain r1 s1 where r1: "record_fragment c ct p s = (r1, s1)" by fastforce
  from record_fragment_state [OF r1] have s1: "d_failed s1 = d_failed s" "d_send_seq s1 = d_send_seq s"
    by auto
  from assms seq r1 obtain fragment where f: "r1 = Inr fragment" by (cases r1) (simp_all add: emit_record_def)
  with assms seq r1 obtain rec where "record_bytes ct (d_send_epoch s) (d_send_seq s) fragment = Inr rec"
    by (cases "record_bytes ct (d_send_epoch s) (d_send_seq s) fragment") (simp_all add: emit_record_def)
  with assms seq r1 f s1 show "d_failed s' = d_failed s" "d_send_seq s' = d_send_seq s + 1"
    by (auto simp: emit_record_def Let_def read_clock_def split: if_splits)
qed


text \<open>A handshake message also advances the message number and the transcript.\<close>

definition message_frame :: "dtls \<Rightarrow> _" where
  "message_frame s =
     (input_side s, d_identity s, d_psk s, d_phase s, d_send_epoch s, d_transform s,
      d_client_random s, d_server_random s, d_cookie s, d_master_secret s, d_private_key s,
      d_peer_point s, d_cookie_count s)"

lemma message_frame_of: "emit_frame s' = emit_frame s \<Longrightarrow> message_frame s' = message_frame s"
  by (simp add: emit_frame_def message_frame_def)

lemma message_frame_upd [simp]:
  "message_frame (s\<lparr>d_next_msg_seq := n\<rparr>) = message_frame s"
  "message_frame (s\<lparr>d_transcript := t\<rparr>) = message_frame s"
  "message_frame (start_flight s) = message_frame s"
  by (simp_all add: message_frame_def input_side_def start_flight_def)

lemma out_ok_upd [simp]:
  "out_ok s (s'\<lparr>d_next_msg_seq := n\<rparr>) = out_ok s s'"
  "out_ok s (s'\<lparr>d_transcript := t\<rparr>) = out_ok s s'"
  "out_ok s (start_flight s') = out_ok s s'"
  by (simp_all add: out_ok_def start_flight_def)

lemma emit_handshake_frame: "message_frame (snd (emit_handshake c t b tr s)) = message_frame s"
  unfolding emit_handshake_def Let_def
  by (rule then_do_frame [where g = message_frame])
    (auto intro!: message_frame_of [OF emit_frame_record, THEN trans])

lemma emit_handshake_out: "out_ok s (snd (emit_handshake c t b tr s))"
  unfolding emit_handshake_def Let_def
proof (rule then_do_out)
  fix x and s' :: dtls
  let ?m = "if tr then s'\<lparr>d_next_msg_seq := d_next_msg_seq s' + 1,
        d_transcript := d_transcript (s'\<lparr>d_next_msg_seq := d_next_msg_seq s' + 1\<rparr>) @ x @ b\<rparr>
      else s'\<lparr>d_next_msg_seq := d_next_msg_seq s' + 1\<rparr>"
  have "out_ok s' ?m" by simp
  with emit_record_out [of ?m c CT_HANDSHAKE "x @ b"]
  show "out_ok s' (snd (emit_record c CT_HANDSHAKE (x @ b) ?m))" by (rule out_ok_trans [rotated])
qed simp

definition hello_frame :: "dtls \<Rightarrow> _" where
  "hello_frame s =
     (input_side s, d_identity s, d_psk s, d_phase s, d_send_epoch s, d_transform s,
      d_server_random s, d_cookie s, d_master_secret s, d_private_key s, d_peer_point s,
      d_cookie_count s)"

lemma send_client_hello_frame: "hello_frame (snd (send_client_hello c cookie s)) = hello_frame s"
proof -
  have "hello_frame (snd (emit_handshake c t b tr s)) = hello_frame s" for t b tr s
    using emit_handshake_frame [of c t b tr s] by (simp add: hello_frame_def message_frame_def)
  moreover have "hello_frame (start_flight s) = hello_frame s" for s
    by (simp add: hello_frame_def start_flight_def input_side_def)
  moreover have "hello_frame (s\<lparr>d_client_random := r\<rparr>) = hello_frame s" "hello_frame (snd (draw_random c n s)) = hello_frame s" for s r n
    by (simp_all add: hello_frame_def draw_random_def input_side_def)
  ultimately show ?thesis
    unfolding send_client_hello_def
    by (auto intro!: then_do_frame [where g = hello_frame])
qed

lemma send_client_hello_out: "out_ok s (snd (send_client_hello c cookie s))"
  unfolding send_client_hello_def
proof (rule then_do_out)
  show "out_ok s (snd (if cookie = [] then then_do (draw_random c 32 s) (\<lambda>r s. (Inr (), s\<lparr>d_client_random := r\<rparr>))
      else (Inr (), s)))"
    by (simp add: draw_random_def out_ok_def)
next
  fix x and s' :: dtls
  have start: "out_ok s'' (snd (emit_handshake c HT_CLIENT_HELLO body True (start_flight s'')))" for body s''
    using emit_handshake_out [of "start_flight s''"] by (rule out_ok_trans [rotated]) simp
  show "out_ok s' (snd (then_do (hello_body (d_client_random s') cookie, s')
      (\<lambda>body s. emit_handshake c HT_CLIENT_HELLO body True (start_flight s))))"
    by (rule then_do_out, simp, rule start)
qed

text \<open>The keys of a session: what \<open>_send_client_flight\<close> derives from the exchange.\<close>

definition derived_keys :: "crypto \<Rightarrow> dtls \<Rightarrow> bool" where
  "derived_keys c s \<longleftrightarrow>
     (\<exists>key pre. d_private_key s = Some key \<and> premaster (ecdh c key (d_peer_point s)) (d_psk s) = Inr pre
        \<and> d_master_secret s = master_of pre (d_client_random s) (d_server_random s)
        \<and> d_transform s = Some (transform_of
            (key_block_of (d_master_secret s) (d_client_random s) (d_server_random s))))"

definition flight_frame :: "dtls \<Rightarrow> _" where
  "flight_frame s =
     (input_side s, d_identity s, d_psk s, d_phase s, d_client_random s, d_server_random s,
      d_cookie s, d_private_key s, d_peer_point s, d_cookie_count s)"

lemma flight_frame_of: "message_frame s' = message_frame s \<Longrightarrow> flight_frame s' = flight_frame s"
  by (simp add: flight_frame_def message_frame_def)

lemma send_client_flight_effect:
  "flight_frame (snd (send_client_flight c s)) = flight_frame s
   \<and> out_ok s (snd (send_client_flight c s))
   \<and> (d_transform (snd (send_client_flight c s)) = d_transform s
        \<and> d_send_epoch (snd (send_client_flight c s)) = d_send_epoch s
      \<or> derived_keys c (snd (send_client_flight c s)) \<and> d_send_epoch (snd (send_client_flight c s)) = 1)"
    (is "?P (snd (send_client_flight c s))")
proof -
  let ?s0 = "start_flight s"
  have P0: "flight_frame s1 = flight_frame s \<Longrightarrow> out_ok s s1 \<Longrightarrow> d_transform s1 = d_transform s
      \<Longrightarrow> d_send_epoch s1 = d_send_epoch s \<Longrightarrow> ?P s1" for s1 by blast
  have s0: "flight_frame ?s0 = flight_frame s" "out_ok s ?s0" "d_transform ?s0 = d_transform s"
    "d_send_epoch ?s0 = d_send_epoch s"
    by (simp_all add: flight_frame_def start_flight_def input_side_def out_ok_def)
  show ?thesis
  proof (cases "d_private_key ?s0")
    case None
    then have "snd (send_client_flight c s) = ?s0" by (simp add: send_client_flight_def Let_def)
    with P0 [OF s0] show ?thesis by simp
  next
    case (Some key)
    show ?thesis
    proof (cases "client_key_exchange (d_identity ?s0) (public_point c key)")
      case (Inl e)
      then have "snd (send_client_flight c s) = ?s0"
        using Some by (simp add: send_client_flight_def Let_def)
      with P0 [OF s0] show ?thesis by simp
    next
      case (Inr cke)
      obtain r1 s1 where r1: "emit_handshake c HT_CLIENT_KEY_EXCHANGE cke True ?s0 = (r1, s1)" by fastforce
      have f1: "message_frame s1 = message_frame ?s0" "out_ok ?s0 s1"
        using emit_handshake_frame [of c HT_CLIENT_KEY_EXCHANGE cke True ?s0]
          emit_handshake_out [of ?s0 c HT_CLIENT_KEY_EXCHANGE cke True] r1 by simp_all
      then have s1: "flight_frame s1 = flight_frame s" "out_ok s s1" "d_transform s1 = d_transform s"
        "d_send_epoch s1 = d_send_epoch s"
        using flight_frame_of [OF f1(1)] s0 out_ok_trans [OF s0(2) f1(2)] f1(1)
        by (simp_all add: message_frame_def)
      show ?thesis
      proof (cases "\<exists>u. r1 = Inr u")
        case False
        then obtain e where "r1 = Inl e" by (cases r1) auto
        then have "snd (send_client_flight c s) = s1"
          using Some Inr r1 by (simp add: send_client_flight_def Let_def)
        with P0 [OF s1] show ?thesis by simp
      next
        case True
        then obtain u where u: "r1 = Inr u" by blast
        show ?thesis
        proof (cases "premaster (ecdh c key (d_peer_point s1)) (d_psk s1)")
          case (Inl e)
          then have "snd (send_client_flight c s) = s1"
            using Some Inr r1 u by (simp add: send_client_flight_def Let_def)
          with P0 [OF s1] show ?thesis by simp
        next
          case pre: (Inr pre)
          define master where "master = master_of pre (d_client_random s1) (d_server_random s1)"
          define s2 where "s2 = s1\<lparr>d_master_secret := master\<rparr>"
          have s2: "flight_frame s2 = flight_frame s" "out_ok s s2" "d_transform s2 = d_transform s"
            "d_send_epoch s2 = d_send_epoch s"
            using s1 by (simp_all add: s2_def flight_frame_def input_side_def out_ok_def)
          obtain r3 s3 where r3: "emit_record c CT_CHANGE_CIPHER_SPEC [1] s2 = (r3, s3)" by fastforce
          have f3: "emit_frame s3 = emit_frame s2" "out_ok s2 s3"
            using emit_frame_record [of c CT_CHANGE_CIPHER_SPEC "[1]" s2]
              emit_record_out [of s2 c CT_CHANGE_CIPHER_SPEC "[1]"] r3 by simp_all
          have s3: "flight_frame s3 = flight_frame s" "out_ok s s3" "d_transform s3 = d_transform s"
            "d_send_epoch s3 = d_send_epoch s" "d_master_secret s3 = master" "d_psk s3 = d_psk s1"
            "d_private_key s3 = Some key" "d_peer_point s3 = d_peer_point s1"
            "d_client_random s3 = d_client_random s1" "d_server_random s3 = d_server_random s1"
            using flight_frame_of [OF message_frame_of [OF f3(1)]] s2 out_ok_trans [OF s2(2) f3(2)] f3(1) s1(1) Some
            by (simp_all add: emit_frame_def s2_def flight_frame_def start_flight_def)
          show ?thesis
          proof (cases "\<exists>u. r3 = Inr u")
            case False
            then obtain e where "r3 = Inl e" by (cases r3) auto
            then have "snd (send_client_flight c s) = s3"
              using Some Inr r1 u pre r3 by (simp add: send_client_flight_def Let_def s2_def master_def)
            with P0 [OF s3(1-4)] show ?thesis by simp
          next
            case True
            then obtain u3 where u3: "r3 = Inr u3" by blast
            define t where "t = transform_of (key_block_of master (d_client_random s1) (d_server_random s1))"
            define s4 where "s4 = s3\<lparr>d_transform := Some t, d_send_epoch := 1, d_send_seq := 0\<rparr>"
            have final: "snd (send_client_flight c s) =
                snd (emit_handshake c HT_FINISHED (verify_data ''client finished'' master (d_transcript s4)) True s4)"
              using Some Inr r1 u pre r3 u3
              by (simp add: send_client_flight_def Let_def s2_def master_def s4_def t_def)
            define s5 where "s5 = snd (emit_handshake c HT_FINISHED (verify_data ''client finished'' master (d_transcript s4)) True s4)"
            have f5: "message_frame s5 = message_frame s4" "out_ok s4 s5"
              unfolding s5_def using emit_handshake_frame emit_handshake_out by blast+
            have "out_ok s s4" "flight_frame s4 = flight_frame s"
              using s3 by (simp_all add: s4_def out_ok_def flight_frame_def input_side_def)
            then have "out_ok s s5" "flight_frame s5 = flight_frame s"
              using flight_frame_of [OF f5(1)] out_ok_trans [OF _ f5(2)] by auto
            moreover have "derived_keys c s5" "d_send_epoch s5 = 1"
              using f5(1) s3 pre by (auto simp: message_frame_def derived_keys_def s4_def t_def master_def)
            ultimately have "?P s5" by blast
            then show ?thesis unfolding final s5_def .
          qed
        qed
      qed
    qed
  qed
qed


section \<open>The invariant\<close>

definition partial_ok :: "nat \<times> partial_message \<Rightarrow> bool" where
  "partial_ok e \<longleftrightarrow> (case e of (_, l, buffer, seen) \<Rightarrow>
     l \<le> MAX_HANDSHAKE_MESSAGE \<and> length buffer = l \<and> length seen = l)"

text \<open>Memory: every queue and table of the engine is bounded, and so is what a table entry holds.\<close>

definition queues_ok :: "dtls \<Rightarrow> bool" where
  "queues_ok s \<longleftrightarrow>
     length (d_inbox s) \<le> MAX_INBOX \<and> length (d_appdata s) \<le> MAX_APPDATA
     \<and> length (d_pending s) \<le> MAX_PENDING_MESSAGES \<and> length (d_ready s) \<le> MAX_PENDING_MESSAGES
     \<and> (\<forall>e \<in> set (d_pending s). partial_ok e)
     \<and> (\<forall>e \<in> set (d_ready s). length (snd (snd e)) \<le> MAX_HANDSHAKE_MESSAGE)"

text \<open>
  Keys: they exist only from the client's flight on, they are the ones derived from the ECDH
  exchange with a peer point that was checked to lie on the curve, and an established session has
  them and reads epoch 1 only.
\<close>

definition keys_ok :: "crypto \<Rightarrow> dtls \<Rightarrow> bool" where
  "keys_ok c s \<longleftrightarrow>
     (d_transform s \<noteq> None \<longrightarrow>
        5 \<le> phase_rank (d_phase s) \<and> derived_keys c s \<and> d_send_epoch s = 1)
     \<and> (d_transform s = None \<longrightarrow> d_send_epoch s = 0)
     \<and> (d_private_key s \<noteq> None \<longrightarrow> point_valid c (d_peer_point s))
     \<and> (4 \<le> phase_rank (d_phase s) \<longrightarrow> d_private_key s \<noteq> None)
     \<and> (d_phase s = Established \<longrightarrow> d_read_active s \<and> d_transform s \<noteq> None)"

definition read_keyed :: "dtls \<Rightarrow> bool" where
  "read_keyed s \<longleftrightarrow> (d_read_active s \<longrightarrow> d_transform s \<noteq> None)"

text \<open>What every step inside one accepted handshake record guarantees.\<close>

definition hs_ok :: "crypto \<Rightarrow> dtls \<Rightarrow> dtls \<Rightarrow> bool" where
  "hs_ok c s s' \<longleftrightarrow>
     progress s s' \<and> out_ok s s' \<and> d_read_active s' = d_read_active s
     \<and> (queues_ok s \<longrightarrow> queues_ok s')
     \<and> (read_keyed s \<and> keys_ok c s \<longrightarrow>
          keys_ok c s' \<and> (d_transform s \<noteq> None \<longrightarrow> d_transform s' = d_transform s))"

lemma hs_ok_refl [simp]: "hs_ok c s s"
  by (simp add: hs_ok_def)

lemma hs_ok_trans:
  assumes "hs_ok c s s'" and "hs_ok c s' s''"
  shows "hs_ok c s s''"
proof -
  have "progress s s''" "out_ok s s''"
    using assms progress_trans out_ok_trans unfolding hs_ok_def by blast+
  moreover have "read_keyed s' \<and> keys_ok c s'" if "read_keyed s \<and> keys_ok c s"
    using assms(1) that unfolding hs_ok_def read_keyed_def by auto
  ultimately show ?thesis using assms unfolding hs_ok_def by auto
qed

lemma then_do_hs:
  "hs_ok c s (snd m) \<Longrightarrow> (\<And>x s'. m = (Inr x, s') \<Longrightarrow> hs_ok c s' (snd (f x s')))
     \<Longrightarrow> hs_ok c s (snd (then_do m f))"
  by (rule then_do_rel [where R = "hs_ok c"]) (blast intro: hs_ok_trans)+

lemma queues_input: "input_side s' = input_side s \<Longrightarrow> queues_ok s' = queues_ok s"
  by (simp add: input_side_def queues_ok_def)

lemma derived_keys_cong:
  "d_private_key s' = d_private_key s \<Longrightarrow> d_peer_point s' = d_peer_point s \<Longrightarrow> d_psk s' = d_psk s
    \<Longrightarrow> d_master_secret s' = d_master_secret s \<Longrightarrow> d_client_random s' = d_client_random s
    \<Longrightarrow> d_server_random s' = d_server_random s \<Longrightarrow> d_transform s' = d_transform s
    \<Longrightarrow> derived_keys c s' = derived_keys c s"
  by (simp add: derived_keys_def)

lemma hs_ok_fail [simp]: "hs_ok c s (fail reason s)"
proof -
  have "derived_keys c (fail reason s) = derived_keys c s"
    by (rule derived_keys_cong) (simp_all add: fail_def)
  then show ?thesis
    by (simp add: hs_ok_def progress_def out_ok_def queues_ok_def keys_ok_def fail_def)
qed

lemma keys_before:
  "keys_ok c s \<Longrightarrow> phase_rank (d_phase s) < 5 \<Longrightarrow> d_transform s = None \<and> d_send_epoch s = 0"
  unfolding keys_ok_def by linarith

lemma keys_none:
  "d_transform s = None \<Longrightarrow> keys_ok c s \<longleftrightarrow>
     d_send_epoch s = 0 \<and> (d_private_key s \<noteq> None \<longrightarrow> point_valid c (d_peer_point s))
     \<and> (4 \<le> phase_rank (d_phase s) \<longrightarrow> d_private_key s \<noteq> None) \<and> d_phase s \<noteq> Established"
  unfolding keys_ok_def by blast

text \<open>A step before the keys exist: what it must keep for \<open>hs_ok\<close>.\<close>

lemma hs_ok_before:
  assumes "phase_rank (d_phase s) < 5" and "phase_rank (d_phase s) \<le> phase_rank (d_phase s')"
    and "d_phase s' \<noteq> Established"
    and "d_failed s \<noteq> None \<longrightarrow> d_failed s' = d_failed s" and "out_ok s s'"
    and "d_identity s' = d_identity s" and "d_psk s' = d_psk s" and "d_transform s' = d_transform s"
    and "d_send_epoch s' = d_send_epoch s" and "d_read_active s' = d_read_active s"
    and "d_peer_closed s' = d_peer_closed s" and "queues_ok s \<longrightarrow> queues_ok s'"
    and "keys_ok c s \<longrightarrow> (d_private_key s' \<noteq> None \<longrightarrow> point_valid c (d_peer_point s'))
           \<and> (4 \<le> phase_rank (d_phase s') \<longrightarrow> d_private_key s' \<noteq> None)"
  shows "hs_ok c s s'"
proof -
  have "keys_ok c s \<longrightarrow> keys_ok c s' \<and> d_transform s = None"
    using keys_before [of c s] keys_none [of s' c] assms by auto
  with assms show ?thesis by (simp add: hs_ok_def progress_def)
qed

lemma hs_ok_server_hello: "hs_ok c s (handle_server_hello b s)"
proof -
  have "hs_ok c s (fail r (s\<lparr>d_server_random := sr\<rparr>))"
    "hs_ok c s (s\<lparr>d_server_random := sr, d_phase := Got_server_hello\<rparr>)"
    if "d_phase s = Sent_hello \<or> d_phase s = Sent_cookie_hello" for r sr
    by (rule hs_ok_before; use that in \<open>auto simp: out_ok_def queues_ok_def keys_ok_def fail_def\<close>)+
  then show ?thesis by (simp add: handle_server_hello_def Let_def)
qed

lemma hs_ok_key_exchange: "hs_ok c s (handle_server_key_exchange c b s)"
proof -
  have "hs_ok c s (s\<lparr>d_peer_point := pt, d_private_key := Some k, d_calls := n, d_phase := Got_server_params\<rparr>)"
    if "d_phase s = Got_server_hello" "point_valid c pt" for pt k n
    by (rule hs_ok_before; use that in \<open>simp add: out_ok_def queues_ok_def\<close>)
  then show ?thesis by (simp add: handle_server_key_exchange_def Let_def)
qed

lemma hs_ok_finished: "hs_ok c s (handle_server_finished b s)"
proof (cases "d_read_active s \<and> d_phase s = Sent_client_flight")
  case True
  let ?s' = "s\<lparr>d_phase := Established, d_flight := [], d_deadline := None\<rparr>"
  have "derived_keys c ?s' = derived_keys c s" by (rule derived_keys_cong) simp_all
  then have "hs_ok c s ?s'"
    using True by (simp add: hs_ok_def progress_def out_ok_def queues_ok_def keys_ok_def read_keyed_def)
  then show ?thesis by (simp add: handle_server_finished_def)
next
  case False
  then show ?thesis by (simp add: handle_server_finished_def)
qed

lemma hs_ok_cookie: "hs_ok c s (snd (handle_hello_verify_request c b q s))"
proof (cases "d_phase s = Sent_hello \<or> d_phase s = Sent_cookie_hello")
  case False
  then show ?thesis by (auto simp: handle_hello_verify_request_def)
next
  case True
  have cnt: "hs_ok c s (s\<lparr>d_cookie_count := n\<rparr>)" "hs_ok c s (fail r (s\<lparr>d_cookie_count := n\<rparr>))" for r n
    by (rule hs_ok_before; use True in \<open>auto simp: out_ok_def queues_ok_def keys_ok_def fail_def\<close>)+
  have send: "hs_ok c s (snd (then_do (send_client_hello c ck
        (s1\<lparr>d_cookie := ck, d_transcript := [], d_next_recv := nr, d_ready := []\<rparr>))
        (\<lambda>_ s2. (Inr (), s2\<lparr>d_phase := Sent_cookie_hello\<rparr>))))"
    if s1: "s1 = s \<or> s1 = s\<lparr>d_cookie_count := d_cookie_count s + 1\<rparr>" for s1 ck nr
  proof -
    let ?s1 = "s1\<lparr>d_cookie := ck, d_transcript := [], d_next_recv := nr, d_ready := []\<rparr>"
    obtain r s2 where r: "send_client_hello c ck ?s1 = (r, s2)" by fastforce
    have f: "hello_frame s2 = hello_frame ?s1" "out_ok ?s1 s2"
      using send_client_hello_frame [of c ck ?s1] send_client_hello_out [of ?s1 c ck] r by simp_all
    have "out_ok s ?s1" using s1 by (auto simp: out_ok_def)
    then have out: "out_ok s s2" using f(2) by (rule out_ok_trans)
    have fields: "d_identity s2 = d_identity s" "d_psk s2 = d_psk s" "d_phase s2 = d_phase s"
      "d_transform s2 = d_transform s" "d_send_epoch s2 = d_send_epoch s" "d_private_key s2 = d_private_key s"
      "d_peer_point s2 = d_peer_point s" "d_read_active s2 = d_read_active s" "d_peer_closed s2 = d_peer_closed s"
      "d_inbox s2 = d_inbox s" "d_appdata s2 = d_appdata s" "d_pending s2 = d_pending s" "d_ready s2 = []"
      using f(1) s1 by (auto simp: hello_frame_def input_side_def)
    have "hs_ok c s s2" "hs_ok c s (s2\<lparr>d_phase := Sent_cookie_hello\<rparr>)"
      by (rule hs_ok_before; use True out fields in \<open>auto simp: out_ok_def queues_ok_def keys_ok_def\<close>)+
    then show ?thesis using r by (cases r) simp_all
  qed
  show ?thesis
    using send [of s] send [of "s\<lparr>d_cookie_count := d_cookie_count s + 1\<rparr>"] cnt
    by (simp add: handle_hello_verify_request_def Let_def)
qed

lemma hs_ok_flight:
  assumes "d_phase s = Got_server_params"
  shows "hs_ok c s (snd (send_client_flight c (s\<lparr>d_phase := Sent_client_flight\<rparr>)))"
proof -
  let ?s = "s\<lparr>d_phase := Sent_client_flight\<rparr>"
  let ?s' = "snd (send_client_flight c ?s)"
  note e = send_client_flight_effect [of c ?s]
  have fields: "d_identity ?s' = d_identity s" "d_psk ?s' = d_psk s" "d_phase ?s' = Sent_client_flight"
    "d_private_key ?s' = d_private_key s" "d_peer_point ?s' = d_peer_point s"
    "d_read_active ?s' = d_read_active s" "d_peer_closed ?s' = d_peer_closed s"
    "queues_ok ?s' = queues_ok s"
    using e by (simp_all add: flight_frame_def input_side_def queues_ok_def)
  have out: "out_ok s ?s'" using e by (simp add: out_ok_def)
  have "keys_ok c ?s' \<and> d_transform s = None" if "keys_ok c s"
  proof -
    have none: "d_transform s = None" "d_send_epoch s = 0" using that assms by (auto simp: keys_ok_def)
    from e have "d_transform ?s' = d_transform ?s \<and> d_send_epoch ?s' = d_send_epoch ?s
        \<or> derived_keys c ?s' \<and> d_send_epoch ?s' = 1" by blast
    then show ?thesis
    proof
      assume "d_transform ?s' = d_transform ?s \<and> d_send_epoch ?s' = d_send_epoch ?s"
      with none fields that assms show ?thesis by (simp add: keys_ok_def)
    next
      assume d: "derived_keys c ?s' \<and> d_send_epoch ?s' = 1"
      then have "d_transform ?s' \<noteq> None" by (auto simp: derived_keys_def)
      with d fields that assms none show ?thesis by (simp add: keys_ok_def)
    qed
  qed
  moreover have "progress s ?s'"
    using fields out assms by (simp add: progress_def out_ok_def)
  ultimately show ?thesis using fields out by (simp add: hs_ok_def)
qed


text \<open>Updates of the bookkeeping fields, which no part of the invariant but the queues reads.\<close>

lemma hs_ok_books [simp]:
  "hs_ok c s (s\<lparr>d_next_recv := n\<rparr>)" "hs_ok c s (s\<lparr>d_transcript := tr\<rparr>)"
proof -
  have "derived_keys c (s\<lparr>d_next_recv := n\<rparr>) = derived_keys c s"
    "derived_keys c (s\<lparr>d_transcript := tr\<rparr>) = derived_keys c s"
    by (rule derived_keys_cong; simp)+
  then show "hs_ok c s (s\<lparr>d_next_recv := n\<rparr>)" "hs_ok c s (s\<lparr>d_transcript := tr\<rparr>)"
    by (simp_all add: hs_ok_def progress_def out_ok_def queues_ok_def keys_ok_def)
qed

definition ready_sized :: "(nat \<times> nat \<times> bytes) list \<Rightarrow> bool" where
  "ready_sized rd \<longleftrightarrow>
     length rd \<le> MAX_PENDING_MESSAGES \<and> (\<forall>e \<in> set rd. length (snd (snd e)) \<le> MAX_HANDSHAKE_MESSAGE)"

definition pending_sized :: "(nat \<times> partial_message) list \<Rightarrow> bool" where
  "pending_sized pd \<longleftrightarrow> length pd \<le> MAX_PENDING_MESSAGES \<and> (\<forall>e \<in> set pd. partial_ok e)"

lemma queues_ok_iff:
  "queues_ok s \<longleftrightarrow> length (d_inbox s) \<le> MAX_INBOX \<and> length (d_appdata s) \<le> MAX_APPDATA
     \<and> pending_sized (d_pending s) \<and> ready_sized (d_ready s)"
  unfolding queues_ok_def pending_sized_def ready_sized_def by blast

lemma hs_ok_ready:
  assumes "queues_ok s \<Longrightarrow> ready_sized rd"
  shows "hs_ok c s (s\<lparr>d_ready := rd\<rparr>)"
proof -
  have "derived_keys c (s\<lparr>d_ready := rd\<rparr>) = derived_keys c s" by (rule derived_keys_cong) simp_all
  then have "keys_ok c s \<longrightarrow> keys_ok c (s\<lparr>d_ready := rd\<rparr>)" by (simp add: keys_ok_def)
  moreover have "queues_ok s \<longrightarrow> queues_ok (s\<lparr>d_ready := rd\<rparr>)" using assms by (simp add: queues_ok_iff)
  ultimately show ?thesis by (simp add: hs_ok_def progress_def out_ok_def)
qed

lemma hs_ok_pending:
  assumes "queues_ok s \<Longrightarrow> pending_sized pd"
  shows "hs_ok c s (s\<lparr>d_pending := pd\<rparr>)"
proof -
  have "derived_keys c (s\<lparr>d_pending := pd\<rparr>) = derived_keys c s" by (rule derived_keys_cong) simp_all
  then have "keys_ok c s \<longrightarrow> keys_ok c (s\<lparr>d_pending := pd\<rparr>)" by (simp add: keys_ok_def)
  moreover have "queues_ok s \<longrightarrow> queues_ok (s\<lparr>d_pending := pd\<rparr>)" using assms by (simp add: queues_ok_iff)
  ultimately show ?thesis by (simp add: hs_ok_def progress_def out_ok_def)
qed

lemma hs_ok_deliver: "hs_ok c s (snd (deliver_handshake c t q b s))"
  unfolding deliver_handshake_def Let_def
proof (rule then_do_hs)
  show "hs_ok c s (snd (whole_message t q b, s\<lparr>d_next_recv := q + 1\<rparr>))" by simp
next
  fix m and s1 :: dtls
  let ?l = "s1\<lparr>d_transcript := d_transcript s1 @ m\<rparr>"
  have l: "hs_ok c s1 ?l" by simp
  have "hs_ok c s1 (handle_server_hello b ?l)" "hs_ok c s1 (handle_server_key_exchange c b ?l)"
    using hs_ok_trans [OF l hs_ok_server_hello] hs_ok_trans [OF l hs_ok_key_exchange] by blast+
  moreover have "hs_ok c s1 (snd (send_client_flight c (?l\<lparr>d_phase := Sent_client_flight\<rparr>)))"
    if "d_phase ?l = Got_server_params"
    using hs_ok_trans [OF l hs_ok_flight [OF that]] .
  ultimately show "hs_ok c s1 (snd (if t = HT_SERVER_HELLO then (Inr (), handle_server_hello b ?l)
      else if t = HT_SERVER_KEY_EXCHANGE then (Inr (), handle_server_key_exchange c b ?l)
      else if t = HT_SERVER_HELLO_DONE then
        (if d_phase ?l = Got_server_params then send_client_flight c (?l\<lparr>d_phase := Sent_client_flight\<rparr>)
         else (Inr (), ?l))
      else if t = HT_FINISHED then (Inr (), handle_server_finished b s1)
      else (Inr (), s1)))"
    using l hs_ok_finished by auto
qed

lemma set_delete_subset: "set (AList.delete k xs) \<subseteq> set xs" "length (AList.delete k xs) \<le> length xs"
  by (auto simp: AList.delete_eq)

lemma length_update: "length (AList.update k v xs) = (if map_of xs k = None then Suc (length xs) else length xs)"
  by (induction xs) auto

lemma set_update_subset: "set (AList.update k v xs) \<subseteq> insert (k, v) (set xs)"
  by (induction xs) auto

lemma hs_ok_deliver_ready: "hs_ok c s (snd (deliver_ready c s))"
proof (induction c s rule: deliver_ready.induct)
  case (1 c s)
  show ?case
  proof (cases "map_of (d_ready s) (d_next_recv s)")
    case None
    then show ?thesis by (simp add: deliver_ready.simps [of c s])
  next
    case (Some m)
    obtain t b where m: "m = (t, b)" by fastforce
    let ?q = "d_next_recv s"
    let ?s = "s\<lparr>d_ready := AList.delete ?q (d_ready s)\<rparr>"
    have "hs_ok c s ?s"
      using set_delete_subset [of ?q "d_ready s"]
      by (intro hs_ok_ready) (force simp: queues_ok_iff ready_sized_def)
    then have d: "hs_ok c s (snd (deliver_handshake c t ?q b ?s))" using hs_ok_deliver hs_ok_trans by blast
    have "hs_ok c s (snd (then_do (deliver_handshake c t ?q b ?s)
        (\<lambda>_ s'. if d_failed s' \<noteq> None then (Inr (), s') else deliver_ready c s')))"
    proof (rule then_do_hs [OF d])
      fix x s'
      assume a: "deliver_handshake c t ?q b ?s = (Inr x, s')"
      show "hs_ok c s' (snd (if d_failed s' \<noteq> None then (Inr (), s') else deliver_ready c s'))"
        using "1.IH" [OF Some m [symmetric] refl, of x s'] a by simp
    qed
    then show ?thesis using Some m by (simp add: deliver_ready.simps [of c s] Let_def)
  qed
qed

lemma length_overwrite: "i + length ys \<le> length xs \<Longrightarrow> length (overwrite xs i ys) = length xs"
  by (simp add: overwrite_def)

lemma hs_ok_reassemble:
  assumes "f + length b \<le> l" and "l \<le> MAX_HANDSHAKE_MESSAGE" and "reassemble q l f b s = (r, s')"
  shows "hs_ok c s s'" and "r = Some whole \<Longrightarrow> queues_ok s \<Longrightarrow> length whole \<le> MAX_HANDSHAKE_MESSAGE"
proof -
  let ?old = "map_of (d_pending s) q"
  let ?fresh = "case ?old of None \<Rightarrow> True | Some (l', _, _) \<Rightarrow> l' \<noteq> l"
  define e where "e = (if ?fresh then (l, replicate l 0, replicate l False) else the ?old)"
  obtain l0 buf seen where e': "e = (l0, buf, seen)" by (cases e) auto
  define buf' where "buf' = overwrite buf f b"
  define seen' where "seen' = overwrite seen f (replicate (length b) True)"
  have run: "reassemble q l f b s =
      (if f = 0 \<and> length b = l then (Some b, s)
       else if ?fresh \<and> ?old = None \<and> length (d_pending s) \<ge> MAX_PENDING_MESSAGES
       then (None, fail Too_many_pending s)
       else if list_all id seen' then (Some buf', s\<lparr>d_pending := AList.delete q (d_pending s)\<rparr>)
       else (None, s\<lparr>d_pending := AList.update q (l, buf', seen') (d_pending s)\<rparr>))"
    using e' unfolding reassemble_def e_def buf'_def seen'_def Let_def by (simp split: prod.splits)
  have sizes: "length buf = l \<and> length seen = l" if "queues_ok s"
  proof (cases ?fresh)
    case True
    then show ?thesis using e' by (auto simp: e_def)
  next
    case False
    then obtain p where p: "?old = Some p" "fst p = l" by (auto split: option.splits)
    with that have "partial_ok (q, p)" by (auto simp: queues_ok_def dest: map_of_SomeD)
    with p False e' show ?thesis by (auto simp: e_def partial_ok_def)
  qed
  then have sizes': "length buf' = l \<and> length seen' = l" if "queues_ok s"
    using that assms(1) by (simp add: buf'_def seen'_def length_overwrite)
  have del: "hs_ok c s (s\<lparr>d_pending := AList.delete q (d_pending s)\<rparr>)"
    using set_delete_subset [of q "d_pending s"]
    by (intro hs_ok_pending) (force simp: queues_ok_iff pending_sized_def)
  have upd: "hs_ok c s (s\<lparr>d_pending := AList.update q (l, buf', seen') (d_pending s)\<rparr>)"
    if "\<not> (?fresh \<and> ?old = None \<and> length (d_pending s) \<ge> MAX_PENDING_MESSAGES)"
  proof (rule hs_ok_pending)
    assume q: "queues_ok s"
    have "length (AList.update q (l, buf', seen') (d_pending s)) \<le> MAX_PENDING_MESSAGES"
      using q that by (auto simp: length_update queues_ok_iff pending_sized_def split: option.splits)
    moreover have "partial_ok e" if "e \<in> set (AList.update q (l, buf', seen') (d_pending s))" for e
    proof -
      from that have "e = (q, l, buf', seen') \<or> e \<in> set (d_pending s)" using set_update_subset by fastforce
      then show "partial_ok e"
        using q sizes' [OF q] assms(2) by (auto simp: partial_ok_def queues_ok_def)
    qed
    ultimately show "pending_sized (AList.update q (l, buf', seen') (d_pending s))"
      by (simp add: pending_sized_def)
  qed
  show "hs_ok c s s'"
    using assms(3) del upd unfolding run by (auto split: if_splits)
  show "length whole \<le> MAX_HANDSHAKE_MESSAGE" if "r = Some whole" "queues_ok s"
    using assms(1-3) that sizes' unfolding run by (auto split: if_splits)
qed


text \<open>A record's payload holds a fragment of a message with this type and number.\<close>

definition carries :: "bytes \<Rightarrow> nat \<Rightarrow> nat \<Rightarrow> bool" where
  "carries payload t q \<longleftrightarrow>
     (\<exists>off. off + 12 \<le> length payload \<and> be_nat (slice payload off (off + 1)) = t
        \<and> be_nat (slice payload (off + 4) (off + 6)) = q)"

text \<open>
  The walk over the messages of a record keeps every reflexive and transitive relation that its
  pieces keep.
\<close>

lemma handshake_loop_rel:
  assumes r_refl: "\<And>p c s. R p c s s" and r_trans: "\<And>p c s s' s''. R p c s s' \<Longrightarrow> R p c s' s'' \<Longrightarrow> R p c s s''"
    and cookie: "\<And>p c b q s. R p c s (snd (handle_hello_verify_request c b q s))"
    and stop: "\<And>p c reason s. R p c s (fail reason s)"
    and reass: "\<And>p c q l f b r s s'. f + length b \<le> l \<Longrightarrow> l \<le> MAX_HANDSHAKE_MESSAGE
        \<Longrightarrow> reassemble q l f b s = (r, s') \<Longrightarrow> R p c s s'"
    and ready: "\<And>p c q l f b t whole s s'. f + length b \<le> l \<Longrightarrow> l \<le> MAX_HANDSHAKE_MESSAGE
        \<Longrightarrow> carries p t q \<Longrightarrow> reassemble q l f b s = (Some whole, s') \<Longrightarrow> length (d_ready s') < MAX_PENDING_MESSAGES
        \<Longrightarrow> R p c s (snd (deliver_ready c (s'\<lparr>d_ready := AList.update q (t, whole) (d_ready s')\<rparr>)))"
  shows "R p c s (snd (handshake_loop c p hvo off s))"
proof (induction c p hvo off s rule: handshake_loop.induct)
  case (1 c p hvo off s)
  define t where "t = be_nat (slice p off (off + 1))"
  define l where "l = be_nat (slice p (off + 1) (off + 4))"
  define q where "q = be_nat (slice p (off + 4) (off + 6))"
  define f where "f = be_nat (slice p (off + 6) (off + 9))"
  define n where "n = be_nat (slice p (off + 9) (off + 12))"
  define b where "b = slice p (off + 12) (off + 12 + n)"
  show ?case
  proof (cases "off + 12 \<le> length p \<and> \<not> (hvo \<and> t \<noteq> HT_HELLO_VERIFY_REQUEST)
      \<and> \<not> (off + 12 + n > length p \<or> f + n > l) \<and> \<not> l > MAX_HANDSHAKE_MESSAGE")
    case False
    then show ?thesis
      by (subst handshake_loop.simps)
        (auto simp: Let_def t_def l_def q_def f_def n_def b_def r_refl stop)
  next
    case True
    note c1 = conjunct1 [OF True] and c2 = conjunct1 [OF conjunct2 [OF True]]
      and c3 = conjunct1 [OF conjunct2 [OF conjunct2 [OF True]]]
      and c4 = conjunct2 [OF conjunct2 [OF conjunct2 [OF True]]]
    have bl: "f + length b \<le> l" "l \<le> MAX_HANDSHAKE_MESSAGE" using True by (auto simp: b_def)
    have here: "carries p t q" using c1 by (auto simp: carries_def t_def q_def)
    have unfold: "handshake_loop c p hvo off s =
      (if t = HT_HELLO_VERIFY_REQUEST \<and> f = 0 then
         then_do (handle_hello_verify_request c b q s) (\<lambda>_ s. handshake_loop c p hvo (off + 12 + n) s)
       else if q < d_next_recv s then handshake_loop c p hvo (off + 12 + n) s
       else (case reassemble q l f b s of
           (None, s) \<Rightarrow> if d_failed s \<noteq> None then (Inr (), s) else handshake_loop c p hvo (off + 12 + n) s
         | (Some whole, s) \<Rightarrow>
             if length (d_ready s) \<ge> MAX_PENDING_MESSAGES then (Inr (), fail Too_many_ready s)
             else then_do (deliver_ready c (s\<lparr>d_ready := AList.update q (t, whole) (d_ready s)\<rparr>)) (\<lambda>_ s.
               if d_failed s \<noteq> None then (Inr (), s) else handshake_loop c p hvo (off + 12 + n) s)))"
      using True
      by (subst handshake_loop.simps)
        (simp only: Let_def t_def [symmetric] l_def [symmetric] q_def [symmetric] f_def [symmetric]
          n_def [symmetric] b_def [symmetric] if_True if_False simp_thms)
    note ih = "1.IH" [OF c1 t_def c2 l_def q_def f_def n_def refl c3 c4 b_def refl]
    show ?thesis
    proof (cases "t = HT_HELLO_VERIFY_REQUEST \<and> f = 0")
      case True
      then show ?thesis unfolding unfold
        by (simp only: if_True simp_thms) (rule then_do_rel [where R = "R p c", OF r_trans cookie], assumption+, rule ih(1), simp_all)
    next
      case no: False
      show ?thesis
      proof (cases "q < d_next_recv s")
        case True
        show ?thesis unfolding unfold using no True ih(2) [OF no True] by auto
      next
        case False
        obtain r s1 where r: "reassemble q l f b s = (r, s1)" by fastforce
        note re = reass [OF bl r]
        show ?thesis
        proof (cases r)
          case None
          then have "R p c s1 (snd (if d_failed s1 \<noteq> None then (Inr (), s1) else handshake_loop c p hvo (off + 12 + n) s1))"
            using ih(3) [OF no False] r r_refl by simp
          from r_trans [OF re this] show ?thesis
            unfolding unfold if_not_P [OF no] if_not_P [OF False] r prod.case None option.case by simp
        next
          case (Some whole)
          show ?thesis
          proof (cases "length (d_ready s1) \<ge> MAX_PENDING_MESSAGES")
            case True
            have "R p c s (fail Too_many_ready s1)" using r_trans [OF re stop] .
            then show ?thesis unfolding unfold using no False r Some True by auto
          next
            case room: False
            let ?s2 = "s1\<lparr>d_ready := AList.update q (t, whole) (d_ready s1)\<rparr>"
            have "R p c s (snd (then_do (deliver_ready c ?s2) (\<lambda>_ s.
               if d_failed s \<noteq> None then (Inr (), s) else handshake_loop c p hvo (off + 12 + n) s)))"
            proof (rule then_do_rel [where R = "R p c", OF r_trans], assumption+)
              show "R p c s (snd (deliver_ready c ?s2))" using ready [OF bl here r [unfolded Some]] room by simp
              fix x s3 assume "deliver_ready c ?s2 = (Inr x, s3)"
              then show "R p c s3 (snd (if d_failed s3 \<noteq> None then (Inr (), s3)
                  else handshake_loop c p hvo (off + 12 + n) s3))"
                using ih(4) [OF no False] r Some room r_refl by simp
            qed
            then show ?thesis unfolding unfold if_not_P [OF no] if_not_P [OF False] r prod.case Some option.case
                if_not_P [OF room] .
          qed
        qed
      qed
    qed
  qed
qed

lemma hs_ok_loop: "hs_ok c s (snd (handshake_loop c p hvo off s))"
proof (rule handshake_loop_rel [where R = "\<lambda>p. hs_ok"])
  fix c q l f b t whole s s'
  assume bl: "f + length b \<le> l" "l \<le> MAX_HANDSHAKE_MESSAGE" and r: "reassemble q l f b s = (Some whole, s')"
    and room: "length (d_ready s') < MAX_PENDING_MESSAGES"
  note re1 = hs_ok_reassemble(1) [OF bl r, where c = c] and re2 = hs_ok_reassemble(2) [OF bl r refl]
  let ?s2 = "s'\<lparr>d_ready := AList.update q (t, whole) (d_ready s')\<rparr>"
  have "hs_ok c s ?s2"
  proof -
    have "queues_ok s \<longrightarrow> queues_ok s'" using re1 by (simp add: hs_ok_def)
    moreover have "ready_sized (AList.update q (t, whole) (d_ready s'))"
      if "queues_ok s'" "length whole \<le> MAX_HANDSHAKE_MESSAGE"
    proof -
      have "length (AList.update q (t, whole) (d_ready s')) \<le> MAX_PENDING_MESSAGES"
        using room by (simp add: length_update)
      moreover have "length (snd (snd e)) \<le> MAX_HANDSHAKE_MESSAGE"
        if "e \<in> set (AList.update q (t, whole) (d_ready s'))" for e
        using that set_update_subset [of q "(t, whole)" "d_ready s'"] \<open>queues_ok s'\<close>
          \<open>length whole \<le> MAX_HANDSHAKE_MESSAGE\<close>
        by (auto simp: queues_ok_def)
      ultimately show ?thesis by (simp add: ready_sized_def)
    qed
    ultimately have q2: "queues_ok s \<longrightarrow> queues_ok ?s2"
      using re2 by (auto simp: queues_ok_iff)
    have "derived_keys c ?s2 = derived_keys c s'" by (rule derived_keys_cong) simp_all
    then have "keys_ok c ?s2 = keys_ok c s'" by (simp add: keys_ok_def)
    with re1 q2 show ?thesis by (simp add: hs_ok_def progress_def out_ok_def)
  qed
  from hs_ok_trans [OF this hs_ok_deliver_ready]
  show "hs_ok c s (snd (deliver_ready c ?s2))" .
qed (use hs_ok_trans hs_ok_cookie hs_ok_reassemble(1) in \<open>auto\<close>)

end
