(* ===== verification/Dtls_Reach.thy ===== *)
theory Dtls_Reach
  imports Dtls_Psk
begin

text \<open>
  What holds of a DTLS connection (\<open>_dtls_psk.py\<close>) over its whole life: the calls of its client
  as an operation type, reachability under any sequence of them, and the invariants. The record
  layer is where the two worlds meet: before the read epoch is active only epoch 0 is dispatched,
  afterwards only records authenticated under the derived keys.
\<close>

section \<open>What one record does\<close>

text \<open>The fields no handshake message changes.\<close>

definition kept :: "dtls \<Rightarrow> _" where
  "kept s = (d_inbox s, d_windows s, d_read_active s, d_appdata s, d_peer_closed s)"

lemma kept_of_input: "input_side s' = input_side s \<Longrightarrow> kept s' = kept s"
  by (simp add: kept_def input_side_def)

lemma kept_upd [simp]:
  "kept (s\<lparr>d_ready := a\<rparr>) = kept s" "kept (s\<lparr>d_pending := b\<rparr>) = kept s" "kept (fail r s) = kept s"
  "kept (s\<lparr>d_phase := p\<rparr>) = kept s" "kept (s\<lparr>d_cookie_count := n\<rparr>) = kept s"
  "kept (s\<lparr>d_cookie := q\<rparr>) = kept s" "kept (s\<lparr>d_transcript := t\<rparr>) = kept s"
  "kept (s\<lparr>d_next_recv := m\<rparr>) = kept s"
  by (simp_all add: kept_def fail_def)

lemma kept_deliver [simp]: "kept (snd (deliver_handshake c t q b s)) = kept s"
  by (simp add: kept_def input_side_handlers)

lemma kept_deliver_ready [simp]: "kept (snd (deliver_ready c s)) = kept s"
proof (induction c s rule: deliver_ready.induct)
  case (1 c s)
  show ?case
  proof (cases "map_of (d_ready s) (d_next_recv s)")
    case None
    then show ?thesis by (simp add: deliver_ready.simps [of c s])
  next
    case (Some tb)
    obtain t b where tb: "tb = (t, b)" by fastforce
    let ?s = "s\<lparr>d_ready := AList.delete (d_next_recv s) (d_ready s)\<rparr>"
    obtain r s1 where r: "deliver_handshake c t (d_next_recv s) b ?s = (r, s1)" by fastforce
    have k: "kept s1 = kept s"
      using kept_deliver [of c t "d_next_recv s" b ?s] r by simp
    show ?thesis
    proof (cases r)
      case (Inl e)
      then show ?thesis using Some tb r k by (simp add: deliver_ready.simps [of c s])
    next
      case (Inr u)
      then have "d_failed s1 = None \<longrightarrow> kept (snd (deliver_ready c s1)) = kept s1"
        using "1.IH" [OF Some tb [symmetric] refl] r by simp
      then show ?thesis using Some tb r k Inr by (simp add: deliver_ready.simps [of c s])
    qed
  qed
qed

lemma kept_reassemble [simp]: "kept (snd (reassemble q l f b s)) = kept s"
  by (simp add: reassemble_def Let_def split: option.split prod.split)

lemma kept_cookie [simp]: "kept (snd (handle_hello_verify_request c b q s)) = kept s"
proof -
  have "kept (snd (send_client_hello c k s)) = kept s" for k s by (rule kept_of_input) simp
  then show ?thesis
    unfolding handle_hello_verify_request_def Let_def
    by (auto intro!: then_do_frame [where g = kept])
qed

lemma kept_loop [simp]: "kept (snd (handshake_loop c p hvo off s)) = kept s"
proof (rule handshake_loop_rel [where R = "\<lambda>p c s s'. kept s' = kept s"])
  fix c q l f b t whole and s s' :: dtls
  assume "reassemble q l f b s = (Some whole, s')"
  then show "kept (snd (deliver_ready c (s'\<lparr>d_ready := AList.update q (t, whole) (d_ready s')\<rparr>))) = kept s"
    using kept_reassemble [of q l f b s] by simp
next
  fix q l f b r and s s' :: dtls
  assume "reassemble q l f b s = (r, s')"
  then show "kept s' = kept s" using kept_reassemble [of q l f b s] by simp
qed simp_all

text \<open>What every call guarantees, seen from outside.\<close>

definition conn_ok :: "crypto \<Rightarrow> dtls \<Rightarrow> dtls \<Rightarrow> bool" where
  "conn_ok c s s' \<longleftrightarrow>
     progress s s' \<and> out_ok s s' \<and> (queues_ok s \<longrightarrow> queues_ok s')
     \<and> (keys_ok c s \<longrightarrow> keys_ok c s' \<and> (d_transform s \<noteq> None \<longrightarrow> d_transform s' = d_transform s))"

lemma conn_ok_refl [simp]: "conn_ok c s s"
  by (simp add: conn_ok_def)

lemma conn_ok_trans: "conn_ok c s s' \<Longrightarrow> conn_ok c s' s'' \<Longrightarrow> conn_ok c s s''"
  unfolding conn_ok_def using progress_trans out_ok_trans by metis

lemma then_do_conn:
  "conn_ok c s (snd m) \<Longrightarrow> (\<And>x s'. m = (Inr x, s') \<Longrightarrow> conn_ok c s' (snd (f x s')))
     \<Longrightarrow> conn_ok c s (snd (then_do m f))"
  by (rule then_do_rel [where R = "conn_ok c"]) (blast intro: conn_ok_trans)+

lemma conn_of_hs: "hs_ok c s s' \<Longrightarrow> read_keyed s \<Longrightarrow> conn_ok c s s'"
  by (auto simp: hs_ok_def conn_ok_def)

text \<open>A change of the input-side fields and flags only.\<close>

lemma conn_ok_input:
  assumes "s' = s\<lparr>d_inbox := ib, d_windows := w, d_appdata := a, d_peer_closed := pc, d_read_active := ra\<rparr>"
    and "d_peer_closed s \<longrightarrow> pc" and "d_read_active s \<longrightarrow> ra"
    and "length (d_inbox s) \<le> MAX_INBOX \<Longrightarrow> length ib \<le> MAX_INBOX"
    and "length (d_appdata s) \<le> MAX_APPDATA \<Longrightarrow> length a \<le> MAX_APPDATA"
  shows "conn_ok c s s'"
proof -
  have "derived_keys c s' = derived_keys c s" by (rule derived_keys_cong) (simp_all add: assms(1))
  then have "keys_ok c s \<longrightarrow> keys_ok c s'" using assms(1,3) by (auto simp: keys_ok_def)
  with assms show ?thesis by (simp add: conn_ok_def progress_def out_ok_def queues_ok_def)
qed

lemma conn_ok_windows [simp]: "conn_ok c s (s\<lparr>d_windows := w\<rparr>)"
  by (rule conn_ok_input [where ib = "d_inbox s" and a = "d_appdata s" and pc = "d_peer_closed s"
        and ra = "d_read_active s" and w = w]) simp_all

lemma conn_ok_fail [simp]: "conn_ok c s (fail r s)"
proof -
  have "derived_keys c (fail r s) = derived_keys c s"
    by (rule derived_keys_cong) (simp_all add: fail_def)
  then have "keys_ok c (fail r s) = keys_ok c s" by (simp add: keys_ok_def fail_def)
  with hs_ok_fail [of c s r] show ?thesis by (simp add: conn_ok_def hs_ok_def fail_def)
qed

lemma conn_ok_dispatch:
  assumes "read_keyed s" shows "conn_ok c s (snd (dispatch_record c ct p auth hvo s))"
proof -
  have hs: "conn_ok c s (snd (handle_handshake_fragment c p auth hvo s))"
    using conn_of_hs [OF hs_ok_loop assms] by (simp add: handle_handshake_fragment_def)
  have ccs: "conn_ok c s (s\<lparr>d_read_active := True, d_windows := w\<rparr>)" for w
    by (rule conn_ok_input [where ib = "d_inbox s" and a = "d_appdata s" and pc = "d_peer_closed s"
          and ra = True and w = w]) simp_all
  have "conn_ok c s (s\<lparr>d_peer_closed := True\<rparr>)"
    by (rule conn_ok_input [where ib = "d_inbox s" and a = "d_appdata s" and pc = True
          and ra = "d_read_active s" and w = "d_windows s"]) simp_all
  then have alert: "conn_ok c s (handle_alert p auth s)" by (simp add: handle_alert_def Let_def)
  have app: "conn_ok c s (push_appdata p s)"
    by (rule conn_ok_input [where ib = "d_inbox s" and a = "d_appdata (push_appdata p s)"
          and pc = "d_peer_closed s" and ra = "d_read_active s" and w = "d_windows s"])
      (auto simp: push_appdata_def)
  show ?thesis
    unfolding dispatch_record_def using hs ccs alert app by (auto split: if_splits)
qed

text \<open>The record header as the code cuts it.\<close>

definition rec_epoch :: "bytes \<Rightarrow> nat" where "rec_epoch rec = be_nat (slice rec 3 5)"
definition rec_seq :: "bytes \<Rightarrow> nat" where "rec_seq rec = be_nat (slice rec 5 11)"
definition rec_type :: "bytes \<Rightarrow> nat" where "rec_type rec = be_nat (slice rec 0 1)"
definition rec_window :: "dtls \<Rightarrow> nat \<Rightarrow> replay_window" where
  "rec_window s epoch = (case d_windows s epoch of None \<Rightarrow> window_new | Some w \<Rightarrow> w)"

text \<open>The authentic payload of a record: in its version, epoch, window and under its keys.\<close>

definition authentic :: "crypto \<Rightarrow> dtls \<Rightarrow> bytes \<Rightarrow> bytes \<Rightarrow> bool" where
  "authentic c s rec payload \<longleftrightarrow>
     slice rec 1 3 = VERSION \<and> d_read_active s \<and> rec_epoch rec = 1
     \<and> \<not> is_replay (rec_window s 1) (rec_seq rec)
     \<and> (\<exists>t. d_transform s = Some t
           \<and> unprotect c t 1 (rec_seq rec) (rec_type rec) (drop 13 rec) = Inr (Some payload))"

text \<open>The state in which an authentic payload is dispatched.\<close>

definition accepted :: "dtls \<Rightarrow> bytes \<Rightarrow> dtls" where
  "accepted s rec = s\<lparr>d_windows := (d_windows s)(1 := Some (window_accept (rec_window s 1) (rec_seq rec)))\<rparr>"

text \<open>A record ends in one of three ways.\<close>

lemma handle_record_cases:
  obtains (dropped) w r where "handle_record c rec s = (r, s\<lparr>d_windows := w\<rparr>)"
      "\<nexists>payload. authentic c s rec payload"
  | (plain) hvo where "rec_epoch rec = 0" "\<not> d_read_active s"
      "handle_record c rec s = dispatch_record c (rec_type rec) (drop 13 rec) False hvo s"
  | (authentic) payload where "authentic c s rec payload"
      "handle_record c rec s = dispatch_record c (rec_type rec) payload True False (accepted s rec)"
proof -
  let ?old = "slice rec 1 3 \<noteq> VERSION"
  let ?ok = "slice rec 1 3 = [0xFE, 0xFF] \<and> rec_epoch rec = 0 \<and> rec_type rec = CT_HANDSHAKE
            \<and> (d_phase s = Sent_hello \<or> d_phase s = Sent_cookie_hello) \<and> take 1 (drop 13 rec) = [3]"
  have unf: "handle_record c rec s =
      (if ?old \<and> \<not> ?ok then (Inr (), s)
       else if rec_epoch rec \<noteq> (if d_read_active s then 1 else 0) then (Inr (), s)
       else if rec_epoch rec > 0 then
         (case d_transform s of
            None \<Rightarrow> (Inr (), s)
          | Some t \<Rightarrow>
              let s1 = s\<lparr>d_windows := (d_windows s)(rec_epoch rec := Some (rec_window s (rec_epoch rec)))\<rparr> in
              if is_replay (rec_window s (rec_epoch rec)) (rec_seq rec) then (Inr (), s1)
              else then_do (unprotect c t (rec_epoch rec) (rec_seq rec) (rec_type rec) (drop 13 rec), s1) (\<lambda>plain s1.
                  case plain of
                    None \<Rightarrow> (Inr (), s1)
                  | Some payload \<Rightarrow> dispatch_record c (rec_type rec) payload True ?old
                      (s1\<lparr>d_windows := (d_windows s1)(rec_epoch rec :=
                         Some (window_accept (rec_window s (rec_epoch rec)) (rec_seq rec)))\<rparr>)))
       else dispatch_record c (rec_type rec) (drop 13 rec) False ?old s)"
    unfolding handle_record_def Let_def rec_epoch_def rec_seq_def rec_type_def rec_window_def ..
  have same: "s\<lparr>d_windows := d_windows s\<rparr> = s" by simp
  consider (old) "?old" "\<not> ?ok" | (epoch) "\<not> (?old \<and> \<not> ?ok)" "rec_epoch rec \<noteq> (if d_read_active s then 1 else 0)"
    | (zero) "\<not> (?old \<and> \<not> ?ok)" "\<not> d_read_active s" "rec_epoch rec = 0"
    | (one) "\<not> ?old" "d_read_active s" "rec_epoch rec = 1"
    by (cases "d_read_active s"; cases ?old; cases ?ok) auto
  then show thesis
  proof cases
    case old
    then show thesis
      by (intro dropped [where w = "d_windows s" and r = "Inr ()"]) (simp_all add: unf authentic_def)
  next
    case epoch
    then show thesis
      by (intro dropped [where w = "d_windows s" and r = "Inr ()"]) (auto simp: unf authentic_def)
  next
    case zero
    then show thesis by (intro plain [where hvo = ?old]) (auto simp: unf)
  next
    case one
    show thesis
    proof (cases "d_transform s")
      case None
      then show thesis using one
        by (intro dropped [where w = "d_windows s" and r = "Inr ()"]) (simp_all add: unf authentic_def)
    next
      case (Some t)
      let ?w = "(d_windows s)(1 := Some (rec_window s 1))"
      show thesis
      proof (cases "is_replay (rec_window s 1) (rec_seq rec)")
        case True
        then show thesis using one Some
          by (intro dropped [where w = ?w and r = "Inr ()"])
            (simp_all add: unf authentic_def)
      next
        case False
        have not_old: "(?old) = False" using one(1) by simp
        let ?u = "unprotect c t 1 (rec_seq rec) (rec_type rec) (drop 13 rec)"
        have run: "handle_record c rec s =
            then_do (?u, s\<lparr>d_windows := ?w\<rparr>) (\<lambda>plain s1. case plain of
                None \<Rightarrow> (Inr (), s1)
              | Some payload \<Rightarrow> dispatch_record c (rec_type rec) payload True False
                  (s1\<lparr>d_windows := (d_windows s1)(1 := Some (window_accept (rec_window s 1) (rec_seq rec)))\<rparr>))"
          unfolding unf one(3) not_old using one(2) Some False by simp
        show thesis
        proof (cases "\<exists>payload. ?u = Inr (Some payload)")
          case True
          then obtain payload where u: "?u = Inr (Some payload)" by blast
          show thesis
            by (rule authentic [where payload = payload])
              (use one Some False u run in \<open>simp_all add: authentic_def accepted_def\<close>)
        next
          case False
          then show thesis using run Some
            by (cases ?u) (auto intro!: dropped [where w = ?w] simp: authentic_def split: option.splits)
        qed
      qed
    qed
  qed
qed

lemma conn_ok_record: "conn_ok c s (snd (handle_record c rec s))"
proof (cases rule: handle_record_cases [where c = c and rec = rec and s = s])
  case (dropped w r)
  then show ?thesis by simp
next
  case (plain hvo)
  then have "read_keyed s" by (simp add: read_keyed_def)
  with plain(3) show ?thesis by (simp add: conn_ok_dispatch)
next
  case (authentic payload)
  from authentic(1) have "read_keyed (accepted s rec)"
    by (auto simp: authentic_def read_keyed_def accepted_def)
  from conn_ok_trans [OF conn_ok_windows conn_ok_dispatch, OF this [unfolded accepted_def]]
  show ?thesis unfolding authentic(2) accepted_def .
qed

lemma conn_ok_datagram: "conn_ok c s (snd (drain_datagram c d off s))"
proof (induction c d off s rule: drain_datagram.induct)
  case (1 c d off s)
  define e where "e = off + 13 + be_nat (slice d (off + 11) (off + 13))"
  show ?case
  proof (cases "off + 13 \<le> length d \<and> e \<le> length d")
    case False
    then show ?thesis by (subst drain_datagram.simps) (auto simp: Let_def e_def)
  next
    case True
    then have le: "off + 13 \<le> length d" "\<not> e > length d" by simp_all
    have "drain_datagram c d off s = then_do (handle_record c (slice d off e) s) (\<lambda>_ s.
            if d_failed s \<noteq> None then (Inr True, s) else drain_datagram c d e s)"
      using le by (subst drain_datagram.simps) (simp only: Let_def e_def [symmetric] if_True if_False)
    moreover have "conn_ok c s' (snd (if d_failed s' \<noteq> None then (Inr True, s') else drain_datagram c d e s'))"
      if "handle_record c (slice d off e) s = (Inr x, s')" for x s'
      using "1.IH" [OF le(1) e_def le(2) that] by simp
    ultimately show ?thesis by (simp only:) (rule then_do_conn [OF conn_ok_record])
  qed
qed

lemma conn_ok_inbox: "length (d_inbox s) \<le> MAX_INBOX \<Longrightarrow> conn_ok c s (snd (drain_inbox c s))"
proof -
  have "conn_ok c s (snd (drain_datagrams c ds s))" if "length ds \<le> MAX_INBOX" for ds
    using that
  proof (induction ds arbitrary: s)
    case (Cons d ds)
    have "conn_ok c s (s\<lparr>d_inbox := ds\<rparr>)"
      by (rule conn_ok_input [where ib = ds and a = "d_appdata s" and pc = "d_peer_closed s"
            and ra = "d_read_active s" and w = "d_windows s"]) (use Cons.prems in simp_all)
    from conn_ok_trans [OF this conn_ok_datagram]
    show ?case unfolding drain_datagrams.simps
      by (rule then_do_conn) (use Cons in auto)
  qed simp
  then show "length (d_inbox s) \<le> MAX_INBOX \<Longrightarrow> conn_ok c s (snd (drain_inbox c s))"
    by (simp add: drain_inbox_def)
qed

section \<open>The life of a connection\<close>

text \<open>The calls a client makes, as \<open>DtlsPskClient\<close> offers them.\<close>

datatype dtls_op =
  Op_write bytes | Op_read nat | Op_handshake | Op_send bytes | Op_recv nat | Op_shutdown
| Op_get_timeout | Op_handle_timeout

fun dtls_step :: "crypto \<Rightarrow> dtls_op \<Rightarrow> dtls \<Rightarrow> dtls" where
  "dtls_step c (Op_write d) s = snd (bio_write d s)"
| "dtls_step c (Op_read n) s = snd (bio_read n s)"
| "dtls_step c Op_handshake s = snd (do_handshake c s)"
| "dtls_step c (Op_send d) s = snd (dtls_send c d s)"
| "dtls_step c (Op_recv n) s = snd (dtls_recv c n s)"
| "dtls_step c Op_shutdown s = snd (dtls_shutdown c s)"
| "dtls_step c Op_get_timeout s = snd (get_timeout c s)"
| "dtls_step c Op_handle_timeout s = snd (handle_timeout c s)"

inductive dtls_reach :: "crypto \<Rightarrow> dtls \<Rightarrow> bool" for c where
  born: "dtls_new identity key mtu = Inr s \<Longrightarrow> dtls_reach c s"
| call: "dtls_reach c s \<Longrightarrow> dtls_reach c (dtls_step c op s)"

lemma conn_ok_emit: "conn_ok c s (snd (emit_record c ct p s))"
proof -
  let ?s' = "snd (emit_record c ct p s)"
  have f: "emit_frame ?s' = emit_frame s" by simp
  then have "derived_keys c ?s' = derived_keys c s"
    by (intro derived_keys_cong) (simp_all add: emit_frame_def)
  with f have "keys_ok c ?s' = keys_ok c s"
    by (simp add: keys_ok_def emit_frame_def input_side_def)
  moreover have "queues_ok ?s' = queues_ok s" by (rule queues_input) simp
  moreover have "out_ok s ?s'" by (rule emit_record_out)
  ultimately show ?thesis using f
    by (auto simp: conn_ok_def progress_def out_ok_def emit_frame_def input_side_def)
qed

lemma conn_ok_hello:
  assumes "d_phase s = Start"
  shows "conn_ok c s (snd (then_do (send_client_hello c [] s) (\<lambda>_ s. (Inr (), s\<lparr>d_phase := Sent_hello\<rparr>))))"
proof -
  obtain r s1 where r: "send_client_hello c [] s = (r, s1)" by fastforce
  let ?s2 = "s1\<lparr>d_phase := Sent_hello\<rparr>"
  have "hello_frame s1 = hello_frame s" using send_client_hello_frame [of c "[]" s] r by simp
  then have f: "d_identity s1 = d_identity s" "d_psk s1 = d_psk s" "d_phase s1 = Start"
    "d_send_epoch s1 = d_send_epoch s" "d_transform s1 = d_transform s" "d_private_key s1 = d_private_key s"
    "d_peer_point s1 = d_peer_point s" "d_read_active s1 = d_read_active s" "d_peer_closed s1 = d_peer_closed s"
    using assms by (simp_all add: hello_frame_def input_side_def)
  have q: "queues_ok s1 = queues_ok s" by (rule queues_input) (use input_side_hello [of c "[]" s] r in simp)
  then have q2: "queues_ok ?s2 = queues_ok s" by (simp add: queues_ok_def)
  have o: "out_ok s s1" using send_client_hello_out [of s c "[]"] r by simp
  have k: "keys_ok c s1 \<and> keys_ok c ?s2 \<and> d_transform s = None" if "keys_ok c s"
  proof -
    have none: "d_transform s = None" using keys_before [OF that] assms by simp
    from that have "d_send_epoch s = 0 \<and> (d_private_key s \<noteq> None \<longrightarrow> point_valid c (d_peer_point s))"
      unfolding keys_none [OF none] by blast
    then show ?thesis using keys_none [of s1] keys_none [of ?s2] f none by simp
  qed
  have "conn_ok c s s1" "conn_ok c s ?s2"
    using f q q2 o k assms by (auto simp: conn_ok_def progress_def out_ok_def)
  then show ?thesis using r by (cases r) simp_all
qed

lemma if_conn:
  "(P \<Longrightarrow> conn_ok c s (snd a)) \<Longrightarrow> (\<not> P \<Longrightarrow> conn_ok c s (snd b)) \<Longrightarrow> conn_ok c s (snd (if P then a else b))"
  by simp

lemma conn_ok_handshake:
  assumes "queues_ok s" shows "conn_ok c s (snd (do_handshake c s))"
proof -
  let ?m = "if d_phase s = Start then
      then_do (send_client_hello c [] s) (\<lambda>_ s. (Inr (), s\<lparr>d_phase := Sent_hello\<rparr>)) else (Inr (), s)"
  have m: "conn_ok c s (snd ?m)" using conn_ok_hello by simp
  have "conn_ok c s (snd (then_do ?m (\<lambda>_ s. then_do (drain_inbox c s) (\<lambda>_ s.
          if d_failed s \<noteq> None then (Inl DtlsError, s)
          else if d_phase s \<noteq> Established then (Inl WantRead, s) else (Inr (), s)))))"
  proof (rule then_do_conn [OF m])
    fix x s' assume "?m = (Inr x, s')"
    with m have "conn_ok c s s'" by (simp only: snd_conv)
    with assms have "length (d_inbox s') \<le> MAX_INBOX" by (simp add: conn_ok_def queues_ok_def)
    from conn_ok_inbox [OF this] show "conn_ok c s' (snd (then_do (drain_inbox c s') (\<lambda>_ s.
          if d_failed s \<noteq> None then (Inl DtlsError, s)
          else if d_phase s \<noteq> Established then (Inl WantRead, s) else (Inr (), s))))"
      by (rule then_do_conn) simp
  qed
  then show ?thesis unfolding do_handshake_def
    by - (rule if_conn, simp, rule if_conn, simp, assumption)
qed

lemma conn_ok_appdata:
  "(length (d_appdata s) \<le> MAX_APPDATA \<Longrightarrow> length a \<le> MAX_APPDATA) \<Longrightarrow> conn_ok c s (s\<lparr>d_appdata := a\<rparr>)"
  by (rule conn_ok_input [where ib = "d_inbox s" and a = a and pc = "d_peer_closed s"
        and ra = "d_read_active s" and w = "d_windows s"]) simp_all

lemma conn_ok_recv:
  assumes "queues_ok s" shows "conn_ok c s (snd (dtls_recv c n s))"
  unfolding dtls_recv_def
proof (rule then_do_conn)
  show "conn_ok c s (snd (if d_appdata s = [] then drain_inbox c s else (Inr (), s)))"
    using conn_ok_inbox [of s c] assms by (simp add: queues_ok_def)
qed (auto intro!: conn_ok_appdata split: list.split)

lemma conn_ok_outside:
  assumes "s' = s\<lparr>d_outbox := ob, d_deadline := dl, d_rto := rt, d_calls := n\<rparr>"
    and "length (d_outbox s) \<le> MAX_OUTBOX \<Longrightarrow> length ob \<le> MAX_OUTBOX"
  shows "conn_ok c s s'"
proof -
  have "derived_keys c s' = derived_keys c s" by (rule derived_keys_cong) (simp_all add: assms(1))
  with assms show ?thesis by (simp add: conn_ok_def progress_def out_ok_def queues_ok_def keys_ok_def)
qed

text \<open>Every call but the retransmission keeps the bounds of the output too.\<close>

lemma step_ok:
  assumes "queues_ok s" and "op \<noteq> Op_handle_timeout"
  shows "conn_ok c s (dtls_step c op s)"
proof (cases op)
  case (Op_write d)
  have "conn_ok c s (s\<lparr>d_inbox := ib\<rparr>)" if "length ib \<le> MAX_INBOX" for ib
    by (rule conn_ok_input [where ib = ib and a = "d_appdata s" and pc = "d_peer_closed s"
          and ra = "d_read_active s" and w = "d_windows s"]) (use that in simp_all)
  with Op_write show ?thesis by (simp add: bio_write_def)
next
  case (Op_read n)
  have "conn_ok c s (s\<lparr>d_outbox := drop n (d_outbox s)\<rparr>)"
    by (rule conn_ok_outside [where ob = "drop n (d_outbox s)" and dl = "d_deadline s"
          and rt = "d_rto s" and n = "d_calls s"]) simp_all
  with Op_read show ?thesis by (simp add: bio_read_def)
next
  case (Op_send d)
  have "conn_ok c s (snd (then_do (emit_record c CT_APPLICATION_DATA d s) (\<lambda>_ s. (Inr (length d), s))))"
    by (rule then_do_conn [OF conn_ok_emit]) simp
  with Op_send show ?thesis by (simp add: dtls_send_def)
next
  case Op_get_timeout
  have "conn_ok c s (s\<lparr>d_calls := n\<rparr>)" for n
    by (rule conn_ok_outside [where ob = "d_outbox s" and dl = "d_deadline s"
          and rt = "d_rto s" and n = n]) simp_all
  with Op_get_timeout show ?thesis by (simp add: get_timeout_def read_clock_def split: option.split)
next
  case Op_shutdown
  then show ?thesis by (simp add: dtls_shutdown_def conn_ok_emit)
next
  case Op_handshake
  then show ?thesis using conn_ok_handshake assms(1) by simp
next
  case (Op_recv n)
  then show ?thesis using conn_ok_recv assms(1) by simp
qed (use assms in simp)

lemma timeout_ok:
  "progress s (dtls_step c Op_handle_timeout s)"
  "queues_ok (dtls_step c Op_handle_timeout s) = queues_ok s"
  "keys_ok c (dtls_step c Op_handle_timeout s) = keys_ok c s"
  "d_transform (dtls_step c Op_handle_timeout s) = d_transform s"
  "d_send_seq (dtls_step c Op_handle_timeout s) = d_send_seq s"
proof -
  let ?s' = "dtls_step c Op_handle_timeout s"
  have "derived_keys c ?s' = derived_keys c s"
    by (rule derived_keys_cong) (simp_all add: handle_timeout_def read_clock_def Let_def)
  then show "progress s ?s'" "queues_ok ?s' = queues_ok s" "keys_ok c ?s' = keys_ok c s"
    "d_transform ?s' = d_transform s" "d_send_seq ?s' = d_send_seq s"
    by (simp_all add: progress_def keys_ok_def queues_ok_def handle_timeout_def read_clock_def Let_def)
qed

inductive_cases dtls_reachE: "dtls_reach c s"

lemma new_ok:
  assumes "dtls_new identity key mtu = Inr s"
  shows "queues_ok s" and "keys_ok c s" and "d_send_seq s = 0"
  using assms by (auto simp: dtls_new_def queues_ok_def keys_ok_def result_simps split: pyval.splits if_splits)

lemma reach_ok: "dtls_reach c s \<Longrightarrow> queues_ok s \<and> keys_ok c s \<and> d_send_seq s \<le> MAX_SEQ + 1"
proof (induction rule: dtls_reach.induct)
  case (born identity key mtu s)
  then show ?case using new_ok by simp
next
  case (call s op)
  then show ?case
  proof (cases "op = Op_handle_timeout")
    case True
    with call.IH show ?thesis by (simp only: timeout_ok)
  next
    case False
    with step_ok [of s op c] call.IH show ?thesis by (simp add: conn_ok_def out_ok_def)
  qed
qed

section \<open>Properties\<close>

lemma authentic_unique: "authentic c s rec p \<Longrightarrow> authentic c s rec p' \<Longrightarrow> p' = p"
  by (auto simp: authentic_def)

lemma keys_established: "keys_ok c s \<Longrightarrow> d_phase s = Established \<Longrightarrow> d_read_active s"
  by (simp add: keys_ok_def)

lemma dispatch_phase:
  "ct \<noteq> CT_HANDSHAKE \<Longrightarrow> d_phase (snd (dispatch_record c ct p auth hvo s)) = d_phase s"
  by (simp add: dispatch_record_def handle_alert_def push_appdata_def fail_def Let_def)

lemma dispatch_handshake:
  "dispatch_record c CT_HANDSHAKE p auth hvo s = handle_handshake_fragment c p auth hvo s"
  by (simp add: dispatch_record_def)

lemma deliver_established:
  "d_phase (snd (deliver_handshake c t q b s)) = Established \<longleftrightarrow>
     d_phase s = Established
     \<or> t = HT_FINISHED \<and> q < 65536 \<and> d_read_active s \<and> d_phase s = Sent_client_flight
       \<and> length b = 12 \<and> b = verify_data ''server finished'' (d_master_secret s) (d_transcript s)"
proof -
  have est: "d_phase (handle_server_hello b s') = Established \<longleftrightarrow> d_phase s' = Established"
    "d_phase (handle_server_key_exchange c b s') = Established \<longleftrightarrow> d_phase s' = Established"
    "d_phase (handle_server_finished b s') = Established \<longleftrightarrow> d_phase s' = Established \<or>
       d_read_active s' \<and> d_phase s' = Sent_client_flight \<and> length b = 12
       \<and> b = verify_data ''server finished'' (d_master_secret s') (d_transcript s')" for s'
    by (auto simp: handle_server_hello_def handle_server_key_exchange_def handle_server_finished_def
        fail_def Let_def)
  have flight: "d_phase (snd (send_client_flight c s')) = d_phase s'" for s'
    using send_client_flight_effect [of c s'] by (simp add: flight_frame_def)
  have whole: "(\<exists>m. whole_message HT_FINISHED q b = Inr m) \<longleftrightarrow> q < 65536" if "length b = 12"
    using that by (cases "q < 65536") (auto simp: whole_message_def pack_be_def to_bytes_def byte_of_def result_simps)
  show ?thesis
  proof (cases "whole_message t q b")
    case (Inl e)
    moreover have "\<not> (t = HT_FINISHED \<and> q < 65536 \<and> length b = 12)" using Inl whole by auto
    ultimately show ?thesis by (auto simp: deliver_handshake_def)
  next
    case (Inr m)
    moreover have "q < 65536" if "t = HT_FINISHED" "length b = 12" using Inr whole that by auto
    ultimately show ?thesis by (auto simp: deliver_handshake_def Let_def est flight)
  qed
qed

text \<open>
  A Finished message with the verify data over the session's master secret and its transcript, extended by
  what was logged since; it waited among the messages received, or a fragment of it is in this payload.
\<close>

definition finished_over :: "bytes \<Rightarrow> dtls \<Rightarrow> bytes \<Rightarrow> nat \<Rightarrow> bytes \<Rightarrow> bool" where
  "finished_over payload s logged q b \<longleftrightarrow>
     length b = 12 \<and> b = verify_data ''server finished'' (d_master_secret s) (d_transcript s @ logged)
     \<and> ((q, HT_FINISHED, b) \<in> set (d_ready s) \<or> carries payload HT_FINISHED q)"

text \<open>What holds while the messages of an authentic record are delivered.\<close>

definition on_course :: "bytes \<Rightarrow> dtls \<Rightarrow> dtls \<Rightarrow> bool" where
  "on_course payload s x \<longleftrightarrow>
     (\<forall>q t b. (q, t, b) \<in> set (d_ready x) \<longrightarrow> (q, t, b) \<in> set (d_ready s) \<or> carries payload t q)
     \<and> d_read_active x \<and> d_master_secret x = d_master_secret s
     \<and> (\<exists>logged. d_transcript x = d_transcript s @ logged)
     \<and> (d_phase x = Sent_client_flight
        \<or> d_phase x = Established
          \<and> (\<exists>logged later q b. d_transcript x = d_transcript s @ logged @ later \<and> finished_over payload s logged q b))"

lemma on_course_fail [simp]: "on_course payload s (fail r x) = on_course payload s x"
  by (simp add: on_course_def fail_def)

lemma on_course_next [simp]: "on_course payload s (x\<lparr>d_next_recv := n\<rparr>) = on_course payload s x"
  by (simp add: on_course_def)

lemma on_course_pending [simp]: "on_course payload s (x\<lparr>d_pending := n\<rparr>) = on_course payload s x"
  by (simp add: on_course_def)

lemma on_course_subset:
  "on_course payload s x \<Longrightarrow> (\<And>q t b. (q, t, b) \<in> set r \<Longrightarrow> (q, t, b) \<in> set (d_ready x) \<or> carries payload t q)
     \<Longrightarrow> on_course payload s (x\<lparr>d_ready := r\<rparr>)"
  unfolding on_course_def by simp blast

lemma on_course_phase: "on_course payload s x \<Longrightarrow> d_phase x = Sent_client_flight \<or> d_phase x = Established"
  by (auto simp: on_course_def)

lemma on_course_log: "on_course payload s x \<Longrightarrow> on_course payload s (x\<lparr>d_transcript := d_transcript x @ m\<rparr>)"
  unfolding on_course_def by fastforce

lemma on_course_deliver:
  assumes "on_course payload s x" and "(q, t, b) \<in> set (d_ready s) \<or> carries payload t q"
  shows "on_course payload s (snd (deliver_handshake c t q b x))"
proof -
  let ?x = "x\<lparr>d_next_recv := q + 1\<rparr>"
  have x: "on_course payload s ?x" using assms(1) by simp
  note phase = on_course_phase [OF x]
  have log: "on_course payload s (?x\<lparr>d_transcript := d_transcript ?x @ m\<rparr>)" for m by (rule on_course_log [OF x])
  have sh: "handle_server_hello b (?x\<lparr>d_transcript := d_transcript ?x @ m\<rparr>) = ?x\<lparr>d_transcript := d_transcript ?x @ m\<rparr>"
    "handle_server_key_exchange c b (?x\<lparr>d_transcript := d_transcript ?x @ m\<rparr>) = ?x\<lparr>d_transcript := d_transcript ?x @ m\<rparr>" for m
    using phase by (auto simp: handle_server_hello_def handle_server_key_exchange_def)
  have fin: "on_course payload s (handle_server_finished b ?x)" if "t = HT_FINISHED"
  proof (cases "d_phase x = Sent_client_flight \<and> length b = 12
      \<and> b = verify_data ''server finished'' (d_master_secret x) (d_transcript x)")
    case True
    obtain logged where logged: "d_transcript x = d_transcript s @ logged" using assms(1) by (auto simp: on_course_def)
    have "finished_over payload s logged q b"
      using True assms that logged by (auto simp: finished_over_def on_course_def)
    then show ?thesis using True assms(1) logged
      by (force simp: handle_server_finished_def on_course_def)
  next
    case False
    then show ?thesis using x by (auto simp: handle_server_finished_def)
  qed
  show ?thesis
    unfolding deliver_handshake_def Let_def
    by (cases "whole_message t q b") (use x log sh fin phase in \<open>auto\<close>)
qed

lemma on_course_deliver_ready: "on_course payload s x \<Longrightarrow> on_course payload s (snd (deliver_ready c x))"
proof (induction c x rule: deliver_ready.induct)
  case (1 c x)
  show ?case
  proof (cases "map_of (d_ready x) (d_next_recv x)")
    case None
    then show ?thesis using 1(2) by (simp add: deliver_ready.simps [of c x])
  next
    case (Some m)
    obtain t b where m: "m = (t, b)" by fastforce
    let ?q = "d_next_recv x" and ?x = "x\<lparr>d_ready := AList.delete (d_next_recv x) (d_ready x)\<rparr>"
    have x: "on_course payload s ?x"
      by (rule on_course_subset [OF 1(2)]) (auto simp: AList.delete_eq)
    have "(?q, t, b) \<in> set (d_ready s) \<or> carries payload t ?q"
      using 1(2) map_of_SomeD [OF Some] m by (auto simp: on_course_def)
    then have d: "on_course payload s (snd (deliver_handshake c t ?q b ?x))" by (rule on_course_deliver [OF x])
    show ?thesis
    proof (cases "deliver_handshake c t ?q b ?x")
      case (Pair r x')
      then show ?thesis
        using d Some m 1(1) [OF Some m [symmetric] refl, of "projr r" x']
        by (cases r) (auto simp: deliver_ready.simps [of c x] Let_def)
    qed
  qed
qed

lemma on_course_reassemble:
  "on_course payload s x \<Longrightarrow> on_course payload s (snd (reassemble q l f b x))"
  by (auto simp: reassemble_def Let_def split: prod.split)

lemma reassemble_ready: "d_ready (snd (reassemble q l f b x)) = d_ready x"
  by (auto simp: reassemble_def Let_def fail_def split: prod.split)

lemma on_course_cookie:
  "on_course payload s x \<Longrightarrow> handle_hello_verify_request c b q x = (Inr (), x)"
  using on_course_phase by (fastforce simp: handle_hello_verify_request_def)

lemma on_course_loop:
  assumes "on_course payload s x"
  shows "on_course payload s (snd (handshake_loop c payload hvo off x))"
proof -
  have "on_course payload s x \<longrightarrow> on_course payload s (snd (handshake_loop c payload hvo off x))"
  proof (rule handshake_loop_rel [where R = "\<lambda>payload c x y. on_course payload s x \<longrightarrow> on_course payload s y"])
    fix payload c q l f b t whole and x y :: dtls
    assume "carries payload t q" and r: "reassemble q l f b x = (Some whole, y)"
    then have "on_course payload s x \<longrightarrow> on_course payload s (y\<lparr>d_ready := AList.update q (t, whole) (d_ready y)\<rparr>)"
      using on_course_reassemble [of payload s x q l f b] set_update_subset [of q "(t, whole)" "d_ready y"]
      by (auto intro!: on_course_subset)
    then show "on_course payload s x \<longrightarrow>
        on_course payload s (snd (deliver_ready c (y\<lparr>d_ready := AList.update q (t, whole) (d_ready y)\<rparr>)))"
      using on_course_deliver_ready by blast
  next
    fix payload c q l f b r and x y :: dtls
    assume "reassemble q l f b x = (r, y)"
    then show "on_course payload s x \<longrightarrow> on_course payload s y"
      using on_course_reassemble [of payload s x q l f b] by simp
  next
    fix payload c b q and x :: dtls
    show "on_course payload s x \<longrightarrow> on_course payload s (snd (handle_hello_verify_request c b q x))"
      using on_course_cookie by simp
  qed simp_all
  then show ?thesis using assms by blast
qed


lemma length_verify_data [simp]: "length (verify_data l m tr) = 12"
  by (simp add: verify_data_def tls_prf_def)

text \<open>A record that holds one whole message, the next one due.\<close>

lemma loop_whole:
  assumes "whole_message t q b = Inr p" and "t \<noteq> HT_HELLO_VERIFY_REQUEST" and "d_next_recv s \<le> q"
    and "length b \<le> MAX_HANDSHAKE_MESSAGE" and "length (d_ready s) < MAX_PENDING_MESSAGES"
  shows "handshake_loop c p False 0 s =
    then_do (deliver_ready c (s\<lparr>d_ready := AList.update q (t, b) (d_ready s)\<rparr>)) (\<lambda>_ s. (Inr (), s))"
proof -
  have p: "p = mk_byte t # nat_be 3 (length b) @ nat_be 2 q @ [0, 0, 0] @ nat_be 3 (length b) @ b"
    and sz: "t < 256" "length b < 256 ^ 3" "q < 256 ^ 2"
    using assms(1) by (auto simp: whole_message_def result_simps byte_of_def mk_byte_def split: if_splits)
  have len: "length p = 12 + length b" by (simp add: p)
  have f: "be_nat (slice p 0 1) = t" "be_nat (slice p 1 4) = length b" "be_nat (slice p 4 6) = q"
    "be_nat (slice p 6 9) = 0" "be_nat (slice p 9 12) = length b" "slice p 12 (12 + length b) = b"
    using sz by (simp_all add: p slice_def be_nat_Cons)
  have stop: "handshake_loop c p False (12 + length b) s' = (Inr (), s')" for s'
    by (subst handshake_loop.simps) (simp add: len)
  show ?thesis
    by (subst handshake_loop.simps)
      (use assms(2-5) in \<open>simp add: f f [unfolded slice_0 One_nat_def] len reassemble_def stop Let_def cong: if_cong\<close>)
qed


lemma loop_finished:
  assumes "whole_message HT_FINISHED (d_next_recv s) b = Inr p" and "length (d_ready s) < MAX_PENDING_MESSAGES"
    and "d_phase s = Sent_client_flight" and "d_read_active s"
    and "b = verify_data ''server finished'' (d_master_secret s) (d_transcript s)"
  shows "d_phase (snd (handshake_loop c p False 0 s)) = Established"
proof -
  let ?r = "AList.update (d_next_recv s) (HT_FINISHED, b) (d_ready s)"
  let ?s = "s\<lparr>d_ready := AList.delete (d_next_recv s) ?r\<rparr>"
  have b: "length b = 12" using assms(5) by simp
  obtain r x where x: "deliver_handshake c HT_FINISHED (d_next_recv s) b ?s = (r, x)" by fastforce
  have q: "d_next_recv s < 65536" using assms(1) by (auto simp: whole_message_def result_simps split: if_splits)
  then have est: "d_phase x = Established"
    using deliver_established [of c HT_FINISHED "d_next_recv s" b ?s] x assms b by simp
  have "phase_rank (d_phase x) \<le> phase_rank (d_phase (snd (deliver_ready c x)))"
    using hs_ok_deliver_ready [of c x] by (simp add: hs_ok_def progress_def)
  then have "d_phase (snd (deliver_ready c x)) = Established"
    using est by (cases "d_phase (snd (deliver_ready c x))") simp_all
  then have "d_phase (snd (deliver_ready c (s\<lparr>d_ready := ?r\<rparr>))) = Established"
    using x est by (subst deliver_ready.simps) (cases r, auto simp: update_conv')
  moreover have "handshake_loop c p False 0 s =
      then_do (deliver_ready c (s\<lparr>d_ready := ?r\<rparr>)) (\<lambda>_ s. (Inr (), s))"
    by (rule loop_whole [OF assms(1)]) (use assms(2) b in simp_all)
  ultimately show ?thesis
    by (cases "deliver_ready c (s\<lparr>d_ready := ?r\<rparr>)"; cases "fst (deliver_ready c (s\<lparr>d_ready := ?r\<rparr>))") auto
qed


definition demo_client :: dtls where
  "demo_client = (case dtls_new (PyBytes [1]) (PyBytes (replicate 16 2)) (PyInt 1400) of Inr s \<Rightarrow> s)"

lemma demo_new: "dtls_new (PyBytes [1]) (PyBytes (replicate 16 2)) (PyInt 1400) = Inr demo_client"
  by (simp add: demo_client_def dtls_new_def result_simps)

lemma demo_reach: "dtls_reach c demo_client"
  by (rule dtls_reach.born [OF demo_new])


text \<open>C2.
  Application data is only ever queued from records that were authenticated under the session's
  keys, in order of acceptance: one record appends exactly its nonempty authentic payload, the
  oldest queued one making room when 256 are waiting, and any other record leaves the queue as
  it was.
\<close>

theorem dtls_appdata_authenticated:
  "d_appdata (snd (handle_record c rec s)) =
     (if rec_type rec = CT_APPLICATION_DATA \<and> (\<exists>payload. payload \<noteq> [] \<and> authentic c s rec payload)
      then (if length (d_appdata s) \<ge> MAX_APPDATA then tl (d_appdata s) else d_appdata s)
             @ [THE payload. authentic c s rec payload]
      else d_appdata s)"
proof -
  have app: "d_appdata (snd (dispatch_record c ct p auth hvo s')) =
      (if ct = CT_APPLICATION_DATA \<and> auth then d_appdata (push_appdata p s') else d_appdata s')" for ct p auth hvo s'
  proof -
    have "d_appdata (snd (handle_handshake_fragment c p auth hvo s')) = d_appdata s'"
      using kept_loop [of c p hvo 0 s'] by (simp add: handle_handshake_fragment_def kept_def)
    then show ?thesis by (simp add: dispatch_record_def handle_alert_def fail_def Let_def)
  qed
  show ?thesis
  proof (cases rule: handle_record_cases [where c = c and rec = rec and s = s])
    case (dropped w r)
    then show ?thesis by auto
  next
    case (plain hvo)
    then have "\<nexists>payload. authentic c s rec payload" by (auto simp: authentic_def)
    then show ?thesis unfolding plain(3) app by auto
  next
    case (authentic p)
    have "(THE payload. authentic c s rec payload) = p"
      using authentic(1) authentic_unique by (intro the_equality) blast+
    moreover have "(\<exists>payload. payload \<noteq> [] \<and> authentic c s rec payload) = (p \<noteq> [])"
      using authentic(1) authentic_unique by blast
    moreover have "d_appdata (accepted s rec) = d_appdata s" by (simp add: accepted_def)
    ultimately show ?thesis unfolding authentic(2) app by (simp add: push_appdata_def)
  qed
qed

text \<open>A connection's memory is bounded whatever the peer sends and whatever its client calls: in any
  reachable state the inbox, the application queue and the two message tables are within their
  limits, every partly received message has a buffer of at most 16384 bytes, and the record
  sequence number never passes the 48-bit limit by more than the failing attempt. No call but the
  retransmission lets the outbox grow past its limit.
\<close>

theorem dtls_memory_bounded:
  assumes "dtls_reach c s"
  shows "length (d_inbox s) \<le> MAX_INBOX \<and> length (d_appdata s) \<le> MAX_APPDATA
    \<and> length (d_pending s) \<le> MAX_PENDING_MESSAGES \<and> length (d_ready s) \<le> MAX_PENDING_MESSAGES
    \<and> (\<forall>(q, l, buffer, seen) \<in> set (d_pending s).
          l \<le> MAX_HANDSHAKE_MESSAGE \<and> length buffer = l \<and> length seen = l)
    \<and> (\<forall>(q, t, body) \<in> set (d_ready s). length body \<le> MAX_HANDSHAKE_MESSAGE)
    \<and> d_send_seq s \<le> MAX_SEQ + 1
    \<and> (length (d_outbox s) \<le> MAX_OUTBOX \<and> op \<noteq> Op_handle_timeout
         \<longrightarrow> length (d_outbox (dtls_step c op s)) \<le> MAX_OUTBOX)"
proof -
  have r: "queues_ok s" "d_send_seq s \<le> MAX_SEQ + 1" using reach_ok [OF assms] by simp_all
  have "length (d_outbox (dtls_step c op s)) \<le> MAX_OUTBOX"
    if "length (d_outbox s) \<le> MAX_OUTBOX" "op \<noteq> Op_handle_timeout"
    using step_ok [OF r(1) that(2), of c] that(1) by (simp add: conn_ok_def out_ok_def)
  with r show ?thesis by (auto simp: queues_ok_def partial_ok_def)
qed

theorem dtls_memory_bounded_witness:
  "length (d_outbox (dtls_step plain_crypto (Op_write [22]) demo_client)) \<le> MAX_OUTBOX"
proof -
  have "length (d_outbox demo_client) \<le> MAX_OUTBOX"
    by (simp add: demo_client_def dtls_new_def result_simps)
  then show ?thesis using dtls_memory_bounded [OF demo_reach, where op = "Op_write [22]"] by blast
qed

text \<open>C12.
  The keys of a reachable connection are the negotiated ones: a transform exists only once the
  client's flight was sent, sending is then in epoch 1, and its master secret and key block are
  the ones derived from the pre-shared key and the ECDH secret with a peer point that was checked
  to lie on the curve. An established session has them and accepts records of epoch 1 only.
\<close>

theorem dtls_keys_negotiated:
  assumes "dtls_reach c s"
  shows "(\<forall>t. d_transform s = Some t \<longrightarrow>
      d_phase s \<in> {Sent_client_flight, Established} \<and> d_send_epoch s = 1 \<and> point_valid c (d_peer_point s)
      \<and> (\<exists>key pre. d_private_key s = Some key
          \<and> premaster (ecdh c key (d_peer_point s)) (d_psk s) = Inr pre
          \<and> d_master_secret s = master_of pre (d_client_random s) (d_server_random s)
          \<and> t = transform_of (key_block_of (d_master_secret s) (d_client_random s) (d_server_random s))))
    \<and> (d_transform s = None \<longrightarrow> d_send_epoch s = 0)
    \<and> (d_phase s = Established \<longrightarrow> d_read_active s \<and> d_transform s \<noteq> None)"
proof -
  have k: "keys_ok c s" using reach_ok [OF assms] by simp
  have late: "d_phase s \<in> {Sent_client_flight, Established}" if "5 \<le> phase_rank (d_phase s)"
    using that by (cases "d_phase s") simp_all
  show ?thesis using k late unfolding keys_ok_def derived_keys_def by auto
qed

theorem dtls_keys_negotiated_witness:
  "d_transform demo_client = None \<and> d_send_epoch demo_client = 0"
proof -
  have "d_transform demo_client = None" by (simp add: demo_client_def dtls_new_def result_simps)
  with dtls_keys_negotiated [OF demo_reach] show ?thesis by blast
qed

lemma step_progress:
  assumes "dtls_reach c s"
  shows "progress s (dtls_step c op s)
     \<and> (d_transform s \<noteq> None \<longrightarrow> d_transform (dtls_step c op s) = d_transform s)"
proof (cases "op = Op_handle_timeout")
  case True
  then show ?thesis using timeout_ok(1,4) by (simp only:) simp
next
  case False
  with step_ok [of s op c] reach_ok [OF assms] show ?thesis by (auto simp: conn_ok_def)
qed

text \<open>No call takes a connection backwards: across any sequence of calls from a reachable state the
  identity and key stay, the phase only advances (so an established session stays established),
  the read epoch stays active, keys once derived stay, and a failure and its reason stay; a failed
  connection refuses the handshake and every send without changing anything.
\<close>

theorem dtls_never_goes_back:
  fixes ops :: "dtls_op list"
  assumes "dtls_reach c s"
  defines "s' \<equiv> fold (dtls_step c) ops s"
  shows "d_identity s' = d_identity s \<and> d_psk s' = d_psk s
    \<and> phase_rank (d_phase s) \<le> phase_rank (d_phase s')
    \<and> (d_read_active s \<longrightarrow> d_read_active s')
    \<and> (d_transform s \<noteq> None \<longrightarrow> d_transform s' = d_transform s)
    \<and> (d_failed s \<noteq> None \<longrightarrow> d_failed s' = d_failed s
         \<and> do_handshake c s' = (Inl DtlsError, s') \<and> dtls_send c data s' = (Inl DtlsError, s'))"
proof -
  have "progress s s' \<and> (d_transform s \<noteq> None \<longrightarrow> d_transform s' = d_transform s)"
    using assms(1) unfolding s'_def
  proof (induction ops arbitrary: s)
    case (Cons op ops)
    let ?s1 = "dtls_step c op s"
    have 1: "progress s ?s1 \<and> (d_transform s \<noteq> None \<longrightarrow> d_transform ?s1 = d_transform s)"
      using step_progress [OF Cons.prems] .
    have 2: "progress ?s1 (fold (dtls_step c) ops ?s1)
       \<and> (d_transform ?s1 \<noteq> None \<longrightarrow> d_transform (fold (dtls_step c) ops ?s1) = d_transform ?s1)"
      by (rule Cons.IH) (rule dtls_reach.call [OF Cons.prems])
    show ?case using 1 2 progress_trans [of s ?s1] by auto
  qed simp
  then show ?thesis by (auto simp: progress_def do_handshake_def dtls_send_def)
qed

theorem dtls_never_goes_back_witness:
  "d_psk (fold (dtls_step plain_crypto) [Op_handshake, Op_write [1], Op_recv 9] demo_client)
     = replicate 16 2"
proof -
  have "d_psk demo_client = replicate 16 2" by (simp add: demo_client_def dtls_new_def result_simps)
  then show ?thesis
    using dtls_never_goes_back [OF demo_reach, where ops = "[Op_handshake, Op_write [1], Op_recv 9]"] by simp
qed

text \<open>C28.
  Retransmission: with a flight outstanding, \<open>n\<close> expiries in a row write the whole flight \<open>n\<close>
  times, unchanged, double the timeout each time up to the 60 s ceiling, and touch no other part
  of the handshake; without a flight or a deadline an expiry does nothing.
\<close>

theorem dtls_retransmits_flight:
  assumes rto: "d_rto s \<le> 60"
  shows "let s' = ((\<lambda>s. snd (handle_timeout c s)) ^^ n) s in
    (if d_flight s = [] \<or> d_deadline s = None then s' = s
     else d_outbox s' = d_outbox s @ concat (replicate n (concat (d_flight s)))
       \<and> d_rto s' = min (2 ^ n * d_rto s) 60 \<and> d_flight s' = d_flight s
       \<and> d_deadline s' \<noteq> None
       \<and> s\<lparr>d_outbox := d_outbox s', d_rto := d_rto s', d_deadline := d_deadline s',
            d_calls := d_calls s'\<rparr> = s')"
proof -
  let ?f = "\<lambda>s. snd (handle_timeout c s)"
  show "let s' = (?f ^^ n) s in
    (if d_flight s = [] \<or> d_deadline s = None then s' = s
     else d_outbox s' = d_outbox s @ concat (replicate n (concat (d_flight s)))
       \<and> d_rto s' = min (2 ^ n * d_rto s) 60 \<and> d_flight s' = d_flight s
       \<and> d_deadline s' \<noteq> None
       \<and> s\<lparr>d_outbox := d_outbox s', d_rto := d_rto s', d_deadline := d_deadline s',
            d_calls := d_calls s'\<rparr> = s')"
  proof (induction n)
    case 0
    then show ?case using rto by (simp add: Let_def)
  next
    case (Suc n)
    define s1 where "s1 = (?f ^^ n) s"
    have step: "(?f ^^ Suc n) s = ?f s1" by (simp add: s1_def)
    have cat: "concat (replicate (Suc n) x) = concat (replicate n x) @ x" for x :: bytes
      by (induction n) simp_all
    show ?case
    proof (cases "d_flight s = [] \<or> d_deadline s = None")
      case True
      then have "s1 = s" using Suc.IH by (simp add: s1_def Let_def)
      then show ?thesis unfolding step using True by (auto simp: handle_timeout_def Let_def)
    next
      case False
      have ih: "d_outbox s1 = d_outbox s @ concat (replicate n (concat (d_flight s)))"
        "d_rto s1 = min (2 ^ n * d_rto s) 60" "d_flight s1 = d_flight s" "d_deadline s1 \<noteq> None"
        "s\<lparr>d_outbox := d_outbox s1, d_rto := d_rto s1, d_deadline := d_deadline s1, d_calls := d_calls s1\<rparr> = s1"
        using Suc.IH [unfolded Let_def if_not_P [OF False], folded s1_def] by blast+
      have live: "\<not> (d_flight s1 = [] \<or> d_deadline s1 = None)" using ih False by simp
      let ?s2 = "?f s1"
      have s2: "?s2 = s1\<lparr>d_outbox := d_outbox s1 @ concat (d_flight s1), d_rto := min (d_rto s1 * 2) 60,
          d_calls := d_calls s1 + 1, d_deadline := Some (clock c (d_calls s1) + min (d_rto s1 * 2) 60)\<rparr>"
        using live by (auto simp: handle_timeout_def read_clock_def Let_def)
      have "d_outbox ?s2 = d_outbox s @ concat (replicate (Suc n) (concat (d_flight s)))"
        by (simp add: s2 ih(1,3) cat del: replicate.simps)
      moreover have "d_rto ?s2 = min (2 ^ Suc n * d_rto s) 60"
        by (auto simp: s2 ih(2) min_def mult.commute [of "d_rto s"])
      moreover have "s\<lparr>d_outbox := d_outbox ?s2, d_rto := d_rto ?s2, d_deadline := d_deadline ?s2,
          d_calls := d_calls ?s2\<rparr> = ?s2"
        unfolding s2 by (subst (3) ih(5) [symmetric]) simp
      moreover have "d_flight ?s2 = d_flight s" "d_deadline ?s2 \<noteq> None" by (simp_all add: s2 ih(3))
      ultimately show ?thesis unfolding step Let_def if_not_P [OF False] by blast
    qed
  qed
qed

theorem dtls_retransmits_flight_witness:
  "d_outbox (((\<lambda>s. snd (handle_timeout plain_crypto s)) ^^ 2)
      (demo_client\<lparr>d_flight := [[1, 2], [3]], d_deadline := Some 1\<rparr>)) = [1, 2, 3, 1, 2, 3]"
  using dtls_retransmits_flight [where s = "demo_client\<lparr>d_flight := [[1, 2], [3]], d_deadline := Some 1\<rparr>" and c = plain_crypto and n = 2]
  by (simp add: Let_def demo_client_def dtls_new_def result_simps numeral_2_eq_2 del: funpow.simps)

end
