(* ===== verification/Session_State.thy ===== *)
theory Session_State
  imports Block2 "HOL-Library.AList"
begin

text \<open>
  The state of \<open>DtlsCoapSession\<close> (\<open>smartthings_local/protocol/dtls_session.py\<close>) and the
  operations on it that hold a lock from start to end: the validation of request arguments, the
  connection cancellation signal, the Message ID and token allocators, the registry of pending
  requests and the Observe relation tables. Dictionaries whose order or size matters are
  association lists. An exchange (an event and a container, shared by the two registries) is an
  address in \<open>s_heap\<close>, so that the identity tests of the code are equality of addresses.
\<close>

section \<open>Request arguments\<close>

abbreviation (input) "MAX_REQUEST_OPTION_BYTES \<equiv> 1024 :: nat"
abbreviation (input) "MAX_REQUEST_OPTION_COUNT \<equiv> 32 :: nat"
abbreviation (input) "MAX_REQUEST_OPTION_NUMBER \<equiv> 65535 :: int"
abbreviation (input) "MAX_OBSERVE_RELATIONS \<equiv> 255 :: nat"

definition managed_request_options :: "nat list" where
  "managed_request_options =
     [URI_PATH, URI_QUERY, OBSERVE, CONTENT_FORMAT, ACCEPT, BLOCK2, BLOCK1, SIZE2, SIZE1]"

fun text_option :: "bool \<Rightarrow> pyval \<Rightarrow> pystr result" where
  "text_option allow_empty (PyStr v) =
     (case utf8_encode v of
        Inl _ \<Rightarrow> Inl Py_ValueError
      | Inr encoded \<Rightarrow>
          if (\<not> allow_empty \<and> encoded = []) \<or> length encoded > MAX_REQUEST_OPTION_BYTES
          then Inl Py_ValueError else Inr v)"
| "text_option allow_empty _ = Inl Py_TypeError"

fun text_options_from :: "bool \<Rightarrow> nat \<Rightarrow> pyval list \<Rightarrow> pystr list result" where
  "text_options_from allow_empty n [] = Inr []"
| "text_options_from allow_empty n (v # vs) =
     (if n \<ge> MAX_REQUEST_OPTION_COUNT then Inl Py_ValueError
      else
        andThen (text_option allow_empty v) (\<lambda>t.
        andThen (text_options_from allow_empty (n + 1) vs) (\<lambda>ts. Inr (t # ts))))"

definition validated_text_options :: "pyval \<Rightarrow> bool \<Rightarrow> pystr list result" where
  "validated_text_options values allow_empty =
     andThen (iter_of values) (text_options_from allow_empty 0)"

definition href_of :: "pystr list \<Rightarrow> pystr" where
  "href_of segs = 47 # py_join [47] segs"

text \<open>\<open>[s for s in href.split('/') if s]\<close>.\<close>

definition segs_of :: "pystr \<Rightarrow> pystr list" where
  "segs_of href = filter (\<lambda>s. s \<noteq> []) (py_split 47 href)"

fun observe_paths_from :: "nat \<Rightarrow> pystr set \<Rightarrow> pyval list \<Rightarrow> (pystr list \<times> pystr) list result" where
  "observe_paths_from index seen [] = Inr []"
| "observe_paths_from index seen (p # ps) =
     (if index \<ge> MAX_OBSERVE_RELATIONS then Inl Py_ValueError
      else
        andThen (validated_text_options p False) (\<lambda>normalized.
        let href = href_of normalized in
        if href \<in> seen then observe_paths_from (index + 1) seen ps
        else andThen (observe_paths_from (index + 1) (insert href seen) ps) (\<lambda>rest.
               Inr ((normalized, href) # rest))))"

definition validated_observe_paths :: "pyval \<Rightarrow> (pystr list \<times> pystr) list result" where
  "validated_observe_paths paths = andThen (iter_of paths) (observe_paths_from 0 {})"

fun query_overrides_from ::
  "pystr list \<Rightarrow> (pystr \<times> pystr list) list \<Rightarrow> (pyval \<times> pyval) list \<Rightarrow> (pystr \<times> pystr list) list result" where
  "query_overrides_from targets acc [] = Inr acc"
| "query_overrides_from targets acc ((PyStr href, query) # kvs) =
     (if href \<notin> set targets then Inl Py_ValueError
      else andThen (validated_text_options query False) (\<lambda>q.
             query_overrides_from targets (AList.update href q acc) kvs))"
| "query_overrides_from targets acc (_ # kvs) = Inl Py_TypeError"

fun validated_observe_query_overrides ::
  "pyval \<Rightarrow> pystr list \<Rightarrow> (pystr \<times> pystr list) list result" where
  "validated_observe_query_overrides PyNone targets = Inr []"
| "validated_observe_query_overrides (PyDict kvs) targets =
     (if length kvs > length targets then Inl Py_ValueError
      else query_overrides_from targets [] kvs)"
| "validated_observe_query_overrides _ targets = Inl Py_TypeError"

fun extra_option :: "int \<Rightarrow> pyval \<Rightarrow> (nat \<times> bytes) result" where
  "extra_option previous (PyTuple [PyInt number, value]) =
     (if \<not> (1 \<le> number \<and> number \<le> MAX_REQUEST_OPTION_NUMBER) then Inl Py_ValueError
      else if number < previous then Inl Py_ValueError
      else if nat number \<in> set managed_request_options then Inl Py_ValueError
      else
        (case value of
           PyBytes b \<Rightarrow>
             if length b > MAX_REQUEST_OPTION_BYTES then Inl Py_ValueError else Inr (nat number, b)
         | _ \<Rightarrow> Inl Py_TypeError))"
| "extra_option previous _ = Inl Py_TypeError"

fun extra_options_from :: "nat \<Rightarrow> int \<Rightarrow> pyval list \<Rightarrow> coap_option list result" where
  "extra_options_from n previous [] = Inr []"
| "extra_options_from n previous (v # vs) =
     (if n \<ge> MAX_REQUEST_OPTION_COUNT then Inl Py_ValueError
      else
        andThen (extra_option previous v) (\<lambda>(number, b).
        andThen (extra_options_from (n + 1) (int number) vs) (\<lambda>rest. Inr ((number, b) # rest))))"

definition validated_extra_options :: "pyval \<Rightarrow> coap_option list result" where
  "validated_extra_options values = andThen (iter_of values) (extra_options_from 0 (-1))"

section \<open>Connection cancellation\<close>

text \<open>
  \<open>ConnectCancellation\<close>. A wake socket is a number; \<open>cc_woken\<close> records the sockets a byte was
  sent to, and \<open>cc_gone\<close> those whose send raises \<open>OSError\<close>.
\<close>

record cancellation =
  cc_set :: bool
  cc_writers :: "nat set"
  cc_woken :: "nat set"
  cc_gone :: "nat set"

definition cancellation_new :: "nat set \<Rightarrow> cancellation" where
  "cancellation_new gone = \<lparr>cc_set = False, cc_writers = {}, cc_woken = {}, cc_gone = gone\<rparr>"

definition cancel_set :: "cancellation \<Rightarrow> cancellation" where
  "cancel_set c =
     (if cc_set c then c
      else c\<lparr>cc_set := True, cc_woken := cc_woken c \<union> (cc_writers c - cc_gone c)\<rparr>)"

definition subscribe_writer :: "nat \<Rightarrow> cancellation \<Rightarrow> unit result \<times> cancellation" where
  "subscribe_writer writer c =
     (let c1 = c\<lparr>cc_writers := insert writer (cc_writers c)\<rparr> in
      if \<not> cc_set c1 then (Inr (), c1)
      else if writer \<in> cc_gone c1 then (Inl Py_OSError, c1)
      else (Inr (), c1\<lparr>cc_woken := insert writer (cc_woken c1)\<rparr>))"

definition unsubscribe_writer :: "nat \<Rightarrow> cancellation \<Rightarrow> bool \<times> cancellation" where
  "unsubscribe_writer writer c = (cc_set c, c\<lparr>cc_writers := cc_writers c - {writer}\<rparr>)"

section \<open>A peer's ClientHello\<close>

function client_hello_from :: "bytes \<Rightarrow> nat \<Rightarrow> bool" where
  "client_hello_from datagram offset =
     (if offset + 13 \<le> length datagram then
        let end_off = offset + 13 + be_nat (slice datagram (offset + 11) (offset + 13)) in
        if end_off > length datagram then False
        else
          let fragment = slice datagram (offset + 13) end_off in
          if datagram ! offset = 22 \<and> slice datagram (offset + 3) (offset + 5) = [0, 0]
             \<and> take 1 fragment = [1]
          then True
          else client_hello_from datagram end_off
      else False)"
  by pat_completeness auto
termination
  by (relation "measure (\<lambda>(datagram, offset). length datagram - offset)") auto

declare client_hello_from.simps [simp del]

definition carries_peer_client_hello :: "bytes \<Rightarrow> bool" where
  "carries_peer_client_hello datagram = client_hello_from datagram 0"

section \<open>The session\<close>

record exchange =
  x_event :: bool
  x_acked :: bool
  x_err :: "exc option"
  x_msg :: "coap_message option"
  x_block1 :: "(nat \<times> nat \<times> bool) option"

type_synonym refetch_key = "pystr \<times> pystr list \<times> bool"

record delivery =
  o_href :: pystr
  o_payload :: bytes
  o_query :: "pystr list"
  o_registration :: bool
  o_sequence :: "nat option"
  o_legacy :: bool

text \<open>
  What the session does to the outside: datagrams handed to DTLS and callbacks called, in order.
\<close>

datatype session_event =
    Sent bytes
  | Delivered delivery
  | Notified pystr bytes
  | Legacy_notified pystr bytes
  | Observe_pending pystr
  | Observe_error pystr nat

record session =
  s_mid :: nat
  s_tok :: nat
  s_heap :: "nat \<Rightarrow> exchange option"
  s_next :: nat
  s_pending :: "(bytes \<times> nat) list"
  s_pending_mids :: "(nat \<times> nat) list"
  s_tokens :: "(bytes \<times> pystr) list"
  s_queries :: "bytes \<Rightarrow> pystr list option"
  s_plain :: "bytes \<Rightarrow> nat option"
  s_legacy :: "bytes set"
  s_legacy_mids :: "bytes \<Rightarrow> nat option"
  s_seqs :: "bytes \<Rightarrow> (nat \<times> real) option"
  s_refetch :: "(refetch_key \<times> nat \<times> bool) list"
  s_refetch_seq :: nat
  s_refetch_thread :: bool
  s_cancelled :: bool
  s_stop :: bool
  s_conn :: bool
  s_reader :: bool
  s_reader_running :: bool
  s_last_send :: real
  s_interval :: real
  s_attempts :: nat
  s_on_delivery :: bool
  s_on_notification :: bool
  s_on_legacy :: bool
  s_on_pending :: bool
  s_on_error :: bool
  s_calls :: nat
  s_log :: "session_event list"

text \<open>
  What the session gets from outside, each numbered by the call that asks: the clocks, random
  bytes, the outcome of handing a datagram to DTLS and the socket, and what the other threads
  (the reader, other callers, the user's callbacks) do to the session while this one waits.
\<close>

datatype send_outcome = Sent_ok | Send_raised exc | Flush_raised exc

record world =
  w_clock :: "nat \<Rightarrow> real"
  w_wall :: "nat \<Rightarrow> real"
  w_random :: "nat \<Rightarrow> nat \<Rightarrow> bytes"
  w_send :: "nat \<Rightarrow> send_outcome"
  w_threads :: "nat \<Rightarrow> session \<Rightarrow> session"

definition tick :: "session \<Rightarrow> session" where
  "tick s = s\<lparr>s_calls := s_calls s + 1\<rparr>"

definition monotonic :: "world \<Rightarrow> session \<Rightarrow> real result \<times> session" where
  "monotonic w s = (Inr (w_clock w (s_calls s)), tick s)"

definition wall_time :: "world \<Rightarrow> session \<Rightarrow> real result \<times> session" where
  "wall_time w s = (Inr (w_wall w (s_calls s)), tick s)"

definition interlude :: "world \<Rightarrow> session \<Rightarrow> session" where
  "interlude w s = w_threads w (s_calls s) (tick s)"

definition emit :: "session_event \<Rightarrow> session \<Rightarrow> session" where
  "emit e s = s\<lparr>s_log := s_log s @ [e]\<rparr>"

section \<open>Message IDs and tokens\<close>

fun probe_mid :: "nat \<Rightarrow> session \<Rightarrow> nat result \<times> session" where
  "probe_mid 0 s = (Inl SessionIdentifierError, s)"
| "probe_mid (Suc n) s =
     (let mid = (s_mid s + 1) AND 0xFFFF; s = s\<lparr>s_mid := mid\<rparr> in
      if map_of (s_pending_mids s) mid = None then (Inr mid, s) else probe_mid n s)"

definition next_mid :: "session \<Rightarrow> nat result \<times> session" where
  "next_mid s = probe_mid (min (length (s_pending_mids s) + 1) 0x10000) s"

definition next_tok :: "session \<Rightarrow> bytes result \<times> session" where
  "next_tok s =
     (let s = s\<lparr>s_tok := (s_tok s + 1) AND 0xFFFFFFFF\<rparr> in (to_bytes 4 (s_tok s), s))"

fun probe_observe_tok :: "world \<Rightarrow> nat \<Rightarrow> session \<Rightarrow> bytes result \<times> session" where
  "probe_observe_tok w 0 s = (Inl SessionIdentifierError, s)"
| "probe_observe_tok w (Suc n) s =
     (let token = w_random w (s_calls s) 8; s = tick s in
      if map_of (s_tokens s) token = None then (Inr token, s) else probe_observe_tok w n s)"

definition next_observe_tok :: "world \<Rightarrow> session \<Rightarrow> bytes result \<times> session" where
  "next_observe_tok w s = probe_observe_tok w 8 s"

section \<open>Pending requests\<close>

definition new_exchange :: "(nat \<times> nat \<times> bool) option \<Rightarrow> exchange" where
  "new_exchange block1 =
     \<lparr>x_event = False, x_acked = False, x_err = None, x_msg = None, x_block1 = block1\<rparr>"

definition register_pending ::
  "bytes \<Rightarrow> (nat \<times> nat \<times> bool) option \<Rightarrow> session \<Rightarrow> (nat \<times> nat) result \<times> session" where
  "register_pending tok block1 s =
     (if map_of (s_pending s) tok \<noteq> None then (Inl SessionIdentifierError, s)
      else then_do (next_mid s) (\<lambda>mid s.
        let x = s_next s in
        (Inr (mid, x),
         s\<lparr>s_heap := (s_heap s)(x := Some (new_exchange block1)), s_next := x + 1,
           s_pending := AList.update tok x (s_pending s),
           s_pending_mids := AList.update mid x (s_pending_mids s)\<rparr>)))"

definition unregister_pending :: "bytes \<Rightarrow> nat \<Rightarrow> nat \<Rightarrow> session \<Rightarrow> session" where
  "unregister_pending tok mid x s =
     s\<lparr>s_pending := (if map_of (s_pending s) tok = Some x then AList.delete tok (s_pending s)
                     else s_pending s),
       s_pending_mids := (if map_of (s_pending_mids s) mid = Some x
                          then AList.delete mid (s_pending_mids s) else s_pending_mids s)\<rparr>"

definition update_exchange :: "nat \<Rightarrow> (exchange \<Rightarrow> exchange) \<Rightarrow> session \<Rightarrow> session" where
  "update_exchange x f s = s\<lparr>s_heap := (s_heap s)(x := map_option f (s_heap s x))\<rparr>"

definition set_event :: "exchange \<Rightarrow> exchange" where "set_event e = e\<lparr>x_event := True\<rparr>"

text \<open>A request that has no answer yet and no error gets \<open>SessionClosedError\<close>.\<close>

definition fail_unanswered :: "exc \<Rightarrow> exchange \<Rightarrow> exchange" where
  "fail_unanswered e x = (if x_msg x = None \<and> x_err x = None then x\<lparr>x_err := Some e\<rparr> else x)"

definition close_pending_requests :: "session \<Rightarrow> session" where
  "close_pending_requests s =
     (let ids = remdups (map snd (s_pending s) @ map snd (s_pending_mids s)) in
      fold (\<lambda>x. update_exchange x (set_event \<circ> fail_unanswered SessionClosedError)) ids
        (s\<lparr>s_pending := [], s_pending_mids := []\<rparr>))"

section \<open>Observe relations\<close>

definition retire_token :: "bytes \<Rightarrow> session \<Rightarrow> session" where
  "retire_token tok s =
     s\<lparr>s_tokens := AList.delete tok (s_tokens s), s_queries := (s_queries s)(tok := None),
       s_plain := (s_plain s)(tok := None), s_legacy := s_legacy s - {tok},
       s_legacy_mids := (s_legacy_mids s)(tok := None), s_seqs := (s_seqs s)(tok := None)\<rparr>"

definition clear_relations :: "session \<Rightarrow> session" where
  "clear_relations s =
     s\<lparr>s_tokens := [], s_queries := Map.empty, s_plain := Map.empty, s_legacy := {},
       s_legacy_mids := Map.empty, s_seqs := Map.empty\<rparr>"

definition query_of :: "session \<Rightarrow> bytes \<Rightarrow> pystr list" where
  "query_of s tok = (case s_queries s tok of None \<Rightarrow> [] | Some q \<Rightarrow> q)"

text \<open>The tokens of a relation, in the order of registration.\<close>

definition relation_tokens :: "pystr \<Rightarrow> pystr list \<Rightarrow> session \<Rightarrow> bytes list" where
  "relation_tokens href query s =
     [tok. (tok, h) \<leftarrow> s_tokens s, h = href \<and> query_of s tok = query]"

definition sequence_for :: "pystr \<Rightarrow> pystr list \<Rightarrow> session \<Rightarrow> nat option" where
  "sequence_for href query s =
     (case List.find (\<lambda>tok. s_seqs s tok \<noteq> None) (relation_tokens href query s) of
        None \<Rightarrow> None
      | Some tok \<Rightarrow> map_option fst (s_seqs s tok))"

definition relation_active :: "pystr \<Rightarrow> pystr list \<Rightarrow> bool \<Rightarrow> session \<Rightarrow> bool" where
  "relation_active href query legacy s =
     list_ex (\<lambda>tok.
       if legacy then tok \<in> s_legacy s
       else s_seqs s tok \<noteq> None \<or> (s_plain s tok \<noteq> None \<and> tok \<notin> s_legacy s))
     (relation_tokens href query s)"

definition discard_refetches :: "pystr list \<Rightarrow> session \<Rightarrow> session" where
  "discard_refetches hrefs s =
     (if hrefs = [] then s
      else s\<lparr>s_refetch := filter (\<lambda>((href, _), _). href \<notin> set hrefs) (s_refetch s)\<rparr>)"

abbreviation (input) "OBSERVE_SEQUENCE_MODULUS \<equiv> 16777216 :: int"
abbreviation (input) "OBSERVE_SEQUENCE_HALF_RANGE \<equiv> 8388608 :: int"
abbreviation (input) "OBSERVE_SEQUENCE_RESET_S \<equiv> 128 :: real"

definition sequence_is_fresh :: "(nat \<times> real) option \<Rightarrow> nat \<Rightarrow> real \<Rightarrow> bool" where
  "sequence_is_fresh previous current received_at =
     (case previous of
        None \<Rightarrow> True
      | Some (previous_value, previous_received_at) \<Rightarrow>
          received_at - previous_received_at > OBSERVE_SEQUENCE_RESET_S
          \<or> (let delta = (int current - int previous_value) mod OBSERVE_SEQUENCE_MODULUS
             in 0 < delta \<and> delta < OBSERVE_SEQUENCE_HALF_RANGE))"

section \<open>The Message ID allocator\<close>

text \<open>The allocator tries the next identifiers in turn and takes the first free one.\<close>

lemma probe_mid_run:
  "probe_mid n s =
     (case List.find (\<lambda>i. map_of (s_pending_mids s) ((s_mid s + i) mod 65536) = None) [1..<Suc n] of
        Some i \<Rightarrow> (Inr ((s_mid s + i) mod 65536), s\<lparr>s_mid := (s_mid s + i) mod 65536\<rparr>)
      | None \<Rightarrow> (Inl SessionIdentifierError, if n = 0 then s else s\<lparr>s_mid := (s_mid s + n) mod 65536\<rparr>))"
proof (induction n arbitrary: s)
  case (Suc n)
  define s1 where "s1 = s\<lparr>s_mid := (s_mid s + 1) mod 65536\<rparr>"
  have step: "probe_mid (Suc n) s =
      (if map_of (s_pending_mids s) ((s_mid s + 1) mod 65536) = None
       then (Inr ((s_mid s + 1) mod 65536), s1) else probe_mid n s1)"
    by (simp add: s1_def mask_16 Let_def)
  show ?case
  proof (cases "map_of (s_pending_mids s) ((s_mid s + 1) mod 65536) = None")
    case True
    have "[1..<Suc (Suc n)] = 1 # [2..<Suc (Suc n)]" by (simp add: upt_conv_Cons numeral_2_eq_2)
    then show ?thesis unfolding step using True by (simp add: s1_def)
  next
    case False
    have shift: "((s_mid s + 1) mod 65536 + i) mod 65536 = (s_mid s + Suc i) mod 65536" for i
      by (simp add: mod_add_left_eq)
    have s1: "s_pending_mids s1 = s_pending_mids s" "s_mid s1 = (s_mid s + 1) mod 65536"
      "s1\<lparr>s_mid := v\<rparr> = s\<lparr>s_mid := v\<rparr>" for v
      by (simp_all add: s1_def)
    have upt: "[1..<Suc (Suc n)] = 1 # map Suc [1..<Suc n]"
      by (simp add: map_Suc_upt upt_conv_Cons)
    have "List.find P (map Suc xs) = map_option Suc (List.find (P \<circ> Suc) xs)" for P xs
      by (induction xs) auto
    then have find: "List.find (\<lambda>i. map_of (s_pending_mids s) ((s_mid s + i) mod 65536) = None) [1..<Suc (Suc n)]
      = map_option Suc (List.find (\<lambda>i. map_of (s_pending_mids s) ((s_mid s + Suc i) mod 65536) = None) [1..<Suc n])"
      unfolding upt find.simps if_not_P [OF False] by (simp only: comp_def)
    have "probe_mid (Suc n) s = probe_mid n s1" by (rule step [unfolded if_not_P [OF False]])
    also have "\<dots> = (case List.find (\<lambda>i. map_of (s_pending_mids s) ((s_mid s + Suc i) mod 65536) = None) [1..<Suc n] of
        Some i \<Rightarrow> (Inr ((s_mid s + Suc i) mod 65536), s\<lparr>s_mid := (s_mid s + Suc i) mod 65536\<rparr>)
      | None \<Rightarrow> (Inl SessionIdentifierError, s\<lparr>s_mid := (s_mid s + Suc n) mod 65536\<rparr>))"
      unfolding Suc.IH [of s1] s1 shift by (cases "n = 0") (simp_all add: s1_def split: option.split)
    finally show ?thesis unfolding find by (simp split: option.split)
  qed
qed simp

lemma mids_cover:
  fixes m :: nat
  assumes "finite K" and "card K < n" and "n \<le> 65536"
  shows "\<exists>i \<in> set [1..<Suc n]. (m + i) mod 65536 \<notin> K"
proof (rule ccontr)
  assume "\<not> ?thesis"
  then have sub: "(\<lambda>i. (m + i) mod 65536) ` {1..n} \<subseteq> K" by auto
  have "inj_on (\<lambda>i. (m + i) mod 65536) {1..n}"
  proof (rule linorder_inj_onI)
    fix i j assume ij: "i < j" "i \<in> {1..n}" "j \<in> {1..n}"
    then have "\<not> 65536 dvd j - i" using assms(3) by (auto dest: dvd_imp_le)
    then show "(m + i) mod 65536 \<noteq> (m + j) mod 65536"
      using mod_eq_dvd_iff_nat [of "m + i" "m + j" 65536] ij by auto
  qed auto
  then have "n \<le> card K"
    using card_mono [OF assms(1) sub] by (simp add: card_image)
  with assms(2) show False by simp
qed

lemma next_mid_free:
  assumes "length (s_pending_mids s) < 65536"
  obtains mid where "next_mid s = (Inr mid, s\<lparr>s_mid := mid\<rparr>)" "mid < 65536"
    "map_of (s_pending_mids s) mid = None"
proof -
  let ?free = "\<lambda>i. map_of (s_pending_mids s) ((s_mid s + i) mod 65536) = None"
  define n where "n = length (s_pending_mids s) + 1"
  have n: "min (length (s_pending_mids s) + 1) 0x10000 = n" "n \<le> 65536" using assms by (simp_all add: n_def)
  have "card (fst ` set (s_pending_mids s)) \<le> length (s_pending_mids s)"
    using card_image_le [of "set (s_pending_mids s)" fst] card_length [of "s_pending_mids s"] by simp
  then have "card (fst ` set (s_pending_mids s)) < n" by (simp add: n_def)
  from mids_cover [OF _ this n(2), of "s_mid s"] obtain i where
    "i \<in> set [1..<Suc n]" "?free i" by (auto simp: map_of_eq_None_iff)
  then have "List.find ?free [1..<Suc n] \<noteq> None" unfolding find_None_iff by blast
  then obtain i where i: "List.find ?free [1..<Suc n] = Some i" by blast
  then have "?free i" by (auto simp: find_Some_iff)
  then show thesis
    by (intro that [of "(s_mid s + i) mod 65536"])
      (simp only: next_mid_def n(1) probe_mid_run i option.case, simp, assumption)
qed

lemma next_mid_full:
  assumes "{..<65536} \<subseteq> fst ` set (s_pending_mids s)"
  shows "fst (next_mid s) = Inl SessionIdentifierError"
proof -
  have "map_of (s_pending_mids s) ((s_mid s + i) mod 65536) \<noteq> None" for i
    using assms by (simp add: map_of_eq_None_iff subset_iff)
  then have "List.find (\<lambda>i. map_of (s_pending_mids s) ((s_mid s + i) mod 65536) = None) xs = None" for xs
    by (simp add: find_None_iff)
  then show ?thesis by (simp only: next_mid_def probe_mid_run option.case fst_conv)
qed

section \<open>The registry of pending requests\<close>

text \<open>
  Both indices are functions with the same exchanges, one entry each; the exchanges are live and
  the Message IDs fit 16 bits.
\<close>

definition registry_ok :: "session \<Rightarrow> bool" where
  "registry_ok s \<longleftrightarrow>
     distinct (map fst (s_pending s)) \<and> distinct (map fst (s_pending_mids s))
     \<and> distinct (map snd (s_pending s)) \<and> distinct (map snd (s_pending_mids s))
     \<and> set (map snd (s_pending s)) = set (map snd (s_pending_mids s))
     \<and> set (map snd (s_pending s)) \<subseteq> {..<s_next s}
     \<and> dom (s_heap s) = {..<s_next s}
     \<and> set (map fst (s_pending_mids s)) \<subseteq> {..<65536}"

text \<open>The request registered under a token, a Message ID and an address.\<close>

definition registered :: "session \<Rightarrow> bytes \<Rightarrow> nat \<Rightarrow> nat \<Rightarrow> bool" where
  "registered s tok mid x \<longleftrightarrow>
     map_of (s_pending s) tok = Some x \<and> map_of (s_pending_mids s) mid = Some x"

lemma update_fresh: "map_of xs k = None \<Longrightarrow> AList.update k v xs = xs @ [(k, v)]"
  by (induction xs) (auto split: if_splits)

lemma registry_length: "registry_ok s \<Longrightarrow> length (s_pending s) = length (s_pending_mids s)"
  unfolding registry_ok_def by (metis distinct_card length_map)

text \<open>What registering a request does.\<close>

lemma register_pending_ok:
  assumes "map_of (s_pending s) tok = None" and "length (s_pending_mids s) < 65536"
  obtains mid where
    "register_pending tok b s = (Inr (mid, s_next s),
       s\<lparr>s_mid := mid, s_heap := (s_heap s)(s_next s := Some (new_exchange b)), s_next := s_next s + 1,
         s_pending := s_pending s @ [(tok, s_next s)],
         s_pending_mids := s_pending_mids s @ [(mid, s_next s)]\<rparr>)"
    "mid < 65536" "map_of (s_pending_mids s) mid = None"
proof -
  obtain mid where mid: "next_mid s = (Inr mid, s\<lparr>s_mid := mid\<rparr>)" "mid < 65536"
    "map_of (s_pending_mids s) mid = None"
    using next_mid_free [OF assms(2)] .
  then show thesis
    by (intro that [of mid]) (simp_all add: register_pending_def assms(1) Let_def update_fresh)
qed

lemma registry_add:
  assumes "registry_ok s" and "map_of (s_pending s) tok = None" and "map_of (s_pending_mids s) mid = None"
    and "mid < 65536"
    and "s' = s\<lparr>s_mid := mid, s_heap := (s_heap s)(s_next s := Some e), s_next := s_next s + 1,
         s_pending := s_pending s @ [(tok, s_next s)],
         s_pending_mids := s_pending_mids s @ [(mid, s_next s)]\<rparr>"
  shows "registry_ok s'"
proof -
  note r = assms(1) [unfolded registry_ok_def]
  have new: "s_next s \<notin> snd ` set (s_pending s)" "s_next s \<notin> snd ` set (s_pending_mids s)"
    using r by auto
  have keys: "tok \<notin> fst ` set (s_pending s)" "mid \<notin> fst ` set (s_pending_mids s)"
    using assms(2,3) by (simp_all add: map_of_eq_None_iff)
  have "dom ((s_heap s)(s_next s \<mapsto> e)) = {..<Suc (s_next s)}" using r by auto
  moreover have "set (map snd (s_pending s)) \<subseteq> {..<Suc (s_next s)}"
    using r by (auto simp del: set_map simp: less_Suc_eq)
  ultimately show ?thesis
    using r new keys assms(4) by (simp add: registry_ok_def assms(5))
qed

lemma map_of_last: "map_of xs k = None \<Longrightarrow> map_of (xs @ [(k, v)]) k = Some v"
  by (simp add: map_add_def)

lemma delete_last: "map_of xs k = None \<Longrightarrow> AList.delete k (xs @ [(k, v)]) = xs"
  by (auto simp: AList.delete_eq filter_id_conv map_of_eq_None_iff image_iff split: prod.splits)

lemma delete_entry:
  assumes "distinct (map fst xs)" and "distinct (map snd xs)" and "map_of xs k = Some v"
  shows "set (map snd (AList.delete k xs)) = set (map snd xs) - {v}"
    and "distinct (map fst (AList.delete k xs))" and "distinct (map snd (AList.delete k xs))"
    and "set (AList.delete k xs) \<subseteq> set xs"
proof -
  have kv: "(k, v) \<in> set xs" using assms(3) by (rule map_of_SomeD)
  have other: "v' \<noteq> v" if "(k', v') \<in> set xs" "k' \<noteq> k" for k' v'
    using inj_onD [OF conjunct2 [OF assms(2) [unfolded distinct_map]], of "(k', v')" "(k, v)"] that kv by auto
  have only: "v' = v" if "(k, v') \<in> set xs" for v'
    using that kv assms(1) by (meson eq_key_imp_eq_value)
  show "set (map snd (AList.delete k xs)) = set (map snd xs) - {v}"
    using other only by (force simp: AList.delete_eq)
  show "distinct (map fst (AList.delete k xs))" using assms(1) by (simp add: distinct_delete)
  show "distinct (map snd (AList.delete k xs))"
    using assms(2) unfolding AList.delete_eq by (simp add: distinct_map_filter)
  show "set (AList.delete k xs) \<subseteq> set xs" by (auto simp: AList.delete_eq)
qed

lemma registry_remove:
  assumes "registry_ok s" and "registered s tok mid x"
  shows "registry_ok (unregister_pending tok mid x s)"
proof -
  note r = assms(1) [unfolded registry_ok_def]
  have t: "map_of (s_pending s) tok = Some x" and m: "map_of (s_pending_mids s) mid = Some x"
    using assms(2) by (simp_all add: registered_def)
  note dt = delete_entry [OF _ _ t] and dm = delete_entry [OF _ _ m]
  have "set (map fst (AList.delete mid (s_pending_mids s))) \<subseteq> {..<65536}"
    using r dm(4) by fastforce
  moreover have "set (map snd (AList.delete tok (s_pending s))) \<subseteq> {..<s_next s}"
    unfolding dt(1) [OF conjunct1 [OF r] conjunct1 [OF conjunct2 [OF conjunct2 [OF r]]]] using r by blast
  ultimately show ?thesis
    using r dt(1-3) dm(1-3) t m by (simp add: registry_ok_def unregister_pending_def del: set_map)
qed

lemma update_exchange_fields [simp]:
  "s_pending (update_exchange x f s) = s_pending s"
  "s_pending_mids (update_exchange x f s) = s_pending_mids s"
  "s_next (update_exchange x f s) = s_next s"
  "s_heap (update_exchange x f s) = (s_heap s)(x := map_option f (s_heap s x))"
  by (simp_all add: update_exchange_def)

lemma dom_update_exchange [simp]: "dom (s_heap (update_exchange x f s)) = dom (s_heap s)"
  by (auto simp: update_exchange_def)

lemma registry_update_exchange [simp]: "registry_ok (update_exchange x f s) = registry_ok s"
  using dom_update_exchange [of x f s] by (simp only: registry_ok_def update_exchange_fields(1-3))

lemma fold_update_exchange:
  "distinct xs \<Longrightarrow> fold (\<lambda>x. update_exchange x f) xs s =
     s\<lparr>s_heap := (\<lambda>x. if x \<in> set xs then map_option f (s_heap s x) else s_heap s x)\<rparr>"
  by (induction xs arbitrary: s) (auto simp: update_exchange_def fun_eq_iff intro!: arg_cong [where f = "\<lambda>h. _\<lparr>s_heap := h\<rparr>"])

lemma close_pending_eq:
  "close_pending_requests s =
     s\<lparr>s_pending := [], s_pending_mids := [],
       s_heap := (\<lambda>x. if x \<in> snd ` set (s_pending s) \<union> snd ` set (s_pending_mids s)
                   then map_option (set_event \<circ> fail_unanswered SessionClosedError) (s_heap s x)
                   else s_heap s x)\<rparr>"
  unfolding close_pending_requests_def Let_def
  by (subst fold_update_exchange) (simp_all add: Un_def image_def cong: if_cong)

section \<open>Arguments that passed validation\<close>

lemma text_option_ok:
  "text_option e v = Inr t \<Longrightarrow>
     \<exists>b. utf8_encode t = Inr b \<and> length b \<le> MAX_REQUEST_OPTION_BYTES \<and> (\<not> e \<longrightarrow> b \<noteq> [])"
  by (cases "(e, v)" rule: text_option.cases) (auto split: sum.splits if_splits)

lemma text_options_from_ok:
  "text_options_from e n vs = Inr ts \<Longrightarrow> n + length ts \<le> max n 32
     \<and> (\<forall>t \<in> set ts. \<exists>b. utf8_encode t = Inr b \<and> length b \<le> MAX_REQUEST_OPTION_BYTES \<and> (\<not> e \<longrightarrow> b \<noteq> []))"
proof (induction e n vs arbitrary: ts rule: text_options_from.induct)
  case (2 e n v vs)
  then obtain t ts' where t: "n < 32" "text_option e v = Inr t" "text_options_from e (n + 1) vs = Inr ts'"
    "ts = t # ts'"
    by (auto simp: result_simps split: if_splits)
  have "n + 1 + length ts' \<le> max (n + 1) 32
      \<and> (\<forall>t \<in> set ts'. \<exists>b. utf8_encode t = Inr b \<and> length b \<le> MAX_REQUEST_OPTION_BYTES \<and> (\<not> e \<longrightarrow> b \<noteq> []))"
    by (rule "2.IH") (use t in simp_all)
  then show ?case using t text_option_ok [OF t(2)] by simp
qed simp

lemma validated_text_ok:
  assumes "validated_text_options v e = Inr ts"
  shows "length ts \<le> 32"
    and "\<forall>t \<in> set ts. \<exists>b. utf8_encode t = Inr b \<and> length b \<le> MAX_REQUEST_OPTION_BYTES \<and> (\<not> e \<longrightarrow> b \<noteq> [])"
  using assms by (auto simp: validated_text_options_def result_simps dest!: text_options_from_ok)

lemma extra_option_ok:
  "extra_option p v = Inr (n, b) \<Longrightarrow> p \<le> int n \<and> 1 \<le> n \<and> n \<le> 65535
     \<and> n \<notin> set managed_request_options \<and> length b \<le> MAX_REQUEST_OPTION_BYTES"
  by (cases "(p, v)" rule: extra_option.cases)
    (auto simp del: set_simps list.set simp: not_less split: if_splits pyval.splits)

lemma extra_options_from_ok:
  "extra_options_from n p vs = Inr opts \<Longrightarrow> n + length opts \<le> max n 32 \<and> sorted (map fst opts)
     \<and> (\<forall>(k, b) \<in> set opts. p \<le> int k \<and> 1 \<le> k \<and> k \<le> 65535
          \<and> k \<notin> set managed_request_options \<and> length b \<le> MAX_REQUEST_OPTION_BYTES)"
proof (induction n p vs arbitrary: opts rule: extra_options_from.induct)
  case (2 n p v vs)
  then obtain k b rest where o: "n < 32" "extra_option p v = Inr (k, b)"
    "extra_options_from (n + 1) (int k) vs = Inr rest" "opts = (k, b) # rest"
    by (auto simp: result_simps split: if_splits)
  have "n + 1 + length rest \<le> max (n + 1) 32 \<and> sorted (map fst rest)
     \<and> (\<forall>(k', b) \<in> set rest. int k \<le> int k' \<and> 1 \<le> k' \<and> k' \<le> 65535
          \<and> k' \<notin> set managed_request_options \<and> length b \<le> MAX_REQUEST_OPTION_BYTES)"
    by (rule "2.IH") (use o in simp_all)
  then show ?case using o extra_option_ok [OF o(2)] by fastforce
qed simp

lemma validated_extra_ok:
  assumes "validated_extra_options v = Inr opts"
  shows "length opts \<le> 32" and "sorted (map fst opts)"
    and "\<forall>(k, b) \<in> set opts. 1 \<le> k \<and> k \<le> 65535 \<and> k \<notin> set managed_request_options
           \<and> length b \<le> MAX_REQUEST_OPTION_BYTES"
  using assms by (auto simp: validated_extra_options_def result_simps dest!: extra_options_from_ok)

lemma observe_paths_from_ok:
  "observe_paths_from i seen ps = Inr res \<Longrightarrow> i + length res \<le> max i 255
     \<and> distinct (map snd res) \<and> set (map snd res) \<inter> seen = {}
     \<and> (\<forall>(path, href) \<in> set res. href = href_of path \<and> (\<exists>v. validated_text_options v False = Inr path))"
proof (induction i seen ps arbitrary: res rule: observe_paths_from.induct)
  case (2 i seen p ps)
  then obtain norm where n: "i < 255" "validated_text_options p False = Inr norm"
    by (auto simp: result_simps split: if_splits)
  show ?case
  proof (cases "href_of norm \<in> seen")
    case True
    then have "observe_paths_from (i + 1) seen ps = Inr res" using 2(3) n by (simp add: Let_def)
    with 2(1) [of norm "href_of norm"] n True show ?thesis by auto
  next
    case False
    then obtain rest where r: "observe_paths_from (i + 1) (insert (href_of norm) seen) ps = Inr rest"
      "res = (norm, href_of norm) # rest"
      using 2(3) n by (auto simp: Let_def result_simps)
    with 2(2) [of norm "href_of norm" rest] n False show ?thesis by fastforce
  qed
qed simp

section \<open>Cancellation and the peer's ClientHello\<close>

text \<open>The uses of a cancellation signal, in the order its lock serialises them.\<close>

datatype cancellation_op = Cancel | Subscribe nat | Unsubscribe nat

fun cancellation_step :: "cancellation_op \<Rightarrow> cancellation \<Rightarrow> cancellation" where
  "cancellation_step Cancel c = cancel_set c"
| "cancellation_step (Subscribe w) c = snd (subscribe_writer w c)"
| "cancellation_step (Unsubscribe w) c = snd (unsubscribe_writer w c)"

definition wakes_ok :: "cancellation \<Rightarrow> bool" where
  "wakes_ok c \<longleftrightarrow> (if cc_set c then cc_writers c - cc_gone c \<subseteq> cc_woken c else cc_woken c = {})"

lemma cancellation_step_ok:
  assumes "wakes_ok c"
  shows "wakes_ok (cancellation_step op c)" and "cc_gone (cancellation_step op c) = cc_gone c"
    and "cc_set (cancellation_step op c) \<longleftrightarrow> cc_set c \<or> op = Cancel"
  using assms
  by (cases op; auto simp: wakes_ok_def cancel_set_def subscribe_writer_def unsubscribe_writer_def Let_def
      split: if_splits)+

lemma cancellation_steps:
  "wakes_ok c \<Longrightarrow> wakes_ok (fold cancellation_step ops c)
    \<and> cc_gone (fold cancellation_step ops c) = cc_gone c
    \<and> (cc_set (fold cancellation_step ops c) \<longleftrightarrow> cc_set c \<or> Cancel \<in> set ops)"
  by (induction ops arbitrary: c) (auto simp: cancellation_step_ok)

lemma client_hello_split:
  "client_hello_from d off \<longleftrightarrow>
     (\<exists>r \<in> set (split_from d off). r ! 0 = 22 \<and> slice r 3 5 = [0, 0] \<and> slice r 13 14 = [1])"
proof (induction d off rule: client_hello_from.induct)
  case (1 d off)
  define e where "e = off + 13 + be_nat (slice d (off + 11) (off + 13))"
  show ?case
  proof (cases "off + 13 \<le> length d \<and> e \<le> length d")
    case False
    then show ?thesis
      by (subst client_hello_from.simps, subst split_from.simps) (auto simp: Let_def e_def)
  next
    case True
    let ?r = "slice d off e"
    have le: "off + 13 \<le> e" by (simp add: e_def)
    have head: "(?r ! 0 = 22 \<and> slice ?r 3 5 = [0, 0] \<and> slice ?r 13 14 = [1]) \<longleftrightarrow>
        (d ! off = 22 \<and> slice d (off + 3) (off + 5) = [0, 0] \<and> take 1 (slice d (off + 13) e) = [1])"
      (is "?h \<longleftrightarrow> ?g")
    proof -
      have "?r ! 0 = d ! off" using True le by (simp add: slice_def)
      moreover have "slice ?r 3 5 = slice d (off + 3) (off + 5)"
        using le by (simp add: slice_def drop_take min_def add.commute)
      moreover have "slice ?r 13 14 = take 1 (slice d (off + 13) e)"
      proof -
        have "slice ?r 13 14 = take 1 (drop 13 (take (e - off) (drop off d)))" by (simp add: slice_def)
        also have "\<dots> = take 1 (take (e - off - 13) (drop (off + 13) d))" by (simp add: drop_take add.commute)
        finally show ?thesis using le by (simp add: slice_def)
      qed
      ultimately show ?thesis by simp
    qed
    have ch: "client_hello_from d off \<longleftrightarrow> ?g \<or> client_hello_from d e"
      using True by (subst client_hello_from.simps) (auto simp: Let_def e_def [symmetric])
    have sp: "split_from d off = ?r # split_from d e"
      using True by (subst split_from.simps) (simp add: Let_def e_def [symmetric])
    have ih: "\<not> ?g \<Longrightarrow> client_hello_from d e \<longleftrightarrow>
       (\<exists>r \<in> set (split_from d e). r ! 0 = 22 \<and> slice r 3 5 = [0, 0] \<and> slice r 13 14 = [1])"
      using "1.IH" [OF _ e_def _ refl] True by simp
    show ?thesis unfolding ch sp using ih head by auto
  qed
qed

section \<open>Properties\<close>

text \<open>The Message ID allocator never hands out an identifier of a live request and fails exactly when
  all 65536 are live: probing one candidate more than there are live requests is enough. It
  changes nothing but its counter.
\<close>

theorem mid_allocation_exact:
  assumes "registry_ok s"
  shows "((\<exists>mid s'. next_mid s = (Inr mid, s')) \<longleftrightarrow> length (s_pending_mids s) < 65536)
    \<and> (length (s_pending_mids s) \<ge> 65536 \<longrightarrow> fst (next_mid s) = Inl SessionIdentifierError)
    \<and> (\<forall>mid s'. next_mid s = (Inr mid, s') \<longrightarrow>
          mid < 65536 \<and> mid \<notin> fst ` set (s_pending_mids s) \<and> s' = s\<lparr>s_mid := mid\<rparr>)"
proof (cases "length (s_pending_mids s) < 65536")
  case True
  then obtain mid where mid: "next_mid s = (Inr mid, s\<lparr>s_mid := mid\<rparr>)" "mid < 65536"
    "map_of (s_pending_mids s) mid = None" by (rule next_mid_free)
  from mid(3) have "mid \<notin> fst ` set (s_pending_mids s)" by (simp add: map_of_eq_None_iff)
  with True mid(1,2) show ?thesis by simp
next
  case False
  let ?K = "fst ` set (s_pending_mids s)"
  have "card ?K = length (s_pending_mids s)" "?K \<subseteq> {..<65536}"
    using assms distinct_card [of "map fst (s_pending_mids s)"] by (simp_all add: registry_ok_def)
  with False have "{..<65536} \<subseteq> ?K"
    using card_subset_eq [of "{..<65536::nat}" ?K] card_mono [of "{..<65536::nat}" ?K] by simp
  from next_mid_full [OF this] False show ?thesis
    by (cases "next_mid s") auto
qed

definition demo_session :: session where
  "demo_session =
     \<lparr>s_mid = 65535, s_tok = 0, s_heap = Map.empty, s_next = 0, s_pending = [], s_pending_mids = [],
      s_tokens = [], s_queries = Map.empty, s_plain = Map.empty, s_legacy = {},
      s_legacy_mids = Map.empty, s_seqs = Map.empty, s_refetch = [], s_refetch_seq = 0,
      s_refetch_thread = False, s_cancelled = False, s_stop = False, s_conn = True,
      s_reader = True, s_reader_running = True, s_last_send = 0, s_interval = 1 / 5,
      s_attempts = 1, s_on_delivery = True, s_on_notification = True, s_on_legacy = False,
      s_on_pending = False, s_on_error = True, s_calls = 0, s_log = []\<rparr>"

lemma demo_registry: "registry_ok demo_session"
  by (simp add: registry_ok_def demo_session_def)

theorem mid_allocation_exact_witness:
  "next_mid demo_session = (Inr 0, demo_session\<lparr>s_mid := 0\<rparr>) \<and> 0 \<notin> fst ` set (s_pending_mids demo_session)"
proof -
  have "next_mid demo_session = (Inr 0, demo_session\<lparr>s_mid := 0\<rparr>)"
    by (simp add: next_mid_def demo_session_def mask_16)
  with mid_allocation_exact [OF demo_registry] show ?thesis by blast
qed

text \<open>Registering a request and unregistering it leaves both indices as they were, in between the
  request is found under its token and its Message ID, and no other entry changes; a token in use
  is refused, and the registry stays well formed throughout.
\<close>

theorem request_registry_round_trip:
  assumes "registry_ok s" and "length (s_pending s) < 65536"
  shows "(tok \<in> fst ` set (s_pending s) \<longrightarrow>
      register_pending tok b s = (Inl SessionIdentifierError, s))
    \<and> (tok \<notin> fst ` set (s_pending s) \<longrightarrow>
      (\<exists>mid s'. register_pending tok b s = (Inr (mid, s_next s), s') \<and> registry_ok s'
         \<and> mid \<notin> fst ` set (s_pending_mids s)
         \<and> registered s' tok mid (s_next s) \<and> s_heap s' (s_next s) = Some (new_exchange b)
         \<and> (\<forall>tok'. tok' \<noteq> tok \<longrightarrow> map_of (s_pending s') tok' = map_of (s_pending s) tok')
         \<and> (\<forall>x. x \<noteq> s_next s \<longrightarrow> s_heap s' x = s_heap s x)
         \<and> s_pending (unregister_pending tok mid (s_next s) s') = s_pending s
         \<and> s_pending_mids (unregister_pending tok mid (s_next s) s') = s_pending_mids s
         \<and> registry_ok (unregister_pending tok mid (s_next s) s')))"
proof (intro conjI impI)
  assume "tok \<in> fst ` set (s_pending s)"
  then have "map_of (s_pending s) tok \<noteq> None" by (simp add: map_of_eq_None_iff)
  then show "register_pending tok b s = (Inl SessionIdentifierError, s)"
    by (simp add: register_pending_def)
next
  assume "tok \<notin> fst ` set (s_pending s)"
  then have t: "map_of (s_pending s) tok = None" by (simp add: map_of_eq_None_iff)
  have len: "length (s_pending_mids s) < 65536" using assms registry_length by simp
  let ?x = "s_next s"
  obtain mid where r: "register_pending tok b s = (Inr (mid, ?x),
       s\<lparr>s_mid := mid, s_heap := (s_heap s)(?x := Some (new_exchange b)), s_next := ?x + 1,
         s_pending := s_pending s @ [(tok, ?x)], s_pending_mids := s_pending_mids s @ [(mid, ?x)]\<rparr>)"
    and m: "mid < 65536" "map_of (s_pending_mids s) mid = None"
    by (rule register_pending_ok [OF t len])
  define s' where "s' = s\<lparr>s_mid := mid, s_heap := (s_heap s)(?x := Some (new_exchange b)), s_next := ?x + 1,
         s_pending := s_pending s @ [(tok, ?x)], s_pending_mids := s_pending_mids s @ [(mid, ?x)]\<rparr>"
  have ok: "registry_ok s'" by (rule registry_add [OF assms(1) t m(2,1) s'_def])
  have reg: "registered s' tok mid ?x"
    using map_of_last [OF t] map_of_last [OF m(2)] by (simp add: registered_def s'_def)
  have "s_pending (unregister_pending tok mid ?x s') = s_pending s"
    "s_pending_mids (unregister_pending tok mid ?x s') = s_pending_mids s"
    using reg delete_last [OF t] delete_last [OF m(2)]
    by (simp_all add: unregister_pending_def registered_def s'_def)
  moreover have "map_of (s_pending s') tok' = map_of (s_pending s) tok'" if "tok' \<noteq> tok" for tok'
    using that by (simp add: s'_def map_add_def split: option.split)
  moreover have "mid \<notin> fst ` set (s_pending_mids s)" using m(2) by (simp add: map_of_eq_None_iff)
  moreover have "s_heap s' ?x = Some (new_exchange b)" "\<forall>x. x \<noteq> ?x \<longrightarrow> s_heap s' x = s_heap s x"
    by (simp_all add: s'_def)
  ultimately show "\<exists>mid s'. register_pending tok b s = (Inr (mid, ?x), s') \<and> registry_ok s'
         \<and> mid \<notin> fst ` set (s_pending_mids s)
         \<and> registered s' tok mid ?x \<and> s_heap s' ?x = Some (new_exchange b)
         \<and> (\<forall>tok'. tok' \<noteq> tok \<longrightarrow> map_of (s_pending s') tok' = map_of (s_pending s) tok')
         \<and> (\<forall>x. x \<noteq> ?x \<longrightarrow> s_heap s' x = s_heap s x)
         \<and> s_pending (unregister_pending tok mid ?x s') = s_pending s
         \<and> s_pending_mids (unregister_pending tok mid ?x s') = s_pending_mids s
         \<and> registry_ok (unregister_pending tok mid ?x s')"
    using r [folded s'_def] ok reg registry_remove [OF ok reg] by blast
qed

theorem request_registry_round_trip_witness:
  "\<exists>mid s'. register_pending [1, 2] None demo_session = (Inr (mid, 0), s')
     \<and> s_pending (unregister_pending [1, 2] mid 0 s') = []"
proof -
  have "s_pending demo_session = []" "s_next demo_session = 0" by (simp_all add: demo_session_def)
  with request_registry_round_trip [OF demo_registry, of "[1, 2]" None] show ?thesis by auto
qed

text \<open>C1.
  Closing the session releases every request: both indices are emptied and every registered
  exchange is woken with an answer or an error in hand. An answer that had arrived is kept and
  gets no error, a request without one gets \<open>SessionClosedError\<close> unless it had failed already,
  and exchanges that are not registered are untouched.
\<close>

theorem close_releases_every_request:
  "s_pending (close_pending_requests s) = [] \<and> s_pending_mids (close_pending_requests s) = []
   \<and> (\<forall>x e. s_heap s x = Some e \<longrightarrow>
        (if x \<in> snd ` set (s_pending s) \<union> snd ` set (s_pending_mids s)
         then \<exists>e'. s_heap (close_pending_requests s) x = Some e' \<and> x_event e' \<and> x_msg e' = x_msg e
                \<and> x_err e' = (if x_msg e = None \<and> x_err e = None then Some SessionClosedError else x_err e)
         else s_heap (close_pending_requests s) x = Some e))"
  unfolding close_pending_eq by (simp add: set_event_def fail_unanswered_def)

theorem close_releases_every_request_witness:
  "\<exists>e'. s_heap (close_pending_requests
       (demo_session\<lparr>s_pending := [([1], 0)], s_pending_mids := [(7, 0)], s_next := 1,
          s_heap := [0 \<mapsto> new_exchange None]\<rparr>)) 0 = Some e' \<and> x_event e' \<and> x_err e' = Some SessionClosedError"
proof -
  define s where "s = demo_session\<lparr>s_pending := [([1], 0)], s_pending_mids := [(7, 0)], s_next := 1,
      s_heap := [0 \<mapsto> new_exchange None]\<rparr>"
  have "s_heap s 0 = Some (new_exchange None)" "0 \<in> snd ` set (s_pending s) \<union> snd ` set (s_pending_mids s)"
    by (simp_all add: s_def)
  with spec [OF spec [OF conjunct2 [OF conjunct2 [OF close_releases_every_request [of s]]], of 0], of "new_exchange None"]
  obtain e' where "s_heap (close_pending_requests s) 0 = Some e'" "x_event e'"
    "x_err e' = (if x_msg (new_exchange None) = None \<and> x_err (new_exchange None) = None
       then Some SessionClosedError else x_err (new_exchange None))"
    by auto
  then show ?thesis unfolding s_def [symmetric] by (simp add: new_exchange_def)
qed

text \<open>C19.
  No wake-up is lost: whatever the order of cancelling, subscribing and unsubscribing, once the
  signal is set every subscribed socket that can be written has been sent a byte, those that
  subscribe afterwards included; before that none has, and the signal is set exactly when it was
  cancelled.
\<close>

theorem cancellation_wakes_all:
  "let c = fold cancellation_step ops (cancellation_new gone) in
   (cc_set c \<longleftrightarrow> Cancel \<in> set ops)
   \<and> (if cc_set c then cc_writers c - gone \<subseteq> cc_woken c else cc_woken c = {})"
proof -
  have "wakes_ok (cancellation_new gone)" "cc_gone (cancellation_new gone) = gone" "\<not> cc_set (cancellation_new gone)"
    by (simp_all add: wakes_ok_def cancellation_new_def)
  with cancellation_steps [of "cancellation_new gone" ops]
  have "wakes_ok (fold cancellation_step ops (cancellation_new gone))"
    "cc_gone (fold cancellation_step ops (cancellation_new gone)) = gone"
    "cc_set (fold cancellation_step ops (cancellation_new gone)) \<longleftrightarrow> Cancel \<in> set ops"
    by simp_all
  then show ?thesis unfolding Let_def wakes_ok_def by (cases "Cancel \<in> set ops") simp_all
qed

text \<open>A datagram is taken for a peer's handshake exactly when one of its complete DTLS records is a
  cleartext handshake record whose first message is a ClientHello; the scan agrees with the
  record splitter of the codec.
\<close>

theorem peer_client_hello_exact:
  "carries_peer_client_hello d \<longleftrightarrow>
     (\<exists>r \<in> set (split_dtls d). r ! 0 = 22 \<and> slice r 3 5 = [0, 0] \<and> slice r 13 14 = [1])"
  unfolding carries_peer_client_hello_def split_dtls_def by (rule client_hello_split)

end
