(* ===== verification/Session_Dispatch.thy ===== *)
theory Session_Dispatch
  imports Session_State
begin

text \<open>
  The reader side of \<open>DtlsCoapSession\<close> (\<open>dtls_session.py\<close>): sending a datagram, the dispatch of
  a received one to a pending request or an Observe relation, the refetch queue, and what the
  reader does when it exits. A section of the code that holds \<open>_state_lock\<close> is one definition;
  between two sections the other threads may run (\<open>interlude\<close>), and so they may while a callback
  of the user is called.
\<close>

section \<open>Liveness and sending\<close>

definition check_live :: "session \<Rightarrow> unit result" where
  "check_live s =
     (if s_cancelled s \<or> \<not> s_conn s then Inl SessionClosedError
      else if s_reader s \<and> \<not> s_reader_running s then Inl SessionClosedError
      else Inr ())"

text \<open>How \<open>_send_dgram\<close> ends when DTLS or the socket raised.\<close>

definition send_error :: "exc \<Rightarrow> unit result" where
  "send_error e =
     (if isinstance_of e WantRead then Inr ()
      else if isinstance_of e Py_OSError then Inl EndpointError
      else Inl e)"

text \<open>
  \<open>orderly\<close> is the exemption \<open>_orderly_close_send_thread_id\<close> grants to the closing thread.
\<close>

definition send_dgram :: "world \<Rightarrow> bool \<Rightarrow> bytes \<Rightarrow> session \<Rightarrow> unit result \<times> session" where
  "send_dgram w orderly datagram s0 =
     (let s = interlude w s0 in
      if (s_cancelled s \<and> \<not> orderly) \<or> \<not> s_conn s then (Inl SessionClosedError, s)
      else
        let k = s_calls s; s1 = tick s in
        case w_send w k of
          Send_raised e \<Rightarrow> (send_error e, s1)
        | Flush_raised e \<Rightarrow> then_do (monotonic w s1) (\<lambda>now s2.
            (send_error e, emit (Sent datagram) (s2\<lparr>s_last_send := now\<rparr>)))
        | Sent_ok \<Rightarrow> then_do (monotonic w s1) (\<lambda>now s2.
            (Inr (), emit (Sent datagram) (s2\<lparr>s_last_send := now\<rparr>))))"

text \<open>A callback of the user: the call, and what it or any other thread then does.\<close>

definition call_back :: "world \<Rightarrow> bool \<Rightarrow> session_event \<Rightarrow> session \<Rightarrow> session" where
  "call_back w supplied e s = (if supplied then interlude w (emit e s) else s)"

section \<open>Pending requests\<close>

text \<open>An empty ACK or RST is matched by Message ID.\<close>

definition acknowledge :: "nat \<Rightarrow> session \<Rightarrow> session" where
  "acknowledge mid s =
     (case map_of (s_pending_mids s) mid of
        None \<Rightarrow> s
      | Some x \<Rightarrow> update_exchange x (\<lambda>e. e\<lparr>x_acked := True, x_event := True\<rparr>) s)"

definition reset_request :: "nat \<Rightarrow> session \<Rightarrow> session" where
  "reset_request mid s =
     (case map_of (s_pending_mids s) mid of
        None \<Rightarrow> s
      | Some x \<Rightarrow> update_exchange x (set_event \<circ> fail_unanswered SessionResetError) s)"

definition block1_response_matches :: "coap_message \<Rightarrow> exchange \<Rightarrow> bool" where
  "block1_response_matches m e =
     (case x_block1 e of
        None \<Rightarrow> True
      | Some (expected_start, expected_end, further) \<Rightarrow>
          if drop_bit 5 (m_code m) \<noteq> 2 then True
          else
            (case option_values (m_options m) BLOCK1 of
               [] \<Rightarrow> True
             | [value] \<Rightarrow>
                 if length value > 3 then False
                 else
                   let (response_num, _, response_szx) = block_fields value in
                   if response_szx > BLOCK_SZX then False
                   else
                     let response_size = push_bit (response_szx + 4) 1;
                         response_start = response_num * response_size;
                         response_end = response_start + response_size in
                     if further then response_end = expected_end
                     else response_start \<le> expected_start \<and> expected_start < response_end
                          \<and> expected_end \<le> response_end
             | _ \<Rightarrow> False))"

text \<open>A response is matched by token; the result says whether a request took it.\<close>

definition resolve_request :: "coap_message \<Rightarrow> session \<Rightarrow> bool \<times> session" where
  "resolve_request m s =
     (case map_of (s_pending s) (m_token m) of
        None \<Rightarrow> (False, s)
      | Some x \<Rightarrow>
          (case s_heap s x of
             None \<Rightarrow> (False, s)
           | Some e \<Rightarrow>
               if block1_response_matches m e
               then (True, update_exchange x (\<lambda>e. e\<lparr>x_msg := Some m, x_event := True\<rparr>) s)
               else (False, s)))"

section \<open>Observe relations\<close>

datatype acceptance =
    Rejected
  | Accepted (a_registration: bool) (a_sequence: "nat option") (a_legacy: bool) (a_pending: bool)

text \<open>A 2.05 response with an Observe option.\<close>

definition accept_sequence :: "bytes \<Rightarrow> nat \<Rightarrow> real \<Rightarrow> session \<Rightarrow> acceptance \<times> session" where
  "accept_sequence tok sequence received_at s =
     (let previous = s_seqs s tok in
      if \<not> sequence_is_fresh previous sequence received_at then (Rejected, s)
      else
        (Accepted (previous = None) (Some sequence) False False,
         s\<lparr>s_seqs := (s_seqs s)(tok := Some (sequence, received_at)),
           s_plain := (s_plain s)(tok := None), s_legacy := s_legacy s - {tok},
           s_legacy_mids := (s_legacy_mids s)(tok := None)\<rparr>))"

text \<open>A 2.05 response without one: probation, then promotion by a different Message ID.\<close>

definition accept_plain :: "bytes \<Rightarrow> nat \<Rightarrow> session \<Rightarrow> acceptance \<times> session" where
  "accept_plain tok mid s =
     (if s_seqs s tok \<noteq> None then (Rejected, s)
      else if tok \<in> s_legacy s then
        (if s_legacy_mids s tok = Some mid then (Rejected, s)
         else (Accepted False None True False, s\<lparr>s_legacy_mids := (s_legacy_mids s)(tok := Some mid)\<rparr>))
      else
        (case s_plain s tok of
           None \<Rightarrow> (Accepted True None False True, s\<lparr>s_plain := (s_plain s)(tok := Some mid)\<rparr>)
         | Some initial_mid \<Rightarrow>
             if initial_mid = mid then (Rejected, s)
             else (Accepted False None True False,
                   s\<lparr>s_legacy := insert tok (s_legacy s),
                     s_legacy_mids := (s_legacy_mids s)(tok := Some mid)\<rparr>)))"

text \<open>After the probation callback: does the relation still stand as it was?\<close>

definition probation_stands :: "bytes \<Rightarrow> pystr \<Rightarrow> pystr list \<Rightarrow> nat \<Rightarrow> session \<Rightarrow> bool" where
  "probation_stands tok href query mid s \<longleftrightarrow>
     map_of (s_tokens s) tok = Some href \<and> query_of s tok = query
     \<and> s_plain s tok = Some mid \<and> tok \<notin> s_legacy s \<and> s_seqs s tok = None"

text \<open>The Block2 option of a notification: malformed, or whether it must be re-read.\<close>

definition notification_block :: "coap_option list \<Rightarrow> bool option" where
  "notification_block options =
     (case option_values options BLOCK2 of
        [] \<Rightarrow> Some False
      | [value] \<Rightarrow>
          if length value > 3 then None
          else let (number, m, _) = block_fields value in Some (m \<noteq> 0 \<or> number \<noteq> 0)
      | _ \<Rightarrow> None)"

section \<open>The refetch queue\<close>

abbreviation (input) "MAX_PENDING_REFETCH \<equiv> 16 :: nat"

definition start_refetch_worker :: "session \<Rightarrow> session" where
  "start_refetch_worker s = (if s_refetch_thread s \<or> s_stop s then s else s\<lparr>s_refetch_thread := True\<rparr>)"

definition queue_refetch :: "refetch_key \<Rightarrow> bool \<Rightarrow> session \<Rightarrow> session" where
  "queue_refetch key registration s =
     (if map_of (s_refetch s) key = None \<and> length (s_refetch s) \<ge> MAX_PENDING_REFETCH then s
      else
        let n = s_refetch_seq s + 1 in
        start_refetch_worker
          (s\<lparr>s_refetch_seq := n, s_refetch := AList.update key (n, registration) (s_refetch s)\<rparr>))"

definition refetch_alive :: "session \<Rightarrow> bool" where
  "refetch_alive s = (if s_stop s then False else \<not> s_reader s \<or> s_reader_running s)"

text \<open>The worker takes the oldest key.\<close>

definition take_refetch :: "session \<Rightarrow> (refetch_key \<times> nat \<times> bool) option \<times> session" where
  "take_refetch s =
     (case s_refetch s of
        [] \<Rightarrow> (None, s)
      | entry # rest \<Rightarrow> (Some entry, s\<lparr>s_refetch := rest\<rparr>))"

definition clear_refetches :: "session \<Rightarrow> session" where
  "clear_refetches s = s\<lparr>s_refetch := []\<rparr>"

section \<open>Delivery\<close>

definition deliver_representation ::
  "world \<Rightarrow> pystr \<Rightarrow> bytes \<Rightarrow> pystr list \<Rightarrow> bool \<Rightarrow> nat option \<Rightarrow> bool \<Rightarrow> session \<Rightarrow> session" where
  "deliver_representation w href payload query registration sequence legacy s =
     (if s_on_delivery s then
        call_back w True
          (Delivered \<lparr>o_href = href, o_payload = payload, o_query = query,
             o_registration = registration, o_sequence = sequence, o_legacy = legacy\<rparr>) s
      else if legacy \<and> s_on_legacy s then call_back w True (Legacy_notified href payload) s
      else call_back w (s_on_notification s) (Notified href payload) s)"

definition deliver_or_refetch ::
  "world \<Rightarrow> coap_message \<Rightarrow> bool \<Rightarrow> pystr \<Rightarrow> pystr list \<Rightarrow> bool \<Rightarrow> nat option \<Rightarrow> bool \<Rightarrow> session \<Rightarrow> session" where
  "deliver_or_refetch w m refetch href query registration sequence legacy s =
     (if refetch then queue_refetch (href, query, legacy) registration s
      else deliver_representation w href (m_payload m) query registration sequence legacy s)"

definition observe_response ::
  "world \<Rightarrow> coap_message \<Rightarrow> pystr \<Rightarrow> pystr list \<Rightarrow> session \<Rightarrow> session" where
  "observe_response w m href query s =
     (let tok = m_token m in
      if m_code m \<noteq> 0x45 then
        (let s = retire_token tok s in call_back w (s_on_error s) (Observe_error href (m_code m)) s)
      else
        case notification_block (m_options m) of
          None \<Rightarrow> s
        | Some refetch \<Rightarrow>
            (case option_values (m_options m) OBSERVE of
               [] \<Rightarrow>
                 (case accept_plain tok (m_mid m) s of
                    (Rejected, s) \<Rightarrow> s
                  | (Accepted registration sequence legacy pending, s) \<Rightarrow>
                      if pending then
                        let s = interlude w (call_back w (s_on_pending s) (Observe_pending href) s) in
                        if probation_stands tok href query (m_mid m) s
                        then deliver_or_refetch w m refetch href query registration sequence legacy s
                        else s
                      else deliver_or_refetch w m refetch href query registration sequence legacy (interlude w s))
             | [value] \<Rightarrow>
                 if length value > 3 then s
                 else
                   let received_at = w_clock w (s_calls s); s = interlude w (tick s) in
                   (case accept_sequence tok (be_nat value) received_at s of
                      (Rejected, s) \<Rightarrow> s
                    | (Accepted registration sequence legacy pending, s) \<Rightarrow>
                        deliver_or_refetch w m refetch href query registration sequence legacy (interlude w s))
             | _ \<Rightarrow> s))"

text \<open>\<open>_dispatch_coap\<close>: one datagram from the reader, acknowledged first, then routed.\<close>

definition route_message :: "world \<Rightarrow> coap_message \<Rightarrow> session \<Rightarrow> session" where
  "route_message w m s =
     (case resolve_request m s of
        (True, s) \<Rightarrow> s
      | (False, s) \<Rightarrow>
          let s = interlude w s in
          (case map_of (s_tokens s) (m_token m) of
             None \<Rightarrow> s
           | Some href \<Rightarrow> observe_response w m href (query_of s (m_token m)) (interlude w s)))"

definition route :: "world \<Rightarrow> response_kind \<Rightarrow> coap_message \<Rightarrow> session \<Rightarrow> session" where
  "route w kind m s =
     (case kind of
        RESPONSE_EMPTY_ACK \<Rightarrow> acknowledge (m_mid m) s
      | RESPONSE_RESET \<Rightarrow> reset_request (m_mid m) s
      | RESPONSE_IGNORE \<Rightarrow> s
      | RESPONSE_MESSAGE \<Rightarrow> route_message w m s)"

definition dispatch_coap :: "world \<Rightarrow> bytes \<Rightarrow> session \<Rightarrow> session" where
  "dispatch_coap w datagram s =
     (case classify_coap_response datagram None None of
        Inl _ \<Rightarrow> s
      | Inr c \<Rightarrow>
          let s = (case c_ack c of None \<Rightarrow> s | Some ack \<Rightarrow> snd (send_dgram w False ack s))
          in route w (c_kind c) (c_message c) (interlude w s))"

text \<open>The reader: a datagram's decrypted packets, and its exit.\<close>

definition reader_exit :: "world \<Rightarrow> session \<Rightarrow> session" where
  "reader_exit w s =
     (let s = interlude w (close_pending_requests (s\<lparr>s_reader_running := False\<rparr>));
          s = interlude w (clear_refetches s) in
      if s_cancelled s then s else clear_relations s)"

datatype reader_input = Nothing_read | Packets "bytes list" bool | Socket_error

text \<open>One round of the loop; the result says whether the reader goes on.\<close>

definition reader_round :: "world \<Rightarrow> reader_input \<Rightarrow> session \<Rightarrow> bool \<times> session" where
  "reader_round w i s =
     (if s_stop s then (False, reader_exit w s)
      else
        case i of
          Nothing_read \<Rightarrow> (True, s)
        | Socket_error \<Rightarrow> (False, reader_exit w s)
        | Packets ps at_end \<Rightarrow>
            let s = fold (dispatch_coap w) ps s in
            if at_end then (False, reader_exit w s) else (True, s))"

text \<open>
  A waiting request re-arms its event under the lock; one that waits for a Block2 block first
  drops a response for another block. The flag says whether there was one to drop.
\<close>

definition rearm :: "bool \<Rightarrow> nat \<Rightarrow> session \<Rightarrow> session" where
  "rearm drop_response x s =
     update_exchange x (\<lambda>e. e\<lparr>x_msg := (if drop_response then None else x_msg e), x_event := False\<rparr>) s"

section \<open>Interleavings\<close>

text \<open>
  The tables the locks protect. Every thread changes them only by the sections below, so what the
  others do between two sections of one thread is a sequence of them.
\<close>

definition tables :: "session \<Rightarrow> _" where
  "tables s =
     (s_heap s, s_next s, s_pending s, s_pending_mids s, s_tokens s, s_queries s, s_plain s,
      s_legacy s, s_legacy_mids s, s_seqs s, s_refetch s, s_refetch_seq s)"

inductive lock_step :: "session \<Rightarrow> session \<Rightarrow> bool" where
  outside: "tables s' = tables s \<Longrightarrow> lock_step s s'"
| registers: "register_pending tok b s = (Inr r, s') \<Longrightarrow> lock_step s s'"
| unregisters: "registered s tok mid x
      \<or> map_of (s_pending s) tok \<noteq> Some x \<and> map_of (s_pending_mids s) mid \<noteq> Some x
    \<Longrightarrow> lock_step s (unregister_pending tok mid x s)"
| acks: "lock_step s (acknowledge mid s)"
| resets: "lock_step s (reset_request mid s)"
| resolves: "lock_step s (snd (resolve_request m s))"
| rearms: "lock_step s (rearm stale x s)"
| closes: "lock_step s (close_pending_requests s)"
| relates: "map_of (s_tokens s) tok = None
    \<Longrightarrow> lock_step s (s\<lparr>s_tokens := s_tokens s @ [(tok, href)], s_queries := (s_queries s)(tok \<mapsto> q)\<rparr>)"
| retires: "lock_step s (retire_token tok s)"
| clears: "lock_step s (clear_relations s)"
| sequences: "lock_step s (snd (accept_sequence tok q t s))"
| plains: "lock_step s (snd (accept_plain tok mid s))"
| queues: "lock_step s (queue_refetch key reg s)"
| takes: "lock_step s (snd (take_refetch s))"
| discards: "lock_step s (discard_refetches hrefs s)"
| empties: "lock_step s (clear_refetches s)"

inductive_cases lock_stepE: "lock_step s s'"

abbreviation lock_steps :: "session \<Rightarrow> session \<Rightarrow> bool" where
  "lock_steps \<equiv> lock_step\<^sup>*\<^sup>*"

text \<open>
  The relation tables: a token has a path and a query together, a legacy relation has its last
  Message ID and went through probation, and a token with an Observe sequence is not on
  probation. The queue holds at most 16 relations, each once, none newer than the counter.
\<close>

definition relations_ok :: "session \<Rightarrow> bool" where
  "relations_ok s \<longleftrightarrow>
     distinct (map fst (s_tokens s)) \<and> dom (s_queries s) = fst ` set (s_tokens s)
     \<and> dom (s_legacy_mids s) = s_legacy s \<and> s_legacy s \<subseteq> dom (s_plain s)
     \<and> dom (s_plain s) \<inter> dom (s_seqs s) = {}"

definition refetch_ok :: "session \<Rightarrow> bool" where
  "refetch_ok s \<longleftrightarrow>
     distinct (map fst (s_refetch s)) \<and> length (s_refetch s) \<le> MAX_PENDING_REFETCH
     \<and> (\<forall>e \<in> set (s_refetch s). fst (snd e) \<le> s_refetch_seq s)"

definition session_ok :: "session \<Rightarrow> bool" where
  "session_ok s \<longleftrightarrow> registry_ok s \<and> relations_ok s \<and> refetch_ok s"

lemma session_ok_tables: "tables s' = tables s \<Longrightarrow> session_ok s' = session_ok s"
  by (simp add: tables_def session_ok_def registry_ok_def relations_ok_def refetch_ok_def)

text \<open>Which part of the state a section can change.\<close>

definition requests :: "session \<Rightarrow> _" where
  "requests s = (s_heap s, s_next s, s_pending s, s_pending_mids s)"
definition relations :: "session \<Rightarrow> _" where
  "relations s = (s_tokens s, s_queries s, s_plain s, s_legacy s, s_legacy_mids s, s_seqs s)"
definition refetches :: "session \<Rightarrow> _" where
  "refetches s = (s_refetch s, s_refetch_seq s)"

lemmas parts_defs = requests_def relations_def refetches_def

lemma registry_requests: "requests s' = requests s \<Longrightarrow> registry_ok s' = registry_ok s"
  by (simp add: requests_def registry_ok_def)
lemma relations_relations: "relations s' = relations s \<Longrightarrow> relations_ok s' = relations_ok s"
  by (simp add: relations_def relations_ok_def)
lemma refetch_refetches: "refetches s' = refetches s \<Longrightarrow> refetch_ok s' = refetch_ok s"
  by (simp add: refetches_def refetch_ok_def)

lemma session_ok_requests:
  "registry_ok s \<longrightarrow> registry_ok s' \<Longrightarrow> relations s' = relations s \<Longrightarrow> refetches s' = refetches s
    \<Longrightarrow> session_ok s \<Longrightarrow> session_ok s'"
  by (simp add: session_ok_def relations_relations [of s' s] refetch_refetches [of s' s])

lemma session_ok_relations:
  "relations_ok s \<longrightarrow> relations_ok s' \<Longrightarrow> requests s' = requests s \<Longrightarrow> refetches s' = refetches s
    \<Longrightarrow> session_ok s \<Longrightarrow> session_ok s'"
  by (simp add: session_ok_def registry_requests [of s' s] refetch_refetches [of s' s])

lemma session_ok_refetches:
  "refetch_ok s \<longrightarrow> refetch_ok s' \<Longrightarrow> requests s' = requests s \<Longrightarrow> relations s' = relations s
    \<Longrightarrow> session_ok s \<Longrightarrow> session_ok s'"
  by (simp add: session_ok_def registry_requests [of s' s] relations_relations [of s' s])

lemma session_ok_updates:
  assumes "s' = s \<or> (\<exists>x f. s' = update_exchange x f s)" and "session_ok s"
  shows "session_ok s'"
  using assms(1)
proof
  assume "\<exists>x f. s' = update_exchange x f s"
  then obtain x f where s': "s' = update_exchange x f s" by blast
  show ?thesis
    by (rule session_ok_requests [OF _ _ _ assms(2)])
      (simp_all only: s' registry_update_exchange simp_thms, simp_all add: relations_def refetches_def update_exchange_def)
qed (simp add: assms(2))

lemma register_pending_cases:
  assumes "register_pending tok b s = (Inr r, s')"
  obtains mid where "r = (mid, s_next s)" "map_of (s_pending s) tok = None"
    "map_of (s_pending_mids s) mid = None" "mid < 65536"
    "s' = s\<lparr>s_mid := mid, s_heap := (s_heap s)(s_next s := Some (new_exchange b)), s_next := s_next s + 1,
         s_pending := s_pending s @ [(tok, s_next s)],
         s_pending_mids := s_pending_mids s @ [(mid, s_next s)]\<rparr>"
proof -
  from assms have tok: "map_of (s_pending s) tok = None" by (simp add: register_pending_def split: if_splits)
  from assms tok obtain mid s1 where m: "next_mid s = (Inr mid, s1)"
    by (cases "next_mid s"; cases "fst (next_mid s)") (auto simp: register_pending_def)
  obtain i where "mid = (s_mid s + i) mod 65536" "map_of (s_pending_mids s) mid = None" "s1 = s\<lparr>s_mid := mid\<rparr>"
    using m unfolding next_mid_def probe_mid_run by (auto split: option.splits simp: find_Some_iff)
  then show thesis
    using assms tok m by (intro that [of mid]) (auto simp: register_pending_def Let_def update_fresh)
qed

lemma lock_step_ok: "lock_step s s' \<Longrightarrow> session_ok s \<Longrightarrow> session_ok s'"
proof (induction rule: lock_step.induct)
  case (outside s' s)
  then show ?case using session_ok_tables by blast
next
  case (registers tok b s r s')
  obtain mid where r: "map_of (s_pending s) tok = None" "map_of (s_pending_mids s) mid = None" "mid < 65536"
    "s' = s\<lparr>s_mid := mid, s_heap := (s_heap s)(s_next s := Some (new_exchange b)), s_next := s_next s + 1,
         s_pending := s_pending s @ [(tok, s_next s)],
         s_pending_mids := s_pending_mids s @ [(mid, s_next s)]\<rparr>"
    by (rule register_pending_cases [OF registers(1)])
  show ?case
    by (rule session_ok_requests [OF _ _ _ registers(2)])
      (use registry_add [OF _ r] r(4) in \<open>simp_all add: relations_def refetches_def\<close>)
next
  case (unregisters s tok mid x)
  have "registry_ok s \<longrightarrow> registry_ok (unregister_pending tok mid x s)"
  proof
    assume r: "registry_ok s"
    from unregisters(1) show "registry_ok (unregister_pending tok mid x s)"
    proof
      assume "map_of (s_pending s) tok \<noteq> Some x \<and> map_of (s_pending_mids s) mid \<noteq> Some x"
      with r show ?thesis by (simp add: unregister_pending_def)
    qed (rule registry_remove [OF r])
  qed
  then show ?case
    by (rule session_ok_requests [OF _ _ _ unregisters(2)])
      (simp_all add: relations_def refetches_def unregister_pending_def)
next
  case (acks s mid)
  show ?case by (rule session_ok_updates [OF _ acks]) (auto simp: acknowledge_def split: option.split)
next
  case (resets s mid)
  show ?case by (rule session_ok_updates [OF _ resets]) (auto simp: reset_request_def split: option.split)
next
  case (resolves s m)
  show ?case
    by (rule session_ok_updates [OF _ resolves]) (auto simp: resolve_request_def split: option.split)
next
  case (rearms s stale x)
  show ?case by (rule session_ok_updates [OF _ rearms]) (auto simp: rearm_def)
next
  case (closes s)
  have "dom (\<lambda>x. if P x then map_option g (h x) else h x) = dom h" for P g and h :: "nat \<Rightarrow> exchange option"
    by (auto simp: dom_def)
  then have "registry_ok s \<longrightarrow> registry_ok (close_pending_requests s)"
    unfolding close_pending_eq by (simp add: registry_ok_def)
  then show ?case
    by (rule session_ok_requests [OF _ _ _ closes]) (simp_all add: relations_def refetches_def close_pending_eq)
next
  case (relates s tok q href)
  have "relations_ok s \<longrightarrow> relations_ok (s\<lparr>s_tokens := s_tokens s @ [(tok, href)], s_queries := (s_queries s)(tok \<mapsto> q)\<rparr>)"
    using relates(1) by (auto simp: relations_ok_def map_of_eq_None_iff)
  then show ?case by (rule session_ok_relations [OF _ _ _ relates(2)]) (simp_all add: requests_def refetches_def)
next
  case (retires s tok)
  have "relations_ok s \<longrightarrow> relations_ok (retire_token tok s)"
    by (auto simp: relations_ok_def retire_token_def distinct_map_filter AList.delete_eq)
  then show ?case
    by (rule session_ok_relations [OF _ _ _ retires]) (simp_all add: requests_def refetches_def retire_token_def)
next
  case (clears s)
  have "relations_ok s \<longrightarrow> relations_ok (clear_relations s)" by (simp add: relations_ok_def clear_relations_def)
  then show ?case
    by (rule session_ok_relations [OF _ _ _ clears]) (simp_all add: requests_def refetches_def clear_relations_def)
next
  case (sequences s tok q t)
  have "relations_ok s \<longrightarrow> relations_ok (snd (accept_sequence tok q t s))"
    by (auto simp: relations_ok_def accept_sequence_def Let_def)
  then show ?case
    by (rule session_ok_relations [OF _ _ _ sequences]) (simp_all add: requests_def refetches_def accept_sequence_def Let_def)
next
  case (plains s tok mid)
  have "relations_ok s \<longrightarrow> relations_ok (snd (accept_plain tok mid s))"
    by (auto simp: relations_ok_def accept_plain_def split: option.splits)
  then show ?case
    by (rule session_ok_relations [OF _ _ _ plains])
      (simp_all add: requests_def refetches_def accept_plain_def split: option.splits)
next
  case (queues s key reg)
  let ?n = "s_refetch_seq s + 1"
  have sub: "set (AList.update key v xs) \<subseteq> insert (key, v) (set xs)" for v :: "nat \<times> bool" and xs
    by (induction xs) auto
  have len: "length (AList.update key v xs) = (if map_of xs key = None then Suc (length xs) else length xs)"
    for v :: "nat \<times> bool" and xs by (induction xs) auto
  have "refetch_ok s \<longrightarrow> refetch_ok (queue_refetch key reg s)"
    using sub [of "(?n, reg)" "s_refetch s"]
    by (fastforce simp: refetch_ok_def queue_refetch_def start_refetch_worker_def Let_def distinct_update len)
  then show ?case
    by (rule session_ok_refetches [OF _ _ _ queues])
      (simp_all add: requests_def relations_def queue_refetch_def start_refetch_worker_def Let_def)
next
  case (takes s)
  have "refetch_ok s \<longrightarrow> refetch_ok (snd (take_refetch s))"
    by (auto simp: refetch_ok_def take_refetch_def split: list.split)
  then show ?case
    by (rule session_ok_refetches [OF _ _ _ takes]) (simp_all add: requests_def relations_def take_refetch_def split: list.split)
next
  case (discards s hrefs)
  have "refetch_ok s \<longrightarrow> refetch_ok (discard_refetches hrefs s)"
    by (auto simp: refetch_ok_def discard_refetches_def distinct_map_filter intro: order_trans [OF length_filter_le])
  then show ?case
    by (rule session_ok_refetches [OF _ _ _ discards]) (simp_all add: requests_def relations_def discard_refetches_def)
next
  case (empties s)
  have "refetch_ok s \<longrightarrow> refetch_ok (clear_refetches s)" by (simp add: refetch_ok_def clear_refetches_def)
  then show ?case
    by (rule session_ok_refetches [OF _ _ _ empties]) (simp_all add: requests_def relations_def clear_refetches_def)
qed

lemma lock_steps_ok: "lock_steps s s' \<Longrightarrow> session_ok s \<Longrightarrow> session_ok s'"
  by (induction rule: rtranclp_induct) (auto intro: lock_step_ok)

lemma tables_upd [simp]:
  "tables (tick s) = tables s" "tables (s\<lparr>s_last_send := a\<rparr>) = tables s" "tables (s\<lparr>s_mid := m\<rparr>) = tables s"
  "tables (s\<lparr>s_tok := k\<rparr>) = tables s" "tables (emit e s) = tables s" "tables (s\<lparr>s_reader_running := b\<rparr>) = tables s"
  "tables (s\<lparr>s_stop := b\<rparr>) = tables s" "tables (s\<lparr>s_cancelled := b\<rparr>) = tables s" "tables (s\<lparr>s_conn := b\<rparr>) = tables s"
  by (simp_all add: tables_def tick_def emit_def)

lemma outside_steps: "tables s' = tables s \<Longrightarrow> lock_steps s s'"
  by (rule r_into_rtranclp) (rule lock_step.outside)

lemma steps_trans: "lock_steps s s' \<Longrightarrow> lock_steps s' s'' \<Longrightarrow> lock_steps s s''"
  by (rule rtranclp_trans)

text \<open>
  The interface between one thread and the others: whenever it lets them run, they change the
  tables by locked sections only.
\<close>

locale interleaved =
  fixes w :: world
  assumes threads: "lock_steps s (w_threads w n s)"
begin

lemma interlude_steps: "lock_steps s (interlude w s)"
  unfolding interlude_def by (rule steps_trans [OF outside_steps threads]) simp

lemma send_steps: "lock_steps s (snd (send_dgram w ord d s))"
proof -
  have "tables (snd (send_dgram w ord d s)) = tables (interlude w s)"
    by (simp add: send_dgram_def Let_def monotonic_def split: send_outcome.split)
  with steps_trans [OF interlude_steps outside_steps] show ?thesis by blast
qed

lemma call_back_steps: "lock_steps s (call_back w supplied e s)"
  unfolding call_back_def using steps_trans [OF outside_steps interlude_steps, of "emit e s" s] by simp

lemma deliver_steps: "lock_steps s (deliver_or_refetch w m refetch href query reg sq legacy s)"
proof -
  have "lock_steps s (deliver_representation w href p query reg sq legacy s)" for p
    unfolding deliver_representation_def using call_back_steps by simp
  moreover have "lock_steps s (queue_refetch key reg s)" for key
    by (rule r_into_rtranclp) (rule lock_step.queues)
  ultimately show ?thesis by (simp add: deliver_or_refetch_def)
qed

lemma observe_steps: "lock_steps s (observe_response w m href query s)"
proof -
  let ?tok = "m_token m"
  have retire: "lock_steps s (call_back w b e (retire_token ?tok s))" for b e
    by (rule steps_trans [OF r_into_rtranclp call_back_steps]) (rule lock_step.retires)
  have seq: "lock_steps s s1" if "accept_sequence ?tok q t (interlude w (tick s)) = (a, s1)" for q t a s1
  proof -
    have "lock_steps s (interlude w (tick s))" by (rule steps_trans [OF outside_steps interlude_steps]) simp
    moreover have "lock_steps (interlude w (tick s)) s1"
      using lock_step.sequences [of "interlude w (tick s)" ?tok q t] that by (simp add: r_into_rtranclp)
    ultimately show ?thesis by simp
  qed
  have del: "lock_steps s1 (deliver_or_refetch w m r href query reg sq legacy (interlude w s1))" for s1 r reg sq legacy
    by (rule steps_trans [OF interlude_steps deliver_steps])
  have pend: "lock_steps s1 (interlude w (call_back w b e s1))" for s1 b e
    by (rule steps_trans [OF call_back_steps interlude_steps])
  show ?thesis
  proof (cases "m_code m \<noteq> 0x45")
    case True
    then show ?thesis using retire by (simp add: observe_response_def Let_def)
  next
    case ok: False
    show ?thesis
    proof (cases "notification_block (m_options m)")
      case None
      then show ?thesis using ok by (simp add: observe_response_def Let_def)
    next
      case (Some refetch)
      consider (plain) "option_values (m_options m) OBSERVE = []"
        | (one) v where "option_values (m_options m) OBSERVE = [v]"
        | (many) u v vs where "option_values (m_options m) OBSERVE = u # v # vs"
        by (cases "option_values (m_options m) OBSERVE" rule: remdups_adj.cases) auto
      then show ?thesis
      proof cases
        case plain
        obtain a s1 where a: "accept_plain ?tok (m_mid m) s = (a, s1)" by fastforce
        have s1: "lock_steps s s1"
          using lock_step.plains [of s ?tok "m_mid m"] a by (simp add: r_into_rtranclp)
        show ?thesis
        proof (cases a)
          case Rejected
          then show ?thesis using ok Some plain a s1 by (simp add: observe_response_def Let_def)
        next
          case (Accepted reg sq legacy pending)
          let ?s2 = "interlude w (call_back w (s_on_pending s1) (Observe_pending href) s1)"
          have "lock_steps s1 ?s2" by (rule pend)
          then show ?thesis
            using ok Some plain a Accepted steps_trans [OF s1 del] steps_trans [OF s1 steps_trans [OF pend deliver_steps]]
              steps_trans [OF s1]
            by (simp add: observe_response_def Let_def)
        qed
      next
        case (one v)
        let ?s1 = "interlude w (tick s)" and ?t = "w_clock w (s_calls s)"
        obtain a s2 where a: "accept_sequence ?tok (be_nat v) ?t ?s1 = (a, s2)" by fastforce
        have s2: "lock_steps s s2" by (rule seq [OF a])
        show ?thesis
          using ok Some one a s2 steps_trans [OF s2 del]
          by (cases a) (simp_all add: observe_response_def Let_def)
      next
        case (many u v vs)
        then show ?thesis using ok Some by (simp add: observe_response_def Let_def)
      qed
    qed
  qed
qed

lemma acknowledge_steps: "lock_steps s (acknowledge mid s)" "lock_steps s (reset_request mid s)"
  by (auto intro!: r_into_rtranclp lock_step.acks lock_step.resets)

lemma resolve_steps: "resolve_request m s = (b, s') \<Longrightarrow> lock_steps s s'"
  using r_into_rtranclp [of lock_step, OF lock_step.resolves [of s m]] by simp

lemma route_steps: "lock_steps s (route w kind m s)"
proof -
  obtain b s2 where r: "resolve_request m s = (b, s2)" by fastforce
  have s2: "lock_steps s s2" by (rule resolve_steps [OF r])
  have s3: "lock_steps s (interlude w s2)" by (rule steps_trans [OF s2 interlude_steps])
  have s4: "lock_steps s (observe_response w m href q (interlude w (interlude w s2)))" for href q
    by (rule steps_trans [OF steps_trans [OF s3 interlude_steps] observe_steps])
  have "lock_steps s (route_message w m s)"
    using r s2 s3 s4 by (cases b) (simp_all add: route_message_def Let_def split: option.split)
  then show ?thesis using acknowledge_steps by (simp add: route_def split: response_kind.split)
qed

lemma dispatch_steps: "lock_steps s (dispatch_coap w d s)"
proof (cases "classify_coap_response d None None")
  case (Inr c)
  let ?s1 = "case c_ack c of None \<Rightarrow> s | Some ack \<Rightarrow> snd (send_dgram w False ack s)"
  have "lock_steps s ?s1" using send_steps by (simp split: option.split)
  then show ?thesis
    using Inr steps_trans [OF steps_trans [OF _ interlude_steps] route_steps] by (simp add: dispatch_coap_def Let_def)
qed (simp add: dispatch_coap_def)

lemma reader_exit_steps: "lock_steps s (reader_exit w s)"
proof -
  let ?s1 = "s\<lparr>s_reader_running := False\<rparr>"
  let ?s2 = "interlude w (close_pending_requests ?s1)"
  let ?s3 = "interlude w (clear_refetches ?s2)"
  have a: "lock_steps s ?s1" by (rule outside_steps) simp
  have b: "lock_steps ?s1 ?s2"
    by (rule steps_trans [OF r_into_rtranclp interlude_steps]) (rule lock_step.closes)
  have c: "lock_steps ?s2 ?s3"
    by (rule steps_trans [OF r_into_rtranclp interlude_steps]) (rule lock_step.empties)
  have "lock_steps ?s3 (clear_relations ?s3)" by (rule r_into_rtranclp) (rule lock_step.clears)
  from steps_trans [OF steps_trans [OF a b] c] steps_trans [OF steps_trans [OF steps_trans [OF a b] c] this]
  show ?thesis by (simp add: reader_exit_def Let_def)
qed

lemma dispatches_steps: "lock_steps s (fold (dispatch_coap w) ps s)"
  by (induction ps arbitrary: s) (auto intro: steps_trans [OF dispatch_steps])

lemma reader_round_steps: "lock_steps s (snd (reader_round w i s))"
  using dispatches_steps reader_exit_steps steps_trans [OF dispatches_steps reader_exit_steps]
  by (simp add: reader_round_def Let_def split: reader_input.split)

lemma dispatch_ok: "session_ok s \<Longrightarrow> session_ok (dispatch_coap w d s)"
  by (rule lock_steps_ok [OF dispatch_steps])

end

text \<open>
  Two worlds of the model that meet the interface: one where no other thread runs, and the one a
  waiting caller sees, where the reader dispatches whatever arrived.
\<close>

definition quiet :: "world \<Rightarrow> world" where
  "quiet w = w\<lparr>w_threads := \<lambda>n s. s\<rparr>"

definition with_reader :: "(nat \<Rightarrow> reader_input) \<Rightarrow> world \<Rightarrow> world" where
  "with_reader net w = w\<lparr>w_threads := \<lambda>n s. snd (reader_round (quiet w) (net n) s)\<rparr>"

interpretation quiet: interleaved "quiet w"
  by unfold_locales (simp add: quiet_def)

interpretation caller: interleaved "with_reader net w"
  by unfold_locales (simp add: with_reader_def quiet.reader_round_steps)

section \<open>What one datagram does\<close>

lemma interlude_quiet [simp]: "interlude (quiet w) s = tick s"
  by (simp add: interlude_def quiet_def)

lemma clock_quiet [simp]: "w_clock (quiet w) = w_clock w" "w_send (quiet w) = w_send w"
  by (simp_all add: quiet_def)

lemma tick_fields [simp]:
  "s_next (tick s) = s_next s" "s_refetch (tick s) = s_refetch s" "s_refetch_seq (tick s) = s_refetch_seq s"
  "s_heap (tick s) = s_heap s" "s_pending (tick s) = s_pending s" "s_pending_mids (tick s) = s_pending_mids s"
  "s_tokens (tick s) = s_tokens s" "s_log (tick s) = s_log s" "s_seqs (tick s) = s_seqs s"
  "s_plain (tick s) = s_plain s" "s_legacy (tick s) = s_legacy s" "s_legacy_mids (tick s) = s_legacy_mids s"
  "query_of (tick s) = query_of s" "s_queries (tick s) = s_queries s"
  "s_on_delivery (tick s) = s_on_delivery s" "s_on_notification (tick s) = s_on_notification s"
  "s_on_legacy (tick s) = s_on_legacy s" "s_on_pending (tick s) = s_on_pending s" "s_on_error (tick s) = s_on_error s"
  by (simp_all add: tick_def query_of_def fun_eq_iff)

lemma send_effect:
  "\<exists>n t. snd (send_dgram w ord d s) = (interlude w s)\<lparr>s_calls := n, s_last_send := t\<rparr>
     \<or> snd (send_dgram w ord d s) = emit (Sent d) ((interlude w s)\<lparr>s_calls := n, s_last_send := t\<rparr>)"
proof -
  define s1 where "s1 = interlude w s"
  have same: "s1 = s1\<lparr>s_calls := s_calls s1, s_last_send := s_last_send s1\<rparr>" by simp
  have one: "tick s1 = s1\<lparr>s_calls := s_calls s1 + 1, s_last_send := s_last_send s1\<rparr>" by (simp add: tick_def)
  have two: "tick (tick s1)\<lparr>s_last_send := t\<rparr> = s1\<lparr>s_calls := s_calls s1 + 2, s_last_send := t\<rparr>" for t
    by (simp add: tick_def)
  show ?thesis
  proof (cases "(s_cancelled s1 \<and> \<not> ord) \<or> \<not> s_conn s1")
    case True
    then have "snd (send_dgram w ord d s) = s1" by (simp add: send_dgram_def Let_def s1_def [symmetric])
    with same show ?thesis unfolding s1_def [symmetric] by metis
  next
    case False
    then have "snd (send_dgram w ord d s) \<in> {tick s1, tick (tick s1)\<lparr>s_last_send := w_clock w (s_calls (tick s1))\<rparr>,
        emit (Sent d) (tick (tick s1)\<lparr>s_last_send := w_clock w (s_calls (tick s1))\<rparr>)}"
      by (auto simp: send_dgram_def Let_def s1_def [symmetric] monotonic_def split: send_outcome.split)
    with one two show ?thesis unfolding s1_def [symmetric] by (metis insertE singletonD)
  qed
qed

lemma sends_quiet:
  assumes "snd (send_dgram (quiet w) ord d s) = s'"
  shows "requests s' = requests s" and "relations s' = relations s" and "refetches s' = refetches s"
    and "s_log s' = s_log s \<or> s_log s' = s_log s @ [Sent d]"
    and "s_on_delivery s' = s_on_delivery s" and "s_on_legacy s' = s_on_legacy s"
    and "s_on_notification s' = s_on_notification s"
  using send_effect [of "quiet w" ord d s] assms by (auto simp: parts_defs emit_def)

lemma deliver_quiet:
  "requests (deliver_or_refetch (quiet w) m r href query reg sq legacy s) = requests s"
  by (simp add: deliver_or_refetch_def deliver_representation_def call_back_def queue_refetch_def
      start_refetch_worker_def Let_def requests_def emit_def tick_def)

lemma observe_quiet_requests: "requests (observe_response (quiet w) m href query s) = requests s"
proof -
  have plain: "requests s1 = requests s" if "accept_plain tok mid s = (a, s1)" for tok mid a s1
    using that by (auto simp: accept_plain_def requests_def split: option.splits if_splits)
  have seq: "requests s1 = requests s0" if "accept_sequence tok q t s0 = (a, s1)" for tok q t a s1 s0
    using that by (auto simp: accept_sequence_def requests_def Let_def split: if_splits)
  have cb: "requests (call_back (quiet w) b e s0) = requests s0" for b e s0
    by (simp add: call_back_def requests_def emit_def)
  have tk: "requests (tick s0) = requests s0" for s0 by (simp add: requests_def tick_def)
  have rt: "requests (retire_token tok s) = requests s" for tok by (simp add: requests_def retire_token_def)
  show ?thesis
    unfolding observe_response_def Let_def
    by (auto simp: cb tk rt deliver_quiet split: option.split list.split prod.split acceptance.split
        dest: plain seq)
qed

lemma route_message_heap:
  "s_heap (route_message (quiet w) m s) =
     (case map_of (s_pending s) (m_token m) of
        None \<Rightarrow> s_heap s
      | Some x \<Rightarrow>
          (case s_heap s x of
             None \<Rightarrow> s_heap s
           | Some e \<Rightarrow> if block1_response_matches m e
                       then (s_heap s)(x \<mapsto> e\<lparr>x_msg := Some m, x_event := True\<rparr>) else s_heap s))"
proof -
  have "s_heap (observe_response (quiet w) m href q (tick (tick s))) = s_heap s" for href q
    using observe_quiet_requests [of w m href q "tick (tick s)"] by (simp add: requests_def)
  then have miss: "s_heap (route_message (quiet w) m s) = s_heap s" if "resolve_request m s = (False, s)"
    using that by (simp add: route_message_def Let_def split: option.split)
  show ?thesis
  proof (cases "\<exists>x e. map_of (s_pending s) (m_token m) = Some x \<and> s_heap s x = Some e \<and> block1_response_matches m e")
    case True
    then show ?thesis by (auto simp: route_message_def resolve_request_def)
  next
    case False
    then have "resolve_request m s = (False, s)" by (auto simp: resolve_request_def split: option.split)
    from miss [OF this] show ?thesis using False by (auto split: option.split)
  qed
qed

text \<open>What a notification must be for its payload to reach a callback as it is.\<close>

definition complete_representation :: "coap_message \<Rightarrow> bool" where
  "complete_representation m \<longleftrightarrow> m_code m = 0x45 \<and>
     (option_values (m_options m) BLOCK2 = [] \<or>
      (\<exists>v szx. option_values (m_options m) BLOCK2 = [v] \<and> length v \<le> 3 \<and> block_fields v = (0, 0, szx)))"

lemma notification_block_iff:
  "notification_block opts = Some False \<longleftrightarrow> option_values opts BLOCK2 = [] \<or>
      (\<exists>v szx. option_values opts BLOCK2 = [v] \<and> length v \<le> 3 \<and> block_fields v = (0, 0, szx))"
  by (auto simp: notification_block_def split: list.split prod.split)

text \<open>How a delivery is marked, from the relation's state before it.\<close>

definition marked :: "coap_message \<Rightarrow> session \<Rightarrow> bool \<Rightarrow> nat option \<Rightarrow> bool \<Rightarrow> bool" where
  "marked m s registration sequence legacy \<longleftrightarrow>
     (case option_values (m_options m) OBSERVE of
        [v] \<Rightarrow> length v \<le> 3 \<and> sequence = Some (be_nat v) \<and> \<not> legacy
               \<and> (registration \<longleftrightarrow> s_seqs s (m_token m) = None)
               \<and> (\<exists>t. sequence_is_fresh (s_seqs s (m_token m)) (be_nat v) t)
      | [] \<Rightarrow> sequence = None \<and> s_seqs s (m_token m) = None \<and> (registration \<longleftrightarrow> \<not> legacy)
               \<and> (legacy \<longleftrightarrow> m_token m \<in> s_legacy s \<or> s_plain s (m_token m) \<noteq> None)
               \<and> (if m_token m \<in> s_legacy s then s_legacy_mids s (m_token m) \<noteq> Some (m_mid m)
                  else s_plain s (m_token m) \<noteq> Some (m_mid m))
      | _ \<Rightarrow> False)"

definition justified :: "coap_message \<Rightarrow> pystr \<Rightarrow> pystr list \<Rightarrow> session \<Rightarrow> session_event \<Rightarrow> bool" where
  "justified m href query s e \<longleftrightarrow>
     (case e of
        Sent d \<Rightarrow> False
      | Observe_error h code \<Rightarrow> h = href \<and> code = m_code m \<and> code \<noteq> 0x45
      | Observe_pending h \<Rightarrow> h = href \<and> m_code m = 0x45 \<and> option_values (m_options m) OBSERVE = []
      | Delivered dl \<Rightarrow> complete_representation m \<and> o_href dl = href \<and> o_payload dl = m_payload m
          \<and> o_query dl = query \<and> marked m s (o_registration dl) (o_sequence dl) (o_legacy dl)
      | Notified h p \<Rightarrow> complete_representation m \<and> h = href \<and> p = m_payload m
      | Legacy_notified h p \<Rightarrow> complete_representation m \<and> h = href \<and> p = m_payload m
          \<and> option_values (m_options m) OBSERVE = [])"

definition is_delivery :: "session_event \<Rightarrow> bool" where
  "is_delivery e \<longleftrightarrow> (case e of Delivered _ \<Rightarrow> True | Notified _ _ \<Rightarrow> True | Legacy_notified _ _ \<Rightarrow> True | _ \<Rightarrow> False)"

lemma emit_log [simp]: "s_log (emit e s) = s_log s @ [e]"
  by (simp add: emit_def)

lemma deliver_quiet_log:
  assumes "marked m s reg sq legacy" and "r \<longrightarrow> notification_block (m_options m) = Some True"
    and "\<not> r \<longrightarrow> complete_representation m" and "legacy \<longrightarrow> option_values (m_options m) OBSERVE = []"
  obtains evs where "s_log (deliver_or_refetch (quiet w) m r href query reg sq legacy s') = s_log s' @ evs"
    "length evs \<le> 1" "\<forall>e \<in> set evs. justified m href query s e"
proof -
  have "s_log (queue_refetch key b s') = s_log s'" for key b
    by (simp add: queue_refetch_def start_refetch_worker_def Let_def)
  with assms show thesis
    by (cases r; cases "s_on_delivery s'"; cases "legacy \<and> s_on_legacy s'"; cases "s_on_notification s'")
      (auto intro!: that simp: deliver_or_refetch_def deliver_representation_def call_back_def justified_def)
qed

lemma accept_plain_marked:
  assumes "accept_plain (m_token m) (m_mid m) s = (Accepted reg sq legacy pend, s1)"
    and "option_values (m_options m) OBSERVE = []"
  shows "marked m s reg sq legacy" and "s_log s1 = s_log s"
  using assms by (cases "s_seqs s (m_token m)"; auto simp: accept_plain_def marked_def split: if_splits option.splits)+

lemma accept_sequence_marked:
  assumes "accept_sequence (m_token m) (be_nat v) t s' = (Accepted reg sq legacy pend, s1)"
    and "option_values (m_options m) OBSERVE = [v]" and "length v \<le> 3" and "s_seqs s' = s_seqs s"
  shows "marked m s reg sq legacy" and "s_log s1 = s_log s'" and "\<not> legacy"
  using assms by (auto simp: accept_sequence_def marked_def Let_def split: if_splits)

lemma observe_quiet_log:
  "\<exists>evs. s_log (observe_response (quiet w) m href query s) = s_log s @ evs
     \<and> length (filter is_delivery evs) \<le> 1 \<and> (\<forall>e \<in> set evs. justified m href query s e)"
    (is "?P (observe_response (quiet w) m href query s)")
proof -
  have none: "?P s1" if "s_log s1 = s_log s" for s1 using that by (intro exI [of _ "[]"]) simp
  have some: "?P s1" if "s_log s1 = s_log s @ evs" "length evs \<le> 1" "\<forall>e \<in> set evs. justified m href query s e" for s1 evs
    using that by (intro exI [of _ evs]) (auto intro: order_trans [OF length_filter_le])
  have pre: "?P s1" if "s_log s1 = (s_log s @ us) @ evs" "length evs \<le> 1" "us = [] \<or> us = [Observe_pending href]"
      "m_code m = 0x45" "option_values (m_options m) OBSERVE = []"
      "\<forall>e \<in> set evs. justified m href query s e" for s1 us evs
    using that by (intro exI [of _ "us @ evs"])
      (auto simp: is_delivery_def justified_def intro: order_trans [OF length_filter_le])
  show ?thesis
  proof (cases "m_code m \<noteq> 0x45")
    case True
    show ?thesis
    proof (cases "s_on_error s")
      case True
      with \<open>m_code m \<noteq> 0x45\<close> show ?thesis
        by (intro some [of _ "[Observe_error href (m_code m)]"])
          (simp_all add: observe_response_def Let_def call_back_def retire_token_def justified_def)
    next
      case False
      with True show ?thesis
        by (intro none) (simp add: observe_response_def Let_def call_back_def retire_token_def)
    qed
  next
    case ok: False
    show ?thesis
    proof (cases "notification_block (m_options m)")
      case None
      then show ?thesis using ok by (intro none) (simp add: observe_response_def Let_def)
    next
      case (Some r)
      then have r: "r \<longrightarrow> notification_block (m_options m) = Some True" "\<not> r \<longrightarrow> complete_representation m"
        using ok notification_block_iff [of "m_options m"] by (auto simp: complete_representation_def)
      consider (plain) "option_values (m_options m) OBSERVE = []"
        | (one) v where "option_values (m_options m) OBSERVE = [v]" "length v \<le> 3"
        | (long) v where "option_values (m_options m) OBSERVE = [v]" "length v > 3"
        | (many) u v vs where "option_values (m_options m) OBSERVE = u # v # vs"
        by (cases "option_values (m_options m) OBSERVE" rule: remdups_adj.cases) (auto simp: not_less [symmetric])
      then show ?thesis
      proof cases
        case plain
        obtain a s1 where a: "accept_plain (m_token m) (m_mid m) s = (a, s1)" by fastforce
        show ?thesis
        proof (cases a)
          case Rejected
          then have "s1 = s" using a by (auto simp: accept_plain_def split: if_splits option.splits)
          then show ?thesis using ok Some plain a Rejected
            by (intro none) (simp add: observe_response_def Let_def)
        next
          case (Accepted reg sq legacy pending)
          note mk = accept_plain_marked [OF a [unfolded Accepted] plain]
          show ?thesis
          proof (cases pending)
            case False
            obtain evs where "s_log (deliver_or_refetch (quiet w) m r href query reg sq legacy (tick s1)) = s_log (tick s1) @ evs"
              "length evs \<le> 1" "\<forall>e \<in> set evs. justified m href query s e"
              using deliver_quiet_log [OF mk(1) r] plain by metis
            then show ?thesis using ok Some plain a Accepted False mk(2)
              by (intro some) (simp_all add: observe_response_def Let_def)
          next
            case True
            define us where "us = (if s_on_pending s1 then [Observe_pending href] else [])"
            let ?s2 = "tick (call_back (quiet w) (s_on_pending s1) (Observe_pending href) s1)"
            have us: "us = [] \<or> us = [Observe_pending href]" by (simp add: us_def)
            have log: "s_log ?s2 = s_log s @ us" by (simp add: call_back_def us_def mk(2))
            obtain evs where e: "s_log (deliver_or_refetch (quiet w) m r href query reg sq legacy ?s2) = s_log ?s2 @ evs"
              "length evs \<le> 1" "\<forall>e \<in> set evs. justified m href query s e"
              using deliver_quiet_log [OF mk(1) r] plain by metis
            have run: "observe_response (quiet w) m href query s =
                (if probation_stands (m_token m) href query (m_mid m) ?s2
                 then deliver_or_refetch (quiet w) m r href query reg sq legacy ?s2 else ?s2)"
              using ok Some plain a Accepted True by (simp add: observe_response_def Let_def)
            show ?thesis
              unfolding run using pre [OF _ e(2) us _ plain e(3)] pre [OF _ _ us _ plain, of _ "[]"] e(1) log ok by simp
          qed
        qed
      next
        case (one v)
        obtain a s2 where a: "accept_sequence (m_token m) (be_nat v) (w_clock w (s_calls s)) (tick (tick s)) = (a, s2)"
          by fastforce
        show ?thesis
        proof (cases a)
          case Rejected
          then have "s2 = tick (tick s)" using a by (auto simp: accept_sequence_def Let_def split: if_splits)
          then show ?thesis using ok Some one a Rejected
            by (intro none) (simp add: observe_response_def Let_def)
        next
          case (Accepted reg sq legacy pending)
          note mk = accept_sequence_marked [OF a [unfolded Accepted] one, of s, simplified]
          obtain evs where "s_log (deliver_or_refetch (quiet w) m r href query reg sq legacy (tick s2)) = s_log (tick s2) @ evs"
            "length evs \<le> 1" "\<forall>e \<in> set evs. justified m href query s e"
            using deliver_quiet_log [OF mk(1) r] mk(3) by metis
          then show ?thesis using ok Some one a Accepted mk(2)
            by (intro some) (simp_all add: observe_response_def Let_def)
        qed
      next
        case (long v)
        then show ?thesis using ok Some by (intro none) (simp add: observe_response_def Let_def)
      next
        case (many u v vs)
        then show ?thesis using ok Some by (intro none) (simp add: observe_response_def Let_def)
      qed
    qed
  qed
qed

section \<open>Properties\<close>

text \<open>C3.
  A datagram from the peer changes at most one pending exchange, and exactly the one it belongs
  to: an empty ACK or a reset the one with its Message ID (a reset never overwrites an answer), a
  response the one with its token, provided it covers the Block1 range the request waits for. A
  malformed datagram, one the classifier ignores, and one for no pending request change none.
\<close>

theorem response_correlation:
  "s_heap (dispatch_coap (quiet w) d s) =
     (case classify_coap_response d None None of
        Inl _ \<Rightarrow> s_heap s
      | Inr c \<Rightarrow>
          let m = c_message c in
          case c_kind c of
            RESPONSE_IGNORE \<Rightarrow> s_heap s
          | RESPONSE_EMPTY_ACK \<Rightarrow>
              (case map_of (s_pending_mids s) (m_mid m) of
                 None \<Rightarrow> s_heap s
               | Some x \<Rightarrow> (s_heap s)(x := map_option (\<lambda>e. e\<lparr>x_acked := True, x_event := True\<rparr>) (s_heap s x)))
          | RESPONSE_RESET \<Rightarrow>
              (case map_of (s_pending_mids s) (m_mid m) of
                 None \<Rightarrow> s_heap s
               | Some x \<Rightarrow> (s_heap s)(x := map_option (\<lambda>e.
                   if x_msg e = None \<and> x_err e = None
                   then e\<lparr>x_err := Some SessionResetError, x_event := True\<rparr> else e\<lparr>x_event := True\<rparr>) (s_heap s x)))
          | RESPONSE_MESSAGE \<Rightarrow>
              (case map_of (s_pending s) (m_token m) of
                 None \<Rightarrow> s_heap s
               | Some x \<Rightarrow>
                   (case s_heap s x of
                      None \<Rightarrow> s_heap s
                    | Some e \<Rightarrow> if block1_response_matches m e
                                then (s_heap s)(x \<mapsto> e\<lparr>x_msg := Some m, x_event := True\<rparr>) else s_heap s)))"
proof (cases "classify_coap_response d None None")
  case (Inl e)
  then show ?thesis by (simp add: dispatch_coap_def)
next
  case (Inr c)
  define s1 where "s1 = (case c_ack c of None \<Rightarrow> s | Some ack \<Rightarrow> snd (send_dgram (quiet w) False ack s))"
  have "requests s1 = requests s"
    unfolding s1_def using sends_quiet(1) [OF refl] by (simp split: option.split)
  then have r: "s_heap (tick s1) = s_heap s" "s_pending (tick s1) = s_pending s"
    "s_pending_mids (tick s1) = s_pending_mids s" by (simp_all add: requests_def)
  have run: "dispatch_coap (quiet w) d s = route (quiet w) (c_kind c) (c_message c) (tick s1)"
    using Inr by (simp add: dispatch_coap_def s1_def Let_def)
  have reset: "(set_event \<circ> fail_unanswered SessionResetError) =
      (\<lambda>e. if x_msg e = None \<and> x_err e = None
         then e\<lparr>x_err := Some SessionResetError, x_event := True\<rparr> else e\<lparr>x_event := True\<rparr>)"
    by (auto simp: fun_eq_iff set_event_def fail_unanswered_def)
  show ?thesis
  proof (cases "c_kind c")
    case RESPONSE_MESSAGE
    show ?thesis unfolding run Inr sum.case Let_def RESPONSE_MESSAGE response_kind.case route_def route_message_heap r ..
  next
    case RESPONSE_EMPTY_ACK
    then show ?thesis using Inr r by (simp add: run route_def acknowledge_def split: option.split)
  next
    case RESPONSE_RESET
    then show ?thesis using Inr r
      by (simp add: run route_def reset_request_def reset Let_def del: o_apply split: option.split)
  next
    case RESPONSE_IGNORE
    then show ?thesis using Inr r by (simp add: run route_def)
  qed
qed

lemma justified_relations:
  assumes "relations s' = relations s"
  shows "justified m href query s' e = justified m href query s e"
proof -
  have "s_seqs s' = s_seqs s" "s_legacy s' = s_legacy s" "s_legacy_mids s' = s_legacy_mids s" "s_plain s' = s_plain s"
    using assms by (simp_all add: relations_def)
  then have "marked m s' = marked m s" by (intro ext) (simp only: marked_def)
  then show ?thesis by (simp only: justified_def)
qed


text \<open>C10.
  Whatever the interleaving, the tables stay well formed: any sequence of locked sections of any
  threads keeps the request registry (two indices over the same live exchanges), the relation
  tables and the refetch queue (at most 16 relations, each once) consistent, and so does a round
  of the reader in which the others run whenever it lets them.
\<close>

theorem tables_survive_interleaving:
  assumes "session_ok s" and "lock_steps s s'"
  shows "session_ok s' \<and> length (s_refetch s') \<le> MAX_PENDING_REFETCH
    \<and> length (s_pending s') = length (s_pending_mids s')
    \<and> session_ok (dispatch_coap (with_reader net w) d s')
    \<and> session_ok (snd (reader_round (with_reader net w) i s'))"
proof -
  have ok: "session_ok s'" by (rule lock_steps_ok [OF assms(2,1)])
  then show ?thesis
    using caller.dispatch_ok [OF ok] lock_steps_ok [OF caller.reader_round_steps ok] registry_length
    by (simp add: session_ok_def refetch_ok_def)
qed

definition demo_world :: world where
  "demo_world = \<lparr>w_clock = real, w_wall = real, w_random = (\<lambda>k n. replicate n (mk_byte k)),
     w_send = (\<lambda>k. Sent_ok), w_threads = (\<lambda>n s. s)\<rparr>"

lemma demo_ok: "session_ok demo_session"
  using demo_registry by (simp add: session_ok_def relations_ok_def refetch_ok_def demo_session_def)

theorem tables_survive_interleaving_witness:
  "session_ok (snd (reader_round (with_reader (\<lambda>n. Nothing_read) demo_world) (Packets [[0x45, 1]] False)
     (queue_refetch (str_of ''/a'', [], False) True demo_session)))"
proof -
  have "lock_steps demo_session (queue_refetch (str_of ''/a'', [], False) True demo_session)"
    by (rule r_into_rtranclp) (rule lock_step.queues)
  from tables_survive_interleaving [OF demo_ok this] show ?thesis by blast
qed

section \<open>Ordering of notifications\<close>

lemma fresh_iff_newer:
  assumes "\<bar>n - n0\<bar> < OBSERVE_SEQUENCE_HALF_RANGE" and "t - t0 \<le> OBSERVE_SEQUENCE_RESET_S"
  shows "sequence_is_fresh (Some (nat (n0 mod OBSERVE_SEQUENCE_MODULUS), t0)) (nat (n mod OBSERVE_SEQUENCE_MODULUS)) t
     \<longleftrightarrow> n0 < n"
proof -
  have nonneg: "0 \<le> k mod OBSERVE_SEQUENCE_MODULUS" for k :: int by simp
  have "(int (nat (n mod OBSERVE_SEQUENCE_MODULUS)) - int (nat (n0 mod OBSERVE_SEQUENCE_MODULUS))) mod OBSERVE_SEQUENCE_MODULUS
      = (n - n0) mod OBSERVE_SEQUENCE_MODULUS"
    using nonneg by (simp add: mod_diff_eq)
  moreover have "(n - n0) mod OBSERVE_SEQUENCE_MODULUS =
      (if n0 \<le> n then n - n0 else n - n0 + OBSERVE_SEQUENCE_MODULUS)"
  proof (cases "n0 \<le> n")
    case True
    then show ?thesis using assms(1) by (simp add: mod_pos_pos_trivial)
  next
    case False
    have "(n - n0) mod OBSERVE_SEQUENCE_MODULUS = (n - n0 + OBSERVE_SEQUENCE_MODULUS) mod OBSERVE_SEQUENCE_MODULUS" by simp
    also have "\<dots> = n - n0 + OBSERVE_SEQUENCE_MODULUS"
      using assms(1) False by (intro mod_pos_pos_trivial) simp_all
    finally show ?thesis using False by simp
  qed
  ultimately show ?thesis
    using assms by (auto simp: sequence_is_fresh_def Let_def)
qed

text \<open>
  The notifications of one relation as they arrive: the server's own counter, sent modulo
  \<open>2^24\<close>, and the time of receipt. The run returns those accepted.
\<close>

fun observe_run :: "bytes \<Rightarrow> (int \<times> real) list \<Rightarrow> session \<Rightarrow> (int \<times> real) list" where
  "observe_run tok [] s = []"
| "observe_run tok ((n, t) # rest) s =
     (case accept_sequence tok (nat (n mod OBSERVE_SEQUENCE_MODULUS)) t s of
        (Rejected, s') \<Rightarrow> observe_run tok rest s'
      | (_, s') \<Rightarrow> (n, t) # observe_run tok rest s')"

text \<open>
  What should be accepted after \<open>(best, t0)\<close>: the notifications the server sent later than the last one
  accepted, and those that arrive more than 128 seconds after it.
\<close>

fun news_from :: "int \<times> real \<Rightarrow> (int \<times> real) list \<Rightarrow> (int \<times> real) list" where
  "news_from last_one [] = []"
| "news_from last_one (a # rest) =
     (if fst last_one < fst a \<or> snd a - snd last_one > OBSERVE_SEQUENCE_RESET_S then a # news_from a rest
      else news_from last_one rest)"

fun news :: "(int \<times> real) list \<Rightarrow> (int \<times> real) list" where
  "news [] = []"
| "news (a # rest) = a # news_from a rest"

lemma news_from_props:
  "successively (\<lambda>a b. fst a < fst b \<or> snd b - snd a > OBSERVE_SEQUENCE_RESET_S) (x # news_from x rest)
   \<and> set (news_from x rest) \<subseteq> set rest"
proof (induction rest arbitrary: x)
  case (Cons a rest)
  show ?case using Cons.IH [of a] Cons.IH [of x] by (auto simp: successively_Cons)
qed simp

lemma news_from_within:
  assumes "\<forall>a \<in> set (x # rest). \<forall>b \<in> set (x # rest). snd a - snd b \<le> OBSERVE_SEQUENCE_RESET_S"
  shows "sorted_wrt (<) (map fst (x # news_from x rest))
    \<and> fst (last (x # news_from x rest)) = Max (fst ` set (x # rest))"
  using assms
proof (induction rest arbitrary: x)
  case (Cons a rest)
  have late: "\<not> snd a - snd x > OBSERVE_SEQUENCE_RESET_S" using Cons.prems by (simp add: not_less)
  have fin: "finite (fst ` set rest)" by simp
  show ?case
  proof (cases "fst x < fst a")
    case True
    have ih: "sorted_wrt (<) (map fst (a # news_from a rest))" "fst (last (a # news_from a rest)) = Max (fst ` set (a # rest))"
      using Cons.IH [of a] Cons.prems by auto
    have "Max (fst ` set (x # a # rest)) = Max (fst ` set (a # rest))"
      using True by (cases "rest = []") (simp_all add: max_def)
    with ih True show ?thesis by auto
  next
    case False
    have ih: "sorted_wrt (<) (map fst (x # news_from x rest))" "fst (last (x # news_from x rest)) = Max (fst ` set (x # rest))"
      using Cons.IH [of x] Cons.prems by auto
    have "Max (fst ` set (x # a # rest)) = Max (fst ` set (x # rest))"
      using False by (cases "rest = []") (simp_all add: max_def)
    with ih False late show ?thesis by auto
  qed
qed simp

text \<open>The server's counter moves less than \<open>2^23\<close> in 128 seconds.\<close>

definition counted_slowly :: "(int \<times> real) list \<Rightarrow> bool" where
  "counted_slowly arrivals \<longleftrightarrow>
     (\<forall>a \<in> set arrivals. \<forall>b \<in> set arrivals.
        \<bar>snd a - snd b\<bar> \<le> OBSERVE_SEQUENCE_RESET_S \<longrightarrow> \<bar>fst a - fst b\<bar> < OBSERVE_SEQUENCE_HALF_RANGE)"

lemma observe_run_news:
  assumes "s_seqs s tok = Some (nat (fst x mod OBSERVE_SEQUENCE_MODULUS), snd x)"
    and "counted_slowly (x # arrivals)" and "sorted (map snd (x # arrivals))"
  shows "observe_run tok arrivals s = news_from x arrivals"
  using assms
proof (induction arrivals arbitrary: s x)
  case (Cons a rest)
  obtain n t where a: "a = (n, t)" by fastforce
  have sub: "counted_slowly (x # rest)" "counted_slowly (a # rest)"
    using Cons.prems(2) by (auto simp: counted_slowly_def)
  have fresh: "sequence_is_fresh (Some (nat (fst x mod OBSERVE_SEQUENCE_MODULUS), snd x))
      (nat (n mod OBSERVE_SEQUENCE_MODULUS)) t \<longleftrightarrow> fst x < n \<or> t - snd x > OBSERVE_SEQUENCE_RESET_S"
  proof (cases "t - snd x > OBSERVE_SEQUENCE_RESET_S")
    case True
    then show ?thesis by (simp add: sequence_is_fresh_def)
  next
    case False
    moreover have "\<bar>n - fst x\<bar> < OBSERVE_SEQUENCE_HALF_RANGE"
      using Cons.prems(2,3) a False by (auto simp: counted_slowly_def)
    ultimately show ?thesis using fresh_iff_newer [of n "fst x" t "snd x"] by simp
  qed
  show ?case
  proof (cases "fst x < n \<or> t - snd x > OBSERVE_SEQUENCE_RESET_S")
    case True
    define s' where "s' = snd (accept_sequence tok (nat (n mod OBSERVE_SEQUENCE_MODULUS)) t s)"
    have acc: "accept_sequence tok (nat (n mod OBSERVE_SEQUENCE_MODULUS)) t s =
        (Accepted False (Some (nat (n mod OBSERVE_SEQUENCE_MODULUS))) False False, s')"
      using Cons.prems(1) fresh True unfolding s'_def by (simp add: accept_sequence_def Let_def)
    have "s_seqs s' tok = Some (nat (fst a mod OBSERVE_SEQUENCE_MODULUS), snd a)"
      using Cons.prems(1) fresh True a unfolding s'_def by (simp add: accept_sequence_def Let_def)
    then have "observe_run tok rest s' = news_from a rest"
      by (rule Cons.IH) (use sub Cons.prems(3) in simp_all)
    then show ?thesis using a True acc by simp
  next
    case False
    then have "accept_sequence tok (nat (n mod OBSERVE_SEQUENCE_MODULUS)) t s = (Rejected, s)"
      using Cons.prems(1) fresh by (simp add: accept_sequence_def Let_def)
    moreover have "observe_run tok rest s = news_from x rest"
      by (rule Cons.IH [OF Cons.prems(1)]) (use sub Cons.prems(3) in simp_all)
    ultimately show ?thesis using a False by simp
  qed
qed simp

text \<open>C9.
  Of the notifications of a new relation exactly those are accepted that the server sent after the last
  one accepted, or that arrive more than 128 seconds after it. The server counts its notifications and
  sends the count modulo \<open>2^24\<close>; the arrivals may be duplicated, reordered and cross the wrap of the
  counter, provided its count moves less than \<open>2^23\<close> in 128 seconds and the clock does not run backwards.
  So two accepted in a row are in the server's order or more than 128 seconds apart, and if all arrive
  within 128 seconds the accepted ones increase strictly and end with the newest that arrived.
\<close>

theorem observe_order_exact:
  assumes "s_seqs s tok = None" and "arrivals \<noteq> []" and "counted_slowly arrivals" and "sorted (map snd arrivals)"
  shows "observe_run tok arrivals s = news arrivals
    \<and> successively (\<lambda>a b. fst a < fst b \<or> snd b - snd a > OBSERVE_SEQUENCE_RESET_S) (observe_run tok arrivals s)
    \<and> ((\<forall>a \<in> set arrivals. \<forall>b \<in> set arrivals. snd a - snd b \<le> OBSERVE_SEQUENCE_RESET_S) \<longrightarrow>
         sorted_wrt (<) (map fst (observe_run tok arrivals s))
         \<and> fst (last (observe_run tok arrivals s)) = Max (fst ` set arrivals))"
proof -
  obtain a rest where a: "arrivals = a # rest" using assms(2) by (cases arrivals) auto
  obtain n t where nt: "a = (n, t)" by fastforce
  define s' where "s' = snd (accept_sequence tok (nat (n mod OBSERVE_SEQUENCE_MODULUS)) t s)"
  have acc: "accept_sequence tok (nat (n mod OBSERVE_SEQUENCE_MODULUS)) t s =
      (Accepted True (Some (nat (n mod OBSERVE_SEQUENCE_MODULUS))) False False, s')"
    and seq: "s_seqs s' tok = Some (nat (fst a mod OBSERVE_SEQUENCE_MODULUS), snd a)"
    using assms(1) nt unfolding s'_def by (simp_all add: accept_sequence_def sequence_is_fresh_def Let_def)
  have "observe_run tok rest s' = news_from a rest"
    by (rule observe_run_news [OF seq]) (use assms(3,4) a in simp_all)
  then have run: "observe_run tok arrivals s = a # news_from a rest" using a nt acc by simp
  show ?thesis
    unfolding run using news_from_props [of a rest] news_from_within [of a rest] by (simp add: a)
qed

theorem observe_order_exact_witness:
  "observe_run [1] [(16777215, 0), (16777217, 1), (16777216, 2), (16777217, 3), (16777220, 4), (3, 200), (2, 201)] demo_session
     = [(16777215, 0), (16777217, 1), (16777220, 4), (3, 200)]"
proof -
  have "s_seqs demo_session [1] = None" by (simp add: demo_session_def)
  from observe_order_exact [OF this,
      of "[(16777215, 0), (16777217, 1), (16777216, 2), (16777217, 3), (16777220, 4), (3, 200), (2, 201)]"]
  show ?thesis by (simp add: counted_slowly_def)
qed

text \<open>
  A relation whose server never sends the Observe option: the Message IDs of its responses in the
  order of arrival, and for each accepted one whether it was the answer to the registration.
\<close>

fun plain_run :: "bytes \<Rightarrow> nat list \<Rightarrow> session \<Rightarrow> (nat \<times> bool \<times> bool) list" where
  "plain_run tok [] s = []"
| "plain_run tok (mid # rest) s =
     (case accept_plain tok mid s of
        (Rejected, s') \<Rightarrow> plain_run tok rest s'
      | (Accepted registration _ legacy _, s') \<Rightarrow> (mid, registration, legacy) # plain_run tok rest s')"

lemma plain_run_legacy:
  assumes "s_seqs s tok = None" and "s_plain s tok \<noteq> None"
    and "(if tok \<in> s_legacy s then s_legacy_mids s tok else s_plain s tok) = Some m0"
  shows "plain_run tok mids s = map (\<lambda>mid. (mid, False, True)) (tl (remdups_adj (m0 # mids)))"
  using assms
proof (induction mids arbitrary: s m0)
  case (Cons mid mids)
  show ?case
  proof (cases "mid = m0")
    case True
    then have "accept_plain tok mid s = (Rejected, s)"
      using Cons.prems by (auto simp: accept_plain_def split: if_splits)
    then show ?thesis using Cons.IH [OF Cons.prems] True by simp
  next
    case False
    define s' where "s' = snd (accept_plain tok mid s)"
    have acc: "accept_plain tok mid s = (Accepted False None True False, s')"
      and "s_seqs s' tok = None" "s_plain s' tok \<noteq> None"
      "(if tok \<in> s_legacy s' then s_legacy_mids s' tok else s_plain s' tok) = Some mid"
      using Cons.prems False unfolding s'_def by (auto simp: accept_plain_def split: if_splits)
    from Cons.IH [OF this(2-4)] have ih: "plain_run tok mids s' = map (\<lambda>mid. (mid, False, True)) (tl (remdups_adj (mid # mids)))" .
    have "hd (remdups_adj (mid # mids)) = mid" "remdups_adj (mid # mids) \<noteq> []" by simp_all
    then obtain zs where zs: "remdups_adj (mid # mids) = mid # zs"
      by (cases "remdups_adj (mid # mids)") auto
    show ?thesis using ih acc False zs by simp
  qed
qed simp

text \<open>The optionless dialect of some appliances: of the responses of a new relation that carry no
  Observe option, exactly those are accepted whose Message ID differs from that of the response
  accepted before, so a retransmission is never delivered twice; the first answers the
  registration, and from the second accepted one on the relation is a legacy one.
\<close>

theorem legacy_promotion_exact:
  assumes "s_seqs s tok = None" and "s_plain s tok = None" and "tok \<notin> s_legacy s"
  shows "plain_run tok mids s =
     (case remdups_adj mids of
        [] \<Rightarrow> []
      | mid # rest \<Rightarrow> (mid, True, False) # map (\<lambda>m. (m, False, True)) rest)"
proof (cases mids)
  case (Cons mid rest)
  define s' where "s' = snd (accept_plain tok mid s)"
  have acc: "accept_plain tok mid s = (Accepted True None False True, s')" and "s_seqs s' tok = None"
    "s_plain s' tok \<noteq> None" "(if tok \<in> s_legacy s' then s_legacy_mids s' tok else s_plain s' tok) = Some mid"
    using assms unfolding s'_def by (simp_all add: accept_plain_def)
  from plain_run_legacy [OF this(2-4)]
  have "plain_run tok rest s' = map (\<lambda>m. (m, False, True)) (tl (remdups_adj (mid # rest)))" .
  moreover have "hd (remdups_adj (mid # rest)) = mid" "remdups_adj (mid # rest) \<noteq> []" by simp_all
  then obtain zs where "remdups_adj (mid # rest) = mid # zs"
    by (cases "remdups_adj (mid # rest)") auto
  ultimately show ?thesis using acc Cons by simp
qed simp

theorem legacy_promotion_exact_witness:
  "plain_run [1] [7, 7, 8, 8, 7, 9] demo_session =
     [(7, True, False), (8, False, True), (7, False, True), (9, False, True)]"
proof -
  have "s_seqs demo_session [1] = None" "s_plain demo_session [1] = None" "[1] \<notin> s_legacy demo_session"
    by (simp_all add: demo_session_def)
  from legacy_promotion_exact [OF this, of "[7, 7, 8, 8, 7, 9]"] show ?thesis by simp
qed

section \<open>A race with unsubscribe\<close>

text \<open>
  The path of a notification is looked up under the lock and its sequence number recorded under it
  again, without a second look: if another thread retires the token in between, the sequence is
  recorded for a token that no longer exists, and the notification is delivered after the relation
  was retired.
\<close>

definition racing_world :: "bytes \<Rightarrow> world" where
  "racing_world tok = demo_world\<lparr>w_threads := (\<lambda>n s. if n = 2 then retire_token tok s else s)\<rparr>"

definition observing_session :: session where
  "observing_session = demo_session\<lparr>s_tokens := [([9], str_of ''/a'')], s_queries := [[9] \<mapsto> []]\<rparr>"

definition late_notification :: coap_message where
  "late_notification = \<lparr>m_mtype = 1, m_code = 0x45, m_mid = 5, m_token = [9],
     m_options = [(6, [3])], m_payload = [1]\<rparr>"

lemma late_notification_recorded:
  "s_tokens (route_message (racing_world [9]) late_notification (observing_session\<lparr>s_calls := 1\<rparr>)) = []
   \<and> s_seqs (route_message (racing_world [9]) late_notification (observing_session\<lparr>s_calls := 1\<rparr>)) [9] \<noteq> None
   \<and> s_log (route_message (racing_world [9]) late_notification (observing_session\<lparr>s_calls := 1\<rparr>)) =
       [Delivered \<lparr>o_href = str_of ''/a'', o_payload = [1], o_query = [], o_registration = True,
          o_sequence = Some 3, o_legacy = False\<rparr>]"
  by (simp add: route_message_def resolve_request_def observing_session_def demo_session_def
      late_notification_def racing_world_def demo_world_def interlude_def tick_def query_of_def
      observe_response_def notification_block_def option_values_def accept_sequence_def
      sequence_is_fresh_def deliver_or_refetch_def deliver_representation_def call_back_def emit_def
      retire_token_def Let_def be_nat_def str_of_def)


end
