(* ===== verification/Session_Requests.thy ===== *)
theory Session_Requests
  imports Session_Dispatch
begin

text \<open>
  The callers' side of \<open>DtlsCoapSession\<close> (\<open>dtls_session.py\<close>): pacing, waiting, blockwise GET,
  POST with and without Block1, DELETE, ping, the Observe operations, the refetch of one
  notification and the teardown. A wait may last as long as the clocks allow, so the loops that
  wait take fuel, one unit for each turn; \<open>None\<close> is fuel that ran out, never an outcome of the
  code. An exception leaves the state as it was when it was raised, cleaned up by \<open>finally\<close>.
\<close>

section \<open>Computations that may wait\<close>

type_synonym 'a waiting = "('a result \<times> session) option"

definition and_then :: "'a waiting \<Rightarrow> ('a \<Rightarrow> session \<Rightarrow> 'b waiting) \<Rightarrow> 'b waiting" where
  "and_then m f =
     (case m of
        None \<Rightarrow> None
      | Some (Inl e, s) \<Rightarrow> Some (Inl e, s)
      | Some (Inr x, s) \<Rightarrow> f x s)"

definition finally_do :: "'a waiting \<Rightarrow> (session \<Rightarrow> session) \<Rightarrow> 'a waiting" where
  "finally_do m f = map_option (map_prod id f) m"

definition get_exchange :: "nat \<Rightarrow> session \<Rightarrow> exchange" where
  "get_exchange x s = (case s_heap s x of None \<Rightarrow> new_exchange None | Some e \<Rightarrow> e)"

section \<open>Pacing and waiting\<close>

definition pace :: "world \<Rightarrow> session \<Rightarrow> session" where
  "pace w s =
     (let now = w_clock w (s_calls s); s = tick s in
      if s_interval s - (now - s_last_send s) > 0 then interlude w s else s)"

text \<open>\<open>_wait_live\<close>: \<open>ev.wait\<close> in slices, each followed by a check that the reader lives.\<close>

fun wait_loop :: "world \<Rightarrow> nat \<Rightarrow> nat \<Rightarrow> real \<Rightarrow> session \<Rightarrow> bool waiting" where
  "wait_loop w 0 x deadline s = None"
| "wait_loop w (Suc fuel) x deadline s =
     (let slice_s = min (1 / 4) (deadline - w_clock w (s_calls s)); s = tick s in
      if slice_s \<le> 0 then Some (Inr False, s)
      else
        let s = interlude w s in
        if x_event (get_exchange x s) then Some (Inr True, s)
        else
          (case check_live s of
             Inl e \<Rightarrow> Some (Inl e, s)
           | Inr _ \<Rightarrow> wait_loop w fuel x deadline s))"

definition wait_live :: "world \<Rightarrow> nat \<Rightarrow> nat \<Rightarrow> real \<Rightarrow> session \<Rightarrow> bool waiting" where
  "wait_live w fuel x per_wait s = wait_loop w fuel x (w_clock w (s_calls s) + per_wait) (tick s)"

section \<open>One Block2 request\<close>

definition block_num_matches :: "coap_message \<Rightarrow> nat \<Rightarrow> nat \<Rightarrow> bool" where
  "block_num_matches m num szx =
     (if drop_bit 5 (m_code m) \<noteq> 2 then True
      else
        (case option_values (m_options m) BLOCK2 of
           [] \<Rightarrow> num = 0
         | value # _ \<Rightarrow>
             (let (response_num, _, response_szx) = block_fields value in
              push_bit (response_szx + 4) response_num = push_bit (szx + 4) num)))"

text \<open>The wait of one attempt: a matching response, or \<open>None\<close> when the attempt is over.\<close>

fun block_wait ::
  "world \<Rightarrow> nat \<Rightarrow> nat \<Rightarrow> nat \<Rightarrow> nat \<Rightarrow> real \<Rightarrow> session \<Rightarrow> coap_message option waiting" where
  "block_wait w 0 x num szx deadline s = None"
| "block_wait w (Suc fuel) x num szx deadline s =
     (let e = get_exchange x s in
      case (x_err e, x_msg e) of
        (Some err, _) \<Rightarrow> Some (Inl err, rearm False x s)
      | (None, stale) \<Rightarrow>
          if stale \<noteq> None \<and> block_num_matches (the stale) num szx then Some (Inr stale, s)
          else
            let acknowledged = x_acked e;
                s = rearm (stale \<noteq> None) x s;
                remaining = deadline - w_clock w (s_calls s);
                s = tick s in
            if remaining \<le> 0 then
              (if acknowledged then Some (Inl SessionTimeoutError, s) else Some (Inr None, s))
            else
              and_then (wait_live w fuel x (if acknowledged then remaining else min 4 (max (1 / 10) remaining)) s)
                (\<lambda>moved s.
                  if moved then block_wait w fuel x num szx deadline s
                  else if acknowledged then Some (Inl SessionTimeoutError, s)
                  else Some (Inr None, s)))"

text \<open>The attempts that are left, each sending the same datagram.\<close>

fun block_attempts ::
  "world \<Rightarrow> nat \<Rightarrow> nat \<Rightarrow> nat \<Rightarrow> bytes \<Rightarrow> nat \<Rightarrow> nat \<Rightarrow> real \<Rightarrow> session \<Rightarrow> coap_message waiting" where
  "block_attempts w fuel 0 x datagram num szx deadline s = Some (Inl SessionTimeoutError, s)"
| "block_attempts w fuel (Suc left) x datagram num szx deadline s =
     (case check_live s of
        Inl e \<Rightarrow> Some (Inl e, s)
      | Inr _ \<Rightarrow>
          if w_clock w (s_calls s) \<ge> deadline then Some (Inl SessionTimeoutError, tick s)
          else
            and_then (Some (send_dgram w False datagram (tick s))) (\<lambda>_ s.
            and_then (block_wait w fuel x num szx deadline s) (\<lambda>answer s.
              case answer of
                Some m \<Rightarrow> Some (Inr m, s)
              | None \<Rightarrow>
                  if deadline - w_clock w (s_calls s) \<le> 0 \<or> left = 0
                  then Some (Inl SessionTimeoutError, tick s)
                  else block_attempts w fuel left x datagram num szx deadline (tick s))))"

definition exchange_block ::
  "world \<Rightarrow> nat \<Rightarrow> bytes \<Rightarrow> pystr list \<Rightarrow> pystr list \<Rightarrow> nat \<Rightarrow> nat \<Rightarrow> real \<Rightarrow> coap_option list
     \<Rightarrow> session \<Rightarrow> coap_message waiting" where
  "exchange_block w fuel tok path query num szx deadline extra s =
     and_then (Some (register_pending tok None s)) (\<lambda>(mid, x) s.
     and_then (Some (build_get_request TYPE_CON mid tok (map PyStr path) (map PyStr query) (PyBytes CF_CBOR)
          (if num > 0 then PyInt (int num) else PyNone) (PyInt (int szx)) extra, s)) (\<lambda>datagram s.
     finally_do (block_attempts w fuel 3 x datagram num szx deadline s) (unregister_pending tok mid x)))"

section \<open>Blockwise GET\<close>

text \<open>The loop of one transfer, with the ETag of its first success response.\<close>

fun transfer ::
  "world \<Rightarrow> nat \<Rightarrow> bytes \<Rightarrow> pystr list \<Rightarrow> pystr list \<Rightarrow> real \<Rightarrow> coap_option list \<Rightarrow> block2 \<Rightarrow> bytes option
     \<Rightarrow> session \<Rightarrow> (nat option \<times> bytes \<times> nat) waiting" where
  "transfer w 0 tok path query deadline extra acc etag s = None"
| "transfer w (Suc fuel) tok path query deadline extra acc etag s =
     (if b_complete acc then Some (Inl BlockwiseError, s)
      else
        and_then (exchange_block w fuel tok path query (b_expected acc) (request_szx acc) deadline extra (pace w s))
          (\<lambda>m s.
            let success = (drop_bit 5 (m_code m) = 2);
                block_etag = (case option_values (m_options m) ETAG of [] \<Rightarrow> None | v # _ \<Rightarrow> Some v);
                first = (b_blocks acc = 0) in
            if success \<and> \<not> first \<and> etag \<noteq> None \<and> block_etag \<noteq> etag then Some (Inl EtagChanged, s)
            else
              (case add_response acc m of
                 Inl e \<Rightarrow> Some (Inl e, s)
               | Inr (BLOCK2_COMPLETE, acc) \<Rightarrow> Some (Inr (b_code acc, b_payload acc, b_blocks acc), s)
               | Inr (_, acc) \<Rightarrow>
                   transfer w fuel tok path query deadline extra acc
                     (if success \<and> first then block_etag else etag) s)))"

definition blockwise_get_once ::
  "world \<Rightarrow> nat \<Rightarrow> pystr list \<Rightarrow> pystr list \<Rightarrow> real \<Rightarrow> coap_option list \<Rightarrow> session
     \<Rightarrow> (nat option \<times> bytes \<times> nat \<times> bytes) waiting" where
  "blockwise_get_once w fuel path query timeout extra s =
     and_then (Some (next_tok s)) (\<lambda>tok s.
     and_then (Some (block2_new (PyBytes tok) (PyInt (int MAX_BLOCK2_BLOCKS)) (PyInt 65536) PyNone, s)) (\<lambda>acc s.
     and_then (transfer w fuel tok path query (w_clock w (s_calls s) + timeout) extra acc None (tick s))
       (\<lambda>(code, payload, blocks) s. Some (Inr (code, payload, blocks, tok), s))))"

definition blockwise_get ::
  "world \<Rightarrow> nat \<Rightarrow> pystr list \<Rightarrow> pystr list \<Rightarrow> real \<Rightarrow> coap_option list \<Rightarrow> session
     \<Rightarrow> (nat option \<times> bytes \<times> nat \<times> bytes) waiting" where
  "blockwise_get w fuel path query timeout extra s =
     (case blockwise_get_once w fuel path query timeout extra s of
        Some (Inl EtagChanged, s) \<Rightarrow>
          (case blockwise_get_once w fuel path query timeout extra s of
             Some (Inl EtagChanged, s) \<Rightarrow> Some (Inl BlockwiseError, s)
           | r \<Rightarrow> r)
      | r \<Rightarrow> r)"

definition session_get ::
  "world \<Rightarrow> nat \<Rightarrow> pyval \<Rightarrow> pyval \<Rightarrow> real \<Rightarrow> pyval \<Rightarrow> session \<Rightarrow> (nat option \<times> bytes) waiting" where
  "session_get w fuel path_segs query timeout extra_options s =
     and_then (Some (check_live s, s)) (\<lambda>_ s.
     and_then (Some (validated_text_options path_segs False, s)) (\<lambda>path s.
     and_then (Some (validated_text_options query False, s)) (\<lambda>q s.
     and_then (Some (validated_extra_options extra_options, s)) (\<lambda>extra s.
     and_then (blockwise_get w fuel path q timeout extra s) (\<lambda>(code, payload, _, _) s.
       Some (Inr (code, payload), s))))))"

text \<open>The refetch worker's work on one entry of its queue.\<close>

definition refetch_one :: "world \<Rightarrow> nat \<Rightarrow> refetch_key \<times> nat \<times> bool \<Rightarrow> session \<Rightarrow> unit waiting" where
  "refetch_one w fuel entry s =
     (case entry of ((href, query, legacy), seq, registration) \<Rightarrow>
        if \<not> relation_active href query legacy s then Some (Inr (), s)
        else
          (case blockwise_get w fuel (segs_of href) query 15 [] (pace w s) of
             None \<Rightarrow> None
           | Some (Inl _, s) \<Rightarrow> Some (Inr (), s)
           | Some (Inr (code, payload, _, _), s) \<Rightarrow>
               if code \<noteq> Some 0x45 then Some (Inr (), s)
               else if (case map_of (s_refetch s) (href, query, legacy) of None \<Rightarrow> False | Some (n, _) \<Rightarrow> n > seq)
                 then Some (Inr (), s)
               else
                 let s = interlude w s in
                 if \<not> relation_active href query legacy s then Some (Inr (), s)
                 else Some (Inr (), deliver_representation w href payload query registration
                        (sequence_for href query s) legacy s)))"

section \<open>POST and DELETE in one frame\<close>

definition path_query_options :: "pystr list \<Rightarrow> pystr list \<Rightarrow> coap_option list result" where
  "path_query_options path query =
     andThen (options_of URI_PATH (map PyStr path)) (\<lambda>p.
     andThen (options_of URI_QUERY (map PyStr query)) (\<lambda>q. Inr (p @ q)))"

text \<open>The wait of one attempt; \<open>None\<close> when the attempt is over and the datagram is sent again.\<close>

fun post_wait ::
  "world \<Rightarrow> nat \<Rightarrow> nat \<Rightarrow> nat \<Rightarrow> bool \<Rightarrow> real \<Rightarrow> session \<Rightarrow> coap_message option waiting" where
  "post_wait w 0 x attempt is_last deadline s = None"
| "post_wait w (Suc fuel) x attempt is_last deadline s =
     (let e = get_exchange x s;
          s = (if x_err e = None \<and> x_msg e = None then rearm False x s else s) in
      case (x_err e, x_msg e) of
        (Some err, _) \<Rightarrow> Some (Inl err, s)
      | (None, Some m) \<Rightarrow> Some (Inr (Some m), s)
      | (None, None) \<Rightarrow>
          let remaining = deadline - w_wall w (s_calls s); s = tick s in
          if remaining \<le> 0 then Some (Inl SessionTimeoutError, s)
          else
            and_then (wait_live w fuel x
                (if x_acked e \<or> is_last then remaining else min (2 * 2 ^ attempt) remaining) s) (\<lambda>moved s.
              if moved then post_wait w fuel x attempt is_last deadline s
              else if x_acked e \<or> is_last then Some (Inl SessionTimeoutError, s)
              else Some (Inr None, s)))"

text \<open>
  One transmission of a write: none once it is acknowledged, and a failed send is tolerated when
  an earlier one went out.
\<close>

definition transmit :: "world \<Rightarrow> nat \<Rightarrow> bool \<Rightarrow> bytes \<Rightarrow> session \<Rightarrow> unit waiting" where
  "transmit w attempt acknowledged datagram s =
     (if acknowledged then Some (Inr (), s)
      else
        (case send_dgram w False datagram s of
           (Inl err, s) \<Rightarrow>
             if isinstance_of err EndpointError \<and> attempt > 0 then Some (Inr (), s)
             else Some (Inl err, s)
         | (Inr _, s) \<Rightarrow> Some (Inr (), s)))"

fun post_attempts ::
  "world \<Rightarrow> nat \<Rightarrow> nat \<Rightarrow> nat \<Rightarrow> nat \<Rightarrow> bytes \<Rightarrow> real \<Rightarrow> session \<Rightarrow> coap_message waiting" where
  "post_attempts w fuel 0 attempt x datagram deadline s = Some (Inl SessionTimeoutError, s)"
| "post_attempts w fuel (Suc left) attempt x datagram deadline s0 =
     (let s = pace w s0;
          e = get_exchange x s;
          answered = (x_msg e \<noteq> None \<or> x_err e \<noteq> None) in
      and_then
        (if answered then Some (Inr (), s)
         else
           (case check_live s of
              Inl err \<Rightarrow> Some (Inl err, s)
            | Inr _ \<Rightarrow> transmit w attempt (x_acked e) datagram s))
        (\<lambda>_ s.
      and_then (post_wait w fuel x attempt (left = 0) deadline s) (\<lambda>answer s.
        case answer of
          Some m \<Rightarrow> Some (Inr m, s)
        | None \<Rightarrow>
            if deadline - w_wall w (s_calls s) \<le> s_interval s
            then Some (Inl SessionTimeoutError, tick s)
            else post_attempts w fuel left (attempt + 1) x datagram deadline (tick s))))"

text \<open>One registered request: its datagram is built once, and \<open>finally\<close> unregisters it.\<close>

definition registered_exchange ::
  "nat \<Rightarrow> bytes \<Rightarrow> coap_option list \<Rightarrow> bytes \<Rightarrow> (nat \<Rightarrow> bytes \<Rightarrow> session \<Rightarrow> coap_message waiting)
     \<Rightarrow> session \<Rightarrow> (nat \<times> bytes) waiting" where
  "registered_exchange method tok opts body run s =
     and_then (Some (register_pending tok None s)) (\<lambda>(mid, x) s.
     and_then (Some (build_coap TYPE_CON method mid tok opts body, s)) (\<lambda>datagram s.
     and_then (finally_do (run x datagram s) (unregister_pending tok mid x)) (\<lambda>m s.
       Some (Inr (m_code m, m_payload m), s))))"

definition post_frame ::
  "world \<Rightarrow> nat \<Rightarrow> coap_option list \<Rightarrow> bytes \<Rightarrow> real \<Rightarrow> session \<Rightarrow> (nat \<times> bytes) waiting" where
  "post_frame w fuel opts body timeout s =
     and_then (Some (next_tok s)) (\<lambda>tok.
       registered_exchange METHOD_POST tok opts body (\<lambda>x datagram s.
         post_attempts w fuel (s_attempts s) 0 x datagram (w_wall w (s_calls s) + timeout) (tick s)))"

fun delete_wait :: "world \<Rightarrow> nat \<Rightarrow> nat \<Rightarrow> real \<Rightarrow> session \<Rightarrow> coap_message waiting" where
  "delete_wait w 0 x deadline s = None"
| "delete_wait w (Suc fuel) x deadline s =
     (let e = get_exchange x s;
          s = (if x_err e = None \<and> x_msg e = None then rearm False x s else s) in
      case (x_err e, x_msg e) of
        (Some err, _) \<Rightarrow> Some (Inl err, s)
      | (None, Some m) \<Rightarrow> Some (Inr m, s)
      | (None, None) \<Rightarrow>
          let remaining = deadline - w_wall w (s_calls s); s = tick s in
          if remaining \<le> 0 then Some (Inl SessionTimeoutError, s)
          else
            and_then (wait_live w fuel x remaining s) (\<lambda>moved s.
              if moved then delete_wait w fuel x deadline s else Some (Inl SessionTimeoutError, s)))"

definition delete_frame ::
  "world \<Rightarrow> nat \<Rightarrow> nat \<Rightarrow> bytes \<Rightarrow> real \<Rightarrow> session \<Rightarrow> coap_message waiting" where
  "delete_frame w fuel x datagram deadline s =
     and_then (Some (check_live s, s)) (\<lambda>_ s.
     and_then (Some (send_dgram w False datagram s)) (\<lambda>_ s.
       delete_wait w fuel x deadline s))"

definition session_delete ::
  "world \<Rightarrow> nat \<Rightarrow> pyval \<Rightarrow> real \<Rightarrow> pyval \<Rightarrow> pyval \<Rightarrow> session \<Rightarrow> (nat \<times> bytes) waiting" where
  "session_delete w fuel path_segs timeout query extra_options s =
     and_then (Some (check_live s, s)) (\<lambda>_ s.
     and_then (Some (validated_text_options path_segs False, s)) (\<lambda>path s.
     and_then (Some (validated_text_options query False, s)) (\<lambda>q s.
     and_then (Some (validated_extra_options extra_options, s)) (\<lambda>extra s.
     and_then (Some (next_tok s)) (\<lambda>tok s.
     and_then (Some (path_query_options path q, s)) (\<lambda>pq s.
       registered_exchange METHOD_DELETE tok (pq @ (ACCEPT, CF_CBOR) # extra) [] (\<lambda>x datagram s.
         delete_frame w fuel x datagram (w_wall w (s_calls s) + timeout) (pace w (tick s))) s))))))"

section \<open>Block1 upload\<close>

fun block1_wait :: "world \<Rightarrow> nat \<Rightarrow> nat \<Rightarrow> bool \<Rightarrow> real \<Rightarrow> session \<Rightarrow> coap_message option waiting" where
  "block1_wait w 0 x is_last deadline s = None"
| "block1_wait w (Suc fuel) x is_last deadline s =
     (let e = get_exchange x s;
          s = (if x_err e = None \<and> x_msg e = None then rearm False x s else s) in
      case (x_err e, x_msg e) of
        (Some err, _) \<Rightarrow> Some (Inl err, s)
      | (None, Some m) \<Rightarrow> Some (Inr (Some m), s)
      | (None, None) \<Rightarrow>
          let remaining = deadline - w_clock w (s_calls s); s = tick s in
          if remaining \<le> 0 then Some (Inl SessionTimeoutError, s)
          else
            and_then (wait_live w fuel x (if x_acked e then remaining else min 4 remaining) s) (\<lambda>moved s.
              if moved then block1_wait w fuel x is_last deadline s
              else if x_acked e \<or> is_last then Some (Inl SessionTimeoutError, s)
              else Some (Inr None, s)))"

fun block1_attempts ::
  "world \<Rightarrow> nat \<Rightarrow> nat \<Rightarrow> nat \<Rightarrow> nat \<Rightarrow> bytes \<Rightarrow> real \<Rightarrow> session \<Rightarrow> coap_message waiting" where
  "block1_attempts w fuel 0 attempt x datagram deadline s = Some (Inl SessionTimeoutError, s)"
| "block1_attempts w fuel (Suc left) attempt x datagram deadline s0 =
     (let s = pace w s0; e = get_exchange x s in
      case (x_err e, x_msg e) of
        (Some err, _) \<Rightarrow> Some (Inl err, s)
      | (None, Some m) \<Rightarrow> Some (Inr m, s)
      | (None, None) \<Rightarrow>
          (case check_live s of
             Inl err \<Rightarrow> Some (Inl err, s)
           | Inr _ \<Rightarrow>
               if w_clock w (s_calls s) \<ge> deadline then Some (Inl SessionTimeoutError, tick s)
               else
                 and_then (transmit w attempt (x_acked e) datagram (tick s)) (\<lambda>_ s.
                 and_then (block1_wait w fuel x (left = 0) deadline s) (\<lambda>answer s.
                   case answer of
                     Some m \<Rightarrow> Some (Inr m, s)
                   | None \<Rightarrow>
                       if deadline - w_clock w (s_calls s) \<le> s_interval s
                       then Some (Inl SessionTimeoutError, tick s)
                       else block1_attempts w fuel left (attempt + 1) x datagram deadline (tick s)))))"

definition exchange_block1 ::
  "world \<Rightarrow> nat \<Rightarrow> bytes \<Rightarrow> coap_option list \<Rightarrow> bytes \<Rightarrow> nat \<Rightarrow> nat \<Rightarrow> bool \<Rightarrow> real \<Rightarrow> session
     \<Rightarrow> coap_message waiting" where
  "exchange_block1 w fuel tok options payload start end_off further deadline s =
     and_then (Some (register_pending tok (Some (start, end_off, further)) s)) (\<lambda>(mid, x) s.
     finally_do
       (and_then (Some (build_coap TYPE_CON METHOD_POST mid tok options payload, s)) (\<lambda>datagram s.
          block1_attempts w fuel 3 0 x datagram deadline s))
       (unregister_pending tok mid x))"

text \<open>What a response to a chunk decides: the answer, an error, or the SZX of the next chunk.\<close>

datatype chunk_outcome = Chunk_answer nat bytes | Chunk_error | Chunk_next nat

definition chunk_response :: "coap_message \<Rightarrow> bool \<Rightarrow> nat \<Rightarrow> nat \<Rightarrow> chunk_outcome" where
  "chunk_response m further szx offset =
     (let blocks = option_values (m_options m) BLOCK1; success = (drop_bit 5 (m_code m) = 2) in
      if further then
        (if m_code m \<noteq> 0x5F then
           (if success then Chunk_error else Chunk_answer (m_code m) (m_payload m))
         else
           (case blocks of
              [b] \<Rightarrow>
                if length b > 3 then Chunk_error
                else
                  let (_, response_more, response_szx) = block_fields b in
                  if response_more = 0 \<or> response_szx > szx then Chunk_error
                  else if offset mod push_bit (response_szx + 4) 1 \<noteq> 0 then Chunk_error
                  else Chunk_next response_szx
            | _ \<Rightarrow> Chunk_error))
      else if \<not> success then Chunk_answer (m_code m) (m_payload m)
      else if m_code m = 0x5F then Chunk_error
      else
        (case blocks of
           [] \<Rightarrow> Chunk_answer (m_code m) (m_payload m)
         | [b] \<Rightarrow>
             if length b > 3 then Chunk_error
             else
               let (_, response_more, response_szx) = block_fields b in
               if response_more \<noteq> 0 \<or> response_szx > szx then Chunk_error
               else Chunk_answer (m_code m) (m_payload m)
         | _ \<Rightarrow> Chunk_error))"

text \<open>The options of a chunk: \<open>SIZE1\<close> goes with the first.\<close>

definition chunk_options ::
  "coap_option list \<Rightarrow> coap_option list \<Rightarrow> bytes \<Rightarrow> nat \<Rightarrow> nat \<Rightarrow> bool \<Rightarrow> nat \<Rightarrow> coap_option list result" where
  "chunk_options base extra body offset num further szx =
     andThen (block_value num (if further then 1 else 0) szx) (\<lambda>b.
     andThen (if offset = 0
              then andThen (to_bytes (max 1 ((bit_length (length body) + 7) div 8)) (length body)) (\<lambda>v.
                     Inr [(SIZE1, v)])
              else Inr []) (\<lambda>size.
       Inr (base @ [(BLOCK1, b)] @ size @ extra)))"

text \<open>The upload loop; the fuel also bounds the chunks, of which the code allows 1024.\<close>

fun upload ::
  "world \<Rightarrow> nat \<Rightarrow> bytes \<Rightarrow> bytes \<Rightarrow> coap_option list \<Rightarrow> coap_option list \<Rightarrow> real \<Rightarrow> nat \<Rightarrow> nat \<Rightarrow> nat
     \<Rightarrow> session \<Rightarrow> (nat \<times> bytes) waiting" where
  "upload w 0 tok body base extra deadline offset szx count s = None"
| "upload w (Suc fuel) tok body base extra deadline offset szx count s =
     (if offset \<ge> length body then Some (Inl BlockwiseError, s)
      else
        and_then (Some (check_live s, s)) (\<lambda>_ s.
        let block_size = push_bit (szx + 4) 1 in
        if offset mod block_size \<noteq> 0 then Some (Inl BlockwiseError, s)
        else
          let num = offset div block_size;
              chunk = slice body offset (offset + block_size);
              end_off = offset + length chunk;
              further = (end_off < length body) in
          if count + 1 > 1024 then Some (Inl BlockwiseError, s)
          else
            and_then (Some (chunk_options base extra body offset num further szx, s)) (\<lambda>opts s.
            and_then (exchange_block1 w fuel tok opts chunk offset end_off further deadline s) (\<lambda>m s.
              case chunk_response m further szx offset of
                Chunk_answer code payload \<Rightarrow> Some (Inr (code, payload), s)
              | Chunk_error \<Rightarrow> Some (Inl BlockwiseError, s)
              | Chunk_next szx' \<Rightarrow>
                  upload w fuel tok body base extra deadline end_off szx' (count + 1) s))))"

definition post_blockwise ::
  "world \<Rightarrow> nat \<Rightarrow> bytes \<Rightarrow> coap_option list \<Rightarrow> coap_option list \<Rightarrow> real \<Rightarrow> session \<Rightarrow> (nat \<times> bytes) waiting" where
  "post_blockwise w fuel body base extra timeout s =
     and_then (Some (next_tok s)) (\<lambda>tok s.
       upload w fuel tok body base extra (w_clock w (s_calls s) + timeout) 0 BLOCK_SZX 0 (tick s))"

definition session_post ::
  "world \<Rightarrow> nat \<Rightarrow> pyval \<Rightarrow> pyval \<Rightarrow> real \<Rightarrow> pyval \<Rightarrow> pyval \<Rightarrow> session \<Rightarrow> (nat \<times> bytes) waiting" where
  "session_post w fuel path_segs body_cbor timeout query extra_options s =
     and_then (Some (check_live s, s)) (\<lambda>_ s.
     and_then (Some (validated_text_options path_segs False, s)) (\<lambda>path s.
     and_then (Some (validated_text_options query False, s)) (\<lambda>q s.
     and_then (Some (validated_extra_options extra_options, s)) (\<lambda>extra s.
     case body_cbor of
       PyBytes body \<Rightarrow>
         if length body > 524288 then Some (Inl Py_ValueError, s)
         else
           and_then (Some (path_query_options path q, s)) (\<lambda>pq s.
           let base = pq @ [(CONTENT_FORMAT, CF_CBOR), (ACCEPT, CF_CBOR)] in
           if length body > push_bit (BLOCK_SZX + 4) 1
           then post_blockwise w fuel body base extra timeout s
           else post_frame w fuel (base @ extra) body timeout s)
     | _ \<Rightarrow> Some (Inl Py_TypeError, s)))))"

section \<open>What a waiting request keeps\<close>

lemma and_then_Some_iff:
  "and_then m f = Some (r, s') \<longleftrightarrow>
     (\<exists>e. m = Some (Inl e, s') \<and> r = Inl e) \<or> (\<exists>x s. m = Some (Inr x, s) \<and> f x s = Some (r, s'))"
  by (auto simp: and_then_def split: option.splits sum.splits prod.splits)

lemma and_thenE:
  assumes "and_then m f = Some (r, s')"
  obtains e where "m = Some (Inl e, s')" "r = Inl e"
  | x s where "m = Some (Inr x, s)" "f x s = Some (r, s')"
  using assms by (auto simp: and_then_Some_iff)

lemma and_then_simps [simp]:
  "and_then None f = None" "and_then (Some (Inl e, s)) f = Some (Inl e, s)"
  "and_then (Some (Inr x, s)) f = f x s"
  by (simp_all add: and_then_def)

lemma finally_Some_iff: "finally_do m g = Some (r, s') \<longleftrightarrow> (\<exists>s. m = Some (r, s) \<and> s' = g s)"
  by (auto simp: finally_do_def)

text \<open>
  The interface of a wait: a reflexive and transitive relation that a reading of the clock, the
  others' turn and re-arming keep is kept by every wait.
\<close>

locale waiting =
  fixes w :: world and R :: "session \<Rightarrow> session \<Rightarrow> bool"
  assumes R_refl: "R s s" and R_trans: "R s s' \<Longrightarrow> R s' s'' \<Longrightarrow> R s s''"
    and R_tick: "R s (tick s)" and R_interlude: "R s (interlude w s)" and R_rearm: "R s (rearm b x s)"
begin

lemma pace_rel: "R s (pace w s)"
  using R_trans [OF R_tick R_interlude] R_tick by (simp add: pace_def Let_def)

lemma wait_loop_rel: "wait_loop w fuel x d s = Some (r, s') \<Longrightarrow> R s s'"
proof (induction fuel arbitrary: s)
  case (Suc fuel)
  have t: "R s (interlude w (tick s))" by (rule R_trans [OF R_tick R_interlude])
  have ih: "R s s'" if "wait_loop w fuel x d (interlude w (tick s)) = Some (r, s')"
    using R_trans [OF t Suc.IH [OF that]] .
  show ?case using Suc.prems ih t R_tick
    by (auto simp: Let_def split: if_splits sum.splits)
qed simp

lemma wait_live_rel: "wait_live w fuel x d s = Some (r, s') \<Longrightarrow> R s s'"
  unfolding wait_live_def using R_trans [OF R_tick wait_loop_rel] by blast

lemma tick_wait_rel: "wait_live w fuel x d (tick s) = Some (r, s') \<Longrightarrow> R s s'"
  using R_trans [OF R_tick wait_live_rel] by blast

lemma rearm_rel: "R s (if b then rearm c x s else s)"
  using R_refl R_rearm by simp

lemma block_wait_rel: "block_wait w fuel x num szx d s = Some (r, s') \<Longrightarrow> R s s'"
proof (induction fuel arbitrary: s)
  case (Suc fuel)
  let ?e = "get_exchange x s"
  show ?case
  proof (cases "x_err ?e")
    case (Some err)
    with Suc.prems show ?thesis by (auto simp: Let_def R_rearm)
  next
    case None
    show ?thesis
    proof (cases "x_msg ?e \<noteq> None \<and> block_num_matches (the (x_msg ?e)) num szx")
      case True
      with Suc.prems None R_refl show ?thesis by (simp add: Let_def)
    next
      case False
      define s1 where "s1 = rearm (x_msg ?e \<noteq> None) x s"
      have s1: "R s s1" by (simp add: s1_def R_rearm)
      have run: "block_wait w (Suc fuel) x num szx d s =
          (if d - w_clock w (s_calls s1) \<le> 0 then
             (if x_acked ?e then Some (Inl SessionTimeoutError, tick s1) else Some (Inr None, tick s1))
           else and_then (wait_live w fuel x (if x_acked ?e then d - w_clock w (s_calls s1)
                    else min 4 (max (1 / 10) (d - w_clock w (s_calls s1)))) (tick s1))
                  (\<lambda>moved s. if moved then block_wait w fuel x num szx d s
                    else if x_acked ?e then Some (Inl SessionTimeoutError, s) else Some (Inr None, s)))"
        unfolding block_wait.simps Let_def None prod.case option.case if_not_P [OF False] s1_def ..
      show ?thesis
      proof (cases "d - w_clock w (s_calls s1) \<le> 0")
        case True
        then have "s' = tick s1" using Suc.prems unfolding run by (auto split: if_splits)
        with R_trans [OF s1 R_tick] show ?thesis by simp
      next
        case False
        note ws = R_trans [OF s1 tick_wait_rel]
        from Suc.prems [unfolded run if_not_P [OF False] and_then_Some_iff]
        show ?thesis by (auto split: if_splits intro: ws R_trans [OF ws Suc.IH])
      qed
    qed
  qed
qed simp

text \<open>The waits of a write share one shape.\<close>

lemma post_wait_rel: "post_wait w fuel x attempt l d s = Some (r, s') \<Longrightarrow> R s s'"
proof (induction fuel arbitrary: s)
  case (Suc fuel)
  define s1 where "s1 = (if x_err (get_exchange x s) = None \<and> x_msg (get_exchange x s) = None then rearm False x s else s)"
  have s1: "s1 = s'' \<Longrightarrow> R s s''" for s'' unfolding s1_def by (metis rearm_rel)
  note ts = R_trans [OF s1 [OF refl] R_tick] and ws = R_trans [OF s1 [OF refl] tick_wait_rel]
  show ?case
    using Suc.prems unfolding post_wait.simps Let_def s1_def [symmetric]
    by (auto simp: and_then_Some_iff split: option.splits if_splits intro: s1 ts ws R_trans [OF ws Suc.IH])
qed simp

lemma delete_wait_rel: "delete_wait w fuel x d s = Some (r, s') \<Longrightarrow> R s s'"
proof (induction fuel arbitrary: s)
  case (Suc fuel)
  define s1 where "s1 = (if x_err (get_exchange x s) = None \<and> x_msg (get_exchange x s) = None then rearm False x s else s)"
  have s1: "s1 = s'' \<Longrightarrow> R s s''" for s'' unfolding s1_def by (metis rearm_rel)
  note ts = R_trans [OF s1 [OF refl] R_tick] and ws = R_trans [OF s1 [OF refl] tick_wait_rel]
  show ?case
    using Suc.prems unfolding delete_wait.simps Let_def s1_def [symmetric]
    by (auto simp: and_then_Some_iff split: option.splits if_splits intro: s1 ts ws R_trans [OF ws Suc.IH])
qed simp

lemma block1_wait_rel: "block1_wait w fuel x l d s = Some (r, s') \<Longrightarrow> R s s'"
proof (induction fuel arbitrary: s)
  case (Suc fuel)
  define s1 where "s1 = (if x_err (get_exchange x s) = None \<and> x_msg (get_exchange x s) = None then rearm False x s else s)"
  have s1: "s1 = s'' \<Longrightarrow> R s s''" for s'' unfolding s1_def by (metis rearm_rel)
  note ts = R_trans [OF s1 [OF refl] R_tick] and ws = R_trans [OF s1 [OF refl] tick_wait_rel]
  show ?case
    using Suc.prems unfolding block1_wait.simps Let_def s1_def [symmetric]
    by (auto simp: and_then_Some_iff split: option.splits if_splits intro: s1 ts ws R_trans [OF ws Suc.IH])
qed simp

end

sublocale interleaved \<subseteq> steps: waiting w lock_steps
proof unfold_locales
  show "lock_steps s (interlude w s)" for s by (rule interlude_steps)
  show "lock_steps s (rearm b x s)" for s b x by (rule r_into_rtranclp) (rule lock_step.rearms)
qed (auto intro: steps_trans outside_steps)

end
