(* ===== verification/Reader_Relation.thy ===== *)
theory Reader_Relation
  imports Session_Dispatch
begin

text \<open>
  What a round of the reader keeps (\<open>_reader_loop\<close> and \<open>_dispatch_coap\<close> of \<open>dtls_session.py\<close>),
  proved once for any relation on sessions that its locked sections, its acknowledgements and its
  callbacks keep.
\<close>

definition empty_acks :: "bytes set" where
  "empty_acks = {a. \<exists>mid. build_empty_ack mid = Inr a}"

lemma classified_ack: "classify_coap_response d None None = Inr c \<Longrightarrow> c_ack c = Some a \<Longrightarrow> a \<in> empty_acks"
  by (auto simp: classify_coap_response_def empty_acks_def result_simps split: if_splits)

locale reader_kept =
  fixes w :: world and R :: "session \<Rightarrow> session \<Rightarrow> bool"
  assumes R_refl: "R s s" and R_trans: "R s s' \<Longrightarrow> R s' s'' \<Longrightarrow> R s s''" and R_tick: "R s (tick s)"
    and R_send: "a \<in> empty_acks \<Longrightarrow> R s (snd (send_dgram (quiet w) False a s))"
    and R_emit: "(\<And>d. e \<noteq> Sent d) \<Longrightarrow> R s (emit e s)"
    and R_requests: "R s (acknowledge mid s)" "R s (reset_request mid s)" "R s (snd (resolve_request m s))"
      "R s (close_pending_requests s)"
    and R_relations: "R s (retire_token tok s)" "R s (clear_relations s)" "R s (snd (accept_sequence tok q t s))"
      "R s (snd (accept_plain tok mid s))"
    and R_refetches: "R s (queue_refetch key reg s)" "R s (clear_refetches s)"
    and R_stop: "R s (s\<lparr>s_reader_running := False\<rparr>)"
begin

lemma R_call_back: "(\<And>d. e \<noteq> Sent d) \<Longrightarrow> R s (call_back (quiet w) b e s)"
  using R_trans [OF R_emit R_tick] R_refl by (simp add: call_back_def)

lemma R_deliver: "R s (deliver_or_refetch (quiet w) m r href query reg sq legacy s)"
  using R_call_back R_refetches(1) by (simp add: deliver_or_refetch_def deliver_representation_def)

lemma R_observe: "R s (observe_response (quiet w) m href query s)"
proof (cases "m_code m = 0x45")
  case False
  then show ?thesis
    using R_trans [OF R_relations(1) R_call_back] by (simp add: observe_response_def Let_def)
next
  case True
  have p: "R s s'" if "accept_plain tok mid s = (a, s')" for tok mid a s'
    using R_relations(4) [of s tok mid] that by simp
  have q: "R s s'" if "accept_sequence tok q t (tick s) = (a, s')" for tok q t a s'
    using R_trans [OF R_tick R_relations(3)] that by (metis snd_conv)
  have dl: "R s1 (deliver_or_refetch (quiet w) m r href query reg sq legacy (tick s1))"
    "R s1 (deliver_or_refetch (quiet w) m r href query reg sq legacy (tick (call_back (quiet w) b (Observe_pending h) s1)))"
    "R s1 (tick (call_back (quiet w) b (Observe_pending h) s1))" for s1 r reg sq legacy b h
    using R_trans [OF R_tick R_deliver] R_trans [OF R_call_back R_trans [OF R_tick R_deliver]]
      R_trans [OF R_call_back R_tick] by simp_all
  have qq: "R s s'" if "accept_sequence tok q t (tick (tick s)) = (a, s')" for tok q t a s'
    using R_trans [OF R_trans [OF R_tick R_tick] R_relations(3)] that by (metis snd_conv)
  show ?thesis using True
    by (auto simp: observe_response_def Let_def split: option.split list.split prod.split acceptance.split
        intro: R_refl R_tick p q qq R_trans [OF p dl(1)] R_trans [OF p dl(2)] R_trans [OF p dl(3)] R_trans [OF p R_deliver]
          R_trans [OF q dl(1)] R_trans [OF qq dl(1)])
qed

lemma R_route: "R s (route (quiet w) kind m s)"
proof -
  obtain b s1 where r: "resolve_request m s = (b, s1)" by fastforce
  then have s1: "R s s1" using R_requests(3) [of s m] by simp
  note obs = R_trans [OF s1 R_trans [OF R_tick R_trans [OF R_tick R_observe]]]
  from r s1 obs R_trans [OF s1 R_tick] show ?thesis
    by (cases b) (auto simp: route_def route_message_def Let_def R_requests R_refl split: response_kind.split option.split)
qed

lemma R_dispatch: "R s (dispatch_coap (quiet w) d s)"
proof (cases "classify_coap_response d None None")
  case (Inr c)
  have "R s (case c_ack c of None \<Rightarrow> s | Some a \<Rightarrow> snd (send_dgram (quiet w) False a s))"
    using R_refl R_send classified_ack [OF Inr] by (simp split: option.split)
  from R_trans [OF this R_trans [OF R_tick R_route]] Inr show ?thesis by (simp add: dispatch_coap_def Let_def)
qed (simp add: dispatch_coap_def R_refl)

lemma R_exit: "R s (reader_exit (quiet w) s)"
proof -
  have "R s (tick (clear_refetches (tick (close_pending_requests (s\<lparr>s_reader_running := False\<rparr>)))))"
    by (rule R_trans [OF R_stop R_trans [OF R_requests(4) R_trans [OF R_tick R_trans [OF R_refetches(2) R_tick]]]])
  with R_trans [OF this R_relations(2)] show ?thesis by (simp add: reader_exit_def Let_def)
qed

lemma R_round: "R s (snd (reader_round (quiet w) i s))"
proof -
  have f: "R s (fold (dispatch_coap (quiet w)) ps s)" for ps
    by (induction ps arbitrary: s) (auto intro: R_refl R_trans [OF R_dispatch])
  from f R_exit R_trans [OF f R_exit] R_refl show ?thesis
    by (simp add: reader_round_def Let_def split: reader_input.split)
qed

end

section \<open>Three relations the reader keeps\<close>

text \<open>The datagrams sent, but for the empty acknowledgements.\<close>

definition sends :: "bytes \<Rightarrow> session \<Rightarrow> nat" where
  "sends d s = count_list (s_log s) (Sent d)"

text \<open>The relations: none is entered.\<close>

definition fewer :: "session \<Rightarrow> session \<Rightarrow> bool" where
  "fewer s s' \<longleftrightarrow> set (s_tokens s') \<subseteq> set (s_tokens s)"

lemma accepting:
  "accept_plain tok mid s = (a, s') \<Longrightarrow> s_log s' = s_log s \<and> s_tokens s' = s_tokens s \<and> s_calls s' = s_calls s"
  "accept_sequence tok q t s = (a, s') \<Longrightarrow> s_log s' = s_log s \<and> s_tokens s' = s_tokens s \<and> s_calls s' = s_calls s"
  by (auto simp: accept_plain_def accept_sequence_def Let_def split: option.splits if_splits)

lemma section_fields [simp]:
  "s_log (acknowledge mid s) = s_log s" "s_tokens (acknowledge mid s) = s_tokens s" "s_calls (acknowledge mid s) = s_calls s"
  "s_log (reset_request mid s) = s_log s" "s_tokens (reset_request mid s) = s_tokens s" "s_calls (reset_request mid s) = s_calls s"
  "s_log (snd (resolve_request m s)) = s_log s" "s_tokens (snd (resolve_request m s)) = s_tokens s"
  "s_calls (snd (resolve_request m s)) = s_calls s"
  "s_log (close_pending_requests s) = s_log s" "s_tokens (close_pending_requests s) = s_tokens s"
  "s_calls (close_pending_requests s) = s_calls s"
  "s_log (queue_refetch key reg s) = s_log s" "s_tokens (queue_refetch key reg s) = s_tokens s"
  "s_calls (queue_refetch key reg s) = s_calls s"
  "s_log (clear_refetches s) = s_log s" "s_tokens (clear_refetches s) = s_tokens s" "s_calls (clear_refetches s) = s_calls s"
  "s_log (rearm b x s) = s_log s" "s_tokens (rearm b x s) = s_tokens s" "s_calls (rearm b x s) = s_calls s"
  "s_log (retire_token tok s) = s_log s" "s_log (clear_relations s) = s_log s"
  "s_calls (retire_token tok s) = s_calls s" "s_calls (clear_relations s) = s_calls s"
  "s_log (snd (accept_plain tok mid s)) = s_log s" "s_tokens (snd (accept_plain tok mid s)) = s_tokens s"
  "s_calls (snd (accept_plain tok mid s)) = s_calls s"
  "s_log (snd (accept_sequence tok q t s)) = s_log s" "s_tokens (snd (accept_sequence tok q t s)) = s_tokens s"
  "s_calls (snd (accept_sequence tok q t s)) = s_calls s"
  "s_tokens (emit e s) = s_tokens s" "s_calls (emit e s) = s_calls s" "s_calls (tick s) = Suc (s_calls s)"
  "s_log (unregister_pending tok mid x s) = s_log s" "s_calls (unregister_pending tok mid x s) = s_calls s"
  using accepting(1) [of tok mid s "fst (accept_plain tok mid s)" "snd (accept_plain tok mid s)"]
    accepting(2) [where tok = tok and q = q and t = t and s = s and a = "fst (accept_sequence tok q t s)" and s' = "snd (accept_sequence tok q t s)"]
  by (simp_all add: acknowledge_def reset_request_def resolve_request_def update_exchange_def close_pending_eq
      queue_refetch_def start_refetch_worker_def Let_def clear_refetches_def rearm_def retire_token_def clear_relations_def
      emit_def tick_def unregister_pending_def split: option.split)

lemma sends_emit: "sends d (emit e s) = sends d s + (if e = Sent d then 1 else 0)"
  by (simp add: sends_def emit_def)

lemma fewer_retire: "fewer s (retire_token tok s)" "fewer s (clear_relations s)"
  by (auto simp: fewer_def retire_token_def clear_relations_def AList.delete_eq)

lemma send_calls: "s_calls (interlude w s) \<le> s_calls (snd (send_dgram w ord d s))"
  by (simp add: send_dgram_def Let_def monotonic_def split: send_outcome.split)

interpretation reader_sends: reader_kept w "\<lambda>s s'. d \<in> empty_acks \<or> sends d s' = sends d s"
proof unfold_locales
  show "d \<in> empty_acks \<or> sends d (snd (send_dgram (quiet w) False a s)) = sends d s" if "a \<in> empty_acks" for a s
    using that sends_quiet(4) [of w False a s] by (auto simp: sends_def split: if_splits)
qed (auto simp: sends_def emit_def)

interpretation reader_fewer: reader_kept w fewer
proof unfold_locales
  show "fewer s (snd (send_dgram (quiet w) False a s))" for a s
    using sends_quiet(2) [of w False a s] by (simp add: relations_def fewer_def)
qed (auto simp: fewer_def retire_token_def clear_relations_def AList.delete_eq)

interpretation reader_calls: reader_kept w "\<lambda>s s'. s_calls s \<le> s_calls s'"
proof unfold_locales
  show "s_calls s \<le> s_calls (snd (send_dgram (quiet w) False a s))" for a s
    using send_calls [of "quiet w" s False a] by simp
qed (auto simp: close_pending_eq)

end
