(* ===== verification/Request_Format.thy ===== *)
theory Request_Format
  imports Session_Requests
begin

text \<open>
  What a validated request looks like on the wire (\<open>dtls_session.py\<close>, \<open>coap.py\<close>): arguments
  that pass the validators of \<open>DtlsCoapSession\<close> never make a builder raise, and the datagram
  decodes to the method, path, query and options the caller gave.
\<close>

section \<open>Options of validated arguments\<close>

lemma options_of_validated:
  assumes "\<forall>t \<in> set ts. \<exists>b. utf8_encode t = Inr b \<and> length b \<le> MAX_REQUEST_OPTION_BYTES \<and> P b"
  shows "\<exists>bs. options_of n (map PyStr ts) = Inr (map (Pair n) bs) \<and> map utf8_encode ts = map Inr bs
     \<and> (\<forall>b \<in> set bs. length b \<le> MAX_REQUEST_OPTION_BYTES)"
  using assms
proof (induction ts)
  case (Cons t ts)
  then obtain b bs where "utf8_encode t = Inr b" "length b \<le> 1024"
    "options_of n (map PyStr ts) = Inr (map (Pair n) bs)" "map utf8_encode ts = map Inr bs"
    "\<forall>b \<in> set bs. length b \<le> 1024" by auto
  then show ?case by (intro exI [of _ "b # bs"]) (simp add: option_bytes_def)
qed simp

lemma option_values_sorted [simp]: "option_values (sort_key fst opts) n = option_values opts n"
proof -
  have "option_values xs n = map snd (filter (\<lambda>y. fst y = n) xs)" for xs
    by (induction xs) (auto simp: option_values_def)
  then show ?thesis by (simp add: sort_key_stable)
qed

lemma option_values_append [simp]: "option_values (xs @ ys) n = option_values xs n @ option_values ys n"
  by (simp add: option_values_def)

lemma option_values_simps [simp]:
  "option_values [] n = []" "option_values ((k, v) # xs) n = (if k = n then v # option_values xs n else option_values xs n)"
  "option_values (map (Pair k) bs) n = (if k = n then bs else [])"
  by (simp_all add: option_values_def) (induction bs; simp)

lemma option_values_absent: "n \<notin> fst ` set xs \<Longrightarrow> option_values xs n = []"
  by (induction xs) (auto simp: option_values_def)

text \<open>The arguments of a request that passed the validators.\<close>

definition validated_request :: "pystr list \<Rightarrow> pystr list \<Rightarrow> coap_option list \<Rightarrow> bool" where
  "validated_request path query extra \<longleftrightarrow>
     (\<exists>p. validated_text_options p False = Inr path) \<and> (\<exists>q. validated_text_options q False = Inr query)
     \<and> (\<exists>e. validated_extra_options e = Inr extra)"

lemma validated_requestE:
  assumes "validated_request path query extra"
  obtains ps qs where
    "options_of URI_PATH (map PyStr path) = Inr (map (Pair URI_PATH) ps)" "map utf8_encode path = map Inr ps"
    "\<forall>b \<in> set ps. length b \<le> 1024"
    "options_of URI_QUERY (map PyStr query) = Inr (map (Pair URI_QUERY) qs)" "map utf8_encode query = map Inr qs"
    "\<forall>b \<in> set qs. length b \<le> 1024"
    "\<forall>(k, b) \<in> set extra. k \<le> 65535 \<and> length b \<le> 1024"
    "\<And>n. n \<in> set managed_request_options \<Longrightarrow> option_values extra n = []"
proof -
  from assms obtain p q e where v: "validated_text_options p False = Inr path"
    "validated_text_options q False = Inr query" "validated_extra_options e = Inr extra"
    by (auto simp: validated_request_def)
  from options_of_validated [OF validated_text_ok(2) [OF v(1)], of URI_PATH]
    options_of_validated [OF validated_text_ok(2) [OF v(2)], of URI_QUERY] validated_extra_ok(3) [OF v(3)]
  show thesis
    by (elim exE conjE, intro that) (assumption | fastforce intro: option_values_absent)+
qed

text \<open>The datagram of options that fit decodes to them.\<close>

lemma request_datagram:
  assumes "mtype < 4" and "code < 256" and "mid < 65536" and "length tok \<le> 8"
    and "\<forall>(n, val) \<in> set opts. n \<le> 65535 \<and> length val \<le> 65804"
  obtains d where "build_coap mtype code mid tok opts body = Inr d"
    "parse_coap d = Inr (mtype, code, mid, tok, sort_key fst opts, body)"
  using build_coap_total [OF assms] parse_coap_build [OF _ assms(1,3,4)] by blast

lemma get_request_datagram:
  assumes "validated_request path query extra" and "mid < 65536" and "length tok \<le> 8"
    and "num < 2 ^ 20" and "szx \<le> BLOCK_SZX"
  obtains ps qs bv d where
    "map utf8_encode path = map Inr ps" "map utf8_encode query = map Inr qs" "block_fields bv = (num, 0, szx)"
    "\<And>n. n \<in> set managed_request_options \<Longrightarrow> option_values extra n = []"
    "build_get_request TYPE_CON mid tok (map PyStr path) (map PyStr query) (PyBytes CF_CBOR)
        (if num > 0 then PyInt (int num) else PyNone) (PyInt (int szx)) extra = Inr d"
    "parse_coap d = Inr (TYPE_CON, METHOD_GET, mid, tok, sort_key fst (map (Pair URI_PATH) ps
        @ map (Pair URI_QUERY) qs @ [(ACCEPT, CF_CBOR)] @ (if num > 0 then [(BLOCK2, bv)] else []) @ extra), [])"
proof -
  obtain ps qs where v: "options_of URI_PATH (map PyStr path) = Inr (map (Pair URI_PATH) ps)" "map utf8_encode path = map Inr ps"
    "\<forall>b \<in> set ps. length b \<le> 1024"
    "options_of URI_QUERY (map PyStr query) = Inr (map (Pair URI_QUERY) qs)" "map utf8_encode query = map Inr qs"
    "\<forall>b \<in> set qs. length b \<le> 1024"
    and ex: "\<forall>(k, b) \<in> set extra. k \<le> 65535 \<and> length b \<le> 1024"
      "\<And>n. n \<in> set managed_request_options \<Longrightarrow> option_values extra n = []"
    by (rule validated_requestE [OF assms(1)]) (rule that; assumption | blast)+
  obtain bv where bv: "block_value num 0 szx = Inr bv" "length bv \<le> 3" "block_fields bv = (num, 0, szx)"
    using block_value_fields [of num 0 szx] assms(4,5) by auto
  define blk where "blk = (if num > 0 then [(BLOCK2, bv)] else [])"
  define opts where "opts = map (Pair URI_PATH) ps @ map (Pair URI_QUERY) qs @ [(ACCEPT, CF_CBOR)] @ blk @ extra"
  have blk: "get_block_option (if num > 0 then PyInt (int num) else PyNone) (PyInt (int szx)) = Inr blk"
    using bv(1) assms(5) by (simp add: get_block_option_def blk_def)
  have "\<forall>(n, val) \<in> set opts. n \<le> 65535 \<and> length val \<le> 65804"
    using v(3,6) ex(1) bv(2) by (fastforce simp: opts_def blk_def split: if_splits)
  from request_datagram [OF _ _ assms(2,3) this, of TYPE_CON METHOD_GET "[]"] obtain d where
    d: "build_coap TYPE_CON METHOD_GET mid tok opts [] = Inr d"
    "parse_coap d = Inr (TYPE_CON, METHOD_GET, mid, tok, sort_key fst opts, [])" by auto
  have "build_get_request TYPE_CON mid tok (map PyStr path) (map PyStr query) (PyBytes CF_CBOR)
        (if num > 0 then PyInt (int num) else PyNone) (PyInt (int szx)) extra = Inr d"
    using d(1) v(1,4) blk by (simp add: build_get_request_def opts_def)
  then show thesis using that v(2,5) bv(3) ex(2) d(2) unfolding opts_def blk_def by blast
qed

text \<open>A write's datagram is built as well.\<close>

lemma write_builds:
  assumes "validated_request path query extra" and "mid < 65536" and "length tok \<le> 8" and "code < 256"
    and "\<forall>(n, v) \<in> set base. n \<le> 65535 \<and> length v \<le> 1024"
  shows "\<exists>pq d. path_query_options path query = Inr pq
     \<and> build_coap TYPE_CON code mid tok (pq @ base @ extra) body = Inr d"
proof -
  obtain ps qs where v: "options_of URI_PATH (map PyStr path) = Inr (map (Pair URI_PATH) ps)"
    "\<forall>b \<in> set ps. length b \<le> 1024"
    "options_of URI_QUERY (map PyStr query) = Inr (map (Pair URI_QUERY) qs)" "\<forall>b \<in> set qs. length b \<le> 1024"
    and ex: "\<forall>(k, b) \<in> set extra. k \<le> 65535 \<and> length b \<le> 1024"
    by (rule validated_requestE [OF assms(1)]) (rule that; assumption)
  have "\<forall>(n, v) \<in> set (map (Pair URI_PATH) ps @ map (Pair URI_QUERY) qs @ base @ extra). n \<le> 65535 \<and> length v \<le> 65804"
    using v(2,4) ex assms(5) by fastforce
  from build_coap_total [OF _ assms(4,2,3) this, of TYPE_CON] v(1,3) show ?thesis
    by (auto simp: path_query_options_def)
qed

section \<open>Properties\<close>

text \<open>C17.
  Validated arguments are well typed for the wire: whatever path, query and extra options passed
  the validators, the GET builder raises nothing and its datagram decodes to a confirmable GET
  with that Message ID and token, the UTF-8 of the path and query in order, the block asked for,
  and the extra options as given; none of these is lost, added or reordered among its kind.
\<close>

theorem get_request_well_typed:
  assumes "validated_request path query extra" and "mid < 65536" and "length tok \<le> 8"
    and "num < 2 ^ 20" and "szx \<le> BLOCK_SZX"
  shows "\<exists>d opts. build_get_request TYPE_CON mid tok (map PyStr path) (map PyStr query) (PyBytes CF_CBOR)
        (if num > 0 then PyInt (int num) else PyNone) (PyInt (int szx)) extra = Inr d
     \<and> parse_coap d = Inr (TYPE_CON, METHOD_GET, mid, tok, opts, [])
     \<and> map Inr (option_values opts URI_PATH) = map utf8_encode path
     \<and> map Inr (option_values opts URI_QUERY) = map utf8_encode query
     \<and> option_values opts ACCEPT = [CF_CBOR]
     \<and> map block_fields (option_values opts BLOCK2) = (if num > 0 then [(num, 0, szx)] else [])
     \<and> (\<forall>n. n \<notin> set managed_request_options \<longrightarrow> option_values opts n = option_values extra n)"
proof -
  obtain ps qs bv d where v: "map utf8_encode path = map Inr ps" "map utf8_encode query = map Inr qs"
    "block_fields bv = (num, 0, szx)" "\<And>n. n \<in> set managed_request_options \<Longrightarrow> option_values extra n = []"
    and d: "build_get_request TYPE_CON mid tok (map PyStr path) (map PyStr query) (PyBytes CF_CBOR)
        (if num > 0 then PyInt (int num) else PyNone) (PyInt (int szx)) extra = Inr d"
      "parse_coap d = Inr (TYPE_CON, METHOD_GET, mid, tok, sort_key fst (map (Pair URI_PATH) ps
        @ map (Pair URI_QUERY) qs @ [(ACCEPT, CF_CBOR)] @ (if num > 0 then [(BLOCK2, bv)] else []) @ extra), [])"
    by (rule get_request_datagram [OF assms]) (rule that; assumption | blast)+
  show ?thesis
    by (rule exI [of _ d], rule exI, rule conjI [OF d(1) conjI [OF d(2)]])
      (use v in \<open>auto simp: managed_request_options_def\<close>)
qed

theorem get_request_well_typed_witness:
  "\<exists>d opts. build_get_request TYPE_CON 7 [0, 0, 0, 1] (map PyStr [str_of ''mode'', str_of ''vs'', str_of ''0'']) (map PyStr [])
        (PyBytes CF_CBOR) (if (3::nat) > 0 then PyInt (int 3) else PyNone) (PyInt (int 5)) [(2049, [1])] = Inr d
     \<and> parse_coap d = Inr (TYPE_CON, METHOD_GET, 7, [0, 0, 0, 1], opts, [])
     \<and> option_values opts URI_PATH = [[109, 111, 100, 101], [118, 115], [48]]
     \<and> map block_fields (option_values opts BLOCK2) = [(3, 0, 5)] \<and> option_values opts 2049 = [[1]]"
proof -
  have "validated_text_options (PyTuple (map PyStr [str_of ''mode'', str_of ''vs'', str_of ''0''])) False
      = Inr [str_of ''mode'', str_of ''vs'', str_of ''0'']" by code_simp
  moreover have "validated_text_options (PyTuple []) False = Inr []" by code_simp
  moreover have "validated_extra_options (PyTuple [PyTuple [PyInt 2049, PyBytes [1]]]) = Inr [(2049, [1])]"
    by code_simp
  ultimately have v: "validated_request [str_of ''mode'', str_of ''vs'', str_of ''0''] [] [(2049, [1])]"
    unfolding validated_request_def by blast
  have u: "map utf8_encode [str_of ''mode'', str_of ''vs'', str_of ''0''] = map Inr [[109, 111, 100, 101], [118, 115], [48]]"
    by code_simp
  have inj: "map Inr xs = map Inr ys \<longleftrightarrow> xs = ys" for xs ys :: "bytes list"
    by (rule inj_map_eq_map) simp
  from get_request_well_typed [OF v, of 7 "[0, 0, 0, 1]" 3 5] obtain d opts where
    "build_get_request TYPE_CON 7 [0, 0, 0, 1] (map PyStr [str_of ''mode'', str_of ''vs'', str_of ''0'']) (map PyStr [])
        (PyBytes CF_CBOR) (if (3::nat) > 0 then PyInt (int 3) else PyNone) (PyInt (int 5)) [(2049, [1])] = Inr d"
    "parse_coap d = Inr (TYPE_CON, METHOD_GET, 7, [0, 0, 0, 1], opts, [])"
    "map Inr (option_values opts URI_PATH) = map utf8_encode [str_of ''mode'', str_of ''vs'', str_of ''0'']"
    "map block_fields (option_values opts BLOCK2) = [(3, 0, 5)]"
    "\<forall>n. n \<notin> set managed_request_options \<longrightarrow> option_values opts n = option_values [(2049, [1])] n"
    by auto
  moreover have "2049 \<notin> set managed_request_options" by code_simp
  ultimately show ?thesis unfolding u inj by auto
qed

end
