(* ===== verification/Request_Outcome.thy ===== *)
theory Request_Outcome
  imports Request_Format Reader_Relation
begin

text \<open>
  What comes of a request of \<open>DtlsCoapSession\<close>: how often its datagram is sent, which response
  ends it, and what it leaves in the registry, with the other threads running at every
  \<open>interlude\<close>.
\<close>

section \<open>Attempts\<close>

text \<open>
  The interface of the retransmission loops: a relation graded by the number of datagrams sent,
  which the waits keep at grade 0. An exchange with \<open>n\<close> attempts has grade \<open>n\<close>.
\<close>

locale sending =
  fixes w :: world and G :: "nat \<Rightarrow> session \<Rightarrow> session \<Rightarrow> bool"
  assumes G_refl: "G n s s"
    and G_trans: "G m s s' \<Longrightarrow> G n s' s'' \<Longrightarrow> G (m + n) s s''"
    and G_tick: "G 0 s (tick s)" and G_interlude: "G 0 s (interlude w s)" and G_rearm: "G 0 s (rearm b x s)"
    and G_send: "send_dgram w False d s = (r, s') \<Longrightarrow> G 1 s s'"
begin

lemma G_0: "G 0 s s' \<Longrightarrow> G n s' s'' \<Longrightarrow> G n s s''"
  using G_trans [of 0 s s' n s''] by simp

lemma G_mono: "G m s s' \<Longrightarrow> m \<le> n \<Longrightarrow> G n s s'"
  using G_trans [OF _ G_refl, of m s s' "n - m"] by simp

lemma G_grow: "G 0 s s' \<Longrightarrow> G n s s'"
  by (rule G_0 [OF _ G_refl])

end

sublocale sending \<subseteq> waits: waiting w "G 0"
  by unfold_locales (rule G_refl G_tick G_interlude G_rearm | erule (1) G_0)+

context sending begin

lemma then_tick: "G 0 s s' \<Longrightarrow> G n s (tick s')" "G 0 s s' \<Longrightarrow> G n (tick s') s'' \<Longrightarrow> G n s s''"
  using G_grow [OF waits.R_trans [OF _ G_tick]] G_0 waits.R_trans [OF _ G_tick] by blast+

lemma after_send: "send_dgram w False d s = (r, s') \<Longrightarrow> G n s' s'' \<Longrightarrow> G (Suc n) s s''"
  using G_trans [OF G_send, of d s r s' n s''] by simp

lemma send_once: "send_dgram w False d s = (r, s') \<Longrightarrow> G (Suc n) s s'"
  by (rule after_send [OF _ G_refl])

lemma block_attempts_rel:
  "block_attempts w fuel left x d num szx deadline s = Some (r, s') \<Longrightarrow> G left s s'"
proof (induction left arbitrary: s)
  case 0
  then show ?case by (simp add: G_refl)
next
  case (Suc left)
  note sent = after_send [THEN G_0 [OF G_tick]] and once = send_once [THEN G_0 [OF G_tick]]
  note wait = waits.block_wait_rel
  from Suc.prems show ?case
    by (auto simp: and_then_Some_iff split: sum.splits option.splits if_splits
        intro: G_refl G_grow [OF G_tick] once sent [OF _ G_grow [OF wait]] sent [OF _ then_tick(1) [OF wait]]
          sent [OF _ then_tick(2) [OF wait Suc.IH]])
qed

lemma transmit_rel: "transmit w attempt acked d s = Some (r, s') \<Longrightarrow> G 1 s s'"
  by (auto simp: transmit_def split: sum.splits if_splits prod.splits
      intro: G_refl send_once [of _ _ _ _ 0, simplified])

text \<open>A transmission, a wait and what follows it.\<close>

lemma transmitted:
  assumes "G 1 s s1" and "and_then m (\<lambda>answer s. case answer of
      Some y \<Rightarrow> Some (Inr y, s) | None \<Rightarrow> if P s then Some (Inl e, tick s) else f (tick s)) = Some (r, s')"
    and "\<And>q s2. m = Some (q, s2) \<Longrightarrow> G 0 s1 s2" and "\<And>s2. f s2 = Some (r, s') \<Longrightarrow> G n s2 s'"
  shows "G (Suc n) s s'"
proof -
  note go = G_trans [OF assms(1), simplified]
  from assms(2) show ?thesis
    by (rule and_thenE)
      (auto split: option.splits if_splits
        intro: go [OF G_grow [OF assms(3)]] go [OF then_tick(1) [OF assms(3)]] go [OF then_tick(2) [OF assms(3) assms(4)]])
qed

lemma post_attempts_rel:
  "post_attempts w fuel left attempt x d deadline s = Some (r, s') \<Longrightarrow> G left s s'"
proof (induction left arbitrary: s attempt)
  case 0
  then show ?case by (simp add: G_refl)
next
  case (Suc left)
  have tr: "G 1 s s1" if "(if b then Some (Inr (), s)
      else case check_live s of Inl err \<Rightarrow> Some (Inl err, s) | Inr _ \<Rightarrow> transmit w attempt acked d s) = Some (q, s1)"
    for b acked s s1 q
    using that by (auto split: sum.splits if_splits intro: G_refl transmit_rel [simplified])
  from Suc.prems have "G (Suc left) (pace w s) s'"
    unfolding post_attempts.simps Let_def
  proof (rule and_thenE)
    fix e assume "(if x_msg (get_exchange x (pace w s)) \<noteq> None \<or> x_err (get_exchange x (pace w s)) \<noteq> None
        then Some (Inr (), pace w s)
        else case check_live (pace w s) of Inl err \<Rightarrow> Some (Inl err, pace w s)
           | Inr _ \<Rightarrow> transmit w attempt (x_acked (get_exchange x (pace w s))) d (pace w s)) = Some (Inl e, s')"
    then show ?thesis by (rule G_mono [OF tr]) simp
  qed (rule transmitted [OF tr _ waits.post_wait_rel Suc.IH])
  then show ?case by (rule G_0 [OF waits.pace_rel])
qed

lemma block1_attempts_rel:
  "block1_attempts w fuel left attempt x d deadline s = Some (r, s') \<Longrightarrow> G left s s'"
proof (induction left arbitrary: s attempt)
  case 0
  then show ?case by (simp add: G_refl)
next
  case (Suc left)
  let ?s = "pace w s" and ?e = "get_exchange x (pace w s)"
  note early = G_grow [OF G_refl] G_grow [OF G_tick]
  have "G (Suc left) ?s s'"
  proof (cases "x_err ?e = None \<and> x_msg ?e = None \<and> check_live ?s = Inr () \<and> \<not> w_clock w (s_calls ?s) \<ge> deadline")
    case False
    with Suc.prems show ?thesis by (auto simp: Let_def split: option.splits sum.splits if_splits intro: early)
  next
    case True
    then have run: "and_then (transmit w attempt (x_acked ?e) d (tick ?s)) (\<lambda>_ s.
        and_then (block1_wait w fuel x (left = 0) deadline s) (\<lambda>answer s. case answer of
          Some m \<Rightarrow> Some (Inr m, s)
        | None \<Rightarrow> if deadline - w_clock w (s_calls s) \<le> s_interval s then Some (Inl SessionTimeoutError, tick s)
            else block1_attempts w fuel left (attempt + 1) x d deadline (tick s))) = Some (r, s')"
      using Suc.prems by (simp add: Let_def)
    note tr = transmit_rel [THEN G_0 [OF G_tick]]
    from run show ?thesis
      by (rule and_thenE) (rule G_mono [OF tr], assumption, simp, rule transmitted [OF tr _ waits.block1_wait_rel Suc.IH])
  qed
  then show ?case by (rule G_0 [OF waits.pace_rel])
qed

lemma delete_frame_rel: "delete_frame w fuel x d deadline s = Some (r, s') \<Longrightarrow> G 1 s s'"
  unfolding delete_frame_def
  by (auto simp: and_then_Some_iff
      intro: G_refl send_once [of _ _ _ _ 0, simplified] after_send [OF _ waits.delete_wait_rel, simplified])

end

text \<open>
  A request registers itself, makes its attempts and unregisters itself; a locale for relations
  that both keep as well.
\<close>

locale requesting = sending +
  assumes G_register: "register_pending tok b s = (r, s') \<Longrightarrow> G 0 s s'"
    and G_unregister: "G 0 s (unregister_pending tok mid x s)"
    and G_next_tok: "next_tok s = (r2, s') \<Longrightarrow> G 0 s s'"
begin

lemma finished: "finally_do m (unregister_pending tok mid x) = Some (r, s') \<Longrightarrow>
    (\<And>s2. m = Some (r, s2) \<Longrightarrow> G n s s2) \<Longrightarrow> G n s s'"
  using G_trans [OF _ G_unregister, of n s _ tok mid x] by (auto simp: finally_Some_iff)

lemma exchange_block_rel:
  assumes "exchange_block w fuel tok path q num szx deadline extra s = Some (r, s')"
  shows "G 3 s s'"
proof -
  from assms obtain a s1 where a: "register_pending tok None s = (a, s1)" by (metis surj_pair)
  note reg = G_0 [OF G_register [OF a]]
  from assms a show ?thesis
    unfolding exchange_block_def
    by (auto simp: and_then_Some_iff intro: G_grow G_register reg reg [OF G_refl] reg [OF finished [OF _ block_attempts_rel]])
qed

lemma exchange_block1_rel:
  assumes "exchange_block1 w fuel tok opts pl st en further deadline s = Some (r, s')"
  shows "G 3 s s'"
proof -
  from assms obtain a s1 where a: "register_pending tok (Some (st, en, further)) s = (a, s1)" by (metis surj_pair)
  note reg = G_0 [OF G_register [OF a]]
  from assms a show ?thesis
    unfolding exchange_block1_def
    by (auto simp: and_then_Some_iff intro: G_grow G_register intro!: reg elim!: finished
        dest: block1_attempts_rel intro: G_refl)
qed

lemma registered_exchange_rel:
  assumes "registered_exchange method tok opts body run s = Some (r, s')"
    and "\<And>x d s1 r s2. s_attempts s1 = s_attempts s \<Longrightarrow> run x d s1 = Some (r, s2) \<Longrightarrow> G n s1 s2"
  shows "G n s s'"
proof -
  obtain a s1 where a: "register_pending tok None s = (a, s1)" by fastforce
  have n: "s_attempts s1 = s_attempts s"
    using a by (auto simp: register_pending_def next_mid_def probe_mid_run Let_def
        split: if_splits sum.splits option.splits)
  note s1 = G_register [OF a]
  show ?thesis
  proof (cases "\<exists>mid x d. a = Inr (mid, x) \<and> build_coap TYPE_CON method mid tok opts body = Inr d")
    case False
    then have "s' = s1" using assms(1) a by (auto simp: registered_exchange_def and_then_Some_iff)
    with G_grow [OF s1] show ?thesis by simp
  next
    case True
    then obtain mid x d where d: "a = Inr (mid, x)" "build_coap TYPE_CON method mid tok opts body = Inr d" by blast
    have "\<exists>r. finally_do (run x d s1) (unregister_pending tok mid x) = Some (r, s')"
      using assms(1) a d by (auto simp: registered_exchange_def and_then_Some_iff)
    then show ?thesis by (blast intro: G_0 [OF s1] finished assms(2) [OF n])
  qed
qed

lemma post_frame_rel: "post_frame w fuel opts body timeout s = Some (r, s') \<Longrightarrow> G (s_attempts s) s s'"
proof -
  assume run: "post_frame w fuel opts body timeout s = Some (r, s')"
  obtain t s1 where t: "next_tok s = (t, s1)" by fastforce
  then have n: "s_attempts s1 = s_attempts s" by (auto simp: next_tok_def Let_def)
  note tok = G_next_tok [OF t]
  show ?thesis
  proof (cases t)
    case (Inl e)
    with run t G_grow [OF tok] show ?thesis by (simp add: post_frame_def)
  next
    case (Inr token)
    with run t n have "G (s_attempts s) s1 s'"
      unfolding post_frame_def
      by (auto elim!: registered_exchange_rel intro: G_0 [OF G_tick] dest!: post_attempts_rel)
    then show ?thesis by (rule G_0 [OF tok])
  qed
qed

lemma session_delete_rel:
  assumes "session_delete w fuel path timeout q extra s = Some (r, s')"
  shows "G 1 s s'"
proof -
  obtain t s1 where t: "next_tok s = (t, s1)" by fastforce
  note tok = G_next_tok [OF t]
  have run: "registered_exchange verb token opts [] (\<lambda>x d s.
      delete_frame w fuel x d (w_wall w (s_calls s) + timeout) (pace w (tick s))) s1 = Some (r, s') \<Longrightarrow> G 1 s1 s'"
    for verb token opts
    by (erule registered_exchange_rel) (rule G_0 [OF G_tick G_0 [OF waits.pace_rel]], erule delete_frame_rel)
  from assms t G_0 [OF tok run] G_grow [OF tok] show ?thesis
    unfolding session_delete_def by (auto simp: and_then_Some_iff intro: G_refl)
qed

end

section \<open>How often a datagram is sent\<close>

lemma sends_same [simp]:
  "sends d (tick s) = sends d s" "sends d (rearm b x s) = sends d s"
  "sends d (unregister_pending tok mid x s) = sends d s" "sends d (s\<lparr>s_tok := k\<rparr>) = sends d s"
  by (simp_all add: sends_def)

lemma sends_register: "register_pending tok b s = (r, s') \<Longrightarrow> sends d s' = sends d s"
  by (auto simp: register_pending_def next_mid_def probe_mid_run sends_def Let_def split: if_splits sum.splits option.splits)

lemma sends_send: "send_dgram w ord d' s = (r, s') \<Longrightarrow> sends d s' \<le> sends d (interlude w s) + (if d' = d then 1 else 0)"
  using send_effect [of w ord d' s] by (auto simp: sends_def emit_def)

text \<open>The datagrams other threads send, while one of them waits.\<close>

locale others_send =
  fixes w :: world and D :: "bytes set"
  assumes others: "d \<notin> D \<Longrightarrow> sends d (w_threads w n s) \<le> sends d s"

sublocale others_send \<subseteq> sent: requesting w "\<lambda>n s s'. d \<in> D \<or> sends d s' \<le> sends d s + n" for d
proof unfold_locales
  have i: "d \<in> D \<or> sends d (interlude w s) \<le> sends d s" for s
    using others [of d "s_calls s" "tick s"] by (auto simp: interlude_def)
  then show "d \<in> D \<or> sends d (interlude w s) \<le> sends d s + 0" for s by simp
  show "d \<in> D \<or> sends d s' \<le> sends d s + 1" if "send_dgram w False d' s = (r, s')" for d' s r s'
    using sends_send [OF that, of d] i [of s] by (auto split: if_splits)
  show "d \<in> D \<or> sends d s' \<le> sends d s + 0" if "next_tok s = (r, s')" for s r s'
    using that by (auto simp: next_tok_def Let_def)
qed (auto simp: sends_register)

text \<open>The reader answers confirmable messages, and sends nothing else.\<close>

interpretation reader_others: others_send "with_reader net w" empty_acks
proof unfold_locales
  show "sends d (w_threads (with_reader net w) n s) \<le> sends d s" if "d \<notin> empty_acks" for d n s
    using reader_sends.R_round [where d = d and w = w and i = "net n" and s = s] that by (simp add: with_reader_def)
qed

text \<open>C6.
  A write is never sent more often than the caller asked for: whatever arrives while it waits, a
  single-frame POST hands each datagram to DTLS at most \<open>write_max_attempts\<close> times (once by
  default), a DELETE once, and a Block1 chunk or a Block2 request three times; the reader adds
  nothing but its empty acknowledgements.
\<close>

theorem transmissions_bounded:
  assumes "d \<notin> empty_acks"
  shows "(post_frame (with_reader net w) fuel opts body timeout s = Some (r1, s') \<longrightarrow>
            sends d s' \<le> sends d s + s_attempts s)
    \<and> (session_delete (with_reader net w) fuel path timeout q extra s = Some (r2, s') \<longrightarrow>
            sends d s' \<le> sends d s + 1)
    \<and> (exchange_block1 (with_reader net w) fuel tok bopts pl st en further deadline s = Some (r3, s') \<longrightarrow>
            sends d s' \<le> sends d s + 3)
    \<and> (exchange_block (with_reader net w) fuel tok segs qs num szx deadline opts s = Some (r3, s') \<longrightarrow>
            sends d s' \<le> sends d s + 3)"
  using assms reader_others.sent.post_frame_rel reader_others.sent.session_delete_rel
    reader_others.sent.exchange_block_rel reader_others.sent.exchange_block1_rel by meson

theorem transmissions_bounded_witness:
  "\<exists>s'. post_frame (with_reader (\<lambda>n. Nothing_read) demo_world) 20 [] [160] 2 demo_session
       = Some (Inl SessionTimeoutError, s')
     \<and> sends [68, 2, 0, 0, 0, 0, 0, 1, 255, 160] s' \<le> sends [68, 2, 0, 0, 0, 0, 0, 1, 255, 160] demo_session + 1"
proof -
  let ?d = "[68, 2, 0, 0, 0, 0, 0, 1, 255, 160] :: bytes" and ?w = "with_reader (\<lambda>n. Nothing_read) demo_world"
  have "?d \<notin> empty_acks" by (auto simp: empty_acks_def build_empty_ack_def build_coap_def result_simps encode_options_def)
  note bound = transmissions_bounded [OF this, THEN conjunct1, rule_format]
  have "map_option fst (post_frame ?w 20 [] [160] 2 demo_session) = Some (Inl SessionTimeoutError)"
    by code_simp
  then obtain s' where s': "post_frame ?w 20 [] [160] 2 demo_session = Some (Inl SessionTimeoutError, s')"
    by (cases "post_frame ?w 20 [] [160] 2 demo_session") auto
  have "s_attempts demo_session = 1" by (simp add: demo_session_def)
  with s' bound [OF s'] show ?thesis by (intro exI [of _ s']) simp
qed

section \<open>Which response ends a request\<close>

text \<open>The locked sections, the caller's own included, as a graded relation.\<close>

lemma register_step: "register_pending tok b s = (r, s') \<Longrightarrow> lock_step s s'"
proof (cases r)
  case (Inl e)
  assume "register_pending tok b s = (r, s')"
  then have "tables s' = tables s"
    using Inl by (auto simp: register_pending_def next_mid_def probe_mid_run Let_def split: if_splits sum.splits option.splits)
  then show ?thesis by (rule lock_step.outside)
qed (metis lock_step.registers)

sublocale interleaved \<subseteq> locked: sending w "\<lambda>n. lock_steps"
proof unfold_locales
  show "lock_steps s (rearm b x s)" for s b x by (rule steps.R_rearm)
  show "send_dgram w False d s = (r, s') \<Longrightarrow> lock_steps s s'" for d s r s'
    using send_steps [of s False d] by simp
qed (auto intro: steps_trans outside_steps interlude_steps)

text \<open>
  The request at address \<open>x\<close> belongs to one token, one Message ID and one chunk: no index has it
  under another, and what it was answered with carries its token and fits its chunk.
\<close>

definition answers :: "bytes \<Rightarrow> (nat \<times> nat \<times> bool) option \<Rightarrow> coap_message \<Rightarrow> bool" where
  "answers tok b m \<longleftrightarrow> m_token m = tok \<and> block1_response_matches m (new_exchange b)"

definition owned :: "bytes \<Rightarrow> nat \<Rightarrow> (nat \<times> nat \<times> bool) option \<Rightarrow> nat \<Rightarrow> session \<Rightarrow> bool" where
  "owned tok mid b x s \<longleftrightarrow>
     x < s_next s \<and> (\<forall>t. (t, x) \<in> set (s_pending s) \<longrightarrow> t = tok)
     \<and> (\<forall>m. (m, x) \<in> set (s_pending_mids s) \<longrightarrow> m = mid)
     \<and> (\<forall>e. s_heap s x = Some e \<longrightarrow> x_block1 e = b \<and> (\<forall>m. x_msg e = Some m \<longrightarrow> answers tok b m))"

lemma answers_exchange: "m_token m = tok \<Longrightarrow> block1_response_matches m e \<Longrightarrow> answers tok (x_block1 e) m"
  by (simp add: answers_def block1_response_matches_def new_exchange_def)

lemma owned_requests: "requests s' = requests s \<Longrightarrow> owned tok mid b x s' = owned tok mid b x s"
  by (simp add: owned_def requests_def)

lemma owned_update:
  assumes "owned tok mid b x s"
    and "\<And>e. s_heap s y = Some e \<Longrightarrow> x_block1 (f e) = x_block1 e"
    and "\<And>e m. s_heap s y = Some e \<Longrightarrow> x_msg (f e) = Some m \<Longrightarrow> x_msg e = Some m \<or> y \<noteq> x \<or> answers tok (x_block1 e) m"
  shows "owned tok mid b x (update_exchange y f s)"
proof -
  note o = assms(1) [unfolded owned_def]
  have "x_block1 (f e) = b \<and> (\<forall>m. x_msg (f e) = Some m \<longrightarrow> answers tok b m)" if "s_heap s y = Some e" "y = x" for e
    using o assms(2,3) [OF that(1)] that by blast
  with o show ?thesis unfolding owned_def update_exchange_fields by auto
qed

lemma owned_step:
  assumes "lock_step s s'" and "owned tok mid b x s"
  shows "owned tok mid b x s'"
  using assms
proof (induction rule: lock_step.induct)
  case (outside s' s)
  then show ?case using owned_requests [of s' s] by (simp add: requests_def tables_def)
next
  case (registers tok' b' s r s')
  obtain mid' where "s' = s\<lparr>s_mid := mid', s_heap := (s_heap s)(s_next s := Some (new_exchange b')), s_next := s_next s + 1,
         s_pending := s_pending s @ [(tok', s_next s)],
         s_pending_mids := s_pending_mids s @ [(mid', s_next s)]\<rparr>"
    by (rule register_pending_cases [OF registers(1)])
  with registers(2) show ?case unfolding owned_def by simp
next
  case (unregisters s tok' mid' x')
  then show ?case unfolding owned_def unregister_pending_def by (auto simp: AList.delete_eq)
next
  case (acks s mid')
  then show ?case by (auto simp: acknowledge_def intro: owned_update split: option.split)
next
  case (resets s mid')
  then show ?case
    by (auto simp: reset_request_def set_event_def fail_unanswered_def intro: owned_update split: option.split if_splits)
next
  case (resolves s m)
  have "answers tok (x_block1 e) m" if "map_of (s_pending s) (m_token m) = Some x" "block1_response_matches m e" for e
    using resolves map_of_SomeD [OF that(1)] answers_exchange [OF _ that(2)] by (auto simp: owned_def)
  with resolves show ?case by (auto simp: resolve_request_def intro!: owned_update split: option.split)
next
  case (rearms s stale y)
  then show ?case by (auto simp: rearm_def intro!: owned_update split: if_splits)
next
  case (closes s)
  then show ?case
    unfolding close_pending_eq by (auto simp: owned_def set_event_def fail_unanswered_def split: if_splits)
qed (auto simp: owned_def retire_token_def clear_relations_def accept_sequence_def accept_plain_def
  queue_refetch_def start_refetch_worker_def take_refetch_def discard_refetches_def clear_refetches_def Let_def
  split: option.splits list.splits if_splits)

lemma owned_steps: "lock_steps s s' \<Longrightarrow> owned tok mid b x s \<Longrightarrow> owned tok mid b x s'"
  by (induction rule: rtranclp_induct) (auto intro: owned_step)

text \<open>What a request returns is the message of its exchange.\<close>

lemma block_wait_msg:
  "block_wait w fuel x num szx d s = Some (Inr (Some m), s') \<Longrightarrow>
     x_msg (get_exchange x s') = Some m \<and> block_num_matches m num szx"
proof (induction fuel arbitrary: s)
  case (Suc fuel)
  let ?e = "get_exchange x s"
  show ?case
  proof (cases "x_err ?e = None \<and> \<not> (x_msg ?e \<noteq> None \<and> block_num_matches (the (x_msg ?e)) num szx)")
    case True
    then have e: "x_err ?e = None" and stale: "\<not> (x_msg ?e \<noteq> None \<and> block_num_matches (the (x_msg ?e)) num szx)" by simp_all
    from Suc.prems show ?thesis
      unfolding block_wait.simps Let_def e prod.case option.case if_not_P [OF stale]
      by (auto simp: and_then_Some_iff split: if_splits dest: Suc.IH)
  next
    case False
    with Suc.prems show ?thesis by (auto simp: Let_def split: option.splits)
  qed
qed simp

lemma block_attempts_msg:
  "block_attempts w fuel left x dg num szx d s = Some (Inr m, s') \<Longrightarrow>
     x_msg (get_exchange x s') = Some m \<and> block_num_matches m num szx"
proof (induction left arbitrary: s)
  case (Suc left)
  from Suc.prems show ?case
    by (auto simp: and_then_Some_iff split: sum.splits if_splits option.splits dest: block_wait_msg Suc.IH)
qed simp

lemma post_wait_msg:
  "post_wait w fuel x attempt l d s = Some (Inr (Some m), s') \<Longrightarrow> x_msg (get_exchange x s') = Some m"
proof (induction fuel arbitrary: s l)
  case (Suc fuel)
  from Suc.prems show ?case
    by (auto simp: and_then_Some_iff Let_def split: if_splits option.splits dest: Suc.IH)
qed simp

lemma delete_wait_msg: "delete_wait w fuel x d s = Some (Inr m, s') \<Longrightarrow> x_msg (get_exchange x s') = Some m"
proof (induction fuel arbitrary: s)
  case (Suc fuel)
  from Suc.prems show ?case
    by (auto simp: and_then_Some_iff Let_def split: if_splits option.splits dest: Suc.IH)
qed simp

lemma block1_wait_msg:
  "block1_wait w fuel x l d s = Some (Inr (Some m), s') \<Longrightarrow> x_msg (get_exchange x s') = Some m"
proof (induction fuel arbitrary: s l)
  case (Suc fuel)
  from Suc.prems show ?case
    by (auto simp: and_then_Some_iff Let_def split: if_splits option.splits dest: Suc.IH)
qed simp

lemma post_attempts_msg:
  "post_attempts w fuel left attempt x dg d s = Some (Inr m, s') \<Longrightarrow> x_msg (get_exchange x s') = Some m"
proof (induction left arbitrary: s attempt)
  case (Suc left)
  from Suc.prems show ?case
    unfolding post_attempts.simps Let_def
    by (elim and_thenE) (auto split: if_splits option.splits dest: post_wait_msg Suc.IH)
qed simp

lemma block1_attempts_msg:
  "block1_attempts w fuel left attempt x dg d s = Some (Inr m, s') \<Longrightarrow> x_msg (get_exchange x s') = Some m"
proof (induction left arbitrary: s attempt)
  case (Suc left)
  from Suc.prems show ?case
    by (auto simp: and_then_Some_iff Let_def split: if_splits option.splits sum.splits dest: block1_wait_msg Suc.IH)
qed simp

lemmas request_msgs = block_attempts_msg post_attempts_msg delete_wait_msg block1_attempts_msg

text \<open>The frame of every request: registered, run, unregistered.\<close>

lemma register_owned:
  assumes "register_pending tok b s = (Inr (mid, x), s1)" and "session_ok s"
  shows "x = s_next s" and "mid < 65536" and "owned tok mid b x s1" and "session_ok s1"
proof -
  obtain mid' where r: "(mid, x) = (mid', s_next s)" "mid' < 65536"
    "s1 = s\<lparr>s_mid := mid', s_heap := (s_heap s)(s_next s := Some (new_exchange b)), s_next := s_next s + 1,
         s_pending := s_pending s @ [(tok, s_next s)],
         s_pending_mids := s_pending_mids s @ [(mid', s_next s)]\<rparr>"
    by (rule register_pending_cases [OF assms(1)])
  then show "x = s_next s" "mid < 65536" by simp_all
  have "s_next s \<notin> snd ` set (s_pending s)" "s_next s \<notin> snd ` set (s_pending_mids s)"
    using assms(2) by (auto simp: session_ok_def registry_ok_def)
  then show "owned tok mid b x s1" using r(1) unfolding owned_def r(3) by (auto simp: new_exchange_def image_iff)
  show "session_ok s1" by (rule lock_step_ok [OF register_step [OF assms(1)] assms(2)])
qed

definition released :: "nat \<Rightarrow> session \<Rightarrow> bool" where
  "released x s \<longleftrightarrow> x \<notin> snd ` set (s_pending s) \<and> x \<notin> snd ` set (s_pending_mids s)"

lemma map_of_sole_key:
  assumes "distinct (map fst xs)" and "\<forall>k'. (k', x) \<in> set xs \<longrightarrow> k' = k"
  shows "map_of xs k = Some x \<longleftrightarrow> x \<in> snd ` set xs"
proof
  assume "x \<in> snd ` set xs"
  with assms(2) have "(k, x) \<in> set xs" by auto
  then show "map_of xs k = Some x" by (rule map_of_is_SomeI [OF assms(1)])
qed (auto dest!: map_of_SomeD intro: rev_image_eqI)

lemma unregister_owned:
  assumes "owned tok mid b x s" and "session_ok s"
  shows "lock_step s (unregister_pending tok mid x s)" and "released x (unregister_pending tok mid x s)"
proof -
  note o = assms(1) [unfolded owned_def]
  have r: "distinct (map fst (s_pending s))" "distinct (map fst (s_pending_mids s))"
    "snd ` set (s_pending s) = snd ` set (s_pending_mids s)"
    using assms(2) by (simp_all add: session_ok_def registry_ok_def)
  have t: "map_of (s_pending s) tok = Some x \<longleftrightarrow> x \<in> snd ` set (s_pending s)"
    by (rule map_of_sole_key [OF r(1)]) (use o in blast)
  have m: "map_of (s_pending_mids s) mid = Some x \<longleftrightarrow> x \<in> snd ` set (s_pending_mids s)"
    by (rule map_of_sole_key [OF r(2)]) (use o in blast)
  show "lock_step s (unregister_pending tok mid x s)"
    by (rule lock_step.unregisters) (simp add: registered_def t m r(3))
  have "x \<notin> snd ` set (AList.delete tok (s_pending s))" "x \<notin> snd ` set (AList.delete mid (s_pending_mids s))"
    using o by (auto simp: AList.delete_eq)
  then show "released x (unregister_pending tok mid x s)"
    using t m by (simp add: released_def unregister_pending_def)
qed

lemma request_frame:
  assumes "register_pending tok b s = (Inr (mid, x), s1)" and "session_ok s"
    and "finally_do m (unregister_pending tok mid x) = Some (r, s')"
    and "\<And>r s2. m = Some (r, s2) \<Longrightarrow> lock_steps s1 s2"
  obtains s2 where "m = Some (r, s2)" "owned tok mid b x s2" "lock_steps s s'" "session_ok s'" "released x s'"
    "x = s_next s" "mid < 65536"
proof -
  obtain s2 where s2: "m = Some (r, s2)" "s' = unregister_pending tok mid x s2"
    using assms(3) by (auto simp: finally_Some_iff)
  note reg = register_owned [OF assms(1,2)] and run = assms(4) [OF s2(1)]
  have own: "owned tok mid b x s2" by (rule owned_steps [OF run reg(3)])
  have ok: "session_ok s2" by (rule lock_steps_ok [OF run reg(4)])
  note un = unregister_owned [OF own ok]
  have "lock_steps s s'"
    using register_step [OF assms(1)] run un(1) unfolding s2(2) by (meson converse_rtranclp_into_rtranclp rtranclp.rtrancl_into_rtrancl)
  then show thesis
    using s2 own un(2) reg(1,2) lock_steps_ok [OF _ assms(2)] by (intro that) simp_all
qed

lemma owned_answers: "owned tok mid b x s \<Longrightarrow> x_msg (get_exchange x s) = Some m \<Longrightarrow> answers tok b m"
  by (auto simp: owned_def get_exchange_def new_exchange_def split: option.splits)

section \<open>Properties of an exchange\<close>

lemma interleaved_world: "(\<And>n s. lock_steps s (w_threads w n s)) \<Longrightarrow> interleaved w"
  by unfold_locales

context interleaved begin

lemma exchange_block_outcome:
  assumes "exchange_block w fuel tok path q num szx deadline extra s = Some (r, s')" and "session_ok s"
    and "validated_request path q extra" and "length tok \<le> 8" and "num < 2 ^ 20" and "szx \<le> BLOCK_SZX"
  shows "lock_steps s s' \<and> session_ok s' \<and> released (s_next s) s'
    \<and> (\<forall>m. r = Inr m \<longrightarrow> answers tok None m \<and> block_num_matches m num szx)"
proof (cases "register_pending tok None s")
  case (Pair a s1)
  note step = r_into_rtranclp [of lock_step, OF register_step [OF Pair]]
  show ?thesis
  proof (cases a)
    case (Inl e)
    have "s_next s1 = s_next s" "s_pending s1 = s_pending s" "s_pending_mids s1 = s_pending_mids s"
      using Pair Inl by (auto simp: register_pending_def next_mid_def probe_mid_run Let_def split: if_splits sum.splits option.splits)
    then have "released (s_next s) s1"
      using assms(2) by (auto simp: released_def session_ok_def registry_ok_def)
    with assms(1) Pair Inl step lock_steps_ok [OF step assms(2)] show ?thesis
      by (auto simp: exchange_block_def)
  next
    case (Inr mx)
    obtain mid x where mx: "mx = (mid, x)" by fastforce
    note reg = Pair [unfolded Inr mx]
    obtain d where d: "build_get_request TYPE_CON mid tok (map PyStr path) (map PyStr q) (PyBytes CF_CBOR)
        (if num > 0 then PyInt (int num) else PyNone) (PyInt (int szx)) extra = Inr d"
      by (rule get_request_datagram [OF assms(3) register_owned(2) [OF reg assms(2)] assms(4-6)])
    have run: "finally_do (block_attempts w fuel 3 x d num szx deadline s1) (unregister_pending tok mid x) = Some (r, s')"
      using assms(1) reg d by (simp add: exchange_block_def)
    obtain s2 where s2: "block_attempts w fuel 3 x d num szx deadline s1 = Some (r, s2)" "owned tok mid None x s2"
      "lock_steps s s'" "session_ok s'" "released x s'" "x = s_next s"
      by (rule request_frame [OF reg assms(2) run locked.block_attempts_rel])
    then show ?thesis using block_attempts_msg owned_answers by metis
  qed
qed

lemma exchange_block1_outcome:
  assumes "exchange_block1 w fuel tok opts pl st en further deadline s = Some (r, s')" and "session_ok s"
  shows "lock_steps s s' \<and> session_ok s' \<and> released (s_next s) s'
    \<and> (\<forall>m. r = Inr m \<longrightarrow> answers tok (Some (st, en, further)) m)"
proof (cases "register_pending tok (Some (st, en, further)) s")
  case (Pair a s1)
  note step = r_into_rtranclp [of lock_step, OF register_step [OF Pair]]
  show ?thesis
  proof (cases a)
    case (Inl e)
    have "s_next s1 = s_next s" "s_pending s1 = s_pending s" "s_pending_mids s1 = s_pending_mids s"
      using Pair Inl by (auto simp: register_pending_def next_mid_def probe_mid_run Let_def split: if_splits sum.splits option.splits)
    then have "released (s_next s) s1"
      using assms(2) by (auto simp: released_def session_ok_def registry_ok_def)
    with assms(1) Pair Inl step lock_steps_ok [OF step assms(2)] show ?thesis
      by (auto simp: exchange_block1_def)
  next
    case (Inr mx)
    obtain mid x where mx: "mx = (mid, x)" by fastforce
    note reg = Pair [unfolded Inr mx]
    let ?m = "and_then (Some (build_coap TYPE_CON METHOD_POST mid tok opts pl, s1)) (\<lambda>d s.
          block1_attempts w fuel 3 0 x d deadline s)"
    have run: "finally_do ?m (unregister_pending tok mid x) = Some (r, s')"
      using assms(1) reg by (simp add: exchange_block1_def)
    have rel: "lock_steps s1 s2" if "?m = Some (r, s2)" for r s2
      using that by (auto simp: and_then_Some_iff dest: locked.block1_attempts_rel)
    obtain s2 where s2: "?m = Some (r, s2)" "owned tok mid (Some (st, en, further)) x s2"
      "lock_steps s s'" "session_ok s'" "released x s'" "x = s_next s"
      by (rule request_frame [OF reg assms(2) run rel])
    then show ?thesis using block1_attempts_msg owned_answers by (auto simp: and_then_Some_iff)
  qed
qed

end

text \<open>A Block2 request returns only its own answer and leaves nothing behind: while other threads run
  any locked sections between its own, a response it returns carries its token and, when it
  reports success, the block it asked for; whatever the outcome, timeouts and errors included, its
  entries are gone from both indices and the tables are consistent.
\<close>

theorem get_exchange_outcome:
  assumes "\<And>n s. lock_steps s (w_threads w n s)" and "session_ok s"
    and "validated_request path q extra" and "length tok \<le> 8" and "num < 2 ^ 20" and "szx \<le> BLOCK_SZX"
    and "exchange_block w fuel tok path q num szx deadline extra s = Some (r, s')"
  shows "lock_steps s s' \<and> session_ok s' \<and> released (s_next s) s'
    \<and> (\<forall>m. r = Inr m \<longrightarrow> m_token m = tok \<and> block_num_matches m num szx)"
  using interleaved.exchange_block_outcome [OF interleaved_world [OF assms(1)] assms(7) assms(2-6)]
  by (simp add: answers_def)

definition answered_world :: "nat \<Rightarrow> bytes \<Rightarrow> world" where
  "answered_world k d = with_reader (\<lambda>n. if n = k then Packets [d] False else Nothing_read) demo_world"

theorem get_exchange_outcome_witness:
  "\<exists>m s'. exchange_block (answered_world 7 [0x54, 0x45, 0, 9, 0, 0, 0, 1, 0xFF, 7]) 9 [0, 0, 0, 1]
       [str_of ''a''] [] 0 6 20 [] demo_session = Some (Inr m, s')
     \<and> m_token m = [0, 0, 0, 1] \<and> block_num_matches m 0 6 \<and> m_payload m = [7] \<and> released 0 s'"
proof -
  let ?w = "answered_world 7 [0x54, 0x45, 0, 9, 0, 0, 0, 1, 0xFF, 7]"
  have "validated_text_options (PyTuple [PyStr (str_of ''a'')]) False = Inr [str_of ''a'']" by code_simp
  moreover have "validated_text_options (PyTuple []) False = Inr []" by code_simp
  moreover have "validated_extra_options (PyTuple []) = Inr []" by code_simp
  ultimately have v: "validated_request [str_of ''a''] [] []" unfolding validated_request_def by blast
  have "map_option (map_sum id m_payload \<circ> fst) (exchange_block ?w 9 [0, 0, 0, 1] [str_of ''a''] [] 0 6 20 [] demo_session)
      = Some (Inr [7])" by code_simp
  then obtain m s' where run: "exchange_block ?w 9 [0, 0, 0, 1] [str_of ''a''] [] 0 6 20 [] demo_session = Some (Inr m, s')"
    "m_payload m = [7]"
    by (cases "exchange_block ?w 9 [0, 0, 0, 1] [str_of ''a''] [] 0 6 20 [] demo_session")
      (auto simp: map_sum_def split: sum.splits)
  have th: "lock_steps s (w_threads ?w n s)" for n s unfolding answered_world_def by (rule caller.threads)
  have "s_next demo_session = 0" by (simp add: demo_session_def)
  with get_exchange_outcome [OF th demo_ok v _ _ _ run(1)] run show ?thesis by auto
qed

text \<open>A chunk of a Block1 upload accepts only its own answer although every chunk of the upload has
  the same token: a success response that names a block covers the bytes of this chunk, so a
  delayed response to an earlier one is never taken; and whatever the outcome, the chunk is gone
  from both indices.
\<close>

theorem chunk_exchange_outcome:
  assumes "\<And>n s. lock_steps s (w_threads w n s)" and "session_ok s"
    and "exchange_block1 w fuel tok opts chunk start end_off further deadline s = Some (r, s')"
  shows "lock_steps s s' \<and> session_ok s' \<and> released (s_next s) s'
    \<and> (\<forall>m v. r = Inr m \<and> drop_bit 5 (m_code m) = 2 \<and> option_values (m_options m) BLOCK1 = [v] \<longrightarrow>
         m_token m = tok
         \<and> (case block_fields v of (num, _, szx) \<Rightarrow>
              if further then (num + 1) * 2 ^ (szx + 4) = end_off
              else num * 2 ^ (szx + 4) \<le> start \<and> end_off \<le> (num + 1) * 2 ^ (szx + 4)))"
proof -
  note out = interleaved.exchange_block1_outcome [OF interleaved_world [OF assms(1)] assms(3,2)]
  have "m_token m = tok \<and> (case block_fields v of (num, _, szx) \<Rightarrow>
              if further then (num + 1) * 2 ^ (szx + 4) = end_off
              else num * 2 ^ (szx + 4) \<le> start \<and> end_off \<le> (num + 1) * 2 ^ (szx + 4))"
    if "r = Inr m" "drop_bit 5 (m_code m) = 2" "option_values (m_options m) BLOCK1 = [v]" for m v
    using out that
    by (auto simp: answers_def block1_response_matches_def new_exchange_def Let_def push_bit_eq_mult
        split: if_splits prod.splits)
  then show ?thesis
    by (intro conjI allI impI; (elim conjE)?) (simp_all only: out)
qed

theorem chunk_exchange_outcome_witness:
  "\<exists>m s'. exchange_block1 (answered_world 3 [0x54, 0x44, 0, 9, 0, 0, 0, 1, 0xD1, 0x0E, 0x10]) 9 [0, 0, 0, 1]
       [] [1, 2] 16 18 False 20 demo_session = Some (Inr m, s')
     \<and> m_token m = [0, 0, 0, 1] \<and> option_values (m_options m) BLOCK1 = [[0x10]] \<and> released 0 s'"
proof -
  let ?w = "answered_world 3 [0x54, 0x44, 0, 9, 0, 0, 0, 1, 0xD1, 0x0E, 0x10]"
  have "map_option (map_sum id (\<lambda>m. (m_code m, option_values (m_options m) BLOCK1)) \<circ> fst)
      (exchange_block1 ?w 9 [0, 0, 0, 1] [] [1, 2] 16 18 False 20 demo_session) = Some (Inr (0x44, [[0x10]]))" by code_simp
  then obtain m s' where run: "exchange_block1 ?w 9 [0, 0, 0, 1] [] [1, 2] 16 18 False 20 demo_session = Some (Inr m, s')"
    "m_code m = 0x44" "option_values (m_options m) BLOCK1 = [[0x10]]"
    by (cases "exchange_block1 ?w 9 [0, 0, 0, 1] [] [1, 2] 16 18 False 20 demo_session")
      (auto simp: map_sum_def split: sum.splits)
  have th: "lock_steps s (w_threads ?w n s)" for n s unfolding answered_world_def by (rule caller.threads)
  have "s_next demo_session = 0" by (simp add: demo_session_def)
  with chunk_exchange_outcome [OF th demo_ok run(1)] run(2,3) show ?thesis
    by (intro exI [of _ m] exI [of _ s']) (simp add: run(1))
qed

end
