(* ===== verification/Response_Origin.thy ===== *)
theory Response_Origin
  imports Request_Outcome
begin

text \<open>
  Where the response of a request comes from: the datagrams the reader took from the network while the
  request ran. \<open>net n\<close> is what the reader reads at the interlude with number \<open>n\<close>.
\<close>

section \<open>What the reader reads\<close>

definition read_at :: "(nat \<Rightarrow> reader_input) \<Rightarrow> nat \<Rightarrow> coap_message set" where
  "read_at net n = {m. \<exists>ps at_end d. net n = Packets ps at_end \<and> d \<in> set ps \<and> parse_coap_message d = Inr m}"

definition read_between :: "(nat \<Rightarrow> reader_input) \<Rightarrow> session \<Rightarrow> session \<Rightarrow> coap_message set" where
  "read_between net s s' = (\<Union>n \<in> {s_calls s ..< s_calls s'}. read_at net n)"

text \<open>Every response a request has in \<open>s'\<close> and had not in \<open>s\<close> is one of \<open>M\<close>.\<close>

definition answered_by :: "coap_message set \<Rightarrow> session \<Rightarrow> session \<Rightarrow> bool" where
  "answered_by M s s' \<longleftrightarrow>
     (\<forall>x e m. s_heap s' x = Some e \<longrightarrow> x_msg e = Some m \<longrightarrow>
        m \<in> M \<or> (\<exists>e0. s_heap s x = Some e0 \<and> x_msg e0 = Some m))"

definition origin :: "(nat \<Rightarrow> reader_input) \<Rightarrow> session \<Rightarrow> session \<Rightarrow> bool" where
  "origin net s s' \<longleftrightarrow> s_calls s \<le> s_calls s' \<and> answered_by (read_between net s s') s s'"

text \<open>Other threads: they take locked sections, and the reader among them answers requests with what it reads.\<close>

definition reads :: "(nat \<Rightarrow> reader_input) \<Rightarrow> world \<Rightarrow> bool" where
  "reads net w \<longleftrightarrow>
     (\<forall>n s. lock_steps s (w_threads w n s) \<and> s_calls s \<le> s_calls (w_threads w n s)
        \<and> answered_by (read_at net n) s (w_threads w n s))"

lemma answered_heap: "s_heap s' = s_heap s \<Longrightarrow> answered_by M s s'"
  by (simp add: answered_by_def)

lemma answered_trans: "answered_by M s s' \<Longrightarrow> answered_by N s' s'' \<Longrightarrow> answered_by (M \<union> N) s s''"
  unfolding answered_by_def by blast

lemma answered_mono: "answered_by M s s' \<Longrightarrow> M \<subseteq> N \<Longrightarrow> answered_by N s s'"
  unfolding answered_by_def by blast

lemma answered_update:
  assumes "\<And>e m. s_heap s x = Some e \<Longrightarrow> x_msg (f e) = Some m \<Longrightarrow> m \<in> M \<or> x_msg e = Some m"
  shows "answered_by M s (update_exchange x f s)"
  using assms unfolding answered_by_def update_exchange_fields by (auto split: if_splits)

lemma read_between_mono: "s_calls s \<le> s_calls s1 \<Longrightarrow> s_calls s2 \<le> s_calls s' \<Longrightarrow> read_between net s1 s2 \<subseteq> read_between net s s'"
  unfolding read_between_def by fastforce

lemma origin_refl: "origin net s s"
  by (simp add: origin_def answered_heap)

lemma origin_trans: "origin net s s' \<Longrightarrow> origin net s' s'' \<Longrightarrow> origin net s s''"
  unfolding origin_def
  by (meson answered_trans answered_mono Un_least read_between_mono order_refl order_trans)

lemma origin_heap: "s_heap s' = s_heap s \<Longrightarrow> s_calls s \<le> s_calls s' \<Longrightarrow> origin net s s'"
  by (simp add: origin_def answered_heap)

section \<open>The reader\<close>

lemma answered_calls: "answered_by M (tick s) s' = answered_by M s s'" "answered_by M s (tick s') = answered_by M s s'"
  by (simp_all add: answered_by_def)

lemma dispatch_answers:
  "answered_by {m. parse_coap_message d = Inr m} s (dispatch_coap (quiet w) d s)"
proof (cases "classify_coap_response d None None")
  case (Inr c)
  let ?m = "c_message c"
  have m: "parse_coap_message d = Inr ?m"
    using Inr by (auto simp: classify_coap_response_def result_simps split: if_splits)
  define s1 where "s1 = (case c_ack c of None \<Rightarrow> s | Some ack \<Rightarrow> snd (send_dgram (quiet w) False ack s))"
  have s1: "s_heap s1 = s_heap s"
    unfolding s1_def using sends_quiet(1) [OF refl] by (simp add: requests_def split: option.split)
  have "answered_by {m. parse_coap_message d = Inr m} (tick s1) (route (quiet w) (c_kind c) ?m (tick s1))"
  proof (cases "c_kind c")
    case RESPONSE_EMPTY_ACK
    then show ?thesis
      by (auto simp: route_def acknowledge_def intro: answered_heap answered_update split: option.split)
  next
    case RESPONSE_RESET
    then show ?thesis
      by (auto simp: route_def reset_request_def set_event_def fail_unanswered_def intro: answered_update answered_heap
          split: option.split if_splits)
  next
    case RESPONSE_IGNORE
    then show ?thesis by (simp add: route_def answered_heap)
  next
    case RESPONSE_MESSAGE
    then show ?thesis using m
      unfolding route_def answered_by_def RESPONSE_MESSAGE response_kind.case route_message_heap
      by (auto split: option.splits if_splits)
  qed
  moreover have "dispatch_coap (quiet w) d s = route (quiet w) (c_kind c) ?m (tick s1)"
    using Inr by (simp add: dispatch_coap_def s1_def Let_def)
  ultimately show ?thesis using s1 by (simp add: answered_by_def)
qed (simp add: dispatch_coap_def answered_heap)

lemma dispatches_answer:
  "answered_by {m. \<exists>d \<in> set ps. parse_coap_message d = Inr m} s (fold (dispatch_coap (quiet w)) ps s)"
proof (induction ps arbitrary: s)
  case (Cons d ps)
  show ?case
    by (simp, rule answered_mono [OF answered_trans [OF dispatch_answers Cons.IH]]) auto
qed (simp add: answered_heap)

lemma exit_answers: "answered_by M s (reader_exit (quiet w) s)"
proof -
  have "answered_by M s (close_pending_requests (s\<lparr>s_reader_running := False\<rparr>))"
    unfolding close_pending_eq answered_by_def
    by (auto simp: set_event_def fail_unanswered_def split: if_splits)
  then show ?thesis
    by (simp add: reader_exit_def Let_def answered_by_def clear_refetches_def clear_relations_def)
qed

lemma round_answers: "answered_by (read_at net n) s (snd (reader_round (quiet w) (net n) s))"
proof (cases "net n")
  case (Packets ps at_end)
  have "{m. \<exists>d \<in> set ps. parse_coap_message d = Inr m} \<subseteq> read_at net n" by (auto simp: read_at_def Packets)
  from answered_mono [OF dispatches_answer this] have f: "answered_by (read_at net n) s (fold (dispatch_coap (quiet w)) ps s)" .
  from answered_trans [OF f exit_answers [of "read_at net n"]]
  show ?thesis using f exit_answers by (simp add: reader_round_def Packets Let_def)
qed (auto simp: reader_round_def answered_heap exit_answers)

lemma reader_reads: "reads net (with_reader net w)"
  unfolding reads_def
  using caller.threads [where net = net and w = w] reader_calls.R_round round_answers by (simp add: with_reader_def)

section \<open>Requests\<close>

locale receiving =
  fixes w :: world and net :: "nat \<Rightarrow> reader_input"
  assumes reading: "reads net w"

sublocale receiving \<subseteq> interleaved w
  using reading by unfold_locales (simp add: reads_def)

context receiving begin

lemma interlude_origin: "origin net s (interlude w s)"
proof -
  have "s_calls (tick s) \<le> s_calls (interlude w s)" "answered_by (read_at net (s_calls s)) (tick s) (interlude w s)"
    using reading unfolding reads_def interlude_def by blast+
  then have r: "s_calls s < s_calls (interlude w s)" "answered_by (read_at net (s_calls s)) s (interlude w s)"
    by (simp_all only: answered_calls) (simp add: tick_def)
  then have "read_at net (s_calls s) \<subseteq> read_between net s (interlude w s)"
    by (auto simp: read_between_def intro: bexI [of _ "s_calls s"])
  with r answered_mono show ?thesis by (auto simp: origin_def)
qed

lemma send_origin: "send_dgram w ord d s = (r, s') \<Longrightarrow> origin net s s'"
proof -
  assume "send_dgram w ord d s = (r, s')"
  then have s': "s' = snd (send_dgram w ord d s)" by simp
  have "origin net (interlude w s) s'"
    using send_effect [of w ord d s] send_calls [of w s ord d] unfolding s'
    by (intro origin_heap) (auto simp: emit_def)
  with interlude_origin show ?thesis by (rule origin_trans)
qed

end

sublocale receiving \<subseteq> arriving: sending w "\<lambda>n. origin net"
proof unfold_locales
  show "origin net s (rearm b x s)" for s b x
    unfolding origin_def rearm_def by (auto intro!: answered_update split: if_splits) (simp add: update_exchange_def)
qed (auto intro: origin_refl origin_trans interlude_origin send_origin origin_heap)

lemma register_origin:
  assumes "register_pending tok b s = (r, s')"
  shows "s_calls s' = s_calls s" and "origin net s s'"
    and "r = Inr (mid, x) \<Longrightarrow> s_heap s' x = Some (new_exchange b)"
proof -
  have r: "s_calls s' = s_calls s \<and> (s_heap s' = s_heap s \<or> s_heap s' = (s_heap s)(s_next s := Some (new_exchange b)))
      \<and> (r = Inr (mid, x) \<longrightarrow> s_heap s' x = Some (new_exchange b))"
    using assms by (auto simp: register_pending_def next_mid_def probe_mid_run Let_def split: if_splits sum.splits option.splits)
  then show "s_calls s' = s_calls s" "r = Inr (mid, x) \<Longrightarrow> s_heap s' x = Some (new_exchange b)" by simp_all
  from r have "\<And>y e m. s_heap s' y = Some e \<Longrightarrow> x_msg e = Some m \<Longrightarrow> \<exists>e0. s_heap s y = Some e0 \<and> x_msg e0 = Some m"
    by (auto simp: new_exchange_def split: if_splits)
  with r show "origin net s s'" unfolding origin_def answered_by_def by auto
qed

context receiving begin

lemma exchange_block_origin:
  assumes "exchange_block w fuel tok path q num szx deadline extra s = Some (r, s')"
  shows "origin net s s' \<and> (\<forall>m. r = Inr m \<longrightarrow> m \<in> read_between net s s')"
proof (cases "register_pending tok None s")
  case (Pair a s1)
  note reg = register_origin(1,2) [OF Pair]
  show ?thesis
  proof (cases "\<exists>mid x d. a = Inr (mid, x) \<and> build_get_request TYPE_CON mid tok (map PyStr path) (map PyStr q) (PyBytes CF_CBOR)
        (if num > 0 then PyInt (int num) else PyNone) (PyInt (int szx)) extra = Inr d")
    case False
    then have "s' = s1 \<and> (\<exists>e. r = Inl e)" using assms Pair by (auto simp: exchange_block_def and_then_Some_iff)
    with reg show ?thesis by auto
  next
    case True
    then obtain mid x d where a: "a = Inr (mid, x)"
      and d: "build_get_request TYPE_CON mid tok (map PyStr path) (map PyStr q) (PyBytes CF_CBOR)
        (if num > 0 then PyInt (int num) else PyNone) (PyInt (int szx)) extra = Inr d" by blast
    have run: "finally_do (block_attempts w fuel 3 x d num szx deadline s1) (unregister_pending tok mid x) = Some (r, s')"
      using assms Pair a d by (simp add: exchange_block_def)
    then obtain s2 where s2: "block_attempts w fuel 3 x d num szx deadline s1 = Some (r, s2)"
      "s' = unregister_pending tok mid x s2" by (auto simp: finally_Some_iff)
    have o2: "origin net s1 s2" by (rule arriving.block_attempts_rel [OF s2(1)])
    have un: "s_calls s' = s_calls s2" "s_heap s' = s_heap s2" by (simp_all add: s2(2) unregister_pending_def)
    have "origin net s s'"
      by (rule origin_trans [OF reg(2) origin_trans [OF o2 origin_heap]]) (simp_all add: un)
    moreover have "m \<in> read_between net s s'" if "r = Inr m" for m
    proof -
      have "x_msg (get_exchange x s2) = Some m" using block_attempts_msg s2(1) that by blast
      then obtain e where e: "s_heap s2 x = Some e" "x_msg e = Some m"
        by (auto simp: get_exchange_def new_exchange_def split: option.splits)
      moreover have "s_heap s1 x = Some (new_exchange None)" using register_origin(3) [OF Pair] a by simp
      moreover have "m \<in> read_between net s1 s2 \<or> (\<exists>e0. s_heap s1 x = Some e0 \<and> x_msg e0 = Some m)"
        using o2 e unfolding origin_def answered_by_def by blast
      ultimately have "m \<in> read_between net s1 s2" by (auto simp: new_exchange_def)
      then show ?thesis by (simp add: read_between_def un(1) reg(1))
    qed
    ultimately show ?thesis by blast
  qed
qed

end

text \<open>Threads that draw no tokens leave the counter to the caller.\<close>

locale token_kept =
  fixes w :: world
  assumes draws_none: "s_tok (w_threads w n s) = s_tok s"

sublocale token_kept \<subseteq> counter: sending w "\<lambda>n s s'. s_tok s' = s_tok s"
proof unfold_locales
  show i: "s_tok (interlude w s) = s_tok s" for s by (simp add: interlude_def draws_none tick_def)
  show "s_tok s' = s_tok s" if "send_dgram w False d s = (r, s')" for d s r s'
    using send_effect [of w False d s] that i by (auto simp: emit_def)
qed (simp_all add: tick_def rearm_def update_exchange_def)

context token_kept begin

lemma exchange_block_tok:
  assumes "exchange_block w fuel tok path q num szx deadline extra s = Some (r, s')"
  shows "s_tok s' = s_tok s"
proof (cases "register_pending tok None s")
  case (Pair a s1)
  then have "s_tok s1 = s_tok s"
    by (auto simp: register_pending_def next_mid_def probe_mid_run Let_def split: if_splits sum.splits option.splits)
  with assms Pair show ?thesis
    by (auto simp: exchange_block_def and_then_Some_iff finally_Some_iff unregister_pending_def dest: counter.block_attempts_rel)
qed

end

end
