(* ===== verification/Request_Transfer.thy ===== *)
theory Request_Transfer
  imports Response_Origin
begin

text \<open>
  Blockwise GET of \<open>DtlsCoapSession\<close> end to end: what \<open>get()\<close> returns is what a fresh
  \<open>Block2Accumulator\<close> assembled from responses to its own requests, all of one version of the
  resource.
\<close>

section \<open>One transfer\<close>

definition response_etag :: "coap_message \<Rightarrow> bytes option" where
  "response_etag m = (case option_values (m_options m) ETAG of [] \<Rightarrow> None | v # _ \<Rightarrow> Some v)"

definition is_success :: "coap_message \<Rightarrow> bool" where
  "is_success m \<longleftrightarrow> drop_bit 5 (m_code m) = 2"

text \<open>Every success response has the ETag of the first, if that has one.\<close>

definition one_version :: "bytes option \<Rightarrow> coap_message list \<Rightarrow> bool" where
  "one_version etag ms \<longleftrightarrow> (\<forall>m \<in> set ms. is_success m \<and> etag \<noteq> None \<longrightarrow> response_etag m = etag)"

fun version_of :: "coap_message list \<Rightarrow> bytes option" where
  "version_of [] = None"
| "version_of (m # _) = (if is_success m then response_etag m else None)"

text \<open>What a fresh accumulator makes of the responses.\<close>

definition assembled_from :: "bytes \<Rightarrow> coap_message list \<Rightarrow> nat option \<Rightarrow> bytes \<Rightarrow> bool" where
  "assembled_from tok ms code payload \<longleftrightarrow>
     (\<exists>acc sts acc'. block2_new (PyBytes tok) (PyInt (int MAX_BLOCK2_BLOCKS)) (PyInt 65536) PyNone = Inr acc
       \<and> add_responses acc ms = Inr (sts, acc') \<and> b_complete acc' \<and> code = b_code acc' \<and> payload = b_payload acc')"

lemma duplicate_needs_block:
  assumes "add_response acc m = Inr (BLOCK2_DUPLICATE, acc')" and "block2_inv acc"
  shows "b_blocks acc \<noteq> 0"
proof
  assume "b_blocks acc = 0"
  with assms have "b_payload acc = []" "\<not> b_complete acc"
    by (auto simp: block2_inv_def block2_open_def add_response_def result_simps)
  moreover from assms(1) obtain number mo szx where
    "block_window acc (m_payload m) number mo szx = Inr None"
    by (auto simp: add_response_def success_response_def result_simps Let_def split: option.splits if_splits)
  ultimately show False by (auto simp: block_window_def Let_def split: option.splits if_splits)
qed

lemma block2_request:
  assumes "block2_inv acc" and "\<not> b_complete acc" and "b_max_payload acc \<le> 65536"
  shows "b_expected acc < 2 ^ 20" and "request_szx acc \<le> BLOCK_SZX"
proof -
  have o: "block2_open acc" and p: "length (b_payload acc) \<le> 65536" using assms by (auto simp: block2_inv_def)
  show "request_szx acc \<le> BLOCK_SZX" using o by (auto simp: block2_open_def request_szx_def split: if_splits)
  show "b_expected acc < 2 ^ 20"
  proof (cases "b_blocks acc = 0")
    case True
    then show ?thesis using o by (simp add: block2_open_def)
  next
    case False
    then obtain s where "b_expected acc * 2 ^ (s + 4) = length (b_payload acc)" using o by (auto simp: block2_open_def)
    moreover have "b_expected acc \<le> b_expected acc * 2 ^ (s + 4)" by simp
    ultimately have "b_expected acc \<le> 65536" using p le_trans by metis
    then show ?thesis by simp
  qed
qed

lemma mask_32: "(n::nat) AND 4294967295 = n mod 4294967296"
proof -
  have "(4294967295::nat) = mask 32" by (simp add: mask_eq_exp_minus_1)
  then show ?thesis by (simp only: take_bit_eq_mask [symmetric] take_bit_eq_mod) simp
qed

lemma next_tok_token:
  assumes "next_tok s = (r, s1)"
  obtains tok where "r = Inr tok" "length tok = 4" "tables s1 = tables s"
  using assms that by (auto simp: next_tok_def Let_def to_bytes_def mask_32)

lemma max_blocks: "MAX_BLOCK2_BLOCKS = 64"
  by code_simp

text \<open>What a call returned, made of responses read while it ran; the tokens one call draws.\<close>

definition from_network ::
  "(nat \<Rightarrow> reader_input) \<Rightarrow> session \<Rightarrow> session \<Rightarrow> bytes \<Rightarrow> coap_message list \<Rightarrow> nat option \<Rightarrow> bytes \<Rightarrow> bool" where
  "from_network net s s' tok ms code payload \<longleftrightarrow>
     assembled_from tok ms code payload \<and> set ms \<subseteq> read_between net s s' \<and> (\<forall>m \<in> set ms. m_token m = tok)
     \<and> one_version (version_of ms) ms"

definition own_tokens :: "session \<Rightarrow> bytes set" where
  "own_tokens s = {tok. fst (next_tok s) = Inr tok \<or> fst (next_tok (snd (next_tok s))) = Inr tok}"

context token_kept begin

lemma transfer_tok: "transfer w fuel tok path q deadline extra acc etag s = Some (r, s') \<Longrightarrow> s_tok s' = s_tok s"
proof (induction fuel arbitrary: acc etag s)
  case (Suc fuel)
  let ?x = "exchange_block w fuel tok path q (b_expected acc) (request_szx acc) deadline extra (pace w s)"
  show ?case
  proof (cases "b_complete acc")
    case False
    have p: "s_tok s1 = s_tok s" if "?x = Some (a, s1)" for a s1
      using exchange_block_tok [OF that] counter.waits.pace_rel [of s] by simp
    have go: "s_tok s' = s_tok s" if "?x = Some (a, s1)" "transfer w fuel tok path q deadline extra acc1 e1 s1 = Some (r, s')" for a s1 acc1 e1
      using Suc.IH [OF that(2)] p [OF that(1)] by simp
    from Suc.prems False show ?thesis
      unfolding transfer.simps
      by (auto simp: Let_def elim!: and_thenE dest: p go split: if_splits sum.splits prod.splits block2_status.splits)
  qed (use Suc.prems in simp)
qed simp

lemma blockwise_get_once_tok:
  "blockwise_get_once w fuel path q timeout extra s = Some (r, s') \<Longrightarrow> s_tok s' = s_tok (snd (next_tok s))"
  by (cases "next_tok s")
     (auto simp: blockwise_get_once_def and_then_Some_iff tick_def split: sum.splits dest!: transfer_tok)

end

context receiving begin

lemma transfer_outcome:
  assumes "transfer w fuel tok path q deadline extra acc etag s = Some (r, s')"
    and "session_ok s" and "validated_request path q extra" and "length tok \<le> 8"
    and "block2_inv acc" and "b_max_payload acc \<le> 65536"
  shows "(lock_steps s s' \<and> origin net s s') \<and> (\<forall>code payload blocks. r = Inr (code, payload, blocks) \<longrightarrow>
    (\<exists>ms sts acc'. add_responses acc ms = Inr (sts, acc') \<and> (\<forall>m \<in> set ms. m_token m = tok) \<and> set ms \<subseteq> read_between net s s'
      \<and> b_complete acc' \<and> code = b_code acc' \<and> payload = b_payload acc'
      \<and> one_version (if b_blocks acc = 0 then version_of ms else etag) ms))"
  using assms
proof (induction fuel arbitrary: acc etag s)
  case (Suc fuel)
  let ?x = "exchange_block w fuel tok path q (b_expected acc) (request_szx acc) deadline extra (pace w s)"
  show ?case
  proof (cases "b_complete acc")
    case True
    with Suc.prems(1) origin_refl show ?thesis by auto
  next
    case open_acc: False
    let ?rest = "\<lambda>m s. let success = (drop_bit 5 (m_code m) = 2);
                  block_etag = (case option_values (m_options m) ETAG of [] \<Rightarrow> None | v # _ \<Rightarrow> Some v);
                  first = (b_blocks acc = 0) in
              if success \<and> \<not> first \<and> etag \<noteq> None \<and> block_etag \<noteq> etag then Some (Inl EtagChanged, s)
              else
                (case add_response acc m of
                   Inl e \<Rightarrow> Some (Inl e, s)
                 | Inr (BLOCK2_COMPLETE, acc) \<Rightarrow> Some (Inr (b_code acc, b_payload acc, b_blocks acc), s)
                 | Inr (_, acc) \<Rightarrow>
                     transfer w fuel tok path q deadline extra acc
                       (if success \<and> first then block_etag else etag) s)"
    have run: "and_then ?x ?rest = Some (r, s')"
      using Suc.prems(1) by (simp only: transfer.simps if_not_P [OF open_acc])
    have pok: "session_ok (pace w s)" by (rule lock_steps_ok [OF steps.pace_rel Suc.prems(2)])
    note out = exchange_block_outcome [OF _ pok Suc.prems(3,4) block2_request [OF Suc.prems(5) open_acc Suc.prems(6)]]
    have go: "lock_steps s s1" "origin net s s1" "\<And>m. q = Inr m \<Longrightarrow> m \<in> read_between net s s1" if "?x = Some (q, s1)" for q s1
    proof -
      have p: "origin net s (pace w s)" by (rule arriving.waits.pace_rel)
      note o = exchange_block_origin [OF that]
      show "lock_steps s s1" by (rule steps_trans [OF steps.pace_rel]) (use out [OF that] in blast)
      show "origin net s s1" using origin_trans [OF p] o by blast
      show "m \<in> read_between net s s1" if "q = Inr m" for m
        using o that p read_between_mono [of s "pace w s" s1 s1 net] by (auto simp: origin_def)
    qed
    from run show ?thesis
    proof (rule and_thenE)
      fix e assume "?x = Some (Inl e, s')" "r = Inl e"
      then show ?thesis using go by simp
    next
      fix m s1 assume m: "?x = Some (Inr m, s1)" and "?rest m s1 = Some (r, s')"
      then have rest: "(if is_success m \<and> b_blocks acc \<noteq> 0 \<and> etag \<noteq> None \<and> response_etag m \<noteq> etag then Some (Inl EtagChanged, s1)
          else case add_response acc m of
                   Inl e \<Rightarrow> Some (Inl e, s1)
                 | Inr (BLOCK2_COMPLETE, acc1) \<Rightarrow> Some (Inr (b_code acc1, b_payload acc1, b_blocks acc1), s1)
                 | Inr (_, acc1) \<Rightarrow>
                     transfer w fuel tok path q deadline extra acc1
                       (if is_success m \<and> b_blocks acc = 0 then response_etag m else etag) s1) = Some (r, s')"
        by (simp only: Let_def is_success_def response_etag_def)
      have s1: "session_ok s1" and tok: "m_token m = tok" using out [OF m] by (auto simp: answers_def)
      note from_net = go(3) [OF m refl]
      note mm = go(1,2) [OF m]
      show ?thesis
      proof (cases "\<exists>st acc1. add_response acc m = Inr (st, acc1)
          \<and> \<not> (is_success m \<and> b_blocks acc \<noteq> 0 \<and> etag \<noteq> None \<and> response_etag m \<noteq> etag)")
        case False
        then have "s' = s1" "\<exists>e. r = Inl e" using rest by (auto split: if_splits sum.splits)
        with mm show ?thesis by auto
      next
        case True
        then obtain st acc1 where a: "add_response acc m = Inr (st, acc1)"
          and keep: "\<not> (is_success m \<and> b_blocks acc \<noteq> 0 \<and> etag \<noteq> None \<and> response_etag m \<noteq> etag)" by blast
        have inv1: "block2_inv acc1" "b_max_payload acc1 \<le> 65536"
          using add_response_inv [OF a Suc.prems(5)] Suc.prems(6) by (auto simp: same_limits_def)
        note b1 = add_response_blocks [OF a]
        show ?thesis
        proof (cases "st = BLOCK2_COMPLETE")
          case True
          then have r: "r = Inr (b_code acc1, b_payload acc1, b_blocks acc1)" "s' = s1"
            using rest keep a by auto
          have "add_responses acc [m] = Inr ([st], acc1)"
            "one_version (if b_blocks acc = 0 then version_of [m] else etag) [m]"
            using a keep by (auto simp: one_version_def)
          with tok b1(2) True r from_net have "\<exists>ms sts acc'. add_responses acc ms = Inr (sts, acc') \<and> (\<forall>m \<in> set ms. m_token m = tok)
              \<and> set ms \<subseteq> read_between net s s' \<and> b_complete acc' \<and> b_code acc1 = b_code acc' \<and> b_payload acc1 = b_payload acc'
              \<and> one_version (if b_blocks acc = 0 then version_of ms else etag) ms"
            by (intro exI [of _ "[m]"] exI [of _ "[st]"] exI [of _ acc1]) simp
          with mm r show ?thesis by simp
        next
          case False
          define etag1 where "etag1 = (if is_success m \<and> b_blocks acc = 0 then response_etag m else etag)"
          have run: "transfer w fuel tok path q deadline extra acc1 etag1 s1 = Some (r, s')"
            using rest keep a False by (cases st) (auto simp: etag1_def)
          have blocks1: "b_blocks acc1 \<noteq> 0"
            using b1(1) duplicate_needs_block [OF _ Suc.prems(5)] a by (cases "st = BLOCK2_DUPLICATE") auto
          have succ: "is_success m"
            using a False by (auto simp: add_response_def result_simps is_success_def split: if_splits)
          note ih = Suc.IH [OF run s1 Suc.prems(3,4) inv1]
          have steps: "lock_steps s s'" "origin net s s'" "origin net s1 s'"
            using steps_trans [OF mm(1)] origin_trans [OF mm(2)] ih by blast+
          have wider: "read_between net s1 s' \<subseteq> read_between net s s'" "read_between net s s1 \<subseteq> read_between net s s'"
            using mm(2) steps(3) read_between_mono [of s s1 s' s' net] read_between_mono [of s s s1 s' net] by (simp_all add: origin_def)
          have "\<exists>ms sts acc'. add_responses acc ms = Inr (sts, acc') \<and> (\<forall>m \<in> set ms. m_token m = tok) \<and> set ms \<subseteq> read_between net s s'
              \<and> b_complete acc' \<and> code = b_code acc' \<and> payload = b_payload acc'
              \<and> one_version (if b_blocks acc = 0 then version_of ms else etag) ms"
            if "r = Inr (code, payload, blocks)" for code payload blocks
          proof -
            from ih that blocks1 obtain ms sts acc' where
              r: "add_responses acc1 ms = Inr (sts, acc')" "\<forall>m \<in> set ms. m_token m = tok" "b_complete acc'"
              "code = b_code acc'" "payload = b_payload acc'" "one_version etag1 ms" "set ms \<subseteq> read_between net s1 s'" by auto
            have "one_version (if b_blocks acc = 0 then version_of (m # ms) else etag) (m # ms)"
              using r(6) succ keep by (auto simp: one_version_def etag1_def)
            then show ?thesis
              using a r tok wider from_net
              by (intro exI [of _ "m # ms"] exI [of _ "st # sts"] exI [of _ acc']) auto
          qed
          with steps show ?thesis by blast
        qed
      qed
    qed
  qed
qed simp

lemma blockwise_get_once_outcome:
  assumes "blockwise_get_once w fuel path q timeout extra s = Some (r, s')"
    and "session_ok s" and "validated_request path q extra"
  shows "session_ok s' \<and> origin net s s' \<and> (\<forall>code payload blocks tok. r = Inr (code, payload, blocks, tok) \<longrightarrow>
    fst (next_tok s) = Inr tok \<and> (\<exists>ms. from_network net s s' tok ms code payload))"
proof -
  obtain t s1 where t: "next_tok s = (t, s1)" by fastforce
  obtain tok' where tok': "t = Inr tok'" "length tok' = 4" "tables s1 = tables s" by (rule next_tok_token [OF t])
  have calls: "s_calls s1 = s_calls s" "s_heap s1 = s_heap s" using t by (auto simp: next_tok_def Let_def)
  have ok: "session_ok (tick s1)" using assms(2) tok'(3) session_ok_tables [of "tick s1" s] by simp
  obtain acc where acc: "block2_new (PyBytes tok') (PyInt (int MAX_BLOCK2_BLOCKS)) (PyInt 65536) PyNone = Inr acc"
    "b_max_payload acc = 65536"
    using tok'(2) by (auto simp: block2_new_def accepted_formats_def max_blocks)
  have new: "b_blocks acc = 0" "block2_inv acc" by (rule block2_new_inv [OF acc(1)])+
  have "and_then (transfer w fuel tok' path q (w_clock w (s_calls s1) + timeout) extra acc None (tick s1))
      (\<lambda>(code, payload, blocks) s. Some (Inr (code, payload, blocks, tok'), s)) = Some (r, s')"
    using assms(1) t tok'(1) acc(1) by (simp add: blockwise_get_once_def)
  then obtain r1 :: "(nat option \<times> bytes \<times> nat) result" where run: "transfer w fuel tok' path q (w_clock w (s_calls s1) + timeout) extra acc None (tick s1) = Some (r1, s')"
    and r: "\<And>code payload blocks tok. r = Inr (code, payload, blocks, tok) \<Longrightarrow> r1 = Inr (code, payload, blocks) \<and> tok = tok'"
    by (auto simp: and_then_Some_iff)
  note out = transfer_outcome [OF run ok assms(3) _ new(2)]
  have steps: "lock_steps (tick s1) s'" "origin net (tick s1) s'" using out acc(2) tok'(2) by simp_all
  have start: "origin net s (tick s1)" by (rule origin_heap) (simp_all add: calls)
  have wider: "read_between net (tick s1) s' \<subseteq> read_between net s s'"
    by (rule read_between_mono) (simp_all add: calls)
  have "fst (next_tok s) = Inr tok \<and> (\<exists>ms. from_network net s s' tok ms code payload)"
    if "r = Inr (code, payload, blocks, tok)" for code payload blocks tok
  proof -
    have "\<exists>ms sts acc'. add_responses acc ms = Inr (sts, acc') \<and> (\<forall>m \<in> set ms. m_token m = tok')
      \<and> set ms \<subseteq> read_between net (tick s1) s' \<and> b_complete acc' \<and> code = b_code acc' \<and> payload = b_payload acc'
      \<and> one_version (version_of ms) ms"
      using out acc(2) tok'(2) r [OF that] new(1) by simp
    then show ?thesis
      using acc(1) wider r [OF that] t tok'(1) unfolding from_network_def assembled_from_def by fastforce
  qed
  with lock_steps_ok [OF steps(1) ok] origin_trans [OF start steps(2)] show ?thesis by blast
qed

lemma from_network_mono:
  assumes "from_network net s1 s' tok ms code payload" and "s_calls s \<le> s_calls s1"
  shows "from_network net s s' tok ms code payload"
  using assms read_between_mono [OF assms(2), of s' s'] by (auto simp: from_network_def)

lemma blockwise_get_outcome:
  assumes "blockwise_get w fuel path q timeout extra s = Some (Inr (code, payload, blocks, tok), s')"
    and "session_ok s" and "validated_request path q extra"
  shows "(\<exists>ms. from_network net s s' tok ms code payload) \<and> (token_kept w \<longrightarrow> tok \<in> own_tokens s)"
proof -
  note once = blockwise_get_once_outcome [OF _ _ assms(3)]
  obtain r1 s1 where one: "blockwise_get_once w fuel path q timeout extra s = Some (r1, s1)"
    using assms(1) by (auto simp: blockwise_get_def split: option.splits)
  show ?thesis
  proof (cases "r1 = Inl EtagChanged")
    case True
    then have two: "blockwise_get_once w fuel path q timeout extra s1 = Some (Inr (code, payload, blocks, tok), s')"
      using assms(1) one by (auto simp: blockwise_get_def split: option.splits prod.splits sum.splits exc.splits)
    have s1: "session_ok s1" "s_calls s \<le> s_calls s1" using once [OF one assms(2)] by (auto simp: origin_def)
    have "tok \<in> own_tokens s" if "token_kept w"
    proof -
      have "s_tok s1 = s_tok (snd (next_tok s))" by (rule token_kept.blockwise_get_once_tok [OF that one])
      with once [OF two s1(1)] show ?thesis by (simp add: own_tokens_def next_tok_def Let_def)
    qed
    with once [OF two s1(1)] from_network_mono [OF _ s1(2)] show ?thesis by blast
  next
    case False
    then have "r1 = Inr (code, payload, blocks, tok)" "s1 = s'"
      using assms(1) one by (auto simp: blockwise_get_def split: option.splits prod.splits sum.splits exc.splits)
    with once [OF one assms(2)] show ?thesis by (simp add: own_tokens_def)
  qed
qed

lemma session_get_outcome:
  assumes "session_get w fuel path_segs query timeout extra_options s = Some (Inr (code, payload), s')"
    and "session_ok s"
  shows "\<exists>tok ms. from_network net s s' tok ms code payload \<and> (token_kept w \<longrightarrow> tok \<in> own_tokens s)"
proof -
  obtain path q extra blocks tok where
    "validated_text_options path_segs False = Inr path" "validated_text_options query False = Inr q"
    "validated_extra_options extra_options = Inr extra"
    "blockwise_get w fuel path q timeout extra s = Some (Inr (code, payload, blocks, tok), s')"
    using assms(1) by (auto simp: session_get_def and_then_Some_iff)
  then show ?thesis using blockwise_get_outcome [OF _ assms(2)] unfolding validated_request_def by blast
qed

end

lemma assembled_bounds:
  assumes "assembled_from tok ms code payload"
  shows "length payload \<le> 65536"
proof -
  obtain acc sts acc' where a: "block2_new (PyBytes tok) (PyInt (int MAX_BLOCK2_BLOCKS)) (PyInt 65536) PyNone = Inr acc"
    "add_responses acc ms = Inr (sts, acc')" "payload = b_payload acc'" using assms by (auto simp: assembled_from_def)
  have "b_max_payload acc = 65536" using a(1) by (auto simp: block2_new_def result_simps accepted_formats_def split: if_splits)
  with add_responses_inv [OF a(2) block2_new_inv(1) [OF a(1)]] a(3) show ?thesis
    by (simp add: block2_inv_def same_limits_def)
qed

section \<open>Properties\<close>

text \<open>C4.
  A GET returns one version of the resource, complete, and all of it from the network. While other
  threads run any locked sections, of which those that answer a request do so with a datagram the reader
  has just read, the code and payload \<open>get()\<close> returns are those a fresh accumulator ends with when
  fed responses that were all read while the call ran and all carry one token, which is one of the
  two the call draws when no other thread draws tokens; the payload has at most 65536 bytes, and if the first
  block names an ETag every other one has the same.
\<close>

theorem get_returns_one_version:
  assumes "reads net w" and "session_ok s"
    and "session_get w fuel path_segs query timeout extra_options s = Some (Inr (code, payload), s')"
  shows "length payload \<le> 65536 \<and> (\<exists>tok ms. assembled_from tok ms code payload
    \<and> set ms \<subseteq> read_between net s s' \<and> (\<forall>m \<in> set ms. m_token m = tok) \<and> one_version (version_of ms) ms
    \<and> ((\<forall>n s. s_tok (w_threads w n s) = s_tok s) \<longrightarrow> tok \<in> own_tokens s))"
proof -
  have w: "receiving w net" by unfold_locales (rule assms(1))
  have "token_kept w" if "\<forall>n s. s_tok (w_threads w n s) = s_tok s" by unfold_locales (simp add: that)
  with receiving.session_get_outcome [OF w assms(3,2)] assembled_bounds show ?thesis
    unfolding from_network_def by blast
qed

theorem get_returns_one_version_witness:
  "\<exists>s' tok ms. session_get (answered_world 9 [0x54, 0x45, 0, 9, 0, 0, 0, 1, 0xFF, 7]) 12
       (PyTuple [PyStr (str_of ''a'')]) (PyTuple []) 20 (PyTuple []) demo_session = Some (Inr (Some 0x45, [7]), s')
     \<and> assembled_from tok ms (Some 0x45) [7] \<and> (\<forall>m \<in> set ms. m_token m = tok)
     \<and> set ms \<subseteq> read_between (\<lambda>n. if n = 9 then Packets [[0x54, 0x45, 0, 9, 0, 0, 0, 1, 0xFF, 7]] False else Nothing_read) demo_session s'"
proof -
  let ?net = "\<lambda>n::nat. if n = 9 then Packets [[0x54, 0x45, 0, 9, 0, 0, 0, 1, 0xFF, 7]] False else Nothing_read"
  let ?w = "answered_world 9 [0x54, 0x45, 0, 9, 0, 0, 0, 1, 0xFF, 7]"
  let ?r = "session_get ?w 12 (PyTuple [PyStr (str_of ''a'')]) (PyTuple []) 20 (PyTuple []) demo_session"
  have "map_option fst ?r = Some (Inr (Some 0x45, [7]))" by code_simp
  then obtain s' where run: "?r = Some (Inr (Some 0x45, [7]), s')" by (cases ?r) auto
  have "reads ?net ?w" unfolding answered_world_def by (rule reader_reads)
  from get_returns_one_version [OF this demo_ok run] run show ?thesis by blast
qed

end
