(* ===== verification/Request_Progress.thy ===== *)
theory Request_Progress
  imports Request_Outcome
begin

text \<open>
  Every request returns. The loops of \<open>Session_Requests\<close> take fuel; more fuel never changes a
  result, and if the clocks go past every deadline there is enough fuel for each of them. What a
  request returns is therefore a fact of the code, whatever the fuel.
\<close>

section \<open>More fuel never changes a result\<close>

definition fuel_le :: "'a option \<Rightarrow> 'a option \<Rightarrow> bool" where
  "fuel_le m m' \<longleftrightarrow> m = None \<or> m' = m"

lemma fuel_le_refl [simp]: "fuel_le m m" "fuel_le None m"
  by (simp_all add: fuel_le_def)

lemma and_then_mono:
  assumes "fuel_le m m'" and "\<And>x s. fuel_le (f x s) (f' x s)"
  shows "fuel_le (and_then m f) (and_then m' f')"
  using assms by (auto simp: fuel_le_def and_then_def split: option.splits sum.splits prod.splits)

lemma finally_mono: "fuel_le m m' \<Longrightarrow> fuel_le (finally_do m g) (finally_do m' g)"
  by (auto simp: fuel_le_def finally_do_def)

lemma if_mono: "(b \<Longrightarrow> fuel_le m m') \<Longrightarrow> (\<not> b \<Longrightarrow> fuel_le n n') \<Longrightarrow> fuel_le (if b then m else n) (if b then m' else n')"
  by simp

lemma case_sum_mono:
  "(\<And>e. r = Inl e \<Longrightarrow> fuel_le (f e) (f' e)) \<Longrightarrow> (\<And>x. r = Inr x \<Longrightarrow> fuel_le (g x) (g' x)) \<Longrightarrow>
   fuel_le (case r of Inl e \<Rightarrow> f e | Inr x \<Rightarrow> g x) (case r of Inl e \<Rightarrow> f' e | Inr x \<Rightarrow> g' x)"
  by (simp split: sum.split)

lemma case_option_mono:
  "(r = None \<Longrightarrow> fuel_le m m') \<Longrightarrow> (\<And>x. r = Some x \<Longrightarrow> fuel_le (g x) (g' x)) \<Longrightarrow>
   fuel_le (case r of None \<Rightarrow> m | Some x \<Rightarrow> g x) (case r of None \<Rightarrow> m' | Some x \<Rightarrow> g' x)"
  by (simp split: option.split)

lemma case_pair_mono:
  "(\<And>x y. fuel_le (f x y) (f' x y)) \<Longrightarrow> fuel_le (case r of (x, y) \<Rightarrow> f x y) (case r of (x, y) \<Rightarrow> f' x y)"
  by (simp split: prod.split)

lemma case_prod_mono:
  "(\<And>x y. fuel_le (f x y s) (f' x y s)) \<Longrightarrow>
   fuel_le ((case r of (x, y) \<Rightarrow> f x y) s) ((case r of (x, y) \<Rightarrow> f' x y) s)"
  by (simp split: prod.split)

lemmas fuel_mono = fuel_le_refl and_then_mono finally_mono if_mono case_sum_mono case_option_mono case_pair_mono case_prod_mono

lemma wait_loop_mono: "fuel \<le> fuel' \<Longrightarrow> fuel_le (wait_loop w fuel x d s) (wait_loop w fuel' x d s)"
proof (induction fuel arbitrary: s fuel')
  case (Suc fuel)
  then obtain f where f: "fuel' = Suc f" "fuel \<le> f" by (cases fuel') auto
  show ?case unfolding f(1) wait_loop.simps Let_def by (intro fuel_mono Suc.IH [OF f(2)])
qed simp

lemma wait_live_mono: "fuel \<le> fuel' \<Longrightarrow> fuel_le (wait_live w fuel x d s) (wait_live w fuel' x d s)"
  by (simp add: wait_live_def wait_loop_mono)

lemma block_wait_mono:
  "fuel \<le> fuel' \<Longrightarrow> fuel_le (block_wait w fuel x num szx d s) (block_wait w fuel' x num szx d s)"
proof (induction fuel arbitrary: s fuel')
  case (Suc fuel)
  then obtain f where f: "fuel' = Suc f" "fuel \<le> f" by (cases fuel') auto
  show ?case unfolding f(1) block_wait.simps Let_def
    by (intro fuel_mono wait_live_mono [OF f(2)] Suc.IH [OF f(2)])
qed simp

lemma post_wait_mono:
  "fuel \<le> fuel' \<Longrightarrow> fuel_le (post_wait w fuel x attempt l d s) (post_wait w fuel' x attempt l d s)"
proof (induction fuel arbitrary: s fuel')
  case (Suc fuel)
  then obtain f where f: "fuel' = Suc f" "fuel \<le> f" by (cases fuel') auto
  show ?case unfolding f(1) post_wait.simps Let_def
    by (intro fuel_mono wait_live_mono [OF f(2)] Suc.IH [OF f(2)])
qed simp

lemma delete_wait_mono: "fuel \<le> fuel' \<Longrightarrow> fuel_le (delete_wait w fuel x d s) (delete_wait w fuel' x d s)"
proof (induction fuel arbitrary: s fuel')
  case (Suc fuel)
  then obtain f where f: "fuel' = Suc f" "fuel \<le> f" by (cases fuel') auto
  show ?case unfolding f(1) delete_wait.simps Let_def
    by (intro fuel_mono wait_live_mono [OF f(2)] Suc.IH [OF f(2)])
qed simp

lemma block1_wait_mono: "fuel \<le> fuel' \<Longrightarrow> fuel_le (block1_wait w fuel x l d s) (block1_wait w fuel' x l d s)"
proof (induction fuel arbitrary: s fuel')
  case (Suc fuel)
  then obtain f where f: "fuel' = Suc f" "fuel \<le> f" by (cases fuel') auto
  show ?case unfolding f(1) block1_wait.simps Let_def
    by (intro fuel_mono wait_live_mono [OF f(2)] Suc.IH [OF f(2)])
qed simp

lemma attempts_mono:
  assumes "fuel \<le> fuel'"
  shows "fuel_le (block_attempts w fuel left x dg num szx d s) (block_attempts w fuel' left x dg num szx d s)"
    and "fuel_le (post_attempts w fuel left attempt x dg d s) (post_attempts w fuel' left attempt x dg d s)"
    and "fuel_le (block1_attempts w fuel left attempt x dg d s) (block1_attempts w fuel' left attempt x dg d s)"
    and "fuel_le (delete_frame w fuel x dg d s) (delete_frame w fuel' x dg d s)"
proof -
  show "fuel_le (block_attempts w fuel left x dg num szx d s) (block_attempts w fuel' left x dg num szx d s)"
    by (induction left arbitrary: s; unfold block_attempts.simps Let_def; intro fuel_mono block_wait_mono assms)
  show "fuel_le (post_attempts w fuel left attempt x dg d s) (post_attempts w fuel' left attempt x dg d s)"
    by (induction left arbitrary: s attempt; unfold post_attempts.simps Let_def; intro fuel_mono post_wait_mono assms)
  show "fuel_le (block1_attempts w fuel left attempt x dg d s) (block1_attempts w fuel' left attempt x dg d s)"
    by (induction left arbitrary: s attempt; unfold block1_attempts.simps Let_def; intro fuel_mono block1_wait_mono assms)
  show "fuel_le (delete_frame w fuel x dg d s) (delete_frame w fuel' x dg d s)"
    unfolding delete_frame_def by (intro and_then_mono fuel_le_refl delete_wait_mono assms)
qed

lemma exchange_block_mono:
  "fuel \<le> fuel' \<Longrightarrow> fuel_le (exchange_block w fuel tok path q num szx d extra s)
     (exchange_block w fuel' tok path q num szx d extra s)"
  unfolding exchange_block_def by (intro fuel_mono attempts_mono(1))

lemma exchange_block1_mono:
  "fuel \<le> fuel' \<Longrightarrow> fuel_le (exchange_block1 w fuel tok opts pl st en further d s)
     (exchange_block1 w fuel' tok opts pl st en further d s)"
  unfolding exchange_block1_def by (intro fuel_mono attempts_mono(3))

lemma transfer_mono:
  "fuel \<le> fuel' \<Longrightarrow> fuel_le (transfer w fuel tok path q d extra acc etag s) (transfer w fuel' tok path q d extra acc etag s)"
proof (induction fuel arbitrary: acc etag s fuel')
  case (Suc fuel)
  then obtain f where f: "fuel' = Suc f" "fuel \<le> f" by (cases fuel') auto
  have st: "(st = BLOCK2_COMPLETE \<Longrightarrow> fuel_le a a') \<Longrightarrow> (st \<noteq> BLOCK2_COMPLETE \<Longrightarrow> fuel_le b b') \<Longrightarrow>
      fuel_le (case st of BLOCK2_COMPLETE \<Rightarrow> a | _ \<Rightarrow> b) (case st of BLOCK2_COMPLETE \<Rightarrow> a' | _ \<Rightarrow> b')"
    for st and a a' b b' :: "(nat option \<times> bytes \<times> nat) waiting"
    by (cases st) simp_all
  show ?case unfolding f(1) transfer.simps Let_def
    by (intro fuel_mono exchange_block_mono [OF f(2)])
      (auto split: sum.split block2_status.split intro: Suc.IH [OF f(2)])
qed simp

lemma upload_mono:
  "fuel \<le> fuel' \<Longrightarrow> fuel_le (upload w fuel tok body base extra d off szx n s) (upload w fuel' tok body base extra d off szx n s)"
proof (induction fuel arbitrary: off szx n s fuel')
  case (Suc fuel)
  then obtain f where f: "fuel' = Suc f" "fuel \<le> f" by (cases fuel') auto
  show ?case unfolding f(1) upload.simps Let_def
    by (intro fuel_mono exchange_block1_mono [OF f(2)])
      (auto split: chunk_outcome.split intro: Suc.IH [OF f(2)])
qed simp

lemma blockwise_get_once_mono:
  "fuel \<le> fuel' \<Longrightarrow> fuel_le (blockwise_get_once w fuel path q t extra s) (blockwise_get_once w fuel' path q t extra s)"
  unfolding blockwise_get_once_def by (intro fuel_mono transfer_mono)

lemma blockwise_get_mono:
  assumes "fuel \<le> fuel'"
  shows "fuel_le (blockwise_get w fuel path q t extra s) (blockwise_get w fuel' path q t extra s)"
proof (cases "blockwise_get_once w fuel path q t extra s")
  case (Some a)
  then have a: "blockwise_get_once w fuel' path q t extra s = Some a"
    using blockwise_get_once_mono [OF assms, of w path q t extra s] by (simp add: fuel_le_def)
  obtain r s1 where rs: "a = (r, s1)" by fastforce
  show ?thesis
  proof (cases "r = Inl EtagChanged")
    case True
    with Some a rs blockwise_get_once_mono [OF assms, of w path q t extra s1] show ?thesis
      by (auto simp: blockwise_get_def fuel_le_def)
  next
    case False
    with Some a rs show ?thesis by (auto simp: blockwise_get_def split: sum.split exc.split)
  qed
qed (simp add: blockwise_get_def)

lemma requests_mono:
  assumes "fuel \<le> fuel'"
  shows "fuel_le (session_get w fuel path q t extra s) (session_get w fuel' path q t extra s)"
    and "fuel_le (session_post w fuel path body t q extra s) (session_post w fuel' path body t q extra s)"
    and "fuel_le (session_delete w fuel path t q extra s) (session_delete w fuel' path t q extra s)"
proof -
  show "fuel_le (session_get w fuel path q t extra s) (session_get w fuel' path q t extra s)"
    unfolding session_get_def by (intro fuel_mono blockwise_get_mono assms)
  have frame: "fuel_le (post_frame w fuel opts body t s) (post_frame w fuel' opts body t s)"
    "fuel_le (post_blockwise w fuel bodyb base ex t s) (post_blockwise w fuel' bodyb base ex t s)" for opts body t s bodyb base ex
    unfolding post_frame_def registered_exchange_def post_blockwise_def
    by (intro fuel_mono attempts_mono upload_mono assms)+
  show "fuel_le (session_post w fuel path body t q extra s) (session_post w fuel' path body t q extra s)"
    unfolding session_post_def Let_def
    by (cases body; intro fuel_mono; simp; intro fuel_mono frame impI conjI)
  show "fuel_le (session_delete w fuel path t q extra s) (session_delete w fuel' path t q extra s)"
    unfolding session_delete_def registered_exchange_def by (intro fuel_mono attempts_mono assms)
qed

section \<open>There is enough fuel\<close>

definition returns :: "'a option \<Rightarrow> bool" where
  "returns m \<longleftrightarrow> m \<noteq> None"

lemma returns_Some [simp]: "returns (Some y)"
  by (simp add: returns_def)

lemma returns_and_then:
  "returns m \<Longrightarrow> (\<And>x s. m = Some (Inr x, s) \<Longrightarrow> returns (f x s)) \<Longrightarrow> returns (and_then m f)"
  by (auto simp: returns_def and_then_def split: option.splits sum.splits prod.splits)

lemma returns_finally: "returns m \<Longrightarrow> returns (finally_do m g)"
  by (auto simp: returns_def finally_do_def)

lemma returns_if: "(b \<Longrightarrow> returns m) \<Longrightarrow> (\<not> b \<Longrightarrow> returns n) \<Longrightarrow> returns (if b then m else n)"
  by simp

lemma returns_sum:
  "(\<And>e. r = Inl e \<Longrightarrow> returns (f e)) \<Longrightarrow> (\<And>x. r = Inr x \<Longrightarrow> returns (g x)) \<Longrightarrow>
   returns (case r of Inl e \<Rightarrow> f e | Inr x \<Rightarrow> g x)"
  by (simp split: sum.split)

lemma returns_option:
  "(r = None \<Longrightarrow> returns m) \<Longrightarrow> (\<And>x. r = Some x \<Longrightarrow> returns (g x)) \<Longrightarrow>
   returns (case r of None \<Rightarrow> m | Some x \<Rightarrow> g x)"
  by (simp split: option.split)

lemma returns_pair: "(\<And>x y. r = (x, y) \<Longrightarrow> returns (f x y)) \<Longrightarrow> returns (case r of (x, y) \<Rightarrow> f x y)"
  by (simp split: prod.split)

lemma returns_prod: "(\<And>x y. r = (x, y) \<Longrightarrow> returns (f x y s)) \<Longrightarrow> returns ((case r of (x, y) \<Rightarrow> f x y) s)"
  by (simp split: prod.split)

lemmas returns_intros = returns_Some returns_and_then returns_finally returns_if returns_sum returns_option
  returns_pair returns_prod

text \<open>
  The interface of time: both clocks go past every deadline, and the others never turn back the
  count of readings.
\<close>

locale progressing =
  fixes w :: world
  assumes clock: "\<exists>N. \<forall>n \<ge> N. T \<le> w_clock w n" and wall: "\<exists>N. \<forall>n \<ge> N. T \<le> w_wall w n"
    and calls: "s_calls s \<le> s_calls (w_threads w n s)"
begin

lemma interlude_calls: "s_calls s < s_calls (interlude w s)"
  using calls [of "tick s" "s_calls s"] by (simp add: interlude_def)

end

sublocale progressing \<subseteq> counted: requesting w "\<lambda>n s s'. s_calls s \<le> s_calls s'"
proof unfold_locales
  show "s_calls s \<le> s_calls (interlude w s)" for s using interlude_calls [of s] by simp
  show "s_calls s \<le> s_calls s'" if "send_dgram w False d s = (r, s')" for d s r s'
    using send_calls [of w s False d] interlude_calls [of s] that by simp
  show "s_calls s \<le> s_calls s'" if "register_pending tok b s = (r, s')" for tok b s r s'
    using that by (auto simp: register_pending_def next_mid_def probe_mid_run Let_def split: if_splits sum.splits option.splits)
  show "s_calls s \<le> s_calls s'" if "next_tok s = (r, s')" for s r s'
    using that by (auto simp: next_tok_def Let_def)
qed auto

context progressing begin

lemma wait_loop_returns:
  assumes "\<forall>n \<ge> N. d \<le> w_clock w n"
  shows "N - s_calls s < fuel \<Longrightarrow> returns (wait_loop w fuel x d s)"
proof (induction fuel arbitrary: s)
  case (Suc fuel)
  have "returns (wait_loop w fuel x d (interlude w (tick s)))" if "\<not> min (1 / 4) (d - w_clock w (s_calls s)) \<le> 0"
  proof (rule Suc.IH)
    have "s_calls s < N" using assms that by (force simp: min_def not_le [symmetric])
    then show "N - s_calls (interlude w (tick s)) < fuel" using Suc.prems interlude_calls [of "tick s"] by simp
  qed
  then show ?case unfolding wait_loop.simps Let_def by (intro returns_intros)
qed simp

lemma wait_live_returns:
  assumes "\<forall>j \<le> K. \<bar>w_clock w j\<bar> \<le> C" and "\<forall>n \<ge> N. C + P \<le> w_clock w n"
    and "s_calls s \<le> K" and "per \<le> P" and "N < fuel"
  shows "returns (wait_live w fuel x per s)"
proof -
  have "w_clock w (s_calls s) \<le> C" using assms(1,3) abs_le_D1 by blast
  then have "\<forall>n \<ge> N. w_clock w (s_calls s) + per \<le> w_clock w n" using assms(2,4) by fastforce
  from wait_loop_returns [OF this] assms(5) show ?thesis by (simp add: wait_live_def)
qed

text \<open>
  For a deadline on either clock: a count after which it has passed, a bound on the readings up to
  there, and a count after which every wait started before has ended.
\<close>

lemma deadline_counts:
  fixes d :: real
  obtains K N C where "\<forall>n \<ge> K. d \<le> w_clock w n" "\<forall>n \<ge> K. d \<le> w_wall w n"
    "\<forall>j \<le> K. \<bar>w_clock w j\<bar> \<le> C \<and> \<bar>w_wall w j\<bar> \<le> C" "\<forall>n \<ge> N. C + (\<bar>d\<bar> + C + 4) \<le> w_clock w n" "0 \<le> C"
proof -
  obtain K1 K2 where k: "\<forall>n \<ge> K1. d \<le> w_clock w n" "\<forall>n \<ge> K2. d \<le> w_wall w n" using clock wall by metis
  let ?K = "max K1 K2" and ?m = "\<lambda>j. max \<bar>w_clock w j\<bar> \<bar>w_wall w j\<bar>"
  define C where "C = Max (?m ` {..?K})"
  have "?m j \<le> C" if "j \<le> ?K" for j unfolding C_def by (rule Max_ge) (use that in auto)
  then have "\<forall>j \<le> ?K. ?m j \<le> C" by blast
  moreover obtain N where "\<forall>n \<ge> N. C + (\<bar>d\<bar> + C + 4) \<le> w_clock w n" using clock by metis
  moreover have "0 \<le> ?m 0" by simp
  ultimately show thesis using k by (intro that [of ?K C N]) (auto intro: order_trans)
qed

text \<open>
  One turn of a wait whose deadline has not passed: it waits for no longer than what is left, or
  four seconds, and then goes on or stops.
\<close>

lemma turn_returns:
  assumes "\<forall>j \<le> K. \<bar>w_clock w j\<bar> \<le> C \<and> \<bar>w_wall w j\<bar> \<le> C" and "\<forall>n \<ge> N. C + (\<bar>d\<bar> + C + 4) \<le> w_clock w n"
    and "per \<le> \<bar>d\<bar> + C + 4" and "s_calls s < K" and "s_calls s1 = Suc (s_calls s)" and "K - s_calls s + N < Suc fuel"
    and "\<And>s2. K - s_calls s2 + N < fuel \<Longrightarrow> returns (f s2)" and "\<And>s2. returns (g s2)"
  shows "returns (and_then (wait_live w fuel x per s1) (\<lambda>moved s2. if moved then f s2 else g s2))"
proof (intro returns_and_then returns_if assms(8) assms(7))
  show "returns (wait_live w fuel x per s1)"
    by (rule wait_live_returns [of K C N "\<bar>d\<bar> + C + 4"]) (use assms in auto)
  show "K - s_calls s2 + N < fuel" if "wait_live w fuel x per s1 = Some (Inr b, s2)" for b s2
    using counted.waits.wait_live_rel [OF that] assms(4-6) by simp
qed

lemma block_wait_returns: "\<exists>F. \<forall>fuel \<ge> F. \<forall>x num szx s. returns (block_wait w fuel x num szx d s)"
proof -
  obtain K N C where k: "\<forall>n \<ge> K. d \<le> w_clock w n"
    and c: "\<forall>j \<le> K. \<bar>w_clock w j\<bar> \<le> C \<and> \<bar>w_wall w j\<bar> \<le> C"
    and n: "\<forall>n \<ge> N. C + (\<bar>d\<bar> + C + 4) \<le> w_clock w n" "0 \<le> C" by (rule deadline_counts)
  have "returns (block_wait w fuel x num szx d s)" if "K - s_calls s + N < fuel" for fuel x num szx s
    using that
  proof (induction fuel arbitrary: s)
    case (Suc fuel)
    have lt: "s_calls s < K" if "\<not> d - w_clock w (s_calls (rearm b x s)) \<le> 0" for b
      using k that by (force simp: not_le [symmetric])
    have C: "\<bar>w_clock w (s_calls s)\<bar> \<le> C" if "\<not> d - w_clock w (s_calls (rearm b x s)) \<le> 0" for b
      using c lt [OF that] by simp
    show ?case unfolding block_wait.simps Let_def
      by (intro returns_intros turn_returns [OF c n(1) _ lt _ Suc.prems Suc.IH])
        (use C n(2) in \<open>auto simp: min_def max_def\<close>)
  qed simp
  then show ?thesis by (intro exI [of _ "K + N + 1"]) fastforce
qed

lemma write_waits_return:
  "\<exists>F. \<forall>fuel \<ge> F. \<forall>x attempt l s. returns (post_wait w fuel x attempt l d s) \<and> returns (delete_wait w fuel x d s)
     \<and> returns (block1_wait w fuel x l d s)"
proof -
  obtain K N C where k: "\<forall>n \<ge> K. d \<le> w_clock w n" "\<forall>n \<ge> K. d \<le> w_wall w n"
    and c: "\<forall>j \<le> K. \<bar>w_clock w j\<bar> \<le> C \<and> \<bar>w_wall w j\<bar> \<le> C"
    and n: "\<forall>n \<ge> N. C + (\<bar>d\<bar> + C + 4) \<le> w_clock w n" "0 \<le> C" by (rule deadline_counts)
  have lt: "s_calls s < K" if "\<not> d - w_wall w (s_calls (if b then rearm b' x s else s)) \<le> 0" for b b' x s
    using k(2) that by (force simp: not_le [symmetric] split: if_splits)
  have lt1: "s_calls s < K" if "\<not> d - w_clock w (s_calls (if b then rearm b' x s else s)) \<le> 0" for b b' x s
    using k(1) that by (force simp: not_le [symmetric] split: if_splits)
  have C: "\<bar>w_wall w (s_calls s)\<bar> \<le> C" if "\<not> d - w_wall w (s_calls (if b then rearm b' x s else s)) \<le> 0" for b b' x s
    using c lt [OF that] by simp
  have C1: "\<bar>w_clock w (s_calls s)\<bar> \<le> C" if "\<not> d - w_clock w (s_calls (if b then rearm b' x s else s)) \<le> 0" for b b' x s
    using c lt1 [OF that] by simp
  have post: "returns (post_wait w fuel x attempt l d s)" if "K - s_calls s + N < fuel" for fuel x attempt l s
    using that
  proof (induction fuel arbitrary: s)
    case (Suc fuel)
    show ?case unfolding post_wait.simps Let_def
      by (intro returns_intros turn_returns [OF c n(1) _ lt _ Suc.prems Suc.IH])
        (use C [of "x_err (get_exchange x s) = None \<and> x_msg (get_exchange x s) = None" False x s] n(2) in \<open>auto simp: min_def split: if_splits\<close>)
  qed simp
  have delete: "returns (delete_wait w fuel x d s)" if "K - s_calls s + N < fuel" for fuel x s
    using that
  proof (induction fuel arbitrary: s)
    case (Suc fuel)
    show ?case unfolding delete_wait.simps Let_def
      by (intro returns_intros turn_returns [OF c n(1) _ lt _ Suc.prems Suc.IH])
        (use C [of "x_err (get_exchange x s) = None \<and> x_msg (get_exchange x s) = None" False x s] n(2) in \<open>auto split: if_splits\<close>)
  qed simp
  have block1: "returns (block1_wait w fuel x l d s)" if "K - s_calls s + N < fuel" for fuel x l s
    using that
  proof (induction fuel arbitrary: s)
    case (Suc fuel)
    show ?case unfolding block1_wait.simps Let_def
      by (intro returns_intros turn_returns [OF c n(1) _ lt1 _ Suc.prems Suc.IH])
        (use C1 [of "x_err (get_exchange x s) = None \<and> x_msg (get_exchange x s) = None" False x s] n(2) in \<open>auto simp: min_def split: if_splits\<close>)
  qed simp
  show ?thesis using post delete block1 by (intro exI [of _ "K + N + 1"]) fastforce
qed

lemma attempts_return:
  "\<exists>F. \<forall>fuel \<ge> F. \<forall>left attempt x dg num szx s. returns (block_attempts w fuel left x dg num szx d s)
     \<and> returns (post_attempts w fuel left attempt x dg d s) \<and> returns (block1_attempts w fuel left attempt x dg d s)
     \<and> returns (delete_frame w fuel x dg d s)"
proof -
  obtain F1 F2 where b: "\<forall>fuel \<ge> F1. \<forall>x num szx s. returns (block_wait w fuel x num szx d s)"
    and p: "\<forall>fuel \<ge> F2. \<forall>x attempt l s. returns (post_wait w fuel x attempt l d s) \<and> returns (delete_wait w fuel x d s)
     \<and> returns (block1_wait w fuel x l d s)"
    using block_wait_returns write_waits_return by meson
  have tr: "returns (transmit w attempt acked dg s)" for attempt acked dg s
    by (simp add: transmit_def split: prod.split sum.split)
  have "returns (block_attempts w fuel left x dg num szx d s)" if "fuel \<ge> F1" for fuel left x dg num szx s
    by (induction left arbitrary: s; unfold block_attempts.simps Let_def; intro returns_intros) (use b that in auto)
  moreover have "returns (post_attempts w fuel left attempt x dg d s)" if "fuel \<ge> F2" for fuel left attempt x dg s
    by (induction left arbitrary: s attempt; unfold post_attempts.simps Let_def; intro returns_intros tr) (use p that in auto)
  moreover have "returns (block1_attempts w fuel left attempt x dg d s)" if "fuel \<ge> F2" for fuel left attempt x dg s
    by (induction left arbitrary: s attempt; unfold block1_attempts.simps Let_def; intro returns_intros tr) (use p that in auto)
  moreover have "returns (delete_frame w fuel x dg d s)" if "fuel \<ge> F2" for fuel x dg s
    unfolding delete_frame_def by (intro returns_intros) (use p that in auto)
  ultimately show ?thesis by (intro exI [of _ "max F1 F2"]) simp
qed

lemma exchange_block_live:
  assumes "exchange_block w fuel tok path q num szx d extra (pace w s) = Some (Inr m, s')"
    and "\<forall>n \<ge> K. d \<le> w_clock w n"
  shows "s_calls s < K" and "s_calls s < s_calls s'"
proof -
  have p: "s_calls s < s_calls (pace w s)"
    using interlude_calls [of "tick s"] by (simp add: pace_def Let_def)
  with counted.exchange_block_rel [OF assms(1)] show "s_calls s < s_calls s'" by simp
  obtain mid x s1 dg s2 where r: "register_pending tok None (pace w s) = (Inr (mid, x), s1)"
    "block_attempts w fuel 3 x dg num szx d s1 = Some (Inr m, s2)"
    using assms(1) by (auto simp: exchange_block_def and_then_Some_iff finally_Some_iff)
  have "w_clock w (s_calls s1) < d"
    using r(2) by (auto simp: numeral_3_eq_3 and_then_Some_iff not_le split: sum.splits if_splits)
  then have "s_calls s1 < K" using assms(2) by (meson not_le)
  with p counted.G_register [OF r(1)] show "s_calls s < K" by simp
qed

lemma transfer_returns: "\<exists>F. \<forall>fuel \<ge> F. \<forall>s acc etag. returns (transfer w fuel tok path q d extra acc etag s)"
proof -
  obtain F where f: "\<forall>fuel \<ge> F. \<forall>left attempt x dg num szx s. returns (block_attempts w fuel left x dg num szx d s)
     \<and> returns (post_attempts w fuel left attempt x dg d s) \<and> returns (block1_attempts w fuel left attempt x dg d s)
     \<and> returns (delete_frame w fuel x dg d s)" using attempts_return by meson
  obtain K where k: "\<forall>n \<ge> K. d \<le> w_clock w n" using clock by metis
  have "returns (transfer w fuel tok path q d extra acc etag s)" if "K - s_calls s + F < fuel" for fuel s acc etag
    using that
  proof (induction fuel arbitrary: s acc etag)
    case (Suc fuel)
    have ex: "returns (exchange_block w fuel tok path q num szx d extra s)" for num szx s
      unfolding exchange_block_def by (intro returns_intros) (use f Suc.prems in auto)
    have "returns (transfer w fuel tok path q d extra acc' etag' s2)"
      if "exchange_block w fuel tok path q num szx d extra (pace w s) = Some (Inr m, s2)" for num szx m s2 acc' etag'
      by (rule Suc.IH) (use exchange_block_live [OF that k] Suc.prems in simp)
    then show ?case unfolding transfer.simps Let_def
      by (intro returns_intros ex) (auto split: sum.split block2_status.split)
  qed simp
  then show ?thesis by (intro exI [of _ "K + F + 1"]) fastforce
qed

lemma upload_returns: "\<exists>F. \<forall>fuel \<ge> F. \<forall>off szx n s. returns (upload w fuel tok body base extra d off szx n s)"
proof -
  obtain F where f: "\<forall>fuel \<ge> F. \<forall>left attempt x dg num szx s. returns (block_attempts w fuel left x dg num szx d s)
     \<and> returns (post_attempts w fuel left attempt x dg d s) \<and> returns (block1_attempts w fuel left attempt x dg d s)
     \<and> returns (delete_frame w fuel x dg d s)" using attempts_return by meson
  have "returns (upload w fuel tok body base extra d off szx n s)" if "1024 - n + F < fuel" for fuel off szx n s
    using that
  proof (induction fuel arbitrary: off szx n s)
    case (Suc fuel)
    have ex: "returns (exchange_block1 w fuel tok opts pl st en further d s)" for opts pl st en further s
      unfolding exchange_block1_def by (intro returns_intros) (use f Suc.prems in auto)
    have "returns (upload w fuel tok body base extra d off' szx' (n + 1) s2)" if "\<not> n + 1 > 1024" for off' szx' s2
      by (rule Suc.IH) (use that Suc.prems in simp)
    then show ?case unfolding upload.simps Let_def
      by (intro returns_intros ex) (auto split: chunk_outcome.split)
  qed simp
  then show ?thesis by (intro exI [of _ "1024 + F + 1"]) fastforce
qed

lemma blockwise_get_once_returns: "\<exists>F. \<forall>fuel \<ge> F. returns (blockwise_get_once w fuel path q t extra s)"
proof -
  obtain r s1 where tok: "next_tok s = (r, s1)" by fastforce
  obtain F where "\<forall>fuel \<ge> F. \<forall>s acc etag. returns (transfer w fuel (projr r) path q (w_clock w (s_calls s1) + t) extra acc etag s)"
    using transfer_returns by meson
  then have "\<forall>fuel \<ge> F. returns (blockwise_get_once w fuel path q t extra s)"
    unfolding blockwise_get_once_def tok by (intro allI impI returns_intros) auto
  then show ?thesis by blast
qed

lemma blockwise_get_returns: "\<exists>F. \<forall>fuel \<ge> F. returns (blockwise_get w fuel path q t extra s)"
proof -
  obtain F1 where f1: "\<forall>fuel \<ge> F1. returns (blockwise_get_once w fuel path q t extra s)"
    using blockwise_get_once_returns by meson
  then obtain r s1 where a: "blockwise_get_once w F1 path q t extra s = Some (r, s1)"
    by (force simp: returns_def)
  obtain F2 where f2: "\<forall>fuel \<ge> F2. returns (blockwise_get_once w fuel path q t extra s1)"
    using blockwise_get_once_returns by meson
  have "returns (blockwise_get w fuel path q t extra s)" if "max F1 F2 \<le> fuel" for fuel
  proof -
    have "blockwise_get_once w fuel path q t extra s = Some (r, s1)"
      using blockwise_get_once_mono [of F1 fuel w path q t extra s] a that by (simp add: fuel_le_def)
    moreover have "returns (blockwise_get_once w fuel path q t extra s1)" using f2 that by simp
    ultimately show ?thesis
      by (auto simp: blockwise_get_def returns_def split: option.split sum.split exc.split prod.split)
  qed
  then show ?thesis by blast
qed

lemma requests_return:
  "\<exists>F. \<forall>fuel \<ge> F. returns (session_get w fuel path q t extra s)"
  "\<exists>F. \<forall>fuel \<ge> F. returns (session_post w fuel path body t q extra s)"
  "\<exists>F. \<forall>fuel \<ge> F. returns (session_delete w fuel path t q extra s)"
proof -
  obtain F where "\<forall>fuel \<ge> F. returns (blockwise_get w fuel (projr (validated_text_options path False))
      (projr (validated_text_options q False)) t (projr (validated_extra_options extra)) s)"
    using blockwise_get_returns by meson
  then have "\<forall>fuel \<ge> F. returns (session_get w fuel path q t extra s)"
    unfolding session_get_def by (intro allI impI returns_intros) auto
  then show "\<exists>F. \<forall>fuel \<ge> F. returns (session_get w fuel path q t extra s)" by blast
  obtain r s1 where tok: "next_tok s = (r, s1)" by fastforce
  obtain a s2 where reg: "register_pending (projr r) None s1 = (a, s2)" by fastforce
  obtain F1 where f1: "\<forall>fuel \<ge> F1. \<forall>left attempt x dg num szx s. returns (block_attempts w fuel left x dg num szx (w_wall w (s_calls s2) + t) s)
     \<and> returns (post_attempts w fuel left attempt x dg (w_wall w (s_calls s2) + t) s)
     \<and> returns (block1_attempts w fuel left attempt x dg (w_wall w (s_calls s2) + t) s)
     \<and> returns (delete_frame w fuel x dg (w_wall w (s_calls s2) + t) s)" using attempts_return by meson
  have single: "returns (registered_exchange verb (projr r) opts pl (\<lambda>x dg s.
         post_attempts w fuel (n s) 0 x dg (w_wall w (s_calls s) + t) (tick s)) s1)"
      "returns (registered_exchange verb (projr r) opts pl (\<lambda>x dg s.
         delete_frame w fuel x dg (w_wall w (s_calls s) + t) (pace w (tick s))) s1)"
    if "F1 \<le> fuel" for fuel opts pl n verb
    unfolding registered_exchange_def reg by (intro returns_intros; use f1 that in auto)+
  show "\<exists>F. \<forall>fuel \<ge> F. returns (session_delete w fuel path t q extra s)"
    unfolding session_delete_def by (intro exI [of _ F1] allI impI returns_intros) (use single tok in auto)
  define base where "base = projr (path_query_options (projr (validated_text_options path False)) (projr (validated_text_options q False)))
      @ [(CONTENT_FORMAT, CF_CBOR), (ACCEPT, CF_CBOR)]"
  obtain F2 where f2: "\<forall>fuel \<ge> F2. \<forall>off szx n s. returns (upload w fuel (projr r) (case body of PyBytes b \<Rightarrow> b | _ \<Rightarrow> [])
      base (projr (validated_extra_options extra)) (w_clock w (s_calls s1) + t) off szx n s)"
    using upload_returns by meson
  have "returns (session_post w fuel path body t q extra s)" if "max F1 F2 \<le> fuel" for fuel
    unfolding session_post_def post_frame_def post_blockwise_def Let_def
    by (cases body; intro returns_intros) (use single f2 that in \<open>auto simp: base_def tok and_then_def split: sum.split intro!: returns_intros\<close>)
  then show "\<exists>F. \<forall>fuel \<ge> F. returns (session_post w fuel path body t q extra s)" by blast
qed

end

text \<open>
  The model's own world: the reader dispatches while a caller waits, and never turns back the count.
\<close>

interpretation reader_progress: progressing "with_reader net demo_world"
proof unfold_locales
  show "\<exists>N. \<forall>n \<ge> N. T \<le> w_clock (with_reader net demo_world) n"
    "\<exists>N. \<forall>n \<ge> N. T \<le> w_wall (with_reader net demo_world) n" for T
    by (auto simp: with_reader_def demo_world_def intro!: exI [of _ "nat \<lceil>T\<rceil>"]) (linarith+)?
  show "s_calls s \<le> s_calls (w_threads (with_reader net demo_world) n s)" for s n
    using reader_calls.R_round [of s demo_world "net n"] by (simp add: with_reader_def)
qed

section \<open>Properties\<close>

text \<open>C5.
  Every request returns: if the clocks go past every deadline and the other threads only move time
  forward, then \<open>get()\<close>, \<open>post()\<close> (in one frame or as a Block1 upload) and \<open>delete()\<close> end with one
  result, a response or an exception, that is the same for all sufficient fuel; no peer and no
  schedule of the other threads can keep them waiting forever.
\<close>

theorem requests_terminate:
  assumes "\<And>T. \<exists>N. \<forall>n \<ge> N. T \<le> w_clock w n" and "\<And>T. \<exists>N. \<forall>n \<ge> N. T \<le> w_wall w n"
    and "\<And>n s. s_calls s \<le> s_calls (w_threads w n s)"
  shows "(\<exists>F r s'. \<forall>fuel \<ge> F. session_get w fuel path q t extra s = Some (r, s'))
    \<and> (\<exists>F r s'. \<forall>fuel \<ge> F. session_post w fuel path body t q extra s = Some (r, s'))
    \<and> (\<exists>F r s'. \<forall>fuel \<ge> F. session_delete w fuel path t q extra s = Some (r, s'))"
proof -
  have w: "progressing w" by unfold_locales (use assms in auto)
  have settle: "\<exists>F r s'. \<forall>fuel \<ge> F. f fuel = Some (r, s')"
    if ex: "\<exists>F. \<forall>fuel \<ge> F. returns (f fuel)" and mono: "\<And>fuel fuel'. fuel \<le> fuel' \<Longrightarrow> fuel_le (f fuel) (f fuel')"
    for f :: "nat \<Rightarrow> 'b waiting"
  proof -
    obtain F where F: "returns (f F)" using ex by blast
    then obtain r s' where "f F = Some (r, s')" by (force simp: returns_def)
    with mono have "\<forall>fuel \<ge> F. f fuel = Some (r, s')" by (fastforce simp: fuel_le_def)
    then show ?thesis by blast
  qed
  show ?thesis
    by (intro conjI settle requests_mono progressing.requests_return [OF w])
qed

theorem requests_terminate_witness:
  "\<exists>F r s'. \<forall>fuel \<ge> F. session_post (with_reader (\<lambda>n. Nothing_read) demo_world) fuel (PyTuple [PyStr (str_of ''a'')]) (PyBytes [160]) 8
     (PyTuple []) (PyTuple []) demo_session = Some (r, s')"
  using requests_terminate [of "with_reader (\<lambda>n. Nothing_read) demo_world", OF reader_progress.clock reader_progress.wall reader_progress.calls]
  by blast

end
