(* ===== verification/Session_Observe.thy ===== *)
theory Session_Observe
  imports Request_Outcome
begin

text \<open>
  The operations of \<open>DtlsCoapSession\<close> (\<open>dtls_session.py\<close>) that do not wait for an answer: ping,
  subscribe, unsubscribe and refresh of Observe relations, and the teardown. \<open>close\<close> and the
  others hold \<open>_observe_operation_lock\<close>; the reader and other callers still run at every
  \<open>interlude\<close>.
\<close>

section \<open>Definitions\<close>

definition ping :: "world \<Rightarrow> session \<Rightarrow> nat result \<times> session" where
  "ping w s =
     then_do (check_live s, s) (\<lambda>_ s.
     then_do (next_mid s) (\<lambda>mid s.
     then_do (build_coap TYPE_CON 0 mid [] [] [], s) (\<lambda>datagram s.
     then_do (send_dgram w False datagram s) (\<lambda>_ s. (Inr mid, s)))))"

definition send_observe_dereg ::
  "world \<Rightarrow> bool \<Rightarrow> bytes \<Rightarrow> pystr list \<Rightarrow> pystr list \<Rightarrow> session \<Rightarrow> unit result \<times> session" where
  "send_observe_dereg w orderly tok segs query s =
     then_do (next_mid s) (\<lambda>mid s.
     then_do (path_query_options segs query, s) (\<lambda>pq s.
     then_do (build_coap TYPE_CON METHOD_GET mid tok
        (pq @ [(OBSERVE, OBSERVE_DEREGISTER), (ACCEPT, CF_CBOR)]) [], s) (\<lambda>datagram s.
       send_dgram w orderly datagram s)))"

text \<open>The relation is entered before the registration is sent, and withdrawn if that fails.\<close>

definition enter_relation :: "bytes \<Rightarrow> pystr \<Rightarrow> pystr list \<Rightarrow> session \<Rightarrow> session" where
  "enter_relation tok href query s =
     s\<lparr>s_tokens := AList.update tok href (s_tokens s), s_queries := (s_queries s)(tok \<mapsto> query)\<rparr>"

definition subscribe_validated :: "world \<Rightarrow> pystr list \<Rightarrow> pystr list \<Rightarrow> session \<Rightarrow> bytes result \<times> session" where
  "subscribe_validated w path query s =
     then_do (check_live (pace w s), pace w s) (\<lambda>_ s.
     then_do (next_observe_tok w s) (\<lambda>tok s.
     let s = enter_relation tok (href_of path) query s in
     case next_mid s of
       (Inl e, s) \<Rightarrow> (Inl e, retire_token tok s)
     | (Inr mid, s) \<Rightarrow>
         then_do (path_query_options path query, s) (\<lambda>pq s.
         case then_do (build_coap TYPE_CON METHOD_GET mid tok
                  (pq @ [(OBSERVE, OBSERVE_REGISTER), (ACCEPT, CF_CBOR)]) [], s) (\<lambda>datagram s.
                send_dgram w False datagram s) of
           (Inl e, s) \<Rightarrow> (Inl e, retire_token tok s)
         | (Inr _, s) \<Rightarrow> (Inr tok, s))))"

definition subscribe :: "world \<Rightarrow> pyval \<Rightarrow> pyval \<Rightarrow> session \<Rightarrow> bytes result \<times> session" where
  "subscribe w path_segs query s =
     then_do (check_live s, s) (\<lambda>_ s.
     then_do (validated_text_options path_segs False, s) (\<lambda>path s.
     then_do (validated_text_options query False, s) (\<lambda>q s.
       subscribe_validated w path q s)))"

text \<open>
  One round of a deregistration sweep: best effort, the relation is retired either way. The
  accumulator is the first error.
\<close>

fun dereg_sweep ::
  "world \<Rightarrow> pystr list \<Rightarrow> (bytes \<times> pystr list) list \<Rightarrow> exc option \<Rightarrow> session \<Rightarrow> exc option \<times> session" where
  "dereg_sweep w path [] first s = (first, s)"
| "dereg_sweep w path ((tok, query) # rest) first s =
     (case send_observe_dereg w False tok path query (pace w s) of
        (r, s) \<Rightarrow> dereg_sweep w path rest
          (case (first, r) of (None, Inl e) \<Rightarrow> Some e | _ \<Rightarrow> first) (retire_token tok s))"

definition unsubscribe :: "world \<Rightarrow> pyval \<Rightarrow> session \<Rightarrow> nat result \<times> session" where
  "unsubscribe w path_segs s =
     then_do (check_live s, s) (\<lambda>_ s.
     then_do (validated_text_options path_segs False, s) (\<lambda>path s.
     let href = href_of path;
         observations = [(tok, query_of s tok). (tok, h) \<leftarrow> s_tokens s, h = href] in
     case dereg_sweep w path observations None s of
       (first, s) \<Rightarrow>
         let s = discard_refetches [href] s in
         (case first of Some e \<Rightarrow> (Inl e, s) | None \<Rightarrow> (Inr (length observations), s))))"

text \<open>\<open>refresh_observes\<close>: deregister and retire every relation of the target paths, then register anew.\<close>

fun refresh_sweep :: "world \<Rightarrow> (bytes \<times> pystr \<times> pystr list) list \<Rightarrow> session \<Rightarrow> session" where
  "refresh_sweep w [] s = s"
| "refresh_sweep w ((tok, href, query) # rest) s =
     refresh_sweep w rest (retire_token tok (snd (send_observe_dereg w False tok (segs_of href) query (pace w s))))"

text \<open>The queries to register for a path: an override, else those it had, else none.\<close>

definition refresh_queries ::
  "(pystr \<times> pystr list) list \<Rightarrow> (bytes \<times> pystr \<times> pystr list) list \<Rightarrow> pystr \<Rightarrow> pystr list list" where
  "refresh_queries overrides observations href =
     (case map_of overrides href of
        Some q \<Rightarrow> [q]
      | None \<Rightarrow>
          let qs = rev (remdups (rev [q. (_, h, q) \<leftarrow> observations, h = href])) in
          if qs = [] then [[]] else qs)"

text \<open>
  The registrations, path by path and query by query; the accumulators are the paths with a
  successful one and the number of failures. \<open>subscribe\<close> validates its arguments once more.
\<close>

fun refresh_register ::
  "world \<Rightarrow> (pystr list \<times> pystr \<times> pystr list) list \<Rightarrow> pystr list \<Rightarrow> nat \<Rightarrow> session
     \<Rightarrow> (pystr list \<times> nat) \<times> session" where
  "refresh_register w [] ok failures s = ((ok, failures), s)"
| "refresh_register w ((path, href, query) # rest) ok failures s =
     (case subscribe w (PyTuple (map PyStr path)) (PyTuple (map PyStr query)) s of
        (Inl _, s) \<Rightarrow> refresh_register w rest ok (failures + 1) s
      | (Inr _, s) \<Rightarrow> refresh_register w rest (if href \<in> set ok then ok else ok @ [href]) failures s)"

definition refresh_observes :: "world \<Rightarrow> pyval \<Rightarrow> pyval \<Rightarrow> session \<Rightarrow> (pystr list \<times> nat) result \<times> session" where
  "refresh_observes w paths queries_by_href s =
     then_do (check_live s, s) (\<lambda>_ s.
     then_do (validated_observe_paths paths, s) (\<lambda>targets s.
     then_do (validated_observe_query_overrides queries_by_href (map snd targets), s) (\<lambda>overrides s.
     let hrefs = map snd targets;
         observations = [(tok, h, query_of s tok). (tok, h) \<leftarrow> s_tokens s, h \<in> set hrefs];
         s = discard_refetches hrefs (refresh_sweep w observations s);
         work = [(path, href, q). (path, href) \<leftarrow> targets, q \<leftarrow> refresh_queries overrides observations href] in
     case refresh_register w work [] 0 s of (r, s) \<Rightarrow> (Inr r, s))))"

section \<open>Teardown\<close>

definition quiesce_for_close :: "world \<Rightarrow> session \<Rightarrow> session" where
  "quiesce_for_close w s =
     close_pending_requests (interlude w (clear_refetches (interlude w (s\<lparr>s_cancelled := True, s_stop := True\<rparr>))))"

text \<open>
  The pause before a deregistration: \<open>pace()\<close>, or the sleep of \<open>_pace_orderly_close()\<close> once
  \<open>_stop\<close> is set, during which the others run as well.
\<close>

fun close_sweep :: "world \<Rightarrow> bool \<Rightarrow> (bytes \<times> pystr) list \<Rightarrow> (bytes \<Rightarrow> pystr list) \<Rightarrow> session \<Rightarrow> session" where
  "close_sweep w quiesced [] query s = s"
| "close_sweep w quiesced ((tok, href) # rest) query s =
     close_sweep w quiesced rest query
       (snd (send_observe_dereg w quiesced tok (segs_of href) (query tok) (pace w s)))"

text \<open>
  \<open>close()\<close>. The close-notify record and the socket are outside the model; what is left of them
  is that the connection is gone afterwards.
\<close>

definition close_session :: "world \<Rightarrow> session \<Rightarrow> session" where
  "close_session w s =
     (let s = (if s_conn s \<and> s_tokens s \<noteq> []
               then interlude w (close_sweep w (s_cancelled s) (s_tokens s) (query_of s) s) else s);
          s = interlude w (quiesce_for_close w s) in
      clear_relations (s\<lparr>s_conn := False\<rparr>))"

definition abort_session :: "world \<Rightarrow> session \<Rightarrow> session" where
  "abort_session w s = clear_relations ((interlude w (quiesce_for_close w s))\<lparr>s_conn := False\<rparr>)"

text \<open>\<open>start_reader()\<close>, after \<open>connect()\<close> has published the connection.\<close>

definition start_reader :: "session \<Rightarrow> unit result \<times> session" where
  "start_reader s =
     (if \<not> s_conn s then (Inl Py_RuntimeError, s)
      else then_do (check_live s, s) (\<lambda>_ s. (Inr (), s\<lparr>s_reader_running := True, s_reader := True\<rparr>)))"

section \<open>Relations are only entered by a subscription\<close>

lemma fewer_refl [simp]: "fewer s s"
  by (simp add: fewer_def)

lemma fewer_trans: "fewer s s' \<Longrightarrow> fewer s' s'' \<Longrightarrow> fewer s s''"
  by (auto simp: fewer_def)

lemma fewer_same: "s_tokens s' = s_tokens s \<Longrightarrow> fewer s s'"
  by (simp add: fewer_def)

lemma tokens_discard [simp]: "s_tokens (discard_refetches hs s) = s_tokens s"
  by (simp add: discard_refetches_def)

text \<open>
  The interface of an operation that holds \<open>_observe_operation_lock\<close>: the others may retire
  relations, but enter none.
\<close>

locale observe_locked =
  fixes w :: world
  assumes others_enter_none: "fewer s (w_threads w n s)"
begin

lemma fewer_interlude: "fewer s (interlude w s)"
  unfolding interlude_def by (rule fewer_trans [OF fewer_same others_enter_none]) simp

lemma fewer_pace: "fewer s (pace w s)"
  unfolding pace_def Let_def using fewer_trans [OF fewer_same fewer_interlude, of "tick s" s] by (simp add: fewer_same)

lemma fewer_send: "fewer s (snd (send_dgram w ord d s))"
  using send_effect [of w ord d s] fewer_interlude [of s] by (auto simp: fewer_def)

lemma fewer_mid: "next_mid s = (r, s') \<Longrightarrow> s_tokens s' = s_tokens s"
  by (auto simp: next_mid_def probe_mid_run split: option.splits if_splits)

lemma fewer_dereg: "fewer s (snd (send_observe_dereg w ord tok segs q s))"
proof -
  obtain r s1 where m: "next_mid s = (r, s1)" by fastforce
  note s1 = fewer_same [OF fewer_mid [OF m]]
  show ?thesis
    unfolding send_observe_dereg_def m
    using s1 fewer_trans [OF s1 fewer_send] by (auto simp: then_do_def split: sum.split prod.split)
qed

text \<open>A sweep retires every relation of its list.\<close>

lemma dereg_sweep_tokens:
  assumes "dereg_sweep w path obs first s = (r, s')"
  shows "fewer s s' \<and> (\<forall>(tok, h) \<in> set (s_tokens s'). tok \<notin> fst ` set obs)"
  using assms
proof (induction obs arbitrary: first s)
  case (Cons o1 obs)
  obtain tok q where o1: "o1 = (tok, q)" by fastforce
  let ?s1 = "snd (send_observe_dereg w False tok path q (pace w s))"
  have s1: "fewer s (retire_token tok ?s1)"
    by (rule fewer_trans [OF fewer_trans [OF fewer_pace fewer_dereg] fewer_retire(1)])
  have gone: "\<forall>(t, h) \<in> set (s_tokens (retire_token tok ?s1)). t \<noteq> tok"
    by (auto simp: retire_token_def AList.delete_eq)
  obtain first' where "dereg_sweep w path obs first' (retire_token tok ?s1) = (r, s')"
    using Cons.prems unfolding o1 dereg_sweep.simps by (auto split: prod.splits)
  from Cons.IH [OF this] s1 gone show ?case
    unfolding o1 fewer_def by auto
qed simp

end

interpretation quiet_observe: observe_locked "quiet w"
  by unfold_locales (simp add: quiet_def)

interpretation reader_observe: observe_locked "with_reader net w"
  by unfold_locales (simp add: with_reader_def reader_fewer.R_round)

section \<open>Properties\<close>

text \<open>Unsubscribing retires every relation of the path, whatever happens to the deregistrations: while
  the reader goes on dispatching, afterwards no token of that path and no queued re-read of it is
  left, no relation has been added, and a success counts the relations the path had.
\<close>

theorem unsubscribe_retires_all:
  assumes "validated_text_options p False = Inr path" and "check_live s = Inr ()"
    and "unsubscribe (with_reader net w) p s = (r, s')"
  shows "set (s_tokens s') \<subseteq> set (s_tokens s) \<and> (\<forall>(tok, h) \<in> set (s_tokens s'). h \<noteq> href_of path)
    \<and> (\<forall>((h, q), e) \<in> set (s_refetch s'). h \<noteq> href_of path)
    \<and> (\<forall>n. r = Inr n \<longrightarrow> n = length (filter (\<lambda>(tok, h). h = href_of path) (s_tokens s)))"
proof -
  let ?obs = "[(tok, query_of s tok). (tok, h) \<leftarrow> s_tokens s, h = href_of path]"
  obtain first s1 where sweep: "dereg_sweep (with_reader net w) path ?obs None s = (first, s1)" by fastforce
  have s': "s' = discard_refetches [href_of path] s1" and r: "r = (case first of Some e \<Rightarrow> Inl e | None \<Rightarrow> Inr (length ?obs))"
    using assms sweep by (auto simp: unsubscribe_def Let_def split: option.splits)
  from reader_observe.dereg_sweep_tokens [OF sweep]
  have t: "set (s_tokens s1) \<subseteq> set (s_tokens s)" "\<forall>(tok, h) \<in> set (s_tokens s1). tok \<notin> fst ` set ?obs"
    by (simp_all add: fewer_def)
  have obs: "fst ` set ?obs = {tok. (tok, href_of path) \<in> set (s_tokens s)}" by force
  have "length [(tok, query_of s tok). (tok, h) \<leftarrow> xs, h = href_of path] = length (filter (\<lambda>(tok, h). h = href_of path) xs)" for xs
    by (induction xs) auto
  moreover have "\<forall>((h, q), e) \<in> set (s_refetch s'). h \<noteq> href_of path"
    by (auto simp: s' discard_refetches_def)
  ultimately show ?thesis
    using t r unfolding obs by (auto simp: s' split: option.splits)
qed

definition two_relations :: session where
  "two_relations = demo_session\<lparr>s_tokens := [([7], str_of ''/a''), ([8], str_of ''/b''), ([9], str_of ''/a'')],
     s_queries := [[7] \<mapsto> [], [8] \<mapsto> [], [9] \<mapsto> [str_of ''if=oic.if.a'']]\<rparr>"

theorem unsubscribe_retires_all_witness:
  "\<exists>s'. unsubscribe (with_reader (\<lambda>n. Nothing_read) demo_world) (PyTuple [PyStr (str_of ''a'')]) two_relations = (Inr 2, s')
     \<and> (\<forall>(tok, h) \<in> set (s_tokens s'). h \<noteq> str_of ''/a'')"
proof -
  let ?u = "unsubscribe (with_reader (\<lambda>n. Nothing_read) demo_world) (PyTuple [PyStr (str_of ''a'')]) two_relations"
  have v: "validated_text_options (PyTuple [PyStr (str_of ''a'')]) False = Inr [str_of ''a'']" by code_simp
  have live: "check_live two_relations = Inr ()" by code_simp
  have h: "href_of [str_of ''a''] = str_of ''/a''" by code_simp
  have "fst ?u = Inr 2" by code_simp
  then obtain s' where "?u = (Inr 2, s')" by (cases ?u) auto
  with unsubscribe_retires_all [OF v live, of _ _ "Inr 2" s'] show ?thesis unfolding h by blast
qed

lemma path_query_ok:
  assumes "validated_text_options p False = Inr path" and "validated_text_options q False = Inr query"
  obtains pq where "path_query_options path query = Inr pq"
proof -
  have "validated_request path query []"
    unfolding validated_request_def using assms
    by (intro conjI) (blast, blast, rule exI [of _ "PyTuple []"], simp add: validated_extra_options_def)
  from write_builds [OF this, of 0 "[]" 0 "[]"] that show thesis by auto
qed

lemma probe_observe_tok_state:
  "probe_observe_tok w n s = (r, s') \<Longrightarrow> tables s' = tables s
     \<and> (\<forall>tok. r = Inr tok \<longrightarrow> map_of (s_tokens s) tok = None)"
proof (induction n arbitrary: s)
  case (Suc n)
  show ?case
  proof (cases "map_of (s_tokens s) (w_random w (s_calls s) 8) = None")
    case True
    with Suc.prems show ?thesis by (auto simp: Let_def)
  next
    case False
    with Suc.prems have "probe_observe_tok w n (tick s) = (r, s')" by (simp add: Let_def)
    from Suc.IH [OF this] show ?thesis by (simp add: tables_def tick_def)
  qed
qed auto

lemma next_mid_tables: "next_mid s = (r, s') \<Longrightarrow> tables s' = tables s"
  by (auto simp: next_mid_def probe_mid_run split: option.splits if_splits)

text \<open>Once the arguments are valid, a subscription is a token, a Message ID and a send.\<close>

lemma subscribe_run:
  assumes "subscribe w p q s = (r, s')"
  obtains (refused) e where "r = Inl e" "s' = s"
  | (ran) path query pq s1 tr s2 where
    "validated_text_options p False = Inr path" "validated_text_options q False = Inr query"
    "path_query_options path query = Inr pq" "s1 = pace w s"
    "next_observe_tok w s1 = (tr, s2)" "tables s2 = tables s1"
    "r = Inl SessionClosedError \<and> s' = s1
      \<or> (\<exists>e. tr = Inl e \<and> r = Inl e \<and> s' = s2)
      \<or> (\<exists>tok s3 mr s4. tr = Inr tok \<and> map_of (s_tokens s2) tok = None \<and> s3 = enter_relation tok (href_of path) query s2
           \<and> next_mid s3 = (mr, s4) \<and> tables s4 = tables s3
           \<and> ((\<exists>e s5. r = Inl e \<and> s' = retire_token tok s5 \<and> (s5 = s4 \<or> (\<exists>d. s5 = snd (send_dgram w False d s4))))
              \<or> r = Inr tok \<and> (\<exists>d. send_dgram w False d s4 = (Inr (), s'))))"
proof (cases "\<exists>path query. validated_text_options p False = Inr path \<and> validated_text_options q False = Inr query
    \<and> subscribe_validated w path query s = (r, s')")
  case False
  then have "s' = s" "\<exists>e. r = Inl e" using assms by (auto simp: subscribe_def then_do_def split: sum.splits)
  with refused show thesis by blast
next
  case True
  then obtain path query where v: "validated_text_options p False = Inr path" "validated_text_options q False = Inr query"
    and run: "subscribe_validated w path query s = (r, s')" by blast
  obtain pq where pq: "path_query_options path query = Inr pq" by (rule path_query_ok [OF v])
  obtain tr s2 where t: "next_observe_tok w (pace w s) = (tr, s2)" by fastforce
  note ts = probe_observe_tok_state [OF t [unfolded next_observe_tok_def]]
  have tab: "tables s2 = tables (pace w s)" using ts by simp
  have fresh: "map_of (s_tokens s2) tok = None" if "tr = Inr tok" for tok
    using ts that by (simp add: tables_def)
  show thesis
  proof (rule ran [OF v pq refl t tab])
    show "r = Inl SessionClosedError \<and> s' = pace w s
      \<or> (\<exists>e. tr = Inl e \<and> r = Inl e \<and> s' = s2)
      \<or> (\<exists>tok s3 mr s4. tr = Inr tok \<and> map_of (s_tokens s2) tok = None \<and> s3 = enter_relation tok (href_of path) query s2
           \<and> next_mid s3 = (mr, s4) \<and> tables s4 = tables s3
           \<and> ((\<exists>e s5. r = Inl e \<and> s' = retire_token tok s5 \<and> (s5 = s4 \<or> (\<exists>d. s5 = snd (send_dgram w False d s4))))
              \<or> r = Inr tok \<and> (\<exists>d. send_dgram w False d s4 = (Inr (), s'))))"
    proof (cases "check_live (pace w s)")
      case (Inl e)
      then have "e = SessionClosedError" by (auto simp: check_live_def split: if_splits)
      with run Inl show ?thesis by (simp add: subscribe_validated_def)
    next
      case live: (Inr u)
      show ?thesis
      proof (cases tr)
        case (Inl e)
        with run live t have "r = Inl e" "s' = s2" by (simp_all add: subscribe_validated_def)
        with Inl show ?thesis by blast
      next
        case (Inr tok)
        let ?s3 = "enter_relation tok (href_of path) query s2"
        obtain mr s4 where m: "next_mid ?s3 = (mr, s4)" by fastforce
        have "(\<exists>e s5. r = Inl e \<and> s' = retire_token tok s5 \<and> (s5 = s4 \<or> (\<exists>d. s5 = snd (send_dgram w False d s4))))
              \<or> r = Inr tok \<and> (\<exists>d. send_dgram w False d s4 = (Inr (), s'))"
        proof (cases mr)
          case (Inl e)
          with run live t Inr m show ?thesis by (auto simp: subscribe_validated_def Let_def)
        next
          case mid: (Inr mid)
          show ?thesis
          proof (cases "build_coap TYPE_CON METHOD_GET mid tok (pq @ [(OBSERVE, OBSERVE_REGISTER), (ACCEPT, CF_CBOR)]) []")
            case (Inl e)
            with run live t Inr m mid pq have "r = Inl e" "s' = retire_token tok s4"
              by (simp_all add: subscribe_validated_def Let_def)
            then show ?thesis by blast
          next
            case d: (Inr d)
            obtain sr s5 where "send_dgram w False d s4 = (sr, s5)" by fastforce
            with run live t Inr m mid pq d show ?thesis
              by (cases sr) (auto simp: subscribe_validated_def Let_def intro!: exI [of _ d])
          qed
        qed
        with Inr fresh m next_mid_tables [OF m] show ?thesis by blast
      qed
    qed
  qed
qed

text \<open>C18.
  A subscription is entered whole or not at all. When \<open>subscribe()\<close> raises, arguments, token or
  Message ID exhaustion and failed sends included, no relation is left behind although it had
  been entered before the send; when it returns a token and nothing else runs, exactly that
  relation was added, under a token that was not in use, with its query, and the session's state is
  otherwise unchanged but for the counters and the log.
\<close>

theorem subscribe_whole_or_nothing:
  "(subscribe (with_reader net w) p q s = (Inl e, s') \<longrightarrow> set (s_tokens s') \<subseteq> set (s_tokens s))
   \<and> (subscribe (quiet w) p q s = (Inr tok, s') \<longrightarrow>
        (\<exists>path query. validated_text_options p False = Inr path \<and> validated_text_options q False = Inr query
          \<and> s_tokens s' = s_tokens s @ [(tok, href_of path)] \<and> tok \<notin> fst ` set (s_tokens s)
          \<and> s_queries s' = (s_queries s)(tok \<mapsto> query)
          \<and> requests s' = requests s \<and> refetches s' = refetches s))"
  (is "?A \<and> ?B")
proof
  have enter: "s_tokens (enter_relation tok h q s) = s_tokens s @ [(tok, h)]" if "map_of (s_tokens s) tok = None" for tok h q s
    using update_fresh [OF that] by (simp add: enter_relation_def)
  show ?A
  proof
    let ?w = "with_reader net w"
    assume run: "subscribe ?w p q s = (Inl e, s')"
    from run show "set (s_tokens s') \<subseteq> set (s_tokens s)"
    proof (cases rule: subscribe_run)
      case (ran path query pq s1 tr s2)
      note r = ran(4,6)
      have r3: "s' = s1 \<or> s' = s2 \<or> (\<exists>tok s4 s5. map_of (s_tokens s2) tok = None
           \<and> tables s4 = tables (enter_relation tok (href_of path) query s2)
           \<and> s' = retire_token tok s5 \<and> (s5 = s4 \<or> (\<exists>d. s5 = snd (send_dgram ?w False d s4))))"
        using ran(7) by blast
      have s12: "set (s_tokens s2) \<subseteq> set (s_tokens s)" "s_tokens s2 = s_tokens s1"
        using r(2) reader_observe.fewer_pace [where net = net and w = w and s = s] unfolding r(1) fewer_def tables_def by auto
      have "set (s_tokens (retire_token tok s5)) \<subseteq> set (s_tokens s)"
        if "map_of (s_tokens s2) tok = None" "tables s4 = tables (enter_relation tok (href_of path) query s2)"
          "s5 = s4 \<or> (\<exists>d. s5 = snd (send_dgram ?w False d s4))" for tok s4 s5
      proof -
        have "set (s_tokens s5) \<subseteq> insert (tok, href_of path) (set (s_tokens s2))"
          using reader_observe.fewer_send [where s = s4 and net = net and w = w and ord = False] that(2,3) enter [OF that(1), of "href_of path" query]
          by (auto simp: fewer_def tables_def)
        with s12 show ?thesis by (auto simp: retire_token_def AList.delete_eq)
      qed
      with r3 s12 show ?thesis by metis
    qed simp
  qed
  show ?B
  proof
    assume run: "subscribe (quiet w) p q s = (Inr tok, s')"
    have pt: "tables (pace (quiet w) s) = tables s" by (simp add: pace_def Let_def)
    from run show "\<exists>path query. validated_text_options p False = Inr path \<and> validated_text_options q False = Inr query
          \<and> s_tokens s' = s_tokens s @ [(tok, href_of path)] \<and> tok \<notin> fst ` set (s_tokens s)
          \<and> s_queries s' = (s_queries s)(tok \<mapsto> query)
          \<and> requests s' = requests s \<and> refetches s' = refetches s"
    proof (cases rule: subscribe_run)
      case (ran path query pq s1 tr s2)
      have s2: "tables s2 = tables s" using ran(4,6) pt by simp
      from ran(7) obtain s4 d where s4: "map_of (s_tokens s2) tok = None"
        "tables s4 = tables (enter_relation tok (href_of path) query s2)" "send_dgram (quiet w) False d s4 = (Inr (), s')"
        by auto
      have "requests s' = requests s4" "relations s' = relations s4" "refetches s' = refetches s4"
        using sends_quiet(1-3) [of w False d s4 s'] s4(3) by simp_all
      moreover have "requests s4 = requests s" "refetches s4 = refetches s" "s_queries s4 = (s_queries s)(tok \<mapsto> query)"
        "s_tokens s4 = s_tokens s @ [(tok, href_of path)]"
        using s4(2) s2 enter [OF s4(1)] by (simp_all add: tables_def parts_defs enter_relation_def)
      moreover have "tok \<notin> fst ` set (s_tokens s)" using s4(1) s2 by (simp add: tables_def map_of_eq_None_iff)
      ultimately show ?thesis using ran(1,2) by (auto simp: relations_def)
    qed simp
  qed
qed

theorem subscribe_whole_or_nothing_witness:
  "\<exists>s'. subscribe (quiet demo_world) (PyTuple [PyStr (str_of ''a'')]) (PyTuple []) two_relations
       = (Inr (replicate 8 2), s')
     \<and> s_tokens s' = s_tokens two_relations @ [(replicate 8 2, str_of ''/a'')]"
proof -
  let ?r = "subscribe (quiet demo_world) (PyTuple [PyStr (str_of ''a'')]) (PyTuple []) two_relations"
  have "fst ?r = Inr (replicate 8 2)" by code_simp
  then obtain s' where r: "?r = (Inr (replicate 8 2), s')" by (cases ?r) auto
  have v: "validated_text_options (PyTuple [PyStr (str_of ''a'')]) False = Inr [str_of ''a'']" by code_simp
  have h: "href_of [str_of ''a''] = str_of ''/a''" by code_simp
  from subscribe_whole_or_nothing [THEN conjunct2, rule_format, OF r] r show ?thesis by (auto simp: v h)
qed

lemma dereg_quiet_requests: "requests (snd (send_observe_dereg (quiet w) ord tok segs q s)) = requests s"
proof -
  obtain r s1 where m: "next_mid s = (r, s1)" by fastforce
  have s1: "requests s1 = requests s" using next_mid_tables [OF m] by (simp add: tables_def requests_def)
  have "requests (snd (send_dgram (quiet w) ord d s1)) = requests s" for d
    using sends_quiet(1) [of w ord d s1] s1 by simp
  then show ?thesis
    unfolding send_observe_dereg_def m using s1 by (auto simp: then_do_def split: sum.split prod.split)
qed

lemma close_sweep_requests: "requests (close_sweep (quiet w) b obs q s) = requests s"
proof (induction obs arbitrary: s)
  case (Cons o1 obs)
  have "requests (pace (quiet w) s) = requests s" for s
    by (simp add: pace_def Let_def requests_def)
  with Cons show ?case by (cases o1) (simp add: dereg_quiet_requests)
qed simp

text \<open>C24.
  Closing is final and leaves nobody waiting. After \<open>close()\<close> or \<open>abort()\<close>, whatever other
  threads did meanwhile, the connection is gone, no relation is left, and every operation refuses
  at once with \<open>SessionClosedError\<close> and changes nothing; if no other thread registers a request
  meanwhile, both indices are empty and every request that was registered has its event set and
  a response or an error in hand.
\<close>

theorem closed_session_refuses:
  assumes "s' = close_session w s \<or> s' = abort_session w s"
  shows "\<not> s_conn s' \<and> s_tokens s' = []
    \<and> session_get v fuel path query timeout extra s' = Some (Inl SessionClosedError, s')
    \<and> session_post v fuel path body timeout query extra s' = Some (Inl SessionClosedError, s')
    \<and> session_delete v fuel path timeout query extra s' = Some (Inl SessionClosedError, s')
    \<and> subscribe v path query s' = (Inl SessionClosedError, s')
    \<and> unsubscribe v path s' = (Inl SessionClosedError, s')
    \<and> refresh_observes v path query s' = (Inl SessionClosedError, s')
    \<and> ping v s' = (Inl SessionClosedError, s')
    \<and> (w = quiet u \<longrightarrow> s_pending s' = [] \<and> s_pending_mids s' = []
        \<and> (\<forall>x e. x \<in> snd ` set (s_pending s) \<and> s_heap s x = Some e \<longrightarrow>
             (\<exists>e'. s_heap s' x = Some e' \<and> x_event e' \<and> (x_msg e' \<noteq> None \<or> x_err e' \<noteq> None))))"
proof -
  have c: "\<not> s_conn s' \<and> s_tokens s' = []"
    using assms by (auto simp: close_session_def abort_session_def clear_relations_def Let_def)
  then have live: "check_live s' = Inl SessionClosedError" by (simp add: check_live_def)
  have woken: "s_pending s' = [] \<and> s_pending_mids s' = []
        \<and> (\<forall>x e. x \<in> snd ` set (s_pending s) \<and> s_heap s x = Some e \<longrightarrow>
             (\<exists>e'. s_heap s' x = Some e' \<and> x_event e' \<and> (x_msg e' \<noteq> None \<or> x_err e' \<noteq> None)))" if w: "w = quiet u"
  proof -
    obtain s0 where s0: "requests s0 = requests s" "requests s' = requests (close_pending_requests s0)"
    proof (cases "s' = abort_session w s")
      case True
      let ?s0 = "interlude w (clear_refetches (interlude w (s\<lparr>s_cancelled := True, s_stop := True\<rparr>)))"
      show thesis
        by (rule that [of ?s0]) (simp_all add: True w abort_session_def quiesce_for_close_def requests_def clear_refetches_def clear_relations_def)
    next
      case False
      let ?s1 = "if s_conn s \<and> s_tokens s \<noteq> [] then interlude w (close_sweep w (s_cancelled s) (s_tokens s) (query_of s) s) else s"
      let ?s0 = "interlude w (clear_refetches (interlude w (?s1\<lparr>s_cancelled := True, s_stop := True\<rparr>)))"
      have "requests ?s1 = requests s"
        using close_sweep_requests [of u "s_cancelled s" "s_tokens s" "query_of s" s] by (simp add: w requests_def)
      then have "requests ?s0 = requests s" by (simp add: w requests_def clear_refetches_def)
      moreover have "s' = close_session w s" using assms False by blast
      then have "requests s' = requests (close_pending_requests ?s0)"
        by (simp add: close_session_def Let_def w quiesce_for_close_def requests_def clear_relations_def)
      ultimately show thesis by (rule that)
    qed
    then show ?thesis
      unfolding close_pending_eq
      by (auto simp: requests_def set_event_def fail_unanswered_def)
  qed
  show ?thesis
    using c live woken
    by (simp add: session_get_def session_post_def session_delete_def subscribe_def unsubscribe_def
        refresh_observes_def ping_def)
qed

theorem closed_session_refuses_witness:
  "s_tokens (close_session demo_world two_relations) = []
   \<and> ping demo_world (close_session demo_world two_relations) = (Inl SessionClosedError, close_session demo_world two_relations)"
  using closed_session_refuses [of "close_session demo_world two_relations" demo_world two_relations] by blast

end
