(* ===== verification/Udp_Endpoint.thy ===== *)
theory Udp_Endpoint
  imports Prelude
begin

text \<open>
  \<open>protocol/endpoint.py\<close>: validation of ports and address families, resolution of a host to UDP
  endpoints in resolver order, setup of a socket (connected, or filtered by host), and the
  receive loop of \<open>HostFilteredUdpSocket\<close>. The operating system is a parameter: the outcome of
  \<open>getaddrinfo\<close>, whether a socket call succeeds, what \<open>inet_pton\<close> and \<open>recvfrom\<close> return and what
  the monotonic clock reads. The state keeps the open descriptors, so that leaks are visible.
\<close>

section \<open>Arguments\<close>

definition AF_UNSPEC :: int where "AF_UNSPEC = 0"
definition AF_INET :: int where "AF_INET = 2"
definition AF_INET6 :: int where "AF_INET6 = 10"
definition SOCK_DGRAM :: int where "SOCK_DGRAM = 2"
definition IPPROTO_UDP :: int where "IPPROTO_UDP = 17"

lemmas af_defs = AF_UNSPEC_def AF_INET_def AF_INET6_def SOCK_DGRAM_def IPPROTO_UDP_def

definition validate_udp_port :: "pyval \<Rightarrow> bool \<Rightarrow> unit result" where
  "validate_udp_port port allow_zero =
     (case port of
        PyInt n \<Rightarrow> raise_if (\<not> ((if allow_zero then 0 else 1) \<le> n \<and> n \<le> 65535)) Py_ValueError
      | _ \<Rightarrow> Inl Py_TypeError)"

definition validate_family :: "pyval \<Rightarrow> unit result" where
  "validate_family family =
     (case family of
        PyInt n \<Rightarrow> raise_if (n \<notin> {AF_UNSPEC, AF_INET, AF_INET6}) Py_ValueError
      | _ \<Rightarrow> Inl Py_TypeError)"

text \<open>A timeout is a finite non-negative number or \<open>None\<close>; floats of the model are finite.\<close>

definition validate_timeout :: "pyval \<Rightarrow> unit result" where
  "validate_timeout timeout =
     (if timeout = PyNone then Inr ()
      else andThen (float_of timeout) (\<lambda>seconds. raise_if (seconds < 0) Py_ValueError))"

section \<open>Resolution\<close>

record udp_endpoint =
  ep_family :: int
  ep_sockaddr :: pyval

definition tuple_of_length :: "pyval \<Rightarrow> nat \<Rightarrow> bool" where
  "tuple_of_length v n = (case v of PyTuple xs \<Rightarrow> length xs = n | _ \<Rightarrow> False)"

definition sockaddr_length :: "int \<Rightarrow> nat" where
  "sockaddr_length family = (if family = AF_INET then 2 else 4)"

text \<open>\<open>ResolvedUdpEndpoint.__post_init__\<close>.\<close>

definition resolved_udp_endpoint :: "int \<Rightarrow> pyval \<Rightarrow> udp_endpoint result" where
  "resolved_udp_endpoint family sockaddr =
     (if family \<noteq> AF_INET \<and> family \<noteq> AF_INET6 then Inl Py_ValueError
      else if \<not> tuple_of_length sockaddr (sockaddr_length family) then Inl Py_ValueError
      else
        andThen (validate_udp_port (case sockaddr of PyTuple xs \<Rightarrow> xs ! 1 | _ \<Rightarrow> PyNone) False) (\<lambda>_.
          Inr \<lparr>ep_family = family, ep_sockaddr = sockaddr\<rparr>))"

definition bind_address :: "udp_endpoint \<Rightarrow> pyval \<Rightarrow> pyval result" where
  "bind_address ep local_port =
     andThen (validate_udp_port local_port True) (\<lambda>_.
       Inr (if ep_family ep = AF_INET6 then PyTuple [PyStr (str_of ''::''), local_port, PyInt 0, PyInt 0]
            else PyTuple [PyStr [], local_port]))"

text \<open>One row of \<open>getaddrinfo\<close>: family, socket type, protocol, address.\<close>

type_synonym addrinfo = "int \<times> int \<times> int \<times> pyval"

definition usable :: "addrinfo \<Rightarrow> bool" where
  "usable info =
     (case info of (family, socktype, protocol, sockaddr) \<Rightarrow>
        family \<in> {AF_INET, AF_INET6} \<and> socktype \<in> {0, SOCK_DGRAM} \<and> protocol \<in> {0, IPPROTO_UDP}
        \<and> tuple_of_length sockaddr (sockaddr_length family))"

definition key_of :: "addrinfo \<Rightarrow> int \<times> pyval" where
  "key_of info = (case info of (family, _, _, sockaddr) \<Rightarrow> (family, sockaddr))"

fun collect_endpoints :: "addrinfo list \<Rightarrow> (int \<times> pyval) set \<Rightarrow> udp_endpoint list result" where
  "collect_endpoints [] seen = Inr []"
| "collect_endpoints (info # infos) seen =
     (if \<not> usable info then collect_endpoints infos seen
      else if key_of info \<in> seen then collect_endpoints infos seen
      else
        andThen (resolved_udp_endpoint (fst (key_of info)) (snd (key_of info))) (\<lambda>ep.
        andThen (collect_endpoints infos (insert (key_of info) seen)) (\<lambda>eps. Inr (ep # eps))))"

definition resolve_udp_endpoints ::
  "addrinfo list result \<Rightarrow> pyval \<Rightarrow> pyval \<Rightarrow> pyval \<Rightarrow> udp_endpoint list result" where
  "resolve_udp_endpoints getaddrinfo host port family =
     andThen (case host of
                PyStr h \<Rightarrow> raise_if (h = []) Py_ValueError
              | PyBytes h \<Rightarrow> raise_if (h = []) Py_ValueError
              | _ \<Rightarrow> Inl Py_TypeError) (\<lambda>_.
     andThen (validate_udp_port port False) (\<lambda>_.
     andThen (validate_family family) (\<lambda>_.
     andThen (case getaddrinfo of
                Inl e \<Rightarrow> Inl (if isinstance_of e Py_OSError \<or> isinstance_of e Py_UnicodeError
                               then EndpointError else e)
              | Inr infos \<Rightarrow> collect_endpoints infos {}) (\<lambda>endpoints.
       if endpoints = [] then Inl EndpointError else Inr endpoints))))"

definition resolve_udp_endpoint ::
  "addrinfo list result \<Rightarrow> pyval \<Rightarrow> pyval \<Rightarrow> pyval \<Rightarrow> udp_endpoint result" where
  "resolve_udp_endpoint getaddrinfo host port family =
     andThen (resolve_udp_endpoints getaddrinfo host port family) (\<lambda>eps. Inr (hd eps))"

section \<open>Sockets\<close>

datatype sys_call = Create int | Reuse_address | Bind pyval | Connect pyval | Set_timeout pyval | Register
  | Multicast_if bytes | Multicast_ttl int | Multicast_loop int

record os =
  os_calls :: nat
  os_next :: nat
  os_open :: "nat list"

text \<open>\<open>ok n call\<close>: whether the \<open>n\<close>-th system call succeeds or raises \<open>OSError\<close>.\<close>

fun sys_calls :: "(nat \<Rightarrow> sys_call \<Rightarrow> bool) \<Rightarrow> sys_call list \<Rightarrow> os \<Rightarrow> bool \<times> os" where
  "sys_calls ok [] s = (True, s)"
| "sys_calls ok (call # calls) s =
     (let s1 = s\<lparr>os_calls := os_calls s + 1\<rparr> in
      if ok (os_calls s) call then sys_calls ok calls s1 else (False, s1))"

definition close_socket :: "nat \<Rightarrow> os \<Rightarrow> os" where
  "close_socket fd s = s\<lparr>os_open := removeAll fd (os_open s)\<rparr>"

text \<open>One candidate: the socket is created, the calls made on it, and closed if one fails.\<close>

definition try_candidate ::
  "(nat \<Rightarrow> sys_call \<Rightarrow> bool) \<Rightarrow> int \<Rightarrow> sys_call list \<Rightarrow> os \<Rightarrow> nat option \<times> os" where
  "try_candidate ok family calls s =
     (case sys_calls ok [Create family] s of
        (False, s) \<Rightarrow> (None, s)
      | (True, s) \<Rightarrow>
          let fd = os_next s; s = s\<lparr>os_next := fd + 1, os_open := fd # os_open s\<rparr> in
          (case sys_calls ok calls s of
             (True, s) \<Rightarrow> (Some fd, s)
           | (False, s) \<Rightarrow> (None, close_socket fd s)))"

fun try_candidates ::
  "(nat \<Rightarrow> sys_call \<Rightarrow> bool) \<Rightarrow> (udp_endpoint \<Rightarrow> sys_call list result) \<Rightarrow> udp_endpoint list \<Rightarrow> os
     \<Rightarrow> (nat \<times> udp_endpoint) result \<times> os" where
  "try_candidates ok plan [] s = (Inl EndpointError, s)"
| "try_candidates ok plan (ep # eps) s =
     (case plan ep of
        Inl e \<Rightarrow> (Inl e, s)
      | Inr calls \<Rightarrow>
          (case try_candidate ok (ep_family ep) calls s of
             (Some fd, s) \<Rightarrow> (Inr (fd, ep), s)
           | (None, s) \<Rightarrow> try_candidates ok plan eps s))"

text \<open>The calls each of the two functions makes on a socket; \<open>local_port\<close> may be \<open>None\<close>.\<close>

definition connected_plan :: "pyval \<Rightarrow> pyval \<Rightarrow> udp_endpoint \<Rightarrow> sys_call list result" where
  "connected_plan local_port timeout ep =
     andThen (if local_port = PyNone then Inr []
              else andThen (bind_address ep local_port) (\<lambda>a. Inr [Reuse_address, Bind a])) (\<lambda>calls.
       Inr (calls @ [Connect (ep_sockaddr ep), Set_timeout timeout]))"

definition filtered_plan :: "pyval \<Rightarrow> pyval \<Rightarrow> udp_endpoint \<Rightarrow> sys_call list result" where
  "filtered_plan local_port timeout ep =
     andThen (bind_address ep (if local_port = PyNone then PyInt 0 else local_port)) (\<lambda>a.
       Inr ((if local_port = PyNone then [] else [Reuse_address]) @ [Bind a, Set_timeout timeout]))"

definition open_udp_socket ::
  "(nat \<Rightarrow> sys_call \<Rightarrow> bool) \<Rightarrow> (udp_endpoint \<Rightarrow> sys_call list result) \<Rightarrow> addrinfo list result
     \<Rightarrow> pyval \<Rightarrow> pyval \<Rightarrow> pyval \<Rightarrow> pyval \<Rightarrow> pyval \<Rightarrow> os \<Rightarrow> (nat \<times> udp_endpoint) result \<times> os" where
  "open_udp_socket ok plan getaddrinfo host port family local_port timeout s =
     then_do (if local_port = PyNone then Inr () else validate_udp_port local_port True, s) (\<lambda>_ s.
     then_do (validate_timeout timeout, s) (\<lambda>_ s.
     then_do (resolve_udp_endpoints getaddrinfo host port family, s) (\<lambda>endpoints s.
       try_candidates ok plan endpoints s)))"

definition open_connected_udp_socket where
  "open_connected_udp_socket ok getaddrinfo host port family local_port timeout =
     open_udp_socket ok (connected_plan local_port timeout) getaddrinfo host port family local_port timeout"

definition open_host_filtered_udp_socket where
  "open_host_filtered_udp_socket ok getaddrinfo host port family local_port timeout =
     open_udp_socket ok (filtered_plan local_port timeout) getaddrinfo host port family local_port timeout"

section \<open>Receiving from one host\<close>

text \<open>
  \<open>_host_key\<close>: family, packed address and IPv6 scope; \<open>None\<close> when the address does not parse. The
  argument \<open>pton\<close> is \<open>socket.inet_pton\<close>, \<open>None\<close> where it raises.
\<close>

type_synonym host_key = "int \<times> bytes \<times> pyval"

definition host_key_of :: "(int \<Rightarrow> pystr \<Rightarrow> bytes option) \<Rightarrow> int \<Rightarrow> pyval list \<Rightarrow> host_key option result" where
  "host_key_of pton family sockaddr =
     andThen (item sockaddr 0) (\<lambda>host.
       Inr (case host of
              PyStr h \<Rightarrow>
                (case pton family h of
                   None \<Rightarrow> None
                 | Some packed \<Rightarrow>
                     Some (family, packed,
                       if family = AF_INET6 \<and> length sockaddr > 3 then sockaddr ! 3 else PyInt 0))
            | _ \<Rightarrow> None))"

datatype arrival = Datagram bytes "pyval list" | Recv_error exc

record udp =
  u_clock :: "nat \<Rightarrow> real"
  u_recv :: "nat \<Rightarrow> arrival"
  u_pton :: "int \<Rightarrow> pystr \<Rightarrow> bytes option"

record filtered_socket =
  fs_family :: int
  fs_key :: "host_key option"
  fs_timeout :: "real option"
  fs_reply_port :: "pyval option"
  fs_calls :: nat

definition fs_tick :: "filtered_socket \<Rightarrow> filtered_socket" where
  "fs_tick s = s\<lparr>fs_calls := fs_calls s + 1\<rparr>"

text \<open>The loop of \<open>recv\<close>; without fuel the call has not returned.\<close>

fun recv_loop ::
  "udp \<Rightarrow> nat \<Rightarrow> real option \<Rightarrow> filtered_socket \<Rightarrow> (bytes result \<times> filtered_socket) option" where
  "recv_loop net 0 deadline s = None"
| "recv_loop net (Suc fuel) deadline s =
     (let late = (case deadline of None \<Rightarrow> False | Some d \<Rightarrow> d - u_clock net (fs_calls s) \<le> 0);
          s = (if deadline = None then s else fs_tick s) in
      if late then Some (Inl Py_TimeoutError, s)
      else
        (case (u_recv net (fs_calls s), fs_tick s) of
           (Recv_error e, s) \<Rightarrow> Some (Inl e, s)
         | (Datagram data address, s) \<Rightarrow>
             (case (if fs_key s = None then Inr None else host_key_of (u_pton net) (fs_family s) address) of
                Inl e \<Rightarrow> Some (Inl e, s)
              | Inr key \<Rightarrow>
                  if key = fs_key s
                  then Some (Inr data, if length address > 1 then s\<lparr>fs_reply_port := Some (address ! 1)\<rparr> else s)
                  else recv_loop net fuel deadline s)))"

definition host_recv :: "udp \<Rightarrow> nat \<Rightarrow> filtered_socket \<Rightarrow> (bytes result \<times> filtered_socket) option" where
  "host_recv net fuel s =
     (case fs_timeout s of
        None \<Rightarrow> recv_loop net fuel None s
      | Some t \<Rightarrow> recv_loop net fuel (Some (u_clock net (fs_calls s) + t)) (fs_tick s))"

definition filtered_socket_new :: "udp \<Rightarrow> udp_endpoint \<Rightarrow> filtered_socket result" where
  "filtered_socket_new net ep =
     andThen (host_key_of (u_pton net) (ep_family ep)
                (case ep_sockaddr ep of PyTuple xs \<Rightarrow> xs | _ \<Rightarrow> [])) (\<lambda>key.
       Inr \<lparr>fs_family = ep_family ep, fs_key = key, fs_timeout = None, fs_reply_port = None, fs_calls = 0\<rparr>)"

section \<open>Resolution: the usable rows, each once, in resolver order\<close>

definition first_occurrences :: "'a list \<Rightarrow> 'a list" where
  "first_occurrences xs = rev (remdups (rev xs))"

definition endpoint_key :: "udp_endpoint \<Rightarrow> int \<times> pyval" where
  "endpoint_key ep = (ep_family ep, ep_sockaddr ep)"

lemma first_occurrences_simps [simp]:
  "first_occurrences [] = []"
  "first_occurrences (x # xs) = x # filter (\<lambda>y. y \<noteq> x) (first_occurrences xs)"
proof -
  have snoc: "remdups (ys @ [x]) = filter (\<lambda>y. y \<noteq> x) (remdups ys) @ [x]" for ys
    by (induction ys) auto
  show "first_occurrences [] = []" "first_occurrences (x # xs) = x # filter (\<lambda>y. y \<noteq> x) (first_occurrences xs)"
    by (simp_all add: first_occurrences_def snoc rev_filter)
qed

lemma first_occurrences_props [simp]:
  "set (first_occurrences xs) = set xs" "distinct (first_occurrences xs)"
  by (simp_all add: first_occurrences_def)

lemma resolved_endpoint_iff:
  "resolved_udp_endpoint family sockaddr = Inr ep \<longleftrightarrow>
     family \<in> {AF_INET, AF_INET6} \<and> tuple_of_length sockaddr (sockaddr_length family)
     \<and> validate_udp_port (case sockaddr of PyTuple xs \<Rightarrow> xs ! 1 | _ \<Rightarrow> PyNone) False = Inr ()
     \<and> endpoint_key ep = (family, sockaddr)"
  by (cases ep) (auto simp: resolved_udp_endpoint_def result_simps endpoint_key_def)

definition port_ok :: "int \<times> pyval \<Rightarrow> bool" where
  "port_ok k \<longleftrightarrow> validate_udp_port (case snd k of PyTuple xs \<Rightarrow> xs ! 1 | _ \<Rightarrow> PyNone) False = Inr ()"

lemma endpoint_key_inj: "endpoint_key a = endpoint_key b \<Longrightarrow> a = b"
  by (cases a; cases b) (simp add: endpoint_key_def)

lemma collect_endpoints_iff:
  "collect_endpoints infos seen = Inr eps \<longleftrightarrow>
     map endpoint_key eps = filter (\<lambda>k. k \<notin> seen) (first_occurrences (map key_of (filter usable infos)))
     \<and> list_all port_ok (map endpoint_key eps)"
proof (induction infos arbitrary: seen eps)
  case (Cons info infos)
  let ?k = "key_of info"
  have skip: "filter (\<lambda>k. k \<notin> seen) (filter (\<lambda>y. y \<noteq> ?k) xs) = filter (\<lambda>k. k \<notin> insert ?k seen) xs"
    "?k \<in> seen \<Longrightarrow> filter (\<lambda>y. y \<noteq> ?k \<and> y \<notin> seen) xs = filter (\<lambda>k. k \<notin> seen) xs" for xs
    by (auto intro: filter_cong)
  have made: "resolved_udp_endpoint (fst ?k) (snd ?k) = Inr ep \<longleftrightarrow> port_ok ?k \<and> endpoint_key ep = ?k"
    if "usable info" for ep
    using that by (cases info) (auto simp: resolved_endpoint_iff usable_def key_of_def port_ok_def)
  show ?case
  proof (cases "usable info \<and> ?k \<notin> seen")
    case True
    then have "collect_endpoints (info # infos) seen = Inr eps \<longleftrightarrow>
        (\<exists>ep eps'. eps = ep # eps' \<and> port_ok ?k \<and> endpoint_key ep = ?k
           \<and> collect_endpoints infos (insert ?k seen) = Inr eps')"
      using made by (auto simp: result_simps)
    with True show ?thesis
      unfolding Cons.IH by (cases eps) auto
  next
    case False
    then show ?thesis by (auto simp: Cons.IH skip(2))
  qed
qed auto

section \<open>Sockets\<close>

lemma sys_calls_state:
  "sys_calls ok calls s = (b, s') \<Longrightarrow> os_open s' = os_open s \<and> os_next s' = os_next s"
  by (induction calls arbitrary: s) (auto simp: Let_def split: if_splits)

definition fresh_descriptors :: "os \<Rightarrow> bool" where
  "fresh_descriptors s \<longleftrightarrow> (\<forall>fd \<in> set (os_open s). fd < os_next s)"

lemma try_candidate_open:
  assumes "try_candidate ok family calls s = (r, s')" and "fresh_descriptors s"
  shows "os_open s' = (case r of None \<Rightarrow> os_open s | Some fd \<Rightarrow> fd # os_open s)
    \<and> fresh_descriptors s' \<and> os_next s \<le> os_next s' \<and> (\<forall>fd. r = Some fd \<longrightarrow> fd \<ge> os_next s)"
proof (cases "sys_calls ok [Create family] s")
  case (Pair b s1)
  note s1 = sys_calls_state [OF Pair]
  show ?thesis
  proof (cases b)
    case True
    let ?s2 = "s1\<lparr>os_next := os_next s1 + 1, os_open := os_next s1 # os_open s1\<rparr>"
    obtain b2 s3 where run: "sys_calls ok calls ?s2 = (b2, s3)" by fastforce
    have s3: "os_open s3 = os_next s # os_open s" "os_next s3 = os_next s + 1"
      using sys_calls_state [OF run] s1 by simp_all
    have "removeAll (os_next s) (os_open s) = os_open s"
      using assms(2) by (auto simp: fresh_descriptors_def intro: removeAll_id)
    with assms Pair True run s1 s3 show ?thesis
      by (cases b2) (fastforce simp: try_candidate_def Let_def close_socket_def fresh_descriptors_def)+
  next
    case False
    with assms Pair s1 show ?thesis by (auto simp: try_candidate_def fresh_descriptors_def)
  qed
qed

lemma try_candidates_open:
  assumes "try_candidates ok plan eps s = (r, s')" and "fresh_descriptors s"
  shows "os_open s' = (case r of Inl _ \<Rightarrow> os_open s | Inr (fd, ep) \<Rightarrow> fd # os_open s)
    \<and> (\<forall>fd ep. r = Inr (fd, ep) \<longrightarrow> fd \<notin> set (os_open s) \<and> ep \<in> set eps)"
  using assms
proof (induction eps arbitrary: s)
  case (Cons ep eps)
  show ?case
  proof (cases "plan ep")
    case (Inl e)
    with Cons.prems show ?thesis by auto
  next
    case (Inr calls)
    obtain c s1 where run: "try_candidate ok (ep_family ep) calls s = (c, s1)" by fastforce
    note cand = try_candidate_open [OF run Cons.prems(2)]
    show ?thesis
    proof (cases c)
      case None
      with cand have same: "os_open s1 = os_open s" and fresh: "fresh_descriptors s1" by simp_all
      from run None Inr Cons.prems(1) have "try_candidates ok plan eps s1 = (r, s')" by simp
      from Cons.IH [OF this fresh] show ?thesis unfolding same by auto
    next
      case (Some fd)
      with run cand Inr Cons.prems show ?thesis by (auto simp: fresh_descriptors_def)
    qed
  qed
qed auto

lemma open_udp_socket_open:
  assumes "open_udp_socket ok plan gai host port family local_port timeout s = (r, s')" and "fresh_descriptors s"
  shows "case r of Inl _ \<Rightarrow> os_open s' = os_open s
    | Inr (fd, ep) \<Rightarrow> os_open s' = fd # os_open s \<and> fd \<notin> set (os_open s)
        \<and> (\<exists>eps. resolve_udp_endpoints gai host port family = Inr eps \<and> ep \<in> set eps)"
  using assms(1) [unfolded open_udp_socket_def]
  by (elim disjE exE conjE then_do_cases [elim_format]; simp?)
     (use try_candidates_open [OF _ assms(2)] in \<open>fastforce split: sum.splits\<close>)+

section \<open>The receive loop\<close>

text \<open>The index of the \<open>k\<close>-th datagram the loop reads: with a deadline the clock is read before each.\<close>

definition receive_index :: "real option \<Rightarrow> nat \<Rightarrow> nat \<Rightarrow> nat" where
  "receive_index deadline start k = (if deadline = None then start + k else start + 2 * k + 1)"

definition from_host :: "udp \<Rightarrow> filtered_socket \<Rightarrow> nat \<Rightarrow> bool" where
  "from_host net s n \<longleftrightarrow>
     (case u_recv net n of
        Recv_error e \<Rightarrow> True
      | Datagram d address \<Rightarrow> fs_key s = None \<or> host_key_of (u_pton net) (fs_family s) address = Inr (fs_key s))"

lemma receive_index_0 [simp]: "receive_index None n 0 = n" "receive_index (Some t) n 0 = Suc n"
  by (simp_all add: receive_index_def)

lemma receive_index_Suc: "receive_index dl n (Suc k) = receive_index dl (if dl = None then n + 1 else n + 2) k"
  by (simp add: receive_index_def)

lemma recv_loop_simps:
  "recv_loop net (Suc fuel) dl s =
     (let n = receive_index dl (fs_calls s) 0;
          s1 = s\<lparr>fs_calls := n\<rparr>; s2 = s\<lparr>fs_calls := n + 1\<rparr> in
      if \<exists>t. dl = Some t \<and> t \<le> u_clock net (fs_calls s) then Some (Inl Py_TimeoutError, s1)
      else
        (case u_recv net n of
           Recv_error e \<Rightarrow> Some (Inl e, s2)
         | Datagram d a \<Rightarrow>
             (case (if fs_key s = None then Inr None else host_key_of (u_pton net) (fs_family s) a) of
                Inl e \<Rightarrow> Some (Inl e, s2)
              | Inr key \<Rightarrow>
                  if key = fs_key s
                  then Some (Inr d, if length a > 1 then s2\<lparr>fs_reply_port := Some (a ! 1)\<rparr> else s2)
                  else recv_loop net fuel dl s2)))"
  by (cases dl) (auto simp: Let_def fs_tick_def numeral_2_eq_2 split: arrival.splits sum.splits)

lemma recv_loop_exact:
  assumes "recv_loop net fuel dl s = Some (Inr d, s')"
  shows "\<exists>k a. u_recv net (receive_index dl (fs_calls s) k) = Datagram d a
     \<and> from_host net s (receive_index dl (fs_calls s) k)
     \<and> (\<forall>j < k. \<not> from_host net s (receive_index dl (fs_calls s) j))
     \<and> (\<forall>t. dl = Some t \<longrightarrow> (\<forall>j \<le> k. u_clock net (fs_calls s + 2 * j) < t))
     \<and> (length a > 1 \<longrightarrow> fs_reply_port s' = Some (a ! 1))"
  using assms
proof (induction fuel arbitrary: s)
  case (Suc fuel)
  let ?n = "receive_index dl (fs_calls s) 0" and ?s2 = "s\<lparr>fs_calls := receive_index dl (fs_calls s) 0 + 1\<rparr>"
  from Suc.prems have now: "\<And>t. dl = Some t \<Longrightarrow> u_clock net (fs_calls s) < t"
    unfolding recv_loop_simps Let_def by (auto simp: not_le split: if_splits)
  from Suc.prems obtain dg a where dg: "u_recv net ?n = Datagram dg a"
    unfolding recv_loop_simps Let_def by (auto split: if_splits arrival.splits)
  show ?case
  proof (cases "from_host net s ?n")
    case True
    with Suc.prems dg now have "dg = d" "length a > 1 \<longrightarrow> fs_reply_port s' = Some (a ! 1)"
      unfolding recv_loop_simps Let_def from_host_def by (auto split: if_splits sum.splits)
    with True dg now show ?thesis by (intro exI [of _ 0] exI [of _ a]) auto
  next
    case False
    with Suc.prems dg have "recv_loop net fuel dl ?s2 = Some (Inr d, s')"
      unfolding recv_loop_simps Let_def from_host_def by (auto split: if_splits sum.splits)
    from Suc.IH [OF this] obtain k b where k: "u_recv net (receive_index dl (fs_calls ?s2) k) = Datagram d b"
      "from_host net ?s2 (receive_index dl (fs_calls ?s2) k)"
      "\<forall>j < k. \<not> from_host net ?s2 (receive_index dl (fs_calls ?s2) j)"
      "\<forall>t. dl = Some t \<longrightarrow> (\<forall>j \<le> k. u_clock net (fs_calls ?s2 + 2 * j) < t)"
      "length b > 1 \<longrightarrow> fs_reply_port s' = Some (b ! 1)" by blast
    have idx: "receive_index dl (fs_calls ?s2) j = receive_index dl (fs_calls s) (Suc j)" for j
      by (cases dl) (simp_all add: receive_index_Suc)
    have fh: "from_host net ?s2 = from_host net s" by (simp add: fun_eq_iff from_host_def split: arrival.split)
    have "\<forall>j < Suc k. \<not> from_host net s (receive_index dl (fs_calls s) j)"
      using k(3) False unfolding idx fh less_Suc_eq_0_disj by auto
    moreover have "u_clock net (fs_calls s + 2 * j) < t" if t: "dl = Some t" and j: "j \<le> Suc k" for t j
      using now [OF t] k(4) t j by (cases j) (auto simp: add.commute)
    ultimately show ?thesis
      using k(1,2,5) unfolding idx fh by (intro exI [of _ "Suc k"] exI [of _ b]) auto
  qed
qed simp

lemma recv_loop_returns:
  assumes "\<forall>n \<ge> N. t \<le> u_clock net n" and "N \<le> fs_calls s + 2 * fuel"
  shows "recv_loop net (Suc fuel) (Some t) s \<noteq> None"
  using assms(2)
proof (induction fuel arbitrary: s)
  case 0
  then have "t \<le> u_clock net (fs_calls s)" using assms(1) by simp
  then show ?case unfolding recv_loop_simps by (simp add: Let_def)
next
  case (Suc fuel)
  then have "N \<le> fs_calls (s\<lparr>fs_calls := receive_index (Some t) (fs_calls s) 0 + 1\<rparr>) + 2 * fuel" by simp
  note IH = Suc.IH [OF this]
  show ?case
    unfolding recv_loop_simps [of _ "Suc fuel"] Let_def
    using IH by (simp split: arrival.splits sum.splits)
qed

section \<open>Properties\<close>

text \<open>C1.
  Resolution keeps the resolver's usable rows: for valid arguments the candidates are the UDP rows of
  IPv4 and IPv6 with an address tuple of the right shape, each once, in the order the resolver gave
  them; the call fails with the redacted \<open>EndpointError\<close> exactly when the resolver fails or no row is
  usable (the ports of the rows being valid).
\<close>

theorem resolve_exact:
  assumes "host = PyStr h \<or> host = PyBytes b" and "h \<noteq> []" and "b \<noteq> []"
    and "validate_udp_port port False = Inr ()" and "validate_family family = Inr ()"
    and "list_all port_ok (map key_of (filter usable infos))"
  shows "resolve_udp_endpoints (Inr infos) host port family =
      (let keys = first_occurrences (map key_of (filter usable infos)) in
       if keys = [] then Inl EndpointError
       else Inr (map (\<lambda>(f, a). \<lparr>ep_family = f, ep_sockaddr = a\<rparr>) keys))
    \<and> (isinstance_of e Py_OSError \<or> isinstance_of e Py_UnicodeError \<longrightarrow>
       resolve_udp_endpoints (Inl e) host port family = Inl EndpointError)"
proof -
  let ?keys = "first_occurrences (map key_of (filter usable infos))"
  let ?eps = "map (\<lambda>(f, a). \<lparr>ep_family = f, ep_sockaddr = a\<rparr>) ?keys"
  have keys_eps: "map endpoint_key ?eps = ?keys"
    by (simp add: endpoint_key_def case_prod_beta comp_def)
  have "list_all port_ok ?keys" using assms(6) by (simp add: list_all_iff)
  then have "collect_endpoints infos {} = Inr ?eps"
    unfolding collect_endpoints_iff keys_eps by simp
  with assms(1-5) show ?thesis by (auto simp: resolve_udp_endpoints_def Let_def)
qed

theorem resolve_exact_witness:
  "resolve_udp_endpoints
     (Inr [(1, 2, 17, PyTuple [PyStr [], PyInt 5]),
           (AF_INET, 2, 17, PyTuple [PyStr [97], PyInt 5684]), (AF_INET, 0, 0, PyTuple [PyStr [97], PyInt 5684])])
     (PyStr [97]) (PyInt 5684) (PyInt AF_UNSPEC)
   = Inr [\<lparr>ep_family = AF_INET, ep_sockaddr = PyTuple [PyStr [97], PyInt 5684]\<rparr>]"
proof -
  let ?infos = "[(1, 2, 17, PyTuple [PyStr [], PyInt 5]),
    (AF_INET, 2, 17, PyTuple [PyStr [97], PyInt 5684]), (AF_INET, 0, 0, PyTuple [PyStr [97], PyInt 5684])]"
  note ev = af_defs usable_def tuple_of_length_def sockaddr_length_def key_of_def port_ok_def validate_udp_port_def
    validate_family_def
  have "list_all port_ok (map key_of (filter usable ?infos))" by (simp add: ev)
  then show ?thesis
    using resolve_exact [of "PyStr [97]" "[97]" "[0]" "PyInt 5684" "PyInt AF_UNSPEC" ?infos Py_OSError]
    by (simp add: ev)
qed

text \<open>Opening a socket leaks nothing: whatever system calls fail, a successful call leaves exactly one
  new descriptor open, for a candidate of the resolution, and a failed call leaves the open
  descriptors as they were, for the connected socket as for the host-filtered one.
\<close>

theorem open_leaves_one_socket:
  assumes "fresh_descriptors s"
    and "open_connected_udp_socket ok gai host port family local_port timeout s = (r, s')
       \<or> open_host_filtered_udp_socket ok gai host port family local_port timeout s = (r, s')"
  shows "case r of Inl _ \<Rightarrow> os_open s' = os_open s
    | Inr (fd, ep) \<Rightarrow> os_open s' = fd # os_open s \<and> fd \<notin> set (os_open s)
        \<and> (\<exists>eps. resolve_udp_endpoints gai host port family = Inr eps \<and> ep \<in> set eps)"
  using assms(2) open_udp_socket_open [OF _ assms(1)]
  unfolding open_connected_udp_socket_def open_host_filtered_udp_socket_def by blast

theorem open_leaves_one_socket_witness:
  "\<exists>fd ep s'. open_host_filtered_udp_socket (\<lambda>n call. n \<noteq> 1)
      (Inr [(AF_INET, 2, 17, PyTuple [PyStr [97], PyInt 5684]), (AF_INET, 2, 17, PyTuple [PyStr [98], PyInt 5684])])
      (PyStr [97]) (PyInt 5684) (PyInt 0) PyNone (PyFloat 1) \<lparr>os_calls = 0, os_next = 7, os_open = [3]\<rparr>
    = (Inr (fd, ep), s') \<and> os_open s' = [fd, 3] \<and> ep_sockaddr ep = PyTuple [PyStr [98], PyInt 5684]"
proof -
  let ?gai = "Inr [(AF_INET, 2, 17, PyTuple [PyStr [97], PyInt 5684]), (AF_INET, 2, 17, PyTuple [PyStr [98], PyInt 5684])]"
  let ?s = "\<lparr>os_calls = 0, os_next = 7, os_open = [3]\<rparr>"
  have "fst (open_host_filtered_udp_socket (\<lambda>n call. n \<noteq> 1) ?gai (PyStr [97]) (PyInt 5684) (PyInt 0)
      PyNone (PyFloat 1) ?s)
    = Inr (8, \<lparr>ep_family = AF_INET, ep_sockaddr = PyTuple [PyStr [98], PyInt 5684]\<rparr>)"
    by code_simp
  then obtain s' where run: "open_host_filtered_udp_socket (\<lambda>n call. n \<noteq> 1) ?gai (PyStr [97]) (PyInt 5684) (PyInt 0)
      PyNone (PyFloat 1) ?s
    = (Inr (8, \<lparr>ep_family = AF_INET, ep_sockaddr = PyTuple [PyStr [98], PyInt 5684]\<rparr>), s')" by (metis prod.collapse)
  have "fresh_descriptors ?s" by (simp add: fresh_descriptors_def)
  from open_leaves_one_socket [OF this disjI2 [OF run]] run show ?thesis by simp
qed

text \<open>The host-filtered socket returns the first datagram that comes from the target host and no other:
  every datagram read before it came from another host, each of them was read before the deadline of
  the call, the observed reply port is the source port of the datagram returned, and once the clock
  is past the deadline the call returns, however many foreign datagrams arrive.
\<close>

theorem host_recv_filters:
  assumes "fs_timeout s = Some t"
  shows "(host_recv net fuel s = Some (Inr d, s') \<longrightarrow>
      (\<exists>k a. let n = \<lambda>j. fs_calls s + 2 * j + 2 in
         u_recv net (n k) = Datagram d a
         \<and> (fs_key s = None \<or> host_key_of (u_pton net) (fs_family s) a = Inr (fs_key s))
         \<and> (\<forall>j < k. \<not> from_host net s (n j))
         \<and> (\<forall>j \<le> k. u_clock net (n j - 1) < u_clock net (fs_calls s) + t)
         \<and> (length a > 1 \<longrightarrow> fs_reply_port s' = Some (a ! 1))))
    \<and> ((\<exists>N. \<forall>n \<ge> N. u_clock net (fs_calls s) + t \<le> u_clock net n) \<longrightarrow> (\<exists>F. host_recv net F s \<noteq> None))"
proof (intro conjI impI)
  assume "host_recv net fuel s = Some (Inr d, s')"
  then have "recv_loop net fuel (Some (u_clock net (fs_calls s) + t)) (fs_tick s) = Some (Inr d, s')"
    using assms by (simp add: host_recv_def)
  from recv_loop_exact [OF this] obtain k a where k:
    "u_recv net (fs_calls s + 2 * k + 2) = Datagram d a" "from_host net (fs_tick s) (fs_calls s + 2 * k + 2)"
    "\<forall>j < k. \<not> from_host net (fs_tick s) (fs_calls s + 2 * j + 2)"
    "\<forall>j \<le> k. u_clock net (fs_calls s + 2 * j + 1) < u_clock net (fs_calls s) + t"
    "length a > 1 \<longrightarrow> fs_reply_port s' = Some (a ! 1)"
    by (auto simp: receive_index_def fs_tick_def)
  have "from_host net (fs_tick s) = from_host net s"
    by (simp add: fun_eq_iff from_host_def fs_tick_def split: arrival.split)
  with k show "\<exists>k a. let n = \<lambda>j. fs_calls s + 2 * j + 2 in u_recv net (n k) = Datagram d a
         \<and> (fs_key s = None \<or> host_key_of (u_pton net) (fs_family s) a = Inr (fs_key s))
         \<and> (\<forall>j < k. \<not> from_host net s (n j))
         \<and> (\<forall>j \<le> k. u_clock net (n j - 1) < u_clock net (fs_calls s) + t)
         \<and> (length a > 1 \<longrightarrow> fs_reply_port s' = Some (a ! 1))"
    by (intro exI [of _ k] exI [of _ a]) (simp add: from_host_def)
next
  assume "\<exists>N. \<forall>n \<ge> N. u_clock net (fs_calls s) + t \<le> u_clock net n"
  then obtain N where N: "\<forall>n \<ge> N. u_clock net (fs_calls s) + t \<le> u_clock net n" by blast
  from recv_loop_returns [OF N, of "fs_tick s" N] show "\<exists>F. host_recv net F s \<noteq> None"
    using assms unfolding host_recv_def by (intro exI [of _ "Suc N"]) (simp del: recv_loop.simps)
qed

theorem host_recv_filters_witness:
  "\<exists>s'. host_recv
     \<lparr>u_clock = real, u_recv = (\<lambda>n. if n < 4 then Datagram [9] [PyStr [98], PyInt 1] else Datagram [7] [PyStr [97], PyInt 49152]),
      u_pton = (\<lambda>f h. Some (map (\<lambda>c. mk_byte c) h))\<rparr> 9
     \<lparr>fs_family = AF_INET, fs_key = Some (AF_INET, [97], PyInt 0), fs_timeout = Some 30, fs_reply_port = None, fs_calls = 0\<rparr>
     = Some (Inr [7], s') \<and> fs_reply_port s' = Some (PyInt 49152)"
proof -
  let ?net = "\<lparr>u_clock = real, u_recv = (\<lambda>n. if n < 4 then Datagram [9] [PyStr [98], PyInt 1] else Datagram [7] [PyStr [97], PyInt 49152]),
      u_pton = (\<lambda>f h. Some (map (\<lambda>c. mk_byte c) h))\<rparr>"
  let ?s = "\<lparr>fs_family = AF_INET, fs_key = Some (AF_INET, [97], PyInt 0), fs_timeout = Some 30, fs_reply_port = None, fs_calls = 0\<rparr>"
  have run: "map_option fst (host_recv ?net 9 ?s) = Some (Inr [7])" by code_simp
  then obtain s' where s': "host_recv ?net 9 ?s = Some (Inr [7], s')" by (cases "host_recv ?net 9 ?s") auto
  moreover from host_recv_filters [of ?s 30 ?net 9 "[7]" s'] s' have "fs_reply_port s' = Some (PyInt 49152)"
    by (auto simp: Let_def split: if_splits)
  ultimately show ?thesis by blast
qed

end
