(* ===== verification/Dtls_Handshake.thy ===== *)
theory Dtls_Handshake
  imports Udp_Endpoint Coap_Wire Dtls_Reach
begin

text \<open>
  \<open>protocol/dtls_handshake.py\<close> and the part of \<open>DtlsCoapSession.connect\<close> that runs it: the
  transcript that decides whether an appliance stuck after the cookie exchange is sent one cleanup
  alert, the loop that drives a memory-BIO engine up to a deadline, and the mapping of its outcome
  to the exceptions of \<open>connect\<close>. The engine is an argument of the loop (the code passes an
  OpenSSL connection or the PSK engine of \<open>_dtls_psk.py\<close>, duck typed); its contract is the locale
  \<open>dtls_engine\<close>, interpreted on the PSK engine of \<open>Dtls_Psk\<close>.
\<close>

section \<open>Strict records\<close>

definition HEADER :: nat where "HEADER = 13"
definition MAX_TRANSCRIPT :: nat where "MAX_TRANSCRIPT = 32"
definition CLIENT_HELLO :: nat where "CLIENT_HELLO = 1"
definition HELLO_VERIFY_REQUEST :: nat where "HELLO_VERIFY_REQUEST = 3"

definition validate_dtls_mtu :: "pyval \<Rightarrow> unit result" where
  "validate_dtls_mtu mtu =
     (case mtu of
        PyInt n \<Rightarrow> raise_if (\<not> (576 \<le> n \<and> n \<le> 16384)) Py_ValueError
      | _ \<Rightarrow> Inl Py_TypeError)"

text \<open>The message loop of \<open>_complete_epoch_zero_handshake_types\<close>, from an offset on.\<close>

function message_types :: "bytes \<Rightarrow> nat \<Rightarrow> nat list option" where
  "message_types payload offset =
     (if offset \<ge> length payload then Some []
      else if length payload - offset < 12 then None
      else
        let message_length = be_nat (slice payload (offset + 1) (offset + 4));
            fragment_offset = be_nat (slice payload (offset + 6) (offset + 9));
            fragment_length = be_nat (slice payload (offset + 9) (offset + 12));
            end_off = offset + 12 + fragment_length in
        if fragment_offset \<noteq> 0 \<or> fragment_length \<noteq> message_length \<or> end_off > length payload then None
        else map_option (\<lambda>types. unat (payload ! offset) # types) (message_types payload end_off))"
  by pat_completeness auto
termination
  by (relation "measure (\<lambda>(payload, offset). length payload - offset)") auto

declare message_types.simps [simp del]

definition complete_handshake_types :: "bytes \<Rightarrow> nat list option" where
  "complete_handshake_types record =
     (if length record < HEADER \<or> unat (record ! 0) \<noteq> 22
         \<or> slice record 1 3 \<notin> {[0xFE, 0xFF], [0xFE, 0xFD]} \<or> slice record 3 5 \<noteq> [0, 0]
         \<or> be_nat (slice record 11 13) \<noteq> length record - HEADER
      then None
      else
        (case message_types (drop HEADER record) 0 of
           None \<Rightarrow> None
         | Some types \<Rightarrow> if types = [] then None else Some types))"

text \<open>The loop of \<open>_strict_dtls_records\<close>: from an offset on, \<open>n\<close> records split so far.\<close>

function strict_records_from :: "bytes \<Rightarrow> nat \<Rightarrow> nat \<Rightarrow> bytes list option" where
  "strict_records_from datagram offset n =
     (if offset \<ge> length datagram then Some []
      else if length datagram - offset < HEADER then None
      else
        let end_off = offset + HEADER + be_nat (slice datagram (offset + 11) (offset + 13)) in
        if end_off > length datagram then None
        else if n + 1 > MAX_TRANSCRIPT then None
        else map_option (\<lambda>rs. slice datagram offset end_off # rs) (strict_records_from datagram end_off (n + 1)))"
  by pat_completeness auto
termination
  by (relation "measure (\<lambda>(datagram, offset, n). length datagram - offset)") (auto simp: HEADER_def)

declare strict_records_from.simps [simp del]

definition strict_dtls_records :: "bytes \<Rightarrow> bytes list option" where
  "strict_dtls_records datagram =
     (case strict_records_from datagram 0 0 of
        None \<Rightarrow> None
      | Some rs \<Rightarrow> if rs = [] then None else Some rs)"

section \<open>The cleanup transcript\<close>

record transcript =
  t_invalid :: bool
  t_header :: "bytes option"
  t_datagrams :: nat
  t_records :: nat
  t_after_hvr :: bool
  t_hellos :: nat

definition transcript_new :: transcript where
  "transcript_new = \<lparr>t_invalid = False, t_header = None, t_datagrams = 0, t_records = 0,
     t_after_hvr = False, t_hellos = 0\<rparr>"

definition record_sent :: "bytes \<Rightarrow> transcript \<Rightarrow> transcript" where
  "record_sent record t =
     (if complete_handshake_types record \<noteq> Some [CLIENT_HELLO] then t\<lparr>t_invalid := True\<rparr>
      else
        let t = t\<lparr>t_hellos := t_hellos t + 1\<rparr> in
        if t_hellos t > MAX_TRANSCRIPT then t\<lparr>t_invalid := True\<rparr>
        else
          let t = (if t_records t > 0 then t\<lparr>t_after_hvr := True\<rparr> else t); header = take HEADER record in
          (case t_header t of
             None \<Rightarrow> t\<lparr>t_header := Some header\<rparr>
           | Some previous \<Rightarrow>
               if be_nat (slice header 5 11) \<ge> be_nat (slice previous 5 11) then t\<lparr>t_header := Some header\<rparr>
               else t))"

text \<open>The loop over the records of one datagram stops at the first that is not a complete HVR.\<close>

fun note_records :: "bytes list \<Rightarrow> transcript \<Rightarrow> transcript" where
  "note_records [] t = t"
| "note_records (r # rs) t =
     (case complete_handshake_types r of
        None \<Rightarrow> t\<lparr>t_invalid := True\<rparr>
      | Some types \<Rightarrow>
          if \<exists>ty \<in> set types. ty \<noteq> HELLO_VERIFY_REQUEST then t\<lparr>t_invalid := True\<rparr>
          else note_records rs (t\<lparr>t_records := t_records t + 1\<rparr>))"

definition record_received :: "bytes \<Rightarrow> transcript \<Rightarrow> transcript" where
  "record_received datagram t =
     (let t = t\<lparr>t_datagrams := t_datagrams t + 1\<rparr> in
      if t_datagrams t > MAX_TRANSCRIPT then t\<lparr>t_invalid := True\<rparr>
      else
        (case strict_dtls_records datagram of
           None \<Rightarrow> t\<lparr>t_invalid := True\<rparr>
         | Some records \<Rightarrow>
             if t_records t + length records > MAX_TRANSCRIPT then t\<lparr>t_invalid := True\<rparr>
             else note_records records t))"

definition cleanup_alert :: "transcript \<Rightarrow> bytes option" where
  "cleanup_alert t =
     (case t_header t of
        None \<Rightarrow> None
      | Some header \<Rightarrow>
          if t_invalid t \<or> t_hellos t < 2 \<or> \<not> t_after_hvr t \<or> t_datagrams t < 1 \<or> t_records t < 1 then None
          else
            let sequence = be_nat (slice header 5 11) in
            if sequence \<ge> 2 ^ 48 - 1 then None
            else Some ([21] @ slice header 1 3 @ [0, 0] @ nat_be 6 (sequence + 1) @ [0, 2] @ [2, 40]))"

section \<open>Driving a handshake\<close>

text \<open>
  The operations the loop calls on its connection: \<open>do_handshake\<close>, \<open>bio_read\<close>, \<open>bio_write\<close>,
  \<open>DTLSv1_get_timeout\<close> and \<open>DTLSv1_handle_timeout\<close>.
\<close>

record 'c engine =
  e_handshake :: "'c \<Rightarrow> unit result \<times> 'c"
  e_bio_read :: "nat \<Rightarrow> 'c \<Rightarrow> bytes result \<times> 'c"
  e_bio_write :: "bytes \<Rightarrow> 'c \<Rightarrow> nat result \<times> 'c"
  e_get_timeout :: "'c \<Rightarrow> real option result \<times> 'c"
  e_handle_timeout :: "'c \<Rightarrow> unit result \<times> 'c"

text \<open>
  The driver's surroundings, each call numbered: the monotonic clock, \<open>sock.send\<close> (the number of
  bytes it took, or an exception), \<open>select\<close> over the socket and the wake socket (\<open>None\<close> when the
  caller has none), and \<open>sock.recv\<close>.
\<close>

datatype readiness = Woken | Readable | Idle | Select_error exc

record surroundings =
  n_clock :: "nat \<Rightarrow> real"
  n_send :: "nat \<Rightarrow> bytes \<Rightarrow> nat result"
  n_select :: "nat \<Rightarrow> readiness"
  n_recv :: "nat \<Rightarrow> bytes result"

datatype driver_note = Sent_record bytes | Received bytes

record 'c driver =
  dv_conn :: 'c
  dv_calls :: nat
  dv_notes :: "driver_note list"

definition HANDSHAKE_POLL_S :: real where "HANDSHAKE_POLL_S = 1 / 2"
definition MAX_DATAGRAM_SIZE :: nat where "MAX_DATAGRAM_SIZE = 65535"

definition on_engine :: "('c \<Rightarrow> 'a \<times> 'c) \<Rightarrow> 'c driver \<Rightarrow> 'a \<times> 'c driver" where
  "on_engine f s = (case f (dv_conn s) of (r, c) \<Rightarrow> (r, s\<lparr>dv_conn := c\<rparr>))"

definition outside :: "(nat \<Rightarrow> 'a) \<Rightarrow> 'c driver \<Rightarrow> 'a \<times> 'c driver" where
  "outside f s = (f (dv_calls s), s\<lparr>dv_calls := dv_calls s + 1\<rparr>)"

definition noted :: "driver_note \<Rightarrow> 'c driver \<Rightarrow> 'c driver" where
  "noted n s = s\<lparr>dv_notes := dv_notes s @ [n]\<rparr>"

fun send_records :: "surroundings \<Rightarrow> bytes list \<Rightarrow> 'c driver \<Rightarrow> unit result \<times> 'c driver" where
  "send_records net [] s = (Inr (), s)"
| "send_records net (r # rs) s =
     then_do (outside (\<lambda>n. n_send net n r) s) (\<lambda>n s.
       if n \<noteq> length r then (Inl Py_OSError, s)
       else send_records net rs (noted (Sent_record r) s))"

definition send_output :: "surroundings \<Rightarrow> 'c engine \<Rightarrow> 'c driver \<Rightarrow> unit result \<times> 'c driver" where
  "send_output net en s =
     (case on_engine (e_bio_read en MAX_DATAGRAM_SIZE) s of
        (Inl e, s) \<Rightarrow> if e = WantRead then (Inr (), s) else (Inl e, s)
      | (Inr output, s) \<Rightarrow> send_records net (split_dtls output) s)"

text \<open>The network wait; \<open>Inr None\<close> is a timeout.\<close>

definition await :: "surroundings \<Rightarrow> bool \<Rightarrow> 'c driver \<Rightarrow> bytes option result \<times> 'c driver" where
  "await net wake s =
     (if wake then
        (case outside (n_select net) s of
           (Select_error e, s) \<Rightarrow> (Inl e, s)
         | (Woken, s) \<Rightarrow> (Inl HandshakeCancelled, s)
         | (Idle, s) \<Rightarrow> (Inr None, s)
         | (Readable, s) \<Rightarrow> then_do (outside (n_recv net) s) (\<lambda>d s. (Inr (Some d), s)))
      else
        (case outside (n_recv net) s of
           (Inl e, s) \<Rightarrow> if isinstance_of e Py_TimeoutError then (Inr None, s) else (Inl e, s)
         | (Inr d, s) \<Rightarrow> (Inr (Some d), s)))"

text \<open>After a timeout: \<open>Inr None\<close> leaves the loop, \<open>Inr (Some n)\<close> goes on with \<open>n\<close> retransmissions made.\<close>

definition service_timer :: "'c engine \<Rightarrow> nat option \<Rightarrow> nat \<Rightarrow> 'c driver \<Rightarrow> nat option result \<times> 'c driver" where
  "service_timer en retries retransmits s =
     then_do (on_engine (e_get_timeout en) s) (\<lambda>timer s.
       if timer = None \<or> the timer > 0 then (Inr (Some retransmits), s)
       else if retries \<noteq> None \<and> retransmits \<ge> the retries then (Inr None, s)
       else then_do (on_engine (e_handle_timeout en) s) (\<lambda>_ s. (Inr (Some (retransmits + 1)), s)))"

definition socket_phase :: "surroundings \<Rightarrow> 'c engine \<Rightarrow> nat option \<Rightarrow> bool \<Rightarrow> nat \<Rightarrow> 'c driver
     \<Rightarrow> nat option result \<times> 'c driver" where
  "socket_phase net en retries wake retransmits s =
     then_do (await net wake s) (\<lambda>arrived s.
       case arrived of
         None \<Rightarrow> service_timer en retries retransmits s
       | Some d \<Rightarrow>
           if d = [] then (Inr (Some retransmits), s)
           else then_do (on_engine (e_bio_write en d) (noted (Received d) s)) (\<lambda>_ s.
                  (Inr (Some retransmits), s)))"

text \<open>One iteration: \<open>Inl r\<close> is the result of the function, \<open>Inr n\<close> goes on.\<close>

definition iteration :: "surroundings \<Rightarrow> 'c engine \<Rightarrow> real \<Rightarrow> nat option \<Rightarrow> bool \<Rightarrow> nat \<Rightarrow> 'c driver
     \<Rightarrow> (bool result + nat) \<times> 'c driver" where
  "iteration net en deadline retries wake retransmits s =
     (case outside (n_clock net) s of
        (now, s) \<Rightarrow>
          if \<not> now < deadline then (Inl (Inr False), s)
          else
            (case on_engine (e_handshake en) s of
               (Inr _, s) \<Rightarrow> (Inl (Inr True), s)
             | (Inl e, s) \<Rightarrow>
                 if e \<noteq> WantRead then (Inl (Inl e), s)
                 else
                   (case send_output net en s of
                      (Inl e, s) \<Rightarrow> (Inl (Inl e), s)
                    | (Inr _, s) \<Rightarrow>
                        (case outside (n_clock net) s of
                           (now, s) \<Rightarrow>
                             if deadline - now \<le> 0 then (Inl (Inr False), s)
                             else
                               (case socket_phase net en retries wake retransmits s of
                                  (Inl e, s) \<Rightarrow> (Inl (Inl e), s)
                                | (Inr None, s) \<Rightarrow> (Inl (Inr False), s)
                                | (Inr (Some n), s) \<Rightarrow> (Inr n, s))))))"

fun drive_dtls_handshake :: "surroundings \<Rightarrow> 'c engine \<Rightarrow> real \<Rightarrow> nat option \<Rightarrow> bool \<Rightarrow> nat \<Rightarrow> nat \<Rightarrow> 'c driver
     \<Rightarrow> (bool result \<times> 'c driver) option" where
  "drive_dtls_handshake net en deadline retries wake 0 retransmits s = None"
| "drive_dtls_handshake net en deadline retries wake (Suc fuel) retransmits s =
     (case iteration net en deadline retries wake retransmits s of
        (Inl r, s) \<Rightarrow> Some (r, s)
      | (Inr n, s) \<Rightarrow> drive_dtls_handshake net en deadline retries wake fuel n s)"

section \<open>What the transcript decides\<close>

definition sent_of :: "driver_note list \<Rightarrow> bytes list" where
  "sent_of notes = concat (map (\<lambda>n. case n of Sent_record r \<Rightarrow> [r] | Received d \<Rightarrow> []) notes)"

definition received_of :: "driver_note list \<Rightarrow> bytes list" where
  "received_of notes = concat (map (\<lambda>n. case n of Sent_record r \<Rightarrow> [] | Received d \<Rightarrow> [d]) notes)"

definition transcribe :: "driver_note \<Rightarrow> transcript \<Rightarrow> transcript" where
  "transcribe n t = (case n of Sent_record r \<Rightarrow> record_sent r t | Received d \<Rightarrow> record_received d t)"

definition transcript_of :: "driver_note list \<Rightarrow> transcript" where
  "transcript_of notes = fold transcribe notes transcript_new"

definition client_hello :: "bytes \<Rightarrow> bool" where
  "client_hello r \<longleftrightarrow> complete_handshake_types r = Some [CLIENT_HELLO]"

definition hello_verify :: "bytes \<Rightarrow> bool" where
  "hello_verify r \<longleftrightarrow> (\<exists>types. complete_handshake_types r = Some types \<and> set types \<subseteq> {HELLO_VERIFY_REQUEST})"

definition hvr_datagram :: "bytes \<Rightarrow> bool" where
  "hvr_datagram d \<longleftrightarrow> (\<exists>rs. strict_dtls_records d = Some rs \<and> list_all hello_verify rs)"

definition records_in :: "bytes list \<Rightarrow> nat" where
  "records_in ds = sum_list (map (\<lambda>d. length (the (strict_dtls_records d))) ds)"

definition record_seq :: "bytes \<Rightarrow> nat" where
  "record_seq r = be_nat (slice r 5 11)"

text \<open>Only the cookie exchange was seen: ClientHellos out, HelloVerifyRequests in, within the bounds.\<close>

definition cookie_exchange_only :: "driver_note list \<Rightarrow> bool" where
  "cookie_exchange_only notes \<longleftrightarrow>
     list_all client_hello (sent_of notes) \<and> length (sent_of notes) \<le> MAX_TRANSCRIPT
     \<and> list_all hvr_datagram (received_of notes) \<and> length (received_of notes) \<le> MAX_TRANSCRIPT
     \<and> records_in (received_of notes) \<le> MAX_TRANSCRIPT"

definition retried_after_hvr :: "driver_note list \<Rightarrow> bool" where
  "retried_after_hvr notes \<longleftrightarrow>
     (\<exists>before r later. notes = before @ Sent_record r # later \<and> received_of before \<noteq> [])"

lemma notes_simps [simp]:
  "sent_of [] = []" "received_of [] = []"
  "sent_of (ns @ [Sent_record r]) = sent_of ns @ [r]" "sent_of (ns @ [Received d]) = sent_of ns"
  "received_of (ns @ [Sent_record r]) = received_of ns" "received_of (ns @ [Received d]) = received_of ns @ [d]"
  "transcript_of [] = transcript_new" "transcript_of (ns @ [n]) = transcribe n (transcript_of ns)"
  "records_in [] = 0" "records_in (ds @ [d]) = records_in ds + length (the (strict_dtls_records d))"
  by (simp_all add: sent_of_def received_of_def transcript_of_def records_in_def)

lemma retried_after_hvr_simps [simp]:
  "\<not> retried_after_hvr []"
  "retried_after_hvr (ns @ [Received d]) = retried_after_hvr ns"
  "retried_after_hvr (ns @ [Sent_record r]) \<longleftrightarrow> retried_after_hvr ns \<or> received_of ns \<noteq> []"
proof -
  show "\<not> retried_after_hvr []" by (simp add: retried_after_hvr_def)
  have split: "ns @ [x] = before @ y # later \<longleftrightarrow>
      (later = [] \<and> before = ns \<and> x = y) \<or> (\<exists>l. later = l @ [x] \<and> ns = before @ y # l)" for x y before later
    by (cases later rule: rev_cases) auto
  show "retried_after_hvr (ns @ [Received d]) = retried_after_hvr ns"
    "retried_after_hvr (ns @ [Sent_record r]) \<longleftrightarrow> retried_after_hvr ns \<or> received_of ns \<noteq> []"
    by (auto simp: retried_after_hvr_def split)
qed

lemma strict_records_not_Nil: "strict_dtls_records d = Some rs \<Longrightarrow> rs \<noteq> []"
  by (auto simp: strict_dtls_records_def split: option.splits if_splits)

lemma note_records_invalid:
  "t_invalid (note_records rs t) \<longleftrightarrow> t_invalid t \<or> \<not> list_all hello_verify rs"
  by (induction rs arbitrary: t) (auto simp: hello_verify_def split: option.splits)

lemma note_records_valid:
  "list_all hello_verify rs \<Longrightarrow> note_records rs t = t\<lparr>t_records := t_records t + length rs\<rparr>"
  by (induction rs arbitrary: t) (auto simp: hello_verify_def)

text \<open>What each call leaves, as long as the transcript is valid; an invalid one stays invalid.\<close>

lemma transcribe_invalid: "t_invalid t \<Longrightarrow> t_invalid (transcribe n t)"
proof (cases n)
  case (Received d)
  assume "t_invalid t"
  with Received show ?thesis
    by (auto simp: transcribe_def record_received_def Let_def note_records_invalid split: option.splits)
qed (auto simp: transcribe_def record_sent_def Let_def split: option.splits)

lemma record_sent_exact:
  "record_sent r t =
     (if \<not> client_hello r then t\<lparr>t_invalid := True\<rparr>
      else if t_hellos t + 1 > MAX_TRANSCRIPT then t\<lparr>t_hellos := t_hellos t + 1, t_invalid := True\<rparr>
      else t\<lparr>t_hellos := t_hellos t + 1, t_after_hvr := (t_after_hvr t \<or> t_records t > 0),
             t_header := (case t_header t of None \<Rightarrow> Some (take HEADER r)
               | Some p \<Rightarrow> if record_seq p \<le> record_seq (take HEADER r) then Some (take HEADER r) else Some p)\<rparr>)"
  by (cases t) (auto simp: record_sent_def client_hello_def Let_def record_seq_def split: option.splits)

lemma record_received_exact:
  "\<not> t_invalid (record_received d t) \<longleftrightarrow>
     \<not> t_invalid t \<and> hvr_datagram d \<and> t_datagrams t + 1 \<le> MAX_TRANSCRIPT
     \<and> t_records t + length (the (strict_dtls_records d)) \<le> MAX_TRANSCRIPT"
  "\<not> t_invalid (record_received d t) \<Longrightarrow>
     record_received d t = t\<lparr>t_datagrams := t_datagrams t + 1,
       t_records := t_records t + length (the (strict_dtls_records d))\<rparr>"
  by (auto simp: record_received_def hvr_datagram_def Let_def note_records_invalid note_records_valid
      split: option.splits if_splits)

lemma record_seq_take [simp]: "record_seq (take HEADER r) = record_seq r"
  by (simp add: record_seq_def slice_def HEADER_def drop_take)

lemma transcript_invariant:
  "(\<not> t_invalid (transcript_of ns) \<longleftrightarrow> cookie_exchange_only ns)
   \<and> (cookie_exchange_only ns \<longrightarrow>
        t_hellos (transcript_of ns) = length (sent_of ns)
        \<and> t_datagrams (transcript_of ns) = length (received_of ns)
        \<and> t_records (transcript_of ns) = records_in (received_of ns)
        \<and> (records_in (received_of ns) = 0 \<longleftrightarrow> received_of ns = [])
        \<and> (t_after_hvr (transcript_of ns) \<longleftrightarrow> retried_after_hvr ns)
        \<and> (case t_header (transcript_of ns) of
             None \<Rightarrow> sent_of ns = []
           | Some h \<Rightarrow> (\<exists>r \<in> set (sent_of ns). h = take HEADER r \<and> (\<forall>r' \<in> set (sent_of ns). record_seq r' \<le> record_seq r))))"
  (is "?valid ns \<and> (_ \<longrightarrow> ?fields ns)")
proof (induction ns rule: rev_induct)
  case Nil
  show ?case by (simp add: transcript_new_def cookie_exchange_only_def)
next
  case (snoc n ns)
  let ?t = "transcript_of ns"
  show ?case
  proof (cases "cookie_exchange_only ns")
    case False
    with snoc have "t_invalid ?t" by simp
    then have "t_invalid (transcript_of (ns @ [n]))" by (simp add: transcribe_invalid)
    moreover have "\<not> cookie_exchange_only (ns @ [n])"
      using False by (cases n) (auto simp: cookie_exchange_only_def)
    ultimately show ?thesis by simp
  next
    case True
    with snoc have valid: "\<not> t_invalid ?t" and f: "?fields ns" by blast+
    show ?thesis
    proof (cases n)
      case (Sent_record r)
      have "\<not> t_invalid (record_sent r ?t) \<longleftrightarrow> client_hello r \<and> length (sent_of ns) + 1 \<le> MAX_TRANSCRIPT"
        using valid f by (auto simp: record_sent_exact)
      moreover have "cookie_exchange_only (ns @ [n]) \<longleftrightarrow> client_hello r \<and> length (sent_of ns) + 1 \<le> MAX_TRANSCRIPT"
        using True Sent_record by (auto simp: cookie_exchange_only_def)
      moreover have "?fields (ns @ [n])" if "client_hello r \<and> length (sent_of ns) + 1 \<le> MAX_TRANSCRIPT"
        using that f Sent_record
        by (auto simp: record_sent_exact transcribe_def split: option.splits)
      ultimately show ?thesis using Sent_record by (simp add: transcribe_def)
    next
      case (Received d)
      have iff: "cookie_exchange_only (ns @ [n]) \<longleftrightarrow> \<not> t_invalid (record_received d ?t)"
        unfolding record_received_exact(1) using True valid f Received by (auto simp: cookie_exchange_only_def)
      moreover have "?fields (ns @ [n])" if ok: "\<not> t_invalid (record_received d ?t)"
      proof -
        obtain rs where "strict_dtls_records d = Some rs" "rs \<noteq> []"
          using ok strict_records_not_Nil unfolding record_received_exact(1) hvr_datagram_def by blast
        then show ?thesis
          using f unfolding Received by (simp add: transcribe_def record_received_exact(2) [OF ok] cong: option.case_cong)
      qed
      ultimately show ?thesis using Received by (simp add: transcribe_def)
    qed
  qed
qed

section \<open>What every run of the driver keeps\<close>

text \<open>The calls of one iteration in order, and its result in terms of theirs.\<close>

definition iteration_result where
  "iteration_result deadline now s1 h s2 o1 s3 now2 s4 x s5 =
     (if \<not> now < deadline then (Inl (Inr False), s1)
      else case h of Inr _ \<Rightarrow> (Inl (Inr True), s2)
        | Inl e \<Rightarrow> if e \<noteq> WantRead then (Inl (Inl e), s2)
            else case o1 of Inl e \<Rightarrow> (Inl (Inl e), s3)
              | Inr _ \<Rightarrow> if deadline - now2 \<le> 0 then (Inl (Inr False), s4)
                  else case x of Inl e \<Rightarrow> (Inl (Inl e), s5)
                    | Inr None \<Rightarrow> (Inl (Inr False), s5) | Inr (Some n) \<Rightarrow> (Inr n, s5))"

lemma iteration_trace:
  assumes "iteration net en deadline retries wake k s = (r, s')"
  obtains now s1 h s2 o1 s3 now2 s4 x s5 where "outside (n_clock net) s = (now, s1)"
    and "on_engine (e_handshake en) s1 = (h, s2)" and "send_output net en s2 = (o1, s3)"
    and "outside (n_clock net) s3 = (now2, s4)" and "socket_phase net en retries wake k s4 = (x, s5)"
    and "(r, s') = iteration_result deadline now s1 h s2 o1 s3 now2 s4 x s5"
proof -
  obtain now s1 where s1: "outside (n_clock net) s = (now, s1)" by fastforce
  obtain h s2 where s2: "on_engine (e_handshake en) s1 = (h, s2)" by fastforce
  obtain o1 s3 where s3: "send_output net en s2 = (o1, s3)" by fastforce
  obtain now2 s4 where s4: "outside (n_clock net) s3 = (now2, s4)" by fastforce
  obtain x s5 where s5: "socket_phase net en retries wake k s4 = (x, s5)" by fastforce
  have "(r, s') = iteration_result deadline now s1 h s2 o1 s3 now2 s4 x s5"
    using assms unfolding iteration_def iteration_result_def s1 prod.case s2
    by (cases h; cases o1; cases x) (auto simp: s3 s4 s5 split: option.splits if_splits)
  with s1 s2 s3 s4 s5 that show thesis by blast
qed

text \<open>
  A relation between driver states that every call inside the loop respects holds between the state
  before and the state after the function; a handshake reported complete ends with \<open>do_handshake\<close>
  returning normally.
\<close>

locale driver_relation =
  fixes en :: "'c engine" and R :: "'c driver \<Rightarrow> 'c driver \<Rightarrow> bool"
  assumes R_refl: "R s s" and R_trans: "R s s' \<Longrightarrow> R s' s'' \<Longrightarrow> R s s''"
    and R_tick: "R s (s\<lparr>dv_calls := dv_calls s + 1\<rparr>)" and R_noted: "R s (noted n s)"
    and R_handshake: "R s (snd (on_engine (e_handshake en) s))"
    and R_bio_read: "R s (snd (on_engine (e_bio_read en k) s))"
    and R_bio_write: "R s (snd (on_engine (e_bio_write en d) s))"
    and R_get_timeout: "R s (snd (on_engine (e_get_timeout en) s))"
    and R_handle_timeout: "R s (snd (on_engine (e_handle_timeout en) s))"
begin

lemma R_outside: "R s (snd (outside f s))"
  using R_tick by (simp add: outside_def)

lemma R_then:
  assumes "R s (snd m)" and "\<And>x s1. R s1 (snd (f x s1))"
  shows "R s (snd (then_do m f))"
  using assms by (cases m; cases "fst m") (auto intro: R_trans)

lemma R_send_records: "R s (snd (send_records net rs s))"
proof (induction rs arbitrary: s)
  case (Cons r rs)
  have "R s1 (snd (if n \<noteq> length r then (Inl Py_OSError, s1) else send_records net rs (noted (Sent_record r) s1)))"
    for n s1
    using R_trans [OF R_noted Cons.IH] R_refl by simp
  then show ?case unfolding send_records.simps by (rule R_then [OF R_outside])
qed (simp add: R_refl)

lemma R_send_output: "R s (snd (send_output net en s))"
  using R_bio_read [of s MAX_DATAGRAM_SIZE] R_send_records R_trans
  by (fastforce simp: send_output_def split: prod.splits sum.splits)

lemma R_await: "R s (snd (await net wake s))"
proof -
  have "R s (snd (then_do (outside (n_recv net) s1) (\<lambda>d s. (Inr (Some d), s))))" if "R s s1" for s1
    by (rule R_trans [OF that R_then [OF R_outside]]) (simp add: R_refl)
  note recv = this
  obtain a s1 where a: "outside (n_select net) s = (a, s1)" by fastforce
  obtain b s2 where b: "outside (n_recv net) s = (b, s2)" by fastforce
  have "R s s1" "R s s2" using R_outside [of s "n_select net"] R_outside [of s "n_recv net"] a b by simp_all
  then show ?thesis using recv by (cases wake; cases a; cases b) (simp_all add: await_def a b)
qed

lemma R_service_timer: "R s (snd (service_timer en retries k s))"
  unfolding service_timer_def by (auto intro!: R_then R_get_timeout R_handle_timeout R_refl)

lemma R_socket_phase: "R s (snd (socket_phase net en retries wake k s))"
  unfolding socket_phase_def
  by (intro R_then R_await)
     (auto intro!: R_then R_refl R_service_timer intro: R_trans [OF R_noted R_bio_write] split: option.splits)

lemma R_iteration:
  assumes "iteration net en deadline retries wake k s = (r, s')"
  shows "R s s'" and "r = Inl (Inr True) \<Longrightarrow> \<exists>s1. R s s1 \<and> on_engine (e_handshake en) s1 = (Inr (), s')"
proof -
  obtain now s1 h s2 o1 s3 now2 s4 x s5 where s1: "outside (n_clock net) s = (now, s1)"
    and s2: "on_engine (e_handshake en) s1 = (h, s2)" and s3: "send_output net en s2 = (o1, s3)"
    and s4: "outside (n_clock net) s3 = (now2, s4)" and s5: "socket_phase net en retries wake k s4 = (x, s5)"
    and run: "(r, s') = iteration_result deadline now s1 h s2 o1 s3 now2 s4 x s5"
    by (rule iteration_trace [OF assms])
  have r1: "R s s1" using R_outside [of s "n_clock net"] s1 by simp
  have r2: "R s s2" using R_trans [OF r1] R_handshake [of s1] s2 by simp
  have r3: "R s s3" using R_trans [OF r2] R_send_output [of s2 net] s3 by simp
  have r4: "R s s4" using R_trans [OF r3] R_outside [of s3 "n_clock net"] s4 by simp
  have r5: "R s s5" using R_trans [OF r4] R_socket_phase [of s4 net retries wake k] s5 by simp
  show "R s s'" using run r1 r2 r3 r4 r5
    by (auto simp: iteration_result_def split: if_splits sum.splits option.splits)
  show "\<exists>s1. R s s1 \<and> on_engine (e_handshake en) s1 = (Inr (), s')" if "r = Inl (Inr True)"
    using run that r1 s2 by (auto simp: iteration_result_def split: if_splits sum.splits option.splits)
qed

lemma R_drive:
  assumes "drive_dtls_handshake net en deadline retries wake fuel k s = Some (r, s')"
  shows "R s s'" and "r = Inr True \<Longrightarrow> \<exists>s1. R s s1 \<and> on_engine (e_handshake en) s1 = (Inr (), s')"
proof -
  have "R s s' \<and> (r = Inr True \<longrightarrow> (\<exists>s1. R s s1 \<and> on_engine (e_handshake en) s1 = (Inr (), s')))"
    using assms
  proof (induction fuel arbitrary: k s)
    case (Suc fuel)
    obtain i s2 where i: "iteration net en deadline retries wake k s = (i, s2)" by fastforce
    note step = R_iteration [OF i]
    show ?case
    proof (cases i)
      case (Inl x)
      with Suc.prems i step show ?thesis by auto
    next
      case (Inr n)
      with Suc.prems i have "drive_dtls_handshake net en deadline retries wake fuel n s2 = Some (r, s')" by simp
      from Suc.IH [OF this] step(1) show ?thesis using R_trans by blast
    qed
  qed simp
  then show "R s s'" "r = Inr True \<Longrightarrow> \<exists>s1. R s s1 \<and> on_engine (e_handshake en) s1 = (Inr (), s')" by blast+
qed

end

text \<open>Every engine: the calls are numbered upwards. That bounds the number of iterations.\<close>

lemma on_engine_simps [simp]:
  "dv_calls (snd (on_engine f s)) = dv_calls s" "dv_notes (snd (on_engine f s)) = dv_notes s"
  "dv_conn (snd (on_engine f s)) = snd (f (dv_conn s))" "fst (on_engine f s) = fst (f (dv_conn s))"
  by (simp_all add: on_engine_def split: prod.splits)

lemma outside_simps [simp]:
  "dv_calls (snd (outside g s)) = dv_calls s + 1" "dv_notes (snd (outside g s)) = dv_notes s"
  "dv_conn (snd (outside g s)) = dv_conn s"
  by (simp_all add: outside_def)

lemma noted_simps [simp]:
  "dv_calls (noted n s) = dv_calls s" "dv_conn (noted n s) = dv_conn s"
  by (simp_all add: noted_def)

interpretation counting: driver_relation en "\<lambda>s s'. dv_calls s \<le> dv_calls s'" for en :: "'c engine"
  by unfold_locales auto

lemma iteration_counts:
  assumes "iteration net en deadline retries wake k s = (r, s')"
  shows "dv_calls s < dv_calls s'"
proof -
  obtain now s1 h s2 o1 s3 now2 s4 x s5 where s1: "outside (n_clock net) s = (now, s1)"
    and s2: "on_engine (e_handshake en) s1 = (h, s2)" and s3: "send_output net en s2 = (o1, s3)"
    and s4: "outside (n_clock net) s3 = (now2, s4)" and s5: "socket_phase net en retries wake k s4 = (x, s5)"
    and run: "(r, s') = iteration_result deadline now s1 h s2 o1 s3 now2 s4 x s5"
    by (rule iteration_trace [OF assms])
  have "dv_calls s < dv_calls s1" "dv_calls s1 \<le> dv_calls s2" "dv_calls s2 \<le> dv_calls s3"
    "dv_calls s3 \<le> dv_calls s4" "dv_calls s4 \<le> dv_calls s5"
    using outside_simps(1) [of "n_clock net" s] on_engine_simps(1) [of "e_handshake en" s1]
      counting.R_send_output [of s2 net en] outside_simps(1) [of "n_clock net" s3]
      counting.R_socket_phase [of s4 net en retries wake k] s1 s2 s3 s4 s5 by simp_all
  with run show ?thesis by (auto simp: iteration_result_def split: if_splits sum.splits option.splits)
qed

lemma drive_returns:
  assumes "\<forall>n \<ge> N. deadline \<le> n_clock net n" and "N \<le> dv_calls s + fuel"
  shows "drive_dtls_handshake net en deadline retries wake (Suc fuel) k s \<noteq> None"
  using assms(2)
proof (induction fuel arbitrary: k s)
  case 0
  then have "deadline \<le> n_clock net (dv_calls s)" using assms(1) by simp
  then show ?case by (simp add: iteration_def outside_def)
next
  case (Suc fuel)
  obtain r s' where i: "iteration net en deadline retries wake k s = (r, s')" by fastforce
  have "N \<le> dv_calls s' + fuel" using iteration_counts [OF i] Suc.prems by simp
  note IH = Suc.IH [OF this]
  show ?case
    unfolding drive_dtls_handshake.simps(2) [of _ _ _ _ _ "Suc fuel"] i prod.case
    using IH by (simp split: sum.split)
qed

lemma drive_mono:
  assumes "drive_dtls_handshake net en deadline retries wake fuel k s = Some r" and "fuel \<le> fuel'"
  shows "drive_dtls_handshake net en deadline retries wake fuel' k s = Some r"
  using assms
proof (induction fuel arbitrary: fuel' k s)
  case (Suc fuel)
  then obtain n where n: "fuel' = Suc n" "fuel \<le> n" by (cases fuel') auto
  with Suc.prems(1) Suc.IH show ?case by (auto split: prod.splits sum.splits)
qed simp

section \<open>Engines\<close>

text \<open>
  The contract of a connection: an invariant that all five operations keep, and a condition that
  holds whenever \<open>do_handshake\<close> returns.
\<close>

locale dtls_engine =
  fixes en :: "'c engine" and I :: "'c \<Rightarrow> bool" and E :: "'c \<Rightarrow> bool"
  assumes handshake: "I c \<Longrightarrow> I (snd (e_handshake en c))"
    and established: "I c \<Longrightarrow> fst (e_handshake en c) = Inr () \<Longrightarrow> E (snd (e_handshake en c))"
    and bio_read: "I c \<Longrightarrow> I (snd (e_bio_read en k c))"
    and bio_write: "I c \<Longrightarrow> I (snd (e_bio_write en d c))"
    and get_timeout: "I c \<Longrightarrow> I (snd (e_get_timeout en c))"
    and handle_timeout: "I c \<Longrightarrow> I (snd (e_handle_timeout en c))"

sublocale dtls_engine \<subseteq> kept: driver_relation en "\<lambda>s s'. I (dv_conn s) \<longrightarrow> I (dv_conn s')"
  by unfold_locales (auto simp: handshake bio_read bio_write get_timeout handle_timeout)

context dtls_engine
begin

lemma drive:
  assumes "drive_dtls_handshake net en deadline retries wake fuel k s = Some (r, s')" and "I (dv_conn s)"
  shows "I (dv_conn s')" and "r = Inr True \<Longrightarrow> E (dv_conn s')"
proof -
  show "I (dv_conn s')" using kept.R_drive(1) [OF assms(1)] assms(2) by blast
  show "E (dv_conn s')" if r: "r = Inr True"
  proof -
    obtain s1 where s1: "I (dv_conn s1)" and h: "on_engine (e_handshake en) s1 = (Inr (), s')"
      using kept.R_drive(2) [OF assms(1) r] assms(2) by blast
    have "fst (e_handshake en (dv_conn s1)) = Inr ()" "snd (e_handshake en (dv_conn s1)) = dv_conn s'"
      using h by (auto simp: on_engine_def split: prod.splits)
    then show ?thesis using established [OF s1] by simp
  qed
qed

end

text \<open>The engine of \<open>_dtls_psk.py\<close>.\<close>

definition psk_engine :: "crypto \<Rightarrow> dtls engine" where
  "psk_engine c = \<lparr>e_handshake = do_handshake c, e_bio_read = bio_read, e_bio_write = bio_write,
     e_get_timeout = get_timeout c, e_handle_timeout = handle_timeout c\<rparr>"

lemma psk_engine_simps [simp]:
  "e_handshake (psk_engine c) = do_handshake c" "e_bio_read (psk_engine c) = bio_read"
  "e_bio_write (psk_engine c) = bio_write" "e_get_timeout (psk_engine c) = get_timeout c"
  "e_handle_timeout (psk_engine c) = handle_timeout c"
  by (simp_all add: psk_engine_def)

lemma then_do_Inr:
  assumes "fst (then_do m f) = Inr x"
  obtains y s1 where "m = (Inr y, s1)" and "then_do m f = f y s1" and "fst (f y s1) = Inr x"
  using assms by (cases m; cases "fst m") auto

lemma do_handshake_returns:
  assumes "fst (do_handshake c s) = Inr ()"
  shows "d_phase (snd (do_handshake c s)) = Established \<and> d_failed (snd (do_handshake c s)) = None"
proof (cases "d_failed s \<noteq> None \<or> d_phase s = Established")
  case True
  with assms show ?thesis by (auto simp: do_handshake_def)
next
  case False
  show ?thesis
    using assms unfolding do_handshake_def if_not_P [OF False [unfolded de_Morgan_disj, THEN conjunct1]]
      if_not_P [OF False [unfolded de_Morgan_disj, THEN conjunct2]]
    by (elim then_do_Inr) (auto split: if_splits)
qed

interpretation psk: dtls_engine "psk_engine c" "dtls_reach c"
  "\<lambda>s. d_phase s = Established \<and> d_failed s = None" for c
proof unfold_locales
  note steps = dtls_reach.call [where op = Op_handshake] dtls_reach.call [where op = "Op_read _"]
    dtls_reach.call [where op = "Op_write _"] dtls_reach.call [where op = Op_get_timeout]
    dtls_reach.call [where op = Op_handle_timeout]
  show "dtls_reach c (snd (e_handshake (psk_engine c) s))" "dtls_reach c (snd (e_bio_read (psk_engine c) k s))"
    "dtls_reach c (snd (e_bio_write (psk_engine c) d s))" "dtls_reach c (snd (e_get_timeout (psk_engine c) s))"
    "dtls_reach c (snd (e_handle_timeout (psk_engine c) s))" if "dtls_reach c s" for s k d
    using steps [OF that] by simp_all
  show "d_phase (snd (e_handshake (psk_engine c) s)) = Established \<and> d_failed (snd (e_handshake (psk_engine c) s)) = None"
    if "fst (e_handshake (psk_engine c) s) = Inr ()" for s
    using do_handshake_returns that by simp
qed

section \<open>Retransmissions\<close>

text \<open>
  An engine that also counts the calls of \<open>DTLSv1_handle_timeout\<close>. The driver runs on it as it does on
  the engine itself.
\<close>

definition counted :: "'c engine \<Rightarrow> ('c \<times> nat) engine" where
  "counted en =
     \<lparr>e_handshake = (\<lambda>(c, n). case e_handshake en c of (r, c) \<Rightarrow> (r, c, n)),
      e_bio_read = (\<lambda>k (c, n). case e_bio_read en k c of (r, c) \<Rightarrow> (r, c, n)),
      e_bio_write = (\<lambda>d (c, n). case e_bio_write en d c of (r, c) \<Rightarrow> (r, c, n)),
      e_get_timeout = (\<lambda>(c, n). case e_get_timeout en c of (r, c) \<Rightarrow> (r, c, n)),
      e_handle_timeout = (\<lambda>(c, n). case e_handle_timeout en c of (r, c) \<Rightarrow> (r, c, n + 1))\<rparr>"

definition with_count :: "nat \<Rightarrow> 'c driver \<Rightarrow> ('c \<times> nat) driver" where
  "with_count n s = \<lparr>dv_conn = (dv_conn s, n), dv_calls = dv_calls s, dv_notes = dv_notes s\<rparr>"

lemma counted_simps [simp]:
  "on_engine (e_handshake (counted en)) (with_count n s) = map_prod id (with_count n) (on_engine (e_handshake en) s)"
  "on_engine (e_bio_read (counted en) k) (with_count n s) = map_prod id (with_count n) (on_engine (e_bio_read en k) s)"
  "on_engine (e_bio_write (counted en) d) (with_count n s) = map_prod id (with_count n) (on_engine (e_bio_write en d) s)"
  "on_engine (e_get_timeout (counted en)) (with_count n s) = map_prod id (with_count n) (on_engine (e_get_timeout en) s)"
  "on_engine (e_handle_timeout (counted en)) (with_count n s) = map_prod id (with_count (n + 1)) (on_engine (e_handle_timeout en) s)"
  "outside g (with_count n s) = map_prod id (with_count n) (outside g s)"
  "noted x (with_count n s) = with_count n (noted x s)"
  by (simp_all add: counted_def with_count_def on_engine_def outside_def noted_def split: prod.splits)

lemma then_do_count:
  assumes "\<And>x s. f' x (with_count n s) = map_prod id (with_count n) (f x s)"
  shows "then_do (map_prod id (with_count n) m) f' = map_prod id (with_count n) (then_do m f)"
  by (cases m; cases "fst m") (auto simp: assms)

lemma send_records_count: "send_records net rs (with_count n s) = map_prod id (with_count n) (send_records net rs s)"
  by (induction rs arbitrary: s) (auto intro: then_do_count)

lemma send_output_count:
  "send_output net (counted en) (with_count n s) = map_prod id (with_count n) (send_output net en s)"
  by (simp add: send_output_def send_records_count split: prod.split sum.split)

lemma await_count: "await net wake (with_count n s) = map_prod id (with_count n) (await net wake s)"
  by (auto simp: await_def then_do_count split: prod.split sum.split readiness.split)

text \<open>What a timer and a turn of the loop add to the count, given the retransmissions made and allowed.\<close>

definition spends :: "nat option \<Rightarrow> nat \<Rightarrow> nat \<Rightarrow> nat \<Rightarrow> bool" where
  "spends retries k n n' \<longleftrightarrow> n \<le> n' \<and> (\<forall>m. retries = Some m \<and> k \<le> m \<longrightarrow> k + (n' - n) \<le> m)"

lemma service_timer_count:
  obtains n' where "service_timer (counted en) retries k (with_count n s) = map_prod id (with_count n') (service_timer en retries k s)"
    and "spends retries k n n'"
    and "\<And>j. fst (service_timer en retries k s) = Inr (Some j) \<Longrightarrow> j = k + (n' - n)"
proof -
  obtain t s1 where t: "on_engine (e_get_timeout en) s = (t, s1)" by fastforce
  obtain h s2 where h: "on_engine (e_handle_timeout en) s1 = (h, s2)" by fastforce
  show thesis
  proof (cases "\<exists>timer. t = Inr timer \<and> \<not> (timer = None \<or> the timer > 0) \<and> \<not> (retries \<noteq> None \<and> k \<ge> the retries)")
    case True
    with t h show thesis
      by (cases h) (auto simp: service_timer_def spends_def intro!: that [of "n + 1"] split: option.splits)
  next
    case False
    then have r: "service_timer en retries k s = (case t of Inl e \<Rightarrow> (Inl e, s1)
        | Inr timer \<Rightarrow> if timer = None \<or> the timer > 0 then (Inr (Some k), s1) else (Inr None, s1))"
      and r': "service_timer (counted en) retries k (with_count n s) = map_prod id (with_count n) (service_timer en retries k s)"
      using t by (cases t; force simp: service_timer_def)+
    have "j = k" if "fst (service_timer en retries k s) = Inr (Some j)" for j
      using that unfolding r by (auto split: sum.splits if_splits)
    with r' show thesis by (intro that [of n]) (auto simp: spends_def)
  qed
qed


lemma socket_phase_count:
  obtains n' where "socket_phase net (counted en) retries wake k (with_count n s) = map_prod id (with_count n') (socket_phase net en retries wake k s)"
    and "spends retries k n n'"
    and "\<And>j. fst (socket_phase net en retries wake k s) = Inr (Some j) \<Longrightarrow> j = k + (n' - n)"
proof -
  obtain a s1 where a: "await net wake s = (a, s1)" by fastforce
  show thesis
  proof (cases "a = Inr None")
    case True
    obtain n' where "service_timer (counted en) retries k (with_count n s1) = map_prod id (with_count n') (service_timer en retries k s1)"
      "spends retries k n n'" "\<And>j. fst (service_timer en retries k s1) = Inr (Some j) \<Longrightarrow> j = k + (n' - n)"
      by (rule service_timer_count [of en retries k n s1]) blast
    with a True show thesis by (intro that [of n']) (simp_all add: socket_phase_def await_count)
  next
    case False
    have "socket_phase net (counted en) retries wake k (with_count n s) = map_prod id (with_count n) (socket_phase net en retries wake k s)"
      using a False
      by (cases a) (auto simp: socket_phase_def await_count then_do_count split: option.split)
    moreover have "j = k" if "fst (socket_phase net en retries wake k s) = Inr (Some j)" for j
      using a False that
      by (cases a) (auto simp: socket_phase_def split: option.splits if_splits elim!: then_do_Inr)
    ultimately show thesis by (intro that [of n]) (auto simp: spends_def)
  qed
qed

lemma iteration_count:
  obtains n' where "iteration net (counted en) deadline retries wake k (with_count n s) = map_prod id (with_count n') (iteration net en deadline retries wake k s)"
    and "spends retries k n n'"
    and "\<And>j. fst (iteration net en deadline retries wake k s) = Inr j \<Longrightarrow> j = k + (n' - n)"
proof -
  obtain now s1 h s2 o1 s3 now2 s4 x s5 where t: "outside (n_clock net) s = (now, s1)"
    "on_engine (e_handshake en) s1 = (h, s2)" "send_output net en s2 = (o1, s3)"
    "outside (n_clock net) s3 = (now2, s4)" "socket_phase net en retries wake k s4 = (x, s5)"
    by (metis surj_pair)
  obtain n' where x: "socket_phase net (counted en) retries wake k (with_count n s4) = map_prod id (with_count n') (x, s5)"
    "spends retries k n n'" "\<And>j. x = Inr (Some j) \<Longrightarrow> j = k + (n' - n)"
    by (rule socket_phase_count [of net en retries wake k n s4]) (auto simp: t(5))
  have n: "spends retries k n n" by (simp add: spends_def)
  show thesis
  proof (cases "now < deadline \<and> h = Inl WantRead \<and> (\<exists>u. o1 = Inr u) \<and> \<not> deadline - now2 \<le> 0")
    case True
    then show thesis
      by (intro that [of n']) (auto simp: iteration_def t x send_output_count split: sum.splits option.splits)
  next
    case False
    then show thesis
      by (intro that [of n] n)
         (auto simp: iteration_def t send_output_count split: sum.splits option.splits if_splits)
  qed
qed

lemma spends_trans: "spends retries k n n1 \<Longrightarrow> spends retries (k + (n1 - n)) n1 n2 \<Longrightarrow> spends retries k n n2"
  by (auto simp: spends_def)

lemma drive_count:
  obtains n' where "drive_dtls_handshake net (counted en) deadline retries wake fuel k (with_count n s) =
      map_option (map_prod id (with_count n')) (drive_dtls_handshake net en deadline retries wake fuel k s)"
    and "spends retries k n n'"
proof -
  have "\<exists>n'. drive_dtls_handshake net (counted en) deadline retries wake fuel k (with_count n s) =
      map_option (map_prod id (with_count n')) (drive_dtls_handshake net en deadline retries wake fuel k s) \<and> spends retries k n n'"
  proof (induction fuel arbitrary: k n s)
    case 0
    then show ?case by (auto simp: spends_def)
  next
    case (Suc fuel)
    obtain i s1 where i: "iteration net en deadline retries wake k s = (i, s1)" by fastforce
    obtain n1 where n1: "iteration net (counted en) deadline retries wake k (with_count n s) = (i, with_count n1 s1)"
      "spends retries k n n1" "\<And>j. i = Inr j \<Longrightarrow> j = k + (n1 - n)"
      by (rule iteration_count [of net en deadline retries wake k n s]) (auto simp: i)
    show ?case
    proof (cases i)
      case (Inl r)
      with i n1 show ?thesis by (intro exI [of _ n1]) simp
    next
      case (Inr j)
      obtain n2 where n2: "drive_dtls_handshake net (counted en) deadline retries wake fuel j (with_count n1 s1) =
          map_option (map_prod id (with_count n2)) (drive_dtls_handshake net en deadline retries wake fuel j s1)"
        "spends retries j n1 n2" using Suc.IH by blast
      with i n1 Inr spends_trans [OF n1(2)] show ?thesis by (intro exI [of _ n2]) (simp add: id_def)
    qed
  qed
  with that show thesis by blast
qed

section \<open>Properties\<close>

lemma slice_take_header [simp]: "slice (take HEADER r) i j = slice r i j" if "j \<le> HEADER"
  using that by (simp add: slice_def drop_take min_def)

text \<open>C21.
  The HVR cleanup alert is built exactly for a transcript of the cookie exchange alone: every record
  sent is one complete epoch-zero ClientHello, every datagram received splits strictly into complete
  HelloVerifyRequests, neither exceeds its bound, at least two ClientHellos went out, one of them
  after a HelloVerifyRequest arrived, and the largest record number leaves room for one more. The
  alert is then a plaintext fatal handshake_failure that continues that record number, in the
  version of a ClientHello that carried it.
\<close>

theorem hvr_cleanup_exact:
  "(cleanup_alert (transcript_of ns) \<noteq> None \<longleftrightarrow>
      cookie_exchange_only ns \<and> 2 \<le> length (sent_of ns) \<and> retried_after_hvr ns
      \<and> (\<forall>r \<in> set (sent_of ns). record_seq r < 2 ^ 48 - 1))
   \<and> (\<forall>alert. cleanup_alert (transcript_of ns) = Some alert \<longrightarrow>
      (\<exists>r \<in> set (sent_of ns). (\<forall>r' \<in> set (sent_of ns). record_seq r' \<le> record_seq r)
         \<and> alert = [21] @ slice r 1 3 @ [0, 0] @ nat_be 6 (record_seq r + 1) @ [0, 2] @ [2, 40]))"
proof (cases "cookie_exchange_only ns")
  case False
  then show ?thesis
    using transcript_invariant [of ns] by (auto simp: cleanup_alert_def split: option.splits)
next
  case True
  let ?t = "transcript_of ns"
  note inv = transcript_invariant [of ns]
  have t: "\<not> t_invalid ?t" "t_hellos ?t = length (sent_of ns)" "t_datagrams ?t = length (received_of ns)"
    "t_records ?t = records_in (received_of ns)" "records_in (received_of ns) = 0 \<longleftrightarrow> received_of ns = []"
    "t_after_hvr ?t = retried_after_hvr ns"
    using True inv by blast+
  have heard: "received_of ns \<noteq> []" if "retried_after_hvr ns"
    using that by (auto simp: retried_after_hvr_def received_of_def)
  show ?thesis
  proof (cases "t_header ?t")
    case None
    then have "sent_of ns = []" using True inv by simp
    with None show ?thesis by (simp add: cleanup_alert_def)
  next
    case (Some h)
    then obtain r where r: "r \<in> set (sent_of ns)" "h = take HEADER r"
      "\<forall>r' \<in> set (sent_of ns). record_seq r' \<le> record_seq r" using True inv by auto
    have room: "record_seq r < 2 ^ 48 - 1 \<longleftrightarrow> (\<forall>r \<in> set (sent_of ns). record_seq r < 2 ^ 48 - 1)"
      using r(1,3) by (meson le_less_trans)
    have seq: "be_nat (slice h 5 11) = record_seq r" and ver: "slice h 1 3 = slice r 1 3"
      using r(2) slice_take_header [of 11 r 5] slice_take_header [of 3 r 1]
      by (simp_all add: record_seq_def HEADER_def)
    have "cleanup_alert ?t =
        (if 2 \<le> length (sent_of ns) \<and> retried_after_hvr ns \<and> record_seq r < 2 ^ 48 - 1
         then Some ([21] @ slice r 1 3 @ [0, 0] @ nat_be 6 (record_seq r + 1) @ [0, 2] @ [2, 40]) else None)"
      unfolding cleanup_alert_def Some option.case Let_def seq ver t(2-4,6)
      using heard t(1,5) by (auto simp: not_less Suc_le_eq)
    then show ?thesis using True r(1,3) unfolding room by auto
  qed
qed

theorem hvr_cleanup_exact_witness:
  "\<exists>alert. cleanup_alert (transcript_of
      [Sent_record ([22, 0xFE, 0xFF, 0, 0, 0, 0, 0, 0, 0, 0, 0, 12] @ [1, 0, 0, 0, 0, 0, 0, 0, 0, 0, 0, 0]),
       Received ([22, 0xFE, 0xFF, 0, 0, 0, 0, 0, 0, 0, 0, 0, 12] @ [3, 0, 0, 0, 0, 0, 0, 0, 0, 0, 0, 0]),
       Sent_record ([22, 0xFE, 0xFD, 0, 0, 0, 0, 0, 0, 0, 1, 0, 12] @ [1, 0, 0, 0, 0, 1, 0, 0, 0, 0, 0, 0])]) = Some alert
   \<and> length alert = 15 \<and> alert ! 10 = 2"
proof -
  let ?notes = "[Sent_record ([22, 0xFE, 0xFF, 0, 0, 0, 0, 0, 0, 0, 0, 0, 12] @ [1, 0, 0, 0, 0, 0, 0, 0, 0, 0, 0, 0]),
       Received ([22, 0xFE, 0xFF, 0, 0, 0, 0, 0, 0, 0, 0, 0, 12] @ [3, 0, 0, 0, 0, 0, 0, 0, 0, 0, 0, 0]),
       Sent_record ([22, 0xFE, 0xFD, 0, 0, 0, 0, 0, 0, 0, 1, 0, 12] @ [1, 0, 0, 0, 0, 1, 0, 0, 0, 0, 0, 0])] :: driver_note list"
  have "(case cleanup_alert (transcript_of ?notes) of None \<Rightarrow> False | Some a \<Rightarrow> length a = 15 \<and> a ! 10 = 2)"
    by code_simp
  then obtain alert where alert: "cleanup_alert (transcript_of ?notes) = Some alert" "length alert = 15" "alert ! 10 = 2"
    by (auto split: option.splits)
  with hvr_cleanup_exact [of ?notes] have "retried_after_hvr ?notes" by blast
  with alert show ?thesis by blast
qed

text \<open>C22.
  A driven handshake ends: once the clock is past the deadline the function has returned, whatever the
  peer sends and however the engine behaves, and it has had the engine retransmit at most \<open>retries\<close> times
  when it is given such a limit. With the PSK engine a reported completion means that the
  engine has verified the server's Finished message and is in the established state, and every
  intermediate state is one the engine's own operations reach.
\<close>

theorem handshake_driver:
  assumes "\<forall>n \<ge> N. deadline \<le> n_clock net n" and "dtls_reach c conn"
  shows "\<exists>r s' count. (\<forall>fuel > N. drive_dtls_handshake net (psk_engine c) deadline retries wake fuel 0
        \<lparr>dv_conn = conn, dv_calls = start, dv_notes = []\<rparr> = Some (r, s'))
     \<and> (\<forall>fuel > N. drive_dtls_handshake net (counted (psk_engine c)) deadline retries wake fuel 0
        \<lparr>dv_conn = (conn, 0), dv_calls = start, dv_notes = []\<rparr> = Some (r, with_count count s'))
     \<and> (\<forall>limit. retries = Some limit \<longrightarrow> count \<le> limit)
     \<and> dtls_reach c (dv_conn s')
     \<and> (r = Inr True \<longrightarrow> d_phase (dv_conn s') = Established \<and> d_failed (dv_conn s') = None)"
proof -
  let ?s = "\<lparr>dv_conn = conn, dv_calls = start, dv_notes = []\<rparr>"
  let ?t = "\<lparr>dv_conn = (conn, 0), dv_calls = start, dv_notes = []\<rparr> :: (dtls \<times> nat) driver"
  let ?run = "\<lambda>fuel. drive_dtls_handshake net (psk_engine c) deadline retries wake fuel 0 ?s"
  let ?go = "\<lambda>fuel. drive_dtls_handshake net (counted (psk_engine c)) deadline retries wake fuel 0 ?t"
  have s0: "with_count 0 ?s = ?t" by (simp add: with_count_def)
  have "?run (Suc N) \<noteq> None" by (rule drive_returns [OF assms(1)]) simp
  then obtain r s' where r: "?run (Suc N) = Some (r, s')" by auto
  obtain count where count: "?go (Suc N) = map_option (map_prod id (with_count count)) (?run (Suc N))"
    "spends retries 0 0 count"
    using drive_count [of net "psk_engine c" deadline retries wake "Suc N" 0 0 ?s] unfolding s0 by blast
  have "?run fuel = Some (r, s')" "?go fuel = Some (r, with_count count s')" if "fuel > N" for fuel
    using drive_mono [OF r, of fuel] drive_mono [of net "counted (psk_engine c)" deadline retries wake "Suc N" 0 ?t _ fuel]
      count(1) r that by simp_all
  moreover have "dtls_reach c (dv_conn s')" using psk.drive(1) [OF r] assms(2) by simp
  moreover have "d_phase (dv_conn s') = Established \<and> d_failed (dv_conn s') = None" if "r = Inr True"
    using psk.drive(2) [OF r] assms(2) that by simp
  moreover have "count \<le> limit" if "retries = Some limit" for limit using count(2) that by (simp add: spends_def)
  ultimately show ?thesis by blast
qed

theorem handshake_driver_witness:
  "\<exists>r s' count. drive_dtls_handshake
     \<lparr>n_clock = real, n_send = (\<lambda>n d. Inr (length d)), n_select = (\<lambda>n. Idle), n_recv = (\<lambda>n. Inl Py_TimeoutError)\<rparr>
     (counted (psk_engine plain_crypto)) 9 (Some 2) False 12 0 \<lparr>dv_conn = (demo_client, 0), dv_calls = 0, dv_notes = []\<rparr>
       = Some (r, with_count count s')
     \<and> count \<le> 2 \<and> dtls_reach plain_crypto (dv_conn s')"
  using handshake_driver [of 9 9
    "\<lparr>n_clock = real, n_send = (\<lambda>n d. Inr (length d)), n_select = (\<lambda>n. Idle), n_recv = (\<lambda>n. Inl Py_TimeoutError)\<rparr>"
    plain_crypto demo_client "Some 2" False 0, OF _ demo_reach]
  by fastforce

end
