(* ===== verification/Session_Connect.thy ===== *)
theory Session_Connect
  imports Dtls_Handshake Session_State
begin

text \<open>
  \<open>DtlsCoapSession.connect\<close>: validation of its arguments, setup of the connection and the socket,
  the driven handshake of \<open>Dtls_Handshake\<close>, and what becomes of its outcome: which exception is
  raised, what happens to the socket, whether the cleanup alert is sent, and what is published on
  the session. Cancellation signals are observed at fixed points; each observation is a field of the
  attempt's surroundings, as are the outcomes of the provider and of the operating system.
\<close>

section \<open>Arguments\<close>

definition validate_handshake_timeout :: "pyval \<Rightarrow> real \<Rightarrow> real result" where
  "validate_handshake_timeout timeout fallback =
     (case float_of (if timeout = PyNone then PyFloat fallback else timeout) of
        Inl e \<Rightarrow> Inl (if isinstance_of e Py_OverflowError then Py_ValueError else e)
      | Inr seconds \<Rightarrow> if seconds \<le> 0 then Inl Py_ValueError else Inr seconds)"

definition HANDSHAKE_TIMEOUT_S :: real where "HANDSHAKE_TIMEOUT_S = 12"

section \<open>One attempt\<close>

text \<open>
  The identity hook of the provider (\<open>_authenticated_server_identity\<close>): absent, or what it returns
  for the connection; only \<open>None\<close> and a non-zero UUID are accepted.
\<close>

datatype identity = No_identity | Uuid nat | Other_object

record 'c attempt =
  k_net :: surroundings
  k_engine :: "'c engine"
  k_auth_profiled :: bool
  k_local_port :: pyval
  k_cancelled :: bool
  k_new_connection :: "'c result"
  k_open :: "unit result"
  k_cancelled_after_open :: bool
  k_wakeable :: bool
  k_subscribe_fails :: bool
  k_interrupted :: bool
  k_alert_send :: "bytes \<Rightarrow> nat result"
  k_identity :: "('c \<Rightarrow> identity result) option"
  k_closing :: bool

datatype socket_state = No_socket | Open_socket | Closed_socket

record 'c connect_state =
  cs_socket :: socket_state
  cs_alerts :: "bytes list"
  cs_close_notify :: bool
  cs_session :: "('c \<times> nat option) option"

definition connect_start :: "'c connect_state" where
  "connect_start = \<lparr>cs_socket = No_socket, cs_alerts = [], cs_close_notify = False, cs_session = None\<rparr>"

definition fail_closed :: "exc \<Rightarrow> 'c connect_state \<Rightarrow> 'a result \<times> 'c connect_state" where
  "fail_closed e s = (Inl e, s\<lparr>cs_socket := Closed_socket\<rparr>)"

definition check_arguments :: "'c attempt \<Rightarrow> pyval \<Rightarrow> bool \<Rightarrow> pyval \<Rightarrow> (real \<times> bool) result" where
  "check_arguments k timeout cancel_ok cleanup =
     andThen (validate_handshake_timeout timeout HANDSHAKE_TIMEOUT_S) (\<lambda>seconds.
     andThen (raise_if (\<not> cancel_ok) Py_TypeError) (\<lambda>_.
     andThen (case cleanup of PyBool b \<Rightarrow> Inr b | _ \<Rightarrow> Inl Py_TypeError) (\<lambda>cleanup.
     andThen (raise_if (cleanup \<and> \<not> k_auth_profiled k) Py_ValueError) (\<lambda>_.
     andThen (raise_if (cleanup \<and> (case k_local_port k of PyInt p \<Rightarrow> \<not> (1 \<le> p \<and> p \<le> 65535) | _ \<Rightarrow> True))
                Py_ValueError) (\<lambda>_.
     andThen (raise_if (k_cancelled k) SessionClosedError) (\<lambda>_.
       Inr (seconds, cleanup)))))))"

text \<open>Setup up to the start of the handshake: the deadline, and the driver with the new connection.\<close>

definition prepare :: "'c attempt \<Rightarrow> real \<Rightarrow> 'c connect_state \<Rightarrow> (real \<times> 'c driver) result \<times> 'c connect_state" where
  "prepare k seconds s =
     (let deadline = n_clock (k_net k) 0 + seconds in
      then_do (k_new_connection k, s) (\<lambda>conn s.
      if deadline - n_clock (k_net k) 1 \<le> 0 then (Inl SessionTimeoutError, s)
      else
        then_do (k_open k, s) (\<lambda>_ s.
        let s = s\<lparr>cs_socket := Open_socket\<rparr> in
        if k_cancelled_after_open k then fail_closed SessionClosedError s
        else if k_wakeable k \<and> k_subscribe_fails k then fail_closed SessionError s
        else (Inr (deadline, \<lparr>dv_conn = conn, dv_calls = 2, dv_notes = []\<rparr>), s))))"

text \<open>The outcome of the driver when it is not a completed handshake.\<close>

definition not_completed :: "'c attempt \<Rightarrow> bool \<Rightarrow> 'c driver \<Rightarrow> 'c connect_state \<Rightarrow> unit result \<times> 'c connect_state" where
  "not_completed k cleanup d s =
     (case (if cleanup then cleanup_alert (transcript_of (dv_notes d)) else None) of
        None \<Rightarrow> fail_closed SessionTimeoutError s
      | Some alert \<Rightarrow>
          (case k_alert_send k alert of
             Inl _ \<Rightarrow> fail_closed SessionTimeoutError s
           | Inr n \<Rightarrow>
               let s = s\<lparr>cs_alerts := cs_alerts s @ [alert]\<rparr> in
               if n = length alert then fail_closed HandshakePeerCleanupError s
               else fail_closed SessionTimeoutError s))"

definition publish :: "'c attempt \<Rightarrow> 'c driver \<Rightarrow> 'c connect_state \<Rightarrow> unit result \<times> 'c connect_state" where
  "publish k d s =
     (let checked = (case k_identity k of
             None \<Rightarrow> Inr None
           | Some reader \<Rightarrow>
               andThen (reader (dv_conn d)) (\<lambda>found.
                 case found of
                   No_identity \<Rightarrow> Inr None
                 | Uuid u \<Rightarrow> if u = 0 then Inl Py_ValueError else Inr (Some u)
                 | Other_object \<Rightarrow> Inl Py_ValueError)) in
      case checked of
        Inl _ \<Rightarrow> fail_closed AuthenticationError (s\<lparr>cs_close_notify := True\<rparr>)
      | Inr found \<Rightarrow>
          if k_closing k then fail_closed SessionClosedError s
          else (Inr (), s\<lparr>cs_session := Some (dv_conn d, found)\<rparr>))"

definition conclude ::
  "'c attempt \<Rightarrow> bool \<Rightarrow> bool result \<Rightarrow> 'c driver \<Rightarrow> 'c connect_state \<Rightarrow> unit result \<times> 'c connect_state" where
  "conclude k cleanup outcome d s =
     (let peer_hello = (\<exists>g \<in> set (received_of (dv_notes d)). carries_peer_client_hello g);
          interrupted = (k_wakeable k \<and> k_interrupted k);
          completed = (outcome = Inr True) in
      case outcome of
        Inl e \<Rightarrow>
          if e \<noteq> HandshakeCancelled \<and> \<not> isinstance_of e DtlsError \<and> \<not> isinstance_of e Py_OSError
          then (Inl e, s)
          else if e = HandshakeCancelled \<or> interrupted then fail_closed SessionClosedError s
          else if isinstance_of e DtlsError
            then fail_closed (if peer_hello then PeerInitiatedHandshakeError else SessionError) s
          else fail_closed EndpointError s
      | Inr completed \<Rightarrow>
          if interrupted \<and> \<not> completed then fail_closed SessionClosedError s
          else if \<not> completed then not_completed k cleanup d s
          else publish k d s)"

definition connect ::
  "'c attempt \<Rightarrow> nat \<Rightarrow> pyval \<Rightarrow> bool \<Rightarrow> pyval \<Rightarrow> (unit result \<times> 'c connect_state) option" where
  "connect k fuel timeout cancel_ok cleanup =
     (case check_arguments k timeout cancel_ok cleanup of
        Inl e \<Rightarrow> Some (Inl e, connect_start)
      | Inr (seconds, cleanup) \<Rightarrow>
          (case prepare k seconds connect_start of
             (Inl e, s) \<Rightarrow> Some (Inl e, s)
           | (Inr (deadline, d), s) \<Rightarrow>
               (case drive_dtls_handshake (k_net k) (k_engine k) deadline None (k_wakeable k) fuel 0 d of
                  None \<Rightarrow> None
                | Some (outcome, d) \<Rightarrow> Some (conclude k cleanup outcome d s))))"

section \<open>What every outcome leaves behind\<close>

definition caught :: "exc \<Rightarrow> bool" where
  "caught e \<longleftrightarrow> e = HandshakeCancelled \<or> isinstance_of e DtlsError \<or> isinstance_of e Py_OSError"

text \<open>The outcome of the handshake the attempt drives, when it gets that far.\<close>

definition handshake_of :: "'c attempt \<Rightarrow> pyval \<Rightarrow> bool result \<Rightarrow> 'c driver \<Rightarrow> bool" where
  "handshake_of k timeout outcome d \<longleftrightarrow>
     (\<exists>seconds conn fuel. validate_handshake_timeout timeout HANDSHAKE_TIMEOUT_S = Inr seconds \<and> k_new_connection k = Inr conn
        \<and> drive_dtls_handshake (k_net k) (k_engine k) (n_clock (k_net k) 0 + seconds) None (k_wakeable k) fuel 0
            \<lparr>dv_conn = conn, dv_calls = 2, dv_notes = []\<rparr> = Some (outcome, d))"

lemma handshake_unique: "handshake_of k timeout o1 d1 \<Longrightarrow> handshake_of k timeout o2 d2 \<Longrightarrow> o1 = o2 \<and> d1 = d2"
proof -
  have same: "r1 = r2" if "drive_dtls_handshake n e t ret w f1 i s = Some r1" "drive_dtls_handshake n e t ret w f2 i s = Some r2"
    for n e t ret w f1 f2 i s r1 r2
    using drive_mono [OF that(1), of "max f1 f2"] drive_mono [OF that(2), of "max f1 f2"] by simp
  show "handshake_of k timeout o1 d1 \<Longrightarrow> handshake_of k timeout o2 d2 \<Longrightarrow> o1 = o2 \<and> d1 = d2"
    unfolding handshake_of_def by (auto dest: same)
qed

text \<open>What the session may record as the identity of its server, and the exceptions that may leave \<open>connect\<close>.\<close>

definition identity_checked :: "'c attempt \<Rightarrow> 'c \<Rightarrow> nat option \<Rightarrow> bool" where
  "identity_checked k conn found \<longleftrightarrow>
     (case k_identity k of
        None \<Rightarrow> found = None
      | Some reader \<Rightarrow> reader conn = Inr No_identity \<and> found = None
          \<or> (\<exists>u. reader conn = Inr (Uuid u) \<and> u \<noteq> 0 \<and> found = Some u))"

definition documented :: "exc set" where
  "documented = {SessionClosedError, SessionTimeoutError, SessionError, EndpointError, HandshakePeerCleanupError,
     PeerInitiatedHandshakeError, AuthenticationError}"

definition may_raise :: "'c attempt \<Rightarrow> pyval \<Rightarrow> exc \<Rightarrow> bool" where
  "may_raise k timeout e \<longleftrightarrow>
     e \<in> documented \<union> {Py_ValueError, Py_TypeError} \<or> k_new_connection k = Inl e \<or> k_open k = Inl e
     \<or> (\<exists>d. handshake_of k timeout (Inl e) d \<and> \<not> caught e)"

text \<open>
  A success publishes the engine of the completed handshake, with the checked identity and the socket open. A
  failure publishes nothing, raises what it may, and leaves no open socket, unless the handshake raised an exception the
  function does not catch; it sent at most the one cleanup alert the transcript of its handshake allows,
  and only when the caller asked for the cleanup.
\<close>

definition settled :: "'c attempt \<Rightarrow> pyval \<Rightarrow> bool \<Rightarrow> unit result \<times> 'c connect_state \<Rightarrow> bool" where
  "settled k timeout cleanup rs \<longleftrightarrow>
     (case rs of
        (Inr _, s) \<Rightarrow> cs_socket s = Open_socket \<and> cs_alerts s = []
          \<and> (\<exists>d found. handshake_of k timeout (Inr True) d \<and> cs_session s = Some (dv_conn d, found)
               \<and> identity_checked k (dv_conn d) found)
      | (Inl e, s) \<Rightarrow> cs_session s = None \<and> may_raise k timeout e
          \<and> (cs_socket s = Open_socket \<longrightarrow> (\<exists>d. handshake_of k timeout (Inl e) d) \<and> \<not> caught e)
          \<and> (cs_alerts s = [] \<or> cleanup \<and> (\<exists>d alert. handshake_of k timeout (Inr False) d
               \<and> cleanup_alert (transcript_of (dv_notes d)) = Some alert \<and> cs_alerts s = [alert])))"

text \<open>Nothing but the handshake and the identity stands in the way of success.\<close>

definition unhindered :: "'c attempt \<Rightarrow> pyval \<Rightarrow> bool \<Rightarrow> pyval \<Rightarrow> bool" where
  "unhindered k timeout cancel_ok cleanup \<longleftrightarrow>
     (\<exists>seconds cl. check_arguments k timeout cancel_ok cleanup = Inr (seconds, cl)
        \<and> n_clock (k_net k) 1 < n_clock (k_net k) 0 + seconds)
     \<and> k_open k = Inr () \<and> \<not> k_cancelled_after_open k \<and> \<not> (k_wakeable k \<and> k_subscribe_fails k) \<and> \<not> k_closing k"

definition unpublished :: "'c connect_state \<Rightarrow> bool" where
  "unpublished s \<longleftrightarrow> cs_session s = None \<and> cs_alerts s = []"

lemma fail_closed_settled: "unpublished s \<Longrightarrow> e \<in> documented \<Longrightarrow> settled k timeout cleanup (fail_closed e s)"
  by (simp add: settled_def fail_closed_def unpublished_def may_raise_def)

lemma not_completed_settled:
  "unpublished s \<Longrightarrow> handshake_of k timeout (Inr False) d \<Longrightarrow> settled k timeout cleanup (not_completed k cleanup d s)"
  by (auto simp: not_completed_def settled_def fail_closed_def unpublished_def may_raise_def documented_def Let_def
      split: option.splits sum.splits if_splits)

lemma publish_settled:
  assumes "unpublished s" and "cs_socket s = Open_socket" and "handshake_of k timeout (Inr True) d"
  shows "settled k timeout cleanup (publish k d s)"
    and "\<not> k_closing k \<Longrightarrow> identity_checked k (dv_conn d) found \<Longrightarrow> fst (publish k d s) = Inr ()"
proof -
  show "settled k timeout cleanup (publish k d s)"
  proof (cases "k_identity k")
    case None
    with assms show ?thesis
      by (auto simp: publish_def settled_def fail_closed_def unpublished_def may_raise_def documented_def identity_checked_def)
  next
    case (Some reader)
    with assms show ?thesis
      by (cases "reader (dv_conn d)")
         (auto simp: publish_def settled_def fail_closed_def unpublished_def may_raise_def documented_def
            identity_checked_def Let_def split: identity.splits)
  qed
  show "fst (publish k d s) = Inr ()" if "\<not> k_closing k" "identity_checked k (dv_conn d) found"
    using that by (auto simp: publish_def identity_checked_def Let_def split: option.splits)
qed

lemma conclude_settled:
  assumes "unpublished s" and "cs_socket s = Open_socket" and "handshake_of k timeout outcome d"
  shows "settled k timeout cleanup (conclude k cleanup outcome d s)"
proof (cases outcome)
  case (Inl e)
  with assms show ?thesis
    by (auto simp: conclude_def Let_def settled_def caught_def unpublished_def fail_closed_def may_raise_def documented_def)
next
  case (Inr b)
  with assms fail_closed_settled [of s SessionClosedError k timeout cleanup] show ?thesis
    by (cases b) (auto simp: conclude_def Let_def documented_def intro: not_completed_settled publish_settled(1))
qed

lemma check_arguments_errors:
  "check_arguments k timeout cancel_ok cleanup = Inl e \<Longrightarrow> e \<in> documented \<union> {Py_ValueError, Py_TypeError}"
  by (auto simp: check_arguments_def validate_handshake_timeout_def float_of_def documented_def isinstance_of_def eval_nat_numeral
      result_simps split: pyval.splits if_splits)

lemma prepare_Inl: "prepare k seconds connect_start = (Inl e, s) \<Longrightarrow> settled k timeout cleanup (Inl e, s)"
  by (auto simp: prepare_def Let_def settled_def connect_start_def fail_closed_def may_raise_def documented_def
      split: if_splits dest!: then_do_cases)

lemma prepare_Inr:
  assumes "prepare k seconds connect_start = (Inr (deadline, d), s)"
  shows "k_new_connection k = Inr (dv_conn d)" and "unpublished s" and "cs_socket s = Open_socket"
    and "deadline = n_clock (k_net k) 0 + seconds" and "d = \<lparr>dv_conn = dv_conn d, dv_calls = 2, dv_notes = []\<rparr>"
  using assms
  by (auto simp: prepare_def Let_def connect_start_def unpublished_def fail_closed_def
      split: if_splits dest!: then_do_cases)

text \<open>
  With a wake socket the loop does not catch a timeout of \<open>recv\<close>. A datagram from another host makes
  \<open>select\<close> report the socket readable, \<open>recv\<close> discards it and times out waiting for the next, and
  \<open>connect\<close> takes the \<open>TimeoutError\<close>, an \<open>OSError\<close>, for a failure of the socket.
\<close>

lemma stray_datagram_ends_attempt:
  assumes "n_select net (dv_calls s) = Readable" and "n_recv net (dv_calls s + 1) = Inl Py_TimeoutError"
  shows "fst (await net True s) = Inl Py_TimeoutError"
    and "\<not> (k_wakeable k \<and> k_interrupted k) \<Longrightarrow> fst (conclude k cleanup (Inl Py_TimeoutError) d cs) = Inl EndpointError"
  using assms by (auto simp: await_def outside_def conclude_def fail_closed_def Let_def isinstance_of_def eval_nat_numeral)

section \<open>Properties\<close>

text \<open>C20.
  connect() returns once the clock is past its deadline, over any engine, and settles everything
  it touched. It succeeds only over a handshake its own engine completed, and then that engine is published with
  the socket open and the identity the provider's hook read from it (absent, or a non-zero UUID); nothing else
  standing in the way, it succeeds whenever the handshake completes and the identity is acceptable. On
  a failure nothing is published and no socket stays open, unless the engine raised an exception connect()
  does not catch; what it raises is one of the documented errors, an argument error, what creating the connection or
  opening the socket raised, or that exception; and at most one cleanup alert was sent, the one of the
  transcript of its handshake, on request and after a handshake that did not complete.
\<close>

theorem connect_settles:
  assumes "\<And>T. \<exists>N. \<forall>n \<ge> N. T \<le> n_clock (k_net k) n"
  shows "\<exists>F r s. (\<forall>fuel \<ge> F. connect k fuel timeout cancel_ok cleanup = Some (r, s))
    \<and> settled k timeout (cleanup = PyBool True) (r, s)
    \<and> (\<forall>d found. unhindered k timeout cancel_ok cleanup \<and> handshake_of k timeout (Inr True) d
         \<and> identity_checked k (dv_conn d) found \<longrightarrow> r = Inr ())"
proof (cases "check_arguments k timeout cancel_ok cleanup")
  case (Inl e)
  then show ?thesis using check_arguments_errors [OF Inl]
    by (intro exI [of _ 0] exI [of _ "Inl e"] exI [of _ connect_start])
       (auto simp: connect_def settled_def connect_start_def may_raise_def unhindered_def)
next
  case (Inr sc)
  then obtain seconds cl where args: "check_arguments k timeout cancel_ok cleanup = Inr (seconds, cl)"
    by (cases sc) auto
  then have cl: "cl = (cleanup = PyBool True)" and secs: "validate_handshake_timeout timeout HANDSHAKE_TIMEOUT_S = Inr seconds"
    by (auto simp: check_arguments_def result_simps split: pyval.splits)
  obtain p s0 where prepared: "prepare k seconds connect_start = (p, s0)" by fastforce
  show ?thesis
  proof (cases p)
    case (Inl e)
    then have "settled k timeout cl (Inl e, s0)" using prepare_Inl [of k seconds e s0 timeout cl] prepared by simp
    moreover have "\<not> (unhindered k timeout cancel_ok cleanup \<and> handshake_of k timeout (Inr True) d)" for d
      using prepared Inl args by (auto simp: unhindered_def handshake_of_def prepare_def Let_def split: if_splits)
    ultimately show ?thesis using Inl prepared args
      by (intro exI [of _ 0] exI [of _ "Inl e"] exI [of _ s0]) (auto simp: connect_def cl)
  next
    case (Inr dd)
    then obtain deadline d where prep: "prepare k seconds connect_start = (Inr (deadline, d), s0)"
      using prepared by (cases dd) auto
    note start = prepare_Inr [OF prep]
    obtain N where N: "\<forall>n \<ge> N. deadline \<le> n_clock (k_net k) n" using assms by blast
    let ?run = "\<lambda>fuel. drive_dtls_handshake (k_net k) (k_engine k) deadline None (k_wakeable k) fuel 0 d"
    have "?run (Suc N) \<noteq> None" by (rule drive_returns [OF N]) simp
    then obtain outcome d' where r: "?run (Suc N) = Some (outcome, d')" by auto
    have ran: "handshake_of k timeout outcome d'"
      using r secs start(1,4,5) unfolding handshake_of_def by metis
    obtain res s where c: "conclude k cl outcome d' s0 = (res, s)" by fastforce
    have "\<forall>fuel \<ge> Suc N. connect k fuel timeout cancel_ok cleanup = Some (res, s)"
      using drive_mono [OF r] args prep c by (simp add: connect_def)
    moreover have "settled k timeout (cleanup = PyBool True) (res, s)"
      using conclude_settled [OF start(2,3) ran, of cl] c cl by simp
    moreover have "res = Inr ()" if "unhindered k timeout cancel_ok cleanup" "handshake_of k timeout (Inr True) e"
      "identity_checked k (dv_conn e) found" for e found
    proof -
      have "outcome = Inr True" "d' = e" using handshake_unique [OF ran that(2)] by simp_all
      then show ?thesis
        using publish_settled(2) [OF start(2,3), of k timeout d' found] ran that c
        by (simp add: conclude_def Let_def unhindered_def)
    qed
    ultimately show ?thesis by blast
  qed
qed

text \<open>With the engine of \<open>_dtls_psk.py\<close> a published connection is established by a verified Finished.\<close>

lemma published_established:
  assumes "k_engine k = psk_engine c" and "\<And>conn. k_new_connection k = Inr conn \<Longrightarrow> dtls_reach c conn"
    and "settled k timeout cleanup (Inr (), s)"
  shows "\<exists>conn found. cs_session s = Some (conn, found) \<and> dtls_reach c conn \<and> d_phase conn = Established \<and> d_failed conn = None"
proof -
  obtain d found where d: "handshake_of k timeout (Inr True) d" "cs_session s = Some (dv_conn d, found)"
    using assms(3) by (auto simp: settled_def)
  then obtain t fuel conn where "drive_dtls_handshake (k_net k) (psk_engine c) t None (k_wakeable k) fuel 0
      \<lparr>dv_conn = conn, dv_calls = 2, dv_notes = []\<rparr> = Some (Inr True, d)" "k_new_connection k = Inr conn"
    by (auto simp: handshake_of_def assms(1))
  with psk.drive [OF this(1)] assms(2) d(2) show ?thesis by simp
qed

text \<open>An engine whose handshake completes at once, and a provider that reads a UUID from it.\<close>

definition eager_attempt :: "unit attempt" where
  "eager_attempt = \<lparr>k_net = \<lparr>n_clock = real, n_send = (\<lambda>n d. Inr (length d)), n_select = (\<lambda>n. Idle),
       n_recv = (\<lambda>n. Inl Py_TimeoutError)\<rparr>,
     k_engine = \<lparr>e_handshake = (\<lambda>c. (Inr (), c)), e_bio_read = (\<lambda>n c. (Inl WantRead, c)),
       e_bio_write = (\<lambda>d c. (Inr (length d), c)), e_get_timeout = (\<lambda>c. (Inr None, c)), e_handle_timeout = (\<lambda>c. (Inr (), c))\<rparr>,
     k_auth_profiled = True, k_local_port = PyInt 26849, k_cancelled = False,
     k_new_connection = Inr (), k_open = Inr (), k_cancelled_after_open = False, k_wakeable = True,
     k_subscribe_fails = False, k_interrupted = False, k_alert_send = (\<lambda>d. Inr (length d)),
     k_identity = Some (\<lambda>c. Inr (Uuid 7)), k_closing = False\<rparr>"

theorem connect_settles_witness:
  "\<exists>F s. (\<forall>fuel \<ge> F. connect eager_attempt fuel (PyInt 5) True (PyBool True) = Some (Inr (), s))
    \<and> cs_session s = Some ((), Some 7)"
proof -
  have clock: "\<exists>N. \<forall>n \<ge> N. T \<le> n_clock (k_net eager_attempt) n" for T
  proof -
    obtain N where "T \<le> real N" using real_arch_simple by blast
    then show ?thesis by (intro exI [of _ N]) (auto simp: eager_attempt_def)
  qed
  let ?d = "\<lparr>dv_conn = (), dv_calls = 3, dv_notes = []\<rparr>"
  have five: "validate_handshake_timeout (PyInt 5) HANDSHAKE_TIMEOUT_S = Inr 5"
    by (simp add: validate_handshake_timeout_def float_of_def)
  have "drive_dtls_handshake (k_net eager_attempt) (k_engine eager_attempt) (n_clock (k_net eager_attempt) 0 + 5) None
      (k_wakeable eager_attempt) (Suc 0) 0 \<lparr>dv_conn = (), dv_calls = 2, dv_notes = []\<rparr> = Some (Inr True, ?d)"
    by (simp add: eager_attempt_def iteration_def outside_def on_engine_def)
  then have ran: "handshake_of eager_attempt (PyInt 5) (Inr True) ?d"
    using five unfolding handshake_of_def
    by (intro exI [of _ 5] exI [of _ "()"] exI [of _ "Suc 0"]) (simp add: eager_attempt_def)
  moreover have "unhindered eager_attempt (PyInt 5) True (PyBool True)"
    using five by (auto simp: unhindered_def check_arguments_def eager_attempt_def)
  moreover have "identity_checked eager_attempt (dv_conn ?d) (Some 7)" by (simp add: identity_checked_def eager_attempt_def)
  ultimately obtain F s where "\<forall>fuel \<ge> F. connect eager_attempt fuel (PyInt 5) True (PyBool True) = Some (Inr (), s)"
    "settled eager_attempt (PyInt 5) (PyBool True = PyBool True) (Inr (), s)"
    using connect_settles [of eager_attempt, OF clock, of "PyInt 5" True "PyBool True"] by blast
  then show ?thesis by (auto simp: settled_def identity_checked_def eager_attempt_def)
qed

end
