(* ===== verification/State_Cache.thy ===== *)
theory State_Cache
  imports Prelude
begin

text \<open>
  \<open>ocf/state_cache.py\<close>: the representations last known of an appliance's resources, keyed by href.
  Representations are Python dictionaries, kept in insertion order as association lists over
  \<open>pyval\<close>; keys are compared the way Python compares them (\<open>1\<close>, \<open>1.0\<close> and \<open>True\<close> are one key). The
  observation hook of the descriptor and the registered change callback are arguments; a callback
  that raises is swallowed by the code, so only what it did to its own state is visible.
\<close>

section \<open>Python dictionaries\<close>

fun canon :: "pyval \<Rightarrow> pyval" where
  "canon (PyBool b) = PyFloat (if b then 1 else 0)"
| "canon (PyInt n) = PyFloat (of_int n)"
| "canon (PyTuple xs) = PyTuple (map canon xs)"
| "canon v = v"

fun dict_get :: "(pyval \<times> 'v) list \<Rightarrow> pyval \<Rightarrow> 'v option" where
  "dict_get [] k = None"
| "dict_get ((k', v) # d) k = (if canon k' = canon k then Some v else dict_get d k)"

text \<open>Assignment keeps the place and the key object of an existing entry.\<close>

fun dict_set :: "pyval \<Rightarrow> 'v \<Rightarrow> (pyval \<times> 'v) list \<Rightarrow> (pyval \<times> 'v) list" where
  "dict_set k v [] = [(k, v)]"
| "dict_set k v ((k', v') # d) = (if canon k' = canon k then (k', v) # d else (k', v') # dict_set k v d)"

text \<open>\<open>{**d, **e}\<close> and \<open>d.update(e)\<close>.\<close>

definition dict_merge :: "(pyval \<times> 'v) list \<Rightarrow> (pyval \<times> 'v) list \<Rightarrow> (pyval \<times> 'v) list" where
  "dict_merge d e = fold (\<lambda>(k, v) d. dict_set k v d) e d"

definition dict_ok :: "(pyval \<times> 'v) list \<Rightarrow> bool" where
  "dict_ok d \<longleftrightarrow> distinct (map (canon \<circ> fst) d)"

text \<open>Equality of values (\<open>==\<close>): numbers by value, containers by content, dictionaries in any order.\<close>

lemma size_zip [termination_simp]: "(x, y) \<in> set (zip xs ys) \<Longrightarrow> size x < Suc (size_list size xs)"
  by (drule set_zip_leftD) (induction xs, auto)

fun same_value :: "pyval \<Rightarrow> pyval \<Rightarrow> bool" where
  "same_value (PyList xs) w =
     (case w of PyList ys \<Rightarrow> length xs = length ys \<and> (\<forall>(x, y) \<in> set (zip xs ys). same_value x y) | _ \<Rightarrow> False)"
| "same_value (PyTuple xs) w =
     (case w of PyTuple ys \<Rightarrow> length xs = length ys \<and> (\<forall>(x, y) \<in> set (zip xs ys). same_value x y) | _ \<Rightarrow> False)"
| "same_value (PyDict d) w =
     (case w of
        PyDict e \<Rightarrow> length d = length e
          \<and> (\<forall>(k, v) \<in> set d. case dict_get e k of None \<Rightarrow> False | Some u \<Rightarrow> same_value v u)
      | _ \<Rightarrow> False)"
| "same_value v w = (case py_number v of None \<Rightarrow> v = w | Some x \<Rightarrow> py_number w = Some x)"

section \<open>The cache\<close>

type_synonym rep = "(pyval \<times> pyval) list"

datatype cache_event = Observed pyval rep | Changed bool pystr

record 'd cache =
  c_links :: "(pyval \<times> rep) list"
  c_last_updated :: "(pyval \<times> real) list"
  c_source :: "(pyval \<times> pystr) list"
  c_descriptor :: 'd
  c_calls :: nat
  c_log :: "cache_event list"

record 'd cache_world =
  cw_wall :: "nat \<Rightarrow> real"
  cw_hook :: "('d \<Rightarrow> pyval \<Rightarrow> rep \<Rightarrow> 'd) option"
  cw_on_change :: bool

definition cache_new :: "'d \<Rightarrow> 'd cache" where
  "cache_new d = \<lparr>c_links = [], c_last_updated = [], c_source = [], c_descriptor = d, c_calls = 0, c_log = []\<rparr>"

text \<open>The locked section of \<open>apply_rep\<close>: the resulting representation and whether it differs.\<close>

definition store_rep :: "'d cache_world \<Rightarrow> pyval \<Rightarrow> rep \<Rightarrow> pystr \<Rightarrow> bool \<Rightarrow> 'd cache \<Rightarrow> (rep \<times> bool) \<times> 'd cache" where
  "store_rep w href rep source merge s =
     (let prior = dict_get (c_links s) href;
          resulting = (case prior of
              None \<Rightarrow> rep
            | Some old \<Rightarrow> if merge \<and> old \<noteq> [] then dict_merge old rep else rep);
          changed = (case prior of None \<Rightarrow> True | Some old \<Rightarrow> \<not> same_value (PyDict old) (PyDict resulting)) in
      ((resulting, changed),
       s\<lparr>c_links := dict_set href resulting (c_links s),
         c_last_updated := dict_set href (cw_wall w (c_calls s)) (c_last_updated s),
         c_source := dict_set href source (c_source s), c_calls := c_calls s + 1\<rparr>))"

definition apply_rep :: "'d cache_world \<Rightarrow> pyval \<Rightarrow> pyval \<Rightarrow> pystr \<Rightarrow> bool \<Rightarrow> 'd cache \<Rightarrow> bool \<times> 'd cache" where
  "apply_rep w href rep source merge s =
     (case rep of
        PyDict d \<Rightarrow>
          (case store_rep w href d source merge s of
             ((resulting, changed), s) \<Rightarrow>
               let s = (case cw_hook w of
                     None \<Rightarrow> s
                   | Some hook \<Rightarrow> s\<lparr>c_descriptor := hook (c_descriptor s) href resulting,
                                   c_log := c_log s @ [Observed href resulting]\<rparr>);
                   s = (if cw_on_change w then s\<lparr>c_log := c_log s @ [Changed changed source]\<rparr> else s) in
               (changed, s))
      | _ \<Rightarrow> (False, s))"

text \<open>
  \<open>apply_optimistic\<close> reads under the lock and writes in a second locked section; \<open>others\<close> is what
  other threads do to the cache between the two.
\<close>

definition apply_optimistic ::
  "'d cache_world \<Rightarrow> ('d cache \<Rightarrow> 'd cache) \<Rightarrow> pyval \<Rightarrow> pyval \<Rightarrow> 'd cache \<Rightarrow> bool \<times> 'd cache" where
  "apply_optimistic w others href body s =
     (case body of
        PyDict b \<Rightarrow>
          let merged = dict_merge (case dict_get (c_links s) href of None \<Rightarrow> [] | Some old \<Rightarrow> old) b in
          apply_rep w href (PyDict merged) (str_of ''optimistic'') False (others s)
      | _ \<Rightarrow> (False, s))"

text \<open>
  \<open>index_device_tree\<close>: the entries with an href other than \<open>/device/0\<close>; a falsy \<open>rep\<close> becomes an empty
  dictionary, an unhashable href raises.
\<close>

definition falsy :: "pyval \<Rightarrow> bool" where
  "falsy v \<longleftrightarrow> v \<in> {PyNone, PyBool False, PyInt 0, PyFloat 0, PyStr [], PyBytes [], PyList [], PyTuple [], PyDict []}"

fun index_entries :: "pyval list \<Rightarrow> (pyval \<times> pyval) list \<Rightarrow> (pyval \<times> pyval) list result" where
  "index_entries [] out = Inr out"
| "index_entries (entry # entries) out =
     (case entry of
        PyDict d \<Rightarrow>
          (case dict_get d (PyStr (str_of ''href'')) of
             None \<Rightarrow> index_entries entries out
           | Some href \<Rightarrow>
               if same_value href (PyStr (str_of ''/device/0'')) then index_entries entries out
               else if \<not> hashable href then Inl Py_TypeError
               else
                 index_entries entries
                   (dict_set href
                     (case dict_get d (PyStr (str_of ''rep'')) of
                        None \<Rightarrow> PyDict [] | Some rep \<Rightarrow> if falsy rep then PyDict [] else rep) out))
      | _ \<Rightarrow> index_entries entries out)"

definition index_device_tree :: "pyval \<Rightarrow> (pyval \<times> pyval) list result" where
  "index_device_tree body = (case body of PyList entries \<Rightarrow> index_entries entries [] | _ \<Rightarrow> Inr [])"

definition cache_get :: "pyval \<Rightarrow> 'd cache \<Rightarrow> rep option" where
  "cache_get href s = dict_get (c_links s) href"

definition freshness_s :: "'d cache_world \<Rightarrow> pyval \<Rightarrow> 'd cache \<Rightarrow> real option \<times> 'd cache" where
  "freshness_s w href s =
     (case dict_get (c_last_updated s) href of
        None \<Rightarrow> (None, s)
      | Some ts \<Rightarrow> (Some (cw_wall w (c_calls s) - ts), s\<lparr>c_calls := c_calls s + 1\<rparr>))"

text \<open>\<open>min(d, key=d.get)\<close>: the first key with the least value.\<close>

fun least_entry :: "(pyval \<times> real) list \<Rightarrow> (pyval \<times> real) option" where
  "least_entry [] = None"
| "least_entry ((k, t) # d) =
     (case least_entry d of None \<Rightarrow> Some (k, t) | Some (k', t') \<Rightarrow> if t \<le> t' then Some (k, t) else Some (k', t'))"

definition stalest :: "'d cache_world \<Rightarrow> 'd cache \<Rightarrow> (pyval \<times> real) option \<times> 'd cache" where
  "stalest w s =
     (case least_entry (c_last_updated s) of
        None \<Rightarrow> (None, s)
      | Some (href, ts) \<Rightarrow> (Some (href, cw_wall w (c_calls s) - ts), s\<lparr>c_calls := c_calls s + 1\<rparr>))"

section \<open>Dictionaries: lookup after update\<close>

lemma dict_get_set: "dict_get (dict_set k v d) k' = (if canon k = canon k' then Some v else dict_get d k')"
  by (induction d) auto

lemma dict_get_canon: "canon k = canon k' \<Longrightarrow> dict_get d k = dict_get d k'"
  by (induction d) auto

lemma dict_get_in: "dict_get d k = Some v \<Longrightarrow> \<exists>k'. (k', v) \<in> set d \<and> canon k' = canon k"
  by (induction d) (auto split: if_splits)

lemma dict_get_None: "dict_get d k = None \<longleftrightarrow> canon k \<notin> (canon \<circ> fst) ` set d"
proof (induction d)
  case (Cons kv d)
  then show ?case by (cases kv) (auto dest: sym)
qed simp

lemma dict_get_sole: "dict_ok d \<Longrightarrow> (k, v) \<in> set d \<Longrightarrow> dict_get d k = Some v"
  by (induction d) (auto simp: dict_ok_def rev_image_eqI)

lemma dict_set_keys:
  "map (canon \<circ> fst) (dict_set k v d) =
     (if canon k \<in> set (map (canon \<circ> fst) d) then map (canon \<circ> fst) d else map (canon \<circ> fst) d @ [canon k])"
proof (induction d)
  case (Cons kv d)
  then show ?case by (cases kv) auto
qed simp

lemma dict_set_ok: "dict_ok d \<Longrightarrow> dict_ok (dict_set k v d)"
  by (simp add: dict_ok_def dict_set_keys)

lemma dict_merge_ok: "dict_ok d \<Longrightarrow> dict_ok (dict_merge d e)"
  unfolding dict_merge_def by (induction e arbitrary: d) (auto intro: dict_set_ok)

lemma dict_get_merge:
  assumes "dict_ok e"
  shows "dict_get (dict_merge d e) k = (case dict_get e k of None \<Rightarrow> dict_get d k | Some v \<Rightarrow> Some v)"
  using assms unfolding dict_merge_def
proof (induction e arbitrary: d)
  case (Cons kv e)
  obtain k' v where kv: "kv = (k', v)" by fastforce
  have e: "dict_ok e" and fresh: "canon k' \<notin> (canon \<circ> fst) ` set e"
    using Cons.prems kv by (auto simp: dict_ok_def)
  show ?case
  proof (cases "canon k' = canon k")
    case True
    then have "dict_get e k = None" using fresh by (simp add: dict_get_None)
    then show ?thesis using True Cons.IH [OF e] kv by (simp add: dict_get_set)
  next
    case False
    then show ?thesis using Cons.IH [OF e] kv by (simp add: dict_get_set split: option.split)
  qed
qed simp

text \<open>Equality is reflexive on values whose dictionaries have one entry per key.\<close>

fun value_ok :: "pyval \<Rightarrow> bool" where
  "value_ok (PyList xs) = (\<forall>x \<in> set xs. value_ok x)"
| "value_ok (PyTuple xs) = (\<forall>x \<in> set xs. value_ok x)"
| "value_ok (PyDict d) = (dict_ok d \<and> (\<forall>(k, v) \<in> set d. value_ok v))"
| "value_ok _ = True"

lemma set_zip_same: "(x, y) \<in> set (zip xs xs) \<Longrightarrow> x = y \<and> x \<in> set xs"
  by (induction xs) auto

lemma same_value_refl: "value_ok v \<Longrightarrow> same_value v v"
proof (induction v rule: value_ok.induct)
  case (3 d)
  then show ?case by (auto simp: dict_get_sole)
qed (auto dest: set_zip_same)

section \<open>The fields the cache holds\<close>

text \<open>
  The abstract cache: for every href, up to key equality, the field values held, or nothing. A full
  representation replaces them; a partial one overrides the fields it names.
\<close>

type_synonym field_map = "pyval \<Rightarrow> pyval option"

definition fields :: "rep \<Rightarrow> field_map" where
  "fields d = dict_get d"

definition view :: "'d cache \<Rightarrow> pyval \<Rightarrow> field_map option" where
  "view s href = map_option fields (dict_get (c_links s) href)"

definition written :: "pyval \<Rightarrow> rep \<Rightarrow> bool \<Rightarrow> (pyval \<Rightarrow> field_map option) \<Rightarrow> pyval \<Rightarrow> field_map option" where
  "written href rep merge m h =
     (if canon h = canon href then
        Some (case m h of
            Some old \<Rightarrow> if merge then old ++ fields rep else fields rep
          | None \<Rightarrow> fields rep)
      else m h)"

definition cache_ok :: "'d cache \<Rightarrow> bool" where
  "cache_ok s \<longleftrightarrow> dict_ok (c_links s) \<and> (\<forall>(h, d) \<in> set (c_links s). dict_ok d)"

lemma fields_merge: "dict_ok e \<Longrightarrow> fields (dict_merge d e) = fields d ++ fields e"
  by (auto simp: fields_def fun_eq_iff map_add_def dict_get_merge split: option.split)

lemma fields_Nil [simp]: "fields [] = Map.empty"
  by (simp add: fields_def fun_eq_iff)

lemma dict_set_values: "(h, v) \<in> set (dict_set k u d) \<Longrightarrow> v = u \<or> (h, v) \<in> set d"
  by (induction d) (auto split: if_splits)

lemma apply_rep_links:
  "c_links (snd (apply_rep w href (PyDict d) source merge s)) =
     dict_set href
       (case dict_get (c_links s) href of
          None \<Rightarrow> d | Some old \<Rightarrow> if merge \<and> old \<noteq> [] then dict_merge old d else d) (c_links s)"
  by (simp add: apply_rep_def store_rep_def Let_def split: option.splits)

lemma apply_rep_view:
  assumes "dict_ok d"
  shows "view (snd (apply_rep w href (PyDict d) source merge s)) = written href d merge (view s)"
proof
  fix h
  show "view (snd (apply_rep w href (PyDict d) source merge s)) h = written href d merge (view s) h"
    using dict_get_canon [of h href "c_links s"]
    by (auto simp: view_def written_def apply_rep_links dict_get_set fields_merge [OF assms] split: option.splits)
qed

lemma apply_rep_ok:
  assumes "cache_ok s" and "dict_ok d"
  shows "cache_ok (snd (apply_rep w href (PyDict d) source merge s))"
proof -
  let ?r = "case dict_get (c_links s) href of
     None \<Rightarrow> d | Some old \<Rightarrow> if merge \<and> old \<noteq> [] then dict_merge old d else d"
  have "dict_ok ?r"
    using assms dict_merge_ok dict_get_in by (fastforce simp: cache_ok_def split: option.splits)
  then show ?thesis
    using assms unfolding cache_ok_def apply_rep_links
    by (auto intro: dict_set_ok dest!: dict_set_values)
qed

text \<open>A run of writes: href, representation, source, and whether it is a partial one.\<close>

type_synonym cache_write = "pyval \<times> rep \<times> pystr \<times> bool"

definition apply_writes :: "'d cache_world \<Rightarrow> cache_write list \<Rightarrow> 'd cache \<Rightarrow> 'd cache" where
  "apply_writes w ws s =
     fold (\<lambda>(href, d, source, merge) s. snd (apply_rep w href (PyDict d) source merge s)) ws s"

text \<open>
  What a field should be: going back from the last write, the value of the first write to this href
  that names the field, unless a full representation that does not name it comes before.
\<close>

fun last_written :: "pyval \<Rightarrow> pyval \<Rightarrow> cache_write list \<Rightarrow> pyval option \<Rightarrow> pyval option" where
  "last_written href k [] held = held"
| "last_written href k ((h, d, source, merge) # earlier) held =
     (if canon h \<noteq> canon href then last_written href k earlier held
      else
        (case dict_get d k of
           Some v \<Rightarrow> Some v
         | None \<Rightarrow> if merge then last_written href k earlier held else None))"

definition held :: "'d cache \<Rightarrow> pyval \<Rightarrow> pyval \<Rightarrow> pyval option" where
  "held s href k = Option.bind (dict_get (c_links s) href) (\<lambda>d. dict_get d k)"

lemma held_view: "held s href k = (case view s href of None \<Rightarrow> None | Some f \<Rightarrow> f k)"
  by (simp add: held_def view_def fields_def split: option.split)

lemma held_apply:
  assumes "dict_ok d"
  shows "held (snd (apply_rep w h (PyDict d) source merge s)) href k =
    (if canon h \<noteq> canon href then held s href k
     else case dict_get d k of Some v \<Rightarrow> Some v | None \<Rightarrow> if merge then held s href k else None)"
  unfolding held_view apply_rep_view [OF assms]
  by (auto simp: written_def fields_def map_add_def split: option.split)

lemma apply_writes_snoc [simp]:
  "apply_writes w (ws @ [(h, d, source, merge)]) s = snd (apply_rep w h (PyDict d) source merge (apply_writes w ws s))"
  "apply_writes w [] s = s"
  by (simp_all add: apply_writes_def)

section \<open>Optimistic writes\<close>

text \<open>
  The two locked sections of \<open>apply_optimistic\<close> are not atomic: a notification another thread applies
  in between is overwritten by the representation read before it, also in fields the optimistic write
  does not name.
\<close>

lemma optimistic_write_loses_update:
  fixes s :: "unit cache"
  defines "w \<equiv> \<lparr>cw_wall = real, cw_hook = None, cw_on_change = False\<rparr>"
  assumes "s = snd (apply_rep w (PyStr [1]) (PyDict [(PyStr [2], PyInt 0), (PyStr [3], PyInt 0)]) [] False (cache_new ()))"
  shows "held (snd (apply_optimistic w (\<lambda>s. snd (apply_rep w (PyStr [1]) (PyDict [(PyStr [2], PyInt 7)]) [] True s))
      (PyStr [1]) (PyDict [(PyStr [3], PyInt 1)]) s)) (PyStr [1]) (PyStr [2]) = Some (PyInt 0)"
  unfolding assms by code_simp

lemma apply_optimistic_alone:
  assumes "dict_ok b"
  shows "held (snd (apply_optimistic w (\<lambda>s. s) href (PyDict b) s)) h k =
    (if canon href = canon h then case dict_get b k of Some v \<Rightarrow> Some v | None \<Rightarrow> held s h k else held s h k)"
proof -
  have "view (snd (apply_optimistic w (\<lambda>s. s) href (PyDict b) s)) x = written href b True (view s) x" for x
    using dict_get_canon [of x href "c_links s"]
    by (auto simp: apply_optimistic_def view_def written_def apply_rep_links dict_get_set fields_merge [OF assms]
        Let_def split: option.split)
  then show ?thesis unfolding held_view by (auto simp: written_def fields_def map_add_def split: option.split)
qed

section \<open>Properties\<close>

text \<open>C25.
  The cache holds, of every resource, exactly what the writes said last: after any sequence of full and
  partial representations (polls, sweeps, notifications) a field has the value of the last write that
  named it, unless a later full representation of that resource left it out; other resources are not
  touched, and the dictionaries stay well formed.
\<close>

theorem cache_holds_last_written:
  assumes "cache_ok s" and "list_all (\<lambda>(h, d, source, merge). dict_ok d) ws"
  shows "held (apply_writes w ws s) href k = last_written href k (rev ws) (held s href k)
    \<and> cache_ok (apply_writes w ws s)"
  using assms(2)
proof (induction ws rule: rev_induct)
  case Nil
  show ?case using assms(1) by simp
next
  case (snoc x ws)
  obtain h d source merge where x: "x = (h, d, source, merge)" by (cases x) auto
  have "dict_ok d" using snoc.prems x by simp
  moreover have "held (apply_writes w ws s) href k = last_written href k (rev ws) (held s href k)
      \<and> cache_ok (apply_writes w ws s)"
    by (rule snoc.IH) (use snoc.prems in simp)
  ultimately show ?case
    unfolding x apply_writes_snoc rev_append by (simp add: held_apply apply_rep_ok cong: option.case_cong)
qed

theorem cache_holds_last_written_witness:
  "held (apply_writes \<lparr>cw_wall = real, cw_hook = None, cw_on_change = True\<rparr>
     [(PyStr [1], [(PyStr [2], PyInt 20), (PyStr [3], PyStr [9])], [], False),
      (PyStr [1], [(PyStr [3], PyStr [8])], [], True)] (cache_new ())) (PyStr [1]) (PyStr [2]) = Some (PyInt 20)"
proof -
  let ?ws = "[(PyStr [1], [(PyStr [2], PyInt 20), (PyStr [3], PyStr [9])], [], False),
      (PyStr [1], [(PyStr [3], PyStr [8])], [], True)] :: cache_write list"
  have new: "cache_ok (cache_new ())" by (simp add: cache_ok_def cache_new_def dict_ok_def)
  have "list_all (\<lambda>(h, d, source, merge). dict_ok d) ?ws" by (simp add: dict_ok_def)
  from cache_holds_last_written [OF new this, where w = "\<lparr>cw_wall = real, cw_hook = None, cw_on_change = True\<rparr>" and href = "PyStr [1]" and k = "PyStr [2]"]
  show ?thesis by simp
qed

text \<open>A write reports a change exactly when the representation held differs, by Python's equality, from the
  one held before, and tells the callbacks the truth: the descriptor's hook receives the resulting
  representation, not the fragment, and the change callback the same verdict the caller gets; writing a
  representation again changes nothing.
\<close>

theorem cache_reports_changes:
  assumes "value_ok (PyDict d)"
  shows "(fst (apply_rep w href (PyDict d) source merge s) \<longleftrightarrow>
       (\<forall>old. dict_get (c_links s) href = Some old \<longrightarrow>
          \<not> same_value (PyDict old)
              (PyDict (the (dict_get (c_links (snd (apply_rep w href (PyDict d) source merge s))) href)))))
    \<and> c_log (snd (apply_rep w href (PyDict d) source merge s)) = c_log s
        @ (if cw_hook w = None then []
           else [Observed href (the (dict_get (c_links (snd (apply_rep w href (PyDict d) source merge s))) href))])
        @ (if cw_on_change w then [Changed (fst (apply_rep w href (PyDict d) source merge s)) source] else [])
    \<and> \<not> fst (apply_rep w' href (PyDict d) source' False (snd (apply_rep w href (PyDict d) source False s)))"
  using same_value_refl [OF assms]
  by (auto simp: apply_rep_def store_rep_def Let_def dict_get_set split: option.splits)

theorem cache_reports_changes_witness:
  "fst (apply_rep \<lparr>cw_wall = real, cw_hook = None, cw_on_change = True\<rparr> (PyStr [1]) (PyDict [(PyStr [2], PyInt 1)]) [] False
     (cache_new ()))"
  using cache_reports_changes [of "[(PyStr [2], PyInt 1)]" "\<lparr>cw_wall = real, cw_hook = None, cw_on_change = True\<rparr>"
      "PyStr [1]" "[]" False "cache_new ()"]
  by (simp add: cache_new_def dict_ok_def)

end
