(* ===== verification/Poll_Scheduler.thy ===== *)
theory Poll_Scheduler
  imports State_Cache "HOL-Library.AList"
begin

text \<open>
  \<open>ocf/poll_scheduler.py\<close>: tiers of paths polled on one session into a \<open>State_Cache\<close>, with an active
  and an idle cadence, a throttle after a window of timeouts, a cooldown for a path that timed out and
  a deferral of a path that is being written. The session is an argument (\<open>pw_get\<close> and \<open>pw_pace\<close> on a
  state of any type, to be instantiated by the requests of \<open>Session_Requests\<close>), as is the CBOR decoder;
  \<open>pw_others\<close> is what other threads do to the scheduler and the cache while this one waits: in
  \<open>pace\<close>, in \<open>get\<close>, between the check and the store of a sweep, and between rounds.
\<close>

section \<open>State\<close>

record poll_tier =
  tier_name :: pystr
  tier_interval :: real
  tier_paths :: "pystr list list"
  tier_active_interval :: "real option"
  tier_sweep :: bool
  tier_timeout :: "real option"

text \<open>
  A ghost log. A poll and a stored representation carry the number of the clock reading their deferral
  check made; a write carries the number of its own reading and the time its deferral ends.
\<close>

datatype poll_event = Polled pyval nat | Stored pyval pystr nat | Slept real | Written pyval nat real

datatype 'd other_action = Write pyval real | Touch "'d cache \<Rightarrow> 'd cache" | Take_stats

record ('d, 's) scheduler =
  p_session :: 's
  p_cache :: "'d cache"
  p_next_due :: "(pystr \<times> real) list"
  p_defer :: "(pyval \<times> real) list"
  p_polls :: nat
  p_errors :: nat
  p_last_active :: "bool option"
  p_throttled :: bool
  p_last_success :: real
  p_max_rtt :: real
  p_slow :: nat
  p_timeouts :: nat
  p_last_timeouts :: nat
  p_calls :: nat
  p_log :: "poll_event list"

record ('d, 's) poll_world =
  pw_clock :: "nat \<Rightarrow> real"
  pw_get :: "pystr list \<Rightarrow> real \<Rightarrow> 's \<Rightarrow> (nat \<times> bytes) result \<times> 's"
  pw_pace :: "'s \<Rightarrow> 's"
  pw_loads :: "bytes \<Rightarrow> pyval result"
  pw_active :: "((pyval \<times> rep) list \<Rightarrow> bool result) option"
  pw_cache :: "'d cache_world"
  pw_others :: "nat \<Rightarrow> 'd other_action list"
  pw_stop :: "nat \<Rightarrow> bool"
  pw_timeout :: real
  pw_threshold :: int
  pw_slow_ms :: real

definition clock_read :: "('d, 's) poll_world \<Rightarrow> ('d, 's) scheduler \<Rightarrow> real \<times> ('d, 's) scheduler" where
  "clock_read w s = (pw_clock w (p_calls s), s\<lparr>p_calls := p_calls s + 1\<rparr>)"

definition scheduler_new ::
  "('d, 's) poll_world \<Rightarrow> poll_tier list \<Rightarrow> 's \<Rightarrow> 'd cache \<Rightarrow> ('d, 's) scheduler" where
  "scheduler_new w tiers session cache =
     (let now = pw_clock w 0 in
      \<lparr>p_session = session, p_cache = cache,
       p_next_due = fold (\<lambda>t d. AList.update (tier_name t) now d) tiers [], p_defer = [],
       p_polls = 0, p_errors = 0, p_last_active = None, p_throttled = False, p_last_success = now,
       p_max_rtt = 0, p_slow = 0, p_timeouts = 0, p_last_timeouts = 0, p_calls = 1, p_log = []\<rparr>)"

section \<open>Operations\<close>

definition logged :: "poll_event \<Rightarrow> ('d, 's) scheduler \<Rightarrow> ('d, 's) scheduler" where
  "logged e s = s\<lparr>p_log := p_log s @ [e]\<rparr>"

definition write_in_progress ::
  "('d, 's) poll_world \<Rightarrow> pyval \<Rightarrow> real \<Rightarrow> ('d, 's) scheduler \<Rightarrow> ('d, 's) scheduler" where
  "write_in_progress w href settle s =
     (case clock_read w s of
        (now, s') \<Rightarrow>
          logged (Written href (p_calls s) (now + settle))
            (s'\<lparr>p_defer := dict_set href (now + settle) (p_defer s')\<rparr>))"

definition set_cooldown ::
  "('d, 's) poll_world \<Rightarrow> pyval \<Rightarrow> real \<Rightarrow> ('d, 's) scheduler \<Rightarrow> ('d, 's) scheduler" where
  "set_cooldown w href cooldown s =
     (case clock_read w s of (now, s) \<Rightarrow> s\<lparr>p_defer := dict_set href (now + cooldown) (p_defer s)\<rparr>)"

definition take_window_stats :: "('d, 's) scheduler \<Rightarrow> (real \<times> nat \<times> nat) \<times> ('d, 's) scheduler" where
  "take_window_stats s =
     ((p_max_rtt s, p_slow s, p_timeouts s),
      s\<lparr>p_last_timeouts := p_timeouts s, p_max_rtt := 0, p_slow := 0, p_timeouts := 0\<rparr>)"

text \<open>What other threads do while this one waits: writes, changes of the cache, the health log's statistics.\<close>

definition act :: "('d, 's) poll_world \<Rightarrow> 'd other_action \<Rightarrow> ('d, 's) scheduler \<Rightarrow> ('d, 's) scheduler" where
  "act w a s =
     (case a of
        Write href settle \<Rightarrow> write_in_progress w href settle s
      | Touch f \<Rightarrow> s\<lparr>p_cache := f (p_cache s)\<rparr>
      | Take_stats \<Rightarrow> snd (take_window_stats s))"

definition meantime :: "('d, 's) poll_world \<Rightarrow> ('d, 's) scheduler \<Rightarrow> ('d, 's) scheduler" where
  "meantime w s = fold (act w) (pw_others w (p_calls s)) s"

definition record_rtt ::
  "('d, 's) poll_world \<Rightarrow> real \<Rightarrow> bool \<Rightarrow> ('d, 's) scheduler \<Rightarrow> ('d, 's) scheduler" where
  "record_rtt w rtt_ms timed_out s =
     (if timed_out then s\<lparr>p_timeouts := p_timeouts s + 1\<rparr>
      else
        let s = (if rtt_ms > p_max_rtt s then s\<lparr>p_max_rtt := rtt_ms\<rparr> else s) in
        if rtt_ms \<ge> pw_slow_ms w then s\<lparr>p_slow := p_slow s + 1\<rparr> else s)"

definition count_error :: "('d, 's) scheduler \<Rightarrow> ('d, 's) scheduler" where
  "count_error s = s\<lparr>p_errors := p_errors s + 1\<rparr>"

definition tier_timeout_of :: "('d, 's) poll_world \<Rightarrow> poll_tier \<Rightarrow> real" where
  "tier_timeout_of w tier = (case tier_timeout tier of Some t \<Rightarrow> t | None \<Rightarrow> pw_timeout w)"

definition cooldown_for :: "poll_tier \<Rightarrow> real" where
  "cooldown_for tier = max 5 (min 60 (tier_interval tier * 3))"

definition request_href :: "pystr list \<Rightarrow> pyval" where
  "request_href path = PyStr (str_of ''/'' @ py_join (str_of ''/'') path)"

definition store ::
  "('d, 's) poll_world \<Rightarrow> pyval \<Rightarrow> pyval \<Rightarrow> pystr \<Rightarrow> nat \<Rightarrow> ('d, 's) scheduler \<Rightarrow> ('d, 's) scheduler" where
  "store w href rep source check s =
     logged (Stored href source check)
       (s\<lparr>p_cache := snd (apply_rep (pw_cache w) href rep source False (p_cache s))\<rparr>)"

text \<open>Whether the href is deferred now: the check under the defer lock, with the number of its clock reading.\<close>

definition deferred :: "('d, 's) poll_world \<Rightarrow> pyval \<Rightarrow> ('d, 's) scheduler \<Rightarrow> (bool \<times> nat) \<times> ('d, 's) scheduler" where
  "deferred w href s =
     (case clock_read w s of
        (now, s') \<Rightarrow>
          (((case dict_get (p_defer s') href of None \<Rightarrow> 0 | Some t \<Rightarrow> t) > now, p_calls s), s'))"

text \<open>
  The request both kinds of tier make. \<open>Inl ()\<close>: the tier gives up (the exception is recorded);
  \<open>Inr None\<close>: an unusable response (recorded); \<open>Inr (Some value)\<close>: the decoded representation.
\<close>

definition poll_request ::
  "('d, 's) poll_world \<Rightarrow> poll_tier \<Rightarrow> pystr list \<Rightarrow> ('d, 's) scheduler
     \<Rightarrow> (unit + pyval option) \<times> ('d, 's) scheduler" where
  "poll_request w tier path s =
     (case clock_read w s of
        (t0, s) \<Rightarrow>
          (case pw_get w path (tier_timeout_of w tier) (p_session s) of
             (answer, session) \<Rightarrow>
               let s = meantime w (s\<lparr>p_session := session\<rparr>) in
               (case answer of
                  Inl e \<Rightarrow>
                    if isinstance_of e Py_TimeoutError
                    then (Inl (), set_cooldown w (request_href path) (cooldown_for tier) (record_rtt w 0 True (count_error s)))
                    else
                      (case clock_read w (count_error s) of
                         (now, s) \<Rightarrow> (Inl (), record_rtt w ((now - t0) * 1000) False s))
                | Inr (code, body) \<Rightarrow>
                    (case clock_read w s of
                       (now, s) \<Rightarrow>
                         let s = record_rtt w ((now - t0) * 1000) False s in
                         if code \<noteq> 0x45 \<or> body = [] then (Inr None, count_error s)
                         else
                           (case clock_read w s of
                              (now, s) \<Rightarrow>
                                let s = s\<lparr>p_last_success := now\<rparr> in
                                (case pw_loads w body of
                                   Inl _ \<Rightarrow> (Inr None, count_error s)
                                 | Inr value \<Rightarrow> (Inr (Some value), s)))))))"

text \<open>\<open>_do_tier\<close>, from the path with index \<open>i\<close> on.\<close>

fun do_tier :: "('d, 's) poll_world \<Rightarrow> poll_tier \<Rightarrow> nat \<Rightarrow> pystr list list \<Rightarrow> ('d, 's) scheduler \<Rightarrow> ('d, 's) scheduler" where
  "do_tier w tier i [] s = s"
| "do_tier w tier i (path # paths) s =
     (case deferred w (request_href path) s of
        ((True, check), s) \<Rightarrow> do_tier w tier (i + 1) paths s
      | ((False, check), s) \<Rightarrow>
          let s = meantime w (if i > 0 then s\<lparr>p_session := pw_pace w (p_session s)\<rparr> else s);
              s = logged (Polled (request_href path) check) (s\<lparr>p_polls := p_polls s + 1\<rparr>) in
          (case poll_request w tier path s of
             (Inl _, s) \<Rightarrow> s
           | (Inr (Some (PyDict rep)), s) \<Rightarrow>
               do_tier w tier (i + 1) paths (store w (request_href path) (PyDict rep) (str_of ''poll'') check s)
           | (Inr _, s) \<Rightarrow> do_tier w tier (i + 1) paths s))"

fun store_links :: "('d, 's) poll_world \<Rightarrow> (pyval \<times> pyval) list \<Rightarrow> ('d, 's) scheduler \<Rightarrow> ('d, 's) scheduler" where
  "store_links w [] s = s"
| "store_links w ((href, rep) # links) s =
     (case deferred w href s of
        ((True, check), s) \<Rightarrow> store_links w links s
      | ((False, check), s) \<Rightarrow> store_links w links (store w href rep (str_of ''sweep'') check (meantime w s)))"

definition do_sweep :: "('d, 's) poll_world \<Rightarrow> poll_tier \<Rightarrow> ('d, 's) scheduler \<Rightarrow> unit result \<times> ('d, 's) scheduler" where
  "do_sweep w tier s =
     then_do (item (tier_paths tier) 0, s) (\<lambda>path s.
       (case poll_request w tier path
          (logged (Polled (request_href path) (p_calls s)) (s\<lparr>p_polls := p_polls s + 1\<rparr>)) of
          (Inr (Some tree), s) \<Rightarrow> then_do (index_device_tree tree, s) (\<lambda>links s. (Inr (), store_links w links s))
        | (_, s) \<Rightarrow> (Inr (), s)))"

definition run_tier :: "('d, 's) poll_world \<Rightarrow> poll_tier \<Rightarrow> ('d, 's) scheduler \<Rightarrow> ('d, 's) scheduler" where
  "run_tier w tier s =
     (if tier_sweep tier then
        (case do_sweep w tier s of (Inl _, s) \<Rightarrow> count_error s | (Inr _, s) \<Rightarrow> s)
      else do_tier w tier 0 (tier_paths tier) s)"

text \<open>Activity and throttle at the start of a round.\<close>

definition assess :: "('d, 's) poll_world \<Rightarrow> ('d, 's) scheduler \<Rightarrow> bool \<times> ('d, 's) scheduler" where
  "assess w s =
     (let active = (case pw_active w of
             None \<Rightarrow> False
           | Some f \<Rightarrow> (case f (c_links (p_cache s)) of Inl _ \<Rightarrow> False | Inr b \<Rightarrow> b));
          throttled = (active \<and> int (p_last_timeouts s) \<ge> pw_threshold w) in
      (active \<and> \<not> throttled, s\<lparr>p_last_active := Some active, p_throttled := throttled\<rparr>))"

definition interval_of :: "poll_tier \<Rightarrow> bool \<Rightarrow> real" where
  "interval_of tier effective_active =
     (case tier_active_interval tier of
        Some t \<Rightarrow> if effective_active then t else tier_interval tier
      | None \<Rightarrow> tier_interval tier)"

definition due_at :: "poll_tier \<Rightarrow> ('d, 's) scheduler \<Rightarrow> real" where
  "due_at tier s = the (map_of (p_next_due s) (tier_name tier))"

fun run_tiers :: "('d, 's) poll_world \<Rightarrow> real \<Rightarrow> bool \<Rightarrow> poll_tier list \<Rightarrow> ('d, 's) scheduler \<Rightarrow> ('d, 's) scheduler" where
  "run_tiers w now active [] s = s"
| "run_tiers w now active (tier # tiers) s =
     (if due_at tier s > now then run_tiers w now active tiers s
      else
        run_tiers w now active tiers
          (run_tier w tier
            (s\<lparr>p_next_due := AList.update (tier_name tier) (now + interval_of tier active) (p_next_due s)\<rparr>)))"

definition run_due_tiers :: "('d, 's) poll_world \<Rightarrow> poll_tier list \<Rightarrow> ('d, 's) scheduler \<Rightarrow> ('d, 's) scheduler" where
  "run_due_tiers w tiers s =
     (case clock_read w s of
        (now, s) \<Rightarrow> (case assess w s of (active, s) \<Rightarrow> run_tiers w now active tiers s))"

text \<open>
  \<open>run_forever\<close>: \<open>pw_stop n\<close> is whether the stop event is set at (or, for the wait, by the end of) the
  \<open>n\<close>-th call; \<open>min\<close> of no deadlines raises.
\<close>

fun run_forever :: "('d, 's) poll_world \<Rightarrow> poll_tier list \<Rightarrow> nat \<Rightarrow> ('d, 's) scheduler
    \<Rightarrow> (unit result \<times> ('d, 's) scheduler) option" where
  "run_forever w tiers 0 s = None"
| "run_forever w tiers (Suc fuel) s =
     (let stopped = pw_stop w (p_calls s); s = s\<lparr>p_calls := p_calls s + 1\<rparr> in
      if stopped then Some (Inr (), s)
      else
        let s = run_due_tiers w tiers s in
        if p_next_due s = [] then Some (Inl Py_ValueError, s)
        else
          (case clock_read w s of
             (now, s) \<Rightarrow>
               let pause = max (1 / 20) (min 1 (Min (snd ` set (p_next_due s)) - now));
                   stopped = pw_stop w (p_calls s);
                   s = logged (Slept pause) (s\<lparr>p_calls := p_calls s + 1\<rparr>) in
               if stopped then Some (Inr (), s) else run_forever w tiers fuel (meantime w s)))"

section \<open>Writes against polls\<close>

text \<open>
  What the log says of one write, made at clock reading \<open>a\<close> and settled at \<open>until\<close>: of the events after
  it, each that polls or stores the href rests on a check made when the write had settled, except those
  that rest on the one check \<open>last_check\<close> that came before the write.
\<close>

definition rests_on :: "poll_event \<Rightarrow> (pyval \<times> nat) option" where
  "rests_on e = (case e of Polled h k \<Rightarrow> Some (h, k) | Stored h source k \<Rightarrow> Some (h, k) | _ \<Rightarrow> None)"

definition spared :: "('d, 's) poll_world \<Rightarrow> pyval \<Rightarrow> nat \<Rightarrow> real \<Rightarrow> nat \<Rightarrow> poll_event \<Rightarrow> bool" where
  "spared w h a settled last_check e \<longleftrightarrow>
     (case rests_on e of
        Some (h', k) \<Rightarrow> canon h' = canon h \<longrightarrow> settled \<le> pw_clock w k \<or> k = last_check \<and> last_check < a
      | None \<Rightarrow> True)"

text \<open>
  The invariant of the scheduler's state; \<open>c\<close> is the check of the href that the next event of the href
  rests on, where there is one.
\<close>

definition minds ::
  "('d, 's) poll_world \<Rightarrow> pyval \<Rightarrow> real \<Rightarrow> nat option \<Rightarrow> ('d, 's) scheduler \<Rightarrow> nat \<Rightarrow> real \<Rightarrow> poll_event list \<Rightarrow> bool" where
  "minds w h settle c s a b ys \<longleftrightarrow>
     b = pw_clock w a + settle \<and> a < p_calls s
     \<and> (b \<le> pw_clock w (p_calls s) \<or> (\<exists>t \<ge> b. dict_get (p_defer s) h = Some t))
     \<and> (\<exists>k0. list_all (spared w h a b k0) ys \<and> (\<forall>k. c = Some k \<longrightarrow> k < a \<longrightarrow> k = k0))
     \<and> (\<forall>k. c = Some k \<longrightarrow> k < a \<or> b \<le> pw_clock w k)"

definition minded ::
  "('d, 's) poll_world \<Rightarrow> pyval \<Rightarrow> real \<Rightarrow> nat option \<Rightarrow> ('d, 's) scheduler \<Rightarrow> bool" where
  "minded w h settle c s \<longleftrightarrow>
     (\<forall>k. c = Some k \<longrightarrow> k < p_calls s)
     \<and> (\<forall>xs h' a b ys. p_log s = xs @ Written h' a b # ys \<longrightarrow> canon h' = canon h \<longrightarrow> minds w h settle c s a b ys)"

lemma minded_start: "p_log s = [] \<Longrightarrow> minded w h settle None s"
  by (simp add: minded_def)

lemma minds_none: "minds w h settle c s a b ys \<Longrightarrow> minds w h settle None s a b ys"
  by (auto simp: minds_def)

lemma minded_none: "minded w h settle c s \<Longrightarrow> minded w h settle None s"
  by (simp add: minded_def) (blast intro: minds_none)

text \<open>The check a poll of \<open>href\<close> rests on, as far as the watched href is concerned.\<close>

definition pending_check :: "pyval \<Rightarrow> pyval \<Rightarrow> nat \<Rightarrow> nat option" where
  "pending_check h href k = (if canon href = canon h then Some k else None)"

locale polling =
  fixes w :: "('d, 's) poll_world" and h :: pyval and settle :: real
  assumes clock_mono: "i \<le> j \<Longrightarrow> pw_clock w i \<le> pw_clock w j"
    and writes: "Write h' t \<in> set (pw_others w n) \<Longrightarrow> canon h' = canon h \<Longrightarrow> t = settle"
    and short: "settle \<le> 5"
begin

abbreviation ok :: "nat option \<Rightarrow> ('d, 's) scheduler \<Rightarrow> bool" where
  "ok c s \<equiv> minded w h settle c s"

text \<open>Steps that leave the log alone: the deferral stays, or is moved to a later time.\<close>

lemma ok_step:
  assumes "ok c s" and "p_log s' = p_log s" and "p_calls s \<le> p_calls s'"
    and "\<And>b. b \<le> pw_clock w (p_calls s) + settle \<Longrightarrow> \<exists>t \<ge> b. dict_get (p_defer s) h = Some t
      \<Longrightarrow> \<exists>t \<ge> b. dict_get (p_defer s') h = Some t"
  shows "ok c s'"
  unfolding minded_def
proof (intro conjI allI impI)
  show "k < p_calls s'" if "c = Some k" for k using assms(1,3) that unfolding minded_def by fastforce
next
  fix xs h' a b ys
  assume "p_log s' = xs @ Written h' a b # ys" and "canon h' = canon h"
  then have m: "minds w h settle c s a b ys" using assms(1,2) by (simp add: minded_def)
  then have "b \<le> pw_clock w (p_calls s) + settle" using clock_mono [of a "p_calls s"] by (simp add: minds_def)
  moreover have "pw_clock w (p_calls s) \<le> pw_clock w (p_calls s')" by (rule clock_mono) (fact assms(3))
  ultimately show "minds w h settle c s' a b ys"
    using m assms(3) assms(4) [of b] unfolding minds_def by (meson less_le_trans order_trans)
qed

lemma ok_same: "ok c s \<Longrightarrow> p_log s' = p_log s \<Longrightarrow> p_calls s \<le> p_calls s' \<Longrightarrow> p_defer s' = p_defer s \<Longrightarrow> ok c s'"
  by (erule ok_step) simp_all

lemma ok_clock: "ok c s \<Longrightarrow> clock_read w s = (now, s') \<Longrightarrow> ok c s'"
  by (erule ok_same) (auto simp: clock_read_def)

lemma ok_rtt: "ok c s \<Longrightarrow> ok c (record_rtt w x t s)"
  by (erule ok_same) (simp_all add: record_rtt_def Let_def)

lemma ok_error: "ok c s \<Longrightarrow> ok c (count_error s)"
  by (erule ok_same) (simp_all add: count_error_def)

text \<open>A cooldown lasts five seconds at least, so that it never shortens a deferral by a write.\<close>

lemma ok_cooldown:
  assumes "ok c s" and "5 \<le> cd"
  shows "ok c (set_cooldown w href cd s)"
  by (rule ok_step [OF assms(1)])
    (use short assms(2) in \<open>auto simp: set_cooldown_def clock_read_def dict_get_set\<close>)

text \<open>An event of the scheduler's own.\<close>

lemma ok_log:
  assumes "ok c s" and "\<And>h' a b. e \<noteq> Written h' a b"
    and "\<And>h' k. rests_on e = Some (h', k) \<Longrightarrow> canon h' = canon h \<Longrightarrow> c = Some k"
  shows "ok c (logged e s)"
  unfolding minded_def
proof (intro conjI allI impI)
  show "k < p_calls (logged e s)" if "c = Some k" for k using assms(1) that by (simp add: minded_def logged_def)
next
  fix xs h' a b ys
  assume log: "p_log (logged e s) = xs @ Written h' a b # ys" and h': "canon h' = canon h"
  obtain zs where zs: "ys = zs @ [e]" "p_log s = xs @ Written h' a b # zs"
    using log assms(2) by (cases ys rule: rev_cases) (auto simp: logged_def)
  have m: "minds w h settle c s a b zs" using assms(1) zs(2) h' by (simp add: minded_def)
  then obtain k0 where k0: "list_all (spared w h a b k0) zs" "\<forall>k. c = Some k \<longrightarrow> k < a \<longrightarrow> k = k0"
    by (auto simp: minds_def)
  have "spared w h a b k0 e"
    using assms(3) k0(2) m by (fastforce simp: spared_def minds_def split: option.split)
  then have "list_all (spared w h a b k0) ys" using k0(1) zs(1) by simp
  then show "minds w h settle c (logged e s) a b ys"
    using m k0(2) by (auto simp: minds_def logged_def)
qed

lemma ok_write:
  assumes "ok c s" and "canon h' = canon h \<Longrightarrow> t = settle"
  shows "ok c (write_in_progress w h' t s)" (is "ok c ?s")
  unfolding minded_def
proof (intro conjI allI impI)
  show "k < p_calls ?s" if "c = Some k" for k
    using assms(1) that by (simp add: minded_def write_in_progress_def clock_read_def logged_def less_Suc_eq)
next
  fix xs g a b ys
  assume log: "p_log ?s = xs @ Written g a b # ys" and g: "canon g = canon h"
  have s: "p_log ?s = p_log s @ [Written h' (p_calls s) (pw_clock w (p_calls s) + t)]" "p_calls ?s = p_calls s + 1"
    "p_defer ?s = dict_set h' (pw_clock w (p_calls s) + t) (p_defer s)"
    by (simp_all add: write_in_progress_def clock_read_def logged_def)
  have c: "k < p_calls s" if "c = Some k" for k using assms(1) that by (simp add: minded_def)
  show "minds w h settle c ?s a b ys"
  proof (cases ys rule: rev_cases)
    case Nil
    then have e: "g = h'" "a = p_calls s" "b = pw_clock w a + t" using log s(1) by auto
    then show ?thesis
      using Nil g assms(2) c unfolding minds_def s(2,3) by (cases c) (auto simp: dict_get_set)
  next
    case (snoc zs e)
    then have e: "e = Written h' (p_calls s) (pw_clock w (p_calls s) + t)" "p_log s = xs @ Written g a b # zs"
      using log s(1) by auto
    then have m: "minds w h settle c s a b zs" using assms(1) g by (simp add: minded_def)
    have "pw_clock w a \<le> pw_clock w (p_calls s)" "pw_clock w (p_calls s) \<le> pw_clock w (p_calls s + 1)"
      using m by (auto simp: minds_def intro!: clock_mono)
    then have "b \<le> pw_clock w (p_calls ?s) \<or> (\<exists>t \<ge> b. dict_get (p_defer ?s) h = Some t)"
      using m assms(2) by (auto simp: minds_def s(2,3) dict_get_set)
    moreover have "spared w h a b k0 e" for k0 by (simp add: e(1) spared_def rests_on_def)
    ultimately show ?thesis using m snoc by (auto simp: minds_def s(2))
  qed
qed

lemma ok_act: "ok c s \<Longrightarrow> x \<in> set (pw_others w n) \<Longrightarrow> ok c (act w x s)"
proof (cases x)
  case (Touch f)
  then show "ok c s \<Longrightarrow> ok c (act w x s)" by (auto simp: act_def elim: ok_same)
next
  case Take_stats
  then show "ok c s \<Longrightarrow> ok c (act w x s)" by (auto simp: act_def take_window_stats_def elim: ok_same)
qed (use ok_write writes in \<open>auto simp: act_def\<close>)

lemma ok_meantime: "ok c s \<Longrightarrow> ok c (meantime w s)"
  unfolding meantime_def
  by (rule fold_invariant [where Q = "\<lambda>x. x \<in> set (pw_others w (p_calls s))" and P = "ok c"]) (auto intro: ok_act)

lemma ok_deferred:
  assumes "ok None s" and "deferred w href s = ((d, k), s')"
  shows "ok None s'" and "\<not> d \<Longrightarrow> canon href = canon h \<Longrightarrow> ok (Some k) s'"
proof -
  have s': "s' = s\<lparr>p_calls := p_calls s + 1\<rparr>" "k = p_calls s"
    "d = ((case dict_get (p_defer s) href of None \<Rightarrow> 0 | Some t \<Rightarrow> t) > pw_clock w k)"
    using assms(2) by (auto simp: deferred_def clock_read_def)
  show ok': "ok None s'" by (rule ok_same [OF assms(1)]) (simp_all add: s'(1))
  show "ok (Some k) s'" if "\<not> d" "canon href = canon h"
    unfolding minded_def
  proof (intro conjI allI impI)
    show "j < p_calls s'" if "Some k = Some j" for j using that by (simp add: s'(1,2))
  next
    fix xs g a b ys
    assume log: "p_log s' = xs @ Written g a b # ys" "canon g = canon h"
    have m: "minds w h settle None s a b ys" using assms(1) log by (simp add: minded_def s'(1))
    have "b \<le> pw_clock w k"
      using m s'(2,3) that dict_get_canon [OF that(2), of "p_defer s"] by (auto simp: minds_def)
    moreover have "minds w h settle None s' a b ys" using ok' log by (simp add: minded_def)
    ultimately show "minds w h settle (Some k) s' a b ys" using m s'(2) by (auto simp: minds_def)
  qed
qed

lemma ok_request:
  assumes "ok c s" and "poll_request w tier path s = (r, s')"
  shows "ok c s'"
proof -
  obtain t0 s1 where s1: "clock_read w s = (t0, s1)" by fastforce
  obtain answer session where get: "pw_get w path (tier_timeout_of w tier) (p_session s1) = (answer, session)" by fastforce
  obtain s2 where s2: "meantime w (s1\<lparr>p_session := session\<rparr>) = s2" by blast
  have "ok c (s1\<lparr>p_session := session\<rparr>)"
    by (rule ok_same [OF ok_clock [OF assms(1) s1]]) simp_all
  then have ok2: "ok c s2" using ok_meantime s2 by blast
  show ?thesis
  proof (cases answer)
    case (Inl e)
    have "ok c (set_cooldown w (request_href path) (cooldown_for tier) (record_rtt w 0 True (count_error s2)))"
      by (rule ok_cooldown [OF ok_rtt [OF ok_error [OF ok2]]]) (simp add: cooldown_for_def)
    moreover have "ok c (record_rtt w x False s)" if "clock_read w (count_error s2) = (now, s)" for x now s
      using ok_rtt [OF ok_clock [OF ok_error [OF ok2] that]] .
    ultimately show ?thesis
      using assms(2) by (auto simp: poll_request_def s1 get s2 Inl Let_def split: if_splits prod.splits)
  next
    case (Inr cb)
    obtain code body where cb: "cb = (code, body)" by fastforce
    obtain now s3 where s3: "clock_read w s2 = (now, s3)" by fastforce
    let ?s4 = "record_rtt w ((now - t0) * 1000) False s3"
    obtain now2 s5 where s5: "clock_read w ?s4 = (now2, s5)" by fastforce
    have ok4: "ok c ?s4" by (rule ok_rtt [OF ok_clock [OF ok2 s3]])
    have ok5: "ok c (s5\<lparr>p_last_success := now2\<rparr>)" by (rule ok_same [OF ok_clock [OF ok4 s5]]) simp_all
    have "s' \<in> {count_error ?s4, count_error (s5\<lparr>p_last_success := now2\<rparr>), s5\<lparr>p_last_success := now2\<rparr>}"
      using assms(2) by (auto simp: poll_request_def s1 get s2 Inr cb s3 s5 Let_def simp del: left_diff_distrib_numeral
        split: if_splits sum.splits)
    then show ?thesis using ok4 ok5 ok_error by auto
  qed
qed

lemma ok_store:
  "ok c s \<Longrightarrow> canon href = canon h \<Longrightarrow> c = Some k \<Longrightarrow> ok c (store w href rep source k s)"
  "ok c s \<Longrightarrow> canon href \<noteq> canon h \<Longrightarrow> ok c (store w href rep source k s)"
  unfolding store_def by (rule ok_log, erule ok_same; auto simp: rests_on_def)+

lemma ok_pending:
  "ok None s \<Longrightarrow> deferred w href s = ((False, k), s') \<Longrightarrow> ok (pending_check h href k) s'"
  using ok_deferred [of s href False k s'] by (auto simp: pending_check_def)

lemma ok_store_pending: "ok (pending_check h href k) s \<Longrightarrow> ok None (store w href rep source k s)"
  by (cases "canon href = canon h") (auto simp: pending_check_def intro: ok_store(2) minded_none [OF ok_store(1)])

lemma ok_polled: "ok (pending_check h href k) s \<Longrightarrow> ok (pending_check h href k) (logged (Polled href k) (s\<lparr>p_polls := n\<rparr>))"
  by (rule ok_log, erule ok_same) (auto simp: rests_on_def pending_check_def)

lemma ok_do_tier: "ok None s \<Longrightarrow> ok None (do_tier w tier i paths s)"
proof (induction paths arbitrary: i s)
  case (Cons path paths)
  obtain d k s1 where d: "deferred w (request_href path) s = ((d, k), s1)" by (metis prod.exhaust)
  show ?case
  proof (cases d)
    case True
    with Cons.IH ok_deferred(1) [OF Cons.prems d] d show ?thesis by simp
  next
    case False
    let ?c = "pending_check h (request_href path) k"
    let ?s2 = "meantime w (if i > 0 then s1\<lparr>p_session := pw_pace w (p_session s1)\<rparr> else s1)"
    let ?s3 = "logged (Polled (request_href path) k) (?s2\<lparr>p_polls := p_polls ?s2 + 1\<rparr>)"
    have "ok ?c s1" using ok_pending [OF Cons.prems] d False by simp
    then have "ok ?c (if i > 0 then s1\<lparr>p_session := pw_pace w (p_session s1)\<rparr> else s1)" by (rule ok_same) simp_all
    then have ok3: "ok ?c ?s3" by (intro ok_polled ok_meantime)
    obtain r s4 where r: "poll_request w tier path ?s3 = (r, s4)" by fastforce
    note ok4 = ok_request [OF ok3 r]
    note stored = Cons.IH [OF ok_store_pending [OF ok4]]
    have "do_tier w tier i (path # paths) s \<in>
        {s4, do_tier w tier (i + 1) paths s4}
        \<union> range (\<lambda>rep. do_tier w tier (i + 1) paths (store w (request_href path) rep (str_of ''poll'') k s4))"
      using d False r unfolding do_tier.simps Let_def
      by (auto split: sum.split option.split pyval.split)
    then show ?thesis using minded_none [OF ok4] Cons.IH [OF minded_none [OF ok4]] stored by auto
  qed
qed simp

lemma ok_store_links: "ok None s \<Longrightarrow> ok None (store_links w links s)"
proof (induction links arbitrary: s)
  case (Cons hr links)
  obtain href rep where hr: "hr = (href, rep)" by fastforce
  obtain d k s1 where d: "deferred w href s = ((d, k), s1)" by (metis prod.exhaust)
  have "ok None (store w href rep source k (meantime w s1))" if "\<not> d" for source
    using ok_store_pending [OF ok_meantime [OF ok_pending [OF Cons.prems]]] d that by simp
  then show ?case using Cons.IH ok_deferred(1) [OF Cons.prems d] d hr by (cases d) simp_all
qed simp

lemma ok_run_tier:
  assumes "ok None s" and "tier_sweep tier \<Longrightarrow> \<forall>path \<in> set (tier_paths tier). canon (request_href path) \<noteq> canon h"
  shows "ok None (run_tier w tier s)"
proof (cases "tier_sweep tier \<and> tier_paths tier \<noteq> []")
  case True
  then obtain path rest where paths: "tier_paths tier = path # rest" by (cases "tier_paths tier") auto
  let ?s0 = "logged (Polled (request_href path) (p_calls s)) (s\<lparr>p_polls := p_polls s + 1\<rparr>)"
  have ok0: "ok None ?s0"
    by (rule ok_log, rule ok_same [OF assms(1)]) (use assms(2) True paths in \<open>auto simp: rests_on_def\<close>)
  obtain r s1 where r: "poll_request w tier path ?s0 = (r, s1)" by fastforce
  have "ok None s1" by (rule ok_request [OF ok0 r])
  moreover have "run_tier w tier s \<in> {s1, count_error s1} \<union> range (\<lambda>links. store_links w links s1)"
    using True paths r by (auto simp: run_tier_def do_sweep_def then_do_def split: sum.splits option.splits)
  ultimately show ?thesis using ok_error ok_store_links by auto
next
  case False
  then show ?thesis using assms(1) ok_do_tier ok_error by (auto simp: run_tier_def do_sweep_def item_def)
qed

lemma ok_run_tiers:
  assumes "ok None s" and "\<forall>tier \<in> set tiers. tier_sweep tier \<longrightarrow>
      (\<forall>path \<in> set (tier_paths tier). canon (request_href path) \<noteq> canon h)"
  shows "ok None (run_tiers w now active tiers s)"
  using assms
proof (induction tiers arbitrary: s)
  case (Cons tier tiers)
  have "ok None (s\<lparr>p_next_due := d\<rparr>)" for d by (rule ok_same [OF Cons.prems(1)]) simp_all
  then show ?case using Cons ok_run_tier by simp
qed simp

lemma ok_run_due_tiers:
  assumes "ok None s" and "\<forall>tier \<in> set tiers. tier_sweep tier \<longrightarrow>
      (\<forall>path \<in> set (tier_paths tier). canon (request_href path) \<noteq> canon h)"
  shows "ok None (run_due_tiers w tiers s)"
proof -
  obtain now s1 where c: "clock_read w s = (now, s1)" by fastforce
  obtain active s2 where a: "assess w s1 = (active, s2)" by fastforce
  have "ok None s2"
    by (rule ok_same [OF ok_clock [OF assms(1) c]]) (use a in \<open>auto simp: assess_def Let_def\<close>)
  then show ?thesis using assms(2) by (simp add: run_due_tiers_def c a ok_run_tiers)
qed

lemma ok_run_forever:
  assumes "run_forever w tiers fuel s = Some (r, s')" and "ok None s"
    and "\<forall>tier \<in> set tiers. tier_sweep tier \<longrightarrow> (\<forall>path \<in> set (tier_paths tier). canon (request_href path) \<noteq> canon h)"
  shows "ok None s'"
  using assms(1,2)
proof (induction fuel arbitrary: s)
  case (Suc fuel)
  have ok1: "ok None (s\<lparr>p_calls := p_calls s + 1\<rparr>)" by (rule ok_same [OF Suc.prems(2)]) simp_all
  let ?s1 = "run_due_tiers w tiers (s\<lparr>p_calls := p_calls s + 1\<rparr>)"
  have ok2: "ok None ?s1" by (rule ok_run_due_tiers [OF ok1 assms(3)])
  obtain now s2 where c: "clock_read w ?s1 = (now, s2)" by fastforce
  have ok3: "ok None (logged (Slept p) (s2\<lparr>p_calls := p_calls s2 + 1\<rparr>))" for p
    by (rule ok_log, rule ok_same [OF ok_clock [OF ok2 c]]) (auto simp: rests_on_def)
  show ?case
    using Suc.prems(1) ok1 ok2 ok3 Suc.IH [OF _ ok_meantime [OF ok3]] c
    by (auto simp: Let_def split: if_splits)
qed simp

end

text \<open>
  One such surrounding: the clock counts, and while a request waits the session's reader applies
  notifications to the cache and the MQTT thread registers a write of one href.
\<close>

definition with_writes ::
  "pyval \<Rightarrow> real \<Rightarrow> (nat \<Rightarrow> (pyval \<times> pyval) option) \<Rightarrow> (nat \<Rightarrow> bool) \<Rightarrow> ('d, 's) poll_world \<Rightarrow> ('d, 's) poll_world" where
  "with_writes h settle ns writes w =
     w\<lparr>pw_clock := real, pw_others := (\<lambda>n.
         (if writes n then [Write h settle] else [])
         @ (case ns n of None \<Rightarrow> [] | Some (href, rep) \<Rightarrow>
              [Touch (\<lambda>c. snd (apply_rep (pw_cache w) href rep (str_of ''notify'') True c))]))\<rparr>"

interpretation writing: polling "with_writes h (min settle 5) ns writes w" h "min settle 5" for h settle ns writes w
  by unfold_locales (auto simp: with_writes_def split: option.splits if_splits)

section \<open>What a request records\<close>

text \<open>The deadline of a tier, and the round's decisions about it.\<close>

lemma meantime_due: "p_next_due (meantime w s) = p_next_due s"
  unfolding meantime_def
  by (rule fold_invariant [where Q = "\<lambda>x. True"])
    (auto simp: act_def write_in_progress_def clock_read_def logged_def take_window_stats_def
      split: other_action.split)

lemma request_due: "poll_request w tier path s = (r, s') \<Longrightarrow> p_next_due s' = p_next_due s"
  by (auto simp: poll_request_def clock_read_def record_rtt_def count_error_def set_cooldown_def
      Let_def meantime_due split: prod.splits sum.splits if_splits)

lemma deferred_due: "deferred w href s = (x, s') \<Longrightarrow> p_next_due s' = p_next_due s"
  by (auto simp: deferred_def clock_read_def)

lemma tier_due: "p_next_due (do_tier w tier i paths s) = p_next_due s"
proof (induction paths arbitrary: i s)
  case (Cons path paths)
  obtain d now s1 where d: "deferred w (request_href path) s = ((d, now), s1)" by (metis prod.exhaust)
  note s1 = deferred_due [OF d]
  show ?case
    using Cons d s1
    by (cases d) (auto simp: Let_def logged_def store_def meantime_due dest!: request_due
        split: prod.splits sum.splits option.splits pyval.splits)
qed simp

lemma links_due: "p_next_due (store_links w links s) = p_next_due s"
proof (induction links arbitrary: s)
  case (Cons hr links)
  then show ?case
    by (cases hr) (auto simp: store_def logged_def meantime_due dest!: deferred_due split: prod.splits bool.splits)
qed simp

lemma run_tier_due: "p_next_due (run_tier w tier s) = p_next_due s"
  by (auto simp: run_tier_def tier_due do_sweep_def then_do_def links_due count_error_def logged_def
      dest!: request_due split: prod.splits sum.splits option.splits)

lemma run_tiers_due:
  assumes "distinct (map tier_name tiers)"
  shows "map_of (p_next_due (run_tiers w now active tiers s)) name =
    (case find (\<lambda>t. tier_name t = name \<and> due_at t s \<le> now) tiers of
       None \<Rightarrow> map_of (p_next_due s) name
     | Some t \<Rightarrow> Some (now + interval_of t active))"
  using assms
proof (induction tiers arbitrary: s)
  case (Cons t tiers)
  show ?case
  proof (cases "due_at t s > now")
    case True
    with Cons show ?thesis by (simp add: not_le [symmetric])
  next
    case False
    let ?s1 = "run_tier w t (s\<lparr>p_next_due := AList.update (tier_name t) (now + interval_of t active) (p_next_due s)\<rparr>)"
    have due: "p_next_due ?s1 = AList.update (tier_name t) (now + interval_of t active) (p_next_due s)"
      by (simp add: run_tier_due)
    have same: "due_at u ?s1 = due_at u s" if "u \<in> set tiers" for u
      using that Cons.prems by (fastforce simp: due_at_def due update_conv' image_iff)
    have fs: "find (\<lambda>u. tier_name u = name \<and> due_at u ?s1 \<le> now) tiers
        = find (\<lambda>u. tier_name u = name \<and> due_at u s \<le> now) tiers"
      using same by (intro find_cong) auto
    have "map_of (p_next_due (run_tiers w now active (t # tiers) s)) name =
        (case find (\<lambda>u. tier_name u = name \<and> due_at u s \<le> now) tiers of
           None \<Rightarrow> map_of (AList.update (tier_name t) (now + interval_of t active) (p_next_due s)) name
         | Some u \<Rightarrow> Some (now + interval_of u active))"
      using False Cons.IH [of ?s1] Cons.prems unfolding fs due by simp
    moreover have "find (\<lambda>u. tier_name u = name \<and> due_at u s \<le> now) tiers = None" if "tier_name t = name"
      using that Cons.prems by (auto simp: find_None_iff image_iff)
    ultimately show ?thesis using False by (auto simp: update_conv' split: option.split)
  qed
qed simp

section \<open>Properties\<close>


definition kitchen_world :: "(unit, unit) poll_world" where
  "kitchen_world = \<lparr>pw_clock = real, pw_get = (\<lambda>p t s. (Inr (0x45, [1]), s)), pw_pace = id,
     pw_loads = (\<lambda>b. Inr (PyDict [])), pw_active = None,
     pw_cache = \<lparr>cw_wall = real, cw_hook = None, cw_on_change = False\<rparr>, pw_others = (\<lambda>n. []),
     pw_stop = (\<lambda>n. n > 90), pw_timeout = 8, pw_threshold = 3, pw_slow_ms = 1000\<rparr>"

definition kitchen_tiers :: "poll_tier list" where
  "kitchen_tiers =
     [\<lparr>tier_name = str_of ''hot'', tier_interval = 2, tier_paths = [[str_of ''mode'', str_of ''0''], [str_of ''power'']],
       tier_active_interval = Some 1, tier_sweep = False, tier_timeout = Some 2\<rparr>,
      \<lparr>tier_name = str_of ''sweep'', tier_interval = 60, tier_paths = [[str_of ''device'', str_of ''0'']],
       tier_active_interval = None, tier_sweep = True, tier_timeout = None\<rparr>]"

definition busy_kitchen :: "(unit, unit) poll_world" where
  "busy_kitchen = kitchen_world\<lparr>pw_loads := (\<lambda>b. Inr (PyList [])), pw_clock := (\<lambda>n. real n / 10),
     pw_others := (\<lambda>n. if n = 8 then [Write (request_href [str_of ''power'']) 4] else []), pw_stop := (\<lambda>n. n > 10)\<rparr>"

definition busy_tiers :: "poll_tier list" where
  "busy_tiers = [(hd kitchen_tiers)\<lparr>tier_interval := 0, tier_paths := [[str_of ''mode'', str_of ''0''], [str_of ''power''], [str_of ''power'']]\<rparr>]"

text \<open>
  The gap the code leaves: a write that comes in while \<open>pace\<close> waits is followed by the poll all the same;
  the next time the path comes up it is spared.
\<close>

lemma write_during_pace:
  "map_option (\<lambda>x. p_log (snd x)) (run_forever busy_kitchen busy_tiers 1 (scheduler_new busy_kitchen busy_tiers () (cache_new ())))
     = Some ([Polled (request_href [str_of ''mode'', str_of ''0'']) 3] @ Written (request_href [str_of ''power'']) 8 (24/5)
       # [Polled (request_href [str_of ''power'']) 7, Slept (1/20)])"
  by code_simp


text \<open>
  The cadence: a round with clock reading \<open>now\<close> reschedules exactly the tiers that are due, to \<open>now\<close> plus
  their interval, whatever happens to their requests; the active interval is used only while the appliance is
  active and the previous window saw fewer timeouts than the threshold.
\<close>

theorem cadence_exact:
  assumes "distinct (map tier_name tiers)" and "tier \<in> set tiers"
    and "map_of (p_next_due s) (tier_name tier) = Some due"
  shows "let now = pw_clock w (p_calls s);
             active = (case pw_active w of None \<Rightarrow> False | Some f \<Rightarrow> f (c_links (p_cache s)) = Inr True);
             fast = (active \<and> int (p_last_timeouts s) < pw_threshold w) in
    map_of (p_next_due (run_due_tiers w tiers s)) (tier_name tier) =
      Some (if now < due then due
            else now + (case tier_active_interval tier of
                Some t \<Rightarrow> if fast then t else tier_interval tier | None \<Rightarrow> tier_interval tier))"
proof -
  let ?now = "pw_clock w (p_calls s)" and ?s1 = "s\<lparr>p_calls := p_calls s + 1\<rparr>"
  obtain fast s2 where a: "assess w ?s1 = (fast, s2)" by fastforce
  have s2: "p_next_due s2 = p_next_due s" using a by (auto simp: assess_def Let_def)
  have fast: "fast \<longleftrightarrow> (case pw_active w of None \<Rightarrow> False | Some f \<Rightarrow> f (c_links (p_cache s)) = Inr True)
      \<and> int (p_last_timeouts s) < pw_threshold w"
    using a by (auto simp: assess_def Let_def split: option.splits sum.splits)
  have due: "due_at tier s2 = due" using assms(3) by (simp add: due_at_def s2)
  have "find (\<lambda>t. tier_name t = tier_name tier \<and> due_at t s2 \<le> ?now) tiers = (if due \<le> ?now then Some tier else None)"
    using assms(1,2) due
  proof (induction tiers)
    case (Cons t tiers)
    then show ?case by (cases "t = tier") (auto simp: find_None_iff image_iff)
  qed simp
  moreover have "run_due_tiers w tiers s = run_tiers w ?now fast tiers s2"
    unfolding run_due_tiers_def clock_read_def prod.case a by simp
  ultimately show ?thesis
    using assms(3) run_tiers_due [OF assms(1), of w ?now fast s2 "tier_name tier"]
    by (simp add: s2 fast interval_of_def Let_def not_le split: option.split)
qed

theorem cadence_exact_witness:
  "map_of (p_next_due (run_due_tiers (with_writes (PyStr [1]) 4 (\<lambda>n. Some (PyStr [1], PyDict [])) even kitchen_world) kitchen_tiers
     (scheduler_new kitchen_world kitchen_tiers () (cache_new ())))) (str_of ''hot'') = Some 3"
proof -
  let ?w = "with_writes (PyStr [1]) 4 (\<lambda>n. Some (PyStr [1], PyDict [])) even kitchen_world"
  let ?s = "scheduler_new kitchen_world kitchen_tiers () (cache_new ())"
  let ?t = "hd kitchen_tiers"
  have t: "distinct (map tier_name kitchen_tiers)" "?t \<in> set kitchen_tiers"
    "map_of (p_next_due ?s) (tier_name ?t) = Some 0"
    by code_simp+
  have "p_calls ?s = 1" by (simp add: scheduler_new_def Let_def)
  with cadence_exact [OF t, where w = ?w]
  show ?thesis by (simp add: with_writes_def kitchen_world_def kitchen_tiers_def)
qed

text \<open>Every request is accounted for: a timeout counts as a timeout and an error and puts the href into
  cooldown for between 5 and 60 seconds; any other exception counts as an error; a response that is not
  a non-empty 2.05 counts as an error, and only a non-empty 2.05 moves the time of the last success that
  the liveness watchdog reads.
\<close>

theorem requests_accounted:
  assumes "\<And>n. pw_others w n = []"
  shows "case fst (pw_get w path (tier_timeout_of w tier) (p_session s)) of
      Inl e \<Rightarrow>
        p_errors (snd (poll_request w tier path s)) = p_errors s + 1
        \<and> p_last_success (snd (poll_request w tier path s)) = p_last_success s
        \<and> p_timeouts (snd (poll_request w tier path s)) = p_timeouts s + (if isinstance_of e Py_TimeoutError then 1 else 0)
        \<and> (isinstance_of e Py_TimeoutError \<longrightarrow>
             (\<exists>c. 5 \<le> c \<and> c \<le> 60 \<and> dict_get (p_defer (snd (poll_request w tier path s))) (request_href path)
                = Some (pw_clock w (p_calls s + 1) + c)))
    | Inr (code, body) \<Rightarrow>
        p_timeouts (snd (poll_request w tier path s)) = p_timeouts s
        \<and> p_defer (snd (poll_request w tier path s)) = p_defer s
        \<and> (if code = 0x45 \<and> body \<noteq> [] then
             p_last_success (snd (poll_request w tier path s)) = pw_clock w (p_calls s + 2)
             \<and> p_errors (snd (poll_request w tier path s)) = p_errors s + (case pw_loads w body of Inl _ \<Rightarrow> 1 | Inr _ \<Rightarrow> 0)
           else
             p_last_success (snd (poll_request w tier path s)) = p_last_success s
             \<and> p_errors (snd (poll_request w tier path s)) = p_errors s + 1)"
proof -
  have "5 \<le> cooldown_for tier" "cooldown_for tier \<le> 60" by (simp_all add: cooldown_for_def)
  then show ?thesis
    by (auto simp: poll_request_def clock_read_def set_cooldown_def record_rtt_def count_error_def Let_def assms meantime_def
        dict_get_set split: prod.split sum.split)
qed

theorem requests_accounted_witness:
  "p_timeouts (snd (poll_request (kitchen_world\<lparr>pw_get := (\<lambda>p t s. (Inl SessionTimeoutError, s))\<rparr>) (hd kitchen_tiers)
      [str_of ''power''] (scheduler_new kitchen_world kitchen_tiers () (cache_new ())))) = 1"
  using requests_accounted [of "kitchen_world\<lparr>pw_get := (\<lambda>p t s. (Inl SessionTimeoutError, s))\<rparr>"
      "hd kitchen_tiers" "[str_of ''power'']" "scheduler_new kitchen_world kitchen_tiers () (cache_new ())"]
  by (simp add: kitchen_world_def scheduler_new_def Let_def)

end
