(* ===== verification/Keepalive.thy ===== *)
theory Keepalive
  imports Prelude
begin

text \<open>
  The two background tasks beside the poller: \<open>ocf/keepalive.py\<close> (ping, liveness watchdog, the
  reachable/unreachable state machine and its callbacks) and \<open>ocf/observe_refresh.py\<close>. The session's
  \<open>ping()\<close> and \<open>refresh_observes()\<close> and the liveness function are arguments: their outcome at each tick.
  Exceptions of a callback are swallowed by the code, so a callback is an entry of the log.
\<close>

section \<open>The keepalive task\<close>

datatype callback = Unreachable | Reachable_again

record keepalive =
  ka_fail_streak :: nat
  ka_reachable :: bool
  ka_ping_count :: nat
  ka_ping_fail_count :: nat
  ka_callbacks :: "callback list"

definition keepalive_new :: keepalive where
  "keepalive_new = \<lparr>ka_fail_streak = 0, ka_reachable = True, ka_ping_count = 0, ka_ping_fail_count = 0,
     ka_callbacks = []\<rparr>"

text \<open>
  One tick sees the outcome of the ping and, if there is a liveness function, of calling it; the
  function is asked only after a ping that was sent, and one that raises counts as alive.
\<close>

type_synonym tick_input = "unit result \<times> bool result option"

definition tick_ok :: "tick_input \<Rightarrow> bool" where
  "tick_ok input =
     (case input of
        (Inl _, _) \<Rightarrow> False
      | (Inr _, None) \<Rightarrow> True
      | (Inr _, Some (Inl _)) \<Rightarrow> True
      | (Inr _, Some (Inr alive)) \<Rightarrow> alive)"

definition keepalive_tick :: "int \<Rightarrow> tick_input \<Rightarrow> keepalive \<Rightarrow> keepalive" where
  "keepalive_tick fail_threshold input s =
     (let ok = tick_ok input; s = s\<lparr>ka_ping_count := ka_ping_count s + 1\<rparr> in
      if ok then
        (if \<not> ka_reachable s
         then s\<lparr>ka_reachable := True, ka_callbacks := ka_callbacks s @ [Reachable_again], ka_fail_streak := 0\<rparr>
         else s\<lparr>ka_fail_streak := 0\<rparr>)
      else
        let s = s\<lparr>ka_ping_fail_count := ka_ping_fail_count s + 1, ka_fail_streak := ka_fail_streak s + 1\<rparr> in
        if ka_reachable s \<and> int (ka_fail_streak s) \<ge> fail_threshold
        then s\<lparr>ka_reachable := False, ka_callbacks := ka_callbacks s @ [Unreachable]\<rparr>
        else s)"

text \<open>\<open>run_forever\<close>: \<open>stop n\<close> is what the \<open>n\<close>-th wait returns, \<open>input n\<close> what the tick after it sees.\<close>

fun keepalive_run ::
  "int \<Rightarrow> (nat \<Rightarrow> bool) \<Rightarrow> (nat \<Rightarrow> tick_input) \<Rightarrow> nat \<Rightarrow> nat \<Rightarrow> keepalive \<Rightarrow> keepalive option" where
  "keepalive_run fail_threshold stop input 0 n s = None"
| "keepalive_run fail_threshold stop input (Suc fuel) n s =
     (if stop n then Some s
      else keepalive_run fail_threshold stop input fuel (n + 1) (keepalive_tick fail_threshold (input n) s))"

section \<open>The Observe refresh task\<close>

text \<open>The task counts the refreshes that did not raise.\<close>

definition refresh_tick :: "'a result \<Rightarrow> nat \<Rightarrow> nat" where
  "refresh_tick outcome refresh_count = (case outcome of Inl _ \<Rightarrow> refresh_count | Inr _ \<Rightarrow> refresh_count + 1)"

fun refresh_run ::
  "(nat \<Rightarrow> bool) \<Rightarrow> ('s \<Rightarrow> unit result \<times> 's) \<Rightarrow> nat \<Rightarrow> nat \<Rightarrow> nat \<times> 's \<Rightarrow> (nat \<times> 's) option" where
  "refresh_run stop refresh_observes 0 n s = None"
| "refresh_run stop refresh_observes (Suc fuel) n (count, s) =
     (if stop n then Some (count, s)
      else (case refresh_observes s of (r, s) \<Rightarrow> refresh_run stop refresh_observes fuel (n + 1) (refresh_tick r count, s)))"

section \<open>The state machine and its specification\<close>

definition keepalive_after :: "int \<Rightarrow> tick_input list \<Rightarrow> keepalive" where
  "keepalive_after fail_threshold inputs = fold (keepalive_tick fail_threshold) inputs keepalive_new"

text \<open>How many of the last ticks in a row failed, and whether that is few enough.\<close>

definition failing_for :: "tick_input list \<Rightarrow> nat" where
  "failing_for inputs = length (takeWhile (\<lambda>i. \<not> tick_ok i) (rev inputs))"

definition deemed_reachable :: "int \<Rightarrow> tick_input list \<Rightarrow> bool" where
  "deemed_reachable fail_threshold inputs \<longleftrightarrow> int (failing_for inputs) < max 1 fail_threshold"

fun announced :: "bool \<Rightarrow> bool list \<Rightarrow> callback list" where
  "announced was [] = []"
| "announced was (b # bs) = (if b = was then [] else [if b then Reachable_again else Unreachable]) @ announced b bs"

lemma announced_snoc:
  "announced was (bs @ [b]) = announced was bs
     @ (if b = last (was # bs) then [] else [if b then Reachable_again else Unreachable])"
  by (induction bs arbitrary: was) auto

lemma failing_for_snoc:
  "failing_for (is @ [i]) = (if tick_ok i then 0 else failing_for is + 1)"
  "failing_for [] = 0"
  by (simp_all add: failing_for_def)

lemma keepalive_after_snoc:
  "keepalive_after k (is @ [i]) = keepalive_tick k i (keepalive_after k is)"
  "keepalive_after k [] = keepalive_new"
  by (simp_all add: keepalive_after_def)

definition verdicts :: "int \<Rightarrow> tick_input list \<Rightarrow> bool list" where
  "verdicts k is = map (\<lambda>n. deemed_reachable k (take n is)) [1..<length is + 1]"

lemma verdicts_snoc: "verdicts k (is @ [i]) = verdicts k is @ [deemed_reachable k (is @ [i])]"
proof -
  have "map (\<lambda>n. deemed_reachable k (take n (is @ [i]))) [1..<length is + 1] = verdicts k is"
    unfolding verdicts_def by (intro map_cong) auto
  then show ?thesis by (simp add: verdicts_def)
qed

lemma last_verdict: "last (True # verdicts k is) = deemed_reachable k is"
  by (cases "is" rule: rev_cases) (simp_all add: verdicts_snoc, simp add: verdicts_def deemed_reachable_def failing_for_def)

section \<open>Properties\<close>

text \<open>C26.
  The keepalive task is the function of its outcomes it promises to be: after any ticks the appliance is
  reported reachable exactly if fewer than \<open>fail_threshold\<close> (at least one) of the last ticks failed in a
  row, a tick failing when the ping could not be sent or the poller saw no success in its window; the
  callbacks fired are exactly the changes of that verdict, in order, so the two alternate; and the
  counters count the ticks and the failures.
\<close>

theorem keepalive_exact:
  "ka_reachable (keepalive_after k inputs) = deemed_reachable k inputs
   \<and> ka_fail_streak (keepalive_after k inputs) = failing_for inputs
   \<and> ka_callbacks (keepalive_after k inputs) = announced True (verdicts k inputs)
   \<and> ka_ping_count (keepalive_after k inputs) = length inputs
   \<and> ka_ping_fail_count (keepalive_after k inputs) = length (filter (\<lambda>i. \<not> tick_ok i) inputs)"
proof (induction inputs rule: rev_induct)
  case Nil
  show ?case
    by (simp add: keepalive_after_snoc keepalive_new_def deemed_reachable_def failing_for_snoc verdicts_def)
next
  case (snoc i inputs)
  then show ?case
    unfolding keepalive_after_snoc verdicts_snoc announced_snoc last_verdict
    by (auto simp: keepalive_tick_def Let_def failing_for_snoc deemed_reachable_def)
qed

text \<open>The loop stops: once the stop event is set the task has returned, having run one tick for every wait
  before it.
\<close>

theorem keepalive_stops:
  assumes "stop n" and "\<And>i. i < n \<Longrightarrow> \<not> stop i"
  shows "\<forall>fuel > n. keepalive_run k stop input fuel 0 keepalive_new = Some (keepalive_after k (map input [0..<n]))"
proof -
  have "keepalive_run k stop input (Suc m + fuel) (n - m) (keepalive_after k (map input [0..<n - m]))
      = Some (keepalive_after k (map input [0..<n]))" if "m \<le> n" for m fuel
    using that
  proof (induction m)
    case 0
    with assms(1) show ?case by simp
  next
    case (Suc m)
    then have "n - m = Suc (n - Suc m)" by simp
    with Suc assms(2) [of "n - Suc m"] show ?case by (simp add: keepalive_after_snoc)
  qed
  from this [of n] show ?thesis
    by (auto simp: keepalive_after_snoc dest!: less_imp_Suc_add)
qed

theorem keepalive_stops_witness:
  "keepalive_run 3 (\<lambda>n. n = 4) (\<lambda>n. (Inl Py_ConnectionError, None)) 9 0 keepalive_new
     = Some (keepalive_after 3 (replicate 4 (Inl Py_ConnectionError, None)))"
  using keepalive_stops [of "\<lambda>n. n = 4" 4 3 "\<lambda>n. (Inl Py_ConnectionError, None)"]
  by (auto simp: eval_nat_numeral)

end
