(* ===== verification/Ocf_Directory.thy ===== *)
theory Ocf_Directory
  imports State_Cache Udp_Endpoint
begin

text \<open>
  The part of \<open>protocol/ocf_discovery.py\<close> that reads secure ports out of an answer to \<open>/oic/res\<close>: address
  keys, the shallow bounded walk over the links, the classification of one advertised endpoint URI against
  the address the answer came from, and the selection of ports. CBOR decoding, URL splitting, percent
  decoding, address parsing and interface names are the platform's and are fields of \<open>platform\<close>.
\<close>

section \<open>The platform\<close>

text \<open>
  \<open>urlsplit\<close> of a URI with the attributes the code reads; \<open>None\<close> when the call or one of the attributes
  raises \<open>ValueError\<close>. A parsed port is between 0 and 65535.
\<close>

record url_parts =
  url_scheme :: pystr
  url_netloc :: pystr
  url_hostname :: "pystr option"
  url_port :: "nat option"
  url_username :: "pystr option"
  url_password :: "pystr option"
  url_path :: pystr
  url_query :: pystr
  url_fragment :: pystr

text \<open>
  \<open>inet_pton\<close> raises \<open>OSError\<close> for text that is not an address, and \<open>ValueError\<close> for text it cannot
  pass to the C library (an embedded null character).
\<close>

record platform =
  pl_cbor :: "bytes \<Rightarrow> (pyval \<times> nat) result"
  pl_urlsplit :: "pystr \<Rightarrow> url_parts option"
  pl_unquote :: "pystr \<Rightarrow> pystr"
  pl_pton :: "int \<Rightarrow> pystr \<Rightarrow> bytes result"
  pl_nametoindex :: "pystr \<Rightarrow> nat option"
  pl_decimal :: "nat \<Rightarrow> nat option"

section \<open>Addresses\<close>

text \<open>\<open>s.split('%', 1)[0]\<close>, and \<open>s.rsplit('%', 1)\<close> of a string that contains the character.\<close>

definition before_first :: "nat \<Rightarrow> pystr \<Rightarrow> pystr" where
  "before_first c s = takeWhile (\<lambda>x. x \<noteq> c) s"

definition rsplit_at :: "nat \<Rightarrow> pystr \<Rightarrow> pystr \<times> pystr" where
  "rsplit_at c s =
     (rev (tl (dropWhile (\<lambda>x. x \<noteq> c) (rev s))), rev (takeWhile (\<lambda>x. x \<noteq> c) (rev s)))"

definition PERCENT :: nat where "PERCENT = 0x25"

type_synonym address_key = "bytes \<times> int"

definition parsed_address :: "platform \<Rightarrow> int \<Rightarrow> pystr \<Rightarrow> bytes option result" where
  "parsed_address pl family text =
     (case pl_pton pl family text of
        Inr packed \<Rightarrow> Inr (Some packed)
      | Inl e \<Rightarrow> if isinstance_of e Py_OSError then Inr None else Inl e)"

definition source_host_key :: "platform \<Rightarrow> int \<Rightarrow> pyval \<Rightarrow> address_key option result" where
  "source_host_key pl family sockaddr =
     (case sockaddr of
        PyTuple xs \<Rightarrow>
          if length xs \<noteq> sockaddr_length family then Inr None
          else
            (case xs ! 0 of
               PyStr h \<Rightarrow>
                 andThen (parsed_address pl family (if family = AF_INET6 then before_first PERCENT h else h)) (\<lambda>packed.
                   Inr (case (packed, if family = AF_INET6 then xs ! 3 else PyInt 0) of
                          (Some packed, PyInt scope) \<Rightarrow> Some (packed, scope)
                        | _ \<Rightarrow> None))
             | _ \<Rightarrow> Inr None)
      | _ \<Rightarrow> Inr None)"

type_synonym peer_key = "int \<times> bytes \<times> int \<times> int"

definition peer_key_of :: "platform \<Rightarrow> int \<Rightarrow> pyval \<Rightarrow> peer_key option result" where
  "peer_key_of pl family sockaddr =
     andThen (source_host_key pl family sockaddr) (\<lambda>host.
       Inr (case (host, sockaddr) of
              (Some (packed, scope), PyTuple xs) \<Rightarrow>
                (case xs ! 1 of
                   PyInt port \<Rightarrow> if 1 \<le> port \<and> port \<le> 65535 then Some (family, packed, port, scope) else None
                 | _ \<Rightarrow> None)
            | _ \<Rightarrow> None))"

section \<open>Links\<close>

definition MAX_LINKS :: nat where "MAX_LINKS = 256"
definition MAX_PORTS :: nat where "MAX_PORTS = 8"
definition MAX_ENDPOINT_URIS :: nat where "MAX_ENDPOINT_URIS = 32"

definition key :: "string \<Rightarrow> pyval" where
  "key s = PyStr (str_of s)"

text \<open>The whole payload has to be one value.\<close>

definition decode_cbor :: "platform \<Rightarrow> bytes \<Rightarrow> pyval option" where
  "decode_cbor pl payload =
     (case pl_cbor pl payload of
        Inl _ \<Rightarrow> None
      | Inr (value, consumed) \<Rightarrow> if consumed \<noteq> length payload then None else Some value)"

fun collect_links :: "pyval list \<Rightarrow> rep list \<Rightarrow> rep list option" where
  "collect_links [] links = Some links"
| "collect_links (PyDict link # rest) links =
     (if length links + 1 > MAX_LINKS then None else collect_links rest (links @ [link]))"
| "collect_links (_ # rest) links = None"

fun walk_containers :: "pyval list \<Rightarrow> rep list \<Rightarrow> rep list option" where
  "walk_containers [] links = Some links"
| "walk_containers (PyDict c # rest) links =
     (case (case dict_get c (key ''links'') of
              Some (PyList nested) \<Rightarrow> Some nested
            | Some _ \<Rightarrow> None
            | None \<Rightarrow> Some (if dict_get c (key ''href'') \<noteq> None then [PyDict c] else [])) of
        None \<Rightarrow> None
      | Some candidates \<Rightarrow>
          (case collect_links candidates links of None \<Rightarrow> None | Some links \<Rightarrow> walk_containers rest links))"
| "walk_containers (_ # rest) links = None"

definition is_dict :: "pyval \<Rightarrow> bool" where
  "is_dict v = (case v of PyDict _ \<Rightarrow> True | _ \<Rightarrow> False)"

definition resource_links :: "pyval \<Rightarrow> rep list option" where
  "resource_links value =
     (let containers = (case value of PyList xs \<Rightarrow> xs | v \<Rightarrow> [v]) in
      if \<not> list_all is_dict containers then None else walk_containers containers [])"

section \<open>One endpoint URI\<close>

definition decimal_digits :: "platform \<Rightarrow> pystr \<Rightarrow> nat option" where
  "decimal_digits pl zone =
     (if zone = [] \<or> (\<exists>c \<in> set zone. pl_decimal pl c = None) then None
      else Some (foldl (\<lambda>n c. n * 10 + the (pl_decimal pl c)) 0 zone))"

definition uri_scope_id :: "platform \<Rightarrow> pystr \<Rightarrow> nat option" where
  "uri_scope_id pl zone =
     (if zone = [] then None
      else
        (case decimal_digits pl zone of
           Some value \<Rightarrow> if value \<le> 0xFFFFFFFF then Some value else None
         | None \<Rightarrow> pl_nametoindex pl zone))"

datatype endpoint_class = ENDPOINT_IGNORE | ENDPOINT_UNTRUSTED | ENDPOINT_MATCH nat

definition ascii_lower :: "pystr \<Rightarrow> pystr" where
  "ascii_lower s = map (\<lambda>c. if 65 \<le> c \<and> c \<le> 90 then c + 32 else c) s"

text \<open>The host of a URI against the source: address and scope have to be the source's.\<close>

definition host_matches :: "platform \<Rightarrow> int \<Rightarrow> address_key \<Rightarrow> pystr \<Rightarrow> bool result" where
  "host_matches pl family source hostname =
     (let zoned = PERCENT \<in> set hostname;
          (address, scope) =
            (if family = AF_INET6 then
               (if zoned then
                  (case rsplit_at PERCENT hostname of (a, zone) \<Rightarrow> (a, map_option int (uri_scope_id pl zone)))
                else (hostname, Some (snd source)))
             else (hostname, if zoned then None else Some 0)) in
      case scope of
        None \<Rightarrow> Inr False
      | Some scope \<Rightarrow>
          andThen (parsed_address pl family address) (\<lambda>packed. Inr (packed = Some (fst source) \<and> scope = snd source)))"

definition secure_endpoint_for_source :: "platform \<Rightarrow> pyval \<Rightarrow> int \<Rightarrow> address_key \<Rightarrow> endpoint_class result" where
  "secure_endpoint_for_source pl value family source =
     (case value of
        PyStr uri \<Rightarrow>
          (case pl_urlsplit pl uri of
             None \<Rightarrow> Inr (if take 6 (ascii_lower uri) = str_of ''coaps:'' then ENDPOINT_UNTRUSTED else ENDPOINT_IGNORE)
           | Some u \<Rightarrow>
               if ascii_lower (url_scheme u) \<noteq> str_of ''coaps'' then Inr ENDPOINT_IGNORE
               else if url_hostname u \<in> {None, Some []} \<or> url_username u \<noteq> None \<or> url_password u \<noteq> None
                       \<or> url_path u \<noteq> [] \<or> url_query u \<noteq> [] \<or> url_fragment u \<noteq> []
                       \<or> (url_netloc u \<noteq> [] \<and> last (url_netloc u) = 0x3A)
                 then Inr ENDPOINT_UNTRUSTED
               else
                 andThen (host_matches pl family source (pl_unquote pl (the (url_hostname u)))) (\<lambda>same.
                   let port = (case url_port u of None \<Rightarrow> 5684 | Some p \<Rightarrow> p) in
                   Inr (if \<not> same \<or> \<not> (1 \<le> port \<and> port \<le> 65535) then ENDPOINT_UNTRUSTED else ENDPOINT_MATCH port)))
      | _ \<Rightarrow> Inr ENDPOINT_IGNORE)"

section \<open>Ports\<close>

text \<open>The list is capped; the set remembers every valid port.\<close>

definition add_port :: "pyval \<Rightarrow> nat list \<times> nat set \<Rightarrow> nat list \<times> nat set" where
  "add_port port acc =
     (case (port, acc) of
        (PyInt p, (ports, seen)) \<Rightarrow>
          if \<not> (1 \<le> p \<and> p \<le> 65535) \<or> nat p \<in> seen then acc
          else (if length ports < MAX_PORTS then ports @ [nat p] else ports, insert (nat p) seen)
      | _ \<Rightarrow> acc)"

definition is_doxm_link :: "rep \<Rightarrow> bool" where
  "is_doxm_link link \<longleftrightarrow>
     (case dict_get link (key ''href'') of
        Some href \<Rightarrow> same_value href (key ''/oic/sec/doxm'')
      | None \<Rightarrow> False)
     \<and> (case dict_get link (key ''rt'') of
          Some (PyStr s) \<Rightarrow> s = str_of ''oic.r.doxm''
        | Some (PyList ts) \<Rightarrow> (\<exists>t \<in> set ts. same_value t (key ''oic.r.doxm''))
        | _ \<Rightarrow> False)"

text \<open>The \<open>p.port\<close> a link contributes, if it is the device's own doxm link with a secure policy.\<close>

definition policy_port :: "rep \<Rightarrow> pyval list" where
  "policy_port link =
     (if is_doxm_link link then
        (case dict_get link (key ''p'') of
           Some (PyDict policy) \<Rightarrow>
             if dict_get policy (key ''sec'') = Some (PyBool True)
             then [case dict_get policy (key ''port'') of None \<Rightarrow> PyNone | Some v \<Rightarrow> v] else []
         | _ \<Rightarrow> [])
      else [])"

text \<open>The endpoint URIs a link advertises, and their classification, which ends at the first exception.\<close>

definition advertised :: "rep \<Rightarrow> pyval list" where
  "advertised link =
     (case dict_get link (key ''eps'') of
        Some (PyList eps) \<Rightarrow>
          concat (map (\<lambda>e. case e of
              PyDict d \<Rightarrow> [case dict_get d (key ''ep'') of None \<Rightarrow> PyNone | Some v \<Rightarrow> v]
            | _ \<Rightarrow> []) (take MAX_ENDPOINT_URIS eps))
      | _ \<Rightarrow> [])"

fun classify_all :: "platform \<Rightarrow> int \<Rightarrow> address_key \<Rightarrow> pyval list \<Rightarrow> endpoint_class list result" where
  "classify_all pl family source [] = Inr []"
| "classify_all pl family source (v # vs) =
     andThen (secure_endpoint_for_source pl v family source) (\<lambda>c.
     andThen (classify_all pl family source vs) (\<lambda>cs. Inr (c # cs)))"

definition matched_port :: "endpoint_class \<Rightarrow> pyval list" where
  "matched_port e = (case e of ENDPOINT_MATCH p \<Rightarrow> [PyInt (int p)] | _ \<Rightarrow> [])"

datatype port_answer = PORTS_FOUND "nat list" | PORTS_ABSENT | PORTS_MALFORMED | PORTS_UNTRUSTED

definition ports_from_links :: "platform \<Rightarrow> rep list \<Rightarrow> int \<Rightarrow> address_key \<Rightarrow> port_answer result" where
  "ports_from_links pl links family source =
     andThen (classify_all pl family source (concat (map advertised links))) (\<lambda>classes.
       let from_eps = fold add_port (concat (map matched_port classes)) ([], {});
           (ports, seen) = fold add_port (concat (map policy_port links)) from_eps in
       Inr (if ports \<noteq> [] then PORTS_FOUND ports
            else if ENDPOINT_UNTRUSTED \<in> set classes then PORTS_UNTRUSTED
            else PORTS_ABSENT))"

definition secure_ports_from_payload :: "platform \<Rightarrow> bytes \<Rightarrow> int \<Rightarrow> address_key \<Rightarrow> port_answer result" where
  "secure_ports_from_payload pl payload family source =
     (case decode_cbor pl payload of
        None \<Rightarrow> Inr PORTS_MALFORMED
      | Some value \<Rightarrow>
          (case resource_links value of
             None \<Rightarrow> Inr PORTS_MALFORMED
           | Some links \<Rightarrow> ports_from_links pl links family source))"

section \<open>Which ports can come out\<close>

text \<open>A port an advertised URI earns: a coaps URI whose address and scope are the source's.\<close>

definition bound_to_source :: "platform \<Rightarrow> int \<Rightarrow> address_key \<Rightarrow> rep list \<Rightarrow> nat \<Rightarrow> bool" where
  "bound_to_source pl family source links p \<longleftrightarrow>
     (\<exists>link \<in> set links. \<exists>uri u address scope. PyStr uri \<in> set (advertised link) \<and> pl_urlsplit pl uri = Some u
        \<and> ascii_lower (url_scheme u) = str_of ''coaps'' \<and> url_username u = None \<and> url_path u = []
        \<and> p = (case url_port u of None \<Rightarrow> 5684 | Some q \<Rightarrow> q)
        \<and> pl_pton pl family address = Inr (fst source) \<and> scope = snd source
        \<and> address = (if family = AF_INET6 \<and> PERCENT \<in> set (pl_unquote pl (the (url_hostname u)))
                      then fst (rsplit_at PERCENT (pl_unquote pl (the (url_hostname u))))
                      else pl_unquote pl (the (url_hostname u))))"

definition doxm_policy :: "rep list \<Rightarrow> nat \<Rightarrow> bool" where
  "doxm_policy links p \<longleftrightarrow> (\<exists>link \<in> set links. is_doxm_link link \<and> PyInt (int p) \<in> set (policy_port link))"

lemma policy_port_doxm: "x \<in> set (policy_port link) \<Longrightarrow> is_doxm_link link"
  unfolding policy_port_def by (cases "is_doxm_link link") simp_all

text \<open>The accumulator: valid ports, each once, all of them while there is room.\<close>

definition port_list_ok :: "nat list \<times> nat set \<Rightarrow> bool" where
  "port_list_ok acc \<longleftrightarrow>
     (case acc of (ports, seen) \<Rightarrow>
        distinct ports \<and> length ports \<le> MAX_PORTS \<and> set ports \<subseteq> seen
        \<and> (length ports < MAX_PORTS \<longrightarrow> set ports = seen))"

definition valid_ports :: "pyval list \<Rightarrow> nat set" where
  "valid_ports vs = {p. 1 \<le> p \<and> p \<le> 65535 \<and> PyInt (int p) \<in> set vs}"

lemma add_port_step:
  assumes "port_list_ok acc"
  shows "port_list_ok (add_port v acc)" and "snd (add_port v acc) = snd acc \<union> valid_ports [v]"
proof -
  obtain ports seen where acc: "acc = (ports, seen)" by fastforce
  have "port_list_ok (add_port v acc) \<and> snd (add_port v acc) = snd acc \<union> valid_ports [v]"
  proof (cases "\<exists>n. v = PyInt n \<and> 1 \<le> n \<and> n \<le> 65535")
    case True
    then obtain n where n: "v = PyInt n" "1 \<le> n" "n \<le> 65535" by blast
    then have "valid_ports [v] = {nat n}" by (auto simp: valid_ports_def)
    with n assms acc show ?thesis
      by (auto simp: add_port_def port_list_ok_def)
  next
    case False
    then have "valid_ports [v] = {}" by (fastforce simp: valid_ports_def)
    moreover have "add_port v acc = acc" using False by (cases v) (auto simp: add_port_def acc)
    ultimately show ?thesis using assms by simp
  qed
  then show "port_list_ok (add_port v acc)" "snd (add_port v acc) = snd acc \<union> valid_ports [v]" by simp_all
qed

lemma fold_add_port:
  assumes "port_list_ok acc"
  shows "port_list_ok (fold add_port vs acc)" and "snd (fold add_port vs acc) = snd acc \<union> valid_ports vs"
proof -
  have "port_list_ok (fold add_port vs acc) \<and> snd (fold add_port vs acc) = snd acc \<union> valid_ports vs"
    using assms
  proof (induction vs arbitrary: acc)
    case (Cons v vs)
    have "valid_ports (v # vs) = valid_ports [v] \<union> valid_ports vs" by (auto simp: valid_ports_def)
    with Cons.IH [OF add_port_step(1) [OF Cons.prems]] add_port_step(2) [OF Cons.prems]
    show ?case by (metis Un_assoc fold_simps(2))
  qed (simp add: valid_ports_def)
  then show "port_list_ok (fold add_port vs acc)" "snd (fold add_port vs acc) = snd acc \<union> valid_ports vs" by simp_all
qed

lemma classify_all_set:
  "classify_all pl family source vs = Inr cs \<Longrightarrow>
     c \<in> set cs \<longleftrightarrow> (\<exists>v \<in> set vs. secure_endpoint_for_source pl v family source = Inr c)"
  by (induction vs arbitrary: cs) (auto simp: result_simps)

lemma parsed_address_Some: "parsed_address pl family t = Inr (Some packed) \<longleftrightarrow> pl_pton pl family t = Inr packed"
  by (auto simp: parsed_address_def split: sum.splits)

lemma matched_endpoint:
  assumes "secure_endpoint_for_source pl v family source = Inr (ENDPOINT_MATCH p)"
    and "link \<in> set links" and "v \<in> set (advertised link)"
  shows "1 \<le> p \<and> p \<le> 65535 \<and> bound_to_source pl family source links p"
proof -
  obtain uri u where v: "v = PyStr uri" "pl_urlsplit pl uri = Some u"
    using assms(1) by (auto simp: secure_endpoint_for_source_def split: pyval.splits option.splits if_splits)
  let ?host = "pl_unquote pl (the (url_hostname u))"
  let ?address = "if family = AF_INET6 \<and> PERCENT \<in> set ?host then fst (rsplit_at PERCENT ?host) else ?host"
  have m: "host_matches pl family source ?host = Inr True" and p: "p = (case url_port u of None \<Rightarrow> 5684 | Some q \<Rightarrow> q)"
    "1 \<le> p" "p \<le> 65535" and u: "ascii_lower (url_scheme u) = str_of ''coaps''" "url_username u = None" "url_path u = []"
    using assms(1) v by (auto simp: secure_endpoint_for_source_def result_simps Let_def split: if_splits)
  have "pl_pton pl family ?address = Inr (fst source)"
    using m by (auto simp: host_matches_def result_simps Let_def parsed_address_Some
        split: if_splits option.splits prod.splits)
  then show ?thesis
    using assms(2,3) v u p unfolding bound_to_source_def by blast
qed

lemma ports_found:
  assumes "secure_ports_from_payload pl payload family source = Inr (PORTS_FOUND ports)"
  obtains tree links classes where "decode_cbor pl payload = Some tree" "resource_links tree = Some links"
    "classify_all pl family source (concat (map advertised links)) = Inr classes" "ports \<noteq> []"
    "port_list_ok (ports, valid_ports (concat (map matched_port classes)) \<union> valid_ports (concat (map policy_port links)))"
proof -
  obtain tree links where v: "decode_cbor pl payload = Some tree" "resource_links tree = Some links"
    "ports_from_links pl links family source = Inr (PORTS_FOUND ports)"
    using assms by (auto simp: secure_ports_from_payload_def split: option.splits)
  obtain classes where c: "classify_all pl family source (concat (map advertised links)) = Inr classes"
    using v(3) by (auto simp: ports_from_links_def result_simps)
  let ?eps = "concat (map matched_port classes)" and ?pol = "concat (map policy_port links)"
  obtain seen where f: "fold add_port ?pol (fold add_port ?eps ([], {})) = (ports, seen)" and ne: "ports \<noteq> []"
    using v(3) c by (auto simp: ports_from_links_def Let_def split: prod.splits if_splits)
  have start: "port_list_ok ([], {})" by (simp add: port_list_ok_def MAX_PORTS_def)
  note one = fold_add_port [OF start, of ?eps]
  have "port_list_ok (ports, seen)" and "seen = valid_ports ?eps \<union> valid_ports ?pol"
    using fold_add_port [OF one(1), of ?pol] one(2) f by simp_all
  with that [OF v(1,2) c ne] show thesis by blast
qed

lemma ports_found_valid:
  assumes "secure_ports_from_payload pl payload family source = Inr (PORTS_FOUND ports)"
  shows "ports \<noteq> [] \<and> distinct ports \<and> length ports \<le> MAX_PORTS \<and> (\<forall>p \<in> set ports. 1 \<le> p \<and> p \<le> 65535)"
  using assms by (rule ports_found) (auto simp: port_list_ok_def valid_ports_def)

lemma collect_links_length: "collect_links vs ls = Some ls' \<Longrightarrow> length ls \<le> MAX_LINKS \<Longrightarrow> length ls' \<le> MAX_LINKS"
  by (induction vs ls rule: collect_links.induct) (auto split: if_splits)

lemma walk_containers_length:
  "walk_containers cs ls = Some ls' \<Longrightarrow> length ls \<le> MAX_LINKS \<Longrightarrow> length ls' \<le> MAX_LINKS"
  by (induction cs ls rule: walk_containers.induct)
     (auto split: option.splits if_splits pyval.splits dest: collect_links_length)

lemma untrusted_uri_can_raise:
  assumes "pl_urlsplit pl uri = Some u" and "url_scheme u = str_of ''coaps''" and "url_hostname u = Some (h # hs)"
    and "url_username u = None" "url_password u = None" "url_path u = []" "url_query u = []" "url_fragment u = []"
    and "url_netloc u = []" and "PERCENT \<notin> set (pl_unquote pl (h # hs))"
    and "pl_pton pl AF_INET (pl_unquote pl (h # hs)) = Inl Py_ValueError"
  shows "secure_endpoint_for_source pl (PyStr uri) AF_INET source = Inl Py_ValueError"
proof -
  have "\<not> isinstance_of Py_ValueError Py_OSError" by code_simp
  moreover have "ascii_lower (str_of ''coaps'') = str_of ''coaps''" by code_simp
  ultimately show ?thesis
    using assms by (simp add: secure_endpoint_for_source_def host_matches_def parsed_address_def Let_def af_defs)
qed

section \<open>Properties\<close>

text \<open>C23.
  Only ports the responder vouches for come out of a directory answer: what is found is a non-empty list
  of at most eight distinct valid ports, read from at most 256 links, each either advertised by a coaps
  URI without user or path whose address is the very address the answer came from, or stated by the
  secure policy of the device's own doxm link; and unless the list is full no such port is missing.
\<close>

theorem advertised_ports_trustworthy:
  assumes "secure_ports_from_payload pl payload family source = Inr (PORTS_FOUND ports)"
  shows "ports \<noteq> [] \<and> length ports \<le> MAX_PORTS \<and> distinct ports
    \<and> (\<exists>tree links. decode_cbor pl payload = Some tree \<and> resource_links tree = Some links
         \<and> length links \<le> MAX_LINKS
         \<and> (\<forall>p \<in> set ports. 1 \<le> p \<and> p \<le> 65535
              \<and> (bound_to_source pl family source links p \<or> doxm_policy links p))
         \<and> (length ports < MAX_PORTS \<longrightarrow>
              (\<forall>p. 1 \<le> p \<and> p \<le> 65535 \<and> doxm_policy links p \<longrightarrow> p \<in> set ports)
              \<and> (\<forall>link \<in> set links. \<forall>v \<in> set (advertised link). \<forall>p.
                   secure_endpoint_for_source pl v family source = Inr (ENDPOINT_MATCH p) \<longrightarrow> p \<in> set ports)))"
proof -
  from assms obtain tree links classes where v: "decode_cbor pl payload = Some tree" "resource_links tree = Some links"
    and c: "classify_all pl family source (concat (map advertised links)) = Inr classes" and ne: "ports \<noteq> []"
    and ok: "port_list_ok (ports, valid_ports (concat (map matched_port classes)) \<union> valid_ports (concat (map policy_port links)))"
    by (rule ports_found)
  let ?eps = "concat (map matched_port classes)" and ?pol = "concat (map policy_port links)"
  have eps: "PyInt (int p) \<in> set ?eps \<longleftrightarrow> (\<exists>link \<in> set links. \<exists>v \<in> set (advertised link).
      secure_endpoint_for_source pl v family source = Inr (ENDPOINT_MATCH p))" for p
    using classify_all_set [OF c, of "ENDPOINT_MATCH p"]
    by (force simp: matched_port_def split: endpoint_class.splits)
  have pol: "PyInt (int p) \<in> set ?pol \<longleftrightarrow> doxm_policy links p" for p
    unfolding doxm_policy_def using policy_port_doxm by auto
  have src: "bound_to_source pl family source links p \<and> 1 \<le> p \<and> p \<le> 65535"
    if "PyInt (int p) \<in> set ?eps" for p
    using that matched_endpoint unfolding eps by blast
  have "length links \<le> MAX_LINKS"
    using v(2) walk_containers_length by (fastforce simp: resource_links_def Let_def split: if_splits)
  moreover have "\<forall>p \<in> set ports. 1 \<le> p \<and> p \<le> 65535 \<and> (bound_to_source pl family source links p \<or> doxm_policy links p)"
    using ok src pol unfolding port_list_ok_def valid_ports_def by blast
  moreover have "p \<in> set ports" if "length ports < MAX_PORTS" "1 \<le> p \<and> p \<le> 65535 \<and> doxm_policy links p" for p
    using ok that pol unfolding port_list_ok_def valid_ports_def by blast
  moreover have "p \<in> set ports" if "length ports < MAX_PORTS" "PyInt (int p) \<in> set ?eps" for p
    using ok that src unfolding port_list_ok_def valid_ports_def by blast
  ultimately show ?thesis
    using ne ok v(1,2) eps unfolding port_list_ok_def by blast
qed

definition demo_platform :: platform where
  "demo_platform = \<lparr>pl_cbor = (\<lambda>b. Inr (PyList [PyDict [(key ''href'', key ''/oic/sec/doxm''), (key ''rt'', PyList [key ''oic.r.doxm'']),
        (key ''p'', PyDict [(key ''sec'', PyBool True), (key ''port'', PyInt 49153)])]], length b)),
     pl_urlsplit = (\<lambda>s. None), pl_unquote = id, pl_pton = (\<lambda>f s. Inl Py_OSError), pl_nametoindex = (\<lambda>s. None),
     pl_decimal = (\<lambda>c. None)\<rparr>"

theorem advertised_ports_trustworthy_witness:
  "secure_ports_from_payload demo_platform [1] AF_INET ([10, 0, 0, 7], 0) = Inr (PORTS_FOUND [49153])
   \<and> (\<exists>links. doxm_policy links 49153)"
proof -
  have run: "secure_ports_from_payload demo_platform [1] AF_INET ([10, 0, 0, 7], 0) = Inr (PORTS_FOUND [49153])"
    by (simp add: secure_ports_from_payload_def decode_cbor_def demo_platform_def resource_links_def Let_def is_dict_def
        key_def str_of_def ports_from_links_def advertised_def policy_port_def is_doxm_link_def add_port_def
        MAX_PORTS_def MAX_LINKS_def)
  have "\<not> bound_to_source demo_platform AF_INET ([10, 0, 0, 7], 0) links 49153" for links
    by (simp add: bound_to_source_def demo_platform_def)
  with advertised_ports_trustworthy [OF run] run show ?thesis by auto
qed

end
