(* ===== verification/Ocf_Fetch.thy ===== *)
theory Ocf_Fetch
  imports Ocf_Directory Block2
begin

text \<open>
  The plaintext client of \<open>protocol/ocf_discovery.py\<close>: one blockwise read over unconnected UDP sockets
  (\<open>_fetch_resource\<close>), whose first accepted answer pins the peer for the rest of the transfer, and the
  two public operations over it, \<open>read_plaintext_ocf_resource\<close> and \<open>discover_ocf_secure_ports\<close>. Clocks,
  random numbers, sends, the selector and receives are functions of the number of the call (\<open>f_calls\<close>).
\<close>

section \<open>State\<close>

record ocf_route =
  r_socket :: nat
  r_endpoint :: udp_endpoint
  r_host :: address_key

text \<open>
  A send gives the bytes sent, \<open>None\<close> where it raised \<open>OSError\<close>; the selector the routes that are
  readable, \<open>None\<close> where it raised; a receive the datagram and the address it came from.
\<close>

record ocf_net =
  on_platform :: platform
  on_clock :: "nat \<Rightarrow> real"
  on_token :: "nat \<Rightarrow> bytes"
  on_bits :: "nat \<Rightarrow> nat"
  on_sendto :: "nat \<Rightarrow> nat \<Rightarrow> bytes \<Rightarrow> pyval \<Rightarrow> nat option"
  on_select :: "nat \<Rightarrow> real \<Rightarrow> nat list option"
  on_recv :: "nat \<Rightarrow> nat \<Rightarrow> (bytes \<times> pyval) option"

datatype fetch_event =
    Requested nat pyval bytes
  | Answered nat pyval bytes coap_message
  | Acknowledged nat pyval bytes

record fetch =
  f_acc :: block2
  f_attempts :: nat
  f_received :: bool
  f_malformed :: bool
  f_pin :: "(nat \<times> peer_key \<times> pyval) option"
  f_mids :: "nat set"
  f_calls :: nat
  f_log :: "fetch_event list"

definition asked :: "(nat \<Rightarrow> 'a) \<Rightarrow> fetch \<Rightarrow> 'a \<times> fetch" where
  "asked g s = (g (f_calls s), s\<lparr>f_calls := f_calls s + 1\<rparr>)"

definition happened :: "fetch_event \<Rightarrow> fetch \<Rightarrow> fetch" where
  "happened e s = s\<lparr>f_log := f_log s @ [e]\<rparr>"

definition MAX_DATAGRAM_BYTES :: nat where "MAX_DATAGRAM_BYTES = 8192"

section \<open>One datagram\<close>

text \<open>The answer is not from the pinned peer.\<close>

definition off_pin :: "(nat \<times> peer_key \<times> pyval) option \<Rightarrow> nat \<Rightarrow> peer_key \<Rightarrow> bool" where
  "off_pin pin r peer = (case pin of None \<Rightarrow> False | Some (route, pinned, _) \<Rightarrow> r \<noteq> route \<or> peer \<noteq> pinned)"

definition malformed :: "fetch \<Rightarrow> bool result \<times> fetch" where
  "malformed s = (Inr False, s\<lparr>f_malformed := True\<rparr>)"

text \<open>An accepted answer: acknowledged when confirmable, and pinned when it is the first.\<close>

definition accept_answer ::
  "ocf_net \<Rightarrow> nat \<Rightarrow> pyval \<Rightarrow> peer_key \<Rightarrow> bytes \<Rightarrow> classification \<Rightarrow> block2_status \<Rightarrow> block2 \<Rightarrow> fetch
     \<Rightarrow> bool result \<times> fetch" where
  "accept_answer w r source peer datagram c status acc s =
     (let s = happened (Answered r source datagram (c_message c)) (s\<lparr>f_acc := acc\<rparr>);
          s = (case c_ack c of
                 Some ack \<Rightarrow>
                   if m_mtype (c_message c) = TYPE_CON
                   then snd (asked (\<lambda>n. on_sendto w n r ack source) (happened (Acknowledged r source ack) s))
                   else s
               | None \<Rightarrow> s);
          s = s\<lparr>f_received := True,
                f_pin := (case f_pin s of None \<Rightarrow> Some (r, peer, source) | Some p \<Rightarrow> Some p)\<rparr> in
      (Inr (status \<noteq> BLOCK2_DUPLICATE), s))"

definition take_datagram ::
  "ocf_net \<Rightarrow> ocf_route list \<Rightarrow> bytes \<Rightarrow> nat \<Rightarrow> nat \<Rightarrow> fetch \<Rightarrow> bool result \<times> fetch" where
  "take_datagram w routes token mid r s =
     (case asked (\<lambda>n. on_recv w n r) s of
        (None, s) \<Rightarrow> (Inr False, s)
      | (Some (datagram, source), s) \<Rightarrow>
          let family = ep_family (r_endpoint (routes ! r)) in
          then_do (source_host_key (on_platform w) family source, s) (\<lambda>host s.
          then_do (peer_key_of (on_platform w) family source, s) (\<lambda>peer s.
            case peer of
              None \<Rightarrow> (Inr False, s)
            | Some peer \<Rightarrow>
                if host \<noteq> Some (r_host (routes ! r)) then (Inr False, s)
                else if off_pin (f_pin s) r peer then (Inr False, s)
                else if length datagram > MAX_DATAGRAM_BYTES then malformed s
                else
                  (case classify_coap_response datagram (Some token) (Some mid) of
                     Inl e \<Rightarrow> if isinstance_of e MalformedMessageError then malformed s else (Inl e, s)
                   | Inr c \<Rightarrow>
                       if c_kind c \<noteq> RESPONSE_MESSAGE \<or> m_mtype (c_message c) \<notin> {TYPE_CON, TYPE_NON}
                       then (Inr False, s)
                       else
                         (case add_response (f_acc s) (c_message c) of
                            Inl e \<Rightarrow> if isinstance_of e BlockwiseError then malformed s else (Inl e, s)
                          | Inr (status, acc) \<Rightarrow>
                              accept_answer w r source peer datagram c status acc s)))))"

text \<open>The loop over the readable routes, up to the first answer that makes progress.\<close>

fun take_events ::
  "ocf_net \<Rightarrow> ocf_route list \<Rightarrow> bytes \<Rightarrow> nat \<Rightarrow> nat list \<Rightarrow> fetch \<Rightarrow> bool result \<times> fetch" where
  "take_events w routes token mid [] s = (Inr False, s)"
| "take_events w routes token mid (r # rs) s =
     then_do (take_datagram w routes token mid r s) (\<lambda>accepted s.
       if accepted then (Inr True, s) else take_events w routes token mid rs s)"

text \<open>The selector reports routes that are registered with it.\<close>

definition readable :: "ocf_net \<Rightarrow> ocf_route list \<Rightarrow> real \<Rightarrow> nat \<Rightarrow> nat list" where
  "readable w routes wait n =
     (case on_select w n wait of None \<Rightarrow> [] | Some rs \<Rightarrow> filter (\<lambda>r. r < length routes) rs)"

fun listen ::
  "ocf_net \<Rightarrow> ocf_route list \<Rightarrow> bytes \<Rightarrow> nat \<Rightarrow> real \<Rightarrow> nat \<Rightarrow> fetch \<Rightarrow> (bool result \<times> fetch) option" where
  "listen w routes token mid deadline 0 s = None"
| "listen w routes token mid deadline (Suc fuel) s =
     (case asked (on_clock w) s of
        (now, s) \<Rightarrow>
          if deadline - now \<le> 0 then Some (Inr False, s)
          else
            (case asked (readable w routes (deadline - now)) s of
               (rs, s) \<Rightarrow>
                 if rs = [] then Some (Inr False, s)
                 else
                   (case take_events w routes token mid rs s of
                      (Inr False, s) \<Rightarrow> listen w routes token mid deadline fuel s
                    | out \<Rightarrow> Some out)))"

section \<open>One request\<close>

text \<open>\<open>while mid in used_mids: mid = (mid + 1) & 0xFFFF\<close>; \<open>None\<close> when every Message ID is used.\<close>

fun free_mid :: "nat set \<Rightarrow> nat \<Rightarrow> nat \<Rightarrow> nat option" where
  "free_mid used 0 mid = None"
| "free_mid used (Suc n) mid = (if mid \<in> used then free_mid used n ((mid + 1) AND 0xFFFF) else Some mid)"

text \<open>The sends of one request over the given routes: whether one of them sent it whole.\<close>

fun send_request ::
  "ocf_net \<Rightarrow> ocf_route list \<Rightarrow> bytes \<Rightarrow> nat list \<Rightarrow> bool \<Rightarrow> fetch \<Rightarrow> bool \<times> fetch" where
  "send_request w routes request [] sent s = (sent, s)"
| "send_request w routes request (r # rs) sent s =
     (let destination = (case f_pin s of
              Some (route, _, source) \<Rightarrow> if r = route then source else ep_sockaddr (r_endpoint (routes ! r))
            | None \<Rightarrow> ep_sockaddr (r_endpoint (routes ! r)))
      in case asked (\<lambda>n. on_sendto w n r request destination) s of
           (count, s) \<Rightarrow>
             send_request w routes request rs (sent \<or> count = Some (length request))
               (happened (Requested r destination request) s))"

definition block_request :: "block2 \<Rightarrow> nat \<Rightarrow> bytes \<Rightarrow> bytes list \<Rightarrow> bytes list \<Rightarrow> bytes result" where
  "block_request acc mid token path query =
     build_get_request TYPE_NON mid token (map PyBytes path) (map PyBytes query) (PyBytes CF_CBOR)
       (if b_expected acc > 0 then PyInt (int (b_expected acc)) else PyNone) (PyInt (int (request_szx acc))) []"

text \<open>One attempt: whether the request was sent, and whether an answer made progress.\<close>

definition one_attempt ::
  "ocf_net \<Rightarrow> ocf_route list \<Rightarrow> bytes \<Rightarrow> bytes list \<Rightarrow> bytes list \<Rightarrow> (real \<Rightarrow> real) \<Rightarrow> nat \<Rightarrow> fetch
     \<Rightarrow> ((bool \<times> bool) result \<times> fetch) option" where
  "one_attempt w routes token path query deadline fuel s =
     (case asked (on_bits w) s of
        (bits, s) \<Rightarrow>
          (case free_mid (f_mids s) 65536 bits of
             None \<Rightarrow> None
           | Some mid \<Rightarrow>
               let s = s\<lparr>f_mids := insert mid (f_mids s)\<rparr> in
               (case block_request (f_acc s) mid token path query of
                  Inl e \<Rightarrow> Some (Inl e, s)
                | Inr request \<Rightarrow>
                    (case send_request w routes request
                            (case f_pin s of Some (route, _) \<Rightarrow> [route] | None \<Rightarrow> [0..<length routes]) False s of
                       (sent, s) \<Rightarrow>
                         let s = s\<lparr>f_attempts := f_attempts s + 1\<rparr> in
                         if \<not> sent then Some (Inr (False, False), s)
                         else
                           (case asked (on_clock w) s of
                              (now, s) \<Rightarrow>
                                map_option (\<lambda>(out, s). (andThen out (\<lambda>accepted. Inr (True, accepted)), s))
                                  (listen w routes token mid (deadline now) fuel s))))))"

text \<open>The attempts for one block, \<open>k\<close> of them left; the last one waits until the cutoff.\<close>

definition attempt_deadline :: "real \<Rightarrow> real \<Rightarrow> nat \<Rightarrow> real \<Rightarrow> real" where
  "attempt_deadline cutoff wait_slice k now = (if k = 0 then cutoff else min cutoff (now + wait_slice))"

fun try_block ::
  "ocf_net \<Rightarrow> ocf_route list \<Rightarrow> bytes \<Rightarrow> bytes list \<Rightarrow> bytes list \<Rightarrow> real \<Rightarrow> real \<Rightarrow> nat \<Rightarrow> nat \<Rightarrow> bool \<Rightarrow> fetch
     \<Rightarrow> ((bool \<times> bool) result \<times> fetch) option" where
  "try_block w routes token path query cutoff wait_slice fuel 0 sent_for_block s =
     Some (Inr (False, sent_for_block), s)"
| "try_block w routes token path query cutoff wait_slice fuel (Suc k) sent_for_block s =
     (case asked (on_clock w) s of
        (now, s) \<Rightarrow>
          if now \<ge> cutoff then Some (Inr (False, sent_for_block), s)
          else
            (case one_attempt w routes token path query (attempt_deadline cutoff wait_slice k) fuel s of
               None \<Rightarrow> None
             | Some (Inl e, s) \<Rightarrow> Some (Inl e, s)
             | Some (Inr (sent, accepted), s) \<Rightarrow>
                 if accepted then Some (Inr (True, True), s)
                 else try_block w routes token path query cutoff wait_slice fuel k (sent_for_block \<or> sent) s))"

section \<open>The transfer\<close>

datatype transfer_status =
  TRANSFER_COMPLETE | TRANSFER_ENDPOINT_UNAVAILABLE | TRANSFER_MALFORMED | TRANSFER_NO_RESPONSE

record transfer_result =
  tr_status :: transfer_status
  tr_payload :: bytes
  tr_code :: "nat option"
  tr_source :: "(int \<times> address_key) option"
  tr_blocks :: nat
  tr_format :: "nat option"
  tr_size2 :: "nat option"
  tr_attempts :: nat
  tr_received :: bool

definition transfer_result_of :: "transfer_status \<Rightarrow> ocf_route option \<Rightarrow> fetch \<Rightarrow> transfer_result" where
  "transfer_result_of status route s =
     (let acc = f_acc s; whole = b_complete acc;
          successful = (whole \<and> (case b_code acc of None \<Rightarrow> False | Some c \<Rightarrow> drop_bit 5 c = 2)) in
      \<lparr>tr_status = status,
       tr_payload = (if whole then b_payload acc else []),
       tr_code = (if whole then b_code acc else None),
       tr_source = (if whole then map_option (\<lambda>r. (ep_family (r_endpoint r), r_host r)) route else None),
       tr_blocks = b_blocks acc,
       tr_format = (if successful then b_format acc else None),
       tr_size2 = (if successful then b_size2 acc else None),
       tr_attempts = f_attempts s,
       tr_received = f_received s\<rparr>)"

definition failure_status :: "bool \<Rightarrow> fetch \<Rightarrow> transfer_status" where
  "failure_status sent_for_block s =
     (if f_received s \<or> f_malformed s then TRANSFER_MALFORMED
      else if \<not> sent_for_block \<and> f_attempts s > 0 then TRANSFER_ENDPOINT_UNAVAILABLE
      else TRANSFER_NO_RESPONSE)"

fun fetch_loop ::
  "ocf_net \<Rightarrow> ocf_route list \<Rightarrow> bytes \<Rightarrow> bytes list \<Rightarrow> bytes list \<Rightarrow> real \<Rightarrow> real \<Rightarrow> nat \<Rightarrow> nat \<Rightarrow> fetch
     \<Rightarrow> (transfer_result result \<times> fetch) option" where
  "fetch_loop w routes token path query cutoff wait_slice retries 0 s = None"
| "fetch_loop w routes token path query cutoff wait_slice retries (Suc fuel) s =
     (if b_complete (f_acc s) then Some (Inr (transfer_result_of TRANSFER_MALFORMED None s), s)
      else
        (case try_block w routes token path query cutoff wait_slice fuel (retries + 1) False s of
           None \<Rightarrow> None
         | Some (Inl e, s) \<Rightarrow> Some (Inl e, s)
         | Some (Inr (accepted, sent_for_block), s) \<Rightarrow>
             if b_complete (f_acc s)
             then Some (Inr (transfer_result_of TRANSFER_COMPLETE
                               (map_option (\<lambda>(r, _). routes ! r) (f_pin s)) s), s)
             else if \<not> accepted
             then Some (Inr (transfer_result_of (failure_status sent_for_block s) None s), s)
             else fetch_loop w routes token path query cutoff wait_slice retries fuel s))"

text \<open>
  \<open>_fetch_resource\<close>, from the given number of calls and used Message IDs. The accumulator accepts the
  content formats 60 and 10000.
\<close>

definition fetch_start :: "block2 \<Rightarrow> nat set \<Rightarrow> nat \<Rightarrow> fetch" where
  "fetch_start acc used_mids calls =
     \<lparr>f_acc = acc, f_attempts = 0, f_received = False, f_malformed = False, f_pin = None,
      f_mids = used_mids, f_calls = calls, f_log = []\<rparr>"

definition fetch_from ::
  "ocf_net \<Rightarrow> ocf_route list \<Rightarrow> bytes list \<Rightarrow> bytes list \<Rightarrow> real \<Rightarrow> nat \<Rightarrow> nat \<Rightarrow> fetch
     \<Rightarrow> (transfer_result result \<times> fetch) option" where
  "fetch_from w routes path query cutoff retries fuel s =
     (case asked (on_clock w) s of
        (now, s) \<Rightarrow>
          fetch_loop w routes (b_token (f_acc s)) path query cutoff
            (max 0 (min 1 ((cutoff - now) / (real retries + 1)))) retries fuel s)"

type_synonym 'a ocf_outcome = "'a result \<times> fetch_event list \<times> nat set \<times> nat"

definition fresh_accumulator :: "bytes \<Rightarrow> block2 result" where
  "fresh_accumulator token =
     block2_new (PyBytes token) (PyInt (int MAX_BLOCK2_BLOCKS)) (PyInt (int MAX_BLOCK2_PAYLOAD_BYTES))
       (PyList [PyInt 60, PyInt 10000])"

definition fetch_resource ::
  "ocf_net \<Rightarrow> ocf_route list \<Rightarrow> bytes list \<Rightarrow> bytes list \<Rightarrow> real \<Rightarrow> nat \<Rightarrow> nat \<Rightarrow> nat set \<Rightarrow> nat
     \<Rightarrow> transfer_result ocf_outcome option" where
  "fetch_resource w routes path query cutoff retries fuel used_mids calls =
     (case fresh_accumulator (on_token w calls) of
        Inl e \<Rightarrow> Some (Inl e, [], used_mids, calls + 1)
      | Inr acc \<Rightarrow>
          map_option (\<lambda>(out, s). (out, f_log s, f_mids s, f_calls s))
            (fetch_from w routes path query cutoff retries fuel (fetch_start acc used_mids (calls + 1))))"

section \<open>Arguments\<close>

definition validate_discovery_port :: "pyval \<Rightarrow> unit result" where
  "validate_discovery_port port =
     (case port of PyInt p \<Rightarrow> raise_if (\<not> (1 \<le> p \<and> p \<le> 65535)) Py_ValueError | _ \<Rightarrow> Inl Py_TypeError)"

definition validate_transport_options :: "pyval \<Rightarrow> pyval \<Rightarrow> pyval \<Rightarrow> (real \<times> nat) result" where
  "validate_transport_options timeout retries family =
     andThen (float_of timeout) (\<lambda>seconds.
     andThen (raise_if (\<not> (0 < seconds \<and> seconds \<le> 30)) Py_ValueError) (\<lambda>_.
     andThen (case retries of
                PyInt n \<Rightarrow> if \<not> (0 \<le> n \<and> n \<le> 4) then Inl Py_ValueError else Inr (nat n)
              | _ \<Rightarrow> Inl Py_TypeError) (\<lambda>retries.
     andThen (case family of
                PyInt f \<Rightarrow> raise_if (f \<notin> {AF_UNSPEC, AF_INET, AF_INET6}) Py_ValueError
              | _ \<Rightarrow> Inl Py_TypeError) (\<lambda>_.
       Inr (seconds, retries)))))"

definition FILTERED_QUERY :: "bytes list" where
  "FILTERED_QUERY = [map (\<lambda>c. mk_byte c) (str_of ''rt=oic.r.doxm'')]"

definition UNFILTERED_QUERY :: "bytes list" where "UNFILTERED_QUERY = []"

definition lookup_order :: "pyval \<Rightarrow> (bytes list \<times> bytes list) result" where
  "lookup_order order =
     (case order of
        PyStr s \<Rightarrow>
          if s = str_of ''doxm-first'' then Inr (FILTERED_QUERY, UNFILTERED_QUERY)
          else if s = str_of ''directory-first'' then Inr (UNFILTERED_QUERY, FILTERED_QUERY)
          else Inl Py_ValueError
      | _ \<Rightarrow> Inl Py_TypeError)"

fun text_values :: "bool \<Rightarrow> nat \<Rightarrow> pyval list \<Rightarrow> bytes list result" where
  "text_values allow_empty n [] = Inr []"
| "text_values allow_empty n (v # vs) =
     (if n \<ge> 32 then Inl Py_ValueError
      else
        andThen (case v of
                   PyStr t \<Rightarrow>
                     (case utf8_encode t of
                        Inl _ \<Rightarrow> Inl Py_ValueError
                      | Inr encoded \<Rightarrow>
                          if (\<not> allow_empty \<and> encoded = []) \<or> length encoded > 1024
                          then Inl Py_ValueError else Inr encoded)
                 | _ \<Rightarrow> Inl Py_TypeError) (\<lambda>b.
        andThen (text_values allow_empty (n + 1) vs) (\<lambda>bs. Inr (b # bs))))"

definition validated_text_values :: "pyval \<Rightarrow> bool \<Rightarrow> bytes list result" where
  "validated_text_values values allow_empty = andThen (iter_of values) (text_values allow_empty 0)"

definition validated_resource_target :: "pyval \<Rightarrow> pyval \<Rightarrow> (bytes list \<times> bytes list) result" where
  "validated_resource_target href query =
     (case href of
        PyStr s \<Rightarrow>
          if take 1 s \<noteq> [0x2F] \<or> s = [0x2F] \<or> last s = 0x2F \<or> sublist [0x2F, 0x2F] s \<or> 0x3F \<in> set s \<or> 0x23 \<in> set s
          then Inl Py_ValueError
          else
            andThen (validated_text_values (PyList (map PyStr (py_split 0x2F (drop 1 s)))) False) (\<lambda>path.
            andThen (validated_text_values query False) (\<lambda>query. Inr (path, query)))
      | _ \<Rightarrow> Inl Py_TypeError)"

section \<open>Sockets\<close>

definition MAX_ENDPOINTS :: nat where "MAX_ENDPOINTS = 8"

text \<open>
  \<open>_open_routes\<close>: a socket for each endpoint whose address parses, bound to the wildcard, non-blocking
  and registered; one that cannot be set up is closed and skipped.
\<close>

fun open_routes ::
  "(nat \<Rightarrow> sys_call \<Rightarrow> bool) \<Rightarrow> platform \<Rightarrow> udp_endpoint list \<Rightarrow> os \<Rightarrow> ocf_route list result \<times> os" where
  "open_routes ok pl [] s = (Inr [], s)"
| "open_routes ok pl (ep # eps) s =
     then_do (source_host_key pl (ep_family ep) (ep_sockaddr ep), s) (\<lambda>host s.
       case host of
         None \<Rightarrow> open_routes ok pl eps s
       | Some host \<Rightarrow>
           (case bind_address ep (PyInt 0) of
              Inl _ \<Rightarrow> open_routes ok pl eps s
            | Inr address \<Rightarrow>
                (case try_candidate ok (ep_family ep) [Bind address, Set_timeout (PyFloat 0), Register] s of
                   (None, s) \<Rightarrow> open_routes ok pl eps s
                 | (Some fd, s) \<Rightarrow>
                     then_do (open_routes ok pl eps s) (\<lambda>routes s.
                       (Inr (\<lparr>r_socket = fd, r_endpoint = ep, r_host = host\<rparr> # routes), s)))))"

definition close_routes :: "ocf_route list \<Rightarrow> os \<Rightarrow> os" where
  "close_routes routes s = fold (\<lambda>r. close_socket (r_socket r)) routes s"

section \<open>Operations\<close>

datatype error_code = ENDPOINT_UNAVAILABLE | MALFORMED_OCF_RESPONSE | NO_OCF_RESPONSE | NO_SECURE_PORTS

record resource_answer =
  ra_code :: "nat option"
  ra_payload :: bytes
  ra_blocks :: nat
  ra_format :: "nat option"
  ra_size2 :: "nat option"
  ra_attempts :: nat
  ra_received :: bool
  ra_error :: "error_code option"

definition resource_result :: "transfer_result \<Rightarrow> resource_answer" where
  "resource_result t =
     \<lparr>ra_code = tr_code t, ra_payload = tr_payload t, ra_blocks = tr_blocks t, ra_format = tr_format t,
      ra_size2 = tr_size2 t, ra_attempts = tr_attempts t, ra_received = tr_received t,
      ra_error = (case tr_status t of
                    TRANSFER_COMPLETE \<Rightarrow> None
                  | TRANSFER_ENDPOINT_UNAVAILABLE \<Rightarrow> Some ENDPOINT_UNAVAILABLE
                  | TRANSFER_MALFORMED \<Rightarrow> Some MALFORMED_OCF_RESPONSE
                  | TRANSFER_NO_RESPONSE \<Rightarrow> Some NO_OCF_RESPONSE)\<rparr>"

definition unreachable_resource :: resource_answer where
  "unreachable_resource =
     \<lparr>ra_code = None, ra_payload = [], ra_blocks = 0, ra_format = None, ra_size2 = None, ra_attempts = 0,
      ra_received = False, ra_error = Some ENDPOINT_UNAVAILABLE\<rparr>"

text \<open>Both operations resolve the host, open the routes, run a job over them and close them again.\<close>

definition with_routes ::
  "(nat \<Rightarrow> sys_call \<Rightarrow> bool) \<Rightarrow> platform \<Rightarrow> udp_endpoint list result \<Rightarrow> 'a
     \<Rightarrow> (ocf_route list \<Rightarrow> 'a result option) \<Rightarrow> os \<Rightarrow> ('a result \<times> os) option" where
  "with_routes ok pl resolved unreachable job s =
     (case resolved of
        Inl e \<Rightarrow> Some (if isinstance_of e Py_OSError then Inr unreachable else Inl e, s)
      | Inr endpoints \<Rightarrow>
          (case open_routes ok pl (take MAX_ENDPOINTS endpoints) s of
             (Inl e, s) \<Rightarrow> Some (Inl e, s)
           | (Inr routes, s) \<Rightarrow>
               if routes = [] then Some (Inr unreachable, s)
               else map_option (\<lambda>out. (out, close_routes routes s)) (job routes)))"

definition read_plaintext_ocf_resource ::
  "(nat \<Rightarrow> sys_call \<Rightarrow> bool) \<Rightarrow> addrinfo list result \<Rightarrow> ocf_net \<Rightarrow> nat \<Rightarrow> pyval \<Rightarrow> pyval \<Rightarrow> pyval \<Rightarrow> pyval \<Rightarrow> pyval
     \<Rightarrow> pyval \<Rightarrow> pyval \<Rightarrow> os \<Rightarrow> (resource_answer result \<times> os) option" where
  "read_plaintext_ocf_resource ok getaddrinfo w fuel host href query port timeout retries family s =
     (case andThen (validate_discovery_port port) (\<lambda>_.
           andThen (validate_transport_options timeout retries family) (\<lambda>budget.
           andThen (validated_resource_target href query) (\<lambda>target. Inr (budget, target)))) of
        Inl e \<Rightarrow> Some (Inl e, s)
      | Inr ((seconds, retries), (path, query)) \<Rightarrow>
          with_routes ok (on_platform w) (resolve_udp_endpoints getaddrinfo host port family)
            unreachable_resource
            (\<lambda>routes. map_option (\<lambda>(out, _). andThen out (\<lambda>t. Inr (resource_result t)))
               (fetch_resource w routes path query (on_clock w 0 + seconds) retries fuel {} 1)) s)"

record port_discovery =
  pd_ports :: "nat list"
  pd_attempts :: nat
  pd_received :: bool
  pd_error :: "error_code option"

definition port_result :: "nat list \<Rightarrow> nat \<Rightarrow> bool \<Rightarrow> error_code option \<Rightarrow> port_discovery" where
  "port_result ports attempts received error =
     \<lparr>pd_ports = ports, pd_attempts = attempts, pd_received = received, pd_error = error\<rparr>"

definition extraction_for_transfer :: "platform \<Rightarrow> transfer_result \<Rightarrow> port_answer option result" where
  "extraction_for_transfer pl t =
     (if tr_status t \<noteq> TRANSFER_COMPLETE then Inr None
      else if tr_code t \<noteq> Some 0x45 then Inr (Some PORTS_ABSENT)
      else
        (case tr_source t of
           None \<Rightarrow> Inl Py_TypeError
         | Some (family, host) \<Rightarrow>
             andThen (secure_ports_from_payload pl (tr_payload t) family host) (\<lambda>a. Inr (Some a))))"

definition unusable :: "port_answer option \<Rightarrow> bool" where
  "unusable a \<longleftrightarrow> a = Some PORTS_MALFORMED \<or> a = Some PORTS_UNTRUSTED"

text \<open>What the second lookup decides, given the counts so far and what the first one found wrong.\<close>

definition second_verdict ::
  "platform \<Rightarrow> error_code option \<Rightarrow> nat \<Rightarrow> bool \<Rightarrow> transfer_result \<Rightarrow> port_discovery result" where
  "second_verdict pl first_error attempts received second =
     (case tr_status second of
        TRANSFER_ENDPOINT_UNAVAILABLE \<Rightarrow> Inr (port_result [] attempts received (Some ENDPOINT_UNAVAILABLE))
      | TRANSFER_MALFORMED \<Rightarrow> Inr (port_result [] attempts received (Some MALFORMED_OCF_RESPONSE))
      | TRANSFER_NO_RESPONSE \<Rightarrow>
          Inr (port_result [] attempts received
                 (Some (case first_error of None \<Rightarrow> NO_OCF_RESPONSE | Some e \<Rightarrow> e)))
      | TRANSFER_COMPLETE \<Rightarrow>
          andThen (extraction_for_transfer pl second) (\<lambda>answer.
            Inr (case answer of
                   Some (PORTS_FOUND ports) \<Rightarrow> port_result ports attempts received None
                 | _ \<Rightarrow>
                     if unusable answer then port_result [] attempts received (Some MALFORMED_OCF_RESPONSE)
                     else port_result [] attempts received
                            (Some (case first_error of None \<Rightarrow> NO_SECURE_PORTS | Some e \<Rightarrow> e)))))"

definition OIC_RES :: "bytes list" where
  "OIC_RES = [map (\<lambda>c. mk_byte c) (str_of ''oic''), map (\<lambda>c. mk_byte c) (str_of ''res'')]"

definition lookups ::
  "ocf_net \<Rightarrow> nat \<Rightarrow> real \<Rightarrow> nat \<Rightarrow> bytes list \<Rightarrow> bytes list \<Rightarrow> ocf_route list \<Rightarrow> port_discovery result option" where
  "lookups w fuel seconds retries first_query second_query routes =
     (let pl = on_platform w;
          started = on_clock w 0;
          deadline = started + seconds;
          filtered_share = min 1 (seconds / 2);
          first_cutoff = (if first_query = FILTERED_QUERY then started + filtered_share
                          else deadline - filtered_share) in
      case fetch_resource w routes OIC_RES first_query first_cutoff retries fuel {} 1 of
        None \<Rightarrow> None
      | Some (Inl e, _) \<Rightarrow> Some (Inl e)
      | Some (Inr first, _, mids, calls) \<Rightarrow>
          if tr_status first = TRANSFER_ENDPOINT_UNAVAILABLE
          then Some (Inr (port_result [] (tr_attempts first) (tr_received first) (Some ENDPOINT_UNAVAILABLE)))
          else
            (case extraction_for_transfer pl first of
               Inl e \<Rightarrow> Some (Inl e)
             | Inr (Some (PORTS_FOUND ports)) \<Rightarrow>
                 Some (Inr (port_result ports (tr_attempts first) (tr_received first) None))
             | Inr answer \<Rightarrow>
                 let first_error = (if tr_status first = TRANSFER_MALFORMED \<or> unusable answer
                                    then Some MALFORMED_OCF_RESPONSE else None) in
                 (case fetch_resource w routes OIC_RES second_query deadline retries fuel mids calls of
                    None \<Rightarrow> None
                  | Some (Inl e, _) \<Rightarrow> Some (Inl e)
                  | Some (Inr second, _) \<Rightarrow>
                      Some (second_verdict pl first_error (tr_attempts first + tr_attempts second)
                              (tr_received first \<or> tr_received second) second))))"

definition discover_ocf_secure_ports ::
  "(nat \<Rightarrow> sys_call \<Rightarrow> bool) \<Rightarrow> addrinfo list result \<Rightarrow> ocf_net \<Rightarrow> nat \<Rightarrow> pyval \<Rightarrow> pyval \<Rightarrow> pyval \<Rightarrow> pyval \<Rightarrow> pyval
     \<Rightarrow> pyval \<Rightarrow> os \<Rightarrow> (port_discovery result \<times> os) option" where
  "discover_ocf_secure_ports ok getaddrinfo w fuel host port timeout retries family order s =
     (case andThen (validate_discovery_port port) (\<lambda>_.
           andThen (validate_transport_options timeout retries family) (\<lambda>budget.
           andThen (lookup_order order) (\<lambda>queries. Inr (budget, queries)))) of
        Inl e \<Rightarrow> Some (Inl e, s)
      | Inr ((seconds, retries), (first_query, second_query)) \<Rightarrow>
          with_routes ok (on_platform w) (resolve_udp_endpoints getaddrinfo host port family)
            (port_result [] 0 False (Some ENDPOINT_UNAVAILABLE))
            (lookups w fuel seconds retries first_query second_query) s)"

end
