(* ===== verification/Ocf_Transfer.thy ===== *)
theory Ocf_Transfer
  imports Ocf_Fetch
begin

text \<open>
  What holds of a plaintext transfer (\<open>Ocf_Fetch\<close>): the events of its log one by one against the peer
  pinned before each, what the accumulator was fed, how often it asks, and that it returns.
\<close>

section \<open>The log and the pinned peer\<close>

type_synonym pin = "(nat \<times> peer_key \<times> pyval) option"

definition family_of :: "ocf_route list \<Rightarrow> nat \<Rightarrow> int" where
  "family_of routes r = ep_family (r_endpoint (routes ! r))"

text \<open>
  An answer is a well-formed response with the token of the transfer, from the address its route was
  opened for, and from the pinned peer once there is one; a request before the first answer goes to the
  endpoint of its route, and afterwards to where that answer came from.
\<close>

fun event_ok :: "ocf_net \<Rightarrow> ocf_route list \<Rightarrow> bytes \<Rightarrow> pin \<Rightarrow> fetch_event \<Rightarrow> bool" where
  "event_ok w routes token pin (Requested r dst q) \<longleftrightarrow>
     (case pin of
        None \<Rightarrow> r < length routes \<and> dst = ep_sockaddr (r_endpoint (routes ! r))
      | Some (route, _, source) \<Rightarrow> r = route \<and> dst = source)"
| "event_ok w routes token pin (Answered r source d m) \<longleftrightarrow>
     r < length routes \<and> length d \<le> MAX_DATAGRAM_BYTES \<and> parse_coap_message d = Inr m
     \<and> m_token m = token \<and> m_mtype m \<in> {TYPE_CON, TYPE_NON} \<and> m_code m \<noteq> 0
     \<and> source_host_key (on_platform w) (family_of routes r) source = Inr (Some (r_host (routes ! r)))
     \<and> (\<exists>peer. peer_key_of (on_platform w) (family_of routes r) source = Inr (Some peer)
          \<and> (case pin of None \<Rightarrow> True | Some (route, pinned, _) \<Rightarrow> r = route \<and> peer = pinned))"
| "event_ok w routes token pin (Acknowledged r source a) \<longleftrightarrow>
     (case pin of None \<Rightarrow> False | Some (route, _, _) \<Rightarrow> r = route)"

fun pin_after :: "ocf_net \<Rightarrow> ocf_route list \<Rightarrow> pin \<Rightarrow> fetch_event \<Rightarrow> pin" where
  "pin_after w routes None (Answered r source d m) =
     (case peer_key_of (on_platform w) (family_of routes r) source of
        Inr (Some peer) \<Rightarrow> Some (r, peer, source)
      | _ \<Rightarrow> None)"
| "pin_after w routes pin _ = pin"

fun log_ok :: "ocf_net \<Rightarrow> ocf_route list \<Rightarrow> bytes \<Rightarrow> pin \<Rightarrow> fetch_event list \<Rightarrow> bool" where
  "log_ok w routes token pin [] = True"
| "log_ok w routes token pin (e # es) =
     (event_ok w routes token pin e \<and> log_ok w routes token (pin_after w routes pin e) es)"

lemma log_ok_append:
  "log_ok w routes token pin (es @ fs) \<longleftrightarrow>
     log_ok w routes token pin es \<and> log_ok w routes token (foldl (pin_after w routes) pin es) fs"
  by (induction es arbitrary: pin) auto

fun accepted_messages :: "fetch_event list \<Rightarrow> coap_message list" where
  "accepted_messages [] = []"
| "accepted_messages (Answered r source d m # es) = m # accepted_messages es"
| "accepted_messages (_ # es) = accepted_messages es"

lemma accepted_messages_append [simp]: "accepted_messages (es @ fs) = accepted_messages es @ accepted_messages fs"
  by (induction es rule: accepted_messages.induct) simp_all

lemma add_responses_snoc:
  "add_responses acc ms = Inr (sts, acc1) \<Longrightarrow> add_response acc1 m = Inr (st, acc2) \<Longrightarrow>
   add_responses acc (ms @ [m]) = Inr (sts @ [st], acc2)"
  by (induction ms arbitrary: acc sts) (auto simp: result_simps)

section \<open>The invariant\<close>

definition fetch_inv :: "ocf_net \<Rightarrow> ocf_route list \<Rightarrow> block2 \<Rightarrow> fetch \<Rightarrow> bool" where
  "fetch_inv w routes acc s \<longleftrightarrow>
     (\<exists>sts. add_responses acc (accepted_messages (f_log s)) = Inr (sts, f_acc s))
     \<and> log_ok w routes (b_token acc) None (f_log s)
     \<and> foldl (pin_after w routes) None (f_log s) = f_pin s
     \<and> (f_pin s = None \<longleftrightarrow> accepted_messages (f_log s) = [])
     \<and> (f_received s \<longleftrightarrow> f_pin s \<noteq> None)
     \<and> (\<forall>r p src. f_pin s = Some (r, p, src) \<longrightarrow> r < length routes
          \<and> source_host_key (on_platform w) (family_of routes r) src = Inr (Some (r_host (routes ! r))))"

text \<open>What waiting for an answer changes: calls are made, blocks are only added.\<close>

definition waits :: "fetch \<Rightarrow> fetch \<Rightarrow> bool" where
  "waits s s' \<longleftrightarrow>
     f_calls s \<le> f_calls s' \<and> b_blocks (f_acc s) \<le> b_blocks (f_acc s')
     \<and> f_attempts s' = f_attempts s \<and> f_mids s' = f_mids s
     \<and> (b_complete (f_acc s) \<longrightarrow> f_acc s' = f_acc s)"

lemma waits_refl [simp]: "waits s s"
  by (simp add: waits_def)

lemma waits_trans: "waits s t \<Longrightarrow> waits t u \<Longrightarrow> waits s u"
  by (auto simp: waits_def)

lemma fetch_inv_call [simp]:
  "fetch_inv w routes acc (s\<lparr>f_calls := n\<rparr>) = fetch_inv w routes acc s"
  "fetch_inv w routes acc (s\<lparr>f_malformed := b\<rparr>) = fetch_inv w routes acc s"
  "fetch_inv w routes acc (s\<lparr>f_mids := M\<rparr>) = fetch_inv w routes acc s"
  "fetch_inv w routes acc (s\<lparr>f_attempts := k\<rparr>) = fetch_inv w routes acc s"
  by (simp_all add: fetch_inv_def)

lemma waits_call [simp]:
  "waits s (s\<lparr>f_calls := f_calls s + n\<rparr>)"
  "waits s (s\<lparr>f_calls := Suc (f_calls s)\<rparr>)"
  "waits s (s\<lparr>f_calls := Suc (f_calls s), f_malformed := b\<rparr>)"
  by (simp_all add: waits_def)

section \<open>One datagram\<close>

lemma take_datagram_cases:
  assumes "take_datagram w routes token mid r s = (out, s')"
  obtains (dropped) b where "out \<noteq> Inr True" and "s' = s\<lparr>f_calls := f_calls s + 1, f_malformed := b\<rparr>"
  | (answered) datagram source peer c status acc where
      "source_host_key (on_platform w) (family_of routes r) source = Inr (Some (r_host (routes ! r)))"
      "peer_key_of (on_platform w) (family_of routes r) source = Inr (Some peer)"
      "\<not> off_pin (f_pin s) r peer" "length datagram \<le> MAX_DATAGRAM_BYTES"
      "classify_coap_response datagram (Some token) (Some mid) = Inr c"
      "c_kind c = RESPONSE_MESSAGE" "m_mtype (c_message c) \<in> {TYPE_CON, TYPE_NON}"
      "add_response (f_acc s) (c_message c) = Inr (status, acc)"
      "(out, s') = accept_answer w r source peer datagram c status acc (s\<lparr>f_calls := f_calls s + 1\<rparr>)"
proof -
  let ?s = "s\<lparr>f_calls := f_calls s + 1\<rparr>"
  have kept: thesis if "out \<noteq> Inr True" "s' = s\<lparr>f_calls := Suc (f_calls s)\<rparr>"
    using dropped [of "f_malformed s"] that by simp
  have bad: thesis if "out \<noteq> Inr True" "s' = s\<lparr>f_calls := Suc (f_calls s), f_malformed := True\<rparr>"
    using dropped [of True] that by simp
  show thesis
  proof (cases "on_recv w (f_calls s) r")
    case None
    with assms show ?thesis by (auto simp: take_datagram_def asked_def intro: kept)
  next
    case (Some ds)
    obtain datagram source where ds: "ds = (datagram, source)" by fastforce
    note run = assms [unfolded take_datagram_def asked_def Some ds, simplified, folded family_of_def, unfolded Let_def]
    show ?thesis
    proof (cases "source_host_key (on_platform w) (family_of routes r) source")
      case (Inl e)
      with run show ?thesis by (auto intro: kept)
    next
      case (Inr host)
      note host = this
      show ?thesis
      proof (cases "peer_key_of (on_platform w) (family_of routes r) source")
        case (Inl e)
        with run host show ?thesis by (auto intro: kept)
      next
        case (Inr peer)
        note run = run [unfolded host Inr then_do_simps]
        show ?thesis
        proof (cases "peer = None \<or> host \<noteq> Some (r_host (routes ! r)) \<or> off_pin (f_pin s) r (the peer)
            \<or> length datagram > MAX_DATAGRAM_BYTES")
          case True
          with run show ?thesis
            by (cases peer) (auto simp: malformed_def split: if_splits intro: kept bad)
        next
          case False
          then obtain p where p: "peer = Some p" by auto
          note run = run [unfolded p]
          show ?thesis
          proof (cases "classify_coap_response datagram (Some token) (Some mid)")
            case (Inl e)
            with run False p show ?thesis
              by (auto simp: malformed_def split: if_splits intro: kept bad)
          next
            case (Inr c)
            note c = this
            show ?thesis
            proof (cases "c_kind c \<noteq> RESPONSE_MESSAGE \<or> m_mtype (c_message c) \<notin> {TYPE_CON, TYPE_NON}")
              case True
              with run False p c show ?thesis by (auto intro: kept)
            next
              case response: False
              show ?thesis
              proof (cases "add_response (f_acc s) (c_message c)")
                case (Inl e)
                with run False p c response show ?thesis
                  by (auto simp: malformed_def split: if_splits intro: kept bad)
              next
                case (Inr res)
                obtain status acc where "res = (status, acc)" by fastforce
                with run False p c response host Inr \<open>peer_key_of _ _ _ = Inr peer\<close> show ?thesis
                  by (intro answered [of source p datagram c status acc]) auto
              qed
            qed
          qed
        qed
      qed
    qed
  qed
qed


lemma classified_response:
  assumes "classify_coap_response d (Some token) (Some mid) = Inr c"
    and "c_kind c = RESPONSE_MESSAGE"
  shows "parse_coap_message d = Inr (c_message c)" and "m_token (c_message c) = token" and "m_code (c_message c) \<noteq> 0"
  using assms
  by (auto simp: classify_coap_response_def build_empty_ack_eq result_simps split: if_splits)

lemma accept_answer_effect:
  assumes "accept_answer w r source peer d c status acc s = (out, s')"
  shows "out = Inr (status \<noteq> BLOCK2_DUPLICATE)" and "f_acc s' = acc" and "f_attempts s' = f_attempts s"
    and "f_mids s' = f_mids s" and "f_calls s \<le> f_calls s'" and "f_received s'"
    and "f_pin s' = (case f_pin s of None \<Rightarrow> Some (r, peer, source) | Some p \<Rightarrow> Some p)"
    and "\<exists>acks. f_log s' = f_log s @ Answered r source d (c_message c) # acks
           \<and> (acks = [] \<or> (\<exists>a. acks = [Acknowledged r source a]))"
  using assms
  by (auto simp: accept_answer_def Let_def happened_def asked_def split: option.splits if_splits)

lemma take_datagram_inv:
  assumes run: "take_datagram w routes token mid r s = (out, s')"
    and inv: "fetch_inv w routes acc0 s" and token: "token = b_token acc0" and r: "r < length routes"
  shows "fetch_inv w routes acc0 s' \<and> waits s s'
    \<and> (out = Inr True \<longrightarrow> b_blocks (f_acc s) < b_blocks (f_acc s'))"
  using run
proof (cases rule: take_datagram_cases)
  case (dropped b)
  with inv show ?thesis by (simp add: waits_def)
next
  case (answered datagram source peer c status acc)
  note msg = classified_response [OF answered(5,6)]
  note eff = accept_answer_effect [OF answered(9) [symmetric]]
  note blocks = add_response_blocks [OF answered(8)]
  obtain acks where log: "f_log s' = f_log s @ Answered r source datagram (c_message c) # acks"
    and acks: "acks = [] \<or> (\<exists>a. acks = [Acknowledged r source a])" using eff(8) by auto
  have fresh: "\<not> b_complete (f_acc s)" using answered(8) by (auto simp: add_response_def result_simps)
  obtain sts where sts: "add_responses acc0 (accepted_messages (f_log s)) = Inr (sts, f_acc s)"
    and ok: "log_ok w routes (b_token acc0) None (f_log s)"
    and pin: "foldl (pin_after w routes) None (f_log s) = f_pin s"
    using inv by (auto simp: fetch_inv_def)
  have ans: "accepted_messages (f_log s') = accepted_messages (f_log s) @ [c_message c]"
    using log acks by auto
  have fold: "add_responses acc0 (accepted_messages (f_log s')) = Inr (sts @ [status], f_acc s')"
    unfolding ans eff(2) by (rule add_responses_snoc [OF sts answered(8)])
  have event: "event_ok w routes (b_token acc0) (f_pin s) (Answered r source datagram (c_message c))"
    using answered msg token r by (auto simp: off_pin_def split: option.splits prod.splits)
  have after: "pin_after w routes (f_pin s) (Answered r source datagram (c_message c)) = f_pin s'"
    using eff(7) answered(2) by (cases "f_pin s") auto
  have route: "\<exists>p src. f_pin s' = Some (r, p, src)"
    using eff(7) answered(3)
    by (cases "f_pin s") (auto simp: off_pin_def simp del: split_paired_Ex split: prod.splits)
  have "log_ok w routes (b_token acc0) None (f_log s') \<and> foldl (pin_after w routes) None (f_log s') = f_pin s'"
    unfolding log using ok pin event after route acks by (auto simp: log_ok_append)
  moreover have "\<forall>r p src. f_pin s' = Some (r, p, src) \<longrightarrow> r < length routes
      \<and> source_host_key (on_platform w) (family_of routes r) src = Inr (Some (r_host (routes ! r)))"
    using inv eff(7) answered(1) r by (auto simp: fetch_inv_def split: option.splits)
  ultimately have "fetch_inv w routes acc0 s'"
    using fold ans route eff(6) unfolding fetch_inv_def by auto
  moreover have "waits s s'"
    using eff(2-5) blocks fresh by (auto simp: waits_def split: if_splits)
  ultimately show ?thesis using eff(1,2) blocks by auto
qed

lemma take_events_inv:
  "take_events w routes token mid rs s = (out, s') \<Longrightarrow> fetch_inv w routes acc0 s \<Longrightarrow> token = b_token acc0
     \<Longrightarrow> \<forall>r \<in> set rs. r < length routes
     \<Longrightarrow> fetch_inv w routes acc0 s' \<and> waits s s' \<and> (out = Inr True \<longrightarrow> b_blocks (f_acc s) < b_blocks (f_acc s'))"
proof (induction rs arbitrary: s)
  case (Cons r rs)
  obtain o1 s1 where one: "take_datagram w routes token mid r s = (o1, s1)" by fastforce
  note step = take_datagram_inv [OF one Cons.prems(2,3)]
  show ?case
  proof (cases "o1 = Inr False")
    case True
    with Cons.prems(1) one have rest: "take_events w routes token mid rs s1 = (out, s')" by simp
    from Cons.IH [OF rest] step Cons.prems(3,4) show ?thesis
      by (auto intro: waits_trans simp: waits_def)
  next
    case False
    with Cons.prems one step show ?thesis by (auto simp: then_do_def split: sum.splits if_splits)
  qed
qed auto

lemma listen_inv:
  "listen w routes token mid deadline fuel s = Some (out, s') \<Longrightarrow> fetch_inv w routes acc0 s \<Longrightarrow> token = b_token acc0
     \<Longrightarrow> fetch_inv w routes acc0 s' \<and> waits s s' \<and> (out = Inr True \<longrightarrow> b_blocks (f_acc s) < b_blocks (f_acc s'))"
proof (induction fuel arbitrary: s)
  case (Suc fuel)
  let ?s2 = "s\<lparr>f_calls := f_calls s + 2\<rparr>" and ?rs = "readable w routes (deadline - on_clock w (f_calls s)) (f_calls s + 1)"
  obtain o1 s1 where ev: "take_events w routes token mid ?rs ?s2 = (o1, s1)" by fastforce
  have "fetch_inv w routes acc0 s1 \<and> waits ?s2 s1 \<and> (o1 = Inr True \<longrightarrow> b_blocks (f_acc ?s2) < b_blocks (f_acc s1))"
    by (rule take_events_inv [OF ev]) (use Suc.prems in \<open>auto simp: readable_def split: option.splits\<close>)
  then have s1: "fetch_inv w routes acc0 s1" "waits s s1" "o1 = Inr True \<longrightarrow> b_blocks (f_acc s) < b_blocks (f_acc s1)"
    using waits_trans [OF waits_call(1) [of s 2]] by auto
  consider "deadline - on_clock w (f_calls s) \<le> 0" | "deadline - on_clock w (f_calls s) > 0" "?rs = []"
    | "deadline - on_clock w (f_calls s) > 0" "?rs \<noteq> []" by linarith
  then show ?case
  proof cases
    case 3
    then have eq: "listen w routes token mid deadline (Suc fuel) s =
        (if o1 = Inr False then listen w routes token mid deadline fuel s1 else Some (o1, s1))"
      using ev by (auto simp: asked_def split: sum.splits bool.splits)
    show ?thesis
    proof (cases "o1 = Inr False")
      case True
      with eq Suc.prems have "listen w routes token mid deadline fuel s1 = Some (out, s')" by simp
      from Suc.IH [OF this s1(1) Suc.prems(3)] s1(2) show ?thesis
        by (auto intro: waits_trans simp: waits_def)
    next
      case False
      with eq Suc.prems s1 show ?thesis by auto
    qed
  qed (use Suc.prems in \<open>auto simp: asked_def waits_def\<close>)
qed simp


section \<open>One block\<close>

text \<open>What up to \<open>k\<close> attempts change: one Message ID is used for each.\<close>

definition attempts :: "nat \<Rightarrow> fetch \<Rightarrow> fetch \<Rightarrow> bool" where
  "attempts k s s' \<longleftrightarrow>
     f_calls s \<le> f_calls s' \<and> b_blocks (f_acc s) \<le> b_blocks (f_acc s')
     \<and> f_attempts s' \<le> f_attempts s + k
     \<and> (finite (f_mids s) \<longrightarrow> finite (f_mids s') \<and> card (f_mids s') \<le> card (f_mids s) + k)
     \<and> (b_complete (f_acc s) \<longrightarrow> f_acc s' = f_acc s)"

lemma waits_attempts: "waits s t \<Longrightarrow> attempts k s t"
  by (auto simp: waits_def attempts_def)

lemma attempts_trans: "attempts i s t \<Longrightarrow> attempts j t u \<Longrightarrow> attempts (i + j) s u"
  by (fastforce simp: attempts_def)

lemma attempts_more: "attempts j s t \<Longrightarrow> j \<le> k \<Longrightarrow> attempts k s t"
  by (auto simp: attempts_def)

lemma fetch_inv_log:
  assumes "fetch_inv w routes acc s" and "event_ok w routes (b_token acc) (f_pin s) (Requested r dst q)"
  shows "fetch_inv w routes acc (s\<lparr>f_calls := n, f_log := f_log s @ [Requested r dst q]\<rparr>)"
  using assms by (auto simp: fetch_inv_def log_ok_append simp del: event_ok.simps split_paired_Ex split_paired_All)

lemma send_request_inv:
  "send_request w routes q rs sent s = (b, s') \<Longrightarrow> fetch_inv w routes acc s
     \<Longrightarrow> \<forall>r \<in> set rs. case f_pin s of None \<Rightarrow> r < length routes | Some (route, _) \<Rightarrow> r = route
     \<Longrightarrow> fetch_inv w routes acc s' \<and> waits s s' \<and> f_acc s' = f_acc s"
proof (induction rs arbitrary: s sent)
  case (Cons r rs)
  define dst where "dst = (case f_pin s of
              Some (route, _, source) \<Rightarrow> if r = route then source else ep_sockaddr (r_endpoint (routes ! r))
            | None \<Rightarrow> ep_sockaddr (r_endpoint (routes ! r)))"
  let ?s1 = "s\<lparr>f_calls := Suc (f_calls s), f_log := f_log s @ [Requested r dst q]\<rparr>"
  from Cons.prems(1) have rest: "send_request w routes q rs
      (sent \<or> on_sendto w (f_calls s) r q dst = Some (length q)) ?s1 = (b, s')"
    by (simp add: asked_def happened_def dst_def Let_def)
  have "event_ok w routes (b_token acc) (f_pin s) (Requested r dst q)"
    using Cons.prems(3) by (auto simp: dst_def split: option.splits prod.splits)
  note inv = fetch_inv_log [OF Cons.prems(2) this]
  have "fetch_inv w routes acc s' \<and> waits ?s1 s' \<and> f_acc s' = f_acc ?s1"
    by (rule Cons.IH [OF rest inv]) (use Cons.prems(3) in simp)
  then show ?case by (auto simp: waits_def)
qed simp

lemma free_mid_fresh: "free_mid used n mid = Some m \<Longrightarrow> m \<notin> used"
  by (induction n arbitrary: mid) (auto split: if_splits)

lemma free_mid_None:
  "free_mid used n mid = None \<Longrightarrow> mid < 65536 \<Longrightarrow> i < n \<Longrightarrow> (mid + i) mod 65536 \<in> used"
proof (induction n arbitrary: mid i)
  case (Suc n)
  have next_mid: "(mid + 1) AND 0xFFFF = (mid + 1) mod 65536"
    by (simp add: mask_16)
  show ?case
  proof (cases i)
    case 0
    with Suc.prems show ?thesis by (auto split: if_splits)
  next
    case (Suc j)
    have "((mid + 1) mod 65536 + j) mod 65536 \<in> used"
      by (rule Suc.IH) (use Suc.prems Suc next_mid in \<open>auto split: if_splits\<close>)
    then show ?thesis using Suc by (simp add: mod_add_left_eq)
  qed
qed simp

lemma free_mid_Some:
  assumes "finite used" and "card used < 65536" and "mid < 65536"
  shows "\<exists>m. free_mid used 65536 mid = Some m"
proof (rule ccontr)
  assume none: "\<not> ?thesis"
  have "x \<in> used" if "x < 65536" for x
  proof -
    have "(mid + (x + 65536 - mid) mod 65536) mod 65536 \<in> used"
      using none assms(3) by (intro free_mid_None [of used 65536]) auto
    moreover have "(mid + (x + 65536 - mid) mod 65536) mod 65536 = x"
      using that assms(3) by (simp add: mod_add_right_eq)
    ultimately show ?thesis by simp
  qed
  then have "card {..<65536::nat} \<le> card used"
    using assms(1) by (intro card_mono) auto
  then show False using assms(2) by simp
qed

lemma one_attempt_inv:
  assumes run: "one_attempt w routes token path query deadline fuel s = Some (out, s')"
    and inv: "fetch_inv w routes acc s" and token: "token = b_token acc"
  shows "fetch_inv w routes acc s' \<and> attempts 1 s s' \<and> f_calls s < f_calls s'
    \<and> (\<forall>b. out = Inr (b, True) \<longrightarrow> b_blocks (f_acc s) < b_blocks (f_acc s'))"
proof -
  from run obtain mid where mid: "free_mid (f_mids s) 65536 (on_bits w (f_calls s)) = Some mid"
    by (auto simp: one_attempt_def asked_def split: option.splits)
  define s2 where "s2 = s\<lparr>f_calls := Suc (f_calls s), f_mids := insert mid (f_mids s)\<rparr>"
  have s2: "fetch_inv w routes acc s2" "attempts 1 s s2" "f_acc s2 = f_acc s" "f_calls s < f_calls s2"
      "f_attempts s2 = f_attempts s"
    using inv by (auto simp: s2_def attempts_def card_insert_if)
  show ?thesis
  proof (cases "block_request (f_acc s) mid token path query")
    case (Inl e)
    with run mid s2 show ?thesis by (auto simp: one_attempt_def asked_def Let_def s2_def)
  next
    case (Inr q)
    obtain b s3 where send: "send_request w routes q
        (case f_pin s of Some (route, _) \<Rightarrow> [route] | None \<Rightarrow> [0..<length routes]) False s2 = (b, s3)"
      by fastforce
    have "fetch_inv w routes acc s3 \<and> waits s2 s3 \<and> f_acc s3 = f_acc s2"
      by (rule send_request_inv [OF send s2(1)]) (auto simp: s2_def split: option.splits)
    then have s3: "fetch_inv w routes acc s3" "waits s2 s3" "f_acc s3 = f_acc s" using s2 by auto
    define s4 where "s4 = s3\<lparr>f_attempts := Suc (f_attempts s3)\<rparr>"
    define s5 where "s5 = s4\<lparr>f_calls := Suc (f_calls s4)\<rparr>"
    have s4: "fetch_inv w routes acc s4" "attempts 1 s s4" "f_acc s4 = f_acc s" "f_calls s < f_calls s4"
      using s3 s2 by (auto simp: s4_def attempts_def waits_def)
    then have s5: "fetch_inv w routes acc s5" "attempts 1 s s5" "f_acc s5 = f_acc s" "f_calls s < f_calls s5"
      by (auto simp: s5_def attempts_def)
    have eq: "one_attempt w routes token path query deadline fuel s =
        (if \<not> b then Some (Inr (False, False), s4)
         else map_option (\<lambda>(out, s). (andThen out (\<lambda>accepted. Inr (True, accepted)), s))
                (listen w routes token mid (deadline (on_clock w (f_calls s4))) fuel s5))"
      using mid Inr send by (simp add: one_attempt_def asked_def Let_def s2_def s4_def s5_def)
    show ?thesis
    proof (cases b)
      case False
      with run eq s4 show ?thesis by auto
    next
      case True
      with run eq obtain o6 where listen: "listen w routes token mid (deadline (on_clock w (f_calls s4))) fuel s5 = Some (o6, s')"
        and out: "out = andThen o6 (\<lambda>accepted. Inr (True, accepted))" by auto
      note s6 = listen_inv [OF listen s5(1) token]
      have "attempts 1 s s'" using s6 attempts_trans [OF s5(2) waits_attempts [of s5 s' 0]] by simp
      with s6 s5 out show ?thesis by (cases o6) (auto simp: waits_def)
    qed
  qed
qed

lemma try_block_inv:
  "try_block w routes token path query cutoff wait_slice fuel k sent s = Some (out, s')
     \<Longrightarrow> fetch_inv w routes acc s \<Longrightarrow> token = b_token acc
     \<Longrightarrow> fetch_inv w routes acc s' \<and> attempts k s s'
       \<and> (\<forall>b. out = Inr (True, b) \<longrightarrow> b_blocks (f_acc s) < b_blocks (f_acc s'))"
proof (induction k arbitrary: s sent)
  case 0
  then show ?case by (auto simp: attempts_def)
next
  case (Suc k)
  let ?s1 = "s\<lparr>f_calls := Suc (f_calls s)\<rparr>"
  show ?case
  proof (cases "on_clock w (f_calls s) \<ge> cutoff")
    case True
    with Suc.prems show ?thesis by (auto simp: asked_def attempts_def)
  next
    case False
    with Suc.prems(1) obtain o2 s2 where one:
        "one_attempt w routes token path query (attempt_deadline cutoff wait_slice k) fuel ?s1 = Some (o2, s2)"
      by (auto simp: asked_def split: option.splits)
    have "fetch_inv w routes acc ?s1" using Suc.prems(2) by simp
    note s2 = one_attempt_inv [OF one this Suc.prems(3)]
    then have a2: "attempts 1 s s2" by (auto simp: attempts_def)
    show ?thesis
    proof (cases "\<exists>b. o2 = Inr (b, False)")
      case True
      then obtain b where b: "o2 = Inr (b, False)" by auto
      with False Suc.prems(1) one have "try_block w routes token path query cutoff wait_slice fuel k (sent \<or> b) s2 = Some (out, s')"
        by (simp add: asked_def)
      note ih = Suc.IH [OF this conjunct1 [OF s2] Suc.prems(3)]
      have "attempts (1 + k) s s'" using ih by (intro attempts_trans [OF a2]) simp
      moreover have "b_blocks (f_acc s) \<le> b_blocks (f_acc s2)" using a2 by (simp add: attempts_def)
      moreover note ih
      ultimately show ?thesis by (auto intro: le_less_trans)
    next
      case other: False
      then consider e where "o2 = Inl e" | b where "o2 = Inr (b, True)" by (cases o2) auto
      then have "s' = s2 \<and> (\<forall>b. out = Inr (True, b) \<longrightarrow> (\<exists>b. o2 = Inr (b, True)))"
        using False Suc.prems(1) one by cases (auto simp: asked_def)
      with s2 attempts_more [OF a2, of "Suc k"] show ?thesis by auto
    qed
  qed
qed


section \<open>The whole transfer\<close>

definition transfer_of :: "ocf_net \<Rightarrow> ocf_route list \<Rightarrow> transfer_result \<Rightarrow> fetch \<Rightarrow> bool" where
  "transfer_of w routes t s \<longleftrightarrow>
     (tr_status t = TRANSFER_COMPLETE \<longleftrightarrow> b_complete (f_acc s))
     \<and> tr_attempts t = f_attempts s \<and> tr_blocks t = b_blocks (f_acc s) \<and> tr_received t = f_received s
     \<and> (b_complete (f_acc s) \<longrightarrow> tr_payload t = b_payload (f_acc s) \<and> tr_code t = b_code (f_acc s)
          \<and> (\<exists>r p src. f_pin s = Some (r, p, src)
               \<and> tr_source t = Some (family_of routes r, r_host (routes ! r))))
     \<and> (\<not> b_complete (f_acc s) \<longrightarrow> tr_payload t = [] \<and> tr_code t = None \<and> tr_source t = None)"

lemma fetch_inv_complete:
  assumes "fetch_inv w routes acc s" and "b_complete (f_acc s)" and "\<not> b_complete acc"
  shows "\<exists>r p src. f_pin s = Some (r, p, src)"
proof -
  obtain sts where "add_responses acc (accepted_messages (f_log s)) = Inr (sts, f_acc s)"
    using assms(1) by (auto simp: fetch_inv_def)
  with assms(2,3) have "accepted_messages (f_log s) \<noteq> []" by auto
  with assms(1) have "f_pin s \<noteq> None" by (simp add: fetch_inv_def)
  then show ?thesis by auto
qed

lemma fetch_inv_acc:
  assumes "fetch_inv w routes acc s" and "block2_inv acc"
  shows "block2_inv (f_acc s)" and "b_max_blocks (f_acc s) = b_max_blocks acc"
  using assms by (auto simp: fetch_inv_def same_limits_def dest: add_responses_inv)

lemma fetch_loop_inv:
  "fetch_loop w routes token path query cutoff wait_slice retries fuel s = Some (out, s')
     \<Longrightarrow> fetch_inv w routes acc s \<Longrightarrow> token = b_token acc \<Longrightarrow> block2_inv acc \<Longrightarrow> \<not> b_complete acc
     \<Longrightarrow> \<not> b_complete (f_acc s)
     \<Longrightarrow> fetch_inv w routes acc s'
       \<and> attempts ((retries + 1) * (b_max_blocks acc - b_blocks (f_acc s))) s s'
       \<and> (\<forall>t. out = Inr t \<longrightarrow> transfer_of w routes t s')"
proof (induction fuel arbitrary: s)
  case (Suc fuel)
  note token = Suc.prems(3)
  have room: "b_blocks (f_acc s) < b_max_blocks acc"
    using fetch_inv_acc [OF Suc.prems(2,4)] Suc.prems(6) by (auto simp: block2_inv_def)
  obtain o1 s1 where one: "try_block w routes token path query cutoff wait_slice fuel (retries + 1) False s = Some (o1, s1)"
    using Suc.prems(1,6) by (auto simp del: try_block.simps split: option.splits)
  note s1 = try_block_inv [OF one Suc.prems(2) token]
  have more: "attempts ((retries + 1) * (b_max_blocks acc - b_blocks (f_acc s))) s s1"
  proof (rule attempts_more)
    show "attempts (retries + 1) s s1" using s1 by simp
    have "1 \<le> b_max_blocks acc - b_blocks (f_acc s)" using room by simp
    then show "retries + 1 \<le> (retries + 1) * (b_max_blocks acc - b_blocks (f_acc s))"
      by (metis mult_le_mono2 mult.right_neutral)
  qed
  show ?case
  proof (cases "\<exists>b. o1 = Inr (True, b) \<and> \<not> b_complete (f_acc s1)")
    case True
    then have going: "\<not> b_complete (f_acc s1)" and blocks: "b_blocks (f_acc s) < b_blocks (f_acc s1)"
      using s1 by auto
    from True Suc.prems(1,6) one
    have "fetch_loop w routes token path query cutoff wait_slice retries fuel s1 = Some (out, s')"
      by (auto simp del: try_block.simps)
    note ih = Suc.IH [OF this _ Suc.prems(3-5) going]
    have inv1: "fetch_inv w routes acc s1" using s1 by simp
    have "attempts ((retries + 1) * (b_max_blocks acc - b_blocks (f_acc s))) s s'"
    proof (rule attempts_more)
      show "attempts ((retries + 1) + (retries + 1) * (b_max_blocks acc - b_blocks (f_acc s1))) s s'"
        using attempts_trans [of "retries + 1" s s1] s1 ih [OF inv1] by simp
      have "Suc (b_max_blocks acc - b_blocks (f_acc s1)) \<le> b_max_blocks acc - b_blocks (f_acc s)"
        using blocks fetch_inv_acc [OF inv1 Suc.prems(4)] going by (auto simp: block2_inv_def)
      then have "(retries + 1) * Suc (b_max_blocks acc - b_blocks (f_acc s1))
          \<le> (retries + 1) * (b_max_blocks acc - b_blocks (f_acc s))"
        by (rule mult_le_mono2)
      then show "(retries + 1) + (retries + 1) * (b_max_blocks acc - b_blocks (f_acc s1))
          \<le> (retries + 1) * (b_max_blocks acc - b_blocks (f_acc s))" by simp
    qed
    with ih [OF inv1] show ?thesis by simp
  next
    case False
    have pin: "b_complete (f_acc s1) \<Longrightarrow> \<exists>r p src. f_pin s1 = Some (r, p, src)"
      using fetch_inv_complete [OF _ _ Suc.prems(5)] s1 by blast
    have end_state: "s' = s1 \<and> (\<forall>t. out = Inr t \<longrightarrow> t = transfer_result_of
           (if b_complete (f_acc s1) then TRANSFER_COMPLETE else failure_status (snd (projr o1)) s1)
           (if b_complete (f_acc s1) then map_option (\<lambda>(r, _). routes ! r) (f_pin s1) else None) s1)"
    proof (cases o1)
      case (Inl e)
      with Suc.prems(1,6) one show ?thesis by (auto simp del: try_block.simps)
    next
      case (Inr ab)
      obtain a b where ab: "ab = (a, b)" by fastforce
      have "(if b_complete (f_acc s1)
             then Some (Inr (transfer_result_of TRANSFER_COMPLETE (map_option (\<lambda>(r, _). routes ! r) (f_pin s1)) s1), s1)
             else if \<not> a then Some (Inr (transfer_result_of (failure_status b s1) None s1), s1)
             else fetch_loop w routes token path query cutoff wait_slice retries fuel s1) = Some (out, s')"
        using Suc.prems(1,6) one Inr ab by (simp del: try_block.simps)
      then have "s' = s1" and "out = Inr (transfer_result_of
           (if b_complete (f_acc s1) then TRANSFER_COMPLETE else failure_status b s1)
           (if b_complete (f_acc s1) then map_option (\<lambda>(r, _). routes ! r) (f_pin s1) else None) s1)"
        using False Inr ab by (auto simp del: fetch_loop.simps try_block.simps split: if_splits)
      then show ?thesis unfolding Inr ab by simp
    qed
    have "transfer_of w routes t s'" if "out = Inr t" for t
    proof -
      have t: "t = transfer_result_of
           (if b_complete (f_acc s1) then TRANSFER_COMPLETE else failure_status (snd (projr o1)) s1)
           (if b_complete (f_acc s1) then map_option (\<lambda>(r, _). routes ! r) (f_pin s1) else None) s1"
        and s': "s' = s1" using end_state that by auto
      show ?thesis
        unfolding s' transfer_of_def t transfer_result_of_def failure_status_def family_of_def Let_def
        using pin by (cases "b_complete (f_acc s1)") auto
    qed
    with s1 more end_state show ?thesis by blast
  qed
qed simp


section \<open>Enough fuel\<close>

text \<open>
  From call \<open>N\<close> on the clock is past the cutoff. Every turn of a loop reads the clock, so a loop that
  starts with more fuel than clock readings are left ends; and the Message IDs do not run out, because
  the attempts are bounded by the blocks.
\<close>

definition clock_passes :: "ocf_net \<Rightarrow> real \<Rightarrow> nat \<Rightarrow> bool" where
  "clock_passes w cutoff N \<longleftrightarrow> (\<forall>n \<ge> N. cutoff \<le> on_clock w n) \<and> (\<forall>n. on_bits w n < 65536)"

lemma listen_returns:
  assumes "clock_passes w cutoff N" and "deadline \<le> cutoff"
    and "N < f_calls s + fuel" and "0 < fuel" and "fetch_inv w routes acc s" and "token = b_token acc"
  shows "\<exists>x. listen w routes token mid deadline fuel s = Some x"
  using assms(3-5)
proof (induction fuel arbitrary: s)
  case (Suc fuel)
  let ?now = "on_clock w (f_calls s)"
  let ?s2 = "s\<lparr>f_calls := Suc (Suc (f_calls s))\<rparr>" and ?rs = "readable w routes (deadline - ?now) (Suc (f_calls s))"
  show ?case
  proof (cases "deadline - ?now \<le> 0 \<or> ?rs = []")
    case True
    then show ?thesis by (auto simp: asked_def)
  next
    case False
    then have early: "f_calls s < N"
      using assms(1,2) by (fastforce simp: clock_passes_def not_le [symmetric])
    obtain o1 s1 where ev: "take_events w routes token mid ?rs ?s2 = (o1, s1)" by fastforce
    have inv2: "fetch_inv w routes acc ?s2" using Suc.prems(3) by simp
    have "\<forall>r \<in> set ?rs. r < length routes" by (auto simp: readable_def split: option.splits)
    note s1 = take_events_inv [OF ev inv2 assms(6) this]
    have "N < f_calls s1 + fuel" "0 < fuel"
      using s1 Suc.prems(1) early by (auto simp: waits_def)
    then have "\<exists>x. listen w routes token mid deadline fuel s1 = Some x"
      using Suc.IH s1 by blast
    with False ev show ?thesis by (auto simp: asked_def split: sum.splits bool.splits)
  qed
qed simp

lemma one_attempt_returns:
  assumes "clock_passes w cutoff N" and "\<And>now. deadline now \<le> cutoff"
    and "N < f_calls s + fuel" and "0 < fuel" and "fetch_inv w routes acc s" and "token = b_token acc"
    and mids: "finite (f_mids s)" "card (f_mids s) < 65536"
  shows "\<exists>x. one_attempt w routes token path query deadline fuel s = Some x"
proof -
  obtain mid where mid: "free_mid (f_mids s) 65536 (on_bits w (f_calls s)) = Some mid"
    using free_mid_Some [OF mids, of "on_bits w (f_calls s)"] assms(1) by (auto simp: clock_passes_def)
  define s2 where "s2 = s\<lparr>f_calls := Suc (f_calls s), f_mids := insert mid (f_mids s)\<rparr>"
  have s2: "fetch_inv w routes acc s2" using assms(5) by (simp add: s2_def)
  show ?thesis
  proof (cases "block_request (f_acc s) mid token path query")
    case (Inl e)
    with mid show ?thesis by (simp add: one_attempt_def asked_def Let_def)
  next
    case (Inr q)
    obtain b s3 where send: "send_request w routes q
        (case f_pin s of Some (route, _) \<Rightarrow> [route] | None \<Rightarrow> [0..<length routes]) False s2 = (b, s3)"
      by fastforce
    have "fetch_inv w routes acc s3 \<and> waits s2 s3 \<and> f_acc s3 = f_acc s2"
      by (rule send_request_inv [OF send s2]) (auto simp: s2_def split: option.splits)
    then have s3: "fetch_inv w routes acc s3" "f_calls s \<le> f_calls s3"
      by (auto simp: s2_def waits_def)
    let ?s5 = "s3\<lparr>f_attempts := Suc (f_attempts s3), f_calls := Suc (f_calls s3)\<rparr>"
    have "\<exists>x. listen w routes token mid (deadline (on_clock w (f_calls s3))) fuel ?s5 = Some x"
      by (rule listen_returns [OF assms(1,2)]) (use s3 assms in auto)
    with mid Inr send show ?thesis by (auto simp: one_attempt_def asked_def Let_def s2_def)
  qed
qed

lemma try_block_returns:
  assumes "clock_passes w cutoff N"
    and "N < f_calls s + fuel" and "0 < fuel" and "fetch_inv w routes acc s" and "token = b_token acc"
    and "finite (f_mids s)" and "card (f_mids s) + k \<le> 65536"
  shows "\<exists>x. try_block w routes token path query cutoff wait_slice fuel k sent s = Some x"
  using assms(2-4,6,7)
proof (induction k arbitrary: s sent)
  case (Suc k)
  let ?s1 = "s\<lparr>f_calls := Suc (f_calls s)\<rparr>"
  have inv1: "fetch_inv w routes acc ?s1" using Suc.prems by simp
  have "\<exists>x. one_attempt w routes token path query (attempt_deadline cutoff wait_slice k) fuel ?s1 = Some x"
    by (rule one_attempt_returns [OF assms(1) _ _ _ inv1 assms(5)]) (use Suc.prems in \<open>auto simp: attempt_deadline_def\<close>)
  then obtain o2 s2 where one: "one_attempt w routes token path query (attempt_deadline cutoff wait_slice k) fuel ?s1 = Some (o2, s2)"
    by fastforce
  note s2 = one_attempt_inv [OF one inv1 assms(5)]
  have "\<exists>x. try_block w routes token path query cutoff wait_slice fuel k (sent \<or> b) s2 = Some x" for b
    using s2 Suc.prems by (intro Suc.IH) (auto simp: attempts_def)
  with one show ?case by (auto simp: asked_def split: sum.splits prod.splits)
qed simp

text \<open>An accepted answer came before the cutoff.\<close>

lemma try_block_accepted:
  "try_block w routes token path query cutoff wait_slice fuel k sent s = Some (Inr (True, b), s')
     \<Longrightarrow> clock_passes w cutoff N \<Longrightarrow> fetch_inv w routes acc s \<Longrightarrow> token = b_token acc
     \<Longrightarrow> f_calls s < N \<and> f_calls s < f_calls s'"
proof (cases k)
  case (Suc j)
  assume run: "try_block w routes token path query cutoff wait_slice fuel k sent s = Some (Inr (True, b), s')"
    and clock: "clock_passes w cutoff N" and inv: "fetch_inv w routes acc s" and token: "token = b_token acc"
  let ?s1 = "s\<lparr>f_calls := Suc (f_calls s)\<rparr>"
  have early: "\<not> cutoff \<le> on_clock w (f_calls s)" using run Suc by (auto simp: asked_def)
  then obtain o2 s2 where one: "one_attempt w routes token path query (attempt_deadline cutoff wait_slice j) fuel ?s1 = Some (o2, s2)"
    using run Suc by (auto simp: asked_def split: option.splits)
  have inv1: "fetch_inv w routes acc ?s1" using inv by simp
  note s2 = one_attempt_inv [OF one inv1 token]
  have "f_calls s2 \<le> f_calls s'"
  proof (cases "\<exists>b. o2 = Inr (b, False)")
    case True
    then obtain c where "o2 = Inr (c, False)" by auto
    with run Suc early one have rest: "try_block w routes token path query cutoff wait_slice fuel j (sent \<or> c) s2 = Some (Inr (True, b), s')"
      by (simp add: asked_def)
    from try_block_inv [OF rest conjunct1 [OF s2] token] show ?thesis by (simp add: attempts_def)
  next
    case False
    then consider e where "o2 = Inl e" | c where "o2 = Inr (c, True)" by (cases o2) auto
    then show ?thesis using run Suc early one by cases (auto simp: asked_def)
  qed
  with s2 early clock show ?thesis by (auto simp: clock_passes_def not_le [symmetric])
qed simp

lemma fetch_loop_returns:
  "clock_passes w cutoff N \<Longrightarrow> N + 1 < f_calls s + fuel \<Longrightarrow> 1 < fuel
     \<Longrightarrow> fetch_inv w routes acc s \<Longrightarrow> token = b_token acc \<Longrightarrow> block2_inv acc \<Longrightarrow> \<not> b_complete acc
     \<Longrightarrow> finite (f_mids s)
     \<Longrightarrow> card (f_mids s) + (retries + 1) * (b_max_blocks acc - b_blocks (f_acc s)) \<le> 65536
     \<Longrightarrow> \<exists>x. fetch_loop w routes token path query cutoff wait_slice retries fuel s = Some x"
proof (induction fuel arbitrary: s)
  case (Suc fuel)
  show ?case
  proof (cases "b_complete (f_acc s)")
    case open_transfer: False
    have room: "b_blocks (f_acc s) < b_max_blocks acc"
      using fetch_inv_acc [OF Suc.prems(4,6)] open_transfer by (auto simp: block2_inv_def)
    then have one_block: "retries + 1 \<le> (retries + 1) * (b_max_blocks acc - b_blocks (f_acc s))"
      by (metis Suc_leI mult.right_neutral mult_le_mono2 One_nat_def zero_less_diff)
    have "\<exists>x. try_block w routes token path query cutoff wait_slice fuel (retries + 1) False s = Some x"
      by (rule try_block_returns [OF Suc.prems(1) _ _ Suc.prems(4,5,8)]) (use Suc.prems one_block in auto)
    then obtain o1 s1 where one: "try_block w routes token path query cutoff wait_slice fuel (retries + 1) False s = Some (o1, s1)"
      by fastforce
    note s1 = try_block_inv [OF one Suc.prems(4,5)]
    show ?thesis
    proof (cases "\<exists>b. o1 = Inr (True, b) \<and> \<not> b_complete (f_acc s1)")
      case True
      then obtain b where b: "o1 = Inr (True, b)" "\<not> b_complete (f_acc s1)" by auto
      have early: "f_calls s < N \<and> f_calls s < f_calls s1"
        using try_block_accepted [OF one [unfolded b] Suc.prems(1,4,5)] .
      have inv1: "fetch_inv w routes acc s1" and blocks: "b_blocks (f_acc s) < b_blocks (f_acc s1)"
        and att: "attempts (retries + 1) s s1" using s1 b by auto
      have fin: "finite (f_mids s1)" and card: "card (f_mids s1) \<le> card (f_mids s) + (retries + 1)"
        using att Suc.prems(8) by (auto simp: attempts_def)
      have "Suc (b_max_blocks acc - b_blocks (f_acc s1)) \<le> b_max_blocks acc - b_blocks (f_acc s)"
        using blocks fetch_inv_acc [OF inv1 Suc.prems(6)] b(2) by (auto simp: block2_inv_def)
      then have "(retries + 1) + (retries + 1) * (b_max_blocks acc - b_blocks (f_acc s1))
          \<le> (retries + 1) * (b_max_blocks acc - b_blocks (f_acc s))"
        by (metis mult_Suc_right mult_le_mono2)
      with card Suc.prems(9)
      have room1: "card (f_mids s1) + (retries + 1) * (b_max_blocks acc - b_blocks (f_acc s1)) \<le> 65536" by linarith
      have "\<exists>x. fetch_loop w routes token path query cutoff wait_slice retries fuel s1 = Some x"
        by (rule Suc.IH [OF Suc.prems(1) _ _ inv1 Suc.prems(5-7) fin room1]) (use early Suc.prems(2,3) in auto)
      with open_transfer one b show ?thesis by (auto simp del: try_block.simps)
    next
      case False
      with open_transfer one show ?thesis by (auto simp del: try_block.simps split: sum.splits)
    qed
  qed simp
qed simp


text \<open>More fuel never changes a result.\<close>

lemma listen_more_fuel:
  "listen w routes token mid deadline fuel s = Some x \<Longrightarrow> fuel \<le> fuel'
     \<Longrightarrow> listen w routes token mid deadline fuel' s = Some x"
proof (induction fuel arbitrary: s fuel')
  case (Suc fuel)
  then obtain m where m: "fuel' = Suc m" "fuel \<le> m" by (cases fuel') auto
  let ?wait = "deadline - on_clock w (f_calls s)"
  obtain o1 s1 where ev: "take_events w routes token mid (readable w routes ?wait (Suc (f_calls s)))
      (s\<lparr>f_calls := Suc (Suc (f_calls s))\<rparr>) = (o1, s1)" by fastforce
  show ?case
  proof (cases "?wait \<le> 0 \<or> readable w routes ?wait (Suc (f_calls s)) = [] \<or> o1 \<noteq> Inr False")
    case True
    then show ?thesis using Suc.prems(1) ev
      by (elim disjE) (auto simp: m asked_def split: sum.splits bool.splits)
  next
    case False
    then have "listen w routes token mid deadline fuel s1 = Some x"
      using Suc.prems(1) ev by (simp add: asked_def)
    from Suc.IH [OF this m(2)] False ev show ?thesis by (simp add: m asked_def)
  qed
qed simp

lemma one_attempt_more_fuel:
  assumes "one_attempt w routes token path query deadline fuel s = Some x" and "fuel \<le> fuel'"
  shows "one_attempt w routes token path query deadline fuel' s = Some x"
  using assms(1) unfolding one_attempt_def
  by (auto simp: Let_def listen_more_fuel [OF _ assms(2)] split: option.split_asm sum.split_asm prod.split_asm if_split_asm)

lemma try_block_more_fuel:
  "try_block w routes token path query cutoff wait_slice fuel k sent s = Some x \<Longrightarrow> fuel \<le> fuel'
     \<Longrightarrow> try_block w routes token path query cutoff wait_slice fuel' k sent s = Some x"
proof (induction k arbitrary: s sent)
  case (Suc k)
  let ?one = "\<lambda>fuel. one_attempt w routes token path query (attempt_deadline cutoff wait_slice k) fuel
      (s\<lparr>f_calls := Suc (f_calls s)\<rparr>)"
  show ?case
  proof (cases "cutoff \<le> on_clock w (f_calls s)")
    case False
    with Suc.prems(1) obtain o2 s2 where one: "?one fuel = Some (o2, s2)"
      by (auto simp: asked_def split: option.splits)
    note more = one_attempt_more_fuel [OF one Suc.prems(2)]
    show ?thesis
    proof (cases "\<exists>b. o2 = Inr (b, False)")
      case True
      then obtain b where b: "o2 = Inr (b, False)" by auto
      with False one Suc.prems(1) have "try_block w routes token path query cutoff wait_slice fuel k (sent \<or> b) s2 = Some x"
        by (simp add: asked_def)
      from Suc.IH [OF this Suc.prems(2)] False more b show ?thesis by (simp add: asked_def)
    next
      case other: False
      then consider e where "o2 = Inl e" | b where "o2 = Inr (b, True)" by (cases o2) auto
      then show ?thesis using False one more Suc.prems(1) by cases (auto simp: asked_def)
    qed
  qed (use Suc.prems in \<open>simp add: asked_def\<close>)
qed simp

lemma fetch_loop_more_fuel:
  "fetch_loop w routes token path query cutoff wait_slice retries fuel s = Some x \<Longrightarrow> fuel \<le> fuel'
     \<Longrightarrow> fetch_loop w routes token path query cutoff wait_slice retries fuel' s = Some x"
proof (induction fuel arbitrary: s fuel')
  case (Suc fuel)
  then obtain m where m: "fuel' = Suc m" "fuel \<le> m" by (cases fuel') auto
  show ?case
  proof (cases "b_complete (f_acc s)")
    case False
    then obtain o1 s1 where one: "try_block w routes token path query cutoff wait_slice fuel (retries + 1) False s = Some (o1, s1)"
      using Suc.prems(1) by (auto simp del: try_block.simps split: option.splits)
    note more = try_block_more_fuel [OF one m(2)]
    show ?thesis
    proof (cases "\<exists>b. o1 = Inr (True, b) \<and> \<not> b_complete (f_acc s1)")
      case True
      then have "fetch_loop w routes token path query cutoff wait_slice retries fuel s1 = Some x"
        using Suc.prems(1) False one by (auto simp del: try_block.simps)
      from Suc.IH [OF this m(2)] True False more show ?thesis by (auto simp: m simp del: try_block.simps)
    next
      case other: False
      then consider e where "o1 = Inl e" | a b where "o1 = Inr (a, b)" "a \<longrightarrow> b_complete (f_acc s1)"
        by (cases o1) auto
      then show ?thesis using False one more Suc.prems(1)
        by cases (auto simp: m simp del: try_block.simps)
    qed
  qed (use Suc.prems in \<open>simp add: m\<close>)
qed simp

lemma fetch_resource_more_fuel:
  assumes "fetch_resource w routes path query cutoff retries fuel mids n = Some x" and "fuel \<le> fuel'"
  shows "fetch_resource w routes path query cutoff retries fuel' mids n = Some x"
  using assms(1)
  by (auto simp: fetch_resource_def fetch_from_def asked_def fetch_loop_more_fuel [OF _ assms(2)] split: sum.split_asm)

section \<open>The transfer as a whole\<close>

lemma fresh_accumulator_facts:
  assumes "fresh_accumulator token = Inr acc"
  shows "b_token acc = token" and "b_max_blocks acc = MAX_BLOCK2_BLOCKS" and "block2_inv acc"
    and "\<not> b_complete acc" and "b_blocks acc = 0"
  using assms block2_new_inv [OF assms [unfolded fresh_accumulator_def]]
  by (auto simp: fresh_accumulator_def block2_new_def result_simps MAX_BLOCK2_BLOCKS_def split: if_splits)

lemma fetch_start_inv:
  "fetch_inv w routes acc ((fetch_start acc mids n)\<lparr>f_calls := m\<rparr>)"
  by (simp add: fetch_inv_def fetch_start_def)

lemma fetch_resource_inv:
  assumes run: "fetch_resource w routes path query cutoff retries fuel mids n = Some (Inr t, events, mids', n')"
  obtains acc s where "fresh_accumulator (on_token w n) = Inr acc" and "fetch_inv w routes acc s"
    and "f_log s = events" and "f_mids s = mids'" and "f_calls s = n'" and "transfer_of w routes t s"
    and "f_attempts s \<le> (retries + 1) * MAX_BLOCK2_BLOCKS"
    and "finite mids \<longrightarrow> finite mids' \<and> card mids' \<le> card mids + (retries + 1) * MAX_BLOCK2_BLOCKS"
proof -
  from run obtain acc s where acc: "fresh_accumulator (on_token w n) = Inr acc"
    and f: "fetch_from w routes path query cutoff retries fuel (fetch_start acc mids (n + 1)) = Some (Inr t, s)"
    and s: "f_log s = events" "f_mids s = mids'" "f_calls s = n'"
    by (auto simp: fetch_resource_def split: sum.splits)
  note new = fresh_accumulator_facts [OF acc]
  let ?s0 = "(fetch_start acc mids (n + 1))\<lparr>f_calls := n + 2\<rparr>"
  from f have "fetch_loop w routes (b_token acc) path query cutoff
      (max 0 (min 1 ((cutoff - on_clock w (n + 1)) / (real retries + 1)))) retries fuel ?s0 = Some (Inr t, s)"
    by (simp add: fetch_from_def asked_def fetch_start_def)
  note loop = fetch_loop_inv [OF this fetch_start_inv refl new(3,4)]
  have "f_acc ?s0 = acc" "f_attempts ?s0 = 0" "f_mids ?s0 = mids" by (simp_all add: fetch_start_def)
  with loop new have "fetch_inv w routes acc s" "transfer_of w routes t s"
    "attempts ((retries + 1) * MAX_BLOCK2_BLOCKS) ?s0 s" by simp_all
  with that acc s show thesis by (simp add: attempts_def fetch_start_def)
qed

lemma pinned_answer:
  "foldl (pin_after w routes) None events = Some (r, p, src) \<Longrightarrow> \<exists>d m. Answered r src d m \<in> set events"
proof (induction events rule: rev_induct)
  case (snoc e events)
  show ?case
  proof (cases "foldl (pin_after w routes) None events")
    case None
    with snoc.prems show ?thesis by (cases e) (auto split: sum.splits option.splits)
  next
    case (Some pin)
    with snoc show ?thesis by (cases e) auto
  qed
qed simp

text \<open>All answers of a correct log come from one peer, over one route.\<close>

lemma answered_of_pin:
  "log_ok w routes token (Some (r0, p0, src0)) events \<Longrightarrow> Answered r src d m \<in> set events
     \<Longrightarrow> r = r0 \<and> peer_key_of (on_platform w) (family_of routes r0) src = Inr (Some p0)"
  by (induction events) auto

lemma answered_one_peer:
  assumes "log_ok w routes token None events"
  shows "\<exists>r0 p0. \<forall>r src d m. Answered r src d m \<in> set events
     \<longrightarrow> r = r0 \<and> peer_key_of (on_platform w) (family_of routes r0) src = Inr (Some p0)"
  using assms
proof (induction events)
  case (Cons e events)
  show ?case
  proof (cases "\<exists>r src d m. e = Answered r src d m")
    case True
    then obtain r src d m where e: "e = Answered r src d m" by blast
    then obtain p where p: "peer_key_of (on_platform w) (family_of routes r) src = Inr (Some p)"
      using Cons.prems by auto
    with e Cons.prems have "log_ok w routes token (Some (r, p, src)) events" by simp
    from answered_of_pin [OF this] e p show ?thesis by (intro exI [of _ r] exI [of _ p]) auto
  next
    case False
    then have "pin_after w routes None e = None" by (cases e) auto
    with Cons have "\<exists>r0 p0. \<forall>r src d m. Answered r src d m \<in> set events
     \<longrightarrow> r = r0 \<and> peer_key_of (on_platform w) (family_of routes r0) src = Inr (Some p0)" by simp
    then obtain r0 p0 where "\<forall>r src d m. Answered r src d m \<in> set events
     \<longrightarrow> r = r0 \<and> peer_key_of (on_platform w) (family_of routes r0) src = Inr (Some p0)" by blast
    then have "\<forall>r src d m. Answered r src d m \<in> set (e # events)
     \<longrightarrow> r = r0 \<and> peer_key_of (on_platform w) (family_of routes r0) src = Inr (Some p0)"
      using False by (metis set_ConsD)
    then show ?thesis by blast
  qed
qed simp

lemma fetch_resource_one_peer:
  assumes "fetch_resource w routes path query cutoff retries fuel mids n = Some (Inr t, events, mids', n')"
  shows "\<exists>fresh sts acc r0 p0. fresh_accumulator (on_token w n) = Inr fresh
    \<and> add_responses fresh (accepted_messages events) = Inr (sts, acc)
    \<and> log_ok w routes (on_token w n) None events
    \<and> (\<forall>r src d m. Answered r src d m \<in> set events
         \<longrightarrow> r = r0 \<and> peer_key_of (on_platform w) (family_of routes r0) src = Inr (Some p0))
    \<and> (tr_status t = TRANSFER_COMPLETE \<longleftrightarrow> b_complete acc)
    \<and> (b_complete acc \<longrightarrow> tr_payload t = b_payload acc \<and> tr_code t = b_code acc
         \<and> r0 < length routes \<and> tr_source t = Some (family_of routes r0, r_host (routes ! r0)))
    \<and> (\<not> b_complete acc \<longrightarrow> tr_payload t = [] \<and> tr_code t = None \<and> tr_source t = None)
    \<and> tr_attempts t \<le> (retries + 1) * MAX_BLOCK2_BLOCKS"
proof -
  from assms obtain fresh s where new: "fresh_accumulator (on_token w n) = Inr fresh"
    and inv: "fetch_inv w routes fresh s" and events: "f_log s = events" and t: "transfer_of w routes t s"
    and att: "f_attempts s \<le> (retries + 1) * MAX_BLOCK2_BLOCKS"
    by (rule fetch_resource_inv)
  note facts = fresh_accumulator_facts [OF new]
  obtain sts where sts: "add_responses fresh (accepted_messages events) = Inr (sts, f_acc s)"
    and ok: "log_ok w routes (on_token w n) None events"
    and pin: "foldl (pin_after w routes) None events = f_pin s"
    using inv events facts(1) by (auto simp: fetch_inv_def)
  obtain r0 p0 where one: "\<forall>r src d m. Answered r src d m \<in> set events
      \<longrightarrow> r = r0 \<and> peer_key_of (on_platform w) (family_of routes r0) src = Inr (Some p0)"
    using answered_one_peer [OF ok] by blast
  have source: "r0 < length routes \<and> tr_source t = Some (family_of routes r0, r_host (routes ! r0))"
    if whole: "b_complete (f_acc s)"
  proof -
    obtain r p src where p: "f_pin s = Some (r, p, src)"
      using fetch_inv_complete [OF inv whole facts(4)] by blast
    have "\<exists>d m. Answered r src d m \<in> set events"
      using pinned_answer [OF pin [unfolded p]] by blast
    with one have "r = r0" by blast
    with p t whole inv show ?thesis by (auto simp: transfer_of_def fetch_inv_def)
  qed
  with new sts ok one t att show ?thesis unfolding transfer_of_def by (intro exI conjI) auto
qed

section \<open>The operations\<close>

lemma open_routes_open:
  "open_routes ok pl eps s = (Inr routes, s') \<Longrightarrow> fresh_descriptors s \<Longrightarrow>
     (\<forall>r \<in> set routes. r_endpoint r \<in> set eps
        \<and> source_host_key pl (ep_family (r_endpoint r)) (ep_sockaddr (r_endpoint r)) = Inr (Some (r_host r)))
     \<and> os_open s' = rev (map r_socket routes) @ os_open s \<and> (\<forall>r \<in> set routes. os_next s \<le> r_socket r)"
proof (induction eps arbitrary: s routes)
  case (Cons ep eps)
  then obtain h where h: "source_host_key pl (ep_family ep) (ep_sockaddr ep) = Inr h"
    by (cases "source_host_key pl (ep_family ep) (ep_sockaddr ep)") auto
  obtain a where a: "bind_address ep (PyInt 0) = Inr a"
    by (auto simp: bind_address_def validate_udp_port_def)
  let ?calls = "[Bind a, Set_timeout (PyFloat 0), Register]"
  obtain c s1 where c: "try_candidate ok (ep_family ep) ?calls s = (c, s1)" by fastforce
  note cand = try_candidate_open [OF c Cons.prems(2)]
  consider "h = None" | k where "h = Some k" "c = None" | k fd where "h = Some k" "c = Some fd"
    by (cases h; cases c) auto
  then show ?case
  proof cases
    case 1
    with Cons h show ?thesis by auto
  next
    case 2
    with Cons.prems(1) h a c have "open_routes ok pl eps s1 = (Inr routes, s')" by simp
    from Cons.IH [OF this] cand 2 show ?thesis by auto
  next
    case 3
    with Cons.prems(1) h a c obtain rs where rest: "open_routes ok pl eps s1 = (Inr rs, s')"
      and routes: "routes = \<lparr>r_socket = fd, r_endpoint = ep, r_host = k\<rparr> # rs"
      by (auto dest!: then_do_cases)
    from Cons.IH [OF rest] cand 3 h routes show ?thesis by auto
  qed
qed simp

lemma close_routes_open: "os_open (close_routes routes s) = filter (\<lambda>fd. fd \<notin> r_socket ` set routes) (os_open s)"
proof (induction routes arbitrary: s)
  case (Cons r routes)
  have "os_open (close_routes (r # routes) s) = os_open (close_routes routes (close_socket (r_socket r) s))"
    by (simp add: close_routes_def)
  also have "\<dots> = filter (\<lambda>fd. fd \<notin> r_socket ` set (r # routes)) (os_open s)"
    by (simp add: Cons close_socket_def removeAll_filter_not_eq) (rule filter_cong, auto)
  finally show ?case .
qed (simp add: close_routes_def)

text \<open>What a completed operation leaves open, and which routes its job ran over.\<close>

lemma with_routes_outcome:
  assumes "with_routes ok pl resolved unreachable job s = Some (Inr out, s')" and "fresh_descriptors s"
  shows "os_open s' = os_open s"
    and "out = unreachable
      \<or> (\<exists>eps routes. resolved = Inr eps \<and> job routes = Some (Inr out)
           \<and> (\<forall>r \<in> set routes. r_endpoint r \<in> set eps
                \<and> source_host_key pl (ep_family (r_endpoint r)) (ep_sockaddr (r_endpoint r)) = Inr (Some (r_host r))))"
proof -
  have "os_open s' = os_open s \<and> (out = unreachable
      \<or> (\<exists>eps routes. resolved = Inr eps \<and> job routes = Some (Inr out)
           \<and> (\<forall>r \<in> set routes. r_endpoint r \<in> set eps
                \<and> source_host_key pl (ep_family (r_endpoint r)) (ep_sockaddr (r_endpoint r)) = Inr (Some (r_host r)))))"
  proof (cases resolved)
    case (Inl e)
    with assms(1) show ?thesis by (auto simp: with_routes_def split: if_splits)
  next
    case (Inr eps)
    obtain x s1 where x: "open_routes ok pl (take MAX_ENDPOINTS eps) s = (x, s1)" by fastforce
    with assms(1) Inr obtain routes where routes: "x = Inr routes"
      by (cases x) (auto simp: with_routes_def)
    note opened = open_routes_open [OF x [unfolded routes] assms(2)]
    have sub: "set (take MAX_ENDPOINTS eps) \<subseteq> set eps" by (rule set_take_subset)
    show ?thesis
    proof (cases "routes = []")
      case True
      with assms(1) Inr x routes opened show ?thesis by (auto simp: with_routes_def)
    next
      case False
      with assms(1) Inr x routes have job: "job routes = Some (Inr out)" and s': "s' = close_routes routes s1"
        by (auto simp: with_routes_def)
      have "os_open s' = os_open s"
        unfolding s' close_routes_open conjunct1 [OF conjunct2 [OF opened]]
        using opened assms(2) by (fastforce simp: fresh_descriptors_def filter_empty_conv intro!: filter_True)
      with job Inr opened sub show ?thesis by blast
    qed
  qed
  then show "os_open s' = os_open s" and "out = unreachable
      \<or> (\<exists>eps routes. resolved = Inr eps \<and> job routes = Some (Inr out)
           \<and> (\<forall>r \<in> set routes. r_endpoint r \<in> set eps
                \<and> source_host_key pl (ep_family (r_endpoint r)) (ep_sockaddr (r_endpoint r)) = Inr (Some (r_host r))))"
    by auto
qed

text \<open>The body is that of a complete transfer with the code, answered from the address of the endpoint.\<close>

definition content_from :: "ocf_net \<Rightarrow> udp_endpoint \<Rightarrow> address_key \<Rightarrow> nat \<Rightarrow> bytes \<Rightarrow> bool" where
  "content_from w ep host code body \<longleftrightarrow>
     source_host_key (on_platform w) (ep_family ep) (ep_sockaddr ep) = Inr (Some host)
     \<and> (\<exists>n routes events fresh sts acc r0.
          fresh_accumulator (on_token w n) = Inr fresh \<and> add_responses fresh (accepted_messages events) = Inr (sts, acc)
          \<and> b_complete acc \<and> b_code acc = Some code \<and> b_payload acc = body
          \<and> log_ok w routes (on_token w n) None events
          \<and> (\<forall>r src d m. Answered r src d m \<in> set events \<longrightarrow> r = r0)
          \<and> r0 < length routes \<and> r_endpoint (routes ! r0) = ep \<and> r_host (routes ! r0) = host)"

lemma complete_content:
  assumes run: "fetch_resource w routes path query cutoff retries fuel mids n = Some (Inr t, events, mids', n')"
    and complete: "tr_status t = TRANSFER_COMPLETE" "tr_code t = Some code"
    and routes: "\<forall>r \<in> set routes. r_endpoint r \<in> set eps
        \<and> source_host_key (on_platform w) (ep_family (r_endpoint r)) (ep_sockaddr (r_endpoint r)) = Inr (Some (r_host r))"
  shows "\<exists>ep \<in> set eps. \<exists>host. content_from w ep host code (tr_payload t) \<and> tr_source t = Some (ep_family ep, host)"
proof -
  from fetch_resource_one_peer [OF run] obtain fresh sts acc r0 p0 where
      f: "fresh_accumulator (on_token w n) = Inr fresh" "add_responses fresh (accepted_messages events) = Inr (sts, acc)"
      "log_ok w routes (on_token w n) None events" "\<forall>r src d m. Answered r src d m \<in> set events \<longrightarrow> r = r0"
    and whole: "tr_status t = TRANSFER_COMPLETE \<longleftrightarrow> b_complete acc"
    and end_state: "b_complete acc \<longrightarrow> tr_payload t = b_payload acc \<and> tr_code t = b_code acc
         \<and> r0 < length routes \<and> tr_source t = Some (family_of routes r0, r_host (routes ! r0))"
    by blast
  with complete have e: "b_complete acc" "tr_payload t = b_payload acc" "b_code acc = Some code"
      "r0 < length routes" "tr_source t = Some (family_of routes r0, r_host (routes ! r0))" by auto
  have "routes ! r0 \<in> set routes" using e(4) by simp
  with routes have ep: "r_endpoint (routes ! r0) \<in> set eps" "source_host_key (on_platform w)
      (ep_family (r_endpoint (routes ! r0))) (ep_sockaddr (r_endpoint (routes ! r0))) = Inr (Some (r_host (routes ! r0)))"
    by auto
  then have "content_from w (r_endpoint (routes ! r0)) (r_host (routes ! r0)) code (tr_payload t)"
    unfolding content_from_def e(2) using f e by blast
  with e(5) ep show ?thesis unfolding family_of_def by blast
qed

lemma extraction_found:
  assumes run: "fetch_resource w routes path query cutoff retries fuel mids n = Some (Inr t, events, mids', n')"
    and ext: "extraction_for_transfer (on_platform w) t = Inr (Some (PORTS_FOUND ports))"
    and routes: "\<forall>r \<in> set routes. r_endpoint r \<in> set eps
        \<and> source_host_key (on_platform w) (ep_family (r_endpoint r)) (ep_sockaddr (r_endpoint r)) = Inr (Some (r_host r))"
  shows "\<exists>ep \<in> set eps. \<exists>host body. content_from w ep host 0x45 body
    \<and> secure_ports_from_payload (on_platform w) body (ep_family ep) host = Inr (PORTS_FOUND ports)"
proof -
  have complete: "tr_status t = TRANSFER_COMPLETE" "tr_code t = Some 0x45"
    using ext by (auto simp: extraction_for_transfer_def split: if_splits)
  obtain ep host where ep: "ep \<in> set eps" "content_from w ep host 0x45 (tr_payload t)" "tr_source t = Some (ep_family ep, host)"
    using complete_content [OF run complete routes] by blast
  with ext complete have "secure_ports_from_payload (on_platform w) (tr_payload t) (ep_family ep) host = Inr (PORTS_FOUND ports)"
    by (auto simp: extraction_for_transfer_def result_simps)
  with ep show ?thesis by blast
qed

definition port_answer_ok :: "ocf_net \<Rightarrow> udp_endpoint list \<Rightarrow> port_discovery \<Rightarrow> bool" where
  "port_answer_ok w eps d \<longleftrightarrow>
     (pd_error d = None \<longleftrightarrow> pd_ports d \<noteq> [])
     \<and> (pd_ports d \<noteq> [] \<longrightarrow> (\<exists>ep \<in> set eps. \<exists>host body. content_from w ep host 0x45 body
           \<and> secure_ports_from_payload (on_platform w) body (ep_family ep) host = Inr (PORTS_FOUND (pd_ports d))))"

lemma no_ports_ok: "port_answer_ok w eps (port_result [] k b (Some e))"
  by (simp add: port_answer_ok_def port_result_def)

lemma found_ports_ok:
  assumes "fetch_resource w routes path query cutoff retries fuel mids n = Some (Inr t, events, mids', n')"
    and "extraction_for_transfer (on_platform w) t = Inr (Some (PORTS_FOUND ports))"
    and "\<forall>r \<in> set routes. r_endpoint r \<in> set eps
        \<and> source_host_key (on_platform w) (ep_family (r_endpoint r)) (ep_sockaddr (r_endpoint r)) = Inr (Some (r_host r))"
  shows "port_answer_ok w eps (port_result ports k b None)"
  using extraction_found [OF assms] unfolding port_answer_ok_def port_result_def
  by (auto dest: ports_found_valid)

lemma second_verdict_ok:
  assumes run: "fetch_resource w routes path query cutoff retries fuel mids n = Some (Inr t, events, mids', n')"
    and routes: "\<forall>r \<in> set routes. r_endpoint r \<in> set eps
        \<and> source_host_key (on_platform w) (ep_family (r_endpoint r)) (ep_sockaddr (r_endpoint r)) = Inr (Some (r_host r))"
    and d: "second_verdict (on_platform w) first_error k b t = Inr d"
  shows "port_answer_ok w eps d \<and> pd_attempts d = k"
proof (cases "\<exists>ports. extraction_for_transfer (on_platform w) t = Inr (Some (PORTS_FOUND ports))")
  case True
  then obtain ports where found: "extraction_for_transfer (on_platform w) t = Inr (Some (PORTS_FOUND ports))" by blast
  then have "tr_status t = TRANSFER_COMPLETE" by (auto simp: extraction_for_transfer_def split: if_splits)
  with d found have "d = port_result ports k b None" by (simp add: second_verdict_def)
  with found_ports_ok [OF run found routes] show ?thesis by (simp add: port_result_def)
next
  case False
  have "\<exists>e. d = port_result [] k b (Some e)"
  proof (cases "tr_status t")
    case TRANSFER_COMPLETE
    with d obtain answer where answer: "extraction_for_transfer (on_platform w) t = Inr answer"
      by (auto simp: second_verdict_def result_simps)
    with False have "\<forall>ports. answer \<noteq> Some (PORTS_FOUND ports)" by auto
    then have "(case answer of Some (PORTS_FOUND ports) \<Rightarrow> port_result ports k b None
        | _ \<Rightarrow> if unusable answer then port_result [] k b (Some MALFORMED_OCF_RESPONSE)
               else port_result [] k b (Some (case first_error of None \<Rightarrow> NO_SECURE_PORTS | Some e \<Rightarrow> e)))
      = port_result [] k b (Some (if unusable answer then MALFORMED_OCF_RESPONSE
               else (case first_error of None \<Rightarrow> NO_SECURE_PORTS | Some e \<Rightarrow> e)))"
      by (auto split: option.split port_answer.split)
    with d answer TRANSFER_COMPLETE show ?thesis by (auto simp: second_verdict_def)
  qed (use d in \<open>auto simp: second_verdict_def\<close>)
  then show ?thesis using no_ports_ok by (auto simp: port_result_def)
qed

lemma lookups_ok:
  assumes run: "lookups w fuel seconds retries q1 q2 routes = Some (Inr d)"
    and routes: "\<forall>r \<in> set routes. r_endpoint r \<in> set eps
        \<and> source_host_key (on_platform w) (ep_family (r_endpoint r)) (ep_sockaddr (r_endpoint r)) = Inr (Some (r_host r))"
  shows "port_answer_ok w eps d \<and> pd_attempts d \<le> 2 * ((retries + 1) * MAX_BLOCK2_BLOCKS)"
proof -
  let ?cut1 = "if q1 = FILTERED_QUERY then on_clock w 0 + min 1 (seconds / 2)
      else on_clock w 0 + seconds - min 1 (seconds / 2)"
  let ?f1 = "fetch_resource w routes OIC_RES q1 ?cut1 retries fuel {} 1"
  obtain t1 es1 m1 n1 where f1: "?f1 = Some (Inr t1, es1, m1, n1)"
    using run by (auto simp: lookups_def Let_def split: option.splits sum.splits)
  note one = fetch_resource_one_peer [OF f1]
  have k1: "tr_attempts t1 \<le> (retries + 1) * MAX_BLOCK2_BLOCKS" using one by blast
  consider (gone) "tr_status t1 = TRANSFER_ENDPOINT_UNAVAILABLE"
    | (found) ports where "tr_status t1 \<noteq> TRANSFER_ENDPOINT_UNAVAILABLE"
        "extraction_for_transfer (on_platform w) t1 = Inr (Some (PORTS_FOUND ports))"
    | (failed) e where "tr_status t1 \<noteq> TRANSFER_ENDPOINT_UNAVAILABLE" "extraction_for_transfer (on_platform w) t1 = Inl e"
    | (later) answer where "tr_status t1 \<noteq> TRANSFER_ENDPOINT_UNAVAILABLE"
        "extraction_for_transfer (on_platform w) t1 = Inr answer" "\<forall>ports. answer \<noteq> Some (PORTS_FOUND ports)"
    by (metis sum.exhaust)
  then show ?thesis
  proof cases
    case gone
    with run f1 have "d = port_result [] (tr_attempts t1) (tr_received t1) (Some ENDPOINT_UNAVAILABLE)"
      by (simp add: lookups_def Let_def)
    with k1 no_ports_ok show ?thesis by (auto simp: port_result_def)
  next
    case found
    with run f1 have "d = port_result ports (tr_attempts t1) (tr_received t1) None"
      by (simp add: lookups_def Let_def)
    with k1 found_ports_ok [OF f1 found(2) routes] show ?thesis by (auto simp: port_result_def)
  next
    case failed
    with run f1 show ?thesis by (simp add: lookups_def Let_def)
  next
    case later
    let ?error = "if tr_status t1 = TRANSFER_MALFORMED \<or> unusable answer then Some MALFORMED_OCF_RESPONSE else None"
    from run f1 later obtain t2 es2 m2 n2 where
        f2: "fetch_resource w routes OIC_RES q2 (on_clock w 0 + seconds) retries fuel m1 n1 = Some (Inr t2, es2, m2, n2)"
      and d: "second_verdict (on_platform w) ?error (tr_attempts t1 + tr_attempts t2)
                (tr_received t1 \<or> tr_received t2) t2 = Inr d"
      by (auto simp: lookups_def Let_def split: option.splits port_answer.splits sum.splits if_splits)
    have "tr_attempts t2 \<le> (retries + 1) * MAX_BLOCK2_BLOCKS"
      using fetch_resource_one_peer [OF f2] by blast
    with k1 second_verdict_ok [OF f2 routes d] show ?thesis by simp
  qed
qed

section \<open>Properties\<close>

definition demo_net :: ocf_net where
  "demo_net =
     \<lparr>on_platform = demo_platform\<lparr>pl_pton := \<lambda>f s. Inr [10, 0, 0, 7]\<rparr>, on_clock = (\<lambda>n. real n / 100),
      on_token = (\<lambda>n. [1, 2, 3, 4, 5, 6, 7, 8]), on_bits = (\<lambda>n. 7), on_sendto = (\<lambda>n r d a. Some (length d)),
      on_select = (\<lambda>n t. Some [0]),
      on_recv = (\<lambda>n r. Some ([0x58, 0x45, 0, 9, 1, 2, 3, 4, 5, 6, 7, 8, 0xFF, 1],
         PyTuple [PyStr (str_of ''10.0.0.7''), PyInt 40001]))\<rparr>"

definition demo_route :: ocf_route where
  "demo_route = \<lparr>r_socket = 3, r_endpoint = \<lparr>ep_family = AF_INET,
     ep_sockaddr = PyTuple [PyStr (str_of ''10.0.0.7''), PyInt 5683]\<rparr>, r_host = ([10, 0, 0, 7], 0)\<rparr>"

text \<open>C27.
  A plaintext read takes its answer from one peer. Whatever the network does, the transfer that
  \<open>_fetch_resource\<close> returns is what a fresh accumulator makes of the answers it accepted, in order;
  every one of them is a well-formed confirmable or non-confirmable response of at most 8192 bytes with
  the random token of this transfer, came in from the address its socket was opened for, and all came
  over one socket from one address and port; once the first has come, requests go nowhere but to where
  it came from. The transfer is complete exactly when the accumulator is, its source is that socket's
  host, and it made at most \<open>retries + 1\<close> attempts for each of at most 64 blocks.
\<close>

theorem plaintext_read_one_peer:
  assumes "fetch_resource w routes path query cutoff retries fuel mids n = Some (Inr t, events, mids', n')"
  shows "\<exists>fresh sts acc r0 p0. fresh_accumulator (on_token w n) = Inr fresh
    \<and> add_responses fresh (accepted_messages events) = Inr (sts, acc)
    \<and> log_ok w routes (on_token w n) None events
    \<and> (\<forall>r src d m. Answered r src d m \<in> set events
         \<longrightarrow> r = r0 \<and> peer_key_of (on_platform w) (family_of routes r0) src = Inr (Some p0))
    \<and> (tr_status t = TRANSFER_COMPLETE \<longleftrightarrow> b_complete acc)
    \<and> (b_complete acc \<longrightarrow> tr_payload t = b_payload acc \<and> tr_code t = b_code acc
         \<and> r0 < length routes \<and> tr_source t = Some (family_of routes r0, r_host (routes ! r0)))
    \<and> (\<not> b_complete acc \<longrightarrow> tr_payload t = [] \<and> tr_code t = None \<and> tr_source t = None)
    \<and> tr_attempts t \<le> (retries + 1) * MAX_BLOCK2_BLOCKS"
  using assms by (rule fetch_resource_one_peer)

theorem plaintext_read_one_peer_witness:
  "\<exists>t events mids n. fetch_resource demo_net [demo_route] OIC_RES FILTERED_QUERY 1 1 5 {} 0 = Some (Inr t, events, mids, n)
     \<and> tr_payload t = [1] \<and> tr_attempts t \<le> 128"
proof -
  let ?run = "fetch_resource demo_net [demo_route] OIC_RES FILTERED_QUERY 1 1 5 {} 0"
  have "(case ?run of Some (Inr t, _) \<Rightarrow> tr_payload t = [1] | _ \<Rightarrow> False)" by code_simp
  then obtain t events mids n where run: "?run = Some (Inr t, events, mids, n)" and body: "tr_payload t = [1]"
    by (auto split: option.splits sum.splits)
  have "tr_attempts t \<le> (1 + 1) * MAX_BLOCK2_BLOCKS"
    using plaintext_read_one_peer [OF run] by blast
  also have "(1 + 1) * MAX_BLOCK2_BLOCKS = 128" by code_simp
  finally show ?thesis using run body by blast
qed

text \<open>C31.
  A plaintext read returns. If from some call on the clock is past the cutoff, the random Message IDs
  are 16-bit and enough of them are unused, \<open>_fetch_resource\<close> ends: for the model there is one result
  that every sufficient amount of fuel gives, so no loop of the transfer (attempts, waits, stray
  datagrams, blocks, the search for an unused Message ID) runs for ever, whatever arrives.
\<close>

theorem plaintext_read_returns:
  assumes "\<forall>k \<ge> N. cutoff \<le> on_clock w k" and "\<forall>k. on_bits w k < 65536"
    and "finite mids" and "card mids + (retries + 1) * MAX_BLOCK2_BLOCKS \<le> 65536"
  shows "\<exists>x. \<forall>fuel \<ge> N + 2. fetch_resource w routes path query cutoff retries fuel mids n = Some x"
proof -
  have "\<exists>x. fetch_resource w routes path query cutoff retries (N + 2) mids n = Some x"
  proof (cases "fresh_accumulator (on_token w n)")
    case (Inr acc)
    note new = fresh_accumulator_facts [OF Inr]
    let ?s0 = "(fetch_start acc mids (n + 1))\<lparr>f_calls := n + 2\<rparr>"
    have "clock_passes w cutoff N" using assms(1,2) by (simp add: clock_passes_def)
    from fetch_loop_returns [OF this _ _ fetch_start_inv [of w routes acc "n + 2" mids "n + 1"] refl new(3,4), of "N + 2"]
    have "\<exists>x. fetch_loop w routes (b_token acc) path query cutoff
        (max 0 (min 1 ((cutoff - on_clock w (n + 1)) / (real retries + 1)))) retries (N + 2) ?s0 = Some x"
      using assms(3,4) new by (simp add: fetch_start_def)
    then show ?thesis
      using Inr by (auto simp: fetch_resource_def fetch_from_def asked_def fetch_start_def simp del: fetch_loop.simps)
  qed (simp add: fetch_resource_def)
  then show ?thesis using fetch_resource_more_fuel by blast
qed

theorem plaintext_read_returns_witness:
  "\<exists>x. \<forall>fuel \<ge> 102. fetch_resource demo_net [demo_route] OIC_RES FILTERED_QUERY 1 1 fuel {} 0 = Some x"
  using plaintext_read_returns [of 100 1 demo_net "{}" 1 "[demo_route]" OIC_RES FILTERED_QUERY 0]
  by (simp add: demo_net_def MAX_BLOCK2_BLOCKS_def)


definition demo_addrinfo :: "addrinfo list result" where
  "demo_addrinfo = Inr [(AF_INET, SOCK_DGRAM, IPPROTO_UDP, PyTuple [PyStr (str_of ''10.0.0.7''), PyInt 5683])]"


end
