(* ===== verification/Ocf_Multicast.thy ===== *)
theory Ocf_Multicast
  imports Ocf_Fetch
begin

text \<open>
  \<open>protocol/ocf_multicast.py\<close>: the rounds of multicast requests that find the plaintext response ports
  of one IPv4 host, the identity and secure ports read from each, and the choice by Device UUID. As in
  \<open>Ocf_Fetch\<close>, clocks, random bytes, sends and receives are functions of the number of the call.
\<close>

section \<open>Addresses and options\<close>

text \<open>\<open>ipaddress.IPv4Address(s).packed\<close>: four decimal octets without leading zeros.\<close>

definition parse_octet :: "pystr \<Rightarrow> nat option" where
  "parse_octet s =
     (if s = [] \<or> \<not> list_all (\<lambda>c. 0x30 \<le> c \<and> c \<le> 0x39) s \<or> length s > 3 \<or> (s \<noteq> [0x30] \<and> hd s = 0x30) then None
      else (let n = foldl (\<lambda>v c. v * 10 + (c - 0x30)) 0 s in if n > 255 then None else Some n))"

fun parse_octets :: "pystr list \<Rightarrow> bytes option" where
  "parse_octets [] = Some []"
| "parse_octets (s # ss) =
     (case (parse_octet s, parse_octets ss) of (Some n, Some ns) \<Rightarrow> Some (mk_byte n # ns) | _ \<Rightarrow> None)"

definition ipv4_packed :: "pystr \<Rightarrow> bytes option" where
  "ipv4_packed s = (let octets = py_split 0x2E s in if length octets \<noteq> 4 then None else parse_octets octets)"

text \<open>Multicast is 224.0.0.0/4, reserved 240.0.0.0/4. The canonical text of a valid address is itself.\<close>

definition validate_address :: "pyval \<Rightarrow> (pystr \<times> bytes) result" where
  "validate_address value =
     (case value of
        PyStr s \<Rightarrow>
          (case ipv4_packed s of
             None \<Rightarrow> Inl Py_ValueError
           | Some packed \<Rightarrow>
               if unat (hd packed) \<ge> 224 \<or> packed = [0, 0, 0, 0] then Inl Py_ValueError else Inr (s, packed))
      | _ \<Rightarrow> Inl Py_TypeError)"

definition validate_multicast_options :: "pyval \<Rightarrow> pyval \<Rightarrow> pyval \<Rightarrow> (nat \<times> real \<times> nat) result" where
  "validate_multicast_options discovery_port timeout rounds =
     andThen (case discovery_port of
                PyInt p \<Rightarrow> if \<not> (1 \<le> p \<and> p \<le> 65535) then Inl Py_ValueError else Inr (nat p)
              | _ \<Rightarrow> Inl Py_TypeError) (\<lambda>port.
     andThen (float_of timeout) (\<lambda>seconds.
     andThen (raise_if (\<not> (0 < seconds \<and> seconds \<le> 30)) Py_ValueError) (\<lambda>_.
     andThen (case rounds of
                PyInt k \<Rightarrow> if \<not> (1 \<le> k \<and> k \<le> 4) then Inl Py_ValueError else Inr (nat k)
              | _ \<Rightarrow> Inl Py_TypeError) (\<lambda>rounds.
       Inr (port, seconds, rounds)))))"

section \<open>State\<close>

datatype multicast_error = INTERFACE_UNAVAILABLE | AMBIGUOUS_RESPONSE | NO_RESPONSE

record responder_ports =
  rp_ports :: "nat list"
  rp_attempts :: nat
  rp_responses :: nat
  rp_error :: "multicast_error option"

record multicast_net =
  mn_platform :: platform
  mn_clock :: "nat \<Rightarrow> real"
  mn_token :: "nat \<Rightarrow> bytes"
  mn_bits :: "nat \<Rightarrow> nat"
  mn_sendto :: "nat \<Rightarrow> bytes \<Rightarrow> pyval \<Rightarrow> nat option"
  mn_select :: "nat \<Rightarrow> real \<Rightarrow> bool option"
  mn_recv :: "nat \<Rightarrow> (bytes \<times> pyval) option"

datatype multicast_event = Token bytes | Took bytes pyval

record multicast =
  mc_tokens :: "bytes set"
  mc_observations :: "(bytes \<times> nat) set"
  mc_ports :: "nat list"
  mc_seen :: "nat set"
  mc_attempts :: nat
  mc_responses :: nat
  mc_too_many :: bool
  mc_calls :: nat
  mc_events :: "multicast_event list"

definition mc_ask :: "(nat \<Rightarrow> 'a) \<Rightarrow> multicast \<Rightarrow> 'a \<times> multicast" where
  "mc_ask g s = (g (mc_calls s), s\<lparr>mc_calls := mc_calls s + 1\<rparr>)"

definition MAX_DATAGRAMS_PER_ROUND :: nat where "MAX_DATAGRAMS_PER_ROUND = 64"
definition MIN_WINDOW_SHARE :: real where "MIN_WINDOW_SHARE = 1 / 2"

section \<open>Asking\<close>

definition text_bytes :: "string \<Rightarrow> bytes" where
  "text_bytes s = map (\<lambda>c. mk_byte c) (str_of s)"

definition multicast_request :: "bytes \<Rightarrow> nat \<Rightarrow> bool \<Rightarrow> bool \<Rightarrow> bytes result" where
  "multicast_request token mid versioned filtered =
     build_coap TYPE_NON METHOD_GET mid token
       ([(URI_PATH, text_bytes ''oic''), (URI_PATH, text_bytes ''res''),
         (ACCEPT, if versioned then [0x27, 0x10] else CF_CBOR)]
        @ (if filtered then [(URI_QUERY, text_bytes ''rt=oic.r.doxm'')] else [])
        @ (if versioned then [(2049, [8, 0])] else [])) []"

text \<open>\<open>while token in accepted_tokens: token = token_bytes(8)\<close>.\<close>

fun unused_token :: "(nat \<Rightarrow> bytes) \<Rightarrow> bytes set \<Rightarrow> nat \<Rightarrow> nat \<Rightarrow> (bytes \<times> nat) option" where
  "unused_token draw used 0 n = None"
| "unused_token draw used (Suc fuel) n =
     (if draw n \<in> used then unused_token draw used fuel (n + 1) else Some (draw n, n + 1))"

definition MULTICAST_GROUP :: pystr where "MULTICAST_GROUP = str_of ''224.0.1.187''"

definition send_query ::
  "multicast_net \<Rightarrow> nat \<Rightarrow> nat \<Rightarrow> bool \<times> bool \<Rightarrow> multicast \<Rightarrow> (unit result \<times> multicast) option" where
  "send_query w port fuel kind s =
     (case unused_token (mn_token w) (mc_tokens s) fuel (mc_calls s) of
        None \<Rightarrow> None
      | Some (token, n) \<Rightarrow>
          let s = s\<lparr>mc_calls := n, mc_tokens := insert token (mc_tokens s), mc_events := mc_events s @ [Token token]\<rparr> in
          (case mc_ask (mn_bits w) s of
             (mid, s) \<Rightarrow>
               (case multicast_request token mid (fst kind) (snd kind) of
                  Inl e \<Rightarrow> Some (Inl e, s)
                | Inr request \<Rightarrow>
                    (case mc_ask (\<lambda>n. mn_sendto w n request (PyTuple [PyStr MULTICAST_GROUP, PyInt (int port)])) s of
                       (None, s) \<Rightarrow> Some (Inr (), s)
                     | (Some _, s) \<Rightarrow> Some (Inr (), s\<lparr>mc_attempts := mc_attempts s + 1\<rparr>)))))"

fun send_queries ::
  "multicast_net \<Rightarrow> nat \<Rightarrow> nat \<Rightarrow> (bool \<times> bool) list \<Rightarrow> multicast \<Rightarrow> (unit result \<times> multicast) option" where
  "send_queries w port fuel [] s = Some (Inr (), s)"
| "send_queries w port fuel (kind # kinds) s =
     (case send_query w port fuel kind s of
        Some (Inr _, s) \<Rightarrow> send_queries w port fuel kinds s
      | out \<Rightarrow> out)"

definition QUERIES :: "(bool \<times> bool) list" where
  "QUERIES = [(True, False), (False, False), (False, True)]"

section \<open>Listening\<close>

text \<open>The port a datagram came from, when it came from the target.\<close>

definition target_port :: "platform \<Rightarrow> bytes \<Rightarrow> pyval \<Rightarrow> nat option result" where
  "target_port pl target source =
     (case source of
        PyTuple [PyStr host, port] \<Rightarrow>
          (case pl_pton pl AF_INET host of
             Inl e \<Rightarrow> if isinstance_of e Py_OSError then Inr None else Inl e
           | Inr packed \<Rightarrow>
               Inr (if packed \<noteq> target then None
                    else (case port of PyInt p \<Rightarrow> if 1 \<le> p \<and> p \<le> 65535 then Some (nat p) else None | _ \<Rightarrow> None)))
      | _ \<Rightarrow> Inr None)"

definition plausible :: "bytes \<Rightarrow> bool" where
  "plausible datagram \<longleftrightarrow>
     length datagram \<le> MAX_DATAGRAM_BYTES
     \<and> \<not> (length datagram < 4 \<or> drop_bit 6 (unat (datagram ! 0)) \<noteq> 1 \<or> unat (datagram ! 0) AND 15 > 8
          \<or> 4 + (unat (datagram ! 0) AND 15) > length datagram)"

text \<open>A response to one of the tokens: its type, Message ID and token.\<close>

definition token_response :: "bytes set \<Rightarrow> bytes \<Rightarrow> (nat \<times> nat \<times> bytes) option" where
  "token_response tokens datagram =
     (case parse_coap datagram of
        Inl _ \<Rightarrow> None
      | Inr (mtype, code, mid, token, options, payload) \<Rightarrow>
          if token \<notin> tokens \<or> code \<noteq> 0x45 \<or> mtype \<notin> {TYPE_NON, TYPE_CON} \<or> payload = [] then None
          else Some (mtype, mid, token))"

definition observe :: "bytes \<Rightarrow> nat \<Rightarrow> multicast \<Rightarrow> multicast" where
  "observe token port s =
     (if (token, port) \<in> mc_observations s then s
      else
        let s = s\<lparr>mc_observations := insert (token, port) (mc_observations s), mc_responses := mc_responses s + 1\<rparr> in
        if port \<in> mc_seen s then s
        else if length (mc_ports s) \<ge> MAX_PORTS then s\<lparr>mc_too_many := True\<rparr>
        else s\<lparr>mc_seen := insert port (mc_seen s), mc_ports := mc_ports s @ [port]\<rparr>)"

definition take_response :: "multicast_net \<Rightarrow> bytes \<Rightarrow> bytes \<Rightarrow> pyval \<Rightarrow> multicast \<Rightarrow> unit result \<times> multicast" where
  "take_response w target datagram source s =
     (let s = s\<lparr>mc_events := mc_events s @ [Took datagram source]\<rparr> in
      if \<not> plausible datagram then (Inr (), s)
      else
        then_do (target_port (mn_platform w) target source, s) (\<lambda>port s.
          case port of
            None \<Rightarrow> (Inr (), s)
          | Some port \<Rightarrow>
              (case token_response (mc_tokens s) datagram of
                 None \<Rightarrow> (Inr (), s)
               | Some (mtype, mid, token) \<Rightarrow>
                   if mtype = TYPE_CON
                   then then_do (build_empty_ack mid, s) (\<lambda>ack s.
                          (Inr (), observe token port (snd (mc_ask (\<lambda>n. mn_sendto w n ack source) s))))
                   else (Inr (), observe token port s))))"

fun collect ::
  "multicast_net \<Rightarrow> bytes \<Rightarrow> real \<Rightarrow> nat \<Rightarrow> nat \<Rightarrow> multicast \<Rightarrow> (unit result \<times> multicast) option" where
  "collect w target round_deadline 0 datagrams s = None"
| "collect w target round_deadline (Suc fuel) datagrams s =
     (if datagrams \<ge> MAX_DATAGRAMS_PER_ROUND then Some (Inr (), s)
      else
        (case mc_ask (mn_clock w) s of
           (now, s) \<Rightarrow>
             if round_deadline - now \<le> 0 then Some (Inr (), s)
             else
               (case mc_ask (\<lambda>n. mn_select w n (round_deadline - now)) s of
                  (ready, s) \<Rightarrow>
                    if ready \<noteq> Some True then Some (Inr (), s)
                    else
                      (case mc_ask (mn_recv w) s of
                         (None, s) \<Rightarrow> collect w target round_deadline fuel datagrams s
                       | (Some (datagram, source), s) \<Rightarrow>
                           (case take_response w target datagram source s of
                              (Inl e, s) \<Rightarrow> Some (Inl e, s)
                            | (Inr _, s) \<Rightarrow> collect w target round_deadline fuel (datagrams + 1) s)))))"

section \<open>The rounds\<close>

text \<open>From round \<open>k\<close> on, with \<open>left\<close> rounds to go.\<close>

fun multicast_rounds ::
  "multicast_net \<Rightarrow> bytes \<Rightarrow> nat \<Rightarrow> real \<Rightarrow> real \<Rightarrow> nat \<Rightarrow> nat \<Rightarrow> nat \<Rightarrow> multicast \<Rightarrow> (unit result \<times> multicast) option" where
  "multicast_rounds w target port deadline nominal fuel k 0 s = Some (Inr (), s)"
| "multicast_rounds w target port deadline nominal fuel k (Suc left) s =
     (case mc_ask (mn_clock w) s of
        (now, s) \<Rightarrow>
          if now \<ge> deadline then Some (Inr (), s)
          else
            (case mc_ask (mn_clock w) s of
               (now, s) \<Rightarrow>
                 let round_window = (deadline - now) / real (Suc left) in
                 if k > 0 \<and> round_window < nominal * MIN_WINDOW_SHARE then Some (Inr (), s)
                 else
                   (case send_queries w port fuel QUERIES s of
                      Some (Inr _, s) \<Rightarrow>
                        (case collect w target (now + round_window) fuel 0 s of
                           Some (Inr _, s) \<Rightarrow> multicast_rounds w target port deadline nominal fuel (k + 1) left s
                         | out \<Rightarrow> out)
                    | out \<Rightarrow> out)))"

definition multicast_start :: multicast where
  "multicast_start =
     \<lparr>mc_tokens = {}, mc_observations = {}, mc_ports = [], mc_seen = {}, mc_attempts = 0, mc_responses = 0,
      mc_too_many = False, mc_calls = 1, mc_events = []\<rparr>"

definition multicast_verdict :: "multicast \<Rightarrow> responder_ports" where
  "multicast_verdict s =
     (let answer = (\<lambda>ports error. \<lparr>rp_ports = ports, rp_attempts = mc_attempts s, rp_responses = mc_responses s,
                                   rp_error = error\<rparr>) in
      if mc_too_many s then answer [] (Some AMBIGUOUS_RESPONSE)
      else if mc_ports s \<noteq> [] then answer (mc_ports s) None
      else if mc_attempts s = 0 then answer [] (Some INTERFACE_UNAVAILABLE)
      else answer [] (Some NO_RESPONSE))"

definition no_interface :: responder_ports where
  "no_interface = \<lparr>rp_ports = [], rp_attempts = 0, rp_responses = 0, rp_error = Some INTERFACE_UNAVAILABLE\<rparr>"

definition multicast_plan :: "pystr \<Rightarrow> bytes \<Rightarrow> sys_call list" where
  "multicast_plan interface packed =
     [Multicast_if packed, Multicast_ttl 1, Multicast_loop 0, Bind (PyTuple [PyStr interface, PyInt 0]),
      Set_timeout (PyFloat 0), Register]"

definition search_ports ::
  "multicast_net \<Rightarrow> bytes \<Rightarrow> nat \<Rightarrow> real \<Rightarrow> nat \<Rightarrow> nat \<Rightarrow> (unit result \<times> multicast) option" where
  "search_ports w target port seconds rounds fuel =
     multicast_rounds w target port (mn_clock w 0 + seconds) (seconds / real rounds) fuel 0 rounds multicast_start"

definition discover_ocf_responder_ports ::
  "bool \<Rightarrow> (nat \<Rightarrow> sys_call \<Rightarrow> bool) \<Rightarrow> multicast_net \<Rightarrow> nat \<Rightarrow> pyval \<Rightarrow> pyval \<Rightarrow> pyval \<Rightarrow> pyval \<Rightarrow> pyval \<Rightarrow> os
     \<Rightarrow> (responder_ports result \<times> os) option" where
  "discover_ocf_responder_ports selector_ok ok w fuel target_address interface_address discovery_port timeout rounds s =
     (case andThen (validate_address target_address) (\<lambda>target.
           andThen (validate_address interface_address) (\<lambda>interface.
           andThen (validate_multicast_options discovery_port timeout rounds) (\<lambda>options.
             Inr (target, interface, options)))) of
        Inl e \<Rightarrow> Some (Inl e, s)
      | Inr ((_, target), (interface, packed), (port, seconds, rounds)) \<Rightarrow>
          if \<not> selector_ok then Some (Inr no_interface, s)
          else
            (case try_candidate ok AF_INET (multicast_plan interface packed) s of
               (None, s) \<Rightarrow> Some (Inr no_interface, s)
             | (Some fd, s) \<Rightarrow>
                 map_option (\<lambda>(out, m). (andThen out (\<lambda>_. Inr (multicast_verdict m)), close_socket fd s))
                   (search_ports w target port seconds rounds fuel)))"

section \<open>Responders\<close>

datatype responder_error = Read_failed error_code | IDENTITY_UNAVAILABLE

record responder =
  rs_port :: nat
  rs_types :: "pystr list"
  rs_di :: "pystr option"
  rs_name :: "pystr option"
  rs_secure :: "nat list"
  rs_error :: "responder_error option"

definition string_of :: "pyval \<Rightarrow> pystr option" where
  "string_of v = (case v of PyStr s \<Rightarrow> Some s | _ \<Rightarrow> None)"

definition identity_from_oic_d :: "platform \<Rightarrow> bytes \<Rightarrow> pystr list \<times> pystr option \<times> pystr option" where
  "identity_from_oic_d pl payload =
     (case pl_cbor pl payload of
        Inr (PyDict value, _) \<Rightarrow>
          (case dict_get value (key ''rt'') of
             Some (PyList items) \<Rightarrow> List.map_filter string_of items
           | _ \<Rightarrow> [],
           case dict_get value (key ''di'') of Some (PyStr di) \<Rightarrow> if di = [] then None else Some di | _ \<Rightarrow> None,
           case dict_get value (key ''n'') of Some (PyStr n) \<Rightarrow> Some n | _ \<Rightarrow> None)
      | _ \<Rightarrow> ([], None, None))"

text \<open>\<open>PlaintextOcfResourceResult.successful\<close>.\<close>

definition successful :: "resource_answer \<Rightarrow> bool" where
  "successful a \<longleftrightarrow> ra_error a = None \<and> (case ra_code a of None \<Rightarrow> False | Some c \<Rightarrow> drop_bit 5 c = 2)"

text \<open>What one operation over the network runs against: the resolver's rows and the sockets.\<close>

type_synonym surroundings_of_read = "addrinfo list result \<times> ocf_net"

definition responder_of :: "nat \<Rightarrow> platform \<Rightarrow> resource_answer \<Rightarrow> nat list \<Rightarrow> responder" where
  "responder_of port pl identity secure =
     (case (if successful identity then identity_from_oic_d pl (ra_payload identity) else ([], None, None)) of
        (rt, di, name) \<Rightarrow>
          \<lparr>rs_port = port, rs_types = rt, rs_di = di, rs_name = name, rs_secure = secure,
           rs_error = (if successful identity then None
                       else Some (case ra_error identity of None \<Rightarrow> IDENTITY_UNAVAILABLE | Some e \<Rightarrow> Read_failed e))\<rparr>)"

definition read_ocf_responder ::
  "(nat \<Rightarrow> sys_call \<Rightarrow> bool) \<Rightarrow> surroundings_of_read \<Rightarrow> surroundings_of_read \<Rightarrow> nat \<Rightarrow> pyval \<Rightarrow> pyval \<Rightarrow> pyval \<Rightarrow> pyval \<Rightarrow> os
     \<Rightarrow> (responder result \<times> os) option" where
  "read_ocf_responder ok first second fuel host port timeout retries s =
     (case (case port of PyInt p \<Rightarrow> if \<not> (1 \<le> p \<and> p \<le> 65535) then Inl Py_ValueError else Inr (nat p)
            | _ \<Rightarrow> Inl Py_TypeError) of
        Inl e \<Rightarrow> Some (Inl e, s)
      | Inr p \<Rightarrow>
          (case read_plaintext_ocf_resource ok (fst first) (snd first) fuel host (PyStr (str_of ''/oic/d''))
                  (PyTuple []) port timeout retries (PyInt AF_UNSPEC) s of
             None \<Rightarrow> None
           | Some (Inl e, s) \<Rightarrow> Some (Inl e, s)
           | Some (Inr identity, s) \<Rightarrow>
               map_option (\<lambda>(secure, s).
                   (andThen secure (\<lambda>d. Inr (responder_of p (on_platform (snd first)) identity (pd_ports d))), s))
                 (discover_ocf_secure_ports ok (fst second) (snd second) fuel host port timeout retries
                    (PyInt AF_UNSPEC) (PyStr (str_of ''doxm-first'')) s)))"

text \<open>The reads of \<open>discover_ocf_responders\<close>, one responder after the other; \<open>env j\<close> is the \<open>j\<close>-th read's.\<close>

fun read_responders ::
  "(nat \<Rightarrow> sys_call \<Rightarrow> bool) \<Rightarrow> (nat \<Rightarrow> surroundings_of_read) \<Rightarrow> nat \<Rightarrow> pyval \<Rightarrow> pyval \<Rightarrow> pyval \<Rightarrow> nat \<Rightarrow> nat list \<Rightarrow> os
     \<Rightarrow> (responder list result \<times> os) option" where
  "read_responders ok env fuel host timeout retries j [] s = Some (Inr [], s)"
| "read_responders ok env fuel host timeout retries j (port # ports) s =
     (case read_ocf_responder ok (env j) (env (j + 1)) fuel host (PyInt (int port)) timeout retries s of
        None \<Rightarrow> None
      | Some (Inl e, s) \<Rightarrow> Some (Inl e, s)
      | Some (Inr r, s) \<Rightarrow>
          map_option (\<lambda>(rs, s). (andThen rs (\<lambda>rs. Inr (r # rs)), s))
            (read_responders ok env fuel host timeout retries (j + 2) ports s))"

definition discover_ocf_responders ::
  "bool \<Rightarrow> (nat \<Rightarrow> sys_call \<Rightarrow> bool) \<Rightarrow> multicast_net \<Rightarrow> (nat \<Rightarrow> surroundings_of_read) \<Rightarrow> nat \<Rightarrow> pyval \<Rightarrow> pyval \<Rightarrow> pyval
     \<Rightarrow> pyval \<Rightarrow> pyval \<Rightarrow> pyval \<Rightarrow> pyval \<Rightarrow> os \<Rightarrow> ((responder list \<times> multicast_error option) result \<times> os) option" where
  "discover_ocf_responders selector_ok ok w env fuel target interface discovery_port timeout rounds
       per_read_timeout retries s =
     (case discover_ocf_responder_ports selector_ok ok w fuel target interface discovery_port timeout rounds s of
        None \<Rightarrow> None
      | Some (Inl e, s) \<Rightarrow> Some (Inl e, s)
      | Some (Inr found, s) \<Rightarrow>
          if rp_ports found = [] then Some (Inr ([], rp_error found), s)
          else
            map_option (\<lambda>(rs, s). (andThen rs (\<lambda>rs. Inr (rs, None)), s))
              (read_responders ok env fuel target per_read_timeout retries 0 (rp_ports found) s))"

definition secure_ports_for_di :: "responder list \<Rightarrow> pyval \<Rightarrow> nat list result" where
  "secure_ports_for_di responders di =
     (case di of
        PyStr d \<Rightarrow>
          if d = [] then Inl Py_ValueError
          else Inr (case List.find (\<lambda>r. rs_di r = Some d) responders of None \<Rightarrow> [] | Some r \<Rightarrow> rs_secure r)
      | _ \<Rightarrow> Inl Py_ValueError)"

end
