(* ===== verification/Ocf_Responders.thy ===== *)
theory Ocf_Responders
  imports Ocf_Multicast Ocf_Transfer
begin

text \<open>
  What holds of \<open>Ocf_Multicast\<close>: the ports reported are a function of the datagrams taken, within the
  bounds on queries and datagrams, and the responder chosen by its Device UUID is one that answered.
\<close>

section \<open>Observations\<close>

text \<open>
  The token and port a datagram shows, when it is a 2.05 response with a payload to one of the tokens,
  from the target. The other checks of the code are implied.
\<close>

definition observation :: "platform \<Rightarrow> bytes \<Rightarrow> bytes set \<Rightarrow> bytes \<Rightarrow> pyval \<Rightarrow> (bytes \<times> nat) option" where
  "observation pl target tokens datagram source =
     (if length datagram > MAX_DATAGRAM_BYTES then None
      else
        (case (target_port pl target source, token_response tokens datagram) of
           (Inr (Some port), Some (_, _, token)) \<Rightarrow> Some (token, port)
         | _ \<Rightarrow> None))"

text \<open>The observations of a run, against the tokens sent before each datagram.\<close>

fun observed :: "platform \<Rightarrow> bytes \<Rightarrow> bytes set \<Rightarrow> multicast_event list \<Rightarrow> (bytes \<times> nat) list" where
  "observed pl target tokens [] = []"
| "observed pl target tokens (Token t # es) = observed pl target (insert t tokens) es"
| "observed pl target tokens (Took d source # es) =
     (case observation pl target tokens d source of
        None \<Rightarrow> observed pl target tokens es
      | Some ob \<Rightarrow> ob # observed pl target tokens es)"

fun tokens_of :: "multicast_event list \<Rightarrow> bytes set" where
  "tokens_of [] = {}"
| "tokens_of (Token t # es) = insert t (tokens_of es)"
| "tokens_of (Took d source # es) = tokens_of es"

definition took :: "multicast_event list \<Rightarrow> nat" where
  "took es = length (filter (\<lambda>e. case e of Took _ _ \<Rightarrow> True | _ \<Rightarrow> False) es)"

lemma tokens_of_append [simp]: "tokens_of (es @ fs) = tokens_of es \<union> tokens_of fs"
  by (induction es rule: tokens_of.induct) auto

lemma took_simps [simp]:
  "took [] = 0" "took (es @ fs) = took es + took fs" "took [Token t] = 0" "took [Took d source] = 1"
  by (simp_all add: took_def)

lemma observed_append:
  "observed pl target T (es @ fs) = observed pl target T es @ observed pl target (T \<union> tokens_of es) fs"
  by (induction pl target T es rule: observed.induct) (auto split: option.split)

lemma first_occurrences_snoc:
  "first_occurrences (xs @ [x]) = (if x \<in> set xs then first_occurrences xs else first_occurrences xs @ [x])"
  by (simp add: first_occurrences_def)

lemma parsed_plausible:
  "parse_coap d = Inr x \<Longrightarrow> plausible d \<longleftrightarrow> length d \<le> MAX_DATAGRAM_BYTES"
  by (auto simp: parse_coap_def plausible_def result_simps item_def Let_def split: if_splits)

lemma token_response_plausible:
  "token_response T d = Some x \<Longrightarrow> plausible d \<longleftrightarrow> length d \<le> MAX_DATAGRAM_BYTES"
  by (auto simp: token_response_def parsed_plausible split: sum.splits)

section \<open>The invariant\<close>

definition ports_of :: "(bytes \<times> nat) list \<Rightarrow> nat list" where
  "ports_of obs = first_occurrences (map snd obs)"

definition multicast_inv :: "multicast_net \<Rightarrow> bytes \<Rightarrow> multicast \<Rightarrow> bool" where
  "multicast_inv w target s \<longleftrightarrow>
     (let obs = observed (mn_platform w) target {} (mc_events s); ps = ports_of obs in
      mc_tokens s = tokens_of (mc_events s) \<and> mc_observations s = set obs \<and> mc_responses s = card (set obs)
      \<and> mc_ports s = take MAX_PORTS ps \<and> mc_seen s = set (mc_ports s)
      \<and> (mc_too_many s \<longleftrightarrow> length ps > MAX_PORTS)
      \<and> (\<forall>d source. Took d source \<in> set (mc_events s) \<longrightarrow> (\<exists>n. mn_recv w n = Some (d, source))))"

definition grows :: "nat \<Rightarrow> nat \<Rightarrow> multicast \<Rightarrow> multicast \<Rightarrow> bool" where
  "grows a b s s' \<longleftrightarrow>
     mc_calls s \<le> mc_calls s' \<and> mc_attempts s' \<le> mc_attempts s + a \<and> took (mc_events s') \<le> took (mc_events s) + b"

lemma grows_refl [simp]: "grows a b s s"
  by (simp add: grows_def)

lemma grows_trans: "grows a b s t \<Longrightarrow> grows c d t u \<Longrightarrow> grows (a + c) (b + d) s u"
  by (auto simp: grows_def)

lemma multicast_inv_calls [simp]:
  "multicast_inv w target (s\<lparr>mc_calls := n\<rparr>) = multicast_inv w target s"
  "multicast_inv w target (s\<lparr>mc_attempts := n\<rparr>) = multicast_inv w target s"
  by (simp_all add: multicast_inv_def)

lemma observe_inv:
  assumes obs: "obs = observed (mn_platform w) target {} (mc_events s)" and ps: "ps = ports_of obs"
    and "mc_observations s = set obs" "mc_responses s = card (set obs)"
    and "mc_ports s = take MAX_PORTS ps" "mc_seen s = set (mc_ports s)" "mc_too_many s \<longleftrightarrow> length ps > MAX_PORTS"
    and obs': "obs' = obs @ [(token, port)]" and s': "s' = observe token port s"
  shows "mc_observations s' = set obs' \<and> mc_responses s' = card (set obs')
    \<and> mc_ports s' = take MAX_PORTS (ports_of obs') \<and> mc_seen s' = set (mc_ports s')
    \<and> (mc_too_many s' \<longleftrightarrow> length (ports_of obs') > MAX_PORTS)
    \<and> mc_tokens s' = mc_tokens s \<and> mc_events s' = mc_events s \<and> mc_calls s' = mc_calls s \<and> mc_attempts s' = mc_attempts s"
proof (cases "(token, port) \<in> set obs")
  case True
  then have "port \<in> snd ` set obs" by force
  then have "ports_of obs' = ps"
    unfolding ps obs' ports_of_def by (simp add: first_occurrences_snoc)
  moreover have "set obs' = set obs" using True obs' by auto
  ultimately show ?thesis unfolding s' using True assms(3-7) by (simp add: observe_def)
next
  case False
  have ps': "ports_of obs' = (if port \<in> set ps then ps else ps @ [port])"
    unfolding ps obs' ports_of_def by (simp add: first_occurrences_snoc)
  have card: "card (set obs') = Suc (card (set obs))" "set obs' = insert (token, port) (set obs)"
    using False obs' by auto
  consider "port \<in> set (take MAX_PORTS ps)" | "port \<notin> set (take MAX_PORTS ps)" "length ps \<ge> MAX_PORTS"
    | "port \<notin> set ps" "length ps < MAX_PORTS"
    by (cases "length ps < MAX_PORTS"; cases "port \<in> set (take MAX_PORTS ps)") (auto simp: not_less)
  then show ?thesis
  proof cases
    case 1
    then have "port \<in> set ps" by (rule in_set_takeD)
    with 1 False assms(3-7) card ps' show ?thesis unfolding s' by (simp add: observe_def Let_def)
  next
    case 2
    then have "length (take MAX_PORTS ps) = MAX_PORTS" by simp
    moreover have "take MAX_PORTS (ports_of obs') = take MAX_PORTS ps" using 2 by (simp add: ps')
    moreover have "length (ports_of obs') > MAX_PORTS"
      using 2 ps' by (cases "length ps = MAX_PORTS") (auto)
    ultimately show ?thesis unfolding s' using 2 False assms(3-7) card by (simp add: observe_def Let_def)
  next
    case 3
    then have "take MAX_PORTS ps = ps" "take MAX_PORTS (ps @ [port]) = ps @ [port]" by simp_all
    with 3 False assms(3-7) card ps' show ?thesis unfolding s' by (auto simp: observe_def Let_def)
  qed
qed

lemma take_response_inv:
  assumes run: "take_response w target d source s = (out, s')" and inv: "multicast_inv w target s"
    and got: "mn_recv w n = Some (d, source)"
  shows "(out = Inr () \<longrightarrow> multicast_inv w target s') \<and> grows 0 1 s s' \<and> mc_calls s \<le> mc_calls s'"
proof -
  let ?pl = "mn_platform w" and ?s1 = "s\<lparr>mc_events := mc_events s @ [Took d source]\<rparr>"
  let ?obs = "observed ?pl target {} (mc_events s)"
  have T: "mc_tokens s = tokens_of (mc_events s)" using inv by (simp add: multicast_inv_def Let_def)
  have obs1: "observed ?pl target {} (mc_events ?s1)
      = ?obs @ (case observation ?pl target (mc_tokens s) d source of None \<Rightarrow> [] | Some ob \<Rightarrow> [ob])"
    by (simp add: observed_append T split: option.split)
  have inv1: "multicast_inv w target ?s1" if "observation ?pl target (mc_tokens s) d source = None"
    using inv got that obs1 T by (auto simp: multicast_inv_def Let_def)
  consider (ignored) "observation ?pl target (mc_tokens s) d source = None"
    | (seen) token port where "observation ?pl target (mc_tokens s) d source = Some (token, port)"
    by (cases "observation ?pl target (mc_tokens s) d source") auto
  then show ?thesis
  proof cases
    case ignored
    have "s' = ?s1"
    proof (cases "plausible d")
      case True
      with ignored run show ?thesis
        by (auto simp: take_response_def observation_def Let_def plausible_def then_do_def
            split: sum.splits option.splits prod.splits)
    qed (use run in \<open>simp add: take_response_def\<close>)
    with inv1 ignored show ?thesis by (simp add: grows_def)
  next
    case seen
    then obtain mtype mid where p: "target_port ?pl target source = Inr (Some port)" "length d \<le> MAX_DATAGRAM_BYTES"
      and t: "token_response (mc_tokens s) d = Some (mtype, mid, token)"
      by (auto simp: observation_def split: if_splits sum.splits option.splits)
    have pl: "plausible d" using token_response_plausible [OF t] p by simp
    obtain a where a: "build_empty_ack mid = Inr a" by (simp add: build_empty_ack_eq)
    have "\<exists>k. s' = observe token port (?s1\<lparr>mc_calls := mc_calls s + k\<rparr>) \<and> out = Inr ()"
      using run p t pl a
      by (auto simp: take_response_def Let_def mc_ask_def split: if_splits intro: exI [of _ 0] exI [of _ 1])
    then obtain k where s': "s' = observe token port (?s1\<lparr>mc_calls := mc_calls s + k\<rparr>)" and out: "out = Inr ()" by blast
    let ?s2 = "s\<lparr>mc_calls := mc_calls s + k\<rparr>" and ?s3 = "?s1\<lparr>mc_calls := mc_calls s + k\<rparr>"
    have "mc_observations ?s2 = set ?obs \<and> mc_responses ?s2 = card (set ?obs)
        \<and> mc_ports ?s2 = take MAX_PORTS (ports_of ?obs) \<and> mc_seen ?s2 = set (mc_ports ?s2)
        \<and> (mc_too_many ?s2 \<longleftrightarrow> length (ports_of ?obs) > MAX_PORTS)"
      using inv by (simp add: multicast_inv_def Let_def)
    then have step: "mc_observations (observe token port ?s2) = set (?obs @ [(token, port)])
        \<and> mc_responses (observe token port ?s2) = card (set (?obs @ [(token, port)]))
        \<and> mc_ports (observe token port ?s2) = take MAX_PORTS (ports_of (?obs @ [(token, port)]))
        \<and> mc_seen (observe token port ?s2) = set (mc_ports (observe token port ?s2))
        \<and> (mc_too_many (observe token port ?s2) \<longleftrightarrow> length (ports_of (?obs @ [(token, port)])) > MAX_PORTS)
        \<and> mc_tokens (observe token port ?s2) = mc_tokens ?s2 \<and> mc_events (observe token port ?s2) = mc_events ?s2
        \<and> mc_calls (observe token port ?s2) = mc_calls ?s2 \<and> mc_attempts (observe token port ?s2) = mc_attempts ?s2"
      by (intro observe_inv [where w = w and target = target and s = ?s2, OF refl refl]) auto
    have same: "observe token port ?s3 = (observe token port ?s2)\<lparr>mc_events := mc_events s @ [Took d source]\<rparr>"
      by (simp add: observe_def Let_def)
    have obs3: "observed ?pl target {} (mc_events s @ [Took d source]) = ?obs @ [(token, port)]"
      using obs1 seen by simp
    have "multicast_inv w target s'"
      using step inv got T unfolding s' same multicast_inv_def Let_def by (auto simp: obs3)
    with step out show ?thesis unfolding s' same by (simp add: grows_def)
  qed
qed


section \<open>The rounds\<close>

lemma multicast_inv_token:
  assumes "multicast_inv w target s"
  shows "multicast_inv w target (s\<lparr>mc_tokens := insert t (mc_tokens s), mc_events := mc_events s @ [Token t]\<rparr>)"
  using assms by (auto simp: multicast_inv_def Let_def observed_append)

lemma unused_token_calls: "unused_token draw used fuel n = Some (t, m) \<Longrightarrow> n \<le> m"
  by (induction fuel arbitrary: n) (auto split: if_splits dest: Suc_leD)

lemma send_query_inv:
  assumes run: "send_query w port fuel kind s = Some (out, s')" and inv: "multicast_inv w target s"
  shows "multicast_inv w target s' \<and> grows 1 0 s s'"
proof -
  obtain t n where t: "unused_token (mn_token w) (mc_tokens s) fuel (mc_calls s) = Some (t, n)"
    using run by (auto simp: send_query_def split: option.splits)
  let ?s1 = "s\<lparr>mc_calls := n, mc_tokens := insert t (mc_tokens s), mc_events := mc_events s @ [Token t]\<rparr>"
  have "s' = ?s1\<lparr>mc_calls := Suc n\<rparr> \<or> s' = ?s1\<lparr>mc_calls := Suc (Suc n)\<rparr>
      \<or> s' = ?s1\<lparr>mc_calls := Suc (Suc n), mc_attempts := Suc (mc_attempts s)\<rparr>"
    using run t by (auto simp: send_query_def mc_ask_def Let_def split: sum.splits option.splits)
  then show ?thesis
    using multicast_inv_token [OF inv] unused_token_calls [OF t]
    by (elim disjE) (simp_all add: grows_def)
qed

lemma send_queries_inv:
  "send_queries w port fuel kinds s = Some (out, s') \<Longrightarrow> multicast_inv w target s
     \<Longrightarrow> multicast_inv w target s' \<and> grows (length kinds) 0 s s'"
proof (induction kinds arbitrary: s)
  case (Cons kind kinds)
  obtain o1 s1 where one: "send_query w port fuel kind s = Some (o1, s1)"
    using Cons.prems(1) by (auto split: option.splits)
  note s1 = send_query_inv [OF one Cons.prems(2)]
  show ?case
  proof (cases o1)
    case (Inl e)
    with Cons.prems one s1 show ?thesis by (auto simp: grows_def)
  next
    case (Inr u)
    with Cons.prems(1) one have "send_queries w port fuel kinds s1 = Some (out, s')" by simp
    from Cons.IH [OF this] s1 grows_trans [of 1 0 s s1] show ?thesis by fastforce
  qed
qed simp

lemma collect_inv:
  "collect w target deadline fuel k s = Some (out, s') \<Longrightarrow> multicast_inv w target s \<Longrightarrow> k \<le> MAX_DATAGRAMS_PER_ROUND
     \<Longrightarrow> (out = Inr () \<longrightarrow> multicast_inv w target s') \<and> grows 0 (MAX_DATAGRAMS_PER_ROUND - k) s s'"
proof (induction fuel arbitrary: k s)
  case (Suc fuel)
  let ?now = "mn_clock w (mc_calls s)" and ?n = "mc_calls s"
  let ?s2 = "s\<lparr>mc_calls := Suc (Suc ?n)\<rparr>" and ?s3 = "s\<lparr>mc_calls := Suc (Suc (Suc ?n))\<rparr>"
  show ?case
  proof (cases "k \<ge> MAX_DATAGRAMS_PER_ROUND \<or> deadline - ?now \<le> 0 \<or> mn_select w (Suc ?n) (deadline - ?now) \<noteq> Some True")
    case True
    then have "\<exists>m. s' = s\<lparr>mc_calls := ?n + m\<rparr>" using Suc.prems(1)
      by (auto simp: mc_ask_def split: if_splits intro: exI [of _ 0] exI [of _ 1] exI [of _ 2])
    with Suc.prems(2) show ?thesis by (auto simp: grows_def)
  next
    case False
    note on = this
    show ?thesis
    proof (cases "mn_recv w (Suc (Suc ?n))")
      case None
      with on Suc.prems(1) have "collect w target deadline fuel k ?s3 = Some (out, s')" by (simp add: mc_ask_def)
      from Suc.IH [OF this _ Suc.prems(3)] Suc.prems(2) show ?thesis by (auto simp: grows_def)
    next
      case (Some ds)
      obtain d source where ds: "ds = (d, source)" by fastforce
      obtain o1 s1 where take: "take_response w target d source ?s3 = (o1, s1)" by fastforce
      have inv3: "multicast_inv w target ?s3" using Suc.prems(2) by simp
      note s1 = take_response_inv [OF take inv3 Some [unfolded ds]]
      have g1: "grows 0 1 s s1" using s1 by (auto simp: grows_def)
      show ?thesis
      proof (cases o1)
        case (Inl e)
        with on Some ds take Suc.prems(1) have "out = Inl e" "s' = s1" by (auto simp: mc_ask_def)
        with g1 on show ?thesis by (auto simp: grows_def)
      next
        case (Inr u)
        with on Some ds take Suc.prems(1) have "collect w target deadline fuel (k + 1) s1 = Some (out, s')"
          by (simp add: mc_ask_def)
        from Suc.IH [OF this] s1 Inr on
        have "(out = Inr () \<longrightarrow> multicast_inv w target s') \<and> grows 0 (MAX_DATAGRAMS_PER_ROUND - (k + 1)) s1 s'" by auto
        with g1 on show ?thesis by (auto simp: grows_def)
      qed
    qed
  qed
qed simp

lemma multicast_rounds_inv:
  "multicast_rounds w target port deadline nominal fuel k left s = Some (out, s') \<Longrightarrow> multicast_inv w target s
     \<Longrightarrow> (out = Inr () \<longrightarrow> multicast_inv w target s') \<and> grows (3 * left) (MAX_DATAGRAMS_PER_ROUND * left) s s'"
proof (induction left arbitrary: k s)
  case (Suc left)
  let ?n = "mc_calls s"
  let ?s2 = "s\<lparr>mc_calls := Suc (Suc ?n)\<rparr>"
  let ?window = "(deadline - mn_clock w (Suc ?n)) / real (Suc left)"
  show ?case
  proof (cases "mn_clock w ?n \<ge> deadline \<or> k > 0 \<and> ?window < nominal * MIN_WINDOW_SHARE")
    case True
    then have "\<exists>m. s' = s\<lparr>mc_calls := ?n + m\<rparr>" using Suc.prems(1)
      by (auto simp: mc_ask_def Let_def split: if_splits intro: exI [of _ 1] exI [of _ 2])
    with Suc.prems(2) show ?thesis by (auto simp: grows_def)
  next
    case False
    then have run: "(case send_queries w port fuel QUERIES ?s2 of
          Some (Inr _, s) \<Rightarrow>
            (case collect w target (mn_clock w (Suc ?n) + ?window) fuel 0 s of
               Some (Inr _, s) \<Rightarrow> multicast_rounds w target port deadline nominal fuel (k + 1) left s
             | out \<Rightarrow> out)
        | out \<Rightarrow> out) = Some (out, s')"
      using Suc.prems(1) by (auto simp: mc_ask_def Let_def cong: option.case_cong sum.case_cong prod.case_cong)
    then obtain o1 s1 where send: "send_queries w port fuel QUERIES ?s2 = Some (o1, s1)"
      by (auto split: option.splits)
    have "multicast_inv w target s1 \<and> grows (length QUERIES) 0 ?s2 s1"
      by (rule send_queries_inv [OF send]) (use Suc.prems(2) in simp)
    then have s1: "multicast_inv w target s1" "grows 3 0 s s1" by (auto simp: QUERIES_def grows_def)
    show ?thesis
    proof (cases o1)
      case (Inl e)
      with run send have "s' = s1" "out = Inl e" by auto
      with s1 show ?thesis by (auto simp: grows_def)
    next
      case (Inr u)
      with run send obtain o2 s2 where
          take: "collect w target (mn_clock w (Suc ?n) + ?window) fuel 0 s1 = Some (o2, s2)"
        by (auto split: option.splits)
      from collect_inv [OF take s1(1)]
      have s2: "o2 = Inr () \<longrightarrow> multicast_inv w target s2" "grows 0 MAX_DATAGRAMS_PER_ROUND s1 s2" by simp_all
      have g2: "grows 3 MAX_DATAGRAMS_PER_ROUND s s2" using grows_trans [OF s1(2) s2(2)] by simp
      show ?thesis
      proof (cases o2)
        case (Inl e)
        with run send Inr take have "s' = s2" "out = Inl e" by auto
        with g2 show ?thesis by (auto simp: grows_def)
      next
        case inr2: (Inr v)
        with run send Inr take have "multicast_rounds w target port deadline nominal fuel (k + 1) left s2 = Some (out, s')"
          by simp
        from Suc.IH [OF this] s2(1) inr2 g2 show ?thesis by (auto simp: grows_def)
      qed
    qed
  qed
qed simp


section \<open>What a discovery reports\<close>

lemma observed_port:
  "(token, port) \<in> set (observed pl target T es) \<Longrightarrow> 1 \<le> port \<and> port \<le> 65535"
  by (induction pl target T es rule: observed.induct)
     (auto simp: observation_def target_port_def
        split: option.splits if_splits sum.splits pyval.splits list.splits)

definition ports_report :: "multicast_net \<Rightarrow> bytes \<Rightarrow> multicast_event list \<Rightarrow> responder_ports \<Rightarrow> bool" where
  "ports_report w target events r \<longleftrightarrow>
     (\<forall>d source. Took d source \<in> set events \<longrightarrow> (\<exists>n. mn_recv w n = Some (d, source)))
     \<and> took events \<le> 4 * MAX_DATAGRAMS_PER_ROUND \<and> rp_attempts r \<le> 12
     \<and> (let obs = observed (mn_platform w) target {} events; ps = ports_of obs in
          rp_responses r = card (set obs)
          \<and> rp_ports r = (if length ps \<le> MAX_PORTS then ps else [])
          \<and> rp_error r =
              (if length ps > MAX_PORTS then Some AMBIGUOUS_RESPONSE
               else if ps \<noteq> [] then None
               else if rp_attempts r = 0 then Some INTERFACE_UNAVAILABLE else Some NO_RESPONSE))"

lemma search_ports_report:
  assumes "search_ports w target port seconds rounds fuel = Some (Inr u, m)" and "rounds \<le> 4"
  shows "ports_report w target (mc_events m) (multicast_verdict m)"
proof -
  have start: "multicast_inv w target multicast_start"
    by (simp add: multicast_inv_def multicast_start_def ports_of_def Let_def)
  note inv = multicast_rounds_inv [OF assms(1) [unfolded search_ports_def] start]
  then have i: "multicast_inv w target m" and g: "grows (3 * rounds) (MAX_DATAGRAMS_PER_ROUND * rounds) multicast_start m"
    by simp_all
  let ?obs = "observed (mn_platform w) target {} (mc_events m)"
  have "mc_attempts m \<le> 12"
    using g assms(2) by (simp add: grows_def multicast_start_def)
  moreover have "took (mc_events m) \<le> 4 * MAX_DATAGRAMS_PER_ROUND"
  proof (rule order_trans)
    show "took (mc_events m) \<le> MAX_DATAGRAMS_PER_ROUND * rounds"
      using g by (simp add: grows_def multicast_start_def)
    show "MAX_DATAGRAMS_PER_ROUND * rounds \<le> 4 * MAX_DATAGRAMS_PER_ROUND"
      using mult_le_mono2 [OF assms(2), of MAX_DATAGRAMS_PER_ROUND] by (simp add: mult.commute)
  qed
  moreover have "mc_responses m = card (set ?obs)" "mc_ports m = take MAX_PORTS (ports_of ?obs)"
    "mc_too_many m \<longleftrightarrow> length (ports_of ?obs) > MAX_PORTS"
    "\<forall>d source. Took d source \<in> set (mc_events m) \<longrightarrow> (\<exists>n. mn_recv w n = Some (d, source))"
    using i by (simp_all add: multicast_inv_def Let_def)
  ultimately show ?thesis
    by (auto simp: ports_report_def multicast_verdict_def Let_def not_less MAX_PORTS_def)
qed

lemma responder_ports_outcome:
  assumes run: "discover_ocf_responder_ports selector_ok ok w fuel target_address interface_address discovery_port
      timeout rounds s = Some (Inr r, s')" and fresh: "fresh_descriptors s"
  shows "os_open s' = os_open s \<and> fresh_descriptors s'
    \<and> (r = no_interface \<or> (\<exists>label target events. validate_address target_address = Inr (label, target)
         \<and> ports_report w target events r))"
proof -
  from run obtain label target interface packed port seconds k where
      args: "validate_address target_address = Inr (label, target)"
        "validate_multicast_options discovery_port timeout rounds = Inr (port, seconds, k)"
    and body: "(if \<not> selector_ok then Some (Inr no_interface, s)
       else (case try_candidate ok AF_INET (multicast_plan interface packed) s of
               (None, s) \<Rightarrow> Some (Inr no_interface, s)
             | (Some fd, s) \<Rightarrow>
                 map_option (\<lambda>(out, m). (andThen out (\<lambda>_. Inr (multicast_verdict m)), close_socket fd s))
                   (search_ports w target port seconds k fuel))) = Some (Inr r, s')"
    by (auto simp: discover_ocf_responder_ports_def result_simps split: sum.splits prod.splits)
  have k: "k \<le> 4" using args(2)
    by (auto simp: validate_multicast_options_def result_simps split: pyval.splits if_splits)
  show ?thesis
  proof (cases selector_ok)
    case True
    obtain c s1 where c: "try_candidate ok AF_INET (multicast_plan interface packed) s = (c, s1)" by fastforce
    note cand = try_candidate_open [OF c fresh]
    show ?thesis
    proof (cases c)
      case None
      with True body c cand show ?thesis by auto
    next
      case (Some fd)
      with True body c obtain u m where search: "search_ports w target port seconds k fuel = Some (Inr u, m)"
        and r: "r = multicast_verdict m" and s': "s' = close_socket fd s1"
        by (auto simp: result_simps)
      have "os_open s' = os_open s"
        using Some cand fresh by (auto simp: s' close_socket_def fresh_descriptors_def intro!: removeAll_id)
      moreover have "fresh_descriptors s'"
        using Some cand by (auto simp: s' close_socket_def fresh_descriptors_def)
      ultimately show ?thesis using args(1) search_ports_report [OF search k] r by blast
    qed
  qed (use body fresh in simp)
qed


section \<open>The responders\<close>

lemma try_candidate_next:
  assumes "try_candidate ok family calls s = (c, s')"
  shows "os_next s \<le> os_next s'"
proof -
  obtain b s1 where make: "sys_calls ok [Create family] s = (b, s1)" by fastforce
  obtain b2 s3 where run: "sys_calls ok calls (s1\<lparr>os_next := os_next s1 + 1, os_open := os_next s1 # os_open s1\<rparr>) = (b2, s3)"
    by fastforce
  from assms make run sys_calls_state [OF make] sys_calls_state [OF run] show ?thesis
    by (cases b; cases b2) (auto simp: try_candidate_def Let_def close_socket_def simp del: sys_calls.simps)
qed

lemma open_routes_next: "open_routes ok pl eps s = (out, s') \<Longrightarrow> os_next s \<le> os_next s'"
proof (induction eps arbitrary: s out s')
  case (Cons ep eps)
  show ?case
  proof (cases "source_host_key pl (ep_family ep) (ep_sockaddr ep)")
    case (Inr h)
    obtain a where a: "bind_address ep (PyInt 0) = Inr a"
      by (auto simp: bind_address_def validate_udp_port_def)
    obtain c s1 where c: "try_candidate ok (ep_family ep) [Bind a, Set_timeout (PyFloat 0), Register] s = (c, s1)" by fastforce
    obtain o2 s2 where rest: "open_routes ok pl eps s1 = (o2, s2)" by fastforce
    have "os_next s \<le> os_next s2"
      using try_candidate_next [OF c] Cons.IH [OF rest] by (rule order_trans)
    then show ?thesis
      using Cons Inr a c rest by (cases h; cases c; cases o2) auto
  qed (use Cons in auto)
qed simp

lemma close_routes_next: "os_next (close_routes routes s) = os_next s"
  by (induction routes arbitrary: s) (auto simp: close_routes_def close_socket_def)

lemma with_routes_fresh:
  assumes "with_routes ok pl resolved unreachable job s = Some (Inr out, s')" and "fresh_descriptors s"
  shows "fresh_descriptors s'"
proof -
  have "os_next s \<le> os_next s'"
    using assms(1) open_routes_next close_routes_next
    by (fastforce simp: with_routes_def split: sum.splits prod.splits if_splits)
  with assms(2) with_routes_outcome(1) [OF assms] show ?thesis by (fastforce simp: fresh_descriptors_def)
qed

text \<open>A successful read is a complete transfer from the host.\<close>

lemma read_resource_outcome:
  assumes run: "read_plaintext_ocf_resource ok gai w fuel host href query port timeout retries family s = Some (Inr a, s')"
    and fresh: "fresh_descriptors s"
  shows "os_open s' = os_open s \<and> fresh_descriptors s'
    \<and> (successful a \<longrightarrow>
         (\<exists>eps. resolve_udp_endpoints gai host port family = Inr eps
            \<and> (\<exists>ep \<in> set eps. \<exists>address code. content_from w ep address code (ra_payload a) \<and> drop_bit 5 code = 2)))"
proof -
  from run obtain seconds k path q where
      body: "with_routes ok (on_platform w) (resolve_udp_endpoints gai host port family) unreachable_resource
        (\<lambda>routes. map_option (\<lambda>(out, _). andThen out (\<lambda>t. Inr (resource_result t)))
           (fetch_resource w routes path q (on_clock w 0 + seconds) k fuel {} 1)) s = Some (Inr a, s')"
    by (auto simp: read_plaintext_ocf_resource_def split: sum.splits)
  note out = with_routes_outcome [OF body fresh]
  have "\<exists>eps. resolve_udp_endpoints gai host port family = Inr eps
      \<and> (\<exists>ep \<in> set eps. \<exists>address code. content_from w ep address code (ra_payload a) \<and> drop_bit 5 code = 2)"
    if good: "successful a"
  proof -
    have "a \<noteq> unreachable_resource" using good by (auto simp: successful_def unreachable_resource_def)
    with out(2) obtain eps routes where eps: "resolve_udp_endpoints gai host port family = Inr eps"
      and job: "map_option (\<lambda>(out, _). andThen out (\<lambda>t. Inr (resource_result t)))
           (fetch_resource w routes path q (on_clock w 0 + seconds) k fuel {} 1) = Some (Inr a)"
      and routes: "\<forall>r \<in> set routes. r_endpoint r \<in> set eps
        \<and> source_host_key (on_platform w) (ep_family (r_endpoint r)) (ep_sockaddr (r_endpoint r)) = Inr (Some (r_host r))"
      by blast
    from job obtain t es m n where
        f: "fetch_resource w routes path q (on_clock w 0 + seconds) k fuel {} 1 = Some (Inr t, es, m, n)"
      and a: "a = resource_result t" by (auto simp: result_simps)
    from good obtain code where c: "tr_status t = TRANSFER_COMPLETE" "tr_code t = Some code" "drop_bit 5 code = 2"
      by (auto simp: a successful_def resource_result_def split: transfer_status.splits option.splits)
    from complete_content [OF f c(1,2) routes] eps c(3) show ?thesis by (auto simp: a resource_result_def)
  qed
  with out(1) with_routes_fresh [OF body fresh] show ?thesis by blast
qed

definition ports_from ::
  "addrinfo list result \<Rightarrow> ocf_net \<Rightarrow> pyval \<Rightarrow> nat \<Rightarrow> nat list \<Rightarrow> bool" where
  "ports_from gai w host port ports \<longleftrightarrow>
     distinct ports \<and> length ports \<le> MAX_PORTS \<and> (\<forall>p \<in> set ports. 1 \<le> p \<and> p \<le> 65535)
     \<and> (ports \<noteq> [] \<longrightarrow>
          (\<exists>eps. resolve_udp_endpoints gai host (PyInt (int port)) (PyInt AF_UNSPEC) = Inr eps
             \<and> (\<exists>ep \<in> set eps. \<exists>address body. content_from w ep address 0x45 body
                  \<and> secure_ports_from_payload (on_platform w) body (ep_family ep) address = Inr (PORTS_FOUND ports))))"

definition identity_from :: "addrinfo list result \<Rightarrow> ocf_net \<Rightarrow> pyval \<Rightarrow> nat \<Rightarrow> pystr \<Rightarrow> bool" where
  "identity_from gai w host port di \<longleftrightarrow>
     (\<exists>eps. resolve_udp_endpoints gai host (PyInt (int port)) (PyInt AF_UNSPEC) = Inr eps
        \<and> (\<exists>ep \<in> set eps. \<exists>address code body. content_from w ep address code body \<and> drop_bit 5 code = 2
             \<and> fst (snd (identity_from_oic_d (on_platform w) body)) = Some di))"

definition responder_ok :: "surroundings_of_read \<Rightarrow> surroundings_of_read \<Rightarrow> pyval \<Rightarrow> nat \<Rightarrow> responder \<Rightarrow> bool" where
  "responder_ok first second host port r \<longleftrightarrow>
     rs_port r = port \<and> ports_from (fst second) (snd second) host port (rs_secure r)
     \<and> (\<forall>di. rs_di r = Some di \<longrightarrow> rs_error r = None \<and> identity_from (fst first) (snd first) host port di)"

lemma discovered_ports_from:
  assumes run: "discover_ocf_secure_ports ok gai w fuel host (PyInt (int port)) timeout retries (PyInt AF_UNSPEC) order s
      = Some (Inr d, s')" and fresh: "fresh_descriptors s"
  shows "os_open s' = os_open s \<and> fresh_descriptors s' \<and> ports_from gai w host port (pd_ports d)"
proof -
  from run obtain seconds k q1 q2 where
    body: "with_routes ok (on_platform w) (resolve_udp_endpoints gai host (PyInt (int port)) (PyInt AF_UNSPEC))
        (port_result [] 0 False (Some ENDPOINT_UNAVAILABLE)) (lookups w fuel seconds k q1 q2) s = Some (Inr d, s')"
    by (auto simp: discover_ocf_secure_ports_def result_simps split: sum.splits)
  note out = with_routes_outcome [OF body fresh]
  have "ports_from gai w host port (pd_ports d)"
  proof (cases "pd_ports d = []")
    case False
    then have "d \<noteq> port_result [] 0 False (Some ENDPOINT_UNAVAILABLE)" by (auto simp: port_result_def)
    with out(2) obtain eps where eps: "resolve_udp_endpoints gai host (PyInt (int port)) (PyInt AF_UNSPEC) = Inr eps"
      and ok: "port_answer_ok w eps d" using lookups_ok by blast
    with False ports_found_valid show ?thesis unfolding ports_from_def port_answer_ok_def by blast
  qed (simp add: ports_from_def)
  with out(1) with_routes_fresh [OF body fresh] show ?thesis by blast
qed

lemma read_responder_ok:
  assumes run: "read_ocf_responder ok first second fuel host (PyInt (int port)) timeout retries s = Some (Inr r, s')"
    and fresh: "fresh_descriptors s"
  shows "os_open s' = os_open s \<and> fresh_descriptors s' \<and> responder_ok first second host port r"
proof -
  have valid: "1 \<le> port \<and> port \<le> 65535" using run by (auto simp: read_ocf_responder_def split: if_splits)
  with run obtain a s1 where read: "read_plaintext_ocf_resource ok (fst first) (snd first) fuel host (PyStr (str_of ''/oic/d''))
        (PyTuple []) (PyInt (int port)) timeout retries (PyInt AF_UNSPEC) s = Some (Inr a, s1)"
    by (auto simp: read_ocf_responder_def split: if_splits option.splits sum.splits prod.splits)
  with run valid obtain d where find: "discover_ocf_secure_ports ok (fst second) (snd second) fuel host (PyInt (int port))
        timeout retries (PyInt AF_UNSPEC) (PyStr (str_of ''doxm-first'')) s1 = Some (Inr d, s')"
    and r: "r = responder_of port (on_platform (snd first)) a (pd_ports d)"
    by (auto simp: read_ocf_responder_def result_simps)
  note one = read_resource_outcome [OF read fresh]
  then have fresh1: "fresh_descriptors s1" by blast
  note two = discovered_ports_from [OF find fresh1]
  have "rs_error r = None \<and> identity_from (fst first) (snd first) host port di" if di: "rs_di r = Some di" for di
  proof -
    have good: "successful a" using di by (auto simp: r responder_of_def split: if_splits prod.splits)
    with di have "fst (snd (identity_from_oic_d (on_platform (snd first)) (ra_payload a))) = Some di"
      by (auto simp: r responder_of_def split: prod.splits)
    with good one have "identity_from (fst first) (snd first) host port di"
      unfolding identity_from_def by blast
    with good show ?thesis by (simp add: r responder_of_def split: prod.splits)
  qed
  moreover have "rs_port r = port" "rs_secure r = pd_ports d" by (auto simp: r responder_of_def split: prod.splits)
  ultimately show ?thesis using one two unfolding responder_ok_def by simp
qed

lemma read_responders_ok:
  "read_responders ok env fuel host timeout retries j ports s = Some (Inr rs, s') \<Longrightarrow> fresh_descriptors s
     \<Longrightarrow> os_open s' = os_open s \<and> map rs_port rs = ports
       \<and> (\<forall>i < length rs. responder_ok (env (j + 2 * i)) (env (j + 2 * i + 1)) host (ports ! i) (rs ! i))"
proof (induction ports arbitrary: j s rs)
  case (Cons port ports)
  obtain r s1 where one: "read_ocf_responder ok (env j) (env (j + 1)) fuel host (PyInt (int port)) timeout retries s = Some (Inr r, s1)"
    using Cons.prems(1) by (auto split: option.splits sum.splits prod.splits)
  with Cons.prems(1) obtain rs1 where rest: "read_responders ok env fuel host timeout retries (j + 2) ports s1 = Some (Inr rs1, s')"
    and rs: "rs = r # rs1" by (auto simp: result_simps)
  note r = read_responder_ok [OF one Cons.prems(2)]
  then have "fresh_descriptors s1" by blast
  note ih = Cons.IH [OF rest this]
  have "responder_ok (env (j + 2 * i)) (env (j + 2 * i + 1)) host ((port # ports) ! i) (rs ! i)" if "i < length rs" for i
  proof (cases i)
    case 0
    with r show ?thesis by (simp add: rs)
  next
    case (Suc k)
    with that have "k < length rs1" by (simp add: rs)
    with ih have "responder_ok (env (j + 2 + 2 * k)) (env (j + 2 + 2 * k + 1)) host (ports ! k) (rs1 ! k)" by blast
    then show ?thesis using Suc by (simp add: rs)
  qed
  moreover have "rs_port r = port" using r by (simp add: responder_ok_def)
  ultimately show ?case using r ih by (simp add: rs)
qed simp


section \<open>Properties\<close>


definition demo_multicast :: multicast_net where
  "demo_multicast =
     \<lparr>mn_platform = demo_platform\<lparr>pl_pton := \<lambda>f s. Inr [10, 0, 0, 7]\<rparr>, mn_clock = (\<lambda>n. real n / 20),
      mn_token = (\<lambda>n. [mk_byte n, 2, 3, 4, 5, 6, 7, 8]), mn_bits = (\<lambda>n. 7), mn_sendto = (\<lambda>n d a. Some (length d)),
      mn_select = (\<lambda>n t. Some (n < 16)),
      mn_recv = (\<lambda>n. Some ([0x58, 0x45, 0, 9, 3, 2, 3, 4, 5, 6, 7, 8, 0xFF, 1],
         PyTuple [PyStr (str_of ''10.0.0.7''), PyInt (if n < 15 then 40001 else 40002)]))\<rparr>"

abbreviation (input) "demo_address \<equiv> PyStr (str_of ''10.0.0.7'')"



definition demo_env :: "nat \<Rightarrow> surroundings_of_read" where
  "demo_env j = (demo_addrinfo, demo_net)"


end
