(* ===== verification/Dtls_Probe.thy ===== *)
theory Dtls_Probe
  imports Dtls_Handshake State_Cache
begin

text \<open>
  \<open>protocol/dtls_probe.py\<close>, the stateless probe: what a datagram proves about a port, the loop that sends
  one frozen ClientHello flight and listens, and the selection among several ports. OpenSSL's first flight
  is a parameter; a socket is the host-filtered one of \<open>Udp_Endpoint\<close>, whose call counter also numbers the
  clock reads and sends of the probe.
\<close>

section \<open>What a datagram proves\<close>

datatype first_flight = FF_HELLO_VERIFY_REQUEST | FF_SERVER_HELLO | FF_ALERT

type_synonym alert = "nat \<times> pystr"

definition DTLS_VERSIONS :: "bytes set" where
  "DTLS_VERSIONS = {[0xFE, 0xFF], [0xFE, 0xFD]}"

definition ALERT_NAMES :: "(nat \<times> string) list" where
  "ALERT_NAMES =
    [(0, ''close_notify''), (10, ''unexpected_message''), (20, ''bad_record_mac''), (40, ''handshake_failure''),
     (42, ''bad_certificate''), (43, ''unsupported_certificate''), (44, ''certificate_revoked''),
     (45, ''certificate_expired''), (46, ''certificate_unknown''), (47, ''illegal_parameter''),
     (48, ''unknown_ca''), (49, ''access_denied''), (50, ''decode_error''), (51, ''decrypt_error''),
     (70, ''protocol_version''), (71, ''insufficient_security''), (80, ''internal_error''),
     (86, ''inappropriate_fallback''), (90, ''user_canceled''), (112, ''unrecognized_name''),
     (115, ''unknown_psk_identity''), (116, ''certificate_required'')]"

text \<open>\<open>str(n)\<close> of a byte.\<close>

definition str_of_byte :: "nat \<Rightarrow> pystr" where
  "str_of_byte n =
     (if n < 10 then [0x30 + n] else if n < 100 then [0x30 + n div 10, 0x30 + n mod 10]
      else [0x30 + n div 100, 0x30 + n div 10 mod 10, 0x30 + n mod 10])"

definition alert_name :: "nat \<Rightarrow> pystr" where
  "alert_name n = (case map_of ALERT_NAMES n of Some s \<Rightarrow> str_of s | None \<Rightarrow> str_of_byte n)"

definition complete_hello_verify :: "bytes \<Rightarrow> bool" where
  "complete_hello_verify body \<longleftrightarrow>
     length body \<ge> 3 \<and> take 2 body \<in> DTLS_VERSIONS \<and> length body = 3 + unat (body ! 2)"

definition complete_server_hello :: "bytes \<Rightarrow> bool" where
  "complete_server_hello body \<longleftrightarrow>
     \<not> (length body < 38 \<or> take 2 body \<notin> DTLS_VERSIONS)
     \<and> (let session_id_length = unat (body ! 34); fixed_end = 38 + session_id_length in
        session_id_length \<le> 32
        \<and> (length body = fixed_end
           \<or> length body \<ge> fixed_end + 2
             \<and> length body = fixed_end + 2 + be_nat (slice body fixed_end (fixed_end + 2))))"

text \<open>
  The message loop of one handshake record: \<open>Inl ()\<close> is the early return of a HelloVerifyRequest, \<open>Inr k\<close>
  the fallback kind at its end.
\<close>

function scan_messages :: "bytes \<Rightarrow> nat \<Rightarrow> first_flight option \<Rightarrow> unit + first_flight option" where
  "scan_messages fragment offset fallback =
     (if offset + 12 \<le> length fragment then
        let header = slice fragment offset (offset + 12);
            message_length = be_nat (slice header 1 4);
            fragment_offset = be_nat (slice header 6 9);
            fragment_length = be_nat (slice header 9 12);
            end_off = offset + 12 + fragment_length in
        if end_off > length fragment then Inr fallback
        else if fragment_offset = 0 \<and> fragment_length = message_length then
          let body = slice fragment (offset + 12) end_off in
          if unat (header ! 0) = 3 \<and> complete_hello_verify body then Inl ()
          else scan_messages fragment end_off
                 (if unat (header ! 0) = 2 \<and> complete_server_hello body \<and> fallback = None
                  then Some FF_SERVER_HELLO else fallback)
        else scan_messages fragment end_off fallback
      else Inr fallback)"
  by pat_completeness auto
termination
  by (relation "measure (\<lambda>(fragment, offset, fallback). length fragment - offset)") auto

declare scan_messages.simps [simp del]

fun scan_records :: "bytes list \<Rightarrow> first_flight option \<Rightarrow> alert option \<Rightarrow> first_flight option \<times> alert option" where
  "scan_records [] kind alert = (kind, alert)"
| "scan_records (record # records) kind alert =
     (if length record < 13 \<or> slice record 1 3 \<notin> DTLS_VERSIONS then scan_records records kind alert
      else if slice record 3 5 \<noteq> [0, 0] then scan_records records kind alert
      else
        let fragment = drop 13 record in
        if unat (record ! 0) = 22 then
          (case scan_messages fragment 0 kind of
             Inl _ \<Rightarrow> (Some FF_HELLO_VERIFY_REQUEST, None)
           | Inr kind \<Rightarrow> scan_records records kind alert)
        else if unat (record ! 0) = 21 \<and> length fragment = 2 then
          let level = unat (fragment ! 0); alert = Some (level, alert_name (unat (fragment ! 1))) in
          if level = 2 then (Some FF_ALERT, alert) else scan_records records (Some FF_ALERT) alert
        else scan_records records kind alert)"

definition parse_liveness_response :: "bytes \<Rightarrow> first_flight option \<times> alert option" where
  "parse_liveness_response datagram =
     (let records = split_dtls datagram in
      if records = [] \<or> sum_list (map length records) \<noteq> length datagram then (None, None)
      else scan_records records None None)"

definition classify_liveness_response :: "bytes \<Rightarrow> first_flight option" where
  "classify_liveness_response datagram = fst (parse_liveness_response datagram)"

section \<open>Options and the frozen flight\<close>

definition validate_liveness_options :: "pyval \<Rightarrow> pyval \<Rightarrow> pyval \<Rightarrow> pyval \<Rightarrow> (int \<times> nat \<times> real) result" where
  "validate_liveness_options port retries timeout mtu =
     andThen (case port of
                PyInt p \<Rightarrow> if \<not> (1 \<le> p \<and> p \<le> 65535) then Inl Py_ValueError else Inr p
              | _ \<Rightarrow> Inl Py_TypeError) (\<lambda>port.
     andThen (case retries of
                PyInt r \<Rightarrow> if \<not> (0 \<le> r \<and> r \<le> 4) then Inl Py_ValueError else Inr (nat r)
              | _ \<Rightarrow> Inl Py_TypeError) (\<lambda>retries.
     andThen (float_of timeout) (\<lambda>timeout.
     andThen (raise_if (\<not> (0 < timeout \<and> timeout \<le> 30)) Py_ValueError) (\<lambda>_.
     andThen (validate_dtls_mtu mtu) (\<lambda>_.
       Inr (port, retries, timeout))))))"

text \<open>
  \<open>_client_hello_flight\<close>: \<open>outputs\<close> is what the successive \<open>bio_read\<close> calls return until one raises
  \<open>WantReadError\<close>, or an exception of the context or connection.
\<close>

definition client_hello_flight :: "bytes list result \<Rightarrow> bytes list result" where
  "client_hello_flight outputs =
     andThen outputs (\<lambda>outputs.
       let records = concat (map split_dtls (takeWhile (\<lambda>output. output \<noteq> []) outputs)) in
       if records = [] then Inl ProbeError else Inr records)"

section \<open>One port\<close>

datatype probe_error = NO_DTLS_RESPONSE | PROBE_ENDPOINT_UNAVAILABLE | CLIENT_HELLO_UNAVAILABLE | PROBE_WORKER_FAILED

record liveness =
  lv_port :: int
  lv_kind :: "first_flight option"
  lv_attempts :: nat
  lv_rtt :: "real option"
  lv_alert :: "alert option"
  lv_error :: "probe_error option"
  lv_responder :: "pyval option"

definition is_dtls_server :: "liveness \<Rightarrow> bool" where
  "is_dtls_server r \<longleftrightarrow> lv_kind r \<noteq> None"

definition no_proof :: "int \<Rightarrow> nat \<Rightarrow> probe_error \<Rightarrow> liveness" where
  "no_proof port attempts error =
     \<lparr>lv_port = port, lv_kind = None, lv_attempts = attempts, lv_rtt = None, lv_alert = None,
      lv_error = Some error, lv_responder = None\<rparr>"

text \<open>\<open>sock.send\<close> returns the number of bytes taken.\<close>

record probe_net =
  pn_udp :: udp
  pn_send :: "nat \<Rightarrow> bytes \<Rightarrow> nat result"

record probing =
  pb_sock :: filtered_socket
  pb_attempts :: nat
  pb_sent :: "bytes list"

definition probe_clock :: "probe_net \<Rightarrow> probing \<Rightarrow> real \<times> probing" where
  "probe_clock net s = (u_clock (pn_udp net) (fs_calls (pb_sock s)), s\<lparr>pb_sock := fs_tick (pb_sock s)\<rparr>)"

fun send_flight :: "probe_net \<Rightarrow> bytes list \<Rightarrow> probing \<Rightarrow> unit result \<times> probing" where
  "send_flight net [] s = (Inr (), s)"
| "send_flight net (record # records) s =
     (let sent = pn_send net (fs_calls (pb_sock s)) record;
          s = s\<lparr>pb_sock := fs_tick (pb_sock s), pb_sent := pb_sent s @ [record]\<rparr> in
      then_do (sent, s) (\<lambda>n s.
        if n \<noteq> length record then (Inl Py_OSError, s) else send_flight net records s))"

text \<open>The listening loop of one attempt: \<open>Inr None\<close> when its window is over.\<close>

fun await_proof ::
  "probe_net \<Rightarrow> nat \<Rightarrow> real \<Rightarrow> probing \<Rightarrow> ((first_flight \<times> alert option) option result \<times> probing) option" where
  "await_proof net 0 attempt_deadline s = None"
| "await_proof net (Suc fuel) attempt_deadline s =
     (case probe_clock net s of
        (now, s) \<Rightarrow>
          if attempt_deadline - now \<le> 0 then Some (Inr None, s)
          else
            (case host_recv (pn_udp net) fuel ((pb_sock s)\<lparr>fs_timeout := Some (attempt_deadline - now)\<rparr>) of
               None \<Rightarrow> None
             | Some (Inl e, sock) \<Rightarrow>
                 Some (if isinstance_of e Py_TimeoutError then Inr None else Inl e, s\<lparr>pb_sock := sock\<rparr>)
             | Some (Inr datagram, sock) \<Rightarrow>
                 (case parse_liveness_response datagram of
                    (None, _) \<Rightarrow> await_proof net fuel attempt_deadline (s\<lparr>pb_sock := sock\<rparr>)
                  | (Some kind, alert) \<Rightarrow> Some (Inr (Some (kind, alert)), s\<lparr>pb_sock := sock\<rparr>))))"

definition MIN_SLICE_SHARE :: real where "MIN_SLICE_SHARE = 1 / 2"

text \<open>The attempts from \<open>attempt\<close> on, with \<open>left\<close> of them to go.\<close>

fun probe_attempts ::
  "probe_net \<Rightarrow> nat \<Rightarrow> bytes list \<Rightarrow> real \<Rightarrow> real \<Rightarrow> nat \<Rightarrow> nat \<Rightarrow> probing
     \<Rightarrow> ((first_flight \<times> alert option) option result \<times> probing) option" where
  "probe_attempts net fuel flight overall_deadline nominal_budget attempt 0 s = Some (Inr None, s)"
| "probe_attempts net fuel flight overall_deadline nominal_budget attempt (Suc left) s =
     (case probe_clock net s of
        (now, s) \<Rightarrow>
          let window = (overall_deadline - now) / real (Suc left) in
          if attempt > 1 \<and> window < nominal_budget * MIN_SLICE_SHARE then Some (Inr None, s)
          else
            (case send_flight net flight (s\<lparr>pb_attempts := attempt\<rparr>) of
               (Inl e, s) \<Rightarrow> Some (Inl e, s)
             | (Inr _, s) \<Rightarrow>
                 (case await_proof net fuel (now + window) s of
                    Some (Inr None, s) \<Rightarrow>
                      probe_attempts net fuel flight overall_deadline nominal_budget (attempt + 1) left s
                  | out \<Rightarrow> out)))"

text \<open>The attempts over an opened socket, and the result made of them.\<close>

definition probe_over ::
  "probe_net \<Rightarrow> nat \<Rightarrow> int \<Rightarrow> bytes list \<Rightarrow> real \<Rightarrow> nat \<Rightarrow> filtered_socket \<Rightarrow> (liveness result \<times> probing) option" where
  "probe_over net fuel port flight timeout retries sock =
     (case probe_clock net \<lparr>pb_sock = sock, pb_attempts = 0, pb_sent = []\<rparr> of
        (started, s) \<Rightarrow>
          (case probe_attempts net fuel flight (started + timeout) (timeout / real (retries + 1)) 1 (retries + 1) s of
             None \<Rightarrow> None
           | Some (Inr (Some (kind, alert)), s) \<Rightarrow>
               (case probe_clock net s of
                  (now, s) \<Rightarrow>
                    Some (Inr \<lparr>lv_port = port, lv_kind = Some kind, lv_attempts = pb_attempts s,
                               lv_rtt = Some (now - started), lv_alert = alert, lv_error = None,
                               lv_responder = fs_reply_port (pb_sock s)\<rparr>, s))
           | Some (Inr None, s) \<Rightarrow> Some (Inr (no_proof port (pb_attempts s) NO_DTLS_RESPONSE), s)
           | Some (Inl e, s) \<Rightarrow>
               Some (if isinstance_of e Py_OSError
                     then Inr (no_proof port (pb_attempts s) PROBE_ENDPOINT_UNAVAILABLE) else Inl e, s)))"

text \<open>
  \<open>_probe_dtls_port_with_flight\<close>; the records given to the network are the last component. The address
  families and the address of a resolved endpoint are valid, so the filtered socket is always made.
\<close>

definition probe_with_flight ::
  "(nat \<Rightarrow> sys_call \<Rightarrow> bool) \<Rightarrow> addrinfo list result \<Rightarrow> probe_net \<Rightarrow> nat \<Rightarrow> pyval \<Rightarrow> int \<Rightarrow> bytes list \<Rightarrow> real \<Rightarrow> nat
     \<Rightarrow> pyval \<Rightarrow> os \<Rightarrow> (liveness result \<times> os \<times> bytes list) option" where
  "probe_with_flight ok gai net fuel host port flight timeout retries family s =
     (case open_host_filtered_udp_socket ok gai host (PyInt port) family PyNone
             (PyFloat (timeout / real (retries + 1))) s of
        (Inl e, s) \<Rightarrow>
          Some (if isinstance_of e Py_OSError then Inr (no_proof port 0 PROBE_ENDPOINT_UNAVAILABLE) else Inl e, s, [])
      | (Inr (fd, ep), s) \<Rightarrow>
          (case filtered_socket_new (pn_udp net) ep of
             Inl e \<Rightarrow> Some (Inl e, s, [])
           | Inr sock \<Rightarrow>
               map_option (\<lambda>(r, p). (r, close_socket fd s, pb_sent p))
                 (probe_over net fuel port flight timeout retries
                    (sock\<lparr>fs_timeout := Some (timeout / real (retries + 1))\<rparr>))))"

definition probe_dtls_port ::
  "(nat \<Rightarrow> sys_call \<Rightarrow> bool) \<Rightarrow> addrinfo list result \<Rightarrow> probe_net \<Rightarrow> nat \<Rightarrow> bytes list result
     \<Rightarrow> pyval \<Rightarrow> pyval \<Rightarrow> pyval \<Rightarrow> pyval \<Rightarrow> pyval \<Rightarrow> pyval \<Rightarrow> os \<Rightarrow> (liveness result \<times> os \<times> bytes list) option" where
  "probe_dtls_port ok gai net fuel outputs host port timeout retries mtu family s =
     (case andThen (validate_liveness_options port retries timeout mtu) (\<lambda>options.
           andThen (validate_family family) (\<lambda>_. Inr options)) of
        Inl e \<Rightarrow> Some (Inl e, s, [])
      | Inr (p, r, t) \<Rightarrow>
          (case client_hello_flight outputs of
             Inl e \<Rightarrow> Some (Inr (no_proof p 0 CLIENT_HELLO_UNAVAILABLE), s, [])
           | Inr flight \<Rightarrow> probe_with_flight ok gai net fuel host p flight t r family s))"

section \<open>Several ports\<close>

datatype probe_outcome = SELECTED | UNREACHABLE | AMBIGUOUS

record port_probe =
  pp_outcome :: probe_outcome
  pp_selected :: "pyval option"
  pp_results :: "liveness list"

definition distinct_values :: "pyval list \<Rightarrow> pyval list" where
  "distinct_values vs = map fst (fold (\<lambda>v d. dict_set v () d) vs [])"

definition live_ports :: "port_probe \<Rightarrow> int list" where
  "live_ports r = map lv_port (filter is_dtls_server (pp_results r))"

definition responder_ports_of :: "liveness list \<Rightarrow> pyval list" where
  "responder_ports_of rs =
     distinct_values (List.map_filter lv_responder (filter is_dtls_server rs))"

definition select_port :: "int option \<Rightarrow> liveness list \<Rightarrow> port_probe" where
  "select_port preferred results =
     (let found = responder_ports_of results;
          answer = (\<lambda>outcome port. \<lparr>pp_outcome = outcome, pp_selected = port, pp_results = results\<rparr>) in
      if found \<noteq> [] then
        (if preferred \<noteq> None \<and> canon (PyInt (the preferred)) \<in> canon ` set found
         then answer SELECTED (Some (PyInt (the preferred)))
         else if length found = 1 then answer SELECTED (Some (hd found))
         else answer AMBIGUOUS None)
      else answer UNREACHABLE None)"

text \<open>
  The workers of the thread pool share nothing but the table of open descriptors, and the results are
  collected by port, so the order in which they complete does not matter; they are run in port order,
  each against its own surroundings.
\<close>

type_synonym probe_env = "addrinfo list result \<times> probe_net"

fun run_workers ::
  "(nat \<Rightarrow> sys_call \<Rightarrow> bool) \<Rightarrow> (int \<Rightarrow> probe_env) \<Rightarrow> nat \<Rightarrow> pyval \<Rightarrow> bytes list \<Rightarrow> real \<Rightarrow> nat \<Rightarrow> pyval \<Rightarrow> int list \<Rightarrow> os
     \<Rightarrow> (liveness list \<times> os) option" where
  "run_workers ok env fuel host flight timeout retries family [] s = Some ([], s)"
| "run_workers ok env fuel host flight timeout retries family (port # ports) s =
     (case probe_with_flight ok (fst (env port)) (snd (env port)) fuel host port flight timeout retries family s of
        None \<Rightarrow> None
      | Some (r, s, sent) \<Rightarrow>
          map_option (\<lambda>(rs, s). ((case r of Inl _ \<Rightarrow> no_proof port 0 PROBE_WORKER_FAILED | Inr l \<Rightarrow> l) # rs, s))
            (run_workers ok env fuel host flight timeout retries family ports s))"

fun validate_ports :: "pyval list \<Rightarrow> pyval \<Rightarrow> pyval \<Rightarrow> pyval \<Rightarrow> int list result" where
  "validate_ports [] retries timeout mtu = Inr []"
| "validate_ports (port # ports) retries timeout mtu =
     andThen (validate_liveness_options port retries timeout mtu) (\<lambda>(p, _).
     andThen (validate_ports ports retries timeout mtu) (\<lambda>ps. Inr (p # ps)))"

text \<open>The arguments: the ports in order, the preferred one, retries and timeout; \<open>None\<close> when there is no port.\<close>

definition check_ports ::
  "pyval \<Rightarrow> pyval \<Rightarrow> pyval \<Rightarrow> pyval \<Rightarrow> pyval \<Rightarrow> pyval \<Rightarrow> (int list \<times> int option \<times> nat \<times> real) option result" where
  "check_ports ports preferred timeout retries mtu family =
     andThen (validate_family family) (\<lambda>_.
     andThen (case py_iter ports of None \<Rightarrow> Inl Py_TypeError | Some vs \<Rightarrow> Inr vs) (\<lambda>vs.
     andThen (raise_if (\<not> list_all hashable vs) Py_TypeError) (\<lambda>_.
       let ordered = distinct_values vs in
       if ordered = [] then Inr None
       else
         andThen (raise_if (length ordered > 32) Py_ValueError) (\<lambda>_.
         andThen (validate_ports ordered retries timeout mtu) (\<lambda>ps.
         andThen (validate_liveness_options (hd ordered) retries timeout mtu) (\<lambda>(_, r, t).
         andThen (if preferred = PyNone then Inr None
                  else andThen (validate_liveness_options preferred retries timeout mtu) (\<lambda>(p, _). Inr (Some p)))
           (\<lambda>pref. Inr (Some (ps, pref, r, t)))))))))"

definition probe_dtls_ports ::
  "(nat \<Rightarrow> sys_call \<Rightarrow> bool) \<Rightarrow> (int \<Rightarrow> probe_env) \<Rightarrow> nat \<Rightarrow> bytes list result
     \<Rightarrow> pyval \<Rightarrow> pyval \<Rightarrow> pyval \<Rightarrow> pyval \<Rightarrow> pyval \<Rightarrow> pyval \<Rightarrow> pyval \<Rightarrow> os \<Rightarrow> (port_probe result \<times> os) option" where
  "probe_dtls_ports ok env fuel outputs host ports preferred timeout retries mtu family s =
     (case check_ports ports preferred timeout retries mtu family of
        Inl e \<Rightarrow> Some (Inl e, s)
      | Inr None \<Rightarrow> Some (Inr \<lparr>pp_outcome = UNREACHABLE, pp_selected = None, pp_results = []\<rparr>, s)
      | Inr (Some (ps, pref, r, t)) \<Rightarrow>
          (case client_hello_flight outputs of
             Inl e \<Rightarrow>
               Some (Inr \<lparr>pp_outcome = UNREACHABLE, pp_selected = None,
                          pp_results = map (\<lambda>p. no_proof p 0 CLIENT_HELLO_UNAVAILABLE) ps\<rparr>, s)
           | Inr flight \<Rightarrow>
               map_option (\<lambda>(rs, s). (Inr (select_port pref rs), s))
                 (run_workers ok env fuel host flight t r family ps s)))"

end
