(* ===== verification/Probe_Soundness.thy ===== *)
theory Probe_Soundness
  imports Dtls_Probe
begin

text \<open>
  What the stateless probe of \<open>Dtls_Probe\<close> promises: which datagrams prove a server, what is sent and
  how often, where a proof comes from, that the probe returns, and which port is selected.
\<close>

section \<open>The datagrams that prove a server\<close>

definition epoch_zero :: "bytes \<Rightarrow> bool" where
  "epoch_zero r \<longleftrightarrow> 13 \<le> length r \<and> slice r 1 3 \<in> DTLS_VERSIONS \<and> slice r 3 5 = [0, 0]"

text \<open>The complete, unfragmented handshake messages of a record's payload.\<close>

function whole_messages :: "bytes \<Rightarrow> nat \<Rightarrow> (nat \<times> bytes) list" where
  "whole_messages fragment offset =
     (if offset + 12 \<le> length fragment then
        let message_length = be_nat (slice fragment (offset + 1) (offset + 4));
            fragment_offset = be_nat (slice fragment (offset + 6) (offset + 9));
            fragment_length = be_nat (slice fragment (offset + 9) (offset + 12));
            end_off = offset + 12 + fragment_length in
        if end_off > length fragment then []
        else
          (if fragment_offset = 0 \<and> fragment_length = message_length
           then [(unat (fragment ! offset), slice fragment (offset + 12) end_off)] else [])
          @ whole_messages fragment end_off
      else [])"
  by pat_completeness auto
termination
  by (relation "measure (\<lambda>(fragment, offset). length fragment - offset)") auto

declare whole_messages.simps [simp del]

definition says :: "nat \<Rightarrow> (bytes \<Rightarrow> bool) \<Rightarrow> bytes \<Rightarrow> bool" where
  "says t ok r \<longleftrightarrow>
     epoch_zero r \<and> unat (r ! 0) = 22 \<and> (\<exists>body. (t, body) \<in> set (whole_messages (drop 13 r) 0) \<and> ok body)"

abbreviation "hello_verify_record \<equiv> says 3 complete_hello_verify"
abbreviation "server_hello_record \<equiv> says 2 complete_server_hello"

definition alert_record :: "bytes \<Rightarrow> bool" where
  "alert_record r \<longleftrightarrow> epoch_zero r \<and> unat (r ! 0) = 21 \<and> length r = 15"

definition alert_of :: "bytes \<Rightarrow> alert" where
  "alert_of r = (unat (r ! 13), alert_name (unat (r ! 14)))"

definition fatal_record :: "bytes \<Rightarrow> bool" where
  "fatal_record r \<longleftrightarrow> alert_record r \<and> unat (r ! 13) = 2"

lemma scan_messages_step:
  defines "whole \<equiv> \<lambda>f i. be_nat (slice f (i + 6) (i + 9)) = 0
     \<and> be_nat (slice f (i + 9) (i + 12)) = be_nat (slice f (i + 1) (i + 4))"
  assumes "e = i + 12 + be_nat (slice f (i + 9) (i + 12))"
  shows "scan_messages f i k =
      (if i + 12 \<le> length f \<and> e \<le> length f then
         (if whole f i \<and> unat (f ! i) = 3 \<and> complete_hello_verify (slice f (i + 12) e) then Inl ()
          else scan_messages f e
                 (if whole f i \<and> unat (f ! i) = 2 \<and> complete_server_hello (slice f (i + 12) e) \<and> k = None
                  then Some FF_SERVER_HELLO else k))
       else Inr k)"
    and "whole_messages f i =
      (if i + 12 \<le> length f \<and> e \<le> length f
       then (if whole f i then [(unat (f ! i), slice f (i + 12) e)] else []) @ whole_messages f e else [])"
proof -
  have hdr: "slice (slice f i (i + 12)) a b = slice f (i + a) (i + b)" if "a \<le> b" "b \<le> 12" for a b
    using that by (simp add: slice_slice)
  have first: "slice f i (i + 12) ! 0 = f ! i" if "i + 12 \<le> length f"
    using that by (simp add: slice_def)
  show "scan_messages f i k =
      (if i + 12 \<le> length f \<and> e \<le> length f then
         (if whole f i \<and> unat (f ! i) = 3 \<and> complete_hello_verify (slice f (i + 12) e) then Inl ()
          else scan_messages f e
                 (if whole f i \<and> unat (f ! i) = 2 \<and> complete_server_hello (slice f (i + 12) e) \<and> k = None
                  then Some FF_SERVER_HELLO else k))
       else Inr k)"
    unfolding assms by (subst scan_messages.simps) (auto simp: hdr first Let_def)
  show "whole_messages f i =
      (if i + 12 \<le> length f \<and> e \<le> length f
       then (if whole f i then [(unat (f ! i), slice f (i + 12) e)] else []) @ whole_messages f e else [])"
    unfolding assms by (subst whole_messages.simps) (auto simp: Let_def)
qed

lemma fallback_merge:
  "(if w \<and> a3 \<and> c3 then Inl ()
    else if h3 then Inl ()
    else Inr (if (if w \<and> a2 \<and> c2 \<and> k = None then Some x else k) = None \<and> h2 then Some x
              else if w \<and> a2 \<and> c2 \<and> k = None then Some x else k))
   = (if w \<and> a3 \<and> c3 \<or> h3 then Inl () else Inr (if k = None \<and> (w \<and> a2 \<and> c2 \<or> h2) then Some x else k))"
  by auto

lemma scan_messages_whole:
  "scan_messages f i k =
     (if \<exists>body. (3, body) \<in> set (whole_messages f i) \<and> complete_hello_verify body then Inl ()
      else Inr (if k = None \<and> (\<exists>body. (2, body) \<in> set (whole_messages f i) \<and> complete_server_hello body)
                then Some FF_SERVER_HELLO else k))"
proof (induction "length f - i" arbitrary: i k rule: less_induct)
  case less
  define e where "e = i + 12 + be_nat (slice f (i + 9) (i + 12))"
  note step = scan_messages_step [OF e_def]
  show ?case
  proof (cases "i + 12 \<le> length f \<and> e \<le> length f")
    case True
    then have "length f - e < length f - i" by (auto simp: e_def)
    note IH = less [OF this]
    let ?whole = "be_nat (slice f (i + 6) (i + 9)) = 0
      \<and> be_nat (slice f (i + 9) (i + 12)) = be_nat (slice f (i + 1) (i + 4))"
    let ?here = "if ?whole then [(unat (f ! i), slice f (i + 12) e)] else []"
    have W: "whole_messages f i = ?here @ whole_messages f e" using step(2) True by simp
    have has: "(\<exists>body. (t, body) \<in> set (whole_messages f i) \<and> ok body) \<longleftrightarrow>
        (?whole \<and> unat (f ! i) = t \<and> ok (slice f (i + 12) e))
        \<or> (\<exists>body. (t, body) \<in> set (whole_messages f e) \<and> ok body)" for t ok
      unfolding W by auto
    show ?thesis
      unfolding step(1) [where k = k] IH has using True by (simp only: if_True simp_thms fallback_merge)
  next
    case False
    then show ?thesis unfolding step(1) [where k = k] step(2) by auto
  qed
qed

definition final_kind :: "first_flight option \<Rightarrow> bytes list \<Rightarrow> first_flight option" where
  "final_kind kind rs =
     (if \<exists>r \<in> set rs. alert_record r then Some FF_ALERT
      else if kind = None \<and> (\<exists>r \<in> set rs. server_hello_record r) then Some FF_SERVER_HELLO else kind)"

definition final_alert :: "alert option \<Rightarrow> bytes list \<Rightarrow> alert option" where
  "final_alert alert rs =
     (case filter alert_record rs of [] \<Rightarrow> alert | as \<Rightarrow> Some (alert_of (last as)))"

lemma scan_records_step:
  "scan_records (r # rs) kind alert =
     (if hello_verify_record r then (Some FF_HELLO_VERIFY_REQUEST, None)
      else if fatal_record r then (Some FF_ALERT, Some (alert_of r))
      else scan_records rs (final_kind kind [r]) (final_alert alert [r]))"
  (is "?lhs = ?rhs")
proof (cases "epoch_zero r")
  case True
  then have len: "13 \<le> length r" and "\<not> (length r < 13 \<or> slice r 1 3 \<notin> DTLS_VERSIONS)" "slice r 3 5 = [0, 0]"
    by (simp_all add: epoch_zero_def)
  with True show ?thesis
    by (auto simp: Let_def scan_messages_whole says_def fatal_record_def alert_record_def alert_of_def
        final_kind_def final_alert_def split: sum.splits)
next
  case False
  then show ?thesis
    by (auto simp: epoch_zero_def says_def fatal_record_def alert_record_def final_kind_def final_alert_def)
qed

lemma final_step:
  "final_kind (final_kind kind [r]) rs = final_kind kind (r # rs)"
  "final_alert (final_alert alert [r]) rs = final_alert alert (r # rs)"
  by (auto simp: final_kind_def final_alert_def split: list.splits)

lemma scan_records_exact:
  "scan_records rs kind alert =
     (case List.find (\<lambda>r. hello_verify_record r \<or> fatal_record r) rs of
        Some r \<Rightarrow> if hello_verify_record r then (Some FF_HELLO_VERIFY_REQUEST, None)
                  else (Some FF_ALERT, Some (alert_of r))
      | None \<Rightarrow> (final_kind kind rs, final_alert alert rs))"
proof (induction rs arbitrary: kind alert)
  case Nil
  then show ?case by (simp add: final_kind_def final_alert_def)
next
  case (Cons r rs)
  then show ?case by (simp add: scan_records_step final_step del: scan_records.simps split: option.split)
qed

lemma split_dtls_whole: "sum_list (map length (split_dtls d)) = length d \<longleftrightarrow> concat (split_dtls d) = d"
proof -
  obtain rest where "d = concat (split_dtls d) @ rest"
    using split_from_prefix [of 0 d] by (auto simp: split_dtls_def)
  then have "length d = sum_list (map length (split_dtls d)) + length rest"
    by (metis length_append length_concat)
  then show ?thesis
    using \<open>d = concat (split_dtls d) @ rest\<close> by (metis add_cancel_left_right append_Nil2 length_0_conv append_eq_append_conv)
qed

section \<open>What is sent, and where a proof comes from\<close>

lemma recv_loop_keeps:
  "recv_loop net fuel dl s = Some (r, s') \<Longrightarrow>
     fs_key s' = fs_key s \<and> fs_family s' = fs_family s \<and> fs_calls s \<le> fs_calls s'"
proof (induction fuel arbitrary: s)
  case (Suc fuel)
  let ?s2 = "s\<lparr>fs_calls := receive_index dl (fs_calls s) 0 + 1\<rparr>"
  have idx: "fs_calls s \<le> receive_index dl (fs_calls s) 0" by (cases dl) simp_all
  from Suc.prems have "fs_key s' = fs_key s \<and> fs_family s' = fs_family s \<and> fs_calls s \<le> fs_calls s'
      \<or> recv_loop net fuel dl ?s2 = Some (r, s')"
    unfolding recv_loop_simps Let_def using idx
    by (auto split: if_splits arrival.splits sum.splits)
  then show ?case using Suc.IH [of ?s2] idx by auto
qed simp

lemma host_recv_keeps:
  assumes "host_recv net fuel s = Some (r, s')"
  shows "fs_key s' = fs_key s \<and> fs_family s' = fs_family s \<and> fs_calls s \<le> fs_calls s'"
  using assms by (auto simp: host_recv_def fs_tick_def split: option.splits dest!: recv_loop_keeps)

text \<open>A datagram of the target host that proves a server, and its source port.\<close>

definition proof_received ::
  "udp \<Rightarrow> filtered_socket \<Rightarrow> first_flight \<Rightarrow> alert option \<Rightarrow> pyval option \<Rightarrow> bool" where
  "proof_received net sock kind alert responder \<longleftrightarrow>
     (\<exists>n d address. u_recv net n = Datagram d address \<and> parse_liveness_response d = (Some kind, alert)
        \<and> (fs_key sock = None \<or> host_key_of (u_pton net) (fs_family sock) address = Inr (fs_key sock))
        \<and> (length address > 1 \<longrightarrow> responder = Some (address ! 1)))"

lemma host_recv_from:
  assumes "host_recv net fuel s = Some (Inr d, s')"
  shows "\<exists>n address. u_recv net n = Datagram d address
     \<and> (fs_key s = None \<or> host_key_of (u_pton net) (fs_family s) address = Inr (fs_key s))
     \<and> (length address > 1 \<longrightarrow> fs_reply_port s' = Some (address ! 1))"
proof -
  have keep: "fs_key (fs_tick s) = fs_key s" "fs_family (fs_tick s) = fs_family s" by (simp_all add: fs_tick_def)
  from assms obtain dl t where "recv_loop net fuel dl t = Some (Inr d, s')"
    and "fs_key t = fs_key s" "fs_family t = fs_family s"
    by (auto simp: host_recv_def keep split: option.splits)
  note t = this
  from recv_loop_exact [OF t(1)] obtain k a where
    k: "u_recv net (receive_index dl (fs_calls t) k) = Datagram d a" "from_host net t (receive_index dl (fs_calls t) k)"
      "length a > 1 \<longrightarrow> fs_reply_port s' = Some (a ! 1)" by blast
  then have "fs_key s = None \<or> host_key_of (u_pton net) (fs_family s) a = Inr (fs_key s)"
    by (simp add: from_host_def t)
  with k(1,3) show ?thesis by blast
qed

lemma probe_clock_simps [simp]:
  "fst (probe_clock net s) = u_clock (pn_udp net) (fs_calls (pb_sock s))"
  "pb_attempts (snd (probe_clock net s)) = pb_attempts s" "pb_sent (snd (probe_clock net s)) = pb_sent s"
  "fs_key (pb_sock (snd (probe_clock net s))) = fs_key (pb_sock s)"
  "fs_family (pb_sock (snd (probe_clock net s))) = fs_family (pb_sock s)"
  "fs_reply_port (pb_sock (snd (probe_clock net s))) = fs_reply_port (pb_sock s)"
  "fs_calls (pb_sock (snd (probe_clock net s))) = fs_calls (pb_sock s) + 1"
  by (simp_all add: probe_clock_def fs_tick_def)

lemma send_flight_sent:
  assumes "send_flight net rs s = (r, s')"
  shows "pb_attempts s' = pb_attempts s \<and> fs_key (pb_sock s') = fs_key (pb_sock s)
     \<and> fs_family (pb_sock s') = fs_family (pb_sock s) \<and> fs_calls (pb_sock s) \<le> fs_calls (pb_sock s')"
    and "\<exists>j. pb_sent s' = pb_sent s @ take j rs"
    and "r = Inr () \<Longrightarrow> pb_sent s' = pb_sent s @ rs"
proof -
  have "(pb_attempts s' = pb_attempts s \<and> fs_key (pb_sock s') = fs_key (pb_sock s)
     \<and> fs_family (pb_sock s') = fs_family (pb_sock s) \<and> fs_calls (pb_sock s) \<le> fs_calls (pb_sock s'))
     \<and> (\<exists>j. pb_sent s' = pb_sent s @ take j rs) \<and> (r = Inr () \<longrightarrow> pb_sent s' = pb_sent s @ rs)"
    using assms
  proof (induction rs arbitrary: s)
    case (Cons x xs)
    let ?s = "s\<lparr>pb_sock := fs_tick (pb_sock s), pb_sent := pb_sent s @ [x]\<rparr>"
    from Cons.prems consider "s' = ?s" "r \<noteq> Inr ()" | "send_flight net xs ?s = (r, s')"
      by (cases "pn_send net (fs_calls (pb_sock s)) x") (auto simp: Let_def split: if_splits)
    then show ?case
    proof cases
      case 1
      then show ?thesis by (auto simp: fs_tick_def intro!: exI [of _ 1])
    next
      case 2
      from Cons.IH [OF 2] obtain j where "pb_sent s' = pb_sent s @ take (Suc j) (x # xs)" by auto
      with Cons.IH [OF 2] show ?thesis by (auto simp: fs_tick_def intro!: exI [of _ "Suc j"])
    qed
  qed simp
  then show "pb_attempts s' = pb_attempts s \<and> fs_key (pb_sock s') = fs_key (pb_sock s)
     \<and> fs_family (pb_sock s') = fs_family (pb_sock s) \<and> fs_calls (pb_sock s) \<le> fs_calls (pb_sock s')"
    "\<exists>j. pb_sent s' = pb_sent s @ take j rs" "r = Inr () \<Longrightarrow> pb_sent s' = pb_sent s @ rs"
    by blast+
qed

lemma await_proof_sound:
  assumes "await_proof net fuel dl s = Some (r, s')"
  shows "pb_attempts s' = pb_attempts s \<and> pb_sent s' = pb_sent s \<and> fs_key (pb_sock s') = fs_key (pb_sock s)
     \<and> fs_family (pb_sock s') = fs_family (pb_sock s) \<and> fs_calls (pb_sock s) \<le> fs_calls (pb_sock s')"
    and "r = Inr (Some (kind, alert)) \<Longrightarrow>
       proof_received (pn_udp net) (pb_sock s) kind alert (fs_reply_port (pb_sock s'))"
proof -
  have "(pb_attempts s' = pb_attempts s \<and> pb_sent s' = pb_sent s \<and> fs_key (pb_sock s') = fs_key (pb_sock s)
     \<and> fs_family (pb_sock s') = fs_family (pb_sock s) \<and> fs_calls (pb_sock s) \<le> fs_calls (pb_sock s'))
     \<and> (r = Inr (Some (kind, alert)) \<longrightarrow>
          proof_received (pn_udp net) (pb_sock s) kind alert (fs_reply_port (pb_sock s')))"
    using assms
  proof (induction fuel arbitrary: s)
    case (Suc fuel)
    obtain now s1 where clock: "probe_clock net s = (now, s1)" by fastforce
    note s1 = probe_clock_simps [of net s, unfolded clock fst_conv snd_conv]
    let ?sock = "(pb_sock s1)\<lparr>fs_timeout := Some (dl - now)\<rparr>"
    show ?case
    proof (cases "dl - now \<le> 0")
      case True
      with Suc.prems clock s1 show ?thesis by auto
    next
      case False
      with Suc.prems clock obtain o1 sock where recv: "host_recv (pn_udp net) fuel ?sock = Some (o1, sock)"
        by (auto split: option.splits)
      note keeps = host_recv_keeps [OF recv]
      show ?thesis
      proof (cases o1)
        case (Inl e)
        with Suc.prems clock False recv keeps s1 show ?thesis by (auto split: if_splits)
      next
        case (Inr d)
        note origin = host_recv_from [OF recv [unfolded Inr]]
        show ?thesis
        proof (cases "fst (parse_liveness_response d)")
          case None
          with Suc.prems clock False recv Inr
          have "await_proof net fuel dl (s1\<lparr>pb_sock := sock\<rparr>) = Some (r, s')" by (auto split: prod.splits)
          from Suc.IH [OF this] keeps show ?thesis by (auto simp: s1 proof_received_def)
        next
          case (Some k)
          with Suc.prems clock False recv Inr
          have end_state: "r = Inr (Some (k, snd (parse_liveness_response d)))" "s' = s1\<lparr>pb_sock := sock\<rparr>"
            by (auto split: prod.splits)
          from origin obtain n address where got: "u_recv (pn_udp net) n = Datagram d address"
            "fs_key (pb_sock s) = None \<or>
               host_key_of (u_pton (pn_udp net)) (fs_family (pb_sock s)) address = Inr (fs_key (pb_sock s))"
            "length address > 1 \<longrightarrow> fs_reply_port sock = Some (address ! 1)"
            by (auto simp: s1)
          have "parse_liveness_response d = (Some k, snd (parse_liveness_response d))" using Some by (cases "parse_liveness_response d") simp
          with got have "proof_received (pn_udp net) (pb_sock s) k (snd (parse_liveness_response d)) (fs_reply_port sock)"
            unfolding proof_received_def by blast
          with keeps end_state show ?thesis by (auto simp: s1)
        qed
      qed
    qed
  qed simp
  then show "pb_attempts s' = pb_attempts s \<and> pb_sent s' = pb_sent s \<and> fs_key (pb_sock s') = fs_key (pb_sock s)
     \<and> fs_family (pb_sock s') = fs_family (pb_sock s) \<and> fs_calls (pb_sock s) \<le> fs_calls (pb_sock s')"
    "r = Inr (Some (kind, alert)) \<Longrightarrow>
       proof_received (pn_udp net) (pb_sock s) kind alert (fs_reply_port (pb_sock s'))"
    by blast+
qed

text \<open>Whole repetitions of the flight, the last one cut short when a send failed.\<close>

definition flights_sent :: "bytes list \<Rightarrow> nat \<Rightarrow> bool \<Rightarrow> bytes list \<Rightarrow> bool" where
  "flights_sent flight attempts whole sent \<longleftrightarrow>
     (if whole then sent = concat (replicate attempts flight)
      else sent = [] \<or> (\<exists>j. sent = concat (replicate (attempts - 1) flight) @ take j flight))"

lemma concat_replicate_snoc: "concat (replicate n xs) @ xs = concat (replicate (Suc n) xs)"
  by (induction n) auto

lemma probe_attempts_sound:
  assumes "probe_attempts net fuel flight deadline nominal (Suc (pb_attempts s)) left s = Some (r, s')"
    and "pb_sent s = concat (replicate (pb_attempts s) flight)"
  shows "pb_attempts s' \<le> pb_attempts s + left
     \<and> flights_sent flight (pb_attempts s') (\<not> (\<exists>e. r = Inl e)) (pb_sent s')
     \<and> fs_key (pb_sock s') = fs_key (pb_sock s) \<and> fs_family (pb_sock s') = fs_family (pb_sock s)
     \<and> (\<forall>kind alert. r = Inr (Some (kind, alert)) \<longrightarrow>
          proof_received (pn_udp net) (pb_sock s) kind alert (fs_reply_port (pb_sock s')))"
  using assms
proof (induction left arbitrary: s)
  case 0
  then show ?case by (auto simp: flights_sent_def)
next
  case (Suc left)
  obtain now s1 where clock: "probe_clock net s = (now, s1)" by fastforce
  note s1 = probe_clock_simps [of net s, unfolded clock fst_conv snd_conv]
  define window where "window = (deadline - now) / real (Suc left)"
  show ?case
  proof (cases "Suc (pb_attempts s) > 1 \<and> window < nominal * MIN_SLICE_SHARE")
    case True
    with Suc.prems clock have "r = Inr None" "s' = s1" by (auto simp: Let_def window_def)
    with Suc.prems(2) show ?thesis by (simp add: s1 flights_sent_def)
  next
    case False
    obtain o1 s2 where sent: "send_flight net flight (s1\<lparr>pb_attempts := Suc (pb_attempts s)\<rparr>) = (o1, s2)" by fastforce
    note flight = send_flight_sent [OF sent]
    show ?thesis
    proof (cases o1)
      case (Inl e)
      with Suc.prems clock False sent have "r = Inl e" "s' = s2"
        by (auto simp: Let_def window_def not_less simp del: of_nat_Suc)
      moreover from flight(2) obtain j where "pb_sent s2 = pb_sent s @ take j flight" by (auto simp: s1)
      ultimately show ?thesis using flight(1) Suc.prems(2) by (auto simp: s1 flights_sent_def)
    next
      case (Inr u)
      then have all: "pb_sent s2 = concat (replicate (Suc (pb_attempts s)) flight)"
        using flight(3) Suc.prems(2) concat_replicate_snoc [of "pb_attempts s" flight] by (simp add: s1)
      from Suc.prems clock False sent Inr obtain o2 s3 where wait: "await_proof net fuel (now + window) s2 = Some (o2, s3)"
        by (auto simp: Let_def window_def split: option.splits)
      note await = await_proof_sound(1) [OF wait]
      have proved: "proof_received (pn_udp net) (pb_sock s) kind alert (fs_reply_port (pb_sock s3))"
        if "o2 = Inr (Some (kind, alert))" for kind alert
        using await_proof_sound(2) [OF wait that] flight(1) by (simp add: s1 proof_received_def)
      show ?thesis
      proof (cases "o2 = Inr None")
        case True
        have "probe_attempts net fuel flight deadline nominal (Suc (pb_attempts s3)) left s3 = Some (r, s')"
          using Suc.prems clock False sent Inr wait True flight(1) await
          by (auto simp: Let_def window_def s1 split: option.splits)
        from Suc.IH [OF this] all await flight(1) show ?thesis
          by (auto simp: s1 proof_received_def)
      next
        case False
        with Suc.prems clock \<open>\<not> (Suc (pb_attempts s) > 1 \<and> window < nominal * MIN_SLICE_SHARE)\<close> sent Inr wait
        have "r = o2" "s' = s3" by (auto simp: Let_def window_def split: sum.splits option.splits)
        with proved all await flight(1) show ?thesis
          by (auto simp: s1 flights_sent_def concat_replicate_snoc simp del: replicate_Suc intro!: exI [of _ "length flight"])
      qed
    qed
  qed
qed

section \<open>The probe returns\<close>

lemma recv_loop_mono:
  "recv_loop net fuel dl s = Some r \<Longrightarrow> fuel \<le> fuel' \<Longrightarrow> recv_loop net fuel' dl s = Some r"
proof (induction fuel arbitrary: s fuel')
  case (Suc fuel)
  then obtain f where f: "fuel' = Suc f" "fuel \<le> f" by (cases fuel') auto
  show ?case
    using Suc.prems(1) Suc.IH [OF _ f(2)] unfolding f(1) recv_loop_simps Let_def
    by (auto split: if_splits arrival.splits sum.splits)
qed simp

lemma host_recv_mono:
  "host_recv net fuel s = Some r \<Longrightarrow> fuel \<le> fuel' \<Longrightarrow> host_recv net fuel' s = Some r"
  unfolding host_recv_def by (cases "fs_timeout s") (auto intro: recv_loop_mono simp del: recv_loop.simps)

lemma await_proof_mono:
  "await_proof net fuel dl s = Some r \<Longrightarrow> fuel \<le> fuel' \<Longrightarrow> await_proof net fuel' dl s = Some r"
proof (induction fuel arbitrary: s fuel')
  case (Suc fuel)
  then obtain f where f: "fuel' = Suc f" "fuel \<le> f" by (cases fuel') auto
  obtain now s1 where clock: "probe_clock net s = (now, s1)" by fastforce
  let ?sock = "(pb_sock s1)\<lparr>fs_timeout := Some (dl - now)\<rparr>"
  show ?case
  proof (cases "host_recv (pn_udp net) fuel ?sock")
    case None
    with Suc.prems(1) f clock show ?thesis by (auto split: if_splits)
  next
    case (Some o1)
    with host_recv_mono [OF Some f(2)] Suc.prems(1) Suc.IH [OF _ f(2)] clock f(1) show ?thesis
      by (auto split: if_splits sum.splits prod.splits option.splits)
  qed
qed simp

lemma probe_attempts_mono:
  "probe_attempts net fuel flight deadline nominal attempt left s = Some r \<Longrightarrow> fuel \<le> fuel'
     \<Longrightarrow> probe_attempts net fuel' flight deadline nominal attempt left s = Some r"
proof (induction left arbitrary: attempt s)
  case (Suc left)
  obtain now s1 where clock: "probe_clock net s = (now, s1)" by fastforce
  obtain o1 s2 where sent: "send_flight net flight (s1\<lparr>pb_attempts := attempt\<rparr>) = (o1, s2)" by fastforce
  let ?wait = "\<lambda>fuel. await_proof net fuel (now + (deadline - now) / real (Suc left)) s2"
  show ?case
  proof (cases "?wait fuel")
    case None
    with Suc.prems clock sent show ?thesis
      by (auto simp: Let_def split: if_splits sum.splits option.splits simp del: of_nat_Suc)
  next
    case (Some o2)
    note Some' = await_proof_mono [OF Some Suc.prems(2)]
    obtain o3 s3 where o2: "o2 = (o3, s3)" by fastforce
    show ?thesis
      using Suc.prems(1) Suc.IH [OF _ Suc.prems(2), of "attempt + 1" s3]
      by (cases o3; cases "fst (the (projr o3))")
        (auto simp: Let_def clock sent Some Some' o2 simp del: of_nat_Suc split: if_splits sum.splits option.splits)
  qed
qed simp

text \<open>A clock that passes every deadline.\<close>

definition clock_advances :: "udp \<Rightarrow> bool" where
  "clock_advances net \<longleftrightarrow> (\<forall>t. \<exists>N. \<forall>n \<ge> N. t \<le> u_clock net n)"

lemma host_recv_returns:
  assumes "clock_advances net" and "fs_timeout s = Some t"
  shows "\<exists>F. host_recv net F s \<noteq> None"
proof -
  obtain N where N: "\<forall>n \<ge> N. u_clock net (fs_calls s) + t \<le> u_clock net n"
    using assms(1) unfolding clock_advances_def by blast
  from recv_loop_returns [OF N, of "fs_tick s" N] show ?thesis
    using assms(2) unfolding host_recv_def by (intro exI [of _ "Suc N"]) (simp del: recv_loop.simps)
qed

lemma await_proof_returns:
  assumes "clock_advances (pn_udp net)"
  shows "\<exists>F. await_proof net F dl s \<noteq> None"
proof -
  obtain N where N: "\<forall>n \<ge> N. dl \<le> u_clock (pn_udp net) n" using assms by (auto simp: clock_advances_def)
  show ?thesis
  proof (induction "N - fs_calls (pb_sock s)" arbitrary: s rule: less_induct)
    case less
    obtain now s1 where clock: "probe_clock net s = (now, s1)" by fastforce
    note s1 = probe_clock_simps [of net s, unfolded clock fst_conv snd_conv]
    show ?case
    proof (cases "dl - now \<le> 0")
      case True
      with clock show ?thesis by (intro exI [of _ 1]) simp
    next
      case False
      with N s1(1) have early: "fs_calls (pb_sock s) < N" by (meson diff_le_0_iff_le not_le)
      let ?sock = "(pb_sock s1)\<lparr>fs_timeout := Some (dl - now)\<rparr>"
      obtain F o1 sock where recv: "host_recv (pn_udp net) F ?sock = Some (o1, sock)"
        using host_recv_returns [OF assms, of ?sock] by auto
      let ?s2 = "s1\<lparr>pb_sock := sock\<rparr>"
      have "N - fs_calls (pb_sock ?s2) < N - fs_calls (pb_sock s)"
        using host_recv_keeps [OF recv] early s1(7) by (simp, linarith)
      from less [OF this] obtain F2 where F2: "await_proof net F2 dl ?s2 \<noteq> None" by blast
      then obtain o2 where o2: "await_proof net (max F F2) dl ?s2 = Some o2"
        using await_proof_mono [of net F2 dl ?s2 _ "max F F2"] by auto
      have "host_recv (pn_udp net) (max F F2) ?sock = Some (o1, sock)" using host_recv_mono [OF recv] by simp
      with clock False o2 have "await_proof net (Suc (max F F2)) dl s \<noteq> None"
        by (auto split: sum.splits prod.splits option.splits)
      then show ?thesis by blast
    qed
  qed
qed

lemma probe_attempts_returns:
  assumes "clock_advances (pn_udp net)"
  shows "\<exists>F. probe_attempts net F flight deadline nominal attempt left s \<noteq> None"
proof (induction left arbitrary: attempt s)
  case (Suc left)
  obtain now s1 where clock: "probe_clock net s = (now, s1)" by fastforce
  obtain o1 s2 where sent: "send_flight net flight (s1\<lparr>pb_attempts := attempt\<rparr>) = (o1, s2)" by fastforce
  obtain F o2 s3 where wait: "await_proof net F (now + (deadline - now) / real (Suc left)) s2 = Some (o2, s3)"
    using await_proof_returns [OF assms] by fastforce
  obtain F2 where "probe_attempts net F2 flight deadline nominal (attempt + 1) left s3 \<noteq> None" using Suc by blast
  then obtain o3 where "probe_attempts net (max F F2) flight deadline nominal (attempt + 1) left s3 = Some o3"
    using probe_attempts_mono [of net F2 flight deadline nominal "attempt + 1" left s3 _ "max F F2"] by auto
  moreover have "await_proof net (max F F2) (now + (deadline - now) / real (Suc left)) s2 = Some (o2, s3)"
    using await_proof_mono [OF wait] by simp
  ultimately have "probe_attempts net (max F F2) flight deadline nominal attempt (Suc left) s \<noteq> None"
    using clock sent
    by (auto simp: Let_def split: sum.splits option.splits simp del: of_nat_Suc)
  then show ?case by blast
qed simp

section \<open>One port\<close>

lemma filtered_socket_new_simps:
  "filtered_socket_new net ep = Inr sock \<Longrightarrow>
     fs_family sock = ep_family ep
     \<and> host_key_of (u_pton net) (ep_family ep) (case ep_sockaddr ep of PyTuple xs \<Rightarrow> xs | _ \<Rightarrow> []) = Inr (fs_key sock)"
  by (auto simp: filtered_socket_new_def result_simps)

text \<open>A resolved endpoint has an address, so its filtered socket is made.\<close>

lemma resolved_filtered_socket:
  assumes "resolve_udp_endpoints gai host port family = Inr eps" and "ep \<in> set eps"
  shows "\<exists>sock. filtered_socket_new net ep = Inr sock"
proof -
  from assms(1) obtain infos where infos: "collect_endpoints infos {} = Inr eps"
    by (auto simp: resolve_udp_endpoints_def result_simps split: sum.splits if_splits)
  have "endpoint_key ep \<in> set (map endpoint_key eps)" using assms(2) by simp
  also have "\<dots> = key_of ` {info \<in> set infos. usable info}"
    using infos by (simp add: collect_endpoints_iff)
  finally have "tuple_of_length (ep_sockaddr ep) (sockaddr_length (ep_family ep))"
    by (auto simp: endpoint_key_def key_of_def usable_def)
  then obtain xs where "ep_sockaddr ep = PyTuple xs" "xs \<noteq> []"
    by (cases "ep_sockaddr ep") (force simp: tuple_of_length_def sockaddr_length_def split: if_splits)+
  then show ?thesis by (auto simp: filtered_socket_new_def host_key_of_def)
qed

text \<open>A proof that came from the host of one of the resolved endpoints.\<close>

definition proved_by_host ::
  "addrinfo list result \<Rightarrow> udp \<Rightarrow> pyval \<Rightarrow> int \<Rightarrow> pyval \<Rightarrow> liveness \<Rightarrow> bool" where
  "proved_by_host gai net host port family l \<longleftrightarrow>
     (\<exists>eps ep sock kind. resolve_udp_endpoints gai host (PyInt port) family = Inr eps \<and> ep \<in> set eps
        \<and> filtered_socket_new net ep = Inr sock \<and> lv_kind l = Some kind
        \<and> proof_received net sock kind (lv_alert l) (lv_responder l))"

definition probe_report :: "addrinfo list result \<Rightarrow> udp \<Rightarrow> pyval \<Rightarrow> int \<Rightarrow> pyval \<Rightarrow> nat \<Rightarrow> bytes list \<Rightarrow> liveness \<Rightarrow> bytes list \<Rightarrow> bool" where
  "probe_report gai net host port family retries flight l sent \<longleftrightarrow>
     lv_port l = port \<and> lv_attempts l \<le> retries + 1
     \<and> flights_sent flight (lv_attempts l) (lv_error l \<noteq> Some PROBE_ENDPOINT_UNAVAILABLE) sent
     \<and> (is_dtls_server l \<longleftrightarrow> lv_error l = None)
     \<and> (is_dtls_server l \<longrightarrow> lv_rtt l \<noteq> None \<and> proved_by_host gai net host port family l)
     \<and> (\<not> is_dtls_server l \<longrightarrow> lv_responder l = None \<and> lv_alert l = None)"

lemma flights_sent_none [simp]: "flights_sent flight 0 whole []"
  by (simp add: flights_sent_def)

lemma no_proof_report:
  "flights_sent flight n (e \<noteq> PROBE_ENDPOINT_UNAVAILABLE) sent \<Longrightarrow> n \<le> retries + 1
     \<Longrightarrow> probe_report gai net host port family retries flight (no_proof port n e) sent"
  by (simp add: probe_report_def no_proof_def is_dtls_server_def)

lemma probe_over_report:
  assumes "probe_over net fuel port flight timeout retries sock = Some (r, p)"
    and "resolve_udp_endpoints gai host (PyInt port) family = Inr eps" and "ep \<in> set eps"
    and "filtered_socket_new (pn_udp net) ep = Inr sock0" and "sock = sock0\<lparr>fs_timeout := t\<rparr>"
  shows "r = Inr l \<Longrightarrow> probe_report gai (pn_udp net) host port family retries flight l (pb_sent p)"
proof -
  assume r: "r = Inr l"
  define s0 where "s0 = \<lparr>pb_sock = sock, pb_attempts = 0, pb_sent = []\<rparr>"
  obtain started s1 where clock: "probe_clock net s0 = (started, s1)" by fastforce
  note s1 = probe_clock_simps [of net s0, unfolded clock fst_conv snd_conv]
  have s0: "pb_attempts s0 = 0" "pb_sent s0 = []" "pb_sock s0 = sock" by (simp_all add: s0_def)
  from assms(1) clock obtain o1 s2 where run: "probe_attempts net fuel flight (started + timeout)
      (timeout / real (retries + 1)) 1 (retries + 1) s1 = Some (o1, s2)"
    by (auto simp: probe_over_def s0_def split: option.splits simp del: probe_attempts.simps)
  have "pb_sent s1 = concat (replicate (pb_attempts s1) flight)" using s1 s0 by simp
  from probe_attempts_sound [OF _ this, of net fuel _ _ "retries + 1" o1 s2] run s1 s0
  have bound: "pb_attempts s2 \<le> retries + 1"
    and sent: "flights_sent flight (pb_attempts s2) (\<not> (\<exists>e. o1 = Inl e)) (pb_sent s2)"
    and got: "\<And>kind alert. o1 = Inr (Some (kind, alert)) \<Longrightarrow>
      proof_received (pn_udp net) sock0 kind alert (fs_reply_port (pb_sock s2))"
    by (auto simp: proof_received_def assms(5))
  show ?thesis
  proof (cases o1)
    case (Inl e)
    with assms(1) run clock r have "l = no_proof port (pb_attempts s2) PROBE_ENDPOINT_UNAVAILABLE" "p = s2"
      by (auto simp: probe_over_def s0_def split: if_splits simp del: probe_attempts.simps)
    with sent Inl bound show ?thesis by (auto intro: no_proof_report)
  next
    case (Inr answer)
    show ?thesis
    proof (cases answer)
      case None
      with assms(1) run clock r Inr have "l = no_proof port (pb_attempts s2) NO_DTLS_RESPONSE" "p = s2"
        by (auto simp: probe_over_def s0_def simp del: probe_attempts.simps)
      with sent Inr bound show ?thesis by (auto intro: no_proof_report)
    next
      case (Some ka)
      obtain kind alert where ka: "ka = (kind, alert)" by fastforce
      obtain now s3 where clock2: "probe_clock net s2 = (now, s3)" by fastforce
      note s3 = probe_clock_simps [of net s2, unfolded clock2 fst_conv snd_conv]
      from assms(1) run clock clock2 r Inr Some ka
      have l: "l = \<lparr>lv_port = port, lv_kind = Some kind, lv_attempts = pb_attempts s3, lv_rtt = Some (now - started),
          lv_alert = alert, lv_error = None, lv_responder = fs_reply_port (pb_sock s3)\<rparr>" and p: "p = s3"
        by (auto simp: probe_over_def s0_def simp del: probe_attempts.simps)
      have "proved_by_host gai (pn_udp net) host port family l"
        using assms(2-4) got [of kind alert] Inr Some ka s3 unfolding l proved_by_host_def by auto
      with bound sent s3 Inr show ?thesis by (auto simp: probe_report_def l p is_dtls_server_def)
    qed
  qed
qed

lemma probe_with_flight_report:
  assumes "probe_with_flight ok gai net fuel host port flight timeout retries family s = Some (r, s', sent)"
    and "fresh_descriptors s"
  shows "r = Inr l \<Longrightarrow> probe_report gai (pn_udp net) host port family retries flight l sent"
    and "os_open s' = os_open s"
proof -
  obtain o1 s1 where opened: "open_host_filtered_udp_socket ok gai host (PyInt port) family PyNone
      (PyFloat (timeout / real (retries + 1))) s = (o1, s1)" by fastforce
  note state = open_udp_socket_open [OF opened [unfolded open_host_filtered_udp_socket_def] assms(2)]
  show "probe_report gai (pn_udp net) host port family retries flight l sent" if r: "r = Inr l"
  proof (cases o1)
    case (Inl e)
    with assms(1) opened r have "l = no_proof port 0 PROBE_ENDPOINT_UNAVAILABLE" "sent = []"
      by (auto simp: probe_with_flight_def split: if_splits)
    then show ?thesis by (simp add: no_proof_report)
  next
    case (Inr fe)
    obtain fd ep where fe: "fe = (fd, ep)" by fastforce
    with state Inr obtain eps where eps: "resolve_udp_endpoints gai host (PyInt port) family = Inr eps" "ep \<in> set eps"
      by auto
    from assms(1) opened Inr fe r obtain sock p where sock: "filtered_socket_new (pn_udp net) ep = Inr sock"
      and run: "probe_over net fuel port flight timeout retries
        (sock\<lparr>fs_timeout := Some (timeout / real (retries + 1))\<rparr>) = Some (r, p)" and sent: "sent = pb_sent p"
      by (auto simp: probe_with_flight_def split: sum.splits)
    from probe_over_report [OF run eps sock refl r] sent show ?thesis by simp
  qed
  show "os_open s' = os_open s"
  proof (cases o1)
    case (Inl e)
    with assms(1) opened state show ?thesis by (auto simp: probe_with_flight_def)
  next
    case (Inr fe)
    obtain fd ep where fe: "fe = (fd, ep)" by fastforce
    with state Inr obtain eps where "os_open s1 = fd # os_open s" "fd \<notin> set (os_open s)"
      and "resolve_udp_endpoints gai host (PyInt port) family = Inr eps" "ep \<in> set eps" by auto
    moreover from this(3,4) obtain sock where "filtered_socket_new (pn_udp net) ep = Inr sock"
      using resolved_filtered_socket by blast
    ultimately show ?thesis
      using assms(1) opened Inr fe by (auto simp: probe_with_flight_def close_socket_def)
  qed
qed

section \<open>Several ports\<close>

lemma dict_set_fst:
  "map fst (dict_set k () d) = (if canon k \<in> canon ` fst ` set d then map fst d else map fst d @ [k])"
proof (induction d)
  case (Cons kv d)
  then show ?case by (cases kv) auto
qed simp

lemma distinct_values_snoc:
  "distinct_values (vs @ [v]) =
     (if canon v \<in> canon ` set (distinct_values vs) then distinct_values vs else distinct_values vs @ [v])"
  by (simp add: distinct_values_def dict_set_fst image_image)

lemma distinct_values_props:
  "set (distinct_values vs) \<subseteq> set vs" "canon ` set (distinct_values vs) = canon ` set vs"
  "distinct (map canon (distinct_values vs))"
proof -
  have "set (distinct_values vs) \<subseteq> set vs \<and> canon ` set (distinct_values vs) = canon ` set vs
     \<and> distinct (map canon (distinct_values vs))"
  proof (induction vs rule: rev_induct)
    case Nil
    then show ?case by (simp add: distinct_values_def)
  next
    case (snoc v vs)
    then show ?case by (auto simp: distinct_values_snoc)
  qed
  then show "set (distinct_values vs) \<subseteq> set vs" "canon ` set (distinct_values vs) = canon ` set vs"
    "distinct (map canon (distinct_values vs))" by blast+
qed

lemma distinct_values_ints: "distinct_values (map PyInt ps) = map PyInt (rev (remdups (rev ps)))"
proof (induction ps rule: rev_induct)
  case Nil
  then show ?case by (simp add: distinct_values_def)
next
  case (snoc p ps)
  have "canon (PyInt p) \<in> canon ` set (distinct_values (map PyInt ps)) \<longleftrightarrow> p \<in> set ps"
    unfolding distinct_values_props(2) by (force simp: image_iff)
  with snoc show ?case by (simp add: distinct_values_snoc)
qed

lemma distinct_values_single: "length (distinct_values vs) = 1 \<longleftrightarrow> (\<exists>v \<in> set vs. \<forall>u \<in> set vs. canon u = canon v)"
proof -
  have "length (distinct_values vs) = card (canon ` set vs)"
    using distinct_card [OF distinct_values_props(3) [of vs]] by (simp add: distinct_values_props(2))
  then have "length (distinct_values vs) = 1 \<longleftrightarrow> (\<exists>x. canon ` set vs = {x})" by (simp add: card_1_singleton_iff)
  also have "\<dots> \<longleftrightarrow> (\<exists>v \<in> set vs. \<forall>u \<in> set vs. canon u = canon v)" (is "?lhs \<longleftrightarrow> ?rhs")
  proof
    assume ?lhs
    then obtain x where x: "canon ` set vs = {x}" by blast
    then obtain v where "v \<in> set vs" "canon v = x" by blast
    moreover have "canon u = x" if "u \<in> set vs" for u using x that by blast
    ultimately show ?rhs by blast
  next
    assume ?rhs
    then obtain v where "v \<in> set vs" "\<forall>u \<in> set vs. canon u = canon v" by blast
    then have "canon ` set vs = {canon v}" by blast
    then show ?lhs by blast
  qed
  finally show ?thesis .
qed

definition responders :: "liveness list \<Rightarrow> pyval list" where
  "responders rs = List.map_filter lv_responder (filter is_dtls_server rs)"

lemma select_port_exact:
  "pp_results (select_port preferred rs) = rs"
  "pp_selected (select_port preferred rs) \<noteq> None \<longleftrightarrow> pp_outcome (select_port preferred rs) = SELECTED"
  "pp_outcome (select_port preferred rs) = UNREACHABLE \<longleftrightarrow> responders rs = []"
  "pp_outcome (select_port preferred rs) = AMBIGUOUS \<longleftrightarrow>
     (\<exists>u \<in> set (responders rs). \<exists>v \<in> set (responders rs). canon u \<noteq> canon v)
     \<and> \<not> (\<exists>p. preferred = Some p \<and> canon (PyInt p) \<in> canon ` set (responders rs))"
  "pp_selected (select_port preferred rs) = Some v \<Longrightarrow> canon v \<in> canon ` set (responders rs)
     \<and> (v = PyInt (the preferred) \<and> preferred \<noteq> None \<or> (\<forall>u \<in> set (responders rs). canon u = canon v))"
proof -
  let ?found = "distinct_values (responders rs)"
  let ?wanted = "\<exists>p. preferred = Some p \<and> canon (PyInt p) \<in> canon ` set (responders rs)"
  have empty: "?found = [] \<longleftrightarrow> responders rs = []"
    using distinct_values_props(2) [of "responders rs"] by auto
  have wanted: "preferred \<noteq> None \<and> canon (PyInt (the preferred)) \<in> canon ` set ?found \<longleftrightarrow> ?wanted"
    unfolding distinct_values_props(2) by (cases preferred) simp_all
  define answer where "answer outcome port = \<lparr>pp_outcome = outcome, pp_selected = port, pp_results = rs\<rparr>"
    for outcome port
  have sel: "select_port preferred rs =
      (if responders rs = [] then answer UNREACHABLE None
       else if ?wanted then answer SELECTED (Some (PyInt (the preferred)))
       else if length ?found = 1 then answer SELECTED (Some (hd ?found)) else answer AMBIGUOUS None)"
    unfolding select_port_def responder_ports_of_def responders_def [symmetric] Let_def wanted empty answer_def by simp
  have one: "hd ?found \<in> set (responders rs) \<and> (\<forall>u \<in> set (responders rs). canon u = canon (hd ?found))"
    if "length ?found = 1"
  proof -
    have "hd ?found \<in> set ?found" using that by (cases ?found) auto
    with distinct_values_props(1) have "hd ?found \<in> set (responders rs)" by blast
    with that show ?thesis by (metis distinct_values_single)
  qed
  have many: "(\<exists>u \<in> set (responders rs). \<exists>v \<in> set (responders rs). canon u \<noteq> canon v)
      \<longleftrightarrow> responders rs \<noteq> [] \<and> length ?found \<noteq> 1"
  proof -
    have "length ?found \<noteq> 1 \<longleftrightarrow> (\<forall>v \<in> set (responders rs). \<exists>u \<in> set (responders rs). canon u \<noteq> canon v)"
      unfolding distinct_values_single by blast
    moreover have "(\<exists>u \<in> A. \<exists>v \<in> A. canon u \<noteq> canon v) \<longleftrightarrow> A \<noteq> {} \<and> (\<forall>v \<in> A. \<exists>u \<in> A. canon u \<noteq> canon v)"
      for A :: "pyval set"
      by (rule iffI; elim bexE conjE; (intro conjI ballI)?) (auto, metis)
    ultimately show ?thesis by (simp only: set_empty)
  qed
  define n w k where "n \<longleftrightarrow> responders rs = []" and "w \<longleftrightarrow> ?wanted" and "k \<longleftrightarrow> length ?found = 1"
  have cases: "select_port preferred rs = (if n then answer UNREACHABLE None
       else if w then answer SELECTED (Some (PyInt (the preferred)))
       else if k then answer SELECTED (Some (hd ?found)) else answer AMBIGUOUS None)"
    unfolding sel n_def w_def k_def ..
  show "pp_results (select_port preferred rs) = rs"
    "pp_selected (select_port preferred rs) \<noteq> None \<longleftrightarrow> pp_outcome (select_port preferred rs) = SELECTED"
    unfolding cases by (simp_all add: answer_def)
  show "pp_outcome (select_port preferred rs) = UNREACHABLE \<longleftrightarrow> responders rs = []"
    unfolding cases n_def [symmetric] by (simp add: answer_def)
  show "pp_outcome (select_port preferred rs) = AMBIGUOUS \<longleftrightarrow>
     (\<exists>u \<in> set (responders rs). \<exists>v \<in> set (responders rs). canon u \<noteq> canon v) \<and> \<not> ?wanted"
    unfolding many cases n_def [symmetric] w_def [symmetric] k_def [symmetric] by (simp add: answer_def)
  show "canon v \<in> canon ` set (responders rs)
     \<and> (v = PyInt (the preferred) \<and> preferred \<noteq> None \<or> (\<forall>u \<in> set (responders rs). canon u = canon v))"
    if "pp_selected (select_port preferred rs) = Some v"
  proof (cases w)
    case True
    with that have "v = PyInt (the preferred)" unfolding cases by (simp add: answer_def split: if_splits)
    moreover from True obtain p where "preferred = Some p" "canon (PyInt p) \<in> canon ` set (responders rs)"
      unfolding w_def by blast
    ultimately show ?thesis by simp
  next
    case False
    with that have "v = hd ?found" "length ?found = 1"
      unfolding cases k_def [symmetric] by (simp_all add: answer_def split: if_splits)
    with one show ?thesis by blast
  qed
qed

lemma try_candidates_fresh:
  "try_candidates ok plan eps s = (r, s') \<Longrightarrow> fresh_descriptors s \<Longrightarrow> fresh_descriptors s'"
proof (induction eps arbitrary: s)
  case (Cons ep eps)
  show ?case
  proof (cases "plan ep")
    case (Inr calls)
    obtain c s1 where run: "try_candidate ok (ep_family ep) calls s = (c, s1)" by fastforce
    with try_candidate_open [OF run Cons.prems(2)] Cons.IH [of s1] Inr Cons.prems(1) show ?thesis
      by (auto split: option.splits)
  qed (use Cons.prems in auto)
qed auto

lemma probe_with_flight_fresh:
  assumes "probe_with_flight ok gai net fuel host port flight timeout retries family s = Some (r, s', sent)"
    and "fresh_descriptors s"
  shows "fresh_descriptors s'"
proof -
  obtain o1 s1 where opened: "open_host_filtered_udp_socket ok gai host (PyInt port) family PyNone
      (PyFloat (timeout / real (retries + 1))) s = (o1, s1)" by fastforce
  have "fresh_descriptors s1"
    using opened assms(2) try_candidates_fresh
    unfolding open_host_filtered_udp_socket_def open_udp_socket_def
    by (auto dest!: then_do_cases)
  then have "fresh_descriptors (close_socket fd s1)" for fd
    by (simp add: fresh_descriptors_def close_socket_def)
  with \<open>fresh_descriptors s1\<close> assms(1) opened show ?thesis
    by (auto simp: probe_with_flight_def split: sum.splits)
qed

lemma run_workers_report:
  assumes "run_workers ok env fuel host flight timeout retries family ports s = Some (rs, s')"
    and "fresh_descriptors s"
  shows "map lv_port rs = ports \<and> os_open s' = os_open s
     \<and> (\<forall>l \<in> set rs. is_dtls_server l \<longrightarrow>
          proved_by_host (fst (env (lv_port l))) (pn_udp (snd (env (lv_port l)))) host (lv_port l) family l
          \<and> lv_attempts l \<le> retries + 1)"
  using assms
proof (induction ports arbitrary: s rs)
  case (Cons port ports)
  from Cons.prems(1) obtain r s1 sent ls where
    one: "probe_with_flight ok (fst (env port)) (snd (env port)) fuel host port flight timeout retries family s = Some (r, s1, sent)"
    and rest: "run_workers ok env fuel host flight timeout retries family ports s1 = Some (ls, s')"
    and rs: "rs = (case r of Inl _ \<Rightarrow> no_proof port 0 PROBE_WORKER_FAILED | Inr l \<Rightarrow> l) # ls"
    by (auto split: option.splits)
  note report = probe_with_flight_report [OF one Cons.prems(2)]
  note IH = Cons.IH [OF rest probe_with_flight_fresh [OF one Cons.prems(2)]]
  from IH report show ?case
    by (cases r) (auto simp: rs no_proof_def is_dtls_server_def probe_report_def)
qed simp

lemma check_ports_Some:
  assumes "check_ports ports preferred timeout retries mtu family = Inr (Some (ps, pref, r, t))"
  shows "length ps \<le> 32" and "pref = None \<longleftrightarrow> preferred = PyNone" and "\<And>p. pref = Some p \<Longrightarrow> preferred = PyInt p"
proof -
  have ints: "validate_ports vs retries timeout mtu = Inr ps \<Longrightarrow> length ps = length vs" for vs ps
    by (induction vs arbitrary: ps) (auto simp: result_simps split: prod.splits)
  show "length ps \<le> 32"
    using assms ints by (auto simp: check_ports_def result_simps Let_def split: if_splits prod.splits)
  show "pref = None \<longleftrightarrow> preferred = PyNone"
    using assms by (auto simp: check_ports_def result_simps Let_def split: if_splits prod.splits)
  show "preferred = PyInt p" if "pref = Some p" for p
    using assms that
    by (auto simp: check_ports_def result_simps Let_def validate_liveness_options_def
        split: if_splits prod.splits pyval.splits)
qed

section \<open>Properties\<close>

text \<open>C31.
  What counts as proof of a DTLS server: the datagram must consist of whole records; the first complete
  HelloVerifyRequest or fatal alert of epoch zero decides, a HelloVerifyRequest without an alert; failing
  both, any other alert wins over a complete ServerHello, and the last alert is the one reported. Nothing
  else proves a server.
\<close>

theorem liveness_reply_exact:
  "parse_liveness_response d =
     (let rs = split_dtls d in
      if d \<noteq> [] \<and> concat rs = d then
        (case List.find (\<lambda>r. hello_verify_record r \<or> fatal_record r) rs of
           Some r \<Rightarrow> if hello_verify_record r then (Some FF_HELLO_VERIFY_REQUEST, None)
                     else (Some FF_ALERT, Some (alert_of r))
         | None \<Rightarrow>
             if filter alert_record rs \<noteq> [] then (Some FF_ALERT, Some (alert_of (last (filter alert_record rs))))
             else if \<exists>r \<in> set rs. server_hello_record r then (Some FF_SERVER_HELLO, None) else (None, None))
      else (None, None))"
proof (cases "d \<noteq> [] \<and> concat (split_dtls d) = d")
  case True
  then have whole: "split_dtls d \<noteq> []" "sum_list (map length (split_dtls d)) = length d" by (auto simp: split_dtls_whole)
  have final: "(final_kind None rs, final_alert None rs) =
      (if filter alert_record rs \<noteq> [] then (Some FF_ALERT, Some (alert_of (last (filter alert_record rs))))
       else if \<exists>r \<in> set rs. server_hello_record r then (Some FF_SERVER_HELLO, None) else (None, None))" for rs
    by (auto simp: final_kind_def final_alert_def filter_empty_conv split: list.splits)
  show ?thesis
    unfolding parse_liveness_response_def Let_def scan_records_exact final
    using True whole by (simp only: simp_thms if_True if_False)
next
  case False
  then have "split_dtls d = [] \<or> sum_list (map length (split_dtls d)) \<noteq> length d"
    unfolding split_dtls_whole by (cases d) (auto simp: split_dtls_def split_from.simps)
  with False show ?thesis by (simp only: parse_liveness_response_def Let_def if_True if_False)
qed


definition demo_hello_verify :: bytes where
  "demo_hello_verify =
     [22, 0xFE, 0xFF, 0, 0, 0, 0, 0, 0, 0, 0, 0, 16, 3, 0, 0, 4, 0, 0, 0, 0, 0, 0, 0, 4, 0xFE, 0xFF, 1, 0xAB]"

definition demo_probe_net :: probe_net where
  "demo_probe_net =
     \<lparr>pn_udp = \<lparr>u_clock = (\<lambda>n. real n / 10),
        u_recv = (\<lambda>n. if n < 9 then Datagram [1, 2] [PyStr (str_of ''10.0.0.9''), PyInt 9]
                      else Datagram demo_hello_verify [PyStr (str_of ''10.0.0.7''), PyInt 49200]),
        u_pton = (\<lambda>f h. Some (map mk_byte h))\<rparr>,
      pn_send = (\<lambda>n d. Inr (length d))\<rparr>"

definition demo_gai :: "addrinfo list result" where
  "demo_gai = Inr [(AF_INET, SOCK_DGRAM, IPPROTO_UDP, PyTuple [PyStr (str_of ''10.0.0.7''), PyInt 5684])]"

definition demo_outputs :: "bytes list result" where
  "demo_outputs = Inr [[22, 0xFE, 0xFF, 0, 0, 0, 0, 0, 0, 0, 0, 0, 1, 1]]"

definition demo_os :: os where
  "demo_os = \<lparr>os_calls = 0, os_next = 4, os_open = [2]\<rparr>"


text \<open>The probe of one port returns: once the clock passes every deadline there is one result that all sufficient
  fuel gives, however many foreign or malformed datagrams arrive.
\<close>

theorem probe_port_returns:
  assumes "clock_advances (pn_udp net)"
  shows "\<exists>F out. \<forall>fuel \<ge> F. probe_dtls_port ok gai net fuel outputs host port timeout retries mtu family s = Some out"
proof -
  have over: "\<exists>F out. \<forall>fuel \<ge> F. probe_over net fuel p flight t r sock = Some out" for p flight t r sock
  proof -
    obtain started s1 where clock: "probe_clock net \<lparr>pb_sock = sock, pb_attempts = 0, pb_sent = []\<rparr> = (started, s1)"
      by fastforce
    obtain F o1 where F: "probe_attempts net F flight (started + t) (t / real (r + 1)) 1 (r + 1) s1 = Some o1"
      using probe_attempts_returns [OF assms] by fast
    then have "\<forall>fuel \<ge> F. probe_over net fuel p flight t r sock = probe_over net F p flight t r sock"
      using probe_attempts_mono [OF F] clock by (simp add: probe_over_def)
    moreover have "\<exists>out. probe_over net F p flight t r sock = Some out"
    proof -
      obtain x s2 where "o1 = (x, s2)" by fastforce
      then have eq: "probe_over net F p flight t r sock =
          (case x of
             Inr (Some (kind, alert)) \<Rightarrow>
               (case probe_clock net s2 of (now, s) \<Rightarrow>
                  Some (Inr \<lparr>lv_port = p, lv_kind = Some kind, lv_attempts = pb_attempts s,
                     lv_rtt = Some (now - started), lv_alert = alert, lv_error = None,
                     lv_responder = fs_reply_port (pb_sock s)\<rparr>, s))
           | Inr None \<Rightarrow> Some (Inr (no_proof p (pb_attempts s2) NO_DTLS_RESPONSE), s2)
           | Inl e \<Rightarrow> Some (if isinstance_of e Py_OSError
               then Inr (no_proof p (pb_attempts s2) PROBE_ENDPOINT_UNAVAILABLE) else Inl e, s2))"
        unfolding probe_over_def clock prod.case F option.case by (simp split: sum.split option.split)
      show ?thesis
      proof (cases x)
        case (Inr a)
        with eq show ?thesis by (cases a) (auto split: prod.splits)
      qed (simp add: eq)
    qed
    ultimately show ?thesis by metis
  qed
  have flight: "\<exists>F out. \<forall>fuel \<ge> F. probe_with_flight ok gai net fuel host p fl t r family s = Some out" for p fl t r
  proof (cases "open_host_filtered_udp_socket ok gai host (PyInt p) family PyNone (PyFloat (t / real (r + 1))) s")
    case (Pair o1 s1)
    show ?thesis
    proof (cases "\<exists>fd ep sock. o1 = Inr (fd, ep) \<and> filtered_socket_new (pn_udp net) ep = Inr sock")
      case True
      then obtain fd ep sock where "o1 = Inr (fd, ep)" "filtered_socket_new (pn_udp net) ep = Inr sock" by blast
      with over [of p fl t r "sock\<lparr>fs_timeout := Some (t / real (r + 1))\<rparr>"] Pair show ?thesis
        by (fastforce simp: probe_with_flight_def)
    next
      case False
      show ?thesis
      proof (cases o1)
        case (Inl e)
        with Pair show ?thesis by (simp add: probe_with_flight_def)
      next
        case (Inr fe)
        with False obtain e where "filtered_socket_new (pn_udp net) (snd fe) = Inl e"
          by (cases "filtered_socket_new (pn_udp net) (snd fe)") (auto simp: prod_eq_iff)
        with Pair Inr show ?thesis by (cases fe) (simp add: probe_with_flight_def)
      qed
    qed
  qed
  show ?thesis
  proof (cases "andThen (validate_liveness_options port retries timeout mtu) (\<lambda>options.
           andThen (validate_family family) (\<lambda>_. Inr options))")
    case (Inr options)
    obtain p r t where "options = (p, r, t)" by (cases options)
    with Inr flight show ?thesis by (cases "client_hello_flight outputs") (auto simp: probe_dtls_port_def)
  qed (auto simp: probe_dtls_port_def)
qed

theorem probe_port_returns_witness:
  "\<exists>F out. \<forall>fuel \<ge> F. probe_dtls_port (\<lambda>n c. True) demo_gai demo_probe_net fuel demo_outputs (PyStr (str_of ''host''))
      (PyInt 5684) (PyInt 4) (PyInt 1) (PyInt 1200) (PyInt 0) demo_os = Some out"
proof -
  have "clock_advances (pn_udp demo_probe_net)"
  proof -
    have "\<exists>N. \<forall>n \<ge> N. t \<le> real n / 10" for t :: real
    proof -
      obtain N where "t * 10 \<le> real N" using real_arch_simple by blast
      then show ?thesis by (intro exI [of _ N]) auto
    qed
    then show ?thesis by (simp add: clock_advances_def demo_probe_net_def)
  qed
  from probe_port_returns [OF this] show ?thesis .
qed

text \<open>Selection never guesses. A port is selected exactly when the outcome says so; it is then the source port of
  a datagram that proved a server and came from the host of a resolved endpoint, either the preferred port or
  the only port anything answered from. Several distinct source ports without the preferred one among them are
  reported as ambiguous, and no recorded source port as unreachable, whatever ports were dialled. At most 32
  ports are probed and every socket is closed.
\<close>

theorem port_selection_exact:
  assumes "probe_dtls_ports ok env fuel outputs host ports preferred timeout retries mtu family s = Some (Inr R, s')"
    and "fresh_descriptors s"
  shows "os_open s' = os_open s \<and> length (pp_results R) \<le> 32
    \<and> (pp_selected R \<noteq> None \<longleftrightarrow> pp_outcome R = SELECTED)
    \<and> (pp_outcome R = UNREACHABLE \<longleftrightarrow> responders (pp_results R) = [])
    \<and> (pp_outcome R = AMBIGUOUS \<longleftrightarrow>
         (\<exists>u \<in> set (responders (pp_results R)). \<exists>v \<in> set (responders (pp_results R)). canon u \<noteq> canon v)
         \<and> \<not> (preferred \<noteq> PyNone \<and> canon preferred \<in> canon ` set (responders (pp_results R))))
    \<and> (\<forall>v. pp_selected R = Some v \<longrightarrow>
         (v = preferred \<or> (\<forall>u \<in> set (responders (pp_results R)). canon u = canon v))
         \<and> (\<exists>l \<in> set (pp_results R). \<exists>u. lv_responder l = Some u \<and> canon u = canon v
              \<and> proved_by_host (fst (env (lv_port l))) (pn_udp (snd (env (lv_port l)))) host (lv_port l) family l))"
proof -
  from assms(1) obtain opts where opts: "check_ports ports preferred timeout retries mtu family = Inr opts"
    by (cases "check_ports ports preferred timeout retries mtu family") (auto simp: probe_dtls_ports_def)
  have dead: ?thesis if "R = \<lparr>pp_outcome = UNREACHABLE, pp_selected = None, pp_results = map (\<lambda>p. no_proof p 0 e) qs\<rparr>"
    "s' = s" "length qs \<le> 32" for qs e
    using that by (simp add: responders_def is_dtls_server_def no_proof_def comp_def)
  show ?thesis
  proof (cases opts)
    case None
    with assms(1) opts show ?thesis by (intro dead [of NO_DTLS_RESPONSE "[]"]) (auto simp: probe_dtls_ports_def)
  next
    case (Some o4)
    then obtain ps pref r t where args: "check_ports ports preferred timeout retries mtu family = Inr (Some (ps, pref, r, t))"
      using opts by (cases o4) auto
    note checked = check_ports_Some [OF args]
    show ?thesis
    proof (cases "client_hello_flight outputs")
      case (Inl e)
      with assms(1) args checked(1) show ?thesis
        by (intro dead [of CLIENT_HELLO_UNAVAILABLE ps]) (auto simp: probe_dtls_ports_def)
    next
      case (Inr flight)
      with assms(1) args obtain rs where run: "run_workers ok env fuel host flight t r family ps s = Some (rs, s')"
        and R: "R = select_port pref rs"
        by (auto simp: probe_dtls_ports_def split: option.splits)
      note report = run_workers_report [OF run assms(2)]
      have pref: "(\<exists>p. pref = Some p \<and> canon (PyInt p) \<in> X) \<longleftrightarrow> preferred \<noteq> PyNone \<and> canon preferred \<in> X" for X
        using checked(2,3) by (cases pref) auto
      have len: "length rs \<le> 32" using report checked(1) by (metis length_map)
      have selected: "(v = preferred \<or> (\<forall>u \<in> set (responders rs). canon u = canon v))
         \<and> (\<exists>l \<in> set rs. \<exists>u. lv_responder l = Some u \<and> canon u = canon v
              \<and> proved_by_host (fst (env (lv_port l))) (pn_udp (snd (env (lv_port l)))) host (lv_port l) family l)"
        if "pp_selected R = Some v" for v
      proof -
        note sel = select_port_exact(5) [OF that [unfolded R]]
        then obtain u where "u \<in> set (responders rs)" "canon u = canon v" by auto
        then obtain l where "l \<in> set rs" "is_dtls_server l" "lv_responder l = Some u"
          by (auto simp: responders_def map_filter_def)
        with \<open>canon u = canon v\<close> report have "\<exists>l \<in> set rs. \<exists>u. lv_responder l = Some u \<and> canon u = canon v
              \<and> proved_by_host (fst (env (lv_port l))) (pn_udp (snd (env (lv_port l)))) host (lv_port l) family l"
          by blast
        moreover have "v = preferred \<or> (\<forall>u \<in> set (responders rs). canon u = canon v)"
          using sel checked(3) by (cases pref) auto
        ultimately show ?thesis by blast
      qed
      show ?thesis
        using report len selected select_port_exact(1-4) [of pref rs] unfolding R pref by simp
    qed
  qed
qed

theorem port_selection_exact_witness:
  "\<exists>R s'. probe_dtls_ports (\<lambda>n c. True) (\<lambda>p. (demo_gai, demo_probe_net)) 30 demo_outputs (PyStr (str_of ''host''))
      (PyTuple [PyInt 5684, PyInt 49152, PyInt 5684]) PyNone (PyInt 4) (PyInt 1) (PyInt 1200) (PyInt 0) demo_os
      = Some (Inr R, s')
    \<and> live_ports R = [5684, 49152] \<and> pp_selected R = Some (PyInt 49200) \<and> pp_outcome R = SELECTED \<and> os_open s' = [2]"
proof -
  let ?run = "probe_dtls_ports (\<lambda>n c. True) (\<lambda>p. (demo_gai, demo_probe_net)) 30 demo_outputs (PyStr (str_of ''host''))
      (PyTuple [PyInt 5684, PyInt 49152, PyInt 5684]) PyNone (PyInt 4) (PyInt 1) (PyInt 1200) (PyInt 0) demo_os"
  have "map_option (\<lambda>(r, s). case r of Inl e \<Rightarrow> None | Inr R \<Rightarrow> Some (live_ports R, pp_selected R)) ?run
      = Some (Some ([5684, 49152], Some (PyInt 49200)))"
    by code_simp
  then obtain r s' where "?run = Some (r, s')"
    and "(case r of Inl e \<Rightarrow> None | Inr R \<Rightarrow> Some (live_ports R, pp_selected R))
      = Some ([5684, 49152], Some (PyInt 49200))"
    by (cases ?run) auto
  then obtain R where run: "?run = Some (Inr R, s')"
    and R: "live_ports R = [5684, 49152]" "pp_selected R = Some (PyInt 49200)"
    by (cases r) auto
  have "fresh_descriptors demo_os" by (simp add: fresh_descriptors_def demo_os_def)
  from port_selection_exact [OF run this] R run show ?thesis by (auto simp: demo_os_def)
qed

end
