(* ===== verification/Dtls_Diagnosis.thy ===== *)
theory Dtls_Diagnosis
  imports Dtls_Probe
begin

text \<open>
  \<open>protocol/dtls_probe.py\<close>, the stateful diagnosis: the events of a datagram, what the callback of the
  handshake driver records of them, the handshake itself over any engine of \<open>Dtls_Handshake\<close>, the
  close_notify that releases the peer, and the backward-compatible \<open>probe()\<close>. OpenSSL and the providers
  are parameters.
\<close>

section \<open>Events of a datagram\<close>

definition HS_NAMES :: "(nat \<times> string) list" where
  "HS_NAMES =
    [(0, ''HelloRequest''), (1, ''ClientHello''), (2, ''ServerHello''), (3, ''HelloVerifyRequest''),
     (4, ''NewSessionTicket''), (11, ''Certificate''), (12, ''ServerKeyExchange''), (13, ''CertificateRequest''),
     (14, ''ServerHelloDone''), (15, ''CertificateVerify''), (16, ''ClientKeyExchange''), (20, ''Finished'')]"

definition hs_name :: "nat \<Rightarrow> pystr" where
  "hs_name n = (case map_of HS_NAMES n of Some s \<Rightarrow> str_of s | None \<Rightarrow> str_of ''hs'' @ str_of_byte n)"

text \<open>Name, message sequence, fragment offset, and the bytes of one fragment.\<close>

type_synonym hs_fragment = "pystr \<times> nat option \<times> nat \<times> bytes"

function handshake_fragments_from :: "bytes \<Rightarrow> nat \<Rightarrow> hs_fragment list" where
  "handshake_fragments_from fragment offset =
     (if offset + 12 \<le> length fragment then
        let header = slice fragment offset (offset + 12);
            end_off = offset + 12 + be_nat (slice header 9 12) in
        if end_off > length fragment then []
        else (hs_name (unat (header ! 0)), Some (be_nat (slice header 4 6)), be_nat (slice header 6 9),
              slice fragment offset end_off) # handshake_fragments_from fragment end_off
      else [])"
  by pat_completeness auto
termination
  by (relation "measure (\<lambda>(fragment, offset). length fragment - offset)") auto

declare handshake_fragments_from.simps [simp del]

definition iter_handshake_fragments :: "bytes \<Rightarrow> hs_fragment list" where
  "iter_handshake_fragments fragment =
     (let messages = handshake_fragments_from fragment 0 in
      if messages = [] \<and> fragment \<noteq> [] then [(hs_name (unat (fragment ! 0)), None, 0, fragment)] else messages)"

text \<open>An event without detail carries only its content type.\<close>

datatype wire_event = Handshake_event hs_fragment | Alert_event alert | Bare_event nat

definition record_events :: "bytes \<Rightarrow> wire_event list" where
  "record_events r =
     (let content_type = unat (r ! 0); fragment = drop 13 r in
      if content_type = 22 \<and> fragment \<noteq> [] then map Handshake_event (iter_handshake_fragments fragment)
      else if content_type = 21 \<and> length fragment \<ge> 2
      then [Alert_event (unat (fragment ! 0), alert_name (unat (fragment ! 1)))]
      else [Bare_event content_type])"

definition iter_datagram_events :: "bytes \<Rightarrow> wire_event list" where
  "iter_datagram_events datagram = concat (map record_events (split_dtls datagram))"

datatype record_class = Message_named pystr | Alert_seen alert | Unclassified

definition classify_datagram :: "bytes \<Rightarrow> (nat \<times> record_class) list" where
  "classify_datagram datagram =
     map (\<lambda>r. let content_type = unat (r ! 0); fragment = drop 13 r in
        (content_type,
         if content_type = 22 \<and> fragment \<noteq> [] then Message_named (hs_name (unat (fragment ! 0)))
         else if content_type = 21 \<and> length fragment \<ge> 2
         then Alert_seen (unat (fragment ! 0), alert_name (unat (fragment ! 1)))
         else Unclassified)) (split_dtls datagram)"

section \<open>What the callback records\<close>

datatype diagnosis_outcome = DEAD | LIVE | COMPLETED | REJECTED

definition MAX_HANDSHAKE_MSGS :: nat where "MAX_HANDSHAKE_MSGS = 32"

text \<open>\<open>ProbeResult\<close>, the callback's \<open>seen\<close> and \<open>encrypted\<close>, and the number of its clock reads.\<close>

record diagnosis =
  dg_outcome :: diagnosis_outcome
  dg_rtt :: "real option"
  dg_messages :: "pystr list"
  dg_counts :: "pystr \<Rightarrow> nat"
  dg_alert :: "alert option"
  dg_datagrams :: "bytes list"
  dg_error :: bool
  dg_seen :: "(pystr \<times> nat option \<times> bytes) set"
  dg_encrypted :: bool

definition diagnosis_new :: diagnosis where
  "diagnosis_new = \<lparr>dg_outcome = DEAD, dg_rtt = None, dg_messages = [], dg_counts = (\<lambda>_. 0), dg_alert = None,
     dg_datagrams = [], dg_error = False, dg_seen = {}, dg_encrypted = False\<rparr>"

definition count_message :: "pystr \<Rightarrow> diagnosis \<Rightarrow> diagnosis" where
  "count_message name g = g\<lparr>dg_counts := (dg_counts g)(name := dg_counts g name + 1)\<rparr>"

definition note_message :: "hs_fragment \<Rightarrow> diagnosis \<Rightarrow> diagnosis" where
  "note_message m g =
     (case m of (name, message_seq, fragment_offset, raw) \<Rightarrow>
        let g = (if dg_outcome g = DEAD then g\<lparr>dg_outcome := LIVE\<rparr> else g) in
        if fragment_offset \<noteq> 0 then g
        else
          let g = count_message name g; key = (name, message_seq, raw) in
          if key \<in> dg_seen g then g
          else
            let g = g\<lparr>dg_seen := insert key (dg_seen g)\<rparr> in
            if length (dg_messages g) < MAX_HANDSHAKE_MSGS then g\<lparr>dg_messages := dg_messages g @ [name]\<rparr> else g)"

text \<open>A handshake record without payload has no detail to unpack, which raises a \<open>TypeError\<close>.\<close>

definition note_event :: "wire_event \<Rightarrow> diagnosis \<Rightarrow> unit result \<times> diagnosis" where
  "note_event ev g =
     (case ev of
        Bare_event content_type \<Rightarrow>
          if content_type = 20 then (Inr (), g\<lparr>dg_encrypted := True\<rparr>)
          else if content_type = 22 \<and> \<not> dg_encrypted g then (Inl Py_TypeError, g)
          else (Inr (), g)
      | Handshake_event m \<Rightarrow> (Inr (), if dg_encrypted g then g else note_message m g)
      | Alert_event (level, name) \<Rightarrow>
          let g = g\<lparr>dg_alert := Some (level, name)\<rparr> in
          (Inr (), if level = 2 then g\<lparr>dg_outcome := REJECTED\<rparr> else g))"

fun note_events :: "wire_event list \<Rightarrow> diagnosis \<Rightarrow> unit result \<times> diagnosis" where
  "note_events [] g = (Inr (), g)"
| "note_events (ev # evs) g = then_do (note_event ev g) (\<lambda>_ g. note_events evs g)"

text \<open>\<open>record_datagram\<close>; \<open>elapsed\<close> is what the clock has advanced since the start when it is called.\<close>

definition record_datagram :: "(bytes list \<Rightarrow> real) \<Rightarrow> bytes \<Rightarrow> diagnosis \<Rightarrow> unit result \<times> diagnosis" where
  "record_datagram elapsed datagram g =
     (let g = (if dg_rtt g = None then g\<lparr>dg_rtt := Some (elapsed (dg_datagrams g))\<rparr> else g);
          g = g\<lparr>dg_datagrams := dg_datagrams g @ [datagram]\<rparr> in
      note_events (iter_datagram_events datagram) g)"

section \<open>The handshake under diagnosis\<close>

text \<open>
  The driver calls \<open>on_datagram\<close> immediately before \<open>bio_write\<close> of the same datagram, so the callback is
  part of that operation of the engine.
\<close>

definition watched :: "(bytes list \<Rightarrow> real) \<Rightarrow> 'c engine \<Rightarrow> ('c \<times> diagnosis) engine" where
  "watched elapsed en =
     \<lparr>e_handshake = (\<lambda>(c, g). case e_handshake en c of (r, c) \<Rightarrow> (r, (c, g))),
      e_bio_read = (\<lambda>k (c, g). case e_bio_read en k c of (r, c) \<Rightarrow> (r, (c, g))),
      e_bio_write = (\<lambda>d (c, g).
          case record_datagram elapsed d g of
            (Inl e, g) \<Rightarrow> (Inl e, (c, g))
          | (Inr _, g) \<Rightarrow> (case e_bio_write en d c of (r, c) \<Rightarrow> (r, (c, g)))),
      e_get_timeout = (\<lambda>(c, g). case e_get_timeout en c of (r, c) \<Rightarrow> (r, (c, g))),
      e_handle_timeout = (\<lambda>(c, g). case e_handle_timeout en c of (r, c) \<Rightarrow> (r, (c, g)))\<rparr>"

definition SHUTDOWN_READ_SIZE :: nat where "SHUTDOWN_READ_SIZE = 4096"

fun release_records :: "surroundings \<Rightarrow> bytes list \<Rightarrow> 'c driver \<Rightarrow> unit result \<times> 'c driver" where
  "release_records net [] s = (Inr (), s)"
| "release_records net (r # rs) s =
     (case outside (\<lambda>n. n_send net n r) s of
        (Inl e, s) \<Rightarrow> if isinstance_of e Py_OSError then (Inr (), s) else (Inl e, s)
      | (Inr _, s) \<Rightarrow> release_records net rs (noted (Sent_record r) s))"

text \<open>\<open>_release_peer\<close>: the close_notify is queued, read back and sent; \<open>shutdown\<close> is the engine's.\<close>

definition release_peer ::
  "surroundings \<Rightarrow> ('c \<Rightarrow> unit result \<times> 'c) \<Rightarrow> 'c engine \<Rightarrow> 'c driver \<Rightarrow> unit result \<times> 'c driver" where
  "release_peer net shutdown en s =
     (case on_engine shutdown s of
        (Inl e, s) \<Rightarrow> if isinstance_of e DtlsError then (Inr (), s) else (Inl e, s)
      | (Inr _, s) \<Rightarrow>
          (case on_engine (e_bio_read en SHUTDOWN_READ_SIZE) s of
             (Inl e, s) \<Rightarrow> if isinstance_of e DtlsError then (Inr (), s) else (Inl e, s)
           | (Inr pending, s) \<Rightarrow> release_records net (split_dtls pending) s))"

text \<open>
  \<open>_validate_diagnostic_auth\<close>: whether \<open>auth\<close> and any of the four other credentials are given, and
  whether \<open>auth.configure_context\<close> is callable.
\<close>

definition validate_diagnostic_auth :: "bool \<Rightarrow> bool \<Rightarrow> bool \<Rightarrow> unit result" where
  "validate_diagnostic_auth auth others configurable =
     (if \<not> auth then Inr ()
      else if others then Inl Py_ValueError
      else if \<not> configurable then Inl Py_TypeError
      else Inr ())"

text \<open>What \<open>_diagnostic_context\<close> does to a new context, in order.\<close>

datatype context_call = Load_root_ca | Accept_any_chain | Cipher_list | Configured_by_auth
  | Load_pem_chain | Use_chain_file | Use_key_file | Check_key

definition diagnostic_context :: "bool \<Rightarrow> bool \<Rightarrow> bool \<Rightarrow> context_call list" where
  "diagnostic_context auth cert_pem cert_path =
     [Load_root_ca, Accept_any_chain, Cipher_list]
     @ (if auth then [Configured_by_auth, Accept_any_chain]
        else if cert_pem then [Load_pem_chain]
        else if cert_path then [Use_chain_file, Use_key_file, Check_key]
        else [])"

record 'c diagnosis_setup =
  ds_auth :: bool
  ds_cert_pem :: bool
  ds_key_pem :: bool
  ds_cert_path :: bool
  ds_key_path :: bool
  ds_configurable :: bool
  ds_factory :: "'c result option"
  ds_connection :: "context_call list \<Rightarrow> 'c result"
  ds_engine :: "'c engine"
  ds_shutdown :: "'c \<Rightarrow> unit result \<times> 'c"
  ds_net :: surroundings
  ds_elapsed :: "bytes list \<Rightarrow> real"

text \<open>\<open>_diagnostic_connection\<close>: a provider's own engine first, the OpenSSL context otherwise.\<close>

definition diagnostic_connection :: "'c diagnosis_setup \<Rightarrow> 'c result" where
  "diagnostic_connection k =
     (case ds_factory k of
        Some made \<Rightarrow> made
      | None \<Rightarrow> ds_connection k (diagnostic_context (ds_auth k) (ds_cert_pem k) (ds_cert_path k)))"

text \<open>
  The driver's outcome: a completed handshake releases the peer; TLS and socket errors are folded into the
  result. \<open>shut\<close> is the engine's shutdown beside the callback's state.
\<close>

definition shut :: "'c diagnosis_setup \<Rightarrow> 'c \<times> diagnosis \<Rightarrow> unit result \<times> ('c \<times> diagnosis)" where
  "shut k = (\<lambda>(c, g). case ds_shutdown k c of (r, c) \<Rightarrow> (r, (c, g)))"

definition conclude_diagnosis ::
  "'c diagnosis_setup \<Rightarrow> bool result \<Rightarrow> ('c \<times> diagnosis) driver \<Rightarrow> diagnosis result \<times> ('c \<times> diagnosis) driver" where
  "conclude_diagnosis k outcome s =
     (let g = snd (dv_conn s);
          folded = (\<lambda>e g. if isinstance_of e DtlsError \<or> isinstance_of e Py_OSError
                          then Inr (g\<lparr>dg_error := True\<rparr>) else Inl e) in
      case outcome of
        Inl e \<Rightarrow> (folded e g, s)
      | Inr False \<Rightarrow> (Inr g, s)
      | Inr True \<Rightarrow>
          let g = g\<lparr>dg_outcome := COMPLETED\<rparr>;
              g = (if dg_rtt g = None then g\<lparr>dg_rtt := Some (ds_elapsed k (dg_datagrams g))\<rparr> else g) in
          (case release_peer (ds_net k) (shut k) (watched (ds_elapsed k) (ds_engine k)) s of
             (Inl e, s) \<Rightarrow> (folded e g, s)
           | (Inr _, s) \<Rightarrow> (Inr g, s)))"

definition diagnose_dtls_handshake ::
  "'c diagnosis_setup \<Rightarrow> (nat \<Rightarrow> sys_call \<Rightarrow> bool) \<Rightarrow> addrinfo list result \<Rightarrow> nat
     \<Rightarrow> pyval \<Rightarrow> pyval \<Rightarrow> pyval \<Rightarrow> pyval \<Rightarrow> pyval \<Rightarrow> pyval \<Rightarrow> os \<Rightarrow> (diagnosis result \<times> os) option" where
  "diagnose_dtls_handshake k ok gai fuel host port retries timeout mtu family s =
     (case andThen (validate_liveness_options port retries timeout mtu) (\<lambda>options.
           andThen (validate_family family) (\<lambda>_.
           andThen (validate_diagnostic_auth (ds_auth k)
                      (ds_cert_pem k \<or> ds_key_pem k \<or> ds_cert_path k \<or> ds_key_path k) (ds_configurable k)) (\<lambda>_.
           andThen (diagnostic_connection k) (\<lambda>conn. Inr (options, conn))))) of
        Inl e \<Rightarrow> Some (Inl e, s)
      | Inr ((p, r, t), conn) \<Rightarrow>
          (case open_host_filtered_udp_socket ok gai host port family PyNone (PyFloat (min (1 / 2) t)) s of
             (Inl e, s) \<Rightarrow>
               Some (if isinstance_of e Py_OSError then Inr (diagnosis_new\<lparr>dg_error := True\<rparr>) else Inl e, s)
           | (Inr (fd, _), s) \<Rightarrow>
               (case outside (n_clock (ds_net k)) \<lparr>dv_conn = (conn, diagnosis_new), dv_calls = 0, dv_notes = []\<rparr> of
                  (started, d) \<Rightarrow>
                    map_option (\<lambda>(out, d). (fst (conclude_diagnosis k out d), close_socket fd s))
                      (drive_dtls_handshake (ds_net k) (watched (ds_elapsed k) (ds_engine k)) (started + t)
                         (Some r) False fuel 0 d))))"

section \<open>The backward-compatible probe\<close>

definition diagnosed :: "diagnosis \<Rightarrow> bool" where
  "diagnosed g \<longleftrightarrow> dg_outcome g \<in> {LIVE, COMPLETED, REJECTED}"

text \<open>\<open>probe(stateless=True)\<close> of a liveness result.\<close>

definition legacy_result :: "liveness \<Rightarrow> diagnosis" where
  "legacy_result l =
     (let g = diagnosis_new;
          live = (\<lambda>name. (count_message name g)\<lparr>dg_outcome := LIVE, dg_messages := [name]\<rparr>);
          g = (case lv_kind l of
                 Some FF_HELLO_VERIFY_REQUEST \<Rightarrow> live (str_of ''HelloVerifyRequest'')
               | Some FF_SERVER_HELLO \<Rightarrow> live (str_of ''ServerHello'')
               | Some FF_ALERT \<Rightarrow>
                   g\<lparr>dg_alert := lv_alert l,
                     dg_outcome := (case lv_alert l of Some (level, _) \<Rightarrow> if level = 2 then REJECTED else LIVE
                                                    | None \<Rightarrow> LIVE)\<rparr>
               | None \<Rightarrow> g) in
      g\<lparr>dg_rtt := lv_rtt l, dg_error := lv_error l \<notin> {None, Some NO_DTLS_RESPONSE}\<rparr>)"

definition dtls_probe_of ::
  "'c diagnosis_setup \<Rightarrow> (nat \<Rightarrow> sys_call \<Rightarrow> bool) \<Rightarrow> addrinfo list result \<Rightarrow> probe_net \<Rightarrow> nat \<Rightarrow> bytes list result
     \<Rightarrow> bool \<Rightarrow> pyval \<Rightarrow> pyval \<Rightarrow> pyval \<Rightarrow> pyval \<Rightarrow> pyval \<Rightarrow> pyval \<Rightarrow> os \<Rightarrow> (diagnosis result \<times> os) option" where
  "dtls_probe_of k ok gai net fuel outputs stateless host port retries timeout mtu family s =
     (if \<not> stateless then
        diagnose_dtls_handshake (k\<lparr>ds_auth := False, ds_factory := None\<rparr>) ok gai fuel host port retries timeout mtu family s
      else
        map_option (\<lambda>(r, s, sent). (andThen r (\<lambda>l. Inr (legacy_result l)), s))
          (probe_dtls_port ok gai net fuel outputs host port timeout retries mtu family s))"

end
