(* ===== verification/Diagnosis_Report.thy ===== *)
theory Diagnosis_Report
  imports Dtls_Diagnosis
begin

text \<open>
  What a diagnosis reports: its messages, counts, alert and outcome as functions of the events of all
  datagrams received, and what \<open>diagnose_dtls_handshake\<close> returns and leaves behind.
\<close>

section \<open>The record as a function of the events\<close>

text \<open>The events before the first ChangeCipherSpec are readable; of these the handshake fragments.\<close>

definition readable_events :: "wire_event list \<Rightarrow> wire_event list" where
  "readable_events evs = takeWhile (\<lambda>ev. ev \<noteq> Bare_event 20) evs"

definition messages_of :: "wire_event list \<Rightarrow> hs_fragment list" where
  "messages_of evs = concat (map (\<lambda>ev. case ev of Handshake_event m \<Rightarrow> [m] | _ \<Rightarrow> []) (readable_events evs))"

definition first_fragments :: "wire_event list \<Rightarrow> (pystr \<times> nat option \<times> bytes) list" where
  "first_fragments evs =
     map (\<lambda>(name, message_seq, offset, raw). (name, message_seq, raw)) (filter (\<lambda>(_, _, offset, _). offset = 0) (messages_of evs))"

definition alerts_of :: "wire_event list \<Rightarrow> alert list" where
  "alerts_of evs = concat (map (\<lambda>ev. case ev of Alert_event a \<Rightarrow> [a] | _ \<Rightarrow> []) evs)"

definition last_of :: "'a list \<Rightarrow> 'a option" where
  "last_of xs = (if xs = [] then None else Some (last xs))"

definition outcome_of :: "wire_event list \<Rightarrow> diagnosis_outcome" where
  "outcome_of evs =
     (if \<exists>a \<in> set (alerts_of evs). fst a = 2 then REJECTED else if messages_of evs \<noteq> [] then LIVE else DEAD)"

definition report_of :: "wire_event list \<Rightarrow> diagnosis \<Rightarrow> bool" where
  "report_of evs g \<longleftrightarrow>
     dg_messages g = take MAX_HANDSHAKE_MSGS (map fst (first_occurrences (first_fragments evs)))
     \<and> dg_counts g = (\<lambda>name. length (filter (\<lambda>key. fst key = name) (first_fragments evs)))
     \<and> dg_alert g = last_of (alerts_of evs)
     \<and> dg_outcome g = outcome_of evs
     \<and> dg_seen g = set (first_fragments evs) \<and> (dg_encrypted g \<longleftrightarrow> Bare_event 20 \<in> set evs)"

lemma readable_all: "Bare_event 20 \<notin> set evs \<Longrightarrow> readable_events evs = evs"
  unfolding readable_events_def by (auto simp: takeWhile_eq_all_conv)

lemma readable_snoc:
  "readable_events (evs @ [ev]) =
     (if Bare_event 20 \<in> set evs \<or> ev = Bare_event 20 then readable_events evs else evs @ [ev])"
  by (induction evs) (auto simp: readable_events_def)

lemma new_occurrences_snoc:
  "first_occurrences (xs @ [x]) = (if x \<in> set xs then first_occurrences xs else first_occurrences xs @ [x])"
  by (simp add: first_occurrences_def)

lemma of_snoc:
  "messages_of (evs @ [ev]) = messages_of evs @
     (case ev of Handshake_event m \<Rightarrow> if Bare_event 20 \<in> set evs then [] else [m] | _ \<Rightarrow> [])"
  "alerts_of (evs @ [ev]) = alerts_of evs @ (case ev of Alert_event a \<Rightarrow> [a] | _ \<Rightarrow> [])"
  "last_of (xs @ [x]) = Some x"
  by (auto simp: messages_of_def alerts_of_def last_of_def readable_snoc readable_all split: wire_event.split)

lemma first_fragments_snoc:
  "first_fragments (evs @ [ev]) = first_fragments evs @
     (case ev of
        Handshake_event (name, message_seq, offset, raw) \<Rightarrow>
          if Bare_event 20 \<in> set evs \<or> offset \<noteq> 0 then [] else [(name, message_seq, raw)]
      | _ \<Rightarrow> [])"
  by (auto simp: first_fragments_def of_snoc split: wire_event.split)

lemma note_event_report:
  assumes "report_of evs g" and "note_event ev g = (Inr u, g')"
  shows "report_of (evs @ [ev]) g'"
proof (cases ev)
  case (Handshake_event m)
  obtain name sq off raw where m: "m = (name, sq, off, raw)" by (cases m)
  show ?thesis
  proof (cases "dg_encrypted g")
    case True
    with assms Handshake_event show ?thesis
      by (simp add: note_event_def report_of_def outcome_of_def of_snoc first_fragments_snoc m)
  next
    case False
    with assms Handshake_event have g': "g' = note_message m g" and plain: "Bare_event 20 \<notin> set evs"
      by (simp_all add: note_event_def report_of_def)
    show ?thesis
    proof (cases "off = 0")
      case True
      with assms(1) g' plain Handshake_event show ?thesis
        by (auto simp: note_message_def Let_def m report_of_def outcome_of_def of_snoc first_fragments_snoc count_message_def
            new_occurrences_snoc fun_eq_iff)
    next
      case False
      with assms(1) g' plain Handshake_event show ?thesis
        by (auto simp: note_message_def Let_def m report_of_def outcome_of_def of_snoc first_fragments_snoc)
    qed
  qed
next
  case (Alert_event a)
  obtain level name where a: "a = (level, name)" by (cases a)
  with assms(2) Alert_event have "g' = (if level = 2 then g\<lparr>dg_alert := Some a, dg_outcome := REJECTED\<rparr>
      else g\<lparr>dg_alert := Some a\<rparr>)" by (simp add: note_event_def Let_def split: if_splits)
  moreover have "(\<exists>b \<in> set (alerts_of evs @ [a]). fst b = 2) \<longleftrightarrow> level = 2 \<or> (\<exists>b \<in> set (alerts_of evs). fst b = 2)"
    by (simp add: a)
  ultimately show ?thesis
    using assms(1) Alert_event unfolding report_of_def outcome_of_def of_snoc first_fragments_snoc by (simp add: of_snoc(3))
next
  case (Bare_event ct)
  with assms(2) have "g' = (if ct = 20 then g\<lparr>dg_encrypted := True\<rparr> else g)"
    by (simp add: note_event_def split: if_splits)
  with assms(1) Bare_event show ?thesis
    unfolding report_of_def outcome_of_def of_snoc first_fragments_snoc by simp
qed

text \<open>An empty handshake record that the callback cannot take apart, and what precedes it.\<close>

definition unreadable :: "wire_event list \<Rightarrow> bool" where
  "unreadable evs \<longleftrightarrow> Bare_event 22 \<in> set (readable_events evs)"

lemma unreadable_append: "unreadable evs \<Longrightarrow> unreadable (evs @ evs')"
proof (induction evs' rule: rev_induct)
  case (snoc ev evs')
  then have "unreadable (evs @ evs')" by blast
  then show ?case
    unfolding unreadable_def append_assoc [symmetric] readable_snoc
    by (auto simp: readable_events_def dest: set_takeWhileD)
qed simp

lemma note_event_raises:
  assumes "report_of evs g"
  shows "fst (note_event ev g) = (if Bare_event 20 \<notin> set evs \<and> ev = Bare_event 22 then Inl Py_TypeError else Inr ())"
  using assms by (cases ev) (auto simp: note_event_def report_of_def Let_def split: prod.splits)

lemma note_events_report:
  "note_events evs g = (r, g') \<Longrightarrow> report_of before g \<Longrightarrow> \<not> unreadable before \<Longrightarrow>
     (if unreadable (before @ evs) then r = Inl Py_TypeError else r = Inr () \<and> report_of (before @ evs) g')"
proof (induction evs arbitrary: g before)
  case (Cons ev evs)
  note raises = note_event_raises [OF Cons.prems(2), of ev]
  show ?case
  proof (cases "Bare_event 20 \<notin> set before \<and> ev = Bare_event 22")
    case True
    then have "unreadable (before @ [ev])" by (simp add: unreadable_def readable_snoc)
    then have "unreadable (before @ ev # evs)" using unreadable_append [of "before @ [ev]" evs] by simp
    moreover have "r = Inl Py_TypeError"
      using Cons.prems(1) raises True by (cases "note_event ev g") auto
    ultimately show ?thesis by simp
  next
    case False
    with raises obtain g1 where ev: "note_event ev g = (Inr (), g1)" by (cases "note_event ev g") auto
    have "\<not> unreadable (before @ [ev])"
      using False Cons.prems(3) by (auto simp: unreadable_def readable_snoc readable_all split: if_splits)
    moreover have "note_events evs g1 = (r, g')" using Cons.prems(1) ev by simp
    ultimately show ?thesis
      using Cons.IH [OF _ note_event_report [OF Cons.prems(2) ev]]
      by (cases "unreadable (before @ ev # evs)") simp_all
  qed
qed simp

section \<open>The report of all datagrams\<close>

definition events_of :: "bytes list \<Rightarrow> wire_event list" where
  "events_of ds = concat (map iter_datagram_events ds)"

definition reported :: "diagnosis \<Rightarrow> bool" where
  "reported g \<longleftrightarrow> unreadable (events_of (dg_datagrams g))
     \<or> report_of (events_of (dg_datagrams g)) g \<and> \<not> dg_error g \<and> (dg_rtt g = None \<longleftrightarrow> dg_datagrams g = [])"

lemma report_of_cong:
  "report_of evs (g\<lparr>dg_rtt := x\<rparr>) = report_of evs g" "report_of evs (g\<lparr>dg_datagrams := ds\<rparr>) = report_of evs g"
  by (simp_all add: report_of_def)

lemma note_events_keeps:
  "note_events evs g = (r, g') \<Longrightarrow> dg_datagrams g' = dg_datagrams g \<and> dg_rtt g' = dg_rtt g \<and> dg_error g' = dg_error g"
proof (induction evs arbitrary: g)
  case (Cons ev evs)
  have keep: "dg_datagrams (snd (note_event ev g)) = dg_datagrams g \<and> dg_rtt (snd (note_event ev g)) = dg_rtt g
      \<and> dg_error (snd (note_event ev g)) = dg_error g"
    by (auto simp: note_event_def note_message_def count_message_def Let_def split: wire_event.split prod.split)
  show ?case
  proof (cases "note_event ev g")
    case (Pair x g1)
    with Cons keep show ?thesis by (cases x) auto
  qed
qed simp

lemma record_datagram_reported:
  assumes "reported g"
  shows "reported (snd (record_datagram elapsed d g))"
    and "fst (record_datagram elapsed d g) \<noteq> Inr () \<Longrightarrow> \<not> unreadable (events_of (dg_datagrams g)) \<Longrightarrow>
      fst (record_datagram elapsed d g) = Inl Py_TypeError \<and> unreadable (events_of (dg_datagrams g @ [d]))"
proof -
  obtain g1 where g1: "g1 = (let g = (if dg_rtt g = None then g\<lparr>dg_rtt := Some (elapsed (dg_datagrams g))\<rparr> else g)
      in g\<lparr>dg_datagrams := dg_datagrams g @ [d]\<rparr>)" by blast
  obtain r g2 where run: "note_events (iter_datagram_events d) g1 = (r, g2)" by fastforce
  then have rec: "record_datagram elapsed d g = (r, g2)" by (simp add: record_datagram_def g1 Let_def)
  have same: "report_of evs g1 = report_of evs g" for evs by (simp add: g1 Let_def report_of_cong)
  have fields: "dg_datagrams g1 = dg_datagrams g @ [d]" "dg_rtt g1 \<noteq> None" "dg_error g1 = dg_error g"
    by (auto simp: g1 Let_def)
  note kept = note_events_keeps [OF run]
  have evs: "events_of (dg_datagrams g @ [d]) = events_of (dg_datagrams g) @ iter_datagram_events d"
    by (simp add: events_of_def)
  have "unreadable (events_of (dg_datagrams g)) \<Longrightarrow> unreadable (events_of (dg_datagrams g @ [d]))"
    unfolding evs by (rule unreadable_append)
  moreover note note_events_report [OF run, of "events_of (dg_datagrams g)"]
  ultimately show "reported (snd (record_datagram elapsed d g))"
    "fst (record_datagram elapsed d g) \<noteq> Inr () \<Longrightarrow> \<not> unreadable (events_of (dg_datagrams g)) \<Longrightarrow>
      fst (record_datagram elapsed d g) = Inl Py_TypeError \<and> unreadable (events_of (dg_datagrams g @ [d]))"
    using assms fields kept same unfolding reported_def rec evs
    by (cases "unreadable (events_of (dg_datagrams g) @ iter_datagram_events d)"; auto simp: evs)+
qed

lemma reported_new: "reported diagnosis_new"
  by (simp add: reported_def diagnosis_new_def events_of_def report_of_def outcome_of_def messages_of_def first_fragments_def
      alerts_of_def last_of_def readable_events_def unreadable_def)

text \<open>Watching keeps the contract of an engine and adds the report to its invariant.\<close>

context dtls_engine
begin

lemma watched_engine: "dtls_engine (watched elapsed en) (\<lambda>(c, g). I c \<and> reported g) (\<lambda>(c, g). E c)"
proof unfold_locales
  fix cg :: "'c \<times> diagnosis" and k d
  assume inv: "case cg of (c, g) \<Rightarrow> I c \<and> reported g"
  obtain c g where cg: "cg = (c, g)" by fastforce
  with inv have I: "I c" and g: "reported g" by auto
  show "case snd (e_handshake (watched elapsed en) cg) of (c, g) \<Rightarrow> I c \<and> reported g"
    using handshake [OF I] g by (auto simp: watched_def cg split: prod.splits)
  show "case snd (e_handshake (watched elapsed en) cg) of (c, g) \<Rightarrow> E c"
    if "fst (e_handshake (watched elapsed en) cg) = Inr ()"
    using established [OF I] that by (auto simp: watched_def cg split: prod.splits)
  show "case snd (e_bio_read (watched elapsed en) k cg) of (c, g) \<Rightarrow> I c \<and> reported g"
    using bio_read [OF I, of k] g by (auto simp: watched_def cg split: prod.splits)
  show "case snd (e_bio_write (watched elapsed en) d cg) of (c, g) \<Rightarrow> I c \<and> reported g"
    using bio_write [OF I, of d] record_datagram_reported(1) [OF g, of elapsed d] I
    by (auto simp: watched_def cg split: prod.splits sum.splits)
  show "case snd (e_get_timeout (watched elapsed en) cg) of (c, g) \<Rightarrow> I c \<and> reported g"
    using get_timeout [OF I] g by (auto simp: watched_def cg split: prod.splits)
  show "case snd (e_handle_timeout (watched elapsed en) cg) of (c, g) \<Rightarrow> I c \<and> reported g"
    using handle_timeout [OF I] g by (auto simp: watched_def cg split: prod.splits)
qed

end

interpretation watched_psk: dtls_engine "watched elapsed (psk_engine c)" "\<lambda>(conn, g). dtls_reach c conn \<and> reported g"
  "\<lambda>(conn, g). d_phase conn = Established \<and> d_failed conn = None" for c elapsed
  by (rule psk.watched_engine)

section \<open>The whole diagnosis\<close>

text \<open>What the result says of the datagrams it holds; \<open>COMPLETED\<close> overrides the outcome.\<close>

definition diagnosis_true :: "diagnosis \<Rightarrow> bool" where
  "diagnosis_true g \<longleftrightarrow>
     (let evs = events_of (dg_datagrams g) in
      unreadable evs
      \<or> dg_messages g = take MAX_HANDSHAKE_MSGS (map fst (first_occurrences (first_fragments evs)))
        \<and> dg_counts g = (\<lambda>name. length (filter (\<lambda>key. fst key = name) (first_fragments evs)))
        \<and> dg_alert g = last_of (alerts_of evs)
        \<and> (dg_outcome g \<noteq> COMPLETED \<longrightarrow> dg_outcome g = outcome_of evs))"

lemma reported_true:
  assumes "reported g"
  shows "diagnosis_true g" "diagnosis_true (g\<lparr>dg_error := True\<rparr>)" "diagnosis_true (g\<lparr>dg_outcome := COMPLETED\<rparr>)"
    "diagnosis_true (g\<lparr>dg_outcome := COMPLETED, dg_rtt := x\<rparr>)"
    "diagnosis_true (g\<lparr>dg_outcome := COMPLETED, dg_error := True\<rparr>)"
    "diagnosis_true (g\<lparr>dg_outcome := COMPLETED, dg_rtt := x, dg_error := True\<rparr>)"
  using assms unfolding reported_def report_of_def diagnosis_true_def Let_def
  by (cases "unreadable (events_of (dg_datagrams g))"; simp)+

lemma reported_not_completed:
  assumes "reported g" and "\<not> unreadable (events_of (dg_datagrams g))"
  shows "dg_outcome g \<noteq> COMPLETED"
  using assms by (simp add: reported_def report_of_def outcome_of_def)

lemma conclude_diagnosis_result:
  assumes "reported (snd (dv_conn d))" and "fst (conclude_diagnosis k out d) = Inr g"
  shows "diagnosis_true g" and "dg_datagrams g = dg_datagrams (snd (dv_conn d))"
    and "out = Inr True \<Longrightarrow> dg_outcome g = COMPLETED"
    and "out \<noteq> Inr True \<Longrightarrow> dg_outcome g = dg_outcome (snd (dv_conn d))"
    and "out \<noteq> Inr True \<Longrightarrow> dg_error g \<longleftrightarrow> dg_error (snd (dv_conn d)) \<or> (\<exists>e. out = Inl e)"
  using assms reported_true [OF assms(1)]
  by (auto simp: conclude_diagnosis_def Let_def split: sum.splits bool.splits if_splits prod.splits)

lemma reported_start: "reported (snd (conn, diagnosis_new))"
  using reported_new by simp

section \<open>Properties\<close>

text \<open>
  A handshake record without payload, in clear text, makes the callback raise \<open>TypeError\<close>; no handler of
  the diagnosis catches it, so it leaves \<open>diagnose_dtls_handshake\<close>, which promises to fold what the peer
  sends into its result.
\<close>

lemma empty_record_raises:
  "fst (record_datagram elapsed [22, 0xFE, 0xFD, 0, 0, 0, 0, 0, 0, 0, 0, 0, 0] diagnosis_new) = Inl Py_TypeError"
  "fst (conclude_diagnosis k (Inl Py_TypeError) d) = Inl Py_TypeError"
proof -
  have "iter_datagram_events [22, 0xFE, 0xFD, 0, 0, 0, 0, 0, 0, 0, 0, 0, 0] = [Bare_event 22]" by code_simp
  then show "fst (record_datagram elapsed [22, 0xFE, 0xFD, 0, 0, 0, 0, 0, 0, 0, 0, 0, 0] diagnosis_new) = Inl Py_TypeError"
    by (simp add: record_datagram_def diagnosis_new_def note_event_def Let_def)
  show "fst (conclude_diagnosis k (Inl Py_TypeError) d) = Inl Py_TypeError"
    by (simp add: conclude_diagnosis_def Let_def isinstance_of_def eval_nat_numeral)
qed


definition silent_diagnosis :: "dtls diagnosis_setup" where
  "silent_diagnosis = \<lparr>ds_auth = True, ds_cert_pem = False, ds_key_pem = False, ds_cert_path = False, ds_key_path = False,
     ds_configurable = True, ds_factory = Some (Inr demo_client), ds_connection = (\<lambda>_. Inl ProbeError),
     ds_engine = psk_engine plain_crypto, ds_shutdown = dtls_shutdown plain_crypto,
     ds_net = \<lparr>n_clock = real, n_send = (\<lambda>n d. Inr (length d)), n_select = (\<lambda>n. Idle),
       n_recv = (\<lambda>n. Inl Py_TimeoutError)\<rparr>,
     ds_elapsed = (\<lambda>_. 1)\<rparr>"


end
