(* ===== verification/Auth_Providers.thy ===== *)
theory Auth_Providers
  imports Dtls_Psk
begin

text \<open>
  \<open>protocol/auth.py\<close>: the Samsung server profile (its validation, the verification callback and the
  identity read out of a certificate subject), the certificate and PSK providers and what each does to an
  OpenSSL context. X.509 parsing and the OpenSSL calls are parameters; a context is the list of the calls
  made on it.
\<close>

section \<open>UUIDs\<close>

definition hex_value :: "nat \<Rightarrow> nat option" where
  "hex_value c =
     (if 0x30 \<le> c \<and> c \<le> 0x39 then Some (c - 0x30)
      else if 0x61 \<le> c \<and> c \<le> 0x66 then Some (c - 0x61 + 10)
      else if 0x41 \<le> c \<and> c \<le> 0x46 then Some (c - 0x41 + 10)
      else None)"

definition hex_digit :: "nat \<Rightarrow> nat" where
  "hex_digit d = (if d < 10 then 0x30 + d else 0x61 + d - 10)"

text \<open>The five groups of the text of a UUID.\<close>

definition uuid_groups :: "pystr \<Rightarrow> pystr list option" where
  "uuid_groups s =
     (let groups = py_split 0x2D s in
      if map length groups = [8, 4, 4, 4, 12] \<and> list_all (\<lambda>c. hex_value c \<noteq> None) (concat groups)
      then Some groups else None)"

definition hex_number :: "pystr \<Rightarrow> nat" where
  "hex_number cs = foldl (\<lambda>n c. n * 16 + the (hex_value c)) 0 cs"

definition uuid_of_text :: "pystr \<Rightarrow> nat option" where
  "uuid_of_text s = map_option (\<lambda>groups. hex_number (concat groups)) (uuid_groups s)"

text \<open>\<open>str(UUID(int=n))\<close>.\<close>

fun hex_digits :: "nat \<Rightarrow> nat \<Rightarrow> pystr" where
  "hex_digits 0 n = []"
| "hex_digits (Suc k) n = hex_digits k (n div 16) @ [hex_digit (n mod 16)]"

definition uuid_text :: "nat \<Rightarrow> pystr" where
  "uuid_text n =
     (let h = hex_digits 32 n in
      py_join [0x2D] [slice h 0 8, slice h 8 12, slice h 12 16, slice h 16 20, slice h 20 32])"

datatype identity_arg = Uuid_value nat | Uuid_string pystr | Other_identity

text \<open>
  \<open>_parse_expected_identity\<close>. \<open>UUID()\<close> reads more spellings, but what it reads must print as the argument
  again, which only the canonical text does.
\<close>

definition parse_expected_identity :: "identity_arg \<Rightarrow> nat result" where
  "parse_expected_identity v =
     andThen (case v of
                Uuid_value n \<Rightarrow> Inr n
              | Uuid_string s \<Rightarrow>
                  (case uuid_of_text s of
                     None \<Rightarrow> Inl Py_ValueError
                   | Some n \<Rightarrow> if s \<noteq> uuid_text n then Inl Py_ValueError else Inr n)
              | Other_identity \<Rightarrow> Inl Py_TypeError) (\<lambda>n.
       if n = 0 then Inl Py_ValueError else Inr n)"

section \<open>PEM certificates\<close>

definition pem_begin :: bytes where "pem_begin = map of_char ''-----BEGIN CERTIFICATE-----''"
definition pem_end :: bytes where "pem_end = map of_char ''-----END CERTIFICATE-----''"

text \<open>\<open>bytes.find\<close>, relative to the start of the list.\<close>

fun find_bytes :: "bytes \<Rightarrow> bytes \<Rightarrow> nat option" where
  "find_bytes pat [] = (if pat = [] then Some 0 else None)"
| "find_bytes pat (b # bs) = (if prefix pat (b # bs) then Some 0 else map_option Suc (find_bytes pat bs))"

text \<open>The first match of \<open>_PEM_CERT_RE\<close>: what is before it, the match, what is after it.\<close>

definition first_pem :: "bytes \<Rightarrow> (bytes \<times> bytes \<times> bytes) option" where
  "first_pem raw =
     (case find_bytes pem_begin raw of
        None \<Rightarrow> None
      | Some i \<Rightarrow>
          let start = i + length pem_begin in
          (case find_bytes pem_end (drop start raw) of
             None \<Rightarrow> None
           | Some j \<Rightarrow>
               let stop = start + j + length pem_end in
               Some (take i raw, slice raw i stop, drop stop raw)))"

lemma find_bytes_bound: "find_bytes pat bs = Some i \<Longrightarrow> i + length pat \<le> length bs"
  by (induction bs arbitrary: i) (auto dest: prefix_length_le split: if_splits)

lemma first_pem_shorter: "first_pem raw = Some (before, cert, rest) \<Longrightarrow> length rest < length raw"
  by (auto simp: first_pem_def Let_def pem_begin_def split: option.splits dest!: find_bytes_bound)

text \<open>\<open>findall\<close> and \<open>sub(b"")\<close> of the same expression.\<close>

function pem_certificates :: "bytes \<Rightarrow> bytes list \<times> bytes" where
  "pem_certificates raw =
     (case first_pem raw of
        None \<Rightarrow> ([], raw)
      | Some (before, cert, rest) \<Rightarrow>
          (case pem_certificates rest of (certs, others) \<Rightarrow> (cert # certs, before @ others)))"
  by pat_completeness auto
termination
  by (relation "measure length") (auto dest: first_pem_shorter)

declare pem_certificates.simps [simp del]

definition blank :: "byte \<Rightarrow> bool" where
  "blank b \<longleftrightarrow> unat b \<in> {9, 10, 11, 12, 13, 32}"

section \<open>The server profile\<close>

datatype samsung_role = HOME_APPLIANCE | VD_DEVICE

definition role_value :: "samsung_role \<Rightarrow> pystr" where
  "role_value role = (case role of HOME_APPLIANCE \<Rightarrow> str_of ''OCF HA Device'' | VD_DEVICE \<Rightarrow> str_of ''OCF VD Device'')"

record server_profile =
  sp_identity :: "nat option"
  sp_role :: samsung_role
  sp_cas :: "bytes list"

text \<open>
  X.509: loading a PEM certificate, the \<open>ca\<close> flag of each BasicConstraints extension, the DER encoding.
\<close>

record 'k x509 =
  x_load :: "bytes \<Rightarrow> 'k result"
  x_constraints :: "'k \<Rightarrow> bool list result"
  x_der :: "'k \<Rightarrow> bytes"

fun map_result :: "('a \<Rightarrow> 'b result) \<Rightarrow> 'a list \<Rightarrow> 'b list result" where
  "map_result f [] = Inr []"
| "map_result f (x # xs) = andThen (f x) (\<lambda>y. andThen (map_result f xs) (\<lambda>ys. Inr (y # ys)))"

definition invalid_certificate :: "exc \<Rightarrow> exc" where
  "invalid_certificate e =
     (if isinstance_of e Crypto_Error \<or> isinstance_of e Py_ValueError then Py_ValueError else e)"

definition additional_cas :: "'k x509 \<Rightarrow> pyval \<Rightarrow> bytes list result" where
  "additional_cas x pem =
     (case pem of
        PyNone \<Rightarrow> Inr []
      | PyStr text \<Rightarrow>
          if list_ex (\<lambda>c. c \<ge> 128) text then Inl Py_ValueError
          else
            let raw = map mk_byte text in
            (case pem_certificates raw of
               (parsed, others) \<Rightarrow>
                 if \<not> (1 \<le> length parsed \<and> length parsed \<le> 4) \<or> length raw > 32 * 1024 \<or> \<not> list_all blank others
                 then Inl Py_ValueError
                 else
                   (case andThen (map_result (x_load x) parsed) (\<lambda>loaded.
                         andThen (map_result (x_constraints x) loaded) (\<lambda>constraints. Inr (loaded, constraints))) of
                      Inl e \<Rightarrow> Inl (invalid_certificate e)
                    | Inr (loaded, constraints) \<Rightarrow>
                        if list_ex (\<lambda>cs. length cs \<noteq> 1 \<or> \<not> hd cs) constraints then Inl Py_ValueError
                        else if \<not> distinct (map (x_der x) loaded) then Inl Py_ValueError
                        else Inr parsed))
      | _ \<Rightarrow> Inl Py_TypeError)"

text \<open>\<open>_initialize\<close>; a role that is not a \<open>SamsungServerRole\<close> is \<open>None\<close>.\<close>

definition initialize_profile ::
  "'k x509 \<Rightarrow> nat option \<Rightarrow> samsung_role option \<Rightarrow> pyval \<Rightarrow> server_profile result" where
  "initialize_profile x expected role pem =
     (case role of
        None \<Rightarrow> Inl Py_TypeError
      | Some role \<Rightarrow>
          andThen (additional_cas x pem) (\<lambda>cas. Inr \<lparr>sp_identity = expected, sp_role = role, sp_cas = cas\<rparr>))"

definition bound_device :: "'k x509 \<Rightarrow> identity_arg \<Rightarrow> samsung_role option \<Rightarrow> pyval \<Rightarrow> server_profile result" where
  "bound_device x expected role pem =
     andThen (parse_expected_identity expected) (\<lambda>n. initialize_profile x (Some n) role pem)"

definition discover_device :: "'k x509 \<Rightarrow> samsung_role option \<Rightarrow> pyval \<Rightarrow> server_profile result" where
  "discover_device x role pem = initialize_profile x None role pem"

section \<open>The identity of a certificate\<close>

definition lower :: "pystr \<Rightarrow> pystr" where
  "lower s = map (\<lambda>c. if 0x41 \<le> c \<and> c \<le> 0x5A then c + 0x20 else c) s"

definition cn_prefix :: pystr where "cn_prefix = str_of ''ocf device: ''"

text \<open>
  \<open>_SAMSUNG_SERVER_CN_RE.fullmatch\<close> of an ASCII text. The UUID and its parentheses are the last 39
  characters and the name before them holds no parenthesis, so there is only one way to match.
\<close>

definition device_of_cn :: "pystr \<Rightarrow> nat option" where
  "device_of_cn cn =
     (let n = length cn; name = slice cn 12 (n - 39); tail = drop (n - 39) cn in
      if n < 12 + 1 + 39 \<or> lower (take 12 cn) \<noteq> cn_prefix
         \<or> length name > 96 \<or> list_ex (\<lambda>c. c \<in> {0x28, 0x29, 0x0D, 0x0A}) name
         \<or> take 2 tail \<noteq> [0x20, 0x28] \<or> drop 38 tail \<noteq> [0x29]
      then None
      else uuid_of_text (slice tail 2 38))"

text \<open>\<open>bytes.decode('ascii')\<close>.\<close>

definition decode_ascii :: "bytes \<Rightarrow> pystr result" where
  "decode_ascii bs = (if list_ex (\<lambda>b. unat b \<ge> 128) bs then Inl Py_UnicodeError else Inr (map unat bs))"

definition decode_component :: "bytes \<times> bytes \<Rightarrow> (pystr \<times> pystr) result" where
  "decode_component c =
     andThen (decode_ascii (fst c)) (\<lambda>name. andThen (decode_ascii (snd c)) (\<lambda>value. Inr (name, value)))"

definition values_of :: "string \<Rightarrow> (pystr \<times> pystr) list \<Rightarrow> pystr list" where
  "values_of name components = map snd (filter (\<lambda>c. fst c = str_of name) components)"

text \<open>A subject is its components, or the exception reading them raises.\<close>

type_synonym subject = "(bytes \<times> bytes) list result"

definition subject_identity :: "samsung_role \<Rightarrow> (pystr \<times> pystr) list \<Rightarrow> nat option" where
  "subject_identity role components =
     (if length (values_of ''CN'' components) \<noteq> 1 \<or> values_of ''OU'' components \<noteq> [role_value role]
         \<or> values_of ''O'' components \<noteq> [str_of ''Samsung Electronics''] \<or> values_of ''C'' components \<noteq> [str_of ''KR'']
      then None
      else
        (case device_of_cn (hd (values_of ''CN'' components)) of
           None \<Rightarrow> None
         | Some n \<Rightarrow> if n \<noteq> 0 then Some n else None))"

definition subject_errors :: "exc \<Rightarrow> bool" where
  "subject_errors e \<longleftrightarrow>
     list_ex (isinstance_of e) [Py_AttributeError, Py_TypeError, Py_UnicodeError, Py_ValueError, Crypto_Error]"

definition certificate_identity :: "samsung_role \<Rightarrow> subject \<Rightarrow> nat option result" where
  "certificate_identity role subject =
     (case andThen subject (map_result decode_component) of
        Inl e \<Rightarrow> if subject_errors e then Inr None else Inl e
      | Inr components \<Rightarrow> Inr (subject_identity role components))"

text \<open>\<open>_verify_peer\<close>, called by OpenSSL for every certificate of the chain; the leaf has depth 0.\<close>

definition verify_peer :: "server_profile \<Rightarrow> subject option \<Rightarrow> int \<Rightarrow> bool \<Rightarrow> bool result" where
  "verify_peer p certificate depth ok =
     (case certificate of
        None \<Rightarrow> Inr False
      | Some subject \<Rightarrow>
          if \<not> ok \<or> depth < 0 then Inr False
          else if depth > 0 then Inr True
          else
            andThen (certificate_identity (sp_role p) subject) (\<lambda>identity.
              Inr (identity \<noteq> None \<and> (sp_identity p = None \<or> identity = sp_identity p))))"

definition authenticated_server_identity :: "server_profile option \<Rightarrow> subject option \<Rightarrow> nat option result" where
  "authenticated_server_identity profile certificate =
     (case profile of
        None \<Rightarrow> Inr None
      | Some p \<Rightarrow>
          andThen (certificate_identity (sp_role p) (case certificate of None \<Rightarrow> Inl Py_AttributeError | Some s \<Rightarrow> s))
            (\<lambda>identity. if identity = None then Inl Py_ValueError else Inr identity))"

section \<open>Contexts\<close>

datatype verifier = Verify_default | Verify_profile server_profile

datatype auth_call = Set_curves | Set_tmp_curve | Set_signature_algorithms | Set_no_ticket | Add_to_store bytes
  | Load_root | Set_verify verifier | Set_ciphers bytes | Use_certificate bytes | Add_extra_chain bytes
  | Use_private_key bytes | Use_certificate_path pyval | Use_private_key_path pyval | Check_private_key
  | Set_psk_callback

text \<open>
  OpenSSL: which setters the binding has, and the outcome of the \<open>n\<close>-th call, an exception or whether it
  returned 1.
\<close>

record openssl =
  ol_has_curves :: bool
  ol_has_signature_algorithms :: bool
  ol_has_psk :: bool
  ol_do :: "nat \<Rightarrow> auth_call \<Rightarrow> bool result"

definition do_call :: "openssl \<Rightarrow> auth_call \<Rightarrow> auth_call list \<Rightarrow> bool result \<times> auth_call list" where
  "do_call lib call calls =
     (case ol_do lib (length calls) call of
        Inl e \<Rightarrow> (Inl e, calls)
      | Inr accepted \<Rightarrow> (Inr accepted, calls @ [call]))"

definition must_call :: "openssl \<Rightarrow> auth_call \<Rightarrow> auth_call list \<Rightarrow> unit result \<times> auth_call list" where
  "must_call lib call calls = then_do (do_call lib call calls) (\<lambda>_ calls. (Inr (), calls))"

fun must_calls :: "openssl \<Rightarrow> auth_call list \<Rightarrow> auth_call list \<Rightarrow> unit result \<times> auth_call list" where
  "must_calls lib [] calls = (Inr (), calls)"
| "must_calls lib (c # cs) calls = then_do (must_call lib c calls) (\<lambda>_. must_calls lib cs)"

text \<open>The calls of a \<open>try\<close> block that turns the exceptions \<open>caught\<close> into \<open>RuntimeError\<close>.\<close>

definition or_runtime_error ::
  "(exc \<Rightarrow> bool) \<Rightarrow> unit result \<times> auth_call list \<Rightarrow> unit result \<times> auth_call list" where
  "or_runtime_error caught m =
     (case m of (Inl e, calls) \<Rightarrow> (Inl (if caught e then Py_RuntimeError else e), calls) | _ \<Rightarrow> m)"

definition require_accepted :: "bool result \<times> auth_call list \<Rightarrow> unit result \<times> auth_call list" where
  "require_accepted m =
     then_do m (\<lambda>accepted calls. (if accepted then Inr () else Inl Py_RuntimeError, calls))"

definition curve_errors :: "exc \<Rightarrow> bool" where
  "curve_errors e \<longleftrightarrow> list_ex (isinstance_of e) [Py_AttributeError, Py_TypeError, Py_ValueError, DtlsError]"

definition configure_profile ::
  "openssl \<Rightarrow> server_profile \<Rightarrow> auth_call list \<Rightarrow> unit result \<times> auth_call list" where
  "configure_profile lib p calls =
     then_do (if ol_has_curves lib then require_accepted (do_call lib Set_curves calls)
              else or_runtime_error curve_errors (must_call lib Set_tmp_curve calls)) (\<lambda>_ calls.
     then_do (if \<not> ol_has_signature_algorithms lib then (Inl Py_RuntimeError, calls)
              else require_accepted (do_call lib Set_signature_algorithms calls)) (\<lambda>_ calls.
     then_do (must_call lib Set_no_ticket calls) (\<lambda>_ calls.
       or_runtime_error (\<lambda>e. isinstance_of e Crypto_Error)
         (must_calls lib (map Add_to_store (sp_cas p)) calls))))"

definition DTLS_CIPHERS :: bytes where
  "DTLS_CIPHERS = map of_char ''ECDHE-ECDSA-AES128-GCM-SHA256:@SECLEVEL=0''"

definition DTLS_PSK_CIPHERS :: bytes where
  "DTLS_PSK_CIPHERS = map of_char ''ECDHE-PSK-AES128-CBC-SHA256:@SECLEVEL=0''"

definition configure_certificate_server ::
  "openssl \<Rightarrow> server_profile option \<Rightarrow> auth_call list \<Rightarrow> unit result \<times> auth_call list" where
  "configure_certificate_server lib profile calls =
     then_do (must_call lib Load_root calls) (\<lambda>_ calls.
     then_do (case profile of
                None \<Rightarrow> must_call lib (Set_verify Verify_default) calls
              | Some p \<Rightarrow> then_do (configure_profile lib p calls) (\<lambda>_. must_call lib (Set_verify (Verify_profile p))))
       (\<lambda>_ calls. must_call lib (Set_ciphers DTLS_CIPHERS) calls))"

text \<open>
  \<open>_load_pem_chain\<close>: the first certificate is the leaf, the others its chain. Only strings have an \<open>encode\<close>.
\<close>

definition encoded :: "pyval \<Rightarrow> bytes result" where
  "encoded v = (case v of PyStr s \<Rightarrow> utf8_encode s | _ \<Rightarrow> Inl Py_AttributeError)"

definition load_pem_chain ::
  "openssl \<Rightarrow> pyval \<Rightarrow> pyval \<Rightarrow> auth_call list \<Rightarrow> unit result \<times> auth_call list" where
  "load_pem_chain lib cert_pem key_pem calls =
     then_do (encoded cert_pem, calls) (\<lambda>raw calls.
       (case fst (pem_certificates raw) of
          [] \<Rightarrow> (Inl Py_ValueError, calls)
        | leaf # chain \<Rightarrow>
            then_do (must_calls lib (Use_certificate leaf # map Add_extra_chain chain) calls) (\<lambda>_ calls.
            then_do (encoded key_pem, calls) (\<lambda>key calls.
              must_calls lib [Use_private_key key, Check_private_key] calls))))"

section \<open>Providers\<close>

datatype profile_arg = No_profile | Profile server_profile | Not_a_profile

definition server_certificate_auth :: "profile_arg \<Rightarrow> server_profile result" where
  "server_certificate_auth arg = (case arg of Profile p \<Rightarrow> Inr p | _ \<Rightarrow> Inl Py_TypeError)"

definition server_certificate_configure ::
  "openssl \<Rightarrow> server_profile \<Rightarrow> auth_call list \<Rightarrow> unit result \<times> auth_call list" where
  "server_certificate_configure lib p calls = configure_certificate_server lib (Some p) calls"

record certificate_auth =
  ca_certificate_path :: pyval
  ca_private_key_path :: pyval
  ca_certificate_pem :: pyval
  ca_private_key_pem :: pyval
  ca_profile :: "server_profile option"

definition certificate_auth_new ::
  "pyval \<Rightarrow> pyval \<Rightarrow> pyval \<Rightarrow> pyval \<Rightarrow> profile_arg \<Rightarrow> certificate_auth result" where
  "certificate_auth_new certificate_path private_key_path certificate_pem private_key_pem profile =
     (let file_supplied = certificate_path \<noteq> PyNone \<or> private_key_path \<noteq> PyNone;
          memory_supplied = certificate_pem \<noteq> PyNone \<or> private_key_pem \<noteq> PyNone in
      andThen (if file_supplied \<and> memory_supplied then Inl Py_ValueError
               else if file_supplied then
                 raise_if (certificate_path = PyNone \<or> private_key_path = PyNone) Py_ValueError
               else if memory_supplied then
                 raise_if (certificate_pem = PyNone \<or> private_key_pem = PyNone) Py_ValueError
               else Inl Py_ValueError) (\<lambda>_.
        let made = (\<lambda>p. \<lparr>ca_certificate_path = certificate_path, ca_private_key_path = private_key_path,
                         ca_certificate_pem = certificate_pem, ca_private_key_pem = private_key_pem, ca_profile = p\<rparr>) in
        (case profile of
           No_profile \<Rightarrow> Inr (made None)
         | Profile p \<Rightarrow> Inr (made (Some p))
         | Not_a_profile \<Rightarrow> Inl Py_TypeError)))"

text \<open>A path stands for its text, \<open>str\<close> of it.\<close>

definition certificate_configure ::
  "openssl \<Rightarrow> certificate_auth \<Rightarrow> auth_call list \<Rightarrow> unit result \<times> auth_call list" where
  "certificate_configure lib a calls =
     then_do (configure_certificate_server lib (ca_profile a) calls) (\<lambda>_ calls.
       if ca_certificate_pem a \<noteq> PyNone then
         load_pem_chain lib (ca_certificate_pem a) (ca_private_key_pem a) calls
       else
         must_calls lib [Use_certificate_path (ca_certificate_path a), Use_private_key_path (ca_private_key_path a),
                         Check_private_key] calls)"

record psk_auth =
  pa_identity :: bytes
  pa_key :: bytes

text \<open>A \<open>PyBytes\<close> stands for a \<open>bytes\<close> object here, as in \<open>Owner_Psk\<close>.\<close>

definition validate_psk_identity :: "pyval \<Rightarrow> bytes result" where
  "validate_psk_identity identity =
     (case identity of PyBytes i \<Rightarrow> if length i \<noteq> 16 then Inl Py_ValueError else Inr i | _ \<Rightarrow> Inl Py_TypeError)"

definition psk_auth_new :: "pyval \<Rightarrow> pyval \<Rightarrow> psk_auth result" where
  "psk_auth_new identity key =
     (case (identity, key) of
        (PyBytes i, PyBytes k) \<Rightarrow>
          andThen (validate_psk_identity identity) (\<lambda>_.
            if length k \<notin> {16, 32} then Inl Py_ValueError else Inr \<lparr>pa_identity = i, pa_key = k\<rparr>)
      | _ \<Rightarrow> Inl Py_TypeError)"

text \<open>
  The OpenSSL callback: its return value, and what it writes to the identity and key buffers. It exists only
  for an identity without a zero byte.
\<close>

definition has_psk_callback :: "psk_auth \<Rightarrow> bool" where
  "has_psk_callback a \<longleftrightarrow> 0 \<notin> set (pa_identity a)"

definition psk_client_callback ::
  "psk_auth \<Rightarrow> bool \<Rightarrow> nat \<Rightarrow> bool \<Rightarrow> nat \<Rightarrow> nat \<times> (bytes \<times> bytes) option" where
  "psk_client_callback a identity_buffer max_identity_length key_buffer max_key_length =
     (if \<not> identity_buffer \<or> \<not> key_buffer \<or> length (pa_identity a) + 1 > max_identity_length
         \<or> length (pa_key a) > max_key_length
      then (0, None)
      else (length (pa_key a), Some (pa_identity a @ [0], pa_key a)))"

definition create_dtls_connection :: "psk_auth \<Rightarrow> pyval \<Rightarrow> dtls result" where
  "create_dtls_connection a mtu = dtls_new (PyBytes (pa_identity a)) (PyBytes (pa_key a)) mtu"

definition psk_configure :: "openssl \<Rightarrow> psk_auth \<Rightarrow> auth_call list \<Rightarrow> unit result \<times> auth_call list" where
  "psk_configure lib a calls =
     (if \<not> has_psk_callback a then (Inl Py_ValueError, calls)
      else if \<not> ol_has_psk lib then (Inl Py_RuntimeError, calls)
      else must_calls lib [Set_ciphers DTLS_PSK_CIPHERS, Set_psk_callback] calls)"

end
