(* ===== verification/Auth_Identity.thy ===== *)
theory Auth_Identity
  imports Auth_Providers
begin

text \<open>
  What the Samsung server profile accepts, what a provider does to a context, and where a PSK identity goes.
  The first part shows that the text of a UUID and its number determine one another (\<open>uuid_of_text_eq\<close>),
  so that the subjects \<open>_certificate_identity\<close> reads can be described without parsing (\<open>names_device\<close>);
  the second that a provider follows a plan of calls (\<open>follows\<close>), composed as the code composes it.
\<close>

section \<open>The text of a UUID\<close>

definition lower_char :: "nat \<Rightarrow> nat" where
  "lower_char c = (if 0x41 \<le> c \<and> c \<le> 0x5A then c + 0x20 else c)"

lemma lower_map: "lower s = map lower_char s"
  by (simp add: lower_def lower_char_def cong: map_cong)

lemma lower_append [simp]: "lower (xs @ ys) = lower xs @ lower ys"
  by (simp add: lower_def)

lemma length_lower [simp]: "length (lower s) = length s"
  by (simp add: lower_def)

lemma hex_value_cases:
  "hex_value c = Some d \<longleftrightarrow>
     (d < 10 \<and> c = 0x30 + d) \<or> (10 \<le> d \<and> d < 16 \<and> (c = 0x61 + d - 10 \<or> c = 0x41 + d - 10))"
  by (auto simp: hex_value_def split: if_splits)

lemma hex_value_digit [simp]: "d < 16 \<Longrightarrow> hex_value (hex_digit d) = Some d"
  by (auto simp: hex_value_def hex_digit_def)

lemma hex_digit_value: "hex_value c = Some d \<Longrightarrow> hex_digit d = lower_char c"
  by (auto simp: hex_value_cases hex_digit_def lower_char_def)

lemma hex_value_lower [simp]: "hex_value (lower_char c) = hex_value c"
  by (auto simp: hex_value_def lower_char_def)

lemma hex_value_bound: "hex_value c = Some d \<Longrightarrow> d < 16"
  by (auto simp: hex_value_cases)

lemma hex_value_not_dash [simp]: "hex_value 0x2D = None"
  by (simp add: hex_value_def)

lemma hex_number_snoc: "hex_number (cs @ [c]) = hex_number cs * 16 + the (hex_value c)"
  by (simp add: hex_number_def)

lemma hex_number_lower: "hex_number (lower cs) = hex_number cs"
  by (induction cs rule: rev_induct) (simp_all add: hex_number_def lower_map)

definition all_hex :: "pystr \<Rightarrow> bool" where
  "all_hex cs = list_all (\<lambda>c. hex_value c \<noteq> None) cs"

lemma all_hex_simps [simp]:
  "all_hex []"
  "all_hex (c # cs) \<longleftrightarrow> hex_value c \<noteq> None \<and> all_hex cs"
  "all_hex (cs @ ds) \<longleftrightarrow> all_hex cs \<and> all_hex ds"
  by (simp_all add: all_hex_def)

lemma uuid_groups_eq:
  "uuid_groups s =
     (if map length (py_split 0x2D s) = [8, 4, 4, 4, 12] \<and> all_hex (concat (py_split 0x2D s))
      then Some (py_split 0x2D s) else None)"
  by (simp only: uuid_groups_def Let_def all_hex_def)

lemma hex_digits_number:
  "all_hex cs \<Longrightarrow> hex_digits (length cs) (hex_number cs) = lower cs \<and> hex_number cs < 16 ^ length cs"
proof (induction cs rule: rev_induct)
  case Nil
  then show ?case by (simp add: hex_number_def lower_def)
next
  case (snoc c cs)
  then obtain d where d: "hex_value c = Some d" by auto
  have "d < 16" by (rule hex_value_bound [OF d])
  moreover have "hex_digit d = lower_char c" by (rule hex_digit_value [OF d])
  ultimately show ?case using snoc d by (simp add: hex_number_snoc lower_map)
qed

lemma length_hex_digits [simp]: "length (hex_digits k n) = k"
  by (induction k arbitrary: n) simp_all

lemma all_hex_digits [simp]: "all_hex (hex_digits k n)"
  by (induction k arbitrary: n) simp_all

lemma hex_number_digits: "hex_number (hex_digits k n) = n mod 16 ^ k"
proof (induction k arbitrary: n)
  case 0
  then show ?case by (simp add: hex_number_def)
next
  case (Suc k)
  then show ?case by (simp add: hex_number_snoc mod_mult2_eq mult.commute)
qed

lemma all_hex_lower: "all_hex (lower cs) = all_hex cs"
  by (induction cs) (simp_all add: lower_map)

lemma split_lower: "py_split 0x2D (lower s) = map lower (py_split 0x2D s)"
  by (induction s) (auto simp: lower_map lower_char_def split: list.splits)

lemma join_split: "py_join [c] (py_split c s) = s"
proof (induction s)
  case (Cons x s)
  then show ?case by (cases "py_split c s"; cases "tl (py_split c s)") auto
qed simp

definition in_groups :: "pystr \<Rightarrow> pystr list" where
  "in_groups h = [slice h 0 8, slice h 8 12, slice h 12 16, slice h 16 20, slice h 20 32]"

lemma uuid_text_groups: "uuid_text n = py_join [0x2D] (in_groups (hex_digits 32 n))"
  by (simp add: uuid_text_def in_groups_def Let_def)

lemma in_groups_concat:
  assumes "map length gs = [8, 4, 4, 4, 12]"
  shows "in_groups (concat gs) = gs"
proof -
  obtain a b c d e where "gs = [a, b, c, d, e]" "length a = 8" "length b = 4" "length c = 4" "length d = 4" "length e = 12"
    using assms by (auto simp: map_eq_Cons_conv)
  then show ?thesis by (simp add: in_groups_def slice_def)
qed

lemma concat_in_groups:
  assumes "length h = 32"
  shows "concat (in_groups h) = h" and "map length (in_groups h) = [8, 4, 4, 4, 12]"
proof -
  have "take 8 h @ slice h 8 12 @ slice h 12 16 @ slice h 16 20 @ slice h 20 32 @ drop 32 h = h"
    by (simp add: drop_slice)
  then show "concat (in_groups h) = h" using assms by (simp add: in_groups_def)
  show "map length (in_groups h) = [8, 4, 4, 4, 12]" using assms by (simp add: in_groups_def)
qed

lemma uuid_groups_digits:
  "uuid_groups (uuid_text n) = Some (in_groups (hex_digits 32 n))"
proof -
  have *: "concat (in_groups (hex_digits 32 n)) = hex_digits 32 n"
    "map length (in_groups (hex_digits 32 n)) = [8, 4, 4, 4, 12]"
    by (simp_all add: concat_in_groups)
  have "\<forall>xs \<in> set (in_groups (hex_digits 32 n)). 0x2D \<notin> set xs"
  proof
    fix xs assume "xs \<in> set (in_groups (hex_digits 32 n))"
    then have "set xs \<subseteq> set (hex_digits 32 n)" using * by (metis UN_upper set_concat)
    then show "0x2D \<notin> set xs" using all_hex_digits [of 32 n] by (fastforce simp: all_hex_def list_all_iff)
  qed
  then have "py_split 0x2D (uuid_text n) = in_groups (hex_digits 32 n)"
    unfolding uuid_text_groups by (rule py_split_join [rotated]) (simp add: in_groups_def)
  then show ?thesis using * by (simp only: uuid_groups_eq if_True all_hex_digits simp_thms)
qed

lemma concat_map_lower: "concat (map lower gs) = lower (concat gs)"
  by (induction gs) (simp_all add: lower_def)

lemma uuid_groups_lower: "uuid_groups (lower s) = map_option (map lower) (uuid_groups s)"
proof -
  have "map length (map lower (py_split 0x2D s)) = map length (py_split 0x2D s)" by (simp add: comp_def)
  moreover have "all_hex (concat (map lower (py_split 0x2D s))) = all_hex (concat (py_split 0x2D s))"
    by (simp only: concat_map_lower all_hex_lower)
  ultimately show ?thesis by (simp only: uuid_groups_eq split_lower) simp
qed

lemma lower_join: "lower (py_join [0x2D] gs) = py_join [0x2D] (map lower gs)"
  by (induction "[0x2D::nat]" gs rule: py_join.induct) (simp_all add: lower_def)

lemma uuid_of_text_eq: "uuid_of_text s = Some n \<longleftrightarrow> lower s = uuid_text n \<and> n < 2 ^ 128"
proof
  assume "uuid_of_text s = Some n"
  then obtain gs where gs: "uuid_groups s = Some gs" "n = hex_number (concat gs)"
    by (auto simp: uuid_of_text_def)
  from gs(1) have "py_split 0x2D s = gs \<and> map length gs = [8, 4, 4, 4, 12] \<and> all_hex (concat gs)"
    unfolding uuid_groups_eq by (metis option.distinct(1) option.inject)
  then have s: "s = py_join [0x2D] gs" and lens: "map length gs = [8, 4, 4, 4, 12]" and hex: "all_hex (concat gs)"
    using join_split [where c = "0x2D" and s = s] by auto
  have 32: "length (concat gs) = 32" using lens by (simp add: length_concat)
  then have d: "hex_digits 32 n = lower (concat gs)" "n < 16 ^ 32"
    using hex_digits_number [OF hex] gs(2) by simp_all
  have "map length (map lower gs) = [8, 4, 4, 4, 12]" using lens by (simp add: comp_def)
  from in_groups_concat [OF this] have "uuid_text n = lower s"
    by (simp add: uuid_text_groups d(1) s lower_join concat_map_lower [symmetric])
  then show "lower s = uuid_text n \<and> n < 2 ^ 128" using d(2) by simp
next
  assume n: "lower s = uuid_text n \<and> n < 2 ^ 128"
  have "map_option (map lower) (uuid_groups s) = Some (in_groups (hex_digits 32 n))"
    using n uuid_groups_digits [of n] uuid_groups_lower [of s] by simp
  then obtain gs where gs: "uuid_groups s = Some gs" "map lower gs = in_groups (hex_digits 32 n)" by auto
  have "lower (concat gs) = hex_digits 32 n"
    using gs(2) by (simp add: concat_map_lower [symmetric] concat_in_groups)
  then have "hex_number (concat gs) = n" using hex_number_lower [of "concat gs"] hex_number_digits [of 32 n] n by simp
  then show "uuid_of_text s = Some n" by (simp add: uuid_of_text_def gs(1))
qed

section \<open>The subject of a certificate\<close>

text \<open>What a subject must say: the attributes of the role and a common name around the text of \<open>n\<close>.\<close>

definition cn_names :: "pystr \<Rightarrow> nat \<Rightarrow> bool" where
  "cn_names cn n \<longleftrightarrow>
     (\<exists>lead name uuid. cn = lead @ name @ [0x20, 0x28] @ uuid @ [0x29] \<and> lower lead = cn_prefix \<and>
        0 < length name \<and> length name \<le> 96 \<and> set name \<inter> {0x28, 0x29, 0x0D, 0x0A} = {} \<and>
        lower uuid = uuid_text n \<and> n < 2 ^ 128)"

definition names_device :: "samsung_role \<Rightarrow> (pystr \<times> pystr) list \<Rightarrow> nat \<Rightarrow> bool" where
  "names_device role components n \<longleftrightarrow>
     (\<exists>cn. values_of ''CN'' components = [cn] \<and> cn_names cn n) \<and> n \<noteq> 0 \<and>
     values_of ''OU'' components = [role_value role] \<and>
     values_of ''O'' components = [str_of ''Samsung Electronics''] \<and> values_of ''C'' components = [str_of ''KR'']"

lemma length_uuid_text: "length (uuid_text n) = 36"
  by (simp add: uuid_text_groups in_groups_def)

lemma length_cn_prefix: "length cn_prefix = 12"
  by (simp add: cn_prefix_def str_of_def)

lemma if_None_SomeD: "(if P then None else X) = Some n \<Longrightarrow> \<not> P \<and> X = Some n"
  by (cases P) simp_all

lemma device_of_cn_names:
  assumes "device_of_cn cn = Some n"
  shows "cn_names cn n"
proof -
  define k where "k = length cn - 39"
  define lead name tail where "lead = take 12 cn" and "name = slice cn 12 k" and "tail = drop k cn"
  have "\<not> (length cn < 12 + 1 + 39 \<or> lower lead \<noteq> cn_prefix
         \<or> length name > 96 \<or> list_ex (\<lambda>c. c \<in> {0x28, 0x29, 0x0D, 0x0A}) name
         \<or> take 2 tail \<noteq> [0x20, 0x28] \<or> drop 38 tail \<noteq> [0x29]) \<and> uuid_of_text (slice tail 2 38) = Some n"
    using assms unfolding device_of_cn_def Let_def k_def [symmetric] lead_def [symmetric] name_def [symmetric] tail_def [symmetric]
    by (elim if_None_SomeD)
  then have parts: "\<not> length cn < 12 + 1 + 39" "lower lead = cn_prefix" "\<not> length name > 96"
    "\<not> list_ex (\<lambda>c. c \<in> {0x28, 0x29, 0x0D, 0x0A}) name" "take 2 tail = [0x20, 0x28]" "drop 38 tail = [0x29]"
    "uuid_of_text (slice tail 2 38) = Some n"
    by blast+
  have "cn = lead @ name @ tail" and len: "length name = k - 12"
    using parts(1) by (simp_all add: lead_def name_def tail_def k_def drop_slice)
  moreover have "tail = take 2 tail @ slice tail 2 38 @ drop 38 tail" by (simp add: drop_slice)
  ultimately have "cn = lead @ name @ [0x20, 0x28] @ slice tail 2 38 @ [0x29]" using parts(5,6) by metis
  moreover have "0 < length name" using parts(1) len by (simp add: k_def)
  moreover have "set name \<inter> {0x28, 0x29, 0x0D, 0x0A} = {}" using parts(4) by (auto simp: list_ex_iff)
  moreover have "lower (slice tail 2 38) = uuid_text n" "n < 2 ^ 128" using parts(7) by (simp_all add: uuid_of_text_eq)
  ultimately show ?thesis using parts(2) parts(3) [unfolded not_less] unfolding cn_names_def
    by (intro exI [of _ lead] exI [of _ name] exI [of _ "slice tail 2 38"] conjI)
qed

lemma cn_names_device:
  assumes "cn_names cn n"
  shows "device_of_cn cn = Some n"
proof -
  obtain lead name uuid where cn: "cn = lead @ name @ [0x20, 0x28] @ uuid @ [0x29]" and
    p: "lower lead = cn_prefix" "0 < length name" "length name \<le> 96"
       "set name \<inter> {0x28, 0x29, 0x0D, 0x0A} = {}" and u: "uuid_of_text uuid = Some n"
    using assms unfolding cn_names_def uuid_of_text_eq by blast
  have 12: "length lead = 12" using p(1) length_cn_prefix by (metis length_lower)
  have 36: "length uuid = 36" using u length_uuid_text unfolding uuid_of_text_eq by (metis length_lower)
  define k where "k = 12 + length name"
  define tail where "tail = [0x20, 0x28] @ uuid @ [0x29::nat]"
  have t: "length tail = 39" "take 2 tail = [0x20, 0x28]" "drop 38 tail = [0x29]" "slice tail 2 38 = uuid"
    using 36 by (simp_all add: tail_def slice_def)
  have l: "length cn = k + 39" using 12 36 by (simp add: cn k_def)
  have cn': "cn = lead @ name @ tail" by (simp add: cn tail_def)
  have "take 12 cn = lead" "slice cn 12 k = name" "drop k cn = tail"
    using 12 by (simp_all add: cn' slice_def k_def)
  moreover have "\<not> list_ex (\<lambda>c. c \<in> {0x28, 0x29, 0x0D, 0x0A}) name" using p(4) by (auto simp: list_ex_iff)
  moreover have "(k + 39 < 12 + 1 + 39) = False" "(96 < length name) = False" using p(2,3) by (simp_all add: k_def)
  ultimately show ?thesis
    unfolding device_of_cn_def Let_def l add_diff_cancel_right' using p(1) t u by (simp only: if_False simp_thms)
qed

lemma device_of_cn_eq: "device_of_cn cn = Some n \<longleftrightarrow> cn_names cn n"
  using device_of_cn_names cn_names_device by blast

lemma subject_identity_eq: "subject_identity role components = Some n \<longleftrightarrow> names_device role components n"
proof -
  obtain cns where cns: "values_of ''CN'' components = cns" by blast
  show ?thesis
  proof (cases "length cns = 1")
    case True
    then obtain cn where "cns = [cn]" by (auto simp: length_Suc_conv)
    then show ?thesis using cns
      by (auto simp: subject_identity_def names_device_def device_of_cn_eq [symmetric] split: option.splits)
  next
    case False
    then show ?thesis using cns by (auto simp: subject_identity_def names_device_def)
  qed
qed

section \<open>Contexts follow a plan\<close>

text \<open>The outcome of the \<open>i\<close>-th call on a context: the setters of the profile must also return 1.\<close>

definition call_accepted :: "openssl \<Rightarrow> nat \<Rightarrow> auth_call \<Rightarrow> bool" where
  "call_accepted lib i c =
     (case ol_do lib i c of
        Inl _ \<Rightarrow> False
      | Inr returned \<Rightarrow>
          if c = Set_curves then returned
          else if c = Set_signature_algorithms then ol_has_signature_algorithms lib \<and> returned
          else True)"

fun all_accepted :: "openssl \<Rightarrow> nat \<Rightarrow> auth_call list \<Rightarrow> bool" where
  "all_accepted lib i [] = True"
| "all_accepted lib i (c # cs) = (call_accepted lib i c \<and> all_accepted lib (Suc i) cs)"

text \<open>\<open>m\<close> continues \<open>calls\<close> with a prefix of \<open>plan\<close>, and returns exactly when it went through all of it.\<close>

definition follows ::
  "openssl \<Rightarrow> auth_call list \<Rightarrow> auth_call list \<Rightarrow> bool \<Rightarrow> unit result \<times> auth_call list \<Rightarrow> bool" where
  "follows lib calls plan ready m \<longleftrightarrow>
     prefix calls (snd m) \<and> prefix (snd m) (calls @ plan) \<and>
     (fst m = Inr () \<longleftrightarrow> snd m = calls @ plan \<and> ready \<and> all_accepted lib (length calls) plan)"

lemma all_accepted_append [simp]:
  "all_accepted lib i (xs @ ys) \<longleftrightarrow> all_accepted lib i xs \<and> all_accepted lib (i + length xs) ys"
  by (induction xs arbitrary: i) auto

lemma follows_empty [simp]: "follows lib calls [] True (Inr (), calls)" "follows lib calls [] False (Inl e, calls)"
  by (simp_all add: follows_def)

lemma follows_then:
  assumes "follows lib calls plan1 ready1 m"
    and "follows lib (calls @ plan1) plan2 ready2 (f () (calls @ plan1))"
  shows "follows lib calls (plan1 @ plan2) (ready1 \<and> ready2) (then_do m f)"
proof (cases "fst m")
  case (Inl e)
  then obtain s where m: "m = (Inl e, s)" by (cases m) auto
  then have "prefix s (calls @ plan1)" "\<not> (s = calls @ plan1 \<and> ready1 \<and> all_accepted lib (length calls) plan1)"
    "prefix calls s"
    using assms(1) by (auto simp: follows_def)
  moreover have "prefix s (calls @ plan1 @ plan2)" using prefix_prefix [OF calculation(1), of plan2] by simp
  moreover have "s \<noteq> calls @ plan1 @ plan2" if "plan2 \<noteq> []"
    using calculation(1) that by (auto simp: prefix_def)
  ultimately show ?thesis by (cases "plan2 = []") (auto simp: follows_def m)
next
  case (Inr u)
  then obtain s where m: "m = (Inr (), s)" by (cases m) auto
  then have "s = calls @ plan1" "ready1" "all_accepted lib (length calls) plan1" using assms(1) by (auto simp: follows_def)
  then show ?thesis using assms(2) by (auto simp: follows_def m dest: append_prefixD)
qed

lemma follows_error: "follows lib calls plan ready m \<Longrightarrow> follows lib calls plan ready (or_runtime_error P m)"
  by (auto simp: follows_def or_runtime_error_def split: prod.splits sum.splits)

lemma follows_call:
  "c \<noteq> Set_curves \<Longrightarrow> c \<noteq> Set_signature_algorithms \<Longrightarrow> follows lib calls [c] True (must_call lib c calls)"
  by (auto simp: follows_def must_call_def do_call_def call_accepted_def split: sum.splits)

lemma follows_calls:
  "Set_curves \<notin> set cs \<Longrightarrow> Set_signature_algorithms \<notin> set cs \<Longrightarrow> follows lib calls cs True (must_calls lib cs calls)"
proof (induction cs arbitrary: calls)
  case (Cons c cs)
  have "follows lib calls ([c] @ cs) (True \<and> True) (then_do (must_call lib c calls) (\<lambda>_. must_calls lib cs))"
    by (rule follows_then) (use Cons in \<open>auto intro: follows_call\<close>)
  then show ?case by simp
qed simp

lemma follows_setter:
  "c = Set_curves \<or> c = Set_signature_algorithms \<and> ol_has_signature_algorithms lib \<Longrightarrow>
     follows lib calls [c] True (require_accepted (do_call lib c calls))"
  by (auto simp: follows_def require_accepted_def do_call_def call_accepted_def split: sum.splits)

definition profile_plan :: "openssl \<Rightarrow> server_profile \<Rightarrow> auth_call list" where
  "profile_plan lib p =
     [if ol_has_curves lib then Set_curves else Set_tmp_curve] @ [Set_signature_algorithms] @ [Set_no_ticket] @
     map Add_to_store (sp_cas p)"

lemma follows_profile: "follows lib calls (profile_plan lib p) True (configure_profile lib p calls)"
proof -
  have "follows lib calls [Set_signature_algorithms] True
     (if \<not> ol_has_signature_algorithms lib then (Inl Py_RuntimeError, calls)
      else require_accepted (do_call lib Set_signature_algorithms calls))" for calls
  proof (cases "ol_has_signature_algorithms lib")
    case False
    then show ?thesis by (auto simp: follows_def call_accepted_def split: sum.splits)
  next
    case True
    then show ?thesis using follows_setter [of Set_signature_algorithms lib] by simp
  qed
  moreover have "follows lib calls [if ol_has_curves lib then Set_curves else Set_tmp_curve] True
     (if ol_has_curves lib then require_accepted (do_call lib Set_curves calls)
      else or_runtime_error curve_errors (must_call lib Set_tmp_curve calls))" for calls
    by (auto intro!: follows_setter follows_error follows_call)
  ultimately have "follows lib calls (profile_plan lib p) (True \<and> True \<and> True \<and> True) (configure_profile lib p calls)"
    unfolding profile_plan_def configure_profile_def
    by (intro follows_then follows_call follows_error follows_calls) auto
  then show ?thesis by simp
qed

definition server_plan :: "openssl \<Rightarrow> server_profile option \<Rightarrow> auth_call list" where
  "server_plan lib profile =
     [Load_root] @
     (case profile of
        None \<Rightarrow> [Set_verify Verify_default]
      | Some p \<Rightarrow> profile_plan lib p @ [Set_verify (Verify_profile p)]) @
     [Set_ciphers DTLS_CIPHERS]"

lemma follows_server: "follows lib calls (server_plan lib profile) True (configure_certificate_server lib profile calls)"
proof -
  have "follows lib calls (case profile of None \<Rightarrow> [Set_verify Verify_default]
                           | Some p \<Rightarrow> profile_plan lib p @ [Set_verify (Verify_profile p)]) True
     (case profile of None \<Rightarrow> must_call lib (Set_verify Verify_default) calls
      | Some p \<Rightarrow> then_do (configure_profile lib p calls) (\<lambda>_. must_call lib (Set_verify (Verify_profile p))))" for calls
  proof (cases profile)
    case (Some p)
    have "follows lib calls (profile_plan lib p @ [Set_verify (Verify_profile p)]) (True \<and> True)
       (then_do (configure_profile lib p calls) (\<lambda>_. must_call lib (Set_verify (Verify_profile p))))"
      by (intro follows_then follows_profile follows_call) auto
    then show ?thesis by (simp add: Some)
  qed (simp add: follows_call)
  then have "follows lib calls (server_plan lib profile) (True \<and> True \<and> True) (configure_certificate_server lib profile calls)"
    unfolding server_plan_def configure_certificate_server_def
    by (intro follows_then follows_call) auto
  then show ?thesis by simp
qed

text \<open>The client material of a provider: what is loaded of it, and whether all of it can be read.\<close>

definition pem_plan :: "pyval \<Rightarrow> pyval \<Rightarrow> auth_call list \<times> bool" where
  "pem_plan cert key =
     (case encoded cert of
        Inl _ \<Rightarrow> ([], False)
      | Inr raw \<Rightarrow>
          (case fst (pem_certificates raw) of
             [] \<Rightarrow> ([], False)
           | leaf # chain \<Rightarrow>
               (case encoded key of
                  Inl _ \<Rightarrow> (Use_certificate leaf # map Add_extra_chain chain, False)
                | Inr k \<Rightarrow> (Use_certificate leaf # map Add_extra_chain chain @ [Use_private_key k, Check_private_key], True))))"

definition client_plan :: "certificate_auth \<Rightarrow> auth_call list \<times> bool" where
  "client_plan a =
     (if ca_certificate_pem a \<noteq> PyNone then pem_plan (ca_certificate_pem a) (ca_private_key_pem a)
      else ([Use_certificate_path (ca_certificate_path a), Use_private_key_path (ca_private_key_path a),
             Check_private_key], True))"

lemma follows_pem:
  "follows lib calls (fst (pem_plan cert key)) (snd (pem_plan cert key)) (load_pem_chain lib cert key calls)"
proof (cases "encoded cert")
  case (Inl e)
  then show ?thesis by (simp add: pem_plan_def load_pem_chain_def)
next
  case raw: (Inr raw)
  show ?thesis
  proof (cases "fst (pem_certificates raw)")
    case Nil
    then show ?thesis by (simp add: pem_plan_def load_pem_chain_def raw)
  next
    case chain: (Cons leaf chain)
    define certs where "certs = Use_certificate leaf # map Add_extra_chain chain"
    have certs: "follows lib calls certs True (must_calls lib certs calls)"
      by (rule follows_calls) (auto simp: certs_def)
    have load: "load_pem_chain lib cert key calls =
      then_do (must_calls lib certs calls) (\<lambda>_ calls.
        then_do (encoded key, calls) (\<lambda>k calls. must_calls lib [Use_private_key k, Check_private_key] calls))"
      by (simp only: load_pem_chain_def raw chain certs_def then_do_simps list.case)
    show ?thesis
    proof (cases "encoded key")
      case (Inl e)
      have "follows lib calls (certs @ []) (True \<and> False) (load_pem_chain lib cert key calls)"
        unfolding load by (rule follows_then [OF certs]) (simp add: Inl)
      then show ?thesis by (simp add: pem_plan_def raw chain Inl certs_def)
    next
      case (Inr k)
      have "follows lib calls (certs @ [Use_private_key k, Check_private_key]) (True \<and> True) (load_pem_chain lib cert key calls)"
        unfolding load by (rule follows_then [OF certs]) (simp only: Inr then_do_simps, rule follows_calls, auto)
      then show ?thesis by (simp add: pem_plan_def raw chain Inr certs_def)
    qed
  qed
qed

lemma follows_certificate:
  "follows lib calls (server_plan lib (ca_profile a) @ fst (client_plan a)) (snd (client_plan a))
     (certificate_configure lib a calls)"
proof -
  have "follows lib calls (fst (client_plan a)) (snd (client_plan a))
     (if ca_certificate_pem a \<noteq> PyNone then load_pem_chain lib (ca_certificate_pem a) (ca_private_key_pem a) calls
      else must_calls lib [Use_certificate_path (ca_certificate_path a), Use_private_key_path (ca_private_key_path a),
                           Check_private_key] calls)" for calls
    by (simp add: client_plan_def follows_pem del: must_calls.simps) (auto intro: follows_calls simp del: must_calls.simps)
  then have "follows lib calls (server_plan lib (ca_profile a) @ fst (client_plan a)) (True \<and> snd (client_plan a))
     (certificate_configure lib a calls)"
    unfolding certificate_configure_def by (intro follows_then follows_server)
  then show ?thesis by simp
qed

section \<open>Properties\<close>

definition certificate_names :: "samsung_role \<Rightarrow> subject \<Rightarrow> nat \<Rightarrow> bool" where
  "certificate_names role subject n \<longleftrightarrow>
     (\<exists>components. andThen subject (map_result decode_component) = Inr components \<and> names_device role components n)"

lemma certificate_identity_eq: "certificate_identity role subject = Inr (Some n) \<longleftrightarrow> certificate_names role subject n"
  by (auto simp: certificate_identity_def certificate_names_def subject_identity_eq split: sum.splits)

text \<open>C34.
  The Samsung profile accepts a certificate of the chain exactly when OpenSSL has accepted it and it is an
  issuer, or it is the leaf and its subject names, under the role of the profile, a device with a non-zero
  UUID, the bound one if the profile is bound; that UUID is then the identity the session reads back.
\<close>
theorem server_identity_pinned:
  "verify_peer p certificate depth ok = Inr True \<longleftrightarrow>
     ok \<and> certificate \<noteq> None \<and>
     (0 < depth \<or>
      depth = 0 \<and>
      (\<exists>n. certificate_names (sp_role p) (the certificate) n \<and> sp_identity p \<in> {None, Some n} \<and>
           authenticated_server_identity (Some p) certificate = Inr (Some n)))"
proof (cases certificate)
  case None
  then show ?thesis by (simp add: verify_peer_def)
next
  case (Some subject)
  have read: "authenticated_server_identity (Some p) certificate = Inr (Some n)"
    if "certificate_names (sp_role p) subject n" for n
    using that Some by (simp add: authenticated_server_identity_def certificate_identity_eq [symmetric])
  have "verify_peer p certificate 0 True = Inr True \<longleftrightarrow>
     (\<exists>n. certificate_identity (sp_role p) subject = Inr (Some n) \<and> sp_identity p \<in> {None, Some n})"
    by (cases "certificate_identity (sp_role p) subject") (auto simp: verify_peer_def Some)
  then have leaf: "verify_peer p certificate 0 True = Inr True \<longleftrightarrow>
     (\<exists>n. certificate_names (sp_role p) subject n \<and> sp_identity p \<in> {None, Some n} \<and>
          authenticated_server_identity (Some p) certificate = Inr (Some n))"
    using read by (auto simp only: certificate_identity_eq)
  have "verify_peer p certificate depth ok = Inr True \<longleftrightarrow>
     ok \<and> (0 < depth \<or> depth = 0 \<and> verify_peer p certificate 0 True = Inr True)"
    by (auto simp: verify_peer_def Some)
  then show ?thesis unfolding leaf by (simp only: Some option.sel) simp
qed

text \<open>A leaf of a home appliance, and the same leaf against another binding.\<close>

definition demo_subject :: subject where
  "demo_subject = Inr
     [(map of_char ''C'', map of_char ''KR''), (map of_char ''O'', map of_char ''Samsung Electronics''),
      (map of_char ''OU'', map of_char ''OCF HA Device''),
      (map of_char ''CN'', map of_char ''OCF Device: Oven (00000000-0000-0000-0000-00000000002A)'')]"

lemma demo_subject_verified:
  "verify_peer \<lparr>sp_identity = Some 42, sp_role = HOME_APPLIANCE, sp_cas = []\<rparr> (Some demo_subject) 0 True = Inr True"
  "verify_peer \<lparr>sp_identity = Some 43, sp_role = HOME_APPLIANCE, sp_cas = []\<rparr> (Some demo_subject) 0 True = Inr False"
  by code_simp+

text \<open>C40.
  A certificate provider works through its plan and stops at the first failure: the calls it makes on the
  context are always a prefix of the plan (trust anchor, profile, verifier, ciphers, then the client's
  certificate and key), and \<open>configure_context\<close> returns exactly when the whole plan was carried out, the
  client material could be read and OpenSSL accepted every call.
\<close>
theorem provider_follows_plan:
  "case certificate_configure lib a calls of
     (outcome, made) \<Rightarrow>
       prefix calls made \<and> prefix made (calls @ server_plan lib (ca_profile a) @ fst (client_plan a)) \<and>
       (outcome = Inr () \<longleftrightarrow>
          made = calls @ server_plan lib (ca_profile a) @ fst (client_plan a) \<and> snd (client_plan a) \<and>
          all_accepted lib (length calls) (server_plan lib (ca_profile a) @ fst (client_plan a)))"
  using follows_certificate [of lib calls a] by (simp add: follows_def case_prod_beta)

text \<open>A C string ends at its first zero byte.\<close>

definition c_string :: "bytes \<Rightarrow> bytes" where
  "c_string bs = takeWhile (\<lambda>b. b \<noteq> 0) bs"

lemma c_string_terminated: "0 \<notin> set bs \<Longrightarrow> c_string (bs @ [0]) = bs"
  by (induction bs) (auto simp: c_string_def)

lemma c_string_whole: "c_string bs = bs \<longleftrightarrow> 0 \<notin> set bs"
  by (auto simp: c_string_def takeWhile_eq_all_conv)

text \<open>C35.
  A PSK identity is never presented truncated. A provider has a 16-byte identity and a key of 16 or 32 bytes;
  \<open>configure_context\<close> refuses with \<open>ValueError\<close>, touching nothing, exactly when OpenSSL would cut the
  identity at a zero byte, and otherwise the callback fills the buffers within their lengths with the whole
  credential or returns 0 and leaves them alone. The library's own engine is built for every provider and
  writes the identity after its length, so that it is read back whole.
\<close>
theorem psk_identity_whole:
  assumes "psk_auth_new identity key = Inr a"
  shows "identity = PyBytes (pa_identity a) \<and> key = PyBytes (pa_key a) \<and>
    length (pa_identity a) = 16 \<and> length (pa_key a) \<in> {16, 32} \<and>
    (if c_string (pa_identity a) = pa_identity a
     then (case psk_client_callback a id_buffer id_room key_buffer key_room of
             (returned, None) \<Rightarrow> returned = 0
           | (returned, Some (id_out, key_out)) \<Rightarrow>
               length id_out \<le> id_room \<and> length key_out \<le> key_room \<and>
               c_string id_out = pa_identity a \<and> key_out = pa_key a \<and> returned = length key_out)
     else psk_configure lib a calls = (Inl Py_ValueError, calls)) \<and>
    (\<forall>mtu \<in> {256..65535}. \<exists>d. create_dtls_connection a (PyInt mtu) = Inr d \<and> d_identity d = pa_identity a \<and>
       (\<forall>point \<in> {bs. length bs < 256}. \<exists>message. client_key_exchange (d_identity d) point = Inr message \<and>
          slice message 2 (2 + be_nat (take 2 message)) = pa_identity a))"
proof -
  from assms have a: "identity = PyBytes (pa_identity a)" "key = PyBytes (pa_key a)"
    "length (pa_identity a) = 16" "length (pa_key a) \<in> {16, 32}"
    by (auto simp: psk_auth_new_def validate_psk_identity_def split: pyval.splits if_splits)
  have "(\<exists>d. create_dtls_connection a (PyInt mtu) = Inr d \<and> d_identity d = pa_identity a)" if "mtu \<in> {256..65535}" for mtu
    using a that by (simp add: create_dtls_connection_def dtls_new_def)
  moreover have "\<exists>message. client_key_exchange (pa_identity a) point = Inr message \<and>
          slice message 2 (2 + be_nat (take 2 message)) = pa_identity a" if "length point < 256" for point
    using a that by (simp add: client_key_exchange_def pack_be_def slice_append_right)
  ultimately have engine: "\<forall>mtu \<in> {256..65535}. \<exists>d. create_dtls_connection a (PyInt mtu) = Inr d \<and> d_identity d = pa_identity a \<and>
       (\<forall>point \<in> {bs. length bs < 256}. \<exists>message. client_key_exchange (d_identity d) point = Inr message \<and>
          slice message 2 (2 + be_nat (take 2 message)) = pa_identity a)"
    by fastforce
  have "(if c_string (pa_identity a) = pa_identity a
     then (case psk_client_callback a id_buffer id_room key_buffer key_room of
             (returned, None) \<Rightarrow> returned = 0
           | (returned, Some (id_out, key_out)) \<Rightarrow>
               length id_out \<le> id_room \<and> length key_out \<le> key_room \<and>
               c_string id_out = pa_identity a \<and> key_out = pa_key a \<and> returned = length key_out)
     else psk_configure lib a calls = (Inl Py_ValueError, calls))"
    by (auto simp: c_string_whole psk_client_callback_def psk_configure_def has_psk_callback_def c_string_terminated)
  with a engine show ?thesis by blast
qed

text \<open>An identity with a zero byte.\<close>

definition demo_psk_identity :: bytes where "demo_psk_identity = [1, 2, 0, 4, 5, 6, 7, 8, 9, 10, 11, 12, 13, 14, 15, 16]"

lemma psk_identity_whole_witness:
  "\<exists>a. psk_auth_new (PyBytes demo_psk_identity) (PyBytes (replicate 16 7)) = Inr a \<and>
     (\<exists>d. create_dtls_connection a (PyInt 1280) = Inr d \<and> d_identity d = demo_psk_identity)"
proof -
  have "psk_auth_new (PyBytes demo_psk_identity) (PyBytes (replicate 16 7)) =
          Inr \<lparr>pa_identity = demo_psk_identity, pa_key = replicate 16 7\<rparr>"
    by code_simp
  from psk_identity_whole [OF this] this show ?thesis by fastforce
qed

end
