(* ===== verification/Clock_Sync.thy ===== *)
theory Clock_Sync
  imports Prelude "HOL-Library.Product_Lexorder"
begin

text \<open>
  \<open>mqtt_demo/clock_sync.py\<close>: the periodic write of the host's local time to the appliance. The host's
  clocks, the event the task waits on, CBOR and the session's POST are functions of the number of the call.
\<close>

section \<open>Local times\<close>

text \<open>A naive \<open>datetime\<close>, ordered field by field.\<close>

datatype datetime = Datetime (dt_year: nat) (dt_month: nat) (dt_day: nat)
  (dt_hour: nat) (dt_minute: nat) (dt_second: nat) (dt_microsecond: nat)

fun dt_key :: "datetime \<Rightarrow> nat \<times> nat \<times> nat \<times> nat \<times> nat \<times> nat \<times> nat" where
  "dt_key (Datetime y m d h i s u) = (y, m, d, h, i, s, u)"

lemma dt_key_inject: "dt_key a = dt_key b \<longleftrightarrow> a = b"
  by (cases a; cases b) simp

instantiation datetime :: linorder
begin

definition less_eq_datetime :: "datetime \<Rightarrow> datetime \<Rightarrow> bool" where
  "a \<le> b \<longleftrightarrow> dt_key a \<le> dt_key b"

definition less_datetime :: "datetime \<Rightarrow> datetime \<Rightarrow> bool" where
  "a < b \<longleftrightarrow> dt_key a < dt_key b"

instance
  by standard (auto simp: less_eq_datetime_def less_datetime_def dt_key_inject [symmetric])

end

text \<open>What \<open>datetime\<close> guarantees of its fields.\<close>

definition datetime_ok :: "datetime \<Rightarrow> bool" where
  "datetime_ok t \<longleftrightarrow>
     1 \<le> dt_year t \<and> dt_year t \<le> 9999 \<and> 1 \<le> dt_month t \<and> dt_month t \<le> 12 \<and> 1 \<le> dt_day t \<and> dt_day t \<le> 31 \<and>
     dt_hour t < 24 \<and> dt_minute t < 60 \<and> dt_second t < 60 \<and> dt_microsecond t < 1000000"

text \<open>Decimal digits with leading zeros.\<close>

fun padded :: "nat \<Rightarrow> nat \<Rightarrow> pystr" where
  "padded 0 n = []"
| "padded (Suc k) n = padded k (n div 10) @ [0x30 + n mod 10]"

text \<open>\<open>strftime(TIME_FORMAT)\<close> of a year of four digits.\<close>

definition time_stamp :: "datetime \<Rightarrow> pystr" where
  "time_stamp t =
     padded 4 (dt_year t) @ str_of ''-'' @ padded 2 (dt_month t) @ str_of ''-'' @ padded 2 (dt_day t) @ str_of ''T'' @
     padded 2 (dt_hour t) @ str_of '':'' @ padded 2 (dt_minute t) @ str_of '':'' @ padded 2 (dt_second t)"

definition PLAUSIBLE_FROM :: datetime where "PLAUSIBLE_FROM = Datetime 2026 1 1 0 0 0 0"
definition PLAUSIBLE_UNTIL :: datetime where "PLAUSIBLE_UNTIL = Datetime 2046 1 1 0 0 0 0"
definition INITIAL_DELAY_S :: real where "INITIAL_DELAY_S = 15"
definition WRITE_TIMEOUT_S :: real where "WRITE_TIMEOUT_S = 8"

section \<open>The task\<close>

datatype clock_event = Clock_posted "pystr list" bytes real | On_sync real | Clock_waited real

record clock_world =
  kw_now :: "nat \<Rightarrow> datetime"
  kw_wall :: "nat \<Rightarrow> real"
  kw_dumps :: "pyval \<Rightarrow> bytes result"
  kw_post :: "nat \<Rightarrow> pystr list \<Rightarrow> bytes \<Rightarrow> (nat \<times> bytes) result"
  kw_wait :: "nat \<Rightarrow> real \<Rightarrow> bool"

record clock_task =
  ck_path :: "pystr list"
  ck_field :: pystr
  ck_interval :: real
  ck_last :: "real option"
  ck_on_sync :: bool
  ck_count :: nat
  ck_calls :: nat
  ck_log :: "clock_event list"

definition clock_task_new :: "pystr list \<Rightarrow> pystr \<Rightarrow> real \<Rightarrow> real option \<Rightarrow> bool \<Rightarrow> clock_task" where
  "clock_task_new path_segs field interval last_sync on_sync =
     \<lparr>ck_path = path_segs, ck_field = field, ck_interval = interval, ck_last = last_sync, ck_on_sync = on_sync,
      ck_count = 0, ck_calls = 0, ck_log = []\<rparr>"

definition ck_event :: "clock_event \<Rightarrow> clock_task \<Rightarrow> clock_task" where
  "ck_event ev s = s\<lparr>ck_log := ck_log s @ [ev]\<rparr>"

definition ck_tick :: "clock_task \<Rightarrow> clock_task" where
  "ck_tick s = s\<lparr>ck_calls := ck_calls s + 1\<rparr>"

definition clock_body :: "pystr \<Rightarrow> datetime \<Rightarrow> pyval" where
  "clock_body field now = PyDict [(PyStr field, PyStr (time_stamp now))]"

text \<open>The part of \<open>sync_now\<close> after a successful write.\<close>

definition note_sync :: "clock_world \<Rightarrow> clock_task \<Rightarrow> clock_task" where
  "note_sync w s =
     (let now = kw_wall w (ck_calls s); s = (ck_tick s)\<lparr>ck_count := ck_count s + 1, ck_last := Some now\<rparr> in
      if ck_on_sync s then ck_event (On_sync now) s else s)"

definition sync_now :: "clock_world \<Rightarrow> clock_task \<Rightarrow> bool \<times> clock_task" where
  "sync_now w s =
     (let now = kw_now w (ck_calls s); s = ck_tick s in
      if \<not> (PLAUSIBLE_FROM \<le> now \<and> now < PLAUSIBLE_UNTIL) then (False, s)
      else
        (case kw_dumps w (clock_body (ck_field s) now) of
           Inl e \<Rightarrow> (False, s)
         | Inr data \<Rightarrow>
             let answer = kw_post w (ck_calls s) (ck_path s) data;
                 s = ck_event (Clock_posted (ck_path s) data WRITE_TIMEOUT_S) (ck_tick s) in
             (case answer of
                Inl e \<Rightarrow> (False, s)
              | Inr (code, _) \<Rightarrow> if code div 32 = 2 then (True, note_sync w s) else (False, s))))"

definition initial_delay :: "clock_world \<Rightarrow> clock_task \<Rightarrow> real \<times> clock_task" where
  "initial_delay w s =
     (case ck_last s of
        None \<Rightarrow> (INITIAL_DELAY_S, s)
      | Some ts \<Rightarrow> (max INITIAL_DELAY_S (ck_interval s - (kw_wall w (ck_calls s) - ts)), ck_tick s))"

text \<open>\<open>stop.wait\<close>: whether the event was set.\<close>

definition stop_wait :: "clock_world \<Rightarrow> real \<Rightarrow> clock_task \<Rightarrow> bool \<times> clock_task" where
  "stop_wait w t s = (kw_wait w (ck_calls s) t, ck_event (Clock_waited t) (ck_tick s))"

fun clock_loop :: "clock_world \<Rightarrow> nat \<Rightarrow> clock_task \<Rightarrow> clock_task option" where
  "clock_loop w 0 s = None"
| "clock_loop w (Suc fuel) s =
     (case stop_wait w (ck_interval s) s of
        (True, s) \<Rightarrow> Some s
      | (False, s) \<Rightarrow> clock_loop w fuel (snd (sync_now w s)))"

definition clock_forever :: "clock_world \<Rightarrow> nat \<Rightarrow> clock_task \<Rightarrow> clock_task option" where
  "clock_forever w fuel s =
     (case initial_delay w s of
        (delay, s) \<Rightarrow>
          (case stop_wait w delay s of
             (True, s) \<Rightarrow> Some s
           | (False, s) \<Rightarrow> clock_loop w fuel (snd (sync_now w s))))"

section \<open>Reading a stamp back\<close>

definition number_of_digits :: "pystr \<Rightarrow> nat" where
  "number_of_digits cs = foldl (\<lambda>n c. n * 10 + (c - 0x30)) 0 cs"

definition read_stamp :: "pystr \<Rightarrow> datetime" where
  "read_stamp s =
     Datetime (number_of_digits (slice s 0 4)) (number_of_digits (slice s 5 7)) (number_of_digits (slice s 8 10))
       (number_of_digits (slice s 11 13)) (number_of_digits (slice s 14 16)) (number_of_digits (slice s 17 19)) 0"

lemma length_padded [simp]: "length (padded k n) = k"
  by (induction k arbitrary: n) simp_all

lemma number_of_padded: "number_of_digits (padded k n) = n mod 10 ^ k"
proof (induction k arbitrary: n)
  case 0
  then show ?case by (simp add: number_of_digits_def)
next
  case (Suc k)
  then show ?case by (simp add: number_of_digits_def mod_mult2_eq mult.commute)
qed

definition whole_seconds :: "datetime \<Rightarrow> datetime" where
  "whole_seconds t = Datetime (dt_year t) (dt_month t) (dt_day t) (dt_hour t) (dt_minute t) (dt_second t) 0"

lemma read_time_stamp:
  assumes "datetime_ok t"
  shows "read_stamp (time_stamp t) = whole_seconds t"
proof -
  have cut: "slice (time_stamp t) 0 4 = padded 4 (dt_year t)" "slice (time_stamp t) 5 7 = padded 2 (dt_month t)"
    "slice (time_stamp t) 8 10 = padded 2 (dt_day t)" "slice (time_stamp t) 11 13 = padded 2 (dt_hour t)"
    "slice (time_stamp t) 14 16 = padded 2 (dt_minute t)" "slice (time_stamp t) 17 19 = padded 2 (dt_second t)"
    unfolding time_stamp_def slice_def str_of_def by simp_all
  show ?thesis
    using assms unfolding read_stamp_def cut number_of_padded whole_seconds_def datetime_ok_def by simp
qed

lemma whole_seconds_plausible:
  "PLAUSIBLE_FROM \<le> t \<Longrightarrow> t < PLAUSIBLE_UNTIL \<Longrightarrow> PLAUSIBLE_FROM \<le> whole_seconds t \<and> whole_seconds t < PLAUSIBLE_UNTIL"
  by (cases t) (auto simp: less_eq_datetime_def less_datetime_def whole_seconds_def PLAUSIBLE_FROM_def PLAUSIBLE_UNTIL_def)

section \<open>What a run does\<close>

fun waits_of :: "clock_event list \<Rightarrow> real list" where
  "waits_of [] = []"
| "waits_of (Clock_waited t # evs) = t # waits_of evs"
| "waits_of (_ # evs) = waits_of evs"

fun posts_of :: "clock_event list \<Rightarrow> (pystr list \<times> bytes \<times> real) list" where
  "posts_of [] = []"
| "posts_of (Clock_posted p d t # evs) = (p, d, t) # posts_of evs"
| "posts_of (_ # evs) = posts_of evs"

fun reports_of :: "clock_event list \<Rightarrow> real list" where
  "reports_of [] = []"
| "reports_of (On_sync t # evs) = t # reports_of evs"
| "reports_of (_ # evs) = reports_of evs"

lemma clock_events [simp]:
  "waits_of (evs @ evs') = waits_of evs @ waits_of evs'"
  "posts_of (evs @ evs') = posts_of evs @ posts_of evs'"
  "reports_of (evs @ evs') = reports_of evs @ reports_of evs'"
  by (induction evs rule: waits_of.induct; simp)+

text \<open>A body that carries a time of the host's clock within the plausible window, to the second.\<close>

definition plausible_write :: "clock_world \<Rightarrow> clock_task \<Rightarrow> pystr list \<times> bytes \<times> real \<Rightarrow> bool" where
  "plausible_write w s post \<longleftrightarrow>
     (\<exists>n. let now = kw_now w n in
        PLAUSIBLE_FROM \<le> now \<and> now < PLAUSIBLE_UNTIL \<and> read_stamp (time_stamp now) = whole_seconds now \<and>
        (\<exists>data. kw_dumps w (clock_body (ck_field s) now) = Inr data \<and> post = (ck_path s, data, WRITE_TIMEOUT_S)))"

text \<open>\<open>s'\<close> follows \<open>s\<close> by the events \<open>evs\<close>: nothing but the count and the last success changes, and these by the reports.\<close>

definition clock_grows :: "clock_world \<Rightarrow> clock_task \<Rightarrow> clock_event list \<Rightarrow> clock_task \<Rightarrow> bool" where
  "clock_grows w s evs s' \<longleftrightarrow>
     ck_log s' = ck_log s @ evs \<and> ck_path s' = ck_path s \<and> ck_field s' = ck_field s \<and>
     ck_interval s' = ck_interval s \<and> ck_on_sync s' = ck_on_sync s \<and>
     list_all (plausible_write w s) (posts_of evs) \<and>
     (ck_on_sync s \<longrightarrow>
        ck_count s' = ck_count s + length (reports_of evs) \<and>
        ck_last s' = (if reports_of evs = [] then ck_last s else Some (last (reports_of evs))))"

lemma clock_grows_refl: "clock_grows w s [] s"
  by (simp add: clock_grows_def)

lemma plausible_write_cong:
  "ck_path s' = ck_path s \<Longrightarrow> ck_field s' = ck_field s \<Longrightarrow> plausible_write w s' = plausible_write w s"
  by (simp add: plausible_write_def fun_eq_iff)

lemma clock_grows_trans:
  assumes "clock_grows w s evs s'" and "clock_grows w s' evs' s''"
  shows "clock_grows w s (evs @ evs') s''"
proof -
  have "plausible_write w s' = plausible_write w s" using assms(1) by (intro plausible_write_cong) (auto simp: clock_grows_def)
  with assms show ?thesis unfolding clock_grows_def by (cases "ck_on_sync s") auto
qed

lemma stop_wait_grows: "stop_wait w t s = (b, s') \<Longrightarrow> clock_grows w s [Clock_waited t] s'"
  by (auto simp: stop_wait_def clock_grows_def ck_event_def ck_tick_def)

lemma sync_now_grows:
  assumes "\<And>n. datetime_ok (kw_now w n)"
  shows "\<exists>evs. clock_grows w s evs (snd (sync_now w s)) \<and> waits_of evs = [] \<and> length (posts_of evs) \<le> 1 \<and>
     length (reports_of evs) \<le> length (posts_of evs)"
proof -
  define now where "now = kw_now w (ck_calls s)"
  show ?thesis
  proof (cases "PLAUSIBLE_FROM \<le> now \<and> now < PLAUSIBLE_UNTIL \<and> (\<exists>data. kw_dumps w (clock_body (ck_field s) now) = Inr data)")
    case False
    then have "snd (sync_now w s) = ck_tick s"
      by (auto simp: sync_now_def Let_def now_def ck_tick_def split: sum.splits)
    then show ?thesis by (intro exI [of _ "[]"]) (simp add: clock_grows_def ck_tick_def)
  next
    case True
    then obtain data where data: "kw_dumps w (clock_body (ck_field s) now) = Inr data" by blast
    have ok: "plausible_write w s (ck_path s, data, WRITE_TIMEOUT_S)"
      using True data read_time_stamp [OF assms, of "ck_calls s"]
      unfolding plausible_write_def Let_def now_def by blast
    have posted: "clock_grows w s [Clock_posted (ck_path s) data WRITE_TIMEOUT_S]
        (ck_event (Clock_posted (ck_path s) data WRITE_TIMEOUT_S) (ck_tick (ck_tick s)))" (is "clock_grows w s ?post ?s1")
      using ok by (simp add: clock_grows_def ck_event_def ck_tick_def)
    have noted: "\<exists>evs. clock_grows w ?s1 evs (note_sync w ?s1) \<and> posts_of evs = [] \<and> waits_of evs = [] \<and> length (reports_of evs) \<le> 1"
      by (cases "ck_on_sync s")
        (auto simp: note_sync_def Let_def clock_grows_def ck_event_def ck_tick_def)
    then obtain evs where evs: "clock_grows w ?s1 evs (note_sync w ?s1)" "posts_of evs = []" "waits_of evs = []"
      "length (reports_of evs) \<le> 1" by blast
    have "snd (sync_now w s) = ?s1 \<or> snd (sync_now w s) = note_sync w ?s1"
      using True data unfolding sync_now_def Let_def now_def
      by (auto simp: ck_tick_def split: sum.splits)
    then show ?thesis
    proof
      assume "snd (sync_now w s) = ?s1"
      then show ?thesis using posted by (intro exI [of _ ?post]) simp
    next
      assume "snd (sync_now w s) = note_sync w ?s1"
      moreover have "clock_grows w s (?post @ evs) (note_sync w ?s1)" by (rule clock_grows_trans [OF posted evs(1)])
      ultimately show ?thesis using evs by (intro exI [of _ "?post @ evs"]) simp
    qed
  qed
qed

lemma clock_loop_grows:
  assumes "\<And>n. datetime_ok (kw_now w n)"
  shows "clock_loop w fuel s = Some s' \<Longrightarrow>
     \<exists>evs k. clock_grows w s evs s' \<and> waits_of evs = replicate (Suc k) (ck_interval s) \<and> length (posts_of evs) \<le> k \<and>
       length (reports_of evs) \<le> length (posts_of evs)"
proof (induction fuel arbitrary: s)
  case (Suc fuel)
  obtain b s1 where wait: "stop_wait w (ck_interval s) s = (b, s1)" by fastforce
  note waited = stop_wait_grows [OF wait]
  show ?case
  proof (cases b)
    case True
    with Suc.prems wait waited show ?thesis
      by (intro exI [of _ "[Clock_waited (ck_interval s)]"] exI [of _ 0]) simp
  next
    case False
    obtain evs1 where sync: "clock_grows w s1 evs1 (snd (sync_now w s1))" "waits_of evs1 = []" "length (posts_of evs1) \<le> 1"
      "length (reports_of evs1) \<le> length (posts_of evs1)"
      using sync_now_grows [OF assms] by blast
    from Suc.prems wait False have "clock_loop w fuel (snd (sync_now w s1)) = Some s'" by simp
    from Suc.IH [OF this] obtain evs2 k where rest: "clock_grows w (snd (sync_now w s1)) evs2 s'"
      "waits_of evs2 = replicate (Suc k) (ck_interval (snd (sync_now w s1)))" "length (posts_of evs2) \<le> k"
      "length (reports_of evs2) \<le> length (posts_of evs2)" by blast
    have "ck_interval (snd (sync_now w s1)) = ck_interval s" using waited sync(1) by (simp add: clock_grows_def)
    with clock_grows_trans [OF waited clock_grows_trans [OF sync(1) rest(1)]] sync rest show ?thesis
      by (intro exI [of _ "[Clock_waited (ck_interval s)] @ evs1 @ evs2"] exI [of _ "Suc k"]) simp
  qed
qed simp

lemma initial_delay_due:
  "initial_delay w s = (delay, s1) \<Longrightarrow>
     INITIAL_DELAY_S \<le> delay \<and> clock_grows w s [] s1 \<and>
     (\<forall>ts. ck_last s = Some ts \<longrightarrow> ts + ck_interval s \<le> kw_wall w (ck_calls s) + delay)"
  by (auto simp: initial_delay_def clock_grows_def ck_tick_def split: option.splits)


definition demo_clock_world :: clock_world where
  "demo_clock_world =
     \<lparr>kw_now = (\<lambda>n. if n < 4 then Datetime 1970 1 1 0 0 9 0 else Datetime 2026 7 31 9 5 30 125),
      kw_wall = (\<lambda>n. 1000 + real n), kw_dumps = (\<lambda>v. Inr [0xA1]), kw_post = (\<lambda>n p d. Inr (0x44, [])),
      kw_wait = (\<lambda>n t. n \<ge> 9)\<rparr>"


end
