(* ===== verification/Bridge_Ports.thy ===== *)
theory Bridge_Ports
  imports Probe_Soundness Ocf_Transfer
begin

text \<open>
  The port resolution of \<open>mqtt_demo/bridge.py\<close> (\<open>_resolve_port\<close>): a configured or cached port is proved by
  the stateless probe of \<open>Dtls_Probe\<close>, otherwise the directory of the appliance is read (\<open>Ocf_Fetch\<close>) and its
  ports, then the known band, are probed. The surroundings of each of these operations are arguments.
\<close>

record bridge_config =
  bg_ip :: pyval
  bg_pinned :: "int option"
  bg_default_port :: int

record port_env =
  pe_ok :: "nat \<Rightarrow> sys_call \<Rightarrow> bool"
  pe_one :: probe_env
  pe_many :: "nat \<Rightarrow> int \<Rightarrow> probe_env"
  pe_flight :: "nat \<Rightarrow> bytes list result"
  pe_directory :: "addrinfo list result \<times> ocf_net"
  pe_fuel :: nat

record port_state =
  po_discovered :: "pyval option"
  po_os :: os

definition OCF_PORT_BAND :: "int list" where "OCF_PORT_BAND = [49152..49160]"
definition OCF_STANDARD_SECURE_PORT :: int where "OCF_STANDARD_SECURE_PORT = 5684"
definition OCF_DISCOVERY_PORT :: nat where "OCF_DISCOVERY_PORT = 5683"

text \<open>The gate: one port, four seconds, one retry. The other arguments are the defaults of the probe.\<close>

definition gate_probe :: "port_env \<Rightarrow> bridge_config \<Rightarrow> pyval \<Rightarrow> os \<Rightarrow> (liveness result \<times> os) option" where
  "gate_probe e c port s =
     map_option (\<lambda>(r, s, sent). (r, s))
       (probe_dtls_port (pe_ok e) (fst (pe_one e)) (snd (pe_one e)) (pe_fuel e) (pe_flight e 0) (bg_ip c) port
          (PyFloat 4) (PyInt 1) (PyInt 1200) (PyInt AF_UNSPEC) s)"

definition advertised_ports :: "port_env \<Rightarrow> bridge_config \<Rightarrow> os \<Rightarrow> (int list result \<times> os) option" where
  "advertised_ports e c s =
     (case discover_ocf_secure_ports (pe_ok e) (fst (pe_directory e)) (snd (pe_directory e)) (pe_fuel e) (bg_ip c)
             (PyInt (int OCF_DISCOVERY_PORT)) (PyFloat 3) (PyInt 1) (PyInt AF_UNSPEC) (PyStr (str_of ''doxm-first'')) s of
        None \<Rightarrow> None
      | Some (Inl ex, s) \<Rightarrow> Some (if isinstance_of ex Py_OSError then Inr [] else Inl ex, s)
      | Some (Inr d, s) \<Rightarrow> Some (Inr (map int (pd_ports d)), s))"

definition candidate_ports :: "bridge_config \<Rightarrow> int list" where
  "candidate_ports c = sorted_list_of_set (set OCF_PORT_BAND \<union> {OCF_STANDARD_SECURE_PORT, bg_default_port c})"

definition probe_candidates :: "port_env \<Rightarrow> bridge_config \<Rightarrow> nat \<Rightarrow> int list \<Rightarrow> os \<Rightarrow> (port_probe result \<times> os) option" where
  "probe_candidates e c n ports s =
     probe_dtls_ports (pe_ok e) (pe_many e n) (pe_fuel e) (pe_flight e n) (bg_ip c) (PyTuple (map PyInt ports)) PyNone
       (PyFloat 4) (PyInt 1) (PyInt 1200) (PyInt AF_UNSPEC) s"

text \<open>\<open>_accept_port\<close> of a discovered port.\<close>

definition accept_port :: "pyval \<Rightarrow> port_state \<Rightarrow> pyval result \<times> port_state" where
  "accept_port port s = (Inr port, s\<lparr>po_discovered := Some port\<rparr>)"

fun try_tiers :: "port_env \<Rightarrow> bridge_config \<Rightarrow> (nat \<times> int list) list \<Rightarrow> port_state \<Rightarrow> (pyval result \<times> port_state) option" where
  "try_tiers e c [] s = Some (Inl Py_ConnectionError, s)"
| "try_tiers e c ((n, ports) # tiers) s =
     (if ports = [] then try_tiers e c tiers s
      else
        (case probe_candidates e c n ports (po_os s) of
           None \<Rightarrow> None
         | Some (Inl ex, os) \<Rightarrow> Some (Inl ex, s\<lparr>po_os := os\<rparr>)
         | Some (Inr selection, os) \<Rightarrow>
             let s = s\<lparr>po_os := os\<rparr> in
             if pp_outcome selection = AMBIGUOUS then Some (Inl Py_ConnectionError, s)
             else
               (case pp_selected selection of
                  None \<Rightarrow> try_tiers e c tiers s
                | Some port \<Rightarrow> Some (accept_port port s))))"

definition rediscover :: "port_env \<Rightarrow> bridge_config \<Rightarrow> port_state \<Rightarrow> (pyval result \<times> port_state) option" where
  "rediscover e c s =
     (case advertised_ports e c (po_os s) of
        None \<Rightarrow> None
      | Some (Inl ex, os) \<Rightarrow> Some (Inl ex, s\<lparr>po_os := os\<rparr>)
      | Some (Inr ports, os) \<Rightarrow> try_tiers e c [(1, ports), (2, candidate_ports c)] (s\<lparr>po_os := os\<rparr>))"

definition resolve_port :: "port_env \<Rightarrow> bridge_config \<Rightarrow> port_state \<Rightarrow> (pyval result \<times> port_state) option" where
  "resolve_port e c s =
     (case bg_pinned c of
        Some pinned \<Rightarrow>
          (case gate_probe e c (PyInt pinned) (po_os s) of
             None \<Rightarrow> None
           | Some (Inl ex, os) \<Rightarrow> Some (Inl ex, s\<lparr>po_os := os\<rparr>)
           | Some (Inr l, os) \<Rightarrow>
               Some (if \<not> is_dtls_server l then Inl Py_ConnectionError else Inr (PyInt pinned), s\<lparr>po_os := os\<rparr>))
      | None \<Rightarrow>
          (case po_discovered s of
             None \<Rightarrow> rediscover e c s
           | Some port \<Rightarrow>
               (case gate_probe e c port (po_os s) of
                  None \<Rightarrow> None
                | Some (Inl ex, os) \<Rightarrow> Some (Inl ex, s\<lparr>po_os := os\<rparr>)
                | Some (Inr l, os) \<Rightarrow>
                    let s = s\<lparr>po_os := os\<rparr> in
                    if is_dtls_server l then Some (accept_port port s)
                    else rediscover e c (s\<lparr>po_discovered := None\<rparr>))))"

section \<open>What a resolved port is\<close>

lemma gate_probe_proof:
  assumes "gate_probe e c port s = Some (Inr l, s')" and "fresh_descriptors s"
  shows "fresh_descriptors s'"
    and "is_dtls_server l \<Longrightarrow> \<exists>p. port = PyInt p \<and> proved_by_host (fst (pe_one e)) (pn_udp (snd (pe_one e))) (bg_ip c) p (PyInt AF_UNSPEC) l"
proof -
  from assms(1) obtain sent where run: "probe_dtls_port (pe_ok e) (fst (pe_one e)) (snd (pe_one e)) (pe_fuel e) (pe_flight e 0)
      (bg_ip c) port (PyFloat 4) (PyInt 1) (PyInt 1200) (PyInt AF_UNSPEC) s = Some (Inr l, s', sent)"
    by (auto simp: gate_probe_def)
  then obtain p r t where opts: "validate_liveness_options port (PyInt 1) (PyFloat 4) (PyInt 1200) = Inr (p, r, t)"
    by (cases "validate_liveness_options port (PyInt 1) (PyFloat 4) (PyInt 1200)") (auto simp: probe_dtls_port_def)
  then have port: "port = PyInt p"
    by (auto simp: validate_liveness_options_def result_simps split: pyval.splits if_splits)
  have "fresh_descriptors s' \<and> (is_dtls_server l \<longrightarrow>
      proved_by_host (fst (pe_one e)) (pn_udp (snd (pe_one e))) (bg_ip c) p (PyInt AF_UNSPEC) l)"
  proof (cases "client_hello_flight (pe_flight e 0)")
    case (Inl ex)
    with run opts assms(2) show ?thesis
      by (auto simp: probe_dtls_port_def no_proof_def is_dtls_server_def split: sum.splits)
  next
    case (Inr flight)
    with run opts have go: "probe_with_flight (pe_ok e) (fst (pe_one e)) (snd (pe_one e)) (pe_fuel e) (bg_ip c) p flight t r
        (PyInt AF_UNSPEC) s = Some (Inr l, s', sent)"
      by (auto simp: probe_dtls_port_def result_simps split: sum.splits)
    from probe_with_flight_report(1) [OF go assms(2) refl] probe_with_flight_fresh [OF go assms(2)] show ?thesis
      by (simp add: probe_report_def)
  qed
  with port show "fresh_descriptors s'" and "is_dtls_server l \<Longrightarrow> \<exists>p. port = PyInt p \<and>
      proved_by_host (fst (pe_one e)) (pn_udp (snd (pe_one e))) (bg_ip c) p (PyInt AF_UNSPEC) l" by auto
qed

lemma run_workers_fresh:
  "run_workers ok env fuel host flight timeout retries family ports s = Some (rs, s') \<Longrightarrow>
     fresh_descriptors s \<Longrightarrow> fresh_descriptors s'"
proof (induction ports arbitrary: s rs)
  case (Cons port ports)
  from Cons.prems(1) obtain r s1 sent ls where
    one: "probe_with_flight ok (fst (env port)) (snd (env port)) fuel host port flight timeout retries family s = Some (r, s1, sent)"
    and rest: "run_workers ok env fuel host flight timeout retries family ports s1 = Some (ls, s')"
    by (auto split: option.splits)
  from Cons.IH [OF rest probe_with_flight_fresh [OF one Cons.prems(2)]] show ?case .
qed simp

lemma validate_ports_ints:
  "validate_ports (map PyInt qs) retries timeout mtu = Inr ps \<Longrightarrow> ps = qs"
  by (induction qs arbitrary: ps) (auto simp: result_simps validate_liveness_options_def split: prod.splits if_splits pyval.splits)

lemma check_ports_dialled:
  assumes "check_ports (PyTuple (map PyInt qs)) preferred timeout retries mtu family = Inr (Some (ps, pref, r, t))"
  shows "set ps = set qs"
proof -
  have "validate_ports (distinct_values (map PyInt qs)) retries timeout mtu = Inr ps"
    using assms by (auto simp: check_ports_def result_simps Let_def split: if_splits prod.splits)
  from validate_ports_ints [OF this [unfolded distinct_values_ints]] show ?thesis by simp
qed

definition port_proved :: "port_env \<Rightarrow> bridge_config \<Rightarrow> nat \<Rightarrow> int list \<Rightarrow> pyval \<Rightarrow> bool" where
  "port_proved e c n dialled port \<longleftrightarrow>
     (\<exists>l u. lv_port l \<in> set dialled \<and> lv_responder l = Some u \<and> canon u = canon port \<and>
        proved_by_host (fst (pe_many e n (lv_port l))) (pn_udp (snd (pe_many e n (lv_port l)))) (bg_ip c) (lv_port l)
          (PyInt AF_UNSPEC) l)"

lemma probe_candidates_proof:
  assumes "probe_candidates e c n ports s = Some (Inr R, s')" and "fresh_descriptors s"
  shows "fresh_descriptors s' \<and> (\<forall>port. pp_selected R = Some port \<longrightarrow> port_proved e c n ports port)"
proof -
  let ?check = "check_ports (PyTuple (map PyInt ports)) PyNone (PyFloat 4) (PyInt 1) (PyInt 1200) (PyInt AF_UNSPEC)"
  from assms(1) obtain opts where opts: "?check = Inr opts"
    by (cases ?check) (auto simp: probe_candidates_def probe_dtls_ports_def)
  show ?thesis
  proof (cases opts)
    case None
    with assms opts show ?thesis by (auto simp: probe_candidates_def probe_dtls_ports_def)
  next
    case (Some o4)
    then obtain ps pref r t where args: "?check = Inr (Some (ps, pref, r, t))" using opts by (cases o4) auto
    show ?thesis
    proof (cases "client_hello_flight (pe_flight e n)")
      case (Inl ex)
      with assms args show ?thesis by (auto simp: probe_candidates_def probe_dtls_ports_def)
    next
      case (Inr flight)
      with assms(1) args obtain rs where
        run: "run_workers (pe_ok e) (pe_many e n) (pe_fuel e) (bg_ip c) flight t r (PyInt AF_UNSPEC) ps s = Some (rs, s')"
        and R: "R = select_port pref rs"
        by (auto simp: probe_candidates_def probe_dtls_ports_def split: option.splits)
      note report = run_workers_report [OF run assms(2)]
      have "port_proved e c n ports port" if sel: "pp_selected R = Some port" for port
      proof -
        from select_port_exact(5) [OF sel [unfolded R]] obtain u where u: "u \<in> set (responders rs)" "canon u = canon port"
          by auto
        then obtain l where l: "l \<in> set rs" "is_dtls_server l" "lv_responder l = Some u"
          by (auto simp: responders_def map_filter_def)
        have "lv_port l \<in> set ports" using l(1) report check_ports_dialled [OF args] by (metis image_eqI set_map)
        with l u report show ?thesis unfolding port_proved_def by blast
      qed
      with run_workers_fresh [OF run assms(2)] show ?thesis by blast
    qed
  qed
qed

lemma try_tiers_proof:
  "try_tiers e c tiers s = Some (r, s') \<Longrightarrow> fresh_descriptors (po_os s) \<Longrightarrow>
     (\<forall>port. r = Inr port \<longrightarrow> po_discovered s' = Some port \<and> (\<exists>(n, ports) \<in> set tiers. port_proved e c n ports port))
     \<and> (\<forall>ex. r = Inl ex \<longrightarrow> po_discovered s' = po_discovered s)"
proof (induction tiers arbitrary: s)
  case (Cons tier tiers)
  obtain n ports where tier: "tier = (n, ports)" by fastforce
  show ?case
  proof (cases "ports = []")
    case True
    with Cons tier show ?thesis by fastforce
  next
    case False
    with Cons.prems(1) tier obtain o1 os where probe: "probe_candidates e c n ports (po_os s) = Some (o1, os)"
      by (auto split: option.splits)
    show ?thesis
    proof (cases o1)
      case (Inl ex)
      with Cons.prems(1) tier False probe show ?thesis by auto
    next
      case (Inr R)
      note proof1 = probe_candidates_proof [OF probe [unfolded Inr] Cons.prems(2)]
      show ?thesis
      proof (cases "pp_outcome R = AMBIGUOUS \<or> pp_selected R \<noteq> None")
        case True
        with Cons.prems(1) tier False probe Inr proof1 show ?thesis
          by (cases "pp_outcome R = AMBIGUOUS"; cases "pp_selected R") (auto simp: Let_def accept_port_def)
      next
        case undecided: False
        with Cons.prems(1) tier False probe Inr have "try_tiers e c tiers (s\<lparr>po_os := os\<rparr>) = Some (r, s')"
          by (auto simp: Let_def)
        from Cons.IH [OF this] proof1 tier show ?thesis by fastforce
      qed
    qed
  qed
qed auto

lemma open_routes_fresh:
  "open_routes ok pl eps s = (out, s') \<Longrightarrow> fresh_descriptors s \<Longrightarrow> fresh_descriptors s'"
proof (induction eps arbitrary: s out s')
  case (Cons ep eps)
  show ?case
  proof (cases "source_host_key pl (ep_family ep) (ep_sockaddr ep)")
    case (Inr h)
    obtain a where a: "bind_address ep (PyInt 0) = Inr a"
      by (auto simp: bind_address_def validate_udp_port_def)
    obtain c s1 where c: "try_candidate ok (ep_family ep) [Bind a, Set_timeout (PyFloat 0), Register] s = (c, s1)" by fastforce
    obtain o2 s2 where rest: "open_routes ok pl eps s1 = (o2, s2)" by fastforce
    from try_candidate_open [OF c Cons.prems(2)] Cons.IH [OF rest] have "fresh_descriptors s2" by blast
    moreover obtain o3 s3 where skip: "open_routes ok pl eps s = (o3, s3)" by fastforce
    moreover have "fresh_descriptors s3" by (rule Cons.IH [OF skip Cons.prems(2)])
    ultimately show ?thesis
      using Cons.prems Inr a c rest by (cases h; cases c; cases o2) auto
  qed (use Cons in auto)
qed simp

lemma close_routes_fresh: "fresh_descriptors s \<Longrightarrow> fresh_descriptors (close_routes routes s)"
  by (induction routes arbitrary: s) (auto simp: close_routes_def close_socket_def fresh_descriptors_def)

lemma advertised_ports_fresh:
  assumes "advertised_ports e c s = Some (r, s')" and "fresh_descriptors s"
  shows "fresh_descriptors s'"
proof -
  have "fresh_descriptors s2"
    if "with_routes ok pl resolved unreachable job s = Some (out, s2)" for ok pl resolved unreachable job s2 and out :: "port_discovery result"
    using that assms(2) open_routes_fresh close_routes_fresh
    by (fastforce simp: with_routes_def split: sum.splits prod.splits if_splits)
  with assms show ?thesis
    by (auto simp: advertised_ports_def discover_ocf_secure_ports_def split: option.splits sum.splits prod.splits)
qed

lemma rediscover_proof:
  assumes "rediscover e c s = Some (r, s')" and "fresh_descriptors (po_os s)"
  shows "(\<forall>port. r = Inr port \<longrightarrow> po_discovered s' = Some port \<and>
        (\<exists>ports os. advertised_ports e c (po_os s) = Some (Inr ports, os) \<and>
           (port_proved e c 1 ports port \<or> port_proved e c 2 (candidate_ports c) port)))
     \<and> (\<forall>ex. r = Inl ex \<longrightarrow> po_discovered s' = po_discovered s)"
proof -
  obtain o1 os where adv: "advertised_ports e c (po_os s) = Some (o1, os)"
    using assms(1) by (auto simp: rediscover_def split: option.splits)
  show ?thesis
  proof (cases o1)
    case (Inl ex)
    with assms(1) adv show ?thesis by (auto simp: rediscover_def)
  next
    case (Inr ports)
    with assms(1) adv have "try_tiers e c [(1, ports), (2, candidate_ports c)] (s\<lparr>po_os := os\<rparr>) = Some (r, s')"
      by (simp add: rediscover_def del: try_tiers.simps)
    from try_tiers_proof [OF this] advertised_ports_fresh [OF adv assms(2)] adv Inr show ?thesis by auto
  qed
qed

text \<open>C39.
  The bridge never commits to an unproved port. A configured port is returned, and the cache left alone, only
  after a datagram proved a DTLS server at the host; a discovered one is put into the cache, and it is either
  the cached port, proved again, or the source port of a proof from the host answering a probe of a port that
  the appliance's directory advertised or of the known band. A failure leaves the cache as it was or empty.
\<close>

theorem resolved_port_proved:
  assumes "resolve_port e c s = Some (r, s')" and "fresh_descriptors (po_os s)"
  shows "(\<forall>port. r = Inr port \<longrightarrow>
      (case bg_pinned c of
         Some pinned \<Rightarrow> port = PyInt pinned \<and> po_discovered s' = po_discovered s \<and>
           (\<exists>l. proved_by_host (fst (pe_one e)) (pn_udp (snd (pe_one e))) (bg_ip c) pinned (PyInt AF_UNSPEC) l)
       | None \<Rightarrow> po_discovered s' = Some port \<and>
           (po_discovered s = Some port \<and>
              (\<exists>p l. port = PyInt p \<and>
                 proved_by_host (fst (pe_one e)) (pn_udp (snd (pe_one e))) (bg_ip c) p (PyInt AF_UNSPEC) l) \<or>
            (\<exists>ports os os'. advertised_ports e c os = Some (Inr ports, os') \<and>
               (port_proved e c 1 ports port \<or> port_proved e c 2 (candidate_ports c) port)))))
    \<and> (\<forall>ex. r = Inl ex \<longrightarrow> po_discovered s' \<in> {po_discovered s, None})"
proof (cases "bg_pinned c")
  case (Some pinned)
  with assms(1) obtain o1 os where gate: "gate_probe e c (PyInt pinned) (po_os s) = Some (o1, os)"
    by (auto simp: resolve_port_def split: option.splits)
  show ?thesis
  proof (cases o1)
    case (Inl ex)
    with assms(1) Some gate show ?thesis by (auto simp: resolve_port_def)
  next
    case (Inr l)
    from gate_probe_proof(2) [OF gate [unfolded Inr] assms(2)] assms(1) Some gate Inr show ?thesis
      by (auto simp: resolve_port_def split: if_splits)
  qed
next
  case auto: None
  show ?thesis
  proof (cases "po_discovered s")
    case None
    with assms(1) auto have "rediscover e c s = Some (r, s')" by (simp add: resolve_port_def)
    from rediscover_proof [OF this assms(2)] auto show ?thesis by fastforce
  next
    case (Some cached)
    with assms(1) auto obtain o1 os where gate: "gate_probe e c cached (po_os s) = Some (o1, os)"
      by (auto simp: resolve_port_def split: option.splits)
    show ?thesis
    proof (cases o1)
      case (Inl ex)
      with assms(1) auto Some gate show ?thesis by (auto simp: resolve_port_def)
    next
      case (Inr l)
      note gated = gate_probe_proof [OF gate [unfolded Inr] assms(2)]
      show ?thesis
      proof (cases "is_dtls_server l")
        case True
        with assms(1) auto Some gate Inr have "r = Inr cached" "po_discovered s' = Some cached"
          by (auto simp: resolve_port_def accept_port_def Let_def)
        with gated(2) [OF True] auto Some show ?thesis by auto
      next
        case False
        with assms(1) auto Some gate Inr have
          "rediscover e c (s\<lparr>po_os := os, po_discovered := None\<rparr>) = Some (r, s')"
          by (simp add: resolve_port_def Let_def)
        from rediscover_proof [OF this] gated(1) auto show ?thesis by fastforce
      qed
    qed
  qed
qed

definition demo_port_env :: port_env where
  "demo_port_env =
     \<lparr>pe_ok = (\<lambda>n c. True), pe_one = (demo_gai, demo_probe_net), pe_many = (\<lambda>n p. (demo_gai, demo_probe_net)),
      pe_flight = (\<lambda>n. demo_outputs), pe_directory = (demo_addrinfo, demo_net), pe_fuel = 30\<rparr>"

definition demo_bridge_config :: bridge_config where
  "demo_bridge_config = \<lparr>bg_ip = PyStr (str_of ''oven''), bg_pinned = None, bg_default_port = 49155\<rparr>"

text \<open>Nothing is cached; the directory advertises 49153, and the answer to its probe comes from 49200.\<close>

theorem resolved_port_proved_witness:
  "\<exists>s'. resolve_port demo_port_env demo_bridge_config \<lparr>po_discovered = None, po_os = demo_os\<rparr> = Some (Inr (PyInt 49200), s')
     \<and> po_discovered s' = Some (PyInt 49200)"
proof -
  let ?run = "resolve_port demo_port_env demo_bridge_config \<lparr>po_discovered = None, po_os = demo_os\<rparr>"
  have "(case ?run of Some (Inr port, _) \<Rightarrow> port = PyInt 49200 | _ \<Rightarrow> False)" by code_simp
  then obtain s' where run: "?run = Some (Inr (PyInt 49200), s')" by (auto split: option.splits sum.splits)
  have "fresh_descriptors (po_os \<lparr>po_discovered = None, po_os = demo_os\<rparr>)"
    by (simp add: fresh_descriptors_def demo_os_def)
  from resolved_port_proved [OF run this] run show ?thesis by (simp add: demo_bridge_config_def)
qed

end
