(* ===== verification/Mqtt_Bridge.thy ===== *)
theory Mqtt_Bridge
  imports State_Cache
begin

text \<open>
  \<open>mqtt_demo/bridge.py\<close>: \<open>PushBridge\<close>, which supervises one appliance. Its publications on MQTT and the
  markers that suppress repeated ones, the handling of notifications, fetchbacks and commands, the life of one
  session and the reconnect loop. The MQTT client, the session, CBOR, JSON, the descriptor of the appliance
  and the clock are arguments (\<open>bridge_world\<close>), functions of the number of the call. A handler is one step;
  what the other threads do while the session thread waits is \<open>mw_others\<close>.
\<close>

section \<open>State\<close>

datatype topic = State_topic | Avail_topic | Remote_topic | Cycle_topic | Push_topic

datatype payload = Gate bool | Sensors rep

text \<open>A command handler's answer: \<open>LOCAL_ONLY\<close>, \<open>None\<close>, or a path and a body.\<close>

datatype command_answer = Local_only | Rejected_command | Write_command "pystr list" pyval

datatype bridge_event = Published topic payload | Poll_deferred pyval real | Command_posted "pystr list" bytes real
  | Session_closed | Subscribed "pystr list" | Attempted "unit result" | Retry_wait real

record 'd bridge =
  mb_cache :: "'d cache"
  mb_state :: "rep option"
  mb_avail :: "bool option"
  mb_remote :: "bool option"
  mb_cycle :: "bool option"
  mb_push :: "bool option"
  mb_publish_gate :: bool
  mb_session :: bool
  mb_tasks :: bool
  mb_clock :: bool
  mb_on_unreachable :: bool
  mb_stop :: bool
  mb_session_stop :: "bool option"
  mb_session_started :: "real option"
  mb_last_change :: "real option"
  mb_change_source :: "pystr option"
  mb_observe_change :: "real option"
  mb_last_seed :: "real option"
  mb_unreachable_since :: "real option"
  mb_force_close :: bool
  mb_notifs :: nat
  mb_connects :: nat
  mb_errors :: nat
  mb_fetch_gen :: "(pyval \<times> nat) list"
  mb_fetches :: "(pyval \<times> nat \<times> pystr) list"
  mb_calls :: nat
  mb_log :: "bridge_event list"

record 'd bridge_world =
  mw_publish :: "nat \<Rightarrow> unit result"
  mw_wall :: "nat \<Rightarrow> real"
  mw_cache :: "'d cache_world"
  mw_flatten :: "(pyval \<times> rep) list \<Rightarrow> rep result"
  mw_project :: "('d \<Rightarrow> rep \<Rightarrow> rep result) option"
  mw_json :: "rep \<Rightarrow> unit result"
  mw_remote_field :: "pyval option"
  mw_cycle_field :: "pyval option"
  mw_loads :: "bytes \<Rightarrow> pyval result"
  mw_dumps :: "pyval \<Rightarrow> bytes result"
  mw_handler :: "pystr \<Rightarrow> (pystr \<Rightarrow> (pyval \<times> rep) list \<Rightarrow> command_answer result) option"
  mw_resolve :: "nat \<Rightarrow> pyval result"
  mw_connect :: "nat \<Rightarrow> pyval \<Rightarrow> unit result"
  mw_start :: "nat \<Rightarrow> unit result"
  mw_subscribe :: "nat \<Rightarrow> pystr list \<Rightarrow> unit result"
  mw_get :: "nat \<Rightarrow> pystr list \<Rightarrow> (nat \<times> bytes) result"
  mw_post :: "nat \<Rightarrow> pystr list \<Rightarrow> bytes \<Rightarrow> (nat \<times> bytes) result"
  mw_join :: "nat \<Rightarrow> unit result"
  mw_jitter :: "nat \<Rightarrow> real"
  mw_observe_paths :: "pystr list list"
  mw_seed_path :: "pystr list"
  mw_clock :: "pyval option"
  mw_clear :: "'d"
  mw_others :: "nat \<Rightarrow> 'd bridge \<Rightarrow> 'd bridge"

abbreviation (input) "PUSH_LABEL \<equiv> str_of ''observe''"

definition bridge_new :: "'d \<Rightarrow> 'd bridge" where
  "bridge_new d =
     \<lparr>mb_cache = cache_new d, mb_state = None, mb_avail = None, mb_remote = None, mb_cycle = None, mb_push = None,
      mb_publish_gate = False, mb_session = False, mb_tasks = False, mb_clock = False, mb_on_unreachable = False, mb_stop = False,
      mb_session_stop = None, mb_session_started = None, mb_last_change = None, mb_change_source = None,
      mb_observe_change = None, mb_last_seed = None, mb_unreachable_since = None, mb_force_close = False,
      mb_notifs = 0, mb_connects = 0, mb_errors = 0, mb_fetch_gen = [], mb_fetches = [], mb_calls = 0, mb_log = []\<rparr>"

definition mb_tick :: "'d bridge \<Rightarrow> 'd bridge" where
  "mb_tick b = b\<lparr>mb_calls := mb_calls b + 1\<rparr>"

definition mb_event :: "bridge_event \<Rightarrow> 'd bridge \<Rightarrow> 'd bridge" where
  "mb_event ev b = b\<lparr>mb_log := mb_log b @ [ev]\<rparr>"

definition wall_clock :: "'d bridge_world \<Rightarrow> 'd bridge \<Rightarrow> real \<times> 'd bridge" where
  "wall_clock w b = (mw_wall w (mb_calls b), mb_tick b)"

text \<open>What the other threads do while this one waits.\<close>

definition meanwhile :: "'d bridge_world \<Rightarrow> 'd bridge \<Rightarrow> 'd bridge" where
  "meanwhile w b = mw_others w (mb_calls b) (mb_tick b)"

section \<open>Publications\<close>

text \<open>\<open>mqtt.publish\<close>, with QoS 1 and retained.\<close>

definition mqtt_publish :: "'d bridge_world \<Rightarrow> topic \<Rightarrow> payload \<Rightarrow> 'd bridge \<Rightarrow> unit result \<times> 'd bridge" where
  "mqtt_publish w topic payload b =
     (case mw_publish w (mb_calls b) of
        Inl e \<Rightarrow> (Inl e, mb_tick b)
      | Inr _ \<Rightarrow> (Inr (), mb_event (Published topic payload) (mb_tick b)))"

definition publish_remote_available :: "'d bridge_world \<Rightarrow> bool \<Rightarrow> bool \<Rightarrow> 'd bridge \<Rightarrow> 'd bridge" where
  "publish_remote_available w remote_on force b =
     (if \<not> force \<and> mb_remote b = Some remote_on then b
      else snd (mqtt_publish w Remote_topic (Gate remote_on) (b\<lparr>mb_remote := Some remote_on\<rparr>)))"

definition publish_cycle_active :: "'d bridge_world \<Rightarrow> bool \<Rightarrow> bool \<Rightarrow> 'd bridge \<Rightarrow> 'd bridge" where
  "publish_cycle_active w cycle_on force b =
     (if \<not> force \<and> mb_cycle b = Some cycle_on then b
      else snd (mqtt_publish w Cycle_topic (Gate cycle_on) (b\<lparr>mb_cycle := Some cycle_on\<rparr>)))"

definition publish_push_active :: "'d bridge_world \<Rightarrow> bool \<Rightarrow> bool \<Rightarrow> 'd bridge \<Rightarrow> 'd bridge" where
  "publish_push_active w active force b =
     (if \<not> force \<and> mb_push b = Some active then b
      else snd (mqtt_publish w Push_topic (Gate active) (b\<lparr>mb_push := Some active\<rparr>)))"

text \<open>The truth value of \<open>sensors.get(field)\<close>.\<close>

definition sensor_on :: "rep \<Rightarrow> pyval \<Rightarrow> bool" where
  "sensor_on sensors field = (case dict_get sensors field of None \<Rightarrow> False | Some v \<Rightarrow> \<not> falsy v)"

definition publish_gates :: "'d bridge_world \<Rightarrow> rep \<Rightarrow> bool \<Rightarrow> 'd bridge \<Rightarrow> 'd bridge" where
  "publish_gates w sensors force b =
     (let b = (case mw_remote_field w of
            None \<Rightarrow> b | Some field \<Rightarrow> publish_remote_available w (sensor_on sensors field) force b) in
      (case mw_cycle_field w of
         None \<Rightarrow> b | Some field \<Rightarrow> publish_cycle_active w (sensor_on sensors field) force b))"

definition projected :: "'d bridge_world \<Rightarrow> 'd bridge \<Rightarrow> rep result" where
  "projected w b =
     andThen (mw_flatten w (c_links (mb_cache b))) (\<lambda>sensors.
       case mw_project w of None \<Rightarrow> Inr sensors | Some project \<Rightarrow> project (c_descriptor (mb_cache b)) sensors)"

definition maybe_publish_state :: "'d bridge_world \<Rightarrow> bool \<Rightarrow> 'd bridge \<Rightarrow> unit result \<times> 'd bridge" where
  "maybe_publish_state w force b =
     (if \<not> force \<and> \<not> mb_publish_gate b then (Inr (), b)
      else then_do (projected w b, b) (\<lambda>sensors b.
        if \<not> force \<and> (case mb_state b of None \<Rightarrow> False | Some old \<Rightarrow> same_value (PyDict sensors) (PyDict old))
        then (Inr (), b)
        else then_do (mw_json w sensors, b\<lparr>mb_state := Some sensors\<rparr>) (\<lambda>_ b.
          then_do (mqtt_publish w State_topic (Sensors sensors) b) (\<lambda>_ b.
            (Inr (), publish_gates w sensors False b)))))"

definition set_availability :: "'d bridge_world \<Rightarrow> bool \<Rightarrow> 'd bridge \<Rightarrow> 'd bridge" where
  "set_availability w online b =
     (if mb_avail b = Some online then b
      else
        let b = snd (mqtt_publish w Avail_topic (Gate online) (b\<lparr>mb_avail := Some online\<rparr>)) in
        if online then b
        else
          let b = (if mw_remote_field w = None then b
                   else snd (mqtt_publish w Remote_topic (Gate False) (b\<lparr>mb_remote := None\<rparr>)));
              b = (if mw_cycle_field w = None then b
                   else snd (mqtt_publish w Cycle_topic (Gate False) (b\<lparr>mb_cycle := None\<rparr>))) in
          snd (mqtt_publish w Push_topic (Gate False) (b\<lparr>mb_push := None\<rparr>)))"

definition PUSH_ACTIVE_WINDOW_S :: real where "PUSH_ACTIVE_WINDOW_S = 600"

definition reassert_availability :: "'d bridge_world \<Rightarrow> 'd bridge \<Rightarrow> 'd bridge" where
  "reassert_availability w b =
     (if \<not> mb_session b then b
      else
        (case mb_state b of
           None \<Rightarrow> b
         | Some sensors \<Rightarrow>
             (case wall_clock w (publish_gates w sensors True (set_availability w True b)) of
                (now, b) \<Rightarrow>
                  publish_push_active w
                    (case mb_observe_change b of None \<Rightarrow> False | Some ts \<Rightarrow> now - ts \<le> PUSH_ACTIVE_WINDOW_S) True b)))"

section \<open>The cache and what arrives\<close>

text \<open>\<open>_on_cache_change\<close>, the callback of the cache; the cache swallows what it raises.\<close>

definition on_cache_change :: "'d bridge_world \<Rightarrow> bool \<Rightarrow> pystr \<Rightarrow> 'd bridge \<Rightarrow> 'd bridge" where
  "on_cache_change w changed source b =
     (let b = (if changed then
                 (case wall_clock w (b\<lparr>mb_notifs := mb_notifs b + 1\<rparr>) of
                    (now, b) \<Rightarrow>
                      let b = b\<lparr>mb_last_change := Some now, mb_change_source := Some source\<rparr> in
                      if source = PUSH_LABEL then b\<lparr>mb_observe_change := Some now\<rparr> else b)
               else b) in
      snd (maybe_publish_state w False b))"

definition bridge_apply :: "'d bridge_world \<Rightarrow> pyval \<Rightarrow> pyval \<Rightarrow> pystr \<Rightarrow> bool \<Rightarrow> 'd bridge \<Rightarrow> 'd bridge" where
  "bridge_apply w href rep source merge b =
     (case apply_rep (mw_cache w) href rep source merge (mb_cache b) of
        (changed, c) \<Rightarrow>
          (case rep of
             PyDict _ \<Rightarrow> on_cache_change w changed source (b\<lparr>mb_cache := c\<rparr>)
           | _ \<Rightarrow> b\<lparr>mb_cache := c\<rparr>))"

definition bridge_optimistic :: "'d bridge_world \<Rightarrow> pyval \<Rightarrow> pyval \<Rightarrow> 'd bridge \<Rightarrow> 'd bridge" where
  "bridge_optimistic w href body b =
     (case apply_optimistic (mw_cache w) (\<lambda>c. c) href body (mb_cache b) of
        (changed, c) \<Rightarrow>
          (case body of
             PyDict _ \<Rightarrow> on_cache_change w changed (str_of ''optimistic'') (b\<lparr>mb_cache := c\<rparr>)
           | _ \<Rightarrow> b\<lparr>mb_cache := c\<rparr>))"

text \<open>\<open>_schedule_fetchback\<close> takes the next generation of the href under the lock and starts a thread.\<close>

definition fetch_generation :: "pyval \<Rightarrow> 'd bridge \<Rightarrow> nat" where
  "fetch_generation href b = (case dict_get (mb_fetch_gen b) href of None \<Rightarrow> 0 | Some n \<Rightarrow> n)"

definition schedule_fetchback :: "pyval \<Rightarrow> pystr \<Rightarrow> 'd bridge \<Rightarrow> 'd bridge" where
  "schedule_fetchback href source b =
     (let gen = fetch_generation href b + 1 in
      b\<lparr>mb_fetch_gen := dict_set href gen (mb_fetch_gen b), mb_fetches := mb_fetches b @ [(href, gen, source)]\<rparr>)"

definition on_notification :: "'d bridge_world \<Rightarrow> pyval \<Rightarrow> bytes \<Rightarrow> pystr \<Rightarrow> 'd bridge \<Rightarrow> 'd bridge" where
  "on_notification w href payload source b =
     (if payload = [] then schedule_fetchback href source b
      else
        (case mw_loads w payload of
           Inl _ \<Rightarrow> schedule_fetchback href source b
         | Inr (PyDict d) \<Rightarrow> bridge_apply w href (PyDict d) source (source = PUSH_LABEL) b
         | Inr _ \<Rightarrow> b))"

definition on_observe_delivery :: "'d bridge_world \<Rightarrow> pyval \<Rightarrow> bytes \<Rightarrow> bool \<Rightarrow> 'd bridge \<Rightarrow> 'd bridge" where
  "on_observe_delivery w href payload registration b =
     on_notification w href payload (if registration then str_of ''observe-register'' else PUSH_LABEL) b"

text \<open>
  \<open>_fetch_back\<close> of one thread: other threads run while it waits for the answer, and between the last check of
  the generation, under the lock, and the write to the cache.
\<close>

definition href_to_segs :: "pyval \<Rightarrow> pystr list" where
  "href_to_segs href = (case href of PyStr s \<Rightarrow> filter (\<lambda>p. p \<noteq> []) (py_split 0x2F s) | _ \<Rightarrow> [])"

definition fetched_rep :: "'d bridge_world \<Rightarrow> nat \<times> bytes \<Rightarrow> pyval option" where
  "fetched_rep w answer =
     (case answer of (code, payload) \<Rightarrow>
        if code \<noteq> 0x45 then None
        else
          (case (if payload = [] then Inr (PyDict []) else mw_loads w payload) of
             Inr (PyDict d) \<Rightarrow> Some (PyDict d) | _ \<Rightarrow> None))"

definition fetch_back :: "'d bridge_world \<Rightarrow> pyval \<Rightarrow> nat \<Rightarrow> pystr \<Rightarrow> 'd bridge \<Rightarrow> 'd bridge" where
  "fetch_back w href gen source b =
     (if fetch_generation href b \<noteq> gen then b
      else if \<not> mb_session b then b
      else
        let answer = mw_get w (mb_calls b) (href_to_segs href); b = meanwhile w b in
        (case answer of
           Inl _ \<Rightarrow> b
         | Inr answer \<Rightarrow>
             if fetch_generation href b \<noteq> gen then b
             else
               (case fetched_rep w answer of
                  None \<Rightarrow> b
                | Some rep \<Rightarrow> bridge_apply w href rep source False (meanwhile w b))))"

section \<open>Reachability\<close>

definition UNREACHABLE_RECONNECT_S :: real where "UNREACHABLE_RECONNECT_S = 120"

definition on_reachable :: "'d bridge_world \<Rightarrow> 'd bridge \<Rightarrow> 'd bridge" where
  "on_reachable w b = reassert_availability w (set_availability w True (b\<lparr>mb_unreachable_since := None\<rparr>))"

definition on_unreachable :: "'d bridge_world \<Rightarrow> 'd bridge \<Rightarrow> 'd bridge" where
  "on_unreachable w b =
     set_availability w False
       (if mb_unreachable_since b = None
        then (case wall_clock w b of (now, b) \<Rightarrow> b\<lparr>mb_unreachable_since := Some now\<rparr>) else b)"

definition maybe_force_reconnect :: "'d bridge_world \<Rightarrow> 'd bridge \<Rightarrow> 'd bridge" where
  "maybe_force_reconnect w b =
     (case mb_unreachable_since b of
        None \<Rightarrow> b
      | Some since \<Rightarrow>
          if mb_force_close b then b
          else
            (case wall_clock w b of
               (now, b) \<Rightarrow>
                 if now - since < UNREACHABLE_RECONNECT_S \<or> \<not> mb_session b then b
                 else
                   let b = b\<lparr>mb_force_close := True\<rparr>;
                       b = (if mb_tasks b then b\<lparr>mb_on_unreachable := False\<rparr> else b) in
                   mb_event Session_closed b))"

text \<open>
  \<open>publish_health\<close>, of which only what acts is modelled: the push gate and the watchdog. The age is rounded
  to one decimal place, half to even.
\<close>

definition py_round1 :: "real \<Rightarrow> real" where
  "py_round1 x =
     (let f = \<lfloor>10 * x\<rfloor>; d = 10 * x - of_int f in
      of_int (if d < 1 / 2 \<or> d = 1 / 2 \<and> even f then f else f + 1) / 10)"

definition publish_health :: "'d bridge_world \<Rightarrow> 'd bridge \<Rightarrow> 'd bridge" where
  "publish_health w b =
     (case wall_clock w b of
        (now, b) \<Rightarrow>
          let active = (case mb_observe_change b of
                None \<Rightarrow> False | Some ts \<Rightarrow> ts \<noteq> 0 \<and> py_round1 (now - ts) \<le> PUSH_ACTIVE_WINDOW_S) in
          maybe_force_reconnect w (publish_push_active w active False b))"

section \<open>Commands\<close>

text \<open>\<open>_batch_targets\<close>: the elements of an OCF batch that carry a representation, by href.\<close>

definition batch_targets :: "pyval list \<Rightarrow> (pyval \<times> rep) list" where
  "batch_targets body =
     fold (\<lambda>el out.
       case el of
         PyDict d \<Rightarrow>
           (case (dict_get d (PyStr (str_of ''href'')), dict_get d (PyStr (str_of ''rep''))) of
              (Some (PyStr href), Some (PyDict rep)) \<Rightarrow> dict_set (PyStr href) rep out
            | _ \<Rightarrow> out)
       | _ \<Rightarrow> out) body []"

definition command_href :: "pystr list \<Rightarrow> pyval" where
  "command_href path = PyStr (0x2F # py_join [0x2F] path)"

text \<open>The hrefs a write touches, and those it defers the polls of.\<close>

definition write_targets :: "pystr list \<Rightarrow> pyval \<Rightarrow> (pyval \<times> pyval) list" where
  "write_targets path body =
     (case body of
        PyList els \<Rightarrow> map (\<lambda>(h, rep). (h, PyDict rep)) (batch_targets els)
      | _ \<Rightarrow> [(command_href path, body)])"

definition deferred_hrefs :: "pystr list \<Rightarrow> pyval \<Rightarrow> pyval list" where
  "deferred_hrefs path body =
     (case body of
        PyList els \<Rightarrow> if batch_targets els = [] then [command_href path] else map fst (batch_targets els)
      | _ \<Rightarrow> [command_href path])"

definition COMMAND_SETTLE_S :: real where "COMMAND_SETTLE_S = 4"
definition COMMAND_TIMEOUT_S :: real where "COMMAND_TIMEOUT_S = 8"

definition write_command :: "'d bridge_world \<Rightarrow> pystr list \<Rightarrow> pyval \<Rightarrow> 'd bridge \<Rightarrow> 'd bridge" where
  "write_command w path body b =
     (if \<not> mb_session b then b
      else
        let b = (if mb_tasks b then fold (\<lambda>h. mb_event (Poll_deferred h COMMAND_SETTLE_S)) (deferred_hrefs path body) b
                 else b) in
        (case mw_dumps w body of
           Inl _ \<Rightarrow> b
         | Inr data \<Rightarrow>
             let answer = mw_post w (mb_calls b) path data;
                 b = meanwhile w (mb_event (Command_posted path data COMMAND_TIMEOUT_S) b) in
             (case answer of
                Inl _ \<Rightarrow> b
              | Inr (code, _) \<Rightarrow>
                  if code div 32 = 2 then fold (\<lambda>(h, rep). bridge_optimistic w h rep) (write_targets path body) b
                  else b)))"

text \<open>
  \<open>handle_command\<close> of a topic below \<open>prefix/cmd/\<close>; \<open>suffix\<close> keeps the \<open>cmd/\<close>. The clock button is passed on to
  the task of \<open>Clock_Sync\<close>.
\<close>

datatype command_outcome = Ignored_topic | Sync_clock | No_clock_task | Unknown_command | Handled

definition handle_command ::
  "'d bridge_world \<Rightarrow> pystr \<Rightarrow> pystr \<Rightarrow> pystr \<Rightarrow> 'd bridge \<Rightarrow> command_outcome result \<times> 'd bridge" where
  "handle_command w prefix_topic topic payload b =
     (let cmd_prefix = prefix_topic @ str_of ''/cmd/'' in
      if \<not> prefix cmd_prefix topic then (Inr Ignored_topic, b)
      else
        let suffix = drop (length cmd_prefix - 4) topic in
        if suffix = str_of ''cmd/sync_clock'' then (Inr (if mb_clock b then Sync_clock else No_clock_task), b)
        else
          (case mw_handler w suffix of
             None \<Rightarrow> (Inr Unknown_command, b)
           | Some handler \<Rightarrow>
               then_do (handler payload (c_links (mb_cache b)), b) (\<lambda>answer b.
                 case answer of
                   Local_only \<Rightarrow> then_do (maybe_publish_state w True b) (\<lambda>_ b. (Inr Handled, b))
                 | Rejected_command \<Rightarrow> (Inr Handled, b)
                 | Write_command path body \<Rightarrow> (Inr Handled, write_command w path body b))))"

section \<open>One session\<close>

fun subscribe_paths :: "'d bridge_world \<Rightarrow> pystr list list \<Rightarrow> 'd bridge \<Rightarrow> unit result \<times> 'd bridge" where
  "subscribe_paths w [] b = (Inr (), b)"
| "subscribe_paths w (path # paths) b =
     then_do (mw_subscribe w (mb_calls b) path, meanwhile w (mb_event (Subscribed path) b)) (\<lambda>_.
       subscribe_paths w paths)"

definition seed_link :: "'d bridge_world \<Rightarrow> pyval \<times> pyval \<Rightarrow> 'd bridge \<Rightarrow> 'd bridge" where
  "seed_link w entry b =
     (case entry of (href, rep) \<Rightarrow>
        if dict_get (c_links (mb_cache b)) href = None then bridge_apply w href rep (str_of ''seed'') False b else b)"

definition seed_from_device0 :: "'d bridge_world \<Rightarrow> 'd bridge \<Rightarrow> unit result \<times> 'd bridge" where
  "seed_from_device0 w b =
     then_do (mw_get w (mb_calls b) (mw_seed_path w), meanwhile w b) (\<lambda>(code, payload) b.
       if code \<noteq> 0x45 then (Inl Py_RuntimeError, b)
       else
         (case mw_loads w payload of
            Inl _ \<Rightarrow> (Inl Py_RuntimeError, b)
          | Inr body \<Rightarrow>
              then_do (index_device_tree body, b) (\<lambda>links b.
                (case wall_clock w (fold (seed_link w) links b) of
                   (now, b) \<Rightarrow> (Inr (), b\<lparr>mb_last_seed := Some now\<rparr>)))))"

text \<open>
  \<open>_run_session_inner\<close>. The workers exist from the creation of the tasks until the join returns; the handle
  \<open>_session_stop\<close> starts out set when the bridge is already stopping.
\<close>

definition start_tasks :: "'d bridge_world \<Rightarrow> 'd bridge \<Rightarrow> 'd bridge" where
  "start_tasks w b =
     b\<lparr>mb_tasks := True, mb_on_unreachable := True,
       mb_clock := (case mw_clock w of None \<Rightarrow> False | Some href \<Rightarrow> dict_get (c_links (mb_cache b)) href \<noteq> None),
       mb_session_stop := Some (mb_stop b)\<rparr>"

definition stop_tasks :: "'d bridge_world \<Rightarrow> 'd bridge \<Rightarrow> 'd bridge" where
  "stop_tasks w b =
     (meanwhile w (b\<lparr>mb_on_unreachable := False, mb_session_stop := map_option (\<lambda>_. True) (mb_session_stop b)\<rparr>))
       \<lparr>mb_tasks := False, mb_clock := False, mb_session_stop := None\<rparr>"

definition run_session_inner :: "'d bridge_world \<Rightarrow> 'd bridge \<Rightarrow> unit result \<times> 'd bridge" where
  "run_session_inner w b =
     then_do (subscribe_paths w (mw_observe_paths w) b) (\<lambda>_ b.
     then_do (seed_from_device0 w b) (\<lambda>_ b.
     then_do (maybe_publish_state w True (b\<lparr>mb_publish_gate := True\<rparr>)) (\<lambda>_ b.
       let b = start_tasks w (set_availability w True b);
           joined = mw_join w (mb_calls b) in
       (joined, stop_tasks w (meanwhile w b)))))"

definition session_once :: "'d bridge_world \<Rightarrow> 'd bridge \<Rightarrow> unit result \<times> 'd bridge" where
  "session_once w b =
     then_do (mw_resolve w (mb_calls b), meanwhile w b) (\<lambda>port b.
     then_do (mw_connect w (mb_calls b) port, meanwhile w b) (\<lambda>_ b.
       (case wall_clock w b of
          (now, b) \<Rightarrow>
            let b = b\<lparr>mb_session := True, mb_session_started := Some now, mb_connects := mb_connects b + 1,
                      mb_cache := (mb_cache b)\<lparr>c_descriptor := mw_clear w\<rparr>, mb_publish_gate := False,
                      mb_unreachable_since := None, mb_force_close := False\<rparr> in
            then_do (mw_start w (mb_calls b), mb_tick b) (\<lambda>_. run_session_inner w))))"

section \<open>The reconnect loop\<close>

definition PEER_HANDSHAKE_RETRY_S :: real where "PEER_HANDSHAKE_RETRY_S = 1 / 2"
definition PEER_HANDSHAKE_MAX_IMMEDIATE :: nat where "PEER_HANDSHAKE_MAX_IMMEDIATE = 4"

text \<open>What an attempt's outcome makes of the retry: at once or not, the backoff, the collisions in a row.\<close>

definition retry_verdict ::
  "unit result \<Rightarrow> real \<Rightarrow> nat \<Rightarrow> 'd bridge \<Rightarrow> (bool \<times> real \<times> nat) \<times> 'd bridge" where
  "retry_verdict outcome backoff collisions b =
     (case outcome of
        Inr _ \<Rightarrow> ((False, 1, 0), b)
      | Inl e \<Rightarrow>
          if isinstance_of e PeerInitiatedHandshakeError then
            (if collisions + 1 \<le> PEER_HANDSHAKE_MAX_IMMEDIATE then ((True, backoff, collisions + 1), b)
             else ((False, backoff, collisions + 1), b\<lparr>mb_errors := mb_errors b + 1\<rparr>))
          else ((False, backoff, 0), b\<lparr>mb_errors := mb_errors b + 1\<rparr>))"

definition end_session :: "'d bridge_world \<Rightarrow> 'd bridge \<Rightarrow> 'd bridge" where
  "end_session w b =
     (set_availability w False
        (if mb_session b then mb_event Session_closed (b\<lparr>mb_session := False\<rparr>) else b))\<lparr>mb_session_started := None\<rparr>"

text \<open>\<open>stop.wait\<close>: other threads run meanwhile, and one of them may stop the bridge.\<close>

definition retry_wait :: "'d bridge_world \<Rightarrow> real \<Rightarrow> 'd bridge \<Rightarrow> bool \<times> 'd bridge" where
  "retry_wait w t b = (let b = meanwhile w (mb_event (Retry_wait t) b) in (mb_stop b, b))"

fun reconnect_loop :: "'d bridge_world \<Rightarrow> nat \<Rightarrow> real \<Rightarrow> nat \<Rightarrow> 'd bridge \<Rightarrow> 'd bridge option" where
  "reconnect_loop w 0 backoff collisions b = None"
| "reconnect_loop w (Suc fuel) backoff collisions b =
     (if mb_stop b then Some b
      else
        (case session_once w b of
           (outcome, b) \<Rightarrow>
             (case retry_verdict outcome backoff collisions (mb_event (Attempted outcome) b) of
                ((immediate, backoff, collisions), b) \<Rightarrow>
                  let b = end_session w b in
                  if mb_stop b then Some b
                  else if immediate then
                    (case retry_wait w PEER_HANDSHAKE_RETRY_S b of
                       (True, b) \<Rightarrow> Some b
                     | (False, b) \<Rightarrow> reconnect_loop w fuel backoff collisions b)
                  else
                    (case retry_wait w (min backoff 30 * mw_jitter w (mb_calls b)) (mb_tick b) of
                       (True, b) \<Rightarrow> Some b
                     | (False, b) \<Rightarrow> reconnect_loop w fuel (min (backoff * 2) 30) collisions b))))"

definition bridge_forever :: "'d bridge_world \<Rightarrow> nat \<Rightarrow> 'd bridge \<Rightarrow> 'd bridge option" where
  "bridge_forever w fuel b = reconnect_loop w fuel 1 0 b"

text \<open>The two sections of \<open>request_stop\<close>.\<close>

definition stop_bridge :: "'d bridge \<Rightarrow> 'd bridge" where
  "stop_bridge b = b\<lparr>mb_stop := True\<rparr>"

definition wake_session :: "'d bridge \<Rightarrow> 'd bridge" where
  "wake_session b = b\<lparr>mb_session_stop := map_option (\<lambda>_. True) (mb_session_stop b)\<rparr>"

end
