(* ===== verification/Bridge_Behaviour.thy ===== *)
theory Bridge_Behaviour
  imports Mqtt_Bridge
begin

text \<open>
  What holds of the bridge whatever its other threads do. \<open>bridge_action\<close> lists what they do, one handler
  each; \<open>acting\<close> runs a schedule of actions wherever the session thread waits. The locale \<open>other_threads\<close> says
  what a wait leaves alone, \<open>mirrored_threads\<close> that it keeps what the broker retains in step with the
  bridge's markers; both are interpreted on \<open>acting\<close>.
\<close>

datatype bridge_action = Deliver pyval bytes bool | Cached pyval pyval pystr | Fetch pyval nat pystr
  | Command pystr pystr pystr | Peer_answers | Peer_silent | Health | Mqtt_connected | Stop_requested

fun act :: "'d bridge_world \<Rightarrow> bridge_action \<Rightarrow> 'd bridge \<Rightarrow> 'd bridge" where
  "act w (Deliver href payload registration) b = on_observe_delivery w href payload registration b"
| "act w (Cached href rep source) b = bridge_apply w href rep source False b"
| "act w (Fetch href gen source) b = fetch_back w href gen source b"
| "act w (Command prefix_topic topic payload) b = snd (handle_command w prefix_topic topic payload b)"
| "act w Peer_answers b = on_reachable w b"
| "act w Peer_silent b = on_unreachable w b"
| "act w Health b = publish_health w b"
| "act w Mqtt_connected b = reassert_availability w b"
| "act w Stop_requested b = wake_session (stop_bridge b)"

text \<open>The actions a wait runs see no further threads of their own.\<close>

definition alone :: "'d bridge_world \<Rightarrow> 'd bridge_world" where
  "alone w = w\<lparr>mw_others := \<lambda>n b. b\<rparr>"

definition acting :: "'d bridge_world \<Rightarrow> (nat \<Rightarrow> bridge_action list) \<Rightarrow> 'd bridge_world" where
  "acting w schedule = w\<lparr>mw_others := \<lambda>n. fold (act (alone w)) (schedule n)\<rparr>"

section \<open>What a wait leaves alone\<close>

text \<open>The events of the reconnect loop.\<close>

fun of_loop :: "bridge_event \<Rightarrow> bool" where
  "of_loop (Attempted outcome) = True"
| "of_loop (Retry_wait t) = True"
| "of_loop _ = False"

definition loop_events :: "'d bridge \<Rightarrow> bridge_event list" where
  "loop_events b = filter of_loop (mb_log b)"

text \<open>What only the session thread changes.\<close>

definition loop_view :: "'d bridge \<Rightarrow> bridge_event list \<times> nat \<times> bool" where
  "loop_view b = (loop_events b, mb_errors b, mb_session b)"

named_theorems loop_views

lemma loop_view_simps [simp, loop_views]:
  "loop_view (mb_tick b) = loop_view b"
  "\<not> of_loop ev \<Longrightarrow> loop_view (mb_event ev b) = loop_view b"
  "loop_view (snd (wall_clock w b)) = loop_view b"
  "loop_view (b\<lparr>mb_cache := c\<rparr>) = loop_view b"
  "loop_view (b\<lparr>mb_state := s\<rparr>) = loop_view b"
  "loop_view (b\<lparr>mb_avail := v\<rparr>) = loop_view b"
  "loop_view (b\<lparr>mb_remote := v\<rparr>) = loop_view b"
  "loop_view (b\<lparr>mb_cycle := v\<rparr>) = loop_view b"
  "loop_view (b\<lparr>mb_push := v\<rparr>) = loop_view b"
  "loop_view (b\<lparr>mb_notifs := k\<rparr>) = loop_view b"
  "loop_view (b\<lparr>mb_last_change := t\<rparr>) = loop_view b"
  "loop_view (b\<lparr>mb_change_source := src\<rparr>) = loop_view b"
  "loop_view (b\<lparr>mb_observe_change := t\<rparr>) = loop_view b"
  "loop_view (b\<lparr>mb_unreachable_since := t\<rparr>) = loop_view b"
  "loop_view (b\<lparr>mb_force_close := f\<rparr>) = loop_view b"
  "loop_view (b\<lparr>mb_on_unreachable := f\<rparr>) = loop_view b"
  by (simp_all add: loop_view_def loop_events_def mb_tick_def mb_event_def wall_clock_def)

lemma publish_view [simp]: "loop_view (snd (mqtt_publish w t p b)) = loop_view b"
  by (simp add: mqtt_publish_def split: sum.splits)

lemma gates_view [simp]:
  "loop_view (publish_remote_available w v f b) = loop_view b"
  "loop_view (publish_cycle_active w v f b) = loop_view b"
  "loop_view (publish_push_active w v f b) = loop_view b"
  "loop_view (publish_gates w s f b) = loop_view b"
  "loop_view (set_availability w v b) = loop_view b"
  by (simp_all add: publish_remote_available_def publish_cycle_active_def publish_push_active_def publish_gates_def
      set_availability_def Let_def split: option.splits)

lemma maybe_publish_view [simp]: "loop_view (snd (maybe_publish_state w force b)) = loop_view b"
proof (cases "projected w b")
  case (Inr sensors)
  have "loop_view (snd (then_do (mqtt_publish w State_topic (Sensors sensors) b) (\<lambda>_ b. (Inr (), publish_gates w sensors False b))))
      = loop_view b" for b :: "'a bridge"
    using publish_view [of w State_topic "Sensors sensors" b]
    by (cases "mqtt_publish w State_topic (Sensors sensors) b"; cases "fst (mqtt_publish w State_topic (Sensors sensors) b)") auto
  with Inr show ?thesis by (cases "mw_json w sensors") (simp_all add: maybe_publish_state_def)
qed (simp add: maybe_publish_state_def)

lemma reassert_view [simp]: "loop_view (reassert_availability w b) = loop_view b"
  by (simp add: reassert_availability_def wall_clock_def split: option.splits)

lemma cache_change_view [simp]: "loop_view (on_cache_change w changed source b) = loop_view b"
  by (simp add: on_cache_change_def wall_clock_def Let_def)

lemma bridge_apply_view [simp]:
  "loop_view (bridge_apply w href rep source merge b) = loop_view b"
  "loop_view (bridge_optimistic w href rep b) = loop_view b"
  by (simp_all add: bridge_apply_def bridge_optimistic_def split: prod.splits pyval.splits)

lemma schedule_view [simp]: "loop_view (schedule_fetchback href source b) = loop_view b"
  by (simp add: schedule_fetchback_def loop_view_def loop_events_def Let_def)

lemma notification_view [simp]:
  "loop_view (on_notification w href payload source b) = loop_view b"
  "loop_view (on_observe_delivery w href payload registration b) = loop_view b"
  by (simp_all add: on_observe_delivery_def on_notification_def split: sum.splits pyval.splits)

lemma reachability_view [simp]:
  "loop_view (on_reachable w b) = loop_view b"
  "loop_view (on_unreachable w b) = loop_view b"
  "loop_view (maybe_force_reconnect w b) = loop_view b"
  "loop_view (publish_health w b) = loop_view b"
proof -
  show 1: "loop_view (maybe_force_reconnect w b) = loop_view b" for b :: "'a bridge"
    by (simp add: maybe_force_reconnect_def wall_clock_def Let_def split: option.splits)
  show "loop_view (on_reachable w b) = loop_view b" "loop_view (on_unreachable w b) = loop_view b"
    by (simp_all add: on_reachable_def on_unreachable_def wall_clock_def)
  show "loop_view (publish_health w b) = loop_view b"
    by (simp add: publish_health_def wall_clock_def Let_def 1)
qed

lemma then_do_keeps:
  assumes "g (snd m) = v" and "\<And>x b. g b = v \<Longrightarrow> g (snd (f x b)) = v"
  shows "g (snd (then_do m f)) = v"
proof -
  obtain r b where m: "m = (r, b)" by fastforce
  then show ?thesis using assms by (cases r) auto
qed

definition attempt_view :: "'d bridge \<Rightarrow> bridge_event list \<times> nat" where
  "attempt_view b = (loop_events b, mb_errors b)"

lemma attempt_view_keeps: "loop_view b = loop_view b' \<Longrightarrow> attempt_view b = attempt_view b'"
  by (simp add: loop_view_def attempt_view_def)

section \<open>Pacing of the reconnect loop\<close>

text \<open>
  How long the loop waits, from the outcomes of the attempts so far, the latest first: a collision is retried
  at once unless it is the fifth in a row, everything else after the backoff, which starts at one second at
  the beginning and after a session that ended without an error and doubles up to 30 seconds with every
  other wait that is not at once.
\<close>

definition collided :: "unit result \<Rightarrow> bool" where
  "collided outcome = (case outcome of Inl e \<Rightarrow> isinstance_of e PeerInitiatedHandshakeError | Inr _ \<Rightarrow> False)"

definition collision_run :: "unit result list \<Rightarrow> nat" where
  "collision_run h = length (takeWhile collided h)"

definition at_once :: "unit result list \<Rightarrow> bool" where
  "at_once h \<longleftrightarrow> h \<noteq> [] \<and> collided (hd h) \<and> collision_run h \<le> PEER_HANDSHAKE_MAX_IMMEDIATE"

fun backoff_after :: "unit result list \<Rightarrow> real" where
  "backoff_after [] = 1"
| "backoff_after (outcome # h) =
     (let backoff = (if outcome = Inr () then 1 else backoff_after h) in
      if at_once (outcome # h) then backoff else min (backoff * 2) 30)"

definition backoff_now :: "unit result list \<Rightarrow> real" where
  "backoff_now h = (if hd h = Inr () then 1 else backoff_after (tl h))"

definition wait_due :: "unit result list \<Rightarrow> real \<Rightarrow> bool" where
  "wait_due h t \<longleftrightarrow>
     (if at_once h then t = PEER_HANDSHAKE_RETRY_S
      else 7 / 10 * backoff_now h \<le> t \<and> t \<le> 13 / 10 * backoff_now h)"

text \<open>Attempts and waits alternate, and every wait is due.\<close>

fun paced :: "unit result list \<Rightarrow> bridge_event list \<Rightarrow> bool" where
  "paced h [] = True"
| "paced h [Attempted outcome] = True"
| "paced h (Attempted outcome # Retry_wait t # evs) = (wait_due (outcome # h) t \<and> paced (outcome # h) evs)"
| "paced h (ev # evs) = False"

text \<open>The attempts that count as faults.\<close>

fun faults :: "unit result list \<Rightarrow> bridge_event list \<Rightarrow> nat" where
  "faults h [] = 0"
| "faults h (Attempted outcome # evs) =
     (if outcome \<noteq> Inr () \<and> \<not> at_once (outcome # h) then 1 else 0) + faults (outcome # h) evs"
| "faults h (ev # evs) = faults h evs"

lemma backoff_after_bounds: "1 \<le> backoff_after h \<and> backoff_after h \<le> 30"
  by (induction h) (auto simp: Let_def min_def)

lemma backoff_doubles:
  assumes "\<not> isinstance_of e PeerInitiatedHandshakeError"
  shows "backoff_now (replicate (Suc n) (Inl e)) = min (2 ^ n) 30"
proof -
  have "backoff_after (replicate n (Inl e)) = min (2 ^ n) 30" for n
  proof (induction n)
    case (Suc n)
    have "\<not> at_once (replicate (Suc n) (Inl e))" using assms by (simp add: at_once_def collided_def)
    then show ?case using Suc by (auto simp: min_def)
  qed simp
  then show ?thesis by (simp add: backoff_now_def)
qed

lemma verdict_exact:
  "retry_verdict outcome (backoff_after h) (collision_run h) b =
     ((at_once (outcome # h), backoff_now (outcome # h), collision_run (outcome # h)),
      b\<lparr>mb_errors := mb_errors b + (if outcome \<noteq> Inr () \<and> \<not> at_once (outcome # h) then 1 else 0)\<rparr>)"
  by (cases outcome) (auto simp: retry_verdict_def at_once_def collided_def collision_run_def backoff_now_def)

locale other_threads =
  fixes w :: "'d bridge_world"
  assumes others_view: "loop_view (mw_others w n b) = loop_view b"
begin

lemma meanwhile_view [simp]: "loop_view (meanwhile w b) = loop_view b"
  by (simp add: meanwhile_def others_view)

lemma fetch_back_view [simp]: "loop_view (fetch_back w href gen source b) = loop_view b"
  by (simp add: fetch_back_def Let_def split: sum.splits option.splits)

lemma write_command_view [simp]: "loop_view (write_command w path body b) = loop_view b"
proof -
  have deferring: "loop_view (fold (\<lambda>h. mb_event (Poll_deferred h COMMAND_SETTLE_S)) hs b) = loop_view b" for hs and b :: "'d bridge"
    by (induction hs arbitrary: b) simp_all
  have merge: "loop_view (fold (\<lambda>(h, rep). bridge_optimistic w h rep) hs b) = loop_view b" for hs and b :: "'d bridge"
    by (induction hs arbitrary: b) (auto split: prod.splits)
  show ?thesis by (simp add: write_command_def Let_def deferring merge split: sum.splits)
qed

lemma handle_command_view [simp]: "loop_view (snd (handle_command w prefix_topic topic payload b)) = loop_view b"
proof -
  have local_only: "loop_view (snd (then_do (maybe_publish_state w True b) (\<lambda>_ b. (Inr Handled, b)))) = loop_view b"
    using maybe_publish_view [of w True b]
    by (cases "maybe_publish_state w True b"; cases "fst (maybe_publish_state w True b)") auto
  show ?thesis
  proof (cases "mw_handler w (drop (length (prefix_topic @ str_of ''/cmd/'') - 4) topic)")
    case None
    then show ?thesis by (simp add: handle_command_def Let_def)
  next
    case (Some handler)
    then show ?thesis using local_only
      by (cases "handler payload (c_links (mb_cache b))")
         (auto simp: handle_command_def Let_def split: command_answer.splits)
  qed
qed

lemma act_view: "loop_view (act w a b) = loop_view b"
  by (cases a) (simp_all add: wake_session_def stop_bridge_def, simp add: loop_view_def loop_events_def)

lemma subscribe_view [simp]: "loop_view (snd (subscribe_paths w paths b)) = loop_view b"
proof (induction paths arbitrary: b)
  case (Cons path paths)
  show ?case by (cases "mw_subscribe w (mb_calls b) path") (simp_all add: Cons)
qed simp

lemma seed_view [simp]: "loop_view (snd (seed_from_device0 w b)) = loop_view b"
proof -
  have link: "loop_view (fold (seed_link w) links b) = loop_view b" for links and b :: "'d bridge"
    by (induction links arbitrary: b) (auto simp: seed_link_def split: prod.splits)
  have seeded: "loop_view (b\<lparr>mb_last_seed := t\<rparr>) = loop_view b" for t and b :: "'d bridge"
    by (simp add: loop_view_def loop_events_def)
  show ?thesis
  proof (cases "mw_get w (mb_calls b) (mw_seed_path w)")
    case (Inr answer)
    then show ?thesis
      by (cases answer; cases "mw_loads w (snd answer)"; cases "index_device_tree (projr (mw_loads w (snd answer)))")
         (auto simp: seed_from_device0_def wall_clock_def link seeded)
  qed (simp add: seed_from_device0_def)
qed

lemma tasks_view [simp]: "loop_view (start_tasks w b) = loop_view b" "loop_view (stop_tasks w b) = loop_view b"
proof -
  have quiet: "loop_view (b\<lparr>mb_tasks := x, mb_clock := y, mb_session_stop := z\<rparr>) = loop_view b"
    "loop_view (b\<lparr>mb_on_unreachable := x, mb_session_stop := z\<rparr>) = loop_view b" for x y z and b :: "'d bridge"
    by (simp_all add: loop_view_def loop_events_def)
  show "loop_view (stop_tasks w b) = loop_view b" by (simp add: stop_tasks_def quiet)
  show "loop_view (start_tasks w b) = loop_view b" by (simp add: start_tasks_def loop_view_def loop_events_def)
qed

lemma run_session_view [simp]: "loop_view (snd (run_session_inner w b)) = loop_view b"
proof -
  have gate: "loop_view (b\<lparr>mb_publish_gate := g\<rparr>) = loop_view b" for g and b :: "'d bridge"
    by (simp add: loop_view_def loop_events_def)
  show ?thesis
    unfolding run_session_inner_def Let_def
    by (intro then_do_keeps [where g = loop_view]) (simp_all add: gate)
qed

lemma session_once_view [simp]: "attempt_view (snd (session_once w b)) = attempt_view b"
proof -
  have opened: "attempt_view (mb_tick (snd (wall_clock w b')\<lparr>mb_session := f, mb_session_started := t, mb_connects := n, mb_cache := c,
      mb_publish_gate := g, mb_unreachable_since := u, mb_force_close := k\<rparr>)) = attempt_view b'"
    for b' :: "'d bridge" and f t n c g u k
    by (simp add: attempt_view_def loop_events_def mb_tick_def wall_clock_def)
  note keeps = attempt_view_keeps [OF run_session_view] attempt_view_keeps [OF meanwhile_view]
  show ?thesis
    unfolding session_once_def Let_def case_prod_beta
    by (intro then_do_keeps [where g = attempt_view]) (simp_all add: opened keeps)
qed

lemma end_session_view: "loop_view (end_session w b) = (loop_events b, mb_errors b, False)"
proof -
  define b1 where "b1 = (if mb_session b then mb_event Session_closed (b\<lparr>mb_session := False\<rparr>) else b)"
  have "loop_view (end_session w b) = loop_view (set_availability w False b1)"
    by (simp add: end_session_def b1_def [symmetric] loop_view_def loop_events_def)
  also have "\<dots> = loop_view b1" by simp
  also have "\<dots> = (loop_events b, mb_errors b, False)"
    by (simp add: b1_def loop_view_def loop_events_def mb_event_def)
  finally show ?thesis .
qed

lemma retry_wait_view:
  assumes "retry_wait w t b = (stop, b')"
  shows "loop_view b' = (loop_events b @ [Retry_wait t], mb_errors b, mb_session b) \<and> stop = mb_stop b'"
proof -
  have "loop_view (mb_event (Retry_wait t) b) = (loop_events b @ [Retry_wait t], mb_errors b, mb_session b)"
    by (simp add: loop_view_def loop_events_def mb_event_def)
  with assms show ?thesis by (auto simp: retry_wait_def Let_def)
qed

lemma reconnect_loop_paced:
  assumes jitter: "\<And>n. 7 / 10 \<le> mw_jitter w n \<and> mw_jitter w n \<le> 13 / 10"
  shows "reconnect_loop w fuel (backoff_after h) (collision_run h) b = Some b' \<Longrightarrow>
    \<exists>evs. loop_events b' = loop_events b @ evs \<and> paced h evs \<and> mb_errors b' = mb_errors b + faults h evs
      \<and> mb_stop b' \<and> ((mb_session b \<longrightarrow> evs \<noteq> []) \<longrightarrow> \<not> mb_session b')"
proof (induction fuel arbitrary: h b)
  case (Suc fuel)
  show ?case
  proof (cases "mb_stop b")
    case True
    with Suc.prems show ?thesis by (intro exI [of _ "[]"]) simp
  next
    case False
    obtain outcome b1 where once: "session_once w b = (outcome, b1)" by fastforce
    define h' where "h' = outcome # h"
    define b2 where "b2 = end_session w ((mb_event (Attempted outcome) b1)
       \<lparr>mb_errors := mb_errors (mb_event (Attempted outcome) b1) + (if outcome \<noteq> Inr () \<and> \<not> at_once h' then 1 else 0)\<rparr>)"
    have b1: "loop_events b1 = loop_events b" "mb_errors b1 = mb_errors b"
      using session_once_view [of b] once by (simp_all add: attempt_view_def)
    have "loop_view b2 = (loop_events b @ [Attempted outcome], mb_errors b + faults h [Attempted outcome], False)"
      unfolding b2_def end_session_view using b1 by (simp add: loop_events_def mb_event_def h'_def)
    then have b2: "loop_events b2 = loop_events b @ [Attempted outcome]" "\<not> mb_session b2"
      "mb_errors b2 = mb_errors b + faults h [Attempted outcome]"
      by (simp_all add: loop_view_def)
    have verdict: "retry_verdict outcome (backoff_after h) (collision_run h) x =
      ((at_once h', backoff_now h', collision_run h'),
        x\<lparr>mb_errors := mb_errors x + (if outcome \<noteq> Inr () \<and> \<not> at_once h' then 1 else 0)\<rparr>)" for x :: "'d bridge"
      unfolding h'_def by (rule verdict_exact)
    have loop: "reconnect_loop w (Suc fuel) (backoff_after h) (collision_run h) b =
      (if mb_stop b2 then Some b2
       else if at_once h' then
         (case retry_wait w PEER_HANDSHAKE_RETRY_S b2 of
            (True, b) \<Rightarrow> Some b | (False, b) \<Rightarrow> reconnect_loop w fuel (backoff_now h') (collision_run h') b)
       else
         (case retry_wait w (min (backoff_now h') 30 * mw_jitter w (mb_calls b2)) (mb_tick b2) of
            (True, b) \<Rightarrow> Some b
          | (False, b) \<Rightarrow> reconnect_loop w fuel (min (backoff_now h' * 2) 30) (collision_run h') b))"
      by (simp only: reconnect_loop.simps False once verdict prod.case if_False Let_def b2_def)
    have wait: ?thesis
      if due: "wait_due h' t" and waited: "retry_wait w t b3 = (stop, b4)" and b3: "loop_view b3 = loop_view b2"
        and goes_on: "(if stop then Some b4 else reconnect_loop w fuel (backoff_after h') (collision_run h') b4) = Some b'"
      for t stop b3 b4
    proof -
      note view = retry_wait_view [OF waited]
      then have b4: "loop_events b4 = loop_events b @ [Attempted outcome, Retry_wait t]" "\<not> mb_session b4"
        "mb_errors b4 = mb_errors b + faults h [Attempted outcome]" "stop = mb_stop b4"
        using b2 b3 by (simp_all add: loop_view_def)
      show ?thesis
      proof (cases stop)
        case True
        with goes_on b4 due show ?thesis
          by (intro exI [of _ "[Attempted outcome, Retry_wait t]"]) (simp add: h'_def)
      next
        case False
        with goes_on have "reconnect_loop w fuel (backoff_after h') (collision_run h') b4 = Some b'" by simp
        from Suc.IH [OF this] obtain evs where "loop_events b' = loop_events b4 @ evs" "paced h' evs"
          "mb_errors b' = mb_errors b4 + faults h' evs" "mb_stop b'" "\<not> mb_session b'"
          using b4(2) by blast
        then show ?thesis using b4 due
          by (intro exI [of _ "Attempted outcome # Retry_wait t # evs"]) (simp add: h'_def)
      qed
    qed
    show ?thesis
    proof (cases "mb_stop b2")
      case True
      with Suc.prems loop b2 show ?thesis by (intro exI [of _ "[Attempted outcome]"]) simp
    next
      case running: False
      show ?thesis
      proof (cases "at_once h'")
        case True
        obtain stop b4 where waited: "retry_wait w PEER_HANDSHAKE_RETRY_S b2 = (stop, b4)" by fastforce
        have "backoff_after h' = backoff_now h'" using True by (simp add: h'_def backoff_now_def)
        with Suc.prems loop running True waited show ?thesis
          by (intro wait [OF _ waited refl]) (auto simp: wait_due_def split: bool.splits)
      next
        case False
        define t where "t = min (backoff_now h') 30 * mw_jitter w (mb_calls b2)"
        obtain stop b4 where waited: "retry_wait w t (mb_tick b2) = (stop, b4)" by fastforce
        have "backoff_now h' \<le> 30 \<and> 0 < backoff_now h'" using backoff_after_bounds [of h] by (simp add: h'_def backoff_now_def)
        moreover have "backoff_after h' = min (backoff_now h' * 2) 30" using False by (simp add: h'_def backoff_now_def Let_def)
        ultimately show ?thesis using Suc.prems loop running False waited jitter [of "mb_calls b2"]
          by (intro wait [OF _ waited]) (auto simp: wait_due_def t_def min_def mult.commute split: bool.splits if_splits)
      qed
    qed
  qed
qed simp

end

interpretation lone: other_threads "alone w" for w
  by unfold_locales (simp add: alone_def)

interpretation acting: other_threads "acting w schedule" for w schedule
proof
  have "loop_view (fold (act (alone w)) acts b) = loop_view b" for acts and b :: "'a bridge"
    by (induction acts arbitrary: b) (simp_all add: lone.act_view)
  then show "loop_view (mw_others (acting w schedule) n b) = loop_view b" for n b
    by (simp add: acting_def)
qed

section \<open>The markers and the broker\<close>

text \<open>What the broker retains of a topic: the last message published on it.\<close>

definition retained :: "topic \<Rightarrow> bridge_event list \<Rightarrow> payload option" where
  "retained t evs =
     foldl (\<lambda>r ev. case ev of Published t' p \<Rightarrow> if t' = t then Some p else r | _ \<Rightarrow> r) None evs"

lemma retained_snoc [simp]:
  "retained t (evs @ [ev]) = (case ev of Published t' p \<Rightarrow> if t' = t then Some p else retained t evs | _ \<Rightarrow> retained t evs)"
  by (cases ev) (simp_all add: retained_def)

text \<open>The marker of a gate topic: the value last published, or \<open>None\<close> before the first and after a reset to offline.\<close>

fun marker :: "topic \<Rightarrow> 'd bridge \<Rightarrow> bool option" where
  "marker Avail_topic b = mb_avail b"
| "marker Remote_topic b = mb_remote b"
| "marker Cycle_topic b = mb_cycle b"
| "marker Push_topic b = mb_push b"
| "marker State_topic b = None"

definition accepts :: "'d bridge_world \<Rightarrow> bool" where
  "accepts w \<longleftrightarrow> (\<forall>n. mw_publish w n = Inr ()) \<and> (\<forall>s. mw_json w s = Inr ())"

text \<open>
  Every handler is a sequence of small steps: one that leaves markers and log alone, one that logs something
  else, a publication with its marker, and, only when a publication may be refused, a marker that runs ahead.
\<close>

definition same_markers :: "topic set \<Rightarrow> 'd bridge \<Rightarrow> 'd bridge \<Rightarrow> bool" where
  "same_markers T b b' \<longleftrightarrow>
     (\<forall>t. t \<notin> T \<longrightarrow> marker t b' = marker t b) \<and> (State_topic \<notin> T \<longrightarrow> mb_state b' = mb_state b)"

inductive micro :: "bool \<Rightarrow> 'd bridge \<Rightarrow> 'd bridge \<Rightarrow> bool" for refusals where
  idle: "same_markers {} b b' \<Longrightarrow> mb_log b' = mb_log b \<Longrightarrow> micro refusals b b'"
| noted: "same_markers {} b b' \<Longrightarrow> mb_log b' = mb_log b @ [ev] \<Longrightarrow> (\<And>t p. ev \<noteq> Published t p) \<Longrightarrow> micro refusals b b'"
| gate: "same_markers {t} b b' \<Longrightarrow> t \<noteq> State_topic \<Longrightarrow> mb_log b' = mb_log b @ [Published t (Gate v)] \<Longrightarrow>
     marker t b' = Some v \<or> marker t b' = None \<and> \<not> v \<Longrightarrow> micro refusals b b'"
| sensors: "same_markers {State_topic} b b' \<Longrightarrow> mb_log b' = mb_log b @ [Published State_topic (Sensors s)] \<Longrightarrow>
     mb_state b' = Some s \<Longrightarrow> micro refusals b b'"
| ahead: "refusals \<Longrightarrow> mb_log b' = mb_log b \<Longrightarrow> micro refusals b b'"

abbreviation steps :: "bool \<Rightarrow> 'd bridge \<Rightarrow> 'd bridge \<Rightarrow> bool" where
  "steps refusals \<equiv> (micro refusals)\<^sup>*\<^sup>*"

definition shown :: "bool option \<Rightarrow> payload option \<Rightarrow> bool" where
  "shown m r \<longleftrightarrow> (case m of Some v \<Rightarrow> r = Some (Gate v) | None \<Rightarrow> r \<in> {None, Some (Gate False)})"

definition mirrors :: "'d bridge \<Rightarrow> bool" where
  "mirrors b \<longleftrightarrow>
     (\<forall>t. t \<noteq> State_topic \<longrightarrow> shown (marker t b) (retained t (mb_log b))) \<and>
     retained State_topic (mb_log b) = map_option Sensors (mb_state b)"

lemma steps_grow: "steps refusals b b' \<Longrightarrow> prefix (mb_log b) (mb_log b')"
proof (induction rule: rtranclp_induct)
  case (step b1 b2)
  from step(2) have "prefix (mb_log b1) (mb_log b2)" by cases auto
  with step(3) show ?case by (rule prefix_order.trans)
qed simp

lemma micro_mirrors: "micro False b b' \<Longrightarrow> mirrors b \<Longrightarrow> mirrors b'"
proof (induction rule: micro.induct)
  case (gate t b b' v)
  show ?case
    unfolding mirrors_def
  proof (intro conjI allI impI)
    fix u :: topic assume "u \<noteq> State_topic"
    with gate show "shown (marker u b') (retained u (mb_log b'))"
      by (cases "u = t") (auto simp: mirrors_def same_markers_def shown_def)
  next
    show "retained State_topic (mb_log b') = map_option Sensors (mb_state b')"
      using gate by (auto simp: mirrors_def same_markers_def)
  qed
next
  case (noted b b' ev)
  then have "retained t (mb_log b') = retained t (mb_log b)" for t by (cases ev) auto
  with noted show ?case by (simp add: mirrors_def same_markers_def)
qed (auto simp: mirrors_def same_markers_def)

lemma steps_mirror: "steps False b b' \<Longrightarrow> mirrors b \<Longrightarrow> mirrors b'"
  by (induction rule: rtranclp_induct) (auto intro: micro_mirrors)

lemmas one_step = r_into_rtranclp [of "micro refusals" for refusals]

lemma steps_idle: "same_markers {} b b' \<Longrightarrow> mb_log b' = mb_log b \<Longrightarrow> steps refusals b b'"
  by (rule one_step) (rule micro.idle)

lemma steps_tick [simp]: "steps refusals b (mb_tick b)"
proof (rule steps_idle)
  have "marker t (mb_tick b) = marker t b" for t by (cases t) (simp_all add: mb_tick_def)
  then show "same_markers {} b (mb_tick b)" by (simp add: same_markers_def mb_tick_def)
qed (simp add: mb_tick_def)

lemma same_markers_update:
  "(mb_state b', mb_avail b', mb_remote b', mb_cycle b', mb_push b') =
   (mb_state b, mb_avail b, mb_remote b, mb_cycle b, mb_push b) \<Longrightarrow> same_markers {} b b'"
proof -
  assume eq: "(mb_state b', mb_avail b', mb_remote b', mb_cycle b', mb_push b') =
   (mb_state b, mb_avail b, mb_remote b, mb_cycle b, mb_push b)"
  then have "marker t b' = marker t b" for t by (cases t) simp_all
  with eq show ?thesis by (simp add: same_markers_def)
qed

text \<open>Anything that leaves the markers and the log alone.\<close>

lemma steps_update:
  "(mb_state b', mb_avail b', mb_remote b', mb_cycle b', mb_push b', mb_log b') =
   (mb_state b, mb_avail b, mb_remote b, mb_cycle b, mb_push b, mb_log b) \<Longrightarrow> steps refusals b b'"
  by (rule steps_idle [OF same_markers_update]) simp_all

lemma steps_event: "(\<And>t p. ev \<noteq> Published t p) \<Longrightarrow> steps refusals b (mb_event ev b)"
  by (rule one_step, rule micro.noted [OF same_markers_update]) (simp_all add: mb_event_def)

text \<open>A publication together with its marker.\<close>

definition with_marker :: "topic \<Rightarrow> bool option \<Rightarrow> 'd bridge \<Rightarrow> 'd bridge" where
  "with_marker t m b =
     (case t of
        Avail_topic \<Rightarrow> b\<lparr>mb_avail := m\<rparr>
      | Remote_topic \<Rightarrow> b\<lparr>mb_remote := m\<rparr>
      | Cycle_topic \<Rightarrow> b\<lparr>mb_cycle := m\<rparr>
      | Push_topic \<Rightarrow> b\<lparr>mb_push := m\<rparr>
      | State_topic \<Rightarrow> b)"

lemma steps_publish:
  assumes "refusals \<or> accepts w" and "t \<noteq> State_topic" and "m = Some v \<or> m = None \<and> \<not> v"
  shows "steps refusals b (snd (mqtt_publish w t (Gate v) (with_marker t m b)))"
proof (cases "mw_publish w (mb_calls (with_marker t m b))")
  case (Inl e)
  then have refusals using assms(1) by (auto simp: accepts_def)
  then have "micro refusals b (mb_tick (with_marker t m b))"
    by (rule micro.ahead) (simp add: mb_tick_def with_marker_def split: topic.splits)
  with Inl show ?thesis by (auto simp: mqtt_publish_def)
next
  case (Inr u)
  have "marker t' (mb_event ev (mb_tick (with_marker t m b))) = (if t' = t then m else marker t' b)" for t' ev
    using assms(2) by (cases t'; cases t) (simp_all add: mb_event_def mb_tick_def with_marker_def)
  moreover have "mb_state (mb_event ev (mb_tick (with_marker t m b))) = mb_state b"
    "mb_log (mb_event ev (mb_tick (with_marker t m b))) = mb_log b @ [ev]" for ev
    by (cases t; simp add: mb_event_def mb_tick_def with_marker_def)+
  ultimately have "micro refusals b (mb_event (Published t (Gate v)) (mb_tick (with_marker t m b)))"
    using assms(2,3) by (intro micro.gate [where t = t and v = v]) (auto simp: same_markers_def)
  with Inr show ?thesis by (auto simp: mqtt_publish_def)
qed

lemmas steps_gates = steps_publish [of _ _ Avail_topic] steps_publish [of _ _ Remote_topic]
  steps_publish [of _ _ Cycle_topic] steps_publish [of _ _ Push_topic]

text \<open>The handlers as steps; \<open>others\<close> says that waits are steps too.\<close>

locale stepping_threads =
  fixes w :: "'d bridge_world" and refusals :: bool
  assumes others_steps: "steps refusals b (mw_others w n b)"
    and refused: "refusals \<or> accepts w"
begin

lemma meanwhile_steps: "steps refusals b (meanwhile w b)"
  unfolding meanwhile_def by (rule rtranclp_trans [OF steps_tick others_steps])

lemma publish_steps:
  "m = Some v \<or> m = None \<and> \<not> v \<Longrightarrow> steps refusals b (snd (mqtt_publish w Avail_topic (Gate v) (b\<lparr>mb_avail := m\<rparr>)))"
  "m = Some v \<or> m = None \<and> \<not> v \<Longrightarrow> steps refusals b (snd (mqtt_publish w Remote_topic (Gate v) (b\<lparr>mb_remote := m\<rparr>)))"
  "m = Some v \<or> m = None \<and> \<not> v \<Longrightarrow> steps refusals b (snd (mqtt_publish w Cycle_topic (Gate v) (b\<lparr>mb_cycle := m\<rparr>)))"
  "m = Some v \<or> m = None \<and> \<not> v \<Longrightarrow> steps refusals b (snd (mqtt_publish w Push_topic (Gate v) (b\<lparr>mb_push := m\<rparr>)))"
  using steps_publish [OF refused, of Avail_topic m v b] steps_publish [OF refused, of Remote_topic m v b]
    steps_publish [OF refused, of Cycle_topic m v b] steps_publish [OF refused, of Push_topic m v b]
  by (simp_all add: with_marker_def)

lemma gate_steps:
  "steps refusals b (publish_remote_available w v f b)"
  "steps refusals b (publish_cycle_active w v f b)"
  "steps refusals b (publish_push_active w v f b)"
  unfolding publish_remote_available_def publish_cycle_active_def publish_push_active_def
  by (auto intro: publish_steps)

lemma publish_gates_steps: "steps refusals b (publish_gates w s f b)"
  unfolding publish_gates_def Let_def
  by (auto intro: gate_steps rtranclp_trans [OF gate_steps(1) gate_steps(2)] split: option.splits)

lemma availability_steps: "steps refusals b (set_availability w v b)"
proof (cases "v \<or> mb_avail b = Some v")
  case True
  then show ?thesis by (auto simp: set_availability_def Let_def intro: publish_steps)
next
  case False
  then have nv: "v = False" and ne: "mb_avail b \<noteq> Some False" by auto
  define b1 where "b1 = snd (mqtt_publish w Avail_topic (Gate v) (b\<lparr>mb_avail := Some v\<rparr>))"
  define b2 where "b2 = (if mw_remote_field w = None then b1
      else snd (mqtt_publish w Remote_topic (Gate False) (b1\<lparr>mb_remote := None\<rparr>)))"
  define b3 where "b3 = (if mw_cycle_field w = None then b2
      else snd (mqtt_publish w Cycle_topic (Gate False) (b2\<lparr>mb_cycle := None\<rparr>)))"
  have "steps refusals b b1" unfolding b1_def by (rule publish_steps) simp
  also have "steps refusals b1 b2" unfolding b2_def by (auto intro: publish_steps)
  also have "steps refusals b2 b3" unfolding b3_def by (auto intro: publish_steps)
  also have "steps refusals b3 (snd (mqtt_publish w Push_topic (Gate False) (b3\<lparr>mb_push := None\<rparr>)))"
    by (rule publish_steps) simp
  also have "snd (mqtt_publish w Push_topic (Gate False) (b3\<lparr>mb_push := None\<rparr>)) = set_availability w v b"
    using ne by (simp only: set_availability_def Let_def b3_def b2_def b1_def nv if_False)
  finally show ?thesis .
qed

lemma then_do_steps:
  assumes "steps refusals b (snd m)" and "\<And>x b. steps refusals b (snd (f x b))"
  shows "steps refusals b (snd (then_do m f))"
proof -
  obtain r b1 where m: "m = (r, b1)" by fastforce
  show ?thesis
  proof (cases r)
    case (Inr x)
    with m assms(1) have "steps refusals b b1" by simp
    also have "steps refusals b1 (snd (f x b1))" by (rule assms(2))
    finally show ?thesis using m Inr by simp
  qed (use m assms(1) in simp)
qed

lemma state_steps: "steps refusals b (snd (then_do (mw_json w s, b\<lparr>mb_state := Some s\<rparr>) (\<lambda>_ b.
     then_do (mqtt_publish w State_topic (Sensors s) b) (\<lambda>_ b. (Inr (), publish_gates w s False b)))))"
proof (cases "mw_json w s")
  case (Inl e)
  then have "micro refusals b (b\<lparr>mb_state := Some s\<rparr>)"
    using refused by (intro micro.ahead) (auto simp: accepts_def)
  with Inl show ?thesis by auto
next
  case (Inr u)
  show ?thesis
  proof (cases "mw_publish w (mb_calls b)")
    case (Inl e)
    then have "micro refusals b (mb_tick (b\<lparr>mb_state := Some s\<rparr>))"
      using refused by (intro micro.ahead) (auto simp: accepts_def mb_tick_def)
    with Inl Inr show ?thesis by (auto simp: mqtt_publish_def)
  next
    case ok: (Inr v)
    define b1 where "b1 = mb_event (Published State_topic (Sensors s)) (mb_tick (b\<lparr>mb_state := Some s\<rparr>))"
    have "marker t b1 = marker t b" for t by (cases t) (simp_all add: b1_def mb_event_def mb_tick_def)
    then have "micro refusals b b1"
      by (intro micro.sensors [where s = s]) (auto simp: b1_def same_markers_def mb_event_def mb_tick_def)
    then have "steps refusals b (publish_gates w s False b1)"
      using publish_gates_steps by (rule converse_rtranclp_into_rtranclp)
    with ok Inr show ?thesis by (simp add: mqtt_publish_def b1_def)
  qed
qed

lemma maybe_publish_steps: "steps refusals b (snd (maybe_publish_state w force b))"
proof (cases "projected w b")
  case (Inr s)
  then show ?thesis using state_steps [of b s] by (auto simp: maybe_publish_state_def)
qed (simp add: maybe_publish_state_def)

lemma clock_steps: "steps refusals b (snd (wall_clock w b))"
  by (simp add: wall_clock_def)

lemma cache_change_steps: "steps refusals b (on_cache_change w changed source b)"
proof -
  define b1 where "b1 = (if changed then
      (case wall_clock w (b\<lparr>mb_notifs := mb_notifs b + 1\<rparr>) of
         (now, b) \<Rightarrow> let b = b\<lparr>mb_last_change := Some now, mb_change_source := Some source\<rparr> in
           if source = PUSH_LABEL then b\<lparr>mb_observe_change := Some now\<rparr> else b)
      else b)"
  have "steps refusals b b1" by (rule steps_update) (simp add: b1_def wall_clock_def mb_tick_def Let_def)
  also have "steps refusals b1 (snd (maybe_publish_state w False b1))" by (rule maybe_publish_steps)
  finally show ?thesis by (simp add: on_cache_change_def Let_def b1_def)
qed

lemma apply_steps:
  "steps refusals b (bridge_apply w href rep source merge b)"
  "steps refusals b (bridge_optimistic w href rep b)"
proof -
  have cached: "steps refusals b (b\<lparr>mb_cache := c\<rparr>)" for c by (rule steps_update) simp
  have changed: "steps refusals b (on_cache_change w changed src (b\<lparr>mb_cache := c\<rparr>))" for c changed src
    by (rule rtranclp_trans [OF cached cache_change_steps])
  show "steps refusals b (bridge_apply w href rep source merge b)" "steps refusals b (bridge_optimistic w href rep b)"
    by (auto simp: bridge_apply_def bridge_optimistic_def intro: cached changed split: prod.splits pyval.splits)
qed

lemma schedule_steps: "steps refusals b (schedule_fetchback href source b)"
  by (rule steps_update) (simp add: schedule_fetchback_def Let_def)

lemma notification_steps:
  "steps refusals b (on_notification w href payload source b)"
  "steps refusals b (on_observe_delivery w href payload registration b)"
  unfolding on_observe_delivery_def on_notification_def
  by (auto intro: schedule_steps apply_steps split: sum.splits pyval.splits)

lemma reassert_steps: "steps refusals b (reassert_availability w b)"
proof (cases "mb_session b \<and> mb_state b \<noteq> None")
  case True
  then obtain s where s: "mb_state b = Some s" "mb_session b" by auto
  define b1 where "b1 = publish_gates w s True (set_availability w True b)"
  have "steps refusals b b1"
    unfolding b1_def by (rule rtranclp_trans [OF availability_steps publish_gates_steps])
  also have "steps refusals b1 (snd (wall_clock w b1))" by (rule clock_steps)
  finally have start: "steps refusals b (snd (wall_clock w b1))" .
  show ?thesis using s rtranclp_trans [OF start gate_steps(3)]
    by (simp add: reassert_availability_def b1_def case_prod_beta)
qed (auto simp: reassert_availability_def split: option.splits)

lemma force_steps: "steps refusals b (maybe_force_reconnect w b)"
proof (cases "mb_unreachable_since b")
  case (Some since)
  have "steps refusals b (mb_event Session_closed b1)" if "steps refusals b b1" for b1
    by (rule rtranclp_trans [OF that steps_event]) simp
  moreover have "steps refusals b (snd (wall_clock w b)\<lparr>mb_force_close := True, mb_on_unreachable := False\<rparr>)"
    "steps refusals b (snd (wall_clock w b)\<lparr>mb_force_close := True\<rparr>)"
    by (rule steps_update, simp add: wall_clock_def mb_tick_def)+
  ultimately show ?thesis using Some clock_steps by (simp add: maybe_force_reconnect_def case_prod_beta Let_def)
qed (simp add: maybe_force_reconnect_def)

lemma reachability_steps:
  "steps refusals b (on_reachable w b)" "steps refusals b (on_unreachable w b)" "steps refusals b (publish_health w b)"
proof -
  have "steps refusals b (b\<lparr>mb_unreachable_since := None\<rparr>)" by (rule steps_update) simp
  from rtranclp_trans [OF rtranclp_trans [OF this availability_steps] reassert_steps]
  show "steps refusals b (on_reachable w b)" by (simp add: on_reachable_def)
  have "steps refusals b (snd (wall_clock w b)\<lparr>mb_unreachable_since := t\<rparr>)" for t
    by (rule steps_update) (simp add: wall_clock_def mb_tick_def)
  from rtranclp_trans [OF this availability_steps] availability_steps
  show "steps refusals b (on_unreachable w b)" by (simp add: on_unreachable_def case_prod_beta)
  show "steps refusals b (publish_health w b)"
    unfolding publish_health_def case_prod_beta Let_def
    by (rule rtranclp_trans [OF rtranclp_trans [OF clock_steps gate_steps(3)] force_steps])
qed

lemma fetch_back_steps: "steps refusals b (fetch_back w href gen source b)"
  unfolding fetch_back_def Let_def
  by (auto intro: meanwhile_steps rtranclp_trans [OF rtranclp_trans [OF meanwhile_steps meanwhile_steps] apply_steps(1)]
      split: sum.splits option.splits)

lemma deferring_steps: "steps refusals b (fold (\<lambda>h. mb_event (Poll_deferred h COMMAND_SETTLE_S)) hs b)"
  by (induction hs arbitrary: b) (auto intro: rtranclp_trans [OF steps_event])

lemma merging_steps: "steps refusals b (fold (\<lambda>(h, rep). bridge_optimistic w h rep) hs b)"
proof (induction hs arbitrary: b)
  case (Cons h hs)
  show ?case by (cases h) (simp add: rtranclp_trans [OF apply_steps(2) Cons.IH])
qed simp

lemma write_command_steps: "steps refusals b (write_command w path body b)"
proof -
  define b1 where "b1 = (if mb_tasks b then fold (\<lambda>h. mb_event (Poll_deferred h COMMAND_SETTLE_S)) (deferred_hrefs path body) b else b)"
  have one: "steps refusals b b1" unfolding b1_def by (auto intro: deferring_steps)
  have two: "steps refusals b (meanwhile w (mb_event (Command_posted path data COMMAND_TIMEOUT_S) b1))" for data
    by (rule rtranclp_trans [OF rtranclp_trans [OF one steps_event] meanwhile_steps]) simp
  show ?thesis
    unfolding write_command_def Let_def b1_def [symmetric]
    by (auto intro: one two rtranclp_trans [OF two merging_steps] split: sum.splits)
qed

lemma handle_command_steps: "steps refusals b (snd (handle_command w prefix_topic topic payload b))"
proof -
  have local_only: "steps refusals b (snd (then_do (maybe_publish_state w True b) (\<lambda>_ b. (Inr Handled, b))))"
    by (rule then_do_steps) (auto intro: maybe_publish_steps)
  show ?thesis
  proof (cases "mw_handler w (drop (length (prefix_topic @ str_of ''/cmd/'') - 4) topic)")
    case (Some handler)
    then show ?thesis using local_only write_command_steps
      by (cases "handler payload (c_links (mb_cache b))")
         (auto simp: handle_command_def Let_def split: command_answer.splits)
  qed (simp add: handle_command_def Let_def)
qed

lemma act_steps: "steps refusals b (act w a b)"
proof (cases a)
  case Stop_requested
  then show ?thesis by (auto intro: steps_update simp: wake_session_def stop_bridge_def)
qed (auto intro: notification_steps apply_steps fetch_back_steps handle_command_steps reachability_steps reassert_steps)

lemma subscribe_steps: "steps refusals b (snd (subscribe_paths w paths b))"
proof (induction paths arbitrary: b)
  case (Cons path paths)
  have "steps refusals b (meanwhile w (mb_event (Subscribed path) b))"
    by (rule rtranclp_trans [OF steps_event meanwhile_steps]) simp
  then show ?case by (auto intro: then_do_steps Cons)
qed simp

lemma seed_steps: "steps refusals b (snd (seed_from_device0 w b))"
proof -
  have link: "steps refusals b (fold (seed_link w) links b)" for links b
  proof (induction links arbitrary: b)
    case (Cons l links)
    have "steps refusals b (seed_link w l b)" by (cases l) (auto simp: seed_link_def intro: apply_steps)
    from rtranclp_trans [OF this Cons.IH] show ?case by simp
  qed simp
  have seeded: "steps refusals b (snd (wall_clock w b1)\<lparr>mb_last_seed := t\<rparr>)" if "steps refusals b b1" for b b1 t
    by (rule rtranclp_trans [OF that steps_update]) (simp add: wall_clock_def mb_tick_def)
  show ?thesis
    unfolding seed_from_device0_def case_prod_beta
    by (intro then_do_steps) (auto intro!: meanwhile_steps then_do_steps seeded link split: sum.splits)
qed

lemma tasks_steps: "steps refusals b (start_tasks w b)" "steps refusals b (stop_tasks w b)"
proof -
  show "steps refusals b (start_tasks w b)" by (rule steps_update) (simp add: start_tasks_def)
  have "steps refusals b (b\<lparr>mb_on_unreachable := x, mb_session_stop := y\<rparr>)" for x y by (rule steps_update) simp
  from rtranclp_trans [OF rtranclp_trans [OF this meanwhile_steps] steps_update]
  show "steps refusals b (stop_tasks w b)" by (simp add: stop_tasks_def)
qed

lemma run_session_steps: "steps refusals b (snd (run_session_inner w b))"
proof -
  have gated: "steps refusals b (snd (maybe_publish_state w True (b\<lparr>mb_publish_gate := True\<rparr>)))" for b
    by (rule rtranclp_trans [OF steps_update maybe_publish_steps]) simp
  have lived: "steps refusals b (stop_tasks w (meanwhile w (start_tasks w (set_availability w True b))))" for b
    by (rule rtranclp_trans [OF rtranclp_trans [OF rtranclp_trans [OF availability_steps tasks_steps(1)] meanwhile_steps] tasks_steps(2)])
  show ?thesis
    unfolding run_session_inner_def Let_def
    by (intro then_do_steps) (auto intro: subscribe_steps seed_steps gated lived)
qed

lemma session_steps: "steps refusals b (snd (session_once w b))"
proof -
  have opened: "steps refusals b (mb_tick (snd (wall_clock w b)\<lparr>mb_session := f, mb_session_started := t, mb_connects := n, mb_cache := c,
      mb_publish_gate := g, mb_unreachable_since := u, mb_force_close := k\<rparr>))" for b f t n c g u k
    by (rule rtranclp_trans [OF steps_update steps_tick]) (simp add: wall_clock_def mb_tick_def)
  show ?thesis
    unfolding session_once_def Let_def case_prod_beta
    by (intro then_do_steps) (auto intro: meanwhile_steps opened run_session_steps)
qed

lemma end_steps: "steps refusals b (end_session w b)"
proof -
  have closed: "steps refusals b (mb_event Session_closed (b\<lparr>mb_session := False\<rparr>))"
    by (rule rtranclp_trans [OF steps_update steps_event]) simp_all
  have "steps refusals b (if mb_session b then mb_event Session_closed (b\<lparr>mb_session := False\<rparr>) else b)"
    by (auto intro: closed)
  from rtranclp_trans [OF rtranclp_trans [OF this availability_steps] steps_update]
  show ?thesis by (simp add: end_session_def)
qed

end

lemma fold_act_steps:
  assumes "stepping_threads (alone w) refusals"
  shows "steps refusals b (fold (act (alone w)) acts b)"
  by (induction acts arbitrary: b) (auto intro: rtranclp_trans [OF stepping_threads.act_steps [OF assms]])

lemma alone_stepping: "refusals \<or> accepts w \<Longrightarrow> stepping_threads (alone w) refusals"
  by unfold_locales (auto simp: alone_def accepts_def)

lemma acting_stepping: "refusals \<or> accepts w \<Longrightarrow> stepping_threads (acting w schedule) refusals"
proof
  assume ok: "refusals \<or> accepts w"
  show "steps refusals b (mw_others (acting w schedule) n b)" for n b
    using fold_act_steps [OF alone_stepping [OF ok]] by (simp add: acting_def)
  show "refusals \<or> accepts (acting w schedule)" using ok by (auto simp: acting_def accepts_def)
qed

text \<open>Whatever the broker does, every handler only adds to the log.\<close>

interpretation growing: stepping_threads "acting w schedule" True for w schedule
  by (rule acting_stepping) simp

text \<open>A broker that accepts every message.\<close>

definition heard :: "'d bridge_world \<Rightarrow> 'd bridge_world" where
  "heard w = w\<lparr>mw_publish := \<lambda>n. Inr (), mw_json := \<lambda>s. Inr ()\<rparr>"

interpretation heard: stepping_threads "acting (heard w) schedule" False for w schedule
  by (rule acting_stepping) (simp add: heard_def accepts_def)

interpretation heard_alone: stepping_threads "alone (heard w)" False for w
  by (rule alone_stepping) (simp add: heard_def accepts_def)

lemma accepting_heard: "accepts w \<Longrightarrow> heard w = w"
  by (cases w) (auto simp: heard_def accepts_def)

text \<open>The states of a bridge between its sessions and its handlers, under any schedule of its threads.\<close>

inductive reached :: "'d bridge_world \<Rightarrow> 'd \<Rightarrow> 'd bridge \<Rightarrow> bool" for w d where
  started: "reached w d (bridge_new d)"
| action: "reached w d b \<Longrightarrow> reached w d (act (alone w) a b)"
| session: "reached w d b \<Longrightarrow> reached w d (snd (session_once (acting w schedule) b))"
| ended: "reached w d b \<Longrightarrow> reached w d (end_session (alone w) b)"

lemma reached_mirrors:
  assumes "reached (heard w) d b"
  shows "mirrors b"
  using assms
proof induction
  case started
  have "marker t (bridge_new d) = None" for t by (cases t) (simp_all add: bridge_new_def)
  then show ?case by (simp add: mirrors_def shown_def bridge_new_def retained_def)
next
  case (action b a)
  then show ?case using heard_alone.act_steps steps_mirror by blast
next
  case (session b schedule)
  then show ?case using heard.session_steps steps_mirror by blast
next
  case (ended b)
  then show ?case using heard_alone.end_steps steps_mirror by blast
qed

end
