(* ===== verification/Bridge_Properties.thy ===== *)
theory Bridge_Properties
  imports Bridge_Behaviour
begin

text \<open>
  The properties of the bridge: the pacing of its reconnects, what a command writes, how what the broker
  retains follows the bridge, and that a request to stop reaches the workers of the session.
\<close>

section \<open>Reconnecting\<close>

text \<open>C36.
  The reconnect loop is paced. Whatever its sessions do and whatever the other threads do meanwhile, attempts
  and waits alternate; a handshake the appliance refused because it was opening its own is retried after half a
  second at most four times in a row, every other wait is within 30 percent of the backoff, which is one second
  after a session that ended well and otherwise doubles up to 30 seconds; exactly the outcomes not retried at
  once are counted as errors; the loop returns only when the bridge is stopped, with no session left.
\<close>

theorem reconnects_paced:
  assumes "bridge_forever (acting w schedule) fuel b = Some b'"
    and "\<And>n. 7 / 10 \<le> mw_jitter w n \<and> mw_jitter w n \<le> 13 / 10"
  shows "\<exists>evs. loop_events b' = loop_events b @ evs \<and> paced [] evs \<and> mb_errors b' = mb_errors b + faults [] evs
    \<and> mb_stop b' \<and> (evs \<noteq> [] \<longrightarrow> \<not> mb_session b')"
proof -
  have "mw_jitter (acting w schedule) = mw_jitter w" by (simp add: acting_def)
  with acting.reconnect_loop_paced [of w schedule fuel "[]" b b'] assms show ?thesis
    by (auto simp: bridge_forever_def collision_run_def)
qed

definition demo_bridge_world :: "unit bridge_world" where
  "demo_bridge_world =
     \<lparr>mw_publish = (\<lambda>n. Inr ()), mw_wall = (\<lambda>n. 1000 + real n),
      mw_cache = \<lparr>cw_wall = (\<lambda>n. 1000 + real n), cw_hook = None, cw_on_change = True\<rparr>,
      mw_flatten = (\<lambda>links. Inr [(PyStr (str_of ''remote''), PyInt (int (length links)))]), mw_project = None,
      mw_json = (\<lambda>s. Inr ()), mw_remote_field = Some (PyStr (str_of ''remote'')), mw_cycle_field = None,
      mw_loads = (\<lambda>bs. Inr (PyList [PyDict [(PyStr (str_of ''href''), PyStr (str_of ''/power'')),
                                            (PyStr (str_of ''rep''), PyDict [(PyStr (str_of ''on''), PyInt 1)])]])),
      mw_dumps = (\<lambda>v. Inr [0xA0]),
      mw_handler = (\<lambda>suffix. if suffix = str_of ''cmd/power''
         then Some (\<lambda>payload links. Inr (Write_command [str_of ''power''] (PyDict [(PyStr (str_of ''on''), PyInt 0)])))
         else None),
      mw_resolve = (\<lambda>n. if n = 0 then Inl PeerInitiatedHandshakeError else Inl Py_ConnectionError),
      mw_connect = (\<lambda>n p. Inr ()), mw_start = (\<lambda>n. Inr ()), mw_subscribe = (\<lambda>n p. Inr ()),
      mw_get = (\<lambda>n p. Inr (0x45, [1])), mw_post = (\<lambda>n p d. Inr (0x44, [])), mw_join = (\<lambda>n. Inr ()),
      mw_jitter = (\<lambda>n. 1), mw_observe_paths = [[str_of ''power'']], mw_seed_path = [str_of ''device'', str_of ''0''],
      mw_clock = None, mw_clear = (), mw_others = (\<lambda>n b. b)\<rparr>"

text \<open>A collision, two faults, and a stop during the third wait.\<close>

lemma session_unresolved: "mw_resolve w (mb_calls b) = Inl e \<Longrightarrow> session_once w b = (Inl e, meanwhile w b)"
  by (simp add: session_once_def)

theorem reconnects_paced_witness:
  "\<exists>b'. bridge_forever (acting demo_bridge_world (\<lambda>n. if n < 10 then [] else [Stop_requested])) 3 (bridge_new ()) = Some b'
     \<and> length (loop_events b') = 6 \<and> paced [] (loop_events b') \<and> mb_errors b' = faults [] (loop_events b') \<and> mb_stop b'"
proof -
  let ?run = "bridge_forever (acting demo_bridge_world (\<lambda>n. if n < 10 then [] else [Stop_requested])) 3 (bridge_new ())"
  have "\<exists>b'. ?run = Some b' \<and> length (loop_events b') = 6"
    by (simp add: bridge_forever_def numeral_3_eq_3 session_unresolved acting_def demo_bridge_world_def bridge_new_def
        meanwhile_def retry_verdict_def isinstance_of_def eval_nat_numeral PEER_HANDSHAKE_MAX_IMMEDIATE_def
        end_session_def mb_event_def mb_tick_def set_availability_def mqtt_publish_def retry_wait_def
        PEER_HANDSHAKE_RETRY_S_def wake_session_def stop_bridge_def loop_events_def Let_def)
  then obtain b' where run: "?run = Some b'" and six: "length (loop_events b') = 6" by blast
  have "7 / 10 \<le> mw_jitter demo_bridge_world n \<and> mw_jitter demo_bridge_world n \<le> 13 / 10" for n
    by (simp add: demo_bridge_world_def)
  from reconnects_paced [OF run this] run six show ?thesis
    by (auto simp: bridge_new_def loop_events_def)
qed

section \<open>What the broker retains\<close>

lemma alone_fields: "mqtt_publish (alone w) = mqtt_publish w" "mw_remote_field (alone w) = mw_remote_field w"
  "mw_cycle_field (alone w) = mw_cycle_field w"
  by (simp_all add: fun_eq_iff mqtt_publish_def alone_def)

lemma publish_avail: "mb_avail (snd (mqtt_publish w t p b)) = mb_avail b"
  by (simp add: mqtt_publish_def mb_tick_def mb_event_def split: sum.splits)

lemma ended_offline: "mb_avail (end_session w b) = Some False"
  by (simp add: end_session_def set_availability_def publish_avail Let_def)


text \<open>
  The will the broker publishes when the connection is lost is such a message the bridge does not know of: the
  availability marker still says online, so \<open>reassert_availability\<close>, called on the reconnect, leaves the
  appliance shown as offline.
\<close>

lemma will_left_standing:
  assumes "mb_avail b = Some True"
  shows "retained Avail_topic (mb_log (reassert_availability w (mb_event (Published Avail_topic (Gate False)) b)))
    = Some (Gate False)"
proof -
  have other: "retained Avail_topic (mb_log (snd (mqtt_publish w t p b))) = retained Avail_topic (mb_log b)"
    if "t \<noteq> Avail_topic" for t p and b :: "'a bridge"
    using that by (auto simp: mqtt_publish_def mb_event_def mb_tick_def split: sum.splits)
  have gates: "retained Avail_topic (mb_log (publish_gates w s f b)) = retained Avail_topic (mb_log b)"
    "retained Avail_topic (mb_log (publish_push_active w v f b)) = retained Avail_topic (mb_log b)"
    for s f v and b :: "'a bridge"
    by (simp_all add: publish_gates_def publish_remote_available_def publish_cycle_active_def publish_push_active_def
        other Let_def split: option.splits)
  have "set_availability w True (mb_event ev b) = mb_event ev b" for ev
    using assms by (simp add: set_availability_def mb_event_def)
  then show ?thesis
    by (simp add: reassert_availability_def case_prod_beta gates wall_clock_def mb_tick_def split: option.splits)
       (simp add: mb_event_def)
qed


section \<open>Stopping\<close>

text \<open>
  A request to stop runs in two sections, and the session thread publishes and retires the handle of its workers
  in between, before or after: \<open>n\<close> counts the requests between their sections.
\<close>

inductive stop_reach :: "'d bridge_world \<Rightarrow> 'd bridge \<Rightarrow> nat \<Rightarrow> bool" for w where
  stop_start: "stop_reach w (bridge_new d) 0"
| stop_requested: "stop_reach w b n \<Longrightarrow> stop_reach w (stop_bridge b) (Suc n)"
| stop_woken: "stop_reach w b (Suc n) \<Longrightarrow> stop_reach w (wake_session b) n"
| stop_handle: "stop_reach w b n \<Longrightarrow> stop_reach w (start_tasks w b) n"
| stop_retired: "stop_reach w b n \<Longrightarrow> stop_reach w (b\<lparr>mb_tasks := False, mb_clock := False, mb_session_stop := None\<rparr>) n"
| stop_elsewhere: "stop_reach w b n \<Longrightarrow> mb_stop b' = mb_stop b \<Longrightarrow> mb_session_stop b' = mb_session_stop b \<Longrightarrow> stop_reach w b' n"

text \<open>No request to stop is lost. In whatever order requests and the hand-over of the session's stop event
  interleave, once a bridge that was stopped has no request left between its two sections, no session has
  workers that were not told to stop.
\<close>

theorem stop_reaches_workers:
  assumes "stop_reach w b n"
  shows "mb_stop b \<and> n = 0 \<longrightarrow> mb_session_stop b \<noteq> Some False"
  using assms
proof induction
  case (stop_woken b n)
  then show ?case by (cases "mb_session_stop b") (simp_all add: wake_session_def)
qed (auto simp: bridge_new_def stop_bridge_def start_tasks_def)

text \<open>A request whose first section runs before the hand-over and whose second section runs after it.\<close>

theorem stop_reaches_workers_witness:
  "\<exists>b. stop_reach demo_bridge_world b 0 \<and> mb_stop b \<and> mb_tasks b \<and> mb_session_stop b \<noteq> Some False"
proof -
  let ?b = "wake_session (start_tasks demo_bridge_world (stop_bridge (bridge_new ())))"
  have reach: "stop_reach demo_bridge_world ?b 0"
    by (intro stop_reach.stop_woken stop_reach.stop_handle stop_reach.stop_requested stop_reach.stop_start)
  have "mb_stop ?b \<and> mb_tasks ?b" by (simp add: wake_session_def start_tasks_def stop_bridge_def)
  with stop_reaches_workers [OF reach] reach show ?thesis by blast
qed

section \<open>Commands\<close>

text \<open>A callback of the cache publishes; the cache itself it leaves alone.\<close>

lemma publishing_cache [simp]:
  "mb_cache (mb_tick b) = mb_cache b" "mb_cache (mb_event ev b) = mb_cache b"
  "mb_cache (snd (mqtt_publish w t p b)) = mb_cache b"
  "mb_cache (publish_gates w s f b) = mb_cache b"
  by (auto simp: mb_tick_def mb_event_def mqtt_publish_def publish_gates_def publish_remote_available_def
      publish_cycle_active_def Let_def split: sum.splits option.splits)

lemma then_do_cache: "(\<And>x b. mb_cache (snd (f x b)) = mb_cache b) \<Longrightarrow> mb_cache (snd (then_do m f)) = mb_cache (snd m)"
  by (cases m; cases "fst m") auto

lemma publishing_state_cache [simp]: "mb_cache (snd (maybe_publish_state w force b)) = mb_cache b"
proof -
  have "mb_cache (snd (then_do (mqtt_publish w State_topic (Sensors s) b) (\<lambda>_ b. (Inr (), publish_gates w s False b)))) = mb_cache b"
    for s b by (simp add: then_do_cache)
  then have "mb_cache (snd (then_do (mw_json w s, b\<lparr>mb_state := Some s\<rparr>) (\<lambda>_ b.
      then_do (mqtt_publish w State_topic (Sensors s) b) (\<lambda>_ b. (Inr (), publish_gates w s False b))))) = mb_cache b"
    for s b by (simp add: then_do_cache)
  then show ?thesis by (simp add: maybe_publish_state_def then_do_cache)
qed

lemma cache_change_cache [simp]: "mb_cache (on_cache_change w changed source b) = mb_cache b"
  by (simp add: on_cache_change_def wall_clock_def Let_def)

lemma optimistic_cache:
  "mb_cache (bridge_optimistic w h rep b) = snd (apply_optimistic (mw_cache w) (\<lambda>c. c) h rep (mb_cache b))"
  by (auto simp: bridge_optimistic_def split: prod.split pyval.split)

text \<open>The targets of a write name each href once, and their polls are deferred.\<close>

lemma batch_targets_ok: "dict_ok (batch_targets body)"
  unfolding batch_targets_def
  by (rule fold_invariant [where Q = "\<lambda>_. True"])
     (auto simp: dict_set_ok split: pyval.split option.split, simp add: dict_ok_def)

lemma write_targets_distinct: "distinct (map (canon \<circ> fst) (write_targets path body))"
  using batch_targets_ok
  by (auto simp: write_targets_def dict_ok_def comp_def case_prod_beta split: pyval.split)

lemma write_targets_deferred: "fst ` set (write_targets path body) \<subseteq> set (deferred_hrefs path body)"
  by (cases body) (auto simp: write_targets_def deferred_hrefs_def intro: rev_image_eqI)

text \<open>Every target's fields read back after the merges.\<close>

definition clean_reps :: "(pyval \<times> pyval) list \<Rightarrow> bool" where
  "clean_reps targets = list_all (\<lambda>(h, rep). case rep of PyDict d \<Rightarrow> dict_ok d | _ \<Rightarrow> True) targets"

lemma held_optimistic_other:
  assumes "canon h \<noteq> canon href" and "case rep of PyDict d \<Rightarrow> dict_ok d | _ \<Rightarrow> True"
  shows "held (mb_cache (bridge_optimistic w h rep b)) href k = held (mb_cache b) href k"
proof (cases rep)
  case (PyDict d)
  with assms(2) have "dict_ok d" by simp
  with assms(1) PyDict show ?thesis by (simp add: optimistic_cache apply_optimistic_alone)
qed (simp_all add: optimistic_cache apply_optimistic_def)

lemma held_after_merges:
  assumes "distinct (map (canon \<circ> fst) targets)" and "clean_reps targets"
    and "(href, PyDict d) \<in> set targets" and "dict_get d k = Some v"
  shows "held (mb_cache (fold (\<lambda>(h, rep). bridge_optimistic w h rep) targets b)) href k = Some v"
  using assms
proof (induction targets rule: rev_induct)
  case (snoc x targets)
  obtain h rep where x: "x = (h, rep)" by fastforce
  have clean: "case rep of PyDict d \<Rightarrow> dict_ok d | _ \<Rightarrow> True" using snoc.prems(2) x by (simp add: clean_reps_def)
  show ?case
  proof (cases "(href, PyDict d) \<in> set targets")
    case True
    then have "canon h \<noteq> canon href" using snoc.prems(1) x by (force simp: comp_def)
    moreover have "held (mb_cache (fold (\<lambda>(h, rep). bridge_optimistic w h rep) targets b)) href k = Some v"
      using snoc True by (simp add: clean_reps_def)
    ultimately show ?thesis using x clean by (simp add: held_optimistic_other)
  next
    case False
    then have hrep: "h = href" "rep = PyDict d" using snoc.prems(3) x by auto
    then have "dict_ok d" using clean by simp
    then show ?thesis using hrep snoc.prems(4) x by (simp add: optimistic_cache apply_optimistic_alone)
  qed
qed simp

lemma deferring_log:
  "mb_log (fold (\<lambda>h. mb_event (Poll_deferred h t)) hs b) = mb_log b @ map (\<lambda>h. Poll_deferred h t) hs"
  "mb_calls (fold (\<lambda>h. mb_event (Poll_deferred h t)) hs b) = mb_calls b"
  by (induction hs arbitrary: b) (auto simp: mb_event_def)



end
