(* ===== verification/Spec2Isabelle.thy ===== *)
theory Spec2Isabelle
  imports Errors Prelude Coap_Wire Block2 Coap_Tcp Ble_Ocf Sha256 Owner_Psk Dtls_Record Dtls_Psk Dtls_Reach
    Session_State Session_Dispatch Session_Requests Reader_Relation Request_Format Request_Outcome
    Request_Transfer Request_Progress Session_Observe Udp_Endpoint Dtls_Handshake Session_Connect State_Cache
    Poll_Scheduler Keepalive Ocf_Directory Ocf_Fetch Ocf_Transfer Ocf_Multicast Ocf_Responders
    Dtls_Probe Probe_Soundness Dtls_Diagnosis Diagnosis_Report Auth_Providers Auth_Identity
    Clock_Sync Bridge_Ports Mqtt_Bridge Bridge_Behaviour Bridge_Properties
begin

text \<open>
  SmartThings-Local talks to Samsung appliances on the local network: CoAP over DTLS (and over
  TCP and BLE), with OCF on top. This development models the protocol stack of the library,
  \<open>src/smartthings_local/\<close>, and the MQTT bridge built on it, \<open>src/mqtt_demo/\<close>, and proves what each
  layer promises to the one above it. Paths below are relative to \<open>src/smartthings_local/\<close> unless they
  start with \<open>mqtt_demo/\<close>.

  \<^bold>\<open>Conventions.\<close> A byte is an \<open>8 word\<close>, a Python \<open>bytes\<close> a list of them, a \<open>str\<close> the list of its
  code points, an argument of unknown type a \<open>pyval\<close>; unbounded Python integers are \<open>nat\<close> or
  \<open>int\<close>. An operation that may raise returns \<open>exc + 'a\<close> (\<open>Inl\<close> raises, and every raise, early
  return and caught exception of the source is a branch); one that changes an object takes its
  record and returns it updated, with the exception it raised if it did. Dictionaries whose order
  or size matters are association lists, the others maps. Reads out of range are checked
  (\<open>Prelude.item\<close>) and raise \<open>IndexError\<close>.

  \<^bold>\<open>Theories.\<close>
  \<^item> \<open>Errors\<close> (\<open>errors.py\<close> and the codec errors): the exception classes, their bases, \<open>except\<close>
    matching by \<open>isinstance_of\<close>, stable codes. \<open>Prelude\<close>: results, slices, big-endian
    integers, UTF-8, \<open>split\<close> and \<open>join\<close>.
  \<^item> \<open>Coap_Wire\<close> (\<open>protocol/coap.py\<close>): options, builders, the strict decoder, Block-N values,
    response classification, DTLS record splitting. Round trips in both directions: the decoder
    accepts exactly what the builder writes.
  \<^item> \<open>Block2\<close> (\<open>protocol/coap.py\<close>, \<open>Block2Accumulator\<close>): bounded, token-stable reassembly, with
    correctness against a server's blocks and bounds against any peer.
  \<^item> \<open>Coap_Tcp\<close> (\<open>protocol/coap_tcp.py\<close>): RFC 8323 frames and the incremental decoder, refined to
    the messages of the whole stream through the locale \<open>framing\<close>.
  \<^item> \<open>Ble_Ocf\<close> (\<open>protocol/ble_ocf.py\<close>): fragmentation and the two reassemblers.
  \<^item> \<open>Sha256\<close>, \<open>Owner_Psk\<close> (\<open>protocol/owner_psk.py\<close>): the OwnerPSK derivation over SHA-256 and
    HMAC written out from their standards.
  \<^item> \<open>Dtls_Record\<close>, \<open>Dtls_Psk\<close>, \<open>Dtls_Reach\<close> (\<open>protocol/_dtls_psk.py\<close>): the DTLS 1.2 ECDHE-PSK
    client. First its PRF, replay window and MAC-then-encrypt records, then the memory BIO, flights,
    handshake states, alerts and retransmission, then what every sequence of calls reaches:
    when a connection is established, where its keys and application data come from, what bounds
    its memory.
  \<^item> \<open>Session_State\<close>, \<open>Session_Dispatch\<close>, \<open>Session_Requests\<close>, \<open>Session_Observe\<close>
    (\<open>protocol/dtls_session.py\<close>): \<open>DtlsCoapSession\<close>. Its state and the operations under one lock;
    the reader's dispatch of a datagram to a request or an Observe relation; the callers' GET,
    POST, Block1 upload and DELETE; subscriptions and teardown.
  \<^item> \<open>Reader_Relation\<close>, \<open>Request_Format\<close>, \<open>Request_Outcome\<close>, \<open>Request_Transfer\<close>,
    \<open>Request_Progress\<close>: what holds of those requests: their wire form, which response ends them,
    how often they are sent, what a whole GET returns, and that they return.

  \<^item> \<open>Udp_Endpoint\<close> (\<open>protocol/endpoint.py\<close>): argument checks, candidates from the resolver, socket
    setup in which any system call may fail, the host-filtered receive loop.
  \<^item> \<open>Dtls_Handshake\<close> (\<open>protocol/dtls_handshake.py\<close>): strict record parsing, the transcript from which
    the peer-cleanup alert is built, and the memory-BIO driver over any DTLS engine (locales
    \<open>driver_relation\<close> and \<open>dtls_engine\<close>, the latter interpreted on the PSK client of \<open>Dtls_Psk\<close>).
  \<^item> \<open>Session_Connect\<close> (\<open>protocol/dtls_session.py\<close>): \<open>connect()\<close> from its arguments to publication,
    every error path included.
  \<^item> \<open>State_Cache\<close>, \<open>Poll_Scheduler\<close>, \<open>Keepalive\<close> (\<open>ocf/\<close>): the resource cache and its freshness, the
    tiered poller with its write deferral (locale \<open>polling\<close>), reachability and the refresh task.
  \<^item> \<open>Ocf_Directory\<close>, \<open>Ocf_Fetch\<close> (\<open>protocol/ocf_discovery.py\<close>): what ports a directory answer
    yields; the plaintext blockwise client with routes, attempts and a pinned peer.
    \<open>Ocf_Transfer\<close> proves what a transfer returns, that it returns, and where discovered ports come from.
  \<^item> \<open>Ocf_Multicast\<close> (\<open>protocol/ocf_multicast.py\<close>): the multicast rounds and the reads of every
    responder; \<open>Ocf_Responders\<close> proves what the reported ports and responders are.
  \<^item> \<open>Dtls_Probe\<close>, \<open>Dtls_Diagnosis\<close> (\<open>protocol/dtls_probe.py\<close>): the stateless liveness probe of one
    port and the selection among several; the diagnostic handshake, which watches the datagrams the
    driver of \<open>Dtls_Handshake\<close> exchanges. \<open>Probe_Soundness\<close> and \<open>Diagnosis_Report\<close> prove what proves a
    server, that probes return, what they send, and that a report is that of the datagrams received.
  \<^item> \<open>Auth_Providers\<close> (\<open>protocol/auth.py\<close>): the Samsung server profile, its verification callback, the
    certificate and PSK providers as sequences of calls on an OpenSSL context. \<open>Auth_Identity\<close> proves
    which certificates the profile accepts and that a PSK identity is never sent truncated.
  \<^item> \<open>Mqtt_Bridge\<close> (\<open>mqtt_demo/bridge.py\<close>, \<open>PushBridge\<close>): publications and the markers that suppress
    repeated ones, notifications and fetchbacks, commands, one session, the reconnect loop and stopping.
    \<open>Bridge_Ports\<close> is its port resolution, over the probe and the directory read above, and proves that
    a resolved port was proved by its host. \<open>Bridge_Behaviour\<close> lets the handlers of the other threads run
    wherever the session thread waits (locales \<open>other_threads\<close>, \<open>stepping_threads\<close>); \<open>Bridge_Properties\<close>
    proves the pacing of reconnects, what a command writes, that what the broker retains is what the
    bridge believes, and that a stop reaches the workers.
  \<^item> \<open>Clock_Sync\<close> (\<open>mqtt_demo/clock_sync.py\<close>): the write of the host clock, its plausible window and schedule.

  \<^bold>\<open>Threads.\<close> The session is shared by its reader, the callers, a refetch worker and the user's
  callbacks. A section of the code that holds a lock is one definition. Wherever a thread sends,
  waits, sleeps or calls back, the others run: \<open>interlude w\<close> applies \<open>w_threads w\<close>, a parameter,
  to the whole session. \<open>lock_step\<close> lists the sections by which any thread changes the tables the
  locks protect, and the locale \<open>interleaved\<close> assumes of the others only that they take such
  steps; it is interpreted on the reader of the model (\<open>with_reader\<close>). The same shape serves for
  other guarantees of a wait: \<open>waiting\<close> (any relation the waits keep), \<open>sending\<close> and
  \<open>requesting\<close> (graded by the datagrams sent), \<open>others_send\<close>, \<open>observe_locked\<close>, \<open>progressing\<close>,
  and \<open>reader_kept\<close> for one round of the reader. Clocks, random bytes and the outcome of each send
  are functions of the number of the call (\<open>s_calls\<close>), so that any behaviour of them is covered.

  \<^bold>\<open>Fuel.\<close> Loops that wait take fuel, one unit for each turn, and \<open>None\<close> is fuel that ran out.
  \<open>Request_Progress\<close> proves that more fuel never changes a result and that for clocks that pass
  every deadline there is enough, so the results are facts of the code. The loops of the bridge and
  of the clock task run until they are stopped; their fuel counts turns, and their theorems speak of
  every run that was stopped. All other loops are total functions.

  \<^bold>\<open>Parameters.\<close> AES-CBC, the elliptic-curve operations, random bytes, clocks, \<open>getaddrinfo\<close>,
  \<open>inet_pton\<close>, URL splitting, CBOR decoding, X.509 parsing, the calls of OpenSSL, selectors and sockets are arguments of the definitions that
  use them; where a theorem needs a law of one of them (decryption inverts encryption, a key exchange
  is commutative) it is a named hypothesis, with a witness that shows it can hold. Address families are
  those of Linux. A \<open>PyFloat\<close> is a finite float.

  \<^bold>\<open>Not modelled.\<close> Inside \<open>connect()\<close> and the probe, the OpenSSL connection object itself: what it
    writes is an argument. The command line of \<open>dtls_probe.py\<close>; of the MQTT demonstration the tables
    that describe one appliance each (\<open>descriptor.py\<close>, \<open>samples/\<close>), the reading of environment variables
    and the start-up, the discovery payloads and the counters of the health message; the certificate
    setup and the repository's tools: they are tables or calls of libraries outside the repository
    (argparse, MQTT, HTTP). Log messages, object representations, the refusal to assign attributes of
    the providers and the wording of exceptions are left out everywhere.
\<close>

end
